(* ===== verification/Rannc_Prelude.thy ===== *)
theory Rannc_Prelude
  imports Main "HOL-Library.AList" "HOL-Library.Word"
begin

text \<open>
  Shared vocabulary of the development: the exceptions of the C++ code as values, the
  sequencing of computations that may throw, the model of \<open>std::unordered_map\<close>, and the
  machine integers.

  \<^item> \<open>exc\<close> names what stops a call: a thrown \<open>std::invalid_argument\<close>, \<open>std::out_of_range\<close> or
    \<open>std::runtime_error\<close>, a failed \<open>assert\<close>, or undefined behaviour (an integer division by zero,
    an access past the end of a vector through \<open>operator[]\<close>). \<open>Never_returns\<close> is the result of a
    loop that does not end.
  \<^item> \<open>'a res\<close> is \<open>exc + 'a\<close>; \<open>rbind\<close> is sequencing.
  \<^item> \<open>('k, 'v) umap\<close> is an association list: the order of the list stands for the (unspecified)
    iteration order of the hash map; statements are made for every such order.
  \<^item> \<open>size_t\<close> is a 64-bit word where wrap-around can matter; \<open>to_size\<close> is the conversion of a
    signed integer to \<open>size_t\<close> read back as a mathematical integer.
\<close>

named_theorems umap_simps \<open>rewrite rules for the unordered_map model\<close>
named_theorems res_simps \<open>rewrite rules for computations that may throw\<close>

section \<open>Exceptions\<close>

datatype exc =
    Invalid_argument
  | Out_of_range
  | Runtime_error
  | Assertion_failed
  | Undefined_behaviour
  | Never_returns

type_synonym 'a res = "exc + 'a"

definition rbind :: "'a res \<Rightarrow> ('a \<Rightarrow> 'b res) \<Rightarrow> 'b res" where
  "rbind r f = (case r of Inl e \<Rightarrow> Inl e | Inr x \<Rightarrow> f x)"

lemma rbind_Inl [simp, res_simps]: "rbind (Inl e) f = Inl e"
  by (simp add: rbind_def)

lemma rbind_Inr [simp, res_simps]: "rbind (Inr x) f = f x"
  by (simp add: rbind_def)

lemma rbind_eq_Inr [res_simps]: "rbind r f = Inr y \<longleftrightarrow> (\<exists>x. r = Inr x \<and> f x = Inr y)"
  by (cases r) auto

lemma rbind_cong [fundef_cong]:
  "r = r' \<Longrightarrow> (\<And>x. r' = Inr x \<Longrightarrow> f x = f' x) \<Longrightarrow> rbind r f = rbind r' f'"
  by (cases r') auto

definition rassert :: "bool \<Rightarrow> unit res" where
  "rassert b = (if b then Inr () else Inl Assertion_failed)"

lemma rassert_simps [simp, res_simps]:
  "rassert True = Inr ()" "rassert False = Inl Assertion_failed"
  by (simp_all add: rassert_def)

lemma rassert_eq_Inr [simp, res_simps]: "rassert b = Inr u \<longleftrightarrow> b"
  by (simp add: rassert_def)

text \<open>A loop over a vector that calls a function that may throw and collects its results.\<close>

fun rmap :: "('a \<Rightarrow> 'b res) \<Rightarrow> 'a list \<Rightarrow> 'b list res" where
  "rmap f [] = Inr []"
| "rmap f (x # xs) = rbind (f x) (\<lambda>y. rbind (rmap f xs) (\<lambda>ys. Inr (y # ys)))"

text \<open>A loop over a vector that updates a state and may throw.\<close>

fun rfold :: "('a \<Rightarrow> 's \<Rightarrow> 's res) \<Rightarrow> 'a list \<Rightarrow> 's \<Rightarrow> 's res" where
  "rfold f [] s = Inr s"
| "rfold f (x # xs) s = rbind (f x s) (rfold f xs)"

text \<open>The elements on which a throwing condition holds, as \<open>std::copy_if\<close> with a throwing predicate.\<close>

fun rfilter :: "('a \<Rightarrow> bool res) \<Rightarrow> 'a list \<Rightarrow> 'a list res" where
  "rfilter p [] = Inr []"
| "rfilter p (x # xs) =
     rbind (p x) (\<lambda>b. rbind (rfilter p xs) (\<lambda>ys. Inr (if b then x # ys else ys)))"

lemma rmap_cong [fundef_cong]:
  "xs = ys \<Longrightarrow> (\<And>x. x \<in> set ys \<Longrightarrow> f x = g x) \<Longrightarrow> rmap f xs = rmap g ys"
  by (induction ys arbitrary: xs) auto

lemma rmap_Inr: "(\<And>x. x \<in> set xs \<Longrightarrow> f x = Inr (g x)) \<Longrightarrow> rmap f xs = Inr (map g xs)"
  by (induction xs) auto

lemma rmap_total: "(\<And>x. x \<in> set xs \<Longrightarrow> \<exists>y. f x = Inr y) \<Longrightarrow> \<exists>ys. rmap f xs = Inr ys"
proof (induction xs)
  case (Cons x xs)
  then obtain y ys where "f x = Inr y" "rmap f xs = Inr ys" by (metis list.set_intros)
  then show ?case by simp
qed simp

lemma rmap_mem: "rmap f xs = Inr ys \<Longrightarrow> y \<in> set ys \<longleftrightarrow> (\<exists>x \<in> set xs. f x = Inr y)"
  by (induction xs arbitrary: ys) (auto simp: rbind_eq_Inr)

lemma rmap_length: "rmap f xs = Inr ys \<Longrightarrow> length ys = length xs"
  by (induction xs arbitrary: ys) (auto simp: rbind_eq_Inr)

lemma rmap_nth: "rmap f xs = Inr ys \<Longrightarrow> i < length xs \<Longrightarrow> f (xs ! i) = Inr (ys ! i)"
  by (induction xs arbitrary: ys i) (auto simp: rbind_eq_Inr nth_Cons split: nat.splits)

lemma rfilter_Inr: "(\<And>x. x \<in> set xs \<Longrightarrow> p x = Inr (q x)) \<Longrightarrow> rfilter p xs = Inr (filter q xs)"
  by (induction xs) auto

lemma rfold_append: "rfold f (xs @ ys) s = rbind (rfold f xs s) (rfold f ys)"
proof (induction xs arbitrary: s)
  case (Cons x xs)
  then show ?case by (cases "f x s") simp_all
qed simp

lemma rfold_invariant:
  assumes "rfold f xs s = Inr t" and "P s"
    and "\<And>x s s'. x \<in> set xs \<Longrightarrow> P s \<Longrightarrow> f x s = Inr s' \<Longrightarrow> P s'"
  shows "P t"
  using assms
proof (induction xs arbitrary: s)
  case (Cons x xs)
  from Cons.prems(1) obtain s' where "f x s = Inr s'" and "rfold f xs s' = Inr t"
    by (auto simp: rbind_eq_Inr)
  then show ?case using Cons.prems(2,3) Cons.IH [of s'] by auto
qed simp

lemma rfold_total:
  assumes "P s" and "\<And>x s. x \<in> set xs \<Longrightarrow> P s \<Longrightarrow> \<exists>s'. f x s = Inr s' \<and> P s'"
  shows "\<exists>t. rfold f xs s = Inr t \<and> P t"
  using assms
proof (induction xs arbitrary: s)
  case (Cons x xs)
  from Cons.prems(2) [of x s] Cons.prems(1) obtain s' where s': "f x s = Inr s'" "P s'" by auto
  from Cons.IH [OF s'(2)] Cons.prems(2) obtain t where "rfold f xs s' = Inr t" "P t" by auto
  with s'(1) show ?case by simp
qed simp

lemma rfold_prefix:
  assumes "P [] s" and "\<And>pre x post s. xs = pre @ x # post \<Longrightarrow> P pre s \<Longrightarrow> \<exists>s'. f x s = Inr s' \<and> P (pre @ [x]) s'"
  shows "\<exists>t. rfold f xs s = Inr t \<and> P xs t"
proof -
  have "\<exists>t. rfold f ys s = Inr t \<and> P xs t" if "xs = pre @ ys" "P pre s" for pre ys s
    using that
  proof (induction ys arbitrary: pre s)
    case (Cons y ys)
    from assms(2) [OF Cons.prems] obtain s' where s': "f y s = Inr s'" "P (pre @ [y]) s'" by blast
    from Cons.IH [OF _ s'(2)] Cons.prems(1) s'(1) show ?case by simp
  qed simp
  from this [of "[]" xs s] assms(1) show ?thesis by simp
qed

text \<open>\<open>vector::at\<close>: a checked access.\<close>

definition vec_at :: "'a list \<Rightarrow> nat \<Rightarrow> 'a res" where
  "vec_at xs i = (if i < length xs then Inr (xs ! i) else Inl Out_of_range)"

lemma vec_at_Inr [simp, res_simps]: "vec_at xs i = Inr x \<longleftrightarrow> i < length xs \<and> x = xs ! i"
  by (auto simp: vec_at_def)

section \<open>Unordered maps\<close>

type_synonym ('k, 'v) umap = "('k \<times> 'v) list"

abbreviation um_get :: "('k, 'v) umap \<Rightarrow> 'k \<Rightarrow> 'v option" where
  "um_get \<equiv> map_of"

abbreviation um_set :: "'k \<Rightarrow> 'v \<Rightarrow> ('k, 'v) umap \<Rightarrow> ('k, 'v) umap" where
  "um_set \<equiv> AList.update"

abbreviation um_erase :: "'k \<Rightarrow> ('k, 'v) umap \<Rightarrow> ('k, 'v) umap" where
  "um_erase \<equiv> AList.delete"

definition um_contains :: "('k, 'v) umap \<Rightarrow> 'k \<Rightarrow> bool" where
  "um_contains m k \<longleftrightarrow> map_of m k \<noteq> None"

definition um_at :: "('k, 'v) umap \<Rightarrow> 'k \<Rightarrow> 'v res" where
  "um_at m k = (case map_of m k of None \<Rightarrow> Inl Out_of_range | Some v \<Rightarrow> Inr v)"

text \<open>\<open>operator[]\<close> on a missing key inserts a value-initialised element.\<close>

definition um_ref :: "'v \<Rightarrow> ('k, 'v) umap \<Rightarrow> 'k \<Rightarrow> 'v" where
  "um_ref dflt m k = (case map_of m k of None \<Rightarrow> dflt | Some v \<Rightarrow> v)"

definition um_ok :: "('k, 'v) umap \<Rightarrow> bool" where
  "um_ok m \<longleftrightarrow> distinct (map fst m)"

text \<open>A sequence of assignments \<open>m[k] = v\<close> into an empty map.\<close>

definition um_of :: "('k \<times> 'v) list \<Rightarrow> ('k, 'v) umap" where
  "um_of kvs = foldl (\<lambda>m kv. um_set (fst kv) (snd kv) m) [] kvs"

lemma um_contains_iff [umap_simps]: "um_contains m k \<longleftrightarrow> k \<in> fst ` set m"
  by (simp add: um_contains_def map_of_eq_None_iff)

lemma um_at_Inr [umap_simps]: "um_at m k = Inr v \<longleftrightarrow> map_of m k = Some v"
  by (simp add: um_at_def split: option.splits)

lemma um_ok_Nil [simp]: "um_ok []"
  by (simp add: um_ok_def)

lemma um_ok_set [simp]: "um_ok m \<Longrightarrow> um_ok (um_set k v m)"
  by (simp add: um_ok_def distinct_update)

lemma um_ok_erase [simp]: "um_ok m \<Longrightarrow> um_ok (um_erase k m)"
  by (simp add: um_ok_def distinct_delete)

lemma um_get_set [umap_simps]: "um_get (um_set k v m) = (um_get m)(k \<mapsto> v)"
  by (rule update_conv')

lemma um_get_erase [umap_simps]: "um_get (um_erase k m) = (um_get m)(k := None)"
  by (rule delete_conv')

lemma um_get_key: "k \<in> fst ` set m \<Longrightarrow> \<exists>v. um_get m k = Some v"
  by (cases "um_get m k") (simp_all add: map_of_eq_None_iff)

lemma um_set_fresh: "k \<notin> fst ` set m \<Longrightarrow> um_set k v m = m @ [(k, v)]"
  by (induction m) auto

lemma um_of_snoc: "um_of (kvs @ [(k, v)]) = um_set k v (um_of kvs)"
  by (simp add: um_of_def)

lemma um_of_distinct: "distinct (map fst kvs) \<Longrightarrow> um_of kvs = kvs"
proof (induction kvs rule: rev_induct)
  case Nil
  then show ?case by (simp add: um_of_def)
next
  case (snoc kv kvs)
  obtain k v where kv: "kv = (k, v)" by (cases kv)
  from snoc have "um_of kvs = kvs" and "k \<notin> fst ` set kvs" by (auto simp: kv)
  then show ?case by (simp add: kv um_of_snoc um_set_fresh)
qed

lemma um_ok_of [simp]: "um_ok (um_of kvs)"
proof (induction kvs rule: rev_induct)
  case Nil
  then show ?case by (simp add: um_of_def)
next
  case (snoc kv kvs)
  then show ?case by (cases kv) (simp add: um_of_snoc)
qed

lemma um_get_of: "um_get (um_of kvs) = map_of (rev kvs)"
proof (induction kvs rule: rev_induct)
  case Nil
  then show ?case by (simp add: um_of_def)
next
  case (snoc kv kvs)
  then show ?case by (cases kv) (simp add: um_of_snoc um_get_set)
qed

lemma um_keys_set: "fst ` set (um_set k v m) = insert k (fst ` set m)"
proof -
  have "fst ` set (um_set k v m) = dom (um_get (um_set k v m))" by (simp add: dom_map_of_conv_image_fst)
  also have "\<dots> = insert k (dom (um_get m))" by (simp add: um_get_set)
  finally show ?thesis by (simp add: dom_map_of_conv_image_fst)
qed

lemma um_get_mem: "um_ok m \<Longrightarrow> (k, v) \<in> set m \<longleftrightarrow> um_get m k = Some v"
  by (auto simp: um_ok_def map_of_is_SomeI dest: map_of_SomeD)

text \<open>
  The contract of a memoising cache as its clients see it: what a lookup returns after an
  insertion. A client that only stores values that satisfy a relation \<open>P\<close> reads back only such
  values; the graph-merge cache of the staging search and the profile cache are such clients.
\<close>

locale cache_ops =
  fixes get :: "'c \<Rightarrow> 'k \<Rightarrow> 'v option"
    and put :: "'k \<Rightarrow> 'v \<Rightarrow> 'c \<Rightarrow> 'c"
    and empty_cache :: 'c
  assumes get_put: "get (put k v c) k' = (if k' = k then Some v else get c k')"
    and get_empty: "get empty_cache k = None"
begin

lemma sound_empty: "\<forall>k v. get empty_cache k = Some v \<longrightarrow> P k v"
  by (simp add: get_empty)

lemma sound_put:
  "\<forall>k v. get c k = Some v \<longrightarrow> P k v \<Longrightarrow> P k0 v0 \<Longrightarrow>
   \<forall>k v. get (put k0 v0 c) k = Some v \<longrightarrow> P k v"
  by (simp add: get_put)

lemma get_mono: "get c k = Some v \<Longrightarrow> k \<noteq> k0 \<Longrightarrow> get (put k0 v0 c) k = Some v"
  by (simp add: get_put)

end

interpretation um: cache_ops map_of AList.update "[]"
  by unfold_locales (simp_all add: um_get_set)

section \<open>Computations with a state\<close>

text \<open>
  Methods of an object that has a state: from a state, a result and the new state, or an exception.
  \<open>slift\<close> runs a call that does not touch the state.
\<close>

type_synonym ('s, 'a) st = "'s \<Rightarrow> ('a \<times> 's) res"

definition sret :: "'a \<Rightarrow> ('s, 'a) st" where
  "sret x = (\<lambda>s. Inr (x, s))"

definition slift :: "'a res \<Rightarrow> ('s, 'a) st" where
  "slift r = (\<lambda>s. rbind r (\<lambda>x. Inr (x, s)))"

definition sbind :: "('s, 'a) st \<Rightarrow> ('a \<Rightarrow> ('s, 'b) st) \<Rightarrow> ('s, 'b) st" where
  "sbind m f = (\<lambda>s. rbind (m s) (\<lambda>(x, s'). f x s'))"

text \<open>Loops over a vector: collecting results, and updating an accumulator.\<close>

primrec smap :: "('a \<Rightarrow> ('s, 'b) st) \<Rightarrow> 'a list \<Rightarrow> ('s, 'b list) st" where
  "smap f [] = sret []"
| "smap f (x # xs) = sbind (f x) (\<lambda>y. sbind (smap f xs) (\<lambda>ys. sret (y # ys)))"

primrec sfold :: "('a \<Rightarrow> 'b \<Rightarrow> ('s, 'b) st) \<Rightarrow> 'a list \<Rightarrow> 'b \<Rightarrow> ('s, 'b) st" where
  "sfold f [] acc = sret acc"
| "sfold f (x # xs) acc = sbind (f x acc) (sfold f xs)"

named_theorems st_simps \<open>rewrite rules for computations with a state\<close>

lemma sret_run [simp, st_simps]: "sret x s = Inr (x, s)"
  by (simp add: sret_def)

lemma sret_Inr [st_simps]: "sret x s = Inr (y, t) \<longleftrightarrow> y = x \<and> t = s"
  by (auto simp: sret_def)

lemma slift_Inr [simp, st_simps]: "slift r s = Inr (y, t) \<longleftrightarrow> r = Inr y \<and> t = s"
  by (cases r) (auto simp: slift_def)

lemma slift_run [simp]: "slift (Inr x) s = Inr (x, s)" "slift (Inl e) s = Inl e"
  by (simp_all add: slift_def)

lemma sbind_Inr [st_simps]: "sbind m f s = Inr (y, t) \<longleftrightarrow> (\<exists>x s'. m s = Inr (x, s') \<and> f x s' = Inr (y, t))"
  by (auto simp: sbind_def rbind_eq_Inr)

lemma sbind_run: "m s = Inr (x, s') \<Longrightarrow> sbind m f s = f x s'"
  by (simp add: sbind_def)

lemma sbind_sret [simp]: "sbind (sret x) f = f x"
  by (rule ext) (simp add: sbind_def)

lemma sfold_append: "sfold f (xs @ ys) acc = sbind (sfold f xs acc) (sfold f ys)"
proof (induction xs arbitrary: acc)
  case (Cons x xs)
  show ?case
  proof (rule ext)
    fix s
    show "sfold f ((x # xs) @ ys) acc s = sbind (sfold f (x # xs) acc) (sfold f ys) s"
      by (cases "f x acc s") (auto simp: sbind_def Cons.IH)
  qed
qed simp

lemma sfold_invariant:
  assumes "sfold f xs acc s = Inr (r, t)" and "P acc s"
    and "\<And>x acc s acc' s'. x \<in> set xs \<Longrightarrow> P acc s \<Longrightarrow> f x acc s = Inr (acc', s') \<Longrightarrow> P acc' s'"
  shows "P r t"
  using assms
proof (induction xs arbitrary: acc s)
  case (Cons x xs)
  then obtain acc' s' where "f x acc s = Inr (acc', s')" "sfold f xs acc' s' = Inr (r, t)"
    by (auto simp: sbind_Inr)
  with Cons show ?case by (metis list.set_intros)
qed (simp add: sret_Inr)

lemma sfold_prefix:
  assumes "sfold f xs acc s = Inr (r, t)" and "P [] acc"
    and "\<And>pre x acc s acc' s'. x \<in> set xs \<Longrightarrow> P pre acc \<Longrightarrow> f x acc s = Inr (acc', s') \<Longrightarrow> P (pre @ [x]) acc'"
  shows "P xs r"
proof -
  have "P (pre @ ys) r" if "sfold f ys acc s = Inr (r, t)" "P pre acc" "set ys \<subseteq> set xs" for pre ys acc s
    using that
  proof (induction ys arbitrary: pre acc s)
    case (Cons y ys)
    obtain acc' s' where step: "f y acc s = Inr (acc', s')" "sfold f ys acc' s' = Inr (r, t)"
      using Cons.prems(1) by (auto simp: sbind_Inr)
    have "P (pre @ [y]) acc'" using assms(3) [OF _ Cons.prems(2) step(1)] Cons.prems(3) by simp
    from Cons.IH [OF step(2) this] Cons.prems(3) show ?case by simp
  qed (simp add: sret_Inr)
  from this [OF assms(1,2)] show ?thesis by simp
qed

lemma smap_length: "smap f xs s = Inr (ys, t) \<Longrightarrow> length ys = length xs"
  by (induction xs arbitrary: s ys) (auto simp: sbind_Inr)

subsection \<open>Total correctness\<close>

text \<open>
  \<open>runs m s Q\<close>: the computation \<open>m\<close> returns from the state \<open>s\<close>, with a result and a state that satisfy
  \<open>Q\<close>. The rules follow the structure of a method body.
\<close>

definition runs :: "('s, 'a) st \<Rightarrow> 's \<Rightarrow> ('a \<Rightarrow> 's \<Rightarrow> bool) \<Rightarrow> bool" where
  "runs m s Q \<longleftrightarrow> (\<exists>x s'. m s = Inr (x, s') \<and> Q x s')"

named_theorems runs_rules \<open>introduction rules for total correctness\<close>

lemma runsE: "runs m s Q \<Longrightarrow> (\<And>x s'. m s = Inr (x, s') \<Longrightarrow> Q x s' \<Longrightarrow> thesis) \<Longrightarrow> thesis"
  by (auto simp: runs_def)

lemma runs_mono: "runs m s P \<Longrightarrow> (\<And>x s'. P x s' \<Longrightarrow> Q x s') \<Longrightarrow> runs m s Q"
  by (auto simp: runs_def)

lemma runs_sret [runs_rules]: "Q x s \<Longrightarrow> runs (sret x) s Q"
  by (simp add: runs_def)

lemma runs_slift [runs_rules]: "r = Inr x \<Longrightarrow> Q x s \<Longrightarrow> runs (slift r) s Q"
  by (simp add: runs_def)

lemma runs_sbind: "runs m s P \<Longrightarrow> (\<And>x s'. P x s' \<Longrightarrow> runs (f x) s' Q) \<Longrightarrow> runs (sbind m f) s Q"
  by (auto simp: runs_def sbind_Inr)

lemma runs_slift_bind [runs_rules]: "r = Inr x \<Longrightarrow> runs (f x) s Q \<Longrightarrow> runs (sbind (slift r) f) s Q"
  by (auto simp: runs_def sbind_Inr)

lemma runs_sfold:
  assumes "P [] acc s"
    and "\<And>pre x post acc s. xs = pre @ x # post \<Longrightarrow> P pre acc s \<Longrightarrow> runs (f x acc) s (P (pre @ [x]))"
  shows "runs (sfold f xs acc) s (P xs)"
proof -
  have "runs (sfold f ys acc) s (P xs)" if "xs = pre @ ys" "P pre acc s" for pre ys acc s
    using that
  proof (induction ys arbitrary: pre acc s)
    case Nil
    then show ?case by (simp add: runs_def)
  next
    case (Cons y ys)
    show ?case unfolding sfold.simps
      by (rule runs_sbind [OF assms(2) [OF Cons.prems]]) (rule Cons.IH, use Cons.prems(1) in simp_all)
  qed
  from this [of "[]" xs acc s] assms(1) show ?thesis by simp
qed

lemma runs_smap:
  assumes "P s" and "\<And>x s. x \<in> set xs \<Longrightarrow> P s \<Longrightarrow> runs (f x) s (\<lambda>y s'. R x y \<and> P s')"
  shows "runs (smap f xs) s (\<lambda>ys s'. list_all2 R xs ys \<and> P s')"
  using assms
proof (induction xs arbitrary: s)
  case Nil
  then show ?case by (simp add: runs_def)
next
  case (Cons x xs)
  show ?case unfolding smap.simps
    by (rule runs_sbind [OF Cons.prems(2)], simp, rule Cons.prems(1), rule runs_sbind [OF Cons.IH])
       (use Cons.prems(2) in \<open>auto intro!: runs_sret\<close>)
qed

section \<open>Machine integers\<close>

type_synonym size_t = "64 word"

definition to_size :: "int \<Rightarrow> int" where
  "to_size i = i mod 2 ^ 64"

lemma to_size_id: "0 \<le> i \<Longrightarrow> i < 2 ^ 64 \<Longrightarrow> to_size i = i"
  by (simp add: to_size_def)

text \<open>C++ integer division truncates towards zero.\<close>

definition tdiv :: "int \<Rightarrow> int \<Rightarrow> int" where
  "tdiv a b = sgn a * sgn b * (\<bar>a\<bar> div \<bar>b\<bar>)"

lemma tdiv_nonneg: "0 \<le> a \<Longrightarrow> 0 < b \<Longrightarrow> tdiv a b = a div b"
  by (cases "a = 0") (simp_all add: tdiv_def)

text \<open>A value of a 32-bit \<open>int\<close> that a wider computation is converted to.\<close>

definition wrap32 :: "int \<Rightarrow> int" where
  "wrap32 i = (i + 2 ^ 31) mod 2 ^ 32 - 2 ^ 31"

lemma wrap32_id: "- (2 ^ 31) \<le> i \<Longrightarrow> i < 2 ^ 31 \<Longrightarrow> wrap32 i = i"
  by (simp add: wrap32_def)

section \<open>Lists\<close>

lemma set_filter_notin: "set (filter (\<lambda>x. x \<notin> A) xs) = set xs - A"
  by auto

lemma distinct_map_nth: "distinct xs \<Longrightarrow> i < length xs \<Longrightarrow> j < length xs \<Longrightarrow> xs ! i = xs ! j \<longleftrightarrow> i = j"
  by (simp add: nth_eq_iff_index_eq)

lemma sum_list_map_nth: "sum_list (map f xs) = (\<Sum>i<length xs. f (xs ! i))"
  by (simp add: sum_list_sum_nth atLeast0LessThan)

end
