(* ===== verification/Common_Util.thy ===== *)
theory Common_Util
  imports Rannc_Prelude "HOL-Library.Sublist"
begin

text \<open>
  The utilities of \<open>Common.h\<close> and \<open>Common.cpp\<close>: string splitting, the vector helpers, greatest
  common divisors, and the batch-size arithmetic that decides how many samples of a batch each
  rank works on. A \<open>std::unordered_set<int>\<close> is an \<open>int set\<close>; \<open>sorted_list_of_set\<close> is the copy
  into a vector followed by \<open>std::sort\<close>.
\<close>

section \<open>Strings\<close>

text \<open>\<open>getline\<close> with a delimiter: the pieces between occurrences of the delimiter.\<close>

fun split_lines :: "char \<Rightarrow> string \<Rightarrow> string list" where
  "split_lines d [] = [[]]"
| "split_lines d (c # cs) =
     (if c = d then [] # split_lines d cs
      else (case split_lines d cs of [] \<Rightarrow> [[c]] | w # ws \<Rightarrow> (c # w) # ws))"

definition split_char :: "string \<Rightarrow> char \<Rightarrow> string list" where
  "split_char s delim = filter (\<lambda>item. item \<noteq> []) (split_lines delim s)"

text \<open>The overload with a set of delimiters keeps empty pieces.\<close>

function split_any :: "string \<Rightarrow> string \<Rightarrow> string list" where
  "split_any s delim =
     takeWhile (\<lambda>c. c \<notin> set delim) s #
     (case dropWhile (\<lambda>c. c \<notin> set delim) s of [] \<Rightarrow> [] | _ # rest \<Rightarrow> split_any rest delim)"
  by pat_completeness auto
termination
proof (relation "measure (length \<circ> fst)", goal_cases)
  case (2 s delim a rest)
  then have "length (a # rest) \<le> length s" by (metis length_dropWhile_le)
  then show ?case by simp
qed simp

declare split_any.simps [simp del]

definition begins_with :: "string \<Rightarrow> string \<Rightarrow> bool" where
  "begins_with str pattern =
     (if length pattern \<le> length str then take (length pattern) str = pattern else False)"

text \<open>\<open>string::find\<close> from a position; \<open>None\<close> is \<open>npos\<close>.\<close>

definition find_from :: "string \<Rightarrow> string \<Rightarrow> nat \<Rightarrow> nat option" where
  "find_from str pattern pos =
     List.find (\<lambda>i. i + length pattern \<le> length str \<and> take (length pattern) (drop i str) = pattern)
       [pos..<Suc (length str)]"

definition ends_with :: "string \<Rightarrow> string \<Rightarrow> bool" where
  "ends_with str pattern =
     (length pattern \<le> length str \<and>
      find_from str pattern (length str - length pattern) \<noteq> None)"

definition join_with :: "string \<Rightarrow> string list \<Rightarrow> string" where
  "join_with delim v = concat (case v of [] \<Rightarrow> [] | x # xs \<Rightarrow> x # map (\<lambda>y. delim @ y) xs)"

definition join_as_str :: "string list \<Rightarrow> string \<Rightarrow> nat \<Rightarrow> string" where
  "join_as_str v delim maxlen =
     (let s = join_with delim v;
          s = (if maxlen > 0 \<and> length s > maxlen then take maxlen s @ '' ...'' else s)
      in ''['' @ s @ '']'')"

lemma begins_with_prefix: "begins_with s p \<longleftrightarrow> prefix p s"
  by (auto simp: begins_with_def prefix_def) (metis append_take_drop_id)

lemma find_from_None: "find_from s p pos = None \<longleftrightarrow>
    (\<forall>i \<in> {pos..length s}. \<not> (i + length p \<le> length s \<and> take (length p) (drop i s) = p))"
  by (auto simp: find_from_def find_None_iff simp del: upt_Suc)

lemma ends_with_suffix: "ends_with s p \<longleftrightarrow> suffix p s"
proof
  assume "ends_with s p"
  then obtain i where "length s - length p \<le> i" "i + length p \<le> length s"
    and eq: "take (length p) (drop i s) = p"
    by (auto simp: ends_with_def find_from_None)
  then have "length (drop i s) = length p" by simp
  with eq have "drop i s = p" by simp
  then show "suffix p s" by (metis suffix_drop)
next
  assume "suffix p s"
  then obtain q where s: "s = q @ p" by (auto simp: suffix_def)
  then have "length q \<in> {length s - length p..length s}"
    and "length q + length p \<le> length s \<and> take (length p) (drop (length q) s) = p"
    by simp_all
  then have "find_from s p (length s - length p) \<noteq> None"
    by (subst find_from_None) blast
  then show "ends_with s p" by (simp add: ends_with_def s)
qed

lemma split_any_unfold:
  "split_any s ds = takeWhile (\<lambda>c. c \<notin> set ds) s #
     (case dropWhile (\<lambda>c. c \<notin> set ds) s of [] \<Rightarrow> [] | _ # rest \<Rightarrow> split_any rest ds)"
  by (rule split_any.simps)

lemma split_any_no_delim: "w \<in> set (split_any s ds) \<Longrightarrow> set w \<inter> set ds = {}"
proof (induction s ds rule: split_any.induct)
  case (1 s ds)
  show ?case
  proof (cases "dropWhile (\<lambda>c. c \<notin> set ds) s")
    case Nil
    with "1.prems" show ?thesis
      by (subst (asm) split_any_unfold) (auto dest: set_takeWhileD)
  next
    case (Cons a rest)
    with "1.prems" have "w = takeWhile (\<lambda>c. c \<notin> set ds) s \<or> w \<in> set (split_any rest ds)"
      by (subst (asm) split_any_unfold) simp
    with "1.IH" Cons show ?thesis by (auto dest: set_takeWhileD)
  qed
qed

lemma join_with_Cons:
  "join_with d (w # ws) = w @ (if ws = [] then [] else d @ join_with d ws)"
  by (cases ws) (simp_all add: join_with_def)

lemma split_any_not_Nil [simp]: "split_any s ds \<noteq> []"
  by (subst split_any_unfold) simp

lemma join_split_any: "join_with [d] (split_any s [d]) = s"
proof (induction s "[d]" rule: split_any.induct)
  case (1 s)
  let ?P = "\<lambda>c. c \<notin> set [d]"
  show ?case
  proof (cases "dropWhile ?P s")
    case Nil
    have "takeWhile ?P s @ dropWhile ?P s = s" by (rule takeWhile_dropWhile_id)
    with Nil show ?thesis
      by (subst split_any_unfold) (simp only: join_with_Cons list.case append_Nil2 if_True simp_thms)
  next
    case (Cons a rest)
    then have a: "a = d" using hd_dropWhile [of ?P s] by auto
    from "1" Cons have IH: "join_with [d] (split_any rest [d]) = rest" by blast
    have "join_with [d] (split_any s [d]) = takeWhile ?P s @ [d] @ join_with [d] (split_any rest [d])"
      by (subst split_any_unfold) (simp only: Cons join_with_Cons list.case split_any_not_Nil if_False)
    also have "\<dots> = takeWhile ?P s @ dropWhile ?P s"
      by (simp only: IH Cons a append_Cons append_Nil)
    finally show ?thesis by simp
  qed
qed

section \<open>Vectors\<close>

definition flatMap :: "'a list \<Rightarrow> ('a \<Rightarrow> 'b list) \<Rightarrow> 'b list" where
  "flatMap vec f = concat (map f vec)"

definition addAll :: "'a list \<Rightarrow> 'a list \<Rightarrow> 'a list" where
  "addAll v1 v2 = v1 @ v2"

definition addAll_map :: "('k, 'v) umap \<Rightarrow> ('k, 'v) umap \<Rightarrow> ('k, 'v) umap" where
  "addAll_map v1 v2 = um_of (v1 @ v2)"

definition um_keys :: "('k :: linorder, 'v) umap \<Rightarrow> bool \<Rightarrow> 'k list" where
  "um_keys m sort_keys = (if sort_keys then sort (map fst m) else map fst m)"

definition um_values :: "('k, 'v) umap \<Rightarrow> 'v list" where
  "um_values m = map snd m"

text \<open>\<open>size_t\<close> product of signed dimensions: each factor is converted to 64 bits, the product wraps.\<close>

definition productDim :: "int list \<Rightarrow> size_t" where
  "productDim dim = foldl (\<lambda>prod d. prod * word_of_int d) 1 dim"

text \<open>
  \<open>sum\<close> hands the literal \<open>0\<close> to \<open>std::accumulate\<close>, so the running total is a 32-bit \<open>int\<close>
  whatever the element type is.
\<close>

definition sum_acc :: "int list \<Rightarrow> int" where
  "sum_acc v = foldl (\<lambda>acc x. wrap32 (acc + x)) 0 v"

text \<open>\<open>average\<close> divides by a \<open>size_t\<close>: the total is converted to unsigned first.\<close>

definition average :: "int list \<Rightarrow> int res" where
  "average v = (if v = [] then Inl Undefined_behaviour
                else Inr (to_size (sum_acc v) div int (length v)))"

lemma productDim_prod_list: "productDim dim = (\<Prod>d\<leftarrow>dim. word_of_int d)"
proof -
  have "foldl (\<lambda>prod d. prod * word_of_int d) a dim = a * (\<Prod>d\<leftarrow>dim. word_of_int d)" for a :: size_t
    by (induction dim arbitrary: a) (simp_all add: ac_simps)
  then show ?thesis by (simp add: productDim_def)
qed

lemma sum_acc_exact:
  assumes "\<And>x. x \<in> set v \<Longrightarrow> 0 \<le> x" and "sum_list v < 2 ^ 31"
  shows "sum_acc v = sum_list v"
proof -
  have "foldl (\<lambda>acc x. wrap32 (acc + x)) a v = a + sum_list v"
    if "0 \<le> a" "a + sum_list v < 2 ^ 31" for a
    using that assms(1)
  proof (induction v arbitrary: a)
    case (Cons x xs)
    have "0 \<le> sum_list xs" using Cons.prems(3) by (auto intro: sum_list_nonneg)
    moreover have "0 \<le> x" using Cons.prems(3) by simp
    ultimately have "wrap32 (a + x) = a + x"
      using Cons.prems(1,2) by (intro wrap32_id) simp_all
    with Cons \<open>0 \<le> x\<close> show ?case by (simp add: add.assoc)
  qed simp
  from this [of 0] assms(2) show ?thesis by (simp add: sum_acc_def)
qed

section \<open>Greatest common divisors\<close>

function gcd_loop :: "int \<Rightarrow> int \<Rightarrow> int" where
  "gcd_loop a b =
     (if b \<le> 0 then a
      else let a = a mod b in if a \<le> 0 then b else gcd_loop a (b mod a))"
  by pat_completeness auto
termination
proof (relation "measure (\<lambda>(a, b). nat b)", goal_cases)
  case (2 a b x)
  then have "0 < x" and "x < b" by simp_all
  then have "b mod x < b" by (meson order_less_trans pos_mod_bound)
  with \<open>x < b\<close> \<open>0 < x\<close> show ?case by simp
qed simp

declare gcd_loop.simps [simp del]

definition gcd_pair :: "int \<Rightarrow> int \<Rightarrow> int" where
  "gcd_pair a b = gcd_loop (if a < 0 then - a else a) (if b < 0 then - b else b)"

definition gcd_vec :: "int list \<Rightarrow> int res" where
  "gcd_vec v = (case v of [] \<Rightarrow> Inl Undefined_behaviour | x # xs \<Rightarrow> Inr (foldl gcd_pair x xs))"

lemma gcd_loop_gcd: "0 \<le> a \<Longrightarrow> 0 \<le> b \<Longrightarrow> gcd_loop a b = gcd a b"
proof (induction a b rule: gcd_loop.induct)
  case (1 a b)
  show ?case
  proof (cases "b \<le> 0")
    case True
    with "1.prems" have "b = 0" by simp
    then show ?thesis using "1.prems" by (subst gcd_loop.simps) simp
  next
    case b: False
    show ?thesis
    proof (cases "a mod b \<le> 0")
      case True
      with b have "b dvd a" by (metis dvd_eq_mod_eq_0 linorder_not_le order_antisym pos_mod_sign)
      with True b show ?thesis by (simp add: gcd_loop.simps [of a b] Let_def)
    next
      case False
      with "1.IH" b have "gcd_loop (a mod b) (b mod (a mod b)) = gcd (a mod b) (b mod (a mod b))"
        by simp
      also have "\<dots> = gcd a b" by (metis gcd.commute gcd_red_int)
      finally show ?thesis using False b by (simp add: gcd_loop.simps [of a b] Let_def)
    qed
  qed
qed

lemma gcd_pair_gcd: "gcd_pair a b = gcd a b"
  by (simp add: gcd_pair_def gcd_loop_gcd)

lemma gcd_vec_Gcd:
  assumes "v \<noteq> []" and "\<And>x. x \<in> set v \<Longrightarrow> 0 \<le> x"
  shows "gcd_vec v = Inr (Gcd (set v))"
proof -
  have "foldl gcd_pair x xs = Gcd (set (x # xs))" if "0 \<le> x" for x xs
    using that
  proof (induction xs arbitrary: x)
    case (Cons y ys)
    then show ?case using Cons.IH [of "gcd_pair x y"] by (simp add: gcd_pair_gcd gcd.assoc)
  qed simp
  with assms show ?thesis by (cases v) (simp_all add: gcd_vec_def)
qed

section \<open>Splitting a batch over ranks\<close>

text \<open>The share of the \<open>i\<close>-th of \<open>n\<close> ranks: the first \<open>batch_size % n\<close> ranks get one more.\<close>

definition share :: "int \<Rightarrow> nat \<Rightarrow> nat \<Rightarrow> int" where
  "share batch_size rank_num i =
     to_size batch_size div int rank_num +
     (if int i < to_size batch_size mod int rank_num then 1 else 0)"

definition split_offset :: "int \<Rightarrow> nat \<Rightarrow> int \<Rightarrow> int" where
  "split_offset batch_size rank_num split_index =
     ((\<lambda>offset. to_size (offset + batch_size) mod int rank_num) ^^ nat split_index) 0"

definition getSplitBatchSizes :: "int \<Rightarrow> int set \<Rightarrow> int \<Rightarrow> (int, int) umap res" where
  "getSplitBatchSizes batch_size ranks split_index =
     (let vec_ranks = sorted_list_of_set ranks; rank_num = length vec_ranks in
      if rank_num = 0 then Inl Undefined_behaviour
      else
        let batch_sizes =
              um_of (map (\<lambda>i. (vec_ranks ! i, share batch_size rank_num i)) [0..<rank_num])
        in if split_index = 0 then Inr batch_sizes
           else
             let offset = split_offset batch_size rank_num split_index
             in rbind (rmap (\<lambda>i.
                    rbind (vec_at vec_ranks (nat ((int i + offset) mod int rank_num))) (\<lambda>shifted.
                    rbind (vec_at vec_ranks i) (\<lambda>r.
                    rbind (um_at batch_sizes r) (\<lambda>s. Inr (shifted, s))))) [0..<rank_num])
                  (\<lambda>shifted_batch_sizes. Inr (um_of shifted_batch_sizes)))"

definition getSplitBatchSizes_num :: "int \<Rightarrow> int \<Rightarrow> int list res" where
  "getSplitBatchSizes_num batch_size split_num =
     (let dummy_ranks = map int [0..<nat split_num] in
      rbind (getSplitBatchSizes batch_size (set dummy_ranks) 0) (\<lambda>batch_sizes.
      rmap (um_at batch_sizes) dummy_ranks))"

text \<open>The smallest integer that is at least \<open>a / b\<close>; the code's doubles are exact below \<open>2 ^ 53\<close>.\<close>

definition ceil_div :: "int \<Rightarrow> int \<Rightarrow> int" where
  "ceil_div a b = - (- a div b)"

fun local_split_loop :: "int \<Rightarrow> int \<Rightarrow> int list \<Rightarrow> int list" where
  "local_split_loop world_size offset [] = []"
| "local_split_loop world_size offset (bs # rest) =
     (let ret_bs = ceil_div (bs - offset) world_size
      in ret_bs # local_split_loop world_size (offset + ret_bs * world_size - bs) rest)"

definition getLocalSplitBatchSizes :: "int list \<Rightarrow> int \<Rightarrow> int \<Rightarrow> int list" where
  "getLocalSplitBatchSizes split_batch_sizes world_size rank =
     local_split_loop world_size rank split_batch_sizes"

definition getGlobalDim :: "int \<Rightarrow> int list \<Rightarrow> int set \<Rightarrow> int \<Rightarrow> int list res" where
  "getGlobalDim batch_size local_dim ranks my_rank =
     rbind (getSplitBatchSizes batch_size ranks 0) (\<lambda>batch_sizes.
     rbind (um_at batch_sizes my_rank) (\<lambda>bs.
       if local_dim = [] \<or> bs = 0 then Inl Undefined_behaviour
       else Inr (local_dim[0 := tdiv (local_dim ! 0 * batch_size) bs])))"

definition calcDistBatchDims ::
    "int \<Rightarrow> int list \<Rightarrow> int set \<Rightarrow> int \<Rightarrow> (int, int list) umap res" where
  "calcDistBatchDims batch_size global_dim ranks split_index =
     rbind (rassert (global_dim \<noteq> [])) (\<lambda>_.
     rbind (getSplitBatchSizes batch_size ranks split_index) (\<lambda>batch_sizes.
       if batch_size = 0 \<and> batch_sizes \<noteq> [] then Inl Undefined_behaviour
       else Inr (um_of (map (\<lambda>(rank, rank_bs).
              (rank, global_dim[0 := tdiv (global_dim ! 0 * rank_bs) batch_size])) batch_sizes))))"

subsection \<open>The shares add up\<close>

lemma sum_share:
  assumes "0 < n" "0 \<le> b" "b < 2 ^ 63"
  shows "(\<Sum>i<n. share b n i) = b"
proof -
  have b: "to_size b = b" using assms by (simp add: to_size_id)
  have md: "nat (b mod int n) \<le> n" using assms(1) by (simp add: nat_le_iff order_less_imp_le)
  have "(\<Sum>i<n. if int i < b mod int n then 1 else (0 :: int)) = int (card {i. i < n \<and> int i < b mod int n})"
    by (simp add: sum.If_cases lessThan_def Collect_conj_eq)
  also have "{i. i < n \<and> int i < b mod int n} = {..<nat (b mod int n)}"
    using md by (auto simp: zless_nat_eq_int_zless)
  finally have "(\<Sum>i<n. share b n i) = int n * (b div int n) + b mod int n"
    using assms(1) by (simp add: share_def b sum.distrib)
  then show ?thesis by simp
qed

lemma share_bounds:
  assumes "0 \<le> b" "b < 2 ^ 63"
  shows "share b n i \<in> {b div int n, b div int n + 1}" and "0 \<le> share b n i"
proof -
  have b: "to_size b = b" using assms by (simp add: to_size_id)
  then show "share b n i \<in> {b div int n, b div int n + 1}" by (simp add: share_def)
  have "0 \<le> b div int n" using assms(1) by (simp add: div_int_pos_iff)
  then show "0 \<le> share b n i" by (simp add: share_def b)
qed

lemma shift_bij:
  fixes off :: int
  assumes n: "0 < n"
  shows "bij_betw (\<lambda>i. nat ((int i + off) mod int n)) {..<n} {..<n}"
proof -
  have "inj_on (\<lambda>i. nat ((int i + off) mod int n)) {..<n}"
  proof (rule inj_onI)
    fix i j
    assume i: "i \<in> {..<n}" and j: "j \<in> {..<n}"
      and "nat ((int i + off) mod int n) = nat ((int j + off) mod int n)"
    then have "(int i + off) mod int n = (int j + off) mod int n"
      using n by (simp add: eq_nat_nat_iff)
    then have "int i mod int n = int j mod int n" by (metis add_diff_cancel_right' mod_diff_left_eq)
    with i j show "i = j" by simp
  qed
  moreover have "(\<lambda>i. nat ((int i + off) mod int n)) ` {..<n} \<subseteq> {..<n}"
    using n by (auto simp: nat_less_iff)
  ultimately show ?thesis by (simp add: bij_betw_def endo_inj_surj)
qed

text \<open>What every caller relies on: each rank has a share, the shares differ by at most one and add up.\<close>

definition is_batch_split :: "int \<Rightarrow> int set \<Rightarrow> (int, int) umap \<Rightarrow> bool" where
  "is_batch_split b ranks m \<longleftrightarrow>
     um_ok m \<and> fst ` set m = ranks \<and> sum_list (map snd m) = b \<and>
     (\<forall>s \<in> snd ` set m. 0 \<le> s \<and> s \<in> {b div int (card ranks), b div int (card ranks) + 1})"

lemma is_batch_split_perm:
  assumes vr: "distinct vr" "vr \<noteq> []" and bij: "bij_betw p {..<length vr} {..<length vr}"
    and b: "0 \<le> b" "b < 2 ^ 63"
  shows "is_batch_split b (set vr) (um_of (map (\<lambda>i. (vr ! p i, share b (length vr) i)) [0..<length vr]))"
proof -
  let ?n = "length vr" and ?kvs = "map (\<lambda>i. (vr ! p i, share b (length vr) i)) [0..<length vr]"
  have n: "0 < ?n" using vr(2) by simp
  have img: "p ` {..<?n} = {..<?n}" and inj: "inj_on p {..<?n}"
    using bij by (auto simp: bij_betw_def)
  have "distinct (map (\<lambda>i. vr ! p i) [0..<?n])"
  proof (simp add: distinct_map, rule inj_onI)
    fix i j
    assume ij: "i \<in> {0..<?n}" "j \<in> {0..<?n}" and "vr ! p i = vr ! p j"
    then have "p i < ?n" and "p j < ?n" using img by auto
    with \<open>vr ! p i = vr ! p j\<close> have "p i = p j" using vr(1) by (simp add: nth_eq_iff_index_eq)
    with inj ij show "i = j" by (auto simp: inj_on_def)
  qed
  then have ok: "um_of ?kvs = ?kvs" by (intro um_of_distinct) (simp add: comp_def)
  have "fst ` set ?kvs = (!) vr ` p ` {..<?n}" by (simp add: image_comp comp_def atLeast0LessThan)
  also have "\<dots> = (!) vr ` {0..<?n}" by (simp only: img atLeast0LessThan)
  also have "\<dots> = set vr" by (simp add: nth_image)
  finally have "fst ` set ?kvs = set vr" .
  moreover have "sum_list (map snd ?kvs) = (\<Sum>i<?n. share b ?n i)"
    by (simp add: sum_list_map_nth comp_def)
  moreover have "card (set vr) = ?n" using vr(1) by (rule distinct_card)
  ultimately show ?thesis
    using ok um_ok_of [of ?kvs] sum_share [OF n b] share_bounds [OF b]
    by (auto simp: is_batch_split_def)
qed

lemma shifted_shares:
  fixes vr :: "int list" and b k :: int
  defines "n \<equiv> length vr"
  defines "base \<equiv> um_of (map (\<lambda>i. (vr ! i, share b n i)) [0..<n])"
    and "p \<equiv> \<lambda>i. nat ((int i + split_offset b n k) mod int n)"
  assumes vr: "distinct vr" "vr \<noteq> []"
  shows "rmap (\<lambda>i. rbind (vec_at vr (p i)) (\<lambda>shifted. rbind (vec_at vr i) (\<lambda>r.
             rbind (um_at base r) (\<lambda>s. Inr (shifted, s))))) [0..<n]
        = Inr (map (\<lambda>i. (vr ! p i, share b n i)) [0..<n])"
proof (rule rmap_Inr)
  fix i
  let ?kvs = "map (\<lambda>i. (vr ! i, share b n i)) [0..<n]"
  assume "i \<in> set [0..<n]"
  then have i: "i < n" by simp
  have d: "distinct (map fst ?kvs)" using vr(1) map_nth [of vr] by (simp add: comp_def n_def)
  have "(vr ! i, share b n i) \<in> set ?kvs" using i by force
  with d have "um_get ?kvs (vr ! i) = Some (share b n i)" by (rule map_of_is_SomeI)
  then have "um_at base (vr ! i) = Inr (share b n i)"
    by (simp only: um_at_Inr base_def um_of_distinct [OF d])
  moreover have "p i < n" using vr(2) by (simp add: p_def nat_less_iff n_def)
  ultimately show "rbind (vec_at vr (p i)) (\<lambda>shifted. rbind (vec_at vr i) (\<lambda>r.
      rbind (um_at base r) (\<lambda>s. Inr (shifted, s)))) = Inr (vr ! p i, share b n i)"
    using i by (simp add: vec_at_def n_def)
qed

lemma getSplitBatchSizes_split:
  assumes fin: "finite ranks" and ne: "ranks \<noteq> {}" and b: "0 \<le> b" "b < 2 ^ 63"
  shows "\<exists>m. getSplitBatchSizes b ranks k = Inr m \<and> is_batch_split b ranks m"
proof -
  obtain vr where s: "sorted_list_of_set ranks = vr" by simp
  have vr: "distinct vr" "set vr = ranks" "vr \<noteq> []" using fin ne s by auto
  let ?n = "length vr"
  let ?p = "\<lambda>i. nat ((int i + split_offset b ?n k) mod int ?n)"
  have n: "0 < ?n" using vr(3) by simp
  note def = getSplitBatchSizes_def [of b ranks k, unfolded s Let_def]
  show ?thesis
  proof (cases "k = 0")
    case True
    have "is_batch_split b (set vr) (um_of (map (\<lambda>i. (vr ! id i, share b ?n i)) [0..<?n]))"
      by (rule is_batch_split_perm [OF vr(1,3) _ b]) (simp add: bij_betw_def)
    with n True vr(2) show ?thesis unfolding def by simp
  next
    case False
    have "is_batch_split b (set vr) (um_of (map (\<lambda>i. (vr ! ?p i, share b ?n i)) [0..<?n]))"
      by (rule is_batch_split_perm [OF vr(1,3) shift_bij [OF n] b])
    with False n vr(2) show ?thesis unfolding def by (simp add: shifted_shares [OF vr(1,3)])
  qed
qed

subsection \<open>Shares of one rank over consecutive batches\<close>

lemma ceil_div_step: "0 < w \<Longrightarrow> off + ceil_div (b - off) w * w - b = (off - b) mod w"
  by (simp add: ceil_div_def minus_div_mult_eq_mod [symmetric] algebra_simps)

lemma ceil_div_nonneg: "0 \<le> b \<Longrightarrow> off < w \<Longrightarrow> 0 < w \<Longrightarrow> 0 \<le> ceil_div (b - off) w"
proof -
  assume "0 \<le> b" "off < w" "0 < w"
  then have "(off - b) div w \<le> (w - 1) div w" by (intro zdiv_mono1) simp_all
  also have "\<dots> = 0" using \<open>0 < w\<close> by simp
  finally show ?thesis by (simp add: ceil_div_def)
qed

lemma sum_ceil_div:
  assumes w: "0 < w" and f: "bij_betw f {..<w} {..<w}"
  shows "(\<Sum>r<w. ceil_div (b - int (f r)) (int w)) = b"
proof -
  let ?W = "int w"
  have bij: "bij_betw (\<lambda>i. nat ((int i + - b) mod ?W)) {..<w} {..<w}" by (rule shift_bij [OF w])
  have "(\<Sum>i<w. (int i - b) mod ?W) = (\<Sum>i<w. int (nat ((int i + - b) mod ?W)))"
    using w by simp
  also have "\<dots> = (\<Sum>i<w. int i)" by (rule sum.reindex_bij_betw [OF bij])
  finally have md: "(\<Sum>i<w. (int i - b) mod ?W) = (\<Sum>i<w. int i)" .
  have "(\<Sum>i<w. int i) - ?W * b = (\<Sum>i<w. int i - b)" by (simp add: sum_subtractf)
  also have "\<dots> = (\<Sum>i<w. ?W * ((int i - b) div ?W) + (int i - b) mod ?W)" by simp
  also have "\<dots> = ?W * (\<Sum>i<w. (int i - b) div ?W) + (\<Sum>i<w. int i)"
    by (simp only: sum.distrib sum_distrib_left md)
  finally have "?W * (\<Sum>i<w. (int i - b) div ?W) = ?W * (- b)" by simp
  then have "(\<Sum>i<w. (int i - b) div ?W) = - b"
    using w by (metis mult_cancel_left of_nat_0_eq_iff less_irrefl)
  moreover have "(\<Sum>r<w. ceil_div (b - int (f r)) ?W) = (\<Sum>i<w. ceil_div (b - int i) ?W)"
    by (rule sum.reindex_bij_betw [OF f])
  moreover have "(\<Sum>i<w. ceil_div (b - int i) ?W) = - (\<Sum>i<w. (int i - b) div ?W)"
    by (simp add: ceil_div_def sum_negf)
  ultimately show ?thesis by simp
qed

lemma length_local_split_loop [simp]: "length (local_split_loop w off bss) = length bss"
  by (induction bss arbitrary: off) (simp_all add: Let_def)

lemma local_split_loop_sum:
  assumes w: "0 < w" and f: "bij_betw f {..<w} {..<w}" and k: "k < length bss"
  shows "(\<Sum>r<w. local_split_loop (int w) (int (f r)) bss ! k) = bss ! k"
  using f k
proof (induction bss arbitrary: f k)
  case (Cons b bss)
  let ?g = "\<lambda>r. nat ((int (f r) + - b) mod int w)"
  show ?case
  proof (cases k)
    case 0
    with sum_ceil_div [OF w Cons.prems(1)] show ?thesis by (simp add: Let_def)
  next
    case (Suc j)
    have "bij_betw ((\<lambda>i. nat ((int i + - b) mod int w)) \<circ> f) {..<w} {..<w}"
      by (rule bij_betw_trans [OF Cons.prems(1) shift_bij [OF w]])
    then have g: "bij_betw ?g {..<w} {..<w}" by (simp add: comp_def)
    have "int (?g r) = (int (f r) - b) mod int w" for r using w by simp
    then have "local_split_loop (int w) (int (f r)) (b # bss) ! k = local_split_loop (int w) (int (?g r)) bss ! j"
      for r using w by (simp add: Let_def Suc ceil_div_step)
    then show ?thesis using Cons.IH [OF g, of j] Cons.prems(2) by (simp add: Suc)
  qed
qed simp

subsection \<open>Dimensions of distributed tensors\<close>

lemma tdiv_mult_cancel: "b \<noteq> 0 \<Longrightarrow> tdiv (a * b) b = a"
  by (simp add: tdiv_def sgn_mult abs_mult mult_sgn_abs algebra_simps)
     (metis mult.assoc mult_sgn_abs sgn_mult_self_eq mult.commute mult_1 sgn_eq_0_iff power2_eq_square
        linordered_idom_class.abs_sgn mult.left_commute)

lemma calcDistBatchDims_Inr:
  assumes "finite ranks" "ranks \<noteq> {}" "0 < b" "b < 2 ^ 63" "gd \<noteq> []" "gd ! 0 = c * b"
  obtains sizes where "getSplitBatchSizes b ranks k = Inr sizes" and "is_batch_split b ranks sizes"
    and "calcDistBatchDims b gd ranks k = Inr (map (\<lambda>(r, s). (r, gd[0 := c * s])) sizes)"
proof -
  obtain sizes where s: "getSplitBatchSizes b ranks k = Inr sizes" and sp: "is_batch_split b ranks sizes"
    using getSplitBatchSizes_split [of ranks b k] assms by auto
  have "tdiv (c * b * s) b = c * s" for s
    using tdiv_mult_cancel [of b "c * s"] assms(3) by (simp add: ac_simps)
  then have "map (\<lambda>(r, s). (r, gd[0 := tdiv (gd ! 0 * s) b])) sizes = map (\<lambda>(r, s). (r, gd[0 := c * s])) sizes"
    by (simp add: assms(6))
  moreover have "distinct (map fst (map (\<lambda>(r, s). (r, gd[0 := c * s])) sizes))"
    using sp by (simp add: is_batch_split_def um_ok_def comp_def case_prod_unfold)
  ultimately have "calcDistBatchDims b gd ranks k = Inr (map (\<lambda>(r, s). (r, gd[0 := c * s])) sizes)"
    using assms(3,5) by (simp add: calcDistBatchDims_def s um_of_distinct del: map_eq_conv)
  then show ?thesis by (rule that [OF s sp])
qed

section \<open>Properties\<close>

text \<open>
  C32. \<open>getSplitBatchSizes\<close> never fails on a non-empty rank set and splits the batch exactly: every
  rank has one share, the shares add up to the batch size and each is the quotient or the quotient
  plus one, whatever the split index rotates them to.
\<close>

theorem split_batch_sizes_exact:
  assumes "finite ranks" "ranks \<noteq> {}" "0 \<le> batch_size" "batch_size < 2 ^ 63"
  shows "\<exists>m. getSplitBatchSizes batch_size ranks split_index = Inr m \<and> um_ok m \<and>
     fst ` set m = ranks \<and> sum_list (map snd m) = batch_size \<and>
     (\<forall>s \<in> snd ` set m. s \<in> {batch_size div int (card ranks), batch_size div int (card ranks) + 1})"
  using getSplitBatchSizes_split [OF assms, of split_index] by (auto simp: is_batch_split_def)

theorem split_batch_sizes_exact_witness:
  "finite {0, 3, 5 :: int} \<and> {0, 3, 5 :: int} \<noteq> {} \<and> (0 :: int) \<le> 8 \<and> (8 :: int) < 2 ^ 63 \<and>
   (\<exists>m. getSplitBatchSizes 8 {0, 3, 5} 1 = Inr m \<and> sum_list (map snd m) = 8)"
  using split_batch_sizes_exact [of "{0, 3, 5}" 8 1] by auto

text \<open>
  \<open>getLocalSplitBatchSizes\<close> deals the samples of consecutive batches to the ranks in turn: for
  every batch of the sequence the shares computed independently by the ranks add up to that batch.
\<close>

lemma local_split_sizes_exact:
  assumes "0 < world_size" "k < length split_batch_sizes"
  shows "(\<Sum>rank<world_size. getLocalSplitBatchSizes split_batch_sizes (int world_size) (int rank) ! k)
    = split_batch_sizes ! k"
  using local_split_loop_sum [OF assms(1) _ assms(2), of "\<lambda>r. r"]
  by (simp add: getLocalSplitBatchSizes_def bij_betw_def)

lemma local_split_sizes_exact_witness:
  "(0 :: nat) < 3 \<and> (1 :: nat) < length [4, 5, 7 :: int] \<and>
   (\<Sum>rank<3. getLocalSplitBatchSizes [4, 5, 7] (int 3) (int rank) ! 1) = 5"
  using local_split_sizes_exact [of 3 1 "[4, 5, 7]"] by simp

text \<open>
  A rank recovers the global dimensions of a distributed tensor: \<open>getGlobalDim\<close> inverts
  \<open>calcDistBatchDims\<close> on every rank whose share of the batch is not empty, when the leading
  dimension is a multiple of the batch size.
\<close>

lemma global_dim_inverts_dist_dims:
  assumes "finite ranks" "ranks \<noteq> {}" "0 < batch_size" "batch_size < 2 ^ 63"
    and "global_dim \<noteq> []" "global_dim ! 0 = c * batch_size"
    and "calcDistBatchDims batch_size global_dim ranks 0 = Inr dims" "um_get dims r = Some dim"
    and "getSplitBatchSizes batch_size ranks 0 = Inr sizes" "um_get sizes r = Some s" "s \<noteq> 0"
  shows "getGlobalDim batch_size dim ranks r = Inr global_dim"
proof -
  obtain sizes' where s': "getSplitBatchSizes batch_size ranks 0 = Inr sizes'"
    and "is_batch_split batch_size ranks sizes'"
    and d: "calcDistBatchDims batch_size global_dim ranks 0
      = Inr (map (\<lambda>(r, s). (r, global_dim[0 := c * s])) sizes')"
    using assms(1-6) by (rule calcDistBatchDims_Inr)
  from s' assms(9) have "sizes' = sizes" by simp
  with d assms(7) have "dims = map (\<lambda>(r, s). (r, global_dim[0 := c * s])) sizes" by simp
  with assms(8,10) have dim: "dim = global_dim[0 := c * s]" by (simp add: map_of_map)
  have "tdiv (c * s * batch_size) s = c * batch_size"
    using tdiv_mult_cancel [OF assms(11), of "c * batch_size"] by (simp add: ac_simps)
  moreover have "dim ! 0 = c * s" "dim \<noteq> []" using assms(5) by (simp_all add: dim)
  ultimately show ?thesis
    using assms(5,9,10,11)
    by (simp add: getGlobalDim_def um_at_def dim assms(6) [symmetric])
qed

lemma global_dim_inverts_dist_dims_witness:
  "getGlobalDim 5 [3, 7] {0, 1} 0 = Inr [5, 7]"
proof (rule global_dim_inverts_dist_dims
    [where dims = "[(0, [3, 7]), (1, [2, 7])]" and sizes = "[(0, 3), (1, 2)]" and s = 3 and c = 1])
  show "calcDistBatchDims 5 [5, 7] {0, 1} 0 = Inr [(0, [3, 7]), (1, [2, 7])]" by code_simp
  show "getSplitBatchSizes 5 {0, 1} 0 = Inr [(0, 3), (1, 2)]" by code_simp
qed simp_all

text \<open>
  \<open>sum\<close> is exact only while the running total fits a 32-bit \<open>int\<close>: the total of one
  \<open>long\<close> element \<open>2 ^ 31\<close> comes out negative.
\<close>

lemma sum_truncates: "sum_acc [2 ^ 31] = - (2 ^ 31) \<and> average [2 ^ 31] = Inr (2 ^ 64 - 2 ^ 31)"
  by (simp add: sum_acc_def average_def wrap32_def to_size_def)

end
