(* ===== verification/Redist.thy ===== *)
theory Redist
  imports Common_Util
begin

text \<open>
  Redistribution of a tensor between two groups of ranks: \<open>getRedistArgs\<close> of \<open>SComm.cpp\<close> computes
  how many elements every rank exchanges with every other, \<open>redist\<close> of \<open>SCommCommon.cpp\<close> performs
  the exchange with blocking point-to-point calls. The tensor is split along its first dimension,
  so each group cuts the same flat array into consecutive pieces.

  An \<open>int64_t\<close> index is an \<open>int\<close>; the conversion of a \<open>size_t\<close> product to \<open>int64_t\<close> is written
  out (\<open>dist_size\<close>). The asserts that the counts fit an \<open>int\<close> are error results.
\<close>

section \<open>Counts and displacements\<close>

record redist_args =
  sendcounts :: "int list"
  recvcounts :: "int list"
  sdispls :: "int list"
  rdispls :: "int list"

definition INT_MAX :: int where
  "INT_MAX = 2 ^ 31 - 1"

definition dist_size :: "int list \<Rightarrow> int" where
  "dist_size dim = sint (productDim dim)"

primrec send_loop ::
    "(int, int list) umap \<Rightarrow> int \<Rightarrow> int \<Rightarrow> int \<Rightarrow> int \<Rightarrow> int list \<Rightarrow>
     (int, int) umap \<Rightarrow> (int, int) umap \<Rightarrow> ((int, int) umap \<times> (int, int) umap) res" where
  "send_loop dest_dist send_idx_from send_idx_to send_idx_offset recv_idx_from [] counts displs = Inr (counts, displs)"
| "send_loop dest_dist send_idx_from send_idx_to send_idx_offset recv_idx_from (dest_rank # rest) counts displs =
     rbind (um_at dest_dist dest_rank) (\<lambda>dim.
       let dest_size = dist_size dim;
           recv_idx_to = recv_idx_from + dest_size;
           hit = (send_idx_from + send_idx_offset \<le> recv_idx_from + dest_size);
           sendcount = min (send_idx_to - (send_idx_from + send_idx_offset))
                           (recv_idx_to - (send_idx_from + send_idx_offset));
           counts' = (if hit then um_set dest_rank sendcount counts else counts);
           displs' = (if hit then um_set dest_rank send_idx_offset displs else displs);
           offset' = (if hit then send_idx_offset + sendcount else send_idx_offset)
       in if send_idx_from + offset' = send_idx_to then Inr (counts', displs')
          else send_loop dest_dist send_idx_from send_idx_to offset' (recv_idx_from + dest_size) rest counts' displs')"

fun send_ranks ::
    "int \<Rightarrow> (int, int list) umap \<Rightarrow> (int, int list) umap \<Rightarrow> int list \<Rightarrow> int \<Rightarrow> int list \<Rightarrow>
     (int, int) umap \<times> (int, int) umap \<Rightarrow> ((int, int) umap \<times> (int, int) umap) res" where
  "send_ranks my_rank src_dist dest_dist dest_ranks send_idx_from [] acc = Inr acc"
| "send_ranks my_rank src_dist dest_dist dest_ranks send_idx_from (src_rank # rest) acc =
     (if my_rank = src_rank then
        rbind (um_at src_dist my_rank) (\<lambda>dim.
        rbind (send_loop dest_dist send_idx_from (send_idx_from + dist_size dim) 0 0 dest_ranks (fst acc) (snd acc)) (\<lambda>acc'.
        send_ranks my_rank src_dist dest_dist dest_ranks send_idx_from rest acc'))
      else
        rbind (um_at src_dist src_rank) (\<lambda>dim.
        send_ranks my_rank src_dist dest_dist dest_ranks (send_idx_from + dist_size dim) rest acc))"

definition group_ranks :: "int list \<Rightarrow> int list \<Rightarrow> int list" where
  "group_ranks src_ranks dest_ranks = sorted_list_of_set (set src_ranks \<union> set dest_ranks)"

definition check_int :: "int \<Rightarrow> int res" where
  "check_int i = rbind (rassert (i < INT_MAX)) (\<lambda>_. Inr i)"

definition getRedistArgsSend ::
    "int \<Rightarrow> (int, int list) umap \<Rightarrow> (int, int list) umap \<Rightarrow> int list \<Rightarrow> int list \<Rightarrow> redist_args res" where
  "getRedistArgsSend my_rank src_dist dest_dist src_ranks dest_ranks =
     rbind (send_ranks my_rank src_dist dest_dist dest_ranks 0 src_ranks ([], [])) (\<lambda>(counts, displs).
     let group = group_ranks src_ranks dest_ranks in
     rbind (rmap (\<lambda>r. check_int (um_ref 0 counts r)) group) (\<lambda>cs.
     rbind (rmap (\<lambda>r. check_int (um_ref 0 displs r)) group) (\<lambda>ds.
     Inr \<lparr>sendcounts = cs, recvcounts = map (\<lambda>_. 0) group,
          sdispls = ds, rdispls = map (\<lambda>_. 0) group\<rparr>)))"

primrec recv_loop ::
    "(int, int list) umap \<Rightarrow> int \<Rightarrow> int \<Rightarrow> int \<Rightarrow> int \<Rightarrow> int list \<Rightarrow>
     (int, int) umap \<Rightarrow> (int, int) umap \<Rightarrow> ((int, int) umap \<times> (int, int) umap) res" where
  "recv_loop src_dist recv_idx_from recv_idx_to recv_idx_offset send_idx_from [] counts displs = Inr (counts, displs)"
| "recv_loop src_dist recv_idx_from recv_idx_to recv_idx_offset send_idx_from (src_rank # rest) counts displs =
     rbind (um_at src_dist src_rank) (\<lambda>dim.
       let src_size = dist_size dim;
           send_idx_to = send_idx_from + src_size;
           hit = (recv_idx_from + recv_idx_offset \<le> send_idx_from + src_size);
           recvcount = min (recv_idx_to - (recv_idx_from + recv_idx_offset))
                           (send_idx_to - (recv_idx_from + recv_idx_offset));
           counts' = (if hit then um_set src_rank recvcount counts else counts);
           displs' = (if hit then um_set src_rank recv_idx_offset displs else displs);
           offset' = (if hit then recv_idx_offset + recvcount else recv_idx_offset)
       in if recv_idx_from + offset' = recv_idx_to then Inr (counts', displs')
          else recv_loop src_dist recv_idx_from recv_idx_to offset' (send_idx_from + src_size) rest counts' displs')"

fun recv_ranks ::
    "int \<Rightarrow> (int, int list) umap \<Rightarrow> (int, int list) umap \<Rightarrow> int list \<Rightarrow> int \<Rightarrow> int list \<Rightarrow>
     (int, int) umap \<times> (int, int) umap \<Rightarrow> ((int, int) umap \<times> (int, int) umap) res" where
  "recv_ranks my_rank src_dist dest_dist src_ranks recv_idx_from [] acc = Inr acc"
| "recv_ranks my_rank src_dist dest_dist src_ranks recv_idx_from (dest_rank # rest) acc =
     (if my_rank = dest_rank then
        rbind (um_at dest_dist my_rank) (\<lambda>dim.
        rbind (recv_loop src_dist recv_idx_from (recv_idx_from + dist_size dim) 0 0 src_ranks (fst acc) (snd acc)) (\<lambda>acc'.
        recv_ranks my_rank src_dist dest_dist src_ranks recv_idx_from rest acc'))
      else
        rbind (um_at dest_dist dest_rank) (\<lambda>dim.
        recv_ranks my_rank src_dist dest_dist src_ranks (recv_idx_from + dist_size dim) rest acc))"

definition getRedistArgsRecv ::
    "int \<Rightarrow> (int, int list) umap \<Rightarrow> (int, int list) umap \<Rightarrow> int list \<Rightarrow> int list \<Rightarrow> redist_args res" where
  "getRedistArgsRecv my_rank src_dist dest_dist src_ranks dest_ranks =
     rbind (recv_ranks my_rank src_dist dest_dist src_ranks 0 dest_ranks ([], [])) (\<lambda>(counts, displs).
     let group = group_ranks src_ranks dest_ranks in
     rbind (rmap (\<lambda>r. check_int (um_ref 0 counts r)) group) (\<lambda>cs.
     rbind (rmap (\<lambda>r. check_int (um_ref 0 displs r)) group) (\<lambda>ds.
     Inr \<lparr>sendcounts = map (\<lambda>_. 0) group, recvcounts = cs,
          sdispls = map (\<lambda>_. 0) group, rdispls = ds\<rparr>)))"

definition empty_args :: redist_args where
  "empty_args = \<lparr>sendcounts = [], recvcounts = [], sdispls = [], rdispls = []\<rparr>"

definition getRedistArgs ::
    "int \<Rightarrow> int \<Rightarrow> int list \<Rightarrow> int set \<Rightarrow> int set \<Rightarrow> int \<Rightarrow> redist_args res" where
  "getRedistArgs my_rank total_batch_size global_dim src_ranks dest_ranks split_index =
     rbind (calcDistBatchDims total_batch_size global_dim src_ranks split_index) (\<lambda>src_dist.
     rbind (calcDistBatchDims total_batch_size global_dim dest_ranks split_index) (\<lambda>dest_dist.
     let vec_src_ranks = sorted_list_of_set src_ranks;
         vec_dest_ranks = sorted_list_of_set dest_ranks;
         send = (my_rank \<in> src_ranks);
         recv = (my_rank \<in> dest_ranks);
         both = (send \<and> recv)
     in rbind (if send then getRedistArgsSend my_rank src_dist dest_dist vec_src_ranks vec_dest_ranks
               else Inr empty_args) (\<lambda>sendArgs.
        if send \<and> \<not> both then Inr sendArgs
        else rbind (if recv then getRedistArgsRecv my_rank src_dist dest_dist vec_src_ranks vec_dest_ranks
                    else Inr empty_args) (\<lambda>recvArgs.
        if recv \<and> \<not> both then Inr recvArgs
        else Inr \<lparr>sendcounts = sendcounts sendArgs, recvcounts = recvcounts recvArgs,
                  sdispls = sdispls sendArgs, rdispls = rdispls recvArgs\<rparr>))))"

section \<open>The interval reading of the counts\<close>

text \<open>The number of indices that two half-open intervals share.\<close>

definition overlap :: "int \<Rightarrow> int \<Rightarrow> int \<Rightarrow> int \<Rightarrow> int" where
  "overlap s t a b = max 0 (min t b - max s a)"

text \<open>Where the piece of rank \<open>r\<close> starts when the pieces are laid out in the order of \<open>rs\<close>.\<close>

definition piece_start :: "(int \<Rightarrow> int) \<Rightarrow> int list \<Rightarrow> int \<Rightarrow> int" where
  "piece_start sz rs r = sum_list (map sz (takeWhile (\<lambda>x. x \<noteq> r) rs))"

lemma overlap_commute: "overlap s t a b = overlap a b s t"
  by (simp add: overlap_def min.commute max.commute)

lemma overlap_nonneg [simp]: "0 \<le> overlap s t a b"
  by (simp add: overlap_def)

lemma recv_loop_send_loop: "recv_loop = send_loop"
proof (intro ext)
  fix m :: "(int, int list) umap" and a b c d rs counts displs
  show "recv_loop m a b c d rs counts displs = send_loop m a b c d rs counts displs"
    by (induction rs arbitrary: c d counts displs) (simp_all add: Let_def cong: if_cong)
qed

lemma recv_ranks_send_ranks: "recv_ranks r src dest = send_ranks r dest src"
proof (intro ext)
  fix rs p ds acc
  show "recv_ranks r src dest rs p ds acc = send_ranks r dest src rs p ds acc"
    by (induction ds arbitrary: p acc) (auto simp: recv_loop_send_loop intro!: rbind_cong)
qed

text \<open>
  The loop keeps the position \<open>send_idx_from + send_idx_offset\<close> equal to the start of the current
  destination clamped to the own piece, so every count is the overlap of two intervals.
\<close>

lemma clamped_count:
  fixes S T R n off :: int
  assumes "S + off = max S (min T R)" and "S \<le> T" and "0 \<le> n"
  defines "c \<equiv> min (T - (S + off)) (R + n - (S + off))"
  shows "S + off \<le> R + n \<Longrightarrow> S + (off + c) = max S (min T (R + n)) \<and> c = overlap S T R (R + n)"
    and "\<not> S + off \<le> R + n \<Longrightarrow> S + off = max S (min T (R + n)) \<and> overlap S T R (R + n) = 0"
    and "off \<le> T - S" and "0 < overlap S T R (R + n) \<Longrightarrow> S + off \<le> R + n \<and> off = max S R - S"
  using assms(1-3) unfolding c_def overlap_def by linarith+

lemma send_loop_overlap:
  assumes "\<And>d. d \<in> set ds \<Longrightarrow> um_get dist d = Some (dim d) \<and> 0 \<le> dist_size (dim d)"
    and "distinct ds" and "0 \<le> off" and "S + off = max S (min T R)" and "S \<le> T"
    and "\<And>d. d \<in> set ds \<Longrightarrow> um_get sc d = None \<and> um_get sd d = None"
  obtains sc' sd' where "send_loop dist S T off R ds sc sd = Inr (sc', sd')"
    and "\<And>x. x \<notin> set ds \<Longrightarrow> um_get sc' x = um_get sc x \<and> um_get sd' x = um_get sd x"
    and "\<And>d. d \<in> set ds \<Longrightarrow> let a = R + piece_start (\<lambda>r. dist_size (dim r)) ds d in
           um_ref 0 sc' d = overlap S T a (a + dist_size (dim d)) \<and> um_ref 0 sd' d \<le> T - S \<and>
           (0 < overlap S T a (a + dist_size (dim d)) \<longrightarrow> um_ref 0 sd' d = max S a - S)"
  using assms
proof (induction ds arbitrary: off R sc sd thesis)
  case Nil
  then show ?case by simp
next
  case (Cons d ds)
  let ?n = "dist_size (dim d)"
  let ?hit = "S + off \<le> R + ?n"
  let ?c = "min (T - (S + off)) (R + ?n - (S + off))"
  let ?sc = "if ?hit then um_set d ?c sc else sc" and ?sd = "if ?hit then um_set d off sd else sd"
  let ?off = "if ?hit then off + ?c else off"
  have get: "um_at dist d = Inr (dim d)" and n: "0 \<le> ?n" using Cons.prems(2) by (auto simp: um_at_Inr)
  have fresh: "um_get sc d = None" "um_get sd d = None" using Cons.prems(7) [of d] by simp_all
  note arith = clamped_count [OF Cons.prems(5,6) n]
  have acc: "um_get ?sc d = (if ?hit then Some ?c else None)"
      "um_get ?sd d = (if ?hit then Some off else None)"
    using fresh by (simp_all only: um_get_set fun_upd_same split: if_split) simp_all
  have pos: "S + ?off = max S (min T (R + ?n))"
    by (rule if_split [THEN iffD2]) (use arith(1,2) in blast)
  have cnt: "um_ref 0 ?sc d = overlap S T R (R + ?n)"
    unfolding um_ref_def acc using arith(1,2) by (cases ?hit) (simp_all only: if_True if_False option.case simp_thms)
  have dsp: "0 < overlap S T R (R + ?n) \<longrightarrow> um_ref 0 ?sd d = max S R - S"
    unfolding um_ref_def acc using arith(4) by (metis option.case(2))
  have bnd: "um_ref 0 ?sd d \<le> T - S"
    unfolding um_ref_def acc using arith(3) Cons.prems(6) by (cases ?hit) (simp_all only: if_True if_False option.case diff_ge_0_iff_ge)
  have frame: "x \<noteq> d \<Longrightarrow> um_get ?sc x = um_get sc x \<and> um_get ?sd x = um_get sd x" for x
    by (simp add: um_get_set)
  have unset: "um_get ?sc x = None \<and> um_get ?sd x = None" if "x \<in> set ds" for x
  proof -
    have "x \<noteq> d" using that Cons.prems(3) by auto
    with frame [of x] Cons.prems(7) [of x] that show ?thesis by simp
  qed
  have unf: "send_loop dist S T off R (d # ds) sc sd =
      (if S + ?off = T then Inr (?sc, ?sd) else send_loop dist S T ?off (R + ?n) ds ?sc ?sd)"
    by (simp add: get Let_def)
  have later: "x \<in> set ds \<Longrightarrow> 0 \<le> piece_start (\<lambda>r. dist_size (dim r)) ds x" for x
    unfolding piece_start_def by (intro sum_list_nonneg) (use Cons.prems(2) in \<open>auto dest: set_takeWhileD\<close>)
  have start: "x \<in> set ds \<Longrightarrow> piece_start (\<lambda>r. dist_size (dim r)) (d # ds) x
      = ?n + piece_start (\<lambda>r. dist_size (dim r)) ds x" for x
    using Cons.prems(3) by (auto simp: piece_start_def)
  show ?case
  proof (cases "S + ?off = T")
    case True
    have "T \<le> R + ?n \<or> T = S" using pos True Cons.prems(6) by (auto simp: max_def min_def split: if_splits)
    then have none: "overlap S T (R + piece_start (\<lambda>r. dist_size (dim r)) (d # ds) x) b = 0" if "x \<in> set ds" for x b
      using later [OF that] start [OF that] by (auto simp: overlap_def)
    have "um_ref 0 ?sc x = 0 \<and> um_ref 0 ?sd x = 0" if "x \<in> set ds" for x
      using unset [OF that] by (simp only: um_ref_def option.case simp_thms)
    note zero = this
    show ?thesis
    proof (rule Cons.prems(1) [of "?sc" "?sd"], goal_cases)
      case 1
      show ?case unfolding unf by (rule if_P [OF True])
    next
      case (2 x)
      then show ?case using frame [of x] by simp
    next
      case (3 x)
      show ?case
      proof (cases "x = d")
        case True
        then show ?thesis using cnt dsp bnd by (simp add: piece_start_def Let_def)
      next
        case False
        with 3 have "x \<in> set ds" by simp
        then show ?thesis using Cons.prems(6) by (simp add: Let_def zero none del: send_loop.simps)
      qed
    qed
  next
    case False
    have "0 \<le> ?off" using Cons.prems(4,5,6) n by (auto simp: max_def min_def split: if_splits)
    with unset obtain sc' sd' where run: "send_loop dist S T ?off (R + ?n) ds ?sc ?sd = Inr (sc', sd')"
      and out: "\<And>x. x \<notin> set ds \<Longrightarrow> um_get sc' x = um_get ?sc x \<and> um_get sd' x = um_get ?sd x"
      and ins: "\<And>x. x \<in> set ds \<Longrightarrow> let a = R + ?n + piece_start (\<lambda>r. dist_size (dim r)) ds x in
           um_ref 0 sc' x = overlap S T a (a + dist_size (dim x)) \<and> um_ref 0 sd' x \<le> T - S \<and>
           (0 < overlap S T a (a + dist_size (dim x)) \<longrightarrow> um_ref 0 sd' x = max S a - S)"
      using Cons.IH [of ?off "R + ?n" "?sc" "?sd"] Cons.prems(2,3,6) pos by auto
    have dd: "d \<notin> set ds" using Cons.prems(3) by simp
    show ?thesis
    proof (rule Cons.prems(1) [of sc' sd'], goal_cases)
      case 1
      then show ?case using run False by (simp only: unf if_False)
    next
      case (2 x)
      then show ?case using out [of x] frame [of x] by auto
    next
      case (3 x)
      show ?case
      proof (cases "x = d")
        case True
        then show ?thesis using out [OF dd] cnt dsp bnd by (simp add: piece_start_def um_ref_def)
      next
        case False
        with 3 ins [of x] start [of x] show ?thesis by (auto simp: Let_def add.assoc)
      qed
    qed
  qed
qed


text \<open>The sizes that a distribution map gives to its ranks, all of them non-negative.\<close>

definition dist_ok :: "(int, int list) umap \<Rightarrow> int list \<Rightarrow> (int \<Rightarrow> int) \<Rightarrow> bool" where
  "dist_ok dist rs sz \<longleftrightarrow> distinct rs \<and>
     (\<forall>r \<in> set rs. 0 \<le> sz r \<and> (\<exists>dim. um_get dist r = Some dim \<and> dist_size dim = sz r))"

definition piece_overlap :: "(int \<Rightarrow> int) \<Rightarrow> int list \<Rightarrow> (int \<Rightarrow> int) \<Rightarrow> int list \<Rightarrow> int \<Rightarrow> int \<Rightarrow> int" where
  "piece_overlap sz rs tz ds r d =
     overlap (piece_start sz rs r) (piece_start sz rs r + sz r)
             (piece_start tz ds d) (piece_start tz ds d + tz d)"

lemma piece_overlap_commute: "piece_overlap sz rs tz ds r d = piece_overlap tz ds sz rs d r"
  by (simp add: piece_overlap_def overlap_commute)

lemma send_ranks_skip:
  assumes "dist_ok src rs sz" and "r \<notin> set rs"
  shows "send_ranks r src dest ds p rs acc = Inr acc"
  using assms by (induction rs arbitrary: p) (auto simp: dist_ok_def um_at_def)

lemma piece_start_Cons: "piece_start sz (x # rs) r = (if x = r then 0 else sz x + piece_start sz rs r)"
  by (simp add: piece_start_def)

lemma piece_start_nonneg: "\<forall>r \<in> set rs. 0 \<le> sz r \<Longrightarrow> 0 \<le> piece_start sz rs r"
  unfolding piece_start_def by (intro sum_list_nonneg) (auto dest: set_takeWhileD)

lemma send_ranks_at:
  assumes "dist_ok src rs sz" and "r \<in> set rs"
  shows "send_ranks r src dest ds p rs acc =
    send_loop dest (p + piece_start sz rs r) (p + piece_start sz rs r + sz r) 0 0 ds (fst acc) (snd acc)"
  using assms
proof (induction rs arbitrary: p)
  case (Cons x rs)
  then have ok: "dist_ok src rs sz" by (simp add: dist_ok_def)
  obtain dim where dim: "um_get src x = Some dim" "dist_size dim = sz x"
    using Cons.prems by (auto simp: dist_ok_def)
  show ?case
  proof (cases "r = x")
    case True
    have "r \<notin> set rs" using Cons.prems(1) True by (simp add: dist_ok_def)
    from send_ranks_skip [OF ok this] show ?thesis
      by (simp add: True um_at_def dim piece_start_def rbind_def split: sum.splits)
  next
    case False
    with Cons.prems have "r \<in> set rs" by simp
    with Cons.IH [OF ok] False show ?thesis by (simp add: um_at_def dim piece_start_Cons add.assoc)
  qed
qed simp

lemma send_counts:
  assumes src: "dist_ok src rs sz" and dest: "dist_ok dest ds tz" and r: "r \<in> set rs"
  obtains counts displs where "send_ranks r src dest ds 0 rs ([], []) = Inr (counts, displs)"
    and "\<And>x. x \<notin> set ds \<Longrightarrow> um_ref 0 counts x = 0 \<and> um_ref 0 displs x = 0"
    and "\<And>d. d \<in> set ds \<Longrightarrow> um_ref 0 counts d = piece_overlap sz rs tz ds r d \<and> um_ref 0 displs d \<le> sz r"
    and "\<And>d. d \<in> set ds \<Longrightarrow> 0 < piece_overlap sz rs tz ds r d \<Longrightarrow>
       um_ref 0 displs d = max (piece_start sz rs r) (piece_start tz ds d) - piece_start sz rs r"
proof -
  define dim where "dim = (\<lambda>d. the (um_get dest d))"
  have tz: "d \<in> set ds \<Longrightarrow> um_get dest d = Some (dim d) \<and> dist_size (dim d) = tz d \<and> 0 \<le> tz d" for d
    using dest by (auto simp: dist_ok_def dim_def)
  let ?S = "piece_start sz rs r"
  have nn: "0 \<le> ?S" "0 \<le> sz r" using src r by (auto simp: dist_ok_def intro: piece_start_nonneg)
  have eq: "piece_start (\<lambda>r. dist_size (dim r)) ds d = piece_start tz ds d" for d
    unfolding piece_start_def by (intro arg_cong [where f = sum_list] map_cong) (auto dest: set_takeWhileD tz)
  obtain sc sd where run: "send_loop dest ?S (?S + sz r) 0 0 ds [] [] = Inr (sc, sd)"
    and out: "\<And>x. x \<notin> set ds \<Longrightarrow> um_get sc x = um_get [] x \<and> um_get sd x = um_get [] x"
    and ins: "\<And>d. d \<in> set ds \<Longrightarrow> let a = 0 + piece_start (\<lambda>r. dist_size (dim r)) ds d in
           um_ref 0 sc d = overlap ?S (?S + sz r) a (a + dist_size (dim d)) \<and>
           um_ref 0 sd d \<le> ?S + sz r - ?S \<and> (0 < overlap ?S (?S + sz r) a (a + dist_size (dim d)) \<longrightarrow> um_ref 0 sd d = max ?S a - ?S)"
    using send_loop_overlap [of ds dest dim 0 ?S "?S + sz r" 0 "[]" "[]"] tz dest nn
    by (auto simp: dist_ok_def)
  show ?thesis
  proof (rule that [of sc sd], goal_cases)
    case 1
    show ?case using send_ranks_at [OF src r, of dest ds 0] run by simp
  next
    case (2 x)
    with out [of x] show ?case by (simp add: um_ref_def)
  next
    case (3 d)
    with ins [of d] tz [of d] show ?case by (simp add: Let_def eq piece_overlap_def)
  next
    case (4 d)
    with ins [of d] tz [of d] show ?case by (simp add: Let_def eq piece_overlap_def)
  qed
qed


lemma rmap_check_int:
  "(\<And>r. r \<in> set rs \<Longrightarrow> f r < INT_MAX) \<Longrightarrow> rmap (\<lambda>r. check_int (f r)) rs = Inr (map f rs)"
  by (rule rmap_Inr) (simp add: check_int_def)

lemma set_group_ranks [simp]: "set (group_ranks rs ds) = set rs \<union> set ds"
  by (simp add: group_ranks_def)

lemma piece_overlap_le: "0 \<le> sz r \<Longrightarrow> piece_overlap sz rs tz ds r d \<le> sz r"
  by (auto simp: piece_overlap_def overlap_def)

text \<open>
  What the argument vectors of one rank promise: the count towards \<open>d\<close> is the overlap of the
  two pieces, and the displacement is where the overlap starts in the rank's own piece.
\<close>

definition counts_for ::
    "(int \<Rightarrow> int) \<Rightarrow> int list \<Rightarrow> (int \<Rightarrow> int) \<Rightarrow> int list \<Rightarrow> int \<Rightarrow> int list \<Rightarrow> int list \<Rightarrow> int list \<Rightarrow> bool" where
  "counts_for sz rs tz ds r members counts displs \<longleftrightarrow>
     length counts = length members \<and> length displs = length members \<and>
     (\<forall>i < length members. counts ! i = (if members ! i \<in> set ds then piece_overlap sz rs tz ds r (members ! i) else 0) \<and>
        (0 < counts ! i \<longrightarrow> displs ! i =
           max (piece_start sz rs r) (piece_start tz ds (members ! i)) - piece_start sz rs r))"

lemma getRedistArgsSend_Inr:
  assumes src: "dist_ok src rs sz" and dest: "dist_ok dest ds tz" and r: "r \<in> set rs" and lt: "sz r < INT_MAX"
  obtains args where "getRedistArgsSend r src dest rs ds = Inr args"
    and "counts_for sz rs tz ds r (group_ranks rs ds) (sendcounts args) (sdispls args)"
    and "recvcounts args = map (\<lambda>_. 0) (group_ranks rs ds)"
proof -
  let ?g = "group_ranks rs ds"
  obtain sc sd where run: "send_ranks r src dest ds 0 rs ([], []) = Inr (sc, sd)"
    and out: "\<And>x. x \<notin> set ds \<Longrightarrow> um_ref 0 sc x = 0 \<and> um_ref 0 sd x = 0"
    and ins: "\<And>d. d \<in> set ds \<Longrightarrow> um_ref 0 sc d = piece_overlap sz rs tz ds r d \<and> um_ref 0 sd d \<le> sz r"
    and dsp: "\<And>d. d \<in> set ds \<Longrightarrow> 0 < piece_overlap sz rs tz ds r d \<Longrightarrow>
       um_ref 0 sd d = max (piece_start sz rs r) (piece_start tz ds d) - piece_start sz rs r"
    using send_counts [OF src dest r] by metis
  let ?args = "\<lparr>sendcounts = map (um_ref 0 sc) ?g, recvcounts = map (\<lambda>_. 0) ?g,
    sdispls = map (um_ref 0 sd) ?g, rdispls = map (\<lambda>_. 0) ?g\<rparr>"
  have sz: "0 \<le> sz r" using src r by (simp add: dist_ok_def)
  have "um_ref 0 sc x < INT_MAX" "um_ref 0 sd x < INT_MAX" for x
    using out [of x] ins [of x] piece_overlap_le [of sz r rs tz ds x] sz lt by (cases "x \<in> set ds"; force)+
  then have "getRedistArgsSend r src dest rs ds = Inr ?args"
    by (simp add: getRedistArgsSend_def run Let_def rmap_check_int)
  moreover have "counts_for sz rs tz ds r ?g (map (um_ref 0 sc) ?g) (map (um_ref 0 sd) ?g)"
    using out ins dsp by (auto simp: counts_for_def)
  ultimately show ?thesis by (intro that [of ?args]) simp_all
qed

lemma getRedistArgsRecv_Inr:
  assumes src: "dist_ok src rs sz" and dest: "dist_ok dest ds tz" and d: "d \<in> set ds" and lt: "tz d < INT_MAX"
  obtains args where "getRedistArgsRecv d src dest rs ds = Inr args"
    and "counts_for tz ds sz rs d (group_ranks rs ds) (recvcounts args) (rdispls args)"
    and "sendcounts args = map (\<lambda>_. 0) (group_ranks rs ds)"
proof -
  have g: "group_ranks rs ds = group_ranks ds rs" by (simp add: group_ranks_def Un_commute)
  obtain args where run: "getRedistArgsSend d dest src ds rs = Inr args"
    and c: "counts_for tz ds sz rs d (group_ranks ds rs) (sendcounts args) (sdispls args)"
    by (rule getRedistArgsSend_Inr [OF dest src d lt])
  let ?args = "\<lparr>sendcounts = map (\<lambda>_. 0) (group_ranks rs ds), recvcounts = sendcounts args,
    sdispls = map (\<lambda>_. 0) (group_ranks rs ds), rdispls = sdispls args\<rparr>"
  have "getRedistArgsRecv d src dest rs ds = Inr ?args"
    using run by (auto simp: getRedistArgsRecv_def getRedistArgsSend_def recv_ranks_send_ranks g
        Let_def rbind_eq_Inr split: prod.splits)
  then show ?thesis using c by (intro that [of ?args]) (simp_all add: g)
qed


subsection \<open>Pieces of a batch\<close>

lemma overlap_split: "s \<le> t \<Longrightarrow> a \<le> b \<Longrightarrow> b \<le> c \<Longrightarrow> overlap s t a b + overlap s t b c = overlap s t a c"
  by (simp add: overlap_def) linarith

lemma sum_piece_overlap:
  assumes "\<forall>d \<in> set ds. 0 \<le> tz d" and "distinct ds" and "s \<le> t"
  shows "(\<Sum>d\<leftarrow>ds. overlap s t (R + piece_start tz ds d) (R + piece_start tz ds d + tz d))
    = overlap s t R (R + sum_list (map tz ds))"
  using assms
proof (induction ds arbitrary: R)
  case (Cons d ds)
  have "(\<Sum>x\<leftarrow>ds. overlap s t (R + piece_start tz (d # ds) x) (R + piece_start tz (d # ds) x + tz x))
      = (\<Sum>x\<leftarrow>ds. overlap s t (R + tz d + piece_start tz ds x) (R + tz d + piece_start tz ds x + tz x))"
    using Cons.prems(2) by (intro arg_cong [where f = sum_list] map_cong) (auto simp: piece_start_Cons add.assoc)
  also have "\<dots> = overlap s t (R + tz d) (R + tz d + sum_list (map tz ds))"
    using Cons.IH Cons.prems by simp
  finally have eq: "(\<Sum>x\<leftarrow>ds. overlap s t (R + piece_start tz (d # ds) x) (R + piece_start tz (d # ds) x + tz x))
      = overlap s t (R + tz d) (R + tz d + sum_list (map tz ds))" .
  have "0 \<le> sum_list (map tz ds)" using Cons.prems(1) by (intro sum_list_nonneg) auto
  then show ?case
    using overlap_split [OF Cons.prems(3), of R "R + tz d" "R + tz d + sum_list (map tz ds)"] Cons.prems(1) eq
    by (simp add: piece_start_Cons add.assoc)
qed (simp add: overlap_def)

lemma piece_end_le:
  assumes "\<forall>r \<in> set rs. 0 \<le> sz r" and "r \<in> set rs"
  shows "piece_start sz rs r + sz r \<le> sum_list (map sz rs)"
  using assms
proof (induction rs)
  case (Cons x rs)
  then show ?case using sum_list_nonneg [of "map sz rs"] by (auto simp: piece_start_Cons)
qed simp

lemma sum_piece_overlap_row:
  assumes "\<forall>r \<in> set rs. 0 \<le> sz r" "r \<in> set rs" "\<forall>d \<in> set ds. 0 \<le> tz d" "distinct ds"
    and "sum_list (map sz rs) = sum_list (map tz ds)"
  shows "(\<Sum>d\<leftarrow>ds. piece_overlap sz rs tz ds r d) = sz r"
proof -
  have "(\<Sum>d\<leftarrow>ds. piece_overlap sz rs tz ds r d)
      = overlap (piece_start sz rs r) (piece_start sz rs r + sz r) 0 (sum_list (map tz ds))"
    using sum_piece_overlap [OF assms(3,4), of "piece_start sz rs r" "piece_start sz rs r + sz r" 0] assms(1,2)
    by (simp add: piece_overlap_def)
  also have "\<dots> = sz r"
    using piece_end_le [OF assms(1,2)] piece_start_nonneg [OF assms(1), of r] assms(1,2,5) by (simp add: overlap_def)
  finally show ?thesis .
qed

lemma member_le_sum_list_int: "(\<And>x. x \<in> set xs \<Longrightarrow> 0 \<le> (x :: int)) \<Longrightarrow> y \<in> set xs \<Longrightarrow> y \<le> sum_list xs"
  by (induction xs) (auto simp: sum_list_nonneg intro: add_increasing)

lemma productDim_word: "productDim dim = word_of_int (prod_list dim)"
  by (simp add: productDim_prod_list) (induction dim; simp)

lemma dist_size_exact: "0 \<le> prod_list dim \<Longrightarrow> prod_list dim < 2 ^ 63 \<Longrightarrow> dist_size dim = prod_list dim"
  by (simp add: dist_size_def productDim_word sint_sbintrunc' signed_take_bit_int_eq_self)

text \<open>The elements of a rank's piece, read off the distribution map.\<close>

definition piece_size :: "(int, int list) umap \<Rightarrow> int \<Rightarrow> int" where
  "piece_size dist r = (case um_get dist r of None \<Rightarrow> 0 | Some dim \<Rightarrow> dist_size dim)"

definition dims_ok :: "int \<Rightarrow> int list \<Rightarrow> bool" where
  "dims_ok batch_size gd \<longleftrightarrow> 0 < batch_size \<and> batch_size < 2 ^ 63 \<and> gd \<noteq> [] \<and>
     batch_size dvd gd ! 0 \<and> (\<forall>x \<in> set gd. 0 \<le> x) \<and> prod_list gd < INT_MAX"

lemma calcDistBatchDims_pieces:
  assumes fin: "finite ranks" "ranks \<noteq> {}" and ok: "dims_ok b gd"
  obtains dist where "calcDistBatchDims b gd ranks k = Inr dist"
    and "dist_ok dist (sorted_list_of_set ranks) (piece_size dist)"
    and "sum_list (map (piece_size dist) (sorted_list_of_set ranks)) = prod_list gd"
    and "\<And>r. r \<in> ranks \<Longrightarrow> piece_size dist r < INT_MAX"
proof -
  from ok obtain c where c: "gd ! 0 = c * b" by (auto simp: dims_ok_def mult.commute elim: dvdE)
  have b: "0 < b" "b < 2 ^ 63" "gd \<noteq> []" using ok by (simp_all add: dims_ok_def)
  obtain sizes where sp: "is_batch_split b ranks sizes"
    and calc: "calcDistBatchDims b gd ranks k = Inr (map (\<lambda>(r, s). (r, gd[0 := c * s])) sizes)"
    using calcDistBatchDims_Inr [OF fin b c] by metis
  obtain g0 rest where gd: "gd = g0 # rest" using b(3) by (cases gd) auto
  let ?dist = "map (\<lambda>(r, s). (r, gd[0 := c * s])) sizes" and ?P = "prod_list rest"
  have nn: "0 \<le> c * b" "0 \<le> ?P" "c * b * ?P < INT_MAX"
    using ok c by (auto simp: dims_ok_def gd intro: prod_list_nonneg)
  have c0: "0 \<le> c" using nn(1) b(1) by (simp add: zero_le_mult_iff)
  have get: "um_get ?dist r = map_option (\<lambda>s. gd[0 := c * s]) (um_get sizes r)" for r
    by (simp add: map_of_map)
  have size: "piece_size ?dist r = c * s * ?P \<and> 0 \<le> c * s * ?P \<and> c * s * ?P < INT_MAX"
    if "um_get sizes r = Some s" for r s
  proof -
    have "s \<in> snd ` set sizes" using that by (force dest: map_of_SomeD)
    then have "0 \<le> s" "s \<le> b"
      using sp member_le_sum_list_int [of "map snd sizes" s] by (auto simp: is_batch_split_def)
    then have "0 \<le> c * s * ?P" "c * s * ?P \<le> c * b * ?P"
      using c0 nn(2) by (simp_all add: mult_left_mono mult_right_mono)
    moreover from this have "dist_size (gd[0 := c * s]) = c * s * ?P"
      using nn(3) by (subst dist_size_exact) (simp_all add: gd INT_MAX_def)
    ultimately show ?thesis using nn(3) that by (simp add: piece_size_def get)
  qed
  have keys: "fst ` set sizes = ranks" "um_ok sizes" "sum_list (map snd sizes) = b"
    using sp by (simp_all add: is_batch_split_def)
  have some: "r \<in> ranks \<Longrightarrow> \<exists>s. um_get sizes r = Some s" for r
    using keys(1) by (metis domIff dom_map_of_conv_image_fst option.exhaust)
  show ?thesis
  proof (rule that [OF calc], goal_cases)
    case 1
    show ?case using fin some size by (fastforce simp: dist_ok_def get piece_size_def)
  next
    case 2
    have "sum_list (map (piece_size ?dist) (sorted_list_of_set ranks)) = (\<Sum>r \<in> ranks. piece_size ?dist r)"
      using fin by (simp add: sum_list_distinct_conv_sum_set)
    also have "\<dots> = sum_list (map (piece_size ?dist) (map fst sizes))"
      using keys by (simp add: um_ok_def sum_list_distinct_conv_sum_set del: map_map)
    also have "\<dots> = (\<Sum>x\<leftarrow>sizes. c * snd x * ?P)"
      using size keys(2) by (auto simp: um_ok_def comp_def intro!: arg_cong [where f = sum_list] map_cong)
    also have "\<dots> = c * sum_list (map snd sizes) * ?P"
      by (induction sizes) (simp_all add: algebra_simps)
    finally show ?case using keys(3) c by (simp add: gd)
  next
    case (3 r)
    then show ?case using some [of r] size by auto
  qed
qed


section \<open>The arguments of all ranks together\<close>

text \<open>The elements that rank \<open>r\<close> holds of the source distribution and rank \<open>d\<close> needs of the target one.\<close>

definition exchange ::
    "int set \<Rightarrow> int set \<Rightarrow> (int, int list) umap \<Rightarrow> (int, int list) umap \<Rightarrow> int \<Rightarrow> int \<Rightarrow> int" where
  "exchange src dest src_dist dest_dist r d =
     (if r \<in> src \<and> d \<in> dest
      then piece_overlap (piece_size src_dist) (sorted_list_of_set src)
             (piece_size dest_dist) (sorted_list_of_set dest) r d
      else 0)"

definition piece_from :: "int set \<Rightarrow> (int, int list) umap \<Rightarrow> int \<Rightarrow> int" where
  "piece_from ranks dist r = piece_start (piece_size dist) (sorted_list_of_set ranks) r"

definition args_ok ::
    "int set \<Rightarrow> int set \<Rightarrow> (int, int list) umap \<Rightarrow> (int, int list) umap \<Rightarrow> int \<Rightarrow> redist_args \<Rightarrow> bool" where
  "args_ok src dest src_dist dest_dist r args \<longleftrightarrow>
     (let g = sorted_list_of_set (src \<union> dest) in
      length (sendcounts args) = length g \<and> length (recvcounts args) = length g \<and>
      (\<forall>i < length g.
         sendcounts args ! i = exchange src dest src_dist dest_dist r (g ! i) \<and>
         recvcounts args ! i = exchange src dest src_dist dest_dist (g ! i) r \<and>
         (0 < sendcounts args ! i \<longrightarrow> piece_from src src_dist r + sdispls args ! i =
            max (piece_from src src_dist r) (piece_from dest dest_dist (g ! i))) \<and>
         (0 < recvcounts args ! i \<longrightarrow> piece_from dest dest_dist r + rdispls args ! i =
            max (piece_from src src_dist (g ! i)) (piece_from dest dest_dist r))))"

lemma group_ranks_sets:
  "finite src \<Longrightarrow> finite dest \<Longrightarrow>
   group_ranks (sorted_list_of_set src) (sorted_list_of_set dest) = sorted_list_of_set (src \<union> dest)"
  by (simp add: group_ranks_def)

lemma args_ok_send_side:
  assumes "finite src" "finite dest" "r \<in> src" and g: "g = sorted_list_of_set (src \<union> dest)"
    and c: "counts_for (piece_size sd) (sorted_list_of_set src) (piece_size dd) (sorted_list_of_set dest) r g cs ds"
    and i: "i < length g"
  shows "cs ! i = exchange src dest sd dd r (g ! i) \<and>
    (0 < cs ! i \<longrightarrow> piece_from src sd r + ds ! i = max (piece_from src sd r) (piece_from dest dd (g ! i)))"
  using c i assms(1-3) by (auto simp: counts_for_def exchange_def piece_from_def)

lemma args_ok_recv_side:
  assumes "finite src" "finite dest" "r \<in> dest" and g: "g = sorted_list_of_set (src \<union> dest)"
    and c: "counts_for (piece_size dd) (sorted_list_of_set dest) (piece_size sd) (sorted_list_of_set src) r g cs ds"
    and i: "i < length g"
  shows "cs ! i = exchange src dest sd dd (g ! i) r \<and>
    (0 < cs ! i \<longrightarrow> piece_from dest dd r + ds ! i = max (piece_from src sd (g ! i)) (piece_from dest dd r))"
  using c i assms(1-3) by (auto simp: counts_for_def exchange_def piece_from_def piece_overlap_commute max.commute)

lemma getRedistArgs_row:
  assumes fin: "finite src" "src \<noteq> {}" "finite dest" "dest \<noteq> {}" and ok: "dims_ok b gd"
    and sd: "calcDistBatchDims b gd src k = Inr sd" and dd: "calcDistBatchDims b gd dest k = Inr dd"
    and r: "r \<in> src \<union> dest"
  shows "\<exists>args. getRedistArgs r b gd src dest k = Inr args \<and> args_ok src dest sd dd r args"
proof -
  let ?rs = "sorted_list_of_set src" and ?ds = "sorted_list_of_set dest"
  let ?g = "sorted_list_of_set (src \<union> dest)"
  have src: "dist_ok sd ?rs (piece_size sd)" "r \<in> src \<Longrightarrow> piece_size sd r < INT_MAX"
    using calcDistBatchDims_pieces [OF fin(1,2) ok, of k] sd by (metis sum.inject(2))+
  have dst: "dist_ok dd ?ds (piece_size dd)" "r \<in> dest \<Longrightarrow> piece_size dd r < INT_MAX"
    using calcDistBatchDims_pieces [OF fin(3,4) ok, of k] dd by (metis sum.inject(2))+
  have grp: "group_ranks ?rs ?ds = ?g" using fin by (simp add: group_ranks_sets)
  have len: "counts_for sz rs tz ds r m cs dp \<Longrightarrow> length cs = length m" for sz rs tz ds m cs dp
    by (simp add: counts_for_def)
  have Snd: "\<exists>A. getRedistArgsSend r sd dd ?rs ?ds = Inr A \<and>
      counts_for (piece_size sd) ?rs (piece_size dd) ?ds r ?g (sendcounts A) (sdispls A) \<and>
      recvcounts A = map (\<lambda>_. 0) ?g" if "r \<in> src"
    using getRedistArgsSend_Inr [OF src(1) dst(1)] src(2) that fin(1) unfolding grp by (metis set_sorted_list_of_set)
  have Rcv: "\<exists>B. getRedistArgsRecv r sd dd ?rs ?ds = Inr B \<and>
      counts_for (piece_size dd) ?ds (piece_size sd) ?rs r ?g (recvcounts B) (rdispls B) \<and>
      sendcounts B = map (\<lambda>_. 0) ?g" if "r \<in> dest"
    using getRedistArgsRecv_Inr [OF src(1) dst(1)] dst(2) that fin(3) unfolding grp by (metis set_sorted_list_of_set)
  note snd_at = args_ok_send_side [OF fin(1,3) _ refl] and rcv_at = args_ok_recv_side [OF fin(1,3) _ refl]
  consider "r \<in> src" "r \<in> dest" | "r \<in> src" "r \<notin> dest" | "r \<notin> src" "r \<in> dest" using r by blast
  then show ?thesis
  proof cases
    case 1
    from Snd [OF 1(1)] Rcv [OF 1(2)] obtain A B where "getRedistArgsSend r sd dd ?rs ?ds = Inr A"
      "getRedistArgsRecv r sd dd ?rs ?ds = Inr B"
      and c: "counts_for (piece_size sd) ?rs (piece_size dd) ?ds r ?g (sendcounts A) (sdispls A)"
      "counts_for (piece_size dd) ?ds (piece_size sd) ?rs r ?g (recvcounts B) (rdispls B)" by blast
    moreover have "args_ok src dest sd dd r \<lparr>sendcounts = sendcounts A, recvcounts = recvcounts B,
        sdispls = sdispls A, rdispls = rdispls B\<rparr>"
      unfolding args_ok_def Let_def
      using snd_at [OF 1(1) c(1)] rcv_at [OF 1(2) c(2)] len [OF c(1)] len [OF c(2)] by simp
    ultimately show ?thesis using 1 by (simp add: getRedistArgs_def sd dd Let_def)
  next
    case 2
    from Snd [OF 2(1)] obtain A where "getRedistArgsSend r sd dd ?rs ?ds = Inr A"
      and c: "counts_for (piece_size sd) ?rs (piece_size dd) ?ds r ?g (sendcounts A) (sdispls A)"
      and z: "recvcounts A = map (\<lambda>_. 0) ?g" by blast
    moreover have "args_ok src dest sd dd r A"
      unfolding args_ok_def Let_def
      using snd_at [OF 2(1) c] len [OF c] 2(2) by (simp add: z exchange_def)
    ultimately show ?thesis using 2 by (simp add: getRedistArgs_def sd dd Let_def)
  next
    case 3
    from Rcv [OF 3(2)] obtain B where "getRedistArgsRecv r sd dd ?rs ?ds = Inr B"
      and c: "counts_for (piece_size dd) ?ds (piece_size sd) ?rs r ?g (recvcounts B) (rdispls B)"
      and z: "sendcounts B = map (\<lambda>_. 0) ?g" by blast
    moreover have "args_ok src dest sd dd r B"
      unfolding args_ok_def Let_def
      using rcv_at [OF 3(2) c] len [OF c] 3(1) by (simp add: z exchange_def)
    ultimately show ?thesis using 3 by (simp add: getRedistArgs_def sd dd Let_def)
  qed
qed


lemma exchange_row_sum:
  assumes fin: "finite src" "src \<noteq> {}" "finite dest" "dest \<noteq> {}" and ok: "dims_ok b gd"
    and sd: "calcDistBatchDims b gd src k = Inr sd" and dd: "calcDistBatchDims b gd dest k = Inr dd"
  shows "r \<in> src \<Longrightarrow> (\<Sum>x \<in> src \<union> dest. exchange src dest sd dd r x) = piece_size sd r"
    and "r \<in> dest \<Longrightarrow> (\<Sum>x \<in> src \<union> dest. exchange src dest sd dd x r) = piece_size dd r"
proof -
  let ?rs = "sorted_list_of_set src" and ?ds = "sorted_list_of_set dest"
  have src: "dist_ok sd ?rs (piece_size sd)" "sum_list (map (piece_size sd) ?rs) = prod_list gd"
    using calcDistBatchDims_pieces [OF fin(1,2) ok, of k] sd by (metis sum.inject(2))+
  have dst: "dist_ok dd ?ds (piece_size dd)" "sum_list (map (piece_size dd) ?ds) = prod_list gd"
    using calcDistBatchDims_pieces [OF fin(3,4) ok, of k] dd by (metis sum.inject(2))+
  have nn: "\<forall>r \<in> set ?rs. 0 \<le> piece_size sd r" "\<forall>r \<in> set ?ds. 0 \<le> piece_size dd r"
    using src(1) dst(1) unfolding dist_ok_def by blast+
  have eq: "sum_list (map (piece_size sd) ?rs) = sum_list (map (piece_size dd) ?ds)"
    using src(2) dst(2) by simp
  show "(\<Sum>x \<in> src \<union> dest. exchange src dest sd dd r x) = piece_size sd r" if "r \<in> src"
  proof -
    have "(\<Sum>x \<in> src \<union> dest. exchange src dest sd dd r x)
        = (\<Sum>x \<in> dest. piece_overlap (piece_size sd) ?rs (piece_size dd) ?ds r x)"
      using that fin by (intro sum.mono_neutral_cong_right) (auto simp: exchange_def)
    also have "\<dots> = piece_size sd r"
      using sum_piece_overlap_row [OF nn(1) _ nn(2) _ eq, of r] that fin by (simp add: sum_list_distinct_conv_sum_set)
    finally show ?thesis .
  qed
  show "(\<Sum>x \<in> src \<union> dest. exchange src dest sd dd x r) = piece_size dd r" if "r \<in> dest"
  proof -
    have "(\<Sum>x \<in> src \<union> dest. exchange src dest sd dd x r)
        = (\<Sum>x \<in> src. piece_overlap (piece_size dd) ?ds (piece_size sd) ?rs r x)"
      using that fin by (intro sum.mono_neutral_cong_right) (auto simp: exchange_def piece_overlap_commute)
    also have "\<dots> = piece_size dd r"
      using sum_piece_overlap_row [OF nn(2) _ nn(1) _ eq [symmetric], of r] that fin
      by (simp add: sum_list_distinct_conv_sum_set)
    finally show ?thesis .
  qed
qed

section \<open>Properties\<close>

text \<open>
  C31. Both ends of every message agree. When \<open>getRedistArgs\<close> runs on a source rank \<open>r\<close> and on a
  destination rank \<open>d\<close>, it succeeds on both, \<open>r\<close> sends to \<open>d\<close> exactly as many elements as \<open>d\<close>
  expects from \<open>r\<close>, and the two displacements point at the same element of the global tensor.
\<close>

theorem redist_ends_agree:
  assumes "finite src" "finite dest" "dims_ok b gd" "r \<in> src" "d \<in> dest"
    and "calcDistBatchDims b gd src k = Inr sd" "calcDistBatchDims b gd dest k = Inr dd"
    and "i < card (src \<union> dest)" "sorted_list_of_set (src \<union> dest) ! i = r"
    and "j < card (src \<union> dest)" "sorted_list_of_set (src \<union> dest) ! j = d"
  shows "\<exists>A B. getRedistArgs r b gd src dest k = Inr A \<and> getRedistArgs d b gd src dest k = Inr B \<and>
     sendcounts A ! j = recvcounts B ! i \<and>
     (0 < sendcounts A ! j \<longrightarrow> piece_from src sd r + sdispls A ! j = piece_from dest dd d + rdispls B ! i)"
proof -
  have ne: "src \<noteq> {}" "dest \<noteq> {}" using assms(4,5) by auto
  note row = getRedistArgs_row [OF assms(1) ne(1) assms(2) ne(2) assms(3,6,7)]
  obtain A where A: "getRedistArgs r b gd src dest k = Inr A" "args_ok src dest sd dd r A"
    using row [of r] assms(4) by auto
  obtain B where B: "getRedistArgs d b gd src dest k = Inr B" "args_ok src dest sd dd d B"
    using row [of d] assms(5) by auto
  show ?thesis
    using A B assms(8-11) by (auto simp: args_ok_def Let_def)
qed

theorem redist_ends_agree_witness:
  "\<exists>A B. getRedistArgs 0 6 [6] {0, 1} {0, 1, 2} 0 = Inr A \<and> getRedistArgs 1 6 [6] {0, 1} {0, 1, 2} 0 = Inr B \<and>
     sendcounts A ! 1 = recvcounts B ! 0 \<and>
     (0 < sendcounts A ! 1 \<longrightarrow> piece_from {0, 1} [(0, [3]), (1, [3])] 0 + sdispls A ! 1 =
        piece_from {0, 1, 2} [(0, [2]), (1, [2]), (2, [2])] 1 + rdispls B ! 0)"
proof (rule redist_ends_agree)
  show "dims_ok 6 [6]" by (simp add: dims_ok_def INT_MAX_def)
  show "calcDistBatchDims 6 [6] {0, 1} 0 = Inr [(0, [3]), (1, [3])]" by code_simp
  show "calcDistBatchDims 6 [6] {0, 1, 2} 0 = Inr [(0, [2]), (1, [2]), (2, [2])]" by code_simp
  show "sorted_list_of_set ({0, 1} \<union> {0, 1, 2}) ! 0 = (0 :: int)" by code_simp
  show "sorted_list_of_set ({0, 1} \<union> {0, 1, 2}) ! 1 = (1 :: int)" by code_simp
qed (simp_all add: insert_absorb)

text \<open>
  Nothing is lost or sent twice: the counts that a source rank sends add up to the elements it
  holds, and the counts that a destination rank receives add up to the elements it needs.
\<close>

lemma redist_counts_complete:
  assumes "finite src" "src \<noteq> {}" "finite dest" "dest \<noteq> {}" "dims_ok b gd"
    and "calcDistBatchDims b gd src k = Inr sd" "calcDistBatchDims b gd dest k = Inr dd"
    and "getRedistArgs r b gd src dest k = Inr args"
  shows "(r \<in> src \<longrightarrow> sum_list (sendcounts args) = piece_size sd r) \<and>
         (r \<in> dest \<longrightarrow> sum_list (recvcounts args) = piece_size dd r)"
proof (cases "r \<in> src \<union> dest")
  case True
  then have ok: "args_ok src dest sd dd r args"
    using getRedistArgs_row [OF assms(1-7), of r] assms(8) by auto
  let ?g = "sorted_list_of_set (src \<union> dest)"
  have "sendcounts args = map (exchange src dest sd dd r) ?g"
    "recvcounts args = map (\<lambda>x. exchange src dest sd dd x r) ?g"
    using ok by (auto simp: args_ok_def Let_def list_eq_iff_nth_eq)
  moreover have "sum_list (map f ?g) = (\<Sum>x \<in> src \<union> dest. f x)" for f :: "int \<Rightarrow> int"
    using assms(1,3) by (simp add: sum_list_distinct_conv_sum_set)
  ultimately show ?thesis using exchange_row_sum [OF assms(1-7), of r] by simp
qed simp

lemma redist_counts_complete_witness:
  "(1 :: int) \<in> {0, 1, 2} \<and> sum_list [1, 1, 0 :: int] = piece_size [(0, [2]), (1, [2]), (2, [2])] 1"
proof -
  have "(1 \<in> {0, 1 :: int} \<longrightarrow> sum_list (sendcounts \<lparr>sendcounts = [0, 1, 2], recvcounts = [1, 1, 0],
      sdispls = [0, 0, 1], rdispls = [0, 1, 0]\<rparr>) = piece_size [(0, [3]), (1, [3])] 1) \<and>
    (1 \<in> {0, 1, 2 :: int} \<longrightarrow> sum_list (recvcounts \<lparr>sendcounts = [0, 1, 2], recvcounts = [1, 1, 0],
      sdispls = [0, 0, 1], rdispls = [0, 1, 0]\<rparr>) = piece_size [(0, [2]), (1, [2]), (2, [2])] 1)"
  proof (rule redist_counts_complete)
    show "dims_ok 6 [6]" by (simp add: dims_ok_def INT_MAX_def)
    show "calcDistBatchDims 6 [6] {0, 1} 0 = Inr [(0, [3]), (1, [3])]" by code_simp
    show "calcDistBatchDims 6 [6] {0, 1, 2} 0 = Inr [(0, [2]), (1, [2]), (2, [2])]" by code_simp
    show "getRedistArgs 1 6 [6] {0, 1} {0, 1, 2} 0 = Inr \<lparr>sendcounts = [0, 1, 2], recvcounts = [1, 1, 0],
      sdispls = [0, 0, 1], rdispls = [0, 1, 0]\<rparr>" by code_simp
  qed simp_all
  then show ?thesis by simp
qed

end
