(* ===== verification/Redist_P2P.thy ===== *)
theory Redist_P2P
  imports Redist
begin

text \<open>
  The point-to-point exchange of \<open>redist\<close> (\<open>SCommCommon.cpp\<close>): the blocking calls of every rank,
  their concurrent execution as a step relation, deadlock freedom, and the contents of the receive
  buffers once every rank has finished.
\<close>

section \<open>The point-to-point exchange\<close>

text \<open>
  What \<open>redist\<close> executes on one rank, as the list of its blocking calls: the peers in ascending
  order, sending first to lower ranks and receiving first from higher ones, so that of two
  partners one sends while the other receives. A call carries the peer, the number of elements
  and the displacement in the own buffer (the code multiplies both by the element size).
\<close>

datatype p2p_op =
    Send nat int int
  | Recv nat int int
  | Copy int int int

definition p2p_calls :: "nat \<Rightarrow> redist_args \<Rightarrow> nat \<Rightarrow> p2p_op list" where
  "p2p_calls my_local_rank args i =
     (let sc = sendcounts args ! i; rc = recvcounts args ! i;
          snd_call = (if sc > 0 then [Send i sc (sdispls args ! i)] else []);
          rcv_call = (if rc > 0 then [Recv i rc (rdispls args ! i)] else [])
      in if i < my_local_rank then snd_call @ rcv_call
         else if i > my_local_rank then rcv_call @ snd_call
         else if sc > 0 then [Copy sc (sdispls args ! i) (rdispls args ! i)] else [])"

definition redist_p2p :: "nat \<Rightarrow> redist_args \<Rightarrow> p2p_op list" where
  "redist_p2p my_local_rank args = concat (map (p2p_calls my_local_rank args) [0..<length (sendcounts args)])"

text \<open>
  The ranks run concurrently. A blocking send completes together with the matching receive, the
  strictest behaviour that MPI allows for \<open>MPI_Send\<close>; the transfer copies the elements from the
  send buffer of one rank to the receive buffer of the other.
\<close>

record 'a p2p_state =
  calls :: "nat \<Rightarrow> p2p_op list"
  rbuf :: "nat \<Rightarrow> int \<Rightarrow> 'a option"

definition write_buf :: "(int \<Rightarrow> 'a) \<Rightarrow> int \<Rightarrow> int \<Rightarrow> int \<Rightarrow> (int \<Rightarrow> 'a option) \<Rightarrow> int \<Rightarrow> 'a option" where
  "write_buf src sdispl rdispl n buf = (\<lambda>k. if rdispl \<le> k \<and> k < rdispl + n then Some (src (sdispl + (k - rdispl))) else buf k)"

inductive p2p_step :: "(nat \<Rightarrow> int \<Rightarrow> 'a) \<Rightarrow> 'a p2p_state \<Rightarrow> 'a p2p_state \<Rightarrow> bool"
  for sbuf :: "nat \<Rightarrow> int \<Rightarrow> 'a" where
  transfer: "calls s a = Send b n x # as \<Longrightarrow> calls s b = Recv a m y # bs \<Longrightarrow> a \<noteq> b \<Longrightarrow> n \<le> m \<Longrightarrow>
     p2p_step sbuf s (s\<lparr>calls := (calls s)(a := as, b := bs),
                       rbuf := (rbuf s)(b := write_buf (sbuf a) x y n (rbuf s b))\<rparr>)"
| local: "calls s a = Copy n x y # as \<Longrightarrow>
     p2p_step sbuf s (s\<lparr>calls := (calls s)(a := as),
                       rbuf := (rbuf s)(a := write_buf (sbuf a) x y n (rbuf s a))\<rparr>)"

definition p2p_init :: "nat \<Rightarrow> (nat \<Rightarrow> redist_args) \<Rightarrow> 'a p2p_state" where
  "p2p_init n args = \<lparr>calls = (\<lambda>r. if r < n then redist_p2p r (args r) else []), rbuf = (\<lambda>_ _. None)\<rparr>"

definition p2p_finished :: "nat \<Rightarrow> 'a p2p_state \<Rightarrow> bool" where
  "p2p_finished n s \<longleftrightarrow> (\<forall>r < n. calls s r = [])"

subsection \<open>Executions that follow a global order of messages\<close>

text \<open>
  The argument for deadlock freedom: if the calls of every participant are the projection of one
  global list of events, then the first event of that list is enabled, and whichever event is
  taken, the rest is again such a projection. \<open>parties\<close> are the participants of an event,
  \<open>op_of\<close> what one of them executes, \<open>peers\<close> what an operation tells about its event.
\<close>

locale event_order =
  fixes parties :: "'e \<Rightarrow> 'r set"
    and op_of :: "'r \<Rightarrow> 'e \<Rightarrow> 'o"
    and peers :: "'r \<Rightarrow> 'o \<Rightarrow> 'r set"
  assumes peers_op: "r \<in> parties e \<Longrightarrow> peers r (op_of r e) = parties e"
begin

definition proj :: "'r \<Rightarrow> 'e list \<Rightarrow> 'o list" where
  "proj r es = map (op_of r) (filter (\<lambda>e. r \<in> parties e) es)"

lemma proj_simps [simp]:
  "proj r [] = []"
  "proj r (e # es) = (if r \<in> parties e then op_of r e # proj r es else proj r es)"
  "proj r (es @ es') = proj r es @ proj r es'"
  by (simp_all add: proj_def)

lemma proj_concat: "proj r (concat ess) = concat (map (proj r) ess)"
  by (induction ess) simp_all

lemma proj_irrelevant: "(\<And>e. e \<in> set es \<Longrightarrow> r \<notin> parties e) \<Longrightarrow> proj r es = []"
  by (induction es) auto

lemma taken:
  assumes P: "P \<noteq> {}" and hd: "\<And>r. r \<in> P \<Longrightarrow> proj r es = ops r # rest r \<and> peers r (ops r) = P"
  obtains es1 e es2 where "es = es1 @ e # es2" and "parties e = P" and "\<And>r. r \<in> P \<Longrightarrow> ops r = op_of r e"
    and "\<And>r. r \<in> P \<Longrightarrow> rest r = proj r (es1 @ es2)" and "\<And>r. r \<notin> P \<Longrightarrow> proj r (es1 @ es2) = proj r es"
  using hd
proof (induction es arbitrary: thesis)
  case Nil
  with P show ?case by auto
next
  case (Cons e es)
  show ?case
  proof (cases "parties e \<inter> P = {}")
    case True
    then have hd: "r \<in> P \<Longrightarrow> proj r es = ops r # rest r \<and> peers r (ops r) = P" for r
      using Cons.prems(2) [of r] by (auto split: if_splits)
    obtain es1 e' es2 where *: "es = es1 @ e' # es2" "parties e' = P" "\<And>r. r \<in> P \<Longrightarrow> ops r = op_of r e'"
        "\<And>r. r \<in> P \<Longrightarrow> rest r = proj r (es1 @ es2)" "\<And>r. r \<notin> P \<Longrightarrow> proj r (es1 @ es2) = proj r es"
      using Cons.IH [OF _ hd] by blast
    show ?thesis
      using * True by (intro Cons.prems(1) [of "e # es1" e' es2]) auto
  next
    case False
    then obtain r where r: "r \<in> parties e" "r \<in> P" by auto
    then have "ops r = op_of r e" using Cons.prems(2) [of r] by simp
    with r have pe: "parties e = P" using Cons.prems(2) [of r] peers_op [of r e] by simp
    show ?thesis
      using Cons.prems(2) by (intro Cons.prems(1) [of "[]" e es]) (auto simp: pe)
  qed
qed

end


subsection \<open>The message order of an exchange\<close>

type_synonym message = "nat \<times> nat \<times> int \<times> int \<times> int"

fun parties :: "message \<Rightarrow> nat set" where
  "parties (a, b, n, x, y) = {a, b}"

fun call_of :: "nat \<Rightarrow> message \<Rightarrow> p2p_op" where
  "call_of r (a, b, n, x, y) = (if a = b then Copy n x y else if r = a then Send b n x else Recv a n y)"

fun call_peers :: "nat \<Rightarrow> p2p_op \<Rightarrow> nat set" where
  "call_peers r (Send i n x) = {r, i}"
| "call_peers r (Recv i n y) = {r, i}"
| "call_peers r (Copy n x y) = {r}"

interpretation p2p: event_order parties call_of call_peers
proof unfold_locales
  fix r e
  show "r \<in> parties e \<Longrightarrow> call_peers r (call_of r e) = parties e" by (cases e) auto
qed

definition message :: "(nat \<Rightarrow> redist_args) \<Rightarrow> nat \<Rightarrow> nat \<Rightarrow> message list" where
  "message args a b =
     (let c = sendcounts (args a) ! b in
      if c > 0 then [(a, b, c, sdispls (args a) ! b, rdispls (args b) ! a)] else [])"

definition pair_messages :: "(nat \<Rightarrow> redist_args) \<Rightarrow> nat \<Rightarrow> nat \<Rightarrow> message list" where
  "pair_messages args lo hi = (if lo = hi then message args lo lo else message args hi lo @ message args lo hi)"

definition message_order :: "nat \<Rightarrow> (nat \<Rightarrow> redist_args) \<Rightarrow> message list" where
  "message_order n args =
     concat (map (\<lambda>lo. concat (map (pair_messages args lo) [lo..<n])) [0..<n])"

definition args_matched :: "nat \<Rightarrow> (nat \<Rightarrow> redist_args) \<Rightarrow> bool" where
  "args_matched n args \<longleftrightarrow>
     (\<forall>i < n. length (sendcounts (args i)) = n) \<and>
     (\<forall>i < n. \<forall>j < n. sendcounts (args i) ! j = recvcounts (args j) ! i)"

lemma proj_pair:
  assumes "args_matched n args" "lo \<le> hi" "hi < n"
  shows "p2p.proj r (pair_messages args lo hi) =
    (if r = lo then p2p_calls r (args r) hi else if r = hi then p2p_calls r (args r) lo else [])"
  using assms by (auto simp: pair_messages_def message_def p2p_calls_def args_matched_def Let_def)

lemma concat_single:
  assumes "\<And>i. a \<le> i \<Longrightarrow> i < n \<Longrightarrow> i \<noteq> k \<Longrightarrow> f i = []"
  shows "concat (map f [a..<n]) = (if a \<le> k \<and> k < n then f k else [])"
  using assms
proof (induction n)
  case (Suc n)
  then show ?case by (cases "n = k") (auto simp: not_less le_Suc_eq)
qed simp

lemma upt_split: "r \<le> n \<Longrightarrow> [0..<n] = [0..<r] @ [r..<n]"
  using upt_add_eq_append [of 0 r "n - r"] by simp

lemma proj_message_order:
  assumes m: "args_matched n args" and r: "r < n"
  shows "p2p.proj r (message_order n args) = redist_p2p r (args r)"
proof -
  let ?g = "\<lambda>lo. concat (map (\<lambda>hi. p2p.proj r (pair_messages args lo hi)) [lo..<n])"
  let ?calls = "p2p_calls r (args r)"
  have lt: "?g lo = ?calls lo" if "lo < r" for lo
  proof -
    have "?g lo = (if lo \<le> r \<and> r < n then p2p.proj r (pair_messages args lo r) else [])"
      using that by (intro concat_single) (simp add: proj_pair [OF m])
    then show ?thesis using that r by (simp add: proj_pair [OF m])
  qed
  have eq: "?g r = concat (map ?calls [r..<n])"
    by (intro arg_cong [where f = concat] map_cong) (simp_all add: proj_pair [OF m])
  have gt: "?g lo = []" if "r < lo" for lo
    using that by (simp add: proj_pair [OF m])
  have "p2p.proj r (message_order n args) = concat (map ?g [0..<n])"
    by (simp add: message_order_def p2p.proj_concat comp_def)
  also have "[0..<n] = [0..<r] @ r # [Suc r..<n]"
    using r upt_split [of r n] by (simp add: upt_conv_Cons)
  also have "concat (map ?g ([0..<r] @ r # [Suc r..<n])) = concat (map ?calls [0..<r]) @ concat (map ?calls [r..<n])"
  proof -
    have "concat (map ?g [0..<r]) = concat (map ?calls [0..<r])"
      by (intro arg_cong [where f = concat] map_cong) (simp_all add: lt)
    moreover have "concat (map ?g [Suc r..<n]) = []" by (simp add: gt)
    ultimately show ?thesis by (simp only: map_append list.map concat_append concat.simps eq append_Nil2)
  qed
  also have "\<dots> = concat (map ?calls [0..<n])"
    using r upt_split [of r n] by simp
  also have "\<dots> = redist_p2p r (args r)"
    using m r by (simp add: redist_p2p_def args_matched_def)
  finally show ?thesis .
qed

lemma message_order_parties: "e \<in> set (message_order n args) \<Longrightarrow> r \<in> parties e \<Longrightarrow> r < n"
  by (auto simp: message_order_def pair_messages_def message_def Let_def split: if_splits)

lemma in_message_order:
  "a < n \<Longrightarrow> b < n \<Longrightarrow> e \<in> set (message args a b) \<Longrightarrow> e \<in> set (message_order n args)"
  by (cases a b rule: linorder_cases) (fastforce simp: message_order_def pair_messages_def)+

lemma message_order_elem:
  assumes "e \<in> set (message_order n args)"
  obtains i j where "i < n" "j < n" "e \<in> set (message args i j)"
proof -
  from assms obtain lo hi where "lo \<le> hi" "hi < n" "e \<in> set (pair_messages args lo hi)"
    by (auto simp: message_order_def)
  with that [of lo hi] that [of hi lo] that [of lo lo] show ?thesis
    by (auto simp: pair_messages_def split: if_splits)
qed

text \<open>Every reachable state consists of the projections of the messages that are still to be sent.\<close>

definition pending :: "message list \<Rightarrow> 'a p2p_state \<Rightarrow> bool" where
  "pending es s \<longleftrightarrow> (\<forall>r. calls s r = p2p.proj r es)"

lemma pending_init: "args_matched n args \<Longrightarrow> pending (message_order n args) (p2p_init n args)"
proof -
  assume m: "args_matched n args"
  have "p2p.proj r (message_order n args) = []" if "\<not> r < n" for r
    using that message_order_parties by (intro p2p.proj_irrelevant) blast
  then show ?thesis by (simp add: pending_def p2p_init_def proj_message_order [OF m])
qed

lemma pending_step:
  assumes "pending es s" and "p2p_step sbuf s t"
  obtains es1 a b n x y es2 where "es = es1 @ (a, b, n, x, y) # es2" and "pending (es1 @ es2) t"
    and "rbuf t = (rbuf s)(b := write_buf (sbuf a) x y n (rbuf s b))"
  using assms(2)
proof (cases rule: p2p_step.cases)
  case (transfer a b n x as m y bs)
  let ?ops = "\<lambda>r. if r = a then Send b n x else Recv a m y" and ?rest = "\<lambda>r. if r = a then as else bs"
  have hd: "r \<in> {a, b} \<Longrightarrow> p2p.proj r es = ?ops r # ?rest r \<and> call_peers r (?ops r) = {a, b}" for r
    using assms(1) transfer by (auto simp: pending_def)
  obtain es1 e es2 where e: "es = es1 @ e # es2" "parties e = {a, b}" "\<And>r. r \<in> {a, b} \<Longrightarrow> ?ops r = call_of r e"
    "\<And>r. r \<in> {a, b} \<Longrightarrow> ?rest r = p2p.proj r (es1 @ es2)"
    "\<And>r. r \<notin> {a, b} \<Longrightarrow> p2p.proj r (es1 @ es2) = p2p.proj r es"
    by (rule p2p.taken [of "{a, b}" es ?ops ?rest]) (use hd in auto)
  have "e = (a, b, n, x, y)"
    using e(3) [of a] e(3) [of b] transfer(4) by (cases e) (auto split: if_splits)
  moreover have "pending (es1 @ es2) t"
    using assms(1) transfer(1,4) e(4) [of a] e(4) [of b] e(5) by (auto simp: pending_def)
  ultimately show ?thesis using that e(1) transfer(1) by simp
next
  case (local a n x y as)
  have hd: "r \<in> {a} \<Longrightarrow> p2p.proj r es = Copy n x y # as \<and> call_peers r (Copy n x y) = {a}" for r
    using assms(1) local by (auto simp: pending_def)
  obtain es1 e es2 where e: "es = es1 @ e # es2" "parties e = {a}" "\<And>r. r \<in> {a} \<Longrightarrow> Copy n x y = call_of r e"
    "\<And>r. r \<in> {a} \<Longrightarrow> as = p2p.proj r (es1 @ es2)"
    "\<And>r. r \<notin> {a} \<Longrightarrow> p2p.proj r (es1 @ es2) = p2p.proj r es"
    by (rule p2p.taken [of "{a}" es "\<lambda>_. Copy n x y" "\<lambda>_. as"]) (use hd in auto)
  have "e = (a, a, n, x, y)"
    using e(2) e(3) [of a] by (cases e) (auto split: if_splits)
  moreover have "pending (es1 @ es2) t"
    using assms(1) local(1) e(4) [of a] e(5) by (auto simp: pending_def)
  ultimately show ?thesis using that e(1) local(1) by simp
qed


section \<open>Deadlock freedom\<close>

lemma pending_progress:
  assumes "pending es s" and "es \<noteq> []"
  shows "\<exists>t. p2p_step sbuf s t"
proof -
  obtain a b n x y es' where es: "es = (a, b, n, x, y) # es'" using assms(2) by (cases es) auto
  show ?thesis
  proof (cases "a = b")
    case True
    then have "calls s a = Copy n x y # p2p.proj a es'" using assms(1) by (simp add: pending_def es)
    then show ?thesis by (blast intro: p2p_step.local)
  next
    case False
    then have "calls s a = Send b n x # p2p.proj a es'" "calls s b = Recv a n y # p2p.proj b es'"
      using assms(1) by (simp_all add: pending_def es)
    with False show ?thesis by (blast intro: p2p_step.transfer)
  qed
qed

lemma pending_finished: "pending es s \<Longrightarrow> es = [] \<Longrightarrow> p2p_finished n s"
  by (simp add: pending_def p2p_finished_def)

lemma finished_pending:
  assumes "pending es s" "p2p_finished n s" "\<And>e r. e \<in> set es \<Longrightarrow> r \<in> parties e \<Longrightarrow> r < n"
  shows "es = []"
proof (cases es)
  case (Cons e es')
  obtain r where r: "r \<in> parties e" by (cases e) auto
  have "r < n" using assms(3) [of e r] r by (simp add: Cons)
  with assms(1,2) Cons r show ?thesis by (auto simp: pending_def p2p_finished_def)
qed

text \<open>
  The data that the messages move: \<open>S r\<close> and \<open>D r\<close> are the positions of the send and of the receive
  buffer of rank \<open>r\<close> in the global array \<open>G\<close>; every message copies between the same positions.
\<close>

definition aligned :: "(nat \<Rightarrow> int) \<Rightarrow> (nat \<Rightarrow> int) \<Rightarrow> (nat \<Rightarrow> int) \<Rightarrow> message list \<Rightarrow> bool" where
  "aligned S len D es \<longleftrightarrow>
     (\<forall>(a, b, n, x, y) \<in> set es. S a + x = D b + y \<and> 0 \<le> x \<and> x + n \<le> len a)"

definition holds_slice :: "(int \<Rightarrow> 'a) \<Rightarrow> (nat \<Rightarrow> int) \<Rightarrow> (nat \<Rightarrow> int) \<Rightarrow> (nat \<Rightarrow> int \<Rightarrow> 'a) \<Rightarrow> bool" where
  "holds_slice G S len sbuf \<longleftrightarrow> (\<forall>r k. 0 \<le> k \<and> k < len r \<longrightarrow> sbuf r k = G (S r + k))"

definition transferred :: "(int \<Rightarrow> 'a) \<Rightarrow> (nat \<Rightarrow> int) \<Rightarrow> message list \<Rightarrow> message list \<Rightarrow> 'a p2p_state \<Rightarrow> bool" where
  "transferred G D all es s \<longleftrightarrow> set es \<subseteq> set all \<and> pending es s \<and>
     (\<forall>r k v. rbuf s r k = Some v \<longrightarrow> v = G (D r + k)) \<and>
     (\<forall>(a, b, n, x, y) \<in> set all - set es. \<forall>k. y \<le> k \<and> k < y + n \<longrightarrow> rbuf s b k \<noteq> None)"

lemma transferred_step:
  assumes inv: "transferred G D all es s" and al: "aligned S len D all" and hs: "holds_slice G S len sbuf"
    and st: "p2p_step sbuf s t"
  shows "\<exists>es'. transferred G D all es' t \<and> length es = Suc (length es')"
proof -
  have pe: "pending es s" using inv by (simp add: transferred_def)
  obtain es1 a b n x y es2 where es: "es = es1 @ (a, b, n, x, y) # es2" and p: "pending (es1 @ es2) t"
    and buf: "rbuf t = (rbuf s)(b := write_buf (sbuf a) x y n (rbuf s b))"
    by (rule pending_step [OF pe st])
  have ev: "S a + x = D b + y" "0 \<le> x" "x + n \<le> len a"
    using inv al by (auto simp: transferred_def aligned_def es)
  have val: "sbuf a (x + (k - y)) = G (D b + k)" if "y \<le> k" "k < y + n" for k
  proof -
    have "sbuf a (x + (k - y)) = G (S a + (x + (k - y)))"
      using hs ev(2,3) that by (simp add: holds_slice_def)
    also have "S a + (x + (k - y)) = D b + k" using ev(1) by simp
    finally show ?thesis .
  qed
  have ok: "v = G (D r + k)" if w: "rbuf t r k = Some v" for r k v
  proof -
    show ?thesis
    proof (cases "r = b \<and> y \<le> k \<and> k < y + n")
      case True
      with w val [of k] show ?thesis by (simp add: buf write_buf_def)
    next
      case False
      with w have "rbuf s r k = Some v" by (auto simp: buf write_buf_def split: if_splits)
      with inv show ?thesis by (simp add: transferred_def)
    qed
  qed
  have kept: "rbuf s r k \<noteq> None \<Longrightarrow> rbuf t r k \<noteq> None" for r k
    by (auto simp: buf write_buf_def)
  have written: "y \<le> k \<Longrightarrow> k < y + n \<Longrightarrow> rbuf t b k \<noteq> None" for k
    by (simp add: buf write_buf_def)
  have "\<forall>k. y' \<le> k \<and> k < y' + n' \<longrightarrow> rbuf t b' k \<noteq> None"
    if m: "(a', b', n', x', y') \<in> set all - set (es1 @ es2)" for a' b' n' x' y'
  proof (cases "(a', b', n', x', y') \<in> set es")
    case True
    with m have "(a', b', n', x', y') = (a, b, n, x, y)" by (auto simp: es)
    with written show ?thesis by simp
  next
    case False
    with m have "(a', b', n', x', y') \<in> set all - set es" by blast
    moreover have "\<forall>(a, b, n, x, y) \<in> set all - set es. \<forall>k. y \<le> k \<and> k < y + n \<longrightarrow> rbuf s b k \<noteq> None"
      using inv unfolding transferred_def by (elim conjE)
    ultimately have "\<forall>k. y' \<le> k \<and> k < y' + n' \<longrightarrow> rbuf s b' k \<noteq> None" by blast
    with kept show ?thesis by blast
  qed
  then have "\<forall>(a, b, n, x, y) \<in> set all - set (es1 @ es2). \<forall>k. y \<le> k \<and> k < y + n \<longrightarrow> rbuf t b k \<noteq> None"
    by blast
  moreover have "set (es1 @ es2) \<subseteq> set all" using inv by (auto simp: transferred_def es)
  ultimately have "transferred G D all (es1 @ es2) t"
    using p ok unfolding transferred_def by blast
  then show ?thesis by (intro exI [of _ "es1 @ es2"]) (simp add: es)
qed

lemma transferred_reachable:
  assumes "args_matched n args" and al: "aligned S len D (message_order n args)" and hs: "holds_slice G S len sbuf"
    and "(p2p_step sbuf ^^ k) (p2p_init n args) s"
  shows "\<exists>es. transferred G D (message_order n args) es s \<and> k + length es = length (message_order n args)"
  using assms(4)
proof (induction k arbitrary: s)
  case 0
  then show ?case
    using pending_init [OF assms(1)] by (auto simp: transferred_def p2p_init_def)
next
  case (Suc k)
  then obtain u where "(p2p_step sbuf ^^ k) (p2p_init n args) u" and st: "p2p_step sbuf u s" by auto
  with Suc.IH obtain es where "transferred G D (message_order n args) es u"
    and "k + length es = length (message_order n args)" by blast
  with transferred_step [OF _ al hs st] show ?case by fastforce
qed

lemma pending_reachable:
  assumes "args_matched n args" and "(p2p_step sbuf ^^ k) (p2p_init n args) s"
  shows "\<exists>es. pending es s \<and> set es \<subseteq> set (message_order n args) \<and> k + length es = length (message_order n args)"
  using assms(2)
proof (induction k arbitrary: s)
  case 0
  then show ?case using pending_init [OF assms(1)] by auto
next
  case (Suc k)
  then obtain u where "(p2p_step sbuf ^^ k) (p2p_init n args) u" and st: "p2p_step sbuf u s" by auto
  with Suc.IH obtain es where pe: "pending es u" and sub: "set es \<subseteq> set (message_order n args)"
    and len: "k + length es = length (message_order n args)" by blast
  obtain es1 a b m x y es2 where "es = es1 @ (a, b, m, x, y) # es2" "pending (es1 @ es2) s"
    by (rule pending_step [OF pe st])
  with sub len show ?case by (intro exI [of _ "es1 @ es2"]) auto
qed


section \<open>The exchange that \<open>getRedistArgs\<close> sets up\<close>

definition local_args ::
    "int \<Rightarrow> int list \<Rightarrow> int set \<Rightarrow> int set \<Rightarrow> int \<Rightarrow> nat \<Rightarrow> redist_args" where
  "local_args b gd src dest k i =
     (case getRedistArgs (sorted_list_of_set (src \<union> dest) ! i) b gd src dest k of
        Inl _ \<Rightarrow> empty_args | Inr args \<Rightarrow> args)"

lemma local_args_ok:
  assumes "finite src" "src \<noteq> {}" "finite dest" "dest \<noteq> {}" "dims_ok b gd"
    and "calcDistBatchDims b gd src k = Inr sd" "calcDistBatchDims b gd dest k = Inr dd"
    and i: "i < card (src \<union> dest)"
  shows "args_ok src dest sd dd (sorted_list_of_set (src \<union> dest) ! i) (local_args b gd src dest k i)"
proof -
  have "sorted_list_of_set (src \<union> dest) ! i \<in> src \<union> dest"
    using i assms(1,3) by (metis finite_UnI length_sorted_list_of_set nth_mem set_sorted_list_of_set)
  from getRedistArgs_row [OF assms(1-7) this] show ?thesis by (auto simp: local_args_def)
qed

lemma local_args_matched:
  assumes "finite src" "src \<noteq> {}" "finite dest" "dest \<noteq> {}" "dims_ok b gd"
    and "calcDistBatchDims b gd src k = Inr sd" "calcDistBatchDims b gd dest k = Inr dd"
  shows "args_matched (card (src \<union> dest)) (local_args b gd src dest k)"
  using local_args_ok [OF assms] by (auto simp: args_matched_def args_ok_def Let_def)

lemma local_args_aligned:
  assumes "finite src" "src \<noteq> {}" "finite dest" "dest \<noteq> {}" "dims_ok b gd"
    and "calcDistBatchDims b gd src k = Inr sd" "calcDistBatchDims b gd dest k = Inr dd"
  defines "g \<equiv> sorted_list_of_set (src \<union> dest)"
  shows "aligned (\<lambda>i. piece_from src sd (g ! i)) (\<lambda>i. piece_size sd (g ! i))
    (\<lambda>i. piece_from dest dd (g ! i)) (message_order (card (src \<union> dest)) (local_args b gd src dest k))"
proof -
  let ?n = "card (src \<union> dest)" and ?args = "local_args b gd src dest k"
  note ok = local_args_ok [OF assms(1-7), unfolded args_ok_def Let_def]
  have m: "piece_from src sd (g ! a) + x = piece_from dest dd (g ! b') + y \<and> 0 \<le> x \<and> x + n \<le> piece_size sd (g ! a)"
    if "(c, d, n, x, y) \<in> set (message ?args a b')" "a < ?n" "b' < ?n" for c d n x y a b'
  proof -
    have n: "n = sendcounts (?args a) ! b'" "0 < n" "x = sdispls (?args a) ! b'" "y = rdispls (?args b') ! a"
      using that(1) by (auto simp: message_def Let_def split: if_splits)
    have S: "sendcounts (?args a) ! b' = exchange src dest sd dd (g ! a) (g ! b')"
      "piece_from src sd (g ! a) + x = max (piece_from src sd (g ! a)) (piece_from dest dd (g ! b'))"
      using ok [OF that(2)] that(3) n by (auto simp: g_def)
    have "0 < recvcounts (?args b') ! a" using ok [OF that(2)] ok [OF that(3)] that(2,3) n by auto
    then have "piece_from dest dd (g ! b') + y = max (piece_from src sd (g ! a)) (piece_from dest dd (g ! b'))"
      using ok [OF that(3)] that(2) n by (auto simp: g_def)
    moreover have "n \<le> piece_from src sd (g ! a) + piece_size sd (g ! a)
        - max (piece_from src sd (g ! a)) (piece_from dest dd (g ! b'))"
      using n(1,2) S(1) by (auto simp: exchange_def piece_overlap_def overlap_def piece_from_def split: if_splits)
    ultimately show ?thesis using S(2) by linarith
  qed
  show ?thesis
    unfolding aligned_def
  proof (intro ballI, clarify)
    fix a b' n x y
    assume "(a, b', n, x, y) \<in> set (message_order ?n ?args)"
    then obtain i j where "i < ?n" "j < ?n" "(a, b', n, x, y) \<in> set (message ?args i j)"
      by (rule message_order_elem)
    moreover from this have "a = i" "b' = j" by (auto simp: message_def Let_def split: if_splits)
    ultimately show "piece_from src sd (g ! a) + x = piece_from dest dd (g ! b') + y \<and>
        0 \<le> x \<and> x + n \<le> piece_size sd (g ! a)" using m by blast
  qed
qed

lemma piece_covers:
  assumes "\<forall>r \<in> set rs. 0 \<le> sz r" "distinct rs" "0 \<le> i" "i < sum_list (map sz rs)"
  shows "\<exists>r \<in> set rs. piece_start sz rs r \<le> i \<and> i < piece_start sz rs r + sz r"
  using assms
proof (induction rs arbitrary: i)
  case (Cons x rs)
  show ?case
  proof (cases "i < sz x")
    case True
    with Cons.prems show ?thesis by (auto simp: piece_start_Cons)
  next
    case False
    with Cons.prems Cons.IH [of "i - sz x"] obtain r where
      "r \<in> set rs" "piece_start sz rs r \<le> i - sz x" "i - sz x < piece_start sz rs r + sz r" by auto
    with Cons.prems(2) show ?thesis by (intro bexI [of _ r]) (auto simp: piece_start_Cons)
  qed
qed simp


lemma local_args_cover:
  assumes "finite src" "src \<noteq> {}" "finite dest" "dest \<noteq> {}" "dims_ok b gd"
    and "calcDistBatchDims b gd src k = Inr sd" "calcDistBatchDims b gd dest k = Inr dd"
    and j: "j < card (src \<union> dest)" and d: "sorted_list_of_set (src \<union> dest) ! j = d" "d \<in> dest"
    and l: "0 \<le> l" "l < piece_size dd d"
  shows "\<exists>a n x y. (a, j, n, x, y) \<in> set (message_order (card (src \<union> dest)) (local_args b gd src dest k)) \<and>
    y \<le> l \<and> l < y + n"
proof -
  let ?g = "sorted_list_of_set (src \<union> dest)" and ?n = "card (src \<union> dest)" and ?args = "local_args b gd src dest k"
  let ?rs = "sorted_list_of_set src" and ?ds = "sorted_list_of_set dest"
  note ok = local_args_ok [OF assms(1-7), unfolded args_ok_def Let_def]
  have src: "dist_ok sd ?rs (piece_size sd)" "sum_list (map (piece_size sd) ?rs) = prod_list gd"
    using calcDistBatchDims_pieces [OF assms(1,2,5), of k] assms(6) by (metis sum.inject(2))+
  have dst: "dist_ok dd ?ds (piece_size dd)" "sum_list (map (piece_size dd) ?ds) = prod_list gd"
    using calcDistBatchDims_pieces [OF assms(3,4,5), of k] assms(7) by (metis sum.inject(2))+
  have nn: "\<forall>r \<in> set ?rs. 0 \<le> piece_size sd r" "\<forall>r \<in> set ?ds. 0 \<le> piece_size dd r"
    using src(1) dst(1) unfolding dist_ok_def by blast+
  let ?i = "piece_from dest dd d + l"
  have "0 \<le> ?i" using piece_start_nonneg [OF nn(2)] l(1) by (simp add: piece_from_def)
  moreover have "?i < sum_list (map (piece_size sd) ?rs)"
    using piece_end_le [OF nn(2), of d] d(2) l(2) assms(3) src(2) dst(2) by (simp add: piece_from_def)
  ultimately obtain r where r: "r \<in> src" "piece_from src sd r \<le> ?i" "?i < piece_from src sd r + piece_size sd r"
    using piece_covers [OF nn(1), of ?i] assms(1) by (auto simp: piece_from_def)
  obtain a where a: "a < ?n" "?g ! a = r"
    using r(1) assms(1,3) by (metis UnI1 finite_UnI in_set_conv_nth length_sorted_list_of_set set_sorted_list_of_set)
  let ?c = "sendcounts (?args a) ! j"
  have c: "?c = exchange src dest sd dd r d" using ok [OF a(1)] j a(2) d(1) by simp
  have pos: "?c = min (piece_from src sd r + piece_size sd r) (piece_from dest dd d + piece_size dd d)
      - max (piece_from src sd r) (piece_from dest dd d)" "0 < ?c"
    using r l d(2) unfolding c by (auto simp: exchange_def piece_overlap_def overlap_def piece_from_def)
  have rc: "recvcounts (?args j) ! a = ?c" using ok [OF j] a d(1) c by simp
  have y: "piece_from dest dd d + rdispls (?args j) ! a = max (piece_from src sd r) (piece_from dest dd d)"
    using ok [OF j] a d(1) pos(2) rc by simp
  have "(a, j, ?c, sdispls (?args a) ! j, rdispls (?args j) ! a) \<in> set (message ?args a j)"
    using pos(2) by (simp add: message_def Let_def)
  then have "(a, j, ?c, sdispls (?args a) ! j, rdispls (?args j) ! a) \<in> set (message_order ?n ?args)"
    by (rule in_message_order [OF a(1) j])
  moreover have "rdispls (?args j) ! a \<le> l" "l < rdispls (?args j) ! a + ?c"
    using y pos(1) r l by linarith+
  ultimately show ?thesis by blast
qed

section \<open>Properties\<close>

text \<open>
  C27. The point-to-point redistribution cannot deadlock, even when \<open>MPI_Send\<close> waits for the
  receiver: in every state that the ranks can reach with the arguments of \<open>getRedistArgs\<close>, either
  all of them are done or some call can proceed, and no execution is longer than the number of messages.
\<close>

theorem redist_no_deadlock:
  assumes "finite src" "src \<noteq> {}" "finite dest" "dest \<noteq> {}" "dims_ok b gd"
    and "calcDistBatchDims b gd src k = Inr sd" "calcDistBatchDims b gd dest k = Inr dd"
    and "n = card (src \<union> dest)" "args = local_args b gd src dest k"
    and "(p2p_step sbuf ^^ steps) (p2p_init n args) s"
  shows "(p2p_finished n s \<or> (\<exists>t. p2p_step sbuf s t)) \<and> steps \<le> length (message_order n args)"
proof -
  have "args_matched n args" unfolding assms(8,9) by (rule local_args_matched [OF assms(1-7)])
  from pending_reachable [OF this assms(10)] obtain es where "pending es s"
    and "steps + length es = length (message_order n args)" by blast
  then show ?thesis using pending_progress pending_finished by (metis le_add1)
qed

theorem redist_no_deadlock_witness:
  "p2p_finished 3 (p2p_init 3 (local_args 6 [6] {0, 1} {0, 1, 2} 0) :: int p2p_state) \<or>
   (\<exists>t. p2p_step (\<lambda>r k. k) (p2p_init 3 (local_args 6 [6] {0, 1} {0, 1, 2} 0)) t)"
proof -
  have "(p2p_finished 3 (p2p_init 3 (local_args 6 [6] {0, 1} {0, 1, 2} 0) :: int p2p_state) \<or>
     (\<exists>t. p2p_step (\<lambda>r k. k) (p2p_init 3 (local_args 6 [6] {0, 1} {0, 1, 2} 0)) t)) \<and>
     0 \<le> length (message_order 3 (local_args 6 [6] {0, 1} {0, 1, 2} 0))"
  proof (rule redist_no_deadlock [where n = 3 and sbuf = "\<lambda>r k. k" and steps = 0])
    show "dims_ok 6 [6]" by (simp add: dims_ok_def INT_MAX_def)
    show "calcDistBatchDims 6 [6] {0, 1} 0 = Inr [(0, [3]), (1, [3])]" by code_simp
    show "calcDistBatchDims 6 [6] {0, 1, 2} 0 = Inr [(0, [2]), (1, [2]), (2, [2])]" by code_simp
  qed (simp_all add: insert_absorb)
  then show ?thesis by simp
qed

text \<open>
  C23. The redistribution delivers the tensor: when the ranks are done, every destination rank's
  receive buffer holds its slice of the global array, if every source rank's send buffer held its own.
\<close>

theorem redist_delivers:
  assumes "finite src" "src \<noteq> {}" "finite dest" "dest \<noteq> {}" "dims_ok b gd"
    and "calcDistBatchDims b gd src k = Inr sd" "calcDistBatchDims b gd dest k = Inr dd"
    and "g = sorted_list_of_set (src \<union> dest)" "n = card (src \<union> dest)"
    and "holds_slice G (\<lambda>i. piece_from src sd (g ! i)) (\<lambda>i. piece_size sd (g ! i)) sbuf"
    and "(p2p_step sbuf)\<^sup>*\<^sup>* (p2p_init n (local_args b gd src dest k)) s" "p2p_finished n s"
    and "j < n" "g ! j \<in> dest" "0 \<le> l" "l < piece_size dd (g ! j)"
  shows "rbuf s j l = Some (G (piece_from dest dd (g ! j) + l))"
proof -
  let ?all = "message_order n (local_args b gd src dest k)"
  obtain m where m: "(p2p_step sbuf ^^ m) (p2p_init n (local_args b gd src dest k)) s"
    using assms(11) by (auto simp: rtranclp_is_Sup_relpowp)
  obtain es where es: "transferred G (\<lambda>i. piece_from dest dd (g ! i)) ?all es s"
    using transferred_reachable [OF _ _ assms(10) m] local_args_matched [OF assms(1-7)]
      local_args_aligned [OF assms(1-7)] by (auto simp: assms(8,9))
  have "es = []"
    by (rule finished_pending [OF _ assms(12)]) (use es message_order_parties in \<open>auto simp: transferred_def\<close>)
  obtain a c x y where "(a, j, c, x, y) \<in> set ?all" "y \<le> l" "l < y + c"
    using local_args_cover [OF assms(1-7), of j "g ! j" l] assms(8,9,13-16) by auto
  with es \<open>es = []\<close> have "rbuf s j l \<noteq> None"
    unfolding transferred_def by fastforce
  with es show ?thesis by (auto simp: transferred_def)
qed


definition demo_final :: "int p2p_state" where
  "demo_final = \<lparr>calls = (\<lambda>_. []), rbuf = (\<lambda>_ _. None)(1 := write_buf (\<lambda>k. k) 0 0 2 (\<lambda>_. None))\<rparr>"

lemma demo_run: "p2p_step (\<lambda>r k. k) (p2p_init 2 (local_args 2 [2] {0} {1} 0)) demo_final"
proof -
  let ?s = "p2p_init 2 (local_args 2 [2] {0} {1} 0) :: int p2p_state"
  have run: "redist_p2p 0 (local_args 2 [2] {0} {1} 0 0) = [Send 1 2 0]"
    "redist_p2p 1 (local_args 2 [2] {0} {1} 0 1) = [Recv 0 2 0]" by code_simp+
  then have c: "calls ?s 0 = Send 1 2 0 # []" "calls ?s 1 = Recv 0 2 0 # []" by (simp_all add: p2p_init_def)
  have "calls ?s r = []" if "r \<noteq> 0" "r \<noteq> 1" for r using that by (simp add: p2p_init_def)
  then have "?s\<lparr>calls := (calls ?s)(0 := [], 1 := []),
      rbuf := (rbuf ?s)(1 := write_buf (\<lambda>k. k) 0 0 2 (rbuf ?s 1))\<rparr> = demo_final"
    by (auto simp: demo_final_def p2p_init_def fun_eq_iff)
  with p2p_step.transfer [OF c, of "\<lambda>r k. k"] show ?thesis by simp
qed

theorem redist_delivers_witness: "rbuf demo_final 1 1 = Some (1 :: int)"
proof -
  have "rbuf demo_final 1 1 = Some ((\<lambda>k. k) (piece_from {1} [(1, [2])] ([0, 1] ! 1) + (1 :: int)))"
  proof (rule redist_delivers [where src = "{0}" and dest = "{1}" and b = 2 and gd = "[2]" and k = 0
        and sd = "[(0, [2])]" and n = 2 and sbuf = "\<lambda>r k. k"])
    show "dims_ok 2 [2]" by (simp add: dims_ok_def INT_MAX_def)
    show "calcDistBatchDims 2 [2] {0} 0 = Inr [(0, [2])]" by code_simp
    show "calcDistBatchDims 2 [2] {1} 0 = Inr [(1, [2])]" by code_simp
    show "holds_slice (\<lambda>k. k) (\<lambda>i. piece_from {0} [(0, [2])] ([0, 1] ! i))
        (\<lambda>i. piece_size [(0, [2])] ([0, 1] ! i)) (\<lambda>r k. k)"
    proof -
      have "piece_size [(0, [2])] x = (if x = 0 then 2 else 0)" for x
        by (simp add: piece_size_def dist_size_def productDim_def)
      then show ?thesis by (auto simp: holds_slice_def piece_from_def piece_start_def split: if_splits)
    qed
    show "(p2p_step (\<lambda>r k. k))\<^sup>*\<^sup>* (p2p_init 2 (local_args 2 [2] {0} {1} 0)) demo_final"
      using demo_run by blast
    show "p2p_finished 2 demo_final" by (simp add: p2p_finished_def demo_final_def)
    show "1 < piece_size [(1, [2])] ([0, 1] ! 1)" by code_simp
  qed simp_all
  moreover have "piece_from {1} [(1, [2])] 1 = 0" by code_simp
  ultimately show ?thesis by simp
qed

end
