(* ===== verification/IR_Types.thy ===== *)
theory IR_Types
  imports Common_Util
begin

text \<open>
  The types of IR values (\<open>class IRType\<close> of \<open>graph/ir.h\<close>, its functions in \<open>graph/ir.cpp\<close> and
  \<open>Common.cpp\<close>) and the locations inside structured values (\<open>torch/IValueLocation.h\<close>).

  \<open>IRType\<close> is one datatype with the nine fields of the class. A field that a constructor leaves
  uninitialised in the code (the list type of a non-list, the gradient flag of a list or a scalar)
  gets an arbitrary fixed value here; no operation reads it. Sizes are 64-bit words, so they wrap
  as \<open>size_t\<close> does. \<open>Inl Undefined_behaviour\<close> stands for falling off the end of a function.
\<close>

section \<open>Enumerations\<close>

datatype IRTensorElemType =
  TE_UNDEF | TE_INT | TE_DOUBLE | TE_FLOAT | TE_HALF | TE_BFLOAT16 | TE_LONG | TE_BOOL

datatype IRListType = LT_INT | LT_FLOAT | LT_BOOL | LT_TENSOR | LT_GENERIC

datatype IRScalarType = ST_NONE | ST_INT | ST_FLOAT | ST_NUMBER | ST_BOOL | ST_DEVICE

datatype IRBaseType =
  BT_SCALAR | BT_TENSOR | BT_STRING | BT_LIST | BT_TUPLE | BT_OPTIONAL | BT_NONE | BT_FUNCTION

text \<open>The element types are finitely many, so statements about all of them can be evaluated.\<close>

instantiation IRTensorElemType :: enum
begin

definition "enum_class.enum = [TE_UNDEF, TE_INT, TE_DOUBLE, TE_FLOAT, TE_HALF, TE_BFLOAT16, TE_LONG, TE_BOOL]"

definition "enum_class.enum_all P =
  (P TE_UNDEF \<and> P TE_INT \<and> P TE_DOUBLE \<and> P TE_FLOAT \<and> P TE_HALF \<and> P TE_BFLOAT16 \<and> P TE_LONG \<and> P TE_BOOL)"

definition "enum_class.enum_ex P =
  (P TE_UNDEF \<or> P TE_INT \<or> P TE_DOUBLE \<or> P TE_FLOAT \<or> P TE_HALF \<or> P TE_BFLOAT16 \<or> P TE_LONG \<or> P TE_BOOL)"

instance
proof
  have all: "x \<in> {TE_UNDEF, TE_INT, TE_DOUBLE, TE_FLOAT, TE_HALF, TE_BFLOAT16, TE_LONG, TE_BOOL}" for x
    by (cases x) simp_all
  show "(UNIV :: IRTensorElemType set) = set enum_class.enum"
    using all by (auto simp: enum_IRTensorElemType_def)
  show "distinct (enum_class.enum :: IRTensorElemType list)"
    by (simp add: enum_IRTensorElemType_def)
  show "enum_class.enum_all P \<longleftrightarrow> Ball UNIV P" for P :: "IRTensorElemType \<Rightarrow> bool"
    using all by (auto simp: enum_all_IRTensorElemType_def) (metis IRTensorElemType.exhaust)
  show "enum_class.enum_ex P \<longleftrightarrow> Bex UNIV P" for P :: "IRTensorElemType \<Rightarrow> bool"
    using all by (auto simp: enum_ex_IRTensorElemType_def) (metis IRTensorElemType.exhaust)
qed

end

section \<open>The class \<open>IRType\<close>\<close>

datatype IRType =
  IRType (base_type: IRBaseType) (scalar_type: IRScalarType) (tensor_dim: "int list")
    (tensor_elem_type: IRTensorElemType) (requires_grad: bool) (list_type: IRListType)
    (compound_types: "IRType list") (list_size: size_t) (func_name: string)

definition createScalarType :: "IRScalarType \<Rightarrow> IRType" where
  "createScalarType st = IRType BT_SCALAR st [] TE_UNDEF False LT_INT [] (- 1) []"

definition createTensorType :: "IRTensorElemType \<Rightarrow> int list \<Rightarrow> bool \<Rightarrow> IRType" where
  "createTensorType et dim rg = IRType BT_TENSOR ST_NONE dim et rg LT_INT [] (- 1) []"

definition createUnknownShapeTensorType :: "IRTensorElemType \<Rightarrow> IRType" where
  "createUnknownShapeTensorType et = IRType BT_TENSOR ST_NONE [] et False LT_INT [] (- 1) []"

definition createUnknownTensorType :: IRType where
  "createUnknownTensorType = IRType BT_TENSOR ST_NONE [] TE_UNDEF False LT_INT [] (- 1) []"

definition createStringType :: IRType where
  "createStringType = IRType BT_STRING ST_NONE [] TE_UNDEF False LT_INT [] (- 1) []"

definition createNoneType :: IRType where
  "createNoneType = IRType BT_NONE ST_NONE [] TE_UNDEF False LT_INT [] (- 1) []"

definition createListType_of :: "IRListType \<Rightarrow> size_t \<Rightarrow> IRType" where
  "createListType_of lt sz = IRType BT_LIST ST_NONE [] TE_UNDEF False lt [] sz []"

definition createListType :: "IRType list \<Rightarrow> IRType" where
  "createListType ets = IRType BT_LIST ST_NONE [] TE_UNDEF False LT_GENERIC ets (of_nat (length ets)) []"

definition createTensorListType :: "IRType list \<Rightarrow> IRType" where
  "createTensorListType ets = IRType BT_LIST ST_NONE [] TE_UNDEF False LT_TENSOR ets (of_nat (length ets)) []"

definition createTupleType :: "IRType list \<Rightarrow> IRType" where
  "createTupleType cts = IRType BT_TUPLE ST_NONE [] TE_UNDEF False LT_INT cts (- 1) []"

definition createFunctionType :: "string \<Rightarrow> IRType" where
  "createFunctionType qualname = IRType BT_FUNCTION ST_NONE [] TE_UNDEF False LT_INT [] (- 1) qualname"

definition createOptionalType :: "IRType \<Rightarrow> IRType" where
  "createOptionalType et = IRType BT_OPTIONAL ST_NONE [] TE_UNDEF False LT_INT [et] (- 1) []"

definition setRequiresGrad :: "bool \<Rightarrow> IRType \<Rightarrow> IRType" where
  "setRequiresGrad rg t = IRType (base_type t) (scalar_type t) (tensor_dim t) (tensor_elem_type t) rg
     (list_type t) (compound_types t) (list_size t) (func_name t)"

text \<open>\<open>operator==\<close>: the fields that the base type makes valid, apart from the list type.\<close>

fun type_eq :: "IRType \<Rightarrow> IRType \<Rightarrow> bool" where
  "type_eq (IRType b s d e g l cs n f) (IRType b' s' d' e' g' l' cs' n' f') =
     (b = b' \<and>
      (case b of
         BT_SCALAR \<Rightarrow> s = s'
       | BT_TENSOR \<Rightarrow> d = d' \<and> e = e'
       | BT_FUNCTION \<Rightarrow> f = f'
       | _ \<Rightarrow> list_all2 type_eq cs cs'))"

lemma type_eq_iff:
  "type_eq t u \<longleftrightarrow> base_type t = base_type u \<and>
     (case base_type t of
        BT_SCALAR \<Rightarrow> scalar_type t = scalar_type u
      | BT_TENSOR \<Rightarrow> tensor_dim t = tensor_dim u \<and> tensor_elem_type t = tensor_elem_type u
      | BT_FUNCTION \<Rightarrow> func_name t = func_name u
      | _ \<Rightarrow> list_all2 type_eq (compound_types t) (compound_types u))"
  by (cases t; cases u) (simp split: IRBaseType.split)

section \<open>Sizes\<close>

definition getTensorElemSize :: "IRTensorElemType \<Rightarrow> size_t res" where
  "getTensorElemSize t = (case t of
     TE_INT \<Rightarrow> Inr 4 | TE_DOUBLE \<Rightarrow> Inr 8 | TE_FLOAT \<Rightarrow> Inr 4 | TE_HALF \<Rightarrow> Inr (4 div 2)
   | TE_BFLOAT16 \<Rightarrow> Inr (4 div 2) | TE_LONG \<Rightarrow> Inr 8 | TE_BOOL \<Rightarrow> Inr 1 | TE_UNDEF \<Rightarrow> Inl Invalid_argument)"

definition getTensorSizeInByte :: "IRTensorElemType \<Rightarrow> int list \<Rightarrow> size_t res" where
  "getTensorSizeInByte t dim = rbind (getTensorElemSize t) (\<lambda>s. Inr (productDim dim * s))"

definition getScalarSize :: "IRScalarType \<Rightarrow> size_t res" where
  "getScalarSize t = (case t of
     ST_INT \<Rightarrow> Inr 8 | ST_FLOAT \<Rightarrow> Inr 8 | ST_BOOL \<Rightarrow> Inr 1
   | ST_NUMBER \<Rightarrow> Inr 0 | ST_DEVICE \<Rightarrow> Inr 0 | ST_NONE \<Rightarrow> Inr 0)"

fun getSizeInByte :: "IRType \<Rightarrow> size_t res" where
  "getSizeInByte (IRType b s d e g l cs n f) =
     (case b of
        BT_SCALAR \<Rightarrow> getScalarSize s
      | BT_TENSOR \<Rightarrow> getTensorSizeInByte e d
      | BT_TUPLE \<Rightarrow> rbind (rmap getSizeInByte cs) (\<lambda>sizes. Inr (sum_list sizes))
      | _ \<Rightarrow> Inr 0)"

fun setBatchSize :: "int \<Rightarrow> IRType \<Rightarrow> IRType" where
  "setBatchSize bs (IRType b s d e g l cs n f) =
     (case b of
        BT_TENSOR \<Rightarrow> IRType b s (if d \<noteq> [] then d[0 := bs] else d) e g l cs n f
      | BT_TUPLE \<Rightarrow> IRType b s d e g l (map (setBatchSize bs) cs) n f
      | BT_LIST \<Rightarrow> IRType b s d e g l (map (setBatchSize bs) cs) n f
      | _ \<Rightarrow> IRType b s d e g l cs n f)"

section \<open>Classification\<close>

definition passedForBackward_scalar :: "IRScalarType \<Rightarrow> bool" where
  "passedForBackward_scalar t = (case t of
     ST_FLOAT \<Rightarrow> True | ST_NONE \<Rightarrow> False | ST_NUMBER \<Rightarrow> False | ST_INT \<Rightarrow> False
   | ST_BOOL \<Rightarrow> False | ST_DEVICE \<Rightarrow> False)"

definition passedForBackward_elem :: "IRTensorElemType \<Rightarrow> bool" where
  "passedForBackward_elem t = (case t of
     TE_FLOAT \<Rightarrow> True | TE_HALF \<Rightarrow> True | TE_BFLOAT16 \<Rightarrow> True | TE_DOUBLE \<Rightarrow> True | TE_UNDEF \<Rightarrow> True
   | TE_INT \<Rightarrow> False | TE_LONG \<Rightarrow> False | TE_BOOL \<Rightarrow> False)"

text \<open>A loop that returns \<open>false\<close> at the first element that fails.\<close>

fun rall :: "('a \<Rightarrow> bool res) \<Rightarrow> 'a list \<Rightarrow> bool res" where
  "rall p [] = Inr True"
| "rall p (x # xs) = rbind (p x) (\<lambda>b. if b then rall p xs else Inr False)"

lemma rall_cong [fundef_cong]:
  "xs = ys \<Longrightarrow> (\<And>x. x \<in> set ys \<Longrightarrow> p x = q x) \<Longrightarrow> rall p xs = rall q ys"
  by (induction ys arbitrary: xs) (auto intro: rbind_cong)

lemma rall_True: "rall p xs = Inr True \<longleftrightarrow> (\<forall>x \<in> set xs. p x = Inr True)"
  by (induction xs) (auto simp: rbind_eq_Inr split: if_splits)

fun passedForBackward :: "IRType \<Rightarrow> bool res" where
  "passedForBackward (IRType b s d e g l cs n f) =
     (case b of
        BT_SCALAR \<Rightarrow> Inr (passedForBackward_scalar s)
      | BT_TENSOR \<Rightarrow> Inr (passedForBackward_elem e)
      | BT_LIST \<Rightarrow> if l = LT_TENSOR \<or> l = LT_GENERIC then rall passedForBackward cs else Inr False
      | BT_TUPLE \<Rightarrow> rall passedForBackward cs
      | BT_STRING \<Rightarrow> Inr False
      | BT_OPTIONAL \<Rightarrow> Inr False
      | BT_NONE \<Rightarrow> Inr False
      | BT_FUNCTION \<Rightarrow> Inl Undefined_behaviour)"

fun isTensorOrTensorList :: "IRType \<Rightarrow> bool res" where
  "isTensorOrTensorList (IRType b s d e g l cs n f) =
     (case b of
        BT_SCALAR \<Rightarrow> Inr False
      | BT_TENSOR \<Rightarrow> Inr True
      | BT_LIST \<Rightarrow> Inr (l = LT_TENSOR)
      | BT_TUPLE \<Rightarrow> rall isTensorOrTensorList cs
      | BT_STRING \<Rightarrow> Inr False
      | BT_OPTIONAL \<Rightarrow> Inr False
      | BT_NONE \<Rightarrow> Inr False
      | BT_FUNCTION \<Rightarrow> Inl Undefined_behaviour)"


section \<open>Printing\<close>

text \<open>Decimal digits of a number, as \<open>operator<<\<close> writes them.\<close>

fun nat_str :: "nat \<Rightarrow> string" where
  "nat_str n = (if n < 10 then [char_of (48 + n)] else nat_str (n div 10) @ [char_of (48 + n mod 10)])"

declare nat_str.simps [simp del]

definition int_str :: "int \<Rightarrow> string" where
  "int_str i = (if i < 0 then ''-'' @ nat_str (nat (- i)) else nat_str (nat i))"

definition base_type_str :: "IRBaseType \<Rightarrow> string" where
  "base_type_str t = (case t of
     BT_SCALAR \<Rightarrow> ''SCALAR'' | BT_TENSOR \<Rightarrow> ''TENSOR'' | BT_STRING \<Rightarrow> ''STRING'' | BT_LIST \<Rightarrow> ''LIST''
   | BT_TUPLE \<Rightarrow> ''TUPLE'' | BT_FUNCTION \<Rightarrow> ''FUNCTION'' | BT_OPTIONAL \<Rightarrow> ''OPTIONAL'' | BT_NONE \<Rightarrow> ''NONE'')"

definition elem_type_str :: "IRTensorElemType \<Rightarrow> string" where
  "elem_type_str t = (case t of
     TE_UNDEF \<Rightarrow> ''UNDEF'' | TE_INT \<Rightarrow> ''INT'' | TE_DOUBLE \<Rightarrow> ''DOUBLE'' | TE_FLOAT \<Rightarrow> ''FLOAT''
   | TE_HALF \<Rightarrow> ''HALF'' | TE_BFLOAT16 \<Rightarrow> ''BFLOAT16'' | TE_LONG \<Rightarrow> ''LONG'' | TE_BOOL \<Rightarrow> ''BOOL'')"

definition list_type_str :: "IRListType \<Rightarrow> string" where
  "list_type_str t = (case t of
     LT_INT \<Rightarrow> ''INT'' | LT_FLOAT \<Rightarrow> ''FLOAT'' | LT_BOOL \<Rightarrow> ''BOOL'' | LT_TENSOR \<Rightarrow> ''TENSOR'' | LT_GENERIC \<Rightarrow> ''GENERIC'')"

definition scalar_type_str :: "IRScalarType \<Rightarrow> string" where
  "scalar_type_str t = (case t of
     ST_INT \<Rightarrow> ''INT'' | ST_FLOAT \<Rightarrow> ''FLOAT'' | ST_NUMBER \<Rightarrow> ''NUMBER'' | ST_BOOL \<Rightarrow> ''BOOL''
   | ST_DEVICE \<Rightarrow> ''DEVICE'' | ST_NONE \<Rightarrow> ''NONE'')"

fun type_str :: "IRType \<Rightarrow> string res" where
  "type_str (IRType b s d e g l cs n f) =
     (case b of
        BT_SCALAR \<Rightarrow> Inr (''SCALAR_'' @ scalar_type_str s)
      | BT_TENSOR \<Rightarrow> Inr (elem_type_str e @ join_as_str (map int_str d) '','' 0 @ (if g then ''(G)'' else []))
      | BT_LIST \<Rightarrow> rbind (rmap type_str cs) (\<lambda>ss. Inr (list_type_str l @ ''LIST'' @ join_as_str ss '','' 0))
      | BT_TUPLE \<Rightarrow> rbind (rmap type_str cs) (\<lambda>ss. Inr (''TUPLE'' @ join_as_str ss '','' 0))
      | BT_STRING \<Rightarrow> Inr ''STRING''
      | BT_FUNCTION \<Rightarrow> Inr ''FUNCTION''
      | BT_OPTIONAL \<Rightarrow> rbind (rmap type_str cs) (\<lambda>ss.
          (case ss of [ct] \<Rightarrow> Inr (''OPTIONAL['' @ ct @ '']'') | _ \<Rightarrow> Inl Assertion_failed))
      | BT_NONE \<Rightarrow> Inr ''NONE'')"

section \<open>Locations inside structured values\<close>

datatype StepTypeInIValue = Step_LIST | Step_TUPLE

record StepInIValue =
  step_type :: StepTypeInIValue
  step_index :: size_t

type_synonym PathInIValue = "StepInIValue list"

definition step_str :: "StepInIValue \<Rightarrow> string" where
  "step_str st = (case step_type st of
     Step_LIST \<Rightarrow> ''LIST:'' @ nat_str (unat (step_index st))
   | Step_TUPLE \<Rightarrow> ''TUPLE:'' @ nat_str (unat (step_index st)))"

definition path_str :: "PathInIValue \<Rightarrow> string" where
  "path_str path = join_as_str (map step_str path) ''->'' 0"

record IValueLocation =
  value_name :: string
  path :: PathInIValue

definition loc_of :: "string \<Rightarrow> IValueLocation" where
  "loc_of name = \<lparr>value_name = name, path = []\<rparr>"

definition loc_eq :: "IValueLocation \<Rightarrow> IValueLocation \<Rightarrow> bool" where
  "loc_eq lhs rhs \<longleftrightarrow> value_name lhs = value_name rhs \<and> path_str (path lhs) = path_str (path rhs)"

definition loc_str :: "IValueLocation \<Rightarrow> string" where
  "loc_str loc = value_name loc @ '':'' @ path_str (path loc)"

definition locs_str :: "IValueLocation list \<Rightarrow> string" where
  "locs_str locs = join_as_str (map loc_str locs) '','' 0"

definition createListElem :: "IValueLocation \<Rightarrow> int \<Rightarrow> IValueLocation" where
  "createListElem loc index =
     \<lparr>value_name = value_name loc,
      path = path loc @ [\<lparr>step_type = Step_LIST, step_index = word_of_int index\<rparr>]\<rparr>"

definition createTupleElem :: "IValueLocation \<Rightarrow> int \<Rightarrow> IValueLocation" where
  "createTupleElem loc index =
     \<lparr>value_name = value_name loc,
      path = path loc @ [\<lparr>step_type = Step_TUPLE, step_index = word_of_int index\<rparr>]\<rparr>"

section \<open>Lemmas\<close>

subsection \<open>Equality of types\<close>

lemma type_eq_refl [simp]: "type_eq t t"
proof (induction t)
  case (IRType b s d e g l cs n f)
  then have "list_all2 type_eq cs cs" by (auto intro: list_all2_refl simp: list_all2_same)
  then show ?case by (simp split: IRBaseType.splits)
qed

lemma type_eq_sym: "type_eq t u \<Longrightarrow> type_eq u t"
proof (induction t u rule: type_eq.induct)
  case (1 b s d e g l cs n f b' s' d' e' g' l' cs' n' f')
  have "list_all2 type_eq cs cs' \<Longrightarrow> list_all2 type_eq cs' cs"
    if "\<And>x y. x \<in> set cs \<Longrightarrow> y \<in> set cs' \<Longrightarrow> type_eq x y \<Longrightarrow> type_eq y x"
    using that by (auto simp: list_all2_conv_all_nth)
  with 1 show ?case by (auto split: IRBaseType.splits)
qed

lemma type_eq_trans: "type_eq t u \<Longrightarrow> type_eq u v \<Longrightarrow> type_eq t v"
proof (induction t arbitrary: u v)
  case (IRType b s d e g l cs n f)
  obtain b' s' d' e' g' l' cs' n' f' where u: "u = IRType b' s' d' e' g' l' cs' n' f'" by (cases u)
  obtain b'' s'' d'' e'' g'' l'' cs'' n'' f'' where v: "v = IRType b'' s'' d'' e'' g'' l'' cs'' n'' f''" by (cases v)
  have "list_all2 type_eq cs cs'' " if "list_all2 type_eq cs cs'" "list_all2 type_eq cs' cs''"
    using that IRType.IH by (fastforce simp: list_all2_conv_all_nth)
  with IRType.prems show ?case by (auto simp: u v split: IRBaseType.splits)
qed


lemma type_eq_size: "type_eq t u \<Longrightarrow> getSizeInByte t = getSizeInByte u"
proof (induction t u rule: type_eq.induct)
  case (1 b s d e g l cs n f b' s' d' e' g' l' cs' n' f')
  have "rmap getSizeInByte cs = rmap getSizeInByte cs'" if "list_all2 type_eq cs cs'"
      "\<And>x y. x \<in> set cs \<Longrightarrow> y \<in> set cs' \<Longrightarrow> type_eq x y \<Longrightarrow> getSizeInByte x = getSizeInByte y"
  proof -
    have "list_all2 (\<lambda>x y. getSizeInByte x = getSizeInByte y) cs cs'"
      by (rule list.rel_mono_strong [OF that(1)]) (rule that(2))
    then show ?thesis by (induction rule: list_all2_induct) simp_all
  qed
  with 1 show ?case by (auto split: IRBaseType.splits)
qed

subsection \<open>Sizes\<close>

lemma getTensorElemSize_defined: "t \<noteq> TE_UNDEF \<longleftrightarrow> (\<exists>s. getTensorElemSize t = Inr s \<and> 0 < s \<and> s \<le> 8)"
  by (cases t) (simp_all add: getTensorElemSize_def)

text \<open>Every tensor in the type is batched with the same size: its leading dimension is \<open>bs\<close>.\<close>

fun batched_by :: "int \<Rightarrow> IRType \<Rightarrow> bool" where
  "batched_by bs (IRType b s d e g l cs n f) =
     (case b of
        BT_TENSOR \<Rightarrow> d \<noteq> [] \<and> d ! 0 = bs
      | BT_TUPLE \<Rightarrow> list_all (batched_by bs) cs
      | BT_SCALAR \<Rightarrow> getScalarSize s = Inr 0
      | _ \<Rightarrow> True)"

lemma productDim_update:
  "d \<noteq> [] \<Longrightarrow> word_of_int (d ! 0) * productDim (d[0 := bs]) = word_of_int bs * productDim d"
  by (cases d) (simp_all add: productDim_prod_list)

lemma rmap_scaled:
  assumes "\<And>t. t \<in> set ts \<Longrightarrow> P t" "rmap f ts = Inr xs"
    and "\<And>t x. t \<in> set ts \<Longrightarrow> f t = Inr x \<Longrightarrow> \<exists>y. f (g t) = Inr y \<and> b * y = c * x"
  shows "\<exists>ys. rmap f (map g ts) = Inr ys \<and> b * sum_list ys = c * (sum_list xs :: size_t)"
  using assms
proof (induction ts arbitrary: xs)
  case (Cons t ts)
  then obtain x xs' where x: "f t = Inr x" "rmap f ts = Inr xs'" "xs = x # xs'"
    by (auto simp: rbind_eq_Inr)
  from Cons.prems(3) [of t, OF _ x(1)] obtain y where y: "f (g t) = Inr y" "b * y = c * x" by auto
  from Cons.IH [OF _ x(2)] Cons.prems obtain ys where "rmap f (map g ts) = Inr ys" "b * sum_list ys = c * sum_list xs'"
    by auto
  with x y show ?case by (simp add: distrib_left)
qed simp

lemma setBatchSize_scales:
  "batched_by bs t \<Longrightarrow> getSizeInByte t = Inr x \<Longrightarrow>
   \<exists>y. getSizeInByte (setBatchSize bs' t) = Inr y \<and> word_of_int bs * y = word_of_int bs' * x"
proof (induction t arbitrary: x)
  case (IRType b s d e g l cs n f)
  show ?case
  proof (cases b)
    case BT_TENSOR
    with IRType.prems obtain z where z: "getTensorElemSize e = Inr z" "x = productDim d * z" "d \<noteq> []" "d ! 0 = bs"
      by (auto simp: getTensorSizeInByte_def rbind_eq_Inr)
    have "word_of_int bs * (productDim (d[0 := bs']) * z) = word_of_int bs' * x"
      using productDim_update [OF z(3), of bs'] z(2,4) by (simp add: mult.assoc [symmetric])
    with BT_TENSOR z show ?thesis by (simp add: getTensorSizeInByte_def)
  next
    case BT_TUPLE
    with IRType.prems obtain xs where xs: "rmap getSizeInByte cs = Inr xs" "x = sum_list xs" "list_all (batched_by bs) cs"
      by (auto simp: rbind_eq_Inr)
    have "\<exists>ys. rmap getSizeInByte (map (setBatchSize bs') cs) = Inr ys \<and>
        word_of_int bs * sum_list ys = word_of_int bs' * sum_list xs"
      by (rule rmap_scaled [where P = "batched_by bs", OF _ xs(1)])
        (use xs(3) IRType.IH in \<open>auto simp: list_all_iff\<close>)
    with BT_TUPLE xs show ?thesis by auto
  qed (use IRType.prems in auto)
qed

subsection \<open>Injectivity of printed locations\<close>

definition digits_val :: "string \<Rightarrow> nat" where
  "digits_val = foldl (\<lambda>a c. 10 * a + (of_char c - 48)) 0"

lemma nat_str_val: "digits_val (nat_str n) = n"
proof (induction n rule: nat_str.induct)
  case (1 n)
  have d: "of_char (char_of (48 + k) :: char) = 48 + k" if "k < 10" for k :: nat
    using that by (simp add: of_char_of)
  show ?case
  proof (cases "n < 10")
    case True
    then show ?thesis using d [of n] by (subst nat_str.simps) (simp add: digits_val_def)
  next
    case False
    with 1 have "digits_val (nat_str (n div 10)) = n div 10" by simp
    with False d [of "n mod 10"] show ?thesis by (subst nat_str.simps) (simp add: digits_val_def)
  qed
qed

lemma nat_str_inj: "nat_str m = nat_str n \<longleftrightarrow> m = n"
  by (metis nat_str_val)

lemma nat_str_no_dash: "CHR ''-'' \<notin> set (nat_str n)"
proof (induction n rule: nat_str.induct)
  case (1 n)
  have d: "CHR ''-'' \<noteq> char_of (48 + k)" if "k < 10" for k :: nat
  proof
    assume "CHR ''-'' = char_of (48 + k)"
    then have "of_char CHR ''-'' = (of_char (char_of (48 + k) :: char) :: nat)" by simp
    with that show False by (simp add: of_char_of)
  qed
  then show ?case
    using 1 d [of n] d [of "n mod 10"] by (subst nat_str.simps) auto
qed

lemma step_str_inj: "step_str s = step_str t \<longleftrightarrow> s = t"
  by (cases s; cases t) (auto simp: step_str_def nat_str_inj word_unat_eq_iff split: StepTypeInIValue.splits)

lemma step_str_no_dash: "CHR ''-'' \<notin> set (step_str s)"
  using nat_str_no_dash by (simp add: step_str_def split: StepTypeInIValue.splits)

lemma join_with_arrow_inj:
  assumes "\<And>w. w \<in> set ws \<union> set vs \<Longrightarrow> CHR ''-'' \<notin> set w \<and> w \<noteq> []"
    and "join_with ''->'' ws = join_with ''->'' vs"
  shows "ws = vs"
  using assms
proof (induction ws arbitrary: vs)
  case Nil
  then show ?case by (cases vs) (auto simp: join_with_Cons join_with_def)
next
  case (Cons w ws)
  then obtain v vs' where vs: "vs = v # vs'" by (cases vs) (auto simp: join_with_Cons join_with_def)
  let ?tl = "\<lambda>ws. if ws = [] then [] else ''->'' @ join_with ''->'' ws"
  have eq: "w @ ?tl ws = v @ ?tl vs'" using Cons.prems(2) by (simp add: vs join_with_Cons)
  have hd: "takeWhile (\<lambda>c. c \<noteq> CHR ''-'') (u @ ?tl us) = u" if "CHR ''-'' \<notin> set u" for u us
    using that by (auto simp: takeWhile_append)
  have "w = v" using hd [of w ws] hd [of v vs'] Cons.prems(1) [of w] Cons.prems(1) [of v] eq by (simp add: vs)
  with eq have tl: "?tl ws = ?tl vs'" by simp
  show ?case
  proof (cases "ws = [] \<or> vs' = []")
    case True
    with tl \<open>w = v\<close> show ?thesis by (auto simp: vs split: if_splits)
  next
    case False
    with tl have "join_with ''->'' ws = join_with ''->'' vs'" by simp
    with Cons.IH [of vs'] Cons.prems(1) \<open>w = v\<close> show ?thesis by (simp add: vs)
  qed
qed

lemma path_str_inj: "path_str p = path_str q \<longleftrightarrow> p = q"
proof
  assume "path_str p = path_str q"
  then have "join_with ''->'' (map step_str p) = join_with ''->'' (map step_str q)"
    by (simp add: path_str_def join_as_str_def)
  then have "map step_str p = map step_str q"
    by (rule join_with_arrow_inj [rotated])
      (auto simp: nat_str_no_dash step_str_def split: StepTypeInIValue.splits)
  then show "p = q" by (rule inj_map_eq_map [THEN iffD1, rotated]) (simp add: inj_def step_str_inj)
qed simp

section \<open>Properties\<close>

text \<open>
  \<open>operator==\<close> of \<open>IRType\<close> is an equivalence, and equal types occupy the same number of bytes,
  or fail alike.
\<close>

lemma type_eq_equivalence:
  assumes "type_eq t u"
  shows "getSizeInByte t = getSizeInByte u \<and> type_eq t t \<and> type_eq u t \<and> (\<forall>v. type_eq u v = type_eq t v)"
  using assms type_eq_size type_eq_sym type_eq_trans type_eq_refl by blast

lemma type_eq_equivalence_witness:
  "getSizeInByte (createTensorType TE_HALF [2, 5] True) = getSizeInByte (createTensorType TE_HALF [2, 5] False)"
  using type_eq_equivalence [of "createTensorType TE_HALF [2, 5] True" "createTensorType TE_HALF [2, 5] False"]
  by (simp add: createTensorType_def)

text \<open>
  \<open>operator==\<close> ignores the kind of a list: a list of tensors and a generic list of the same
  elements are equal, although only the first counts as a tensor list.
\<close>

lemma type_eq_ignores_list_type:
  "type_eq (createTensorListType ts) (createListType ts) \<and>
   isTensorOrTensorList (createTensorListType ts) = Inr True \<and>
   isTensorOrTensorList (createListType ts) = Inr False"
  by (simp add: createTensorListType_def createListType_def list_all2_same)

text \<open>
  \<open>setBatchSize\<close> rescales the size of a type: when the tensors of a type have the leading
  dimension \<open>bs\<close>, then replacing it by \<open>bs'\<close> multiplies the number of bytes by \<open>bs' / bs\<close>, in 64-bit arithmetic.
\<close>

lemma setBatchSize_scales_size:
  assumes "batched_by bs t" "getSizeInByte t = Inr x"
  shows "\<exists>y. getSizeInByte (setBatchSize bs' t) = Inr y \<and> word_of_int bs * y = word_of_int bs' * x"
  by (rule setBatchSize_scales [OF assms])

lemma setBatchSize_scales_size_witness:
  "\<exists>y. getSizeInByte (setBatchSize 2 (createTupleType [createTensorType TE_FLOAT [4, 3] True,
      createTensorType TE_LONG [4] False])) = Inr y \<and> word_of_int 4 * y = word_of_int 2 * 80"
  by (rule setBatchSize_scales_size)
    (simp_all add: createTupleType_def createTensorType_def getTensorSizeInByte_def getTensorElemSize_def
      productDim_def)

text \<open>
  \<open>operator==\<close> of \<open>IValueLocation\<close>, which compares the printed paths, is equality of locations.
\<close>

lemma loc_eq_is_equality: "loc_eq l m \<longleftrightarrow> l = m"
  by (cases l; cases m) (simp add: loc_eq_def path_str_inj)

end
