(* ===== verification/IR_Graph.thy ===== *)
theory IR_Graph
  imports IR_Types
begin

text \<open>
  Values, nodes and graphs of the intermediate representation (\<open>class IRValue\<close>, \<open>class IRNode\<close>,
  \<open>class IRGraph\<close> of \<open>graph/ir.h\<close>) and the functions on graphs of \<open>graph/ir.cpp\<close>.

  A value name is a string. A \<open>std::unordered_set<std::string>\<close> is a set. The random part of
  \<open>generateName\<close> is a parameter: \<open>gen i\<close> is the \<open>i\<close>-th name that a function asks for. Constructing
  a graph calls \<open>checkReplicable\<close>, which looks up the inputs and so may throw; \<open>mkIRGraph\<close> keeps that.
\<close>

section \<open>Values, nodes, graphs\<close>

record IRValue =
  v_name :: string
  v_type :: IRType
  is_param :: bool
  is_batch :: bool
  is_loss :: bool

record IRNode =
  n_name :: string
  input_names :: "string list"
  output_names :: "string list"
  n_id :: string
  is_criterion :: bool
  n_is_batch :: bool

record IRGraph =
  g_name :: string
  nodes :: "IRNode list"
  gvalues :: "(string, IRValue) umap"
  g_inputs :: "string list"
  g_outputs :: "string list"
  is_replicable :: bool

definition mkIRValue :: "string \<Rightarrow> IRType \<Rightarrow> IRValue" where
  "mkIRValue name type = \<lparr>v_name = name, v_type = type, is_param = False, is_batch = False, is_loss = False\<rparr>"

definition copyIRValue :: "string \<Rightarrow> IRValue \<Rightarrow> IRValue" where
  "copyIRValue name val = val\<lparr>v_name := name\<rparr>"

definition v_getSizeInByte :: "IRValue \<Rightarrow> size_t res" where
  "v_getSizeInByte v = getSizeInByte (v_type v)"

definition v_setBatchSize :: "int \<Rightarrow> IRValue \<Rightarrow> IRValue" where
  "v_setBatchSize bs v = (if is_batch v then v\<lparr>v_type := setBatchSize bs (v_type v)\<rparr> else v)"

definition isFunction :: "IRValue \<Rightarrow> bool" where
  "isFunction v = (if base_type (v_type v) \<noteq> BT_FUNCTION then False else True)"

definition getFunctionName :: "IRValue \<Rightarrow> string res" where
  "getFunctionName v = rbind (rassert (isFunction v)) (\<lambda>_. Inr (v_name v @ ''@'' @ func_name (v_type v)))"

definition mkIRNode :: "string \<Rightarrow> string \<Rightarrow> string list \<Rightarrow> string list \<Rightarrow> IRNode" where
  "mkIRNode gen_id name ins outs =
     \<lparr>n_name = name, input_names = ins, output_names = outs, n_id = gen_id, is_criterion = False, n_is_batch = False\<rparr>"

definition getValue :: "IRGraph \<Rightarrow> string \<Rightarrow> IRValue res" where
  "getValue g name = (if \<not> um_contains (gvalues g) name then Inl Invalid_argument else um_at (gvalues g) name)"

definition hasValue :: "IRGraph \<Rightarrow> string \<Rightarrow> bool" where
  "hasValue g name = um_contains (gvalues g) name"

text \<open>A loop that stops at the first element for which a condition holds.\<close>

primrec rany :: "('a \<Rightarrow> bool res) \<Rightarrow> 'a list \<Rightarrow> bool res" where
  "rany p [] = Inr False"
| "rany p (x # xs) = rbind (p x) (\<lambda>b. if b then Inr True else rany p xs)"

lemma rany_total: "(\<And>x. x \<in> set xs \<Longrightarrow> \<exists>b. p x = Inr b) \<Longrightarrow> \<exists>b. rany p xs = Inr b"
  by (induction xs) fastforce+

definition checkReplicable :: "IRGraph \<Rightarrow> IRGraph res" where
  "checkReplicable g =
     rbind (rany (\<lambda>in_name. rbind (getValue g in_name) (\<lambda>in_v. Inr (is_batch in_v))) (g_inputs g)) (\<lambda>found.
     Inr (if found then g\<lparr>is_replicable := True\<rparr> else g))"

definition mkIRGraph ::
    "string \<Rightarrow> IRNode list \<Rightarrow> (string, IRValue) umap \<Rightarrow> string list \<Rightarrow> string list \<Rightarrow> IRGraph res" where
  "mkIRGraph name ns vals ins outs =
     checkReplicable \<lparr>g_name = name, nodes = ns, gvalues = vals, g_inputs = ins, g_outputs = outs,
                      is_replicable = False\<rparr>"

definition renameIRGraph :: "string \<Rightarrow> IRGraph \<Rightarrow> IRGraph" where
  "renameIRGraph name g = g\<lparr>g_name := name\<rparr>"

definition sum_sizes :: "IRValue list \<Rightarrow> size_t res" where
  "sum_sizes vs = rbind (rmap v_getSizeInByte vs) (\<lambda>sizes. Inr (sum_list sizes))"

definition g_getSizeInByte :: "IRGraph \<Rightarrow> size_t res" where
  "g_getSizeInByte g = sum_sizes (map snd (gvalues g))"

definition getParamSizeInByte :: "IRGraph \<Rightarrow> size_t res" where
  "getParamSizeInByte g = sum_sizes (filter is_param (map snd (gvalues g)))"

definition getParamNames :: "IRGraph \<Rightarrow> string list res" where
  "getParamNames g = rfilter (\<lambda>i. rbind (getValue g i) (\<lambda>v. Inr (is_param v))) (g_inputs g)"

definition isFunctionNode :: "(string, IRValue) umap \<Rightarrow> IRNode \<Rightarrow> bool res" where
  "isFunctionNode vals n =
     rbind (vec_at (output_names n) 0) (\<lambda>out. rbind (um_at vals out) (\<lambda>ov. Inr (isFunction ov)))"

definition g_setBatchSize :: "int \<Rightarrow> IRGraph \<Rightarrow> IRGraph" where
  "g_setBatchSize bs g =
     g\<lparr>gvalues := map (\<lambda>(k, v). (k, if is_batch v then v_setBatchSize bs v else v)) (gvalues g)\<rparr>"

section \<open>Queries\<close>

definition graphInputValues :: "IRGraph \<Rightarrow> bool \<Rightarrow> IRValue list res" where
  "graphInputValues g is_par =
     rbind (rmap (getValue g) (g_inputs g)) (\<lambda>vals. Inr (filter (\<lambda>v. is_param v = is_par) vals))"

definition graphNonParamInputValues :: "IRGraph \<Rightarrow> IRValue list res" where
  "graphNonParamInputValues g = graphInputValues g False"

definition graphParamInputValues :: "IRGraph \<Rightarrow> IRValue list res" where
  "graphParamInputValues g = graphInputValues g True"

definition graphConstantValues :: "IRGraph \<Rightarrow> IRValue list res" where
  "graphConstantValues g =
     rbind (rmap (getValue g)
              (concat (map output_names (filter (\<lambda>n. n_name n = ''prim::Constant'') (nodes g))))) (\<lambda>vals.
     Inr (map snd (um_of (map (\<lambda>v. (v_name v, v)) (filter (\<lambda>v. \<not> isFunction v) vals)))))"

text \<open>The names are visited in the order \<open>sort_names\<close> puts them in (\<open>std::sort\<close> on strings).\<close>

definition graphParamValues :: "(string list \<Rightarrow> string list) \<Rightarrow> IRGraph \<Rightarrow> IRValue list res" where
  "graphParamValues sort_names g =
     rbind (rmap (getValue g) (sort_names (map fst (gvalues g)))) (\<lambda>vals. Inr (filter is_param vals))"

definition getNonParamInputNames :: "IRGraph \<Rightarrow> string list res" where
  "getNonParamInputNames g = rfilter (\<lambda>n. rbind (getValue g n) (\<lambda>v. Inr (\<not> is_param v))) (g_inputs g)"

definition getParamInputNames :: "IRGraph \<Rightarrow> string list res" where
  "getParamInputNames g = rfilter (\<lambda>n. rbind (getValue g n) (\<lambda>v. Inr (is_param v))) (g_inputs g)"

definition getGradNames :: "IRGraph \<Rightarrow> string list \<Rightarrow> string list res" where
  "getGradNames g names = rfilter (\<lambda>n. rbind (getValue g n) (\<lambda>v. passedForBackward (v_type v))) names"

definition getGradOutputNames :: "IRGraph \<Rightarrow> string list res" where
  "getGradOutputNames g = getGradNames g (g_outputs g)"

definition getGradInputNames :: "IRGraph \<Rightarrow> string list res" where
  "getGradInputNames g = getGradNames g (g_inputs g)"

definition isGraphReady :: "string list \<Rightarrow> IValueLocation set \<Rightarrow> bool" where
  "isGraphReady names avail_locs = list_all (\<lambda>n. \<exists>l \<in> avail_locs. loc_eq (loc_of n) l) names"

definition getElemInIRType :: "IRType \<Rightarrow> PathInIValue \<Rightarrow> IRType res" where
  "getElemInIRType type p =
     (case p of [] \<Rightarrow> Inr type
      | st # _ \<Rightarrow>
          rbind (rassert (base_type type = BT_LIST \<or> base_type type = BT_TUPLE)) (\<lambda>_.
          rbind (rassert (length (compound_types type) > unat (step_index st))) (\<lambda>_.
          vec_at (compound_types type) (unat (step_index st)))))"

definition setDimToIRType :: "IRType \<Rightarrow> int list \<Rightarrow> IRType" where
  "setDimToIRType type dim = createTensorType (tensor_elem_type type) dim (requires_grad type)"

text \<open>The dimensions of the first tensor with dimensions inside a structured type.\<close>

primrec rfirst :: "('a \<Rightarrow> 'b list res) \<Rightarrow> 'a list \<Rightarrow> 'b list res" where
  "rfirst f [] = Inr []"
| "rfirst f (x # xs) = rbind (f x) (\<lambda>r. if r \<noteq> [] then Inr r else rfirst f xs)"

lemma rfirst_cong [fundef_cong]:
  "xs = ys \<Longrightarrow> (\<And>x. x \<in> set ys \<Longrightarrow> f x = g x) \<Longrightarrow> rfirst f xs = rfirst g ys"
  by (induction ys arbitrary: xs) (auto intro: rbind_cong)

fun getBatchDim :: "IRType \<Rightarrow> int list res" where
  "getBatchDim (IRType b s d e gr l cs n f) =
     (case b of
        BT_SCALAR \<Rightarrow> Inr []
      | BT_TENSOR \<Rightarrow> Inr d
      | BT_LIST \<Rightarrow> if l = LT_TENSOR \<or> l = LT_GENERIC
                   then rfirst getBatchDim cs else Inr []
      | BT_TUPLE \<Rightarrow> rfirst getBatchDim cs
      | BT_STRING \<Rightarrow> Inr []
      | BT_OPTIONAL \<Rightarrow> Inr []
      | BT_NONE \<Rightarrow> Inr []
      | BT_FUNCTION \<Rightarrow> Inl Undefined_behaviour)"


section \<open>Printing\<close>

definition value_str :: "IRValue \<Rightarrow> string res" where
  "value_str v =
     rbind (type_str (v_type v)) (\<lambda>ts.
     Inr (v_name v @ (if is_batch v then ''(B)'' else if is_param v then ''(P)'' else if is_loss v then ''(L)'' else [])
          @ ''['' @ ts @ '']''))"

definition node_str :: "IRNode \<Rightarrow> string" where
  "node_str n = n_name n @ ''('' @ join_as_str (input_names n) '','' 0 @ '') => '' @ join_as_str (output_names n) '','' 0"

definition newline :: string where
  "newline = [char_of (10 :: nat)]"

definition graph_str :: "IRGraph \<Rightarrow> string res" where
  "graph_str g =
     rbind (rmap (\<lambda>i. rbind (getValue g i) value_str) (g_inputs g)) (\<lambda>ins.
     rbind (rmap (\<lambda>n. rbind (rmap (\<lambda>out. rbind (getValue g out) value_str) (output_names n)) (\<lambda>outputs.
              Inr (''  '' @ n_name n @ (if n_is_batch n then ''[B]'' else []) @ ''('' @
                   join_as_str (input_names n) '','' 0 @ '') => '' @ join_as_str outputs '','' 0 @ newline)))
            (nodes g)) (\<lambda>ns.
     rbind (rmap (\<lambda>out. rbind (getValue g out) value_str) (g_outputs g)) (\<lambda>outs.
     Inr (''Graph '' @ g_name g @ newline @
          concat (map (\<lambda>v. ''Graph input: '' @ v @ newline) ins) @ concat ns @
          concat (map (\<lambda>v. ''Graph output: '' @ v @ newline) outs)))))"

text \<open>\<open>guessGraphBatchSize\<close> prints the graph first, so it fails where printing fails.\<close>

primrec guess_loop :: "IRGraph \<Rightarrow> string list \<Rightarrow> int res" where
  "guess_loop g [] = Inr 0"
| "guess_loop g (in_name # rest) =
     rbind (getValue g in_name) (\<lambda>val.
       if is_batch val then
         rbind (getBatchDim (v_type val)) (\<lambda>dim. rbind (rassert (dim \<noteq> [])) (\<lambda>_. Inr (hd dim)))
       else guess_loop g rest)"

definition guessGraphBatchSize :: "IRGraph \<Rightarrow> int res" where
  "guessGraphBatchSize g = rbind (graph_str g) (\<lambda>_. guess_loop g (g_inputs g))"

section \<open>Shared inputs\<close>

definition countValueRefCount :: "IRGraph \<Rightarrow> string \<Rightarrow> nat" where
  "countValueRefCount g val_name = length (filter (\<lambda>node. val_name \<in> set (input_names node)) (nodes g))"

definition countSharedRefs :: "IRGraph \<Rightarrow> IRValue list \<Rightarrow> (string, nat) umap" where
  "countSharedRefs g input_vals =
     um_of (map (\<lambda>v. (v_name v, countValueRefCount g (v_name v)))
       (filter (\<lambda>v. countValueRefCount g (v_name v) > 1) input_vals))"

definition cl_name :: "string \<Rightarrow> nat \<Rightarrow> string" where
  "cl_name name i = name @ ''_cl'' @ nat_str i"

text \<open>The renaming of one node: every occurrence of a shared input takes the next clone.\<close>

primrec clone_node_inputs ::
    "(string, string list) umap \<Rightarrow> string list \<Rightarrow> (string, nat) umap \<Rightarrow> (string list \<times> (string, nat) umap) res" where
  "clone_node_inputs shared [] ref_idx = Inr ([], ref_idx)"
| "clone_node_inputs shared (in_name # rest) ref_idx =
     (case um_get shared in_name of
        Some cl_names \<Rightarrow>
          rbind (vec_at cl_names (um_ref 0 ref_idx in_name)) (\<lambda>cl.
          rbind (clone_node_inputs shared rest (um_set in_name (um_ref 0 ref_idx in_name + 1) ref_idx)) (\<lambda>(ins, ri).
          Inr (cl # ins, ri)))
      | None \<Rightarrow>
          rbind (clone_node_inputs shared rest ref_idx) (\<lambda>(ins, ri). Inr (in_name # ins, ri)))"

primrec clone_nodes ::
    "(nat \<Rightarrow> string) \<Rightarrow> (string, string list) umap \<Rightarrow> IRNode list \<Rightarrow> (string, nat) umap \<Rightarrow> IRNode list res" where
  "clone_nodes gen shared [] ref_idx = Inr []"
| "clone_nodes gen shared (n # ns) ref_idx =
     rbind (clone_node_inputs shared (input_names n) ref_idx) (\<lambda>(ins, ri).
     rbind (clone_nodes (\<lambda>i. gen (Suc i)) shared ns ri) (\<lambda>ns'.
     Inr (mkIRNode (gen 0) (n_name n) ins (output_names n) # ns')))"

definition clone_values :: "(string, string list) umap \<Rightarrow> (string, IRValue) umap \<Rightarrow> (string, IRValue) umap" where
  "clone_values shared vals =
     um_of (concat (map (\<lambda>(k, v).
       (case um_get shared (v_name v) of
          Some cl_names \<Rightarrow> map (\<lambda>cl. (cl, copyIRValue cl v)) cl_names
        | None \<Rightarrow> [(k, v)])) vals))"

definition clone_outputs :: "(string, string list) umap \<Rightarrow> string list \<Rightarrow> string list res" where
  "clone_outputs shared outs =
     rmap (\<lambda>out. case um_get shared out of
        Some cls \<Rightarrow> rbind (rassert (cls \<noteq> [])) (\<lambda>_. Inr (hd cls)) | None \<Rightarrow> Inr out) outs"

text \<open>
  The clone lists are appended to while the inputs are visited, so an input that is listed twice
  gets its clones twice.
\<close>

definition shared_clones :: "(string, nat) umap \<Rightarrow> string list \<Rightarrow> (string, string list) umap" where
  "shared_clones ref_count ins =
     foldl (\<lambda>m i. case um_get ref_count i of
        None \<Rightarrow> m | Some c \<Rightarrow> um_set i (um_ref [] m i @ map (cl_name i) [0..<c]) m) [] ins"

definition cloned_inputs :: "(string, nat) umap \<Rightarrow> string list \<Rightarrow> string list" where
  "cloned_inputs ref_count ins =
     concat (map (\<lambda>i. case um_get ref_count i of None \<Rightarrow> [i] | Some c \<Rightarrow> map (cl_name i) [0..<c]) ins)"

definition cloneSharedInputs ::
    "(nat \<Rightarrow> string) \<Rightarrow> IRGraph \<Rightarrow> (IRGraph \<times> (string, string list) umap) res" where
  "cloneSharedInputs gen g =
     rbind (graphNonParamInputValues g) (\<lambda>no_param_inputs.
     rbind (graphParamInputValues g) (\<lambda>param_inputs.
     let ref_count = addAll_map (countSharedRefs g no_param_inputs) (countSharedRefs g param_inputs);
         shared = shared_clones ref_count (g_inputs g)
     in rbind (clone_nodes gen shared (nodes g) []) (\<lambda>ns.
        rbind (clone_outputs shared (g_outputs g)) (\<lambda>outs.
        rbind (mkIRGraph (g_name g) ns (clone_values shared (gvalues g)) (cloned_inputs ref_count (g_inputs g)) outs) (\<lambda>g'.
        Inr (g', shared))))))"


section \<open>Memory sizes\<close>

definition opt_mem_of :: "size_t \<Rightarrow> bool \<Rightarrow> size_t \<Rightarrow> IRValue \<Rightarrow> size_t res" where
  "opt_mem_of opt_param_factor use_amp_master_param zero_dist_num val =
     (if use_amp_master_param then
        (let et = tensor_elem_type (v_type val) in
         if et = TE_HALF then
           rbind (v_getSizeInByte val) (\<lambda>s. Inr (s * 2 * 2 + s * 2 * opt_param_factor div zero_dist_num))
         else if et = TE_FLOAT \<or> et = TE_BFLOAT16 then
           rbind (v_getSizeInByte val) (\<lambda>s. Inr (s * opt_param_factor div zero_dist_num + s))
         else Inl Runtime_error)
      else rbind (v_getSizeInByte val) (\<lambda>s. Inr (s * opt_param_factor div zero_dist_num)))"

text \<open>The flag \<open>enable_zero\<close> is a parameter of the function, but the code does not read it.\<close>

definition getOptMemSize :: "IRGraph \<Rightarrow> int \<Rightarrow> bool \<Rightarrow> bool \<Rightarrow> int \<Rightarrow> size_t res" where
  "getOptMemSize g opt_param_factor use_amp_master_param enable_zero zero_dist_num =
     (let zdn = (if zero_dist_num = 0 then 1 else zero_dist_num) in
      rbind (rmap (opt_mem_of (word_of_int opt_param_factor) use_amp_master_param (word_of_int zdn))
              (filter is_param (map snd (gvalues g)))) (\<lambda>sizes. Inr (sum_list sizes)))"

definition getAmpMasterParamSize :: "IRGraph \<Rightarrow> size_t res" where
  "getAmpMasterParamSize g =
     rbind (rmap (\<lambda>val. rbind (v_getSizeInByte val) (\<lambda>s. Inr (s * 2)))
              (filter (\<lambda>val. is_param val \<and> tensor_elem_type (v_type val) = TE_HALF) (map snd (gvalues g)))) (\<lambda>sizes.
     Inr (sum_list sizes))"

definition calcCommBufSize :: "(nat \<Rightarrow> string) \<Rightarrow> IRGraph \<Rightarrow> int \<Rightarrow> size_t res" where
  "calcCommBufSize gen g pipeline_num =
     rbind (rmap (getValue g) (g_inputs g)) (\<lambda>ins.
     rbind (sum_sizes (filter (\<lambda>v. \<not> is_param v) ins)) (\<lambda>input_size.
     rbind (cloneSharedInputs gen g) (\<lambda>(_, shared_val_cl_names).
     rbind (rmap (\<lambda>(k, cls). rbind (getValue g k) (\<lambda>v. rbind (v_getSizeInByte v) (\<lambda>s.
              Inr (s * of_nat (length cls))))) shared_val_cl_names) (\<lambda>clone_sizes.
     rbind (rmap (getValue g) (g_outputs g)) (\<lambda>outs.
     rbind (sum_sizes outs) (\<lambda>output_size.
     rbind (rfilter (\<lambda>v. passedForBackward (v_type v)) (filter (\<lambda>v. \<not> is_param v) ins)) (\<lambda>grads.
     rbind (sum_sizes grads) (\<lambda>ingrad_size.
     Inr ((input_size + output_size + ingrad_size) * word_of_int pipeline_num + sum_list clone_sizes * 2)))))))))"

section \<open>Well-formedness checks\<close>

text \<open>The check of one list of names against the names seen so far: \<open>None\<close> when one repeats.\<close>

primrec no_dup :: "string list \<Rightarrow> string set \<Rightarrow> string set option" where
  "no_dup [] out_names = Some out_names"
| "no_dup (x # xs) out_names = (if x \<in> out_names then None else no_dup xs (insert x out_names))"

primrec no_dup_nodes :: "IRNode list \<Rightarrow> string set \<Rightarrow> bool" where
  "no_dup_nodes [] out_names = True"
| "no_dup_nodes (n # ns) out_names =
     (case no_dup (output_names n) out_names of None \<Rightarrow> False | Some out_names' \<Rightarrow> no_dup_nodes ns out_names')"

definition verifyNoDuplicatedOutputs :: "IRGraph \<Rightarrow> bool" where
  "verifyNoDuplicatedOutputs g =
     (case no_dup (g_inputs g) {} of None \<Rightarrow> False | Some out_names \<Rightarrow> no_dup_nodes (nodes g) out_names)"

primrec inputs_ready :: "IRNode list \<Rightarrow> string set \<Rightarrow> bool" where
  "inputs_ready [] val_names = True"
| "inputs_ready (n # ns) val_names =
     (if list_all (\<lambda>i. i \<in> val_names) (input_names n)
      then inputs_ready ns (val_names \<union> set (output_names n)) else False)"

definition verifyNodeInputs :: "IRGraph \<Rightarrow> bool" where
  "verifyNodeInputs g = inputs_ready (nodes g) (set (g_inputs g))"

definition ref_names :: "IRNode list \<Rightarrow> string list \<Rightarrow> string set" where
  "ref_names ns outs = set outs \<union> set (concat (map input_names ns))"

definition getRequiredValues :: "IRGraph \<Rightarrow> string set" where
  "getRequiredValues g = ref_names (nodes g) (g_outputs g)"

definition findUnusedValue :: "IRGraph \<Rightarrow> string set" where
  "findUnusedValue g =
     (let ref_val_names = ref_names (nodes g) (g_outputs g) in
      {i \<in> set (g_inputs g). i \<notin> ref_val_names} \<union>
      {out \<in> set (concat (map output_names (nodes g))). out \<notin> ref_val_names})"

definition noUnusedValue :: "IRGraph \<Rightarrow> bool" where
  "noUnusedValue g = (findUnusedValue g = {})"

definition detectUnusedNodes :: "IRGraph \<Rightarrow> IRNode list" where
  "detectUnusedNodes g =
     (let ref_val_names = ref_names (nodes g) (g_outputs g) in
      filter (\<lambda>n. \<exists>out \<in> set (output_names n). out \<notin> ref_val_names) (nodes g))"

text \<open>One round of the loop of \<open>removeUnusedNodes\<close>: the nodes without the ids of the unused ones.\<close>

definition drop_unused :: "IRGraph \<Rightarrow> IRNode list" where
  "drop_unused g =
     (let unused_ids = set (map n_id (detectUnusedNodes g))
      in filter (\<lambda>n. n_id n \<notin> unused_ids) (nodes g))"

lemma drop_unused_shorter: "detectUnusedNodes g \<noteq> [] \<Longrightarrow> length (drop_unused g) < length (nodes g)"
proof -
  assume "detectUnusedNodes g \<noteq> []"
  then obtain n where "n \<in> set (detectUnusedNodes g)" by (cases "detectUnusedNodes g") auto
  then have "n \<in> set (nodes g)" "n_id n \<in> set (map n_id (detectUnusedNodes g))"
    by (auto simp: detectUnusedNodes_def Let_def)
  then show ?thesis unfolding drop_unused_def Let_def
    by (intro length_filter_less [of n]) simp_all
qed

lemma mkIRGraph_Inr:
  "mkIRGraph nm ns vals ins outs = Inr g \<Longrightarrow>
   nodes g = ns \<and> gvalues g = vals \<and> g_inputs g = ins \<and> g_outputs g = outs \<and> g_name g = nm"
  by (auto simp: mkIRGraph_def checkReplicable_def rbind_eq_Inr split: if_splits)

function remove_loop :: "IRGraph \<Rightarrow> IRGraph \<Rightarrow> IRGraph res" where
  "remove_loop g new_g =
     (if detectUnusedNodes new_g = [] then Inr new_g
      else rbind (mkIRGraph (g_name g) (drop_unused new_g) (gvalues g) (g_inputs g) (g_outputs g)) (remove_loop g))"
  by pat_completeness auto
termination
  by (relation "measure (\<lambda>(g, new_g). length (nodes new_g))") (auto dest!: mkIRGraph_Inr intro: drop_unused_shorter)

declare remove_loop.simps [simp del]

definition removeUnusedNodes :: "IRGraph \<Rightarrow> IRGraph res" where
  "removeUnusedNodes g =
     rbind (remove_loop g g) (\<lambda>new_g.
     let required_vals = getRequiredValues new_g
     in mkIRGraph (g_name g) (nodes new_g)
          (um_of (filter (\<lambda>(k, v). k \<in> required_vals) (gvalues new_g)))
          (filter (\<lambda>i. i \<in> required_vals) (g_inputs new_g))
          (filter (\<lambda>i. i \<in> required_vals) (g_outputs new_g)))"


section \<open>Lemmas\<close>

lemma getValue_Inr [simp]: "getValue g x = Inr v \<longleftrightarrow> um_get (gvalues g) x = Some v"
  by (auto simp: getValue_def um_contains_def um_at_Inr)

lemma mkIRGraph_total:
  assumes "set ins \<subseteq> fst ` set vals"
  shows "\<exists>g. mkIRGraph nm ns vals ins outs = Inr g"
proof -
  let ?g = "\<lparr>g_name = nm, nodes = ns, gvalues = vals, g_inputs = ins, g_outputs = outs, is_replicable = False\<rparr>"
  have "\<exists>b. rany (\<lambda>i. rbind (getValue ?g i) (\<lambda>in_v. Inr (is_batch in_v))) ins = Inr b"
  proof (rule rany_total)
    fix i assume "i \<in> set ins"
    with assms have "i \<in> fst ` set vals" by blast
    then obtain v where "um_get vals i = Some v" by (metis map_of_eq_None_iff option.exhaust)
    then have "getValue ?g i = Inr v" by simp
    then show "\<exists>b. rbind (getValue ?g i) (\<lambda>in_v. Inr (is_batch in_v)) = Inr b" by (simp only: rbind_Inr) blast
  qed
  then show ?thesis by (auto simp: mkIRGraph_def checkReplicable_def)
qed

text \<open>Every graph input has a value, and the value table has each name once.\<close>

definition values_ok :: "IRGraph \<Rightarrow> bool" where
  "values_ok g \<longleftrightarrow> um_ok (gvalues g) \<and> set (g_inputs g) \<subseteq> fst ` set (gvalues g)"

lemma no_dup_Some: "no_dup xs A = Some B \<longleftrightarrow> distinct xs \<and> set xs \<inter> A = {} \<and> B = A \<union> set xs"
  by (induction xs arbitrary: A) auto

lemma no_dup_None: "no_dup xs A = None \<longleftrightarrow> \<not> (distinct xs \<and> set xs \<inter> A = {})"
  using no_dup_Some [of xs A] by (cases "no_dup xs A") auto

lemma no_dup_nodes_iff:
  "no_dup_nodes ns A \<longleftrightarrow> distinct (concat (map output_names ns)) \<and> set (concat (map output_names ns)) \<inter> A = {}"
proof (induction ns arbitrary: A)
  case (Cons n ns)
  show ?case
  proof (cases "no_dup (output_names n) A")
    case None
    from no_dup_None [THEN iffD1, OF None] show ?thesis by (auto simp: None)
  next
    case (Some B)
    from no_dup_Some [THEN iffD1, OF Some] show ?thesis by (auto simp: Some Cons.IH)
  qed
qed simp

lemma verifyNoDuplicatedOutputs_iff:
  "verifyNoDuplicatedOutputs g \<longleftrightarrow> distinct (g_inputs g @ concat (map output_names (nodes g)))"
proof (cases "no_dup (g_inputs g) {}")
  case None
  then have "\<not> distinct (g_inputs g)" by (simp add: no_dup_None)
  then show ?thesis by (simp add: verifyNoDuplicatedOutputs_def None)
next
  case (Some A)
  from no_dup_Some [THEN iffD1, OF Some] show ?thesis
    by (auto simp: verifyNoDuplicatedOutputs_def Some no_dup_nodes_iff)
qed

lemma inputs_ready_iff:
  "inputs_ready ns A \<longleftrightarrow>
   (\<forall>i < length ns. set (input_names (ns ! i)) \<subseteq> A \<union> set (concat (map output_names (take i ns))))"
proof (induction ns arbitrary: A)
  case (Cons n ns)
  have "(\<forall>i < length (n # ns). set (input_names ((n # ns) ! i)) \<subseteq> A \<union> set (concat (map output_names (take i (n # ns)))))
    \<longleftrightarrow> set (input_names n) \<subseteq> A \<and> (\<forall>i < length ns. set (input_names (ns ! i)) \<subseteq>
        A \<union> set (output_names n) \<union> set (concat (map output_names (take i ns))))"
    by (auto simp: All_less_Suc2)
  then show ?case by (auto simp: Cons.IH list_all_iff)
qed simp

lemma inputs_ready_mono: "inputs_ready ns A \<Longrightarrow> A \<subseteq> B \<Longrightarrow> inputs_ready ns B"
  unfolding inputs_ready_iff by blast

lemma inputs_ready_append:
  "inputs_ready (ns @ ms) A \<longleftrightarrow> inputs_ready ns A \<and> inputs_ready ms (A \<union> set (concat (map output_names ns)))"
  by (induction ns arbitrary: A) (auto simp: Un_assoc)

subsection \<open>Removing unused nodes\<close>

text \<open>The nodes of a graph have ids of their own; the name generator makes clashes improbable.\<close>

definition ids_distinct :: "IRNode list \<Rightarrow> bool" where
  "ids_distinct ns \<longleftrightarrow> distinct (map n_id ns)"

lemma drop_unused_eq:
  assumes "ids_distinct (nodes g)"
  shows "drop_unused g = filter (\<lambda>n. set (output_names n) \<subseteq> ref_names (nodes g) (g_outputs g)) (nodes g)"
proof -
  let ?U = "\<lambda>n. \<exists>out \<in> set (output_names n). out \<notin> ref_names (nodes g) (g_outputs g)"
  have "n_id n \<in> set (map n_id (filter ?U (nodes g))) \<longleftrightarrow> ?U n" if "n \<in> set (nodes g)" for n
    using assms that unfolding ids_distinct_def by (auto simp: distinct_map inj_on_def)
  then have "filter (\<lambda>n. n_id n \<notin> set (map n_id (filter ?U (nodes g)))) (nodes g) = filter (\<lambda>n. \<not> ?U n) (nodes g)"
    by (intro filter_cong) auto
  then show ?thesis
    unfolding drop_unused_def detectUnusedNodes_def Let_def by (simp add: subset_eq)
qed

lemma checkReplicable_cong:
  "checkReplicable g = Inr g' \<Longrightarrow> gvalues h = gvalues g \<Longrightarrow> g_inputs h = g_inputs g \<Longrightarrow> \<exists>h'. checkReplicable h = Inr h'"
proof -
  assume "checkReplicable g = Inr g'" and h: "gvalues h = gvalues g" "g_inputs h = g_inputs g"
  moreover have "getValue h = getValue g" by (rule ext) (simp add: getValue_def h)
  ultimately show ?thesis by (auto simp: checkReplicable_def rbind_eq_Inr)
qed

text \<open>The loop ends in a graph without unused nodes and keeps what every round keeps.\<close>

lemma remove_loop_invariant:
  assumes "remove_loop g k = Inr h" and "Q k"
    and "\<And>k k'. Q k \<Longrightarrow> mkIRGraph (g_name g) (drop_unused k) (gvalues g) (g_inputs g) (g_outputs g) = Inr k' \<Longrightarrow> Q k'"
  shows "Q h \<and> detectUnusedNodes h = []"
  using assms(1,2)
proof (induction "length (nodes k)" arbitrary: k rule: less_induct)
  case less
  show ?case
  proof (cases "detectUnusedNodes k = []")
    case True
    with less show ?thesis by (simp add: remove_loop.simps [of g k])
  next
    case False
    with less.prems(1) obtain k' where run: "remove_loop g k' = Inr h"
      and k': "mkIRGraph (g_name g) (drop_unused k) (gvalues g) (g_inputs g) (g_outputs g) = Inr k'"
      by (auto simp: remove_loop.simps [of g k] rbind_eq_Inr)
    from k' have "nodes k' = drop_unused k" by (simp add: mkIRGraph_Inr)
    then have "length (nodes k') < length (nodes k)" using drop_unused_shorter [OF False] by simp
    from less.hyps [OF this run] show ?thesis using assms(3) [OF less.prems(2) k'] by simp
  qed
qed

lemma remove_loop_total:
  assumes "mkIRGraph nm ns vals ins outs = Inr g0" and "gvalues g = vals" "g_inputs g = ins"
  shows "\<exists>h. remove_loop g k = Inr h"
proof (induction "length (nodes k)" arbitrary: k rule: less_induct)
  case less
  show ?case
  proof (cases "detectUnusedNodes k = []")
    case True
    then show ?thesis by (simp add: remove_loop.simps [of g k])
  next
    case False
    have "\<exists>k'. mkIRGraph (g_name g) (drop_unused k) (gvalues g) (g_inputs g) (g_outputs g) = Inr k'"
      using assms unfolding mkIRGraph_def by (auto intro: checkReplicable_cong)
    then obtain k' where k': "mkIRGraph (g_name g) (drop_unused k) (gvalues g) (g_inputs g) (g_outputs g) = Inr k'" by auto
    then have "nodes k' = drop_unused k" by (simp add: mkIRGraph_Inr)
    then have "length (nodes k') < length (nodes k)" using drop_unused_shorter [OF False] by simp
    from less [OF this] obtain h where "remove_loop g k' = Inr h" by auto
    with False k' show ?thesis by (simp add: remove_loop.simps [of g k])
  qed
qed

end
