(* ===== verification/IR_Semantics.thy ===== *)
theory IR_Semantics
  imports IR_Graph
begin

text \<open>
  The meaning of a graph, as the specification of the transformations: a node computes its outputs
  from the values of its inputs, \<open>sem name args j\<close> being the \<open>j\<close>-th output of the operator \<open>name\<close>
  (an arbitrary function, so that statements hold for every set of operators). The list of nodes is
  executed in order; execution is stuck at a node one of whose inputs has no value.
\<close>

type_synonym 'v env = "string \<Rightarrow> 'v option"
type_synonym 'v operators = "string \<Rightarrow> 'v list \<Rightarrow> nat \<Rightarrow> 'v"

definition node_results :: "'v operators \<Rightarrow> IRNode \<Rightarrow> 'v env \<Rightarrow> 'v env" where
  "node_results sem n env =
     map_of (zip (output_names n)
       (map (sem (n_name n) (map (\<lambda>i. the (env i)) (input_names n))) [0..<length (output_names n)]))"

definition exec_node :: "'v operators \<Rightarrow> IRNode \<Rightarrow> 'v env \<Rightarrow> 'v env option" where
  "exec_node sem n env =
     (if set (input_names n) \<subseteq> dom env then Some (env ++ node_results sem n env) else None)"

primrec run_nodes :: "'v operators \<Rightarrow> IRNode list \<Rightarrow> 'v env \<Rightarrow> 'v env option" where
  "run_nodes sem [] env = Some env"
| "run_nodes sem (n # ns) env = Option.bind (exec_node sem n env) (run_nodes sem ns)"

definition run_graph :: "'v operators \<Rightarrow> IRGraph \<Rightarrow> 'v env \<Rightarrow> 'v option list option" where
  "run_graph sem g env = map_option (\<lambda>e. map e (g_outputs g)) (run_nodes sem (nodes g) env)"

definition agree_on :: "string set \<Rightarrow> 'v env \<Rightarrow> 'v env \<Rightarrow> bool" where
  "agree_on R e f \<longleftrightarrow> (\<forall>x \<in> R. e x = f x)"

lemma agree_on_mono: "agree_on R e f \<Longrightarrow> S \<subseteq> R \<Longrightarrow> agree_on S e f"
  by (auto simp: agree_on_def)

lemma dom_node_results [simp]: "dom (node_results sem n env) = set (output_names n)"
  by (simp add: node_results_def)

lemma node_results_agree:
  "agree_on (set (input_names n)) e f \<Longrightarrow> node_results sem n e = node_results sem n f"
proof -
  assume "agree_on (set (input_names n)) e f"
  then have "map (\<lambda>i. the (e i)) (input_names n) = map (\<lambda>i. the (f i)) (input_names n)"
    by (simp add: agree_on_def)
  then show ?thesis by (simp only: node_results_def)
qed

lemma exec_node_dom: "exec_node sem n env = Some e \<Longrightarrow> dom e = dom env \<union> set (output_names n)"
proof -
  assume "exec_node sem n env = Some e"
  then have "e = env ++ node_results sem n env" by (simp add: exec_node_def split: if_splits)
  then show ?thesis by (simp add: Un_commute)
qed

lemma run_nodes_append: "run_nodes sem (ns @ ms) env = Option.bind (run_nodes sem ns env) (run_nodes sem ms)"
proof (induction ns arbitrary: env)
  case (Cons n ns)
  then show ?case by (cases "exec_node sem n env") simp_all
qed simp

lemma run_nodes_dom:
  "run_nodes sem ns env = Some e \<Longrightarrow> dom e = dom env \<union> set (concat (map output_names ns))"
proof (induction ns arbitrary: env)
  case (Cons n ns)
  then obtain e' where e': "exec_node sem n env = Some e'" "run_nodes sem ns e' = Some e"
    by (auto simp: bind_eq_Some_conv)
  from Cons.IH [OF e'(2)] exec_node_dom [OF e'(1)] show ?case by auto
qed simp

lemma run_nodes_defined: "run_nodes sem ns env \<noteq> None \<longleftrightarrow> inputs_ready ns (dom env)"
proof (induction ns arbitrary: env)
  case (Cons n ns)
  show ?case
  proof (cases "set (input_names n) \<subseteq> dom env")
    case True
    have "exec_node sem n env = Some (env ++ node_results sem n env)" using True by (simp add: exec_node_def)
    moreover have "dom (env ++ node_results sem n env) = dom env \<union> set (output_names n)" by auto
    ultimately show ?thesis using Cons.IH [of "env ++ node_results sem n env"] True
      by (auto simp: list_all_iff subset_iff)
  next
    case False
    then show ?thesis by (auto simp: exec_node_def list_all_iff)
  qed
qed simp

text \<open>
  Leaving out nodes whose results nobody reads: if every node either writes only names in \<open>R\<close> or
  none of them, and every input is in \<open>R\<close>, then the nodes of the first kind compute the same values on \<open>R\<close>.
\<close>

lemma run_nodes_filter:
  assumes "\<And>n. n \<in> set ns \<Longrightarrow> set (input_names n) \<subseteq> R"
    and "\<And>n. n \<in> set ns \<Longrightarrow> set (output_names n) \<subseteq> R \<or> set (output_names n) \<inter> R = {}"
    and "agree_on R env env'" and "run_nodes sem ns env = Some e"
  shows "\<exists>e'. run_nodes sem (filter (\<lambda>n. set (output_names n) \<subseteq> R) ns) env' = Some e' \<and> agree_on R e e'"
  using assms
proof (induction ns arbitrary: env env')
  case (Cons n ns)
  then obtain e1 where e1: "exec_node sem n env = Some e1" "run_nodes sem ns e1 = Some e"
    by (auto simp: bind_eq_Some_conv)
  then have e1_eq: "e1 = env ++ node_results sem n env" and sub: "set (input_names n) \<subseteq> dom env"
    by (auto simp: exec_node_def split: if_splits)
  have inR: "set (input_names n) \<subseteq> R" using Cons.prems(1) by simp
  have same: "node_results sem n env' = node_results sem n env"
    using agree_on_mono [OF Cons.prems(3) inR] node_results_agree by metis
  have sub': "set (input_names n) \<subseteq> dom env'"
    using sub inR Cons.prems(3) by (force simp: agree_on_def)
  show ?case
  proof (cases "set (output_names n) \<subseteq> R")
    case True
    have "agree_on R e1 (env' ++ node_results sem n env')"
      using Cons.prems(3) by (auto simp: agree_on_def e1_eq same map_add_def split: option.splits)
    from Cons.IH [OF _ _ this e1(2)] Cons.prems(1,2) True sub' show ?thesis
      by (auto simp: exec_node_def)
  next
    case False
    then have "set (output_names n) \<inter> R = {}" using Cons.prems(2) [of n] by simp
    then have "x \<in> R \<Longrightarrow> x \<notin> dom (node_results sem n env)" for x by auto
    then have "x \<in> R \<Longrightarrow> e1 x = env x" for x by (simp add: e1_eq map_add_dom_app_simps(3))
    then have "agree_on R e1 env'" using Cons.prems(3) by (simp add: agree_on_def)
    from Cons.IH [OF _ _ this e1(2)] Cons.prems(1,2) False show ?thesis by auto
  qed
qed (simp add: agree_on_def)

section \<open>Removing unused nodes\<close>

definition single_output :: "IRNode list \<Rightarrow> bool" where
  "single_output ns \<longleftrightarrow> (\<forall>n \<in> set ns. length (output_names n) = 1)"

lemma single_output_cases:
  "single_output ns \<Longrightarrow> n \<in> set ns \<Longrightarrow> set (output_names n) \<subseteq> R \<or> set (output_names n) \<inter> R = {}"
  by (auto simp: single_output_def length_Suc_conv dest!: bspec)

text \<open>What every round of \<open>removeUnusedNodes\<close> keeps of the original graph \<open>g\<close>.\<close>

definition removal_inv :: "'v operators \<Rightarrow> IRGraph \<Rightarrow> IRGraph \<Rightarrow> bool" where
  "removal_inv sem g k \<longleftrightarrow>
     g_outputs k = g_outputs g \<and> g_inputs k = g_inputs g \<and> gvalues k = gvalues g \<and>
     set (nodes k) \<subseteq> set (nodes g) \<and> ids_distinct (nodes k) \<and> single_output (nodes k) \<and> verifyNodeInputs k \<and>
     (\<forall>env e. run_nodes sem (nodes g) env = Some e \<longrightarrow>
        (\<exists>e'. run_nodes sem (nodes k) env = Some e' \<and> agree_on (getRequiredValues k) e e'))"

lemma filter_inputs_ready:
  assumes "inputs_ready ns A" and "\<And>n. n \<in> set ns \<Longrightarrow> set (input_names n) \<subseteq> R"
    and "\<And>n. n \<in> set ns \<Longrightarrow> set (output_names n) \<subseteq> R \<or> set (output_names n) \<inter> R = {}" and "A \<inter> R \<subseteq> B"
  shows "inputs_ready (filter (\<lambda>n. set (output_names n) \<subseteq> R) ns) B"
  using assms
proof (induction ns arbitrary: A B)
  case (Cons n ns)
  have ready: "inputs_ready ns (A \<union> set (output_names n))" and sub: "set (input_names n) \<subseteq> A"
    using Cons.prems(1) by (auto simp: list_all_iff split: if_splits)
  have B: "set (input_names n) \<subseteq> B" using sub Cons.prems(2) [of n] Cons.prems(4) by auto
  show ?case
  proof (cases "set (output_names n) \<subseteq> R")
    case True
    have "inputs_ready (filter (\<lambda>n. set (output_names n) \<subseteq> R) ns) (B \<union> set (output_names n))"
      by (rule Cons.IH [OF ready]) (use Cons.prems(2-4) in auto)
    with True B show ?thesis by (auto simp: list_all_iff)
  next
    case False
    have "inputs_ready (filter (\<lambda>n. set (output_names n) \<subseteq> R) ns) B"
      by (rule Cons.IH [OF ready]) (use Cons.prems(2-4) False in auto)
    with False show ?thesis by simp
  qed
qed simp

lemma ref_names_inputs: "n \<in> set ns \<Longrightarrow> set (input_names n) \<subseteq> ref_names ns outs"
  by (auto simp: ref_names_def)

lemma removal_inv_step:
  assumes inv: "removal_inv sem g k"
    and k': "mkIRGraph (g_name g) (drop_unused k) (gvalues g) (g_inputs g) (g_outputs g) = Inr k'"
  shows "removal_inv sem g k'"
proof -
  let ?R = "ref_names (nodes k) (g_outputs k)"
  note ins = ref_names_inputs [of _ "nodes k" "g_outputs k"]
  have so: "single_output (nodes k)" and ids: "ids_distinct (nodes k)" using inv by (simp_all add: removal_inv_def)
  note outs = single_output_cases [OF so]
  have ns: "nodes k' = filter (\<lambda>n. set (output_names n) \<subseteq> ?R) (nodes k)" and k'_eq: "g_outputs k' = g_outputs g"
    "g_inputs k' = g_inputs g" "gvalues k' = gvalues g"
    using mkIRGraph_Inr [OF k'] drop_unused_eq [OF ids] by simp_all
  have R': "getRequiredValues k' \<subseteq> ?R"
    using inv by (auto simp: getRequiredValues_def ref_names_def ns k'_eq removal_inv_def)
  have "inputs_ready (nodes k') (set (g_inputs k'))"
    unfolding ns by (rule filter_inputs_ready [OF _ ins outs])
      (use inv in \<open>auto simp: removal_inv_def verifyNodeInputs_def k'_eq\<close>)
  moreover have "\<exists>e''. run_nodes sem (nodes k') env = Some e'' \<and> agree_on (getRequiredValues k') e e''"
    if run: "run_nodes sem (nodes g) env = Some e" for env e
  proof -
    from inv have "\<forall>env e. run_nodes sem (nodes g) env = Some e \<longrightarrow>
        (\<exists>e'. run_nodes sem (nodes k) env = Some e' \<and> agree_on (getRequiredValues k) e e')"
      unfolding removal_inv_def by (elim conjE)
    with run obtain e' where e': "run_nodes sem (nodes k) env = Some e'" "agree_on (getRequiredValues k) e e'"
      by blast
    have "agree_on ?R env env" by (simp add: agree_on_def)
    from run_nodes_filter [OF ins outs this e'(1)] obtain e'' where
      "run_nodes sem (nodes k') env = Some e''" "agree_on ?R e' e''" by (auto simp: ns)
    moreover have "agree_on ?R e e'" using e'(2) by (simp add: getRequiredValues_def)
    ultimately show ?thesis using R' by (auto simp: agree_on_def subset_iff)
  qed
  moreover have "ids_distinct (nodes k')" "single_output (nodes k')" "set (nodes k') \<subseteq> set (nodes g)"
    using inv by (auto simp: removal_inv_def ns ids_distinct_def single_output_def distinct_map_filter)
  ultimately show ?thesis by (simp add: removal_inv_def k'_eq verifyNodeInputs_def)
qed


lemma removeUnusedNodes_result:
  assumes g: "values_ok g" "single_output (nodes g)" "ids_distinct (nodes g)" "verifyNodeInputs g"
  obtains k h where "removal_inv sem g k" "detectUnusedNodes k = []" "removeUnusedNodes g = Inr h"
    and "nodes h = nodes k" "g_outputs h = g_outputs g" "g_inputs h = filter (\<lambda>i. i \<in> getRequiredValues k) (g_inputs g)" "values_ok h"
proof -
  obtain g0 where ok: "mkIRGraph (g_name g) (nodes g) (gvalues g) (g_inputs g) (g_outputs g) = Inr g0"
    using g(1) mkIRGraph_total by (metis values_ok_def)
  obtain k where k: "remove_loop g g = Inr k" using remove_loop_total [OF ok refl refl] by blast
  have init: "removal_inv sem g g" using g by (auto simp: removal_inv_def agree_on_def)
  have "removal_inv sem g k \<and> detectUnusedNodes k = []"
    by (rule remove_loop_invariant [where Q = "removal_inv sem g", OF k init removal_inv_step])
  then have inv: "removal_inv sem g k" and none: "detectUnusedNodes k = []" by simp_all
  let ?req = "getRequiredValues k"
  let ?vals = "um_of (filter (\<lambda>(k, v). k \<in> ?req) (gvalues k))"
  have outs: "filter (\<lambda>i. i \<in> ?req) (g_outputs k) = g_outputs g"
    using inv by (auto simp: removal_inv_def getRequiredValues_def ref_names_def intro!: filter_True)
  have "distinct (map fst (filter (\<lambda>(k, v). k \<in> ?req) (gvalues k)))"
    using g(1) inv by (auto simp: removal_inv_def values_ok_def um_ok_def distinct_map_filter)
  then have vals: "?vals = filter (\<lambda>(k, v). k \<in> ?req) (gvalues k)" by (rule um_of_distinct)
  have "set (g_inputs k) \<subseteq> fst ` set (gvalues k)" using g(1) inv by (simp add: removal_inv_def values_ok_def)
  then have sub: "set (filter (\<lambda>i. i \<in> ?req) (g_inputs k)) \<subseteq> fst ` set ?vals" unfolding vals by force
  from mkIRGraph_total [OF this] obtain h where h: "mkIRGraph (g_name g) (nodes k) ?vals
      (filter (\<lambda>i. i \<in> ?req) (g_inputs k)) (filter (\<lambda>i. i \<in> ?req) (g_outputs k)) = Inr h" by blast
  then have "removeUnusedNodes g = Inr h" by (simp add: removeUnusedNodes_def k Let_def)
  moreover have "nodes h = nodes k" "g_outputs h = g_outputs g"
    "g_inputs h = filter (\<lambda>i. i \<in> ?req) (g_inputs g)"
    using mkIRGraph_Inr [OF h] outs inv by (simp_all add: removal_inv_def)
  moreover have "values_ok h" using mkIRGraph_Inr [OF h] sub by (simp add: values_ok_def)
  ultimately show ?thesis using that inv none by blast
qed

lemma inputs_ready_relevant:
  assumes "inputs_ready ns A" "\<And>n. n \<in> set ns \<Longrightarrow> set (input_names n) \<subseteq> R"
  shows "inputs_ready ns (A \<inter> R)"
  using assms
proof (induction ns arbitrary: A)
  case (Cons n ns)
  have "inputs_ready ns ((A \<union> set (output_names n)) \<inter> R)"
    using Cons.IH Cons.prems by (auto split: if_splits)
  then have "inputs_ready ns (A \<inter> R \<union> set (output_names n))" by (rule inputs_ready_mono) auto
  then show ?case using Cons.prems by (auto simp: list_all_iff split: if_splits)
qed simp

section \<open>Graphs in good order\<close>

text \<open>
  The invariant of the graphs the partitioner works on: the inputs have values, the nodes have one
  output and an id each, every node can be executed, and the graph outputs are computed or passed on.
\<close>

definition outputs_defined :: "IRGraph \<Rightarrow> bool" where
  "outputs_defined g \<longleftrightarrow> set (g_outputs g) \<subseteq> set (g_inputs g) \<union> set (concat (map output_names (nodes g)))"

definition graph_inv :: "IRGraph \<Rightarrow> bool" where
  "graph_inv g \<longleftrightarrow> values_ok g \<and> single_output (nodes g) \<and> ids_distinct (nodes g) \<and>
     verifyNodeInputs g \<and> outputs_defined g"

text \<open>A valuation that satisfies a node, and environments that are part of a valuation.\<close>

definition satisfies :: "'v operators \<Rightarrow> (string \<Rightarrow> 'v) \<Rightarrow> IRNode \<Rightarrow> bool" where
  "satisfies sem eps n \<longleftrightarrow>
     (\<forall>j < length (output_names n). eps (output_names n ! j) = sem (n_name n) (map eps (input_names n)) j)"

definition part_of :: "'v env \<Rightarrow> (string \<Rightarrow> 'v) \<Rightarrow> bool" where
  "part_of env eps \<longleftrightarrow> (\<forall>x v. env x = Some v \<longrightarrow> v = eps x)"

lemma part_of_exec:
  assumes "satisfies sem eps n" "part_of env eps" "exec_node sem n env = Some e"
  shows "part_of e eps"
proof -
  from assms(3) have e: "e = env ++ node_results sem n env" and sub: "set (input_names n) \<subseteq> dom env"
    by (simp_all add: exec_node_def split: if_splits)
  have args: "map (\<lambda>i. the (env i)) (input_names n) = map eps (input_names n)"
    using sub assms(2) by (force simp: part_of_def)
  have "v = eps x" if "node_results sem n env x = Some v" for x v
  proof -
    have "(x, v) \<in> set (zip (output_names n) (map (sem (n_name n) (map eps (input_names n))) [0..<length (output_names n)]))"
      using that unfolding node_results_def args by (rule map_of_SomeD)
    then obtain j where "j < length (output_names n)" "x = output_names n ! j"
      "v = sem (n_name n) (map eps (input_names n)) j" by (auto simp: set_zip)
    with assms(1) show ?thesis by (simp add: satisfies_def)
  qed
  with assms(2) show ?thesis by (auto simp: part_of_def e map_add_Some_iff)
qed

lemma part_of_run:
  "\<forall>n \<in> set ns. satisfies sem eps n \<Longrightarrow> part_of env eps \<Longrightarrow> run_nodes sem ns env = Some e \<Longrightarrow> part_of e eps"
proof (induction ns arbitrary: env)
  case (Cons n ns)
  then obtain e1 where "exec_node sem n env = Some e1" "run_nodes sem ns e1 = Some e"
    by (auto simp: bind_eq_Some_conv)
  then show ?case using Cons part_of_exec by (metis list.set_intros(1,2))
qed simp

lemma graph_meaning:
  assumes g: "graph_inv g" and sat: "\<forall>n \<in> set (nodes g). satisfies sem eps n"
    and env: "part_of env eps" "set (g_inputs g) \<subseteq> dom env"
  shows "run_graph sem g env = Some (map (\<lambda>x. Some (eps x)) (g_outputs g))"
proof -
  have "inputs_ready (nodes g) (dom env)"
    using g env(2) by (auto simp: graph_inv_def verifyNodeInputs_def intro: inputs_ready_mono)
  then obtain e where e: "run_nodes sem (nodes g) env = Some e" using run_nodes_defined by blast
  have "part_of e eps" by (rule part_of_run [OF sat env(1) e])
  moreover have "x \<in> dom e" if "x \<in> set (g_outputs g)" for x
    using that run_nodes_dom [OF e] g env(2) by (auto simp: graph_inv_def outputs_defined_def)
  ultimately have "map e (g_outputs g) = map (\<lambda>x. Some (eps x)) (g_outputs g)"
    by (force simp: part_of_def)
  with e show ?thesis by (simp add: run_graph_def)
qed

text \<open>What \<open>removeUnusedNodes\<close> does to a graph in good order.\<close>

lemma removeUnusedNodes_correct_aux:
  assumes "values_ok g" "single_output (nodes g)" "ids_distinct (nodes g)" "verifyNodeInputs g"
  obtains h where "removeUnusedNodes g = Inr h" "noUnusedValue h" "verifyNodeInputs h" "values_ok h"
    and "g_outputs h = g_outputs g" "set (nodes h) \<subseteq> set (nodes g)" "set (g_inputs h) \<subseteq> set (g_inputs g)"
    and "single_output (nodes h)" "ids_distinct (nodes h)"
    and "outputs_defined g \<Longrightarrow> outputs_defined h"
    and "\<And>env. dom env = set (g_inputs g) \<Longrightarrow> run_graph sem h env = run_graph sem g env"
proof -
  obtain k h where inv: "removal_inv sem g k" and none: "detectUnusedNodes k = []"
    and h: "removeUnusedNodes g = Inr h" "nodes h = nodes k" "g_outputs h = g_outputs g"
      "g_inputs h = filter (\<lambda>i. i \<in> getRequiredValues k) (g_inputs g)" "values_ok h"
    by (rule removeUnusedNodes_result [OF assms, of sem])
  have k: "g_outputs k = g_outputs g" "g_inputs k = g_inputs g" "verifyNodeInputs k"
    "set (nodes k) \<subseteq> set (nodes g)" "single_output (nodes k)" "ids_distinct (nodes k)"
    using inv by (simp_all add: removal_inv_def)
  have refs: "getRequiredValues h = getRequiredValues k" by (simp add: getRequiredValues_def h k)
  have unused: "noUnusedValue h"
    using none by (auto simp: noUnusedValue_def findUnusedValue_def detectUnusedNodes_def Let_def h k
        filter_empty_conv getRequiredValues_def)
  have ready: "verifyNodeInputs h"
  proof -
    have "inputs_ready (nodes k) (set (g_inputs g) \<inter> getRequiredValues k)"
      using k(2,3) by (intro inputs_ready_relevant)
        (auto simp: verifyNodeInputs_def getRequiredValues_def dest: ref_names_inputs)
    moreover have "set (g_inputs g) \<inter> getRequiredValues k = set (g_inputs h)" by (auto simp: h)
    ultimately show ?thesis by (simp add: verifyNodeInputs_def h(2))
  qed
  have sim: "\<exists>e e'. run_nodes sem (nodes g) env = Some e \<and> run_nodes sem (nodes k) env = Some e' \<and>
      map e' (g_outputs g) = map e (g_outputs g)" if dom: "dom env = set (g_inputs g)" for env
  proof -
    obtain e where e: "run_nodes sem (nodes g) env = Some e"
      using run_nodes_defined [of sem "nodes g" env] assms(4) dom by (auto simp: verifyNodeInputs_def)
    have "\<forall>env e. run_nodes sem (nodes g) env = Some e \<longrightarrow>
        (\<exists>e'. run_nodes sem (nodes k) env = Some e' \<and> agree_on (getRequiredValues k) e e')"
      using inv unfolding removal_inv_def by (elim conjE)
    with e obtain e' where e': "run_nodes sem (nodes k) env = Some e'" "agree_on (getRequiredValues k) e e'" by blast
    have "map e' (g_outputs g) = map e (g_outputs g)"
      using e'(2) k(1) by (auto simp: agree_on_def getRequiredValues_def ref_names_def)
    with e e' show ?thesis by blast
  qed
  have run: "run_graph sem h env = run_graph sem g env" if dom: "dom env = set (g_inputs g)" for env
    using sim [OF dom] h(2,3) by (auto simp: run_graph_def)
  have defined: "outputs_defined h" if g: "outputs_defined g"
  proof -
    let ?env = "\<lambda>x. if x \<in> set (g_inputs g) then Some undefined else None"
    have dom: "dom ?env = set (g_inputs g)" by (auto split: if_splits)
    from sim [OF this] obtain e e' where e: "run_nodes sem (nodes g) ?env = Some e"
      "run_nodes sem (nodes k) ?env = Some e'" "map e' (g_outputs g) = map e (g_outputs g)" by blast
    have "x \<in> set (g_inputs h) \<union> set (concat (map output_names (nodes h)))" if x: "x \<in> set (g_outputs g)" for x
    proof -
      have "x \<in> dom e" using x g run_nodes_dom [OF e(1)] dom by (auto simp: outputs_defined_def)
      moreover have "e' x = e x" using x e(3) by simp
      ultimately have "x \<in> dom e'" by (simp add: domIff)
      then have "x \<in> set (g_inputs g) \<union> set (concat (map output_names (nodes k)))"
        using run_nodes_dom [OF e(2)] dom by metis
      then show ?thesis using x by (auto simp: h(2,4) getRequiredValues_def ref_names_def k(1))
    qed
    then show ?thesis by (auto simp: outputs_defined_def h(3))
  qed
  show ?thesis
    using that [OF h(1) unused ready h(5,3) _ _ _ _ defined run] k(4-6) h(2,4) by auto
qed

section \<open>Properties\<close>

text \<open>
  \<open>verifyNodeInputs\<close> decides executability: with values for exactly the graph inputs, the nodes
  run to the end in their order, whatever the operators compute, if and only if the check succeeds.
\<close>

lemma verifyNodeInputs_executable:
  assumes "dom env = set (g_inputs g)"
  shows "verifyNodeInputs g = (run_nodes sem (nodes g) env \<noteq> None)"
  using run_nodes_defined [of sem "nodes g" env] assms by (simp add: verifyNodeInputs_def)

definition demo_node :: "string \<Rightarrow> string list \<Rightarrow> string list \<Rightarrow> IRNode" where
  "demo_node name ins outs = mkIRNode name name ins outs"

definition demo_graph :: "IRNode list \<Rightarrow> string list \<Rightarrow> string list \<Rightarrow> IRGraph" where
  "demo_graph ns ins outs =
     \<lparr>g_name = ''g'', nodes = ns,
      gvalues = map (\<lambda>i. (i, mkIRValue i createUnknownTensorType)) ins,
      g_inputs = ins, g_outputs = outs, is_replicable = False\<rparr>"

lemma verifyNodeInputs_executable_witness:
  "verifyNodeInputs (demo_graph [demo_node ''f'' [''x''] [''y''], demo_node ''g'' [''z''] [''w'']] [''x''] [''w'']) =
   (run_nodes (\<lambda>_ _ _. ()) [demo_node ''f'' [''x''] [''y''], demo_node ''g'' [''z''] [''w'']] [''x'' \<mapsto> ()] \<noteq> None)"
  using verifyNodeInputs_executable [of "[''x'' \<mapsto> ()]"
      "demo_graph [demo_node ''f'' [''x''] [''y''], demo_node ''g'' [''z''] [''w'']] [''x''] [''w'']"]
  by (simp add: demo_graph_def)

text \<open>
  C28. On an executable graph whose nodes have exactly one output each and different ids, \<open>removeUnusedNodes\<close> succeeds,
  leaves no unused value behind, keeps the graph executable and computes the same outputs for the same inputs. For nodes with
  several outputs this is false: \<open>removeUnusedNodes_drops_producer\<close> removes the producer of an output of the graph.
\<close>

theorem removeUnusedNodes_correct:
  assumes "values_ok g" "single_output (nodes g)" "ids_distinct (nodes g)" "verifyNodeInputs g"
    and "dom env = set (g_inputs g)"
  shows "\<exists>h. removeUnusedNodes g = Inr h \<and> noUnusedValue h \<and> verifyNodeInputs h \<and>
     run_graph sem h env = run_graph sem g env"
  by (rule removeUnusedNodes_correct_aux [OF assms(1-4), of sem]) (use assms(5) in blast)

theorem removeUnusedNodes_correct_witness:
  "\<exists>h. removeUnusedNodes (demo_graph [demo_node ''f'' [''x''] [''y''], demo_node ''g'' [''y''] [''z'']] [''x''] [''y'']) = Inr h \<and>
     noUnusedValue h \<and> verifyNodeInputs h \<and>
     run_graph (\<lambda>_ _ _. ()) h [''x'' \<mapsto> ()] =
       run_graph (\<lambda>_ _ _. ()) (demo_graph [demo_node ''f'' [''x''] [''y''], demo_node ''g'' [''y''] [''z'']] [''x''] [''y'']) [''x'' \<mapsto> ()]"
  by (rule removeUnusedNodes_correct)
    (simp_all add: demo_graph_def demo_node_def values_ok_def single_output_def ids_distinct_def mkIRNode_def
      verifyNodeInputs_def um_ok_def)

text \<open>
  A node with several outputs is dropped as soon as one of them is not read, although another
  one is an output of the graph: the resulting graph has lost the producer of its output.
\<close>

lemma removeUnusedNodes_drops_producer:
  "\<exists>h. removeUnusedNodes (demo_graph [demo_node ''max'' [''x''] [''v'', ''i'']] [''x''] [''v'']) = Inr h \<and>
     nodes h = [] \<and> g_outputs h = [''v''] \<and> run_graph sem h [''x'' \<mapsto> a] = Some [None] \<and>
     run_graph sem (demo_graph [demo_node ''max'' [''x''] [''v'', ''i'']] [''x''] [''v'']) [''x'' \<mapsto> a] =
       Some [Some (sem ''max'' [a] 0)]"
  by (simp add: removeUnusedNodes_def remove_loop.simps detectUnusedNodes_def drop_unused_def ref_names_def
      demo_graph_def demo_node_def mkIRNode_def mkIRGraph_def checkReplicable_def getRequiredValues_def
      run_graph_def exec_node_def node_results_def getValue_def um_contains_def um_at_def mkIRValue_def Let_def
      um_of_def upt_rec)

end
