(* ===== verification/Partition.thy ===== *)
theory Partition
  imports IR_Semantics
begin

text \<open>
  The records that the components exchange (\<open>graph/Decomposition.h\<close>): the connections between
  subgraphs and the partition of a graph. A vertex of a \<open>boost::adjacency_list\<close> with \<open>vecS\<close> vertices
  is its index; such a graph is the list of its vertex properties and the list of its edges in
  insertion order. The algorithms of Boost that the code calls are parameters, with the documented
  behaviour stated by the predicates of this theory.
\<close>

record GraphConnection =
  con_value :: string
  con_src :: string
  con_dest :: string
  con_id :: string
  con_targetId :: string

definition MASTER_NAME :: string where
  "MASTER_NAME = ''MASTER''"

record Partition =
  p_id :: string
  p_graph :: IRGraph
  p_subgraphs :: "(string, IRGraph) umap"
  p_connections :: "GraphConnection list"
  p_order :: "string list"

record PartitionDP =
  dp_id :: string
  dp_graph :: IRGraph
  dp_subgraphs :: "(string, IRGraph) umap"
  dp_replica_nums :: "(string, int) umap"
  dp_connections :: "GraphConnection list"

definition PartitionDP_of :: "Partition \<Rightarrow> PartitionDP" where
  "PartitionDP_of p = \<lparr>dp_id = p_id p, dp_graph = p_graph p, dp_subgraphs = p_subgraphs p,
     dp_replica_nums = [], dp_connections = p_connections p\<rparr>"

section \<open>Directed graphs\<close>

record ('v, 'e) bgraph =
  verts :: "'v list"
  edges :: "(nat \<times> nat \<times> 'e) list"

definition empty_bgraph :: "('v, 'e) bgraph" where
  "empty_bgraph = \<lparr>verts = [], edges = []\<rparr>"

definition add_vertex :: "'v \<Rightarrow> ('v, 'e) bgraph \<Rightarrow> nat \<times> ('v, 'e) bgraph" where
  "add_vertex p g = (length (verts g), g\<lparr>verts := verts g @ [p]\<rparr>)"

definition add_edge :: "nat \<Rightarrow> nat \<Rightarrow> 'e \<Rightarrow> ('v, 'e) bgraph \<Rightarrow> ('v, 'e) bgraph" where
  "add_edge u v e g = g\<lparr>edges := edges g @ [(u, v, e)]\<rparr>"

definition remove_edge :: "nat \<Rightarrow> nat \<Rightarrow> ('v, 'e) bgraph \<Rightarrow> ('v, 'e) bgraph" where
  "remove_edge u v g = g\<lparr>edges := filter (\<lambda>(a, b, _). \<not> (a = u \<and> b = v)) (edges g)\<rparr>"

definition arcs :: "('v, 'e) bgraph \<Rightarrow> (nat \<times> nat) list" where
  "arcs g = map (\<lambda>(a, b, _). (a, b)) (edges g)"

definition all_nodes :: "('v, 'e) bgraph \<Rightarrow> nat list" where
  "all_nodes g = [0..<length (verts g)]"

definition source_nodes :: "nat \<Rightarrow> ('v, 'e) bgraph \<Rightarrow> nat list" where
  "source_nodes v g = map fst (filter (\<lambda>(a, b, _). b = v) (edges g))"

definition target_nodes :: "nat \<Rightarrow> ('v, 'e) bgraph \<Rightarrow> nat list" where
  "target_nodes v g = map (\<lambda>(a, b, _). b) (filter (\<lambda>(a, b, _). a = v) (edges g))"

definition bgraph_ok :: "('v, 'e) bgraph \<Rightarrow> bool" where
  "bgraph_ok g \<longleftrightarrow> (\<forall>(a, b) \<in> set (arcs g). a < length (verts g) \<and> b < length (verts g))"

text \<open>
  \<open>boost::topological_sort\<close> writes the vertices in reverse topological order and throws
  \<open>not_a_dag\<close> (a \<open>std::invalid_argument\<close>) on a cycle: for an edge \<open>(a, b)\<close>, \<open>a\<close> comes after \<open>b\<close>.
\<close>

type_synonym topo_sort = "nat \<Rightarrow> (nat \<times> nat) list \<Rightarrow> nat list res"

definition rev_topological :: "nat \<Rightarrow> (nat \<times> nat) list \<Rightarrow> nat list \<Rightarrow> bool" where
  "rev_topological n es vs \<longleftrightarrow>
     distinct vs \<and> set vs = {..<n} \<and>
     (\<forall>i < length vs. \<forall>j < length vs. (vs ! i, vs ! j) \<in> set es \<longrightarrow> j < i)"

definition topo_law :: "topo_sort \<Rightarrow> bool" where
  "topo_law topo \<longleftrightarrow>
     (\<forall>n es. set es \<subseteq> {..<n} \<times> {..<n} \<longrightarrow>
        (if acyclic (set es) then \<exists>vs. topo n es = Inr vs \<and> rev_topological n es vs
         else topo n es = Inl Invalid_argument))"

definition all_nodes_topo :: "topo_sort \<Rightarrow> ('v, 'e) bgraph \<Rightarrow> nat list res" where
  "all_nodes_topo topo g = rbind (topo (length (verts g)) (arcs g)) (\<lambda>rev_topo_vertices. Inr (rev rev_topo_vertices))"

text \<open>\<open>boost::is_reachable\<close> on the arcs of a graph.\<close>

type_synonym reachability = "(nat \<times> nat) list \<Rightarrow> nat \<Rightarrow> nat \<Rightarrow> bool"

definition reach_law :: "reachability \<Rightarrow> bool" where
  "reach_law reach \<longleftrightarrow> (\<forall>es a b. reach es a b = ((a, b) \<in> (set es)\<^sup>*))"

lemma arcs_iff: "(a, b) \<in> set (arcs g) \<longleftrightarrow> (\<exists>e. (a, b, e) \<in> set (edges g))"
  by (force simp: arcs_def)

lemma arcs_simps [simp]:
  "arcs empty_bgraph = []"
  "arcs (add_edge u v e g) = arcs g @ [(u, v)]"
  "arcs (snd (add_vertex p g)) = arcs g"
  by (simp_all add: arcs_def empty_bgraph_def add_edge_def add_vertex_def)

lemma arcs_remove_edge [simp]: "set (arcs (remove_edge u v g)) = set (arcs g) - {(u, v)}"
proof (rule set_eqI, clarify)
  fix a b
  show "(a, b) \<in> set (arcs (remove_edge u v g)) \<longleftrightarrow> (a, b) \<in> set (arcs g) - {(u, v)}"
    by (auto simp: arcs_iff remove_edge_def)
qed

lemma topological_order:
  assumes law: "topo_law topo" and ok: "bgraph_ok g" and run: "all_nodes_topo topo g = Inr vs"
  shows "distinct vs \<and> set vs = {..<length (verts g)} \<and> acyclic (set (arcs g)) \<and>
    (\<forall>i < length vs. \<forall>j < length vs. (vs ! i, vs ! j) \<in> set (arcs g) \<longrightarrow> i < j)"
proof -
  let ?n = "length (verts g)"
  have sub: "set (arcs g) \<subseteq> {..<?n} \<times> {..<?n}" using ok by (auto simp: bgraph_ok_def)
  have acyc: "acyclic (set (arcs g))"
  proof (rule ccontr)
    assume "\<not> acyclic (set (arcs g))"
    with law sub have "topo ?n (arcs g) = Inl Invalid_argument" by (simp add: topo_law_def)
    with run show False by (simp add: all_nodes_topo_def)
  qed
  have "\<exists>vs. topo ?n (arcs g) = Inr vs \<and> rev_topological ?n (arcs g) vs"
    using law [unfolded topo_law_def, rule_format, OF sub] acyc by simp
  then obtain ws where ws: "topo ?n (arcs g) = Inr ws" "rev_topological ?n (arcs g) ws" by blast
  then have vs: "vs = rev ws" using run by (simp add: all_nodes_topo_def)
  have "i < j" if "i < length vs" "j < length vs" "(vs ! i, vs ! j) \<in> set (arcs g)" for i j
  proof -
    have "(ws ! (length ws - Suc i), ws ! (length ws - Suc j)) \<in> set (arcs g)"
      using that by (simp add: vs rev_nth)
    then have "length ws - Suc j < length ws - Suc i"
      using ws(2) that by (simp add: rev_topological_def vs)
    then show ?thesis using that by (simp add: vs)
  qed
  with ws(2) acyc show ?thesis by (simp add: rev_topological_def vs)
qed

end
