(* ===== verification/Replication.thy ===== *)
theory Replication
  imports Partition
begin

text \<open>
  Data-parallel replicas of subgraphs (\<open>graph/Decomposition.cpp\<close>): the type of a value on one rank when
  its batch is dealt out, the graph of one replica, and the replication of the subgraphs of a partition.
  A set of ranks is a set; the order in which the code walks through it does not matter for the result.
\<close>

section \<open>The type on one rank\<close>

definition getDistTensorType :: "IRType \<Rightarrow> int set \<Rightarrow> int \<Rightarrow> (int, IRType) umap res" where
  "getDistTensorType type ranks batch_size =
     rbind (calcDistBatchDims batch_size (tensor_dim type) ranks 0) (\<lambda>dp_dim.
     rbind (rmap (\<lambda>r. rbind (um_at dp_dim r) (\<lambda>d.
              Inr (r, createTensorType (tensor_elem_type type) d (requires_grad type)))) (sorted_list_of_set ranks)) (\<lambda>kvs.
     Inr (um_of kvs)))"

text \<open>The switch has no case for a function, so it falls off the end.\<close>

fun getDistType :: "IRType \<Rightarrow> int set \<Rightarrow> int \<Rightarrow> int \<Rightarrow> IRType res" where
  "getDistType (IRType b s d e g l cs n f) ranks batch_size rank =
     (let type = IRType b s d e g l cs n f in
      case b of
        BT_SCALAR \<Rightarrow> Inr type
      | BT_TENSOR \<Rightarrow> if d = [] then Inr type
                     else rbind (getDistTensorType type ranks batch_size) (\<lambda>m. um_at m rank)
      | BT_LIST \<Rightarrow>
          if l = LT_TENSOR
          then rbind (rmap (\<lambda>i. rbind (vec_at cs i) (\<lambda>t. rbind (getDistTensorType t ranks batch_size) (\<lambda>m. um_at m rank)))
                        [0..<unat n]) (\<lambda>ts. Inr (createTensorListType ts))
          else if l = LT_GENERIC
          then rbind (rmap (\<lambda>et. getDistType et ranks batch_size rank) cs) (\<lambda>ts. Inr (createListType ts))
          else Inr type
      | BT_TUPLE \<Rightarrow> rbind (rmap (\<lambda>et. getDistType et ranks batch_size rank) cs) (\<lambda>ts. Inr (createTupleType ts))
      | BT_STRING \<Rightarrow> Inr type
      | BT_NONE \<Rightarrow> Inr type
      | BT_OPTIONAL \<Rightarrow> Inr type
      | BT_FUNCTION \<Rightarrow> Inl Undefined_behaviour)"

section \<open>The graph of one replica\<close>

definition scale_value :: "int \<Rightarrow> int \<Rightarrow> int \<Rightarrow> IRValue \<Rightarrow> IRValue res" where
  "scale_value num index batch_size v =
     (if is_batch v
      then rbind (getDistType (v_type v) {0..<num} batch_size index) (\<lambda>dp_type.
           Inr ((mkIRValue (v_name v) dp_type)\<lparr>is_batch := True\<rparr>))
      else Inr v)"

definition scaleGraph :: "IRGraph \<Rightarrow> string \<Rightarrow> int \<Rightarrow> int \<Rightarrow> int \<Rightarrow> IRGraph res" where
  "scaleGraph g name num index batch_size =
     rbind (rmap (\<lambda>(k, v). rbind (scale_value num index batch_size v) (\<lambda>v'. Inr (k, v'))) (gvalues g)) (\<lambda>kvs.
     mkIRGraph name (nodes g) (um_of kvs) (g_inputs g) (g_outputs g))"

definition scaleGraph_dev :: "IRGraph \<Rightarrow> int \<Rightarrow> int \<Rightarrow> IRGraph res" where
  "scaleGraph_dev g num batch_size = scaleGraph g (g_name g @ ''_dev_'' @ int_str num) num 0 batch_size"

definition setReplicable :: "bool \<Rightarrow> IRGraph \<Rightarrow> IRGraph" where
  "setReplicable r g = g\<lparr>is_replicable := r\<rparr>"

definition replicateGraph :: "IRGraph \<Rightarrow> int \<Rightarrow> int \<Rightarrow> IRGraph list res" where
  "replicateGraph g num batch_size =
     rmap (\<lambda>i. rbind (scaleGraph g (g_name g @ ''_dp'' @ int_str (int i)) num (int i) batch_size) (\<lambda>replica.
       Inr (setReplicable (is_replicable g) replica))) [0..<nat num]"

definition replicate_subgraph :: "int \<Rightarrow> string \<times> int \<Rightarrow> PartitionDP \<Rightarrow> PartitionDP res" where
  "replicate_subgraph batch_size = (\<lambda>(sg, repl_num) p.
     rbind (rassert (um_contains (dp_subgraphs p) sg)) (\<lambda>_.
     rbind (um_at (dp_subgraphs p) sg) (\<lambda>g.
     rbind (scaleGraph g (g_name g) (if repl_num > 1 \<and> \<not> is_replicable g then 1 else repl_num) 0 batch_size) (\<lambda>replica.
     Inr (p\<lparr>dp_subgraphs := um_set sg (setReplicable (is_replicable g) replica) (dp_subgraphs p)\<rparr>)))))"

definition replicate_partition :: "PartitionDP \<Rightarrow> (string, int) umap \<Rightarrow> int \<Rightarrow> PartitionDP res" where
  "replicate_partition p repl_nums batch_size =
     rbind (rfold (replicate_subgraph batch_size) repl_nums p) (\<lambda>p'. Inr (p'\<lparr>dp_replica_nums := repl_nums\<rparr>))"

section \<open>The type keeps its kind\<close>

text \<open>Types that differ in the leading dimensions of their tensors only.\<close>

fun same_kind :: "IRType \<Rightarrow> IRType \<Rightarrow> bool" where
  "same_kind (IRType b s d e g l cs n f) (IRType b' s' d' e' g' l' cs' n' f') =
     (b = b' \<and>
      (case b of
         BT_SCALAR \<Rightarrow> s = s'
       | BT_TENSOR \<Rightarrow> e = e' \<and> g = g' \<and> length d = length d' \<and> tl d = tl d'
       | BT_LIST \<Rightarrow> l = l' \<and> n = n' \<and> list_all2 same_kind cs cs'
       | BT_FUNCTION \<Rightarrow> f = f'
       | _ \<Rightarrow> list_all2 same_kind cs cs'))"

lemma same_kind_refl [simp]: "same_kind t t"
proof (induction t)
  case (IRType b s d e g l cs n f)
  then show ?case by (cases b) (simp_all add: list_all2_same)
qed

text \<open>A list of tensors holds tensors with dimensions, and a list knows its length.\<close>

fun distributable :: "IRType \<Rightarrow> bool" where
  "distributable (IRType b s d e g l cs n f) =
     (case b of
        BT_LIST \<Rightarrow>
          if l = LT_TENSOR then n = of_nat (length cs) \<and> length cs < 2 ^ 64 \<and> list_all (\<lambda>t. base_type t = BT_TENSOR \<and> tensor_dim t \<noteq> []) cs
          else if l = LT_GENERIC then n = of_nat (length cs) \<and> list_all distributable cs
          else True
      | BT_TUPLE \<Rightarrow> list_all distributable cs
      | BT_FUNCTION \<Rightarrow> False
      | _ \<Rightarrow> True)"

lemma calcDistBatchDims_total:
  assumes "finite ranks" "ranks \<noteq> {}" "0 < b" "b < 2 ^ 63" "gd \<noteq> []"
  obtains sizes where "getSplitBatchSizes b ranks k = Inr sizes" and "is_batch_split b ranks sizes"
    and "calcDistBatchDims b gd ranks k = Inr (map (\<lambda>(r, s). (r, gd[0 := tdiv (gd ! 0 * s) b])) sizes)"
proof -
  obtain sizes where s: "getSplitBatchSizes b ranks k = Inr sizes" and sp: "is_batch_split b ranks sizes"
    using getSplitBatchSizes_split [of ranks b k] assms by auto
  have "distinct (map fst (map (\<lambda>(r, s). (r, gd[0 := tdiv (gd ! 0 * s) b])) sizes))"
    using sp by (simp add: is_batch_split_def um_ok_def comp_def case_prod_unfold)
  then have "calcDistBatchDims b gd ranks k = Inr (map (\<lambda>(r, s). (r, gd[0 := tdiv (gd ! 0 * s) b])) sizes)"
    using assms(3,5) by (simp add: calcDistBatchDims_def s um_of_distinct)
  then show ?thesis by (rule that [OF s sp])
qed

lemma split_share:
  assumes "is_batch_split b ranks sizes" "r \<in> ranks"
  shows "\<exists>s. um_get sizes r = Some s \<and> 0 \<le> s"
proof -
  obtain s where s: "(r, s) \<in> set sizes" using assms by (auto simp: is_batch_split_def)
  then have "um_get sizes r = Some s" using assms(1) by (simp add: is_batch_split_def um_ok_def)
  then show ?thesis using s assms(1) by (force simp: is_batch_split_def)
qed

lemma getDistTensorType_result:
  assumes "finite ranks" "ranks \<noteq> {}" "0 < b" "b < 2 ^ 63" "tensor_dim t \<noteq> []" "r \<in> ranks"
  obtains sizes m where "getSplitBatchSizes b ranks 0 = Inr sizes" and "is_batch_split b ranks sizes"
    and "getDistTensorType t ranks b = Inr m"
    and "um_at m r = Inr (createTensorType (tensor_elem_type t)
           ((tensor_dim t)[0 := tdiv (tensor_dim t ! 0 * the (um_get sizes r)) b]) (requires_grad t))"
proof -
  obtain sizes where s: "getSplitBatchSizes b ranks 0 = Inr sizes" "is_batch_split b ranks sizes"
    and d: "calcDistBatchDims b (tensor_dim t) ranks 0 =
      Inr (map (\<lambda>(r, s). (r, (tensor_dim t)[0 := tdiv (tensor_dim t ! 0 * s) b])) sizes)"
    by (rule calcDistBatchDims_total [OF assms(1-5)])
  let ?dim = "\<lambda>r. (tensor_dim t)[0 := tdiv (tensor_dim t ! 0 * the (um_get sizes r)) b]"
  let ?ty = "\<lambda>r. createTensorType (tensor_elem_type t) (?dim r) (requires_grad t)"
  have at: "um_at (map (\<lambda>(r, s). (r, (tensor_dim t)[0 := tdiv (tensor_dim t ! 0 * s) b])) sizes) r = Inr (?dim r)"
    if "r \<in> ranks" for r
    using split_share [OF s(2) that] by (auto simp: um_at_def map_of_map split: option.splits)
  have "rmap (\<lambda>r. rbind (um_at (map (\<lambda>(r, s). (r, (tensor_dim t)[0 := tdiv (tensor_dim t ! 0 * s) b])) sizes) r) (\<lambda>d.
           Inr (r, createTensorType (tensor_elem_type t) d (requires_grad t)))) (sorted_list_of_set ranks) =
        Inr (map (\<lambda>r. (r, ?ty r)) (sorted_list_of_set ranks))"
    using assms(1) by (intro rmap_Inr) (simp add: at)
  moreover have "um_of (map (\<lambda>r. (r, ?ty r)) (sorted_list_of_set ranks)) = map (\<lambda>r. (r, ?ty r)) (sorted_list_of_set ranks)"
    by (rule um_of_distinct) (simp add: comp_def)
  ultimately have m: "getDistTensorType t ranks b = Inr (map (\<lambda>r. (r, ?ty r)) (sorted_list_of_set ranks))"
    by (simp add: getDistTensorType_def d)
  have "um_at (map (\<lambda>r. (r, ?ty r)) (sorted_list_of_set ranks)) r = Inr (?ty r)"
    using assms(1,6) by (simp add: um_at_def map_of_map_restrict)
  with that s m show ?thesis by blast
qed

text \<open>What dealing out a batch of \<open>b\<close> samples makes of a type on a rank that gets \<open>k\<close> of them.\<close>

fun dealt :: "int \<Rightarrow> int \<Rightarrow> IRType \<Rightarrow> IRType" where
  "dealt b k (IRType bt s d e g l cs n f) =
     (case bt of
        BT_TENSOR \<Rightarrow> if d = [] then IRType bt s d e g l cs n f else createTensorType e (d[0 := tdiv (d ! 0 * k) b]) g
      | BT_LIST \<Rightarrow>
          if l = LT_TENSOR then createTensorListType (map (dealt b k) cs)
          else if l = LT_GENERIC then createListType (map (dealt b k) cs)
          else IRType bt s d e g l cs n f
      | BT_TUPLE \<Rightarrow> createTupleType (map (dealt b k) cs)
      | _ \<Rightarrow> IRType bt s d e g l cs n f)"

lemma dealt_tensor:
  "base_type t = BT_TENSOR \<Longrightarrow> tensor_dim t \<noteq> [] \<Longrightarrow>
   dealt b k t = createTensorType (tensor_elem_type t) ((tensor_dim t)[0 := tdiv (tensor_dim t ! 0 * k) b]) (requires_grad t)"
  by (cases t) simp

lemma getDistType_dealt:
  assumes "finite ranks" "ranks \<noteq> {}" "0 < b" "b < 2 ^ 63" "r \<in> ranks"
  obtains sizes where "getSplitBatchSizes b ranks 0 = Inr sizes" "is_batch_split b ranks sizes"
    and "\<And>t. distributable t \<Longrightarrow> getDistType t ranks b r = Inr (dealt b (the (um_get sizes r)) t)"
proof -
  obtain sizes where sizes: "getSplitBatchSizes b ranks 0 = Inr sizes" "is_batch_split b ranks sizes"
    using getSplitBatchSizes_split [of ranks b 0] assms by auto
  let ?k = "the (um_get sizes r)"
  have tensor: "\<exists>m. getDistTensorType t ranks b = Inr m \<and> um_at m r = Inr (dealt b ?k t)"
    if "base_type t = BT_TENSOR" "tensor_dim t \<noteq> []" for t
    by (rule getDistTensorType_result [OF assms(1-4) that(2) assms(5)]) (use sizes(1) dealt_tensor [OF that] in auto)
  have "getDistType t ranks b r = Inr (dealt b ?k t)" if "distributable t" for t
    using that
  proof (induction t)
    case (IRType bt s d e g l cs n f)
    show ?case
    proof (cases bt)
      case BT_TENSOR
      with tensor [of "IRType bt s d e g l cs n f"] show ?thesis by auto
    next
      case BT_LIST
      consider "l = LT_TENSOR" | "l = LT_GENERIC" | "l \<noteq> LT_TENSOR" "l \<noteq> LT_GENERIC" by blast
      then show ?thesis
      proof cases
        case 1
        then have n: "unat n = length cs" and ts: "\<forall>t \<in> set cs. base_type t = BT_TENSOR \<and> tensor_dim t \<noteq> []"
          using IRType.prems BT_LIST by (simp_all add: list_all_iff unat_of_nat)
        have "rmap (\<lambda>i. rbind (vec_at cs i) (\<lambda>t. rbind (getDistTensorType t ranks b) (\<lambda>m. um_at m r))) [0..<length cs] =
            Inr (map (\<lambda>i. dealt b ?k (cs ! i)) [0..<length cs])"
        proof (rule rmap_Inr)
          fix i assume "i \<in> set [0..<length cs]"
          then have "i < length cs" by simp
          with tensor [of "cs ! i"] ts show "rbind (vec_at cs i) (\<lambda>t. rbind (getDistTensorType t ranks b) (\<lambda>m. um_at m r)) = Inr (dealt b ?k (cs ! i))"
            by (auto simp: vec_at_def)
        qed
        moreover have "map (\<lambda>i. dealt b ?k (cs ! i)) [0..<length cs] = map (dealt b ?k) cs" by (rule nth_equalityI) simp_all
        ultimately show ?thesis using BT_LIST 1 n by simp
      next
        case 2
        with IRType BT_LIST have "rmap (\<lambda>et. getDistType et ranks b r) cs = Inr (map (dealt b ?k) cs)"
          by (intro rmap_Inr) (simp add: list_all_iff)
        with BT_LIST 2 show ?thesis by simp
      qed (use BT_LIST in simp)
    next
      case BT_TUPLE
      with IRType have "rmap (\<lambda>et. getDistType et ranks b r) cs = Inr (map (dealt b ?k) cs)"
        by (intro rmap_Inr) (simp add: list_all_iff)
      with BT_TUPLE show ?thesis by simp
    qed (use IRType.prems in auto)
  qed
  with that sizes show ?thesis by blast
qed

lemma dealt_kind: "distributable t \<Longrightarrow> same_kind t (dealt b k t)"
proof (induction t)
  case (IRType bt s d e g l cs n f)
  have tensor: "same_kind t (dealt b k t)" if "base_type t = BT_TENSOR" for t
    using that by (cases t) (auto simp: createTensorType_def neq_Nil_conv)
  show ?case
  proof (cases bt)
    case BT_LIST
    with IRType tensor show ?thesis
      by (auto simp: createTensorListType_def createListType_def list_all_iff list_all2_conv_all_nth list_all2_same)
  next
    case BT_TUPLE
    with IRType show ?thesis by (auto simp: createTupleType_def list_all_iff list_all2_conv_all_nth)
  next
    case BT_TENSOR
    with tensor [of "IRType bt s d e g l cs n f"] show ?thesis by simp
  qed (use IRType.prems in \<open>auto simp: list_all2_same\<close>)
qed

section \<open>Replicas\<close>

lemma sum_um_values: "um_ok m \<Longrightarrow> sum_list (map snd m) = (\<Sum>k \<in> fst ` set m. the (um_get m k))" for m :: "('k \<times> int) list"
proof (induction m)
  case (Cons kv m)
  obtain k v where kv: "kv = (k, v)" by (cases kv)
  have k: "k \<notin> fst ` set m" "um_ok m" using Cons.prems by (simp_all add: um_ok_def kv)
  then have "(\<Sum>x \<in> fst ` set m. the (um_get (kv # m) x)) = (\<Sum>x \<in> fst ` set m. the (um_get m x))"
    by (intro sum.cong) (auto simp: kv)
  with k Cons.IH show ?case by (simp add: kv)
qed simp

definition replica_value :: "int \<Rightarrow> int \<Rightarrow> IRValue \<Rightarrow> IRValue" where
  "replica_value b k v = (if is_batch v then (mkIRValue (v_name v) (dealt b k (v_type v)))\<lparr>is_batch := True\<rparr> else v)"

text \<open>The replica of a graph whose batch is dealt out with a share of \<open>k\<close> samples.\<close>

definition replica_of :: "int \<Rightarrow> int \<Rightarrow> IRGraph \<Rightarrow> IRGraph \<Rightarrow> bool" where
  "replica_of b k g h \<longleftrightarrow> nodes h = nodes g \<and> g_inputs h = g_inputs g \<and> g_outputs h = g_outputs g \<and>
     gvalues h = map (\<lambda>(x, v). (x, replica_value b k v)) (gvalues g)"

definition replica_ready :: "IRGraph \<Rightarrow> bool" where
  "replica_ready g \<longleftrightarrow> um_ok (gvalues g) \<and> set (g_inputs g) \<subseteq> fst ` set (gvalues g) \<and>
     (\<forall>(x, v) \<in> set (gvalues g). is_batch v \<longrightarrow> distributable (v_type v))"

lemma scaleGraph_result:
  assumes g: "replica_ready g" and b: "0 < b" "b < 2 ^ 63" and i: "0 \<le> i" "i < num"
  obtains sizes where "getSplitBatchSizes b {0..<num} 0 = Inr sizes" "is_batch_split b {0..<num} sizes"
    and "\<And>name. \<exists>h. scaleGraph g name num i b = Inr h \<and> g_name h = name \<and> replica_of b (the (um_get sizes i)) g h"
proof -
  obtain sizes where sizes: "getSplitBatchSizes b {0..<num} 0 = Inr sizes" "is_batch_split b {0..<num} sizes"
    and ty: "\<And>t. distributable t \<Longrightarrow> getDistType t {0..<num} b i = Inr (dealt b (the (um_get sizes i)) t)"
    by (rule getDistType_dealt [of "{0..<num}" b i]) (use i b in auto)
  let ?vals = "map (\<lambda>(x, v). (x, replica_value b (the (um_get sizes i)) v)) (gvalues g)"
  have "rmap (\<lambda>(k, v). rbind (scale_value num i b v) (\<lambda>v'. Inr (k, v'))) (gvalues g) = Inr ?vals"
    using g ty by (intro rmap_Inr) (auto simp: scale_value_def replica_value_def replica_ready_def)
  moreover have "um_of ?vals = ?vals"
    using g by (intro um_of_distinct) (simp add: replica_ready_def um_ok_def comp_def case_prod_unfold)
  ultimately have run: "scaleGraph g name num i b = mkIRGraph name (nodes g) ?vals (g_inputs g) (g_outputs g)" for name
    by (simp add: scaleGraph_def)
  have "\<exists>h. scaleGraph g name num i b = Inr h \<and> g_name h = name \<and> replica_of b (the (um_get sizes i)) g h" for name
  proof -
    have "set (g_inputs g) \<subseteq> fst ` set ?vals" using g by (auto simp: replica_ready_def image_image case_prod_unfold)
    then obtain h where h: "mkIRGraph name (nodes g) ?vals (g_inputs g) (g_outputs g) = Inr h"
      using mkIRGraph_total [of "g_inputs g" ?vals] by blast
    with mkIRGraph_Inr [OF h] show ?thesis by (auto simp: run replica_of_def)
  qed
  with that sizes show ?thesis by blast
qed

lemma replicateGraph_result:
  assumes g: "replica_ready g" and b: "0 < b" "b < 2 ^ 63" and n: "0 < num"
  obtains sizes hs where "is_batch_split b {0..<num} sizes" "replicateGraph g num b = Inr hs" "length hs = nat num"
    and "\<And>i. i < nat num \<Longrightarrow> replica_of b (the (um_get sizes (int i))) g (hs ! i) \<and> is_replicable (hs ! i) = is_replicable g"
proof -
  obtain sizes where sizes: "getSplitBatchSizes b {0..<num} 0 = Inr sizes" "is_batch_split b {0..<num} sizes"
    using getSplitBatchSizes_split [of "{0..<num}" b 0] b n by auto
  have one: "\<exists>h. scaleGraph g name num (int i) b = Inr h \<and> replica_of b (the (um_get sizes (int i))) g h"
    if i: "i < nat num" for i name
  proof -
    have "0 \<le> int i" "int i < num" using i by simp_all
    then show ?thesis by (rule scaleGraph_result [OF g b]) (use sizes(1) in auto)
  qed
  let ?f = "\<lambda>i. rbind (scaleGraph g (g_name g @ ''_dp'' @ int_str (int i)) num (int i) b) (\<lambda>replica.
       Inr (setReplicable (is_replicable g) replica))"
  have "\<exists>hs. rmap ?f [0..<nat num] = Inr hs"
  proof (rule rmap_total)
    fix i assume "i \<in> set [0..<nat num]"
    then have "i < nat num" by simp
    from one [OF this] obtain h where "scaleGraph g (g_name g @ ''_dp'' @ int_str (int i)) num (int i) b = Inr h" by blast
    then show "\<exists>y. ?f i = Inr y" by simp
  qed
  then obtain hs where hs: "rmap ?f [0..<nat num] = Inr hs" by blast
  have "replica_of b (the (um_get sizes (int i))) g (hs ! i) \<and> is_replicable (hs ! i) = is_replicable g" if i: "i < nat num" for i
  proof -
    obtain h where h: "scaleGraph g (g_name g @ ''_dp'' @ int_str (int i)) num (int i) b = Inr h"
      "replica_of b (the (um_get sizes (int i))) g h" using one [OF i] by blast
    have "?f i = Inr (hs ! i)" using rmap_nth [OF hs, of i] i by simp
    with h(1) have "hs ! i = setReplicable (is_replicable g) h" by simp
    with h(2) show ?thesis by (simp add: replica_of_def setReplicable_def)
  qed
  moreover have "length hs = nat num" using rmap_length [OF hs] by simp
  ultimately show ?thesis using that sizes(2) hs unfolding replicateGraph_def by blast
qed

section \<open>Properties\<close>

text \<open>
  Dealing out a type is well typed: on a non-empty set of ranks, and for a type whose lists know their
  length and whose tensor lists hold tensors, \<open>getDistType\<close> returns on every rank, and its result
  differs from the type in the leading dimensions of its tensors only.
\<close>

lemma getDistType_keeps_kind:
  assumes "finite ranks" "rank \<in> ranks" "0 < b" "b < 2 ^ 63" "distributable t"
  shows "\<exists>u. getDistType t ranks b rank = Inr u \<and> same_kind t u"
proof -
  have "ranks \<noteq> {}" using assms(2) by blast
  then show ?thesis
    by (rule getDistType_dealt [OF assms(1) _ assms(3,4,2)]) (use assms(5) dealt_kind in blast)
qed

lemma getDistType_keeps_kind_witness:
  "\<exists>u. getDistType (createTupleType [createTensorType TE_FLOAT [8, 3] True, createScalarType ST_INT]) {0, 1, 2} 8 1 = Inr u \<and>
     same_kind (createTupleType [createTensorType TE_FLOAT [8, 3] True, createScalarType ST_INT]) u"
  by (rule getDistType_keeps_kind) (simp_all add: createTupleType_def createTensorType_def createScalarType_def)

text \<open>
  C33. Replication deals the batch out: \<open>replicateGraph\<close> returns one graph per replica with the operators,
  inputs and outputs of the original; the shares of the replicas add up to the batch size, no two
  differ by more than one, and in the \<open>i\<close>-th replica every value of the batch has its type cut to the
  \<open>i\<close>-th share while the other values are unchanged.
\<close>

theorem replicateGraph_deals_batch:
  assumes "replica_ready g" "0 < b" "b < 2 ^ 63" "0 < num"
  shows "\<exists>hs shares. replicateGraph g num b = Inr hs \<and> length hs = nat num \<and> (\<Sum>i<nat num. shares i) = b \<and>
     (\<forall>i < nat num. shares i \<in> {b div num, b div num + 1} \<and> nodes (hs ! i) = nodes g \<and>
        g_inputs (hs ! i) = g_inputs g \<and> g_outputs (hs ! i) = g_outputs g \<and> is_replicable (hs ! i) = is_replicable g \<and>
        gvalues (hs ! i) = map (\<lambda>(x, v). (x, replica_value b (shares i) v)) (gvalues g))"
proof -
  obtain sizes hs where sp: "is_batch_split b {0..<num} sizes" and hs: "replicateGraph g num b = Inr hs" "length hs = nat num"
    and each: "\<And>i. i < nat num \<Longrightarrow> replica_of b (the (um_get sizes (int i))) g (hs ! i) \<and> is_replicable (hs ! i) = is_replicable g"
    by (rule replicateGraph_result [OF assms]) blast
  let ?share = "\<lambda>i. the (um_get sizes (int i))"
  have ok: "um_ok sizes" "fst ` set sizes = {0..<num}" "sum_list (map snd sizes) = b" using sp by (simp_all add: is_batch_split_def)
  have "{0..<num} = int ` {..<nat num}" using assms(4) by (auto simp: image_iff intro!: bexI [of _ "nat _"])
  then have "(\<Sum>i<nat num. ?share i) = b"
    using sum_um_values [OF ok(1)] ok(2,3) by (simp add: sum.reindex)
  moreover have "?share i \<in> {b div num, b div num + 1}" if i: "i < nat num" for i
  proof -
    have "int i \<in> {0..<num}" using i by simp
    then obtain s where s: "um_get sizes (int i) = Some s" using split_share [OF sp] by blast
    then have "s \<in> snd ` set sizes" by (force dest: map_of_SomeD)
    with sp have "s \<in> {b div int (card {0..<num}), b div int (card {0..<num}) + 1}" unfolding is_batch_split_def by blast
    with s assms(4) show ?thesis by simp
  qed
  ultimately show ?thesis using hs each unfolding replica_of_def by (intro exI [of _ hs] exI [of _ ?share]) blast
qed

definition demo_batch :: IRGraph where
  "demo_batch = (demo_graph [demo_node ''f'' [''x''] [''y'']] [] [''y''])
     \<lparr>g_inputs := [''x''],
      gvalues := map (\<lambda>x. (x, (mkIRValue x (createTensorType TE_FLOAT [8, 3] True))\<lparr>is_batch := True\<rparr>)) [''x'', ''y'']\<rparr>"

theorem replicateGraph_deals_batch_witness:
  "\<exists>hs. replicateGraph demo_batch 3 8 = Inr hs \<and> length hs = 3 \<and> nodes (hs ! 2) = nodes demo_batch"
proof -
  have "replica_ready demo_batch"
    by (simp add: replica_ready_def demo_batch_def mkIRValue_def createTensorType_def um_ok_def)
  from replicateGraph_deals_batch [OF this, of 8 3] obtain hs where "replicateGraph demo_batch 3 8 = Inr hs" "length hs = nat 3"
    "\<forall>i < nat 3. nodes (hs ! i) = nodes demo_batch" by auto
  then show ?thesis by simp
qed

text \<open>
  A replication number that is ignored is recorded nevertheless: a graph without batch inputs is not
  replicable, so \<open>replicate\<close> makes a single replica of it, but the partition it returns still asks for two.
\<close>

lemma replicate_records_ignored_number:
  "map_sum id (\<lambda>p. (dp_replica_nums p, dp_subgraphs p))
     (replicate_partition \<lparr>dp_id = ''p'', dp_graph = demo_graph [] [] [],
        dp_subgraphs = [(''s'', demo_graph [demo_node ''f'' [''x''] [''y'']] [''x''] [''y''])], dp_replica_nums = [],
        dp_connections = []\<rparr> [(''s'', 2)] 8) =
   Inr ([(''s'', 2)], [(''s'', demo_graph [demo_node ''f'' [''x''] [''y'']] [''x''] [''y''])])"
  by code_simp

end
