(* ===== verification/Allocation.thy ===== *)
theory Allocation
  imports Replication "HOL-Library.Char_ord" "HOL-Library.List_Lexorder"
begin

text \<open>
  The assignment of subgraphs to devices (\<open>graph/Decomposition.cpp\<close>): the three searches that deal out
  whole devices, the one that wraps around, and the backtracking search under a memory limit. The order
  in which the code walks through a hash map is the order of its list; \<open>std::sort\<close>, which may order
  equal elements as it likes, is a stable sort here.
\<close>

type_synonym allocation = "(string, int set) umap"

section \<open>Dealing devices out\<close>

text \<open>\<open>ret[sg].insert(dev)\<close>\<close>

definition alloc_insert :: "string \<Rightarrow> int \<Rightarrow> allocation \<Rightarrow> allocation" where
  "alloc_insert sg dev ret = um_set sg (insert dev (um_ref {} ret sg)) ret"

text \<open>The loop body \<open>ret[sg].insert(dev_idx); dev_idx++\<close>.\<close>

definition take_device :: "string \<Rightarrow> allocation \<times> int \<Rightarrow> allocation \<times> int" where
  "take_device sg = (\<lambda>(ret, dev_idx). (alloc_insert sg dev_idx ret, dev_idx + 1))"

definition take_devices :: "string \<Rightarrow> int \<Rightarrow> allocation \<times> int \<Rightarrow> allocation \<times> int" where
  "take_devices sg num a = foldl (\<lambda>a _. take_device sg a) a [0..<nat num]"

definition searchAllocationFlat :: "PartitionDP \<Rightarrow> allocation res" where
  "searchAllocationFlat p =
     rbind (gcd_vec (um_values (dp_replica_nums p))) (\<lambda>common_repl_num.
     Inr (fst (foldl (\<lambda>a _. foldl (\<lambda>a (sg, n). take_devices sg (tdiv n common_repl_num) a) a (dp_replica_nums p))
            ([], 0) [0..<nat common_repl_num])))"

definition searchAllocationSimple :: "PartitionDP \<Rightarrow> allocation res" where
  "searchAllocationSimple p =
     (let gids = um_keys (dp_subgraphs p) True in
      rbind (rassert (length gids \<ge> 2 \<longrightarrow> (\<forall>g \<in> set gids. um_contains (dp_replica_nums p) g))) (\<lambda>_.
      let sorted_gid = sort_key (\<lambda>g. - um_ref 0 (dp_replica_nums p) g) gids in
      rbind (rfold (\<lambda>gid a. rbind (um_at (dp_replica_nums p) gid) (\<lambda>n. Inr (take_devices gid n a))) sorted_gid ([], 0)) (\<lambda>a.
      Inr (fst a))))"

type_synonym HGraph = "(IRGraph, unit) bgraph"

definition hgraph_nodes :: "PartitionDP \<Rightarrow> (string, nat) umap" where
  "hgraph_nodes p = um_of (map (\<lambda>(i, (_, g)). (g_name g, i)) (enumerate 0 (dp_subgraphs p)))"

definition toHGraph :: "PartitionDP \<Rightarrow> HGraph res" where
  "toHGraph p =
     rfold (\<lambda>con hg.
         rbind (rassert (um_contains (hgraph_nodes p) (con_src con))) (\<lambda>_.
         rbind (rassert (um_contains (hgraph_nodes p) (con_dest con))) (\<lambda>_.
         rbind (um_at (hgraph_nodes p) (con_src con)) (\<lambda>s.
         rbind (um_at (hgraph_nodes p) (con_dest con)) (\<lambda>t. Inr (add_edge s t () hg))))))
       (dp_connections p) \<lparr>verts = map snd (dp_subgraphs p), edges = []\<rparr>"

definition fit_step :: "PartitionDP \<Rightarrow> HGraph \<Rightarrow> nat \<Rightarrow> allocation \<times> int \<Rightarrow> (allocation \<times> int) res" where
  "fit_step p hg = (\<lambda>v (ret, graph_idx).
     let sg = verts hg ! v in
     rbind (rassert (um_contains (dp_replica_nums p) (g_name sg))) (\<lambda>_.
     rbind (um_at (dp_replica_nums p) (g_name sg)) (\<lambda>repl_num.
     Inr (foldl (\<lambda>ret i. alloc_insert (g_name sg) (int i * int (length (dp_subgraphs p)) + graph_idx) ret) ret [0..<nat repl_num],
          graph_idx + 1))))"

definition searchAllocationFitToDevice :: "topo_sort \<Rightarrow> PartitionDP \<Rightarrow> allocation res" where
  "searchAllocationFitToDevice topo p =
     rbind (toHGraph p) (\<lambda>hg. rbind (all_nodes_topo topo hg) (\<lambda>vs.
     rbind (rfold (fit_step p hg) vs ([], 0)) (\<lambda>a. Inr (fst a))))"

text \<open>
  The loop bound is the last number of the map, and -1, as \<open>size_t\<close>, when the map is empty; the counter
  is an \<open>int\<close>, so counting further than an \<open>int\<close> can is undefined.
\<close>

definition searchAllocation :: "PartitionDP \<Rightarrow> int \<Rightarrow> allocation res" where
  "searchAllocation p dev_count =
     (let repl_num = (if dp_replica_nums p = [] then - 1 else snd (last (dp_replica_nums p)));
          rounds = to_size repl_num;
          sgs = map fst (dp_subgraphs p)
      in if sgs = [] \<or> rounds = 0 then Inr []
         else if rounds * int (length sgs) > 2 ^ 31 - 1 \<or> dev_count = 0 then Inl Undefined_behaviour
         else Inr (fst (foldl (\<lambda>a _. foldl (\<lambda>(ret, i) sg. (alloc_insert sg (i mod dev_count) ret, i + 1)) a sgs)
                          ([], 0) [0..<nat rounds])))"

section \<open>Backtracking under a memory limit\<close>

definition isAllocFeasible :: "(int, size_t) umap \<Rightarrow> size_t \<Rightarrow> bool" where
  "isAllocFeasible alloc_mem dev_mem \<longleftrightarrow> (\<forall>(_, m) \<in> set alloc_mem. \<not> dev_mem < m)"

record AllocState =
  as_dev :: int
  as_alloc :: "(string, int) umap"
  as_mem :: "(int, size_t) umap"

definition getMaxAllocMem :: "AllocState \<Rightarrow> size_t" where
  "getMaxAllocMem s = foldl (\<lambda>m (_, x). if x > m then x else m) 0 (as_mem s)"

definition hasReplica :: "string \<Rightarrow> int \<Rightarrow> (string, string set) umap \<Rightarrow> (string, int) umap \<Rightarrow> bool" where
  "hasReplica sg_name dev replications alloc \<longleftrightarrow>
     (\<exists>(_, repl_set) \<in> set replications. sg_name \<in> repl_set \<and> (\<exists>(x, d) \<in> set alloc. x \<in> repl_set \<and> d = dev))"

definition place :: "string \<Rightarrow> (string, size_t) umap \<Rightarrow> (string, int) umap \<Rightarrow> (int, size_t) umap \<Rightarrow> int \<Rightarrow> AllocState res" where
  "place sg_name graph_sizes alloc alloc_mem dev =
     rbind (um_at graph_sizes sg_name) (\<lambda>sz.
     Inr \<lparr>as_dev = dev, as_alloc = um_set sg_name dev alloc, as_mem = um_set dev (um_ref 0 alloc_mem dev + sz) alloc_mem\<rparr>)"

function doSearchAllocation ::
    "string list \<Rightarrow> (string, string set) umap \<Rightarrow> (string, int) umap \<Rightarrow> (int, size_t) umap \<Rightarrow> (string, size_t) umap \<Rightarrow>
     int list \<Rightarrow> size_t \<Rightarrow> (string, int) umap res" where
  "doSearchAllocation sg_names replications alloc alloc_mem graph_sizes devices dev_mem =
     (if \<not> isAllocFeasible alloc_mem dev_mem then Inr []
      else if sg_names = [] then Inr alloc
      else rbind (rmap (place (last sg_names) graph_sizes alloc alloc_mem)
                    (filter (\<lambda>dev. \<not> hasReplica (last sg_names) dev replications alloc) devices)) (\<lambda>alloc_states.
           rfirst (\<lambda>st. doSearchAllocation (butlast sg_names) replications (as_alloc st) (as_mem st) graph_sizes devices dev_mem)
             (sort_key getMaxAllocMem alloc_states)))"
  by pat_completeness auto
termination by (relation "measure (\<lambda>(names, _). length names)") auto

declare doSearchAllocation.simps [simp del]

section \<open>Dealing devices to a list of names\<close>

definition deal :: "string list \<Rightarrow> allocation \<times> int \<Rightarrow> allocation \<times> int" where
  "deal names a = foldl (\<lambda>a sg. take_device sg a) a names"

lemma deal_append [simp]: "deal (xs @ ys) a = deal ys (deal xs a)"
  by (simp add: deal_def)

lemma deal_Nil [simp]: "deal [] a = a"
  by (simp add: deal_def)

lemma take_devices_deal: "take_devices sg num a = deal (replicate (nat num) sg) a"
proof -
  have "foldl (\<lambda>a _. take_device sg a) a (xs :: nat list) = deal (replicate (length xs) sg) a" for xs
    by (induction xs arbitrary: a) (simp_all add: deal_def)
  then show ?thesis by (simp add: take_devices_def)
qed

lemma fold_deal:
  assumes "\<And>x a. f x a = deal (names x) a"
  shows "foldl (\<lambda>a x. f x a) a xs = deal (concat (map names xs)) a"
  by (induction xs arbitrary: a) (simp_all add: assms)

lemma um_get_alloc_insert: "um_get (alloc_insert sg d ret) g = (if g = sg then Some (insert d (um_ref {} ret g)) else um_get ret g)"
  by (simp add: alloc_insert_def um_get_set)

lemma um_ok_alloc_insert [simp]: "um_ok ret \<Longrightarrow> um_ok (alloc_insert sg d ret)"
  by (simp add: alloc_insert_def)

text \<open>The positions at which a name stands in a list.\<close>

definition places :: "string \<Rightarrow> string list \<Rightarrow> int set" where
  "places g names = int ` {i. i < length names \<and> names ! i = g}"

lemma places_snoc: "places g (names @ [x]) = (if x = g then insert (int (length names)) (places g names) else places g names)"
  by (auto simp: places_def nth_append less_Suc_eq)

lemma places_empty_iff: "places g names = {} \<longleftrightarrow> g \<notin> set names"
  by (auto simp: places_def in_set_conv_nth)

lemma deal_result:
  "snd (deal names ([], 0)) = int (length names) \<and> um_ok (fst (deal names ([], 0))) \<and>
   (\<forall>g. um_get (fst (deal names ([], 0))) g = (if g \<in> set names then Some (places g names) else None))"
proof (induction names rule: rev_induct)
  case (snoc x names)
  obtain ret idx where r: "deal names ([], 0) = (ret, idx)" by (cases "deal names ([], 0)")
  have "deal (names @ [x]) ([], 0) = (alloc_insert x idx ret, idx + 1)"
    by (simp add: r) (simp add: deal_def take_device_def)
  with snoc r show ?case
    by (auto simp: um_get_alloc_insert um_ref_def places_snoc places_empty_iff [THEN iffD2])
qed simp

text \<open>
  What the searches promise: every subgraph gets as many devices as it has replicas, and no device is
  given to two subgraphs.
\<close>

definition dealt_out :: "(string, int) umap \<Rightarrow> allocation \<Rightarrow> bool" where
  "dealt_out repl a \<longleftrightarrow> um_ok a \<and> fst ` set a = fst ` set repl \<and>
     (\<forall>g n. um_get repl g = Some n \<longrightarrow> (\<exists>D. um_get a g = Some D \<and> finite D \<and> int (card D) = n)) \<and>
     (\<forall>g h D E. um_get a g = Some D \<and> um_get a h = Some E \<and> g \<noteq> h \<longrightarrow> D \<inter> E = {})"

definition all_devices :: "allocation \<Rightarrow> int set" where
  "all_devices a = \<Union> (snd ` set a)"

definition device_total :: "(string, int) umap \<Rightarrow> int" where
  "device_total repl = sum_list (map snd repl)"

lemma deal_dealt_out:
  assumes repl: "um_ok repl" "\<forall>n \<in> snd ` set repl. 0 < n"
    and names: "\<And>g. int (length (filter (\<lambda>x. x = g) names)) = um_ref 0 repl g"
  shows "dealt_out repl (fst (deal names ([], 0)))" "all_devices (fst (deal names ([], 0))) = {0..<int (length names)}"
proof -
  define a where "a = fst (deal names ([], 0))"
  have ok: "um_ok a" and get: "um_get a g = (if g \<in> set names then Some (places g names) else None)" for g
    using deal_result [of names] by (simp_all add: a_def)
  have num: "0 < n" "um_ref 0 repl g = n" if "um_get repl g = Some n" for g n
    using repl(2) that by (force simp: um_ref_def dest: map_of_SomeD)+
  have in_names: "g \<in> set names \<longleftrightarrow> um_get repl g \<noteq> None" for g
  proof -
    have "g \<in> set names \<longleftrightarrow> filter (\<lambda>x. x = g) names \<noteq> []" by (auto simp: filter_empty_conv)
    also have "\<dots> \<longleftrightarrow> um_ref 0 repl g \<noteq> 0" using names [of g] by (metis length_0_conv of_nat_0 of_nat_eq_0_iff)
    also have "\<dots> \<longleftrightarrow> um_get repl g \<noteq> None" using num by (cases "um_get repl g") (force simp: um_ref_def)+
    finally show ?thesis .
  qed
  have "fst ` set a = dom (um_get a)" "fst ` set repl = dom (um_get repl)" by (simp_all add: dom_map_of_conv_image_fst)
  moreover have "dom (um_get a) = dom (um_get repl)" using in_names by (auto simp: get dom_def)
  ultimately have keys: "fst ` set a = fst ` set repl" by simp
  have share: "\<exists>D. um_get a g = Some D \<and> finite D \<and> int (card D) = n" if g: "um_get repl g = Some n" for g n
  proof -
    have "card (places g names) = length (filter (\<lambda>x. x = g) names)"
      by (simp add: places_def card_image length_filter_conv_card)
    moreover have "um_get a g = Some (places g names)" using in_names [of g] g by (simp add: get)
    moreover have "finite (places g names)" by (simp add: places_def)
    ultimately show ?thesis using names [of g] num(2) [OF g] by simp
  qed
  have apart: "D \<inter> E = {}" if "um_get a g = Some D" "um_get a h = Some E" "g \<noteq> h" for g h D E
  proof -
    have "D = places g names" "E = places h names" using that(1,2) by (simp_all add: get split: if_splits)
    then show ?thesis using that(3) by (auto simp: places_def)
  qed
  have "dealt_out repl a" unfolding dealt_out_def
    by (intro conjI allI impI ok keys share, assumption, elim conjE, rule apart)
  moreover have "all_devices a = {0..<int (length names)}"
  proof -
    have "snd ` set a = ran (um_get a)" using ok by (simp add: um_ok_def ran_distinct)
    also have "ran (um_get a) = (\<lambda>g. places g names) ` set names"
      unfolding ran_def get by (auto split: if_splits)
    finally have "all_devices a = (\<Union>g \<in> set names. places g names)" by (simp add: all_devices_def)
    also have "\<dots> = int ` {..<length names}"
    proof (rule set_eqI, rule iffI)
      fix x assume "x \<in> int ` {..<length names}"
      then obtain i where "x = int i" "i < length names" by blast
      then show "x \<in> (\<Union>g \<in> set names. places g names)" by (auto simp: places_def intro!: bexI [of _ "names ! i"])
    qed (auto simp: places_def)
    also have "\<dots> = {0..<int (length names)}" by (simp add: lessThan_atLeast0 image_int_atLeastLessThan)
    finally show ?thesis .
  qed
  ultimately show "dealt_out repl (fst (deal names ([], 0)))" "all_devices (fst (deal names ([], 0))) = {0..<int (length names)}"
    by (simp_all add: a_def)
qed

section \<open>The interface of a device search\<close>

locale device_dealing =
  fixes search :: "PartitionDP \<Rightarrow> allocation res"
    and suited :: "PartitionDP \<Rightarrow> bool"
  assumes deals: "suited p \<Longrightarrow> \<exists>a. search p = Inr a \<and> dealt_out (dp_replica_nums p) a"
    and replica_map: "suited p \<Longrightarrow> um_ok (dp_replica_nums p)"
begin

lemma share_size:
  assumes "suited p" "search p = Inr a" "um_get (dp_replica_nums p) g = Some n"
  shows "\<exists>D. um_get a g = Some D \<and> finite D \<and> int (card D) = n"
  using deals [OF assms(1)] assms(2,3) by (auto simp: dealt_out_def)

lemma one_owner:
  assumes "suited p" "search p = Inr a" "um_get a g = Some D" "um_get a h = Some E" "r \<in> D" "r \<in> E"
  shows "g = h"
proof (rule ccontr)
  assume "g \<noteq> h"
  have "dealt_out (dp_replica_nums p) a" using deals [OF assms(1)] assms(2) by simp
  with assms(3,4) \<open>g \<noteq> h\<close> have "D \<inter> E = {}" unfolding dealt_out_def by blast
  with assms(5,6) show False by blast
qed

lemma device_count:
  assumes "suited p" "search p = Inr a"
  shows "int (card (all_devices a)) = device_total (dp_replica_nums p)"
proof -
  let ?repl = "dp_replica_nums p"
  have d: "dealt_out ?repl a" using deals [OF assms(1)] assms(2) by simp
  then have ok: "um_ok a" and keys: "fst ` set a = fst ` set ?repl" by (simp_all add: dealt_out_def)
  let ?D = "\<lambda>g. the (um_get a g)"
  have get: "um_get a g = Some (?D g)" if "g \<in> fst ` set a" for g
    using that by (metis map_of_eq_None_iff option.collapse)
  have card: "finite (?D g) \<and> int (card (?D g)) = the (um_get ?repl g)" if g: "g \<in> fst ` set a" for g
  proof -
    obtain n where n: "um_get ?repl g = Some n" using g keys by (metis map_of_eq_None_iff option.exhaust)
    show ?thesis using share_size [OF assms n] n by auto
  qed
  have "snd ` set a = ran (um_get a)" using ok by (simp add: um_ok_def ran_distinct)
  also have "\<dots> = ?D ` (fst ` set a)"
  proof -
    have "D \<in> ran (um_get a) \<longleftrightarrow> D \<in> ?D ` (fst ` set a)" for D
    proof
      assume "D \<in> ran (um_get a)"
      then obtain g where g: "um_get a g = Some D" by (auto simp: ran_def)
      then have "g \<in> fst ` set a" by (metis map_of_eq_None_iff option.distinct(1))
      with g show "D \<in> ?D ` (fst ` set a)" by force
    next
      assume "D \<in> ?D ` (fst ` set a)"
      then show "D \<in> ran (um_get a)" using get by (auto intro: ranI)
    qed
    then show ?thesis by blast
  qed
  finally have all: "all_devices a = (\<Union>g \<in> fst ` set a. ?D g)" by (simp add: all_devices_def)
  have "card (\<Union>g \<in> fst ` set a. ?D g) = (\<Sum>g \<in> fst ` set a. card (?D g))"
  proof (rule card_UN_disjoint)
    show "\<forall>g \<in> fst ` set a. \<forall>h \<in> fst ` set a. g \<noteq> h \<longrightarrow> ?D g \<inter> ?D h = {}"
      using d get unfolding dealt_out_def by blast
  qed (use card in auto)
  then have "int (card (all_devices a)) = (\<Sum>g \<in> fst ` set a. int (card (?D g)))" by (simp add: all)
  also have "\<dots> = (\<Sum>g \<in> fst ` set ?repl. the (um_get ?repl g))" by (rule sum.cong) (simp_all add: keys card [unfolded keys])
  also have "\<dots> = device_total ?repl"
    using sum_um_values [OF replica_map [OF assms(1)]] by (simp add: device_total_def)
  finally show ?thesis .
qed

end

text \<open>A search that uses the devices from 0 on without a gap.\<close>

locale packed_dealing = device_dealing +
  assumes packed: "suited p \<Longrightarrow> search p = Inr a \<Longrightarrow> \<exists>n. all_devices a = {0..<n}"
begin

lemma devices_used:
  assumes "suited p" "search p = Inr a"
  shows "all_devices a = {0..<device_total (dp_replica_nums p)}"
proof -
  obtain n where n: "all_devices a = {0..<n}" using packed [OF assms] by blast
  show ?thesis
  proof (cases "0 \<le> n")
    case True
    then show ?thesis using device_count [OF assms] by (simp add: n)
  next
    case False
    then show ?thesis using device_count [OF assms] by (simp add: n)
  qed
qed

lemma every_device_owned:
  assumes "suited p" "search p = Inr a" "0 \<le> r" "r < device_total (dp_replica_nums p)"
  shows "\<exists>!g. \<exists>D. um_get a g = Some D \<and> r \<in> D"
proof -
  have "dealt_out (dp_replica_nums p) a" using deals [OF assms(1)] assms(2) by auto
  then have ok: "um_ok a" by (simp add: dealt_out_def)
  have "r \<in> all_devices a" using devices_used [OF assms(1,2)] assms(3,4) by simp
  then obtain g D where "(g, D) \<in> set a" "r \<in> D" by (auto simp: all_devices_def)
  then have g: "um_get a g = Some D" "r \<in> D" using um_get_mem [OF ok] by simp_all
  show ?thesis
  proof (rule ex1I [of _ g])
    show "\<exists>D. um_get a g = Some D \<and> r \<in> D" using g by blast
    fix h assume "\<exists>D. um_get a h = Some D \<and> r \<in> D"
    then show "h = g" using one_owner [OF assms(1,2) _ g(1) _ g(2)] by blast
  qed
qed

end

section \<open>The three searches\<close>

definition counted :: "PartitionDP \<Rightarrow> bool" where
  "counted p \<longleftrightarrow> um_ok (dp_replica_nums p) \<and> dp_replica_nums p \<noteq> [] \<and> (\<forall>n \<in> snd ` set (dp_replica_nums p). 0 < n)"

definition counted_graphs :: "PartitionDP \<Rightarrow> bool" where
  "counted_graphs p \<longleftrightarrow> counted p \<and> um_ok (dp_subgraphs p) \<and> fst ` set (dp_subgraphs p) = fst ` set (dp_replica_nums p)"

lemma filter_replicates:
  assumes "distinct (map fst repl)"
  shows "length (filter (\<lambda>x. x = g) (concat (map (\<lambda>(h, n). replicate (f n) h) repl))) =
     (case um_get repl g of None \<Rightarrow> 0 | Some n \<Rightarrow> f n)"
  using assms
proof (induction repl)
  case (Cons kv repl)
  obtain h n where kv: "kv = (h, n)" by (cases kv)
  have "um_get repl h = None" using Cons.prems by (simp add: kv map_of_eq_None_iff)
  with Cons show ?case by (auto simp: kv)
qed simp

lemma filter_concat_replicate: "length (filter p (concat (replicate n xs))) = n * length (filter p xs)"
  by (induction n) simp_all

lemma flat_deals:
  assumes p: "counted p"
  shows "\<exists>a. searchAllocationFlat p = Inr a \<and> dealt_out (dp_replica_nums p) a \<and> (\<exists>n. all_devices a = {0..<n})"
proof -
  define repl where "repl = dp_replica_nums p"
  have ok: "um_ok repl" "repl \<noteq> []" "\<forall>n \<in> snd ` set repl. 0 < n" using p by (simp_all add: counted_def repl_def)
  define c where "c = Gcd (set (um_values repl))"
  have c: "gcd_vec (um_values repl) = Inr c"
    unfolding c_def by (rule gcd_vec_Gcd) (use ok in \<open>force simp: um_values_def\<close>)+
  have dvd: "c dvd n" if "(g, n) \<in> set repl" for g n using that unfolding c_def um_values_def
    by (intro Gcd_dvd) (auto intro: rev_image_eqI)
  have c0: "0 < c"
  proof -
    obtain g n where "(g, n) \<in> set repl" "0 < n" using ok(2,3) by (cases repl) force+
    with dvd have "c \<noteq> 0" by fastforce
    moreover have "0 \<le> c" by (simp add: c_def)
    ultimately show ?thesis by simp
  qed
  let ?round = "concat (map (\<lambda>(g, n). replicate (nat (tdiv n c)) g) repl)"
  let ?names = "concat (replicate (nat c) ?round)"
  have round: "foldl (\<lambda>a (sg, n). take_devices sg (tdiv n c) a) a repl = deal ?round a" for a
    using fold_deal [of "\<lambda>(sg, n) a. take_devices sg (tdiv n c) a" "\<lambda>(g, n). replicate (nat (tdiv n c)) g" a repl]
    by (simp add: take_devices_deal case_prod_unfold)
  have "foldl (\<lambda>a _. deal ?round a) ([], 0) [0..<nat c] = deal ?names ([], 0)"
    using fold_deal [of "\<lambda>_. deal ?round" "\<lambda>_. ?round" "([], 0)" "[0..<nat c]"] by (simp add: map_replicate_const)
  then have run: "searchAllocationFlat p = Inr (fst (deal ?names ([], 0)))"
    by (simp add: searchAllocationFlat_def c round flip: repl_def)
  have "int (length (filter (\<lambda>x. x = g) ?names)) = um_ref 0 repl g" for g
  proof (cases "um_get repl g")
    case None
    then show ?thesis using ok(1) by (simp add: filter_concat_replicate filter_replicates um_ok_def um_ref_def)
  next
    case (Some n)
    then have n: "(g, n) \<in> set repl" by (rule map_of_SomeD)
    then obtain k where k: "n = c * k" using dvd by blast
    have "0 < n" using ok(3) n by force
    then have "0 < k" using c0 k by (simp add: zero_less_mult_iff)
    then have "int (nat c * nat (tdiv n c)) = n" using c0 tdiv_mult_cancel [of c k] by (simp add: k mult.commute)
    then show ?thesis using ok(1) Some by (simp add: filter_concat_replicate filter_replicates um_ok_def um_ref_def)
  qed
  from deal_dealt_out [OF ok(1,3) this] show ?thesis unfolding run repl_def [symmetric] by blast
qed

lemma rfold_Inr: "(\<And>x a. x \<in> set xs \<Longrightarrow> f x a = Inr (g x a)) \<Longrightarrow> rfold f xs a = Inr (foldl (\<lambda>a x. g x a) a xs)"
  by (induction xs arbitrary: a) simp_all

lemma simple_deals:
  assumes p: "counted_graphs p"
  shows "\<exists>a. searchAllocationSimple p = Inr a \<and> dealt_out (dp_replica_nums p) a \<and> (\<exists>n. all_devices a = {0..<n})"
proof -
  define repl where "repl = dp_replica_nums p"
  have ok: "um_ok repl" "\<forall>n \<in> snd ` set repl. 0 < n" and keys: "fst ` set (dp_subgraphs p) = fst ` set repl" "um_ok (dp_subgraphs p)"
    using p by (simp_all add: counted_graphs_def counted_def repl_def)
  define gids where "gids = sort (map fst (dp_subgraphs p))"
  define sgs where "sgs = sort_key (\<lambda>g. - um_ref 0 repl g) gids"
  have sgs: "set sgs = fst ` set repl" "distinct sgs" using keys by (simp_all add: sgs_def gids_def um_ok_def)
  have at: "um_at repl g = Inr (um_ref 0 repl g)" if g: "g \<in> set sgs" for g
  proof -
    obtain n where "um_get repl g = Some n" using g um_get_key [of g repl] by (auto simp only: sgs(1))
    then show ?thesis by (simp only: um_at_def um_ref_def option.case)
  qed
  let ?names = "concat (map (\<lambda>g. replicate (nat (um_ref 0 repl g)) g) sgs)"
  have "rfold (\<lambda>gid a. rbind (um_at repl gid) (\<lambda>n. Inr (take_devices gid n a))) sgs ([], 0) =
      Inr (foldl (\<lambda>a g. take_devices g (um_ref 0 repl g) a) ([], 0) sgs)"
    by (rule rfold_Inr) (simp add: at)
  also have "\<dots> = Inr (deal ?names ([], 0))"
    using fold_deal [of "\<lambda>g a. take_devices g (um_ref 0 repl g) a" "\<lambda>g. replicate (nat (um_ref 0 repl g)) g" "([], 0)" sgs]
    by (simp add: take_devices_deal)
  finally have fold: "rfold (\<lambda>gid a. rbind (um_at repl gid) (\<lambda>n. Inr (take_devices gid n a))) sgs ([], 0) = Inr (deal ?names ([], 0))" .
  have "\<forall>g \<in> set gids. um_contains repl g" using keys by (simp add: gids_def um_contains_iff)
  then have run: "searchAllocationSimple p = Inr (fst (deal ?names ([], 0)))"
    unfolding searchAllocationSimple_def um_keys_def Let_def repl_def [symmetric] if_True
      gids_def [symmetric] sgs_def [symmetric] fold by simp
  have "int (length (filter (\<lambda>x. x = g) ?names)) = um_ref 0 repl g" for g
  proof -
    have "?names = concat (map (\<lambda>(h, n). replicate (nat n) h) (map (\<lambda>g. (g, um_ref 0 repl g)) sgs))"
      by (simp add: comp_def)
    then have "length (filter (\<lambda>x. x = g) ?names) = (case um_get (map (\<lambda>g. (g, um_ref 0 repl g)) sgs) g of None \<Rightarrow> 0 | Some n \<Rightarrow> nat n)"
      using sgs(2) filter_replicates [of "map (\<lambda>g. (g, um_ref 0 repl g)) sgs" g nat] by (simp add: comp_def)
    moreover have "0 \<le> um_ref 0 repl g" using ok(2) by (force simp: um_ref_def split: option.split dest: map_of_SomeD)
    moreover have "um_ref 0 repl g = 0" if "g \<notin> fst ` set repl"
      using that by (simp add: um_ref_def flip: map_of_eq_None_iff)
    ultimately show ?thesis using sgs(1) by (auto simp: map_of_map_restrict restrict_map_def)
  qed
  from deal_dealt_out [OF ok this] show ?thesis unfolding run repl_def [symmetric] by blast
qed

interpretation flat: packed_dealing searchAllocationFlat counted
proof unfold_locales
  fix p a
  assume p: "counted p"
  show "\<exists>a. searchAllocationFlat p = Inr a \<and> dealt_out (dp_replica_nums p) a" using flat_deals [OF p] by blast
  show "um_ok (dp_replica_nums p)" using p by (simp add: counted_def)
  show "searchAllocationFlat p = Inr a \<Longrightarrow> \<exists>n. all_devices a = {0..<n}" using flat_deals [OF p] by auto
qed

interpretation simple: packed_dealing searchAllocationSimple counted_graphs
proof unfold_locales
  fix p a
  assume p: "counted_graphs p"
  show "\<exists>a. searchAllocationSimple p = Inr a \<and> dealt_out (dp_replica_nums p) a" using simple_deals [OF p] by blast
  show "um_ok (dp_replica_nums p)" using p by (simp add: counted_graphs_def counted_def)
  show "searchAllocationSimple p = Inr a \<Longrightarrow> \<exists>n. all_devices a = {0..<n}" using simple_deals [OF p] by auto
qed

section \<open>The search along a topological order\<close>

definition fit_suited :: "topo_sort \<Rightarrow> PartitionDP \<Rightarrow> bool" where
  "fit_suited topo p \<longleftrightarrow> topo_law topo \<and> counted_graphs p \<and> (\<forall>(k, g) \<in> set (dp_subgraphs p). g_name g = k) \<and>
     (\<forall>c \<in> set (dp_connections p). con_src c \<in> fst ` set (dp_subgraphs p) \<and> con_dest c \<in> fst ` set (dp_subgraphs p)) \<and>
     (\<forall>hg. toHGraph p = Inr hg \<longrightarrow> acyclic (set (arcs hg)))"

text \<open>The devices of the \<open>j\<close>-th of \<open>m\<close> subgraphs.\<close>

definition strided :: "nat \<Rightarrow> int \<Rightarrow> nat \<Rightarrow> int set" where
  "strided m n j = (\<lambda>i. int i * int m + int j) ` {..<nat n}"

lemma card_strided: "0 < m \<Longrightarrow> 0 \<le> n \<Longrightarrow> finite (strided m n j) \<and> int (card (strided m n j)) = n"
  unfolding strided_def by (subst card_image) (auto simp: inj_on_def)

lemma strided_apart: "j < m \<Longrightarrow> k < m \<Longrightarrow> j \<noteq> k \<Longrightarrow> strided m n j \<inter> strided m n' k = {}"
proof -
  assume jk: "j < m" "k < m" "j \<noteq> k"
  have "(int i * int m + int l) mod int m = int l" if "l < m" for i l
    using that by simp
  then show ?thesis using jk unfolding strided_def by (smt (verit) disjoint_iff image_iff of_nat_eq_iff)
qed

lemma insert_strided:
  "um_ok ret \<Longrightarrow> sg \<notin> fst ` set ret \<Longrightarrow> 0 < n \<Longrightarrow>
   (let ret' = foldl (\<lambda>ret i. alloc_insert sg (int i * int m + int j) ret) ret [0..<nat n]
    in um_ok ret' \<and> um_get ret' = (um_get ret)(sg \<mapsto> strided m n j))"
proof -
  assume r: "um_ok ret" "sg \<notin> fst ` set ret" "0 < n"
  have sg: "um_get ret sg = None" using r(2) by (simp add: map_of_eq_None_iff)
  have "um_ok (foldl (\<lambda>ret i. alloc_insert sg (int i * int m + int j) ret) ret [0..<k]) \<and>
      um_get (foldl (\<lambda>ret i. alloc_insert sg (int i * int m + int j) ret) ret [0..<k]) =
        (if k = 0 then um_get ret else (um_get ret)(sg \<mapsto> (\<lambda>i. int i * int m + int j) ` {..<k}))" for k
  proof (induction k)
    case (Suc k)
    then show ?case using sg by (auto simp: um_get_alloc_insert um_ref_def lessThan_Suc fun_eq_iff)
  qed (simp add: r)
  from this [of "nat n"] r(3) show ?thesis by (simp add: strided_def Let_def)
qed

lemma toHGraph_total:
  assumes "fit_suited topo p"
  obtains hg where "toHGraph p = Inr hg" "verts hg = map snd (dp_subgraphs p)" "bgraph_ok hg"
proof -
  let ?P = "\<lambda>hg. verts hg = map snd (dp_subgraphs p) \<and> bgraph_ok hg"
  have "map g_name (map snd sgs) = map fst sgs" if "\<forall>(k, g) \<in> set sgs. g_name g = k" for sgs
    using that by (induction sgs) auto
  then have "map g_name (map snd (map snd (enumerate 0 (dp_subgraphs p)))) = map fst (dp_subgraphs p)"
    using assms unfolding fit_suited_def map_snd_enumerate by blast
  then have names: "map fst (map (\<lambda>(i, (_, g)). (g_name g, i)) (enumerate 0 (dp_subgraphs p))) = map fst (dp_subgraphs p)"
    by (simp only: map_map comp_def case_prod_unfold fst_conv)
  have "\<exists>i. um_at (hgraph_nodes p) k = Inr i \<and> um_contains (hgraph_nodes p) k \<and> i < length (dp_subgraphs p)"
    if k: "k \<in> fst ` set (dp_subgraphs p)" for k
  proof -
    have "k \<in> fst ` set (rev (map (\<lambda>(i, (_, g)). (g_name g, i)) (enumerate 0 (dp_subgraphs p))))"
      using k names by (simp only: set_rev flip: list.set_map)
    then have "\<exists>i. um_get (hgraph_nodes p) k = Some i" unfolding hgraph_nodes_def um_get_of by (rule um_get_key)
    then obtain i where i: "um_get (hgraph_nodes p) k = Some i" by blast
    then have "(k, i) \<in> set (map (\<lambda>(i, (_, g)). (g_name g, i)) (enumerate 0 (dp_subgraphs p)))"
      unfolding hgraph_nodes_def um_get_of by (auto dest!: map_of_SomeD)
    then have "i < length (dp_subgraphs p)" by (auto simp: in_set_enumerate_eq)
    with i show ?thesis by (auto simp: um_at_def um_contains_def)
  qed
  note ends = this
  have "\<exists>hg. toHGraph p = Inr hg \<and> ?P hg"
    unfolding toHGraph_def
  proof (rule rfold_total)
    fix con and hg :: HGraph
    assume con: "con \<in> set (dp_connections p)" and hg: "?P hg"
    obtain i j where "um_at (hgraph_nodes p) (con_src con) = Inr i" "um_contains (hgraph_nodes p) (con_src con)" "i < length (dp_subgraphs p)"
      "um_at (hgraph_nodes p) (con_dest con) = Inr j" "um_contains (hgraph_nodes p) (con_dest con)" "j < length (dp_subgraphs p)"
      using con assms ends unfolding fit_suited_def by meson
    then show "\<exists>hg'. rbind (rassert (um_contains (hgraph_nodes p) (con_src con))) (\<lambda>_.
         rbind (rassert (um_contains (hgraph_nodes p) (con_dest con))) (\<lambda>_.
         rbind (um_at (hgraph_nodes p) (con_src con)) (\<lambda>s.
         rbind (um_at (hgraph_nodes p) (con_dest con)) (\<lambda>t. Inr (add_edge s t () hg))))) = Inr hg' \<and> ?P hg'"
      using hg by (auto simp: bgraph_ok_def arcs_def add_edge_def)
  qed (simp add: bgraph_ok_def arcs_def)
  then show ?thesis using that by blast
qed

lemma um_get_dom: "um_get m k = Some v \<Longrightarrow> k \<in> fst ` set m"
  by (force dest: map_of_SomeD)

lemma um_get_ran: "um_get m k = Some v \<Longrightarrow> v \<in> snd ` set m"
  by (force dest: map_of_SomeD)

definition stride_map :: "(string, int) umap \<Rightarrow> string list \<Rightarrow> nat \<Rightarrow> (string \<times> int set) list" where
  "stride_map repl xs j = map (\<lambda>i. (xs ! i, strided (length xs) (um_ref 0 repl (xs ! i)) i)) [0..<j]"

lemma stride_map_dealt_out:
  assumes repl: "um_ok repl" "\<forall>n \<in> snd ` set repl. 0 < n" and xs: "distinct xs" "set xs = fst ` set repl"
    and ret: "um_ok ret" "um_get ret = map_of (stride_map repl xs (length xs))"
  shows "dealt_out repl ret"
proof -
  let ?D = "\<lambda>i. strided (length xs) (um_ref 0 repl (xs ! i)) i"
  have "distinct (map fst (stride_map repl xs (length xs)))"
    using xs(1) by (simp add: stride_map_def comp_def map_nth)
  then have at: "um_get ret (xs ! i) = Some (?D i)" if "i < length xs" for i
    using that unfolding ret(2) by (intro map_of_is_SomeI) (auto simp: stride_map_def)
  have get: "\<exists>i < length xs. g = xs ! i \<and> D = ?D i" if "um_get ret g = Some D" for g D
    using map_of_SomeD [OF that [unfolded ret(2)]] by (auto simp: stride_map_def)
  have keys: "g \<in> fst ` set ret \<longleftrightarrow> g \<in> fst ` set repl" for g
  proof
    assume "g \<in> fst ` set ret"
    from um_get_key [OF this] obtain D where "um_get ret g = Some D" by (elim exE)
    then obtain i where "i < length xs" "g = xs ! i" using get by blast
    then show "g \<in> fst ` set repl" using xs(2) nth_mem [of i xs] by simp
  next
    assume "g \<in> fst ` set repl"
    then obtain i where "i < length xs" "g = xs ! i" using xs(2) by (metis in_set_conv_nth)
    then show "g \<in> fst ` set ret" using at um_get_dom by metis
  qed
  have share: "\<exists>D. um_get ret g = Some D \<and> finite D \<and> int (card D) = n" if n: "um_get repl g = Some n" for g n
  proof -
    have "g \<in> set xs" "0 < n" using um_get_dom [OF n] xs(2) bspec [OF repl(2) um_get_ran [OF n]] by simp_all
    then obtain i where i: "i < length xs" "g = xs ! i" by (auto simp: in_set_conv_nth)
    then have "um_get ret g = Some (strided (length xs) n i)" using at [OF i(1)] n by (simp add: um_ref_def)
    moreover have "finite (strided (length xs) n i) \<and> int (card (strided (length xs) n i)) = n"
      using card_strided [of "length xs" n i] i(1) \<open>0 < n\<close> by fastforce
    ultimately show ?thesis by blast
  qed
  have apart: "D \<inter> E = {}" if DE: "um_get ret g = Some D" "um_get ret h = Some E" "g \<noteq> h" for g h D E
  proof -
    obtain i k where "i < length xs" "g = xs ! i" "D = ?D i" "k < length xs" "h = xs ! k" "E = ?D k"
      using get [OF DE(1)] get [OF DE(2)] by blast
    then show ?thesis using strided_apart [of i "length xs" k] DE(3) by metis
  qed
  show ?thesis
    unfolding dealt_out_def
    by (intro conjI allI impI ret(1) share set_eqI [of "fst ` set ret"] keys, assumption, elim conjE, rule apart)
qed

lemma fit_loop:
  assumes repl: "\<forall>n \<in> snd ` set (dp_replica_nums p). 0 < n"
    and xs: "distinct xs" "set xs \<subseteq> fst ` set (dp_replica_nums p)" "xs = map (\<lambda>v. g_name (verts hg ! v)) vs" "length vs = length (dp_subgraphs p)"
  shows "j \<le> length vs \<Longrightarrow> \<exists>ret. rfold (fit_step p hg) (take j vs) ([], 0) = Inr (ret, int j) \<and> um_ok ret \<and>
    um_get ret = map_of (stride_map (dp_replica_nums p) xs j)"
proof (induction j)
  case (Suc j)
  let ?repl = "dp_replica_nums p" and ?m = "length (dp_subgraphs p)"
  obtain ret where ret: "rfold (fit_step p hg) (take j vs) ([], 0) = Inr (ret, int j)" "um_ok ret" "um_get ret = map_of (stride_map ?repl xs j)"
    using Suc by auto
  have j: "j < length vs" "length xs = ?m" "j < length xs" "g_name (verts hg ! (vs ! j)) = xs ! j" using Suc.prems xs(3,4) by simp_all
  have "xs ! j \<in> fst ` set ?repl" using xs(2) j(3) by (meson nth_mem subsetD)
  from um_get_key [OF this] obtain n where n: "um_get ?repl (xs ! j) = Some n" by (elim exE)
  then have "0 < n" using repl by (force dest: map_of_SomeD)
  have "xs ! j \<notin> fst ` set (stride_map ?repl xs j)"
    using xs(1) j(3) by (auto simp: stride_map_def nth_eq_iff_index_eq)
  then have fresh: "um_get ret (xs ! j) = None" by (simp add: ret(3) map_of_eq_None_iff)
  then have notin: "xs ! j \<notin> fst ` set ret" by (simp add: map_of_eq_None_iff)
  let ?ret = "foldl (\<lambda>ret i. alloc_insert (xs ! j) (int i * int ?m + int j) ret) ret [0..<nat n]"
  have new: "um_ok ?ret" "um_get ?ret = (um_get ret)(xs ! j \<mapsto> strided ?m n j)"
    using insert_strided [OF ret(2) notin \<open>0 < n\<close>, of ?m j] by (simp_all add: Let_def)
  have "fit_step p hg (vs ! j) (ret, int j) = Inr (?ret, int (Suc j))"
    using n j(4) by (simp add: fit_step_def Let_def um_contains_def um_at_def)
  then have "rfold (fit_step p hg) (take (Suc j) vs) ([], 0) = Inr (?ret, int (Suc j))"
    using ret(1) j(1) by (simp add: take_Suc_conv_app_nth rfold_append)
  moreover have "um_get ?ret = map_of (stride_map ?repl xs (Suc j))"
  proof -
    have "stride_map ?repl xs (Suc j) = stride_map ?repl xs j @ [(xs ! j, strided ?m n j)]"
      using n j(2) by (simp add: stride_map_def um_ref_def)
    then show ?thesis using fresh by (auto simp: new(2) ret(3) map_add_def fun_eq_iff split: option.split)
  qed
  ultimately show ?case using new(1) by blast
qed (simp add: stride_map_def)

lemma fit_deals:
  assumes p: "fit_suited topo p"
  shows "\<exists>a. searchAllocationFitToDevice topo p = Inr a \<and> dealt_out (dp_replica_nums p) a"
proof -
  have ok: "um_ok (dp_replica_nums p)" "\<forall>n \<in> snd ` set (dp_replica_nums p). 0 < n"
    and keys: "fst ` set (dp_subgraphs p) = fst ` set (dp_replica_nums p)" "distinct (map fst (dp_subgraphs p))"
    using p by (simp_all add: fit_suited_def counted_graphs_def counted_def um_ok_def)
  obtain hg where hg: "toHGraph p = Inr hg" "verts hg = map snd (dp_subgraphs p)" "bgraph_ok hg" by (rule toHGraph_total [OF p])
  have law: "topo_law topo" and "acyclic (set (arcs hg))" using p hg(1) by (simp_all add: fit_suited_def)
  moreover have "set (arcs hg) \<subseteq> {..<length (verts hg)} \<times> {..<length (verts hg)}" using hg(3) by (auto simp: bgraph_ok_def)
  ultimately obtain vs where vs: "all_nodes_topo topo hg = Inr vs" unfolding topo_law_def all_nodes_topo_def by (metis rbind_Inr)
  then have perm: "distinct vs" "set vs = {..<length (dp_subgraphs p)}" using topological_order [OF law hg(3) vs] hg(2) by simp_all
  then have lv: "length vs = length (dp_subgraphs p)" using distinct_card [of vs] by simp
  define xs where "xs = map (\<lambda>v. g_name (verts hg ! v)) vs"
  have name: "g_name (verts hg ! v) = map fst (dp_subgraphs p) ! v" if v: "v < length (dp_subgraphs p)" for v
  proof -
    have "dp_subgraphs p ! v \<in> set (dp_subgraphs p)" using v by simp
    then have "g_name (snd (dp_subgraphs p ! v)) = fst (dp_subgraphs p ! v)" using p by (auto simp: fit_suited_def)
    then show ?thesis using v by (simp add: hg(2))
  qed
  then have "xs = map (\<lambda>v. map fst (dp_subgraphs p) ! v) vs" using perm(2) by (simp add: xs_def)
  then have xs: "distinct xs" "set xs = fst ` set (dp_replica_nums p)"
  proof -
    assume x: "xs = map ((!) (map fst (dp_subgraphs p))) vs"
    have "inj_on ((!) (map fst (dp_subgraphs p))) (set vs)"
      using keys(2) perm(2) by (auto simp: inj_on_def nth_eq_iff_index_eq simp del: nth_map)
    then show "distinct xs" using perm(1) by (simp add: x distinct_map)
    have "set xs = (!) (map fst (dp_subgraphs p)) ` {..<length (map fst (dp_subgraphs p))}" by (simp only: x set_map perm(2) length_map)
    then have "set xs = set (map fst (dp_subgraphs p))" by (simp add: nth_image lessThan_atLeast0 del: nth_map)
    then show "set xs = fst ` set (dp_replica_nums p)" using keys(1) by simp
  qed
  obtain ret where ret: "rfold (fit_step p hg) vs ([], 0) = Inr (ret, int (length vs))" "um_ok ret"
    "um_get ret = map_of (stride_map (dp_replica_nums p) xs (length vs))"
    using fit_loop [OF ok(2) xs(1) _ xs_def lv, of "length vs"] xs(2) by auto
  have "dealt_out (dp_replica_nums p) ret"
    by (rule stride_map_dealt_out [OF ok xs ret(2)]) (simp add: ret(3) xs_def)
  moreover have "searchAllocationFitToDevice topo p = Inr ret"
    using ret(1) by (simp add: searchAllocationFitToDevice_def hg(1) vs)
  ultimately show ?thesis by blast
qed

interpretation fit: device_dealing "searchAllocationFitToDevice topo" "fit_suited topo" for topo
proof unfold_locales
  fix p
  assume p: "fit_suited topo p"
  show "\<exists>a. searchAllocationFitToDevice topo p = Inr a \<and> dealt_out (dp_replica_nums p) a" by (rule fit_deals [OF p])
  show "um_ok (dp_replica_nums p)" using p by (simp add: fit_suited_def counted_graphs_def counted_def)
qed

end
