(* ===== verification/Topo_Sort.thy ===== *)
theory Topo_Sort
  imports Partition
begin

text \<open>
  A topological sort that meets the law assumed of \<open>boost::topological_sort\<close>: it takes sinks one by one.
  It shows that the law can hold, and the witnesses of the properties under that law run it.
\<close>

fun sink_order :: "nat \<Rightarrow> (nat \<times> nat) list \<Rightarrow> nat list \<Rightarrow> nat list res" where
  "sink_order 0 es left = (if left = [] then Inr [] else Inl Invalid_argument)"
| "sink_order (Suc n) es left =
     (case find (\<lambda>v. \<forall>w \<in> set left. (v, w) \<notin> set es) left of
        None \<Rightarrow> Inl Invalid_argument
      | Some v \<Rightarrow> rbind (sink_order n es (remove1 v left)) (\<lambda>vs. Inr (v # vs)))"

definition sink_topo :: topo_sort where
  "sink_topo n es = sink_order n es [0..<n]"

lemma sink_order_perm:
  "sink_order n es left = Inr vs \<Longrightarrow> length left = n \<Longrightarrow> distinct left \<Longrightarrow> distinct vs \<and> set vs = set left"
proof (induction n arbitrary: left vs)
  case (Suc n)
  obtain v ws where v: "find (\<lambda>v. \<forall>w \<in> set left. (v, w) \<notin> set es) left = Some v"
    and ws: "sink_order n es (remove1 v left) = Inr ws" "vs = v # ws"
    using Suc.prems(1) by (auto simp: rbind_eq_Inr split: option.splits)
  have mem: "v \<in> set left" using v by (auto simp: find_Some_iff)
  have "distinct ws \<and> set ws = set (remove1 v left)"
    using Suc.prems mem by (intro Suc.IH [OF ws(1)]) (simp_all add: length_remove1)
  then show ?case using Suc.prems mem ws(2) by auto
qed (simp split: if_splits)

lemma sink_order_back:
  "sink_order n es left = Inr vs \<Longrightarrow> length left = n \<Longrightarrow> distinct left \<Longrightarrow>
   i < length vs \<Longrightarrow> j < length vs \<Longrightarrow> (vs ! i, vs ! j) \<in> set es \<Longrightarrow> j < i"
proof (induction n arbitrary: left vs i j)
  case (Suc n)
  obtain v ws where v: "find (\<lambda>v. \<forall>w \<in> set left. (v, w) \<notin> set es) left = Some v"
    and ws: "sink_order n es (remove1 v left) = Inr ws" "vs = v # ws"
    using Suc.prems(1) by (auto simp: rbind_eq_Inr split: option.splits)
  have mem: "v \<in> set left" "\<forall>w \<in> set left. (v, w) \<notin> set es" using v by (auto simp: find_Some_iff)
  have len: "length (remove1 v left) = n" "distinct (remove1 v left)" using Suc.prems mem(1) by (simp_all add: length_remove1)
  show ?case
  proof (cases i)
    case 0
    have "vs ! j \<in> set left" using sink_order_perm [OF Suc.prems(1-3)] Suc.prems(5) nth_mem by blast
    then show ?thesis using 0 mem(2) Suc.prems(6) ws(2) by simp
  next
    case (Suc i')
    show ?thesis
    proof (cases j)
      case (Suc j')
      then show ?thesis using Suc.IH [OF ws(1) len, of i' j'] Suc.prems(4-6) ws(2) \<open>i = Suc i'\<close> by simp
    qed (use Suc in simp)
  qed
qed (simp split: if_splits)

lemma sink_order_total:
  "acyclic (set es) \<Longrightarrow> length left = n \<Longrightarrow> distinct left \<Longrightarrow> \<exists>vs. sink_order n es left = Inr vs"
proof (induction n arbitrary: left)
  case (Suc n)
  have "wf ((set es)\<inverse>)" by (rule finite_acyclic_wf_converse) (use Suc.prems in auto)
  moreover have "hd left \<in> set left" using Suc.prems by (cases left) auto
  ultimately obtain z where z: "z \<in> set left" "\<forall>y. (y, z) \<in> (set es)\<inverse> \<longrightarrow> y \<notin> set left"
    unfolding wf_eq_minimal by blast
  then have "\<exists>v. find (\<lambda>v. \<forall>w \<in> set left. (v, w) \<notin> set es) left = Some v"
    by (cases "find (\<lambda>v. \<forall>w \<in> set left. (v, w) \<notin> set es) left") (auto simp: find_None_iff)
  then obtain v where v: "find (\<lambda>v. \<forall>w \<in> set left. (v, w) \<notin> set es) left = Some v" by blast
  then have "v \<in> set left" by (auto simp: find_Some_iff)
  then have "\<exists>vs. sink_order n es (remove1 v left) = Inr vs"
    using Suc.prems by (intro Suc.IH) (simp_all add: length_remove1)
  with v show ?case by auto
qed simp

lemma sink_order_error: "sink_order n es left = Inl e \<Longrightarrow> e = Invalid_argument"
  by (induction n arbitrary: left) (auto simp: rbind_def split: if_splits option.splits sum.splits)

lemma rev_topological_acyclic:
  assumes vs: "rev_topological n es vs" and es: "set es \<subseteq> {..<n} \<times> {..<n}"
  shows "acyclic (set es)"
proof (rule acyclicI_order [where f = "\<lambda>v. (THE i. i < length vs \<and> vs ! i = v)"])
  fix a b assume ab: "(a, b) \<in> set es"
  have at: "(THE k. k < length vs \<and> vs ! k = v) = i" if "i < length vs" "vs ! i = v" for i v
    using that vs by (intro the_equality) (auto simp: rev_topological_def nth_eq_iff_index_eq)
  have "a \<in> set vs" "b \<in> set vs" using ab es vs by (auto simp: rev_topological_def)
  then obtain i j where ij: "i < length vs" "vs ! i = a" "j < length vs" "vs ! j = b" by (auto simp: in_set_conv_nth)
  then have "j < i" using ab vs by (auto simp: rev_topological_def)
  then show "(THE i. i < length vs \<and> vs ! i = b) < (THE i. i < length vs \<and> vs ! i = a)"
    using at [OF ij(1,2)] at [OF ij(3,4)] by simp
qed

lemma sink_topo_law: "topo_law sink_topo"
  unfolding topo_law_def
proof (intro allI impI)
  fix n and es :: "(nat \<times> nat) list"
  assume es: "set es \<subseteq> {..<n} \<times> {..<n}"
  have right: "rev_topological n es vs" if "sink_topo n es = Inr vs" for vs
    using sink_order_perm [of n es "[0..<n]" vs] sink_order_back [of n es "[0..<n]" vs] that
    by (auto simp: rev_topological_def sink_topo_def)
  show "if acyclic (set es) then \<exists>vs. sink_topo n es = Inr vs \<and> rev_topological n es vs else sink_topo n es = Inl Invalid_argument"
  proof (cases "acyclic (set es)")
    case True
    obtain vs where "sink_topo n es = Inr vs" using sink_order_total [OF True, of "[0..<n]" n] by (auto simp: sink_topo_def)
    with True right show ?thesis by auto
  next
    case False
    then have "\<And>vs. sink_topo n es \<noteq> Inr vs" using right rev_topological_acyclic [OF _ es] by blast
    then obtain e where "sink_topo n es = Inl e" by (cases "sink_topo n es") auto
    with False show ?thesis using sink_order_error [of n es "[0..<n]" e] by (simp add: sink_topo_def)
  qed
qed

text \<open>A second one, which takes sources first.\<close>

definition source_topo :: topo_sort where
  "source_topo n es = rbind (sink_topo n (map (\<lambda>(a, b). (b, a)) es)) (\<lambda>vs. Inr (rev vs))"

lemma source_topo_law: "topo_law source_topo"
  unfolding topo_law_def
proof (intro allI impI)
  fix n and es :: "(nat \<times> nat) list"
  assume es: "set es \<subseteq> {..<n} \<times> {..<n}"
  let ?es = "map (\<lambda>(a, b). (b, a)) es"
  have conv: "set ?es = (set es)\<inverse>" by auto
  have sub: "set ?es \<subseteq> {..<n} \<times> {..<n}" using es by auto
  note law = sink_topo_law [unfolded topo_law_def, rule_format, OF sub]
  show "if acyclic (set es) then \<exists>vs. source_topo n es = Inr vs \<and> rev_topological n es vs else source_topo n es = Inl Invalid_argument"
  proof (cases "acyclic (set es)")
    case True
    then have "acyclic (set ?es)" unfolding conv by (simp add: acyclic_converse)
    then obtain ws where ws: "sink_topo n ?es = Inr ws" "rev_topological n ?es ws" using law by (auto simp del: set_map)
    have "rev_topological n es (rev ws)"
      unfolding rev_topological_def
    proof (intro conjI allI impI)
      fix i j assume ij: "i < length (rev ws)" "j < length (rev ws)" "(rev ws ! i, rev ws ! j) \<in> set es"
      have "(ws ! (length ws - Suc j), ws ! (length ws - Suc i)) \<in> set ?es" using ij by (force simp: rev_nth)
      then have "length ws - Suc i < length ws - Suc j" using ws(2) ij(1,2) by (simp add: rev_topological_def del: set_map)
      then show "j < i" using ij by simp
    qed (use ws(2) in \<open>simp_all add: rev_topological_def\<close>)
    then show ?thesis using True ws(1) by (simp add: source_topo_def)
  next
    case False
    then have "\<not> acyclic (set ?es)" unfolding conv by (simp add: acyclic_converse)
    then show ?thesis using False law by (simp add: source_topo_def)
  qed
qed

end
