(* ===== verification/Allocation_Search.thy ===== *)
theory Allocation_Search
  imports Allocation Topo_Sort
begin

text \<open>
  Correctness of the backtracking search (\<open>doSearchAllocation\<close>): it ends, and it returns an assignment of
  all subgraphs to devices, with the replicas of a subgraph apart and every device within its memory,
  exactly when there is one. Then the properties of all searches.
\<close>

section \<open>Assignments\<close>

abbreviation size_at :: "(string, size_t) umap \<Rightarrow> string \<Rightarrow> nat" where
  "size_at sizes g \<equiv> unat (um_ref 0 sizes g)"

definition load :: "(string, size_t) umap \<Rightarrow> (string, int) umap \<Rightarrow> int \<Rightarrow> nat" where
  "load sizes alloc dev = (\<Sum>g \<in> {g. um_get alloc g = Some dev}. size_at sizes g)"

definition apart :: "(string, string set) umap \<Rightarrow> (string, int) umap \<Rightarrow> bool" where
  "apart replications alloc \<longleftrightarrow> (\<forall>S \<in> snd ` set replications. \<forall>x \<in> S. \<forall>y \<in> S. \<forall>d.
     x \<noteq> y \<and> um_get alloc x = Some d \<longrightarrow> um_get alloc y \<noteq> Some d)"

definition assignment ::
    "string set \<Rightarrow> (string, string set) umap \<Rightarrow> (string, size_t) umap \<Rightarrow> int set \<Rightarrow> size_t \<Rightarrow> (string, int) umap \<Rightarrow> bool" where
  "assignment names replications sizes devices dev_mem a \<longleftrightarrow>
     fst ` set a = names \<and> ran (um_get a) \<subseteq> devices \<and> apart replications a \<and> (\<forall>dev. load sizes a dev \<le> unat dev_mem)"

definition extends :: "(string, int) umap \<Rightarrow> (string, int) umap \<Rightarrow> bool" where
  "extends b a \<longleftrightarrow> um_get a \<subseteq>\<^sub>m um_get b"

lemma finite_assigned [simp]: "finite {g. um_get (a :: ('k, 'v) umap) g = Some d}"
  by (rule finite_subset [of _ "fst ` set a"]) (auto dest: um_get_dom)

lemma load_extends: "extends b a \<Longrightarrow> load sizes a dev \<le> load sizes b dev"
  unfolding load_def extends_def by (rule sum_mono2) (auto simp: map_le_def dom_def)

lemma load_set:
  assumes "g \<notin> fst ` set a"
  shows "load sizes (um_set g d a) dev = load sizes a dev + (if dev = d then size_at sizes g else 0)"
proof (cases "dev = d")
  case True
  have "{h. um_get (um_set g d a) h = Some d} = insert g {h. um_get a h = Some d}" by (auto simp: um_get_set)
  moreover have "g \<notin> {h. um_get a h = Some d}" using assms by (auto dest: um_get_dom)
  ultimately show ?thesis using True by (simp add: load_def)
next
  case False
  then have "{h. um_get (um_set g d a) h = Some dev} = {h. um_get a h = Some dev}"
    using assms by (auto simp: um_get_set dest: um_get_dom)
  with False show ?thesis by (simp add: load_def)
qed

lemma load_total: "load sizes a dev \<le> (\<Sum>g \<in> fst ` set a. size_at sizes g)"
  unfolding load_def by (rule sum_mono2) (auto dest: um_get_dom)

text \<open>The state of a partial search: its memory table holds the loads.\<close>

definition search_state ::
    "(string, string set) umap \<Rightarrow> (string, size_t) umap \<Rightarrow> int set \<Rightarrow> (string, int) umap \<Rightarrow> (int, size_t) umap \<Rightarrow> bool" where
  "search_state replications sizes devices alloc mem \<longleftrightarrow>
     um_ok mem \<and> apart replications alloc \<and> ran (um_get alloc) \<subseteq> devices \<and>
     fst ` set alloc \<subseteq> fst ` set sizes \<and> (\<forall>dev. unat (um_ref 0 mem dev) = load sizes alloc dev)"

lemma feasible_iff:
  assumes "search_state replications sizes devices alloc mem"
  shows "isAllocFeasible mem dev_mem \<longleftrightarrow> (\<forall>dev. load sizes alloc dev \<le> unat dev_mem)"
proof
  assume f: "isAllocFeasible mem dev_mem"
  show "\<forall>dev. load sizes alloc dev \<le> unat dev_mem"
  proof
    fix dev
    have l: "load sizes alloc dev = unat (um_ref 0 mem dev)" using assms by (simp add: search_state_def)
    show "load sizes alloc dev \<le> unat dev_mem"
    proof (cases "um_get mem dev")
      case (Some m)
      then have "\<not> dev_mem < m" using f unfolding isAllocFeasible_def by (fastforce dest: map_of_SomeD)
      then show ?thesis using l Some by (simp add: um_ref_def not_less word_le_nat_alt)
    qed (simp add: l um_ref_def)
  qed
next
  assume l: "\<forall>dev. load sizes alloc dev \<le> unat dev_mem"
  have "\<not> dev_mem < m" if "(dev, m) \<in> set mem" for dev m
  proof -
    have "um_get mem dev = Some m" using that assms by (simp add: search_state_def um_get_mem)
    then have "unat m = load sizes alloc dev" using assms by (simp add: search_state_def um_ref_def) (metis option.case(2))
    with l show ?thesis by (simp add: not_less word_le_nat_alt)
  qed
  then show "isAllocFeasible mem dev_mem" by (auto simp: isAllocFeasible_def)
qed

text \<open>Placing the next subgraph on a device that holds no replica of it.\<close>

lemma hasReplica_iff:
  "um_ok alloc \<Longrightarrow> hasReplica g dev replications alloc \<longleftrightarrow> (\<exists>S \<in> snd ` set replications. g \<in> S \<and> (\<exists>x \<in> S. um_get alloc x = Some dev))"
proof -
  assume ok: "um_ok alloc"
  have "(\<exists>(x, d) \<in> set alloc. x \<in> S \<and> d = dev) \<longleftrightarrow> (\<exists>x \<in> S. um_get alloc x = Some dev)" for S
    by (simp only: Bex_def split_paired_Ex case_prod_conv um_get_mem [OF ok]) blast
  then show ?thesis by (simp add: hasReplica_def case_prod_unfold)
qed

lemma place_state:
  assumes s: "search_state replications sizes devices alloc mem" "um_ok alloc"
    and g: "g \<in> fst ` set sizes" "g \<notin> fst ` set alloc" and d: "d \<in> devices" "\<not> hasReplica g d replications alloc"
    and fits: "(\<Sum>x \<in> fst ` set sizes. size_at sizes x) < 2 ^ 64"
  obtains st where "place g sizes alloc mem d = Inr st" "as_alloc st = um_set g d alloc" "um_ok (as_alloc st)"
    and "search_state replications sizes devices (as_alloc st) (as_mem st)"
proof -
  obtain sz where sz: "um_get sizes g = Some sz" using um_get_key [OF g(1)] by (elim exE)
  let ?mem = "um_set d (um_ref 0 mem d + sz) mem" and ?alloc = "um_set g d alloc"
  let ?st = "\<lparr>as_dev = d, as_alloc = ?alloc, as_mem = ?mem\<rparr>"
  have keys: "fst ` set ?alloc \<subseteq> fst ` set sizes" using s(1) g(1) by (simp add: search_state_def um_keys_set)
  have "load sizes ?alloc d \<le> (\<Sum>x \<in> fst ` set sizes. size_at sizes x)"
    by (rule order_trans [OF load_total], rule sum_mono2) (use keys in auto)
  then have "unat (um_ref 0 mem d) + unat sz < 2 ^ 64"
    using fits s(1) load_set [OF g(2), of sizes d d] sz by (simp add: search_state_def um_ref_def)
  then have sum: "unat (um_ref 0 mem d + sz) = unat (um_ref 0 mem d) + unat sz" by (simp add: unat_plus_if_size word_size)
  have "unat (um_ref 0 ?mem dev) = load sizes ?alloc dev" for dev
    using s(1) sum sz load_set [OF g(2), of sizes d dev] by (auto simp: search_state_def um_ref_def um_get_set)
  moreover have "apart replications ?alloc"
    unfolding apart_def
  proof (intro ballI allI impI notI)
    fix S x y e
    assume S: "S \<in> snd ` set replications" "x \<in> S" "y \<in> S" "x \<noteq> y \<and> um_get ?alloc x = Some e" "um_get ?alloc y = Some e"
    have no: "um_get alloc z \<noteq> Some d" if "z \<in> S" "g \<in> S" for z
      using d(2) S(1) that unfolding hasReplica_iff [OF s(2)] by blast
    have old: "apart replications alloc" using s(1) by (simp add: search_state_def)
    consider "x = g" "y \<noteq> g" | "y = g" "x \<noteq> g" | "x \<noteq> g" "y \<noteq> g" using S(4) by blast
    then show False
    proof cases
      case 1
      then show ?thesis using S no [of y] by (simp add: um_get_set)
    next
      case 2
      then show ?thesis using S no [of x] by (simp add: um_get_set)
    next
      case 3
      then have "um_get alloc x = Some e" "um_get alloc y = Some e" using S(4,5) by (simp_all add: um_get_set)
      then show ?thesis using old S(1-4) unfolding apart_def by blast
    qed
  qed
  moreover have "ran (um_get ?alloc) \<subseteq> devices"
    using s(1) d(1) by (auto simp: search_state_def um_get_set ran_def split: if_splits)
  ultimately have "search_state replications sizes devices ?alloc ?mem" using s(1) keys by (simp add: search_state_def)
  moreover have "place g sizes alloc mem d = Inr ?st" using sz by (simp add: place_def um_at_def)
  ultimately show ?thesis using that [of ?st] s(2) by simp
qed

section \<open>The search\<close>

lemma rfirst_result:
  assumes "\<And>x. x \<in> set xs \<Longrightarrow> \<exists>r. f x = Inr r"
  shows "\<exists>r. rfirst f xs = Inr r \<and> (r \<noteq> [] \<longrightarrow> (\<exists>x \<in> set xs. f x = Inr r)) \<and> (r = [] \<longrightarrow> (\<forall>x \<in> set xs. f x = Inr []))"
  using assms
proof (induction xs)
  case (Cons x xs)
  obtain r where r: "f x = Inr r" using Cons.prems [of x] by auto
  show ?case
  proof (cases "r = []")
    case True
    have "\<And>y. y \<in> set xs \<Longrightarrow> \<exists>r. f y = Inr r" using Cons.prems by simp
    from Cons.IH [OF this] show ?thesis using r True by auto
  qed (use r in simp)
qed simp

definition search_result ::
    "string set \<Rightarrow> (string, string set) umap \<Rightarrow> (string, size_t) umap \<Rightarrow> int set \<Rightarrow> size_t \<Rightarrow> (string, int) umap \<Rightarrow> (string, int) umap \<Rightarrow> bool" where
  "search_result names replications sizes devices dev_mem alloc r \<longleftrightarrow>
     (r \<noteq> [] \<longrightarrow> assignment (names \<union> fst ` set alloc) replications sizes devices dev_mem r \<and> extends r alloc) \<and>
     (r = [] \<longrightarrow> alloc = [] \<and> names = {} \<or>
        (\<forall>b. extends b alloc \<longrightarrow> \<not> assignment (names \<union> fst ` set alloc) replications sizes devices dev_mem b))"

lemma doSearchAllocation_result:
  assumes "search_state replications sizes (set devices) alloc mem" "um_ok alloc" "distinct names"
    and "set names \<inter> fst ` set alloc = {}" "set names \<subseteq> fst ` set sizes"
    and fits: "(\<Sum>x \<in> fst ` set sizes. size_at sizes x) < 2 ^ 64"
  shows "\<exists>r. doSearchAllocation names replications alloc mem sizes devices dev_mem = Inr r \<and>
    search_result (set names) replications sizes (set devices) dev_mem alloc r"
  using assms(1-5)
proof (induction names arbitrary: alloc mem rule: rev_induct)
  case Nil
  note f = feasible_iff [OF Nil.prems(1), of dev_mem]
  show ?case
  proof (cases "isAllocFeasible mem dev_mem")
    case True
    then have "assignment (fst ` set alloc) replications sizes (set devices) dev_mem alloc"
      using Nil.prems(1) f by (simp add: assignment_def search_state_def)
    with True show ?thesis by (auto simp: doSearchAllocation.simps [of "[]"] search_result_def extends_def)
  next
    case False
    have "\<not> assignment N replications sizes (set devices) dev_mem b" if "extends b alloc" for b N
      using False f load_extends [OF that] unfolding assignment_def by (meson order_trans)
    with False show ?thesis by (simp add: doSearchAllocation.simps [of "[]"] search_result_def)
  qed
next
  case (snoc g names)
  note f = feasible_iff [OF snoc.prems(1), of dev_mem]
  let ?search = "\<lambda>st. doSearchAllocation names replications (as_alloc st) (as_mem st) sizes devices dev_mem"
  let ?all = "set (names @ [g]) \<union> fst ` set alloc"
  show ?case
  proof (cases "isAllocFeasible mem dev_mem")
    case False
    have "\<not> assignment N replications sizes (set devices) dev_mem b" if "extends b alloc" for b N
      using False f load_extends [OF that] unfolding assignment_def by (meson order_trans)
    with False show ?thesis by (simp add: doSearchAllocation.simps [of "names @ [g]"] search_result_def)
  next
    case feasible: True
    have g: "g \<in> fst ` set sizes" "g \<notin> fst ` set alloc" using snoc.prems by auto
    let ?devs = "filter (\<lambda>dev. \<not> hasReplica g dev replications alloc) devices"
    have placed: "\<exists>st. place g sizes alloc mem d = Inr st \<and> as_alloc st = um_set g d alloc \<and>
        (\<exists>r. ?search st = Inr r \<and> search_result (set names) replications sizes (set devices) dev_mem (um_set g d alloc) r)"
      if d: "d \<in> set ?devs" for d
    proof (rule place_state [OF snoc.prems(1,2) g _ _ fits, of d])
      fix st assume st: "place g sizes alloc mem d = Inr st" "as_alloc st = um_set g d alloc" "um_ok (as_alloc st)"
        "search_state replications sizes (set devices) (as_alloc st) (as_mem st)"
      have "set names \<inter> fst ` set (as_alloc st) = {}" using snoc.prems(3,4) st(2) by (auto simp: um_keys_set)
      from snoc.IH [OF st(4,3) _ this] snoc.prems(3,5) st(1,2) show ?thesis by auto
    qed (use d in auto)
    then obtain sts where sts: "rmap (place g sizes alloc mem) ?devs = Inr sts" using rmap_total [of ?devs "place g sizes alloc mem"] by blast
    have st_at: "\<exists>d \<in> set ?devs. place g sizes alloc mem d = Inr st" if "st \<in> set sts" for st
      using that rmap_mem [OF sts] by blast
    have dev_at: "st \<in> set sts" if "d \<in> set ?devs" "place g sizes alloc mem d = Inr st" for d st
      unfolding rmap_mem [OF sts] using that by (intro bexI [of _ d])
    have run: "doSearchAllocation (names @ [g]) replications alloc mem sizes devices dev_mem = rfirst ?search (sort_key getMaxAllocMem sts)"
      using feasible sts by (simp add: doSearchAllocation.simps [of "names @ [g]"])
    have each: "\<exists>d r. d \<in> set ?devs \<and> ?search st = Inr r \<and> search_result (set names) replications sizes (set devices) dev_mem (um_set g d alloc) r"
      if st: "st \<in> set sts" for st
    proof -
      obtain d where d: "d \<in> set ?devs" "place g sizes alloc mem d = Inr st" using st_at [OF st] by (elim bexE)
      with placed [OF d(1)] show ?thesis by auto
    qed
    then have "\<exists>r. ?search st = Inr r" if "st \<in> set (sort_key getMaxAllocMem sts)" for st using that by auto
    from rfirst_result [of "sort_key getMaxAllocMem sts" ?search, OF this]
    obtain r where r: "rfirst ?search (sort_key getMaxAllocMem sts) = Inr r"
      "r \<noteq> [] \<longrightarrow> (\<exists>st \<in> set sts. ?search st = Inr r)" "r = [] \<longrightarrow> (\<forall>st \<in> set sts. ?search st = Inr [])" by auto
    have keys: "set names \<union> fst ` set (um_set g d alloc) = ?all" for d by (auto simp: um_keys_set)
    have ext: "extends b alloc" if "extends b (um_set g d alloc)" for b d
    proof -
      have "um_get alloc g = None" using g(2) by (simp add: map_of_eq_None_iff)
      then have "um_get alloc \<subseteq>\<^sub>m um_get (um_set g d alloc)" by (auto simp: um_get_set map_le_def dom_def)
      with that show ?thesis unfolding extends_def by (rule map_le_trans [rotated])
    qed
    have "search_result (set (names @ [g])) replications sizes (set devices) dev_mem alloc r"
      unfolding search_result_def
    proof (intro conjI impI)
      assume "r \<noteq> []"
      then obtain st where st: "st \<in> set sts" "?search st = Inr r" using r(2) by (elim impE bexE)
      then obtain d where d: "search_result (set names) replications sizes (set devices) dev_mem (um_set g d alloc) r" using each [OF st(1)] by auto
      then have "assignment (set names \<union> fst ` set (um_set g d alloc)) replications sizes (set devices) dev_mem r" "extends r (um_set g d alloc)"
        using \<open>r \<noteq> []\<close> by (simp_all add: search_result_def)
      then show "assignment ?all replications sizes (set devices) dev_mem r" "extends r alloc"
        unfolding keys using ext by (auto simp only:)
    next
      assume "r = []"
      have "\<not> assignment ?all replications sizes (set devices) dev_mem b" if b: "extends b alloc" for b
      proof
        assume a: "assignment ?all replications sizes (set devices) dev_mem b"
        then have "g \<in> fst ` set b" by (simp add: assignment_def)
        from um_get_key [OF this] obtain d where d: "um_get b g = Some d" by (elim exE)
        then have "d \<in> set devices" using a unfolding assignment_def ran_def by blast
        moreover have "\<not> hasReplica g d replications alloc"
        proof
          assume "hasReplica g d replications alloc"
          then obtain S x where S: "S \<in> snd ` set replications" "g \<in> S" "x \<in> S" "um_get alloc x = Some d"
            using snoc.prems(2) by (auto simp: hasReplica_iff)
          then have "um_get b x = Some d" using b unfolding extends_def map_le_def by (metis domI)
          moreover have "x \<noteq> g" using g(2) um_get_dom [OF S(4)] by (metis (no_types))
          moreover have "apart replications b" using a by (simp add: assignment_def)
          note this [unfolded apart_def, THEN bspec, OF S(1), THEN bspec, OF S(3), THEN bspec, OF S(2), THEN spec, of d, THEN mp]
          ultimately have "um_get b g \<noteq> Some d" by simp
          with d show False by simp
        qed
        ultimately have dd: "d \<in> set ?devs" by simp
        then obtain st where st: "place g sizes alloc mem d = Inr st" "as_alloc st = um_set g d alloc"
          "\<exists>r. ?search st = Inr r \<and> search_result (set names) replications sizes (set devices) dev_mem (um_set g d alloc) r"
          using placed by blast
        have "?search st = Inr []" using r(3) \<open>r = []\<close> dev_at [OF dd st(1)] by blast
        then have "search_result (set names) replications sizes (set devices) dev_mem (um_set g d alloc) []" using st(3) by simp
        moreover have "um_set g d alloc \<noteq> []" using um_keys_set [of g d alloc] by auto
        ultimately have none: "\<forall>b. extends b (um_set g d alloc) \<longrightarrow> \<not> assignment ?all replications sizes (set devices) dev_mem b"
          unfolding search_result_def keys by simp
        have "extends b (um_set g d alloc)" using b d by (auto simp: extends_def map_le_def um_get_set)
        from none [rule_format, OF this] a show False by (rule notE)
      qed
      then show "alloc = [] \<and> set (names @ [g]) = {} \<or>
          (\<forall>b. extends b alloc \<longrightarrow> \<not> assignment ?all replications sizes (set devices) dev_mem b)" by blast
    qed
    with run r(1) show ?thesis by auto
  qed
qed

section \<open>Properties\<close>

definition demo_dealing :: PartitionDP where
  "demo_dealing = \<lparr>dp_id = ''p'', dp_graph = demo_graph [] [] [],
     dp_subgraphs = [(''a'', (demo_graph [] [] [])\<lparr>g_name := ''a''\<rparr>), (''b'', (demo_graph [] [] [])\<lparr>g_name := ''b''\<rparr>)],
     dp_replica_nums = [(''a'', 4), (''b'', 2)],
     dp_connections = [\<lparr>con_value = ''x'', con_src = ''a'', con_dest = ''b'', con_id = ''c'', con_targetId = ''x''\<rparr>]\<rparr>"

text \<open>
  C34. The flat search and the simple search deal the devices \<open>0 .. n - 1\<close> out, where \<open>n\<close> is the number of all
  replicas: each is given to exactly one subgraph, and a subgraph gets as many as it has replicas.
\<close>

theorem packed_searches_exact:
  assumes "counted_graphs p" "search \<in> {searchAllocationFlat, searchAllocationSimple}"
  shows "\<exists>a. search p = Inr a \<and> all_devices a = {0..<device_total (dp_replica_nums p)} \<and>
    (\<forall>g n. um_get (dp_replica_nums p) g = Some n \<longrightarrow> (\<exists>D. um_get a g = Some D \<and> finite D \<and> int (card D) = n)) \<and>
    (\<forall>r. 0 \<le> r \<and> r < device_total (dp_replica_nums p) \<longrightarrow> (\<exists>!g. \<exists>D. um_get a g = Some D \<and> r \<in> D))"
proof -
  have c: "counted p" using assms(1) by (simp add: counted_graphs_def)
  from assms(2) consider "search = searchAllocationFlat" | "search = searchAllocationSimple" by blast
  then show ?thesis
  proof cases
    case 1
    obtain a where a: "searchAllocationFlat p = Inr a" using flat.deals [OF c] by blast
    show ?thesis unfolding 1
      by (intro exI [of _ a] conjI allI impI a flat.devices_used [OF c a] flat.share_size [OF c a])
        (assumption, elim conjE, rule flat.every_device_owned [OF c a])
  next
    case 2
    obtain a where a: "searchAllocationSimple p = Inr a" using simple.deals [OF assms(1)] by blast
    show ?thesis unfolding 2
      by (intro exI [of _ a] conjI allI impI a simple.devices_used [OF assms(1) a] simple.share_size [OF assms(1) a])
        (assumption, elim conjE, rule simple.every_device_owned [OF assms(1) a])
  qed
qed

lemma demo_counted: "counted_graphs demo_dealing"
  by (simp add: counted_graphs_def counted_def demo_dealing_def um_ok_def)

theorem packed_searches_exact_witness:
  "\<exists>a. searchAllocationSimple demo_dealing = Inr a \<and> all_devices a = {0..<6}"
  using packed_searches_exact [OF demo_counted, of searchAllocationSimple]
  by (auto simp: demo_dealing_def device_total_def)

text \<open>
  C35. The search along a topological order gives every subgraph as many devices as it has replicas, and no
  device to two subgraphs, although the numbers of the devices may leave gaps.
\<close>

theorem fit_search_apart:
  assumes "fit_suited topo p"
  shows "\<exists>a. searchAllocationFitToDevice topo p = Inr a \<and>
    (\<forall>g n. um_get (dp_replica_nums p) g = Some n \<longrightarrow> (\<exists>D. um_get a g = Some D \<and> finite D \<and> int (card D) = n)) \<and>
    (\<forall>g h D E r. um_get a g = Some D \<and> um_get a h = Some E \<and> r \<in> D \<and> r \<in> E \<longrightarrow> g = h)"
proof -
  obtain a where a: "searchAllocationFitToDevice topo p = Inr a" using fit.deals [OF assms] by blast
  show ?thesis
    by (intro exI [of _ a] conjI allI impI a fit.share_size [OF assms a])
      (assumption, elim conjE, rule fit.one_owner [OF assms a])
qed

theorem fit_search_apart_witness:
  "\<exists>a D. searchAllocationFitToDevice sink_topo demo_dealing = Inr a \<and> um_get a ''b'' = Some D \<and> card D = 2"
proof -
  have h: "toHGraph demo_dealing = Inr \<lparr>verts = map snd (dp_subgraphs demo_dealing), edges = [(0, 1, ())]\<rparr>"
    by (simp add: toHGraph_def demo_dealing_def hgraph_nodes_def um_of_def um_contains_def um_at_def add_edge_def enumerate_eq_zip upt_rec)
  have "fit_suited sink_topo demo_dealing"
    unfolding fit_suited_def h using sink_topo_law demo_counted
    by (auto simp: demo_dealing_def arcs_def intro: acyclicI_order [of _ "\<lambda>x. - int x"])
  from fit_search_apart [OF this] obtain a where a: "searchAllocationFitToDevice sink_topo demo_dealing = Inr a"
    "\<forall>g n. um_get (dp_replica_nums demo_dealing) g = Some n \<longrightarrow> (\<exists>D. um_get a g = Some D \<and> finite D \<and> int (card D) = n)"
    by (elim exE conjE)
  have "um_get (dp_replica_nums demo_dealing) ''b'' = Some 2" by (simp add: demo_dealing_def)
  with a(2) have "\<exists>D. um_get a ''b'' = Some D \<and> finite D \<and> int (card D) = 2" by blast
  with a(1) show ?thesis by auto
qed

text \<open>
  C19. The backtracking search ends, and it returns an assignment of all subgraphs to the given devices, with the
  replicas of a subgraph on devices of their own and every device within its memory, exactly when there is
  one; it returns the empty map otherwise.
\<close>

theorem doSearchAllocation_complete:
  assumes "distinct names" "names \<noteq> []" "set names \<subseteq> fst ` set sizes"
    and "(\<Sum>x \<in> fst ` set sizes. unat (um_ref 0 sizes x)) < 2 ^ 64"
  shows "\<exists>r. doSearchAllocation names replications [] [] sizes devices dev_mem = Inr r \<and>
    (if \<exists>a. assignment (set names) replications sizes (set devices) dev_mem a
     then assignment (set names) replications sizes (set devices) dev_mem r else r = [])"
proof -
  have s: "search_state replications sizes (set devices) [] []"
    by (simp add: search_state_def um_ok_def apart_def um_ref_def load_def)
  obtain r where run: "doSearchAllocation names replications [] [] sizes devices dev_mem = Inr r"
    and r: "search_result (set names) replications sizes (set devices) dev_mem [] r"
    using doSearchAllocation_result [OF s _ assms(1) _ assms(3,4), of dev_mem] by (auto simp: um_ok_def)
  have ext: "extends b []" for b by (simp add: extends_def)
  have "if \<exists>a. assignment (set names) replications sizes (set devices) dev_mem a
     then assignment (set names) replications sizes (set devices) dev_mem r else r = []"
    using r assms(2) ext by (cases "r = []") (auto simp: search_result_def)
  with run show ?thesis by blast
qed

definition demo_sizes :: "(string, size_t) umap" where
  "demo_sizes = [(''a1'', 4), (''a2'', 4), (''b'', 3)]"

definition demo_replicas :: "(string, string set) umap" where
  "demo_replicas = [(''a'', {''a1'', ''a2''})]"

lemma demo_assignment: "assignment {''a1'', ''a2'', ''b''} demo_replicas demo_sizes {0, 1} 7 [(''a1'', 0), (''a2'', 1), (''b'', 1)]"
proof -
  let ?a = "[(''a1'', 0), (''a2'', 1), (''b'', 1)] :: (string, int) umap"
  have "{g. um_get ?a g = Some dev} = (if dev = 0 then {''a1''} else if dev = 1 then {''a2'', ''b''} else {})" for dev
    by (auto split: if_splits)
  then have "load demo_sizes ?a dev \<le> unat (7 :: size_t)" for dev
    by (simp add: load_def demo_sizes_def um_ref_def)
  moreover have "apart demo_replicas ?a" by (auto simp: apart_def demo_replicas_def)
  ultimately show ?thesis by (auto simp: assignment_def ran_def split: if_splits)
qed

theorem doSearchAllocation_complete_witness:
  "\<exists>r. doSearchAllocation [''a1'', ''a2'', ''b''] demo_replicas [] [] demo_sizes [0, 1] 7 = Inr r \<and>
     assignment {''a1'', ''a2'', ''b''} demo_replicas demo_sizes {0, 1} 7 r"
proof -
  let ?names = "[''a1'', ''a2'', ''b''] :: string list"
  have names: "distinct ?names" "?names \<noteq> []" "set ?names \<subseteq> fst ` set demo_sizes"
    and fits: "(\<Sum>x \<in> fst ` set demo_sizes. unat (um_ref 0 demo_sizes x)) < 2 ^ 64"
    by (simp_all add: demo_sizes_def um_ref_def)
  show ?thesis
    using doSearchAllocation_complete [OF names fits, of demo_replicas "[0, 1]" 7] demo_assignment by (simp only: list.set) (metis (full_types))
qed

end
