(* ===== verification/Value_Graph.thy ===== *)
theory Value_Graph
  imports Partition
begin

text \<open>
  Graphs whose vertices are the values and the nodes of a model (\<open>BGraph\<close> of \<open>graph/Decomposition.h\<close> and
  the functions on it in \<open>graph/Decomposition.cpp\<close>): the conversion from and to \<open>IRGraph\<close>, the marking of
  vertices with ranks, and the partition along the ranks.

  The fields of a vertex that the code leaves uninitialised hold whatever \<open>blank\<close>, an argument of the
  conversion, holds. The iteration order of a set of ranks is the argument \<open>ord\<close>.
\<close>

section \<open>Vertices\<close>

datatype VertexType = VT_VALUE | VT_NODE

record VertexInfo =
  vi_name :: string
  vi_value :: IRValue
  vi_node :: IRNode
  vi_type :: VertexType
  vi_is_param :: bool
  vi_is_criterion :: bool
  vi_is_loss :: bool
  vi_is_input :: bool
  vi_is_orig_input :: bool
  vi_is_output :: bool
  vi_is_orig_output :: bool
  vi_id :: string
  vi_ranks :: "int set"
  vi_fwd_time :: int
  vi_bwd_time :: int

type_synonym VGraph = "(VertexInfo, unit) bgraph"

record BGraph =
  bg_id :: string
  bg :: VGraph

abbreviation vinfo :: "BGraph \<Rightarrow> nat \<Rightarrow> VertexInfo" where
  "vinfo b v \<equiv> verts (bg b) ! v"

definition set_vinfo :: "nat \<Rightarrow> (VertexInfo \<Rightarrow> VertexInfo) \<Rightarrow> BGraph \<Rightarrow> BGraph" where
  "set_vinfo v f b = b\<lparr>bg := (bg b)\<lparr>verts := (verts (bg b))[v := f (vinfo b v)]\<rparr>\<rparr>"

definition setProperty_value :: "IRValue \<Rightarrow> VertexInfo \<Rightarrow> VertexInfo" where
  "setProperty_value val v = v\<lparr>vi_name := v_name val, vi_value := val, vi_type := VT_VALUE, vi_is_param := is_param val,
     vi_id := ''v_'' @ v_name val, vi_ranks := {}, vi_is_input := False, vi_is_orig_input := False,
     vi_is_output := False, vi_is_orig_output := False, vi_is_loss := is_loss val\<rparr>"

definition setProperty_node :: "IRNode \<Rightarrow> VertexInfo \<Rightarrow> VertexInfo" where
  "setProperty_node n v = v\<lparr>vi_name := n_name n, vi_node := n, vi_type := VT_NODE, vi_id := n_id n, vi_ranks := {},
     vi_is_input := False, vi_is_orig_input := False, vi_is_output := False, vi_is_orig_output := False,
     vi_is_criterion := is_criterion n, vi_fwd_time := 0, vi_bwd_time := 0\<rparr>"

section \<open>From and to \<open>IRGraph\<close>\<close>

text \<open>The value map's \<open>operator[]\<close> gives vertex 0 for a value that has no vertex.\<close>

definition bgl_input :: "VertexInfo \<Rightarrow> IRGraph \<Rightarrow> string \<Rightarrow> VGraph \<times> (string, nat) umap \<Rightarrow> (VGraph \<times> (string, nat) umap) res" where
  "bgl_input blank g input_name = (\<lambda>(b, vals).
     rbind (getValue g input_name) (\<lambda>value.
     let (v, b1) = add_vertex ((setProperty_value value blank)\<lparr>vi_is_input := True, vi_is_orig_input := True\<rparr>) b
     in Inr (b1, um_set input_name v vals)))"

definition bgl_output :: "VertexInfo \<Rightarrow> IRGraph \<Rightarrow> nat \<Rightarrow> string \<Rightarrow> VGraph \<times> (string, nat) umap \<Rightarrow> (VGraph \<times> (string, nat) umap) res" where
  "bgl_output blank g v output_name = (\<lambda>(b, vals).
     rbind (getValue g output_name) (\<lambda>value.
     let p = setProperty_value value blank;
         (out_v, b1) = add_vertex (if output_name \<in> set (g_outputs g) then p\<lparr>vi_is_output := True, vi_is_orig_output := True\<rparr> else p) b
     in Inr (add_edge v out_v () b1, um_set output_name out_v vals)))"

definition bgl_node :: "VertexInfo \<Rightarrow> IRGraph \<Rightarrow> IRNode \<Rightarrow> VGraph \<times> (string, nat) umap \<Rightarrow> (VGraph \<times> (string, nat) umap) res" where
  "bgl_node blank g n = (\<lambda>(b, vals).
     let (v, b1) = add_vertex (setProperty_node n blank) b;
         b2 = foldl (\<lambda>b input_name. add_edge (um_ref 0 vals input_name) v () b) b1 (input_names n)
     in rfold (bgl_output blank g v) (output_names n) (b2, vals))"

definition toBGL_ir :: "VertexInfo \<Rightarrow> IRGraph \<Rightarrow> BGraph res" where
  "toBGL_ir blank g =
     rbind (rfold (bgl_input blank g) (g_inputs g) (empty_bgraph, [])) (\<lambda>a.
     rbind (rfold (bgl_node blank g) (nodes g) a) (\<lambda>(b, _).
     Inr \<lparr>bg_id = g_name g, bg = b\<rparr>))"

definition fromBGL_ir :: "topo_sort \<Rightarrow> BGraph \<Rightarrow> IRGraph res" where
  "fromBGL_ir topo b =
     rbind (all_nodes_topo topo (bg b)) (\<lambda>vs.
     let vis = map (vinfo b) vs;
         vals = filter (\<lambda>vi. vi_type vi = VT_VALUE) vis;
         ins = filter vi_is_input vals
     in mkIRGraph (bg_id b) (map vi_node (filter (\<lambda>vi. vi_type vi = VT_NODE) vis))
          (um_of (map (\<lambda>vi. (vi_name vi, vi_value vi)) vals))
          (map vi_name (filter (\<lambda>vi. \<not> vi_is_param vi) ins) @ map vi_name (filter vi_is_param ins))
          (map vi_name (filter vi_is_output vals)))"

section \<open>Queries\<close>

definition graph_input_nodes :: "VGraph \<Rightarrow> nat list" where
  "graph_input_nodes g = filter (\<lambda>v. source_nodes v g = []) (all_nodes g)"

definition graph_input_values :: "VGraph \<Rightarrow> (nat \<Rightarrow> bool) \<Rightarrow> nat list" where
  "graph_input_values g condition = filter condition (graph_input_nodes g)"

definition graph_param_input_nodes :: "VGraph \<Rightarrow> nat list" where
  "graph_param_input_nodes g = graph_input_values g (\<lambda>v. vi_type (verts g ! v) = VT_VALUE \<and> vi_is_param (verts g ! v))"

definition graph_regular_input_nodes :: "VGraph \<Rightarrow> nat list" where
  "graph_regular_input_nodes g = graph_input_values g (\<lambda>v. vi_type (verts g ! v) = VT_VALUE \<and> \<not> vi_is_param (verts g ! v))"

definition graph_output_nodes :: "VGraph \<Rightarrow> nat set" where
  "graph_output_nodes g = set (filter (\<lambda>v. target_nodes v g = []) (all_nodes g))"

definition adjacent_node_names :: "nat \<Rightarrow> VGraph \<Rightarrow> string list" where
  "adjacent_node_names v g = map (\<lambda>a. vi_name (verts g ! a)) (target_nodes v g)"

definition find_value_node :: "string \<Rightarrow> VGraph \<Rightarrow> nat res" where
  "find_value_node name g =
     (case find (\<lambda>v. vi_type (verts g ! v) = VT_VALUE \<and> vi_name (verts g ! v) = name) (all_nodes g) of
        None \<Rightarrow> Inl Invalid_argument | Some v \<Rightarrow> Inr v)"

definition hasValue_bg :: "VGraph \<Rightarrow> string \<Rightarrow> bool" where
  "hasValue_bg g name \<longleftrightarrow> (\<exists>v \<in> set (all_nodes g). vi_type (verts g ! v) = VT_VALUE \<and> vi_name (verts g ! v) = name)"

definition addSubgraphVertex :: "VGraph \<Rightarrow> nat \<Rightarrow> VGraph \<times> (nat, nat) umap \<Rightarrow> nat \<times> VGraph \<times> (nat, nat) umap" where
  "addSubgraphVertex parent pv = (\<lambda>(subgraph, vmap).
     let (sv, g1) = add_vertex (verts parent ! pv) subgraph in (sv, g1, um_set pv sv vmap))"

definition containsVertex :: "VGraph \<Rightarrow> nat list \<Rightarrow> nat \<Rightarrow> bool" where
  "containsVertex g vertices tgt \<longleftrightarrow> (\<exists>v \<in> set vertices. vi_id (verts g ! v) = vi_id (verts g ! tgt))"

definition containsVertexById :: "VGraph \<Rightarrow> string \<Rightarrow> bool" where
  "containsVertexById g i \<longleftrightarrow> (\<exists>v \<in> set (all_nodes g). vi_id (verts g ! v) = i)"

definition findVertexById :: "VGraph \<Rightarrow> string \<Rightarrow> nat res" where
  "findVertexById g i =
     (case find (\<lambda>v. vi_id (verts g ! v) = i) (all_nodes g) of None \<Rightarrow> Inl Invalid_argument | Some v \<Rightarrow> Inr v)"

section \<open>Subgraphs by rank\<close>

definition subgraph_vertex :: "VGraph \<Rightarrow> nat list \<Rightarrow> nat \<Rightarrow> VGraph \<times> (string, nat) umap \<Rightarrow> VGraph \<times> (string, nat) umap" where
  "subgraph_vertex g sub_vertices v = (\<lambda>(sg, new_nodes).
     if containsVertex g sub_vertices v then
       let (sv, sg1) = add_vertex (verts g ! v) sg;
           new_nodes1 = um_set (vi_id (verts g ! v)) sv new_nodes
       in (foldl (\<lambda>sg out. case um_get new_nodes1 (vi_id (verts g ! out)) of
                     None \<Rightarrow> sg | Some t \<Rightarrow> add_edge sv t () sg) sg1 (target_nodes v g), new_nodes1)
     else (sg, new_nodes))"

definition createSubgraph :: "topo_sort \<Rightarrow> VGraph \<Rightarrow> nat list \<Rightarrow> VGraph res" where
  "createSubgraph topo g sub_vertices =
     rbind (topo (length (verts g)) (arcs g)) (\<lambda>rev_topo_vertices.
     Inr (fst (foldl (\<lambda>a v. subgraph_vertex g sub_vertices v a) (empty_bgraph, []) rev_topo_vertices)))"

definition createSubgraphByRank :: "topo_sort \<Rightarrow> VGraph \<Rightarrow> int \<Rightarrow> VGraph res" where
  "createSubgraphByRank topo g rank = createSubgraph topo g (filter (\<lambda>v. rank \<in> vi_ranks (verts g ! v)) (all_nodes g))"

text \<open>The subgraphs are kept in a hash map and read by key, in the order of the sorted ranks.\<close>

definition createSubgraphsByRank :: "topo_sort \<Rightarrow> VGraph \<Rightarrow> (int, VGraph) umap res" where
  "createSubgraphsByRank topo g =
     rmap (\<lambda>r. rbind (createSubgraphByRank topo g r) (\<lambda>sg. Inr (r, sg)))
       (sorted_list_of_set (\<Union>v \<in> set (all_nodes g). vi_ranks (verts g ! v)))"

definition getRank :: "(int, VGraph) umap \<Rightarrow> string \<Rightarrow> int res" where
  "getRank subgraphs i =
     (case find (\<lambda>sg. containsVertexById (snd sg) i) subgraphs of None \<Rightarrow> Inl Invalid_argument | Some sg \<Rightarrow> Inr (fst sg))"

definition createSubgraphId :: "string \<Rightarrow> int \<Rightarrow> string" where
  "createSubgraphId orig_name index = orig_name @ ''_p'' @ int_str index"

definition createComponentGraphId :: "string \<Rightarrow> int \<Rightarrow> string" where
  "createComponentGraphId orig_name index = orig_name @ ''_c'' @ int_str index"

definition containsConnection :: "GraphConnection list \<Rightarrow> GraphConnection \<Rightarrow> bool" where
  "containsConnection connections con \<longleftrightarrow>
     (\<exists>c \<in> set connections. con_src c = con_src con \<and> con_dest c = con_dest con \<and> con_value c = con_value con)"

definition hasSameValueConnection :: "GraphConnection list \<Rightarrow> string \<Rightarrow> string \<Rightarrow> bool" where
  "hasSameValueConnection connections val_name dest_sg \<longleftrightarrow>
     (\<exists>c \<in> set connections. con_value c = val_name \<and> con_dest c = dest_sg)"

section \<open>Decomposition along the ranks\<close>

record BDecomposition =
  bd_graphs :: "(string, BGraph) umap"
  bd_connections :: "GraphConnection list"
  bd_order :: "string list"

text \<open>The loop over the ranks of the target of an edge, with the connections and those of parameters.\<close>

definition edge_connection ::
    "(int set \<Rightarrow> int list) \<Rightarrow> VGraph \<Rightarrow> (int, string) umap \<Rightarrow> nat \<times> nat \<Rightarrow> int \<Rightarrow> GraphConnection list \<times> GraphConnection list \<Rightarrow>
     (GraphConnection list \<times> GraphConnection list) res" where
  "edge_connection ord g subgraph_id_map = (\<lambda>(s, t) tgt_rank (connections, param_connections).
     let src = verts g ! s; tgt = verts g ! t in
     if tgt_rank \<in> vi_ranks src then Inr (connections, param_connections)
     else rbind (rassert (vi_ranks src \<noteq> {})) (\<lambda>_.
       let src_rank = hd (ord (vi_ranks src));
           con = \<lparr>con_value = vi_name src, con_src = um_ref [] subgraph_id_map src_rank,
                  con_dest = um_ref [] subgraph_id_map tgt_rank, con_id = vi_id src, con_targetId = vi_id tgt\<rparr>
       in if vi_is_param src
          then Inr (connections, if containsConnection param_connections con then param_connections else param_connections @ [con])
          else Inr (if containsConnection connections con then connections else connections @ [con], param_connections)))"

definition edge_connections ::
    "(int set \<Rightarrow> int list) \<Rightarrow> VGraph \<Rightarrow> (int, string) umap \<Rightarrow> (GraphConnection list \<times> GraphConnection list) res" where
  "edge_connections ord g subgraph_id_map =
     rfold (\<lambda>e a. rfold (edge_connection ord g subgraph_id_map e) (ord (vi_ranks (verts g ! snd e))) a) (arcs g) ([], [])"

text \<open>The vertex that receives the value of a connection in the target subgraph.\<close>

definition receive_vertex :: "VGraph \<Rightarrow> GraphConnection \<Rightarrow> (string, BGraph) umap \<Rightarrow> (string, BGraph) umap res" where
  "receive_vertex g con sgs =
     rbind (findVertexById g (con_id con)) (\<lambda>src.
     let no_graph = \<lparr>bg_id = [], bg = empty_bgraph\<rparr>;
         tgt_graph = um_ref no_graph sgs (con_dest con);
         (tgt_src, tg1) = add_vertex (verts g ! src) (bg tgt_graph)
     in rbind (findVertexById tg1 (con_targetId con)) (\<lambda>tgt_tgt.
        let sgs1 = um_set (con_dest con) (tgt_graph\<lparr>bg := add_edge tgt_src tgt_tgt () tg1\<rparr>) sgs in
        if vi_is_param (verts g ! src) then Inr sgs1
        else rbind (findVertexById (bg (um_ref no_graph sgs1 (con_src con))) (con_id con)) (\<lambda>v_src.
          let sgs2 = um_set (con_src con) (set_vinfo v_src (\<lambda>v. v\<lparr>vi_is_output := True\<rparr>) (um_ref no_graph sgs1 (con_src con))) sgs1 in
          rbind (findVertexById (bg (um_ref no_graph sgs2 (con_dest con))) (con_id con)) (\<lambda>v_tgt.
          Inr (um_set (con_dest con) (set_vinfo v_tgt (\<lambda>v. v\<lparr>vi_is_input := True\<rparr>) (um_ref no_graph sgs2 (con_dest con))) sgs2)))))"

definition master_connection :: "string \<Rightarrow> VertexInfo \<Rightarrow> GraphConnection list \<Rightarrow> GraphConnection list" where
  "master_connection sg_id vi connections =
     (if vi_type vi \<noteq> VT_VALUE then connections
      else let cs = (if vi_is_orig_input vi \<and> \<not> vi_is_param vi \<and> \<not> hasSameValueConnection connections (vi_name vi) sg_id
                     then connections @ [\<lparr>con_value = vi_name vi, con_src = MASTER_NAME, con_dest = sg_id, con_id = ''NA'', con_targetId = vi_id vi\<rparr>]
                     else connections)
           in if vi_is_orig_output vi
              then cs @ [\<lparr>con_value = vi_name vi, con_src = sg_id, con_dest = MASTER_NAME, con_id = vi_id vi, con_targetId = ''NA''\<rparr>]
              else cs)"

definition createSubGraphs :: "topo_sort \<Rightarrow> (int set \<Rightarrow> int list) \<Rightarrow> BGraph \<Rightarrow> BDecomposition res" where
  "createSubGraphs topo ord b =
     rbind (createSubgraphsByRank topo (bg b)) (\<lambda>by_rank.
     let idxs = um_keys by_rank True;
         sg_id = createSubgraphId (bg_id b)
     in rbind (rmap (\<lambda>idx. rbind (um_at by_rank idx) (\<lambda>sg. Inr (sg_id idx, \<lparr>bg_id = sg_id idx, bg = sg\<rparr>))) idxs) (\<lambda>kvs.
        rbind (edge_connections ord (bg b) (um_of (map (\<lambda>idx. (idx, sg_id idx)) idxs))) (\<lambda>(connections, param_connections).
        rbind (rfold (receive_vertex (bg b)) (addAll connections param_connections) (um_of kvs)) (\<lambda>subgraphs.
        Inr \<lparr>bd_graphs = subgraphs,
             bd_connections = foldl (\<lambda>cs (i, sg). foldl (\<lambda>cs vi. master_connection i vi cs) cs (verts (bg sg))) connections subgraphs,
             bd_order = map sg_id idxs\<rparr>))))"

definition searchGraphWithValue :: "(string, IRGraph) umap \<Rightarrow> string \<Rightarrow> string res" where
  "searchGraphWithValue ir_graphs val_name =
     (case find (\<lambda>kv. hasValue (snd kv) val_name) ir_graphs of None \<Rightarrow> Inl Invalid_argument | Some kv \<Rightarrow> Inr (fst kv))"

definition comp_connection :: "(string, (string, IRGraph) umap) umap \<Rightarrow> GraphConnection \<Rightarrow> GraphConnection res" where
  "comp_connection groups con =
     rbind (if con_src con \<noteq> MASTER_NAME then searchGraphWithValue (um_ref [] groups (con_src con)) (con_value con) else Inr (con_src con)) (\<lambda>comp_src.
     rbind (if con_dest con \<noteq> MASTER_NAME then searchGraphWithValue (um_ref [] groups (con_dest con)) (con_value con) else Inr (con_dest con)) (\<lambda>comp_dest.
     Inr (con\<lparr>con_src := comp_src, con_dest := comp_dest\<rparr>)))"

definition cut_size :: "VGraph \<Rightarrow> GraphConnection list \<Rightarrow> size_t res" where
  "cut_size g connections =
     rfold (\<lambda>con s. rbind (find_value_node (con_value con) g) (\<lambda>n.
       rbind (v_getSizeInByte (vi_value (verts g ! n))) (\<lambda>sz. Inr (s + sz)))) connections 0"

text \<open>The graph is dumped to files on request, which changes nothing.\<close>

definition createPartition :: "topo_sort \<Rightarrow> (int set \<Rightarrow> int list) \<Rightarrow> BGraph \<Rightarrow> Partition res" where
  "createPartition topo ord b =
     rbind (all_nodes_topo topo (bg b)) (\<lambda>_.
     rbind (createSubGraphs topo ord b) (\<lambda>dec.
     rbind (rmap (\<lambda>(i, sg). rbind (fromBGL_ir topo sg) (\<lambda>g. Inr (i, g))) (bd_graphs dec)) (\<lambda>comp_graphs.
     rbind (rmap (comp_connection (map (\<lambda>(i, g). (i, [(i, g)])) comp_graphs)) (bd_connections dec)) (\<lambda>cons.
     rbind (cut_size (bg b) (bd_connections dec)) (\<lambda>_.
     rbind (fromBGL_ir topo b) (\<lambda>g.
     Inr \<lparr>p_id = bg_id b, p_graph = g, p_subgraphs = comp_graphs, p_connections = cons, p_order = bd_order dec\<rparr>))))))"

section \<open>Ranks\<close>

definition fix_vertex :: "nat \<Rightarrow> BGraph \<Rightarrow> BGraph" where
  "fix_vertex v b =
     (let vi = vinfo b v;
          batch = (case vi_type vi of VT_VALUE \<Rightarrow> is_batch (vi_value vi) | VT_NODE \<Rightarrow> n_is_batch (vi_node vi));
          fixed_ranks = (\<Union>t \<in> set (target_nodes v (bg b)). vi_ranks (vinfo b t))
      in if batch \<or> fixed_ranks = {} then b else set_vinfo v (\<lambda>vi. vi\<lparr>vi_ranks := fixed_ranks\<rparr>) b)"

definition fixNonBatchRanks :: "topo_sort \<Rightarrow> BGraph \<Rightarrow> BGraph res" where
  "fixNonBatchRanks topo b =
     rbind (topo (length (verts (bg b))) (arcs (bg b))) (\<lambda>rev_topo_vertices.
     Inr (foldl (\<lambda>b v. fix_vertex v b) b rev_topo_vertices))"

definition vertex_size :: "VertexInfo \<Rightarrow> size_t res" where
  "vertex_size vi = (if vi_type vi = VT_VALUE then v_getSizeInByte (vi_value vi) else Inr 0)"

text \<open>The quotient of the total size by the number of parts, both as \<open>size_t\<close>.\<close>

primrec split_loop :: "size_t \<Rightarrow> nat \<Rightarrow> size_t \<Rightarrow> size_t list \<Rightarrow> nat list" where
  "split_loop limit index cur [] = [index]"
| "split_loop limit index cur (s # ss) =
     (if cur + s > limit then index # split_loop limit (index + 1) 0 ss else split_loop limit (index + 1) (cur + s) ss)"

definition splitByValueSizes :: "topo_sort \<Rightarrow> BGraph \<Rightarrow> int \<Rightarrow> nat list res" where
  "splitByValueSizes topo b n_partition =
     rbind (all_nodes_topo topo (bg b)) (\<lambda>vs.
     rbind (rmap (\<lambda>v. vertex_size (vinfo b v)) vs) (\<lambda>sizes.
     if vs \<noteq> [] \<and> n_partition = 0 then Inl Undefined_behaviour
     else Inr (split_loop (sum_list sizes div word_of_int n_partition) 0 0 sizes)))"

definition set_rank :: "nat list \<Rightarrow> nat \<Rightarrow> BGraph \<times> nat \<times> nat \<Rightarrow> BGraph \<times> nat \<times> nat" where
  "set_rank split v = (\<lambda>(b, rank, index).
     let rank' = (if length split > rank \<and> index \<ge> split ! rank \<and> vi_type (vinfo b v) = VT_NODE then rank + 1 else rank)
     in (set_vinfo v (\<lambda>vi. vi\<lparr>vi_ranks := insert (int rank') (vi_ranks vi)\<rparr>) b, rank', index + 1))"

definition setRanksOnGraph :: "topo_sort \<Rightarrow> BGraph \<Rightarrow> nat list \<Rightarrow> BGraph res" where
  "setRanksOnGraph topo b split =
     rbind (all_nodes_topo topo (bg b)) (\<lambda>vs.
     let cleared = foldl (\<lambda>b v. set_vinfo v (\<lambda>vi. vi\<lparr>vi_ranks := {}\<rparr>) b) b vs
     in Inr (fst (foldl (\<lambda>a v. set_rank split v a) (cleared, 0, 0) vs)))"

definition keeps_batch :: "VertexInfo \<Rightarrow> bool" where
  "keeps_batch vi = (case vi_type vi of
     VT_VALUE \<Rightarrow> is_batch (vi_value vi) \<or> is_loss (vi_value vi)
   | VT_NODE \<Rightarrow> n_is_batch (vi_node vi) \<or> is_criterion (vi_node vi))"

definition copyGraphWithBatch :: "topo_sort \<Rightarrow> BGraph \<Rightarrow> BGraph res" where
  "copyGraphWithBatch topo b =
     rbind (all_nodes_topo topo (bg b)) (\<lambda>vs.
     let (g1, desc_map) = foldl (\<lambda>(g, m) v.
             if keeps_batch (vinfo b v)
             then let (nv, g') = add_vertex (vinfo b v) g in (g', um_set (vi_id (vinfo b v)) nv m)
             else (g, m)) (empty_bgraph, []) vs
     in rbind (rfold (\<lambda>src g. rfold (\<lambda>tgt g.
             if um_contains desc_map (vi_id (vinfo b src)) \<and> um_contains desc_map (vi_id (vinfo b tgt))
             then rbind (um_at desc_map (vi_id (vinfo b src))) (\<lambda>s. rbind (um_at desc_map (vi_id (vinfo b tgt))) (\<lambda>t. Inr (add_edge s t () g)))
             else Inr g) (target_nodes src (bg b)) g) vs g1) (\<lambda>g2.
        Inr \<lparr>bg_id = bg_id b, bg = g2\<rparr>))"

section \<open>Printing\<close>

definition vertex_color :: "(int set \<Rightarrow> int list) \<Rightarrow> int set \<Rightarrow> string" where
  "vertex_color ord ranks =
     (if ranks = {} then ''ghostwhite''
      else let c = (let r = hd (ord ranks) in r - 6 * tdiv r 6)
           in if c = 0 then ''ghostwhite'' else if c = 1 then ''antiquewhite'' else if c = 2 then ''azure''
              else if c = 3 then ''gold1'' else if c = 4 then ''lightpink'' else if c = 5 then ''olivedrab1'' else [])"

definition vertex_label :: "VertexInfo \<Rightarrow> string res" where
  "vertex_label vi =
     (if vi_type vi = VT_NODE
      then Inr (vi_name vi @ [CHR 0x0A] @ '' '' @ vi_id vi @ [CHR 0x0A] @ '' fwd='' @ int_str (vi_fwd_time vi) @
             [CHR 0x0A] @ '' bwd='' @ int_str (vi_bwd_time vi))
      else rbind (type_str (v_type (vi_value vi))) (\<lambda>ty.
        Inr (vi_name vi @ (if is_batch (vi_value vi) then ''(B)'' else if is_param (vi_value vi) then ''(P)''
               else if is_loss (vi_value vi) then ''(L)'' else []) @ [CHR 0x0A] @ ty)))"

definition vertex_rank_label :: "(int set \<Rightarrow> int list) \<Rightarrow> VertexInfo \<Rightarrow> string res" where
  "vertex_rank_label ord vi =
     rbind (vertex_label vi) (\<lambda>label.
     Inr (''[label='' @ [CHR 0x22] @ label @ [CHR 0x22] @ '', shape='' @ [CHR 0x22] @
          (if vi_type vi = VT_NODE then ''box'' else ''ellipse'') @ [CHR 0x22] @ '', id='' @ [CHR 0x22] @ vi_id vi @ [CHR 0x22] @
          '', rank='' @ [CHR 0x22] @ join_as_str (map int_str (ord (vi_ranks vi))) '','' 0 @ [CHR 0x22] @
          '', style='' @ [CHR 0x22] @ ''filled'' @ [CHR 0x22] @ '', fillcolor='' @ [CHR 0x22] @
          vertex_color ord (vi_ranks vi) @ [CHR 0x22] @ '']''))"

definition graph_getSizeInByte :: "IRGraph \<Rightarrow> size_t res" where
  "graph_getSizeInByte g = rbind (rmap (\<lambda>v. v_getSizeInByte (snd v)) (gvalues g)) (\<lambda>sizes. Inr (sum_list sizes))"

end
