(* ===== verification/ML_Graph.thy ===== *)
theory ML_Graph
  imports Partition
begin

text \<open>
  The multilevel graph of \<open>graph/MLGraph.h\<close> and \<open>graph/MLGraph.cpp\<close>: a node carries the subgraph it
  stands for and the nodes of the level below, an edge the edges of the level below. The central
  operation is \<open>merge\<close>, which fuses two adjacent subgraphs; it is shown to preserve executability
  and meaning. \<open>gen\<close> is the random part of \<open>generateName\<close>, as in \<open>IR_Graph\<close>.
\<close>

section \<open>Nodes and edges\<close>

record MLBaseEdge =
  be_src :: string
  be_tgt :: string
  be_value :: IRValue

datatype MLEdge =
  MLEdge (e_src: string) (e_tgt: string) (e_subs: "MLEdge list") (e_base: "MLBaseEdge list")

datatype MLNode =
  MLNode (m_id: string) (m_graph: IRGraph) (m_subs: "MLNode list") (m_edges: "MLEdge list")

record MLGraph =
  ml_nodes :: "MLNode list"
  ml_edges :: "MLEdge list"

type_synonym MLBGraph = "(MLNode, MLEdge) bgraph"

definition is_atomic :: "MLNode \<Rightarrow> bool" where
  "is_atomic n = (m_subs n = [])"

fun getLevel :: "MLNode \<Rightarrow> int" where
  "getLevel (MLNode i g subs es) = (case subs of [] \<Rightarrow> 0 | s # _ \<Rightarrow> getLevel s + 1)"

fun getSize :: "MLNode \<Rightarrow> int" where
  "getSize (MLNode i g subs es) = (if subs = [] then 1 else sum_list (map getSize subs))"

definition g_getLevel :: "MLGraph \<Rightarrow> int" where
  "g_getLevel g = (if ml_nodes g = [] then - 1 else getLevel (hd (ml_nodes g)))"

definition g_getSize :: "MLGraph \<Rightarrow> int" where
  "g_getSize g = (if ml_nodes g = [] then 0 else sum_list (map getSize (ml_nodes g)))"

section \<open>Conversion of a partition\<close>

definition convert_node :: "string \<times> IRGraph \<Rightarrow> MLNode" where
  "convert_node kv = MLNode (''ML_'' @ fst kv) (renameIRGraph (''ML_'' @ fst kv) (snd kv)) [] []"

definition convert_edge :: "IRGraph \<Rightarrow> (string, string) umap \<Rightarrow> GraphConnection \<Rightarrow> MLEdge res" where
  "convert_edge graph id_map con =
     rbind (um_at id_map (con_src con)) (\<lambda>src.
     rbind (um_at id_map (con_dest con)) (\<lambda>tgt.
     rbind (getValue graph (con_value con)) (\<lambda>v.
     Inr (MLEdge src tgt [] [\<lparr>be_src = con_src con, be_tgt = con_dest con, be_value = v\<rparr>]))))"

definition convert :: "Partition \<Rightarrow> MLGraph res" where
  "convert p =
     (let id_map = um_of (map (\<lambda>kv. (fst kv, ''ML_'' @ fst kv)) (p_subgraphs p)) in
      rbind (rmap (convert_edge (p_graph p) id_map)
               (filter (\<lambda>con. um_contains id_map (con_src con) \<and> um_contains id_map (con_dest con))
                 (p_connections p))) (\<lambda>es.
      Inr \<lparr>ml_nodes = map convert_node (p_subgraphs p), ml_edges = es\<rparr>))"

section \<open>Adjacency\<close>

definition adj_ml_nodes :: "MLGraph \<Rightarrow> string list \<Rightarrow> MLNode list res" where
  "adj_ml_nodes g ids =
     (let node_map = um_of (map (\<lambda>n. (m_id n, n)) (ml_nodes g)) in
      rmap (\<lambda>i. if um_contains node_map i then um_at node_map i else Inl Invalid_argument) ids)"

definition src_ml_nodes :: "MLNode \<Rightarrow> MLGraph \<Rightarrow> MLNode list res" where
  "src_ml_nodes n g = adj_ml_nodes g (map e_src (filter (\<lambda>e. e_tgt e = m_id n) (ml_edges g)))"

definition tgt_ml_nodes :: "MLNode \<Rightarrow> MLGraph \<Rightarrow> MLNode list res" where
  "tgt_ml_nodes n g = adj_ml_nodes g (map e_tgt (filter (\<lambda>e. e_src e = m_id n) (ml_edges g)))"

definition ml_edge :: "MLNode \<Rightarrow> MLNode \<Rightarrow> MLEdge list \<Rightarrow> MLEdge list" where
  "ml_edge src tgt es =
     (case List.find (\<lambda>e. e_src e = m_id src \<and> e_tgt e = m_id tgt) es of None \<Rightarrow> [] | Some e \<Rightarrow> [e])"

definition getRequiredInputs :: "IRGraph \<Rightarrow> IRGraph \<Rightarrow> IRGraph list \<Rightarrow> string set" where
  "getRequiredInputs g1 g2 all_graphs =
     set (concat (map g_inputs (filter (\<lambda>g. g_name g \<noteq> g_name g1 \<and> g_name g \<noteq> g_name g2) all_graphs)))"

definition n_getRequiredInputs :: "MLNode \<Rightarrow> MLNode \<Rightarrow> MLNode list \<Rightarrow> string set" where
  "n_getRequiredInputs n1 n2 nodes_all = getRequiredInputs (m_graph n1) (m_graph n2) (map m_graph nodes_all)"

definition getPreservedOutputs :: "string \<Rightarrow> string \<Rightarrow> MLNode list \<Rightarrow> string set" where
  "getPreservedOutputs src_node_id moved_graph_id nodes_all =
     set (concat (map (\<lambda>n. concat (map (\<lambda>sn. g_inputs (m_graph sn))
       (filter (\<lambda>sn. g_name (m_graph sn) \<noteq> moved_graph_id) (m_subs n))))
       (filter (\<lambda>n. m_id n \<noteq> src_node_id) nodes_all)))"

definition countRefTgtInSubgraph :: "MLNode \<Rightarrow> MLNode \<Rightarrow> nat res" where
  "countRefTgtInSubgraph node sub_node =
     rbind (tgt_ml_nodes sub_node \<lparr>ml_nodes = m_subs node, ml_edges = m_edges node\<rparr>) (\<lambda>ns. Inr (length ns))"

definition countRefSrcInSubgraph :: "MLNode \<Rightarrow> MLNode \<Rightarrow> nat res" where
  "countRefSrcInSubgraph node sub_node =
     rbind (src_ml_nodes sub_node \<lparr>ml_nodes = m_subs node, ml_edges = m_edges node\<rparr>) (\<lambda>ns. Inr (length ns))"

definition countRefInEdgesSrc :: "MLNode \<Rightarrow> MLEdge list \<Rightarrow> nat" where
  "countRefInEdgesSrc node es = length (filter (\<lambda>e. e_src e = m_id node) es)"

definition countRefInEdgesTgt :: "MLNode \<Rightarrow> MLEdge list \<Rightarrow> nat" where
  "countRefInEdgesTgt node es = length (filter (\<lambda>e. e_tgt e = m_id node) es)"

definition getCutValues :: "IRGraph \<Rightarrow> IRGraph \<Rightarrow> IRValue list res" where
  "getCutValues g1 g2 =
     rmap (getValue g1)
       (filter (\<lambda>out. out \<in> set (g_inputs g2)) (g_outputs g1) @
        filter (\<lambda>out. out \<in> set (g_inputs g1)) (g_outputs g2))"

definition n_getCutValues :: "MLNode \<Rightarrow> MLNode \<Rightarrow> IRValue list res" where
  "n_getCutValues n1 n2 = getCutValues (m_graph n1) (m_graph n2)"

fun calcEdgeSize :: "MLEdge \<Rightarrow> size_t res" where
  "calcEdgeSize (MLEdge s t subs base) =
     (if subs = [] then sum_sizes (map be_value base)
      else rbind (rmap calcEdgeSize subs) (\<lambda>sizes. Inr (sum_list sizes)))"

definition sumEdgeSizes :: "MLEdge list \<Rightarrow> size_t res" where
  "sumEdgeSizes es = rbind (rmap calcEdgeSize es) (\<lambda>sizes. Inr (sum_list sizes))"

section \<open>Merging\<close>

definition outputAvailable :: "IRNode \<Rightarrow> string set \<Rightarrow> bool" where
  "outputAvailable n avail_vals = (\<exists>out \<in> set (output_names n). out \<in> avail_vals)"

primrec add_new :: "string list \<Rightarrow> string list \<Rightarrow> string list" where
  "add_new [] acc = acc"
| "add_new (x # xs) acc = add_new xs (if x \<in> set acc then acc else acc @ [x])"

text \<open>The nodes of which no output is available yet, together with the names that are available then.\<close>

primrec take_nodes :: "IRNode list \<Rightarrow> string set \<Rightarrow> IRNode list \<times> string set" where
  "take_nodes [] avail = ([], avail)"
| "take_nodes (n # ns) avail =
     (if \<not> outputAvailable n avail
      then (let (rest, avail') = take_nodes ns (avail \<union> set (output_names n)) in (n # rest, avail'))
      else take_nodes ns avail)"

definition merge_values :: "(string, IRValue) umap \<Rightarrow> (string, IRValue) umap \<Rightarrow> (string, IRValue) umap" where
  "merge_values v1 v2 = um_of (v1 @ filter (\<lambda>(k, _). k \<notin> fst ` set v1) v2)"

definition merge_graph :: "(nat \<Rightarrow> string) \<Rightarrow> IRGraph \<Rightarrow> IRGraph \<Rightarrow> string set \<Rightarrow> IRGraph res" where
  "merge_graph gen g1 g2 required_inputs =
     rbind (getNonParamInputNames g1) (\<lambda>np1.
     rbind (getNonParamInputNames g2) (\<lambda>np2.
     rbind (getParamInputNames g1) (\<lambda>pa1.
     rbind (getParamInputNames g2) (\<lambda>pa2.
     let outputs = filter (\<lambda>o1. o1 \<notin> set (g_inputs g2) \<or> o1 \<in> required_inputs) (g_outputs g1) @ g_outputs g2;
         non_param_inputs = add_new (filter (\<lambda>i2. i2 \<notin> set (g_outputs g1)) np2) np1;
         param_inputs = add_new pa2 (add_new pa1 []);
         all_inputs = addAll non_param_inputs param_inputs;
         (ns1, avail1) = take_nodes (nodes g1) (set non_param_inputs);
         (ns2, avail2) = take_nodes (nodes g2) avail1
     in mkIRGraph (''ML_'' @ gen 0) (ns1 @ ns2) (merge_values (gvalues g1) (gvalues g2)) all_inputs outputs))))"

definition merge_req :: "(nat \<Rightarrow> string) \<Rightarrow> MLNode \<Rightarrow> MLNode \<Rightarrow> string set \<Rightarrow> MLEdge list \<Rightarrow> MLNode res" where
  "merge_req gen n1 n2 required_inputs es =
     rbind (merge_graph gen (m_graph n1) (m_graph n2) required_inputs) (\<lambda>g0.
     rbind (removeUnusedNodes g0) (\<lambda>g.
     Inr (MLNode (g_name g) g [n1, n2] (ml_edge n1 n2 es))))"

definition merge_nodes :: "(nat \<Rightarrow> string) \<Rightarrow> MLNode \<Rightarrow> MLNode \<Rightarrow> MLNode list \<Rightarrow> MLEdge list \<Rightarrow> MLNode res" where
  "merge_nodes gen n1 n2 nodes_all es = merge_req gen n1 n2 (n_getRequiredInputs n1 n2 nodes_all) es"

definition ensureOutputsExist :: "IRGraph \<Rightarrow> bool" where
  "ensureOutputsExist g =
     list_all (\<lambda>out. um_contains (gvalues g) out \<and> out \<notin> set (g_inputs g)) (concat (map output_names (nodes g)))"

definition liftUp :: "(nat \<Rightarrow> string) \<Rightarrow> MLNode \<Rightarrow> MLNode" where
  "liftUp gen n = MLNode (''ML_'' @ gen 0) (renameIRGraph (''ML_'' @ gen 0) (m_graph n)) [n] []"

definition merge_edge_into ::
    "(string, string) umap \<Rightarrow> MLEdge \<Rightarrow> (string \<times> string, MLEdge list) umap \<Rightarrow> (string \<times> string, MLEdge list) umap res" where
  "merge_edge_into name_map e unmerged =
     rbind (rassert (um_contains name_map (e_src e))) (\<lambda>_.
     rbind (rassert (um_contains name_map (e_tgt e))) (\<lambda>_.
     rbind (um_at name_map (e_src e)) (\<lambda>new_src.
     rbind (um_at name_map (e_tgt e)) (\<lambda>new_tgt.
     Inr (if new_src = new_tgt then unmerged
          else um_set (new_src, new_tgt) (um_ref [] unmerged (new_src, new_tgt) @ [e]) unmerged)))))"

definition mergeEdges :: "MLEdge list \<Rightarrow> (string, string) umap \<Rightarrow> MLEdge list res" where
  "mergeEdges es name_map =
     rbind (rfold (merge_edge_into name_map) es []) (\<lambda>unmerged.
     Inr (map (\<lambda>(key, ses). MLEdge (fst key) (snd key) ses []) unmerged))"


section \<open>Boost graphs\<close>

definition toBGL_of :: "MLNode list \<Rightarrow> MLEdge list \<Rightarrow> MLBGraph res" where
  "toBGL_of ns es =
     (let node_map = um_of (zip (map m_id ns) [0..<length ns]) in
      rbind (rmap (\<lambda>e.
          rbind (rassert (um_contains node_map (e_src e))) (\<lambda>_.
          rbind (rassert (um_contains node_map (e_tgt e))) (\<lambda>_.
          rbind (um_at node_map (e_src e)) (\<lambda>s.
          rbind (um_at node_map (e_tgt e)) (\<lambda>t. Inr (s, t, e)))))) es) (\<lambda>bes.
      Inr \<lparr>verts = ns, edges = bes\<rparr>))"

definition n_toBGL :: "MLNode \<Rightarrow> MLBGraph res" where
  "n_toBGL node = toBGL_of (m_subs node) (m_edges node)"

definition toBGL :: "MLGraph \<Rightarrow> MLBGraph res" where
  "toBGL g = toBGL_of (ml_nodes g) (ml_edges g)"

definition fromBGL :: "topo_sort \<Rightarrow> MLBGraph \<Rightarrow> MLGraph res" where
  "fromBGL topo bg =
     rbind (all_nodes_topo topo bg) (\<lambda>vs.
     Inr \<lparr>ml_nodes = map (\<lambda>v. verts bg ! v) vs, ml_edges = map (snd \<circ> snd) (edges bg)\<rparr>)"

definition sortMLGraph :: "topo_sort \<Rightarrow> MLGraph \<Rightarrow> MLGraph res" where
  "sortMLGraph topo g =
     rbind (toBGL g) (\<lambda>bg. rbind (all_nodes_topo topo bg) (\<lambda>vs.
     Inr \<lparr>ml_nodes = map (\<lambda>v. verts bg ! v) vs, ml_edges = ml_edges g\<rparr>))"

text \<open>
  \<open>isConvex\<close> takes the edge out of the graph for the reachability test and puts a fresh one back,
  whose property is a default-constructed \<open>MLEdge\<close>.
\<close>

definition default_edge :: MLEdge where
  "default_edge = MLEdge [] [] [] []"

definition isConvex :: "reachability \<Rightarrow> nat \<Rightarrow> nat \<Rightarrow> MLBGraph \<Rightarrow> bool \<times> MLBGraph" where
  "isConvex reach n1 n2 graph =
     (let g1 = remove_edge n1 n2 graph;
          ret = reach (arcs g1) n1 n2
      in (\<not> ret, add_edge n1 n2 default_edge g1))"

section \<open>Levels\<close>

definition n_verify :: "MLNode \<Rightarrow> bool" where
  "n_verify n =
     (let ids = set (map m_id (m_subs n))
      in list_all (\<lambda>se. e_src se \<in> ids \<and> e_tgt se \<in> ids) (m_edges n))"

definition subnode_ids :: "MLNode list \<Rightarrow> (string, string set) umap" where
  "subnode_ids ns =
     foldl (\<lambda>m (i, s). um_set i (insert s (um_ref {} m i)) m) []
       (concat (map (\<lambda>n. map (\<lambda>sn. (m_id n, m_id sn)) (m_subs n)) ns))"

definition verify_edge :: "(string, string set) umap \<Rightarrow> MLEdge \<Rightarrow> bool" where
  "verify_edge ids e =
     (case um_get ids (e_src e) of None \<Rightarrow> False
      | Some src_ids \<Rightarrow>
          (case um_get ids (e_tgt e) of None \<Rightarrow> False
           | Some tgt_ids \<Rightarrow> list_all (\<lambda>se. e_src se \<in> src_ids \<and> e_tgt se \<in> tgt_ids) (e_subs e)))"

definition g_verify :: "MLGraph \<Rightarrow> bool" where
  "g_verify g =
     (if \<not> list_all n_verify (ml_nodes g) then False
      else list_all (verify_edge (subnode_ids (ml_nodes g))) (ml_edges g))"

definition doToLowerLevel :: "MLNode \<Rightarrow> MLNode res" where
  "doToLowerLevel n =
     rbind (rassert (getLevel n > 0)) (\<lambda>_.
     Inr (MLNode (m_id n) (m_graph n) (concat (map m_subs (m_subs n)))
       (concat (map m_edges (m_subs n)) @ concat (map e_subs (m_edges n)))))"

definition lower_edge :: "MLEdge \<Rightarrow> MLEdge" where
  "lower_edge e = MLEdge (e_src e) (e_tgt e) (concat (map e_subs (e_subs e))) (concat (map e_base (e_subs e)))"

definition toLowerLevel :: "MLGraph \<Rightarrow> MLGraph res" where
  "toLowerLevel g =
     rbind (rassert (g_getLevel g > 0)) (\<lambda>_.
     rbind (rmap doToLowerLevel (ml_nodes g)) (\<lambda>ns.
     Inr \<lparr>ml_nodes = ns, ml_edges = map lower_edge (ml_edges g)\<rparr>))"

definition getMLNodeIds :: "MLNode list \<Rightarrow> string set" where
  "getMLNodeIds ns = set (map m_id ns)"

definition containsSubgraph :: "MLNode \<Rightarrow> string \<Rightarrow> bool" where
  "containsSubgraph n subgraph_id = (subgraph_id \<in> getMLNodeIds (m_subs n))"

definition containsSubedge :: "MLEdge \<Rightarrow> MLEdge \<Rightarrow> bool" where
  "containsSubedge edge sub_edge =
     ((e_src sub_edge, e_tgt sub_edge) \<in> set (map (\<lambda>se. (e_src se, e_tgt se)) (e_subs edge)))"


section \<open>Merging preserves executability and meaning\<close>

lemma set_add_new [simp]: "set (add_new xs acc) = set acc \<union> set xs"
  by (induction xs arbitrary: acc) auto

lemma rfilter_values:
  assumes "values_ok g"
  shows "rfilter (\<lambda>n. rbind (getValue g n) (\<lambda>v. Inr (P v))) (g_inputs g) =
    Inr (filter (\<lambda>n. P (the (um_get (gvalues g) n))) (g_inputs g))"
proof (rule rfilter_Inr)
  fix n assume "n \<in> set (g_inputs g)"
  then have "n \<in> fst ` set (gvalues g)" using assms by (auto simp: values_ok_def)
  then obtain v where v: "um_get (gvalues g) n = Some v" by (metis map_of_eq_None_iff option.exhaust)
  then have "getValue g n = Inr v" by simp
  with v show "rbind (getValue g n) (\<lambda>v. Inr (P v)) = Inr (P (the (um_get (gvalues g) n)))"
    by (simp only: rbind_Inr option.sel)
qed

definition is_param_input :: "IRGraph \<Rightarrow> string \<Rightarrow> bool" where
  "is_param_input g n = is_param (the (um_get (gvalues g) n))"

lemma input_names_split:
  assumes "values_ok g"
  shows "getNonParamInputNames g = Inr (filter (\<lambda>n. \<not> is_param_input g n) (g_inputs g))"
    and "getParamInputNames g = Inr (filter (is_param_input g) (g_inputs g))"
  using rfilter_values [OF assms, of "\<lambda>v. \<not> is_param v"] rfilter_values [OF assms, of is_param]
  by (simp_all add: getNonParamInputNames_def getParamInputNames_def is_param_input_def [abs_def])

lemma take_nodes_result:
  assumes "take_nodes ns avail = (ms, avail')" and "single_output ns"
  shows "set ms \<subseteq> set ns" and "avail' = avail \<union> set (concat (map output_names ms))"
    and "avail' = avail \<union> set (concat (map output_names ns))"
    and "\<And>n. n \<in> set ms \<Longrightarrow> set (output_names n) \<inter> avail = {}"
    and "distinct (map f ns) \<Longrightarrow> distinct (map f ms)"
proof -
  have "set ms \<subseteq> set ns \<and> avail' = avail \<union> set (concat (map output_names ms)) \<and>
    avail' = avail \<union> set (concat (map output_names ns)) \<and>
    (\<forall>n \<in> set ms. set (output_names n) \<inter> avail = {}) \<and> (distinct (map f ns) \<longrightarrow> distinct (map f ms))"
    using assms
  proof (induction ns arbitrary: avail ms avail')
    case (Cons n ns)
    have so: "single_output ns" using Cons.prems(2) by (simp add: single_output_def)
    obtain out where out: "output_names n = [out]"
      using Cons.prems(2) by (auto simp: single_output_def length_Suc_conv)
    show ?case
    proof (cases "outputAvailable n avail")
      case True
      then have "out \<in> avail" by (simp add: outputAvailable_def out)
      with Cons.IH [of avail ms avail'] Cons.prems(1) True so show ?thesis by (auto simp: out)
    next
      case False
      then have "out \<notin> avail" by (simp add: outputAvailable_def out)
      moreover obtain ms' where "take_nodes ns (avail \<union> {out}) = (ms', avail')" "ms = n # ms'"
        using Cons.prems(1) False by (auto simp: out split: prod.splits)
      ultimately show ?thesis using Cons.IH [of "avail \<union> {out}" ms' avail'] so by (auto simp: out)
    qed
  qed simp
  then show "set ms \<subseteq> set ns" "avail' = avail \<union> set (concat (map output_names ms))"
    "avail' = avail \<union> set (concat (map output_names ns))"
    "\<And>n. n \<in> set ms \<Longrightarrow> set (output_names n) \<inter> avail = {}"
    "distinct (map f ns) \<Longrightarrow> distinct (map f ms)" by blast+
qed

lemma take_nodes_ready:
  assumes "take_nodes ns avail = (ms, avail')" "single_output ns" "inputs_ready ns A" "A \<subseteq> B" "avail \<subseteq> B"
  shows "inputs_ready ms B"
  using assms
proof (induction ns arbitrary: avail ms A B)
  case (Cons n ns)
  have so: "single_output ns" using Cons.prems(2) by (simp add: single_output_def)
  obtain out where out: "output_names n = [out]"
    using Cons.prems(2) by (auto simp: single_output_def length_Suc_conv)
  have ready: "inputs_ready ns (A \<union> {out})" "set (input_names n) \<subseteq> A"
    using Cons.prems(3) by (auto simp: out list_all_iff split: if_splits)
  show ?case
  proof (cases "outputAvailable n avail")
    case True
    then have "out \<in> B" using Cons.prems(5) by (auto simp: outputAvailable_def out)
    with Cons.IH [of avail ms "A \<union> {out}" B] Cons.prems True so ready show ?thesis by auto
  next
    case False
    then obtain ms' where ms: "take_nodes ns (avail \<union> {out}) = (ms', avail')" "ms = n # ms'"
      using Cons.prems(1) by (auto simp: out split: prod.splits)
    have "inputs_ready ms' (B \<union> {out})"
      by (rule Cons.IH [OF ms(1) so ready(1)]) (use Cons.prems(4,5) in auto)
    with ms ready(2) Cons.prems(4) show ?thesis by (auto simp: out list_all_iff)
  qed
qed simp

text \<open>Nodes that two subgraphs share are the same nodes.\<close>

definition ids_compatible :: "IRNode list \<Rightarrow> IRNode list \<Rightarrow> bool" where
  "ids_compatible ns ms \<longleftrightarrow> (\<forall>n \<in> set ns. \<forall>m \<in> set ms. n_id n = n_id m \<longrightarrow> n = m)"

lemma fst_filter_notin: "fst ` {kv \<in> A. case kv of (k, _) \<Rightarrow> k \<notin> B} = fst ` A - B"
  by (force simp: image_iff)

lemma merge_values_ok:
  assumes "um_ok v1" "um_ok v2"
  shows "um_ok (merge_values v1 v2) \<and> fst ` set (merge_values v1 v2) = fst ` set v1 \<union> fst ` set v2"
proof -
  have "distinct (map fst (filter (\<lambda>(k, _). k \<notin> fst ` set v1) v2))"
    using assms(2) by (simp add: um_ok_def distinct_map_filter)
  moreover have "fst ` set (filter (\<lambda>(k, _). k \<notin> fst ` set v1) v2) \<inter> fst ` set v1 = {}" by (auto intro: rev_image_eqI)
  ultimately have "distinct (map fst (v1 @ filter (\<lambda>(k, _). k \<notin> fst ` set v1) v2))"
    using assms(1) unfolding um_ok_def map_append distinct_append set_map by blast
  then have "merge_values v1 v2 = v1 @ filter (\<lambda>(k, _). k \<notin> fst ` set v1) v2"
    by (simp only: merge_values_def um_of_distinct)
  moreover have "fst ` set (v1 @ filter (\<lambda>(k, _). k \<notin> fst ` set v1) v2) = fst ` set v1 \<union> fst ` set v2"
    by (simp add: image_Un fst_filter_notin)
  ultimately show ?thesis by (metis merge_values_def um_ok_of)
qed

lemma shared_output_node:
  assumes "single_output ns2" "\<forall>n \<in> set ns2. set (output_names n) \<inter> set (concat (map output_names ns1)) = {}"
    and "n \<in> set ns2"
  shows "n \<notin> set ns1"
  using assms by (fastforce simp: single_output_def length_Suc_conv)

lemma merge_graph_inv:
  assumes inv: "graph_inv g1" "graph_inv g2" and ids: "ids_compatible (nodes g1) (nodes g2)"
  obtains m where "merge_graph gen g1 g2 req = Inr m" "graph_inv m"
    and "set (nodes m) \<subseteq> set (nodes g1) \<union> set (nodes g2)"
    and "g_outputs m = filter (\<lambda>o1. o1 \<notin> set (g_inputs g2) \<or> o1 \<in> req) (g_outputs g1) @ g_outputs g2"
    and "set (g_inputs m) = set (g_inputs g1) \<union>
           {i \<in> set (g_inputs g2). is_param_input g2 i \<or> i \<notin> set (g_outputs g1)}"
    and "g_name m = ''ML_'' @ gen 0"
proof -
  have ok: "values_ok g1" "values_ok g2" and so: "single_output (nodes g1)" "single_output (nodes g2)"
    and di: "ids_distinct (nodes g1)" "ids_distinct (nodes g2)" and vn: "verifyNodeInputs g1" "verifyNodeInputs g2"
    and od: "outputs_defined g1" "outputs_defined g2" using inv by (simp_all add: graph_inv_def)
  let ?np = "add_new (filter (\<lambda>i2. i2 \<notin> set (g_outputs g1)) (filter (\<lambda>n. \<not> is_param_input g2 n) (g_inputs g2)))
    (filter (\<lambda>n. \<not> is_param_input g1 n) (g_inputs g1))"
  let ?pa = "add_new (filter (is_param_input g2) (g_inputs g2)) (add_new (filter (is_param_input g1) (g_inputs g1)) [])"
  let ?ins = "addAll ?np ?pa" and ?vals = "merge_values (gvalues g1) (gvalues g2)"
  let ?outs = "filter (\<lambda>o1. o1 \<notin> set (g_inputs g2) \<or> o1 \<in> req) (g_outputs g1) @ g_outputs g2"
  obtain ns1 av1 where t1: "take_nodes (nodes g1) (set ?np) = (ns1, av1)" by fastforce
  obtain ns2 av2 where t2: "take_nodes (nodes g2) av1 = (ns2, av2)" by fastforce
  note r1 = take_nodes_result [OF t1 so(1)] and r2 = take_nodes_result [OF t2 so(2)]
  have ins: "set ?ins = set (g_inputs g1) \<union> {i \<in> set (g_inputs g2). is_param_input g2 i \<or> i \<notin> set (g_outputs g1)}"
    by (auto simp: addAll_def)
  have mv: "um_ok ?vals" "fst ` set ?vals = fst ` set (gvalues g1) \<union> fst ` set (gvalues g2)"
    using merge_values_ok ok by (simp_all add: values_ok_def)
  have sub: "set ?ins \<subseteq> fst ` set ?vals" unfolding ins mv(2) using ok by (auto simp: values_ok_def)
  then obtain m where m: "mkIRGraph (''ML_'' @ gen 0) (ns1 @ ns2) ?vals ?ins ?outs = Inr m"
    using mkIRGraph_total by blast
  then have run: "merge_graph gen g1 g2 req = Inr m"
    by (simp only: merge_graph_def input_names_split [OF ok(1)] input_names_split [OF ok(2)] rbind_Inr Let_def
        t1 t2 prod.case)
  note meq = mkIRGraph_Inr [OF m]
  have so1: "single_output ns1" "single_output ns2" using so r1(1) r2(1) by (auto simp: single_output_def)
  have ready1: "inputs_ready ns1 (set ?ins)"
    by (rule take_nodes_ready [OF t1 so(1)]) (use vn(1) ins in \<open>auto simp: verifyNodeInputs_def addAll_def\<close>)
  have avail: "set (concat (map output_names (nodes g1))) \<subseteq> set ?ins \<union> set (concat (map output_names ns1))"
    using r1(2,3) by (auto simp: addAll_def)
  have av1: "av1 \<subseteq> set ?ins \<union> set (concat (map output_names ns1))" using r1(2) by (auto simp: addAll_def)
  have in2: "set (g_inputs g2) \<subseteq> set ?ins \<union> set (concat (map output_names ns1))"
    using avail od(1) ins unfolding outputs_defined_def by blast
  have ready2: "inputs_ready ns2 (set ?ins \<union> set (concat (map output_names ns1)))"
    by (rule take_nodes_ready [OF t2 so(2)]) (use vn(2) in2 av1 in \<open>auto simp: verifyNodeInputs_def\<close>)
  have avail2: "set (concat (map output_names (nodes g2))) \<subseteq>
      set ?ins \<union> set (concat (map output_names ns1)) \<union> set (concat (map output_names ns2))"
    using r2(2,3) av1 by auto
  have "set ?outs \<subseteq> set ?ins \<union> set (concat (map output_names (ns1 @ ns2)))"
    using od avail avail2 ins in2 unfolding outputs_defined_def set_append set_filter map_append concat_append
    by blast
  then have "outputs_defined m" using meq by (simp add: outputs_defined_def)
  moreover have "verifyNodeInputs m"
    using meq ready1 ready2 by (simp add: verifyNodeInputs_def inputs_ready_append)
  moreover have "ids_distinct (nodes m)"
  proof -
    have disj: "\<forall>n \<in> set ns2. set (output_names n) \<inter> set (concat (map output_names ns1)) = {}"
      using r1(2) r2(4) by blast
    have "n_id n \<noteq> n_id n'" if n: "n \<in> set ns1" "n' \<in> set ns2" for n n'
    proof
      assume eq: "n_id n = n_id n'"
      have "n \<in> set (nodes g1)" "n' \<in> set (nodes g2)" using n r1(1) r2(1) by blast+
      with ids eq have "n = n'" unfolding ids_compatible_def by blast
      with n shared_output_node [OF so1(2) disj] show False by blast
    qed
    then have "set (map n_id ns1) \<inter> set (map n_id ns2) = {}" by auto
    moreover have "distinct (map n_id ns1)" "distinct (map n_id ns2)"
      using r1(5) [of n_id] r2(5) [of n_id] di by (simp_all add: ids_distinct_def)
    ultimately show ?thesis using meq by (simp add: ids_distinct_def)
  qed
  moreover have "single_output (nodes m)"
    using so1 meq by (simp add: single_output_def ball_Un)
  moreover have "values_ok m" using meq mv(1) sub by (simp add: values_ok_def)
  ultimately have "graph_inv m" by (simp add: graph_inv_def)
  moreover have "set (nodes m) \<subseteq> set (nodes g1) \<union> set (nodes g2)" using meq r1(1) r2(1) by auto
  ultimately show ?thesis using that [OF run] meq ins by simp
qed


lemma merge_req_inv:
  assumes inv: "graph_inv (m_graph n1)" "graph_inv (m_graph n2)"
    and ids: "ids_compatible (nodes (m_graph n1)) (nodes (m_graph n2))"
  obtains n where "merge_req gen n1 n2 req es = Inr n" "graph_inv (m_graph n)" "noUnusedValue (m_graph n)"
    and "set (nodes (m_graph n)) \<subseteq> set (nodes (m_graph n1)) \<union> set (nodes (m_graph n2))"
    and "g_outputs (m_graph n) = filter (\<lambda>o1. o1 \<notin> set (g_inputs (m_graph n2)) \<or> o1 \<in> req) (g_outputs (m_graph n1))
           @ g_outputs (m_graph n2)"
    and "set (g_inputs (m_graph n)) \<subseteq> set (g_inputs (m_graph n1)) \<union>
           {i \<in> set (g_inputs (m_graph n2)). is_param_input (m_graph n2) i \<or> i \<notin> set (g_outputs (m_graph n1))}"
    and "m_id n = ''ML_'' @ gen 0" "m_subs n = [n1, n2]"
proof -
  obtain m where m: "merge_graph gen (m_graph n1) (m_graph n2) req = Inr m" "graph_inv m"
    "set (nodes m) \<subseteq> set (nodes (m_graph n1)) \<union> set (nodes (m_graph n2))"
    "g_outputs m = filter (\<lambda>o1. o1 \<notin> set (g_inputs (m_graph n2)) \<or> o1 \<in> req) (g_outputs (m_graph n1))
       @ g_outputs (m_graph n2)"
    "set (g_inputs m) = set (g_inputs (m_graph n1)) \<union>
       {i \<in> set (g_inputs (m_graph n2)). is_param_input (m_graph n2) i \<or> i \<notin> set (g_outputs (m_graph n1))}"
    "g_name m = ''ML_'' @ gen 0"
    by (rule merge_graph_inv [OF inv ids])
  have mi: "values_ok m" "single_output (nodes m)" "ids_distinct (nodes m)" "verifyNodeInputs m" "outputs_defined m"
    using m(2) by (simp_all add: graph_inv_def)
  obtain h where h: "removeUnusedNodes m = Inr h" "noUnusedValue h" "verifyNodeInputs h" "values_ok h"
    "g_outputs h = g_outputs m" "set (nodes h) \<subseteq> set (nodes m)" "set (g_inputs h) \<subseteq> set (g_inputs m)"
    "single_output (nodes h)" "ids_distinct (nodes h)" "outputs_defined m \<Longrightarrow> outputs_defined h"
    by (rule removeUnusedNodes_correct_aux [OF mi(1-4)]) blast
  have name: "g_name h = ''ML_'' @ gen 0"
    using h(1) m(6) by (auto simp: removeUnusedNodes_def rbind_eq_Inr Let_def dest: mkIRGraph_Inr)
  let ?n = "MLNode (g_name h) h [n1, n2] (ml_edge n1 n2 es)"
  have "graph_inv h" using h mi(5) by (simp add: graph_inv_def)
  moreover have "merge_req gen n1 n2 req es = Inr ?n" by (simp add: merge_req_def m(1) h(1))
  ultimately show ?thesis using that [of ?n] h m(3-5) name by auto
qed

section \<open>Merging edges\<close>

definition crossing :: "(string, string) umap \<Rightarrow> MLEdge \<Rightarrow> bool" where
  "crossing nm e \<longleftrightarrow> um_get nm (e_src e) \<noteq> um_get nm (e_tgt e)"

definition edges_between :: "(string, string) umap \<Rightarrow> string \<Rightarrow> string \<Rightarrow> MLEdge list \<Rightarrow> MLEdge list" where
  "edges_between nm s t es = filter (\<lambda>e. um_get nm (e_src e) = Some s \<and> um_get nm (e_tgt e) = Some t) es"

definition merged_so_far :: "(string, string) umap \<Rightarrow> MLEdge list \<Rightarrow> (string \<times> string, MLEdge list) umap \<Rightarrow> bool" where
  "merged_so_far nm es m \<longleftrightarrow> um_ok m \<and>
     (\<forall>s t. um_get m (s, t) =
        (if s \<noteq> t \<and> edges_between nm s t es \<noteq> [] then Some (edges_between nm s t es) else None))"

lemma merge_edge_into_step:
  assumes "merged_so_far nm es m" "merge_edge_into nm e m = Inr m'"
  shows "merged_so_far nm (es @ [e]) m'"
proof -
  obtain s t where st: "um_get nm (e_src e) = Some s" "um_get nm (e_tgt e) = Some t"
    and m': "m' = (if s = t then m else um_set (s, t) (um_ref [] m (s, t) @ [e]) m)"
    using assms(2) by (auto simp: merge_edge_into_def rbind_eq_Inr um_at_Inr)
  have snoc: "edges_between nm a b (es @ [e]) = edges_between nm a b es @ (if (a, b) = (s, t) then [e] else [])" for a b
    using st by (auto simp: edges_between_def)
  show ?thesis
  proof (cases "s = t")
    case True
    then have "m' = m" using m' by simp
    with assms(1) True show ?thesis by (auto simp: merged_so_far_def snoc)
  next
    case False
    have "um_ref [] m (s, t) = edges_between nm s t es"
      using assms(1) False by (auto simp: merged_so_far_def um_ref_def)
    then have m'_eq: "m' = um_set (s, t) (edges_between nm s t (es @ [e])) m" using m' False by (simp add: snoc)
    have "um_get m' (a, b) = (if a \<noteq> b \<and> edges_between nm a b (es @ [e]) \<noteq> []
        then Some (edges_between nm a b (es @ [e])) else None)" for a b
      using assms(1) False unfolding m'_eq um_get_set by (auto simp: merged_so_far_def snoc)
    with assms(1) show ?thesis by (simp add: merged_so_far_def m'_eq)
  qed
qed

lemma merge_edges_fold:
  "rfold (merge_edge_into nm) es m = Inr m' \<Longrightarrow> merged_so_far nm pre m \<Longrightarrow> merged_so_far nm (pre @ es) m'"
proof (induction es arbitrary: m pre)
  case (Cons e es)
  then obtain m1 where "merge_edge_into nm e m = Inr m1" "rfold (merge_edge_into nm) es m1 = Inr m'"
    by (auto simp: rbind_eq_Inr)
  with Cons.IH [of m1 "pre @ [e]"] merge_edge_into_step [OF Cons.prems(2)] show ?case by simp
qed simp

lemma merge_edges_total:
  "\<forall>e \<in> set es. e_src e \<in> fst ` set nm \<and> e_tgt e \<in> fst ` set nm \<Longrightarrow> \<exists>m'. rfold (merge_edge_into nm) es m = Inr m'"
proof (induction es arbitrary: m)
  case (Cons e es)
  then obtain s t where "um_get nm (e_src e) = Some s" "um_get nm (e_tgt e) = Some t"
    by (metis list.set_intros(1) map_of_eq_None_iff option.exhaust)
  then obtain m1 where "merge_edge_into nm e m = Inr m1"
    by (simp add: merge_edge_into_def um_contains_def um_at_def)
  with Cons show ?case by simp
qed simp

lemma mergeEdges_result:
  assumes "mergeEdges es nm = Inr ms"
  shows "distinct (map (\<lambda>e. (e_src e, e_tgt e)) ms)"
    and "m \<in> set ms \<Longrightarrow> e_src m \<noteq> e_tgt m \<and> e_subs m = edges_between nm (e_src m) (e_tgt m) es \<and> e_subs m \<noteq> []"
    and "s \<noteq> t \<Longrightarrow> edges_between nm s t es \<noteq> [] \<Longrightarrow> \<exists>m \<in> set ms. e_src m = s \<and> e_tgt m = t"
proof -
  obtain um where run: "rfold (merge_edge_into nm) es [] = Inr um"
    and ms: "ms = map (\<lambda>(key, ses). MLEdge (fst key) (snd key) ses []) um"
    using assms by (auto simp: mergeEdges_def rbind_eq_Inr)
  have "merged_so_far nm [] []" by (simp add: merged_so_far_def edges_between_def)
  with merge_edges_fold [OF run] have inv: "merged_so_far nm es um" by fastforce
  then have ok: "um_ok um" by (simp add: merged_so_far_def)
  have "map (\<lambda>e. (e_src e, e_tgt e)) ms = map fst um" by (simp add: ms comp_def case_prod_unfold)
  with ok show "distinct (map (\<lambda>e. (e_src e, e_tgt e)) ms)" by (simp add: um_ok_def)
  have get: "um_get um (s, t) = (if s \<noteq> t \<and> edges_between nm s t es \<noteq> [] then Some (edges_between nm s t es) else None)"
    for s t using inv by (simp add: merged_so_far_def)
  show "e_src m \<noteq> e_tgt m \<and> e_subs m = edges_between nm (e_src m) (e_tgt m) es \<and> e_subs m \<noteq> []" if mm: "m \<in> set ms"
  proof -
    obtain s t ses where m: "((s, t), ses) \<in> set um" "m = MLEdge s t ses []" using mm by (auto simp: ms)
    then have "um_get um (s, t) = Some ses" using ok by (simp add: um_get_mem)
    with get [of s t] m(2) show ?thesis by (auto split: if_splits)
  qed
  show "\<exists>m \<in> set ms. e_src m = s \<and> e_tgt m = t" if "s \<noteq> t" "edges_between nm s t es \<noteq> []"
  proof -
    have "um_get um (s, t) = Some (edges_between nm s t es)" using get [of s t] that by simp
    then have "((s, t), edges_between nm s t es) \<in> set um" by (rule map_of_SomeD)
    then show ?thesis by (force simp: ms)
  qed
qed


section \<open>Convexity\<close>

text \<open>
  Fusing the ends of an edge keeps a graph acyclic exactly when there is no other path between
  them; this is what the reachability test of \<open>isConvex\<close> decides.
\<close>

definition contract :: "nat \<Rightarrow> nat \<Rightarrow> (nat \<times> nat) set \<Rightarrow> (nat \<times> nat) set" where
  "contract u v E = ((\<lambda>(a, b). (if a = v then u else a, if b = v then u else b)) ` E) - Id"

definition fibre :: "nat \<Rightarrow> nat \<Rightarrow> nat \<Rightarrow> nat set" where
  "fibre u v x = (if x = u then {u, v} else {x})"

lemma contract_arc:
  "(a, b) \<in> contract u v E \<Longrightarrow>
   \<exists>a' \<in> fibre u v a. \<exists>b' \<in> fibre u v b. (a', b') \<in> E - {(u, v)} \<and> a \<noteq> b"
  by (auto simp: contract_def fibre_def split: if_splits)

lemma contract_path:
  assumes "(a, b) \<in> (contract u v E)\<^sup>+"
  shows "(\<exists>a' \<in> fibre u v a. \<exists>b' \<in> fibre u v b. (a', b') \<in> (E - {(u, v)})\<^sup>+) \<or>
    (\<exists>a' \<in> fibre u v a. \<exists>p \<in> {u, v}. \<exists>q \<in> {u, v}. \<exists>b' \<in> fibre u v b.
       (a', p) \<in> (E - {(u, v)})\<^sup>* \<and> (q, b') \<in> (E - {(u, v)})\<^sup>*)"
  (is "?direct b \<or> ?through b")
  using assms
proof (induction rule: trancl_induct)
  case (base b)
  then show ?case using contract_arc [of a b u v E] by blast
next
  case (step b c)
  obtain b0 c0 where arc: "b0 \<in> fibre u v b" "c0 \<in> fibre u v c" "(b0, c0) \<in> E - {(u, v)}"
    using contract_arc [OF step.hyps(2)] by blast
  have same: "b' = b0 \<or> b' \<in> {u, v} \<and> b0 \<in> {u, v}" if "b' \<in> fibre u v b" for b'
    using that arc(1) by (auto simp: fibre_def split: if_splits)
  from step.IH show ?case
  proof
    assume "?direct b"
    then obtain a' b' where d: "a' \<in> fibre u v a" "b' \<in> fibre u v b" "(a', b') \<in> (E - {(u, v)})\<^sup>+" by blast
    from same [OF d(2)] show ?thesis
    proof
      assume "b' = b0"
      with d(3) arc(3) have "(a', c0) \<in> (E - {(u, v)})\<^sup>+" by (metis trancl_into_trancl)
      with d(1) arc(2) show ?thesis by blast
    next
      assume "b' \<in> {u, v} \<and> b0 \<in> {u, v}"
      moreover have "(a', b') \<in> (E - {(u, v)})\<^sup>*" "(b0, c0) \<in> (E - {(u, v)})\<^sup>*"
        using d(3) arc(3) by (simp_all only: trancl_into_rtrancl r_into_rtrancl)
      ultimately show ?thesis using d(1) arc(2) by blast
    qed
  next
    assume "?through b"
    then obtain a' p q b' where t: "a' \<in> fibre u v a" "p \<in> {u, v}" "q \<in> {u, v}" "b' \<in> fibre u v b"
      "(a', p) \<in> (E - {(u, v)})\<^sup>*" "(q, b') \<in> (E - {(u, v)})\<^sup>*" by blast
    from same [OF t(4)] show ?thesis
    proof
      assume "b' = b0"
      with t(6) arc(3) have "(q, c0) \<in> (E - {(u, v)})\<^sup>*" by (metis rtrancl_into_rtrancl)
      with t arc(2) show ?thesis by blast
    next
      assume "b' \<in> {u, v} \<and> b0 \<in> {u, v}"
      moreover have "(b0, c0) \<in> (E - {(u, v)})\<^sup>*" using arc(3) by (rule r_into_rtrancl)
      ultimately show ?thesis using t arc(2) by blast
    qed
  qed
qed

lemma contract_acyclic:
  assumes acyc: "acyclic E" and uv: "(u, v) \<in> E" and convex: "(u, v) \<notin> (E - {(u, v)})\<^sup>*"
  shows "acyclic (contract u v E)"
proof (rule acyclicI, intro allI notI)
  fix x
  let ?E = "E - {(u, v)}" and ?C = "contract u v E"
  have sub: "?E\<^sup>* \<subseteq> E\<^sup>*" "?E\<^sup>+ \<subseteq> E\<^sup>+" by (rule rtrancl_mono, blast) (auto intro: trancl_mono)
  have no: "(w, w) \<notin> E\<^sup>+" for w using acyc by (simp add: acyclic_def)
  have cyc: False if w: "(w, w) \<in> ?C\<^sup>+" "w \<noteq> u" "w \<noteq> v" for w
  proof -
    have fib: "fibre u v w = {w}" using w(2) by (simp add: fibre_def)
    from contract_path [OF w(1)] show False
    proof
      assume "\<exists>a' \<in> fibre u v w. \<exists>b' \<in> fibre u v w. (a', b') \<in> ?E\<^sup>+"
      with fib no sub show False by auto
    next
      assume "\<exists>a' \<in> fibre u v w. \<exists>p \<in> {u, v}. \<exists>q \<in> {u, v}. \<exists>b' \<in> fibre u v w. (a', p) \<in> ?E\<^sup>* \<and> (q, b') \<in> ?E\<^sup>*"
      then obtain p q where pq: "p \<in> {u, v}" "q \<in> {u, v}" "(w, p) \<in> ?E\<^sup>*" "(q, w) \<in> ?E\<^sup>*"
        using fib by auto
      have "(w, p) \<in> E\<^sup>+" using pq(1,3) w(2,3) sub(1) by (metis insert_iff rtranclD singletonD subsetD)
      moreover have "(q, w) \<in> E\<^sup>*" using pq(4) sub by blast
      ultimately have qp: "(q, p) \<in> E\<^sup>+" by (rule rtrancl_trancl_trancl [rotated])
      show False
      proof (cases "q = u \<and> p = v")
        case True
        with pq(3,4) have "(u, v) \<in> ?E\<^sup>*" by auto
        with convex show False ..
      next
        case False
        then consider "q = p" | "q = v" "p = u" using pq(1,2) by blast
        then show False
        proof cases
          case 1
          with qp no show False by simp
        next
          case 2
          with qp uv have "(v, v) \<in> E\<^sup>+" by auto
          with no show False ..
        qed
      qed
    qed
  qed
  have "u \<noteq> v" using uv no by auto
  then have out: "w \<noteq> v" if "(y, w) \<in> ?C" for y w
    using that by (auto simp: contract_def split: if_splits)
  assume x: "(x, x) \<in> ?C\<^sup>+"
  then obtain y where y: "(x, y) \<in> ?C" "(y, x) \<in> ?C\<^sup>*" by (auto dest: tranclD)
  then have "(y, y) \<in> ?C\<^sup>+" by auto
  moreover have "x \<noteq> y" using y(1) by (auto simp: contract_def)
  moreover have "x \<noteq> v" using x out by (auto dest: tranclD2)
  ultimately show False using cyc [OF x] cyc [of y] out [OF y(1)] by blast
qed

lemma contract_cyclic:
  assumes acyc: "acyclic E" and uv: "(u, v) \<in> E" and path: "(u, v) \<in> (E - {(u, v)})\<^sup>*"
  shows "\<not> acyclic (contract u v E)"
proof -
  let ?E = "E - {(u, v)}" and ?C = "contract u v E" and ?f = "\<lambda>x. if x = v then u else x"
  have no: "(w, w) \<notin> E\<^sup>+" for w using acyc by (simp add: acyclic_def)
  then have "u \<noteq> v" using uv by auto
  with path obtain w where w: "(u, w) \<in> ?E" "(w, v) \<in> ?E\<^sup>*" by (meson converse_rtranclE)
  have "w \<noteq> u" "w \<noteq> v" using w(1) no by auto
  then have "(u, w) \<in> ?C" using w(1) \<open>u \<noteq> v\<close> by (force simp: contract_def)
  moreover have "(?f w, ?f y) \<in> ?C\<^sup>*" if "(w, y) \<in> ?E\<^sup>*" for y
    using that
  proof (induction rule: rtrancl_induct)
    case (step y z)
    have "(?f y, ?f z) \<in> ?C \<or> ?f y = ?f z" using step.hyps(2) by (force simp: contract_def)
    with step.IH show ?case by auto
  qed simp
  from this [OF w(2)] have "(w, u) \<in> ?C\<^sup>*" using \<open>w \<noteq> v\<close> by simp
  ultimately have "(u, u) \<in> ?C\<^sup>+" by auto
  then show ?thesis by (auto simp: acyclic_def)
qed


section \<open>Properties\<close>

text \<open>
  C1. Merging two subgraphs preserves executability and meaning. For subgraphs in good order the
  merge succeeds, its graph is again in good order and has no unused value; and if the nodes of both
  are satisfied by a valuation (the run of the whole model), then running the merged graph on any
  inputs taken from that valuation yields the values of its outputs.
\<close>

theorem merge_preserves_meaning:
  assumes "graph_inv (m_graph n1)" "graph_inv (m_graph n2)"
    and "ids_compatible (nodes (m_graph n1)) (nodes (m_graph n2))"
    and "\<forall>k \<in> set (nodes (m_graph n1)) \<union> set (nodes (m_graph n2)). satisfies sem eps k"
    and "part_of env eps" "set (g_inputs (m_graph n1)) \<union> set (g_inputs (m_graph n2)) - set (g_outputs (m_graph n1)) \<subseteq> dom env"
      "set (g_inputs (m_graph n1)) \<subseteq> dom env" "{i \<in> set (g_inputs (m_graph n2)). is_param_input (m_graph n2) i} \<subseteq> dom env"
  shows "\<exists>n. merge_nodes gen n1 n2 all es = Inr n \<and> graph_inv (m_graph n) \<and> noUnusedValue (m_graph n) \<and>
     set (g_outputs (m_graph n2)) \<subseteq> set (g_outputs (m_graph n)) \<and>
     set (g_outputs (m_graph n1)) \<inter> n_getRequiredInputs n1 n2 all \<subseteq> set (g_outputs (m_graph n)) \<and>
     run_graph sem (m_graph n) env = Some (map (\<lambda>x. Some (eps x)) (g_outputs (m_graph n)))"
proof -
  obtain n where n: "merge_req gen n1 n2 (n_getRequiredInputs n1 n2 all) es = Inr n" "graph_inv (m_graph n)"
    "noUnusedValue (m_graph n)" "set (nodes (m_graph n)) \<subseteq> set (nodes (m_graph n1)) \<union> set (nodes (m_graph n2))"
    "g_outputs (m_graph n) = filter (\<lambda>o1. o1 \<notin> set (g_inputs (m_graph n2)) \<or> o1 \<in> n_getRequiredInputs n1 n2 all)
       (g_outputs (m_graph n1)) @ g_outputs (m_graph n2)"
    "set (g_inputs (m_graph n)) \<subseteq> set (g_inputs (m_graph n1)) \<union>
       {i \<in> set (g_inputs (m_graph n2)). is_param_input (m_graph n2) i \<or> i \<notin> set (g_outputs (m_graph n1))}"
    by (rule merge_req_inv [OF assms(1-3)])
  have "\<forall>k \<in> set (nodes (m_graph n)). satisfies sem eps k" using n(4) assms(4) by blast
  moreover have "set (g_inputs (m_graph n)) \<subseteq> dom env" using n(6) assms(6-8) by blast
  ultimately have "run_graph sem (m_graph n) env = Some (map (\<lambda>x. Some (eps x)) (g_outputs (m_graph n)))"
    using graph_meaning [OF n(2) _ assms(5)] by blast
  with n show ?thesis by (auto simp: merge_nodes_def)
qed

definition demo_ml :: "string \<Rightarrow> string \<Rightarrow> string \<Rightarrow> MLNode" where
  "demo_ml name x y = MLNode name ((demo_graph [demo_node name [x] [y]] [x] [y])\<lparr>g_name := name\<rparr>) [] []"

theorem merge_preserves_meaning_witness:
  "\<exists>n. merge_nodes (\<lambda>_. ''0'') (demo_ml ''f'' ''x'' ''y'') (demo_ml ''g'' ''y'' ''z'') [] [] = Inr n \<and>
     run_graph (\<lambda>f a j. hd a + (1 :: int)) (m_graph n) [''x'' \<mapsto> 0] =
       Some (map (\<lambda>x. Some (if x = ''x'' then 0 else if x = ''y'' then 1 else 2)) (g_outputs (m_graph n)))"
proof -
  let ?n1 = "demo_ml ''f'' ''x'' ''y''" and ?n2 = "demo_ml ''g'' ''y'' ''z''"
  let ?eps = "\<lambda>x. if x = ''x'' then 0 else if x = ''y'' then 1 else (2 :: int)"
  have io: "g_inputs (m_graph (demo_ml a x y)) = [x]" "g_outputs (m_graph (demo_ml a x y)) = [y]"
    "nodes (m_graph (demo_ml a x y)) = [demo_node a [x] [y]]" "\<not> is_param_input (m_graph (demo_ml a x y)) x" for a x y
    by (simp_all add: demo_ml_def demo_graph_def is_param_input_def mkIRValue_def)
  have inv: "graph_inv (m_graph (demo_ml a x y))" if "x \<noteq> y" for a x y
    by (simp add: demo_ml_def graph_inv_def demo_graph_def demo_node_def mkIRNode_def values_ok_def um_ok_def
        single_output_def ids_distinct_def verifyNodeInputs_def outputs_defined_def)
  have "\<exists>n. merge_nodes (\<lambda>_. ''0'') ?n1 ?n2 [] [] = Inr n \<and> graph_inv (m_graph n) \<and> noUnusedValue (m_graph n) \<and>
     set (g_outputs (m_graph ?n2)) \<subseteq> set (g_outputs (m_graph n)) \<and>
     set (g_outputs (m_graph ?n1)) \<inter> n_getRequiredInputs ?n1 ?n2 [] \<subseteq> set (g_outputs (m_graph n)) \<and>
     run_graph (\<lambda>f a j. hd a + 1) (m_graph n) [''x'' \<mapsto> 0] = Some (map (\<lambda>x. Some (?eps x)) (g_outputs (m_graph n)))"
  proof (rule merge_preserves_meaning)
    show "ids_compatible (nodes (m_graph ?n1)) (nodes (m_graph ?n2))"
      by (simp add: io ids_compatible_def demo_node_def mkIRNode_def)
    show "\<forall>k \<in> set (nodes (m_graph ?n1)) \<union> set (nodes (m_graph ?n2)). satisfies (\<lambda>f a j. hd a + 1) ?eps k"
      by (simp add: io satisfies_def demo_node_def mkIRNode_def)
    show "part_of [''x'' \<mapsto> 0] ?eps" by (simp add: part_of_def)
    show "{i \<in> set (g_inputs (m_graph ?n2)). is_param_input (m_graph ?n2) i} \<subseteq> dom [''x'' \<mapsto> 0]"
      using io(4) by (auto simp: io)
  qed (simp_all add: inv io)
  then show ?thesis by blast
qed

text \<open>
  C30. \<open>mergeEdges\<close> groups the edges of the level below: when every endpoint is mapped it succeeds;
  there is one edge per ordered pair of different target nodes that some edge connects, no edge from
  a node to itself, and its sub-edges are all the edges that map to that pair, in their order.
\<close>

theorem mergeEdges_groups:
  assumes "\<forall>e \<in> set es. e_src e \<in> fst ` set nm \<and> e_tgt e \<in> fst ` set nm"
  shows "\<exists>ms. mergeEdges es nm = Inr ms \<and> distinct (map (\<lambda>e. (e_src e, e_tgt e)) ms) \<and>
     (\<forall>m \<in> set ms. e_src m \<noteq> e_tgt m \<and> e_subs m = edges_between nm (e_src m) (e_tgt m) es) \<and>
     (\<forall>s t. s \<noteq> t \<and> edges_between nm s t es \<noteq> [] \<longrightarrow> (\<exists>m \<in> set ms. e_src m = s \<and> e_tgt m = t))"
proof -
  obtain ms where ms: "mergeEdges es nm = Inr ms"
    using merge_edges_total [OF assms, of "[]"] by (auto simp: mergeEdges_def)
  from mergeEdges_result [OF ms] ms show ?thesis by blast
qed

theorem mergeEdges_groups_witness:
  "\<exists>ms. mergeEdges [MLEdge ''a'' ''b'' [] [], MLEdge ''b'' ''c'' [] []] [(''a'', ''P''), (''b'', ''P''), (''c'', ''Q'')] = Inr ms \<and>
     distinct (map (\<lambda>e. (e_src e, e_tgt e)) ms)"
  using mergeEdges_groups [of "[MLEdge ''a'' ''b'' [] [], MLEdge ''b'' ''c'' [] []]"
      "[(''a'', ''P''), (''b'', ''P''), (''c'', ''Q'')]"] by auto

text \<open>
  C29. \<open>isConvex\<close> is the exact test for merging the ends of an edge of an acyclic graph: it returns
  true if and only if the graph stays acyclic when the two nodes become one.
\<close>

theorem isConvex_decides_acyclicity:
  assumes "reach_law reach" "acyclic (set (arcs g))" "(n1, n2) \<in> set (arcs g)"
  shows "fst (isConvex reach n1 n2 g) = acyclic (contract n1 n2 (set (arcs g)))"
proof -
  have "fst (isConvex reach n1 n2 g) = ((n1, n2) \<notin> (set (arcs g) - {(n1, n2)})\<^sup>*)"
    using assms(1) by (simp add: isConvex_def reach_law_def Let_def)
  then show ?thesis using contract_acyclic [OF assms(2,3)] contract_cyclic [OF assms(2,3)] by blast
qed

theorem isConvex_decides_acyclicity_witness:
  "fst (isConvex (\<lambda>es a b. (a, b) \<in> (set es)\<^sup>*) 0 1 \<lparr>verts = [demo_ml ''f'' ''x'' ''y'', demo_ml ''g'' ''y'' ''z''], edges = [(0, 1, default_edge)]\<rparr>) =
   acyclic (contract 0 1 (set (arcs \<lparr>verts = [demo_ml ''f'' ''x'' ''y'', demo_ml ''g'' ''y'' ''z''], edges = [(0, 1, default_edge)]\<rparr>)))"
  by (rule isConvex_decides_acyclicity) (simp_all add: reach_law_def arcs_def acyclic_insert acyclic_def [of "{}"])

text \<open>
  \<open>isConvex\<close> does not restore the edge it takes out: afterwards the edge between the two nodes
  is a default-constructed one, without source, target, sub-edges or base edges.
\<close>

lemma isConvex_resets_edge:
  "{e. (n1, n2, e) \<in> set (edges (snd (isConvex reach n1 n2 g)))} = {default_edge}"
  by (auto simp: isConvex_def Let_def add_edge_def remove_edge_def)

end
