(* ===== verification/Profiler_Util.thy ===== *)
theory Profiler_Util
  imports IR_Semantics
begin

text \<open>
  Cost estimates and the profile cache (\<open>graph/ProfilerUtil.h\<close>, \<open>graph/ProfilerUtil.cpp\<close>, and the
  record of \<open>comp/GraphProfiler.h\<close>). Running a subgraph on the device is a parameter
  (\<open>profiler\<close>), which returns the profiles of the graphs it was given or throws with a message.
  Times are \<open>long\<close>, modelled by integers; the conversions through \<open>double\<close> are exact for sizes
  below \<open>2 ^ 53 / 10 ^ 6\<close> bytes and are written as exact divisions that truncate.
\<close>

section \<open>Sizes and times\<close>

definition calcSize :: "IRGraph \<Rightarrow> string list \<Rightarrow> size_t res" where
  "calcSize g names =
     rbind (rmap (getValue g) names) (\<lambda>vals. sum_sizes (filter (\<lambda>v. \<not> is_param v) vals))"

definition calcInputSize :: "IRGraph \<Rightarrow> size_t res" where
  "calcInputSize g = calcSize g (g_inputs g)"

definition calcOutputSize :: "IRGraph \<Rightarrow> size_t res" where
  "calcOutputSize g = calcSize g (g_outputs g)"

definition calcCommTime :: "int \<Rightarrow> int" where
  "calcCommTime cut_size = tdiv (cut_size * 10 ^ 6) (20 * 1024 * 1024 * 1024)"

definition calcAllReduceTime :: "int \<Rightarrow> int" where
  "calcAllReduceTime sz = tdiv (sz * 10 ^ 6) (10 * 1024 * 1024 * 1024)"

text \<open>An unsigned division of a \<open>size_t\<close> whose result is used as a \<open>long\<close>.\<close>

definition udiv :: "size_t \<Rightarrow> size_t \<Rightarrow> int res" where
  "udiv a b = (if b = 0 then Inl Undefined_behaviour else Inr (sint (a div b)))"

definition calcInputCommTime :: "IRGraph \<Rightarrow> int \<Rightarrow> int res" where
  "calcInputCommTime g repl =
     rbind (calcInputSize g) (\<lambda>s. rbind (udiv s (word_of_int repl)) (\<lambda>q. Inr (calcCommTime q)))"

definition calcOutputCommTime :: "IRGraph \<Rightarrow> int \<Rightarrow> int res" where
  "calcOutputCommTime g repl =
     rbind (calcOutputSize g) (\<lambda>s. rbind (udiv s (word_of_int repl)) (\<lambda>q. Inr (calcCommTime q)))"

section \<open>Profiles and memory\<close>

record GraphProfile =
  gp_name :: string
  fwd_time :: int
  bwd_time :: int
  max_allocated_mem :: int
  gp_checkpointing :: bool

definition calcGraphMem :: "int \<Rightarrow> IRGraph \<Rightarrow> GraphProfile \<Rightarrow> bool \<Rightarrow> bool \<Rightarrow> int \<Rightarrow> size_t res" where
  "calcGraphMem opt_param_factor g prof use_amp_master_params enable_zero zero_dist_num =
     rbind (getOptMemSize g opt_param_factor use_amp_master_params enable_zero zero_dist_num) (\<lambda>opt_mem.
     Inr (word_of_int (max_allocated_mem prof) + opt_mem))"

text \<open>\<open>ceil(a / (double) b)\<close>; a division by zero yields an infinity, which no \<open>size_t\<close> represents.\<close>

definition ceil_size :: "int \<Rightarrow> int \<Rightarrow> int res" where
  "ceil_size a b = (if b = 0 then Inl Undefined_behaviour else Inr (ceil_div a b))"

definition calcGraphMem_repl ::
    "(nat \<Rightarrow> string) \<Rightarrow> int \<Rightarrow> IRGraph \<Rightarrow> GraphProfile \<Rightarrow> int \<Rightarrow> int \<Rightarrow> int \<Rightarrow> bool \<Rightarrow> bool \<Rightarrow> size_t res" where
  "calcGraphMem_repl gen opt_param_factor g prof batch_size replica_num pipeline_num use_amp_master_params enable_zero =
     rbind (ceil_size batch_size (replica_num * pipeline_num)) (\<lambda>bs.
     let scaled = g_setBatchSize bs (renameIRGraph ''scaled'' g) in
     rbind (calcGraphMem opt_param_factor g prof use_amp_master_params enable_zero replica_num) (\<lambda>mem.
     rbind (calcCommBufSize gen scaled pipeline_num) (\<lambda>buf. Inr (mem + buf))))"

definition fitToMem :: "int \<Rightarrow> IRGraph \<Rightarrow> GraphProfile \<Rightarrow> int \<Rightarrow> bool \<Rightarrow> bool res" where
  "fitToMem opt_param_factor g prof capacity use_amp_master_params =
     rbind (calcGraphMem opt_param_factor g prof use_amp_master_params False 1) (\<lambda>m. Inr (m < word_of_int capacity))"

definition LONG_MAX :: int where
  "LONG_MAX = 2 ^ 63 - 1"

text \<open>\<open>LONG_MAX / 1024\<close>; the name and the flag of the error profile are not set by the code.\<close>

definition ERROR_VAL :: int where
  "ERROR_VAL = (2 ^ 63 - 1) div 1024"

definition makeErrorProfile :: GraphProfile where
  "makeErrorProfile =
     \<lparr>gp_name = [], fwd_time = ERROR_VAL, bwd_time = ERROR_VAL, max_allocated_mem = ERROR_VAL, gp_checkpointing = False\<rparr>"

section \<open>The profile cache\<close>

record MLProfileKey =
  k_id :: string
  k_batch_size :: int
  k_checkpointing :: bool

record ProfilerUtil =
  profile_cache :: "(MLProfileKey, GraphProfile) umap"
  max_batch_size_cache :: "(bool, (string, int) umap) umap"

definition new_ProfilerUtil :: ProfilerUtil where
  "new_ProfilerUtil = \<lparr>profile_cache = [], max_batch_size_cache = []\<rparr>"

text \<open>
  The result of \<open>profiler_->profile(graphs, iteration, replica_num, checkpointing)\<close>: a table of
  profiles, or an exception with its message.
\<close>

datatype prof_outcome =
    Profiled "(string, GraphProfile) umap"
  | Prof_throws string

type_synonym profiler = "(string, IRGraph) umap \<Rightarrow> int \<Rightarrow> int \<Rightarrow> bool \<Rightarrow> prof_outcome"

definition out_of_memory :: "string \<Rightarrow> bool" where
  "out_of_memory msg \<longleftrightarrow>
     find_from msg ''CUDA out of memory'' 0 \<noteq> None \<or> find_from msg ''Too many elements'' 0 \<noteq> None"

definition SIZE_MAX :: int where
  "SIZE_MAX = 2 ^ 64 - 1"

definition max_bs_of :: "ProfilerUtil \<Rightarrow> bool \<Rightarrow> string \<Rightarrow> int option" where
  "max_bs_of s cp name = um_get (um_ref [] (max_batch_size_cache s) cp) name"

definition set_max_bs :: "bool \<Rightarrow> string \<Rightarrow> int \<Rightarrow> ProfilerUtil \<Rightarrow> ProfilerUtil" where
  "set_max_bs cp name bs s =
     s\<lparr>max_batch_size_cache :=
         um_set cp (um_set name bs (um_ref [] (max_batch_size_cache s) cp)) (max_batch_size_cache s)\<rparr>"

definition cache_profile :: "MLProfileKey \<Rightarrow> GraphProfile \<Rightarrow> ProfilerUtil \<Rightarrow> ProfilerUtil" where
  "cache_profile k p s = s\<lparr>profile_cache := um_set k p (profile_cache s)\<rparr>"

definition init_max_bs :: "bool \<Rightarrow> string \<Rightarrow> ProfilerUtil \<Rightarrow> ProfilerUtil" where
  "init_max_bs cp name s = (if max_bs_of s cp name = None then set_max_bs cp name SIZE_MAX s else s)"

text \<open>What happens on a miss of the cache, when the batch size may fit: the device is asked.\<close>

definition run_profiler ::
    "profiler \<Rightarrow> IRGraph \<Rightarrow> MLProfileKey \<Rightarrow> int \<Rightarrow> (ProfilerUtil, GraphProfile) st" where
  "run_profiler profiler g k replica_num s =
     (case profiler [(g_name g, g)] 3 replica_num (k_checkpointing k) of
        Profiled node_profiles \<Rightarrow>
          rbind (rassert (length node_profiles = 1)) (\<lambda>_.
          let p = snd (hd node_profiles) in Inr (p, cache_profile k p s))
      | Prof_throws msg \<Rightarrow>
          if \<not> out_of_memory msg then Inl Runtime_error
          else (let s1 = cache_profile k makeErrorProfile s;
                    s2 = (if the (max_bs_of s1 (k_checkpointing k) (g_name g)) \<ge> k_batch_size k
                          then set_max_bs (k_checkpointing k) (g_name g) (to_size (k_batch_size k - 1)) s1 else s1)
                in Inr (makeErrorProfile, s2)))"

definition profile :: "profiler \<Rightarrow> IRGraph \<Rightarrow> int \<Rightarrow> int \<Rightarrow> bool \<Rightarrow> (ProfilerUtil, GraphProfile) st" where
  "profile profiler g batch_size replica_num checkpointing s =
     rbind (rassert (replica_num > 0)) (\<lambda>_.
     rbind (ceil_size batch_size replica_num) (\<lambda>bs.
     let k = \<lparr>k_id = g_name g, k_batch_size = bs, k_checkpointing = checkpointing\<rparr> in
     case um_get (profile_cache s) k of
       Some p \<Rightarrow> Inr (p, s)
     | None \<Rightarrow>
         (let s1 = init_max_bs checkpointing (g_name g) s;
              max_bs = the (max_bs_of s1 checkpointing (g_name g))
          in if max_bs < bs then Inr (makeErrorProfile, cache_profile k makeErrorProfile s1)
             else run_profiler profiler g k replica_num s1)))"


section \<open>What the cache keeps\<close>

record prof_request =
  rq_graph :: IRGraph
  rq_batch :: int
  rq_repl :: int
  rq_cp :: bool

definition request :: "profiler \<Rightarrow> prof_request \<Rightarrow> (ProfilerUtil, GraphProfile) st" where
  "request profiler q = profile profiler (rq_graph q) (rq_batch q) (rq_repl q) (rq_cp q)"

definition size_request :: "prof_request \<Rightarrow> bool" where
  "size_request q \<longleftrightarrow> 0 < rq_batch q \<and> rq_batch q < 2 ^ 64"

definition key_of :: "prof_request \<Rightarrow> MLProfileKey" where
  "key_of q = \<lparr>k_id = g_name (rq_graph q), k_batch_size = ceil_div (rq_batch q) (rq_repl q), k_checkpointing = rq_cp q\<rparr>"

lemma ceil_div_pos: "0 < a \<Longrightarrow> 0 < b \<Longrightarrow> 0 < ceil_div a b"
  using pos_imp_zdiv_neg_iff [of b "- a"] by (simp add: ceil_div_def)

lemma ceil_div_le: "0 < a \<Longrightarrow> 0 < b \<Longrightarrow> ceil_div a b \<le> a"
proof -
  assume ab: "0 < a" "0 < b"
  have "(- a) * b \<le> - a" using ab by (simp add: mult_le_cancel_left1)
  then have "(- a) * b div b \<le> (- a) div b" using ab(2) by (rule zdiv_mono1)
  moreover have "(- a) * b div b = - a" using ab(2) by (intro nonzero_mult_div_cancel_right) simp
  ultimately show ?thesis by (simp add: ceil_div_def)
qed

lemma max_bs_set [simp]:
  "max_bs_of (set_max_bs cp name b s) cp' name' =
    (if cp' = cp \<and> name' = name then Some b else max_bs_of s cp' name')"
  "profile_cache (set_max_bs cp name b s) = profile_cache s"
  by (simp_all add: max_bs_of_def set_max_bs_def um_ref_def um_get_set)

lemma cache_profile_simps [simp]:
  "profile_cache (cache_profile k p s) = um_set k p (profile_cache s)"
  "max_bs_of (cache_profile k p s) cp name = max_bs_of s cp name"
  by (simp_all add: cache_profile_def max_bs_of_def)

lemma init_max_bs_simps [simp]:
  "profile_cache (init_max_bs cp name s) = profile_cache s"
  "max_bs_of (init_max_bs cp name s) cp' name' =
    (if cp' = cp \<and> name' = name \<and> max_bs_of s cp name = None then Some SIZE_MAX else max_bs_of s cp' name')"
  by (simp_all add: init_max_bs_def)

lemma request_unfold:
  "rq_repl q > 0 \<Longrightarrow> request profiler q s =
     (case um_get (profile_cache s) (key_of q) of
        Some p \<Rightarrow> Inr (p, s)
      | None \<Rightarrow>
          if the (max_bs_of (init_max_bs (rq_cp q) (g_name (rq_graph q)) s) (rq_cp q) (g_name (rq_graph q))) < k_batch_size (key_of q)
          then Inr (makeErrorProfile, cache_profile (key_of q) makeErrorProfile (init_max_bs (rq_cp q) (g_name (rq_graph q)) s))
          else run_profiler profiler (rq_graph q) (key_of q) (rq_repl q) (init_max_bs (rq_cp q) (g_name (rq_graph q)) s))"
  by (cases "um_get (profile_cache s) (key_of q)")
     (simp_all add: request_def profile_def ceil_size_def key_of_def Let_def)

text \<open>The ways a request can succeed.\<close>

lemma request_cases:
  assumes "request profiler q s = Inr (p, s')"
  obtains (hit) "um_get (profile_cache s) (key_of q) = Some p" "s' = s" "rq_repl q > 0"
  | (pruned) m where "um_get (profile_cache s) (key_of q) = None" "p = makeErrorProfile" "rq_repl q > 0"
      "max_bs_of s' (rq_cp q) (g_name (rq_graph q)) = Some m" "m < k_batch_size (key_of q)"
      "s' = cache_profile (key_of q) p (init_max_bs (rq_cp q) (g_name (rq_graph q)) s)"
  | (ran) ps m where "um_get (profile_cache s) (key_of q) = None" "rq_repl q > 0"
      "profiler [(g_name (rq_graph q), rq_graph q)] 3 (rq_repl q) (rq_cp q) = Profiled ps" "length ps = 1" "p = snd (hd ps)"
      "max_bs_of (init_max_bs (rq_cp q) (g_name (rq_graph q)) s) (rq_cp q) (g_name (rq_graph q)) = Some m"
      "k_batch_size (key_of q) \<le> m"
      "s' = cache_profile (key_of q) p (init_max_bs (rq_cp q) (g_name (rq_graph q)) s)"
  | (oom) msg m where "um_get (profile_cache s) (key_of q) = None" "p = makeErrorProfile" "rq_repl q > 0"
      "profiler [(g_name (rq_graph q), rq_graph q)] 3 (rq_repl q) (rq_cp q) = Prof_throws msg" "out_of_memory msg"
      "max_bs_of (init_max_bs (rq_cp q) (g_name (rq_graph q)) s) (rq_cp q) (g_name (rq_graph q)) = Some m"
      "k_batch_size (key_of q) \<le> m"
      "s' = set_max_bs (rq_cp q) (g_name (rq_graph q)) (to_size (k_batch_size (key_of q) - 1))
              (cache_profile (key_of q) p (init_max_bs (rq_cp q) (g_name (rq_graph q)) s))"
proof -
  let ?g = "rq_graph q" and ?k = "key_of q" and ?cp = "rq_cp q"
  let ?s1 = "init_max_bs ?cp (g_name ?g) s"
  have r: "rq_repl q > 0" using assms by (auto simp: request_def profile_def rbind_eq_Inr)
  obtain m where m: "max_bs_of ?s1 ?cp (g_name ?g) = Some m"
    by (cases "max_bs_of s ?cp (g_name ?g)") auto
  have kk: "k_checkpointing ?k = ?cp" "k_id ?k = g_name ?g" by (simp_all add: key_of_def)
  have run: "(case um_get (profile_cache s) ?k of Some p \<Rightarrow> Inr (p, s)
     | None \<Rightarrow> if m < k_batch_size ?k then Inr (makeErrorProfile, cache_profile ?k makeErrorProfile ?s1)
               else run_profiler profiler ?g ?k (rq_repl q) ?s1) = Inr (p, s')"
    using assms m by (simp only: request_unfold [OF r] option.sel)
  show ?thesis
  proof (cases "um_get (profile_cache s) ?k")
    case (Some p')
    with run have "p' = p" "s' = s" by simp_all
    with Some r show ?thesis by (intro hit) simp_all
  next
    case None
    show ?thesis
    proof (cases "m < k_batch_size ?k")
      case True
      with run None have ps: "p = makeErrorProfile" "s' = cache_profile ?k p ?s1" by auto
      have "max_bs_of s' ?cp (g_name ?g) = Some m" using m unfolding ps(2) cache_profile_simps .
      from pruned [OF None ps(1) r this True ps(2)] show ?thesis .
    next
      case False
      with run None have run': "run_profiler profiler ?g ?k (rq_repl q) ?s1 = Inr (p, s')" by simp
      show ?thesis
      proof (cases "profiler [(g_name ?g, ?g)] 3 (rq_repl q) ?cp")
        case (Profiled ps)
        then have "rbind (rassert (length ps = 1)) (\<lambda>_. Inr (snd (hd ps), cache_profile ?k (snd (hd ps)) ?s1)) = Inr (p, s')"
          using run' by (simp add: run_profiler_def kk Let_def)
        then have ps: "length ps = 1" "p = snd (hd ps)" "s' = cache_profile ?k p ?s1"
          by (auto simp: rbind_eq_Inr)
        have "k_batch_size ?k \<le> m" using False by simp
        from ran [OF None r Profiled ps(1,2) m this ps(3)] show ?thesis .
      next
        case (Prof_throws msg)
        have le: "k_batch_size ?k \<le> the (max_bs_of (cache_profile ?k makeErrorProfile ?s1) ?cp (g_name ?g))"
          using m False unfolding cache_profile_simps by simp
        have "(if \<not> out_of_memory msg then Inl Runtime_error else
            Inr (makeErrorProfile, set_max_bs ?cp (g_name ?g) (to_size (k_batch_size ?k - 1))
              (cache_profile ?k makeErrorProfile ?s1))) = Inr (p, s')"
          using run' unfolding run_profiler_def kk Prof_throws prof_outcome.case Let_def if_P [OF le] .
        then have ps: "out_of_memory msg" "p = makeErrorProfile"
          "s' = set_max_bs ?cp (g_name ?g) (to_size (k_batch_size ?k - 1)) (cache_profile ?k p ?s1)"
          by (auto split: if_splits)
        have "k_batch_size ?k \<le> m" using False by simp
        from oom [OF None ps(2) r Prof_throws ps(1) m this ps(3)] show ?thesis .
      qed
    qed
  qed
qed

text \<open>A request leaves its own result in the cache, and other entries alone.\<close>

lemma request_cached:
  assumes "request profiler q s = Inr (p, s')"
  shows "um_get (profile_cache s') (key_of q) = Some p"
    and "k \<noteq> key_of q \<Longrightarrow> um_get (profile_cache s') k = um_get (profile_cache s) k"
  using assms by (cases rule: request_cases; simp add: um.get_put)+

lemma request_hit:
  "um_get (profile_cache s) (key_of q) = Some p \<Longrightarrow> rq_repl q > 0 \<Longrightarrow> request profiler q s = Inr (p, s)"
  by (cases "um_get (profile_cache s) (key_of q)")
     (simp_all add: request_def profile_def ceil_size_def key_of_def Let_def)

text \<open>Every cached profile is the error profile or one that the device returned for a graph of that name.\<close>

definition measured :: "profiler \<Rightarrow> MLProfileKey \<Rightarrow> GraphProfile \<Rightarrow> bool" where
  "measured profiler k p \<longleftrightarrow> p = makeErrorProfile \<or>
     (\<exists>g r ps. g_name g = k_id k \<and> profiler [(g_name g, g)] 3 r (k_checkpointing k) = Profiled ps \<and> p = snd (hd ps))"

lemma request_sound:
  assumes "request profiler q s = Inr (p, s')"
    and "\<forall>k p. um_get (profile_cache s) k = Some p \<longrightarrow> measured profiler k p"
  shows "\<forall>k p. um_get (profile_cache s') k = Some p \<longrightarrow> measured profiler k p"
  using assms(1)
proof (cases rule: request_cases)
  case hit
  with assms(2) show ?thesis by simp
next
  case (pruned m)
  have "measured profiler (key_of q) p" by (simp add: measured_def pruned)
  from um.sound_put [OF assms(2) this] show ?thesis by (simp add: pruned)
next
  case (ran ps m)
  have "measured profiler (key_of q) p"
    unfolding measured_def by (intro disjI2 exI [of _ "rq_graph q"]) (use ran in \<open>auto simp: key_of_def\<close>)
  from um.sound_put [OF assms(2) this] show ?thesis by (simp add: ran)
next
  case (oom msg m)
  have "measured profiler (key_of q) p" by (simp add: measured_def oom)
  from um.sound_put [OF assms(2) this] show ?thesis by (simp add: oom)
qed

text \<open>The largest batch size that may fit never grows, and nothing above it enters the cache but error profiles.\<close>

definition pruned_from :: "bool \<Rightarrow> string \<Rightarrow> int \<Rightarrow> ProfilerUtil \<Rightarrow> bool" where
  "pruned_from cp name bs s \<longleftrightarrow> (\<exists>m. max_bs_of s cp name = Some m \<and> m < bs)"

lemma request_prunes:
  assumes "request profiler q s = Inr (p, s')" "size_request q" "pruned_from cp name bs s"
  shows "pruned_from cp name bs s'"
  using assms(1)
proof (cases rule: request_cases)
  case (oom msg m)
  have "0 < k_batch_size (key_of q)" "k_batch_size (key_of q) < 2 ^ 64"
    using assms(2) oom(3) ceil_div_pos ceil_div_le [of "rq_batch q" "rq_repl q"] by (auto simp: size_request_def key_of_def)
  then have "to_size (k_batch_size (key_of q) - 1) < k_batch_size (key_of q)" by (simp add: to_size_id)
  with oom(6,7) assms(3) show ?thesis by (auto simp: oom(8) pruned_from_def split: if_splits)
qed (use assms(3) in \<open>auto simp: pruned_from_def\<close>)

definition only_errors :: "bool \<Rightarrow> string \<Rightarrow> int \<Rightarrow> ProfilerUtil \<Rightarrow> bool" where
  "only_errors cp name bs s \<longleftrightarrow> pruned_from cp name bs s \<and>
     (\<forall>k p. k_id k = name \<and> k_checkpointing k = cp \<and> bs \<le> k_batch_size k \<and> um_get (profile_cache s) k = Some p
        \<longrightarrow> p = makeErrorProfile)"

lemma request_only_errors:
  assumes "request profiler q s = Inr (p, s')" "size_request q" "only_errors cp name bs s"
  shows "only_errors cp name bs s'"
proof -
  have pr: "pruned_from cp name bs s" using assms(3) by (simp add: only_errors_def)
  have own: "p = makeErrorProfile" if k: "k_id (key_of q) = name" "k_checkpointing (key_of q) = cp" "bs \<le> k_batch_size (key_of q)"
    using assms(1)
  proof (cases rule: request_cases)
    case (ran ps m)
    with pr k show ?thesis by (auto simp: pruned_from_def key_of_def split: if_splits)
  qed (use assms(3) k in \<open>auto simp: only_errors_def\<close>)
  have "p' = makeErrorProfile" if "k_id k = name" "k_checkpointing k = cp" "bs \<le> k_batch_size k"
    "um_get (profile_cache s') k = Some p'" for k p'
  proof (cases "k = key_of q")
    case True
    with that request_cached(1) [OF assms(1)] own show ?thesis by simp
  next
    case False
    with that request_cached(2) [OF assms(1)] assms(3) show ?thesis by (simp add: only_errors_def)
  qed
  with request_prunes [OF assms(1,2) pr] show ?thesis by (auto simp: only_errors_def)
qed

lemma requests_only_errors:
  assumes "smap (request profiler) qs s = Inr (ps, t)" "\<forall>q \<in> set qs. size_request q" "only_errors cp name bs s"
  shows "only_errors cp name bs t"
  using assms
proof (induction qs arbitrary: s ps)
  case (Cons q qs)
  then obtain p s1 ps1 where "request profiler q s = Inr (p, s1)" "smap (request profiler) qs s1 = Inr (ps1, t)"
    by (auto simp: st_simps)
  with Cons request_only_errors show ?case by (metis list.set_intros)
qed (simp add: st_simps)

lemma requests_sound:
  assumes "smap (request profiler) qs s = Inr (ps, t)"
    and "\<forall>k p. um_get (profile_cache s) k = Some p \<longrightarrow> measured profiler k p"
  shows "(\<forall>k p. um_get (profile_cache t) k = Some p \<longrightarrow> measured profiler k p) \<and>
    (\<forall>i < length qs. measured profiler (key_of (qs ! i)) (ps ! i))"
  using assms
proof (induction qs arbitrary: s ps)
  case (Cons q qs)
  then obtain p s1 ps1 where 1: "request profiler q s = Inr (p, s1)" "smap (request profiler) qs s1 = Inr (ps1, t)" "ps = p # ps1"
    by (auto simp: st_simps)
  note s1 = request_sound [OF 1(1) Cons.prems(2)]
  with request_cached(1) [OF 1(1)] have "measured profiler (key_of q) p" by blast
  with Cons.IH [OF 1(2) s1] show ?case by (auto simp: 1(3) nth_Cons split: nat.splits)
qed (auto simp: st_simps)

section \<open>A device that works\<close>

text \<open>
  The documented behaviour of the device that totality rests on: for one graph it returns one profile
  with non-negative measurements (of at most \<open>2 ^ 62\<close>, so that the sum of two is a \<open>long\<close>), or it runs
  out of memory.
\<close>

definition nonneg_profile :: "GraphProfile \<Rightarrow> bool" where
  "nonneg_profile p \<longleftrightarrow> fwd_time p \<in> {0..<2 ^ 62} \<and> bwd_time p \<in> {0..<2 ^ 62} \<and> max_allocated_mem p \<in> {0..<2 ^ 62}"

definition device_ok :: "profiler \<Rightarrow> bool" where
  "device_ok profiler \<longleftrightarrow> (\<forall>n g i r cp.
     (\<exists>m p. profiler [(n, g)] i r cp = Profiled [(m, p)] \<and> nonneg_profile p) \<or>
     (\<exists>msg. profiler [(n, g)] i r cp = Prof_throws msg \<and> out_of_memory msg))"

definition costs_ok :: "ProfilerUtil \<Rightarrow> bool" where
  "costs_ok s \<longleftrightarrow> (\<forall>k p. um_get (profile_cache s) k = Some p \<longrightarrow> nonneg_profile p)"

lemma nonneg_error [simp]: "nonneg_profile makeErrorProfile"
  by (simp add: nonneg_profile_def makeErrorProfile_def ERROR_VAL_def)

lemma costs_ok_put: "costs_ok s \<Longrightarrow> nonneg_profile p \<Longrightarrow> profile_cache t = um_set k p (profile_cache s) \<Longrightarrow> costs_ok t"
  using um.sound_put [of "profile_cache s" "\<lambda>_ p. nonneg_profile p" k p] by (simp add: costs_ok_def)

lemma run_profiler_runs:
  assumes "device_ok profiler" "costs_ok s"
  shows "runs (run_profiler profiler g k r) s (\<lambda>p s'. nonneg_profile p \<and> costs_ok s')"
proof -
  consider m p where "profiler [(g_name g, g)] 3 r (k_checkpointing k) = Profiled [(m, p)]" "nonneg_profile p"
    | msg where "profiler [(g_name g, g)] 3 r (k_checkpointing k) = Prof_throws msg" "out_of_memory msg"
    using assms(1) unfolding device_ok_def by blast
  then show ?thesis
  proof cases
    case 1
    have "costs_ok (cache_profile k p s)" by (rule costs_ok_put [OF assms(2) 1(2)]) simp
    with 1 show ?thesis by (simp add: runs_def run_profiler_def Let_def)
  next
    case 2
    have c: "costs_ok t" if "profile_cache t = um_set k makeErrorProfile (profile_cache s)" for t
      by (rule costs_ok_put [OF assms(2) nonneg_error that])
    show ?thesis using 2 by (simp add: runs_def run_profiler_def Let_def c)
  qed
qed

lemma profile_runs:
  assumes "device_ok profiler" "costs_ok s" "r > 0"
  shows "runs (profile profiler g b r cp) s (\<lambda>p s'. nonneg_profile p \<and> costs_ok s')"
proof -
  let ?k = "\<lparr>k_id = g_name g, k_batch_size = ceil_div b r, k_checkpointing = cp\<rparr>"
  let ?s1 = "init_max_bs cp (g_name g) s"
  have ok1: "costs_ok ?s1" using assms(2) by (simp add: costs_ok_def)
  have ceil: "ceil_size b r = Inr (ceil_div b r)" using assms(3) by (simp add: ceil_size_def)
  show ?thesis
  proof (cases "um_get (profile_cache s) ?k")
    case (Some p)
    then show ?thesis using assms(2,3) by (simp add: runs_def profile_def ceil Let_def costs_ok_def)
  next
    case None
    show ?thesis
    proof (cases "the (max_bs_of ?s1 cp (g_name g)) < ceil_div b r")
      case True
      have "costs_ok (cache_profile ?k makeErrorProfile ?s1)" by (rule costs_ok_put [OF ok1 nonneg_error]) simp
      with None True assms(3) show ?thesis
        by (simp add: runs_def profile_def ceil Let_def del: init_max_bs_simps)
    next
      case False
      have "profile profiler g b r cp s = run_profiler profiler g ?k r ?s1"
        using None False assms(3) by (simp add: profile_def ceil Let_def del: init_max_bs_simps)
      with run_profiler_runs [OF assms(1) ok1, of g ?k r] show ?thesis by (simp add: runs_def)
    qed
  qed
qed

section \<open>Properties\<close>

text \<open>
  C36. Batch sizes that ran out of memory are not tried again: after the device has run out of memory
  for a graph at a batch size, and whatever requests follow, a request for a graph of the same name
  with the same or a larger batch size per replica gets the error profile and does not reach the device
  (the answer is the same for every \<open>profiler'\<close>), unless that larger size had succeeded before.
\<close>

theorem profile_prunes_oom:
  assumes "request profiler q s = Inr (p, s')" "size_request q" "um_get (profile_cache s) (key_of q) = None"
    and "profiler [(g_name (rq_graph q), rq_graph q)] 3 (rq_repl q) (rq_cp q) = Prof_throws msg"
    and "\<forall>k p. k_id k = g_name (rq_graph q) \<and> k_checkpointing k = rq_cp q \<and> k_batch_size (key_of q) < k_batch_size k \<and>
           um_get (profile_cache s) k = Some p \<longrightarrow> p = makeErrorProfile"
    and "smap (request profiler) later s' = Inr (ps, t)" "\<forall>q \<in> set later. size_request q"
    and "g_name (rq_graph q') = g_name (rq_graph q)" "rq_cp q' = rq_cp q" "rq_repl q' > 0"
      "k_batch_size (key_of q) \<le> k_batch_size (key_of q')"
  shows "\<exists>t'. \<forall>profiler'. request profiler' q' t = Inr (makeErrorProfile, t')"
proof -
  let ?n = "g_name (rq_graph q)" and ?cp = "rq_cp q" and ?bs = "k_batch_size (key_of q)"
  have err: "p = makeErrorProfile \<and> pruned_from ?cp ?n ?bs s'"
    using assms(1)
  proof (cases rule: request_cases)
    case (oom m' m)
    have "0 < ?bs" "?bs < 2 ^ 64"
      using assms(2) oom(3) ceil_div_pos ceil_div_le [of "rq_batch q" "rq_repl q"] by (auto simp: size_request_def key_of_def)
    then have "to_size (?bs - 1) < ?bs" by (simp add: to_size_id)
    with oom show ?thesis by (simp add: pruned_from_def)
  qed (use assms(3,4) in \<open>auto simp: pruned_from_def\<close>)
  have "p' = makeErrorProfile" if k: "k_id k = ?n" "k_checkpointing k = ?cp" "?bs \<le> k_batch_size k"
    "um_get (profile_cache s') k = Some p'" for k p'
  proof (cases "k = key_of q")
    case True
    with k request_cached(1) [OF assms(1)] err show ?thesis by simp
  next
    case False
    then have "?bs \<noteq> k_batch_size k" using k by (intro notI) (simp add: MLProfileKey.equality key_of_def)
    then have "?bs < k_batch_size k" using k(3) by simp
    with False k request_cached(2) [OF assms(1)] assms(5) show ?thesis by simp
  qed
  then have "only_errors ?cp ?n ?bs s'" using err by (auto simp: only_errors_def)
  then have oe: "only_errors ?cp ?n ?bs t" by (rule requests_only_errors [OF assms(6,7)])
  then obtain m where m: "max_bs_of t ?cp ?n = Some m" "m < ?bs" by (auto simp: only_errors_def pruned_from_def)
  show ?thesis
  proof (cases "um_get (profile_cache t) (key_of q')")
    case None
    have "init_max_bs ?cp ?n t = t" using m by (simp add: init_max_bs_def)
    then show ?thesis using m None assms(8-11) by (simp add: request_unfold)
  next
    case (Some p')
    moreover have "k_id (key_of q') = ?n" "k_checkpointing (key_of q') = ?cp" using assms(8,9) by (simp_all add: key_of_def)
    ultimately have "p' = makeErrorProfile" using oe assms(11) unfolding only_errors_def by blast
    with Some show ?thesis using assms(10) by (simp add: request_unfold)
  qed
qed

text \<open>A device that runs out of memory on a single replica.\<close>

definition demo_profiler :: profiler where
  "demo_profiler gs iteration repl cp =
     (if repl < 2 then Prof_throws ''CUDA out of memory.''
      else Profiled (map (\<lambda>(n, _). (n, \<lparr>gp_name = n, fwd_time = 10, bwd_time = 20, max_allocated_mem = 100,
        gp_checkpointing = cp\<rparr>)) gs))"

definition demo_request :: "int \<Rightarrow> int \<Rightarrow> prof_request" where
  "demo_request b r = \<lparr>rq_graph = (demo_graph [] [] [])\<lparr>g_name := ''g''\<rparr>, rq_batch = b, rq_repl = r, rq_cp = False\<rparr>"

definition demo_profile :: GraphProfile where
  "demo_profile = \<lparr>gp_name = ''g'', fwd_time = 10, bwd_time = 20, max_allocated_mem = 100, gp_checkpointing = False\<rparr>"

definition demo_state :: "(MLProfileKey \<times> GraphProfile) list \<Rightarrow> int \<Rightarrow> ProfilerUtil" where
  "demo_state c m = \<lparr>profile_cache = c, max_batch_size_cache = [(False, [(''g'', m)])]\<rparr>"

lemma demo_runs:
  "request demo_profiler (demo_request 8 1) new_ProfilerUtil =
     Inr (makeErrorProfile, demo_state [(key_of (demo_request 8 1), makeErrorProfile)] 7)"
  "request demo_profiler (demo_request 8 2) (demo_state [(key_of (demo_request 8 1), makeErrorProfile)] 7) =
     Inr (demo_profile, demo_state [(key_of (demo_request 8 1), makeErrorProfile), (key_of (demo_request 8 2), demo_profile)] 7)"
  by code_simp+

theorem profile_prunes_oom_witness:
  "\<exists>t'. \<forall>profiler'. request profiler' (demo_request 16 2)
     (demo_state [(key_of (demo_request 8 1), makeErrorProfile), (key_of (demo_request 8 2), demo_profile)] 7) =
     Inr (makeErrorProfile, t')"
proof (rule profile_prunes_oom [OF demo_runs(1)])
  show "smap (request demo_profiler) [demo_request 8 2] (demo_state [(key_of (demo_request 8 1), makeErrorProfile)] 7) =
    Inr ([demo_profile], demo_state [(key_of (demo_request 8 1), makeErrorProfile), (key_of (demo_request 8 2), demo_profile)] 7)"
    by (simp add: sbind_def demo_runs)
  show "demo_profiler [(g_name (rq_graph (demo_request 8 1)), rq_graph (demo_request 8 1))] 3
      (rq_repl (demo_request 8 1)) (rq_cp (demo_request 8 1)) = Prof_throws ''CUDA out of memory.''"
    by (simp add: demo_profiler_def demo_request_def)
qed (auto simp: demo_request_def size_request_def key_of_def new_ProfilerUtil_def ceil_div_def)

text \<open>
  Profiles are measured once: in every run of requests on a new cache, each answer is the error
  profile or a profile that the device returned for a graph of that name, and asking again for the
  same name, batch size per replica and checkpointing gives the same answer and changes nothing.
\<close>

lemma profile_memoised:
  assumes "smap (request profiler) qs new_ProfilerUtil = Inr (ps, s)" "request profiler q s = Inr (p, s')"
    and "key_of q' = key_of q" "rq_repl q' > 0"
  shows "(\<forall>i < length qs. measured profiler (key_of (qs ! i)) (ps ! i)) \<and> measured profiler (key_of q) p \<and>
     request profiler' q' s' = Inr (p, s')"
proof -
  have empty: "\<forall>k p. um_get (profile_cache new_ProfilerUtil) k = Some p \<longrightarrow> measured profiler k p"
    unfolding new_ProfilerUtil_def ProfilerUtil.simps by (rule um.sound_empty)
  note all = requests_sound [OF assms(1) empty]
  then have "measured profiler (key_of q) p" using request_sound [OF assms(2)] request_cached(1) [OF assms(2)] by blast
  moreover have "request profiler' q' s' = Inr (p, s')"
    using request_cached(1) [OF assms(2)] assms(3,4) by (simp add: request_hit)
  ultimately show ?thesis using all by blast
qed

lemma profile_memoised_witness:
  "\<forall>profiler'. request profiler' (demo_request 4 1)
     (demo_state [(key_of (demo_request 8 1), makeErrorProfile), (key_of (demo_request 8 2), demo_profile)] 7) =
     Inr (demo_profile, demo_state [(key_of (demo_request 8 1), makeErrorProfile), (key_of (demo_request 8 2), demo_profile)] 7)"
proof
  fix profiler'
  have "smap (request demo_profiler) [demo_request 8 1] new_ProfilerUtil =
    Inr ([makeErrorProfile], demo_state [(key_of (demo_request 8 1), makeErrorProfile)] 7)"
    by (simp add: sbind_def demo_runs)
  moreover have "key_of (demo_request 4 1) = key_of (demo_request 8 2)" "rq_repl (demo_request 4 1) > 0"
    by (simp_all add: key_of_def demo_request_def ceil_div_def)
  ultimately show "request profiler' (demo_request 4 1)
     (demo_state [(key_of (demo_request 8 1), makeErrorProfile), (key_of (demo_request 8 2), demo_profile)] 7) =
     Inr (demo_profile, demo_state [(key_of (demo_request 8 1), makeErrorProfile), (key_of (demo_request 8 2), demo_profile)] 7)"
    using profile_memoised [OF _ demo_runs(2)] by blast
qed

end
