(* ===== verification/ML_Coarsen.thy ===== *)
theory ML_Coarsen
  imports ML_Graph Profiler_Util
begin

text \<open>
  The coarsening half of \<open>MLPartitioner\<close> (\<open>graph/Partitioner.h\<close>, \<open>graph/Partitioner.cpp\<close>): the
  nodes of a level are visited in the order of their cost, each is fused with the best adjacent node
  that is still free, and the level above is built from the result, until a pass changes nothing.
  The class is a record of its members, together with the code it calls outside: the device
  (\<open>profiler\<close>), the random part of generated names, and Boost's reachability test. The state is the
  profile cache and the number of names drawn so far.
\<close>

section \<open>The partitioner object\<close>

record MLPartitioner =
  dev_num :: int
  dev_mem :: int
  max_pipeline_num :: int
  min_pipeline_bs :: int
  use_amp_master_params :: bool
  coarsen_by_time :: bool
  batch_size :: int
  opt_param_factor :: int
  device :: profiler
  names :: "nat \<Rightarrow> string"
  is_reachable :: reachability
  topological_sort :: topo_sort

record part_state =
  prof_util :: ProfilerUtil
  drawn :: nat

definition ml_eval :: "MLPartitioner \<Rightarrow> GraphProfile \<Rightarrow> int" where
  "ml_eval p prof = (if coarsen_by_time p then fwd_time prof + bwd_time prof else max_allocated_mem prof)"

definition replica_count :: "MLPartitioner \<Rightarrow> int" where
  "replica_count p =
     (let repl_num = wrap32 (dev_num p * max_pipeline_num p)
      in if min_pipeline_bs p > 0 then min (wrap32 (batch_size p div min_pipeline_bs p)) repl_num else repl_num)"

definition ml_profile :: "MLPartitioner \<Rightarrow> IRGraph \<Rightarrow> (part_state, GraphProfile) st" where
  "ml_profile p g s =
     rbind (profile (device p) g (batch_size p) (to_size (replica_count p)) False (prof_util s)) (\<lambda>(prof, pu).
     Inr (prof, s\<lparr>prof_util := pu\<rparr>))"

definition eval_graph :: "MLPartitioner \<Rightarrow> IRGraph \<Rightarrow> (part_state, int) st" where
  "eval_graph p g = sbind (ml_profile p g) (\<lambda>prof. sret (ml_eval p prof))"

text \<open>A name generator for one call that draws a name.\<close>

definition fresh :: "MLPartitioner \<Rightarrow> (part_state, nat \<Rightarrow> string) st" where
  "fresh p s = Inr (\<lambda>i. names p (drawn s + i), s\<lparr>drawn := Suc (drawn s)\<rparr>)"

section \<open>Adjacent nodes\<close>

text \<open>
  \<open>stable_sort\<close> calls \<open>profile\<close> on every vertex that it compares; the calls after the first one of a
  vertex are answered from the cache.
\<close>

definition sortNodesByEval :: "MLPartitioner \<Rightarrow> nat list \<Rightarrow> MLBGraph \<Rightarrow> (part_state, nat list) st" where
  "sortNodesByEval p ns bg =
     sbind (smap (\<lambda>v. eval_graph p (m_graph (verts bg ! v))) ns) (\<lambda>evs.
     sret (map snd (sort_key fst (zip evs ns))))"

text \<open>\<open>long\<close> arithmetic at 64 bits, and \<open>sqrt\<close> of an integer as used here, truncated.\<close>

definition wrap64 :: "int \<Rightarrow> int" where
  "wrap64 i = (i + 2 ^ 63) mod 2 ^ 64 - 2 ^ 63"

function isqrt :: "int \<Rightarrow> int" where
  "isqrt n = (if n \<le> 0 then 0 else (let r = 2 * isqrt (n div 4) in if (r + 1) * (r + 1) \<le> n then r + 1 else r))"
  by pat_completeness auto
termination by (relation "measure nat") auto

declare isqrt.simps [simp del]

definition eval_stats :: "int list \<Rightarrow> int \<times> int" where
  "eval_stats evs =
     (let n = int (length evs);
          ave = wrap64 (to_size (wrap64 (sum_list evs)) div n);
          var = foldl (\<lambda>acc e. wrap64 (acc + (e - ave) * (e - ave))) 0 evs
      in (ave, isqrt (to_size var div n)))"

lemma isqrt_correct: "0 \<le> n \<Longrightarrow> 0 \<le> isqrt n \<and> isqrt n * isqrt n \<le> n \<and> n < (isqrt n + 1) * (isqrt n + 1)"
proof (induction n rule: isqrt.induct)
  case (1 n)
  show ?case
  proof (cases "n \<le> 0")
    case True
    with 1 have "n = 0" by simp
    then show ?thesis by (simp add: isqrt.simps [of 0])
  next
    case False
    define r where "r = isqrt (n div 4)"
    have r: "0 \<le> r" "r * r \<le> n div 4" "n div 4 < (r + 1) * (r + 1)"
      using 1 False by (simp_all add: r_def)
    have "4 * (n div 4) \<le> n" "n < 4 * (n div 4) + 4" by simp_all
    then have "4 * (r * r) \<le> n" "n < 4 * ((r + 1) * (r + 1))" using r(2,3) by linarith+
    then have b: "(2 * r) * (2 * r) \<le> n" "n < (2 * r + 2) * (2 * r + 2)" by (simp_all add: algebra_simps)
    have "isqrt n = (if (2 * r + 1) * (2 * r + 1) \<le> n then 2 * r + 1 else 2 * r)"
      using False by (simp add: isqrt.simps [of n] r_def Let_def)
    then show ?thesis using b r(1) by (auto simp: algebra_simps)
  qed
qed

record adj_choice =
  best_imprv :: int
  best_adj :: nat
  best_merged :: MLNode
  ac_graph :: MLBGraph

definition device_share :: "MLPartitioner \<Rightarrow> size_t \<Rightarrow> int res" where
  "device_share p s = udiv s (word_of_int (dev_num p * max_pipeline_num p))"

text \<open>
  The cost of the merged node, or \<open>None\<close> when it does not fit or is too expensive (the \<open>continue\<close> and
  the flag \<open>skip_merge\<close>).
\<close>

definition merged_cost :: "MLPartitioner \<Rightarrow> bool \<Rightarrow> int \<times> int \<Rightarrow> int \<Rightarrow> int \<Rightarrow> MLNode \<Rightarrow> (part_state, int option) st" where
  "merged_cost p skip_profiling stats eval_v eval_adj merged =
     (let limit = fst stats + snd stats * 2 in
      if skip_profiling then sret (if eval_v > limit \<or> eval_adj > limit then None else Some 0)
      else sbind (ml_profile p (m_graph merged)) (\<lambda>prof_merged.
           sbind (slift (fitToMem (opt_param_factor p) (m_graph merged) prof_merged (dev_mem p) (use_amp_master_params p))) (\<lambda>fits.
           let eval_merged = ml_eval p prof_merged
           in sret (if \<not> fits \<or> eval_merged > limit then None else Some eval_merged))))"

definition try_adjacent ::
    "MLPartitioner \<Rightarrow> MLGraph \<Rightarrow> bool \<Rightarrow> int \<times> int \<Rightarrow> nat \<Rightarrow> nat list \<Rightarrow> nat \<Rightarrow> adj_choice \<Rightarrow> (part_state, adj_choice) st" where
  "try_adjacent p ml_graph skip_profiling stats bv matched b_adj c =
     (if b_adj \<in> set matched then sret c
      else let (convex, bg) = isConvex (is_reachable p) bv b_adj (ac_graph c);
               c = c\<lparr>ac_graph := bg\<rparr>;
               v = verts bg ! bv; adj = verts bg ! b_adj
           in if \<not> convex then sret c
              else sbind (slift (n_getCutValues v adj)) (\<lambda>cut_values.
                   sbind (slift (rbind (sum_sizes cut_values) (device_share p))) (\<lambda>share_size.
                   sbind (fresh p) (\<lambda>gen.
                   sbind (slift (merge_nodes gen v adj (ml_nodes ml_graph) (ml_edges ml_graph))) (\<lambda>merged.
                   sbind (eval_graph p (m_graph v)) (\<lambda>eval_v.
                   sbind (eval_graph p (m_graph adj)) (\<lambda>eval_adj.
                   sbind (merged_cost p skip_profiling stats eval_v eval_adj merged) (\<lambda>cost.
                   sret (case cost of
                       None \<Rightarrow> c
                     | Some eval_merged \<Rightarrow>
                         (let imprv = eval_v + eval_adj + calcCommTime share_size - eval_merged
                          in if best_imprv c \<le> imprv
                             then c\<lparr>best_imprv := imprv, best_adj := b_adj, best_merged := merged\<rparr> else c))))))))))"

record match_state =
  matched :: "nat list"
  merged_nodes :: "MLNode list"
  name_map :: "(string, string) umap"
  ms_graph :: MLBGraph

definition match_node ::
    "MLPartitioner \<Rightarrow> MLGraph \<Rightarrow> bool \<Rightarrow> int \<Rightarrow> int \<times> int \<Rightarrow> nat \<Rightarrow> nat \<Rightarrow> match_state \<Rightarrow> (part_state, match_state) st" where
  "match_node p ml_graph skip_profiling min_partition_num stats num_nodes bv ms =
     (if bv \<in> set (matched ms) then sret ms
      else sbind (fresh p) (\<lambda>gen.
        let bg = ms_graph ms; v = verts bg ! bv;
            room = to_size (int num_nodes - int (length (matched ms)) + int (length (merged_nodes ms)));
            targets = (if room > to_size min_partition_num then target_nodes bv bg else [])
        in sbind (sfold (try_adjacent p ml_graph skip_profiling stats bv (matched ms)) targets
                   \<lparr>best_imprv = - 1, best_adj = 0, best_merged = liftUp gen v, ac_graph = bg\<rparr>) (\<lambda>c.
           let ms1 = ms\<lparr>merged_nodes := merged_nodes ms @ [best_merged c], matched := bv # matched ms,
                        name_map := um_set (m_id v) (m_id (best_merged c)) (name_map ms), ms_graph := ac_graph c\<rparr>
           in sret (if best_imprv c \<ge> 0
                    then ms1\<lparr>matched := best_adj c # matched ms1,
                             name_map := um_set (m_id (verts (ac_graph c) ! best_adj c)) (m_id (best_merged c)) (name_map ms1)\<rparr>
                    else ms1))))"

definition mergeAdjacents :: "MLPartitioner \<Rightarrow> MLGraph \<Rightarrow> bool \<Rightarrow> int \<Rightarrow> (part_state, MLGraph) st" where
  "mergeAdjacents p ml_graph skip_profiling min_partition_num =
     sbind (slift (toBGL ml_graph)) (\<lambda>bg.
     sbind (sortNodesByEval p (all_nodes bg) bg) (\<lambda>nodes_sort.
     sbind (smap (\<lambda>v. eval_graph p (m_graph (verts bg ! v))) nodes_sort) (\<lambda>evs.
     sbind (slift (if nodes_sort = [] then Inl Undefined_behaviour else Inr (eval_stats evs))) (\<lambda>stats.
     sbind (sfold (match_node p ml_graph skip_profiling min_partition_num stats (length nodes_sort)) nodes_sort
              \<lparr>matched = [], merged_nodes = [], name_map = [], ms_graph = bg\<rparr>) (\<lambda>ms.
     sbind (slift (mergeEdges (ml_edges ml_graph) (name_map ms))) (\<lambda>merged_edges.
     sret \<lparr>ml_nodes = merged_nodes ms, ml_edges = merged_edges\<rparr>))))))"

section \<open>Graphs that can be costed\<close>

text \<open>
  What the cost functions need of a graph beyond \<open>graph_inv\<close>: every value has a known size, the
  outputs have values, and with AMP master parameters every parameter has a floating point type.
\<close>

definition costable :: "bool \<Rightarrow> IRGraph \<Rightarrow> bool" where
  "costable amp g \<longleftrightarrow>
     (\<forall>v \<in> snd ` set (gvalues g). (\<exists>s. v_getSizeInByte v = Inr s) \<and>
        (amp \<and> is_param v \<longrightarrow> tensor_elem_type (v_type v) \<in> {TE_HALF, TE_FLOAT, TE_BFLOAT16})) \<and>
     set (g_outputs g) \<subseteq> fst ` set (gvalues g)"

definition node_ok :: "bool \<Rightarrow> MLNode \<Rightarrow> bool" where
  "node_ok amp n \<longleftrightarrow> graph_inv (m_graph n) \<and> costable amp (m_graph n)"

lemma rmap_elem: "rmap f xs = Inr ys \<Longrightarrow> y \<in> set ys \<Longrightarrow> \<exists>x \<in> set xs. f x = Inr y"
  by (induction xs arbitrary: ys) (auto simp: rbind_eq_Inr)

lemma sum_sizes_total: "(\<And>v. v \<in> set vs \<Longrightarrow> \<exists>s. v_getSizeInByte v = Inr s) \<Longrightarrow> \<exists>s. sum_sizes vs = Inr s"
  using rmap_total [of vs v_getSizeInByte] by (auto simp: sum_sizes_def)

lemma fitToMem_total:
  assumes "costable amp g"
  shows "\<exists>b. fitToMem f g prof cap amp = Inr b"
proof -
  have "\<exists>ys. rmap (opt_mem_of (word_of_int f) amp (word_of_int 1)) (filter is_param (map snd (gvalues g))) = Inr ys"
  proof (rule rmap_total)
    fix v assume "v \<in> set (filter is_param (map snd (gvalues g)))"
    then have v: "v \<in> snd ` set (gvalues g)" "is_param v" by auto
    then obtain s where "v_getSizeInByte v = Inr s" "amp \<longrightarrow> tensor_elem_type (v_type v) \<in> {TE_HALF, TE_FLOAT, TE_BFLOAT16}"
      using assms by (auto simp: costable_def)
    then show "\<exists>y. opt_mem_of (word_of_int f) amp (word_of_int 1) v = Inr y"
      by (auto simp: opt_mem_of_def Let_def)
  qed
  then show ?thesis by (auto simp: fitToMem_def calcGraphMem_def getOptMemSize_def)
qed

lemma cut_values_total:
  assumes "costable amp (m_graph n1)" "values_ok (m_graph n1)"
    and "costable amp (m_graph n2)" "values_ok (m_graph n2)"
  obtains vs where "n_getCutValues n1 n2 = Inr vs" "\<And>v. v \<in> set vs \<Longrightarrow> \<exists>s. v_getSizeInByte v = Inr s"
proof -
  let ?names = "filter (\<lambda>out. out \<in> set (g_inputs (m_graph n2))) (g_outputs (m_graph n1)) @
      filter (\<lambda>out. out \<in> set (g_inputs (m_graph n1))) (g_outputs (m_graph n2))"
  have "\<exists>v. getValue (m_graph n1) x = Inr v" if "x \<in> set ?names" for x
  proof -
    have "x \<in> fst ` set (gvalues (m_graph n1))" using that assms by (auto simp: costable_def values_ok_def)
    then obtain v where "um_get (gvalues (m_graph n1)) x = Some v" by (metis map_of_eq_None_iff option.exhaust)
    then show ?thesis by simp
  qed
  then obtain vs where vs: "rmap (getValue (m_graph n1)) ?names = Inr vs" using rmap_total by blast
  have "\<exists>s. v_getSizeInByte v = Inr s" if "v \<in> set vs" for v
  proof -
    from rmap_elem [OF vs that] obtain x where "getValue (m_graph n1) x = Inr v" by blast
    then have "v \<in> snd ` set (gvalues (m_graph n1))" by (force dest: map_of_SomeD)
    with assms(1) show ?thesis by (auto simp: costable_def)
  qed
  with that vs show ?thesis by (simp add: n_getCutValues_def getCutValues_def)
qed

lemma removeUnusedNodes_values:
  assumes "removeUnusedNodes g = Inr h" "um_ok (gvalues g)"
  shows "set (gvalues h) \<subseteq> set (gvalues g)" and "set (g_outputs h) \<inter> fst ` set (gvalues g) \<subseteq> fst ` set (gvalues h)"
proof -
  obtain k where k: "remove_loop g g = Inr k"
    and h: "mkIRGraph (g_name g) (nodes k) (um_of (filter (\<lambda>(n, v). n \<in> getRequiredValues k) (gvalues k)))
      (filter (\<lambda>i. i \<in> getRequiredValues k) (g_inputs k)) (filter (\<lambda>i. i \<in> getRequiredValues k) (g_outputs k)) = Inr h"
    using assms(1) by (auto simp: removeUnusedNodes_def rbind_eq_Inr Let_def)
  have "gvalues k = gvalues g \<and> detectUnusedNodes k = []"
    by (rule remove_loop_invariant [OF k]) (simp, drule mkIRGraph_Inr, simp)
  then have gv: "gvalues k = gvalues g" ..
  let ?f = "filter (\<lambda>(n, v). n \<in> getRequiredValues k) (gvalues g)"
  have "distinct (map fst ?f)" using assms(2) by (simp add: um_ok_def distinct_map_filter)
  then have vals: "gvalues h = ?f" using mkIRGraph_Inr [OF h] by (simp add: gv um_of_distinct)
  have outs: "set (g_outputs h) \<subseteq> getRequiredValues k" using mkIRGraph_Inr [OF h] by (simp only: set_filter) blast
  show "set (gvalues h) \<subseteq> set (gvalues g)" by (auto simp: vals)
  show "set (g_outputs h) \<inter> fst ` set (gvalues g) \<subseteq> fst ` set (gvalues h)"
  proof
    fix x assume x: "x \<in> set (g_outputs h) \<inter> fst ` set (gvalues g)"
    then obtain v where "(x, v) \<in> set (gvalues g)" by auto
    moreover have "x \<in> getRequiredValues k" using x outs by blast
    ultimately have "(x, v) \<in> set (gvalues h)" by (simp add: vals)
    then show "x \<in> fst ` set (gvalues h)" by (rule image_eqI [rotated]) simp
  qed
qed

lemma merge_req_costable:
  assumes "merge_req gen n1 n2 req es = Inr n" "node_ok amp n1" "node_ok amp n2"
    and "g_outputs (m_graph n) = filter P (g_outputs (m_graph n1)) @ g_outputs (m_graph n2)"
  shows "costable amp (m_graph n)"
proof -
  obtain g0 g where g: "merge_graph gen (m_graph n1) (m_graph n2) req = Inr g0" "removeUnusedNodes g0 = Inr g" "m_graph n = g"
    using assms(1) by (auto simp: merge_req_def rbind_eq_Inr)
  have ok: "um_ok (gvalues (m_graph n1))" "um_ok (gvalues (m_graph n2))"
    using assms(2,3) by (simp_all add: node_ok_def graph_inv_def values_ok_def)
  have v0: "gvalues g0 = merge_values (gvalues (m_graph n1)) (gvalues (m_graph n2))"
    using g(1) by (auto simp: merge_graph_def rbind_eq_Inr Let_def case_prod_unfold dest: mkIRGraph_Inr)
  note mv = merge_values_ok [OF ok]
  have keys: "set (g_outputs g) \<subseteq> fst ` set (gvalues g0)"
    using assms(2,3,4) unfolding v0 mv [THEN conjunct2] g(3) node_ok_def costable_def by auto
  note r = removeUnusedNodes_values [OF g(2)]
  have sub: "set (gvalues g) \<subseteq> set (gvalues g0)" "set (g_outputs g) \<subseteq> fst ` set (gvalues g)"
    using r keys mv by (auto simp: v0)
  have orig: "set (gvalues g0) \<subseteq> set (gvalues (m_graph n1)) \<union> set (gvalues (m_graph n2))"
  proof
    fix kv assume "kv \<in> set (gvalues g0)"
    moreover obtain k v where kv: "kv = (k, v)" by fastforce
    moreover have "um_ok (gvalues g0)" using mv v0 by simp
    ultimately have "um_get (gvalues g0) k = Some v" by (simp only: um_get_mem)
    then have "um_get (rev (gvalues (m_graph n1) @ filter (\<lambda>(k, _). k \<notin> fst ` set (gvalues (m_graph n1))) (gvalues (m_graph n2)))) k = Some v"
      by (simp only: v0 merge_values_def um_get_of)
    then have "(k, v) \<in> set (gvalues (m_graph n1)) \<union> set (gvalues (m_graph n2))" by (drule_tac map_of_SomeD) auto
    then show "kv \<in> set (gvalues (m_graph n1)) \<union> set (gvalues (m_graph n2))" by (simp add: kv)
  qed
  have vals: "(\<exists>s. v_getSizeInByte v = Inr s) \<and>
      (amp \<and> is_param v \<longrightarrow> tensor_elem_type (v_type v) \<in> {TE_HALF, TE_FLOAT, TE_BFLOAT16})"
    if "v \<in> snd ` set (gvalues g)" for v
  proof -
    from that obtain k where k: "(k, v) \<in> set (gvalues g)" by (rule imageE) (metis prod.collapse)
    have "(k, v) \<in> set (gvalues (m_graph n1)) \<union> set (gvalues (m_graph n2))"
      by (rule subsetD [OF orig subsetD [OF sub(1) k]])
    then have "v \<in> snd ` set (gvalues (m_graph n1)) \<or> v \<in> snd ` set (gvalues (m_graph n2))" by force
    then show ?thesis using assms(2,3) unfolding node_ok_def costable_def by meson
  qed
  show ?thesis unfolding costable_def g(3) by (intro conjI ballI sub(2) vals [THEN conjunct1] vals [THEN conjunct2])
qed

lemma merge_nodes_ok:
  assumes "node_ok amp n1" "node_ok amp n2" "ids_compatible (nodes (m_graph n1)) (nodes (m_graph n2))"
  obtains n where "merge_nodes gen n1 n2 all es = Inr n" "node_ok amp n"
    and "set (nodes (m_graph n)) \<subseteq> set (nodes (m_graph n1)) \<union> set (nodes (m_graph n2))"
    and "m_id n = ''ML_'' @ gen 0" "m_subs n = [n1, n2]" "m_edges n = ml_edge n1 n2 es"
proof -
  have inv: "graph_inv (m_graph n1)" "graph_inv (m_graph n2)" using assms(1,2) by (simp_all add: node_ok_def)
  obtain n where n: "merge_req gen n1 n2 (n_getRequiredInputs n1 n2 all) es = Inr n" "graph_inv (m_graph n)"
    "set (nodes (m_graph n)) \<subseteq> set (nodes (m_graph n1)) \<union> set (nodes (m_graph n2))"
    "g_outputs (m_graph n) = filter (\<lambda>o1. o1 \<notin> set (g_inputs (m_graph n2)) \<or> o1 \<in> n_getRequiredInputs n1 n2 all)
       (g_outputs (m_graph n1)) @ g_outputs (m_graph n2)"
    "m_id n = ''ML_'' @ gen 0" "m_subs n = [n1, n2]"
    by (rule merge_req_inv [OF inv assms(3)])
  have "costable amp (m_graph n)" by (rule merge_req_costable [OF n(1) assms(1,2) n(4)])
  moreover have "m_edges n = ml_edge n1 n2 es" using n(1) by (auto simp: merge_req_def rbind_eq_Inr)
  ultimately show ?thesis using that n by (simp add: merge_nodes_def node_ok_def)
qed

lemma liftUp_ok [simp]:
  "node_ok amp n \<Longrightarrow> node_ok amp (liftUp gen n)"
  "nodes (m_graph (liftUp gen n)) = nodes (m_graph n)" "m_id (liftUp gen n) = ''ML_'' @ gen 0"
  "m_subs (liftUp gen n) = [n]" "m_edges (liftUp gen n) = []"
  by (simp_all add: liftUp_def node_ok_def renameIRGraph_def graph_inv_def values_ok_def outputs_defined_def
      verifyNodeInputs_def costable_def)

section \<open>Coarsening\<close>

text \<open>
  A pass adds at most one merged node per vertex, so the number of nodes never grows; this is why the
  loop of \<open>coarsen\<close>, which runs until the number stays the same, ends.
\<close>

lemma match_node_length:
  assumes "match_node p ml skip m stats k bv ms s = Inr (ms', s')"
  shows "length (merged_nodes ms') \<le> Suc (length (merged_nodes ms))"
  using assms by (auto simp: match_node_def Let_def st_simps split: if_splits)

lemma match_nodes_length:
  "sfold (match_node p ml skip m stats k) vs ms s = Inr (ms', s') \<Longrightarrow>
   length (merged_nodes ms') \<le> length vs + length (merged_nodes ms)"
proof (induction vs arbitrary: ms s)
  case (Cons v vs)
  then obtain ms1 s1 where 1: "match_node p ml skip m stats k v ms s = Inr (ms1, s1)"
    "sfold (match_node p ml skip m stats k) vs ms1 s1 = Inr (ms', s')" by (auto simp: st_simps)
  from Cons.IH [OF 1(2)] match_node_length [OF 1(1)] show ?case by simp
qed (simp add: st_simps)

lemma toBGL_verts: "toBGL g = Inr bg \<Longrightarrow> verts bg = ml_nodes g"
  by (auto simp: toBGL_def toBGL_of_def Let_def rbind_eq_Inr)

lemma mergeAdjacents_length:
  assumes "mergeAdjacents p ml skip m s = Inr (h, s')"
  shows "length (ml_nodes h) \<le> length (ml_nodes ml)"
proof -
  obtain bg vs s1 evs s2 stats ms s3 where bg: "toBGL ml = Inr bg"
    and vs: "sortNodesByEval p (all_nodes bg) bg s = Inr (vs, s1)"
    and run: "sfold (match_node p ml skip m stats (length vs)) vs
        \<lparr>matched = [], merged_nodes = [], name_map = [], ms_graph = bg\<rparr> s2 = Inr (ms, s3)"
    and h: "ml_nodes h = merged_nodes ms"
    using assms unfolding mergeAdjacents_def by (auto simp: st_simps)
  from vs have "length vs = length (all_nodes bg)"
    by (auto simp: sortNodesByEval_def st_simps dest!: smap_length)
  then have "length vs = length (ml_nodes ml)" by (simp add: all_nodes_def toBGL_verts [OF bg])
  with match_nodes_length [OF run] h show ?thesis by simp
qed

text \<open>
  The loop of \<open>coarsen\<close>, with the graph of the last round and the current graph; the trace message
  of a round evaluates \<open>sumEdgeSizes\<close>.
\<close>

function coarsen_loop :: "MLPartitioner \<Rightarrow> int \<Rightarrow> MLGraph \<Rightarrow> MLGraph \<Rightarrow> (part_state, MLGraph) st" where
  "coarsen_loop p min_partition_num last_graph c_graph s =
     (if length (ml_nodes last_graph) = length (ml_nodes c_graph) then Inr (last_graph, s)
      else if length (ml_nodes c_graph) \<le> 3 then Inr (c_graph, s)
      else rbind (mergeAdjacents p c_graph (length (ml_nodes c_graph) > 200) min_partition_num s) (\<lambda>(g, s').
           rbind (sumEdgeSizes (ml_edges g)) (\<lambda>_.
           if int (length (ml_nodes g)) \<le> to_size min_partition_num then Inr (g, s')
           else coarsen_loop p min_partition_num c_graph g s')))"
  by pat_completeness auto
termination
proof (relation "measures [\<lambda>(p, m, l, c, s). length (ml_nodes c),
                          \<lambda>(p, m, l, c, s). if length (ml_nodes l) = length (ml_nodes c) then 0 else 1]")
  fix p m and l c :: MLGraph and s gs g s' u
  assume "length (ml_nodes l) \<noteq> length (ml_nodes c)"
    and "mergeAdjacents p c (200 < length (ml_nodes c)) m s = Inr gs" "(g, s') = gs"
  moreover from this have "length (ml_nodes g) \<le> length (ml_nodes c)" by (auto dest: mergeAdjacents_length)
  ultimately show "((p, m, c, g, s'), p, m, l, c, s) \<in> measures [\<lambda>(p, m, l, c, s). length (ml_nodes c),
      \<lambda>(p, m, l, c, s). if length (ml_nodes l) = length (ml_nodes c) then 0 else 1]" by auto
qed simp

declare coarsen_loop.simps [simp del]

definition coarsen :: "MLPartitioner \<Rightarrow> MLGraph \<Rightarrow> int \<Rightarrow> (part_state, MLGraph) st" where
  "coarsen p ml_graph min_partition_num =
     coarsen_loop p min_partition_num \<lparr>ml_nodes = [], ml_edges = []\<rparr> ml_graph"

end
