(* ===== verification/ML_Refine.thy ===== *)
theory ML_Refine
  imports ML_Coarsen "HOL-Library.Char_ord" "HOL-Library.List_Lexorder"
begin

text \<open>
  The second half of \<open>MLPartitioner\<close> (\<open>graph/Partitioner.cpp\<close>): taking a subgraph out of another,
  moving a lower-level node across an edge, the boundary adjustment that moves nodes while the cost
  falls, uncoarsening, and the final fusion of small neighbours.
\<close>

section \<open>Removing a subgraph\<close>

text \<open>The operators of \<open>g2\<close> are taken out of \<open>g1\<close>; values, inputs and outputs that no remaining operator touches go too.\<close>

definition touched_names :: "IRNode list \<Rightarrow> string set" where
  "touched_names ns = set (concat (map (\<lambda>n. input_names n @ output_names n) ns))"

definition doRemoveSubgraph :: "(nat \<Rightarrow> string) \<Rightarrow> IRGraph \<Rightarrow> IRGraph \<Rightarrow> IRGraph res" where
  "doRemoveSubgraph gen g1 g2 =
     (let removed_nodes = set (map n_id (nodes g2));
          ns = filter (\<lambda>n. n_id n \<notin> removed_nodes) (nodes g1);
          val_names = touched_names ns
      in mkIRGraph (''REMOVED_'' @ gen 0) ns (um_of (filter (\<lambda>(k, _). k \<in> val_names) (gvalues g1)))
           (filter (\<lambda>i. i \<in> val_names) (g_inputs g1)) (filter (\<lambda>x. x \<in> val_names) (g_outputs g1)))"

definition tail_output :: "IRGraph \<Rightarrow> IRGraph \<Rightarrow> string \<Rightarrow> string list \<Rightarrow> string list res" where
  "tail_output g g2 x outs =
     (if x \<in> set outs then Inr outs
      else rbind (getValue g2 x) (\<lambda>v. Inr (if \<not> is_param v \<and> um_contains (gvalues g) x then outs @ [x] else outs)))"

definition removeTailSubgraph :: "(nat \<Rightarrow> string) \<Rightarrow> IRGraph \<Rightarrow> IRGraph \<Rightarrow> IRGraph res" where
  "removeTailSubgraph gen g1 g2 =
     rbind (doRemoveSubgraph gen g1 g2) (\<lambda>g.
     rbind (rfold (tail_output g g2) (g_inputs g2) (g_outputs g)) (\<lambda>outs.
     rbind (mkIRGraph (g_name g) (nodes g) (gvalues g) (g_inputs g) outs) removeUnusedNodes))"

definition removeHeadSubgraph :: "(nat \<Rightarrow> string) \<Rightarrow> IRGraph \<Rightarrow> IRGraph \<Rightarrow> IRGraph res" where
  "removeHeadSubgraph gen g1 g2 =
     rbind (doRemoveSubgraph gen g1 g2) (\<lambda>g.
     rbind (rfilter (\<lambda>i. rbind (getValue g i) (\<lambda>v. Inr (\<not> is_param v))) (g_inputs g)) (\<lambda>regular.
     rbind (rfilter (\<lambda>i. rbind (getValue g i) (\<lambda>v. Inr (is_param v))) (g_inputs g)) (\<lambda>params.
     let required = set (concat (map input_names (nodes g)));
         inputs = add_new (filter (\<lambda>x. x \<in> required) (g_outputs g2)) (add_new regular []) @ params
     in rbind (rassert (distinct inputs)) (\<lambda>_.
        rbind (mkIRGraph (g_name g) (nodes g) (gvalues g) inputs (g_outputs g)) removeUnusedNodes))))"

section \<open>Moving a node across an edge\<close>

record MoveResult =
  mr_src :: MLNode
  mr_tgt :: MLNode
  mr_edge :: MLEdge

definition move_to_tgt ::
    "MLPartitioner \<Rightarrow> MLNode \<Rightarrow> MLEdge \<Rightarrow> MLNode \<Rightarrow> MLEdge \<Rightarrow> MLNode \<Rightarrow> string set \<Rightarrow> (part_state, MoveResult) st" where
  "move_to_tgt p src_node edge tgt_node sub_edge moved_node required_inputs =
     sbind (fresh p) (\<lambda>gen.
     sbind (slift (removeTailSubgraph gen (m_graph src_node) (m_graph moved_node))) (\<lambda>new_src_graph.
     sbind (fresh p) (\<lambda>gen'.
     sbind (slift (merge_graph gen' (m_graph moved_node) (m_graph tgt_node) required_inputs)) (\<lambda>new_tgt_graph.
     let new_src_subs = filter (\<lambda>e. m_id e \<noteq> m_id moved_node) (m_subs src_node);
         crossing_now = filter (\<lambda>se. e_tgt se = m_id moved_node) (m_edges src_node);
         new_src_edges = filter (\<lambda>se. e_tgt se \<noteq> m_id moved_node) (m_edges src_node)
     in sret \<lparr>mr_src = MLNode (m_id src_node) new_src_graph new_src_subs new_src_edges,
              mr_tgt = MLNode (m_id tgt_node) new_tgt_graph (moved_node # m_subs tgt_node) (m_edges tgt_node @ [sub_edge]),
              mr_edge = MLEdge (e_src edge) (e_tgt edge)
                (crossing_now @ filter (\<lambda>se. e_src se \<noteq> m_id moved_node) (e_subs edge)) []\<rparr>))))"

definition move_to_src ::
    "MLPartitioner \<Rightarrow> MLNode \<Rightarrow> MLEdge \<Rightarrow> MLNode \<Rightarrow> MLEdge \<Rightarrow> MLNode \<Rightarrow> string set \<Rightarrow> (part_state, MoveResult) st" where
  "move_to_src p src_node edge tgt_node sub_edge moved_node required_inputs =
     sbind (fresh p) (\<lambda>gen.
     sbind (slift (merge_graph gen (m_graph src_node) (m_graph moved_node) required_inputs)) (\<lambda>new_src_graph.
     sbind (fresh p) (\<lambda>gen'.
     sbind (slift (removeHeadSubgraph gen' (m_graph tgt_node) (m_graph moved_node))) (\<lambda>new_tgt_graph.
     let crossing_now = filter (\<lambda>se. e_src se = m_id moved_node) (m_edges tgt_node);
         new_tgt_edges = filter (\<lambda>se. e_src se \<noteq> m_id moved_node) (m_edges tgt_node);
         new_tgt_subs = filter (\<lambda>e. m_id e \<noteq> m_id moved_node) (m_subs tgt_node)
     in sret \<lparr>mr_src = MLNode (m_id src_node) new_src_graph (m_subs src_node @ [moved_node]) (m_edges src_node @ [sub_edge]),
              mr_tgt = MLNode (m_id tgt_node) new_tgt_graph new_tgt_subs new_tgt_edges,
              mr_edge = MLEdge (e_src edge) (e_tgt edge)
                (crossing_now @ filter (\<lambda>se. e_tgt se \<noteq> m_id moved_node) (e_subs edge)) []\<rparr>))))"

section \<open>Adjusting boundaries\<close>

record NodeMove =
  nm_src :: string
  nm_edge :: MLEdge
  nm_tgt :: string
  nm_node :: MLNode
  nm_sub :: MLEdge
  nm_to_tgt :: bool

type_synonym MLEdgeMap = "(string \<times> string, MLEdge) umap"

record boundary_state =
  b_nodes :: "(string, MLNode) umap"
  b_edges :: MLEdgeMap
  b_all :: "MLNode list"
  b_subs :: "MLEdge list"

definition edge_map_of :: "MLEdge list \<Rightarrow> MLEdgeMap" where
  "edge_map_of es = um_of (map (\<lambda>e. ((e_src e, e_tgt e), e)) es)"

definition add_choice :: "NodeMove \<Rightarrow> (string, NodeMove list) umap \<Rightarrow> (string, NodeMove list) umap" where
  "add_choice mv choices = um_set (m_id (nm_node mv)) (um_ref [] choices (m_id (nm_node mv)) @ [mv]) choices"

text \<open>The two moves that a lower-level edge of an edge offers: its source forwards, its target backwards.\<close>

definition edge_choices ::
    "(string, MLNode) umap \<Rightarrow> (string, MLNode) umap \<Rightarrow> MLEdge \<Rightarrow> (string, NodeMove list) umap \<Rightarrow> (string, NodeMove list) umap res" where
  "edge_choices node_map lower_node_map e choices =
     rbind (rassert (um_contains node_map (e_src e) \<and> um_contains node_map (e_tgt e))) (\<lambda>_.
     rbind (um_at node_map (e_src e)) (\<lambda>src_node.
     rbind (um_at node_map (e_tgt e)) (\<lambda>tgt_node.
     rfold (\<lambda>se ch.
       rbind (rassert (um_contains lower_node_map (e_src se) \<and> um_contains lower_node_map (e_tgt se))) (\<lambda>_.
       rbind (um_at lower_node_map (e_src se)) (\<lambda>moved_src.
       rbind (um_at lower_node_map (e_tgt se)) (\<lambda>moved_tgt.
       Inr (add_choice \<lparr>nm_src = m_id src_node, nm_edge = e, nm_tgt = m_id tgt_node, nm_node = moved_tgt, nm_sub = se, nm_to_tgt = False\<rparr>
             (add_choice \<lparr>nm_src = m_id src_node, nm_edge = e, nm_tgt = m_id tgt_node, nm_node = moved_src, nm_sub = se, nm_to_tgt = True\<rparr>
               ch)))))) (e_subs e) choices)))"

text \<open>Whether the reference counts rule a move out (the first \<open>continue\<close> of the loop).\<close>

definition move_blocked :: "MLNode \<Rightarrow> MLNode \<Rightarrow> MLEdge list \<Rightarrow> NodeMove \<Rightarrow> bool res" where
  "move_blocked src_node tgt_node all_sub_edges mv =
     (let m = nm_node mv in
      if nm_to_tgt mv then
        (if length (m_subs src_node) < 2 then Inr True
         else rbind (countRefTgtInSubgraph src_node m) (\<lambda>k.
              Inr (k \<noteq> 0 \<or> countRefInEdgesSrc m all_sub_edges > 1 \<or> countRefInEdgesTgt m all_sub_edges \<noteq> 0)))
      else
        (if length (m_subs tgt_node) < 2 then Inr True
         else rbind (countRefSrcInSubgraph tgt_node m) (\<lambda>k.
              Inr (k \<noteq> 0 \<or> countRefInEdgesTgt m all_sub_edges > 1 \<or> countRefInEdgesSrc m all_sub_edges \<noteq> 0))))"

definition perform_move :: "MLPartitioner \<Rightarrow> MLNode list \<Rightarrow> MLNode \<Rightarrow> MLEdge \<Rightarrow> MLNode \<Rightarrow> NodeMove \<Rightarrow> (part_state, MoveResult) st" where
  "perform_move p all_ml src_node edge tgt_node mv =
     (if nm_to_tgt mv
      then move_to_tgt p src_node edge tgt_node (nm_sub mv) (nm_node mv) (n_getRequiredInputs src_node tgt_node all_ml)
      else move_to_src p src_node edge tgt_node (nm_sub mv) (nm_node mv)
             (getPreservedOutputs (m_id src_node) (g_name (m_graph (nm_node mv))) all_ml))"

definition move_verified :: "MoveResult \<Rightarrow> bool" where
  "move_verified r \<longleftrightarrow>
     n_verify (mr_src r) \<and> n_verify (mr_tgt r) \<and>
     verifyNoDuplicatedOutputs (m_graph (mr_src r)) \<and> verifyNoDuplicatedOutputs (m_graph (mr_tgt r)) \<and>
     verifyNodeInputs (m_graph (mr_src r)) \<and> verifyNodeInputs (m_graph (mr_tgt r)) \<and>
     noUnusedValue (m_graph (mr_src r)) \<and> noUnusedValue (m_graph (mr_tgt r))"

definition comm_cost :: "MLPartitioner \<Rightarrow> MLEdge \<Rightarrow> int res" where
  "comm_cost p e = rbind (calcEdgeSize e) (\<lambda>w. rbind (device_share p w) (\<lambda>q. Inr (calcCommTime q)))"

definition fits :: "MLPartitioner \<Rightarrow> IRGraph \<Rightarrow> GraphProfile \<Rightarrow> bool res" where
  "fits p g prof = fitToMem (opt_param_factor p) g prof (dev_mem p) (use_amp_master_params p)"

text \<open>What a move gains, or \<open>None\<close> when one of the new graphs does not fit into memory.\<close>

definition move_gain :: "MLPartitioner \<Rightarrow> MLNode \<Rightarrow> MLEdge \<Rightarrow> MLNode \<Rightarrow> MoveResult \<Rightarrow> (part_state, int option) st" where
  "move_gain p src_node edge tgt_node r =
     sbind (eval_graph p (m_graph src_node)) (\<lambda>eval_src.
     sbind (eval_graph p (m_graph tgt_node)) (\<lambda>eval_tgt.
     sbind (slift (comm_cost p edge)) (\<lambda>eval_comm.
     sbind (ml_profile p (m_graph (mr_src r))) (\<lambda>prof_src.
     sbind (slift (fits p (m_graph (mr_src r)) prof_src)) (\<lambda>fits_src.
     if \<not> fits_src then sret None
     else sbind (ml_profile p (m_graph (mr_tgt r))) (\<lambda>prof_tgt.
          sbind (slift (fits p (m_graph (mr_tgt r)) prof_tgt)) (\<lambda>fits_tgt.
          if \<not> fits_tgt then sret None
          else sbind (slift (comm_cost p (mr_edge r))) (\<lambda>eval_moved_comm.
               sret (Some ((eval_src + eval_tgt + eval_comm) -
                           (ml_eval p prof_src + ml_eval p prof_tgt + eval_moved_comm)))))))))))"

definition contains_moved :: "MLNode \<Rightarrow> MLNode \<Rightarrow> NodeMove \<Rightarrow> bool" where
  "contains_moved src_node tgt_node mv = containsSubgraph (if nm_to_tgt mv then src_node else tgt_node) (m_id (nm_node mv))"

type_synonym best_move = "int \<times> MoveResult option"

definition weigh_move ::
    "MLPartitioner \<Rightarrow> boundary_state \<Rightarrow> MLNode \<Rightarrow> MLEdge \<Rightarrow> MLNode \<Rightarrow> NodeMove \<Rightarrow> best_move \<Rightarrow> (part_state, best_move) st" where
  "weigh_move p b src_node edge tgt_node mv best =
     sbind (perform_move p (b_all b) src_node edge tgt_node mv) (\<lambda>r.
     if \<not> verifyNodeInputs (m_graph (mr_src r)) \<or> \<not> verifyNodeInputs (m_graph (mr_tgt r)) then sret best
     else if \<not> move_verified r then slift (Inl Runtime_error)
     else sbind (move_gain p src_node edge tgt_node r) (\<lambda>gain.
          sret (case gain of None \<Rightarrow> best | Some imprv \<Rightarrow> if imprv > fst best then (imprv, Some r) else best)))"

definition try_move :: "MLPartitioner \<Rightarrow> boundary_state \<Rightarrow> NodeMove \<Rightarrow> best_move \<Rightarrow> (part_state, best_move) st" where
  "try_move p b mv best =
     sbind (slift (um_at (b_nodes b) (nm_src mv))) (\<lambda>src_node.
     sbind (slift (um_at (b_nodes b) (nm_tgt mv))) (\<lambda>tgt_node.
     sbind (slift (move_blocked src_node tgt_node (b_subs b) mv)) (\<lambda>blocked.
     if blocked then sret best
     else sbind (slift (um_at (b_edges b) (e_src (nm_edge mv), e_tgt (nm_edge mv)))) (\<lambda>edge.
          if \<not> containsSubedge edge (nm_sub mv) \<or> \<not> contains_moved src_node tgt_node mv then sret best
          else weigh_move p b src_node edge tgt_node mv best))))"

definition apply_move :: "MoveResult \<Rightarrow> boundary_state \<Rightarrow> boundary_state" where
  "apply_move r b =
     (let nm = um_set (m_id (mr_tgt r)) (mr_tgt r) (um_set (m_id (mr_src r)) (mr_src r) (b_nodes b));
          k = (e_src (mr_edge r), e_tgt (mr_edge r));
          em = (if e_subs (mr_edge r) = [] then um_erase k (b_edges b) else um_set k (mr_edge r) (b_edges b))
      in \<lparr>b_nodes = nm, b_edges = em, b_all = map snd nm, b_subs = concat (map e_subs (map snd em))\<rparr>)"

definition level_of :: "boundary_state \<Rightarrow> MLGraph" where
  "level_of b = \<lparr>ml_nodes = map snd (b_nodes b), ml_edges = map snd (b_edges b)\<rparr>"

definition adjust_node ::
    "MLPartitioner \<Rightarrow> (string, NodeMove list) umap \<Rightarrow> string \<Rightarrow> boundary_state \<Rightarrow> (part_state, boundary_state) st" where
  "adjust_node p choices move_node_id b =
     sbind (slift (um_at choices move_node_id)) (\<lambda>possible_moves.
     sbind (slift (rassert (possible_moves \<noteq> []))) (\<lambda>_.
     sbind (sfold (try_move p b) possible_moves (0, None)) (\<lambda>best.
     case snd best of
       None \<Rightarrow> sret b
     | Some r \<Rightarrow>
         (if fst best > 0
          then let b' = apply_move r b in sbind (slift (rassert (g_verify (level_of b')))) (\<lambda>_. sret b')
          else sret b))))"

definition adjustBoundaries :: "MLPartitioner \<Rightarrow> MLGraph \<Rightarrow> (part_state, MLGraph) st" where
  "adjustBoundaries p ml_graph =
     (let node_map = um_of (map (\<lambda>n. (m_id n, n)) (ml_nodes ml_graph));
          lower_node_map = um_of (concat (map (\<lambda>n. map (\<lambda>sn. (m_id sn, sn)) (m_subs n)) (ml_nodes ml_graph)))
      in if \<not> list_all n_verify (ml_nodes ml_graph) then slift (Inl Runtime_error)
         else sbind (slift (rfold (edge_choices node_map lower_node_map) (ml_edges ml_graph) [])) (\<lambda>choices.
              sbind (sfold (adjust_node p choices) (um_keys choices True)
                      \<lparr>b_nodes = node_map, b_edges = edge_map_of (ml_edges ml_graph), b_all = ml_nodes ml_graph,
                       b_subs = concat (map e_subs (ml_edges ml_graph))\<rparr>) (\<lambda>b.
              sret (level_of b))))"

subsection \<open>Where the nodes come from\<close>

text \<open>
  A move rearranges lower-level nodes; it makes none. This bounds the depth of the levels and thereby
  the number of rounds of \<open>uncoarsen\<close>.
\<close>

definition lower_nodes :: "MLNode list \<Rightarrow> MLNode set" where
  "lower_nodes ns = (\<Union>n \<in> set ns. set (m_subs n))"

definition choices_in :: "MLNode set \<Rightarrow> (string, NodeMove list) umap \<Rightarrow> bool" where
  "choices_in S choices \<longleftrightarrow> (\<forall>k mvs. um_get choices k = Some mvs \<longrightarrow> (\<forall>mv \<in> set mvs. nm_node mv \<in> S \<and> m_id (nm_node mv) = k))"

lemma add_choice_in: "choices_in S ch \<Longrightarrow> nm_node mv \<in> S \<Longrightarrow> choices_in S (add_choice mv ch)"
  unfolding choices_in_def add_choice_def um_get_set
  by (cases "um_get ch (m_id (nm_node mv))") (auto simp: um_ref_def)

lemma um_at_of: "um_at (um_of kvs) k = Inr v \<Longrightarrow> (k, v) \<in> set kvs"
  by (metis map_of_SomeD set_rev um_at_Inr um_get_of)

lemma edge_choices_in:
  assumes "edge_choices nm (um_of lower) e ch = Inr ch'" "choices_in S ch" "snd ` set lower \<subseteq> S"
  shows "choices_in S ch'"
proof -
  have low: "v \<in> S" if "um_at (um_of lower) k = Inr v" for k v
    using um_at_of [OF that] assms(3) by force
  obtain u t where run: "rfold (\<lambda>se ch.
       rbind (rassert (um_contains (um_of lower) (e_src se) \<and> um_contains (um_of lower) (e_tgt se))) (\<lambda>_.
       rbind (um_at (um_of lower) (e_src se)) (\<lambda>moved_src.
       rbind (um_at (um_of lower) (e_tgt se)) (\<lambda>moved_tgt.
       Inr (add_choice \<lparr>nm_src = m_id u, nm_edge = e, nm_tgt = m_id t, nm_node = moved_tgt, nm_sub = se, nm_to_tgt = False\<rparr>
             (add_choice \<lparr>nm_src = m_id u, nm_edge = e, nm_tgt = m_id t, nm_node = moved_src, nm_sub = se, nm_to_tgt = True\<rparr>
               ch)))))) (e_subs e) ch = Inr ch'"
    using assms(1) by (auto simp: edge_choices_def rbind_eq_Inr)
  show ?thesis
    by (rule rfold_invariant [OF run, of "choices_in S", OF assms(2)])
       (auto simp: rbind_eq_Inr intro!: add_choice_in dest: low)
qed

lemma all_choices_in:
  assumes "rfold (edge_choices nm (um_of lower)) es [] = Inr ch" "snd ` set lower \<subseteq> S"
  shows "choices_in S ch"
proof (rule rfold_invariant [OF assms(1), of "choices_in S"])
  show "choices_in S []" by (simp add: choices_in_def)
  show "choices_in S ch'" if "choices_in S ch0" "edge_choices nm (um_of lower) e ch0 = Inr ch'" for e ch0 ch'
    by (rule edge_choices_in [OF that(2,1) assms(2)])
qed

lemma perform_move_ids:
  assumes "perform_move p all_ml u e t mv s = Inr (r, s')"
  shows "m_id (mr_src r) = m_id u" "m_id (mr_tgt r) = m_id t" "e_src (mr_edge r) = e_src e" "e_tgt (mr_edge r) = e_tgt e"
    and "nm_to_tgt mv \<Longrightarrow> m_subs (mr_src r) = filter (\<lambda>k. m_id k \<noteq> m_id (nm_node mv)) (m_subs u) \<and>
           m_subs (mr_tgt r) = nm_node mv # m_subs t"
    and "\<not> nm_to_tgt mv \<Longrightarrow> m_subs (mr_src r) = m_subs u @ [nm_node mv] \<and>
           m_subs (mr_tgt r) = filter (\<lambda>k. m_id k \<noteq> m_id (nm_node mv)) (m_subs t)"
  using assms by (auto simp: perform_move_def move_to_tgt_def move_to_src_def Let_def st_simps split: if_splits)

lemma weigh_move_result:
  assumes "weigh_move p b u e t mv best s = Inr (best', s')"
  obtains "best' = best" | imprv r where "best' = (imprv, Some r)" "imprv > fst best" "move_verified r"
    "\<exists>s1 s2. perform_move p (b_all b) u e t mv s1 = Inr (r, s2)"
proof -
  obtain r s1 where r: "perform_move p (b_all b) u e t mv s = Inr (r, s1)"
    and cases: "best' = best \<or> move_verified r \<and> (\<exists>gain s2. move_gain p u e t r s1 = Inr (gain, s2) \<and>
      best' = (case gain of None \<Rightarrow> best | Some imprv \<Rightarrow> if imprv > fst best then (imprv, Some r) else best))"
    using assms unfolding weigh_move_def by (auto simp: st_simps split: if_splits)
  from cases show ?thesis
  proof (elim disjE conjE exE)
    assume "best' = best"
    then show ?thesis by (rule that(1))
  next
    fix gain s2
    assume mv: "move_verified r"
      and b: "best' = (case gain of None \<Rightarrow> best | Some imprv \<Rightarrow> if imprv > fst best then (imprv, Some r) else best)"
    show ?thesis
    proof (cases gain)
      case None
      with b show ?thesis by (intro that(1)) simp
    next
      case (Some imprv)
      with b that(1) that(2) [of imprv r] mv r show ?thesis by (cases "imprv > fst best") auto
    qed
  qed
qed

text \<open>The move \<open>mv\<close> of the node between \<open>u\<close> and \<open>t\<close> across \<open>e\<close> was performed with the result \<open>r\<close>.\<close>

definition performed ::
    "MLPartitioner \<Rightarrow> boundary_state \<Rightarrow> NodeMove \<Rightarrow> MLNode \<Rightarrow> MLEdge \<Rightarrow> MLNode \<Rightarrow> MoveResult \<Rightarrow> bool" where
  "performed p b mv u e t r \<longleftrightarrow>
     um_get (b_nodes b) (nm_src mv) = Some u \<and> um_get (b_nodes b) (nm_tgt mv) = Some t \<and>
     um_get (b_edges b) (e_src (nm_edge mv), e_tgt (nm_edge mv)) = Some e \<and>
     containsSubedge e (nm_sub mv) \<and> contains_moved u t mv \<and> move_verified r \<and>
     2 \<le> length (m_subs (if nm_to_tgt mv then u else t)) \<and>
     (\<exists>s1 s2. perform_move p (b_all b) u e t mv s1 = Inr (r, s2))"

lemma try_move_result:
  assumes "try_move p b mv best s = Inr (best', s')"
  obtains "best' = best" | imprv r u t e where "best' = (imprv, Some r)" "imprv > fst best" "performed p b mv u e t r"
proof -
  obtain u t where ut: "um_get (b_nodes b) (nm_src mv) = Some u" "um_get (b_nodes b) (nm_tgt mv) = Some t"
    and cases: "best' = best \<or> (\<exists>e s1. um_get (b_edges b) (e_src (nm_edge mv), e_tgt (nm_edge mv)) = Some e \<and>
       containsSubedge e (nm_sub mv) \<and> contains_moved u t mv \<and> move_blocked u t (b_subs b) mv = Inr False \<and>
       weigh_move p b u e t mv best s1 = Inr (best', s'))"
    using assms unfolding try_move_def by (auto simp: st_simps um_at_Inr split: if_splits) blast
  from cases show ?thesis
  proof (elim disjE conjE exE)
    assume "best' = best"
    then show ?thesis by (rule that(1))
  next
    fix e s1
    assume e: "um_get (b_edges b) (e_src (nm_edge mv), e_tgt (nm_edge mv)) = Some e"
      "containsSubedge e (nm_sub mv)" "contains_moved u t mv" and blocked: "move_blocked u t (b_subs b) mv = Inr False" and w: "weigh_move p b u e t mv best s1 = Inr (best', s')"
    from w show ?thesis
    proof (rule weigh_move_result)
      assume "best' = best"
      then show ?thesis by (rule that(1))
    next
      fix imprv r
      assume b: "best' = (imprv, Some r)" "imprv > fst best" and r: "move_verified r"
        "\<exists>s1 s2. perform_move p (b_all b) u e t mv s1 = Inr (r, s2)"
      have "2 \<le> length (m_subs (if nm_to_tgt mv then u else t))"
        using blocked by (auto simp: move_blocked_def Let_def not_less split: if_splits)
      with ut e r have "performed p b mv u e t r" by (simp add: performed_def)
      with b show ?thesis by (rule that(2))
    qed
  qed
qed

lemma adjust_node_result:
  assumes "adjust_node p choices k b s = Inr (b', s')"
  obtains "b' = b" | mvs mv u e t r where "b' = apply_move r b" "g_verify (level_of b')"
    "um_get choices k = Some mvs" "mv \<in> set mvs" "performed p b mv u e t r"
proof -
  obtain mvs best s1 where mvs: "um_get choices k = Some mvs"
    and fold: "sfold (try_move p b) mvs (0, None) s = Inr (best, s1)"
    and cases: "b' = b \<or> (\<exists>r. snd best = Some r \<and> b' = apply_move r b \<and> g_verify (level_of b'))"
    using assms unfolding adjust_node_def by (auto simp: st_simps um_at_Inr Let_def split: if_splits option.splits)
  let ?P = "\<lambda>best (_ :: part_state). \<forall>r. snd best = Some r \<longrightarrow> (\<exists>mv \<in> set mvs. \<exists>u e t. performed p b mv u e t r)"
  have "?P best s1"
  proof (rule sfold_invariant [OF fold, of ?P])
    show "?P (0, None) s" by simp
    fix mv best0 s0 best1 s2
    assume mv: "mv \<in> set mvs" and P: "?P best0 s0" and run: "try_move p b mv best0 s0 = Inr (best1, s2)"
    from run show "?P best1 s2" by (rule try_move_result) (use mv P in auto)
  qed
  with cases mvs that show ?thesis by blast
qed

lemma performed_subs:
  assumes "performed p b mv u e t r"
  shows "set (m_subs (mr_src r)) \<union> set (m_subs (mr_tgt r)) \<subseteq> insert (nm_node mv) (set (m_subs u) \<union> set (m_subs t))"
proof -
  obtain s1 s2 where "perform_move p (b_all b) u e t mv s1 = Inr (r, s2)" using assms by (auto simp: performed_def)
  from perform_move_ids(5,6) [OF this] show ?thesis by (cases "nm_to_tgt mv") auto
qed

lemma adjust_pool:
  assumes "adjust_node p choices k b s = Inr (b', s')" "choices_in S choices" "lower_nodes (map snd (b_nodes b)) \<subseteq> S"
  shows "lower_nodes (map snd (b_nodes b')) \<subseteq> S"
  using assms(1)
proof (rule adjust_node_result)
  fix mvs mv u e t r
  assume r: "b' = apply_move r b" "um_get choices k = Some mvs" "mv \<in> set mvs" "performed p b mv u e t r"
  have "nm_node mv \<in> S" using assms(2) r(2,3) by (auto simp: choices_in_def)
  moreover have "set (m_subs u) \<subseteq> S" "set (m_subs t) \<subseteq> S"
    using assms(3) r(4) by (auto simp: lower_nodes_def performed_def dest!: map_of_SomeD) force+
  ultimately have new: "set (m_subs (mr_src r)) \<subseteq> S" "set (m_subs (mr_tgt r)) \<subseteq> S"
    using performed_subs [OF r(4)] by blast+
  have upd: "snd ` set (um_set k' v m) \<subseteq> insert v (snd ` set m)" for k' v and m :: "(string, MLNode) umap"
    by (induction m) auto
  have "set (map snd (b_nodes b')) \<subseteq> insert (mr_tgt r) (insert (mr_src r) (set (map snd (b_nodes b))))"
    using upd by (simp add: r(1) apply_move_def Let_def) blast
  with new assms(3) show ?thesis unfolding lower_nodes_def by blast
qed (use assms(3) in simp)

lemma adjustBoundaries_pool:
  assumes "adjustBoundaries p g s = Inr (h, s')"
  shows "lower_nodes (ml_nodes h) \<subseteq> lower_nodes (ml_nodes g)"
proof -
  let ?S = "lower_nodes (ml_nodes g)"
  let ?nm = "um_of (map (\<lambda>n. (m_id n, n)) (ml_nodes g))"
  let ?low = "concat (map (\<lambda>n. map (\<lambda>sn. (m_id sn, sn)) (m_subs n)) (ml_nodes g))"
  let ?b0 = "\<lparr>b_nodes = ?nm, b_edges = edge_map_of (ml_edges g), b_all = ml_nodes g, b_subs = concat (map e_subs (ml_edges g))\<rparr>"
  obtain ch b s1 where ch: "rfold (edge_choices ?nm (um_of ?low)) (ml_edges g) [] = Inr ch"
    and run: "sfold (adjust_node p ch) (um_keys ch True) ?b0 s1 = Inr (b, s')" and h: "h = level_of b"
    using assms unfolding adjustBoundaries_def by (auto simp: Let_def st_simps split: if_splits)
  have "snd ` set ?low \<subseteq> ?S" by (auto simp: lower_nodes_def)
  then have choices: "choices_in ?S ch" by (rule all_choices_in [OF ch])
  have "snd ` set ?nm \<subseteq> set (ml_nodes g)"
  proof
    fix n assume "n \<in> snd ` set ?nm"
    then obtain k where "(k, n) \<in> set ?nm" by auto
    then have "um_get ?nm k = Some n" by (simp add: um_get_mem)
    then have "um_at ?nm k = Inr n" by (simp add: um_at_Inr)
    from um_at_of [OF this] show "n \<in> set (ml_nodes g)" by auto
  qed
  then have start: "lower_nodes (map snd (b_nodes ?b0)) \<subseteq> ?S" unfolding lower_nodes_def by auto
  have "lower_nodes (map snd (b_nodes b)) \<subseteq> ?S"
    by (rule sfold_invariant [OF run, of "\<lambda>b _. lower_nodes (map snd (b_nodes b)) \<subseteq> ?S", OF start])
       (rule adjust_pool [OF _ choices])
  then show ?thesis by (simp add: h level_of_def)
qed

section \<open>Uncoarsening\<close>

text \<open>The loop goes down one level per round; the deepest lower-level node bounds the rounds.\<close>

fun ml_depth :: "MLNode \<Rightarrow> nat" where
  "ml_depth (MLNode i g subs es) = (if subs = [] then 0 else Suc (Max (set (map ml_depth subs))))"

definition pool_depth :: "MLNode set \<Rightarrow> nat" where
  "pool_depth S = Max (insert 0 (ml_depth ` S))"

lemma depth_sub: "m \<in> set (m_subs n) \<Longrightarrow> ml_depth m < ml_depth n"
  by (cases n) (auto simp: less_Suc_eq_le intro!: Max_ge)

lemma pool_depth_mono: "finite T \<Longrightarrow> S \<subseteq> T \<Longrightarrow> pool_depth S \<le> pool_depth T"
  unfolding pool_depth_def by (intro Max_mono) auto

lemma finite_lower_nodes [simp]: "finite (lower_nodes ns)"
  by (simp add: lower_nodes_def)

lemma pool_depth_below:
  assumes "finite S" "x \<in> S" "0 < ml_depth x"
  shows "pool_depth (\<Union>y \<in> S. set (m_subs y)) < pool_depth S"
proof -
  have "ml_depth x \<le> pool_depth S" using assms by (simp add: pool_depth_def)
  moreover have "ml_depth y < pool_depth S" if y: "y \<in> (\<Union>y \<in> S. set (m_subs y))" for y
  proof -
    from y obtain z where "z \<in> S" "y \<in> set (m_subs z)" by blast
    then have "ml_depth y < ml_depth z" "ml_depth z \<le> pool_depth S"
      using depth_sub assms(1) by (simp_all add: pool_depth_def)
    then show ?thesis by simp
  qed
  ultimately show ?thesis using assms unfolding pool_depth_def [of "\<Union>y \<in> S. set (m_subs y)"]
    by (subst Max_less_iff) auto
qed

lemma toLowerLevel_pool:
  assumes "toLowerLevel g = Inr h"
  shows "lower_nodes (ml_nodes h) = (\<Union>x \<in> lower_nodes (ml_nodes g). set (m_subs x))"
proof -
  obtain ns where run: "rmap doToLowerLevel (ml_nodes g) = Inr ns" and h: "ml_nodes h = ns"
    using assms by (auto simp: toLowerLevel_def rbind_eq_Inr)
  have "lower_nodes ns = (\<Union>x \<in> lower_nodes xs. set (m_subs x))" if "rmap doToLowerLevel xs = Inr ns" for xs ns
    using that
  proof (induction xs arbitrary: ns)
    case (Cons x xs)
    then obtain y ys where y: "doToLowerLevel x = Inr y" "rmap doToLowerLevel xs = Inr ys" "ns = y # ys"
      by (auto simp: rbind_eq_Inr)
    then have "m_subs y = concat (map m_subs (m_subs x))" by (auto simp: doToLowerLevel_def rbind_eq_Inr)
    then have "lower_nodes ns = (\<Union>z \<in> set (m_subs x). set (m_subs z)) \<union> lower_nodes ys"
      by (simp add: y(3) lower_nodes_def)
    then show ?case unfolding Cons.IH [OF y(2)] by (simp add: lower_nodes_def UN_Un)
  qed (simp add: lower_nodes_def)
  from this [OF run] show ?thesis by (simp add: h)
qed

lemma level_pool: "g_getLevel g > 1 \<Longrightarrow> \<exists>x \<in> lower_nodes (ml_nodes g). 0 < ml_depth x"
proof -
  assume l: "g_getLevel g > 1"
  then obtain n ns where n: "ml_nodes g = n # ns" by (cases "ml_nodes g") (auto simp: g_getLevel_def)
  with l have "getLevel n > 1" by (simp add: g_getLevel_def)
  then obtain x xs where x: "m_subs n = x # xs" "getLevel x > 0" by (cases n) (auto split: list.splits)
  then have "0 < ml_depth x" by (cases x) (auto split: list.splits)
  with x n show ?thesis by (auto simp: lower_nodes_def)
qed

function uncoarsen_loop :: "MLPartitioner \<Rightarrow> MLGraph \<Rightarrow> (part_state, MLGraph) st" where
  "uncoarsen_loop p graph s =
     (if g_getLevel graph > 1
      then rbind (toLowerLevel graph) (\<lambda>lower.
           rbind (adjustBoundaries p lower s) (\<lambda>(g, s').
           rbind (sumEdgeSizes (ml_edges g)) (\<lambda>_. uncoarsen_loop p g s')))
      else Inr (graph, s))"
  by pat_completeness auto
termination
proof (relation "measure (\<lambda>(p, g, s). pool_depth (lower_nodes (ml_nodes g)))")
  fix p graph s lower gs g s' and u :: size_t
  assume l: "g_getLevel graph > 1" and low: "toLowerLevel graph = Inr lower"
    and adj: "adjustBoundaries p lower s = Inr gs" "(g, s') = gs"
  obtain x where x: "x \<in> lower_nodes (ml_nodes graph)" "0 < ml_depth x" using level_pool [OF l] by blast
  have "pool_depth (lower_nodes (ml_nodes g)) \<le> pool_depth (lower_nodes (ml_nodes lower))"
    using adjustBoundaries_pool [of p lower s g s'] adj by (intro pool_depth_mono) auto
  also have "\<dots> < pool_depth (lower_nodes (ml_nodes graph))"
    unfolding toLowerLevel_pool [OF low] by (rule pool_depth_below [OF _ x]) simp
  finally show "((p, g, s'), p, graph, s) \<in> measure (\<lambda>(p, g, s). pool_depth (lower_nodes (ml_nodes g)))" by simp
qed simp

declare uncoarsen_loop.simps [simp del]

definition uncoarsen :: "MLPartitioner \<Rightarrow> MLGraph \<Rightarrow> (part_state, MLGraph) st" where
  "uncoarsen p ml_graph = sbind (adjustBoundaries p ml_graph) (uncoarsen_loop p)"

section \<open>Fusing small neighbours\<close>

type_synonym eval_map = "(string, int) umap"

text \<open>The search for the cheapest node; its index is \<open>None\<close> as long as it is not initialised.\<close>

definition small_node :: "MLPartitioner \<Rightarrow> nat \<times> MLNode \<Rightarrow> eval_map \<times> int \<times> nat option \<Rightarrow> (part_state, eval_map \<times> int \<times> nat option) st" where
  "small_node p = (\<lambda>(idx, n) (em, min_val, min_idx).
     sbind (if um_contains em (m_id n) then sret em
            else sbind (eval_graph p (m_graph n)) (\<lambda>v. sret (um_set (m_id n) v em))) (\<lambda>em'.
     sbind (slift (um_at em' (m_id n))) (\<lambda>val.
     sret (if val < min_val then (em', val, Some idx) else (em', min_val, min_idx)))))"

text \<open>
  One merge candidate: the fused node with its cost, or \<open>None\<close> when it does not fit (the \<open>break\<close>).
\<close>

definition merge_candidate ::
    "MLPartitioner \<Rightarrow> MLGraph \<Rightarrow> eval_map \<Rightarrow> MLNode \<Rightarrow> MLNode \<Rightarrow> MLNode \<Rightarrow> (part_state, (MLNode \<times> int) option) st" where
  "merge_candidate p g em other n1 n2 =
     sbind (slift (rassert (um_contains em (m_id other)))) (\<lambda>_.
     sbind (fresh p) (\<lambda>gen.
     sbind (slift (merge_nodes gen n1 n2 (ml_nodes g) (ml_edges g))) (\<lambda>merged.
     sbind (ml_profile p (m_graph merged)) (\<lambda>prof.
     sbind (slift (fits p (m_graph merged) prof)) (\<lambda>fit.
     sret (if fit then Some (merged, ml_eval p prof) else None))))))"

text \<open>
  The neighbour to fuse the cheapest node with: \<open>None\<close> ends the loop, otherwise the result is the
  neighbour and the fused node.
\<close>

definition following_candidate ::
    "MLPartitioner \<Rightarrow> MLGraph \<Rightarrow> eval_map \<Rightarrow> nat \<Rightarrow> int \<Rightarrow> (MLNode \<times> MLNode) option \<Rightarrow> (part_state, (MLNode \<times> MLNode) option) st" where
  "following_candidate p g em i min_adj_eval pre =
     (let ns = ml_nodes g in
      if i < length ns - 1 then
        sbind (merge_candidate p g em (ns ! Suc i) (ns ! i) (ns ! Suc i)) (\<lambda>fol.
        case fol of
          None \<Rightarrow> sret None
        | Some (merged, val) \<Rightarrow>
            sret (if val < min_adj_eval then Some (ns ! Suc i, merged)
                  else if min_adj_eval = LONG_MAX then None else pre))
      else sret (if min_adj_eval = LONG_MAX then None else pre))"

definition small_partner :: "MLPartitioner \<Rightarrow> MLGraph \<Rightarrow> eval_map \<Rightarrow> nat \<Rightarrow> (part_state, (MLNode \<times> MLNode) option) st" where
  "small_partner p g em i =
     (let ns = ml_nodes g in
      if i > 0 then
        sbind (merge_candidate p g em (ns ! (i - 1)) (ns ! (i - 1)) (ns ! i)) (\<lambda>pre.
        case pre of
          None \<Rightarrow> sret None
        | Some (merged, val) \<Rightarrow> following_candidate p g em i val (Some (ns ! (i - 1), merged)))
      else following_candidate p g em i LONG_MAX None)"

primrec replace_pair :: "string set \<Rightarrow> MLNode \<Rightarrow> bool \<Rightarrow> MLNode list \<Rightarrow> MLNode list" where
  "replace_pair ids merged merged_added [] = []"
| "replace_pair ids merged merged_added (n # ns) =
     (if m_id n \<in> ids
      then (if merged_added then replace_pair ids merged True ns else merged # replace_pair ids merged True ns)
      else n # replace_pair ids merged merged_added ns)"

definition fuse_nodes :: "MLGraph \<Rightarrow> MLNode \<Rightarrow> MLNode \<Rightarrow> MLNode \<Rightarrow> MLGraph res" where
  "fuse_nodes g min_node merged_adj merged =
     (let ids = {m_id min_node, m_id merged_adj};
          name_map = um_of (map (\<lambda>n. (m_id n, if m_id n \<in> ids then m_id merged else m_id n)) (ml_nodes g))
      in rbind (mergeEdges (ml_edges g) name_map) (\<lambda>merged_edges.
         Inr \<lparr>ml_nodes = replace_pair ids merged False (ml_nodes g), ml_edges = merged_edges\<rparr>))"

lemma replace_pair_length:
  "length (replace_pair ids merged True ns) = length (filter (\<lambda>n. m_id n \<notin> ids) ns)"
  "length (replace_pair ids merged False ns) =
     length (filter (\<lambda>n. m_id n \<notin> ids) ns) + (if filter (\<lambda>n. m_id n \<in> ids) ns = [] then 0 else 1)"
proof -
  show t: "length (replace_pair ids merged True ns) = length (filter (\<lambda>n. m_id n \<notin> ids) ns)" for ns
    by (induction ns) simp_all
  show "length (replace_pair ids merged False ns) =
     length (filter (\<lambda>n. m_id n \<notin> ids) ns) + (if filter (\<lambda>n. m_id n \<in> ids) ns = [] then 0 else 1)"
    by (induction ns) (simp_all add: t)
qed

lemma fuse_nodes_length:
  assumes "fuse_nodes g (ml_nodes g ! i) (ml_nodes g ! j) merged = Inr h"
    and "i < length (ml_nodes g)" "j < length (ml_nodes g)" "i \<noteq> j"
  shows "length (ml_nodes h) < length (ml_nodes g)"
proof -
  let ?ns = "ml_nodes g" and ?ids = "{m_id (ml_nodes g ! i), m_id (ml_nodes g ! j)}"
  have h: "ml_nodes h = replace_pair ?ids merged False ?ns"
    using assms(1) by (auto simp: fuse_nodes_def Let_def rbind_eq_Inr)
  have "length (filter (\<lambda>n. m_id n \<in> ?ids) ?ns) = card {k. k < length ?ns \<and> m_id (?ns ! k) \<in> ?ids}"
    by (simp only: length_filter_conv_card)
  moreover have "card {i, j} \<le> card {k. k < length ?ns \<and> m_id (?ns ! k) \<in> ?ids}"
    using assms(2,3) by (intro card_mono) auto
  ultimately have "2 \<le> length (filter (\<lambda>n. m_id n \<in> ?ids) ?ns)" using assms(4) by simp
  moreover have "length (filter (\<lambda>n. m_id n \<in> ?ids) ?ns) + length (filter (\<lambda>n. m_id n \<notin> ?ids) ?ns) = length ?ns"
    by (rule sum_length_filter_compl)
  ultimately show ?thesis unfolding h replace_pair_length by simp
qed

text \<open>The partner is the node before or after the cheapest one.\<close>

definition beside :: "nat \<Rightarrow> nat \<Rightarrow> MLNode list \<Rightarrow> bool" where
  "beside i j ns \<longleftrightarrow> j < length ns \<and> (Suc j = i \<or> j = Suc i)"

lemma following_candidate_result:
  assumes "following_candidate p g em i val pre s = Inr (Some (adj, merged), s')"
  shows "pre = Some (adj, merged) \<and> val \<noteq> LONG_MAX \<or> Suc i < length (ml_nodes g) \<and> adj = ml_nodes g ! Suc i \<and>
    (\<exists>v s0 s1. merge_candidate p g em (ml_nodes g ! Suc i) (ml_nodes g ! i) (ml_nodes g ! Suc i) s0 = Inr (Some (merged, v), s1))"
proof (cases "i < length (ml_nodes g) - 1")
  case True
  obtain fol s1 where c: "merge_candidate p g em (ml_nodes g ! Suc i) (ml_nodes g ! i) (ml_nodes g ! Suc i) s = Inr (fol, s1)"
    and rest: "(case fol of None \<Rightarrow> sret None
        | Some (merged, w) \<Rightarrow>
            sret (if w < val then Some (ml_nodes g ! Suc i, merged)
                  else if val = LONG_MAX then None else pre)) s1 = Inr (Some (adj, merged), s')"
    using assms True unfolding following_candidate_def Let_def by (simp add: sbind_Inr) blast
  from rest obtain m w where "fol = Some (m, w)"
    "(if w < val then Some (ml_nodes g ! Suc i, m) else if val = LONG_MAX then None else pre) = Some (adj, merged)"
    by (cases fol) (auto simp: sret_def)
  with c True show ?thesis by (auto split: if_splits)
next
  case False
  with assms show ?thesis unfolding following_candidate_def Let_def by (auto simp: sret_def split: if_splits)
qed

lemma small_partner_result:
  assumes "small_partner p g em i s = Inr (Some (adj, merged), s')" "i < length (ml_nodes g)"
  obtains j k v s0 s1 where "beside i j (ml_nodes g)" "adj = ml_nodes g ! j" "k = min i j"
    "merge_candidate p g em adj (ml_nodes g ! k) (ml_nodes g ! Suc k) s0 = Inr (Some (merged, v), s1)"
proof (cases "i > 0")
  case True
  obtain r s1 where c: "merge_candidate p g em (ml_nodes g ! (i - Suc 0)) (ml_nodes g ! (i - Suc 0)) (ml_nodes g ! i) s = Inr (r, s1)"
    and rest: "(case r of None \<Rightarrow> sret None
        | Some (merged, val) \<Rightarrow> following_candidate p g em i val (Some (ml_nodes g ! (i - Suc 0), merged))) s1 =
      Inr (Some (adj, merged), s')"
    using assms(1) True unfolding small_partner_def Let_def by (simp add: sbind_Inr) blast
  from rest obtain m v where r: "r = Some (m, v)"
    and f: "following_candidate p g em i v (Some (ml_nodes g ! (i - Suc 0), m)) s1 = Inr (Some (adj, merged), s')"
    by (cases r) (auto simp: sret_def)
  from following_candidate_result [OF f] show ?thesis
  proof (elim disjE conjE exE)
    assume "Some (ml_nodes g ! (i - Suc 0), m) = Some (adj, merged)"
    then show ?thesis using c r True assms(2) by (intro that [of "i - Suc 0" "i - Suc 0"]) (auto simp: beside_def)
  next
    fix v s0 s1
    assume "Suc i < length (ml_nodes g)" "adj = ml_nodes g ! Suc i"
      "merge_candidate p g em (ml_nodes g ! Suc i) (ml_nodes g ! i) (ml_nodes g ! Suc i) s0 = Inr (Some (merged, v), s1)"
    then show ?thesis by (intro that [of "Suc i" i]) (auto simp: beside_def)
  qed
next
  case False
  with assms(1) have "following_candidate p g em i LONG_MAX None s = Inr (Some (adj, merged), s')"
    by (simp add: small_partner_def)
  from following_candidate_result [OF this] show ?thesis
    by (auto simp: beside_def intro: that [of "Suc i" i])
qed

lemma small_step_shrinks:
  assumes "small_partner p g em i s1 = Inr (Some am, s2)" "vec_at (ml_nodes g) i = Inr n"
    and "fuse_nodes g n (fst am) (snd am) = Inr g'"
  shows "length (ml_nodes g') < length (ml_nodes g)"
proof -
  have i: "i < length (ml_nodes g)" "n = ml_nodes g ! i" using assms(2) by simp_all
  have sp: "small_partner p g em i s1 = Inr (Some (fst am, snd am), s2)" using assms(1) by simp
  from small_partner_result [OF sp i(1)] obtain j where "beside i j (ml_nodes g)" "fst am = ml_nodes g ! j" by blast
  then show ?thesis using fuse_nodes_length [of g i j "snd am" g'] assms(3) i by (auto simp: beside_def)
qed

function merge_small_loop :: "MLPartitioner \<Rightarrow> int \<Rightarrow> eval_map \<Rightarrow> MLGraph \<Rightarrow> (part_state, MLGraph) st" where
  "merge_small_loop p min_partition_num em g s =
     (if int (length (ml_nodes g)) > to_size min_partition_num
      then rbind (sfold (small_node p) (enumerate 0 (ml_nodes g)) (em, LONG_MAX, None) s) (\<lambda>r.
           case r of ((em', min_val, idx), s1) \<Rightarrow>
           (case idx of
              None \<Rightarrow> Inl Undefined_behaviour
            | Some i \<Rightarrow>
                rbind (vec_at (ml_nodes g) i) (\<lambda>min_node.
                rbind (small_partner p g em' i s1) (\<lambda>r2.
                case r2 of (partner, s2) \<Rightarrow>
                (case partner of
                   None \<Rightarrow> Inr (g, s2)
                 | Some am \<Rightarrow>
                     rbind (fuse_nodes g min_node (fst am) (snd am)) (\<lambda>g'.
                     merge_small_loop p min_partition_num em' g' s2))))))
      else Inr (g, s))"
  by pat_completeness auto
termination
  by (relation "measure (\<lambda>(p, m, em, g, s). length (ml_nodes g))")
     (auto simp del: vec_at_Inr intro: small_step_shrinks)

declare merge_small_loop.simps [simp del]

definition mergeSmall :: "MLPartitioner \<Rightarrow> MLGraph \<Rightarrow> int \<Rightarrow> (part_state, MLGraph) st" where
  "mergeSmall p ml_graph min_partition_num = merge_small_loop p min_partition_num [] ml_graph"

end
