(* ===== verification/DP_Staging.thy ===== *)
theory DP_Staging
  imports ML_Graph Profiler_Util
begin

text \<open>
  The staging search (\<open>graph/DPStaging.h\<close>, \<open>graph/DPStaging.cpp\<close>): the nodes of a sorted level are cut
  into consecutive stages and the devices are dealt out to the stages by dynamic programming, for
  several numbers of stages and of microbatches; the cheapest solution wins. Stage graphs are merged
  node by node and kept in a cache (\<open>GraphMergeHelper\<close>). The classes are one record of their members, the
  configuration values and the code called outside (the device, the random names, the number of
  devices per machine); the state is the profile cache, the merge cache and the number of names drawn.
  \<open>enable_zero_\<close> is a member that no constructor initialises, so it is arbitrary here. Sizes and
  times are mathematical integers where the code has \<open>long\<close> values that a run keeps far below
  \<open>2 ^ 63\<close>; memory amounts are 64-bit words, since they are compared as \<open>size_t\<close>.
\<close>

section \<open>The objects\<close>

record DPStaging =
  dp_device :: profiler
  dp_names :: "nat \<Rightarrow> string"
  dp_batch_size :: int
  dp_dev_mem :: int
  dp_amp :: bool
  dp_zero :: bool
  dp_opt_factor :: int
  dp_min_pipeline_bs :: int
  dp_limit_pot :: bool
  dp_limit_bs :: bool
  dp_coarsening :: bool
  dp_min_pipeline :: int
  dp_max_pipeline :: int
  dp_cfg_pipeline_num :: int
  dp_cfg_partition_num :: int
  dp_search_all :: bool
  dp_device_count :: int

type_synonym GraphMergeCache = "(nat \<times> nat, MLNode) umap"

record dp_state =
  dp_prof :: ProfilerUtil
  dp_cache :: GraphMergeCache
  dp_drawn :: nat

definition dp_fresh :: "DPStaging \<Rightarrow> (dp_state, nat \<Rightarrow> string) st" where
  "dp_fresh D s = Inr (\<lambda>i. dp_names D (dp_drawn s + i), s\<lparr>dp_drawn := Suc (dp_drawn s)\<rparr>)"

definition dp_profile :: "DPStaging \<Rightarrow> IRGraph \<Rightarrow> int \<Rightarrow> bool \<Rightarrow> (dp_state, GraphProfile) st" where
  "dp_profile D g replica_num checkpointing s =
     rbind (profile (dp_device D) g (dp_batch_size D) (to_size replica_num) checkpointing (dp_prof s)) (\<lambda>(prof, pu).
     Inr (prof, s\<lparr>dp_prof := pu\<rparr>))"

fun isPowerOfTwo :: "nat \<Rightarrow> bool" where
  "isPowerOfTwo x = (if even x \<and> x > 1 then isPowerOfTwo (x div 2) else x = 1)"

declare isPowerOfTwo.simps [simp del]

section \<open>Merging a range of nodes\<close>

definition getMergedGraphId :: "nat \<Rightarrow> nat \<Rightarrow> string" where
  "getMergedGraphId from to = ''MERGE_'' @ nat_str from @ ''_'' @ nat_str to"

definition setNodeId :: "MLNode \<Rightarrow> string \<Rightarrow> MLNode" where
  "setNodeId node i = MLNode i (renameIRGraph i (m_graph node)) (m_subs node) (m_edges node)"

text \<open>The constructor: every single node is in the cache.\<close>

definition new_merge_cache :: "MLGraph \<Rightarrow> GraphMergeCache" where
  "new_merge_cache g = um_of (map (\<lambda>(i, n). ((i, i), n)) (enumerate 0 (ml_nodes g)))"

record merge_vars =
  mg_base :: MLNode
  rest_nodes :: "(string, MLNode) umap"
  rest_edges :: "MLEdge list"
  mg_names :: "(string, string) umap"

text \<open>The update of the variables that both loops of \<open>merge\<close> make when \<open>tgt\<close> joins the base.\<close>

definition absorb :: "nat \<Rightarrow> nat \<Rightarrow> MLNode \<Rightarrow> MLNode \<Rightarrow> merge_vars \<Rightarrow> merge_vars res" where
  "absorb from i tgt merged m =
     (let gid = getMergedGraphId from i; b = m_id (mg_base m);
          nm = um_set (m_id tgt) gid (um_set b gid (mg_names m))
      in rbind (mergeEdges (rest_edges m) nm) (\<lambda>es.
         Inr \<lparr>mg_base = merged, rest_nodes = um_set gid merged (um_erase (m_id tgt) (um_erase b (rest_nodes m))),
              rest_edges = es, mg_names = um_set gid gid (um_erase (m_id tgt) (um_erase b nm))\<rparr>))"

text \<open>The longest part of the range that is in the cache.\<close>

function cached_part :: "MLGraph \<Rightarrow> GraphMergeCache \<Rightarrow> nat \<Rightarrow> nat \<Rightarrow> merge_vars \<Rightarrow> (nat \<times> merge_vars) res" where
  "cached_part g cache from avail_to m =
     (case um_get cache (from, avail_to) of
        None \<Rightarrow> Inr (avail_to, m)
      | Some part \<Rightarrow>
          (if avail_to < length (ml_nodes g)
           then rbind (absorb from avail_to (ml_nodes g ! avail_to) part m) (\<lambda>m'. cached_part g cache from (Suc avail_to) m')
           else Inl Out_of_range))"
  by pat_completeness auto
termination by (relation "measure (\<lambda>(g, c, f, a, m). Suc (length (ml_nodes g)) - a)") auto

declare cached_part.simps [simp del]

definition merge_next :: "DPStaging \<Rightarrow> MLGraph \<Rightarrow> nat \<Rightarrow> nat \<Rightarrow> merge_vars \<Rightarrow> (dp_state, merge_vars) st" where
  "merge_next D g from i m =
     sbind (slift (vec_at (ml_nodes g) i)) (\<lambda>tgt.
     sbind (dp_fresh D) (\<lambda>gen.
     sbind (slift (merge_nodes gen (mg_base m) tgt (map snd (rest_nodes m)) (rest_edges m))) (\<lambda>n.
     let merged = MLNode (m_id n) (renameIRGraph (getMergedGraphId from i) (m_graph n)) (m_subs n) (m_edges n) in
     sbind (slift (absorb from i tgt merged m)) (\<lambda>m'.
     sbind (\<lambda>s. Inr ((), s\<lparr>dp_cache := um_set (from, i) merged (dp_cache s)\<rparr>)) (\<lambda>_. sret m')))))"

definition merge_range :: "DPStaging \<Rightarrow> MLGraph \<Rightarrow> nat \<Rightarrow> nat \<Rightarrow> (dp_state, IRGraph) st" where
  "merge_range D g from to = (\<lambda>s.
     case um_get (dp_cache s) (from, to) of
       Some n \<Rightarrow> Inr (m_graph n, s)
     | None \<Rightarrow>
         sbind (slift (rassert (to < length (ml_nodes g)))) (\<lambda>_.
         sbind (slift (vec_at (ml_nodes g) from)) (\<lambda>first.
         sbind (slift (cached_part g (dp_cache s) from (Suc from)
                  \<lparr>mg_base = first, rest_nodes = um_of (map (\<lambda>n. (m_id n, n)) (ml_nodes g)), rest_edges = ml_edges g,
                   mg_names = um_of (map (\<lambda>n. (m_id n, m_id n)) (ml_nodes g))\<rparr>)) (\<lambda>(avail_to, m).
         sbind (sfold (merge_next D g from) [avail_to..<Suc to] m) (\<lambda>m'.
         sbind (\<lambda>s. Inr ((), s\<lparr>dp_cache := um_set (from, to) (mg_base m') (dp_cache s)\<rparr>)) (\<lambda>_.
         sret (m_graph (mg_base m'))))))) s)"

section \<open>The cost of a stage\<close>

definition add_profile :: "GraphProfile \<Rightarrow> GraphProfile \<Rightarrow> GraphProfile" where
  "add_profile a b = a\<lparr>fwd_time := fwd_time a + fwd_time b, bwd_time := bwd_time a + bwd_time b,
     max_allocated_mem := max_allocated_mem a + max_allocated_mem b\<rparr>"

definition estimateProf :: "DPStaging \<Rightarrow> MLGraph \<Rightarrow> nat \<Rightarrow> nat \<Rightarrow> int \<Rightarrow> bool \<Rightarrow> (dp_state, GraphProfile) st" where
  "estimateProf D g from to dev_num checkpointing =
     sbind (slift (rassert (from \<le> to))) (\<lambda>_.
     sbind (slift (rassert (to < length (ml_nodes g)))) (\<lambda>_.
     sfold (\<lambda>i prof_sum. sbind (slift (vec_at (ml_nodes g) i)) (\<lambda>node.
            sbind (dp_profile D (m_graph node) dev_num checkpointing) (\<lambda>prof. sret (add_profile prof_sum prof))))
       [from..<Suc to] \<lparr>gp_name = ''MERGED'', fwd_time = 0, bwd_time = 0, max_allocated_mem = 0, gp_checkpointing = False\<rparr>))"

definition estimateEval :: "GraphProfile \<Rightarrow> int \<Rightarrow> int \<Rightarrow> int \<Rightarrow> int \<Rightarrow> int \<Rightarrow> int" where
  "estimateEval step_prof step_comm_in step_comm_out prev_fwd_max prev_bwd_max prev_ar_max =
     (let step_comm = step_comm_in + step_comm_out
      in max (fwd_time step_prof + step_comm) prev_fwd_max + max (bwd_time step_prof + step_comm) prev_bwd_max)"

record DPState =
  ds_eval :: int
  ds_max_fwd :: int
  ds_max_bwd :: int
  ds_max_allreduce :: int
  pre_boundary :: nat
  pre_dev_num :: nat

definition new_DPState :: DPState where
  "new_DPState = \<lparr>ds_eval = ERROR_VAL, ds_max_fwd = ERROR_VAL, ds_max_bwd = ERROR_VAL, ds_max_allreduce = ERROR_VAL,
     pre_boundary = 0, pre_dev_num = 0\<rparr>"

definition start_DPState :: DPState where
  "start_DPState = \<lparr>ds_eval = 0, ds_max_fwd = 0, ds_max_bwd = 0, ds_max_allreduce = 0, pre_boundary = 0, pre_dev_num = 0\<rparr>"

text \<open>The parameters of one search.\<close>

record dp_run =
  rn_graph :: MLGraph
  rn_stages :: nat
  rn_devs :: nat
  rn_replica :: int
  rn_pipeline :: int
  rn_checkpointing :: bool

record step_cost =
  sc_val :: int
  sc_mem :: size_t
  sc_ar :: int
  sc_prof :: GraphProfile

text \<open>
  The cost of the stage of the nodes \<open>b_prev, ..., b - 1\<close> on \<open>k\<close> devices after the state \<open>prev\<close>:
  with coarsening the merged graph is profiled, otherwise the profiles of the nodes are added up.
\<close>

definition merged_step_cost :: "DPStaging \<Rightarrow> dp_run \<Rightarrow> nat \<Rightarrow> nat \<Rightarrow> nat \<Rightarrow> DPState \<Rightarrow> (dp_state, step_cost) st" where
  "merged_step_cost D r b_prev b k prev =
     (let n = to_size (int k * rn_replica r * rn_pipeline r) in
      sbind (merge_range D (rn_graph r) b_prev (b - 1)) (\<lambda>step_graph.
      sbind (slift (rbind (calcInputSize step_graph) (\<lambda>sz. udiv sz (word_of_int n)))) (\<lambda>in_size.
      sbind (slift (rbind (calcOutputSize step_graph) (\<lambda>sz. udiv sz (word_of_int n)))) (\<lambda>out_size.
      sbind (slift (getParamSizeInByte step_graph)) (\<lambda>param_size.
      sbind (dp_profile D step_graph n (rn_checkpointing r)) (\<lambda>step_prof.
      sbind (dp_fresh D) (\<lambda>gen.
      sbind (slift (calcGraphMem_repl gen (dp_opt_factor D) step_graph step_prof (dp_batch_size D)
               (int k * rn_replica r) (rn_pipeline r) (dp_amp D) (dp_zero D))) (\<lambda>step_mem.
      sret \<lparr>sc_val = estimateEval step_prof (calcCommTime in_size) (calcCommTime out_size)
                        (ds_max_fwd prev) (ds_max_bwd prev) (ds_max_allreduce prev),
            sc_mem = step_mem, sc_ar = calcAllReduceTime (sint param_size), sc_prof = step_prof\<rparr>))))))))"

definition summed_step_cost :: "DPStaging \<Rightarrow> dp_run \<Rightarrow> nat \<Rightarrow> nat \<Rightarrow> nat \<Rightarrow> DPState \<Rightarrow> (dp_state, step_cost) st" where
  "summed_step_cost D r b_prev b k prev =
     sbind (estimateProf D (rn_graph r) b_prev (b - 1) (to_size (int k * rn_replica r * rn_pipeline r)) (rn_checkpointing r)) (\<lambda>step_prof.
     sbind (slift (rmap (\<lambda>i. rbind (vec_at (ml_nodes (rn_graph r)) i) (\<lambda>node.
              getOptMemSize (m_graph node) (dp_opt_factor D) (dp_amp D) (dp_zero D) (int k))) [b_prev..<b])) (\<lambda>opt_mems.
     sret \<lparr>sc_val = estimateEval step_prof 0 0 (ds_max_fwd prev) (ds_max_bwd prev) (ds_max_allreduce prev),
           sc_mem = word_of_int (max_allocated_mem step_prof) + sum_list opt_mems, sc_ar = 0, sc_prof = step_prof\<rparr>))"

definition stage_cost :: "DPStaging \<Rightarrow> dp_run \<Rightarrow> nat \<Rightarrow> nat \<Rightarrow> nat \<Rightarrow> DPState \<Rightarrow> (dp_state, step_cost) st" where
  "stage_cost D r b_prev b k prev =
     (if dp_coarsening D then merged_step_cost D r b_prev b k prev else summed_step_cost D r b_prev b k prev)"

section \<open>The table\<close>

text \<open>\<open>table[stage][boundary][used_dev]\<close>; the loops stay inside the bounds.\<close>

type_synonym DPTable = "DPState list list list"

definition tab_at :: "DPTable \<Rightarrow> nat \<Rightarrow> nat \<Rightarrow> nat \<Rightarrow> DPState" where
  "tab_at t s b d = t ! s ! b ! d"

definition tab_set :: "DPTable \<Rightarrow> nat \<Rightarrow> nat \<Rightarrow> nat \<Rightarrow> DPState \<Rightarrow> DPTable" where
  "tab_set t s b d x = t[s := (t ! s)[b := (t ! s ! b)[d := x]]]"

definition new_table :: "nat \<Rightarrow> nat \<Rightarrow> nat \<Rightarrow> DPTable" where
  "new_table stage_num layer_num dev_num =
     replicate (Suc layer_num) (replicate (Suc dev_num) start_DPState) #
     replicate stage_num (replicate (Suc layer_num) (replicate (Suc dev_num) new_DPState))"

section \<open>The search for one number of stages\<close>

record dp_search =
  sr_table :: DPTable
  found_b_sol :: bool
  found_d_sol :: bool
  skip_small_bs :: bool

definition update_state :: "DPState \<Rightarrow> step_cost \<Rightarrow> nat \<Rightarrow> nat \<Rightarrow> DPState" where
  "update_state prev c b_prev d_prev =
     \<lparr>ds_eval = max (sc_val c) (ds_eval prev), ds_max_fwd = max (fwd_time (sc_prof c)) (ds_max_fwd prev),
      ds_max_bwd = max (bwd_time (sc_prof c)) (ds_max_bwd prev), ds_max_allreduce = max (sc_ar c) (ds_max_allreduce prev),
      pre_boundary = b_prev, pre_dev_num = d_prev\<rparr>"

text \<open>The filters that skip a number of devices because a device would get too little work.\<close>

definition too_small :: "DPStaging \<Rightarrow> dp_run \<Rightarrow> nat \<Rightarrow> bool res" where
  "too_small D r k =
     rbind (ceil_size (dp_batch_size D) (rn_replica r * rn_pipeline r)) (\<lambda>max_d.
     if dp_limit_bs D \<and> to_size max_d < int k then Inr True
     else if dp_limit_pot D \<and> \<not> isPowerOfTwo k then Inr True
     else rbind (ceil_size (dp_batch_size D) (rn_replica r * rn_pipeline r * int k)) (\<lambda>repl_bs.
          Inr (to_size repl_bs < to_size (dp_min_pipeline_bs D))))"

text \<open>
  One round of the innermost loop, for the stage \<open>s\<close> that ends at \<open>b\<close> with \<open>d\<close> devices used, after the
  stage before it ended at \<open>b_prev\<close> with \<open>d_prev\<close>. The flag of the result is the \<open>break\<close>.
\<close>

definition try_split ::
    "DPStaging \<Rightarrow> dp_run \<Rightarrow> nat \<Rightarrow> nat \<Rightarrow> nat \<Rightarrow> nat \<Rightarrow> nat \<Rightarrow> dp_search \<Rightarrow> (dp_state, dp_search \<times> bool) st" where
  "try_split D r s b d b_prev d_prev a =
     sbind (slift (too_small D r (d - d_prev))) (\<lambda>small.
     if small then sret (a\<lparr>skip_small_bs := True\<rparr>, False)
     else let prev = tab_at (sr_table a) (s - 1) b_prev d_prev in
       if ds_eval prev \<ge> ERROR_VAL then sret (a, False)
       else sbind (stage_cost D r b_prev b (d - d_prev) prev) (\<lambda>c.
         if sc_mem c \<ge> word_of_int (dp_dev_mem D) then sret (a, True)
         else let a' = a\<lparr>found_b_sol := True, found_d_sol := True\<rparr> in
           sret (if ds_eval (tab_at (sr_table a) s b d) > sc_val c
                 then a'\<lparr>sr_table := tab_set (sr_table a) s b d (update_state prev c b_prev d_prev)\<rparr> else a', False)))"

primrec search_d_prev ::
    "DPStaging \<Rightarrow> dp_run \<Rightarrow> nat \<Rightarrow> nat \<Rightarrow> nat \<Rightarrow> nat \<Rightarrow> nat list \<Rightarrow> dp_search \<Rightarrow> (dp_state, dp_search) st" where
  "search_d_prev D r s b d b_prev [] a = sret a"
| "search_d_prev D r s b d b_prev (d_prev # ds) a =
     sbind (try_split D r s b d b_prev d_prev a) (\<lambda>(a', stop).
     if stop then sret a' else search_d_prev D r s b d b_prev ds a')"

definition search_b_prev :: "DPStaging \<Rightarrow> dp_run \<Rightarrow> nat \<Rightarrow> nat \<Rightarrow> nat \<Rightarrow> dp_search \<Rightarrow> (dp_state, dp_search) st" where
  "search_b_prev D r s b d a =
     sfold (\<lambda>b_prev. search_d_prev D r s b d b_prev [s - 1..<(if s = 1 then 1 else d)])
       [s - 1..<(if s = 1 then 1 else b)] (a\<lparr>found_d_sol := False, skip_small_bs := False\<rparr>)"

text \<open>The loop over the devices used, from the largest number; a \<open>break\<close> raises \<open>min_d\<close>.\<close>

primrec search_d :: "DPStaging \<Rightarrow> dp_run \<Rightarrow> nat \<Rightarrow> nat \<Rightarrow> nat list \<Rightarrow> dp_search \<times> nat \<Rightarrow> (dp_state, dp_search \<times> nat) st" where
  "search_d D r s b [] am = sret am"
| "search_d D r s b (d # ds) am =
     sbind (search_b_prev D r s b d (fst am)) (\<lambda>a'.
     if \<not> found_d_sol a' \<and> \<not> skip_small_bs a' then sret (a', d + 1)
     else search_d D r s b ds (a', snd am))"

primrec search_b :: "DPStaging \<Rightarrow> dp_run \<Rightarrow> nat \<Rightarrow> nat list \<Rightarrow> dp_search \<times> nat \<Rightarrow> (dp_state, dp_search \<times> nat) st" where
  "search_b D r s [] am = sret am"
| "search_b D r s (b # bs) am =
     sbind (search_d D r s b (rev [max (snd am) s..<Suc (rn_devs r)]) ((fst am)\<lparr>found_b_sol := False\<rparr>, snd am)) (\<lambda>am'.
     if \<not> found_b_sol (fst am') then sret am' else search_b D r s bs am')"

definition layers_of :: "dp_run \<Rightarrow> nat" where
  "layers_of r = length (ml_nodes (rn_graph r))"

definition search_stage :: "DPStaging \<Rightarrow> dp_run \<Rightarrow> nat \<Rightarrow> dp_search \<Rightarrow> (dp_state, dp_search) st" where
  "search_stage D r s a =
     (let b_start = (if s = rn_stages r then layers_of r else s) in
      sbind (search_b D r s [b_start..<Suc (layers_of r + s - rn_stages r)] (a, 1)) (\<lambda>am. sret (fst am)))"

section \<open>The solution\<close>

record AllocSolution =
  al_graphs :: "IRGraph list"
  al_repl_nums :: "(string, int) umap"
  al_pipeline :: int
  al_checkpointing :: bool

text \<open>Following the table back from the last stage; \<open>None\<close> is the empty solution.\<close>

primrec trace_back ::
    "DPStaging \<Rightarrow> dp_run \<Rightarrow> DPTable \<Rightarrow> nat \<Rightarrow> nat \<Rightarrow> nat \<Rightarrow> IRGraph list \<times> (string, int) umap \<Rightarrow>
     (dp_state, (IRGraph list \<times> (string, int) umap) option) st" where
  "trace_back D r t 0 b d sol = sret (Some sol)"
| "trace_back D r t (Suc s) b d sol =
     (let state = tab_at t (Suc s) b d in
      if ds_eval state \<ge> ERROR_VAL then sret None
      else sbind (merge_range D (rn_graph r) (pre_boundary state) (b - 1)) (\<lambda>step_graph.
           trace_back D r t s (pre_boundary state) (pre_dev_num state)
             (fst sol @ [step_graph],
              um_set (g_name step_graph) (wrap32 ((int d - int (pre_dev_num state)) * rn_replica r)) (snd sol))))"

definition doRunDpComm :: "DPStaging \<Rightarrow> dp_run \<Rightarrow> (dp_state, AllocSolution) st" where
  "doRunDpComm D r s0 =
     (if rn_stages r > layers_of r then Inl Undefined_behaviour
      else sbind (sfold (search_stage D r) [1..<Suc (rn_stages r)]
             \<lparr>sr_table = new_table (rn_stages r) (layers_of r) (rn_devs r), found_b_sol = False, found_d_sol = False,
              skip_small_bs = False\<rparr>) (\<lambda>a.
           let best_d = (if ds_eval (tab_at (sr_table a) (rn_stages r) (layers_of r) (rn_devs r)) < ERROR_VAL then rn_devs r else 0) in
           sbind (trace_back D r (sr_table a) (rn_stages r) (layers_of r) best_d ([], [])) (\<lambda>sol.
           sret (case sol of
               None \<Rightarrow> \<lparr>al_graphs = [], al_repl_nums = [], al_pipeline = 0, al_checkpointing = False\<rparr>
             | Some (gs, repl) \<Rightarrow>
                 \<lparr>al_graphs = rev gs, al_repl_nums = repl, al_pipeline = rn_pipeline r, al_checkpointing = rn_checkpointing r\<rparr>)))
        (s0\<lparr>dp_cache := new_merge_cache (rn_graph r)\<rparr>))"

section \<open>The time of a solution\<close>

text \<open>One step of the pipeline: the slowest of the stages that are busy in it, forwards and backwards.\<close>

definition busy_stages :: "AllocSolution \<Rightarrow> int \<Rightarrow> nat list" where
  "busy_stages sol step =
     [nat (max 0 (step - al_pipeline sol + 1))..<nat (min (step + 1) (int (length (al_graphs sol))))]"

definition stage_times :: "DPStaging \<Rightarrow> AllocSolution \<Rightarrow> nat \<Rightarrow> (dp_state, int \<times> int) st" where
  "stage_times D sol g_idx =
     sbind (slift (vec_at (al_graphs sol) g_idx)) (\<lambda>sg.
     sbind (slift (rassert (um_contains (al_repl_nums sol) (g_name sg)))) (\<lambda>_.
     sbind (slift (um_at (al_repl_nums sol) (g_name sg))) (\<lambda>repl.
     sbind (dp_profile D sg (repl * al_pipeline sol) (al_pipeline sol > 1)) (\<lambda>prof.
     sbind (slift (calcInputCommTime sg (repl * al_pipeline sol))) (\<lambda>in_time.
     sbind (slift (calcOutputCommTime sg (repl * al_pipeline sol))) (\<lambda>out_time.
     sret (fwd_time prof + (in_time + out_time), bwd_time prof + (in_time + out_time))))))))"

definition step_time :: "DPStaging \<Rightarrow> AllocSolution \<Rightarrow> int \<Rightarrow> (dp_state, int) st" where
  "step_time D sol step =
     sbind (sfold (\<lambda>g_idx (max_fwd_time, max_bwd_time).
              sbind (stage_times D sol g_idx) (\<lambda>(fwd, bwd). sret (max max_fwd_time fwd, max max_bwd_time bwd)))
            (busy_stages sol step) (0, 0)) (\<lambda>(f, b). sret (f + b))"

definition pipeline_steps :: "AllocSolution \<Rightarrow> nat" where
  "pipeline_steps sol = nat (to_size (al_pipeline sol + int (length (al_graphs sol)) - 1))"

definition estimateTime :: "DPStaging \<Rightarrow> AllocSolution \<Rightarrow> (dp_state, int) st" where
  "estimateTime D sol =
     sbind (sfold (\<lambda>step comp_time. sbind (step_time D sol (int step)) (\<lambda>t. sret (comp_time + t)))
              [0..<pipeline_steps sol] 0) (\<lambda>comp_time.
     sbind (slift (rmap getParamSizeInByte (al_graphs sol))) (\<lambda>sizes.
     sret (comp_time + foldl (\<lambda>m sz. max m (calcAllReduceTime (sint sz))) 0 sizes)))"

section \<open>The search over stages and microbatches\<close>

text \<open>
  The tables of costs that are logged when \<open>SHOW_DP_SUMMARY\<close> is set; writing them profiles every node.
\<close>

definition doMakeNodeSummary ::
    "DPStaging \<Rightarrow> MLGraph \<Rightarrow> nat \<Rightarrow> int \<Rightarrow> string \<Rightarrow> (GraphProfile \<Rightarrow> MLNode \<Rightarrow> int \<Rightarrow> int res) \<Rightarrow> (dp_state, string) st" where
  "doMakeNodeSummary D g dev_num pipeline_num label f =
     (let repls = map (\<lambda>d. int d * pipeline_num) [1..<Suc dev_num] in
      sbind (smap (\<lambda>(node_idx, node).
          sbind (smap (\<lambda>repl. sbind (dp_profile D (m_graph node) (wrap32 repl) False) (\<lambda>prof.
                   sbind (slift (f prof node (wrap32 repl))) (\<lambda>v. sret ('' '' @ int_str v)))) repls) (\<lambda>cols.
          sret (nat_str node_idx @ '' '' @ m_id node @ '' (#op='' @ nat_str (length (nodes (m_graph node))) @ '',#subnodes='' @
                int_str (getSize node) @ ''):'' @ concat cols @ newline))) (enumerate 1 (ml_nodes g))) (\<lambda>rows.
      sret (label @ newline @ ''repl:'' @ concat (map (\<lambda>r. '' '' @ int_str r) repls) @ newline @ concat rows)))"

definition makeNodeEvalSummary :: "DPStaging \<Rightarrow> MLGraph \<Rightarrow> nat \<Rightarrow> int \<Rightarrow> (dp_state, string) st" where
  "makeNodeEvalSummary D g dev_num pipeline_num =
     doMakeNodeSummary D g dev_num pipeline_num ''[Node eval]'' (\<lambda>prof node repl.
       rbind (calcInputCommTime (m_graph node) repl) (\<lambda>i.
       rbind (calcOutputCommTime (m_graph node) repl) (\<lambda>x. Inr (estimateEval prof i x 0 0 0))))"

definition makeNodeMemSummary :: "DPStaging \<Rightarrow> MLGraph \<Rightarrow> nat \<Rightarrow> int \<Rightarrow> (dp_state, string) st" where
  "makeNodeMemSummary D g dev_num pipeline_num =
     doMakeNodeSummary D g dev_num pipeline_num ''[Node mem]'' (\<lambda>prof node repl. Inr (max_allocated_mem prof))"

text \<open>The numbers of microbatches: doubling from the smallest to the largest.\<close>

function pipeline_nums :: "int \<Rightarrow> int \<Rightarrow> int list" where
  "pipeline_nums lo hi = (if 0 < lo \<and> lo \<le> hi then lo # pipeline_nums (lo * 2) hi else [])"
  by pat_completeness auto
termination by (relation "measure (\<lambda>(lo, hi). nat (hi + 1 - lo))") auto

declare pipeline_nums.simps [simp del]

definition pipeline_range :: "DPStaging \<Rightarrow> int \<times> int" where
  "pipeline_range D =
     (if dp_cfg_pipeline_num D \<noteq> 0 then (dp_cfg_pipeline_num D, dp_cfg_pipeline_num D)
      else (dp_min_pipeline D, dp_max_pipeline D))"

definition search_pipelines :: "DPStaging \<Rightarrow> MLGraph \<Rightarrow> nat \<Rightarrow> nat \<Rightarrow> int \<Rightarrow> AllocSolution list \<Rightarrow> (dp_state, AllocSolution list) st" where
  "search_pipelines D g stage_num devs replica_num =
     sfold (\<lambda>pipeline_num sols.
         sbind (doRunDpComm D \<lparr>rn_graph = g, rn_stages = stage_num, rn_devs = devs, rn_replica = replica_num,
                  rn_pipeline = pipeline_num, rn_checkpointing = pipeline_num > 1\<rparr>) (\<lambda>sol.
         sret (if al_graphs sol \<noteq> [] then sols @ [sol] else sols)))
       (pipeline_nums (max 1 (fst (pipeline_range D))) (min (wrap32 (dp_batch_size D)) (snd (pipeline_range D))))"

primrec search_stages :: "DPStaging \<Rightarrow> MLGraph \<Rightarrow> nat \<Rightarrow> int \<Rightarrow> nat list \<Rightarrow> AllocSolution list \<Rightarrow> (dp_state, AllocSolution list) st" where
  "search_stages D g devs replica_num [] sols = sret sols"
| "search_stages D g devs replica_num (stage_num # ss) sols =
     sbind (search_pipelines D g stage_num devs replica_num sols) (\<lambda>sols'.
     if \<not> dp_search_all D \<and> sols' \<noteq> [] \<and> stage_num \<ge> 1 then sret sols' else search_stages D g devs replica_num ss sols')"

text \<open>
  The stage numbers for a number of machines; \<open>None\<close> is the \<open>continue\<close>. Its test of the upper bound
  compares \<open>stage_num_max\<close> with \<open>stage_num_min\<close>, not with the configured number.
\<close>

definition stage_range :: "DPStaging \<Rightarrow> MLGraph \<Rightarrow> nat \<Rightarrow> nat \<Rightarrow> (nat \<times> nat) option" where
  "stage_range D g dev_per_node node_num_used =
     (let stage_num_min = dev_per_node * (node_num_used - 1) + 1;
          stage_num_max = dev_per_node * node_num_used;
          cfg = nat (to_size (dp_cfg_partition_num D));
          clip = (\<lambda>(lo, hi). (min lo (length (ml_nodes g)), min hi (length (ml_nodes g))))
      in if cfg \<noteq> 0
         then (if cfg < stage_num_min \<or> stage_num_max < stage_num_min then None else Some (clip (cfg, cfg)))
         else Some (clip (stage_num_min, stage_num_max)))"

primrec search_nodes :: "DPStaging \<Rightarrow> MLGraph \<Rightarrow> nat \<Rightarrow> nat \<Rightarrow> nat list \<Rightarrow> AllocSolution list \<Rightarrow> (dp_state, AllocSolution list) st" where
  "search_nodes D g dev_per_node node_num_total [] sols = sret sols"
| "search_nodes D g dev_per_node node_num_total (n # ns) sols =
     (case stage_range D g dev_per_node n of
        None \<Rightarrow> search_nodes D g dev_per_node node_num_total ns sols
      | Some (lo, hi) \<Rightarrow>
          sbind (search_stages D g (dev_per_node * n) (int (node_num_total div n)) [lo..<Suc hi] sols) (\<lambda>sols'.
          if \<not> dp_search_all D \<and> sols' \<noteq> [] then sret sols' else search_nodes D g dev_per_node node_num_total ns sols'))"

text \<open>The first of the cheapest solutions; \<open>None\<close> as long as nothing is cheaper than \<open>LONG_MAX\<close>.\<close>

definition pick_best :: "DPStaging \<Rightarrow> AllocSolution list \<Rightarrow> (dp_state, int \<times> AllocSolution option) st" where
  "pick_best D sols =
     sfold (\<lambda>sol (best_time, best_sol).
         sbind (estimateTime D sol) (\<lambda>est_time.
         sret (if est_time < best_time then (est_time, Some sol) else (best_time, best_sol)))) sols (LONG_MAX, None)"

text \<open>The report of the chosen solution evaluates the profiles and sizes of its graphs.\<close>

definition report_graph :: "DPStaging \<Rightarrow> AllocSolution \<Rightarrow> IRGraph \<Rightarrow> (dp_state, unit) st" where
  "report_graph D sol g =
     sbind (slift (um_at (al_repl_nums sol) (g_name g))) (\<lambda>repl_num.
     sbind (dp_profile D g (repl_num * al_pipeline sol) (al_checkpointing sol)) (\<lambda>prof.
     sbind (slift (getParamSizeInByte g)) (\<lambda>_.
     sbind (slift (getOptMemSize g (dp_opt_factor D) (dp_amp D) (dp_zero D) repl_num)) (\<lambda>_.
     sbind (slift (calcInputSize g)) (\<lambda>_. sbind (slift (calcOutputSize g)) (\<lambda>_. sret ()))))))"

definition runDpComm :: "DPStaging \<Rightarrow> bool \<Rightarrow> MLGraph \<Rightarrow> nat \<Rightarrow> (dp_state, AllocSolution) st" where
  "runDpComm D show_dp_summary g dev_num =
     (let dev_per_node = min (int dev_num) (dp_device_count D) in
      if dev_per_node \<le> 0 then slift (Inl Undefined_behaviour)
      else let node_num_total = dev_num div nat dev_per_node in
        sbind (if show_dp_summary
               then sbind (makeNodeEvalSummary D g dev_num (fst (pipeline_range D))) (\<lambda>_.
                    sbind (makeNodeMemSummary D g dev_num (fst (pipeline_range D))) (\<lambda>_. sret ()))
               else sret ()) (\<lambda>_.
        sbind (search_nodes D g (nat dev_per_node) node_num_total [1..<Suc node_num_total] []) (\<lambda>sols.
        if sols = [] then slift (Inl Runtime_error)
        else sbind (pick_best D sols) (\<lambda>best.
             case snd best of
               None \<Rightarrow> slift (Inl Undefined_behaviour)
             | Some sol \<Rightarrow> sbind (smap (report_graph D sol) (al_graphs sol)) (\<lambda>_. sret sol)))))"

end
