(* ===== verification/Routes.thy ===== *)
theory Routes
  imports IR_Graph "HOL-Library.While_Combinator"
begin

text \<open>
  Communication routes (\<open>struct RouteDP\<close> of \<open>comm/SCommCommon.h\<close> and the functions on it in
  \<open>comm/SCommCommon.cpp\<close>) and the table of message tags (\<open>class TagMap\<close> of \<open>comm/SComm.h\<close>). The hash
  function of the standard library is a parameter.
\<close>

section \<open>Routes\<close>

datatype RouteTypeDP =
    RT_P2P | RT_REDIST | RT_SCATTER | RT_GATHER | RT_REDUCE | RT_WEIGHTED_REDUCE | RT_BROADCAST
  | RT_SCATTER_ANY | RT_ALL_GATHER | RT_ANY | RT_ANY_TO_ALL | RT_NA

definition route_type_str :: "RouteTypeDP \<Rightarrow> string" where
  "route_type_str t = (case t of
     RT_P2P \<Rightarrow> ''P2P'' | RT_REDIST \<Rightarrow> ''REDIST'' | RT_SCATTER \<Rightarrow> ''SCATTER'' | RT_GATHER \<Rightarrow> ''GATHER''
   | RT_REDUCE \<Rightarrow> ''REDUCE'' | RT_WEIGHTED_REDUCE \<Rightarrow> ''WEIGHTED_REDUCE'' | RT_BROADCAST \<Rightarrow> ''BROADCAST''
   | RT_ANY \<Rightarrow> ''ANY'' | RT_ANY_TO_ALL \<Rightarrow> ''ANY_TO_ALL'' | RT_NA \<Rightarrow> ''NA'' | RT_SCATTER_ANY \<Rightarrow> ''SCATTER_ANY''
   | RT_ALL_GATHER \<Rightarrow> ''ALL_GATHER'')"

record RouteDP =
  r_location :: IValueLocation
  r_sources :: "int list"
  r_source_graph :: string
  r_source_order :: int
  r_dests :: "int list"
  r_dest_graph :: string
  r_dest_order :: int
  r_tag :: int
  r_source_tag :: int
  r_type :: RouteTypeDP
  r_value :: IRValue

text \<open>A default-constructed route; its value is overwritten before it is read.\<close>

definition new_RouteDP :: "IValueLocation \<Rightarrow> IRValue \<Rightarrow> RouteDP" where
  "new_RouteDP loc val =
     \<lparr>r_location = loc, r_sources = [], r_source_graph = [], r_source_order = - 1, r_dests = [], r_dest_graph = [],
      r_dest_order = - 1, r_tag = - 1, r_source_tag = - 1, r_type = RT_NA, r_value = val\<rparr>"

definition ints_str :: "int list \<Rightarrow> string" where
  "ints_str v = join_as_str (map int_str v) '','' 0"

definition route_str :: "RouteDP \<Rightarrow> string" where
  "route_str r =
     ''loc: '' @ loc_str (r_location r) @ '' _source_graph: '' @ r_source_graph r @
     '' _sources: '' @ ints_str (r_sources r) @ '' _source_order: '' @ int_str (r_source_order r) @
     '' _dest_graph: '' @ r_dest_graph r @ '' _dests: '' @ ints_str (r_dests r) @
     '' _dest_order: '' @ int_str (r_dest_order r) @ '' _tag: '' @ int_str (r_tag r) @
     '' _source_tag: '' @ int_str (r_source_tag r) @ '' _type: '' @ route_type_str (r_type r)"

definition getRanksInRoute :: "RouteDP \<Rightarrow> int set" where
  "getRanksInRoute r = set (r_sources r) \<union> set (r_dests r)"

primrec rank_index :: "int \<Rightarrow> int \<Rightarrow> int list \<Rightarrow> int res" where
  "rank_index rank idx [] = Inl Invalid_argument"
| "rank_index rank idx (r # rs) = (if r = rank then Inr idx else rank_index rank (idx + 1) rs)"

definition getLocalRank :: "int set \<Rightarrow> int \<Rightarrow> int res" where
  "getLocalRank ranks rank = rank_index rank 0 (sorted_list_of_set ranks)"

definition isRankOnBothSide :: "RouteDP \<Rightarrow> int \<Rightarrow> bool" where
  "isRankOnBothSide r rank \<longleftrightarrow> rank \<in> set (r_sources r) \<and> rank \<in> set (r_dests r)"

text \<open>\<open>front\<close> of an empty vector is undefined.\<close>

definition front_of :: "'a list \<Rightarrow> 'a res" where
  "front_of xs = (if xs = [] then Inl Undefined_behaviour else Inr (hd xs))"

definition getBcastRoot :: "RouteDP \<Rightarrow> int res" where
  "getBcastRoot r = rbind (front_of (sort (r_sources r))) (getLocalRank (getRanksInRoute r))"

definition getReduceRoot :: "RouteDP \<Rightarrow> int res" where
  "getReduceRoot r =
     rbind (rassert (length (r_dests r) = 1)) (\<lambda>_.
     rbind (front_of (sort (r_dests r))) (getLocalRank (getRanksInRoute r)))"

definition createListElemRoute :: "RouteDP \<Rightarrow> int \<Rightarrow> RouteDP" where
  "createListElemRoute r index = r\<lparr>r_location := createListElem (r_location r) index\<rparr>"

definition createTupleElemRoute :: "RouteDP \<Rightarrow> int \<Rightarrow> RouteDP" where
  "createTupleElemRoute r index = r\<lparr>r_location := createTupleElem (r_location r) index\<rparr>"

section \<open>Tags\<close>

definition RANNC_TAG_UB :: int where
  "RANNC_TAG_UB = 30000"

text \<open>The hash of a key as an \<open>int\<close>; \<open>std::abs\<close> of the least \<open>int\<close> is undefined.\<close>

definition generateTag :: "int \<Rightarrow> int res" where
  "generateTag hash = (if hash = - (2 ^ 31) then Inl Undefined_behaviour else Inr (\<bar>hash\<bar> mod RANNC_TAG_UB))"

text \<open>\<open>std::hash\<close> for the three kinds of keys, converted to \<open>int\<close>; that of a set hashes its sorted printout.\<close>

record hasher =
  hash_long :: "int \<Rightarrow> int"
  hash_string :: "string \<Rightarrow> int"

definition hash_set :: "hasher \<Rightarrow> int set \<Rightarrow> int" where
  "hash_set h ranks = hash_string h (ints_str (sorted_list_of_set ranks))"

record TagMap =
  param_map :: "(int, int) umap"
  value_map :: "(string, int) umap"
  param_comm_map :: "(int set, int) umap"
  tags :: "int set"

definition new_TagMap :: TagMap where
  "new_TagMap = \<lparr>param_map = [], value_map = [], param_comm_map = [], tags = {}\<rparr>"

definition probe :: "int set \<Rightarrow> int \<Rightarrow> int res" where
  "probe ts tag = (case while_option (\<lambda>t. t \<in> ts) (\<lambda>t. (t + 1) mod RANNC_TAG_UB) tag of
     None \<Rightarrow> Inl Never_returns | Some t \<Rightarrow> Inr t)"

definition generate :: "int \<Rightarrow> (TagMap, int) st" where
  "generate hash = (\<lambda>tm.
     rbind (generateTag hash) (\<lambda>tag0.
     rbind (probe (tags tm) tag0) (\<lambda>tag. Inr (tag, tm\<lparr>tags := insert tag (tags tm)\<rparr>))))"

definition getParamTag :: "hasher \<Rightarrow> int \<Rightarrow> (TagMap, int) st" where
  "getParamTag h param_id = (\<lambda>tm.
     case um_get (param_map tm) param_id of
       Some tag \<Rightarrow> Inr (tag, tm)
     | None \<Rightarrow> sbind (generate (hash_long h param_id)) (\<lambda>tag tm. Inr (tag, tm\<lparr>param_map := um_set param_id tag (param_map tm)\<rparr>)) tm)"

definition getRankSetTag :: "hasher \<Rightarrow> int set \<Rightarrow> (TagMap, int) st" where
  "getRankSetTag h ranks = (\<lambda>tm.
     case um_get (param_comm_map tm) ranks of
       Some tag \<Rightarrow> Inr (tag, tm)
     | None \<Rightarrow> sbind (generate (hash_set h ranks)) (\<lambda>tag tm. Inr (tag, tm\<lparr>param_comm_map := um_set ranks tag (param_comm_map tm)\<rparr>)) tm)"

definition getStrTag :: "hasher \<Rightarrow> string \<Rightarrow> (TagMap, int) st" where
  "getStrTag h name = (\<lambda>tm.
     case um_get (value_map tm) name of
       Some tag \<Rightarrow> Inr (tag, tm)
     | None \<Rightarrow> sbind (generate (hash_string h name)) (\<lambda>tag tm. Inr (tag, tm\<lparr>value_map := um_set name tag (value_map tm)\<rparr>)) tm)"

definition getValueTag :: "hasher \<Rightarrow> IValueLocation \<Rightarrow> (TagMap, int) st" where
  "getValueTag h loc = getStrTag h (loc_str loc)"

definition getRouteTag :: "hasher \<Rightarrow> RouteDP \<Rightarrow> (TagMap, int) st" where
  "getRouteTag h r = getStrTag h (route_str r)"

definition getRouteSourceTag :: "hasher \<Rightarrow> RouteDP \<Rightarrow> (TagMap, int) st" where
  "getRouteSourceTag h r = getStrTag h (route_str r @ ints_str (r_sources r))"

text \<open>\<open>sync\<close> takes over the tags of the root of a broadcast.\<close>

definition tm_sync :: "int set \<Rightarrow> TagMap \<Rightarrow> TagMap" where
  "tm_sync root_tags tm = tm\<lparr>tags := root_tags\<rparr>"

section \<open>Tags are unique\<close>

text \<open>The three tables as one, over the keys of all kinds.\<close>

datatype tag_key = Param_key int | Ranks_key "int set" | Str_key string

primrec get_tag :: "hasher \<Rightarrow> tag_key \<Rightarrow> (TagMap, int) st" where
  "get_tag h (Param_key p) = getParamTag h p"
| "get_tag h (Ranks_key rs) = getRankSetTag h rs"
| "get_tag h (Str_key s) = getStrTag h s"

primrec lookup_tag :: "TagMap \<Rightarrow> tag_key \<Rightarrow> int option" where
  "lookup_tag tm (Param_key p) = um_get (param_map tm) p"
| "lookup_tag tm (Ranks_key rs) = um_get (param_comm_map tm) rs"
| "lookup_tag tm (Str_key s) = um_get (value_map tm) s"

primrec hash_of :: "hasher \<Rightarrow> tag_key \<Rightarrow> int" where
  "hash_of h (Param_key p) = hash_long h p"
| "hash_of h (Ranks_key rs) = hash_set h rs"
| "hash_of h (Str_key s) = hash_string h s"

definition hash_ok :: "hasher \<Rightarrow> bool" where
  "hash_ok h \<longleftrightarrow> (\<forall>p. hash_long h p \<noteq> - (2 ^ 31)) \<and> (\<forall>s. hash_string h s \<noteq> - (2 ^ 31))"

definition tagmap_ok :: "TagMap \<Rightarrow> bool" where
  "tagmap_ok tm \<longleftrightarrow> tags tm \<subseteq> {0..<RANNC_TAG_UB} \<and> (\<forall>k t. lookup_tag tm k = Some t \<longrightarrow> t \<in> tags tm) \<and>
     (\<forall>k k' t. lookup_tag tm k = Some t \<longrightarrow> lookup_tag tm k' = Some t \<longrightarrow> k = k')"

lemma hash_of_ok: "hash_ok h \<Longrightarrow> hash_of h k \<noteq> - (2 ^ 31)"
  by (cases k) (simp_all add: hash_ok_def hash_set_def)

lemma step_closer:
  fixes t f :: int
  assumes "0 < m" "0 \<le> t" "t < m" "0 \<le> f" "f < m" "t \<noteq> f"
  shows "(f - (t + 1) mod m) mod m = (f - t) mod m - 1"
proof -
  have "(f - (t + 1) mod m) mod m = (f - t - 1) mod m" by (simp add: mod_diff_right_eq algebra_simps)
  also have "\<dots> = (f - t) mod m - 1"
  proof (cases "t < f")
    case True
    then show ?thesis using assms by simp
  next
    case False
    have "(f - t) mod m = f - t + m"
    proof -
      have "(f - t) mod m = (f - t + m) mod m" by simp
      also have "\<dots> = f - t + m" using False assms by (intro mod_pos_pos_trivial) simp_all
      finally show ?thesis .
    qed
    moreover have "(f - t - 1) mod m = f - t - 1 + m"
    proof -
      have "(f - t - 1) mod m = (f - t - 1 + m) mod m" by simp
      also have "\<dots> = f - t - 1 + m" using False assms by (intro mod_pos_pos_trivial) simp_all
      finally show ?thesis .
    qed
    ultimately show ?thesis by simp
  qed
  finally show ?thesis .
qed

lemma probe_free:
  assumes "0 \<le> tag" "tag < RANNC_TAG_UB" "f \<in> {0..<RANNC_TAG_UB}" "f \<notin> ts"
  shows "\<exists>t. probe ts tag = Inr t \<and> t \<in> {0..<RANNC_TAG_UB} \<and> t \<notin> ts"
proof -
  have next_t: "(t + 1) mod RANNC_TAG_UB \<in> {0..<RANNC_TAG_UB} \<and>
        nat ((f - (t + 1) mod RANNC_TAG_UB) mod RANNC_TAG_UB) < nat ((f - t) mod RANNC_TAG_UB)"
    if t: "t \<in> {0..<RANNC_TAG_UB}" "t \<in> ts" for t
  proof -
    have m: "0 < RANNC_TAG_UB" by (simp add: RANNC_TAG_UB_def)
    have "(f - (t + 1) mod RANNC_TAG_UB) mod RANNC_TAG_UB = (f - t) mod RANNC_TAG_UB - 1"
      using t assms(3,4) m by (intro step_closer) auto
    moreover have "0 \<le> (f - (t + 1) mod RANNC_TAG_UB) mod RANNC_TAG_UB" using m by simp
    ultimately show ?thesis using m by simp
  qed
  have "\<exists>t. while_option (\<lambda>t. t \<in> ts) (\<lambda>t. (t + 1) mod RANNC_TAG_UB) tag = Some t"
    by (rule measure_while_option_Some [where P = "\<lambda>t. t \<in> {0..<RANNC_TAG_UB}" and f = "\<lambda>t. nat ((f - t) mod RANNC_TAG_UB)"])
      (rule next_t, assumption+, use assms in simp)
  then obtain t where t: "while_option (\<lambda>t. t \<in> ts) (\<lambda>t. (t + 1) mod RANNC_TAG_UB) tag = Some t" ..
  have "t \<in> {0..<RANNC_TAG_UB}"
    by (rule while_option_rule [OF _ t, where P = "\<lambda>t. t \<in> {0..<RANNC_TAG_UB}"]) (use next_t assms in simp_all)
  then show ?thesis using while_option_stop [OF t] t by (simp add: probe_def)
qed

lemma probe_full: "{0..<RANNC_TAG_UB} \<subseteq> ts \<Longrightarrow> 0 \<le> tag \<Longrightarrow> tag < RANNC_TAG_UB \<Longrightarrow> probe ts tag = Inl Never_returns"
proof -
  assume a: "{0..<RANNC_TAG_UB} \<subseteq> ts" "0 \<le> tag" "tag < RANNC_TAG_UB"
  have False if w: "while_option (\<lambda>t. t \<in> ts) (\<lambda>t. (t + 1) mod RANNC_TAG_UB) tag = Some t" for t
  proof -
    have "t \<in> {0..<RANNC_TAG_UB}"
      by (rule while_option_rule [OF _ w, where P = "\<lambda>t. t \<in> {0..<RANNC_TAG_UB}"]) (use a in \<open>auto simp: RANNC_TAG_UB_def\<close>)
    then show False using while_option_stop [OF w] a(1) by blast
  qed
  then have "while_option (\<lambda>t. t \<in> ts) (\<lambda>t. (t + 1) mod RANNC_TAG_UB) tag = None"
    by (cases "while_option (\<lambda>t. t \<in> ts) (\<lambda>t. (t + 1) mod RANNC_TAG_UB) tag") blast+
  then show ?thesis by (simp add: probe_def)
qed

lemma generateTag_range: "h \<noteq> - (2 ^ 31) \<Longrightarrow> \<exists>t. generateTag h = Inr t \<and> 0 \<le> t \<and> t < RANNC_TAG_UB"
  by (simp add: generateTag_def RANNC_TAG_UB_def)

lemma get_tag_known: "lookup_tag tm k = Some t \<Longrightarrow> get_tag h k tm = Inr (t, tm)"
  by (cases k) (simp_all add: getParamTag_def getRankSetTag_def getStrTag_def)

lemma get_tag_new:
  assumes "lookup_tag tm k = None" "generate (hash_of h k) tm = Inr (t, tm\<lparr>tags := insert t (tags tm)\<rparr>)"
  shows "\<exists>tm'. get_tag h k tm = Inr (t, tm') \<and> lookup_tag tm' = (lookup_tag tm)(k \<mapsto> t) \<and> tags tm' = insert t (tags tm)"
proof (cases k)
  case (Param_key p)
  let ?tm = "tm\<lparr>tags := insert t (tags tm), param_map := um_set p t (param_map tm)\<rparr>"
  have "lookup_tag ?tm q = ((lookup_tag tm)(k \<mapsto> t)) q" for q
    by (cases q) (simp_all add: Param_key um_get_set)
  then show ?thesis using assms Param_key
    by (intro exI [of _ ?tm]) (auto simp: getParamTag_def sbind_def fun_eq_iff)
next
  case (Ranks_key p)
  let ?tm = "tm\<lparr>tags := insert t (tags tm), param_comm_map := um_set p t (param_comm_map tm)\<rparr>"
  have "lookup_tag ?tm q = ((lookup_tag tm)(k \<mapsto> t)) q" for q
    by (cases q) (simp_all add: Ranks_key um_get_set)
  then show ?thesis using assms Ranks_key
    by (intro exI [of _ ?tm]) (auto simp: getRankSetTag_def sbind_def fun_eq_iff)
next
  case (Str_key p)
  let ?tm = "tm\<lparr>tags := insert t (tags tm), value_map := um_set p t (value_map tm)\<rparr>"
  have "lookup_tag ?tm q = ((lookup_tag tm)(k \<mapsto> t)) q" for q
    by (cases q) (simp_all add: Str_key um_get_set)
  then show ?thesis using assms Str_key
    by (intro exI [of _ ?tm]) (auto simp: getStrTag_def sbind_def fun_eq_iff)
qed

lemma get_tag_fails:
  assumes "lookup_tag tm k = None" "generate (hash_of h k) tm = Inl e"
  shows "get_tag h k tm = Inl e"
  using assms by (cases k) (simp_all add: getParamTag_def getRankSetTag_def getStrTag_def sbind_def)

lemma get_tag_step:
  assumes ok: "tagmap_ok tm" "hash_ok h" and room: "lookup_tag tm k \<noteq> None \<or> \<not> {0..<RANNC_TAG_UB} \<subseteq> tags tm"
  shows "\<exists>t tm'. get_tag h k tm = Inr (t, tm') \<and> tagmap_ok tm' \<and> lookup_tag tm' = (lookup_tag tm)(k \<mapsto> t) \<and>
    tags tm' = insert t (tags tm) \<and> (lookup_tag tm k = None \<longrightarrow> t \<notin> tags tm)"
proof (cases "lookup_tag tm k")
  case (Some t)
  then have "lookup_tag tm = (lookup_tag tm)(k \<mapsto> t)" "t \<in> tags tm" using ok(1) by (auto simp: tagmap_ok_def)
  then show ?thesis using get_tag_known [OF Some, of h] ok(1) Some by (auto simp: insert_absorb)
next
  case None
  obtain f where f: "f \<in> {0..<RANNC_TAG_UB}" "f \<notin> tags tm" using room None by blast
  obtain tag where tag: "generateTag (hash_of h k) = Inr tag" "0 \<le> tag" "tag < RANNC_TAG_UB"
    using generateTag_range [OF hash_of_ok [OF ok(2)]] by blast
  obtain t where t: "probe (tags tm) tag = Inr t" "t \<in> {0..<RANNC_TAG_UB}" "t \<notin> tags tm" using probe_free [OF tag(2,3) f] by blast
  have gen: "generate (hash_of h k) tm = Inr (t, tm\<lparr>tags := insert t (tags tm)\<rparr>)" by (simp add: generate_def tag(1) t(1))
  obtain tm' where tm': "get_tag h k tm = Inr (t, tm')" "lookup_tag tm' = (lookup_tag tm)(k \<mapsto> t)" "tags tm' = insert t (tags tm)"
    using get_tag_new [OF None gen] by blast
  have "tagmap_ok tm'"
    using ok(1) t(2,3) unfolding tagmap_ok_def tm'(2,3) by (auto split: if_splits)
  with tm' t(3) show ?thesis by blast
qed

text \<open>What a run of requests does.\<close>

lemma get_tags_run:
  assumes "tagmap_ok tm" "hash_ok h" "dom (lookup_tag tm) = D" "finite D" "card (tags tm) = card D"
    and "card (D \<union> set ks) \<le> 30000"
  shows "\<exists>ts tm'. smap (get_tag h) ks tm = Inr (ts, tm') \<and> tagmap_ok tm' \<and> lookup_tag tm \<subseteq>\<^sub>m lookup_tag tm' \<and>
    list_all2 (\<lambda>k t. lookup_tag tm' k = Some t) ks ts"
  using assms
proof (induction ks arbitrary: tm D)
  case (Cons k ks)
  have room: "lookup_tag tm k \<noteq> None \<or> \<not> {0..<RANNC_TAG_UB} \<subseteq> tags tm"
  proof (cases "k \<in> D")
    case False
    have "finite (tags tm)" using Cons.prems(1) unfolding tagmap_ok_def by (meson finite_atLeastLessThan_int finite_subset)
    have "card D < card (insert k D)" using False Cons.prems(4) by simp
    also have "\<dots> \<le> card (D \<union> set (k # ks))" using Cons.prems(4) by (intro card_mono) auto
    finally have "card (tags tm) < 30000" using Cons.prems(5,6) by simp
    then have "\<not> {0..<RANNC_TAG_UB} \<subseteq> tags tm" using card_mono [OF \<open>finite (tags tm)\<close>, of "{0..<RANNC_TAG_UB}"]
      by (auto simp: RANNC_TAG_UB_def)
    then show ?thesis ..
  qed (use Cons.prems(3) in blast)
  obtain t tm1 where t: "get_tag h k tm = Inr (t, tm1)" "tagmap_ok tm1" "lookup_tag tm1 = (lookup_tag tm)(k \<mapsto> t)"
    "tags tm1 = insert t (tags tm)" "lookup_tag tm k = None \<longrightarrow> t \<notin> tags tm"
    using get_tag_step [OF Cons.prems(1,2) room] by (elim exE conjE) (rule that)
  have dom: "dom (lookup_tag tm1) = insert k D" using t(3) Cons.prems(3) by simp
  have "finite (tags tm)" using Cons.prems(1) unfolding tagmap_ok_def by (meson finite_atLeastLessThan_int finite_subset)
  then have card: "card (tags tm1) = card (insert k D)"
  proof (cases "lookup_tag tm k")
    case (Some u)
    then have "k \<in> D" "u = t" using Cons.prems(3) get_tag_known [OF Some, of h] t(1) by auto
    then have "t \<in> tags tm" using Some Cons.prems(1) by (auto simp: tagmap_ok_def)
    then show ?thesis using t(4) Cons.prems(5) \<open>k \<in> D\<close> by (simp add: insert_absorb)
  next
    case None
    then have "k \<notin> D" using Cons.prems(3) by blast
    then show ?thesis using None t(4,5) Cons.prems(4,5) \<open>finite (tags tm)\<close> by simp
  qed
  have "card (insert k D \<union> set ks) \<le> 30000" using Cons.prems(6) by simp
  from Cons.IH [OF t(2) Cons.prems(2) dom _ card this] Cons.prems(4)
  obtain ts tm' where r: "smap (get_tag h) ks tm1 = Inr (ts, tm')" "tagmap_ok tm'" "lookup_tag tm1 \<subseteq>\<^sub>m lookup_tag tm'"
    "list_all2 (\<lambda>k t. lookup_tag tm' k = Some t) ks ts" by auto
  have "lookup_tag tm \<subseteq>\<^sub>m lookup_tag tm1"
    using get_tag_known [of tm k _ h] t(1,3) by (auto simp: map_le_def)
  then have "lookup_tag tm \<subseteq>\<^sub>m lookup_tag tm'" using r(3) by (rule map_le_trans)
  moreover have "lookup_tag tm' k = Some t" using r(3) t(3) by (auto simp: map_le_def)
  ultimately show ?case using t(1) r(1,2,4) by (auto simp: sbind_def)
qed (auto intro: map_le_refl)

lemma new_TagMap_ok: "tagmap_ok new_TagMap" "lookup_tag new_TagMap k = None"
proof -
  show l: "lookup_tag new_TagMap k = None" for k by (cases k) (simp_all add: new_TagMap_def)
  show "tagmap_ok new_TagMap" unfolding tagmap_ok_def l by (simp add: new_TagMap_def)
qed

text \<open>
  C22. Requests for tags end as long as there are at most 30000 different keys, and two requests get the same
  tag exactly when they have the same key, whatever the kinds of the keys and whatever the hash values.
\<close>

theorem tags_unique:
  assumes "hash_ok h" "card (set ks) \<le> 30000"
  shows "\<exists>ts tm. smap (get_tag h) ks new_TagMap = Inr (ts, tm) \<and> length ts = length ks \<and> set ts \<subseteq> {0..<RANNC_TAG_UB} \<and>
    (\<forall>i < length ks. \<forall>j < length ks. ts ! i = ts ! j \<longleftrightarrow> ks ! i = ks ! j)"
proof -
  have "dom (lookup_tag new_TagMap) = {}" using new_TagMap_ok(2) by auto
  moreover have "card (tags new_TagMap) = card ({} :: tag_key set)" by (simp add: new_TagMap_def)
  ultimately obtain ts tm where r: "smap (get_tag h) ks new_TagMap = Inr (ts, tm)" "tagmap_ok tm"
    "list_all2 (\<lambda>k t. lookup_tag tm k = Some t) ks ts"
    using get_tags_run [OF new_TagMap_ok(1) assms(1), of "{}" ks] assms(2) by auto
  have len: "length ts = length ks" and at: "\<And>i. i < length ks \<Longrightarrow> lookup_tag tm (ks ! i) = Some (ts ! i)"
    using r(3) by (auto simp: list_all2_conv_all_nth)
  have inj: "k = k'" if "lookup_tag tm k = Some t" "lookup_tag tm k' = Some t" for k k' t
    using r(2) that unfolding tagmap_ok_def by blast
  have "ts ! i = ts ! j \<longleftrightarrow> ks ! i = ks ! j" if "i < length ks" "j < length ks" for i j
    using at [OF that(1)] at [OF that(2)] inj by (metis option.inject)
  moreover have "t \<in> {0..<RANNC_TAG_UB}" if "t \<in> set ts" for t
    using that at len r(2) unfolding tagmap_ok_def in_set_conv_nth by (metis subsetD)
  ultimately show ?thesis using r(1) len by blast
qed

definition colliding_hash :: hasher where
  "colliding_hash = \<lparr>hash_long = (\<lambda>_. - 29999), hash_string = (\<lambda>_. 29999)\<rparr>"

theorem tags_unique_witness:
  "\<exists>ts tm. smap (get_tag colliding_hash) [Str_key ''a'', Param_key 3, Str_key ''a''] new_TagMap = Inr (ts, tm) \<and>
    ts ! 0 = ts ! 2 \<and> ts ! 0 \<noteq> ts ! 1"
proof -
  let ?ks = "[Str_key ''a'', Param_key 3, Str_key ''a'']"
  have "hash_ok colliding_hash" by (simp add: hash_ok_def colliding_hash_def)
  moreover have "card (set ?ks) \<le> 30000" by (rule order_trans [OF card_length]) simp
  ultimately obtain ts tm where r: "smap (get_tag colliding_hash) ?ks new_TagMap = Inr (ts, tm)"
    "\<forall>i < length ?ks. \<forall>j < length ?ks. ts ! i = ts ! j \<longleftrightarrow> ?ks ! i = ?ks ! j"
    using tags_unique [of colliding_hash ?ks] by blast
  have "ts ! 0 = ts ! 2" "ts ! 0 \<noteq> ts ! 1"
    using r(2) [rule_format, of 0 2] r(2) [rule_format, of 0 1] by simp_all
  with r(1) show ?thesis by blast
qed

text \<open>
  When all 30000 tags are taken, a request for the tag of a new key never returns.
\<close>

lemma tags_exhausted:
  assumes "hash_ok h" "{0..<RANNC_TAG_UB} \<subseteq> tags tm" "lookup_tag tm k = None"
  shows "get_tag h k tm = Inl Never_returns"
proof -
  obtain tag where tag: "generateTag (hash_of h k) = Inr tag" "0 \<le> tag" "tag < RANNC_TAG_UB"
    using generateTag_range [OF hash_of_ok [OF assms(1)]] by blast
  have "generate (hash_of h k) tm = Inl Never_returns"
    by (simp add: generate_def tag(1) probe_full [OF assms(2) tag(2,3)])
  then show ?thesis by (rule get_tag_fails [OF assms(3)])
qed

lemma tags_exhausted_witness:
  "get_tag colliding_hash (Param_key 3) (new_TagMap\<lparr>tags := {0..<30000}\<rparr>) = Inl Never_returns"
  by (rule tags_exhausted) (simp_all add: hash_ok_def colliding_hash_def RANNC_TAG_UB_def new_TagMap_def)

end
