(* ===== verification/Deployment.thy ===== *)
theory Deployment
  imports Routes Allocation
begin

text \<open>
  Deployments (\<open>struct Deployment\<close> and the functions on it in \<open>graph/Decomposition.cpp\<close>): the routes made
  from the connections of a partition, the order of the subgraphs, the routes of a rank, and the check
  \<open>verifyDeployment\<close>.
\<close>

section \<open>Deployments\<close>

record Deployment =
  d_id :: string
  d_graph :: IRGraph
  d_subgraphs :: "(string, IRGraph) umap"
  d_allocation :: allocation
  d_fwd_routes :: "RouteDP list"
  d_fwd_in_routes :: "RouteDP list"
  d_fwd_out_routes :: "RouteDP list"
  d_fwd_graph_order :: "string list"
  d_bwd_routes :: "RouteDP list"
  d_bwd_in_routes :: "RouteDP list"
  d_bwd_out_routes :: "RouteDP list"
  d_bwd_graph_order :: "string list"
  d_pipeline_num :: int
  d_checkpointing :: bool

record GraphConnectionDP =
  cdp_value :: string
  cdp_src_graphs :: "string list"
  cdp_dest_graphs :: "string list"

definition GraphConnectionDP_of :: "GraphConnection \<Rightarrow> GraphConnectionDP" where
  "GraphConnectionDP_of con = \<lparr>cdp_value = con_value con, cdp_src_graphs = [con_src con], cdp_dest_graphs = [con_dest con]\<rparr>"

definition isGraphInput :: "GraphConnectionDP \<Rightarrow> bool" where
  "isGraphInput con \<longleftrightarrow> length (cdp_src_graphs con) = 1 \<and> hd (cdp_src_graphs con) = MASTER_NAME"

definition isGraphOutput :: "GraphConnectionDP \<Rightarrow> bool" where
  "isGraphOutput con \<longleftrightarrow> length (cdp_dest_graphs con) = 1 \<and> hd (cdp_dest_graphs con) = MASTER_NAME"

text \<open>
  What a deployment takes from its surroundings: the hash of the tags, the order in which a set of ranks is
  copied to a vector, the number of ranks, the topological sort, the configured number of pipeline stages
  and the value that \<open>checkpointing\<close> holds before it is set.
\<close>

record deploy_env =
  env_hash :: hasher
  env_order :: "int set \<Rightarrow> int list"
  env_size :: nat
  env_topo :: topo_sort
  env_pipeline :: int
  env_checkpointing :: bool

definition searchGraphValuesByName :: "IRGraph \<Rightarrow> string \<Rightarrow> IRValue list" where
  "searchGraphValuesByName g val_name = map snd (filter (\<lambda>v. fst v = val_name) (gvalues g))"

definition searchGraphsValuesByName :: "IRGraph list \<Rightarrow> string \<Rightarrow> IRValue list" where
  "searchGraphsValuesByName gs val_name = concat (map (\<lambda>g. searchGraphValuesByName g val_name) gs)"

definition chooseRouteType :: "bool \<Rightarrow> bool \<Rightarrow> bool \<Rightarrow> RouteTypeDP res" where
  "chooseRouteType batch loss fwd =
     (if batch then Inr RT_REDIST
      else if loss then (if fwd then Inr RT_BROADCAST else Inr RT_WEIGHTED_REDUCE)
      else Inl Invalid_argument)"

definition getGraphRanks :: "deploy_env \<Rightarrow> string \<Rightarrow> allocation \<Rightarrow> int list res" where
  "getGraphRanks env graph_id alloc =
     (if graph_id = MASTER_NAME then Inr (env_order env {0..<int (env_size env)})
      else rbind (rassert (um_contains alloc graph_id)) (\<lambda>_.
           rbind (um_at alloc graph_id) (\<lambda>ranks. Inr (env_order env ranks))))"

section \<open>The order of the subgraphs\<close>

datatype RVertexType = RV_GRAPH | RV_ROUTE

record RVertexInfo =
  rv_name :: string
  rv_type :: RVertexType
  rv_route :: "RouteDP option"

type_synonym RGraph = "(RVertexInfo, unit) bgraph"

text \<open>The vertex of a graph, made when it has none; the keys of the vertex map are the known graph ids.\<close>

definition graph_vertex :: "string \<Rightarrow> RGraph \<times> (string, nat) umap \<Rightarrow> RGraph \<times> (string, nat) umap" where
  "graph_vertex gid = (\<lambda>(rg, v_map).
     if um_contains v_map gid then (rg, v_map)
     else let (v, rg1) = add_vertex \<lparr>rv_name = gid, rv_type = RV_GRAPH, rv_route = None\<rparr> rg
          in (rg1, um_set gid v v_map))"

definition route_vertex :: "RouteDP \<Rightarrow> RGraph \<times> (string, nat) umap \<Rightarrow> (RGraph \<times> (string, nat) umap) res" where
  "route_vertex r a =
     (let (rg, v_map) = graph_vertex (r_dest_graph r) (graph_vertex (r_source_graph r) a);
          (e, rg1) = add_vertex \<lparr>rv_name = v_name (r_value r), rv_type = RV_ROUTE, rv_route = Some r\<rparr> rg
      in rbind (um_at v_map (r_source_graph r)) (\<lambda>s.
         rbind (um_at v_map (r_dest_graph r)) (\<lambda>t.
         Inr (add_edge e t () (add_edge s e () rg1), v_map))))"

definition toRGraph :: "(string, IRGraph) umap \<Rightarrow> RouteDP list \<Rightarrow> RGraph res" where
  "toRGraph subgraphs routes =
     rbind (rfold route_vertex routes (foldl (\<lambda>a (gid, _). graph_vertex gid a) (empty_bgraph, []) subgraphs)) (\<lambda>(rg, _). Inr rg)"

definition sortGraphs :: "topo_sort \<Rightarrow> (string, IRGraph) umap \<Rightarrow> RouteDP list \<Rightarrow> string list res" where
  "sortGraphs topo subgraphs routes =
     rbind (toRGraph subgraphs routes) (\<lambda>rg. rbind (all_nodes_topo topo rg) (\<lambda>vs.
     Inr (map rv_name (filter (\<lambda>v. rv_type v = RV_GRAPH) (map (\<lambda>v. verts rg ! v) vs)))))"

section \<open>Routes from connections\<close>

record DeployRoutes =
  fwd_rs :: "RouteDP list"
  fwd_in_rs :: "RouteDP list"
  fwd_out_rs :: "RouteDP list"
  bwd_rs :: "RouteDP list"
  bwd_in_rs :: "RouteDP list"
  bwd_out_rs :: "RouteDP list"

definition connection_value :: "PartitionDP \<Rightarrow> GraphConnection \<Rightarrow> IRValue res" where
  "connection_value p con =
     (let ir_values = searchGraphsValuesByName (um_values (dp_subgraphs p)) (con_value con)
      in rbind (rassert (ir_values \<noteq> [])) (\<lambda>_. vec_at ir_values 0))"

definition fwd_route :: "deploy_env \<Rightarrow> allocation \<Rightarrow> GraphConnection \<Rightarrow> IRValue \<Rightarrow> (TagMap, RouteDP) st" where
  "fwd_route env alloc con val =
     sbind (slift (getGraphRanks env (con_src con) alloc)) (\<lambda>srcs.
     sbind (slift (getGraphRanks env (con_dest con) alloc)) (\<lambda>dsts.
     sbind (slift (chooseRouteType (is_batch val) (is_loss val) True)) (\<lambda>ty.
     let r0 = (new_RouteDP (loc_of (con_value con)) val)
                \<lparr>r_sources := srcs, r_source_graph := con_src con, r_dests := dsts, r_dest_graph := con_dest con, r_type := ty\<rparr>
     in sbind (getRouteTag (env_hash env) r0) (\<lambda>tag.
        sbind (getRouteSourceTag (env_hash env) (r0\<lparr>r_tag := tag\<rparr>)) (\<lambda>stag.
        sret (r0\<lparr>r_tag := tag, r_source_tag := stag\<rparr>))))))"

definition bwd_route :: "deploy_env \<Rightarrow> allocation \<Rightarrow> GraphConnection \<Rightarrow> IRValue \<Rightarrow> int \<Rightarrow> (TagMap, RouteDP) st" where
  "bwd_route env alloc con val tag =
     sbind (slift (getGraphRanks env (con_dest con) alloc)) (\<lambda>srcs.
     sbind (slift (getGraphRanks env (con_src con) alloc)) (\<lambda>dsts.
     let r0 = (new_RouteDP (loc_of (con_value con)) val)
                \<lparr>r_sources := srcs, r_source_graph := con_dest con, r_dests := dsts, r_dest_graph := con_src con, r_tag := tag\<rparr>
     in sbind (getRouteSourceTag (env_hash env) r0) (\<lambda>stag.
        sbind (slift (chooseRouteType (is_batch val) (is_loss val) False)) (\<lambda>ty.
        sret (r0\<lparr>r_source_tag := stag, r_type := ty\<rparr>)))))"

definition add_fwd :: "GraphConnection \<Rightarrow> RouteDP \<Rightarrow> DeployRoutes \<Rightarrow> DeployRoutes" where
  "add_fwd con r rs =
     (if isGraphInput (GraphConnectionDP_of con) then rs\<lparr>fwd_in_rs := fwd_in_rs rs @ [r]\<rparr>
      else if isGraphOutput (GraphConnectionDP_of con) then rs\<lparr>fwd_out_rs := fwd_out_rs rs @ [r]\<rparr>
      else rs\<lparr>fwd_rs := fwd_rs rs @ [r]\<rparr>)"

definition add_bwd :: "GraphConnection \<Rightarrow> RouteDP \<Rightarrow> DeployRoutes \<Rightarrow> DeployRoutes" where
  "add_bwd con r rs =
     (if isGraphInput (GraphConnectionDP_of con) then rs\<lparr>bwd_out_rs := bwd_out_rs rs @ [r]\<rparr>
      else if isGraphOutput (GraphConnectionDP_of con) then rs\<lparr>bwd_in_rs := bwd_in_rs rs @ [r]\<rparr>
      else rs\<lparr>bwd_rs := bwd_rs rs @ [r]\<rparr>)"

definition deploy_connection :: "deploy_env \<Rightarrow> PartitionDP \<Rightarrow> allocation \<Rightarrow> GraphConnection \<Rightarrow> DeployRoutes \<Rightarrow> (TagMap, DeployRoutes) st" where
  "deploy_connection env p alloc con rs =
     sbind (slift (connection_value p con)) (\<lambda>val.
     sbind (fwd_route env alloc con val) (\<lambda>fr.
     let rs1 = add_fwd con fr rs in
     sbind (slift (passedForBackward (v_type val))) (\<lambda>back.
     if back then sbind (bwd_route env alloc con val (r_tag fr)) (\<lambda>br. sret (add_bwd con br rs1))
     else sret rs1)))"

definition createDeployment :: "deploy_env \<Rightarrow> PartitionDP \<Rightarrow> allocation \<Rightarrow> (TagMap, Deployment) st" where
  "createDeployment env p alloc =
     sbind (sfold (deploy_connection env p alloc) (dp_connections p)
              \<lparr>fwd_rs = [], fwd_in_rs = [], fwd_out_rs = [], bwd_rs = [], bwd_in_rs = [], bwd_out_rs = []\<rparr>) (\<lambda>rs.
     sbind (slift (sortGraphs (env_topo env) (dp_subgraphs p) (fwd_rs rs))) (\<lambda>fwd_order.
     sbind (slift (sortGraphs (env_topo env) (dp_subgraphs p) (bwd_rs rs))) (\<lambda>bwd_order.
     sret \<lparr>d_id = dp_id p, d_graph = dp_graph p, d_subgraphs = dp_subgraphs p, d_allocation = alloc,
           d_fwd_routes = fwd_rs rs, d_fwd_in_routes = fwd_in_rs rs, d_fwd_out_routes = fwd_out_rs rs,
           d_fwd_graph_order = fwd_order,
           d_bwd_routes = bwd_rs rs, d_bwd_in_routes = bwd_in_rs rs, d_bwd_out_routes = bwd_out_rs rs,
           d_bwd_graph_order = bwd_order,
           d_pipeline_num = env_pipeline env, d_checkpointing = env_checkpointing env\<rparr>)))"

section \<open>Queries\<close>

type_synonym value_ranks = "(string, (string, int set) umap) umap"

definition getGraphValueRanks :: "Deployment \<Rightarrow> (IRGraph \<Rightarrow> IRValue list res) \<Rightarrow> value_ranks res" where
  "getGraphValueRanks d f =
     rfold (\<lambda>(sg_name, subgraph) results.
         rbind (f subgraph) (\<lambda>vals.
         rfold (\<lambda>val results.
             rbind (um_at (d_allocation d) sg_name) (\<lambda>alloc.
             let m = um_ref [] results sg_name
             in Inr (um_set sg_name (um_set (v_name val) (um_ref {} m (v_name val) \<union> alloc) m) results)))
           vals results))
       (d_subgraphs d) []"

definition getParamRanks :: "(string list \<Rightarrow> string list) \<Rightarrow> Deployment \<Rightarrow> value_ranks res" where
  "getParamRanks sort_names d = getGraphValueRanks d (graphParamValues sort_names)"

definition getConstantRanks :: "Deployment \<Rightarrow> value_ranks res" where
  "getConstantRanks d = getGraphValueRanks d graphConstantValues"

definition filterRoutes :: "RouteDP list \<Rightarrow> int \<Rightarrow> (RouteDP \<Rightarrow> int list) \<Rightarrow> RouteDP list" where
  "filterRoutes routes rank f = filter (\<lambda>r. rank \<in> set (f r)) routes"

definition filterRecvRoutes :: "RouteDP list \<Rightarrow> int \<Rightarrow> RouteDP list" where
  "filterRecvRoutes routes rank = filterRoutes routes rank r_dests"

definition filterSendRoutes :: "RouteDP list \<Rightarrow> int \<Rightarrow> RouteDP list" where
  "filterSendRoutes routes rank = filterRoutes routes rank r_sources"

definition filterRoutesByGraph :: "RouteDP list \<Rightarrow> string list \<Rightarrow> RouteDP list" where
  "filterRoutesByGraph routes val_names = filter (\<lambda>r. value_name (r_location r) \<in> set val_names) routes"

definition filterRoutesByGraphInputs :: "RouteDP list \<Rightarrow> IRGraph \<Rightarrow> RouteDP list" where
  "filterRoutesByGraphInputs routes g = filterRoutesByGraph routes (g_inputs g)"

definition filterRoutesByGraphOutputs :: "RouteDP list \<Rightarrow> IRGraph \<Rightarrow> RouteDP list" where
  "filterRoutesByGraphOutputs routes g = filterRoutesByGraph routes (g_outputs g)"

record GraphRoutes =
  fwd_send_routes :: "RouteDP list"
  fwd_recv_routes :: "RouteDP list"
  bwd_send_routes :: "RouteDP list"
  bwd_recv_routes :: "RouteDP list"

definition getRoutesByGraph :: "Deployment \<Rightarrow> IRGraph list \<Rightarrow> int \<Rightarrow> (string, GraphRoutes) umap" where
  "getRoutesByGraph d subgraphs rank =
     um_of (map (\<lambda>g. (g_name g,
       \<lparr>fwd_send_routes = filterRoutesByGraphOutputs (filterSendRoutes (d_fwd_routes d) rank) g,
        fwd_recv_routes = filterRoutesByGraphInputs (filterRecvRoutes (d_fwd_routes d) rank) g,
        bwd_send_routes = filterRoutesByGraphInputs (filterSendRoutes (d_bwd_routes d) rank) g,
        bwd_recv_routes = filterRoutesByGraphOutputs (filterRecvRoutes (d_bwd_routes d) rank) g\<rparr>)) subgraphs)"

definition routes_str :: "string \<Rightarrow> RouteDP list \<Rightarrow> string" where
  "routes_str title rs =
     title @ '' (num='' @ nat_str (length rs) @ '')'' @ [CHR 0x0A] @
     concat (map (\<lambda>r. ''  '' @ route_str r @ [CHR 0x0A]) rs)"

definition graph_routes_str :: "GraphRoutes \<Rightarrow> string" where
  "graph_routes_str rs =
     routes_str ''Fwd recv routes'' (fwd_recv_routes rs) @ routes_str ''Fwd send routes'' (fwd_send_routes rs) @
     routes_str ''Bwd recv routes'' (bwd_recv_routes rs) @ routes_str ''Bwd send routes'' (bwd_send_routes rs)"

section \<open>The check of a deployment\<close>

text \<open>Some route of the list carries the value and has the graph at one end.\<close>

definition used_by :: "(RouteDP \<Rightarrow> string) \<Rightarrow> string \<Rightarrow> IRValue \<Rightarrow> RouteDP list \<Rightarrow> bool" where
  "used_by graph_of graph_name val routes \<longleftrightarrow> (\<exists>r \<in> set routes. graph_name = graph_of r \<and> v_name (r_value r) = v_name val)"

definition verify_value ::
    "(RouteDP \<Rightarrow> string) \<Rightarrow> (RouteDP \<Rightarrow> string) \<Rightarrow> RouteDP list \<Rightarrow> RouteDP list \<Rightarrow> string \<Rightarrow> IRValue \<Rightarrow> unit res" where
  "verify_value fwd_graph bwd_graph fwd_routes bwd_routes graph_name val =
     (if \<not> used_by fwd_graph graph_name val fwd_routes then Inl Runtime_error
      else rbind (passedForBackward (v_type val)) (\<lambda>back.
           if back \<and> \<not> used_by bwd_graph graph_name val bwd_routes then Inl Runtime_error else Inr ()))"

definition verify_graph :: "RouteDP list \<Rightarrow> RouteDP list \<Rightarrow> string \<times> IRGraph \<Rightarrow> unit \<Rightarrow> unit res" where
  "verify_graph fwd_routes bwd_routes = (\<lambda>(graph_name, g) _.
     rbind (rfold (\<lambda>in_name _. rbind (getValue g in_name) (\<lambda>in_val.
         if is_param in_val then Inr ()
         else verify_value r_dest_graph r_source_graph fwd_routes bwd_routes graph_name in_val)) (g_inputs g) ()) (\<lambda>_.
     rfold (\<lambda>out_name _. rbind (getValue g out_name) (\<lambda>out_val.
         verify_value r_source_graph r_dest_graph fwd_routes bwd_routes graph_name out_val)) (g_outputs g) ()))"

definition verifyDeployment :: "Deployment \<Rightarrow> unit res" where
  "verifyDeployment d =
     (let fwd_routes = addAll (addAll (addAll [] (d_fwd_in_routes d)) (d_fwd_routes d)) (d_fwd_out_routes d);
          bwd_routes = addAll (addAll (addAll [] (d_bwd_in_routes d)) (d_bwd_routes d)) (d_bwd_out_routes d)
      in rfold (verify_graph fwd_routes bwd_routes) (d_subgraphs d) ())"

end
