(* ===== verification/ML_Decompose.thy ===== *)
theory ML_Decompose
  imports Value_Graph ML_Refine DP_Staging Deployment
begin

text \<open>
  The whole partitioning of a model: \<open>MLPartitioner::partition\<close> (\<open>graph/Partitioner.cpp\<close>), which makes the
  levels, and \<open>graph/MLPartDecomposer.cpp\<close>, which cuts a level into stages, connects the stages, replicates
  them, allocates them to devices and makes a deployment of them.
\<close>

section \<open>Making the levels\<close>

definition is_batch_op :: "VertexInfo \<Rightarrow> bool" where
  "is_batch_op vi \<longleftrightarrow> vi_type vi = VT_NODE \<and> (n_is_batch (vi_node vi) \<or> is_criterion (vi_node vi))"

definition set_ranks :: "int set \<Rightarrow> nat \<Rightarrow> BGraph \<Rightarrow> BGraph" where
  "set_ranks ranks v b = set_vinfo v (\<lambda>vi. vi\<lparr>vi_ranks := ranks\<rparr>) b"

definition label_batch_op :: "nat \<Rightarrow> BGraph \<times> int \<Rightarrow> BGraph \<times> int" where
  "label_batch_op v = (\<lambda>(b, rank).
     if is_batch_op (vinfo b v)
     then (foldl (\<lambda>b t. set_ranks {rank} t b) (set_ranks {rank} v b) (target_nodes v (bg b)), rank + 1)
     else (b, rank))"

definition label_batch_ops :: "BGraph \<Rightarrow> BGraph" where
  "label_batch_ops b = fst (foldl (\<lambda>a v. label_batch_op v a) (b, 0) (all_nodes (bg b)))"

definition label_input :: "nat \<Rightarrow> BGraph \<Rightarrow> BGraph res" where
  "label_input in_v b =
     rbind (rassert (is_batch (vi_value (vinfo b in_v)))) (\<lambda>_.
     Inr (foldl (\<lambda>b oper. foldl (\<lambda>b r. set_ranks (insert r (vi_ranks (vinfo b in_v))) in_v b) b
                           (sorted_list_of_set (vi_ranks (vinfo b oper))))
            b (target_nodes in_v (bg b))))"

definition label_inputs :: "BGraph \<Rightarrow> BGraph res" where
  "label_inputs b = rfold label_input (graph_regular_input_nodes (bg b)) b"

definition label_ranks :: "topo_sort \<Rightarrow> BGraph \<Rightarrow> BGraph res" where
  "label_ranks topo b = rbind (label_inputs (label_batch_ops b)) (fixNonBatchRanks topo)"

record ml_config =
  cfg_do_coarsening :: bool
  cfg_min_partition_num :: int
  cfg_do_uncoarsening :: bool
  cfg_max_partition_num :: int

definition atomic_graph :: "MLPartitioner \<Rightarrow> VertexInfo \<Rightarrow> (int set \<Rightarrow> int list) \<Rightarrow> IRGraph \<Rightarrow> MLGraph res" where
  "atomic_graph p blank ord ir_graph =
     rbind (toBGL_ir blank ir_graph) (\<lambda>b.
     rbind (label_ranks (topological_sort p) b) (\<lambda>b.
     rbind (createPartition (topological_sort p) ord b) convert))"

definition partition_ml :: "ml_config \<Rightarrow> MLPartitioner \<Rightarrow> VertexInfo \<Rightarrow> (int set \<Rightarrow> int list) \<Rightarrow> IRGraph \<Rightarrow> (part_state, MLGraph) st" where
  "partition_ml cfg p0 blank ord ir_graph =
     sbind (slift (guessGraphBatchSize ir_graph)) (\<lambda>bs.
     let p = p0\<lparr>batch_size := to_size bs\<rparr> in
     sbind (slift (rassert (to_size bs > 0))) (\<lambda>_.
     sbind (slift (atomic_graph p blank ord ir_graph)) (\<lambda>ml_graph.
     if \<not> cfg_do_coarsening cfg then slift (sortMLGraph (topological_sort p) ml_graph)
     else sbind (coarsen p ml_graph (cfg_min_partition_num cfg)) (\<lambda>g1.
          sbind (if cfg_do_uncoarsening cfg then uncoarsen p g1 else sret g1) (\<lambda>g2.
          sbind (slift (sortMLGraph (topological_sort p) g2)) (\<lambda>g3.
          mergeSmall p g3 (cfg_max_partition_num cfg)))))))"

section \<open>Connecting the stages\<close>

text \<open>The order in which a set of names is walked through is the argument \<open>ord\<close>.\<close>

definition note_input :: "IRGraph \<Rightarrow> string \<Rightarrow> (string, string set) umap \<Rightarrow> (string, string set) umap res" where
  "note_input sg in_name in_vals =
     rbind (getValue sg in_name) (\<lambda>v.
     Inr (if is_param v then in_vals else um_set in_name (insert (g_name sg) (um_ref {} in_vals in_name)) in_vals))"

definition note_output :: "IRGraph \<Rightarrow> IRGraph \<Rightarrow> string \<Rightarrow> (string, string) umap \<Rightarrow> (string, string) umap" where
  "note_output ir_graph sg out out_vals = (if out \<notin> set (g_inputs ir_graph) then um_set out (g_name sg) out_vals else out_vals)"

record part_tables =
  in_vals :: "(string, string set) umap"
  out_vals :: "(string, string) umap"
  sg_map :: "(string, IRGraph) umap"
  sg_order :: "string list"

definition note_graph :: "IRGraph \<Rightarrow> IRGraph \<Rightarrow> part_tables \<Rightarrow> part_tables res" where
  "note_graph ir_graph sg t =
     rbind (rfold (note_input sg) (g_inputs sg) (in_vals t)) (\<lambda>iv.
     Inr \<lparr>in_vals = iv, out_vals = foldl (\<lambda>ov out. note_output ir_graph sg out ov) (out_vals t) (g_outputs sg),
          sg_map = um_set (g_name sg) sg (sg_map t), sg_order = sg_order t @ [g_name sg]\<rparr>)"

type_synonym con_state = "GraphConnection list \<times> (string, string set) umap"

definition mk_con :: "string \<Rightarrow> string \<Rightarrow> string \<Rightarrow> GraphConnection" where
  "mk_con val src tgt = \<lparr>con_value = val, con_src = src, con_dest = tgt, con_id = src @ ''_'' @ val, con_targetId = tgt @ ''_'' @ val\<rparr>"

definition add_con :: "string \<Rightarrow> string \<Rightarrow> string \<Rightarrow> con_state \<Rightarrow> con_state" where
  "add_con val src tgt = (\<lambda>(cons, created).
     (cons @ [mk_con val src tgt], um_set tgt (insert val (um_ref {} created tgt)) created))"

definition connect_input :: "part_tables \<Rightarrow> IRGraph \<Rightarrow> string \<Rightarrow> con_state \<Rightarrow> con_state res" where
  "connect_input t sg in_name a =
     rbind (getValue sg in_name) (\<lambda>v.
     if is_param v then Inr a
     else case um_get (out_vals t) in_name of
            None \<Rightarrow> Inr a
          | Some src_id \<Rightarrow> Inr (if src_id \<noteq> g_name sg then add_con in_name src_id (g_name sg) a else a))"

definition connect_master_input :: "(string set \<Rightarrow> string list) \<Rightarrow> IRGraph \<Rightarrow> part_tables \<Rightarrow> string \<Rightarrow> con_state \<Rightarrow> con_state res" where
  "connect_master_input ord ir_graph t in_name a =
     rbind (getValue ir_graph in_name) (\<lambda>v.
     if is_param v then Inr a
     else case um_get (in_vals t) in_name of
            None \<Rightarrow> Inr a
          | Some tgts \<Rightarrow> Inr (foldl (\<lambda>(cons, created) tgt_id.
              if in_name \<notin> um_ref {} created tgt_id then add_con in_name MASTER_NAME tgt_id (cons, created) else (cons, created)) a (ord tgts)))"

definition connect_output :: "part_tables \<Rightarrow> string \<Rightarrow> GraphConnection list \<Rightarrow> GraphConnection list res" where
  "connect_output t out cons =
     rbind (rassert (um_contains (out_vals t) out)) (\<lambda>_.
     rbind (um_at (out_vals t) out) (\<lambda>src_id. Inr (cons @ [mk_con out src_id MASTER_NAME])))"

definition createPartition_ml :: "(string set \<Rightarrow> string list) \<Rightarrow> IRGraph \<Rightarrow> IRGraph list \<Rightarrow> Partition res" where
  "createPartition_ml ord ir_graph subgraphs =
     rbind (rfold (note_graph ir_graph) subgraphs \<lparr>in_vals = [], out_vals = [], sg_map = [], sg_order = []\<rparr>) (\<lambda>t.
     rbind (rfold (\<lambda>sg a. rfold (connect_input t sg) (g_inputs sg) a) subgraphs ([], [])) (\<lambda>a.
     rbind (rfold (connect_master_input ord ir_graph t) (g_inputs ir_graph) a) (\<lambda>(cons, _).
     rbind (rfold (connect_output t) (g_outputs ir_graph) cons) (\<lambda>cons.
     Inr \<lparr>p_id = g_name ir_graph, p_graph = ir_graph, p_subgraphs = sg_map t, p_connections = cons, p_order = sg_order t\<rparr>))))"

section \<open>Decomposition\<close>

text \<open>
  The configuration and the parts of the surroundings that \<open>decompose\<close> reads; \<open>scale_mem\<close> is the product
  by \<open>1 - MEM_MARGIN\<close> in floating point. The members \<open>dev_num\<close>, \<open>dev_mem\<close>, \<open>batch_size\<close> of the two records
  are set by \<open>decompose\<close>.
\<close>

record decompose_env =
  de_deploy :: deploy_env
  de_partitioner :: MLPartitioner
  de_staging :: DPStaging
  de_config :: ml_config
  de_blank :: VertexInfo
  de_name_order :: "string set \<Rightarrow> string list"
  de_mem_limit_gb :: int
  de_scale_mem :: "int \<Rightarrow> int"
  de_summary :: bool
  de_alloc_flat :: bool

record MLPartDecomposer =
  mp_batch_size :: int
  mp_dev_mem :: int

definition available_mem :: "decompose_env \<Rightarrow> int \<Rightarrow> int" where
  "available_mem env mem =
     (if mem > 0
      then let limit = de_mem_limit_gb env;
               m = (if limit > 0 then min mem (to_size (limit * 1024 * 1024 * 1024)) else mem)
           in de_scale_mem env m
      else 2 * 1024 * 1024 * 1024 * 1024)"

definition stage_solution :: "decompose_env \<Rightarrow> MLPartDecomposer \<Rightarrow> IRGraph \<Rightarrow> AllocSolution res" where
  "stage_solution env self ir_graph =
     (let n = env_size (de_deploy env);
          p = (de_partitioner env)\<lparr>dev_num := int n, dev_mem := mp_dev_mem self\<rparr>;
          D = (de_staging env)\<lparr>dp_batch_size := mp_batch_size self, dp_dev_mem := mp_dev_mem self\<rparr>
      in rbind (partition_ml (de_config env) p (de_blank env) (env_order (de_deploy env)) ir_graph
                  \<lparr>prof_util = new_ProfilerUtil, drawn = 0\<rparr>) (\<lambda>(part_graph, _).
         rbind (runDpComm D (de_summary env) part_graph n \<lparr>dp_prof = new_ProfilerUtil, dp_cache = [], dp_drawn = 0\<rparr>) (\<lambda>(sol, _).
         Inr sol)))"

definition deploy_solution :: "decompose_env \<Rightarrow> MLPartDecomposer \<Rightarrow> IRGraph \<Rightarrow> AllocSolution \<Rightarrow> (TagMap, Deployment) st" where
  "deploy_solution env self ir_graph sol =
     sbind (slift (createPartition_ml (de_name_order env) ir_graph (al_graphs sol))) (\<lambda>new_part.
     sbind (slift (rassert (length (al_graphs sol) = length (p_order new_part)))) (\<lambda>_.
     sbind (slift (rmap (\<lambda>(i, _). rbind (rassert (um_contains (al_repl_nums sol) i)) (\<lambda>_.
              rbind (um_at (al_repl_nums sol) i) (\<lambda>n. Inr (i, n)))) (p_subgraphs new_part))) (\<lambda>repl_nums.
     sbind (slift (replicate_partition (PartitionDP_of new_part) (um_of repl_nums) (mp_batch_size self))) (\<lambda>repl.
     sbind (slift (if de_alloc_flat env then searchAllocationFlat repl else searchAllocationSimple repl)) (\<lambda>alloc.
     if alloc = [] then slift (Inl Runtime_error)
     else sbind (createDeployment (de_deploy env) repl alloc) (\<lambda>d.
          sret (d\<lparr>d_pipeline_num := al_pipeline sol, d_checkpointing := al_checkpointing sol\<rparr>)))))))"

text \<open>\<open>decompose\<close> also changes the member \<open>dev_mem_\<close>.\<close>

definition decompose :: "decompose_env \<Rightarrow> MLPartDecomposer \<Rightarrow> IRGraph \<Rightarrow> (TagMap, Deployment \<times> MLPartDecomposer) st" where
  "decompose env self ir_graph =
     (let self' = self\<lparr>mp_dev_mem := available_mem env (mp_dev_mem self)\<rparr>
      in sbind (slift (stage_solution env self' ir_graph)) (\<lambda>sol.
         sbind (deploy_solution env self' ir_graph sol) (\<lambda>d. sret (d, self'))))"

end
