(* ===== verification/Deployment_Correct.thy ===== *)
theory Deployment_Correct
  imports Deployment Topo_Sort
begin

text \<open>
  Correctness of deployments: each connection becomes one forward route and, when its value takes part in
  the backward pass, one backward route that mirrors it; the order of the subgraphs follows the routes.
\<close>

section \<open>Forward and backward routes\<close>

definition carries :: "deploy_env \<Rightarrow> PartitionDP \<Rightarrow> allocation \<Rightarrow> GraphConnection \<Rightarrow> RouteDP \<Rightarrow> bool" where
  "carries env p alloc con r \<longleftrightarrow>
     r_location r = loc_of (con_value con) \<and> connection_value p con = Inr (r_value r) \<and>
     r_source_graph r = con_src con \<and> getGraphRanks env (con_src con) alloc = Inr (r_sources r) \<and>
     r_dest_graph r = con_dest con \<and> getGraphRanks env (con_dest con) alloc = Inr (r_dests r) \<and>
     r_type r = (if is_batch (r_value r) then RT_REDIST else RT_BROADCAST)"

definition mirrored :: "RouteDP \<Rightarrow> RouteDP \<Rightarrow> bool" where
  "mirrored fr br \<longleftrightarrow>
     r_location br = r_location fr \<and> r_value br = r_value fr \<and> r_tag br = r_tag fr \<and>
     r_source_graph br = r_dest_graph fr \<and> r_sources br = r_dests fr \<and>
     r_dest_graph br = r_source_graph fr \<and> r_dests br = r_sources fr \<and>
     r_type br = (if is_batch (r_value fr) then RT_REDIST else RT_WEIGHTED_REDUCE)"

definition needs_bwd :: "RouteDP \<Rightarrow> bool" where
  "needs_bwd r \<longleftrightarrow> passedForBackward (v_type (r_value r)) = Inr True"

definition input_con :: "GraphConnection \<Rightarrow> bool" where
  "input_con con \<longleftrightarrow> con_src con = MASTER_NAME"

definition output_con :: "GraphConnection \<Rightarrow> bool" where
  "output_con con \<longleftrightarrow> con_src con \<noteq> MASTER_NAME \<and> con_dest con = MASTER_NAME"

definition inner_con :: "GraphConnection \<Rightarrow> bool" where
  "inner_con con \<longleftrightarrow> con_src con \<noteq> MASTER_NAME \<and> con_dest con \<noteq> MASTER_NAME"

lemmas con_kinds = input_con_def output_con_def inner_con_def

lemma isGraphInput_iff: "isGraphInput (GraphConnectionDP_of con) \<longleftrightarrow> con_src con = MASTER_NAME"
  by (simp add: isGraphInput_def GraphConnectionDP_of_def)

lemma isGraphOutput_iff: "isGraphOutput (GraphConnectionDP_of con) \<longleftrightarrow> con_dest con = MASTER_NAME"
  by (simp add: isGraphOutput_def GraphConnectionDP_of_def)

lemma fwd_route_carries:
  assumes "fwd_route env alloc con val tm = Inr (r, tm')" "connection_value p con = Inr val"
  shows "carries env p alloc con r \<and> r_value r = val"
proof -
  obtain srcs dsts ty tag stag where "getGraphRanks env (con_src con) alloc = Inr srcs" "getGraphRanks env (con_dest con) alloc = Inr dsts"
    "chooseRouteType (is_batch val) (is_loss val) True = Inr ty"
    "r = (new_RouteDP (loc_of (con_value con)) val)\<lparr>r_sources := srcs, r_source_graph := con_src con, r_dests := dsts,
       r_dest_graph := con_dest con, r_type := ty, r_tag := tag, r_source_tag := stag\<rparr>"
    using assms(1) unfolding fwd_route_def Let_def sbind_Inr slift_Inr sret_Inr by auto
  then show ?thesis using assms(2)
    by (auto simp: carries_def new_RouteDP_def chooseRouteType_def split: if_splits)
qed

lemma bwd_route_mirrored:
  assumes "bwd_route env alloc con val (r_tag fr) tm = Inr (br, tm')" "carries env p alloc con fr" "r_value fr = val"
  shows "mirrored fr br"
proof -
  obtain srcs dsts ty stag where "getGraphRanks env (con_dest con) alloc = Inr srcs" "getGraphRanks env (con_src con) alloc = Inr dsts"
    "chooseRouteType (is_batch val) (is_loss val) False = Inr ty"
    "br = (new_RouteDP (loc_of (con_value con)) val)\<lparr>r_sources := srcs, r_source_graph := con_dest con, r_dests := dsts,
       r_dest_graph := con_src con, r_tag := r_tag fr, r_source_tag := stag, r_type := ty\<rparr>"
    using assms(1) unfolding bwd_route_def Let_def sbind_Inr slift_Inr sret_Inr by auto
  then show ?thesis using assms(2,3)
    by (auto simp: carries_def mirrored_def new_RouteDP_def chooseRouteType_def split: if_splits)
qed

lemma deploy_connection_routes:
  assumes "deploy_connection env p alloc con rs tm = Inr (rs', tm')"
  shows "\<exists>fr. carries env p alloc con fr \<and>
    (if needs_bwd fr then \<exists>br. mirrored fr br \<and> rs' = add_bwd con br (add_fwd con fr rs) else rs' = add_fwd con fr rs)"
proof -
  obtain val fr bk tm1 where v: "connection_value p con = Inr val" "fwd_route env alloc con val tm = Inr (fr, tm1)"
    "passedForBackward (v_type val) = Inr bk"
    and rest: "(if bk then sbind (bwd_route env alloc con val (r_tag fr)) (\<lambda>br. sret (add_bwd con br (add_fwd con fr rs)))
       else sret (add_fwd con fr rs)) tm1 = Inr (rs', tm')"
    using assms unfolding deploy_connection_def Let_def sbind_Inr slift_Inr by auto
  have fr: "carries env p alloc con fr" "r_value fr = val" using fwd_route_carries [OF v(2,1)] by simp_all
  show ?thesis
  proof (cases bk)
    case True
    then obtain br where "bwd_route env alloc con val (r_tag fr) tm1 = Inr (br, tm')" "rs' = add_bwd con br (add_fwd con fr rs)"
      using rest by (auto simp: sbind_Inr sret_Inr)
    moreover from this(1) have "mirrored fr br" by (rule bwd_route_mirrored [OF _ fr])
    moreover have "needs_bwd fr" using True v(3) fr(2) by (simp add: needs_bwd_def)
    ultimately show ?thesis using fr(1) by auto
  next
    case False
    then show ?thesis using rest v(3) fr by (auto simp: needs_bwd_def sret_Inr)
  qed
qed

text \<open>The routes made from a list of connections.\<close>

definition routes_made :: "deploy_env \<Rightarrow> PartitionDP \<Rightarrow> allocation \<Rightarrow> GraphConnection list \<Rightarrow> DeployRoutes \<Rightarrow> bool" where
  "routes_made env p alloc cons rs \<longleftrightarrow>
     list_all2 (carries env p alloc) (filter input_con cons) (fwd_in_rs rs) \<and>
     list_all2 (carries env p alloc) (filter inner_con cons) (fwd_rs rs) \<and>
     list_all2 (carries env p alloc) (filter output_con cons) (fwd_out_rs rs) \<and>
     list_all2 mirrored (filter needs_bwd (fwd_in_rs rs)) (bwd_out_rs rs) \<and>
     list_all2 mirrored (filter needs_bwd (fwd_rs rs)) (bwd_rs rs) \<and>
     list_all2 mirrored (filter needs_bwd (fwd_out_rs rs)) (bwd_in_rs rs)"

lemma routes_made_step:
  assumes "routes_made env p alloc cons rs" "deploy_connection env p alloc con rs tm = Inr (rs', tm')"
  shows "routes_made env p alloc (cons @ [con]) rs'"
proof -
  obtain fr where fr: "carries env p alloc con fr"
    "if needs_bwd fr then \<exists>br. mirrored fr br \<and> rs' = add_bwd con br (add_fwd con fr rs) else rs' = add_fwd con fr rs"
    using deploy_connection_routes [OF assms(2)] by blast
  consider "input_con con" "\<not> output_con con" "\<not> inner_con con" | "\<not> input_con con" "output_con con" "\<not> inner_con con"
    | "\<not> input_con con" "\<not> output_con con" "inner_con con" unfolding con_kinds by blast
  then show ?thesis
  proof cases
    case 1
    then show ?thesis using assms(1) fr
      by (auto simp: routes_made_def add_fwd_def add_bwd_def isGraphInput_iff con_kinds intro!: list_all2_appendI split: if_splits)
  next
    case 2
    then show ?thesis using assms(1) fr
      by (auto simp: routes_made_def add_fwd_def add_bwd_def isGraphInput_iff isGraphOutput_iff con_kinds intro!: list_all2_appendI split: if_splits)
  next
    case 3
    then show ?thesis using assms(1) fr
      by (auto simp: routes_made_def add_fwd_def add_bwd_def isGraphInput_iff isGraphOutput_iff con_kinds intro!: list_all2_appendI split: if_splits)
  qed
qed

lemma createDeployment_parts:
  assumes "createDeployment env p alloc tm = Inr (d, tm')"
  obtains rs where "routes_made env p alloc (dp_connections p) rs"
    "d_fwd_in_routes d = fwd_in_rs rs" "d_fwd_routes d = fwd_rs rs" "d_fwd_out_routes d = fwd_out_rs rs"
    "d_bwd_in_routes d = bwd_in_rs rs" "d_bwd_routes d = bwd_rs rs" "d_bwd_out_routes d = bwd_out_rs rs"
    "d_subgraphs d = dp_subgraphs p" "d_allocation d = alloc"
    "sortGraphs (env_topo env) (dp_subgraphs p) (fwd_rs rs) = Inr (d_fwd_graph_order d)"
    "sortGraphs (env_topo env) (dp_subgraphs p) (bwd_rs rs) = Inr (d_bwd_graph_order d)"
proof -
  let ?rs0 = "\<lparr>fwd_rs = [], fwd_in_rs = [], fwd_out_rs = [], bwd_rs = [], bwd_in_rs = [], bwd_out_rs = []\<rparr>"
  obtain rs tm1 fo bo where run: "sfold (deploy_connection env p alloc) (dp_connections p) ?rs0 tm = Inr (rs, tm1)"
    and "sortGraphs (env_topo env) (dp_subgraphs p) (fwd_rs rs) = Inr fo"
    "sortGraphs (env_topo env) (dp_subgraphs p) (bwd_rs rs) = Inr bo"
    "d = \<lparr>d_id = dp_id p, d_graph = dp_graph p, d_subgraphs = dp_subgraphs p, d_allocation = alloc,
           d_fwd_routes = fwd_rs rs, d_fwd_in_routes = fwd_in_rs rs, d_fwd_out_routes = fwd_out_rs rs,
           d_fwd_graph_order = fo, d_bwd_routes = bwd_rs rs, d_bwd_in_routes = bwd_in_rs rs, d_bwd_out_routes = bwd_out_rs rs,
           d_bwd_graph_order = bo, d_pipeline_num = env_pipeline env, d_checkpointing = env_checkpointing env\<rparr>"
    using assms unfolding createDeployment_def sbind_Inr slift_Inr sret_Inr by blast
  moreover have "routes_made env p alloc (dp_connections p) rs"
    by (rule sfold_prefix [OF run]) (simp add: routes_made_def, rule routes_made_step)
  ultimately show ?thesis using that [of rs] by simp
qed

section \<open>The order of the subgraphs\<close>

definition rgraph_ok :: "RouteDP list \<Rightarrow> RGraph \<times> (string, nat) umap \<Rightarrow> bool" where
  "rgraph_ok routes = (\<lambda>(rg, v_map).
     bgraph_ok rg \<and>
     (\<forall>gid v. um_get v_map gid = Some v \<longleftrightarrow> v < length (verts rg) \<and> rv_type (verts rg ! v) = RV_GRAPH \<and> rv_name (verts rg ! v) = gid) \<and>
     (\<forall>r \<in> set routes. \<exists>s t e. um_get v_map (r_source_graph r) = Some s \<and> um_get v_map (r_dest_graph r) = Some t \<and>
        (s, e) \<in> set (arcs rg) \<and> (e, t) \<in> set (arcs rg)))"

lemma rgraph_okI:
  assumes "bgraph_ok rg"
    and "\<And>gid v. um_get v_map gid = Some v \<longleftrightarrow> v < length (verts rg) \<and> rv_type (verts rg ! v) = RV_GRAPH \<and> rv_name (verts rg ! v) = gid"
    and "\<And>r. r \<in> set routes \<Longrightarrow> \<exists>s t e. um_get v_map (r_source_graph r) = Some s \<and> um_get v_map (r_dest_graph r) = Some t \<and>
        (s, e) \<in> set (arcs rg) \<and> (e, t) \<in> set (arcs rg)"
  shows "rgraph_ok routes (rg, v_map)"
  unfolding rgraph_ok_def case_prod_conv using assms by (intro conjI allI ballI)

lemma rgraph_okD:
  assumes "rgraph_ok routes (rg, v_map)"
  shows "bgraph_ok rg"
    and "um_get v_map gid = Some v \<longleftrightarrow> v < length (verts rg) \<and> rv_type (verts rg ! v) = RV_GRAPH \<and> rv_name (verts rg ! v) = gid"
    and "r \<in> set routes \<Longrightarrow> \<exists>s t e. um_get v_map (r_source_graph r) = Some s \<and> um_get v_map (r_dest_graph r) = Some t \<and>
        (s, e) \<in> set (arcs rg) \<and> (e, t) \<in> set (arcs rg)"
  using assms unfolding rgraph_ok_def case_prod_conv by (elim conjE; fast)+

lemma graph_vertex_ok:
  assumes "rgraph_ok routes a"
  shows "rgraph_ok routes (graph_vertex gid a) \<and> um_get (snd (graph_vertex gid a)) gid \<noteq> None \<and>
    um_get (snd a) \<subseteq>\<^sub>m um_get (snd (graph_vertex gid a))"
proof -
  obtain rg v_map where a: "a = (rg, v_map)" by (cases a)
  show ?thesis
  proof (cases "um_get v_map gid")
    case (Some v)
    then show ?thesis using assms by (simp add: a graph_vertex_def um_contains_def)
  next
    case None
    let ?rg = "rg\<lparr>verts := verts rg @ [\<lparr>rv_name = gid, rv_type = RV_GRAPH, rv_route = None\<rparr>]\<rparr>"
    let ?m = "um_set gid (length (verts rg)) v_map"
    have g: "graph_vertex gid a = (?rg, ?m)" using None by (simp add: a graph_vertex_def um_contains_def add_vertex_def)
    have m: "um_get ?m = (um_get v_map)(gid \<mapsto> length (verts rg))" by (simp add: um_get_set)
    have arcs: "arcs ?rg = arcs rg" by (simp add: arcs_def)
    have at: "um_get v_map g = Some v \<longleftrightarrow> v < length (verts rg) \<and> rv_type (verts rg ! v) = RV_GRAPH \<and> rv_name (verts rg ! v) = g" for g v
      by (rule rgraph_okD(2) [OF assms [unfolded a]])
    have new: "um_get ?m g = Some v \<longleftrightarrow> v < length (verts ?rg) \<and> rv_type (verts ?rg ! v) = RV_GRAPH \<and> rv_name (verts ?rg ! v) = g" for g v
    proof (cases "v = length (verts rg)")
      case True
      then show ?thesis using at [of g v] by (auto simp: m)
    next
      case False
      have "um_get v_map gid \<noteq> Some v" using None by simp
      then show ?thesis using False at [of g v] at [of gid v] by (auto simp: m nth_append less_Suc_eq)
    qed
    have bok: "bgraph_ok ?rg" using rgraph_okD(1) [OF assms [unfolded a]] by (auto simp: bgraph_ok_def arcs)
    have le: "um_get v_map \<subseteq>\<^sub>m um_get ?m" using None by (auto simp: m map_le_def dom_def)
    have "\<exists>s t e. um_get ?m (r_source_graph r) = Some s \<and> um_get ?m (r_dest_graph r) = Some t \<and>
        (s, e) \<in> set (arcs ?rg) \<and> (e, t) \<in> set (arcs ?rg)" if r: "r \<in> set routes" for r
    proof -
      obtain s t e where "um_get v_map (r_source_graph r) = Some s" "um_get v_map (r_dest_graph r) = Some t"
        "(s, e) \<in> set (arcs rg)" "(e, t) \<in> set (arcs rg)" using rgraph_okD(3) [OF assms [unfolded a] r] by blast
      then show ?thesis using le unfolding arcs map_le_def by (metis domI)
    qed
    then have "rgraph_ok routes (?rg, ?m)" by (rule rgraph_okI [OF bok new])
    then show ?thesis using le by (simp add: g) (simp add: a m)
  qed
qed

lemma route_vertex_ok:
  assumes ok: "rgraph_ok routes a" and step: "route_vertex r a = Inr a'"
  shows "rgraph_ok (routes @ [r]) a' \<and> um_get (snd a) \<subseteq>\<^sub>m um_get (snd a')"
proof -
  define b where "b = graph_vertex (r_dest_graph r) (graph_vertex (r_source_graph r) a)"
  have b1: "rgraph_ok routes (graph_vertex (r_source_graph r) a)" "um_get (snd (graph_vertex (r_source_graph r) a)) (r_source_graph r) \<noteq> None"
    and le1: "um_get (snd a) \<subseteq>\<^sub>m um_get (snd (graph_vertex (r_source_graph r) a))"
    using graph_vertex_ok [OF ok] by blast+
  have b: "rgraph_ok routes b" and le2: "um_get (snd (graph_vertex (r_source_graph r) a)) \<subseteq>\<^sub>m um_get (snd b)"
    unfolding b_def using graph_vertex_ok [OF b1(1)] by blast+
  obtain rg v_map where rg: "b = (rg, v_map)" by (cases b)
  obtain s t where st: "um_get v_map (r_source_graph r) = Some s" "um_get v_map (r_dest_graph r) = Some t"
    and a': "a' = (add_edge (length (verts rg)) t () (add_edge s (length (verts rg)) ()
        (rg\<lparr>verts := verts rg @ [\<lparr>rv_name = v_name (r_value r), rv_type = RV_ROUTE, rv_route = Some r\<rparr>]\<rparr>)), v_map)"
    using step unfolding route_vertex_def b_def [symmetric] rg
    by (auto simp: add_vertex_def rbind_eq_Inr um_at_Inr)
  let ?rg = "fst a'"
  have verts: "verts ?rg = verts rg @ [\<lparr>rv_name = v_name (r_value r), rv_type = RV_ROUTE, rv_route = Some r\<rparr>]"
    by (simp add: a' add_edge_def)
  have arcs: "set (arcs ?rg) = {(s, length (verts rg)), (length (verts rg), t)} \<union> set (arcs rg)"
    by (auto simp: a' arcs_def add_edge_def)
  have at: "um_get v_map g = Some v \<longleftrightarrow> v < length (verts rg) \<and> rv_type (verts rg ! v) = RV_GRAPH \<and> rv_name (verts rg ! v) = g" for g v
    by (rule rgraph_okD(2) [OF b [unfolded rg]])
  have new: "um_get v_map g = Some v \<longleftrightarrow> v < length (verts ?rg) \<and> rv_type (verts ?rg ! v) = RV_GRAPH \<and> rv_name (verts ?rg ! v) = g" for g v
    using at [of g v] by (auto simp: verts nth_append less_Suc_eq)
  have bok: "bgraph_ok ?rg"
  proof -
    have "bgraph_ok rg" by (rule rgraph_okD(1) [OF b [unfolded rg]])
    moreover have "s < length (verts rg)" "t < length (verts rg)" using at st by blast+
    ultimately show ?thesis unfolding bgraph_ok_def arcs verts by auto
  qed
  have "\<exists>s t e. um_get v_map (r_source_graph q) = Some s \<and> um_get v_map (r_dest_graph q) = Some t \<and>
      (s, e) \<in> set (arcs ?rg) \<and> (e, t) \<in> set (arcs ?rg)" if "q \<in> set (routes @ [r])" for q
  proof (cases "q = r")
    case True
    then show ?thesis using st unfolding arcs by blast
  next
    case False
    then have "q \<in> set routes" using that by simp
    from rgraph_okD(3) [OF b [unfolded rg] this]
    obtain s t e where "um_get v_map (r_source_graph q) = Some s" "um_get v_map (r_dest_graph q) = Some t"
      "(s, e) \<in> set (arcs rg)" "(e, t) \<in> set (arcs rg)" by blast
    then show ?thesis unfolding arcs by blast
  qed
  then have "rgraph_ok (routes @ [r]) (?rg, v_map)" by (rule rgraph_okI [OF bok new])
  then have "rgraph_ok (routes @ [r]) a'" by (simp add: a')
  moreover have "snd a' = snd b" by (simp add: a' rg)
  moreover have "um_get (snd a) \<subseteq>\<^sub>m um_get (snd b)" using le1 le2 by (rule map_le_trans)
  ultimately show ?thesis by simp
qed

lemma toRGraph_ok:
  assumes "toRGraph subgraphs routes = Inr rg"
  shows "\<exists>v_map. rgraph_ok routes (rg, v_map) \<and> fst ` set subgraphs \<subseteq> dom (um_get v_map)"
proof -
  let ?init = "\<lambda>sgs. foldl (\<lambda>a (gid, _). graph_vertex gid a) (empty_bgraph, []) sgs"
  have init: "rgraph_ok [] (?init sgs) \<and> fst ` set sgs \<subseteq> dom (um_get (snd (?init sgs)))" for sgs :: "(string, IRGraph) umap"
  proof (induction sgs rule: rev_induct)
    case Nil
    then show ?case by (simp add: rgraph_ok_def empty_bgraph_def bgraph_ok_def arcs_def)
  next
    case (snoc kg sgs)
    define a where "a = ?init sgs"
    have a: "rgraph_ok [] a" "fst ` set sgs \<subseteq> dom (um_get (snd a))" using snoc.IH by (simp_all only: a_def)
    have "dom (um_get (snd a)) \<subseteq> dom (um_get (snd (graph_vertex (fst kg) a)))"
      using graph_vertex_ok [OF a(1)] map_le_implies_dom_le by blast
    moreover have "?init (sgs @ [kg]) = graph_vertex (fst kg) a" by (simp add: a_def case_prod_unfold)
    moreover have "fst kg \<in> dom (um_get (snd (graph_vertex (fst kg) a)))" using graph_vertex_ok [OF a(1), of "fst kg"] by blast
    ultimately show ?case using graph_vertex_ok [OF a(1), of "fst kg"] a(2) by auto
  qed
  have fold: "rgraph_ok (done1 @ rs) (rg', m') \<and> dom (um_get (snd a)) \<subseteq> dom (um_get m')"
    if "rfold route_vertex rs a = Inr (rg', m')" "rgraph_ok done1 a" for rs done1 a rg' m'
    using that
  proof (induction rs arbitrary: done1 a)
    case (Cons r rs)
    obtain a1 where a1: "route_vertex r a = Inr a1" "rfold route_vertex rs a1 = Inr (rg', m')"
      using Cons.prems(1) by (auto simp: rbind_eq_Inr)
    have ok: "rgraph_ok (done1 @ [r]) a1" "um_get (snd a) \<subseteq>\<^sub>m um_get (snd a1)" using route_vertex_ok [OF Cons.prems(2) a1(1)] by simp_all
    from Cons.IH [OF a1(2) ok(1)] map_le_implies_dom_le [OF ok(2)] show ?case by auto
  qed simp
  obtain v_map where "rfold route_vertex routes (?init subgraphs) = Inr (rg, v_map)"
    using assms by (auto simp: toRGraph_def rbind_eq_Inr)
  from fold [OF this conjunct1 [OF init]]
  have "rgraph_ok routes (rg, v_map)" and le: "dom (um_get (snd (?init subgraphs))) \<subseteq> dom (um_get v_map)" by simp_all
  moreover have "fst ` set subgraphs \<subseteq> dom (um_get v_map)" by (rule subset_trans [OF conjunct2 [OF init] le])
  ultimately show ?thesis by blast
qed

text \<open>One name stands before another.\<close>

definition listed_before :: "string list \<Rightarrow> string \<Rightarrow> string \<Rightarrow> bool" where
  "listed_before order a b \<longleftrightarrow> (\<exists>i j. i < j \<and> j < length order \<and> order ! i = a \<and> order ! j = b)"

lemma sortGraphs_order:
  assumes law: "topo_law topo" and run: "sortGraphs topo subgraphs routes = Inr order"
  shows "distinct order \<and> fst ` set subgraphs \<subseteq> set order \<and>
    (\<forall>r \<in> set routes. listed_before order (r_source_graph r) (r_dest_graph r))"
proof -
  obtain rg vs where rg: "toRGraph subgraphs routes = Inr rg" and vs: "all_nodes_topo topo rg = Inr vs"
    and order: "order = map rv_name (filter (\<lambda>v. rv_type v = RV_GRAPH) (map (\<lambda>v. verts rg ! v) vs))"
    using run by (auto simp: sortGraphs_def rbind_eq_Inr)
  obtain v_map where ok: "rgraph_ok routes (rg, v_map)" and dom: "fst ` set subgraphs \<subseteq> dom (um_get v_map)" using toRGraph_ok [OF rg] by blast
  have bok: "bgraph_ok rg" by (rule rgraph_okD(1) [OF ok])
  have at: "um_get v_map g = Some v \<longleftrightarrow> v < length (verts rg) \<and> rv_type (verts rg ! v) = RV_GRAPH \<and> rv_name (verts rg ! v) = g" for g v
    by (rule rgraph_okD(2) [OF ok])
  have topo: "distinct vs" "set vs = {..<length (verts rg)}"
    "\<And>i j. i < length vs \<Longrightarrow> j < length vs \<Longrightarrow> (vs ! i, vs ! j) \<in> set (arcs rg) \<Longrightarrow> i < j"
    using topological_order [OF law bok vs] by blast+
  define ws where "ws = filter (\<lambda>v. rv_type (verts rg ! v) = RV_GRAPH) vs"
  have names: "order = map (\<lambda>v. rv_name (verts rg ! v)) ws" by (simp add: order ws_def filter_map comp_def)
  have ws: "set ws = {v. um_get v_map (rv_name (verts rg ! v)) = Some v}" by (auto simp: ws_def topo(2) at)
  have "inj_on (\<lambda>v. rv_name (verts rg ! v)) (set ws)" 
  proof (rule inj_onI)
    fix x y assume "x \<in> set ws" "y \<in> set ws" "rv_name (verts rg ! x) = rv_name (verts rg ! y)"
    then have "um_get v_map (rv_name (verts rg ! y)) = Some x" "um_get v_map (rv_name (verts rg ! y)) = Some y"
      unfolding ws mem_Collect_eq by (simp_all only:)
    then show "x = y" by (simp only: option.inject)
  qed
  then have d: "distinct order" using topo(1) by (simp add: names distinct_map ws_def)
  have mem: "g \<in> set order" if "um_get v_map g = Some v" for g v
  proof -
    have "rv_name (verts rg ! v) = g" using that at [of g v] by blast
    moreover from this have "v \<in> set ws" unfolding ws mem_Collect_eq using that by (simp only:)
    ultimately show ?thesis unfolding names set_map by blast
  qed
  have "listed_before order (r_source_graph r) (r_dest_graph r)" if r: "r \<in> set routes" for r
  proof -
    obtain s t e where st: "um_get v_map (r_source_graph r) = Some s" "um_get v_map (r_dest_graph r) = Some t"
      "(s, e) \<in> set (arcs rg)" "(e, t) \<in> set (arcs rg)" using rgraph_okD(3) [OF ok r] by blast
    have "s \<in> set vs" "e \<in> set vs" "t \<in> set vs" using bok st(3,4) by (auto simp: topo(2) bgraph_ok_def)
    then obtain i j k where ijk: "i < length vs" "vs ! i = s" "j < length vs" "vs ! j = e" "k < length vs" "vs ! k = t"
      unfolding in_set_conv_nth by (elim exE conjE) (rule that)
    have "i < j" "j < k" using topo(3) [OF ijk(1,3)] topo(3) [OF ijk(3,5)] st(3,4) unfolding ijk(2,4,6) by simp_all
    then have "i < k" by simp
    have sg: "rv_type (verts rg ! s) = RV_GRAPH" "rv_name (verts rg ! s) = r_source_graph r"
      "rv_type (verts rg ! t) = RV_GRAPH" "rv_name (verts rg ! t) = r_dest_graph r"
      using st(1)[unfolded at] st(2)[unfolded at] by simp_all
    have split: "vs = take k vs @ t # drop (Suc k) vs" "s \<in> set (take k vs)"
    proof -
      show "vs = take k vs @ t # drop (Suc k) vs" using id_take_nth_drop [OF ijk(5)] ijk(6) by simp
      have "take k vs ! i \<in> set (take k vs)" using ijk(1) \<open>i < k\<close> by (intro nth_mem) simp
      then show "s \<in> set (take k vs)" using ijk(2) \<open>i < k\<close> by simp
    qed
    let ?P = "\<lambda>v. rv_type (verts rg ! v) = RV_GRAPH"
    have ws2: "ws = filter ?P (take k vs) @ t # filter ?P (drop (Suc k) vs)"
      unfolding ws_def by (subst split(1)) (simp add: sg(3))
    have "s \<in> set (filter ?P (take k vs))" using split(2) sg(1) by simp
    then obtain n where n: "n < length (filter ?P (take k vs))" "filter ?P (take k vs) ! n = s" by (metis in_set_conv_nth)
    show ?thesis unfolding listed_before_def
    proof (rule exI [of _ n], rule exI [of _ "length (filter ?P (take k vs))"], intro conjI)
      show "order ! n = r_source_graph r" "order ! length (filter ?P (take k vs)) = r_dest_graph r"
        using n sg(2,4) by (simp_all add: names ws2 nth_append)
    qed (use n in \<open>simp_all add: names ws2\<close>)
  qed
  with d dom mem show ?thesis by blast
qed

end
