(* ===== verification/ML_Decompose_Correct.thy ===== *)
theory ML_Decompose_Correct
  imports ML_Decompose Deployment_Correct
begin

text \<open>
  Correctness of the last steps of the partitioning: the connections that \<open>createPartition\<close> makes between
  the stages feed every stage, and the deployment built from them passes \<open>verifyDeployment\<close>.
\<close>

section \<open>Stages that fit together\<close>

definition reads :: "IRGraph \<Rightarrow> string \<Rightarrow> bool" where
  "reads sg x \<longleftrightarrow> x \<in> set (g_inputs sg) \<and> (\<exists>v. um_get (gvalues sg) x = Some v \<and> \<not> is_param v)"

definition writes :: "IRGraph \<Rightarrow> string \<Rightarrow> bool" where
  "writes sg x \<longleftrightarrow> x \<in> set (g_outputs sg)"

text \<open>A value that a route can carry: it is not a parameter, its route type and its role in the backward pass are known.\<close>

definition routable :: "IRValue \<Rightarrow> bool" where
  "routable v \<longleftrightarrow> \<not> is_param v \<and> (is_batch v \<or> is_loss v) \<and> (\<exists>b. passedForBackward (v_type v) = Inr b)"

definition stages_fit :: "IRGraph \<Rightarrow> IRGraph list \<Rightarrow> bool" where
  "stages_fit ir gs \<longleftrightarrow> gs \<noteq> [] \<and>
     distinct (map g_name gs) \<and> MASTER_NAME \<notin> g_name ` set gs \<and> set (g_inputs ir) \<subseteq> fst ` set (gvalues ir) \<and>
     (\<forall>sg \<in> set gs. (\<forall>x v. um_get (gvalues sg) x = Some v \<longrightarrow> um_get (gvalues ir) x = Some v \<and> v_name v = x) \<and>
        set (g_inputs sg) \<union> set (g_outputs sg) \<subseteq> fst ` set (gvalues sg) \<and>
        (\<forall>x. reads sg x \<or> writes sg x \<longrightarrow> (\<exists>v. um_get (gvalues ir) x = Some v \<and> routable v))) \<and>
     (\<forall>i < length gs. \<forall>x. reads (gs ! i) x \<longrightarrow> x \<in> set (g_inputs ir) \<or> (\<exists>j < i. writes (gs ! j) x)) \<and>
     (\<forall>i < length gs. \<forall>j < length gs. \<forall>x. writes (gs ! i) x \<and> writes (gs ! j) x \<longrightarrow> i = j) \<and>
     (\<forall>i < length gs. \<forall>x. writes (gs ! i) x \<longrightarrow> x \<notin> set (g_inputs ir) \<and>
        (x \<in> set (g_outputs ir) \<or> (\<exists>k < length gs. k \<noteq> i \<and> x \<in> set (g_inputs (gs ! k))))) \<and>
     (\<forall>x \<in> set (g_outputs ir). \<exists>i < length gs. writes (gs ! i) x)"

lemma stages_fitD:
  assumes "stages_fit ir gs"
  shows fit_names: "gs \<noteq> []" "distinct (map g_name gs)" "MASTER_NAME \<notin> g_name ` set gs" "set (g_inputs ir) \<subseteq> fst ` set (gvalues ir)"
    and fit_value: "sg \<in> set gs \<Longrightarrow> um_get (gvalues sg) x = Some v \<Longrightarrow> um_get (gvalues ir) x = Some v \<and> v_name v = x"
    and fit_keys: "sg \<in> set gs \<Longrightarrow> set (g_inputs sg) \<union> set (g_outputs sg) \<subseteq> fst ` set (gvalues sg)"
    and fit_routable: "sg \<in> set gs \<Longrightarrow> reads sg x \<or> writes sg x \<Longrightarrow> \<exists>v. um_get (gvalues ir) x = Some v \<and> routable v"
    and fit_fed: "i < length gs \<Longrightarrow> reads (gs ! i) x \<Longrightarrow> x \<in> set (g_inputs ir) \<or> (\<exists>j < i. writes (gs ! j) x)"
    and fit_once: "i < length gs \<Longrightarrow> j < length gs \<Longrightarrow> writes (gs ! i) x \<Longrightarrow> writes (gs ! j) x \<Longrightarrow> i = j"
    and fit_used: "i < length gs \<Longrightarrow> writes (gs ! i) x \<Longrightarrow> x \<notin> set (g_inputs ir) \<and>
        (x \<in> set (g_outputs ir) \<or> (\<exists>k < length gs. k \<noteq> i \<and> x \<in> set (g_inputs (gs ! k))))"
    and fit_final: "x \<in> set (g_outputs ir) \<Longrightarrow> \<exists>i < length gs. writes (gs ! i) x"
proof -
  note a = assms [unfolded stages_fit_def]
  note sg = a [THEN conjunct2, THEN conjunct2, THEN conjunct2, THEN conjunct2, THEN conjunct1, THEN bspec]
  note more = a [THEN conjunct2, THEN conjunct2, THEN conjunct2, THEN conjunct2, THEN conjunct2]
  show "gs \<noteq> []" "distinct (map g_name gs)" "MASTER_NAME \<notin> g_name ` set gs" "set (g_inputs ir) \<subseteq> fst ` set (gvalues ir)"
    by (rule a [THEN conjunct1], rule a [THEN conjunct2, THEN conjunct1], rule a [THEN conjunct2, THEN conjunct2, THEN conjunct1],
      rule a [THEN conjunct2, THEN conjunct2, THEN conjunct2, THEN conjunct1])
  show "sg \<in> set gs \<Longrightarrow> um_get (gvalues sg) x = Some v \<Longrightarrow> um_get (gvalues ir) x = Some v \<and> v_name v = x" for sg x v
    by (drule sg) blast
  show "sg \<in> set gs \<Longrightarrow> set (g_inputs sg) \<union> set (g_outputs sg) \<subseteq> fst ` set (gvalues sg)" for sg by (drule sg) blast
  show "sg \<in> set gs \<Longrightarrow> reads sg x \<or> writes sg x \<Longrightarrow> \<exists>v. um_get (gvalues ir) x = Some v \<and> routable v" for sg x
    by (drule sg) blast
  show "i < length gs \<Longrightarrow> reads (gs ! i) x \<Longrightarrow> x \<in> set (g_inputs ir) \<or> (\<exists>j < i. writes (gs ! j) x)" for i x
    using more [THEN conjunct1] by blast
  show "i < length gs \<Longrightarrow> j < length gs \<Longrightarrow> writes (gs ! i) x \<Longrightarrow> writes (gs ! j) x \<Longrightarrow> i = j" for i j x
    using more [THEN conjunct2, THEN conjunct1] by blast
  show "i < length gs \<Longrightarrow> writes (gs ! i) x \<Longrightarrow> x \<notin> set (g_inputs ir) \<and>
        (x \<in> set (g_outputs ir) \<or> (\<exists>k < length gs. k \<noteq> i \<and> x \<in> set (g_inputs (gs ! k))))" for i x
    using more [THEN conjunct2, THEN conjunct2, THEN conjunct1, THEN spec, of i] by blast
  show "x \<in> set (g_outputs ir) \<Longrightarrow> \<exists>i < length gs. writes (gs ! i) x" for x
    by (rule more [THEN conjunct2, THEN conjunct2, THEN conjunct2, THEN bspec])
qed

lemma one_writer:
  assumes "stages_fit ir gs" "sg \<in> set gs" "sg' \<in> set gs" "writes sg x" "writes sg' x"
  shows "sg = sg'"
proof -
  obtain i j where "i < length gs" "gs ! i = sg" "j < length gs" "gs ! j = sg'" using assms(2,3) by (metis in_set_conv_nth)
  then show ?thesis using fit_once [OF assms(1), of i j x] assms(4,5) by simp
qed

lemma reader_after_writer:
  assumes "stages_fit ir gs" "i < length gs" "j < length gs" "reads (gs ! i) x" "writes (gs ! j) x"
  shows "j < i"
proof -
  have "x \<notin> set (g_inputs ir)" using fit_used [OF assms(1,3,5)] by simp
  then obtain k where k: "k < i" "writes (gs ! k) x" using fit_fed [OF assms(1,2,4)] by blast
  then have "k = j" using fit_once [OF assms(1) _ assms(3) _ assms(5), of k] assms(2) by simp
  with k(1) show ?thesis by simp
qed

lemma fit_getValue:
  assumes "stages_fit ir gs" "sg \<in> set gs" "x \<in> set (g_inputs sg) \<union> set (g_outputs sg)"
  obtains v where "getValue sg x = Inr v" "um_get (gvalues sg) x = Some v" "um_get (gvalues ir) x = Some v" "v_name v = x"
proof -
  have "x \<in> fst ` set (gvalues sg)" using fit_keys [OF assms(1,2)] assms(3) by (rule subsetD)
  from um_get_key [OF this] obtain v where v: "um_get (gvalues sg) x = Some v" by (elim exE)
  moreover have "getValue sg x = Inr v" using v by (simp add: getValue_def um_contains_def um_at_def)
  ultimately show ?thesis using that fit_value [OF assms(1,2) v] by simp
qed

lemma reads_value: "reads sg x \<longleftrightarrow> x \<in> set (g_inputs sg) \<and> (\<exists>v. getValue sg x = Inr v \<and> \<not> is_param v)"
  by (auto simp: reads_def getValue_def um_contains_def um_at_def split: option.splits)

section \<open>The tables\<close>

definition tables :: "IRGraph list \<Rightarrow> part_tables \<Rightarrow> bool" where
  "tables gs t \<longleftrightarrow> (\<forall>x. um_ref {} (in_vals t) x = g_name ` {sg \<in> set gs. reads sg x}) \<and>
     (\<forall>x s. um_get (out_vals t) x = Some s \<longleftrightarrow> (\<exists>sg \<in> set gs. g_name sg = s \<and> writes sg x)) \<and>
     sg_map t = map (\<lambda>sg. (g_name sg, sg)) gs \<and> sg_order t = map g_name gs"

lemma note_inputs:
  assumes "stages_fit ir gs" "sg \<in> set gs"
  shows "\<exists>iv'. rfold (note_input sg) (g_inputs sg) iv = Inr iv' \<and>
    (\<forall>x. um_ref {} iv' x = um_ref {} iv x \<union> (if reads sg x then {g_name sg} else {}))"
proof -
  have "\<exists>iv'. rfold (note_input sg) (g_inputs sg) iv = Inr iv' \<and>
    (\<forall>x. um_ref {} iv' x = um_ref {} iv x \<union> (if x \<in> set (g_inputs sg) \<and> reads sg x then {g_name sg} else {}))"
  proof (rule rfold_prefix [where P = "\<lambda>pre iv'. \<forall>x. um_ref {} iv' x = um_ref {} iv x \<union> (if x \<in> set pre \<and> reads sg x then {g_name sg} else {})"])
    fix pre y post iv'
    assume split: "g_inputs sg = pre @ y # post"
      and inv: "\<forall>x. um_ref {} iv' x = um_ref {} iv x \<union> (if x \<in> set pre \<and> reads sg x then {g_name sg} else {})"
    have y: "y \<in> set (g_inputs sg)" by (simp add: split)
    then obtain v where v: "getValue sg y = Inr v" using fit_getValue [OF assms, of y] by blast
    have r: "reads sg y \<longleftrightarrow> \<not> is_param v" using y by (auto simp: reads_value v simp del: getValue_Inr)
    show "\<exists>iv''. note_input sg y iv' = Inr iv'' \<and>
        (\<forall>x. um_ref {} iv'' x = um_ref {} iv x \<union> (if x \<in> set (pre @ [y]) \<and> reads sg x then {g_name sg} else {}))"
    proof (cases "is_param v")
      case True
      then show ?thesis using r inv by (auto simp: note_input_def v)
    next
      case False
      then have n: "note_input sg y iv' = Inr (um_set y (insert (g_name sg) (um_ref {} iv' y)) iv')" by (simp add: note_input_def v)
      have "um_ref {} (um_set y (insert (g_name sg) (um_ref {} iv' y)) iv') x = (if x = y then insert (g_name sg) (um_ref {} iv' y) else um_ref {} iv' x)" for x
        by (simp add: um_ref_def um_get_set)
      then show ?thesis using n False r inv by auto
    qed
  qed simp
  then show ?thesis by (auto simp: reads_def)
qed

lemma note_outputs:
  assumes "\<forall>x \<in> set outs. x \<notin> set (g_inputs ir)"
  shows "um_get (foldl (\<lambda>ov out. note_output ir sg out ov) ov outs) x = (if x \<in> set outs then Some (g_name sg) else um_get ov x)"
  using assms by (induction outs arbitrary: ov) (auto simp: note_output_def um_get_set)

lemma tables_made:
  assumes fit: "stages_fit ir gs"
  shows "\<exists>t. rfold (note_graph ir) gs \<lparr>in_vals = [], out_vals = [], sg_map = [], sg_order = []\<rparr> = Inr t \<and> tables gs t"
proof (rule rfold_prefix [where P = tables])
  show "tables [] \<lparr>in_vals = [], out_vals = [], sg_map = [], sg_order = []\<rparr>" by (simp add: tables_def um_ref_def)
next
  fix pre sg post t
  assume split: "gs = pre @ sg # post" and t: "tables pre t"
  have sg: "sg \<in> set gs" by (simp add: split)
  obtain iv where iv: "rfold (note_input sg) (g_inputs sg) (in_vals t) = Inr iv"
    "\<forall>x. um_ref {} iv x = um_ref {} (in_vals t) x \<union> (if reads sg x then {g_name sg} else {})"
    using note_inputs [OF fit sg] by blast
  let ?ov = "foldl (\<lambda>ov out. note_output ir sg out ov) (out_vals t) (g_outputs sg)"
  have outs: "\<forall>x \<in> set (g_outputs sg). x \<notin> set (g_inputs ir)"
  proof
    fix x assume "x \<in> set (g_outputs sg)"
    moreover obtain i where "i < length gs" "gs ! i = sg" using sg by (metis in_set_conv_nth)
    ultimately show "x \<notin> set (g_inputs ir)" using fit_used [OF fit, of i x] by (simp add: writes_def)
  qed
  have "um_get ?ov x = Some s \<longleftrightarrow> (\<exists>h \<in> set (pre @ [sg]). g_name h = s \<and> writes h x)" for x s
  proof (cases "writes sg x")
    case True
    then have "um_get ?ov x = Some (g_name sg)" using note_outputs [OF outs] by (simp add: writes_def)
    moreover have "h = sg" if "h \<in> set pre" "writes h x" for h
      using one_writer [OF fit _ sg that(2) True] that(1) by (simp add: split)
    ultimately show ?thesis using True by auto
  next
    case False
    then have "um_get ?ov x = um_get (out_vals t) x" using note_outputs [OF outs] by (simp add: writes_def)
    then show ?thesis using False t by (auto simp: tables_def)
  qed
  moreover have "um_ref {} iv x = g_name ` {h \<in> set (pre @ [sg]). reads h x}" for x
    using iv(2) t by (auto simp: tables_def)
  moreover have "um_set (g_name sg) sg (sg_map t) = map (\<lambda>sg. (g_name sg, sg)) (pre @ [sg])"
  proof -
    have "g_name sg \<notin> fst ` set (sg_map t)" using fit_names(2) [OF fit] t by (auto simp: tables_def split image_image)
    then show ?thesis using t by (simp add: um_set_fresh tables_def)
  qed
  ultimately show "\<exists>t'. note_graph ir sg t = Inr t' \<and> tables (pre @ [sg]) t'"
    using iv(1) t by (auto simp: note_graph_def tables_def)
qed

section \<open>The connections\<close>

definition sound_con :: "IRGraph \<Rightarrow> IRGraph list \<Rightarrow> GraphConnection \<Rightarrow> bool" where
  "sound_con ir gs c \<longleftrightarrow> (\<exists>x.
     (\<exists>s \<in> set gs. \<exists>d \<in> set gs. c = mk_con x (g_name s) (g_name d) \<and> writes s x \<and> reads d x) \<or>
     (\<exists>d \<in> set gs. c = mk_con x MASTER_NAME (g_name d) \<and> x \<in> set (g_inputs ir) \<and> reads d x) \<or>
     (\<exists>s \<in> set gs. c = mk_con x (g_name s) MASTER_NAME \<and> writes s x \<and> x \<in> set (g_outputs ir)))"

definition has_con :: "GraphConnection list \<Rightarrow> string \<Rightarrow> string \<Rightarrow> bool" where
  "has_con cons x dst \<longleftrightarrow> (\<exists>c \<in> set cons. con_value c = x \<and> con_dest c = dst)"

definition con_inv :: "IRGraph \<Rightarrow> IRGraph list \<Rightarrow> con_state \<Rightarrow> bool" where
  "con_inv ir gs = (\<lambda>(cons, created). (\<forall>c \<in> set cons. sound_con ir gs c) \<and>
     (\<forall>x dst. x \<in> um_ref {} created dst \<longleftrightarrow> has_con cons x dst))"

lemma has_con_mono: "has_con cons x dst \<Longrightarrow> set cons \<subseteq> set cons' \<Longrightarrow> has_con cons' x dst"
  by (auto simp: has_con_def)

lemma add_con_inv:
  assumes "con_inv ir gs a" "sound_con ir gs (mk_con x src dst)"
  shows "con_inv ir gs (add_con x src dst a) \<and> set (fst a) \<subseteq> set (fst (add_con x src dst a)) \<and> has_con (fst (add_con x src dst a)) x dst"
  using assms by (cases a) (auto simp: con_inv_def add_con_def has_con_def mk_con_def um_ref_def um_get_set)

text \<open>Every stage that reads a value another stage writes gets a connection for it.\<close>

lemma inner_connections:
  assumes fit: "stages_fit ir gs" and t: "tables gs t"
  shows "\<exists>a. rfold (\<lambda>sg a. rfold (connect_input t sg) (g_inputs sg) a) gs ([], []) = Inr a \<and> con_inv ir gs a \<and>
    (\<forall>sg \<in> set gs. \<forall>x. reads sg x \<longrightarrow> (\<exists>s \<in> set gs. writes s x) \<longrightarrow> has_con (fst a) x (g_name sg))"
proof -
  let ?P = "\<lambda>pre a. con_inv ir gs a \<and> (\<forall>sg \<in> set pre. \<forall>x. reads sg x \<longrightarrow> (\<exists>s \<in> set gs. writes s x) \<longrightarrow> has_con (fst a) x (g_name sg))"
  have "\<exists>a. rfold (\<lambda>sg a. rfold (connect_input t sg) (g_inputs sg) a) gs ([], []) = Inr a \<and> ?P gs a"
  proof (rule rfold_prefix [where P = ?P])
    show "?P [] ([], [])" by (simp add: con_inv_def has_con_def um_ref_def)
  next
    fix pre sg post and a :: con_state
    assume split: "gs = pre @ sg # post" and a: "?P pre a"
    have sg: "sg \<in> set gs" by (simp add: split)
    let ?Q = "\<lambda>ipre b. con_inv ir gs b \<and> set (fst a) \<subseteq> set (fst b) \<and>
        (\<forall>x \<in> set ipre. reads sg x \<longrightarrow> (\<exists>s \<in> set gs. writes s x) \<longrightarrow> has_con (fst b) x (g_name sg))"
    have "\<exists>b. rfold (connect_input t sg) (g_inputs sg) a = Inr b \<and> ?Q (g_inputs sg) b"
    proof (rule rfold_prefix [where P = ?Q])
      show "?Q [] a" using a by simp
    next
      fix ipre x ipost and b :: con_state
      assume isplit: "g_inputs sg = ipre @ x # ipost" and b: "?Q ipre b"
      have x: "x \<in> set (g_inputs sg)" by (simp add: isplit)
      then obtain v where v: "getValue sg x = Inr v" using fit_getValue [OF fit sg, of x] by blast
      have r: "reads sg x \<longleftrightarrow> \<not> is_param v" using x by (auto simp: reads_value v simp del: getValue_Inr)
      show "\<exists>b'. connect_input t sg x b = Inr b' \<and> ?Q (ipre @ [x]) b'"
      proof (cases "reads sg x \<and> um_get (out_vals t) x \<noteq> None")
        case True
        then obtain s where s: "s \<in> set gs" "um_get (out_vals t) x = Some (g_name s)" "writes s x" "reads sg x" using t unfolding tables_def by blast
        obtain i j where ij: "i < length gs" "gs ! i = sg" "j < length gs" "gs ! j = s" using sg s(1) by (metis in_set_conv_nth)
        then have "j < i" using reader_after_writer [OF fit, of i j x] s by simp
        then have "g_name s \<noteq> g_name sg" using fit_names(2) [OF fit] ij by (auto simp: distinct_conv_nth)
        then have run: "connect_input t sg x b = Inr (add_con x (g_name s) (g_name sg) b)" using r s(2,4) by (simp add: connect_input_def v)
        have "sound_con ir gs (mk_con x (g_name s) (g_name sg))" using s sg unfolding sound_con_def by blast
        note add = add_con_inv [OF conjunct1 [OF b] this]
        have "has_con (fst (add_con x (g_name s) (g_name sg) b)) y (g_name sg)"
          if "y \<in> set (ipre @ [x])" "reads sg y" "\<exists>s \<in> set gs. writes s y" for y
          using that b add has_con_mono [of "fst b" y "g_name sg" "fst (add_con x (g_name s) (g_name sg) b)"] by auto
        then show ?thesis using run add b by blast
      next
        case False
        then have "connect_input t sg x b = Inr b" using r by (auto simp: connect_input_def v)
        moreover have "\<not> (\<exists>s \<in> set gs. writes s x)" if "reads sg x"
        proof
          assume "\<exists>s \<in> set gs. writes s x"
          then have "um_get (out_vals t) x \<noteq> None" using t unfolding tables_def by blast
          with False that show False by blast
        qed
        ultimately show ?thesis using b by auto
      qed
    qed
    then obtain b where b: "rfold (connect_input t sg) (g_inputs sg) a = Inr b" "?Q (g_inputs sg) b" by blast
    have "has_con (fst b) x (g_name h)" if "h \<in> set (pre @ [sg])" "reads h x" "\<exists>s \<in> set gs. writes s x" for h x
    proof (cases "h = sg")
      case True
      then show ?thesis using b(2) that by (auto simp: reads_def)
    next
      case False
      then have "has_con (fst a) x (g_name h)" using a that by simp
      then show ?thesis using b(2) by (blast intro: has_con_mono)
    qed
    with b show "\<exists>b. rfold (connect_input t sg) (g_inputs sg) a = Inr b \<and> ?P (pre @ [sg]) b" by blast
  qed
  then show ?thesis .
qed

lemma master_targets:
  assumes "con_inv ir gs a" "\<And>dst. dst \<in> set dsts \<Longrightarrow> sound_con ir gs (mk_con x MASTER_NAME dst)"
  defines "step \<equiv> \<lambda>(cons, created) tgt_id. if x \<notin> um_ref {} created tgt_id then add_con x MASTER_NAME tgt_id (cons, created) else (cons, created)"
  shows "con_inv ir gs (foldl step a dsts) \<and> set (fst a) \<subseteq> set (fst (foldl step a dsts)) \<and>
    (\<forall>dst \<in> set dsts. has_con (fst (foldl step a dsts)) x dst)"
  using assms(1,2)
proof (induction dsts arbitrary: a)
  case (Cons dst dsts)
  have one: "con_inv ir gs (step a dst) \<and> set (fst a) \<subseteq> set (fst (step a dst)) \<and> has_con (fst (step a dst)) x dst"
  proof (cases "x \<in> um_ref {} (snd a) dst")
    case True
    then have "has_con (fst a) x dst" using Cons.prems(1) by (cases a) (simp add: con_inv_def)
    then show ?thesis using True Cons.prems(1) by (cases a) (simp add: step_def)
  next
    case False
    then have "step a dst = add_con x MASTER_NAME dst a" by (cases a) (simp add: step_def)
    then show ?thesis using add_con_inv [OF Cons.prems(1) Cons.prems(2)] by simp
  qed
  have "con_inv ir gs (foldl step (step a dst) dsts) \<and> set (fst (step a dst)) \<subseteq> set (fst (foldl step (step a dst) dsts)) \<and>
      (\<forall>d \<in> set dsts. has_con (fst (foldl step (step a dst) dsts)) x d)"
    by (rule Cons.IH) (use one Cons.prems(2) in auto)
  with one show ?case by (auto intro: has_con_mono)
qed simp

lemma master_connections:
  assumes fit: "stages_fit ir gs" and t: "tables gs t" and a: "con_inv ir gs a" and ord: "\<And>S. finite S \<Longrightarrow> set (ord S) = S"
  shows "\<exists>b. rfold (connect_master_input ord ir t) (g_inputs ir) a = Inr b \<and> con_inv ir gs b \<and> set (fst a) \<subseteq> set (fst b) \<and>
    (\<forall>sg \<in> set gs. \<forall>x \<in> set (g_inputs ir). reads sg x \<longrightarrow> has_con (fst b) x (g_name sg))"
proof -
  let ?P = "\<lambda>pre b. con_inv ir gs b \<and> set (fst a) \<subseteq> set (fst b) \<and>
      (\<forall>sg \<in> set gs. \<forall>x \<in> set pre. reads sg x \<longrightarrow> has_con (fst b) x (g_name sg))"
  have "\<exists>b. rfold (connect_master_input ord ir t) (g_inputs ir) a = Inr b \<and> ?P (g_inputs ir) b"
  proof (rule rfold_prefix [where P = ?P])
    show "?P [] a" using a by simp
  next
    fix pre x post and b :: con_state
    assume split: "g_inputs ir = pre @ x # post" and b: "?P pre b"
    have x: "x \<in> set (g_inputs ir)" by (simp add: split)
    then have "x \<in> fst ` set (gvalues ir)" using fit_names(4) [OF fit] by blast
    from um_get_key [OF this] obtain v where v: "um_get (gvalues ir) x = Some v" by (elim exE)
    have gv: "getValue ir x = Inr v" using v by simp
    have reader: "\<not> is_param v" if sg: "sg \<in> set gs" "reads sg x" for sg
      using fit_routable [OF fit sg(1), of x] sg(2) v by (auto simp: routable_def)
    let ?S = "g_name ` {sg \<in> set gs. reads sg x}"
    have S: "um_ref {} (in_vals t) x = ?S" using t by (simp add: tables_def)
    show "\<exists>b'. connect_master_input ord ir t x b = Inr b' \<and> ?P (pre @ [x]) b'"
    proof (cases "is_param v \<or> um_get (in_vals t) x = None")
      case True
      then have run: "connect_master_input ord ir t x b = Inr b" by (auto simp: connect_master_input_def gv)
      have "\<not> reads sg x" if "sg \<in> set gs" for sg
      proof
        assume r: "reads sg x"
        then have "um_get (in_vals t) x = None" using True reader [OF that] by blast
        then have "?S = {}" using S by (simp add: um_ref_def)
        with that r show False by blast
      qed
      then show ?thesis using run b by auto
    next
      case False
      then have tg: "um_get (in_vals t) x = Some ?S" using S by (auto simp: um_ref_def)
      have ordS: "set (ord ?S) = ?S" by (rule ord) simp
      have snd: "sound_con ir gs (mk_con x MASTER_NAME dst)" if "dst \<in> set (ord ?S)" for dst
        using that x unfolding ordS sound_con_def by blast
      note m = master_targets [OF conjunct1 [OF b] snd]
      let ?b = "foldl (\<lambda>(cons, created) tgt_id. if x \<notin> um_ref {} created tgt_id then add_con x MASTER_NAME tgt_id (cons, created) else (cons, created)) b (ord ?S)"
      have "connect_master_input ord ir t x b = Inr ?b" using False tg by (simp add: connect_master_input_def gv)
      moreover have "has_con (fst ?b) y (g_name sg)" if "sg \<in> set gs" "y \<in> set (pre @ [x])" "reads sg y" for sg y
      proof (cases "y = x")
        case True
        then have "g_name sg \<in> set (ord ?S)" using that unfolding ordS by blast
        with m True show ?thesis by blast
      next
        case False
        then have "has_con (fst b) y (g_name sg)" using b that by simp
        then show ?thesis using m by (blast intro: has_con_mono)
      qed
      ultimately show ?thesis using m b by blast
    qed
  qed
  then show ?thesis .
qed

lemma output_connections:
  assumes fit: "stages_fit ir gs" and t: "tables gs t" and cons: "\<forall>c \<in> set cons. sound_con ir gs c"
  shows "\<exists>cons'. rfold (connect_output t) (g_outputs ir) cons = Inr cons' \<and> (\<forall>c \<in> set cons'. sound_con ir gs c) \<and> set cons \<subseteq> set cons' \<and>
    (\<forall>x \<in> set (g_outputs ir). \<forall>sg \<in> set gs. writes sg x \<longrightarrow> mk_con x (g_name sg) MASTER_NAME \<in> set cons')"
proof -
  let ?P = "\<lambda>pre cs. (\<forall>c \<in> set cs. sound_con ir gs c) \<and> set cons \<subseteq> set cs \<and>
      (\<forall>x \<in> set pre. \<forall>sg \<in> set gs. writes sg x \<longrightarrow> mk_con x (g_name sg) MASTER_NAME \<in> set cs)"
  have "\<exists>cons'. rfold (connect_output t) (g_outputs ir) cons = Inr cons' \<and> ?P (g_outputs ir) cons'"
  proof (rule rfold_prefix [where P = ?P])
    show "?P [] cons" using cons by simp
  next
    fix pre x post cs
    assume split: "g_outputs ir = pre @ x # post" and cs: "?P pre cs"
    have x: "x \<in> set (g_outputs ir)" by (simp add: split)
    then obtain sg where sg: "sg \<in> set gs" "writes sg x" using fit_final [OF fit] nth_mem by blast
    then have out: "um_get (out_vals t) x = Some (g_name sg)" using t unfolding tables_def by blast
    have run: "connect_output t x cs = Inr (cs @ [mk_con x (g_name sg) MASTER_NAME])"
      using out by (simp add: connect_output_def um_contains_def um_at_def)
    have "sound_con ir gs (mk_con x (g_name sg) MASTER_NAME)" using sg x unfolding sound_con_def by blast
    moreover have "h = sg" if "h \<in> set gs" "writes h x" for h using one_writer [OF fit that(1) sg(1) that(2) sg(2)] .
    ultimately show "\<exists>cs'. connect_output t x cs = Inr cs' \<and> ?P (pre @ [x]) cs'" using run cs by auto
  qed
  then show ?thesis .
qed

section \<open>The partition\<close>

definition feeds :: "IRGraph list \<Rightarrow> GraphConnection list \<Rightarrow> bool" where
  "feeds gs cons \<longleftrightarrow> (\<forall>sg \<in> set gs. \<forall>x. (reads sg x \<longrightarrow> (\<exists>c \<in> set cons. con_value c = x \<and> con_dest c = g_name sg)) \<and>
     (writes sg x \<longrightarrow> (\<exists>c \<in> set cons. con_value c = x \<and> con_src c = g_name sg)))"

lemma createPartition_result:
  assumes fit: "stages_fit ir gs" and ord: "\<And>S. finite S \<Longrightarrow> set (ord S) = S"
  shows "\<exists>cons. createPartition_ml ord ir gs = Inr \<lparr>p_id = g_name ir, p_graph = ir, p_subgraphs = map (\<lambda>sg. (g_name sg, sg)) gs,
      p_connections = cons, p_order = map g_name gs\<rparr> \<and> (\<forall>c \<in> set cons. sound_con ir gs c) \<and> feeds gs cons"
proof -
  obtain t where t: "rfold (note_graph ir) gs \<lparr>in_vals = [], out_vals = [], sg_map = [], sg_order = []\<rparr> = Inr t" "tables gs t"
    using tables_made [OF fit] by blast
  obtain a where a: "rfold (\<lambda>sg a. rfold (connect_input t sg) (g_inputs sg) a) gs ([], []) = Inr a" "con_inv ir gs a"
    "\<forall>sg \<in> set gs. \<forall>x. reads sg x \<longrightarrow> (\<exists>s \<in> set gs. writes s x) \<longrightarrow> has_con (fst a) x (g_name sg)"
    using inner_connections [OF fit t(2)] by blast
  obtain b where b: "rfold (connect_master_input ord ir t) (g_inputs ir) a = Inr b" "con_inv ir gs b" "set (fst a) \<subseteq> set (fst b)"
    "\<forall>sg \<in> set gs. \<forall>x \<in> set (g_inputs ir). reads sg x \<longrightarrow> has_con (fst b) x (g_name sg)"
    using master_connections [OF fit t(2) a(2) ord] by blast
  have sound: "\<forall>c \<in> set (fst b). sound_con ir gs c" using b(2) by (cases b) (simp add: con_inv_def)
  obtain cons where cons: "rfold (connect_output t) (g_outputs ir) (fst b) = Inr cons" "\<forall>c \<in> set cons. sound_con ir gs c" "set (fst b) \<subseteq> set cons"
    "\<forall>x \<in> set (g_outputs ir). \<forall>sg \<in> set gs. writes sg x \<longrightarrow> mk_con x (g_name sg) MASTER_NAME \<in> set cons"
    using output_connections [OF fit t(2) sound] by blast
  have run: "createPartition_ml ord ir gs = Inr \<lparr>p_id = g_name ir, p_graph = ir, p_subgraphs = map (\<lambda>sg. (g_name sg, sg)) gs,
      p_connections = cons, p_order = map g_name gs\<rparr>"
    using t b(1) cons(1) by (cases b) (simp add: createPartition_ml_def a(1) tables_def)
  have in_con: "has_con cons x (g_name sg)" if sg: "sg \<in> set gs" "reads sg x" for sg x
  proof (cases "x \<in> set (g_inputs ir)")
    case True
    then have "has_con (fst b) x (g_name sg)" using b(4) sg by blast
    then show ?thesis using cons(3) by (rule has_con_mono)
  next
    case False
    obtain i where i: "i < length gs" "gs ! i = sg" using sg(1) by (metis in_set_conv_nth)
    then obtain j where j: "j < i" "writes (gs ! j) x" using fit_fed [OF fit i(1), of x] sg(2) False by blast
    then have "\<exists>s \<in> set gs. writes s x" using i(1) by (intro bexI [of _ "gs ! j"]) auto
    then have "has_con (fst a) x (g_name sg)" using a(3) sg by blast
    then show ?thesis using b(3) cons(3) by (blast intro: has_con_mono)
  qed
  have out_con: "\<exists>c \<in> set cons. con_value c = x \<and> con_src c = g_name sg" if sg: "sg \<in> set gs" "writes sg x" for sg x
  proof (cases "x \<in> set (g_outputs ir)")
    case True
    then have "mk_con x (g_name sg) MASTER_NAME \<in> set cons" using cons(4) sg by blast
    then show ?thesis by (intro bexI) (simp_all add: mk_con_def)
  next
    case False
    obtain i where i: "i < length gs" "gs ! i = sg" using sg(1) by (metis in_set_conv_nth)
    have used: "x \<notin> set (g_inputs ir)" "\<exists>k < length gs. k \<noteq> i \<and> x \<in> set (g_inputs (gs ! k))"
      using fit_used [OF fit i(1), of x] sg(2) i(2) False by simp_all
    then obtain k where k: "k < length gs" "x \<in> set (g_inputs (gs ! k))" by blast
    then have d: "gs ! k \<in> set gs" by simp
    obtain v where v: "um_get (gvalues ir) x = Some v" "routable v" using fit_routable [OF fit sg(1)] sg(2) by blast
    obtain w where w: "um_get (gvalues (gs ! k)) x = Some w" "um_get (gvalues ir) x = Some w" using fit_getValue [OF fit d, of x] k(2) by blast
    then have "reads (gs ! k) x" using v k(2) by (simp add: reads_def routable_def)
    then obtain c where c: "c \<in> set cons" "con_value c = x" "con_dest c = g_name (gs ! k)" using in_con [OF d] by (auto simp: has_con_def)
    have "g_name (gs ! k) \<noteq> MASTER_NAME" using fit_names(3) [OF fit] d by force
    then obtain s where "s \<in> set gs" "con_src c = g_name s" "writes s x"
      using bspec [OF cons(2) c(1)] c(2,3) used(1) unfolding sound_con_def by (auto simp: mk_con_def)
    then have "con_src c = g_name sg" using one_writer [OF fit _ sg(1) _ sg(2)] by simp
    with c show ?thesis by blast
  qed
  have "feeds gs cons" unfolding feeds_def using in_con out_con by (auto simp: has_con_def)
  with run cons(2) show ?thesis by blast
qed

end
