(* ===== verification/Deploy_Correct.thy ===== *)
theory Deploy_Correct
  imports ML_Decompose_Correct
begin

text \<open>
  The deployment of a solution: replication keeps the stages, the routes exist, the order of the stages can
  be computed, and the result passes \<open>verifyDeployment\<close>.
\<close>

section \<open>Replication of the stages\<close>

definition scaled :: "int \<Rightarrow> IRGraph \<Rightarrow> IRGraph \<Rightarrow> bool" where
  "scaled b g h \<longleftrightarrow> g_name h = g_name g \<and> (\<exists>k. replica_of b k g h)"

lemma um_set_mid: "k \<notin> fst ` set xs \<Longrightarrow> um_set k v (xs @ (k, w) # ys) = xs @ (k, v) # ys"
  by (induction xs) auto

lemma replicate_subgraph_scaled:
  assumes p: "dp_subgraphs p = xs @ (g_name g, g) # ys" "g_name g \<notin> fst ` set xs"
    and g: "replica_ready g" and b: "0 < b" "b < 2 ^ 63" and n: "0 < n"
  shows "\<exists>h. replicate_subgraph b (g_name g, n) p = Inr (p\<lparr>dp_subgraphs := xs @ (g_name g, h) # ys\<rparr>) \<and> scaled b g h"
proof -
  let ?n = "if n > 1 \<and> \<not> is_replicable g then 1 else n"
  have "0 < ?n" using n by simp
  then obtain h k where h: "scaleGraph g (g_name g) ?n 0 b = Inr h" "g_name h = g_name g" "replica_of b k g h"
    using scaleGraph_result [OF g b, of 0 ?n] by blast
  have at: "um_get (dp_subgraphs p) (g_name g) = Some g"
    using p(2) by (simp add: p(1) map_add_def map_of_eq_None_iff [THEN iffD2] split: option.splits)
  have "replicate_subgraph b (g_name g, n) p = Inr (p\<lparr>dp_subgraphs := um_set (g_name g) (setReplicable (is_replicable g) h) (dp_subgraphs p)\<rparr>)"
    using at h(1) by (simp add: replicate_subgraph_def um_contains_def um_at_def)
  moreover have "scaled b g (setReplicable (is_replicable g) h)"
    using h(2,3) by (auto simp: scaled_def replica_of_def setReplicable_def)
  ultimately show ?thesis using um_set_mid [OF p(2)] by (auto simp: p(1))
qed

lemma replicate_stages:
  assumes gs: "distinct (map g_name gs)" "\<forall>g \<in> set gs. replica_ready g \<and> 0 < n g" and b: "0 < b" "b < 2 ^ 63"
    and p: "dp_subgraphs p = map (\<lambda>g. (g_name g, g)) gs"
  shows "\<exists>hs. replicate_partition p (map (\<lambda>g. (g_name g, n g)) gs) b =
      Inr (p\<lparr>dp_subgraphs := map (\<lambda>h. (g_name h, h)) hs, dp_replica_nums := map (\<lambda>g. (g_name g, n g)) gs\<rparr>) \<and> list_all2 (scaled b) gs hs"
proof -
  let ?f = "\<lambda>g. (g_name g, n g)"
  have "\<exists>hs. rfold (replicate_subgraph b) (map ?f post) (p\<lparr>dp_subgraphs := map (\<lambda>h. (g_name h, h)) (pre @ post)\<rparr>) =
      Inr (p\<lparr>dp_subgraphs := map (\<lambda>h. (g_name h, h)) (pre @ hs)\<rparr>) \<and> list_all2 (scaled b) post hs"
    if "distinct (map g_name (pre @ post))" "\<forall>g \<in> set post. replica_ready g \<and> 0 < n g" for pre post
    using that
  proof (induction post arbitrary: pre)
    case (Cons g post)
    let ?p = "p\<lparr>dp_subgraphs := map (\<lambda>h. (g_name h, h)) (pre @ g # post)\<rparr>"
    have sub: "dp_subgraphs ?p = map (\<lambda>h. (g_name h, h)) pre @ (g_name g, g) # map (\<lambda>h. (g_name h, h)) post" by simp
    have fresh: "g_name g \<notin> fst ` set (map (\<lambda>h. (g_name h, h)) pre)" using Cons.prems(1) by (auto simp: image_image)
    obtain h where h: "replicate_subgraph b (g_name g, n g) ?p =
        Inr (?p\<lparr>dp_subgraphs := map (\<lambda>h. (g_name h, h)) pre @ (g_name g, h) # map (\<lambda>h. (g_name h, h)) post\<rparr>)" "scaled b g h"
      using replicate_subgraph_scaled [OF sub fresh _ b, of "n g"] Cons.prems(2) by auto
    have nm: "g_name h = g_name g" using h(2) by (simp add: scaled_def)
    then have "distinct (map g_name ((pre @ [h]) @ post))" using Cons.prems(1) by auto
    from Cons.IH [OF this] Cons.prems(2) obtain hs where
      "rfold (replicate_subgraph b) (map ?f post) (p\<lparr>dp_subgraphs := map (\<lambda>h. (g_name h, h)) ((pre @ [h]) @ post)\<rparr>) =
        Inr (p\<lparr>dp_subgraphs := map (\<lambda>h. (g_name h, h)) ((pre @ [h]) @ hs)\<rparr>)" "list_all2 (scaled b) post hs" by auto
    with h nm show ?case by (intro exI [of _ "h # hs"]) simp
  qed simp
  from this [of "[]" gs] gs obtain hs where hs: "rfold (replicate_subgraph b) (map ?f gs) (p\<lparr>dp_subgraphs := map (\<lambda>h. (g_name h, h)) gs\<rparr>) =
      Inr (p\<lparr>dp_subgraphs := map (\<lambda>h. (g_name h, h)) hs\<rparr>)" "list_all2 (scaled b) gs hs" by auto
  have "p\<lparr>dp_subgraphs := map (\<lambda>h. (g_name h, h)) gs\<rparr> = p" by (simp flip: p)
  with hs show ?thesis by (intro exI [of _ hs]) (simp add: replicate_partition_def)
qed

lemma same_kind_backward: "same_kind t u \<Longrightarrow> passedForBackward u = passedForBackward t"
proof (induction t arbitrary: u)
  case (IRType bt s d e g l cs n f)
  obtain bt' s' d' e' g' l' cs' n' f' where u: "u = IRType bt' s' d' e' g' l' cs' n' f'" by (cases u)
  have elems: "rall passedForBackward cs' = rall passedForBackward cs" if "list_all2 same_kind cs cs'"
  proof -
    have "\<forall>i < length cs. passedForBackward (cs' ! i) = passedForBackward (cs ! i)" "length cs' = length cs"
      using that IRType.IH by (auto simp: list_all2_conv_all_nth)
    then show ?thesis
    proof (induction cs arbitrary: cs')
      case (Cons c cs)
      then obtain c' cs'' where c: "cs' = c' # cs''" by (cases cs') auto
      have "passedForBackward c' = passedForBackward c" using Cons.prems(1) by (auto simp: c dest: spec [of _ 0])
      moreover have "rall passedForBackward cs'' = rall passedForBackward cs" by (rule Cons.IH) (use Cons.prems in \<open>auto simp: c\<close>)
      ultimately show ?case by (simp only: c rall.simps)
    qed simp
  qed
  show ?case using IRType.prems elems by (auto simp: u split: IRBaseType.splits)
qed

text \<open>What is left of a value of the model in a replica.\<close>

definition replica_like :: "IRValue \<Rightarrow> IRValue \<Rightarrow> bool" where
  "replica_like w v \<longleftrightarrow> v_name v = v_name w \<and> is_batch v = is_batch w \<and> (\<not> is_batch w \<longrightarrow> v = w) \<and>
     (is_batch w \<longrightarrow> \<not> is_param v) \<and> passedForBackward (v_type v) = passedForBackward (v_type w)"

lemma replica_value_like: "(is_batch w \<longrightarrow> distributable (v_type w)) \<Longrightarrow> replica_like w (replica_value b k w)"
  using same_kind_backward [OF dealt_kind, of "v_type w" b k] by (auto simp: replica_like_def replica_value_def mkIRValue_def)

text \<open>The replicated stages hold the values of the model, cut to their shares.\<close>

definition replicas_ok :: "IRGraph \<Rightarrow> IRGraph list \<Rightarrow> IRGraph list \<Rightarrow> bool" where
  "replicas_ok ir gs hs \<longleftrightarrow> map g_name hs = map g_name gs \<and>
     (\<forall>i < length gs. g_inputs (hs ! i) = g_inputs (gs ! i) \<and> g_outputs (hs ! i) = g_outputs (gs ! i) \<and>
        um_ok (gvalues (hs ! i)) \<and> fst ` set (gvalues (hs ! i)) = fst ` set (gvalues (gs ! i)) \<and>
        (\<forall>x v. um_get (gvalues (hs ! i)) x = Some v \<longrightarrow>
           (\<exists>w. um_get (gvalues (gs ! i)) x = Some w \<and> um_get (gvalues ir) x = Some w \<and> replica_like w v \<and> v_name v = x)))"

lemma replicas_made:
  assumes fit: "stages_fit ir gs" and ready: "\<forall>g \<in> set gs. replica_ready g" and hs: "list_all2 (scaled b) gs hs"
  shows "replicas_ok ir gs hs"
proof -
  have len: "length hs = length gs" using hs by (simp add: list_all2_lengthD)
  have each: "scaled b (gs ! i) (hs ! i)" if "i < length gs" for i using hs that by (simp add: list_all2_conv_all_nth)
  have "g_inputs (hs ! i) = g_inputs (gs ! i) \<and> g_outputs (hs ! i) = g_outputs (gs ! i) \<and>
        um_ok (gvalues (hs ! i)) \<and> fst ` set (gvalues (hs ! i)) = fst ` set (gvalues (gs ! i)) \<and>
        (\<forall>x v. um_get (gvalues (hs ! i)) x = Some v \<longrightarrow>
           (\<exists>w. um_get (gvalues (gs ! i)) x = Some w \<and> um_get (gvalues ir) x = Some w \<and> replica_like w v \<and> v_name v = x))"
    if i: "i < length gs" for i
  proof -
    obtain k where k: "replica_of b k (gs ! i) (hs ! i)" using each [OF i] by (auto simp: scaled_def)
    have rr: "replica_ready (gs ! i)" using ready i by simp
    have vals: "gvalues (hs ! i) = map (\<lambda>(x, v). (x, replica_value b k v)) (gvalues (gs ! i))" using k by (simp add: replica_of_def)
    have ok: "um_ok (gvalues (hs ! i))" using rr by (simp add: vals replica_ready_def um_ok_def comp_def case_prod_unfold)
    have like: "\<exists>w. um_get (gvalues (gs ! i)) x = Some w \<and> um_get (gvalues ir) x = Some w \<and> replica_like w v \<and> v_name v = x"
      if v: "um_get (gvalues (hs ! i)) x = Some v" for x v
    proof -
      have "(x, v) \<in> set (map (\<lambda>(x, v). (x, replica_value b k v)) (gvalues (gs ! i)))" using map_of_SomeD [OF v] unfolding vals .
      then obtain w where w: "(x, w) \<in> set (gvalues (gs ! i))" "v = replica_value b k w" by auto
      have okg: "um_ok (gvalues (gs ! i))" and dist: "\<forall>(x, v) \<in> set (gvalues (gs ! i)). is_batch v \<longrightarrow> distributable (v_type v)"
        using rr by (simp_all add: replica_ready_def)
      have g: "um_get (gvalues (gs ! i)) x = Some w" using w(1) unfolding um_get_mem [OF okg] .
      have "is_batch w \<longrightarrow> distributable (v_type w)" using bspec [OF dist w(1)] by simp
      then have "replica_like w v" unfolding w(2) by (rule replica_value_like)
      moreover have "um_get (gvalues ir) x = Some w" "v_name w = x" using fit_value [OF fit _ g] i by simp_all
      ultimately show ?thesis using g by (auto simp: replica_like_def)
    qed
    have "fst ` set (gvalues (hs ! i)) = fst ` set (gvalues (gs ! i))" by (simp add: vals image_image case_prod_unfold)
    moreover have "g_inputs (hs ! i) = g_inputs (gs ! i)" "g_outputs (hs ! i) = g_outputs (gs ! i)" using k by (simp_all add: replica_of_def)
    ultimately show ?thesis using ok like by (intro conjI allI impI)
  qed
  moreover have "map g_name hs = map g_name gs"
    by (rule nth_equalityI) (use each len in \<open>auto simp: scaled_def\<close>)
  ultimately show ?thesis by (simp add: replicas_ok_def)
qed

section \<open>Values of the connections\<close>

definition con_value_ok :: "IRGraph \<Rightarrow> PartitionDP \<Rightarrow> GraphConnection \<Rightarrow> bool" where
  "con_value_ok ir p c \<longleftrightarrow> (\<exists>v w b. connection_value p c = Inr v \<and> v_name v = con_value c \<and> um_get (gvalues ir) (con_value c) = Some w \<and>
     (is_batch v \<or> is_loss v) \<and> passedForBackward (v_type v) = Inr b \<and> passedForBackward (v_type w) = Inr b)"

lemma connection_value_ok:
  assumes fit: "stages_fit ir gs" and hs: "replicas_ok ir gs hs" and c: "sound_con ir gs c"
    and p: "dp_subgraphs p = map (\<lambda>h. (g_name h, h)) hs"
  shows "con_value_ok ir p c"
proof -
  let ?x = "con_value c"
  have len: "length hs = length gs" using hs by (metis length_map replicas_ok_def)
  have "\<exists>g \<in> set gs. reads g ?x \<or> writes g ?x" using c unfolding sound_con_def by (elim exE disjE bexE conjE) (auto simp: mk_con_def)
  then obtain g where g: "g \<in> set gs" "reads g ?x \<or> writes g ?x" by blast
  obtain i where i: "i < length gs" "gs ! i = g" using g(1) by (metis in_set_conv_nth)
  obtain w where w: "um_get (gvalues ir) ?x = Some w" "routable w" using fit_routable [OF fit g] by blast
  have "?x \<in> fst ` set (gvalues g)" using g(2) fit_keys [OF fit g(1)] unfolding reads_def writes_def by blast
  then have "?x \<in> fst ` set (gvalues (hs ! i))" using hs i by (simp add: replicas_ok_def)
  then obtain u where u: "(?x, u) \<in> set (gvalues (hs ! i))" by auto
  let ?vals = "searchGraphsValuesByName (um_values (dp_subgraphs p)) ?x"
  have vals: "um_values (dp_subgraphs p) = hs" by (simp add: p um_values_def comp_def)
  have "hs ! i \<in> set hs" using i(1) len by simp
  then have "\<exists>h \<in> set hs. \<exists>kv \<in> set (gvalues h). fst kv = ?x" using u by (intro bexI [of _ "hs ! i"] bexI [of _ "(?x, u)"]) simp_all
  then have "?vals \<noteq> []" unfolding vals searchGraphsValuesByName_def searchGraphValuesByName_def
    by (auto simp: filter_empty_conv)
  then obtain v rest where v: "?vals = v # rest" by (cases ?vals) auto
  then have "v \<in> set ?vals" by simp
  then obtain h where h: "h \<in> set hs" "(?x, v) \<in> set (gvalues h)"
    unfolding vals searchGraphsValuesByName_def searchGraphValuesByName_def by auto
  obtain j where j: "j < length gs" "hs ! j = h" using h(1) len by (metis in_set_conv_nth)
  have "um_get (gvalues h) ?x = Some v" using h(2) hs j um_get_mem unfolding replicas_ok_def by metis
  then have like: "replica_like w v" "v_name v = ?x" using hs j w(1) unfolding replicas_ok_def by (metis option.inject)+
  have "connection_value p c = Inr v" using v by (simp add: connection_value_def Let_def vec_at_def)
  moreover obtain b where "passedForBackward (v_type w) = Inr b" using w(2) by (auto simp: routable_def)
  ultimately show ?thesis using like w unfolding con_value_ok_def replica_like_def routable_def
    by (metis (no_types, lifting))
qed

section \<open>Routes exist\<close>

text \<open>At most \<open>n\<close> tags are in use.\<close>

definition tags_left :: "nat \<Rightarrow> TagMap \<Rightarrow> bool" where
  "tags_left n tm \<longleftrightarrow> tagmap_ok tm \<and> card (tags tm) \<le> n"

lemma str_tag_runs:
  assumes "tags_left n tm" "n < 30000" "hash_ok h"
  shows "runs (getStrTag h s) tm (\<lambda>_. tags_left (Suc n))"
proof -
  have fin: "finite (tags tm)" using assms(1) unfolding tags_left_def tagmap_ok_def by (meson finite_atLeastLessThan_int finite_subset)
  have "card (tags tm) < card {0..<RANNC_TAG_UB}" using assms(1,2) by (simp add: tags_left_def RANNC_TAG_UB_def)
  then have "\<not> {0..<RANNC_TAG_UB} \<subseteq> tags tm" using card_mono [OF fin] by (meson not_less)
  then obtain t tm' where t: "get_tag h (Str_key s) tm = Inr (t, tm')" "tagmap_ok tm'" "tags tm' = insert t (tags tm)"
    using get_tag_step [of tm h "Str_key s"] assms(1,3) unfolding tags_left_def by blast
  have "card (tags tm') \<le> Suc (card (tags tm))" unfolding t(3) using fin by (simp add: card_insert_if)
  then have "tags_left (Suc n) tm'" using t(2) assms(1) by (simp add: tags_left_def)
  with t(1) show ?thesis by (auto simp: runs_def)
qed

definition alloc_covers :: "IRGraph list \<Rightarrow> allocation \<Rightarrow> bool" where
  "alloc_covers gs alloc \<longleftrightarrow> g_name ` set gs \<subseteq> fst ` set alloc"

lemma graph_ranks:
  assumes "alloc_covers gs alloc" "n = MASTER_NAME \<or> n \<in> g_name ` set gs"
  shows "\<exists>r. getGraphRanks env n alloc = Inr r"
proof (cases "n = MASTER_NAME")
  case False
  then have "n \<in> fst ` set alloc" using assms by (auto simp: alloc_covers_def)
  from um_get_key [OF this] obtain ranks where "um_get alloc n = Some ranks" by (elim exE)
  with False show ?thesis by (simp add: getGraphRanks_def um_contains_def um_at_def)
qed (simp add: getGraphRanks_def)

lemma sound_con_ends:
  "sound_con ir gs c \<Longrightarrow> (con_src c = MASTER_NAME \<or> con_src c \<in> g_name ` set gs) \<and> (con_dest c = MASTER_NAME \<or> con_dest c \<in> g_name ` set gs)"
  unfolding sound_con_def by (elim exE disjE bexE conjE) (auto simp: mk_con_def)

lemma deploy_connection_runs:
  assumes c: "sound_con ir gs c" "con_value_ok ir p c" and alloc: "alloc_covers gs alloc"
    and tm: "tags_left n tm" "n + 3 \<le> 30000" "hash_ok (env_hash env)"
  shows "runs (deploy_connection env p alloc c rs) tm (\<lambda>_. tags_left (n + 3))"
proof -
  obtain v bk where v: "connection_value p c = Inr v" "is_batch v \<or> is_loss v" "passedForBackward (v_type v) = Inr bk"
    using c(2) by (auto simp: con_value_ok_def)
  obtain srcs dsts where r: "getGraphRanks env (con_src c) alloc = Inr srcs" "getGraphRanks env (con_dest c) alloc = Inr dsts"
    using graph_ranks [OF alloc conjunct1 [OF sound_con_ends [OF c(1)]], of env]
      graph_ranks [OF alloc conjunct2 [OF sound_con_ends [OF c(1)]], of env] by (elim exE) (rule that)
  obtain ft bt where ty: "chooseRouteType (is_batch v) (is_loss v) True = Inr ft" "chooseRouteType (is_batch v) (is_loss v) False = Inr bt"
  proof (cases "is_batch v")
    case False
    then show ?thesis using v(2) that [of RT_BROADCAST RT_WEIGHTED_REDUCE] by (simp add: chooseRouteType_def)
  qed (rule that, simp_all add: chooseRouteType_def)
  have more: "tags_left m t \<Longrightarrow> m \<le> m' \<Longrightarrow> tags_left m' t" for m m' t by (simp add: tags_left_def)
  have tag: "runs (getStrTag (env_hash env) key) t (\<lambda>_. tags_left (Suc m))" if "tags_left m t" "m < n + 3" for m t key
    by (rule str_tag_runs [OF that(1) _ tm(3)]) (use that(2) tm(2) in simp)
  have fwd: "runs (fwd_route env alloc c v) tm (\<lambda>_. tags_left (n + 2))"
    unfolding fwd_route_def Let_def getRouteTag_def getRouteSourceTag_def
  proof (rule runs_slift_bind [OF r(1)], rule runs_slift_bind [OF r(2)], rule runs_slift_bind [OF ty(1)], rule runs_sbind [OF tag [OF tm(1)]])
    fix ftag t assume t: "tags_left (Suc n) t"
    show "runs (sbind (getStrTag (env_hash env) (key ftag)) (\<lambda>stag. sret (f stag))) t (\<lambda>_. tags_left (n + 2))" for key and f :: "int \<Rightarrow> RouteDP"
      by (rule runs_sbind [OF tag [OF t]], simp, rule runs_sret, simp)
  qed simp
  have bwd: "runs (bwd_route env alloc c v tag) t (\<lambda>_. tags_left (n + 3))" if t: "tags_left (n + 2) t" for tag t
    unfolding bwd_route_def Let_def getRouteSourceTag_def
    by (rule runs_slift_bind [OF r(2)], rule runs_slift_bind [OF r(1)], rule runs_sbind [OF tag [OF t]], simp,
        rule runs_slift_bind [OF ty(2)], rule runs_sret, simp add: numeral_eq_Suc)
  show ?thesis
    unfolding deploy_connection_def Let_def
  proof (intro runs_slift_bind [OF v(1)] runs_sbind [OF fwd] runs_slift_bind [OF v(3)])
    fix fr t assume t: "tags_left (n + 2) t"
    show "runs (if bk then sbind (bwd_route env alloc c v (r_tag fr)) (\<lambda>br. sret (add_bwd c br (add_fwd c fr rs))) else sret (add_fwd c fr rs)) t
        (\<lambda>_. tags_left (n + 3))"
    proof (cases bk)
      case True
      then show ?thesis by (simp, intro runs_sbind [OF bwd [OF t]] runs_sret)
    next
      case False
      then show ?thesis using more [OF t, of "n + 3"] by (auto intro: runs_sret)
    qed
  qed
qed

section \<open>The order of the stages exists\<close>

definition vlevel :: "(string \<Rightarrow> nat) \<Rightarrow> RVertexInfo \<Rightarrow> nat" where
  "vlevel pos v = (case rv_route v of None \<Rightarrow> 2 * pos (rv_name v) | Some r \<Rightarrow> 2 * pos (r_source_graph r) + 1)"

definition levelled :: "(string \<Rightarrow> nat) \<Rightarrow> RGraph \<times> (string, nat) umap \<Rightarrow> bool" where
  "levelled pos = (\<lambda>(rg, v_map). (\<forall>(x, y) \<in> set (arcs rg). vlevel pos (verts rg ! x) < vlevel pos (verts rg ! y)) \<and>
     (\<forall>v < length (verts rg). rv_type (verts rg ! v) = RV_GRAPH \<longrightarrow> rv_route (verts rg ! v) = None))"

lemma graph_vertex_levelled:
  assumes "levelled pos a" "rgraph_ok routes a"
  shows "levelled pos (graph_vertex gid a)"
proof -
  obtain rg v_map where a: "a = (rg, v_map)" by (cases a)
  show ?thesis
  proof (cases "um_contains v_map gid")
    case True
    then show ?thesis using assms(1) by (simp add: a graph_vertex_def)
  next
    case False
    have ends: "x < length (verts rg) \<and> y < length (verts rg)" if "(x, y) \<in> set (arcs rg)" for x y
      using rgraph_okD(1) [OF assms(2) [unfolded a]] that by (auto simp: bgraph_ok_def)
    have "arcs (rg\<lparr>verts := vs\<rparr>) = arcs rg" for vs by (simp add: arcs_def)
    then show ?thesis using False assms(1) ends
      by (fastforce simp: a graph_vertex_def add_vertex_def levelled_def nth_append less_Suc_eq)
  qed
qed

lemma route_vertex_levelled:
  assumes a: "levelled pos a" "rgraph_ok routes a" and r: "pos (r_source_graph r) < pos (r_dest_graph r)"
  shows "\<exists>a'. route_vertex r a = Inr a' \<and> levelled pos a'"
proof -
  define b where "b = graph_vertex (r_dest_graph r) (graph_vertex (r_source_graph r) a)"
  have b1: "rgraph_ok routes (graph_vertex (r_source_graph r) a)" "um_get (snd (graph_vertex (r_source_graph r) a)) (r_source_graph r) \<noteq> None"
    using graph_vertex_ok [OF a(2)] by blast+
  have b2: "rgraph_ok routes b" "um_get (snd b) (r_dest_graph r) \<noteq> None" "um_get (snd (graph_vertex (r_source_graph r) a)) \<subseteq>\<^sub>m um_get (snd b)"
    unfolding b_def using graph_vertex_ok [OF b1(1)] by blast+
  have lev: "levelled pos b" unfolding b_def by (rule graph_vertex_levelled [OF graph_vertex_levelled [OF a] b1(1)])
  obtain rg v_map where rg: "b = (rg, v_map)" by (cases b)
  obtain t where t: "um_get v_map (r_dest_graph r) = Some t" using b2(2) by (auto simp: rg)
  obtain s0 where s0: "um_get (snd (graph_vertex (r_source_graph r) a)) (r_source_graph r) = Some s0" using b1(2) by blast
  then have s: "um_get v_map (r_source_graph r) = Some s0" using b2(3) by (auto simp: rg map_le_def dom_def)
  let ?v = "\<lparr>rv_name = v_name (r_value r), rv_type = RV_ROUTE, rv_route = Some r\<rparr>"
  let ?rg = "add_edge (length (verts rg)) t () (add_edge s0 (length (verts rg)) () (rg\<lparr>verts := verts rg @ [?v]\<rparr>))"
  have run: "route_vertex r a = Inr (?rg, v_map)"
    unfolding route_vertex_def b_def [symmetric] rg using s t by (simp add: add_vertex_def um_at_def)
  note at = rgraph_okD(2) [OF b2(1) [unfolded rg]]
  have st: "s0 < length (verts rg)" "rv_name (verts rg ! s0) = r_source_graph r" "rv_type (verts rg ! s0) = RV_GRAPH"
    "t < length (verts rg)" "rv_name (verts rg ! t) = r_dest_graph r" "rv_type (verts rg ! t) = RV_GRAPH"
    using s [unfolded at] t [unfolded at] by simp_all
  have none: "rv_route (verts rg ! v) = None" if "v < length (verts rg)" "rv_type (verts rg ! v) = RV_GRAPH" for v
    using lev that by (simp add: levelled_def rg)
  have ends: "x < length (verts rg) \<and> y < length (verts rg)" if "(x, y) \<in> set (arcs rg)" for x y
    using rgraph_okD(1) [OF b2(1) [unfolded rg]] that by (auto simp: bgraph_ok_def)
  have old: "vlevel pos (verts rg ! x) < vlevel pos (verts rg ! y)" if "(x, y) \<in> set (arcs rg)" for x y
    using lev that by (auto simp: levelled_def rg)
  have arcs: "set (arcs ?rg) = {(s0, length (verts rg)), (length (verts rg), t)} \<union> set (arcs rg)"
    by (auto simp: arcs_def add_edge_def)
  have verts: "verts ?rg = verts rg @ [?v]" by (simp add: add_edge_def)
  have "vlevel pos (verts ?rg ! x) < vlevel pos (verts ?rg ! y)" if "(x, y) \<in> set (arcs ?rg)" for x y
  proof -
    from that consider "x = s0" "y = length (verts rg)" | "x = length (verts rg)" "y = t" | "(x, y) \<in> set (arcs rg)"
      unfolding arcs by blast
    then show ?thesis
    proof cases
      case 1
      then show ?thesis using st none by (simp add: verts nth_append vlevel_def)
    next
      case 2
      then show ?thesis using st none r by (simp add: verts nth_append vlevel_def)
    next
      case 3
      then show ?thesis using ends [OF 3] old [OF 3] by (simp add: verts nth_append)
    qed
  qed
  moreover have "rv_route (verts ?rg ! v) = None" if "v < length (verts ?rg)" "rv_type (verts ?rg ! v) = RV_GRAPH" for v
    using that none [of v] by (auto simp: verts nth_append less_Suc_eq split: if_splits)
  ultimately have "levelled pos (?rg, v_map)" unfolding levelled_def by blast
  with run show ?thesis by blast
qed

lemma sortGraphs_total:
  fixes pos :: "string \<Rightarrow> nat"
  assumes law: "topo_law topo" and pos: "\<forall>r \<in> set routes. pos (r_source_graph r) < pos (r_dest_graph r)"
  shows "\<exists>order. sortGraphs topo subgraphs routes = Inr order"
proof -
  let ?init = "\<lambda>sgs. foldl (\<lambda>a (gid, _). graph_vertex gid a) (empty_bgraph, []) sgs"
  have init: "rgraph_ok [] (?init sgs) \<and> levelled pos (?init sgs)" for sgs :: "(string, IRGraph) umap"
  proof (induction sgs rule: rev_induct)
    case Nil
    then show ?case by (simp add: rgraph_ok_def levelled_def empty_bgraph_def bgraph_ok_def arcs_def)
  next
    case (snoc kg sgs)
    have "?init (sgs @ [kg]) = graph_vertex (fst kg) (?init sgs)" by (simp add: case_prod_unfold)
    then show ?case using graph_vertex_ok [OF conjunct1 [OF snoc.IH]] graph_vertex_levelled [OF conjunct2 [OF snoc.IH] conjunct1 [OF snoc.IH]]
      by simp
  qed
  have "\<exists>a. rfold route_vertex routes (?init subgraphs) = Inr a \<and> (rgraph_ok routes a \<and> levelled pos a)"
  proof (rule rfold_prefix [where P = "\<lambda>pre a. rgraph_ok pre a \<and> levelled pos a"])
    fix pre r post a
    assume split: "routes = pre @ r # post" and a: "rgraph_ok pre a \<and> levelled pos a"
    have "pos (r_source_graph r) < pos (r_dest_graph r)" using pos by (simp add: split)
    then obtain a' where a': "route_vertex r a = Inr a'" "levelled pos a'" using route_vertex_levelled [of pos a pre r] a by blast
    with route_vertex_ok [OF conjunct1 [OF a] a'(1)] show "\<exists>a'. route_vertex r a = Inr a' \<and> rgraph_ok (pre @ [r]) a' \<and> levelled pos a'" by blast
  qed (rule init)
  then obtain rg v_map where rg: "rfold route_vertex routes (?init subgraphs) = Inr (rg, v_map)" "rgraph_ok routes (rg, v_map)" "levelled pos (rg, v_map)"
    by auto
  have "acyclic (set (arcs rg))"
    by (rule acyclicI_order [where f = "\<lambda>v. - int (vlevel pos (verts rg ! v))"]) (use rg(3) in \<open>auto simp: levelled_def\<close>)
  moreover have "set (arcs rg) \<subseteq> {..<length (verts rg)} \<times> {..<length (verts rg)}"
    using rgraph_okD(1) [OF rg(2)] by (auto simp: bgraph_ok_def)
  ultimately obtain vs where "topo (length (verts rg)) (arcs rg) = Inr vs" using law unfolding topo_law_def by metis
  then show ?thesis using rg(1) by (simp add: sortGraphs_def toRGraph_def all_nodes_topo_def)
qed

definition stage_pos :: "IRGraph list \<Rightarrow> string \<Rightarrow> nat" where
  "stage_pos gs n = length (takeWhile (\<lambda>g. g_name g \<noteq> n) gs)"

lemma stage_pos_nth: "distinct (map g_name gs) \<Longrightarrow> i < length gs \<Longrightarrow> stage_pos gs (g_name (gs ! i)) = i"
proof (induction gs arbitrary: i)
  case (Cons g gs)
  show ?case
  proof (cases i)
    case (Suc j)
    then have "g_name (gs ! j) \<in> g_name ` set gs" using Cons.prems(2) by simp
    then have "g_name g \<noteq> g_name (gs ! j)" using Cons.prems(1) by auto
    with Suc Cons show ?thesis by (simp add: stage_pos_def)
  qed (simp add: stage_pos_def)
qed simp

lemma list_all2_mem2: "list_all2 P xs ys \<Longrightarrow> y \<in> set ys \<Longrightarrow> \<exists>x \<in> set xs. P x y"
  by (auto simp: list_all2_conv_all_nth in_set_conv_nth) (metis nth_mem)

lemma list_all2_mem1: "list_all2 P xs ys \<Longrightarrow> x \<in> set xs \<Longrightarrow> \<exists>y \<in> set ys. P x y"
  by (auto simp: list_all2_conv_all_nth in_set_conv_nth) (metis nth_mem)

lemma inner_route_order:
  assumes fit: "stages_fit ir gs" and cons: "\<forall>c \<in> set cons. sound_con ir gs c" and rs: "routes_made env p alloc cons rs" and r: "r \<in> set (fwd_rs rs)"
  shows "stage_pos gs (r_source_graph r) < stage_pos gs (r_dest_graph r) \<and> stage_pos gs (r_dest_graph r) < length gs"
proof -
  have "list_all2 (carries env p alloc) (filter inner_con cons) (fwd_rs rs)" using rs by (simp add: routes_made_def)
  from list_all2_mem2 [OF this r] obtain c where c: "c \<in> set cons" "inner_con c" "carries env p alloc c r" by auto
  from bspec [OF cons c(1)] c(2) obtain x src dst where sd: "src \<in> set gs" "dst \<in> set gs" "c = mk_con x (g_name src) (g_name dst)" "writes src x" "reads dst x"
    unfolding sound_con_def by (elim exE disjE bexE conjE) (auto simp: inner_con_def mk_con_def)
  obtain i j where ij: "i < length gs" "gs ! i = dst" "j < length gs" "gs ! j = src" using sd(1,2) by (metis in_set_conv_nth)
  have "j < i" using reader_after_writer [OF fit ij(1,3)] sd(4,5) ij(2,4) by simp
  moreover have "r_source_graph r = g_name (gs ! j)" "r_dest_graph r = g_name (gs ! i)" using c(3) sd(3) ij by (simp_all add: carries_def mk_con_def)
  moreover have "stage_pos gs (g_name (gs ! i)) = i" "stage_pos gs (g_name (gs ! j)) = j"
    using stage_pos_nth [OF fit_names(2) [OF fit]] ij(1,3) by blast+
  ultimately show ?thesis using ij(1) by simp
qed

lemma createDeployment_total:
  assumes fit: "stages_fit ir gs" and cons: "\<forall>c \<in> set (dp_connections p). sound_con ir gs c \<and> con_value_ok ir p c"
    and alloc: "alloc_covers gs alloc" and env: "topo_law (env_topo env)" "hash_ok (env_hash env)" and room: "length (dp_connections p) \<le> 10000"
  shows "\<exists>d tm. createDeployment env p alloc new_TagMap = Inr (d, tm)"
proof -
  let ?rs0 = "\<lparr>fwd_rs = [], fwd_in_rs = [], fwd_out_rs = [], bwd_rs = [], bwd_in_rs = [], bwd_out_rs = []\<rparr>"
  have "runs (sfold (deploy_connection env p alloc) (dp_connections p) ?rs0) new_TagMap
      (\<lambda>rs tm. tags_left (3 * length (dp_connections p)) tm \<and> routes_made env p alloc (dp_connections p) rs)"
  proof (rule runs_sfold [where P = "\<lambda>pre rs tm. tags_left (3 * length pre) tm \<and> routes_made env p alloc pre rs"])
    show "tags_left (3 * length ([] :: GraphConnection list)) new_TagMap \<and> routes_made env p alloc [] ?rs0"
      using new_TagMap_ok(1) by (simp add: tags_left_def routes_made_def) (simp add: new_TagMap_def)
  next
    fix pre c post rs tm
    assume split: "dp_connections p = pre @ c # post" and inv: "tags_left (3 * length pre) tm \<and> routes_made env p alloc pre rs"
    have c: "sound_con ir gs c" "con_value_ok ir p c" using cons by (simp_all add: split)
    have "3 * length pre + 3 \<le> 30000" using room by (simp add: split)
    from deploy_connection_runs [OF c alloc conjunct1 [OF inv] this env(2), of rs]
    obtain rs' tm' where r: "deploy_connection env p alloc c rs tm = Inr (rs', tm')" "tags_left (3 * length pre + 3) tm'" by (rule runsE)
    then have "tags_left (3 * length (pre @ [c])) tm'" by (simp add: add.commute)
    with r routes_made_step [OF conjunct2 [OF inv] r(1)]
    show "runs (deploy_connection env p alloc c rs) tm (\<lambda>rs tm. tags_left (3 * length (pre @ [c])) tm \<and> routes_made env p alloc (pre @ [c]) rs)"
      unfolding runs_def by blast
  qed
  then obtain rs tm where rs: "sfold (deploy_connection env p alloc) (dp_connections p) ?rs0 new_TagMap = Inr (rs, tm)"
    "routes_made env p alloc (dp_connections p) rs" by (rule runsE) blast
  have sound: "\<forall>c \<in> set (dp_connections p). sound_con ir gs c" using cons by blast
  have "\<exists>fo. sortGraphs (env_topo env) (dp_subgraphs p) (fwd_rs rs) = Inr fo"
    by (rule sortGraphs_total [OF env(1), where pos = "stage_pos gs"]) (use inner_route_order [OF fit sound rs(2)] in blast)
  moreover have "\<exists>bo. sortGraphs (env_topo env) (dp_subgraphs p) (bwd_rs rs) = Inr bo"
  proof (rule sortGraphs_total [OF env(1), where pos = "\<lambda>n. length gs - stage_pos gs n"], rule ballI)
    fix br assume br: "br \<in> set (bwd_rs rs)"
    have "list_all2 mirrored (filter needs_bwd (fwd_rs rs)) (bwd_rs rs)" using rs(2) by (simp add: routes_made_def)
    from list_all2_mem2 [OF this br] obtain fr where "fr \<in> set (fwd_rs rs)" "mirrored fr br" by auto
    with inner_route_order [OF fit sound rs(2), of fr]
    show "length gs - stage_pos gs (r_source_graph br) < length gs - stage_pos gs (r_dest_graph br)" by (auto simp: mirrored_def)
  qed
  ultimately show ?thesis using rs(1) by (auto simp: createDeployment_def sbind_def)
qed

section \<open>The check succeeds\<close>

lemma verify_value_ok:
  assumes "used_by fg n v fwd" "passedForBackward (v_type v) = Inr b" "b \<Longrightarrow> used_by bgr n v bwd"
  shows "verify_value fg bgr fwd bwd n v = Inr ()"
  using assms by (simp add: verify_value_def)

definition all_fwd :: "Deployment \<Rightarrow> RouteDP list" where
  "all_fwd d = d_fwd_in_routes d @ d_fwd_routes d @ d_fwd_out_routes d"

definition all_bwd :: "Deployment \<Rightarrow> RouteDP list" where
  "all_bwd d = d_bwd_in_routes d @ d_bwd_routes d @ d_bwd_out_routes d"

text \<open>Each connection has a route, and one back when its value takes part in the backward pass.\<close>

lemma connection_routes:
  assumes d: "createDeployment env p alloc tm = Inr (d, tm')" and c: "c \<in> set (dp_connections p)"
  shows "\<exists>fr \<in> set (all_fwd d). carries env p alloc c fr \<and> (needs_bwd fr \<longrightarrow> (\<exists>br \<in> set (all_bwd d). mirrored fr br))"
proof -
  obtain rs where rs: "routes_made env p alloc (dp_connections p) rs"
    "d_fwd_in_routes d = fwd_in_rs rs" "d_fwd_routes d = fwd_rs rs" "d_fwd_out_routes d = fwd_out_rs rs"
    "d_bwd_in_routes d = bwd_in_rs rs" "d_bwd_routes d = bwd_rs rs" "d_bwd_out_routes d = bwd_out_rs rs"
    by (rule createDeployment_parts [OF d])
  note m = rs(1) [unfolded routes_made_def]
  have pick: "\<exists>fr \<in> set fs. carries env p alloc c fr \<and> (needs_bwd fr \<longrightarrow> (\<exists>br \<in> set bs. mirrored fr br))"
    if "list_all2 (carries env p alloc) (filter k (dp_connections p)) fs" "list_all2 mirrored (filter needs_bwd fs) bs" "k c" for k fs bs
  proof -
    have "c \<in> set (filter k (dp_connections p))" using c that(3) by simp
    from list_all2_mem1 [OF that(1) this] obtain fr where fr: "fr \<in> set fs" "carries env p alloc c fr" by blast
    have "\<exists>br \<in> set bs. mirrored fr br" if "needs_bwd fr" using list_all2_mem1 [OF \<open>list_all2 mirrored _ bs\<close>, of fr] fr(1) that by simp
    with fr show ?thesis by blast
  qed
  consider "input_con c" | "inner_con c" | "output_con c" unfolding con_kinds by blast
  then show ?thesis
  proof cases
    case 1
    from pick [of input_con, OF _ _ 1] m rs show ?thesis unfolding all_fwd_def all_bwd_def by fastforce
  next
    case 2
    from pick [of inner_con, OF _ _ 2] m rs show ?thesis unfolding all_fwd_def all_bwd_def by fastforce
  next
    case 3
    from pick [of output_con, OF _ _ 3] m rs show ?thesis unfolding all_fwd_def all_bwd_def by fastforce
  qed
qed

lemma rfold_unit: "(\<And>x. x \<in> set xs \<Longrightarrow> f x () = Inr ()) \<Longrightarrow> rfold f xs () = Inr ()"
  by (induction xs) auto

lemma used_byI: "r \<in> set rs \<Longrightarrow> graph_of r = n \<Longrightarrow> v_name (r_value r) = v_name v \<Longrightarrow> used_by graph_of n v rs"
  by (auto simp: used_by_def)

lemma backward_agree:
  assumes fit: "stages_fit ir gs" and like: "replica_like w v" "um_get (gvalues ir) x = Some w" "v_name v = x"
    and d: "createDeployment env p alloc tm = Inr (d, tm')" and c: "c \<in> set (dp_connections p)" "con_value c = x" "con_value_ok ir p c"
  obtains fr b where "fr \<in> set (all_fwd d)" "carries env p alloc c fr" "v_name (r_value fr) = v_name v" "passedForBackward (v_type v) = Inr b"
    "b \<Longrightarrow> \<exists>br \<in> set (all_bwd d). mirrored fr br"
proof -
  obtain fr where fr: "fr \<in> set (all_fwd d)" "carries env p alloc c fr" "needs_bwd fr \<longrightarrow> (\<exists>br \<in> set (all_bwd d). mirrored fr br)"
    using connection_routes [OF d c(1)] by blast
  obtain u w' b where u: "connection_value p c = Inr u" "v_name u = x" "um_get (gvalues ir) x = Some w'"
    "passedForBackward (v_type u) = Inr b" "passedForBackward (v_type w') = Inr b" using c(3) by (auto simp: con_value_ok_def c(2))
  have "r_value fr = u" using fr(2) u(1) by (simp add: carries_def)
  moreover have "w' = w" using u(3) like(2) by simp
  ultimately show ?thesis using that [of fr b] fr u like by (simp add: needs_bwd_def replica_like_def)
qed

definition stages_ready :: "IRGraph list \<Rightarrow> bool" where
  "stages_ready gs \<longleftrightarrow> (\<forall>g \<in> set gs. replica_ready g \<and> (\<forall>(x, v) \<in> set (gvalues g). \<not> (is_param v \<and> is_batch v)))"

lemma deployment_verified:
  assumes fit: "stages_fit ir gs" and ready: "stages_ready gs" and hs: "list_all2 (scaled b) gs hs"
    and p: "dp_subgraphs p = map (\<lambda>h. (g_name h, h)) hs" and fed: "feeds gs (dp_connections p)"
    and cons: "\<forall>c \<in> set (dp_connections p). sound_con ir gs c"
    and d: "createDeployment env p alloc tm = Inr (d, tm')"
  shows "verifyDeployment d = Inr ()"
proof -
  have "\<forall>g \<in> set gs. replica_ready g" using ready by (simp add: stages_ready_def)
  note ok = replicas_made [OF fit this hs]
  have len: "length hs = length gs" using ok by (metis length_map replicas_ok_def)
  have sub: "d_subgraphs d = map (\<lambda>h. (g_name h, h)) hs" using d p by (auto elim: createDeployment_parts)
  have cvo: "con_value_ok ir p c" if "c \<in> set (dp_connections p)" for c
    using connection_value_ok [OF fit ok _ p] cons that by blast
  have fwd: "addAll (addAll (addAll [] (d_fwd_in_routes d)) (d_fwd_routes d)) (d_fwd_out_routes d) = all_fwd d"
    "addAll (addAll (addAll [] (d_bwd_in_routes d)) (d_bwd_routes d)) (d_bwd_out_routes d) = all_bwd d"
    by (simp_all add: addAll_def all_fwd_def all_bwd_def)
  have "verify_graph (all_fwd d) (all_bwd d) (g_name h, h) () = Inr ()" if h: "h \<in> set hs" for h
  proof -
    obtain i where i: "i < length gs" "hs ! i = h" using h len by (metis in_set_conv_nth)
    define g where "g = gs ! i"
    have g: "g \<in> set gs" using i(1) by (simp add: g_def)
    note r = ok [unfolded replicas_ok_def, THEN conjunct2, THEN spec, THEN mp, OF i(1), unfolded i(2), folded g_def]
    have same: "g_inputs h = g_inputs g" "g_outputs h = g_outputs g" "fst ` set (gvalues h) = fst ` set (gvalues g)"
      using r by - (elim conjE, assumption)+
    have "map g_name hs ! i = map g_name gs ! i" using ok by (simp only: replicas_ok_def)
    then have nm: "g_name h = g_name g" using i len by (simp add: g_def)
    have like: "\<exists>w. um_get (gvalues g) x = Some w \<and> um_get (gvalues ir) x = Some w \<and> replica_like w v \<and> v_name v = x"
      if "um_get (gvalues h) x = Some v" for x v using r that by blast
    have val: "\<exists>v w. getValue h x = Inr v \<and> um_get (gvalues g) x = Some w \<and> um_get (gvalues ir) x = Some w \<and> replica_like w v \<and> v_name v = x"
      if "x \<in> set (g_inputs g) \<union> set (g_outputs g)" for x
    proof -
      have "x \<in> fst ` set (gvalues h)" using fit_keys [OF fit g] that unfolding same by (rule subsetD)
      from um_get_key [OF this] obtain v where "um_get (gvalues h) x = Some v" by (elim exE)
      with like [OF this] show ?thesis by (auto simp: getValue_Inr)
    qed
    have ins: "rbind (getValue h x) (\<lambda>v. if is_param v then Inr ()
        else verify_value r_dest_graph r_source_graph (all_fwd d) (all_bwd d) (g_name h) v) = Inr ()" if x: "x \<in> set (g_inputs h)" for x
    proof -
      obtain v w where v: "getValue h x = Inr v" "um_get (gvalues g) x = Some w" "um_get (gvalues ir) x = Some w" "replica_like w v" "v_name v = x"
        using val [of x] x same(1) by auto
      show ?thesis
      proof (cases "is_param v")
        case True
        then show ?thesis by (simp add: v(1))
      next
        case False
        have "\<not> is_param w"
        proof (cases "is_batch w")
          case True
          have "\<forall>(x, v) \<in> set (gvalues g). \<not> (is_param v \<and> is_batch v)" using ready g by (simp add: stages_ready_def)
          from bspec [OF this map_of_SomeD [OF v(2)]] True show ?thesis by simp
        qed (use False v(4) in \<open>simp add: replica_like_def\<close>)
        then have "reads g x" using v(2) x same(1) by (simp add: reads_def)
        then obtain c where c: "c \<in> set (dp_connections p)" "con_value c = x" "con_dest c = g_name g" using fed g by (auto simp: feeds_def)
        obtain fr bk where fr: "fr \<in> set (all_fwd d)" "carries env p alloc c fr" "v_name (r_value fr) = v_name v" "passedForBackward (v_type v) = Inr bk"
          "bk \<Longrightarrow> \<exists>br \<in> set (all_bwd d). mirrored fr br" by (rule backward_agree [OF fit v(4,3,5) d c(1,2) cvo [OF c(1)]]) blast
        have "verify_value r_dest_graph r_source_graph (all_fwd d) (all_bwd d) (g_name h) v = Inr ()"
        proof (rule verify_value_ok [OF _ fr(4)])
          show "used_by r_dest_graph (g_name h) v (all_fwd d)"
            by (rule used_byI [OF fr(1) _ fr(3)]) (use fr(2) c(3) nm in \<open>simp add: carries_def\<close>)
          show "used_by r_source_graph (g_name h) v (all_bwd d)" if bk
            proof -
            obtain br where br: "br \<in> set (all_bwd d)" "mirrored fr br" using fr(5) [OF \<open>bk\<close>] by (elim bexE) (rule that)
            show ?thesis by (rule used_byI [OF br(1)]) (use br(2) fr(2,3) c(3) nm in \<open>simp_all add: carries_def mirrored_def\<close>)
          qed
        qed
        with False show ?thesis by (simp add: v(1))
      qed
    qed
    have outs: "rbind (getValue h x) (verify_value r_source_graph r_dest_graph (all_fwd d) (all_bwd d) (g_name h)) = Inr ()" if x: "x \<in> set (g_outputs h)" for x
    proof -
      obtain v w where v: "getValue h x = Inr v" "um_get (gvalues g) x = Some w" "um_get (gvalues ir) x = Some w" "replica_like w v" "v_name v = x"
        using val [of x] x same(2) by auto
      have "writes g x" using x same(2) by (simp add: writes_def)
      then obtain c where c: "c \<in> set (dp_connections p)" "con_value c = x" "con_src c = g_name g" using fed g by (auto simp: feeds_def)
      obtain fr bk where fr: "fr \<in> set (all_fwd d)" "carries env p alloc c fr" "v_name (r_value fr) = v_name v" "passedForBackward (v_type v) = Inr bk"
        "bk \<Longrightarrow> \<exists>br \<in> set (all_bwd d). mirrored fr br" by (rule backward_agree [OF fit v(4,3,5) d c(1,2) cvo [OF c(1)]]) blast
      have "verify_value r_source_graph r_dest_graph (all_fwd d) (all_bwd d) (g_name h) v = Inr ()"
      proof (rule verify_value_ok [OF _ fr(4)])
        show "used_by r_source_graph (g_name h) v (all_fwd d)"
            by (rule used_byI [OF fr(1) _ fr(3)]) (use fr(2) c(3) nm in \<open>simp add: carries_def\<close>)
        show "used_by r_dest_graph (g_name h) v (all_bwd d)" if bk
          proof -
            obtain br where br: "br \<in> set (all_bwd d)" "mirrored fr br" using fr(5) [OF \<open>bk\<close>] by (elim bexE) (rule that)
            show ?thesis by (rule used_byI [OF br(1)]) (use br(2) fr(2,3) c(3) nm in \<open>simp_all add: carries_def mirrored_def\<close>)
          qed
      qed
      then show ?thesis by (simp add: v(1))
    qed
    show ?thesis unfolding verify_graph_def using ins outs by (simp add: rfold_unit)
  qed
  then show ?thesis unfolding verifyDeployment_def fwd Let_def sub by (intro rfold_unit) auto
qed

end
