(* ===== verification/DP_Merge_Correct.thy ===== *)
theory DP_Merge_Correct
  imports DP_Staging
begin

text \<open>
  Correctness of \<open>GraphMergeHelper\<close>: the graph of a range of nodes has only operators of these nodes,
  keeps every output that a later node reads or that no node of the range reads, and asks for no value
  that an earlier node of the range puts out (parameters excepted); this is an invariant of the cache.
\<close>

section \<open>Levels that can be staged\<close>

definition merge_name :: "string \<Rightarrow> bool" where
  "merge_name x \<longleftrightarrow> (\<exists>y. x = ''MERGE_'' @ y)"

definition stageable :: "DPStaging \<Rightarrow> MLGraph \<Rightarrow> bool" where
  "stageable D g \<longleftrightarrow>
     (\<forall>n \<in> set (ml_nodes g). graph_inv (m_graph n) \<and> \<not> merge_name (m_id n) \<and> \<not> merge_name (g_name (m_graph n)) \<and>
        (\<forall>k. m_id n \<noteq> ''ML_'' @ dp_names D k)) \<and>
     (\<forall>n \<in> set (ml_nodes g). \<forall>m \<in> set (ml_nodes g). ids_compatible (nodes (m_graph n)) (nodes (m_graph m))) \<and>
     distinct (map m_id (ml_nodes g)) \<and> distinct (map (g_name \<circ> m_graph) (ml_nodes g)) \<and>
     (\<forall>e \<in> set (ml_edges g). e_src e \<in> m_id ` set (ml_nodes g) \<and> e_tgt e \<in> m_id ` set (ml_nodes g))"

text \<open>The inputs and outputs of the node at a position.\<close>

abbreviation ins_at :: "MLGraph \<Rightarrow> nat \<Rightarrow> string set" where
  "ins_at g k \<equiv> set (g_inputs (m_graph (ml_nodes g ! k)))"

abbreviation outs_at :: "MLGraph \<Rightarrow> nat \<Rightarrow> string set" where
  "outs_at g k \<equiv> set (g_outputs (m_graph (ml_nodes g ! k)))"

definition keeps_outputs :: "MLGraph \<Rightarrow> nat \<Rightarrow> nat \<Rightarrow> IRGraph \<Rightarrow> bool" where
  "keeps_outputs g i j h \<longleftrightarrow> (\<forall>k \<in> {i..j}. \<forall>x \<in> outs_at g k.
     (\<exists>l. j < l \<and> l < length (ml_nodes g) \<and> x \<in> ins_at g l) \<or> (\<forall>l \<in> {i..j}. x \<notin> ins_at g l) \<longrightarrow> x \<in> set (g_outputs h))"

definition needs_inputs :: "MLGraph \<Rightarrow> nat \<Rightarrow> nat \<Rightarrow> IRGraph \<Rightarrow> bool" where
  "needs_inputs g i j h \<longleftrightarrow> (\<forall>x \<in> set (g_inputs h). \<exists>k \<in> {i..j}. x \<in> ins_at g k \<and>
     (is_param_input (m_graph (ml_nodes g ! k)) x \<or> (\<forall>l \<in> {i..<k}. x \<notin> outs_at g l)))"

definition range_graph :: "MLGraph \<Rightarrow> nat \<Rightarrow> nat \<Rightarrow> IRGraph \<Rightarrow> bool" where
  "range_graph g i j h \<longleftrightarrow> graph_inv h \<and> keeps_outputs g i j h \<and> needs_inputs g i j h \<and>
     set (nodes h) \<subseteq> (\<Union>k \<in> {i..j}. set (nodes (m_graph (ml_nodes g ! k)))) \<and>
     set (g_outputs h) \<subseteq> (\<Union>k \<in> {i..j}. outs_at g k) \<and>
     g_name h = (if i = j then g_name (m_graph (ml_nodes g ! i)) else getMergedGraphId i j)"

definition range_node :: "MLGraph \<Rightarrow> nat \<Rightarrow> nat \<Rightarrow> MLNode \<Rightarrow> bool" where
  "range_node g i j n \<longleftrightarrow> i \<le> j \<and> j < length (ml_nodes g) \<and> range_graph g i j (m_graph n) \<and>
     (if i = j then n = ml_nodes g ! i else m_id n \<notin> m_id ` set (ml_nodes g))"

definition cache_ok :: "MLGraph \<Rightarrow> GraphMergeCache \<Rightarrow> bool" where
  "cache_ok g cache \<longleftrightarrow> (\<forall>k n. um_get cache k = Some n \<longrightarrow> range_node g (fst k) (snd k) n) \<and>
     (\<forall>k < length (ml_nodes g). um_get cache (k, k) \<noteq> None)"

text \<open>The variables of \<open>merge\<close> when the nodes before \<open>i\<close> have joined the base.\<close>

definition vars_ok :: "MLGraph \<Rightarrow> nat \<Rightarrow> nat \<Rightarrow> merge_vars \<Rightarrow> bool" where
  "vars_ok g from i m \<longleftrightarrow> from < i \<and> range_node g from (i - 1) (mg_base m) \<and>
     (\<forall>k. i \<le> k \<and> k < length (ml_nodes g) \<longrightarrow> um_get (rest_nodes m) (m_id (ml_nodes g ! k)) = Some (ml_nodes g ! k)) \<and>
     (\<forall>x y. um_get (mg_names m) x = Some y \<longrightarrow> y = x) \<and>
     (\<forall>e \<in> set (rest_edges m). um_contains (mg_names m) (e_src e) \<and> um_contains (mg_names m) (e_tgt e))"

lemma merge_name_id [simp]: "merge_name (getMergedGraphId i j)"
  by (simp add: merge_name_def getMergedGraphId_def)

lemma stageable_node:
  assumes "stageable D g" "k < length (ml_nodes g)"
  shows "graph_inv (m_graph (ml_nodes g ! k))" "\<not> merge_name (m_id (ml_nodes g ! k))"
    "\<not> merge_name (g_name (m_graph (ml_nodes g ! k)))" "m_id (ml_nodes g ! k) \<noteq> ''ML_'' @ dp_names D i"
  using assms by (simp_all add: stageable_def)

lemma stageable_distinct:
  assumes "stageable D g" "j < length (ml_nodes g)" "k < length (ml_nodes g)"
  shows "m_id (ml_nodes g ! j) = m_id (ml_nodes g ! k) \<longleftrightarrow> j = k"
    "g_name (m_graph (ml_nodes g ! j)) = g_name (m_graph (ml_nodes g ! k)) \<longleftrightarrow> j = k"
  using assms nth_eq_iff_index_eq [of "map m_id (ml_nodes g)" j k]
    nth_eq_iff_index_eq [of "map (g_name \<circ> m_graph) (ml_nodes g)" j k] by (simp_all add: stageable_def)

lemma range_node_single: "stageable D g \<Longrightarrow> k < length (ml_nodes g) \<Longrightarrow> range_node g k k (ml_nodes g ! k)"
  using stageable_node(1) [of D g k]
  by (auto simp: range_node_def range_graph_def keeps_outputs_def needs_inputs_def)

lemma new_cache_ok: "stageable D g \<Longrightarrow> cache_ok g (new_merge_cache g)"
proof -
  assume g: "stageable D g"
  have "range_node g (fst k) (snd k) n" if "um_get (new_merge_cache g) k = Some n" for k n
  proof -
    have "(k, n) \<in> set (map (\<lambda>(i, n). ((i, i), n)) (enumerate 0 (ml_nodes g)))"
      using that unfolding new_merge_cache_def um_get_of by (metis map_of_SomeD set_rev)
    then show ?thesis by (auto simp: in_set_enumerate_eq intro: range_node_single [OF g])
  qed
  moreover have "um_get (new_merge_cache g) (k, k) \<noteq> None" if k: "k < length (ml_nodes g)" for k
  proof -
    have "(k, ml_nodes g ! k) \<in> set (enumerate 0 (ml_nodes g))" using k by (simp add: in_set_enumerate_eq)
    then have "((k, k), ml_nodes g ! k) \<in> set (rev (map (\<lambda>(i, n). ((i, i), n)) (enumerate 0 (ml_nodes g))))" by force
    then show ?thesis unfolding new_merge_cache_def um_get_of by (metis weak_map_of_SomeI option.distinct(1))
  qed
  ultimately show ?thesis by (simp add: cache_ok_def)
qed

text \<open>\<open>absorb\<close> succeeds and moves the variables one node on.\<close>

lemma base_id_absent:
  assumes "stageable D g" "vars_ok g from i m" "i \<le> k" "k < length (ml_nodes g)"
  shows "m_id (mg_base m) \<noteq> m_id (ml_nodes g ! k)"
proof -
  have b: "range_node g from (i - 1) (mg_base m)" "from < i" using assms(2) by (simp_all add: vars_ok_def)
  show ?thesis
  proof (cases "from = i - 1")
    case True
    then have "mg_base m = ml_nodes g ! from" "from < length (ml_nodes g)" "from \<noteq> k" using b assms(3) by (auto simp: range_node_def)
    then show ?thesis using stageable_distinct(1) [OF assms(1)] assms(4) by simp
  next
    case False
    then have "m_id (mg_base m) \<notin> m_id ` set (ml_nodes g)" using b(1) by (auto simp: range_node_def)
    then show ?thesis using assms(4) by auto
  qed
qed

lemma absorb_ok:
  assumes g: "stageable D g" and m: "vars_ok g from i m" and i: "i < length (ml_nodes g)"
    and n: "range_node g from i merged"
  shows "\<exists>m'. absorb from i (ml_nodes g ! i) merged m = Inr m' \<and> vars_ok g from (Suc i) m' \<and> mg_base m' = merged"
proof -
  let ?t = "m_id (ml_nodes g ! i)" and ?b = "m_id (mg_base m)" and ?gid = "getMergedGraphId from i"
  let ?nm = "um_set ?t ?gid (um_set ?b ?gid (mg_names m))"
  have mm: "from < i" "\<And>k. i \<le> k \<Longrightarrow> k < length (ml_nodes g) \<Longrightarrow> um_get (rest_nodes m) (m_id (ml_nodes g ! k)) = Some (ml_nodes g ! k)"
    "\<And>x y. um_get (mg_names m) x = Some y \<Longrightarrow> y = x"
    "\<forall>e \<in> set (rest_edges m). um_contains (mg_names m) (e_src e) \<and> um_contains (mg_names m) (e_tgt e)"
    using m by (simp_all add: vars_ok_def)
  have keys: "um_contains ?nm x" if "um_contains (mg_names m) x" for x using that by (auto simp: um_contains_def um_get_set)
  have "\<forall>e \<in> set (rest_edges m). e_src e \<in> fst ` set ?nm \<and> e_tgt e \<in> fst ` set ?nm"
    using mm(4) keys by (simp add: um_contains_iff)
  then obtain es where es: "mergeEdges (rest_edges m) ?nm = Inr es"
    using merge_edges_total [of "rest_edges m" ?nm "[]"] by (auto simp: mergeEdges_def)
  let ?names = "um_set ?gid ?gid (um_erase ?t (um_erase ?b ?nm))"
  let ?m' = "\<lparr>mg_base = merged, rest_nodes = um_set ?gid merged (um_erase ?t (um_erase ?b (rest_nodes m))),
              rest_edges = es, mg_names = ?names\<rparr>"
  have val: "um_contains ?names y" if y: "um_get ?nm x = Some y" for x y
    using y mm(3) by (cases "x = ?t \<or> x = ?b") (auto simp: um_contains_def um_get_set um_get_erase split: if_splits)
  have ends: "um_contains ?names (e_src e) \<and> um_contains ?names (e_tgt e)" if e: "e \<in> set es" for e
  proof -
    have "e_subs e \<noteq> []" "e_subs e = edges_between ?nm (e_src e) (e_tgt e) (rest_edges m)"
      using mergeEdges_result(2) [OF es e] by blast+
    then obtain f where "um_get ?nm (e_src f) = Some (e_src e)" "um_get ?nm (e_tgt f) = Some (e_tgt e)"
      by (cases "e_subs e") (auto simp: edges_between_def filter_eq_Cons_iff dest!: sym [of "_ # _"])
    with val show ?thesis by blast
  qed
  have rest: "um_get (rest_nodes ?m') (m_id (ml_nodes g ! k)) = Some (ml_nodes g ! k)" if k: "Suc i \<le> k" "k < length (ml_nodes g)" for k
  proof -
    have "m_id (ml_nodes g ! k) \<noteq> ?t" using stageable_distinct(1) [OF g k(2) i] k(1) by simp
    moreover have "m_id (ml_nodes g ! k) \<noteq> ?b" using base_id_absent [OF g m _ k(2)] k(1) by (metis Suc_leD)
    moreover have "m_id (ml_nodes g ! k) \<noteq> ?gid" using stageable_node(2) [OF g k(2)] by auto
    ultimately show ?thesis using mm(2) [of k] k by (simp add: um_get_set um_get_erase)
  qed
  have idn: "y = x" if "um_get ?names x = Some y" for x y
    using that mm(3) by (auto simp: um_get_set um_get_erase split: if_splits)
  have "vars_ok g from (Suc i) ?m'"
    unfolding vars_ok_def
  proof (intro conjI allI impI)
    fix x y assume "um_get (mg_names ?m') x = Some y"
    then have "um_get ?names x = Some y" by (simp only: merge_vars.simps)
    then show "y = x" by (rule idn)
  next
    fix k assume "Suc i \<le> k \<and> k < length (ml_nodes g)"
    then show "um_get (rest_nodes ?m') (m_id (ml_nodes g ! k)) = Some (ml_nodes g ! k)" by (elim conjE) (rule rest)
  qed (use mm(1) n ends in simp_all)
  then show ?thesis using es by (simp add: absorb_def Let_def)
qed

section \<open>One more node\<close>

lemma required_later:
  assumes g: "stageable D g" and m: "vars_ok g from i m" and i: "i < length (ml_nodes g)"
    and l: "i < l" "l < length (ml_nodes g)" and x: "x \<in> ins_at g l"
  shows "x \<in> n_getRequiredInputs (mg_base m) (ml_nodes g ! i) (map snd (rest_nodes m))"
proof -
  have b: "range_node g from (i - 1) (mg_base m)" "from < i" using m by (simp_all add: vars_ok_def)
  have ne_t: "g_name (m_graph (ml_nodes g ! l)) \<noteq> g_name (m_graph (ml_nodes g ! i))"
    using stageable_distinct(2) [OF g l(2) i] l(1) by simp
  have ne_b: "g_name (m_graph (ml_nodes g ! l)) \<noteq> g_name (m_graph (mg_base m))"
  proof (cases "from = i - 1")
    case True
    then have "mg_base m = ml_nodes g ! from" "from < length (ml_nodes g)" "from \<noteq> l" using b l by (auto simp: range_node_def)
    then show ?thesis using stageable_distinct(2) [OF g l(2)] by auto
  next
    case False
    then have "g_name (m_graph (mg_base m)) = getMergedGraphId from (i - 1)"
      using b(1) by (simp add: range_node_def range_graph_def)
    then show ?thesis using stageable_node(3) [OF g l(2)] by auto
  qed
  have "um_get (rest_nodes m) (m_id (ml_nodes g ! l)) = Some (ml_nodes g ! l)" using m l by (simp add: vars_ok_def)
  then have "(m_id (ml_nodes g ! l), ml_nodes g ! l) \<in> set (rest_nodes m)" by (rule map_of_SomeD)
  then have "ml_nodes g ! l \<in> set (map snd (rest_nodes m))" by force
  then show ?thesis using ne_t ne_b x unfolding n_getRequiredInputs_def getRequiredInputs_def by force
qed

lemma interval_Suc: "from < i \<Longrightarrow> {from..i} = insert i {from..i - Suc 0}" for i :: nat
  by auto

lemma merged_range:
  assumes g: "stageable D g" and m: "vars_ok g from i m" and i: "i < length (ml_nodes g)"
    and inv: "graph_inv (m_graph n)"
    and ops: "set (nodes (m_graph n)) \<subseteq> set (nodes (m_graph (mg_base m))) \<union> set (nodes (m_graph (ml_nodes g ! i)))"
    and outs: "g_outputs (m_graph n) = filter (\<lambda>x. x \<notin> ins_at g i \<or>
        x \<in> n_getRequiredInputs (mg_base m) (ml_nodes g ! i) (map snd (rest_nodes m))) (g_outputs (m_graph (mg_base m)))
        @ g_outputs (m_graph (ml_nodes g ! i))"
    and ins: "set (g_inputs (m_graph n)) \<subseteq> set (g_inputs (m_graph (mg_base m))) \<union>
        {x \<in> ins_at g i. is_param_input (m_graph (ml_nodes g ! i)) x \<or> x \<notin> set (g_outputs (m_graph (mg_base m)))}"
    and merged: "m_graph merged = renameIRGraph (getMergedGraphId from i) (m_graph n)" "m_id merged \<notin> m_id ` set (ml_nodes g)"
  shows "range_node g from i merged"
proof -
  have fi: "from < i" and b: "range_graph g from (i - 1) (m_graph (mg_base m))" using m by (simp_all add: vars_ok_def range_node_def)
  let ?b = "m_graph (mg_base m)" and ?req = "n_getRequiredInputs (mg_base m) (ml_nodes g ! i) (map snd (rest_nodes m))"
  have io: "g_outputs (m_graph merged) = g_outputs (m_graph n)" "g_inputs (m_graph merged) = g_inputs (m_graph n)"
    "nodes (m_graph merged) = nodes (m_graph n)" "g_name (m_graph merged) = getMergedGraphId from i"
    by (simp_all add: merged renameIRGraph_def)
  have split: "{from..i} = insert i {from..i - 1}" using interval_Suc [OF fi] by simp
  have kb: "x \<in> set (g_outputs ?b)" if "k \<in> {from..i - 1}" "x \<in> outs_at g k"
    "(\<exists>l. i - 1 < l \<and> l < length (ml_nodes g) \<and> x \<in> ins_at g l) \<or> (\<forall>l \<in> {from..i - 1}. x \<notin> ins_at g l)" for k x
    using b that unfolding range_graph_def keeps_outputs_def by blast
  have keeps: "keeps_outputs g from i (m_graph merged)"
    unfolding keeps_outputs_def io
  proof (intro ballI impI)
    fix k x assume k: "k \<in> {from..i}" and x: "x \<in> outs_at g k"
      and late: "(\<exists>l. i < l \<and> l < length (ml_nodes g) \<and> x \<in> ins_at g l) \<or> (\<forall>l \<in> {from..i}. x \<notin> ins_at g l)"
    show "x \<in> set (g_outputs (m_graph n))"
    proof (cases "k = i")
      case True
      with x outs show ?thesis by simp
    next
      case False
      then have k': "k \<in> {from..i - 1}" using k by auto
      from late show ?thesis
      proof
        assume "\<exists>l. i < l \<and> l < length (ml_nodes g) \<and> x \<in> ins_at g l"
        then obtain l where l: "i < l" "l < length (ml_nodes g)" "x \<in> ins_at g l" by blast
        have "x \<in> set (g_outputs ?b)" by (rule kb [OF k' x]) (use l in auto)
        moreover have "x \<in> ?req" by (rule required_later [OF g m i l])
        ultimately show ?thesis using outs by simp
      next
        assume no: "\<forall>l \<in> {from..i}. x \<notin> ins_at g l"
        have "x \<in> set (g_outputs ?b)" by (rule kb [OF k' x]) (use no split in auto)
        moreover have "x \<notin> ins_at g i" using no fi by simp
        ultimately show ?thesis using outs by simp
      qed
    qed
  qed
  have needs: "needs_inputs g from i (m_graph merged)"
    unfolding needs_inputs_def io
  proof
    fix x assume "x \<in> set (g_inputs (m_graph n))"
    then consider "x \<in> set (g_inputs ?b)" | "x \<in> ins_at g i" "is_param_input (m_graph (ml_nodes g ! i)) x \<or> x \<notin> set (g_outputs ?b)"
      using ins by blast
    then show "\<exists>k \<in> {from..i}. x \<in> ins_at g k \<and> (is_param_input (m_graph (ml_nodes g ! k)) x \<or> (\<forall>l \<in> {from..<k}. x \<notin> outs_at g l))"
    proof cases
      case 1
      then show ?thesis using b unfolding range_graph_def needs_inputs_def split by blast
    next
      case 2
      have "\<forall>l \<in> {from..<i}. x \<notin> outs_at g l" if "\<not> is_param_input (m_graph (ml_nodes g ! i)) x"
      proof (intro ballI notI)
        fix l assume l: "l \<in> {from..<i}" "x \<in> outs_at g l"
        have "x \<in> set (g_outputs ?b)" by (rule kb [of l]) (use l i fi 2(1) in \<open>auto intro!: exI [of _ i]\<close>)
        with 2(2) that show False by simp
      qed
      with 2(1) show ?thesis by (intro bexI [of _ i]) (use fi in auto)
    qed
  qed
  have "graph_inv (m_graph merged)"
    using inv by (simp add: merged renameIRGraph_def graph_inv_def values_ok_def outputs_defined_def verifyNodeInputs_def)
  moreover have "set (nodes (m_graph n)) \<subseteq> (\<Union>k \<in> {from..i}. set (nodes (m_graph (ml_nodes g ! k))))"
    using ops b unfolding range_graph_def split by blast
  moreover have "set (g_outputs (m_graph n)) \<subseteq> (\<Union>k \<in> {from..i}. outs_at g k)"
    using outs b unfolding range_graph_def split by auto
  ultimately show ?thesis
    using keeps needs fi i merged(2) by (simp add: range_node_def range_graph_def io)
qed

lemma base_compatible:
  assumes g: "stageable D g" and m: "vars_ok g from i m" and i: "i < length (ml_nodes g)"
  shows "ids_compatible (nodes (m_graph (mg_base m))) (nodes (m_graph (ml_nodes g ! i)))"
  unfolding ids_compatible_def
proof (intro ballI impI)
  fix a b assume ab: "a \<in> set (nodes (m_graph (mg_base m)))" "b \<in> set (nodes (m_graph (ml_nodes g ! i)))" "n_id a = n_id b"
  have b: "range_node g from (i - 1) (mg_base m)" using m by (simp add: vars_ok_def)
  then have "a \<in> (\<Union>k \<in> {from..i - 1}. set (nodes (m_graph (ml_nodes g ! k))))"
    using ab(1) unfolding range_node_def range_graph_def by blast
  then obtain k where k: "k \<le> i - 1" "a \<in> set (nodes (m_graph (ml_nodes g ! k)))" by auto
  have "k < length (ml_nodes g)" using k(1) b by (simp add: range_node_def)
  then have "ids_compatible (nodes (m_graph (ml_nodes g ! k))) (nodes (m_graph (ml_nodes g ! i)))"
    using g i by (simp add: stageable_def)
  with k(2) ab(2,3) show "a = b" by (simp add: ids_compatible_def)
qed

lemma dp_fresh_runs: "Q (\<lambda>i. dp_names D (dp_drawn s + i)) (s\<lparr>dp_drawn := Suc (dp_drawn s)\<rparr>) \<Longrightarrow> runs (dp_fresh D) s Q"
  by (simp add: runs_def dp_fresh_def)

lemma cache_ok_put: "cache_ok g c \<Longrightarrow> range_node g i j n \<Longrightarrow> cache_ok g (um_set (i, j) n c)"
  using um.sound_put [of c "\<lambda>k n. range_node g (fst k) (snd k) n" "(i, j)" n]
  by (simp add: cache_ok_def) (simp add: um_get_set)

lemma merge_next_runs:
  assumes g: "stageable D g" and m: "vars_ok g from i m" and i: "i < length (ml_nodes g)" and c: "cache_ok g (dp_cache s)"
  shows "runs (merge_next D g from i m) s (\<lambda>m' s'. vars_ok g from (Suc i) m' \<and> cache_ok g (dp_cache s') \<and> dp_prof s' = dp_prof s)"
proof -
  let ?gen = "\<lambda>k. dp_names D (dp_drawn s + k)" and ?t = "ml_nodes g ! i"
  let ?req = "n_getRequiredInputs (mg_base m) ?t (map snd (rest_nodes m))"
  have inv: "graph_inv (m_graph (mg_base m))" "graph_inv (m_graph ?t)"
    using m stageable_node(1) [OF g i] by (simp_all add: vars_ok_def range_node_def range_graph_def)
  obtain n where n: "merge_req ?gen (mg_base m) ?t ?req (rest_edges m) = Inr n" "graph_inv (m_graph n)" "noUnusedValue (m_graph n)"
    "set (nodes (m_graph n)) \<subseteq> set (nodes (m_graph (mg_base m))) \<union> set (nodes (m_graph ?t))"
    "g_outputs (m_graph n) = filter (\<lambda>x. x \<notin> ins_at g i \<or> x \<in> ?req) (g_outputs (m_graph (mg_base m))) @ g_outputs (m_graph ?t)"
    "set (g_inputs (m_graph n)) \<subseteq> set (g_inputs (m_graph (mg_base m))) \<union>
       {x \<in> ins_at g i. is_param_input (m_graph ?t) x \<or> x \<notin> set (g_outputs (m_graph (mg_base m)))}"
    "m_id n = ''ML_'' @ ?gen 0"
    by (rule merge_req_inv [OF inv base_compatible [OF g m i]])
  let ?merged = "MLNode (m_id n) (renameIRGraph (getMergedGraphId from i) (m_graph n)) (m_subs n) (m_edges n)"
  have "\<forall>x \<in> set (ml_nodes g). m_id x \<noteq> ''ML_'' @ dp_names D (dp_drawn s)" using g by (simp add: stageable_def)
  then have "m_id ?merged \<notin> m_id ` set (ml_nodes g)" using n(7) by fastforce
  then have r: "range_node g from i ?merged"
    by (intro merged_range [OF g m i n(2,4,5,6)]) simp_all
  obtain m' where m': "absorb from i ?t ?merged m = Inr m'" "vars_ok g from (Suc i) m'" using absorb_ok [OF g m i r] by blast
  have put: "cache_ok g (um_set (from, i) ?merged (dp_cache s))" by (rule cache_ok_put [OF c r])
  have "merge_next D g from i m s =
      Inr (m', s\<lparr>dp_drawn := Suc (dp_drawn s), dp_cache := um_set (from, i) ?merged (dp_cache s)\<rparr>)"
    using i n(1) m'(1) by (simp add: merge_next_def sbind_def dp_fresh_def merge_nodes_def Let_def vec_at_def)
  then show ?thesis using m'(2) put by (simp add: runs_def)
qed

section \<open>A whole range\<close>

lemma cached_part_total:
  assumes "stageable D g" "cache_ok g cache" "vars_ok g from i m"
    and "i \<le> j" "um_get cache (from, j) = None"
  shows "\<exists>k m'. cached_part g cache from i m = Inr (k, m') \<and> vars_ok g from k m' \<and> k \<le> j"
  using assms
proof (induction g cache "from" i m rule: cached_part.induct)
  case (1 g cache "from" i m)
  show ?case
  proof (cases "um_get cache (from, i)")
    case None
    then show ?thesis using "1.prems" by (simp add: cached_part.simps [of g cache "from" i m])
  next
    case (Some part)
    then have part: "range_node g from i part" using "1.prems"(2) unfolding cache_ok_def by fastforce
    then have i: "i < length (ml_nodes g)" by (simp add: range_node_def)
    obtain m' where m': "absorb from i (ml_nodes g ! i) part m = Inr m'" "vars_ok g from (Suc i) m'"
      using absorb_ok [OF "1.prems"(1,3) i part] by blast
    have "i \<noteq> j" using Some "1.prems"(5) by auto
    then have "Suc i \<le> j" using "1.prems"(4) by simp
    with "1.IH" [OF Some i m'(1) "1.prems"(1,2) m'(2) _ "1.prems"(5)] Some i m'(1) show ?thesis
      by (simp add: cached_part.simps [of g cache "from" i m])
  qed
qed

lemma first_vars:
  assumes "stageable D g" "from < length (ml_nodes g)"
  shows "vars_ok g from (Suc from) \<lparr>mg_base = ml_nodes g ! from, rest_nodes = um_of (map (\<lambda>n. (m_id n, n)) (ml_nodes g)),
     rest_edges = ml_edges g, mg_names = um_of (map (\<lambda>n. (m_id n, m_id n)) (ml_nodes g))\<rparr>"
proof -
  have d: "distinct (map m_id (ml_nodes g))" using assms(1) by (simp add: stageable_def)
  have ids: "um_of (map (\<lambda>n. (m_id n, f n)) (ml_nodes g)) = map (\<lambda>n. (m_id n, f n)) (ml_nodes g)" for f :: "MLNode \<Rightarrow> 'a"
    by (rule um_of_distinct) (use d in \<open>simp add: comp_def\<close>)
  have "um_get (map (\<lambda>n. (m_id n, n)) (ml_nodes g)) (m_id (ml_nodes g ! k)) = Some (ml_nodes g ! k)"
    if "k < length (ml_nodes g)" for k
    by (rule map_of_is_SomeI) (use d that in \<open>auto simp: comp_def\<close>)
  moreover have "y = x" if "um_get (map (\<lambda>n. (m_id n, m_id n)) (ml_nodes g)) x = Some y" for x y
    using map_of_SomeD [OF that] by auto
  moreover have "um_contains (map (\<lambda>n. (m_id n, m_id n)) (ml_nodes g)) x" if "x \<in> m_id ` set (ml_nodes g)" for x
    using that by (auto simp: um_contains_iff image_iff)
  moreover have "\<forall>e \<in> set (ml_edges g). e_src e \<in> m_id ` set (ml_nodes g) \<and> e_tgt e \<in> m_id ` set (ml_nodes g)"
    using assms(1) by (simp add: stageable_def)
  ultimately show ?thesis
    unfolding vars_ok_def merge_vars.simps ids diff_Suc_1 using range_node_single [OF assms] by blast
qed

lemma merge_range_runs:
  assumes g: "stageable D g" and ij: "i \<le> j" "j < length (ml_nodes g)" and c: "cache_ok g (dp_cache s)"
  shows "runs (merge_range D g i j) s (\<lambda>h s'. range_graph g i j h \<and> cache_ok g (dp_cache s') \<and> dp_prof s' = dp_prof s)"
proof (cases "um_get (dp_cache s) (i, j)")
  case (Some n)
  then have "range_node g i j n" using c unfolding cache_ok_def by fastforce
  then show ?thesis using Some c by (simp add: runs_def merge_range_def range_node_def)
next
  case None
  let ?m0 = "\<lparr>mg_base = ml_nodes g ! i, rest_nodes = um_of (map (\<lambda>n. (m_id n, n)) (ml_nodes g)),
     rest_edges = ml_edges g, mg_names = um_of (map (\<lambda>n. (m_id n, m_id n)) (ml_nodes g))\<rparr>"
  have i: "i < length (ml_nodes g)" using ij by simp
  then have "i \<noteq> j" using None c by (auto simp: cache_ok_def)
  then have "Suc i \<le> j" using ij by simp
  then obtain k m where km: "cached_part g (dp_cache s) i (Suc i) ?m0 = Inr (k, m)" "vars_ok g i k m" "k \<le> j"
    using cached_part_total [OF g c first_vars [OF g i] _ None] by blast
  let ?P = "\<lambda>pre m s'. vars_ok g i (k + length pre) m \<and> cache_ok g (dp_cache s') \<and> dp_prof s' = dp_prof s"
  have all: "runs (sfold (merge_next D g i) [k..<Suc j] m) s (?P [k..<Suc j])"
  proof (rule runs_sfold)
    show "?P [] m s" using km(2) c by simp
    fix pre x post m1 and s1 :: dp_state
    assume split: "[k..<Suc j] = pre @ x # post" and P: "?P pre m1 s1"
    have "[k..<Suc j] ! length pre = x" by (simp only: split nth_append_length)
    moreover have len: "length pre < Suc j - k" using arg_cong [OF split, of length] by (simp del: upt_Suc)
    ultimately have x: "x = k + length pre" by (subst (asm) nth_upt) simp_all
    then have "x < length (ml_nodes g)" using len ij(2) by simp
    with P x have "runs (merge_next D g i x m1) s1 (\<lambda>m' s'. vars_ok g i (Suc x) m' \<and> cache_ok g (dp_cache s') \<and> dp_prof s' = dp_prof s1)"
      by (intro merge_next_runs [OF g]) simp_all
    then show "runs (merge_next D g i x m1) s1 (?P (pre @ [x]))"
      by (rule runs_mono) (use P x in simp)
  qed
  have fin: "runs (sbind (\<lambda>s. Inr ((), s\<lparr>dp_cache := um_set (i, j) (mg_base m') (dp_cache s)\<rparr>)) (\<lambda>_. sret (m_graph (mg_base m')))) s1
      (\<lambda>h s'. range_graph g i j h \<and> cache_ok g (dp_cache s') \<and> dp_prof s' = dp_prof s)"
    if P: "?P [k..<Suc j] m' s1" for m' and s1 :: dp_state
  proof -
    have "vars_ok g i (Suc j) m'" using P km(3) by (simp del: upt_Suc)
    then have "range_node g i j (mg_base m')" by (simp add: vars_ok_def)
    moreover from this have "cache_ok g (um_set (i, j) (mg_base m') (dp_cache s1))" using P cache_ok_put by blast
    ultimately show ?thesis using P by (simp add: runs_def sbind_def range_node_def)
  qed
  show ?thesis unfolding runs_def merge_range_def None option.case
    by (rule runs_def [THEN iffD1], rule runs_slift_bind, simp add: ij(2), rule runs_slift_bind [of _ "ml_nodes g ! i"], simp add: i,
        rule runs_slift_bind [OF km(1)], unfold prod.case, rule runs_sbind [OF all], rule fin)
qed

end
