(* ===== verification/DP_Staging_Correct.thy ===== *)
theory DP_Staging_Correct
  imports DP_Merge_Correct
begin

text \<open>
  Correctness of the staging search: every solution cuts the level into consecutive, non-empty stages,
  gives every stage at least one device and all devices to the stages together, and each of its
  stages was costed by the search itself and found to fit into memory; \<open>runDpComm\<close> returns the cheapest solution it saw.
\<close>

section \<open>Powers of two\<close>

lemma isPowerOfTwo_iff: "isPowerOfTwo x \<longleftrightarrow> (\<exists>k. x = 2 ^ k)"
proof (induction x rule: isPowerOfTwo.induct)
  case (1 x)
  show ?case
  proof (cases "even x \<and> x > 1")
    case True
    then have "isPowerOfTwo x \<longleftrightarrow> (\<exists>k. x div 2 = 2 ^ k)" using 1 by (subst isPowerOfTwo.simps) simp
    also have "\<dots> \<longleftrightarrow> (\<exists>k. x = 2 ^ Suc k)" using True by (auto elim!: evenE)
    also have "\<dots> \<longleftrightarrow> (\<exists>k. x = 2 ^ k)" using True by (metis less_irrefl not0_implies_Suc power_0)
    finally show ?thesis .
  next
    case False
    have "x = 1 \<longleftrightarrow> (\<exists>k. x = 2 ^ k)"
    proof
      assume "\<exists>k. x = 2 ^ k"
      then obtain k where k: "x = 2 ^ k" ..
      have "k = 0"
      proof (rule ccontr)
        assume "k \<noteq> 0"
        then have "even x" "1 < x" unfolding k using one_less_power [of "2 :: nat" k] by simp_all
        with False show False by blast
      qed
      with k show "x = 1" by simp
    qed (auto intro: exI [of _ 0])
    then show ?thesis by (simp only: isPowerOfTwo.simps [of x] False if_False)
  qed
qed

section \<open>The cost of a stage leaves the caches in order\<close>

lemma dp_profile_cache: "dp_profile D g n cp s = Inr (x, s') \<Longrightarrow> dp_cache s' = dp_cache s"
  by (auto simp: dp_profile_def rbind_eq_Inr)

lemma dp_fresh_cache: "dp_fresh D s = Inr (x, s') \<Longrightarrow> dp_cache s' = dp_cache s"
  by (auto simp: dp_fresh_def)

lemma merge_range_Inr:
  assumes "merge_range D g i j s = Inr (h, s')" "stageable D g" "i \<le> j" "j < length (ml_nodes g)" "cache_ok g (dp_cache s)"
  shows "range_graph g i j h" "cache_ok g (dp_cache s')" "dp_prof s' = dp_prof s"
  using merge_range_runs [OF assms(2-5)] assms(1) by (auto simp: runs_def)

lemma estimateProf_cache:
  assumes "estimateProf D g i j n cp s = Inr (p, s')"
  shows "dp_cache s' = dp_cache s"
proof -
  let ?f = "\<lambda>i prof_sum. sbind (slift (vec_at (ml_nodes g) i)) (\<lambda>node.
            sbind (dp_profile D (m_graph node) n cp) (\<lambda>prof. sret (add_profile prof_sum prof)))"
  obtain z where run: "sfold ?f [i..<Suc j] z s = Inr (p, s')"
    using assms unfolding estimateProf_def by (auto simp: sbind_Inr simp del: upt_Suc)
  show ?thesis
    by (rule sfold_invariant [OF run, of "\<lambda>_ s'. dp_cache s' = dp_cache s"])
       (auto simp: st_simps dest: dp_profile_cache)
qed

lemma stage_cost_cache:
  assumes "stage_cost D r i b k prev s = Inr (c, s')" "stageable D (rn_graph r)" "i < b" "b \<le> layers_of r"
    and "cache_ok (rn_graph r) (dp_cache s)"
  shows "cache_ok (rn_graph r) (dp_cache s')"
proof (cases "dp_coarsening D")
  case True
  have ib: "i \<le> b - 1" "b - 1 < length (ml_nodes (rn_graph r))" using assms(3,4) by (simp_all add: layers_of_def)
  obtain h s1 where h: "merge_range D (rn_graph r) i (b - 1) s = Inr (h, s1)" and "dp_cache s' = dp_cache s1"
    using assms(1) True unfolding stage_cost_def merged_step_cost_def Let_def
    by (auto simp: st_simps dest!: dp_profile_cache dp_fresh_cache)
  then show ?thesis using merge_range_Inr(2) [OF h assms(2) ib assms(5)] by simp
next
  case False
  then have "dp_cache s' = dp_cache s"
    using assms(1) unfolding stage_cost_def summed_step_cost_def
    by (auto simp: st_simps dest!: estimateProf_cache)
  with assms(5) show ?thesis by simp
qed

section \<open>The table\<close>

text \<open>
  The costs that a search works out, in the order in which it does: each in the state that the one before
  it left, the first in the state \<open>st\<close>. An entry is the first node of the stage, the node after its last one,
  its number of devices and the cost.
\<close>

type_synonym costing = "nat \<times> nat \<times> nat \<times> step_cost"

inductive costings :: "DPStaging \<Rightarrow> dp_run \<Rightarrow> dp_state \<Rightarrow> costing list \<Rightarrow> dp_state \<Rightarrow> bool" for D r st where
  none: "costings D r st [] st"
| more: "costings D r st L s \<Longrightarrow> stage_cost D r i b k prev s = Inr (c, s') \<Longrightarrow> costings D r st (L @ [(i, b, k, c)]) s'"

inductive_simps costings_Nil: "costings D r st [] s"
inductive_cases costings_snocE: "costings D r st (L @ [x]) s"

lemmas costings_intros [intro] = costings.intros

text \<open>The stage of the nodes \<open>i, ..., b - 1\<close> passed the filters for \<open>k\<close> devices, was costed and fits.\<close>

definition stage_fits :: "DPStaging \<Rightarrow> dp_run \<Rightarrow> costing list \<Rightarrow> nat \<Rightarrow> nat \<Rightarrow> nat \<Rightarrow> bool" where
  "stage_fits D r L i b k \<longleftrightarrow> too_small D r k = Inr False \<and>
     (\<exists>c. (i, b, k, c) \<in> set L \<and> sc_mem c < word_of_int (dp_dev_mem D))"

lemma stage_fits_more: "stage_fits D r L i b k \<Longrightarrow> set L \<subseteq> set L' \<Longrightarrow> stage_fits D r L' i b k"
  unfolding stage_fits_def by blast

definition tab_shape :: "dp_run \<Rightarrow> DPTable \<Rightarrow> bool" where
  "tab_shape r t \<longleftrightarrow> length t = Suc (rn_stages r) \<and>
     (\<forall>s \<le> rn_stages r. length (t ! s) = Suc (layers_of r) \<and> (\<forall>b \<le> layers_of r. length (t ! s ! b) = Suc (rn_devs r)))"

definition in_tab :: "dp_run \<Rightarrow> nat \<Rightarrow> nat \<Rightarrow> nat \<Rightarrow> bool" where
  "in_tab r s b d \<longleftrightarrow> s \<le> rn_stages r \<and> b \<le> layers_of r \<and> d \<le> rn_devs r"

definition entry_ok :: "DPStaging \<Rightarrow> dp_run \<Rightarrow> costing list \<Rightarrow> DPTable \<Rightarrow> nat \<Rightarrow> nat \<Rightarrow> nat \<Rightarrow> bool" where
  "entry_ok D r L t s b d \<longleftrightarrow> (let x = tab_at t s b d; b' = pre_boundary x; d' = pre_dev_num x in
     ds_eval x < ERROR_VAL \<longrightarrow>
       s - 1 \<le> b' \<and> b' < b \<and> s - 1 \<le> d' \<and> d' < d \<and> (s = 1 \<longrightarrow> b' = 0 \<and> d' = 0) \<and>
       ds_eval (tab_at t (s - 1) b' d') < ERROR_VAL \<and> stage_fits D r L b' b (d - d'))"

text \<open>The rows up to \<open>s\<close> are filled, the later ones are still empty.\<close>

definition tab_inv :: "DPStaging \<Rightarrow> dp_run \<Rightarrow> costing list \<Rightarrow> nat \<Rightarrow> DPTable \<Rightarrow> bool" where
  "tab_inv D r L s t \<longleftrightarrow> tab_shape r t \<and>
     (\<forall>s' b d. in_tab r s' b d \<and> 1 \<le> s' \<and> s' \<le> s \<longrightarrow> entry_ok D r L t s' b d) \<and>
     (\<forall>s' b d. in_tab r s' b d \<and> s < s' \<longrightarrow> ds_eval (tab_at t s' b d) = ERROR_VAL)"

lemma tab_at_set:
  assumes "tab_shape r t" "in_tab r s b d" "in_tab r s' b' d'"
  shows "tab_at (tab_set t s b d x) s' b' d' = (if s' = s \<and> b' = b \<and> d' = d then x else tab_at t s' b' d')"
  using assms unfolding tab_shape_def in_tab_def tab_at_def tab_set_def
  by (cases "s' = s"; cases "b' = b"; cases "d' = d") simp_all

lemma tab_set_shape: "tab_shape r t \<Longrightarrow> in_tab r s b d \<Longrightarrow> tab_shape r (tab_set t s b d x)"
  by (auto simp: tab_shape_def in_tab_def tab_set_def nth_list_update)

lemma new_table_inv: "tab_inv D r L 0 (new_table (rn_stages r) (layers_of r) (rn_devs r))"
proof -
  have "tab_shape r (new_table (rn_stages r) (layers_of r) (rn_devs r))"
    by (auto simp: tab_shape_def new_table_def nth_Cons split: nat.splits)
  moreover have "ds_eval (tab_at (new_table (rn_stages r) (layers_of r) (rn_devs r)) s b d) = ERROR_VAL"
    if "in_tab r s b d" "0 < s" for s b d
    using that by (cases s) (simp_all add: tab_at_def new_table_def in_tab_def new_DPState_def del: replicate_Suc)
  ultimately show ?thesis by (simp add: tab_inv_def)
qed

text \<open>What one round of the search keeps.\<close>

definition split_ok :: "dp_run \<Rightarrow> nat \<Rightarrow> nat \<Rightarrow> nat \<Rightarrow> nat \<Rightarrow> nat \<Rightarrow> bool" where
  "split_ok r s b d b_prev d_prev \<longleftrightarrow> 1 \<le> s \<and> in_tab r s b d \<and> s - 1 \<le> b_prev \<and> b_prev < b \<and> s - 1 \<le> d_prev \<and> d_prev < d \<and>
     (s = 1 \<longrightarrow> b_prev = 0 \<and> d_prev = 0)"

definition search_inv :: "DPStaging \<Rightarrow> dp_run \<Rightarrow> dp_state \<Rightarrow> nat \<Rightarrow> dp_search \<Rightarrow> dp_state \<Rightarrow> bool" where
  "search_inv D r st0 s a st \<longleftrightarrow> (\<exists>L. costings D r st0 L st \<and> tab_inv D r L s (sr_table a)) \<and> cache_ok (rn_graph r) (dp_cache st)"

lemma entry_ok_more: "entry_ok D r L t s b d \<Longrightarrow> set L \<subseteq> set L' \<Longrightarrow> entry_ok D r L' t s b d"
  by (auto simp: entry_ok_def Let_def intro: stage_fits_more)

lemma tab_inv_more: "tab_inv D r L s t \<Longrightarrow> set L \<subseteq> set L' \<Longrightarrow> tab_inv D r L' s t"
  using entry_ok_more unfolding tab_inv_def by blast

lemma update_inv:
  assumes t: "tab_inv D r L s t" and ok: "split_ok r s b d b_prev d_prev"
    and prev: "ds_eval (tab_at t (s - 1) b_prev d_prev) < ERROR_VAL" and fits: "stage_fits D r L b_prev b (d - d_prev)"
  shows "tab_inv D r L s (tab_set t s b d (update_state (tab_at t (s - 1) b_prev d_prev) c b_prev d_prev))"
proof -
  define x where "x = update_state (tab_at t (s - 1) b_prev d_prev) c b_prev d_prev"
  define t' where "t' = tab_set t s b d x"
  have sh: "tab_shape r t" using t by (simp add: tab_inv_def)
  have i: "in_tab r s b d" "in_tab r (s - 1) b_prev d_prev" "1 \<le> s" using ok by (auto simp: split_ok_def in_tab_def)
  have ne: "s - 1 \<noteq> s" using i(3) by simp
  note at = tab_at_set [OF sh i(1), of _ _ _ x, folded t'_def]
  have "entry_ok D r L t' s' b' d'" if in': "in_tab r s' b' d'" "1 \<le> s'" "s' \<le> s" for s' b' d'
  proof (cases "s' = s \<and> b' = b \<and> d' = d")
    case True
    have "tab_at t' (s - 1) b_prev d_prev = tab_at t (s - 1) b_prev d_prev" using at [OF i(2)] ne by simp
    moreover have "tab_at t' s b d = x" using at [OF i(1)] by simp
    ultimately show ?thesis using True ok prev fits by (simp add: entry_ok_def Let_def x_def update_state_def split_ok_def)
  next
    case False
    have same: "tab_at t' s' b' d' = tab_at t s' b' d'" using at [OF in'(1)] False by simp
    have old: "entry_ok D r L t s' b' d'" using t in' unfolding tab_inv_def by blast
    show ?thesis
    proof (cases "ds_eval (tab_at t s' b' d') < ERROR_VAL")
      case True
      let ?y = "tab_at t s' b' d'"
      have less: "s' - 1 < s" using in'(2,3) by simp
      have y: "pre_boundary ?y < b'" "pre_dev_num ?y < d'" using old True by (simp_all add: entry_ok_def Let_def)
      then have "in_tab r (s' - 1) (pre_boundary ?y) (pre_dev_num ?y)" using in'(1) unfolding in_tab_def by linarith
      then have "tab_at t' (s' - 1) (pre_boundary ?y) (pre_dev_num ?y) = tab_at t (s' - 1) (pre_boundary ?y) (pre_dev_num ?y)"
        using at [of "s' - 1"] less by (simp add: less_imp_neq)
      with old show ?thesis by (auto simp add: entry_ok_def Let_def same)
    next
      case no: False
      then show ?thesis by (simp add: entry_ok_def Let_def same)
    qed
  qed
  moreover have "ds_eval (tab_at t' s' b' d') = ERROR_VAL" if "in_tab r s' b' d'" "s < s'" for s' b' d'
  proof -
    have "tab_at t' s' b' d' = tab_at t s' b' d'" using at [OF that(1)] that(2) by simp
    then show ?thesis using t that by (simp add: tab_inv_def)
  qed
  moreover have "tab_shape r t'" unfolding t'_def by (rule tab_set_shape [OF sh i(1)])
  ultimately have "tab_inv D r L s t'" unfolding tab_inv_def by blast
  then show ?thesis by (simp only: t'_def x_def)
qed

lemma try_split_inv:
  assumes run: "try_split D r s b d b_prev d_prev a st = Inr ((a', stop), st')" and g: "stageable D (rn_graph r)"
    and ok: "split_ok r s b d b_prev d_prev" and inv: "search_inv D r st0 s a st"
  shows "search_inv D r st0 s a' st'"
proof -
  let ?prev = "tab_at (sr_table a) (s - 1) b_prev d_prev"
  obtain small where small: "too_small D r (d - d_prev) = Inr small" using run by (auto simp: try_split_def st_simps)
  show ?thesis
  proof (cases "small \<or> ds_eval ?prev \<ge> ERROR_VAL")
    case True
    then have "sr_table a' = sr_table a" "st' = st" using run small by (auto simp: try_split_def st_simps Let_def split: if_splits)
    with inv show ?thesis by (simp add: search_inv_def)
  next
    case False
    obtain L where L: "costings D r st0 L st" "tab_inv D r L s (sr_table a)" using inv by (auto simp: search_inv_def)
    from False obtain c where c: "stage_cost D r b_prev b (d - d_prev) ?prev st = Inr (c, st')"
      and a': "sr_table a' = sr_table a \<or> sc_mem c < word_of_int (dp_dev_mem D) \<and>
        sr_table a' = tab_set (sr_table a) s b d (update_state ?prev c b_prev d_prev)"
      using run small by (auto simp: try_split_def st_simps Let_def not_le split: if_splits)
    have bb: "b_prev < b" "b \<le> layers_of r" using ok by (simp_all add: split_ok_def in_tab_def)
    have cache: "cache_ok (rn_graph r) (dp_cache st')"
      using stage_cost_cache [OF c g bb] inv by (simp add: search_inv_def)
    let ?L = "L @ [(b_prev, b, d - d_prev, c)]"
    have L': "costings D r st0 ?L st'" "tab_inv D r ?L s (sr_table a)"
      by (rule costings.more [OF L(1) c], rule tab_inv_more [OF L(2)]) auto
    from a' show ?thesis
    proof
      assume "sr_table a' = sr_table a"
      with L' cache show ?thesis unfolding search_inv_def by auto
    next
      assume m: "sc_mem c < word_of_int (dp_dev_mem D) \<and> sr_table a' = tab_set (sr_table a) s b d (update_state ?prev c b_prev d_prev)"
      have "stage_fits D r ?L b_prev b (d - d_prev)" using small False m unfolding stage_fits_def by auto
      from update_inv [OF L'(2) ok _ this] L'(1) False m cache show ?thesis unfolding search_inv_def by auto
    qed
  qed
qed

lemma search_inv_flags [simp]:
  "search_inv D r st0 s (a\<lparr>found_d_sol := x, skip_small_bs := y\<rparr>) st = search_inv D r st0 s a st"
  "search_inv D r st0 s (a\<lparr>found_b_sol := x\<rparr>) st = search_inv D r st0 s a st"
  by (simp_all add: search_inv_def)

lemma search_d_prev_inv:
  assumes "search_d_prev D r s b d b_prev ds a st = Inr (a', st')" "stageable D (rn_graph r)"
    and "\<forall>d_prev \<in> set ds. split_ok r s b d b_prev d_prev" "search_inv D r st0 s a st"
  shows "search_inv D r st0 s a' st'"
  using assms
proof (induction ds arbitrary: a st)
  case (Cons e ds)
  then obtain a1 stop st1 where 1: "try_split D r s b d b_prev e a st = Inr ((a1, stop), st1)"
    and rest: "if stop then a1 = a' \<and> st1 = st' else search_d_prev D r s b d b_prev ds a1 st1 = Inr (a', st')"
    by (auto simp: st_simps split: if_splits)
  have "search_inv D r st0 s a1 st1" using try_split_inv [OF 1] Cons.prems by simp
  with rest Cons show ?case by (cases stop) auto
qed (simp add: st_simps)

lemma search_b_prev_inv:
  assumes "search_b_prev D r s b d a st = Inr (a', st')" "stageable D (rn_graph r)"
    and "1 \<le> s" "in_tab r s b d" "s \<le> b" "s \<le> d" "search_inv D r st0 s a st"
  shows "search_inv D r st0 s a' st'"
proof (rule sfold_invariant [OF assms(1) [unfolded search_b_prev_def], of "search_inv D r st0 s"])
  show "search_inv D r st0 s (a\<lparr>found_d_sol := False, skip_small_bs := False\<rparr>) st" using assms(7) by simp
  fix b_prev a1 st1 a2 st2
  assume b_prev: "b_prev \<in> set [s - 1..<if s = 1 then 1 else b]" and inv: "search_inv D r st0 s a1 st1"
    and run: "search_d_prev D r s b d b_prev [s - 1..<if s = 1 then 1 else d] a1 st1 = Inr (a2, st2)"
  have "split_ok r s b d b_prev d_prev" if "d_prev \<in> set [s - 1..<if s = 1 then 1 else d]" for d_prev
    using b_prev that assms(3-6) by (auto simp: split_ok_def split: if_splits)
  then show "search_inv D r st0 s a2 st2" by (intro search_d_prev_inv [OF run assms(2) _ inv] ballI)
qed

lemma search_d_inv:
  assumes "search_d D r s b ds am st = Inr (am', st')" "stageable D (rn_graph r)"
    and "1 \<le> s" "b \<le> layers_of r" "s \<le> rn_stages r" "s \<le> b" "\<forall>d \<in> set ds. s \<le> d \<and> d \<le> rn_devs r" "search_inv D r st0 s (fst am) st"
  shows "search_inv D r st0 s (fst am') st'"
  using assms
proof (induction ds arbitrary: am st)
  case (Cons d ds)
  then obtain a1 st1 where 1: "search_b_prev D r s b d (fst am) st = Inr (a1, st1)"
    and rest: "if \<not> found_d_sol a1 \<and> \<not> skip_small_bs a1 then am' = (a1, d + 1) \<and> st1 = st'
      else search_d D r s b ds (a1, snd am) st1 = Inr (am', st')"
    by (auto simp: st_simps split: if_splits)
  have "search_inv D r st0 s a1 st1"
    by (rule search_b_prev_inv [OF 1]) (use Cons.prems in \<open>simp_all add: in_tab_def\<close>)
  with rest Cons show ?case by (auto split: if_splits)
qed (simp add: st_simps)

lemma search_b_inv:
  assumes "search_b D r s bs am st = Inr (am', st')" "stageable D (rn_graph r)"
    and "1 \<le> s" "s \<le> rn_stages r" "\<forall>b \<in> set bs. s \<le> b \<and> b \<le> layers_of r" "search_inv D r st0 s (fst am) st"
  shows "search_inv D r st0 s (fst am') st'"
  using assms
proof (induction bs arbitrary: am st)
  case (Cons b bs)
  then obtain am1 st1 where 1: "search_d D r s b (rev [max (snd am) s..<Suc (rn_devs r)]) ((fst am)\<lparr>found_b_sol := False\<rparr>, snd am) st = Inr (am1, st1)"
    and rest: "if \<not> found_b_sol (fst am1) then am' = am1 \<and> st' = st1 else search_b D r s bs am1 st1 = Inr (am', st')"
    by (auto simp: st_simps simp del: upt_Suc split: if_splits)
  have "search_inv D r st0 s (fst am1) st1"
    by (rule search_d_inv [OF 1]) (use Cons.prems in \<open>auto simp del: upt_Suc\<close>)
  with rest Cons show ?case by (auto split: if_splits)
qed (simp add: st_simps)

lemma next_row:
  assumes "tab_inv D r L s t"
  shows "tab_inv D r L (Suc s) t"
proof -
  have old: "entry_ok D r L t s' b d" if "in_tab r s' b d" "1 \<le> s'" "s' \<le> Suc s" for s' b d
  proof (cases "s' = Suc s")
    case True
    then have "ds_eval (tab_at t s' b d) = ERROR_VAL" using assms that(1) by (simp add: tab_inv_def)
    then show ?thesis by (simp add: entry_ok_def)
  next
    case False
    then show ?thesis using assms that by (simp add: tab_inv_def)
  qed
  with assms show ?thesis by (simp add: tab_inv_def)
qed

lemma search_stages_inv:
  assumes "sfold (search_stage D r) [1..<Suc n] a st = Inr (a', st')" "n \<le> rn_stages r" "rn_stages r \<le> layers_of r"
    and "stageable D (rn_graph r)" "search_inv D r st0 0 a st"
  shows "search_inv D r st0 n a' st'"
  using assms(1,2)
proof (induction n arbitrary: a' st')
  case 0
  then show ?case using assms(5) by (simp add: st_simps)
next
  case (Suc n)
  have "[1..<Suc (Suc n)] = [1..<Suc n] @ [Suc n]" by simp
  then obtain a1 st1 where 1: "sfold (search_stage D r) [1..<Suc n] a st = Inr (a1, st1)" "search_stage D r (Suc n) a1 st1 = Inr (a', st')"
    using Suc.prems(1) by (auto simp: sfold_append st_simps simp del: upt_Suc)
  have "search_inv D r st0 n a1 st1" using Suc.IH [OF 1(1)] Suc.prems(2) by simp
  then have inv: "search_inv D r st0 (Suc n) a1 st1" unfolding search_inv_def using next_row by blast
  obtain am where am: "search_b D r (Suc n) [if Suc n = rn_stages r then layers_of r else Suc n..<Suc (layers_of r + Suc n - rn_stages r)] (a1, 1) st1 = Inr (am, st')"
    "a' = fst am"
    using 1(2) by (auto simp: search_stage_def Let_def st_simps simp del: upt_Suc)
  show ?case unfolding am(2)
    by (rule search_b_inv [OF am(1) assms(4)]) (use Suc.prems(2) assms(3) inv in \<open>auto simp del: upt_Suc split: if_splits\<close>)
qed

section \<open>Names of stages\<close>

lemma nat_str_digits: "c \<in> set (nat_str n) \<Longrightarrow> \<exists>k < (10 :: nat). c = char_of (48 + k)"
proof (induction n rule: nat_str.induct)
  case (1 n)
  show ?case
  proof (cases "n < 10")
    case True
    then show ?thesis using 1(2) by (subst (asm) nat_str.simps) auto
  next
    case False
    then have "c \<in> set (nat_str (n div 10)) \<or> c = char_of (48 + n mod 10)"
      using 1(2) by (subst (asm) nat_str.simps) auto
    then show ?thesis using 1(1) [OF False] by (metis mod_less_divisor zero_less_numeral)
  qed
qed

lemma nat_str_no_underscore: "CHR ''_'' \<notin> set (nat_str n)"
proof
  assume "CHR ''_'' \<in> set (nat_str n)"
  then obtain k :: nat where k: "k < 10" "CHR ''_'' = char_of (48 + k)" using nat_str_digits by blast
  then have "of_char (CHR ''_'') = (48 + k :: nat)" by (simp add: of_char_of del: of_char_Char)
  with k(1) show False by simp
qed

lemma getMergedGraphId_inj: "getMergedGraphId i j = getMergedGraphId k l \<longleftrightarrow> i = k \<and> j = l"
proof
  assume "getMergedGraphId i j = getMergedGraphId k l"
  then have eq: "nat_str i @ ''_'' @ nat_str j = nat_str k @ ''_'' @ nat_str l" by (simp add: getMergedGraphId_def)
  have part: "takeWhile (\<lambda>c. c \<noteq> CHR ''_'') (nat_str a @ ''_'' @ nat_str b) = nat_str a" for a b
    using nat_str_no_underscore by (subst takeWhile_append2) auto
  have "nat_str i = nat_str k" using arg_cong [OF eq, of "takeWhile (\<lambda>c. c \<noteq> CHR ''_'')"] unfolding part .
  with eq show "i = k \<and> j = l" by (simp add: nat_str_inj)
qed simp

lemma range_name_inj:
  assumes g: "stageable D g" and h: "range_graph g i j h" "range_graph g k l h'" "g_name h = g_name h'"
    and "i \<le> j" "j < length (ml_nodes g)" "k \<le> l" "l < length (ml_nodes g)"
  shows "i = k \<and> j = l"
proof -
  have n: "g_name h = (if i = j then g_name (m_graph (ml_nodes g ! i)) else getMergedGraphId i j)"
    "g_name h' = (if k = l then g_name (m_graph (ml_nodes g ! k)) else getMergedGraphId k l)"
    using h by (simp_all add: range_graph_def)
  have ij: "i < length (ml_nodes g)" "k < length (ml_nodes g)" using assms(5-8) by simp_all
  have plain: "g_name (m_graph (ml_nodes g ! a)) \<noteq> getMergedGraphId b c" if "a < length (ml_nodes g)" for a b c
    using stageable_node(3) [OF g that] by (metis merge_name_id)
  consider "i = j" "k = l" | "i = j" "k \<noteq> l" | "i \<noteq> j" "k = l" | "i \<noteq> j" "k \<noteq> l" by blast
  then show ?thesis
  proof cases
    case 1
    then show ?thesis using n h(3) stageable_distinct(2) [OF g ij] by simp
  next
    case 2
    then show ?thesis using n h(3) plain [OF ij(1), of k l] by simp
  next
    case 3
    then show ?thesis using n h(3) plain [OF ij(2), of i j] by simp
  next
    case 4
    then show ?thesis using n h(3) getMergedGraphId_inj by simp
  qed
qed

section \<open>Solutions\<close>

text \<open>
  The stages cut the nodes at the boundaries \<open>bs\<close> and use the devices up to \<open>ds\<close>: stage \<open>i\<close> is the merged
  graph of its nodes, was found to fit, and its entry of \<open>repl\<close> is its share of the devices, for all replicas.
\<close>

definition staging ::
    "DPStaging \<Rightarrow> dp_run \<Rightarrow> costing list \<Rightarrow> nat \<Rightarrow> nat \<Rightarrow> nat \<Rightarrow> nat list \<Rightarrow> nat list \<Rightarrow> IRGraph list \<Rightarrow> (string, int) umap \<Rightarrow> bool" where
  "staging D r L n b d bs ds gs repl \<longleftrightarrow>
     length gs = n \<and> length bs = Suc n \<and> length ds = Suc n \<and> bs ! 0 = 0 \<and> ds ! 0 = 0 \<and> bs ! n = b \<and> ds ! n = d \<and>
     (\<forall>i < n. bs ! i < bs ! Suc i \<and> ds ! i < ds ! Suc i \<and>
        range_graph (rn_graph r) (bs ! i) (bs ! Suc i - 1) (gs ! i) \<and>
        stage_fits D r L (bs ! i) (bs ! Suc i) (ds ! Suc i - ds ! i) \<and>
        um_get repl (g_name (gs ! i)) = Some (wrap32 (int (ds ! Suc i - ds ! i) * rn_replica r)))"

lemma staging_mono:
  assumes "staging D r L n b d bs ds gs repl" "i \<le> j" "j \<le> n"
  shows "bs ! i \<le> bs ! j \<and> ds ! i \<le> ds ! j"
  using assms(2,3)
proof (induction j)
  case (Suc j)
  have "bs ! j < bs ! Suc j \<and> ds ! j < ds ! Suc j" using assms(1) Suc.prems unfolding staging_def by simp
  with Suc show ?case by (cases "i = Suc j") auto
qed simp

lemma trace_back_result:
  assumes "trace_back D r t s b d sol st = Inr (Some sol', st')" "tab_inv D r L (rn_stages r) t" "in_tab r s b d"
    and "s = 0 \<longrightarrow> b = 0 \<and> d = 0" "stageable D (rn_graph r)" "cache_ok (rn_graph r) (dp_cache st)"
  shows "\<exists>bs ds gs. fst sol' = fst sol @ rev gs \<and> staging D r L s b d bs ds gs (snd sol') \<and>
    (\<forall>x. x \<notin> g_name ` set gs \<longrightarrow> um_get (snd sol') x = um_get (snd sol) x) \<and> dp_prof st' = dp_prof st"
  using assms
proof (induction s arbitrary: b d sol st)
  case 0
  then show ?case
    by (intro exI [of _ "[0]"] exI [of _ "[]"]) (auto simp: st_simps staging_def)
next
  case (Suc s)
  let ?x = "tab_at t (Suc s) b d"
  let ?b = "pre_boundary ?x" and ?d = "pre_dev_num ?x"
  let ?repl = "wrap32 ((int d - int ?d) * rn_replica r)"
  have ev: "ds_eval ?x < ERROR_VAL" using Suc.prems(1) by (auto simp: Let_def st_simps not_le split: if_splits)
  obtain h st1 where h: "merge_range D (rn_graph r) ?b (b - 1) st = Inr (h, st1)"
    and rest: "trace_back D r t s ?b ?d (fst sol @ [h], um_set (g_name h) ?repl (snd sol)) st1 = Inr (Some sol', st')"
    using Suc.prems(1) ev by (auto simp: Let_def st_simps)
  have "Suc s \<le> rn_stages r" using Suc.prems(3) by (simp add: in_tab_def)
  then have "entry_ok D r L t (Suc s) b d" using Suc.prems(2,3) by (simp add: tab_inv_def)
  then have e: "?b < b" "?d < d" "s = 0 \<longrightarrow> ?b = 0 \<and> ?d = 0" "stage_fits D r L ?b b (d - ?d)"
    using ev by (simp_all add: entry_ok_def Let_def)
  have bl: "b \<le> length (ml_nodes (rn_graph r))" using Suc.prems(3) by (simp add: in_tab_def layers_of_def)
  have "?b \<le> b - 1" "b - 1 < length (ml_nodes (rn_graph r))" using e(1) bl by simp_all
  note mr = merge_range_Inr [OF h Suc.prems(5) this Suc.prems(6)]
  have "in_tab r s ?b ?d" using Suc.prems(3) e by (simp add: in_tab_def)
  from Suc.IH [OF rest Suc.prems(2) this e(3) Suc.prems(5) mr(2)]
  obtain bs ds gs where IH: "fst sol' = (fst sol @ [h]) @ rev gs" "staging D r L s ?b ?d bs ds gs (snd sol')"
    "\<forall>x. x \<notin> g_name ` set gs \<longrightarrow> um_get (snd sol') x = um_get (um_set (g_name h) ?repl (snd sol)) x" and prof: "dp_prof st' = dp_prof st" using mr(3) by auto
  have len: "length gs = s" "length bs = Suc s" "length ds = Suc s" "bs ! s = ?b" "ds ! s = ?d" "bs ! 0 = 0" "ds ! 0 = 0"
    using IH(2) by (simp_all add: staging_def)
  have new: "g_name h \<notin> g_name ` set gs"
  proof
    assume "g_name h \<in> g_name ` set gs"
    then obtain i where i: "i < s" "g_name h = g_name (gs ! i)" using len(1) by (auto simp: in_set_conv_nth)
    have r: "range_graph (rn_graph r) (bs ! i) (bs ! Suc i - 1) (gs ! i)" "bs ! i < bs ! Suc i"
      using IH(2) i(1) by (simp_all add: staging_def)
    have le: "bs ! Suc i \<le> ?b" using staging_mono [OF IH(2), of "Suc i" s] i(1) len(4) by simp
    have "bs ! i = ?b \<and> bs ! Suc i - 1 = b - 1"
      by (rule range_name_inj [OF Suc.prems(5) r(1) mr(1) i(2) [symmetric]]) (use r(2) le e(1) bl in auto)
    with r(2) le show False by simp
  qed
  have repl: "um_get (snd sol') (g_name h) = Some (wrap32 (int (d - ?d) * rn_replica r))"
    using IH(3) new e(2) by (simp add: um_get_set of_nat_diff)
  have "staging D r L (Suc s) b d (bs @ [b]) (ds @ [d]) (gs @ [h]) (snd sol')"
    unfolding staging_def
  proof (intro conjI allI impI)
    fix i assume i: "i < Suc s"
    show "(bs @ [b]) ! i < (bs @ [b]) ! Suc i" "(ds @ [d]) ! i < (ds @ [d]) ! Suc i"
      "range_graph (rn_graph r) ((bs @ [b]) ! i) ((bs @ [b]) ! Suc i - 1) ((gs @ [h]) ! i)"
      "stage_fits D r L ((bs @ [b]) ! i) ((bs @ [b]) ! Suc i) ((ds @ [d]) ! Suc i - (ds @ [d]) ! i)"
      "um_get (snd sol') (g_name ((gs @ [h]) ! i)) = Some (wrap32 (int ((ds @ [d]) ! Suc i - (ds @ [d]) ! i) * rn_replica r))"
      using i IH(2) len e mr(1) repl by (cases "i = s"; simp add: nth_append staging_def)+
  qed (use len in \<open>simp_all add: nth_append\<close>)
  moreover have "fst sol' = fst sol @ rev (gs @ [h])" using IH(1) by simp
  moreover have "\<forall>x. x \<notin> g_name ` set (gs @ [h]) \<longrightarrow> um_get (snd sol') x = um_get (snd sol) x"
    using IH(3) by (auto simp: um_get_set)
  ultimately show ?case using prof by blast
qed

lemma doRunDpComm_staging:
  assumes run: "doRunDpComm D r st = Inr (sol, st')" and g: "stageable D (rn_graph r)" and n: "rn_stages r \<ge> 1"
    and found: "al_graphs sol \<noteq> []"
  obtains bs ds L st1 where "costings D r (st\<lparr>dp_cache := new_merge_cache (rn_graph r)\<rparr>) L st1" "dp_prof st' = dp_prof st1"
    and "staging D r L (rn_stages r) (layers_of r) (rn_devs r) bs ds (al_graphs sol) (al_repl_nums sol)"
    and "al_pipeline sol = rn_pipeline r" "al_checkpointing sol = rn_checkpointing r" "rn_stages r \<le> layers_of r"
proof -
  let ?t0 = "new_table (rn_stages r) (layers_of r) (rn_devs r)"
  let ?a0 = "\<lparr>sr_table = ?t0, found_b_sol = False, found_d_sol = False, skip_small_bs = False\<rparr>"
  let ?s0 = "st\<lparr>dp_cache := new_merge_cache (rn_graph r)\<rparr>"
  define best where "best = (\<lambda>a :: dp_search. if ds_eval (tab_at (sr_table a) (rn_stages r) (layers_of r) (rn_devs r)) < ERROR_VAL then rn_devs r else 0)"
  have le: "rn_stages r \<le> layers_of r" using run by (auto simp: doRunDpComm_def split: if_splits)
  obtain a st1 tb where search: "sfold (search_stage D r) [1..<Suc (rn_stages r)] ?a0 ?s0 = Inr (a, st1)"
    and tb: "trace_back D r (sr_table a) (rn_stages r) (layers_of r) (best a) ([], []) st1 = Inr (tb, st')"
    and sol: "sol = (case tb of None \<Rightarrow> \<lparr>al_graphs = [], al_repl_nums = [], al_pipeline = 0, al_checkpointing = False\<rparr>
      | Some (gs, repl) \<Rightarrow> \<lparr>al_graphs = rev gs, al_repl_nums = repl, al_pipeline = rn_pipeline r, al_checkpointing = rn_checkpointing r\<rparr>)"
    using run le unfolding doRunDpComm_def Let_def best_def by (simp add: sbind_Inr sret_Inr del: upt_Suc) blast
  obtain gs repl where some: "tb = Some (gs, repl)" using sol found by (cases tb) auto
  have "search_inv D r ?s0 0 ?a0 ?s0" using new_table_inv [of D r] new_cache_ok [OF g] by (auto simp: search_inv_def)
  from search_stages_inv [OF search order_refl le g this]
  obtain L where L: "costings D r ?s0 L st1" and inv: "tab_inv D r L (rn_stages r) (sr_table a)" "cache_ok (rn_graph r) (dp_cache st1)"
    by (auto simp: search_inv_def)
  have best_in: "in_tab r (rn_stages r) (layers_of r) (best a)" by (simp add: in_tab_def best_def)
  have "ds_eval (tab_at (sr_table a) (rn_stages r) (layers_of r) (best a)) < ERROR_VAL"
    using tb n by (cases "rn_stages r") (auto simp: some Let_def st_simps not_le split: if_splits)
  moreover have "entry_ok D r L (sr_table a) (rn_stages r) (layers_of r) (best a)"
    using inv(1) best_in n by (simp add: tab_inv_def)
  ultimately have "best a \<noteq> 0" by (auto simp: entry_ok_def Let_def)
  then have best: "best a = rn_devs r" by (simp add: best_def split: if_splits)
  from trace_back_result [OF tb [unfolded some] inv(1) best_in _ g inv(2)] n
  obtain bs ds gs' where r: "gs = rev gs'" "staging D r L (rn_stages r) (layers_of r) (best a) bs ds gs' repl" "dp_prof st' = dp_prof st1" by auto
  show ?thesis by (rule that [OF L r(3), of bs ds]) (use r best le in \<open>simp_all add: sol some\<close>)
qed

text \<open>All devices are dealt out.\<close>

lemma staging_sum:
  assumes "staging D r L n b d bs ds gs repl"
  shows "(\<Sum>i<n. int (ds ! Suc i - ds ! i) * k) = int d * k"
proof -
  have "(\<Sum>i<m. int (ds ! Suc i - ds ! i)) = int (ds ! m)" if "m \<le> n" for m
    using that
  proof (induction m)
    case 0
    then show ?case using assms by (simp add: staging_def)
  next
    case (Suc m)
    have "ds ! m < ds ! Suc m" using assms Suc.prems by (simp add: staging_def)
    with Suc show ?case by simp
  qed
  from this [of n] assms show ?thesis by (simp add: staging_def flip: sum_distrib_right)
qed

lemma staging_shares:
  assumes st: "staging D r L n b d bs ds gs repl" and k: "0 < rn_replica r" "int d * rn_replica r < 2 ^ 31"
  shows "(\<Sum>i<n. the (um_get repl (g_name (gs ! i)))) = int d * rn_replica r"
    and "i < n \<Longrightarrow> rn_replica r \<le> the (um_get repl (g_name (gs ! i)))"
proof -
  have share: "um_get repl (g_name (gs ! i)) = Some (int (ds ! Suc i - ds ! i) * rn_replica r)" if i: "i < n" for i
  proof -
    have "ds ! Suc i \<le> d" using staging_mono [OF st, of "Suc i" n] st i by (simp add: staging_def)
    then have "int (ds ! Suc i - ds ! i) \<le> int d" by simp
    then have "int (ds ! Suc i - ds ! i) * rn_replica r \<le> int d * rn_replica r" using k(1) by (intro mult_right_mono) simp_all
    moreover have "0 \<le> int (ds ! Suc i - ds ! i) * rn_replica r" using k(1) by simp
    ultimately have "wrap32 (int (ds ! Suc i - ds ! i) * rn_replica r) = int (ds ! Suc i - ds ! i) * rn_replica r"
      using k(2) by (intro wrap32_id) linarith+
    then show ?thesis using st i by (simp add: staging_def)
  qed
  have "(\<Sum>i<n. the (um_get repl (g_name (gs ! i)))) = (\<Sum>i<n. int (ds ! Suc i - ds ! i) * rn_replica r)"
    by (intro sum.cong refl) (simp add: share)
  also have "\<dots> = int d * rn_replica r" by (rule staging_sum [OF st])
  finally show "(\<Sum>i<n. the (um_get repl (g_name (gs ! i)))) = int d * rn_replica r" .
  assume i: "i < n"
  then have "1 \<le> int (ds ! Suc i - ds ! i)" using st by (auto simp: staging_def)
  then have "1 * rn_replica r \<le> int (ds ! Suc i - ds ! i) * rn_replica r" using k(1) by (intro mult_right_mono) simp_all
  then show "rn_replica r \<le> the (um_get repl (g_name (gs ! i)))" by (simp add: share [OF i])
qed

section \<open>Running the stages one after the other\<close>

text \<open>A stage sees only its own inputs, and adds its outputs to what the later stages can receive.\<close>

definition run_stage :: "'v operators \<Rightarrow> IRGraph \<Rightarrow> 'v env \<Rightarrow> 'v env option" where
  "run_stage sem h env =
     (if set (g_inputs h) \<subseteq> dom env
      then map_option (\<lambda>vs. \<lambda>x. case map_of (zip (g_outputs h) vs) x of Some v \<Rightarrow> v | None \<Rightarrow> env x)
             (run_graph sem h (env |` set (g_inputs h)))
      else None)"

primrec run_stages :: "'v operators \<Rightarrow> IRGraph list \<Rightarrow> 'v env \<Rightarrow> 'v env option" where
  "run_stages sem [] env = Some env"
| "run_stages sem (h # hs) env = Option.bind (run_stage sem h env) (run_stages sem hs)"

lemma run_stages_append: "run_stages sem (hs @ ks) env = Option.bind (run_stages sem hs env) (run_stages sem ks)"
  by (induction hs arbitrary: env) (simp_all add: Option.bind_eq_Some_conv split: Option.bind_splits)

lemma run_stage_result:
  assumes "graph_inv h" "\<forall>k \<in> set (nodes h). satisfies sem eps k" "part_of env eps" "set (g_inputs h) \<subseteq> dom env"
  shows "\<exists>env'. run_stage sem h env = Some env' \<and> part_of env' eps \<and> dom env' = dom env \<union> set (g_outputs h)"
proof -
  have "part_of (env |` set (g_inputs h)) eps" using assms(3) by (auto simp: part_of_def restrict_map_def)
  then have run: "run_graph sem h (env |` set (g_inputs h)) = Some (map (\<lambda>x. Some (eps x)) (g_outputs h))"
    by (rule graph_meaning [OF assms(1,2)]) (use assms(4) in auto)
  have "map_of (zip xs (map (\<lambda>x. Some (eps x)) xs)) x = (if x \<in> set xs then Some (Some (eps x)) else None)" for xs x
    by (induction xs) auto
  then have "run_stage sem h env = Some (\<lambda>x. if x \<in> set (g_outputs h) then Some (eps x) else env x)"
    using assms(4) by (auto simp: run_stage_def run intro!: ext)
  then show ?thesis using assms(3) by (auto simp: part_of_def split: if_splits)
qed

text \<open>What a level needs from outside: every input of a node that no earlier node puts out, and its parameters.\<close>

definition level_fed :: "MLGraph \<Rightarrow> 'v env \<Rightarrow> bool" where
  "level_fed g env \<longleftrightarrow> (\<forall>k < length (ml_nodes g). \<forall>x \<in> ins_at g k.
     x \<in> dom env \<or> \<not> is_param_input (m_graph (ml_nodes g ! k)) x \<and> (\<exists>l < k. x \<in> outs_at g l))"

lemma boundary_of:
  assumes st: "staging D r L n b d bs ds gs repl" and l: "l < bs ! m" "m \<le> n"
  shows "\<exists>j < m. bs ! j \<le> l \<and> l < bs ! Suc j"
  using l
proof (induction m)
  case 0
  then show ?case using st by (simp add: staging_def)
next
  case (Suc m)
  show ?case
  proof (cases "l < bs ! m")
    case True
    then show ?thesis using Suc less_SucI by (metis Suc_leD)
  next
    case False
    then show ?thesis using Suc.prems by (intro exI [of _ m]) simp
  qed
qed

lemma stages_run:
  assumes st: "staging D r L n b d bs ds gs repl" and b: "b = layers_of r"
    and sat: "\<forall>k < layers_of r. \<forall>op \<in> set (nodes (m_graph (ml_nodes (rn_graph r) ! k))). satisfies sem eps op"
    and env: "part_of env eps" "level_fed (rn_graph r) env" and m: "m \<le> n"
  shows "\<exists>env'. run_stages sem (take m gs) env = Some env' \<and> part_of env' eps \<and> dom env \<subseteq> dom env' \<and>
    (\<forall>i < m. set (g_outputs (gs ! i)) \<subseteq> dom env')"
  using m
proof (induction m)
  case 0
  then show ?case using env(1) by simp
next
  case (Suc m)
  let ?g = "rn_graph r"
  obtain e where e: "run_stages sem (take m gs) env = Some e" "part_of e eps" "dom env \<subseteq> dom e"
    "\<forall>i < m. set (g_outputs (gs ! i)) \<subseteq> dom e" using Suc by auto
  have rg: "range_graph ?g (bs ! i) (bs ! Suc i - 1) (gs ! i)" "bs ! i < bs ! Suc i" if "i < n" for i
    using st that by (simp_all add: staging_def)
  have top: "bs ! i \<le> layers_of r" if "i \<le> n" for i using staging_mono [OF st that] st b by (simp add: staging_def)
  have mn: "m < n" using Suc.prems by simp
  let ?h = "gs ! m"
  have "satisfies sem eps op" if op: "op \<in> set (nodes ?h)" for op
  proof -
    obtain k where k: "k \<in> {bs ! m..bs ! Suc m - 1}" "op \<in> set (nodes (m_graph (ml_nodes ?g ! k)))"
      using rg(1) [OF mn] op unfolding range_graph_def by blast
    have "k < layers_of r" using k(1) rg(2) [OF mn] top [of "Suc m"] mn by auto
    with sat k(2) show ?thesis by blast
  qed
  moreover have "x \<in> dom e" if x: "x \<in> set (g_inputs ?h)" for x
  proof -
    obtain k where k: "k \<in> {bs ! m..bs ! Suc m - 1}" "x \<in> ins_at ?g k"
      "is_param_input (m_graph (ml_nodes ?g ! k)) x \<or> (\<forall>l \<in> {bs ! m..<k}. x \<notin> outs_at ?g l)"
      using rg(1) [OF mn] x unfolding range_graph_def needs_inputs_def by blast
    have kl: "k < layers_of r" using k(1) rg(2) [OF mn] top [of "Suc m"] mn by auto
    consider "x \<in> dom env" | l where "l < k" "x \<in> outs_at ?g l" "\<not> is_param_input (m_graph (ml_nodes ?g ! k)) x"
      using env(2) kl k(2) unfolding level_fed_def layers_of_def by blast
    then show ?thesis
    proof cases
      case 1
      with e(3) show ?thesis by blast
    next
      case 2
      then have "l < bs ! m" using k(3) by (meson atLeastLessThan_iff not_le)
      then obtain j where j: "j < m" "bs ! j \<le> l" "l < bs ! Suc j" using boundary_of [OF st, of l m] mn by auto
      have "bs ! Suc j \<le> bs ! m" using staging_mono [OF st, of "Suc j" m] j(1) mn by simp
      then have "bs ! Suc j - 1 < k" using j k(1) by auto
      then have "x \<in> set (g_outputs (gs ! j))"
        using rg(1) [of j] j mn 2(2) k(2) kl unfolding range_graph_def keeps_outputs_def layers_of_def by fastforce
      with e(4) j(1) show ?thesis by blast
    qed
  qed
  ultimately obtain e' where e': "run_stage sem ?h e = Some e'" "part_of e' eps" "dom e' = dom e \<union> set (g_outputs ?h)"
    using run_stage_result [of ?h sem eps e] rg(1) [OF mn] e(2) unfolding range_graph_def by blast
  have "take (Suc m) gs = take m gs @ [?h]" using mn st by (simp add: staging_def take_Suc_conv_app_nth)
  then have "run_stages sem (take (Suc m) gs) env = Some e'" using e(1) e'(1) by (simp add: run_stages_append)
  moreover have "\<forall>i < Suc m. set (g_outputs (gs ! i)) \<subseteq> dom e'" using e(4) e'(3) by (auto simp: less_Suc_eq)
  ultimately show ?case using e' e(3) by blast
qed

section \<open>All solutions, and the best one\<close>

lemma no_stages:
  assumes "doRunDpComm D r st = Inr (sol, st')" "rn_stages r = 0"
  shows "al_graphs sol = []"
  using assms by (auto simp: doRunDpComm_def Let_def st_simps)

text \<open>A solution of \<open>runDpComm\<close>: the result of a search, a staging for some number of machines whose costs
  that search worked out, replicated over the others.\<close>

definition solution :: "DPStaging \<Rightarrow> MLGraph \<Rightarrow> nat \<Rightarrow> nat \<Rightarrow> dp_run \<Rightarrow> nat list \<Rightarrow> nat list \<Rightarrow> AllocSolution \<Rightarrow> bool" where
  "solution D g dev_per_node machines r bs ds sol \<longleftrightarrow>
     rn_graph r = g \<and> 1 \<le> rn_stages r \<and> rn_stages r \<le> length (ml_nodes g) \<and>
     (\<exists>n. 1 \<le> n \<and> n \<le> machines \<and> rn_devs r = dev_per_node * n \<and> rn_replica r = int (machines div n)) \<and>
     (\<exists>st0 st1 st2 L. doRunDpComm D r st0 = Inr (sol, st2) \<and>
        costings D r (st0\<lparr>dp_cache := new_merge_cache g\<rparr>) L st1 \<and> dp_prof st2 = dp_prof st1 \<and>
        staging D r L (rn_stages r) (length (ml_nodes g)) (rn_devs r) bs ds (al_graphs sol) (al_repl_nums sol)) \<and>
     al_pipeline sol = rn_pipeline r \<and> al_checkpointing sol = rn_checkpointing r"

definition solved :: "DPStaging \<Rightarrow> MLGraph \<Rightarrow> nat \<Rightarrow> nat \<Rightarrow> AllocSolution \<Rightarrow> bool" where
  "solved D g dev_per_node machines sol \<longleftrightarrow> (\<exists>r bs ds. solution D g dev_per_node machines r bs ds sol)"

lemma search_pipelines_solved:
  assumes "search_pipelines D g k (dev_per_node * n) (int (machines div n)) sols st = Inr (sols', st')"
    and "stageable D g" "1 \<le> n" "n \<le> machines" "\<forall>sol \<in> set sols. solved D g dev_per_node machines sol"
  shows "\<forall>sol \<in> set sols'. solved D g dev_per_node machines sol"
proof (rule sfold_invariant [OF assms(1) [unfolded search_pipelines_def], of "\<lambda>sols _. \<forall>sol \<in> set sols. solved D g dev_per_node machines sol", OF assms(5)])
  fix pl sols1 st1 sols2 st2
  let ?r = "\<lparr>rn_graph = g, rn_stages = k, rn_devs = dev_per_node * n, rn_replica = int (machines div n), rn_pipeline = pl, rn_checkpointing = pl > 1\<rparr>"
  assume old: "\<forall>sol \<in> set sols1. solved D g dev_per_node machines sol"
    and run: "sbind (doRunDpComm D ?r) (\<lambda>sol. sret (if al_graphs sol \<noteq> [] then sols1 @ [sol] else sols1)) st1 = Inr (sols2, st2)"
  from run obtain sol where sol: "doRunDpComm D ?r st1 = Inr (sol, st2)" "sols2 = (if al_graphs sol \<noteq> [] then sols1 @ [sol] else sols1)"
    by (auto simp: st_simps)
  have "solved D g dev_per_node machines sol" if found: "al_graphs sol \<noteq> []"
  proof -
    have k: "rn_stages ?r \<ge> 1" using no_stages [OF sol(1)] found by (cases k) auto
    have g: "stageable D (rn_graph ?r)" using assms(2) by simp
    obtain bs ds L s1 where c: "costings D ?r (st1\<lparr>dp_cache := new_merge_cache (rn_graph ?r)\<rparr>) L s1" "dp_prof st2 = dp_prof s1"
      and r: "staging D ?r L (rn_stages ?r) (layers_of ?r) (rn_devs ?r) bs ds (al_graphs sol) (al_repl_nums sol)"
      "al_pipeline sol = rn_pipeline ?r" "al_checkpointing sol = rn_checkpointing ?r" "rn_stages ?r \<le> layers_of ?r"
      by (rule doRunDpComm_staging [OF sol(1) g k found])
    then have "solution D g dev_per_node machines ?r bs ds sol"
      unfolding solution_def using k assms(3,4) sol(1) c
      by (intro conjI exI [of _ st1] exI [of _ s1] exI [of _ st2] exI [of _ L] exI [of _ n]) (simp_all add: layers_of_def)
    then show ?thesis unfolding solved_def by blast
  qed
  with old sol(2) show "\<forall>sol \<in> set sols2. solved D g dev_per_node machines sol" by auto
qed

lemma search_stages_solved:
  assumes "search_stages D g (dev_per_node * n) (int (machines div n)) ks sols st = Inr (sols', st')"
    and "stageable D g" "1 \<le> n" "n \<le> machines" "\<forall>sol \<in> set sols. solved D g dev_per_node machines sol"
  shows "\<forall>sol \<in> set sols'. solved D g dev_per_node machines sol"
  using assms
proof (induction ks arbitrary: sols st)
  case (Cons k ks)
  then obtain sols1 st1 where 1: "search_pipelines D g k (dev_per_node * n) (int (machines div n)) sols st = Inr (sols1, st1)"
    and rest: "sols' = sols1 \<or> search_stages D g (dev_per_node * n) (int (machines div n)) ks sols1 st1 = Inr (sols', st')"
    by (auto simp: st_simps split: if_splits)
  have "\<forall>sol \<in> set sols1. solved D g dev_per_node machines sol"
    by (rule search_pipelines_solved [OF 1 Cons.prems(2-5)])
  with rest Cons show ?case by blast
qed (simp add: st_simps)

lemma search_nodes_solved:
  assumes "search_nodes D g dev_per_node machines ns sols st = Inr (sols', st')"
    and "stageable D g" "\<forall>n \<in> set ns. 1 \<le> n \<and> n \<le> machines" "\<forall>sol \<in> set sols. solved D g dev_per_node machines sol"
  shows "\<forall>sol \<in> set sols'. solved D g dev_per_node machines sol"
  using assms
proof (induction ns arbitrary: sols st)
  case (Cons n ns)
  show ?case
  proof (cases "stage_range D g dev_per_node n")
    case None
    with Cons show ?thesis by simp
  next
    case (Some lh)
    obtain lo hi where lh: "lh = (lo, hi)" by (cases lh)
    then obtain sols1 st1 where 1: "search_stages D g (dev_per_node * n) (int (machines div n)) [lo..<Suc hi] sols st = Inr (sols1, st1)"
      and rest: "sols' = sols1 \<or> search_nodes D g dev_per_node machines ns sols1 st1 = Inr (sols', st')"
      using Cons.prems(1) Some by (auto simp: st_simps simp del: upt_Suc split: if_splits)
    have "\<forall>sol \<in> set sols1. solved D g dev_per_node machines sol"
      by (rule search_stages_solved [OF 1 Cons.prems(2)]) (use Cons.prems in auto)
    with rest Cons show ?thesis by auto
  qed
qed (simp add: st_simps)

text \<open>\<open>pick_best\<close> takes the first solution of least time.\<close>

definition best_so_far :: "AllocSolution list \<Rightarrow> int list \<Rightarrow> int \<times> AllocSolution option \<Rightarrow> bool" where
  "best_so_far sols ts best \<longleftrightarrow> length ts = length sols \<and> (\<forall>t \<in> set ts. fst best \<le> t) \<and>
     (case snd best of
        None \<Rightarrow> fst best = LONG_MAX
      | Some sol \<Rightarrow> fst best < LONG_MAX \<and> (\<exists>i < length sols. sol = sols ! i \<and> ts ! i = fst best \<and> (\<forall>j < i. fst best < ts ! j)))"

lemma pick_best_result:
  assumes "pick_best D sols st = Inr (best, st')"
  shows "\<exists>ts. smap (estimateTime D) sols st = Inr (ts, st') \<and> best_so_far sols (map (min LONG_MAX) ts) best"
proof -
  let ?f = "\<lambda>sol (best_time, best_sol). sbind (estimateTime D sol) (\<lambda>est_time.
         sret (if est_time < best_time then (est_time, Some sol) else (best_time, best_sol)))"
  have "\<exists>ts. smap (estimateTime D) sols st = Inr (ts, st') \<and> best_so_far (pre @ sols) (pts @ map (min LONG_MAX) ts) best"
    if "sfold ?f sols b0 st = Inr (best, st')" "best_so_far pre pts b0" for pre pts b0 sols st
    using that
  proof (induction sols arbitrary: pre pts b0 st)
    case Nil
    then show ?case by (simp add: st_simps)
  next
    case (Cons sol sols)
    obtain bt bsol where b0: "b0 = (bt, bsol)" by (cases b0)
    have "sbind (sbind (estimateTime D sol) (\<lambda>t. sret (if t < bt then (t, Some sol) else (bt, bsol)))) (sfold ?f sols) st = Inr (best, st')"
      using Cons.prems(1) by (simp only: b0 sfold.simps prod.case)
    then obtain t st1 where t: "estimateTime D sol st = Inr (t, st1)"
      and rest: "sfold ?f sols (if t < bt then (t, Some sol) else (bt, bsol)) st1 = Inr (best, st')"
      by (auto simp: sbind_Inr)
    have le: "bt \<le> LONG_MAX" "length pts = length pre" "\<forall>t \<in> set pts. bt \<le> t"
      using Cons.prems(2) by (auto simp: best_so_far_def b0 split: option.splits)
    have "best_so_far (pre @ [sol]) (pts @ [min LONG_MAX t]) (if t < bt then (t, Some sol) else (bt, bsol))"
    proof (cases "t < bt")
      case True
      then have "\<forall>j < length pts. t < pts ! j" using le(3) by (meson nth_mem order_less_le_trans)
      with True le show ?thesis
        by (auto simp: best_so_far_def nth_append intro!: exI [of _ "length pre"])
    next
      case False
      show ?thesis
      proof (cases bsol)
        case None
        with False Cons.prems(2) show ?thesis by (auto simp: best_so_far_def b0)
      next
        case (Some s0)
        then obtain i where "i < length pre" "s0 = pre ! i" "pts ! i = bt" "\<forall>j < i. bt < pts ! j" "bt < LONG_MAX"
          using Cons.prems(2) by (auto simp: best_so_far_def b0)
        then show ?thesis using False Some le
          by (auto simp: best_so_far_def nth_append intro!: exI [of _ i])
      qed
    qed
    from Cons.IH [OF rest this] obtain ts where "smap (estimateTime D) sols st1 = Inr (ts, st')"
      "best_so_far ((pre @ [sol]) @ sols) ((pts @ [min LONG_MAX t]) @ map (min LONG_MAX) ts) best" by blast
    then show ?case using t by (intro exI [of _ "t # ts"]) (simp add: sbind_def)
  qed
  from this [of sols "(LONG_MAX, None)" st "[]" "[]"] assms show ?thesis
    by (simp add: pick_best_def best_so_far_def)
qed

text \<open>The summaries that a run logs before it searches; they only profile.\<close>

definition summaries :: "DPStaging \<Rightarrow> bool \<Rightarrow> MLGraph \<Rightarrow> nat \<Rightarrow> (dp_state, unit) st" where
  "summaries D show_dp_summary g dev_num =
     (if show_dp_summary
      then sbind (makeNodeEvalSummary D g dev_num (fst (pipeline_range D))) (\<lambda>_.
           sbind (makeNodeMemSummary D g dev_num (fst (pipeline_range D))) (\<lambda>_. sret ()))
      else sret ())"

lemma runDpComm_result:
  assumes run: "runDpComm D show g dev_num st = Inr (sol, st')" and g: "stageable D g"
  obtains m sols ts r bs ds where "m = min dev_num (nat (dp_device_count D))" "0 < m"
    and "solution D g m (dev_num div m) r bs ds sol"
    and "\<exists>st1 st2. summaries D show g dev_num st = Inr ((), st1) \<and>
       search_nodes D g m (dev_num div m) [1..<Suc (dev_num div m)] [] st1 = Inr (sols, st2) \<and>
       (\<exists>st3. smap (estimateTime D) sols st2 = Inr (ts, st3))"
    and "\<exists>i < length sols. sol = sols ! i \<and> (\<forall>j < length sols. ts ! i \<le> ts ! j)"
proof -
  define m where "m = min dev_num (nat (dp_device_count D))"
  have dpn: "nat (min (int dev_num) (dp_device_count D)) = m" by (auto simp: m_def min_def)
  have pos: "min (int dev_num) (dp_device_count D) > 0" using run by (auto simp: runDpComm_def Let_def split: if_splits)
  then have m: "0 < m" by (auto simp: m_def)
  obtain st1 sols st2 best st3 st4 u where summ: "summaries D show g dev_num st = Inr ((), st1)"
    and nodes: "search_nodes D g m (dev_num div m) [1..<Suc (dev_num div m)] [] st1 = Inr (sols, st2)"
    and pick: "pick_best D sols st2 = Inr (best, st3)" and best: "snd best = Some sol"
    using run pos unfolding runDpComm_def Let_def dpn summaries_def [symmetric]
    by (auto simp: sbind_Inr sret_Inr simp del: upt_Suc split: if_splits option.splits)
  have "\<forall>sol \<in> set sols. solved D g m (dev_num div m) sol"
    by (rule search_nodes_solved [OF nodes g]) auto
  moreover obtain ts where ts: "smap (estimateTime D) sols st2 = Inr (ts, st3)" "best_so_far sols (map (min LONG_MAX) ts) best"
    using pick_best_result [OF pick] by blast
  then obtain i where i: "i < length sols" "sol = sols ! i" "map (min LONG_MAX) ts ! i = fst best" "fst best < LONG_MAX"
    "\<forall>t \<in> set (map (min LONG_MAX) ts). fst best \<le> t" "length ts = length sols"
    using best by (auto simp: best_so_far_def)
  ultimately have "solved D g m (dev_num div m) sol" by (metis nth_mem)
  then obtain r bs ds where sol: "solution D g m (dev_num div m) r bs ds sol" unfolding solved_def by (elim exE)
  have "ts ! i \<le> ts ! j" if "j < length sols" for j
  proof -
    have "min LONG_MAX (ts ! i) = fst best" "min LONG_MAX (ts ! i) \<le> min LONG_MAX (ts ! j)"
      using i that by (simp_all add: all_set_conv_all_nth)
    with i(4) show ?thesis by linarith
  qed
  with i(1,2) have least: "\<exists>i < length sols. sol = sols ! i \<and> (\<forall>j < length sols. ts ! i \<le> ts ! j)" by (intro exI [of _ i]) simp
  show ?thesis
    by (rule that [OF m_def m sol _ least]) (use summ nodes ts(1) in \<open>intro exI conjI\<close>)
qed

end
