(* ===== verification/ML_Coarsen_Correct.thy ===== *)
theory ML_Coarsen_Correct
  imports ML_Coarsen "HOL-Library.Multiset"
begin

text \<open>
  Correctness of coarsening: on a level in good order a pass of \<open>mergeAdjacents\<close> returns, its result
  is a level in good order over the same lower nodes and has no more nodes, and \<open>coarsen\<close> terminates.
\<close>

section \<open>Levels in good order\<close>

definition partitioner_ok :: "MLPartitioner \<Rightarrow> bool" where
  "partitioner_ok p \<longleftrightarrow> device_ok (device p) \<and> to_size (replica_count p) > 0 \<and> reach_law (is_reachable p) \<and>
     inj (names p) \<and> (word_of_int (dev_num p * max_pipeline_num p) :: size_t) \<noteq> 0"

definition level_ok :: "bool \<Rightarrow> MLGraph \<Rightarrow> bool" where
  "level_ok amp g \<longleftrightarrow>
     (\<forall>n \<in> set (ml_nodes g). node_ok amp n) \<and>
     (\<forall>n \<in> set (ml_nodes g). \<forall>m \<in> set (ml_nodes g). ids_compatible (nodes (m_graph n)) (nodes (m_graph m))) \<and>
     distinct (map m_id (ml_nodes g)) \<and>
     (\<forall>e \<in> set (ml_edges g). e_src e \<in> m_id ` set (ml_nodes g) \<and> e_tgt e \<in> m_id ` set (ml_nodes g)) \<and>
     (\<forall>e \<in> set (ml_edges g). \<exists>s. calcEdgeSize e = Inr s)"

lemma isConvex_graph [simp]:
  "verts (snd (isConvex reach u v g)) = verts g"
  "(u, v) \<in> set (arcs g) \<Longrightarrow> set (arcs (snd (isConvex reach u v g))) = set (arcs g)"
proof -
  show "verts (snd (isConvex reach u v g)) = verts g"
    by (simp add: isConvex_def Let_def add_edge_def remove_edge_def)
  assume uv: "(u, v) \<in> set (arcs g)"
  have "set (arcs (snd (isConvex reach u v g))) = insert (u, v) (set (arcs g) - {(u, v)})"
    by (simp add: isConvex_def Let_def)
  then show "set (arcs (snd (isConvex reach u v g))) = set (arcs g)" unfolding insert_Diff [OF uv] .
qed

lemma isConvex_irrefl: "reach_law reach \<Longrightarrow> fst (isConvex reach u v g) \<Longrightarrow> u \<noteq> v"
  by (auto simp: isConvex_def Let_def reach_law_def)

lemma fresh_runs: "Q (\<lambda>i. names p (drawn s + i)) (s\<lparr>drawn := Suc (drawn s)\<rparr>) \<Longrightarrow> runs (fresh p) s Q"
  by (simp add: runs_def fresh_def)

lemma ml_profile_runs:
  assumes "partitioner_ok p" "costs_ok (prof_util s)"
  shows "runs (ml_profile p g) s (\<lambda>prof s'. nonneg_profile prof \<and> costs_ok (prof_util s') \<and> drawn s' = drawn s)"
proof -
  have "runs (profile (device p) g (batch_size p) (to_size (replica_count p)) False) (prof_util s)
    (\<lambda>prof s'. nonneg_profile prof \<and> costs_ok s')"
    by (rule profile_runs) (use assms in \<open>simp_all add: partitioner_ok_def\<close>)
  then show ?thesis by (auto simp: runs_def ml_profile_def)
qed

lemma eval_graph_runs:
  assumes "partitioner_ok p" "costs_ok (prof_util s)"
  shows "runs (eval_graph p g) s (\<lambda>c s'. 0 \<le> c \<and> c < LONG_MAX \<and> costs_ok (prof_util s') \<and> drawn s' = drawn s)"
  unfolding eval_graph_def
  by (rule runs_sbind [OF ml_profile_runs [OF assms]]) (auto intro!: runs_sret simp: ml_eval_def nonneg_profile_def LONG_MAX_def)

lemma merged_cost_runs:
  assumes "partitioner_ok p" "costs_ok (prof_util s)" "costable (use_amp_master_params p) (m_graph merged)"
  shows "runs (merged_cost p skip stats ev ea merged) s
    (\<lambda>c s'. (skip \<longrightarrow> c \<in> {None, Some 0}) \<and> costs_ok (prof_util s') \<and> drawn s' = drawn s)"
proof (cases skip)
  case True
  then show ?thesis using assms by (auto simp: merged_cost_def Let_def intro!: runs_sret)
next
  case False
  show ?thesis unfolding merged_cost_def Let_def using False
  proof (simp, intro runs_sbind [OF ml_profile_runs [OF assms(1,2)]])
    fix prof s'
    assume s': "nonneg_profile prof \<and> costs_ok (prof_util s') \<and> drawn s' = drawn s"
    obtain b where "fitToMem (opt_param_factor p) (m_graph merged) prof (dev_mem p) (use_amp_master_params p) = Inr b"
      using fitToMem_total [OF assms(3)] by blast
    then show "runs (sbind (slift (fitToMem (opt_param_factor p) (m_graph merged) prof (dev_mem p) (use_amp_master_params p)))
        (\<lambda>fits. sret (if fits \<longrightarrow> fst stats + snd stats * 2 < ml_eval p prof then None else Some (ml_eval p prof)))) s'
      (\<lambda>c s'. costs_ok (prof_util s') \<and> drawn s' = drawn s)"
      using s' by (intro runs_slift_bind runs_sret) auto
  qed
qed

section \<open>The choice of an adjacent node\<close>

text \<open>
  What the search for the best adjacent node keeps. The merged node of the choice is the lifted node,
  or it is the fusion with \<open>best_adj\<close>. In the second case the improvement can be \<open>-1\<close>, the initial
  bound: the code then keeps the merged node without recording that \<open>best_adj\<close> is used.
\<close>

definition fused :: "MLGraph \<Rightarrow> nat \<Rightarrow> nat set \<Rightarrow> adj_choice \<Rightarrow> bool" where
  "fused ml bv mt c \<longleftrightarrow>
     (best_imprv c = - 1 \<and> m_subs (best_merged c) = [ml_nodes ml ! bv] \<and> m_edges (best_merged c) = []) \<or>
     (best_imprv c \<ge> - 1 \<and> best_adj c < length (ml_nodes ml) \<and> best_adj c \<notin> mt \<and> best_adj c \<noteq> bv \<and>
        m_subs (best_merged c) = [ml_nodes ml ! bv, ml_nodes ml ! best_adj c] \<and>
        m_edges (best_merged c) = ml_edge (ml_nodes ml ! bv) (ml_nodes ml ! best_adj c) (ml_edges ml))"

definition lossless :: "adj_choice \<Rightarrow> bool" where
  "lossless c \<longleftrightarrow> (length (m_subs (best_merged c)) = 2 \<longrightarrow> best_imprv c \<ge> 0)"

definition ops_from_subs :: "MLNode \<Rightarrow> bool" where
  "ops_from_subs n \<longleftrightarrow> set (nodes (m_graph n)) \<subseteq> (\<Union>m \<in> set (m_subs n). set (nodes (m_graph m)))"

definition named_from :: "MLPartitioner \<Rightarrow> nat \<Rightarrow> nat \<Rightarrow> MLNode \<Rightarrow> bool" where
  "named_from p i j n \<longleftrightarrow> (\<exists>k. i \<le> k \<and> k < j \<and> m_id n = ''ML_'' @ names p k)"

definition many_devices :: "MLPartitioner \<Rightarrow> bool" where
  "many_devices p \<longleftrightarrow> 1 < uint (word_of_int (dev_num p * max_pipeline_num p) :: size_t)"

definition choice_ok ::
    "MLPartitioner \<Rightarrow> MLGraph \<Rightarrow> (nat \<times> nat) set \<Rightarrow> bool \<Rightarrow> nat \<Rightarrow> nat set \<Rightarrow> nat \<Rightarrow> adj_choice \<Rightarrow> part_state \<Rightarrow> bool" where
  "choice_ok p ml A skip bv mt d c s \<longleftrightarrow>
     costs_ok (prof_util s) \<and> verts (ac_graph c) = ml_nodes ml \<and> set (arcs (ac_graph c)) = A \<and>
     d \<le> drawn s \<and> named_from p d (drawn s) (best_merged c) \<and>
     node_ok (use_amp_master_params p) (best_merged c) \<and> ops_from_subs (best_merged c) \<and>
     fused ml bv mt c \<and> (skip \<and> many_devices p \<longrightarrow> lossless c)"

lemma device_share_total:
  assumes "partitioner_ok p"
  obtains q where "device_share p w = Inr q" "many_devices p \<Longrightarrow> 0 \<le> q"
proof -
  let ?d = "word_of_int (dev_num p * max_pipeline_num p) :: size_t"
  have q: "device_share p w = Inr (sint (w div ?d))"
    using assms by (simp add: device_share_def udiv_def partitioner_ok_def)
  moreover have "0 \<le> sint (w div ?d)" if "many_devices p"
  proof -
    have "uint (w div ?d) = uint w div uint ?d" by (simp add: uint_div)
    also have "\<dots> \<le> uint w div 2" using that by (intro zdiv_mono2) (simp_all add: many_devices_def)
    also have "\<dots> < 2 ^ 63" using uint_lt2p [of w] by simp
    finally have "uint (w div ?d) < 2 ^ 63" .
    then have "sint (w div ?d) = uint (w div ?d)" 
      unfolding sint_uint by (intro signed_take_bit_int_eq_self) (use uint_ge_0 in \<open>simp_all add: order_trans [OF _ uint_ge_0]\<close>)
    then show ?thesis by simp
  qed
  ultimately show ?thesis by (rule that)
qed

lemma calcCommTime_nonneg: "0 \<le> q \<Longrightarrow> 0 \<le> calcCommTime q"
  by (simp add: calcCommTime_def tdiv_nonneg)

lemma level_nodes_ok:
  assumes "level_ok amp ml" "u < length (ml_nodes ml)" "v < length (ml_nodes ml)"
  shows "node_ok amp (ml_nodes ml ! u)"
    and "ids_compatible (nodes (m_graph (ml_nodes ml ! u))) (nodes (m_graph (ml_nodes ml ! v)))"
  using assms by (auto simp: level_ok_def)

lemma try_adjacent_runs:
  assumes p: "partitioner_ok p" and ml: "level_ok (use_amp_master_params p) ml"
    and A: "A \<subseteq> {..<length (ml_nodes ml)} \<times> {..<length (ml_nodes ml)}" "(bv, b_adj) \<in> A"
    and c: "choice_ok p ml A skip bv (set mt) d c s"
  shows "runs (try_adjacent p ml skip stats bv mt b_adj c) s (choice_ok p ml A skip bv (set mt) d)"
proof -
  let ?amp = "use_amp_master_params p" and ?v = "ml_nodes ml ! bv" and ?a = "ml_nodes ml ! b_adj"
  obtain convex bg where cv: "isConvex (is_reachable p) bv b_adj (ac_graph c) = (convex, bg)" by fastforce
  let ?c = "c\<lparr>ac_graph := bg\<rparr>"
  have lt: "bv < length (ml_nodes ml)" "b_adj < length (ml_nodes ml)" using A by auto
  have cg: "verts (ac_graph c) = ml_nodes ml" "set (arcs (ac_graph c)) = A" "costs_ok (prof_util s)"
    using c by (simp_all add: choice_ok_def)
  have bg: "verts bg = ml_nodes ml" "set (arcs bg) = A"
    using isConvex_graph [where reach = "is_reachable p" and u = bv and v = b_adj and g = "ac_graph c"] cv cg A(2)
    by simp_all
  have c': "choice_ok p ml A skip bv (set mt) d ?c s"
    using c bg by (simp add: choice_ok_def fused_def lossless_def)
  show ?thesis
  proof (cases "b_adj \<in> set mt \<or> \<not> convex")
    case True
    then show ?thesis using c c' cv by (auto simp: try_adjacent_def Let_def intro!: runs_sret)
  next
    case False
    then have conv: "bv \<noteq> b_adj" "b_adj \<notin> set mt"
      using isConvex_irrefl [of "is_reachable p" bv b_adj "ac_graph c"] p cv by (auto simp: partitioner_ok_def)
    have ok: "node_ok ?amp ?v" "node_ok ?amp ?a" "ids_compatible (nodes (m_graph ?v)) (nodes (m_graph ?a))"
      using level_nodes_ok [OF ml] lt by blast+
    obtain vs where vs: "n_getCutValues ?v ?a = Inr vs" "\<And>v. v \<in> set vs \<Longrightarrow> \<exists>s. v_getSizeInByte v = Inr s"
      by (rule cut_values_total [of ?amp ?v ?a]) (use ok in \<open>simp_all add: node_ok_def graph_inv_def\<close>)
    obtain w where w: "sum_sizes vs = Inr w" using sum_sizes_total [OF vs(2)] by blast
    obtain q where q: "device_share p w = Inr q" "many_devices p \<Longrightarrow> 0 \<le> q" by (rule device_share_total [OF p, of w]) blast
    obtain m where m: "merge_nodes (\<lambda>i. names p (drawn s + i)) ?v ?a (ml_nodes ml) (ml_edges ml) = Inr m" "node_ok ?amp m"
      "set (nodes (m_graph m)) \<subseteq> set (nodes (m_graph ?v)) \<union> set (nodes (m_graph ?a))"
      "m_id m = ''ML_'' @ names p (drawn s)" "m_subs m = [?v, ?a]" "m_edges m = ml_edge ?v ?a (ml_edges ml)"
      by (rule merge_nodes_ok [OF ok, of "\<lambda>i. names p (drawn s + i)" "ml_nodes ml" "ml_edges ml"]) auto
    let ?Q = "choice_ok p ml A skip bv (set mt) d"
    have run: "try_adjacent p ml skip stats bv mt b_adj c =
       sbind (slift (n_getCutValues ?v ?a)) (\<lambda>cut_values.
       sbind (slift (rbind (sum_sizes cut_values) (device_share p))) (\<lambda>share_size.
       sbind (fresh p) (\<lambda>gen.
       sbind (slift (merge_nodes gen ?v ?a (ml_nodes ml) (ml_edges ml))) (\<lambda>merged.
       sbind (eval_graph p (m_graph ?v)) (\<lambda>eval_v.
       sbind (eval_graph p (m_graph ?a)) (\<lambda>eval_adj.
       sbind (merged_cost p skip stats eval_v eval_adj merged) (\<lambda>cost.
       sret (case cost of None \<Rightarrow> ?c
         | Some eval_merged \<Rightarrow>
             (let imprv = eval_v + eval_adj + calcCommTime share_size - eval_merged
              in if best_imprv ?c \<le> imprv
                 then ?c\<lparr>best_imprv := imprv, best_adj := b_adj, best_merged := merged\<rparr> else ?c)))))))))"
      using False conv(2) by (simp only: try_adjacent_def cv prod.case Let_def bg if_False simp_thms)
    have final: "?Q (case cost of None \<Rightarrow> ?c
         | Some eval_merged \<Rightarrow>
             (let imprv = ev + ea + calcCommTime q - eval_merged
              in if best_imprv ?c \<le> imprv
                 then ?c\<lparr>best_imprv := imprv, best_adj := b_adj, best_merged := m\<rparr> else ?c)) s3"
      if e: "0 \<le> ev" "0 \<le> ea" "skip \<longrightarrow> cost \<in> {None, Some 0}" "costs_ok (prof_util s3)" "drawn s3 = Suc (drawn s)" for ev ea cost s3
    proof -
      have name_mono: "named_from p d (Suc (drawn s)) n" if "named_from p d (drawn s) n" for n
        using that by (auto simp: named_from_def intro: less_SucI)
      have keep: "?Q ?c s3" using c' e(4,5) name_mono by (simp add: choice_ok_def)
      have new: "?Q (?c\<lparr>best_imprv := imprv, best_adj := b_adj, best_merged := m\<rparr>) s3"
        if imprv: "best_imprv ?c \<le> imprv" "skip \<and> many_devices p \<longrightarrow> 0 \<le> imprv" for imprv
      proof -
        have "- 1 \<le> imprv" using c imprv by (auto simp: choice_ok_def fused_def)
        moreover have "named_from p d (Suc (drawn s)) m"
          using c m(4) by (auto simp: named_from_def choice_ok_def intro!: exI [of _ "drawn s"])
        moreover have "ops_from_subs m" using m(3,5) by (simp add: ops_from_subs_def)
        ultimately show ?thesis using c e(4,5) imprv(2) m(2,5,6) bg conv lt
          by (simp add: choice_ok_def fused_def lossless_def)
      qed
      show ?thesis
      proof (cases cost)
        case (Some em)
        have "skip \<and> many_devices p \<longrightarrow> 0 \<le> ev + ea + calcCommTime q - em"
          using e q(2) Some by (auto intro!: add_nonneg_nonneg calcCommTime_nonneg)
        then show ?thesis using keep new [of "ev + ea + calcCommTime q - em"] by (simp add: Some Let_def)
      qed (simp add: keep)
    qed
    show ?thesis unfolding run
      apply (rule runs_slift_bind [OF vs(1)])
      apply (rule runs_slift_bind [of _ q])
       apply (simp add: w q(1))
      apply (rule runs_sbind [OF fresh_runs, where P = "\<lambda>gen s'. gen = (\<lambda>i. names p (drawn s + i)) \<and> costs_ok (prof_util s') \<and> drawn s' = Suc (drawn s)"])
       apply (simp add: cg(3))
      apply (erule conjE, hypsubst)
      apply (rule runs_slift_bind [OF m(1)])
      apply (erule conjE)
      apply (rule runs_sbind [OF eval_graph_runs [OF p]], assumption)
      apply (elim conjE)
      apply (rule runs_sbind [OF eval_graph_runs [OF p]], assumption)
      apply (elim conjE)
      apply (rule runs_sbind [OF merged_cost_runs [OF p]], assumption)
       apply (use m(2) in \<open>simp add: node_ok_def\<close>)
      apply (rule runs_sret, rule final; simp)
      done
  qed
qed

section \<open>One pass\<close>

definition merged_shape :: "MLGraph \<Rightarrow> MLNode \<Rightarrow> bool" where
  "merged_shape ml n \<longleftrightarrow>
     (\<exists>u \<in> set (ml_nodes ml). m_subs n = [u] \<and> m_edges n = []) \<or>
     (\<exists>u \<in> set (ml_nodes ml). \<exists>v \<in> set (ml_nodes ml). m_subs n = [u, v] \<and> m_edges n = ml_edge u v (ml_edges ml))"

definition match_ok ::
    "MLPartitioner \<Rightarrow> MLGraph \<Rightarrow> (nat \<times> nat) set \<Rightarrow> bool \<Rightarrow> nat \<Rightarrow> nat list \<Rightarrow> match_state \<Rightarrow> part_state \<Rightarrow> bool" where
  "match_ok p ml A skip d pre ms s \<longleftrightarrow>
     costs_ok (prof_util s) \<and> verts (ms_graph ms) = ml_nodes ml \<and> set (arcs (ms_graph ms)) = A \<and> d \<le> drawn s \<and>
     (\<forall>n \<in> set (merged_nodes ms). named_from p d (drawn s) n \<and> node_ok (use_amp_master_params p) n \<and>
        ops_from_subs n \<and> merged_shape ml n) \<and>
     distinct (map m_id (merged_nodes ms)) \<and>
     set pre \<subseteq> set (matched ms) \<and> set (matched ms) \<subseteq> {..<length (ml_nodes ml)} \<and> distinct (matched ms) \<and>
     (\<forall>x \<in> set (matched ms). \<exists>n \<in> set (merged_nodes ms).
        um_get (name_map ms) (m_id (ml_nodes ml ! x)) = Some (m_id n) \<and> ml_nodes ml ! x \<in> set (m_subs n)) \<and>
     length (merged_nodes ms) \<le> length (matched ms) \<and>
     (skip \<and> many_devices p \<longrightarrow>
        mset (concat (map m_subs (merged_nodes ms))) = mset (map ((!) (ml_nodes ml)) (matched ms)))"

lemma named_from_mono: "named_from p i j n \<Longrightarrow> i' \<le> i \<Longrightarrow> j \<le> j' \<Longrightarrow> named_from p i' j' n"
  unfolding named_from_def by (meson le_trans less_le_trans)

lemma named_from_distinct:
  "inj (names p) \<Longrightarrow> named_from p i j m \<Longrightarrow> named_from p j k n \<Longrightarrow> m_id m \<noteq> m_id n"
  by (auto simp: named_from_def inj_eq)

lemma match_state_reorder:
  "ms\<lparr>merged_nodes := a, matched := b, name_map := c, ms_graph := g\<rparr> =
   ms\<lparr>merged_nodes := a, ms_graph := g, matched := b, name_map := c\<rparr>"
  by (cases ms) simp

lemma match_ok_push:
  assumes p: "partitioner_ok p" and ms: "match_ok p ml A skip d pre ms s"
    and N: "named_from p (drawn s) (drawn s') N" "node_ok (use_amp_master_params p) N" "ops_from_subs N" "merged_shape ml N"
    and s': "costs_ok (prof_util s')" "drawn s \<le> drawn s'" and g: "verts g = ml_nodes ml" "set (arcs g) = A"
    and xs: "distinct xs" "set xs \<inter> set (matched ms) = {}" "set xs \<subseteq> {..<length (ml_nodes ml)}" "bv \<in> set xs" "xs \<noteq> []"
    and nm: "\<And>x. x \<in> set xs \<Longrightarrow> um_get nm (m_id (ml_nodes ml ! x)) = Some (m_id N) \<and> ml_nodes ml ! x \<in> set (m_subs N)"
      "\<And>x. x \<in> set (matched ms) \<Longrightarrow> um_get nm (m_id (ml_nodes ml ! x)) = um_get (name_map ms) (m_id (ml_nodes ml ! x))"
    and exact: "skip \<and> many_devices p \<Longrightarrow> mset (m_subs N) = mset (map ((!) (ml_nodes ml)) xs)"
  shows "match_ok p ml A skip d (pre @ [bv])
    (ms\<lparr>merged_nodes := merged_nodes ms @ [N], ms_graph := g, matched := xs @ matched ms, name_map := nm\<rparr>) s'"
proof -
  have old: "\<forall>n \<in> set (merged_nodes ms). named_from p d (drawn s) n \<and> node_ok (use_amp_master_params p) n \<and>
      ops_from_subs n \<and> merged_shape ml n" "d \<le> drawn s" "distinct (map m_id (merged_nodes ms))"
    "set pre \<subseteq> set (matched ms)" "set (matched ms) \<subseteq> {..<length (ml_nodes ml)}" "distinct (matched ms)"
    "\<forall>x \<in> set (matched ms). \<exists>n \<in> set (merged_nodes ms).
        um_get (name_map ms) (m_id (ml_nodes ml ! x)) = Some (m_id n) \<and> ml_nodes ml ! x \<in> set (m_subs n)"
    "length (merged_nodes ms) \<le> length (matched ms)"
    "skip \<and> many_devices p \<longrightarrow>
        mset (concat (map m_subs (merged_nodes ms))) = mset (map ((!) (ml_nodes ml)) (matched ms))"
    using ms by (simp_all add: match_ok_def)
  have inj: "inj (names p)" using p by (simp add: partitioner_ok_def)
  have names: "\<forall>n \<in> set (merged_nodes ms @ [N]). named_from p d (drawn s') n"
    using old(1,2) s'(2) N(1) by (auto intro: named_from_mono)
  have "\<forall>n \<in> set (merged_nodes ms). m_id n \<noteq> m_id N" using old(1) N(1) named_from_distinct [OF inj] by blast
  then have dist: "distinct (map m_id (merged_nodes ms @ [N]))" using old(3) by auto
  have cov: "\<exists>n \<in> set (merged_nodes ms @ [N]). um_get nm (m_id (ml_nodes ml ! x)) = Some (m_id n) \<and> ml_nodes ml ! x \<in> set (m_subs n)"
    if "x \<in> set (xs @ matched ms)" for x
    using that nm old(7) by (cases "x \<in> set xs") fastforce+
  have len: "length (merged_nodes ms @ [N]) \<le> length (xs @ matched ms)"
    using old(8) xs(5) by (cases xs) simp_all
  have ex: "skip \<and> many_devices p \<longrightarrow> mset (concat (map m_subs (merged_nodes ms @ [N]))) =
      mset (map ((!) (ml_nodes ml)) (xs @ matched ms))"
    using old(9) exact by simp
  have rec: "ms\<lparr>merged_nodes := merged_nodes ms @ [N], ms_graph := g, matched := xs @ matched ms, name_map := nm\<rparr> =
      \<lparr>matched = xs @ matched ms, merged_nodes = merged_nodes ms @ [N], name_map = nm, ms_graph = g\<rparr>"
    by (cases ms) simp
  show ?thesis
    unfolding rec match_ok_def match_state.simps
  proof (intro conjI ballI)
    fix n assume n: "n \<in> set (merged_nodes ms @ [N])"
    then have either: "n \<in> set (merged_nodes ms) \<or> n = N" by auto
    show "named_from p d (drawn s') n" using names n by blast
    show "node_ok (use_amp_master_params p) n" using either old(1) N(2) by blast
    show "ops_from_subs n" using either old(1) N(3) by blast
    show "merged_shape ml n" using either old(1) N(4) by blast
  next
    show "set (pre @ [bv]) \<subseteq> set (xs @ matched ms)" using old(4) xs(4) by auto
    show "set (xs @ matched ms) \<subseteq> {..<length (ml_nodes ml)}" using old(5) xs(3) by simp
    show "distinct (xs @ matched ms)" using old(6) xs(1,2) by simp
  qed (fact s' g dist cov len ex order_trans [OF old(2) s'(2)])+
qed

lemma match_node_runs:
  assumes p: "partitioner_ok p" and ml: "level_ok (use_amp_master_params p) ml"
    and A: "A \<subseteq> {..<length (ml_nodes ml)} \<times> {..<length (ml_nodes ml)}"
    and bv: "bv < length (ml_nodes ml)" and ms: "match_ok p ml A skip d pre ms s"
  shows "runs (match_node p ml skip min_num stats num bv ms) s (match_ok p ml A skip d (pre @ [bv]))"
proof (cases "bv \<in> set (matched ms)")
  case True
  then show ?thesis using ms by (auto simp: match_node_def match_ok_def intro!: runs_sret)
next
  case False
  let ?amp = "use_amp_master_params p" and ?v = "ml_nodes ml ! bv" and ?d = "drawn s" and ?mt = "set (matched ms)"
  define targets where "targets =
    (if to_size (int num - int (length (matched ms)) + int (length (merged_nodes ms))) > to_size min_num
     then target_nodes bv (ms_graph ms) else [])"
  let ?s1 = "s\<lparr>drawn := Suc ?d\<rparr>"
  let ?c0 = "\<lparr>best_imprv = - 1, best_adj = 0, best_merged = liftUp (\<lambda>i. names p (?d + i)) ?v, ac_graph = ms_graph ms\<rparr>"
  let ?C = "\<lambda>_ :: nat list. choice_ok p ml A skip bv ?mt ?d"
  have gr: "verts (ms_graph ms) = ml_nodes ml" "set (arcs (ms_graph ms)) = A" "costs_ok (prof_util s)"
    using ms by (simp_all add: match_ok_def)
  have v: "node_ok ?amp ?v" using level_nodes_ok(1) [OF ml bv bv] .
  have targets: "(bv, t) \<in> A" if "t \<in> set targets" for t
    using that unfolding gr(2) [symmetric] arcs_iff by (auto simp: targets_def target_nodes_def split: if_splits)
  have c0: "?C [] ?c0 ?s1"
    using gr v by (auto simp: choice_ok_def fused_def lossless_def ops_from_subs_def named_from_def)
  have search: "runs (sfold (try_adjacent p ml skip stats bv (matched ms)) targets ?c0) ?s1 (?C targets)"
    by (rule runs_sfold [where P = ?C, OF c0])
       (rule try_adjacent_runs [OF p ml A], use targets in auto)
  have step: "match_ok p ml A skip d (pre @ [bv])
      (let ms1 = ms\<lparr>merged_nodes := merged_nodes ms @ [best_merged c], matched := bv # matched ms,
                    name_map := um_set (m_id ?v) (m_id (best_merged c)) (name_map ms), ms_graph := ac_graph c\<rparr>
       in if best_imprv c \<ge> 0
          then ms1\<lparr>matched := best_adj c # matched ms1,
                   name_map := um_set (m_id (verts (ac_graph c) ! best_adj c)) (m_id (best_merged c)) (name_map ms1)\<rparr>
          else ms1) s'" if c: "?C targets c s'" for c s'
  proof -
    let ?N = "best_merged c" and ?a = "ml_nodes ml ! best_adj c"
    have cc: "costs_ok (prof_util s')" "verts (ac_graph c) = ml_nodes ml" "set (arcs (ac_graph c)) = A" "drawn s \<le> drawn s'"
      "named_from p (drawn s) (drawn s') ?N" "node_ok ?amp ?N" "ops_from_subs ?N" "fused ml bv ?mt c"
      "skip \<and> many_devices p \<longrightarrow> lossless c"
      using c by (simp_all add: choice_ok_def)
    have mt: "set (matched ms) \<subseteq> {..<length (ml_nodes ml)}" using ms by (simp add: match_ok_def)
    have "distinct (map m_id (ml_nodes ml))" using ml by (simp add: level_ok_def)
    then have ids: "m_id (ml_nodes ml ! x) = m_id (ml_nodes ml ! y) \<longleftrightarrow> x = y"
      if "x < length (ml_nodes ml)" "y < length (ml_nodes ml)" for x y
      using that nth_eq_iff_index_eq [of "map m_id (ml_nodes ml)" x y] by simp
    have shape: "merged_shape ml ?N" using cc(8) bv by (auto simp: fused_def merged_shape_def)
    have v_sub: "?v \<in> set (m_subs ?N)" using cc(8) by (auto simp: fused_def)
    show ?thesis
    proof (cases "best_imprv c \<ge> 0")
      case True
      then have a: "best_adj c < length (ml_nodes ml)" "best_adj c \<notin> ?mt" "best_adj c \<noteq> bv" "m_subs ?N = [?v, ?a]"
        using cc(8) by (auto simp: fused_def)
      let ?nm = "um_set (m_id ?a) (m_id ?N) (um_set (m_id ?v) (m_id ?N) (name_map ms))"
      have "match_ok p ml A skip d (pre @ [bv])
        (ms\<lparr>merged_nodes := merged_nodes ms @ [?N], ms_graph := ac_graph c, matched := [best_adj c, bv] @ matched ms, name_map := ?nm\<rparr>) s'"
        by (rule match_ok_push [OF p ms cc(5,6,7) shape cc(1,4,2,3)])
           (use a bv False v_sub mt ids in \<open>auto simp: um_get_set\<close>)
      with True cc(2) show ?thesis by (simp add: Let_def)
    next
      case neg: False
      let ?nm = "um_set (m_id ?v) (m_id ?N) (name_map ms)"
      have one: "m_subs ?N = [?v]" if "skip \<and> many_devices p"
        using that cc(8,9) neg by (auto simp: fused_def lossless_def)
      have "match_ok p ml A skip d (pre @ [bv])
        (ms\<lparr>merged_nodes := merged_nodes ms @ [?N], ms_graph := ac_graph c, matched := [bv] @ matched ms, name_map := ?nm\<rparr>) s'"
        by (rule match_ok_push [OF p ms cc(5,6,7) shape cc(1,4,2,3)])
           (use bv False v_sub mt ids one in \<open>auto simp: um_get_set\<close>)
      with neg show ?thesis by (simp add: Let_def match_state_reorder)
    qed
  qed
  show ?thesis
    unfolding match_node_def using False
    apply simp
    apply (rule runs_sbind [OF fresh_runs, where P = "\<lambda>gen s'. gen = (\<lambda>i. names p (?d + i)) \<and> s' = ?s1"])
     apply simp
    apply (erule conjE, hypsubst)
    apply (simp only: Let_def gr(1) targets_def [symmetric])
    apply (rule runs_sbind [OF search])
    apply (rule runs_sret)
    apply (rule step [unfolded Let_def])
    apply assumption
    done
qed

lemma edge_ends_index:
  assumes "x \<in> m_id ` set ns"
  obtains i where "i < length ns" "um_at (um_of (zip (map m_id ns) [0..<length ns])) x = Inr i"
    "um_contains (um_of (zip (map m_id ns) [0..<length ns])) x"
proof -
  let ?m = "um_of (zip (map m_id ns) [0..<length ns])"
  have z: "map_of (rev (zip (map m_id ns) [0..<length ns])) x \<noteq> None"
  proof -
    have "fst ` set (zip (map m_id ns) [0..<length ns]) = set (map fst (zip (map m_id ns) [0..<length ns]))"
      by (simp only: set_map)
    also have "\<dots> = m_id ` set ns" by (subst map_fst_zip) simp_all
    finally show ?thesis using assms by (simp add: map_of_eq_None_iff)
  qed
  then obtain i where i: "um_get ?m x = Some i" by (auto simp: um_get_of)
  then have "(x, i) \<in> set (zip (map m_id ns) [0..<length ns])"
    by (metis um_get_of map_of_SomeD set_rev)
  then have "i < length ns" by (auto dest: set_zip_rightD)
  with i show ?thesis using that by (simp add: um_at_def um_contains_def)
qed

lemma toBGL_total:
  assumes "\<forall>e \<in> set (ml_edges g). e_src e \<in> m_id ` set (ml_nodes g) \<and> e_tgt e \<in> m_id ` set (ml_nodes g)"
  obtains bg where "toBGL g = Inr bg" "verts bg = ml_nodes g"
    "set (arcs bg) \<subseteq> {..<length (ml_nodes g)} \<times> {..<length (ml_nodes g)}"
proof -
  let ?n = "length (ml_nodes g)"
  let ?m = "um_of (zip (map m_id (ml_nodes g)) [0..<?n])"
  let ?f = "\<lambda>e. rbind (rassert (um_contains ?m (e_src e))) (\<lambda>_.
          rbind (rassert (um_contains ?m (e_tgt e))) (\<lambda>_.
          rbind (um_at ?m (e_src e)) (\<lambda>s.
          rbind (um_at ?m (e_tgt e)) (\<lambda>t. Inr (s, t, e)))))"
  have step: "\<exists>s t. ?f e = Inr (s, t, e) \<and> s < ?n \<and> t < ?n" if e: "e \<in> set (ml_edges g)" for e
  proof -
    obtain s where s: "s < ?n" "um_at ?m (e_src e) = Inr s" "um_contains ?m (e_src e)"
      by (rule edge_ends_index [of "e_src e" "ml_nodes g"]) (use assms e in auto)
    obtain t where t: "t < ?n" "um_at ?m (e_tgt e) = Inr t" "um_contains ?m (e_tgt e)"
      by (rule edge_ends_index [of "e_tgt e" "ml_nodes g"]) (use assms e in auto)
    show ?thesis using s t by simp
  qed
  then obtain bes where bes: "rmap ?f (ml_edges g) = Inr bes" using rmap_total [of "ml_edges g" ?f] by blast
  have "a < ?n \<and> b < ?n" if "(a, b, e) \<in> set bes" for a b e
  proof -
    from rmap_elem [OF bes that] obtain e' where e': "e' \<in> set (ml_edges g)" "?f e' = Inr (a, b, e)" by blast
    from step [OF e'(1)] obtain s t where st: "?f e' = Inr (s, t, e')" "s < ?n" "t < ?n" by blast
    from st(1) e'(2) have "(s, t, e') = (a, b, e)" by (simp only: sum.inject)
    with st(2,3) show ?thesis by simp
  qed
  then have "set (arcs \<lparr>verts = ml_nodes g, edges = bes\<rparr>) \<subseteq> {..<?n} \<times> {..<?n}" by (auto simp: arcs_iff)
  moreover have "toBGL g = Inr \<lparr>verts = ml_nodes g, edges = bes\<rparr>"
    unfolding toBGL_def toBGL_of_def Let_def bes by simp
  ultimately show ?thesis using that by simp
qed

lemma sortNodesByEval_runs:
  assumes "partitioner_ok p" "costs_ok (prof_util s)"
  shows "runs (sortNodesByEval p ns bg) s (\<lambda>vs s'. mset vs = mset ns \<and> costs_ok (prof_util s') \<and> drawn s' = drawn s)"
proof -
  let ?P = "\<lambda>s'. costs_ok (prof_util s') \<and> drawn s' = drawn s"
  have eval: "runs (eval_graph p g) s1 (\<lambda>y s'. True \<and> ?P s')" if "?P s1" for g s1
    by (rule runs_mono [OF eval_graph_runs [OF assms(1)]]) (use that in auto)
  have all: "runs (smap (\<lambda>v. eval_graph p (m_graph (verts bg ! v))) ns) s (\<lambda>evs s'. list_all2 (\<lambda>_ _. True) ns evs \<and> ?P s')"
    by (rule runs_smap) (use assms eval in auto)
  have perm: "mset (map snd (sort_key fst (zip evs ns))) = mset ns" if "length evs = length ns" for evs :: "int list"
  proof -
    have "map snd (zip evs ns) = ns" using that by simp
    then show ?thesis by (metis mset_map mset_sort)
  qed
  show ?thesis unfolding sortNodesByEval_def
    by (rule runs_sbind [OF all], rule runs_sret) (auto simp only: perm dest!: list_all2_lengthD)
qed

lemma subnode_ids_snoc:
  "um_get (foldl (\<lambda>m (i, s). um_set i (insert s (um_ref {} m i)) m) [] (kvs)) i =
   (if i \<in> fst ` set kvs then Some {s. (i, s) \<in> set kvs} else None)"
proof (induction kvs rule: rev_induct)
  case (snoc kv kvs)
  show ?case
  proof (cases "fst kv = i")
    case True
    have "i \<notin> fst ` set kvs \<Longrightarrow> (i, x) \<notin> set kvs" for x by force
    with True snoc show ?thesis by (cases kv) (auto simp: um_get_set um_ref_def)
  next
    case False
    with snoc show ?thesis by (cases kv) (auto simp: um_get_set)
  qed
qed simp

lemma subnode_ids_get:
  assumes "N \<in> set ns" "m_subs N \<noteq> []"
  obtains S where "um_get (subnode_ids ns) (m_id N) = Some S" "m_id ` set (m_subs N) \<subseteq> S"
proof -
  let ?kvs = "concat (map (\<lambda>n. map (\<lambda>sn. (m_id n, m_id sn)) (m_subs n)) ns)"
  have sub: "(m_id N, m_id sn) \<in> set ?kvs" if "sn \<in> set (m_subs N)" for sn using assms(1) that by auto
  obtain sn where "sn \<in> set (m_subs N)" using assms(2) by (cases "m_subs N") auto
  then have "m_id N \<in> fst ` set ?kvs" using sub by force
  then have "um_get (subnode_ids ns) (m_id N) = Some {s. (m_id N, s) \<in> set ?kvs}"
    unfolding subnode_ids_def subnode_ids_snoc by simp
  moreover have "m_id ` set (m_subs N) \<subseteq> {s. (m_id N, s) \<in> set ?kvs}" using sub by blast
  ultimately show ?thesis by (rule that)
qed

text \<open>The generator has not yet drawn the name of any node of the level.\<close>

definition names_unused :: "MLPartitioner \<Rightarrow> nat \<Rightarrow> MLGraph \<Rightarrow> bool" where
  "names_unused p d g \<longleftrightarrow> (\<forall>n \<in> set (ml_nodes g). \<forall>k \<ge> d. m_id n \<noteq> ''ML_'' @ names p k)"

lemma names_unused_mono: "names_unused p d g \<Longrightarrow> d \<le> d' \<Longrightarrow> names_unused p d' g"
  by (simp add: names_unused_def)

text \<open>What one pass promises of its result.\<close>

definition pass_ok :: "MLPartitioner \<Rightarrow> bool \<Rightarrow> MLGraph \<Rightarrow> MLGraph \<Rightarrow> bool" where
  "pass_ok p skip ml h \<longleftrightarrow>
     level_ok (use_amp_master_params p) h \<and> g_verify h \<and> length (ml_nodes h) \<le> length (ml_nodes ml) \<and>
     (\<forall>n \<in> set (ml_nodes h). ops_from_subs n \<and> m_subs n \<noteq> []) \<and>
     (\<Union>n \<in> set (ml_nodes h). set (m_subs n)) = set (ml_nodes ml) \<and>
     (skip \<and> many_devices p \<longrightarrow> mset (concat (map m_subs (ml_nodes h))) = mset (ml_nodes ml))"

lemma merged_shape_subs: "merged_shape ml n \<Longrightarrow> m_subs n \<noteq> [] \<and> set (m_subs n) \<subseteq> set (ml_nodes ml)"
  by (auto simp: merged_shape_def)

lemma ml_edge_mem: "e \<in> set (ml_edge u v es) \<Longrightarrow> e_src e = m_id u \<and> e_tgt e = m_id v"
  by (cases "List.find (\<lambda>e. e_src e = m_id u \<and> e_tgt e = m_id v) es") (auto simp: ml_edge_def find_Some_iff)

lemma merged_shape_verify: "merged_shape ml n \<Longrightarrow> n_verify n"
  unfolding merged_shape_def n_verify_def Let_def list_all_iff by (auto dest: ml_edge_mem)

lemma ids_compatible_union:
  assumes "level_ok amp ml" "ops_from_subs n" "ops_from_subs m" "set (m_subs n) \<subseteq> set (ml_nodes ml)" "set (m_subs m) \<subseteq> set (ml_nodes ml)"
  shows "ids_compatible (nodes (m_graph n)) (nodes (m_graph m))"
  unfolding ids_compatible_def
proof (intro ballI impI)
  fix a b assume a: "a \<in> set (nodes (m_graph n))" and b: "b \<in> set (nodes (m_graph m))" and eq: "n_id a = n_id b"
  obtain u where u: "u \<in> set (ml_nodes ml)" "a \<in> set (nodes (m_graph u))"
    using a assms(2,4) unfolding ops_from_subs_def by blast
  obtain v where v: "v \<in> set (ml_nodes ml)" "b \<in> set (nodes (m_graph v))"
    using b assms(3,5) unfolding ops_from_subs_def by blast
  have "ids_compatible (nodes (m_graph u)) (nodes (m_graph v))" using assms(1) u(1) v(1) by (simp add: level_ok_def)
  with u(2) v(2) eq show "a = b" by (simp add: ids_compatible_def)
qed

lemma match_covers:
  assumes "match_ok p ml A skip d pre ms s" "set pre = {..<length (ml_nodes ml)}" "u \<in> set (ml_nodes ml)"
  shows "\<exists>n \<in> set (merged_nodes ms). um_get (name_map ms) (m_id u) = Some (m_id n) \<and> u \<in> set (m_subs n)"
proof -
  obtain x where "x < length (ml_nodes ml)" "u = ml_nodes ml ! x" using assms(3) by (auto simp: in_set_conv_nth)
  moreover have "set (matched ms) = {..<length (ml_nodes ml)}" using assms(1,2) by (auto simp: match_ok_def)
  ultimately show ?thesis using assms(1) by (auto simp: match_ok_def)
qed

lemma pass_result:
  assumes ml: "level_ok (use_amp_master_params p) ml"
    and ms: "match_ok p ml A skip d pre ms s" "set pre = {..<length (ml_nodes ml)}"
    and es: "mergeEdges (ml_edges ml) (name_map ms) = Inr es"
  shows "pass_ok p skip ml \<lparr>ml_nodes = merged_nodes ms, ml_edges = es\<rparr>"
proof -
  let ?h = "\<lparr>ml_nodes = merged_nodes ms, ml_edges = es\<rparr>"
  let ?nodes = "ml_nodes ml" and ?merged = "merged_nodes ms" and ?amp = "use_amp_master_params p"
  have m: "\<forall>n \<in> set ?merged. node_ok ?amp n \<and> ops_from_subs n \<and> merged_shape ml n"
    "distinct (map m_id ?merged)" "length ?merged \<le> length (matched ms)"
    "skip \<and> many_devices p \<longrightarrow> mset (concat (map m_subs ?merged)) = mset (map ((!) ?nodes) (matched ms))"
    using ms(1) by (simp_all add: match_ok_def)
  have all: "set (matched ms) = {..<length ?nodes}" "distinct (matched ms)"
    using ms by (auto simp: match_ok_def)
  have "mset (matched ms) = mset [0..<length ?nodes]"
    using all by (metis atLeast_upt distinct_upt set_eq_iff_mset_eq_distinct)
  then have "mset (map ((!) ?nodes) (matched ms)) = mset (map ((!) ?nodes) [0..<length ?nodes])"
    by (simp only: mset_map)
  then have perm: "mset (map ((!) ?nodes) (matched ms)) = mset ?nodes" by (simp only: map_nth)
  have "length (matched ms) = length ?nodes" using perm by (metis length_map size_mset)
  with m(3) have len: "length ?merged \<le> length ?nodes" by simp
  note cov = match_covers [OF ms]
  have subs: "(\<Union>n \<in> set ?merged. set (m_subs n)) = set ?nodes"
  proof (intro equalityI subsetI)
    fix u assume "u \<in> (\<Union>n \<in> set ?merged. set (m_subs n))"
    then obtain n where n: "n \<in> set ?merged" "u \<in> set (m_subs n)" by (rule UN_E)
    then have "merged_shape ml n" using m(1) by simp
    with merged_shape_subs [of ml n] n(2) show "u \<in> set ?nodes" by auto
  next
    fix u assume "u \<in> set ?nodes"
    from cov [OF this] show "u \<in> (\<Union>n \<in> set ?merged. set (m_subs n))" by auto
  qed
  have ends: "\<exists>n \<in> set ?merged. um_get (name_map ms) x = Some (m_id n) \<and> x \<in> m_id ` set (m_subs n)"
    if x: "x \<in> m_id ` set ?nodes" for x
  proof -
    obtain u where "u \<in> set ?nodes" "x = m_id u" using x by auto
    with cov [of u] show ?thesis by auto
  qed
  note er = mergeEdges_result [OF es]
  have ml_e: "e_src e \<in> m_id ` set ?nodes" "e_tgt e \<in> m_id ` set ?nodes" "\<exists>w. calcEdgeSize e = Inr w"
    if "e \<in> set (ml_edges ml)" for e using ml that by (simp_all add: level_ok_def)
  have edge: "e_src e \<in> m_id ` set ?merged \<and> e_tgt e \<in> m_id ` set ?merged \<and> (\<exists>w. calcEdgeSize e = Inr w) \<and>
      verify_edge (subnode_ids ?merged) e" if e: "e \<in> set es" for e
  proof -
    have sub: "e_subs e = edges_between (name_map ms) (e_src e) (e_tgt e) (ml_edges ml)" "e_subs e \<noteq> []"
      using er(2) [OF e] by blast+
    have in_sub: "f \<in> set (ml_edges ml) \<and> um_get (name_map ms) (e_src f) = Some (e_src e) \<and>
        um_get (name_map ms) (e_tgt f) = Some (e_tgt e)" if "f \<in> set (e_subs e)" for f
      using that by (simp add: sub(1) edges_between_def)
    obtain f where f: "f \<in> set (e_subs e)" using sub(2) by (cases "e_subs e") auto
    have f_in: "f \<in> set (ml_edges ml)" using in_sub [OF f] by blast
    obtain S where S: "S \<in> set ?merged" "e_src e = m_id S"
      by (rule bexE [OF ends [OF ml_e(1) [OF f_in]]]) (use in_sub [OF f] in simp)
    obtain T where T: "T \<in> set ?merged" "e_tgt e = m_id T"
      by (rule bexE [OF ends [OF ml_e(2) [OF f_in]]]) (use in_sub [OF f] in simp)
    have ne: "m_subs n \<noteq> []" if "n \<in> set ?merged" for n
      using merged_shape_subs [of ml n] m(1) [rule_format, OF that] by simp
    have uniq: "n = n'" if "n \<in> set ?merged" "n' \<in> set ?merged" "m_id n = m_id n'" for n n'
      using m(2) that by (auto simp: distinct_map inj_on_def)
    have src: "e_src g \<in> m_id ` set (m_subs S)" if g: "g \<in> set (e_subs e)" for g
    proof -
      obtain n where n: "n \<in> set ?merged" "um_get (name_map ms) (e_src g) = Some (m_id n)" "e_src g \<in> m_id ` set (m_subs n)"
        by (rule bexE [OF ends [OF ml_e(1) [OF in_sub [OF g, THEN conjunct1]]]]) blast
      have "m_id n = m_id S" using n(2) in_sub [OF g] S(2) by simp
      then have "n = S" by (rule uniq [OF n(1) S(1)])
      with n(3) show ?thesis by simp
    qed
    have tgt: "e_tgt g \<in> m_id ` set (m_subs T)" if g: "g \<in> set (e_subs e)" for g
    proof -
      obtain n where n: "n \<in> set ?merged" "um_get (name_map ms) (e_tgt g) = Some (m_id n)" "e_tgt g \<in> m_id ` set (m_subs n)"
        by (rule bexE [OF ends [OF ml_e(2) [OF in_sub [OF g, THEN conjunct1]]]]) blast
      have "m_id n = m_id T" using n(2) in_sub [OF g] T(2) by simp
      then have "n = T" by (rule uniq [OF n(1) T(1)])
      with n(3) show ?thesis by simp
    qed
    obtain SS where SS: "um_get (subnode_ids ?merged) (m_id S) = Some SS" "m_id ` set (m_subs S) \<subseteq> SS"
      by (rule subnode_ids_get [OF S(1) ne [OF S(1)]])
    obtain TS where TS: "um_get (subnode_ids ?merged) (m_id T) = Some TS" "m_id ` set (m_subs T) \<subseteq> TS"
      by (rule subnode_ids_get [OF T(1) ne [OF T(1)]])
    have "verify_edge (subnode_ids ?merged) e"
      using src tgt SS(2) TS(2) by (auto simp: verify_edge_def S(2) T(2) SS(1) TS(1) list_all_iff)
    moreover have "\<exists>w. calcEdgeSize e = Inr w"
    proof -
      have "\<exists>ws. rmap calcEdgeSize (e_subs e) = Inr ws" by (rule rmap_total) (use in_sub ml_e(3) in blast)
      then show ?thesis using sub(2) by (cases e) auto
    qed
    ultimately show ?thesis using S T by blast
  qed
  have "level_ok ?amp ?h"
    unfolding level_ok_def MLGraph.simps
  proof (intro conjI ballI)
    fix n k assume nk: "n \<in> set ?merged" "k \<in> set ?merged"
    show "ids_compatible (nodes (m_graph n)) (nodes (m_graph k))"
      by (rule ids_compatible_union [OF ml]) (use nk m(1) merged_shape_subs in blast)+
  qed (use m(1,2) edge in blast)+
  moreover have "g_verify ?h"
    using m(1) merged_shape_verify edge by (auto simp: g_verify_def list_all_iff)
  moreover have "\<forall>n \<in> set ?merged. ops_from_subs n \<and> m_subs n \<noteq> []" using m(1) merged_shape_subs by blast
  ultimately show ?thesis using len m(4) perm subs by (simp add: pass_ok_def)
qed

lemma mergeAdjacents_runs:
  assumes p: "partitioner_ok p" and ml: "level_ok (use_amp_master_params p) ml" "ml_nodes ml \<noteq> []"
    and s: "costs_ok (prof_util s)"
  shows "runs (mergeAdjacents p ml skip min_num) s
    (\<lambda>h s'. pass_ok p skip ml h \<and> costs_ok (prof_util s') \<and> drawn s \<le> drawn s' \<and> names_unused p (drawn s') h)"
proof -
  have ends: "\<forall>e \<in> set (ml_edges ml). e_src e \<in> m_id ` set (ml_nodes ml) \<and> e_tgt e \<in> m_id ` set (ml_nodes ml)"
    using ml(1) by (simp add: level_ok_def)
  obtain bg where bg: "toBGL ml = Inr bg" "verts bg = ml_nodes ml"
    "set (arcs bg) \<subseteq> {..<length (ml_nodes ml)} \<times> {..<length (ml_nodes ml)}"
    by (rule toBGL_total [OF ends])
  let ?evals = "\<lambda>vs. smap (\<lambda>v. eval_graph p (m_graph (verts bg ! v))) vs"
  have evals: "runs (?evals vs) s1 (\<lambda>_ s'. costs_ok (prof_util s') \<and> drawn s' = drawn s)"
    if "costs_ok (prof_util s1)" "drawn s1 = drawn s" for vs s1
  proof -
    have one: "runs (eval_graph p g) s2 (\<lambda>_ s'. costs_ok (prof_util s') \<and> drawn s' = drawn s)"
      if "costs_ok (prof_util s2) \<and> drawn s2 = drawn s" for g s2
      by (rule runs_mono [OF eval_graph_runs [OF p]]) (use that in simp_all)
    show ?thesis
      by (rule runs_mono, rule runs_smap [where P = "\<lambda>s'. costs_ok (prof_util s') \<and> drawn s' = drawn s" and R = "\<lambda>_ _. True"])
         (simp_all add: that one)
  qed
  have main: "runs (sfold (match_node p ml skip min_num stats (length vs)) vs
        \<lparr>matched = [], merged_nodes = [], name_map = [], ms_graph = bg\<rparr>) s1 (match_ok p ml (set (arcs bg)) skip (drawn s1) vs)"
    if vs: "mset vs = mset (all_nodes bg)" "costs_ok (prof_util s1)" for vs s1 stats
  proof (rule runs_sfold [where P = "match_ok p ml (set (arcs bg)) skip (drawn s1)"])
    show "match_ok p ml (set (arcs bg)) skip (drawn s1) [] \<lparr>matched = [], merged_nodes = [], name_map = [], ms_graph = bg\<rparr> s1"
      using vs bg by (simp add: match_ok_def)
    fix pre x post ms s2
    assume split: "vs = pre @ x # post" and ms: "match_ok p ml (set (arcs bg)) skip (drawn s1) pre ms s2"
    have "set vs = set (all_nodes bg)" by (rule mset_eq_setD [OF vs(1)])
    then have "x < length (ml_nodes ml)" using split bg(2) by (auto simp: all_nodes_def)
    then show "runs (match_node p ml skip min_num stats (length vs) x ms) s2
        (match_ok p ml (set (arcs bg)) skip (drawn s1) (pre @ [x]))"
      by (rule match_node_runs [OF p ml(1) bg(3) _ ms])
  qed
  have rest: "runs (sbind (?evals vs) (\<lambda>evs.
     sbind (slift (if vs = [] then Inl Undefined_behaviour else Inr (eval_stats evs))) (\<lambda>stats.
     sbind (sfold (match_node p ml skip min_num stats (length vs)) vs
              \<lparr>matched = [], merged_nodes = [], name_map = [], ms_graph = bg\<rparr>) (\<lambda>ms.
     sbind (slift (mergeEdges (ml_edges ml) (name_map ms))) (\<lambda>merged_edges.
     sret \<lparr>ml_nodes = merged_nodes ms, ml_edges = merged_edges\<rparr>))))) s1
     (\<lambda>h s'. pass_ok p skip ml h \<and> costs_ok (prof_util s') \<and> drawn s \<le> drawn s' \<and> names_unused p (drawn s') h)"
    if vs: "mset vs = mset (all_nodes bg)" "costs_ok (prof_util s1)" "drawn s1 = drawn s" for vs s1
  proof (rule runs_sbind [OF evals [OF vs(2,3)]], elim conjE)
    fix evs and s2 :: part_state assume s2: "costs_ok (prof_util s2)" "drawn s2 = drawn s"
    have set_vs: "set vs = {..<length (ml_nodes ml)}"
      unfolding mset_eq_setD [OF vs(1)] all_nodes_def bg(2) by (simp add: atLeast0LessThan)
    have ne: "vs \<noteq> []"
    proof
      assume "vs = []"
      with set_vs have "length (ml_nodes ml) = 0" by auto
      with ml(2) show False by simp
    qed
    show "runs (sbind (slift (if vs = [] then Inl Undefined_behaviour else Inr (eval_stats evs))) (\<lambda>stats.
     sbind (sfold (match_node p ml skip min_num stats (length vs)) vs
              \<lparr>matched = [], merged_nodes = [], name_map = [], ms_graph = bg\<rparr>) (\<lambda>ms.
     sbind (slift (mergeEdges (ml_edges ml) (name_map ms))) (\<lambda>merged_edges.
     sret \<lparr>ml_nodes = merged_nodes ms, ml_edges = merged_edges\<rparr>)))) s2
     (\<lambda>h s'. pass_ok p skip ml h \<and> costs_ok (prof_util s') \<and> drawn s \<le> drawn s' \<and> names_unused p (drawn s') h)"
    proof (rule runs_slift_bind, simp add: ne, rule runs_sbind [OF main [OF vs(1) s2(1)]])
      fix ms s3 assume ms: "match_ok p ml (set (arcs bg)) skip (drawn s2) vs ms s3"
      have "\<forall>e \<in> set (ml_edges ml). e_src e \<in> fst ` set (name_map ms) \<and> e_tgt e \<in> fst ` set (name_map ms)"
      proof (intro ballI conjI)
        fix e assume "e \<in> set (ml_edges ml)"
        then obtain u v where uv: "u \<in> set (ml_nodes ml)" "e_src e = m_id u" "v \<in> set (ml_nodes ml)" "e_tgt e = m_id v"
          using ends by (auto elim!: ballE)
        from match_covers [OF ms set_vs uv(1)] show "e_src e \<in> fst ` set (name_map ms)"
          unfolding uv(2) by (auto dest!: map_of_SomeD intro: rev_image_eqI)
        from match_covers [OF ms set_vs uv(3)] show "e_tgt e \<in> fst ` set (name_map ms)"
          unfolding uv(4) by (auto dest!: map_of_SomeD intro: rev_image_eqI)
      qed
      then obtain es where es: "mergeEdges (ml_edges ml) (name_map ms) = Inr es"
        using merge_edges_total [of "ml_edges ml" "name_map ms" "[]"] by (auto simp: mergeEdges_def)
      have "pass_ok p skip ml \<lparr>ml_nodes = merged_nodes ms, ml_edges = es\<rparr>"
        by (rule pass_result [OF ml(1) ms set_vs es])
      moreover have "costs_ok (prof_util s3)" "drawn s \<le> drawn s3"
        "\<forall>n \<in> set (merged_nodes ms). named_from p (drawn s2) (drawn s3) n"
        using ms s2(2) by (simp_all add: match_ok_def)
      moreover from this(3) have "names_unused p (drawn s3) \<lparr>ml_nodes = merged_nodes ms, ml_edges = es\<rparr>"
        using p by (fastforce simp: names_unused_def named_from_def partitioner_ok_def inj_eq)
      ultimately show "runs (sbind (slift (mergeEdges (ml_edges ml) (name_map ms))) (\<lambda>merged_edges.
          sret \<lparr>ml_nodes = merged_nodes ms, ml_edges = merged_edges\<rparr>)) s3
        (\<lambda>h s'. pass_ok p skip ml h \<and> costs_ok (prof_util s') \<and> drawn s \<le> drawn s' \<and> names_unused p (drawn s') h)"
        using es by (intro runs_slift_bind runs_sret) simp_all
    qed
  qed
  show ?thesis unfolding mergeAdjacents_def
    by (rule runs_slift_bind [OF bg(1)], rule runs_sbind [OF sortNodesByEval_runs [OF p s]], elim conjE, rule rest)
qed

section \<open>All passes\<close>

text \<open>The nodes of the lowest level that a node stands for, and the operators of a level.\<close>

fun leaves :: "MLNode \<Rightarrow> MLNode set" where
  "leaves (MLNode i g subs es) = (if subs = [] then {MLNode i g subs es} else (\<Union>n \<in> set subs. leaves n))"

definition level_leaves :: "MLGraph \<Rightarrow> MLNode set" where
  "level_leaves g = (\<Union>n \<in> set (ml_nodes g). leaves n)"

definition level_ops :: "MLGraph \<Rightarrow> IRNode set" where
  "level_ops g = (\<Union>n \<in> set (ml_nodes g). set (nodes (m_graph n)))"

lemma leaves_subs: "m_subs n \<noteq> [] \<Longrightarrow> leaves n = (\<Union>m \<in> set (m_subs n). leaves m)"
  by (cases n) simp

lemma pass_leaves: "pass_ok p skip ml h \<Longrightarrow> level_leaves h = level_leaves ml"
proof -
  assume pass: "pass_ok p skip ml h"
  then have "level_leaves h = (\<Union>n \<in> set (ml_nodes h). \<Union>m \<in> set (m_subs n). leaves m)"
    unfolding level_leaves_def by (intro SUP_cong refl leaves_subs) (simp add: pass_ok_def)
  also have "\<dots> = (\<Union>m \<in> (\<Union>n \<in> set (ml_nodes h). set (m_subs n)). leaves m)" by blast
  also have "(\<Union>n \<in> set (ml_nodes h). set (m_subs n)) = set (ml_nodes ml)" using pass unfolding pass_ok_def by blast
  finally show ?thesis unfolding level_leaves_def .
qed

lemma pass_ops: "pass_ok p skip ml h \<Longrightarrow> level_ops h \<subseteq> level_ops ml"
proof
  fix k assume pass: "pass_ok p skip ml h" and "k \<in> level_ops h"
  then obtain n where n: "n \<in> set (ml_nodes h)" "k \<in> set (nodes (m_graph n))" by (auto simp: level_ops_def)
  from pass n(1) have "ops_from_subs n" unfolding pass_ok_def by blast
  then obtain m where m: "m \<in> set (m_subs n)" "k \<in> set (nodes (m_graph m))"
    using n(2) unfolding ops_from_subs_def by blast
  then have "m \<in> set (ml_nodes ml)" using pass n(1) unfolding pass_ok_def by blast
  with m(2) show "k \<in> level_ops ml" by (auto simp: level_ops_def)
qed

definition coarse_ok :: "MLPartitioner \<Rightarrow> MLGraph \<Rightarrow> MLGraph \<Rightarrow> bool" where
  "coarse_ok p ml h \<longleftrightarrow> level_ok (use_amp_master_params p) h \<and> length (ml_nodes h) \<le> length (ml_nodes ml) \<and>
     level_leaves h = level_leaves ml \<and> level_ops h \<subseteq> level_ops ml"

lemma pass_coarse: "coarse_ok p ml c \<Longrightarrow> pass_ok p skip c h \<Longrightarrow> coarse_ok p ml h"
  using pass_leaves [of p skip c h] pass_ops [of p skip c h] by (auto simp: coarse_ok_def pass_ok_def)

lemma level_edge_sizes: "level_ok amp g \<Longrightarrow> \<exists>w. sumEdgeSizes (ml_edges g) = Inr w"
proof -
  assume "level_ok amp g"
  then have "\<exists>ws. rmap calcEdgeSize (ml_edges g) = Inr ws" by (intro rmap_total) (simp add: level_ok_def)
  then show ?thesis by (auto simp: sumEdgeSizes_def)
qed

lemma coarsen_loop_runs:
  assumes p: "partitioner_ok p" and "coarse_ok p ml c"
    and "coarse_ok p ml l \<or> ml_nodes l = [] \<and> ml_nodes c \<noteq> []" and "costs_ok (prof_util s)"
  shows "runs (coarsen_loop p m l c) s
    (\<lambda>h s'. coarse_ok p ml h \<and> costs_ok (prof_util s') \<and> drawn s \<le> drawn s' \<and>
      (names_unused p (drawn s) l \<and> names_unused p (drawn s) c \<longrightarrow> names_unused p (drawn s') h))"
  using assms
proof (induction p m l c s rule: coarsen_loop.induct)
  case (1 p m l c s)
  let ?skip = "200 < length (ml_nodes c)"
  show ?case
  proof (cases "length (ml_nodes l) = length (ml_nodes c) \<or> length (ml_nodes c) \<le> 3")
    case True
    then show ?thesis using "1.prems" by (auto simp: runs_def coarsen_loop.simps [of p m l c s])
  next
    case False
    then have ne: "ml_nodes c \<noteq> []" by auto
    have c: "level_ok (use_amp_master_params p) c" using "1.prems"(2) by (simp add: coarse_ok_def)
    obtain g s' where run: "mergeAdjacents p c ?skip m s = Inr (g, s')" "pass_ok p ?skip c g" "costs_ok (prof_util s')"
      "drawn s \<le> drawn s'" "names_unused p (drawn s') g"
      using runsE [OF mergeAdjacents_runs [OF "1.prems"(1) c ne "1.prems"(4)]] by blast
    have g: "coarse_ok p ml g" by (rule pass_coarse [OF "1.prems"(2) run(2)])
    then have "level_ok (use_amp_master_params p) g" by (simp add: coarse_ok_def)
    then obtain w where w: "sumEdgeSizes (ml_edges g) = Inr w" using level_edge_sizes by blast
    have step: "coarsen_loop p m l c s =
        (if int (length (ml_nodes g)) \<le> to_size m then Inr (g, s') else coarsen_loop p m c g s')"
      using False by (simp add: coarsen_loop.simps [of p m l c s] run(1) w)
    show ?thesis
    proof (cases "int (length (ml_nodes g)) \<le> to_size m")
      case True
      then show ?thesis using g run(3-5) by (simp add: runs_def step)
    next
      case go: False
      have "runs (coarsen_loop p m c g) s' (\<lambda>h s1. coarse_ok p ml h \<and> costs_ok (prof_util s1) \<and> drawn s' \<le> drawn s1 \<and>
      (names_unused p (drawn s') c \<and> names_unused p (drawn s') g \<longrightarrow> names_unused p (drawn s1) h))"
        by (rule "1.IH" [OF _ _ run(1) refl w go "1.prems"(1) g]) (use False "1.prems"(2) run(3) in auto)
      then show ?thesis using go run(4,5) names_unused_mono [OF _ run(4)] by (fastforce simp: runs_def step)
    qed
  qed
qed

text \<open>What the nodes of a level compute, when its operators come from another level.\<close>

lemma level_meaning:
  assumes "level_ok amp h" "level_ops h \<subseteq> level_ops ml"
    and "\<forall>k \<in> level_ops ml. satisfies sem eps k" "n \<in> set (ml_nodes h)" "part_of env eps" "set (g_inputs (m_graph n)) \<subseteq> dom env"
  shows "run_graph sem (m_graph n) env = Some (map (\<lambda>x. Some (eps x)) (g_outputs (m_graph n)))"
proof -
  have "graph_inv (m_graph n)" using assms(1,4) by (simp add: level_ok_def node_ok_def)
  moreover have "\<forall>k \<in> set (nodes (m_graph n)). satisfies sem eps k"
    using assms(2-4) unfolding level_ops_def by blast
  ultimately show ?thesis using graph_meaning assms(5,6) by blast
qed

section \<open>A small level\<close>

definition flow_value :: "string \<Rightarrow> IRValue" where
  "flow_value x = mkIRValue x (createTensorType TE_FLOAT [4] True)"

definition flow_node :: "string \<Rightarrow> string list \<Rightarrow> string \<Rightarrow> MLNode" where
  "flow_node name ins out =
     MLNode name \<lparr>g_name = name, nodes = [demo_node name ins [out]],
       gvalues = map (\<lambda>x. (x, flow_value x)) (ins @ [out]), g_inputs = ins, g_outputs = [out], is_replicable = False\<rparr> [] []"

definition flow_edge :: "string \<Rightarrow> string \<Rightarrow> string \<Rightarrow> MLEdge" where
  "flow_edge s t x = MLEdge s t [] [\<lparr>be_src = s, be_tgt = t, be_value = flow_value x\<rparr>]"

text \<open>A reachability test that follows at most as many edges as there are.\<close>

primrec reach_within :: "nat \<Rightarrow> (nat \<times> nat) list \<Rightarrow> nat \<Rightarrow> nat \<Rightarrow> bool" where
  "reach_within 0 es a b = (a = b)"
| "reach_within (Suc k) es a b = (a = b \<or> list_ex (\<lambda>(u, v). u = a \<and> reach_within k es v b) es)"

lemma reach_within_iff: "reach_within k es a b \<longleftrightarrow> (\<exists>n \<le> k. (a, b) \<in> set es ^^ n)"
proof (induction k arbitrary: a)
  case (Suc k)
  have "(\<exists>n \<le> Suc k. (a, b) \<in> set es ^^ n) \<longleftrightarrow> a = b \<or> (\<exists>n \<le> k. (a, b) \<in> set es ^^ Suc n)"
    by (metis Suc_le_mono le_SucE le_SucI not0_implies_Suc pair_in_Id_conv relpow.simps(1) zero_le)
  also have "\<dots> \<longleftrightarrow> a = b \<or> (\<exists>c. (a, c) \<in> set es \<and> (\<exists>n \<le> k. (c, b) \<in> set es ^^ n))"
    by (metis relpow_Suc_D2 relpow_Suc_I2)
  finally show ?case by (auto simp: Suc.IH list_ex_iff)
qed simp

lemma reach_within_law: "reach_law (\<lambda>es. reach_within (length es) es)"
proof -
  have "(a, b) \<in> (set es)\<^sup>* \<longleftrightarrow> (\<exists>n \<le> length es. (a, b) \<in> set es ^^ n)" for es and a b :: nat
  proof
    assume "(a, b) \<in> (set es)\<^sup>*"
    then obtain n where "n \<le> card (set es)" "(a, b) \<in> set es ^^ n"
      by (auto simp: rtrancl_finite_eq_relpow)
    then show "\<exists>n \<le> length es. (a, b) \<in> set es ^^ n" using card_length [of es] le_trans by blast
  qed (auto intro: relpow_imp_rtrancl)
  then show ?thesis by (simp add: reach_law_def reach_within_iff)
qed

definition demo_partitioner :: "profiler \<Rightarrow> MLPartitioner" where
  "demo_partitioner dev = \<lparr>dev_num = 2, dev_mem = 2 ^ 20, max_pipeline_num = 1, min_pipeline_bs = 0,
     use_amp_master_params = False, coarsen_by_time = True, batch_size = 8, opt_param_factor = 2,
     device = dev, names = (\<lambda>n. replicate n CHR ''a''),
     is_reachable = (\<lambda>es. reach_within (length es) es),
     topological_sort = (\<lambda>n es. Inl Invalid_argument)\<rparr>"

definition new_state :: part_state where
  "new_state = \<lparr>prof_util = new_ProfilerUtil, drawn = 0\<rparr>"

definition chain_level :: MLGraph where
  "chain_level = \<lparr>ml_nodes = [flow_node ''f'' [''x''] ''y'', flow_node ''g'' [''y''] ''z''],
     ml_edges = [flow_edge ''f'' ''g'' ''y'']\<rparr>"

lemma demo_device_ok: "device_ok demo_profiler"
proof -
  have "out_of_memory ''CUDA out of memory.''" by code_simp
  then show ?thesis by (simp add: device_ok_def demo_profiler_def nonneg_profile_def)
qed

lemma demo_partitioner_ok: "partitioner_ok (demo_partitioner demo_profiler)"
proof -
  have "inj (\<lambda>n. replicate n CHR ''a'')" by (metis injI length_replicate)
  moreover have "to_size (replica_count (demo_partitioner demo_profiler)) > 0" by code_simp
  ultimately show ?thesis
    by (simp add: partitioner_ok_def demo_partitioner_def demo_device_ok reach_within_law)
qed

lemma new_state_ok: "costs_ok (prof_util new_state)"
  by (simp add: costs_ok_def new_state_def new_ProfilerUtil_def)

lemma flow_size: "v_getSizeInByte (flow_value x) = Inr 16"
  by code_simp

lemma flow_value_flags [simp]: "\<not> is_param (flow_value x)"
  by (simp add: flow_value_def mkIRValue_def)

lemma flow_node_ok: "distinct ins \<Longrightarrow> out \<notin> set ins \<Longrightarrow> node_ok amp (flow_node name ins out)"
proof -
  assume "distinct ins" "out \<notin> set ins"
  then have "um_ok (map (\<lambda>x. (x, flow_value x)) (ins @ [out]))" by (simp add: um_ok_def comp_def)
  then show ?thesis
    by (auto simp: node_ok_def graph_inv_def values_ok_def single_output_def ids_distinct_def verifyNodeInputs_def
        outputs_defined_def costable_def flow_node_def demo_node_def mkIRNode_def list_all_iff image_iff flow_size)
qed

lemma chain_level_ok: "level_ok amp chain_level"
proof -
  have "calcEdgeSize (flow_edge s t x) = Inr 16" for s t x
    by (simp add: flow_edge_def sum_sizes_def flow_size)
  moreover have "e_src (flow_edge s t x) = s" "e_tgt (flow_edge s t x) = t" "m_id (flow_node s ins out) = s" for s t x ins out
    by (simp_all add: flow_edge_def flow_node_def)
  moreover have "ids_compatible (nodes (m_graph n)) (nodes (m_graph m))"
    if "n \<in> set (ml_nodes chain_level)" "m \<in> set (ml_nodes chain_level)" for n m
    using that by (auto simp: chain_level_def flow_node_def ids_compatible_def demo_node_def mkIRNode_def)
  ultimately show ?thesis by (simp add: level_ok_def) (simp add: chain_level_def flow_node_ok)
qed

section \<open>Properties\<close>

text \<open>
  C2. Coarsening is correct: on a level in good order, with a device that answers or runs out of
  memory, it returns (the loop ends), its result is a level in good order with no more nodes that
  stands for the same nodes of the lowest level, and if a valuation satisfies the operators, then
  running the graph of any node of the result on inputs from that valuation yields the values of its outputs.
\<close>

theorem coarsen_correct:
  assumes "partitioner_ok p" "level_ok (use_amp_master_params p) ml" "costs_ok (prof_util s)"
  shows "\<exists>h s'. coarsen p ml m s = Inr (h, s') \<and>
     level_ok (use_amp_master_params p) h \<and> length (ml_nodes h) \<le> length (ml_nodes ml) \<and>
     level_leaves h = level_leaves ml \<and>
     (\<forall>eps sem env n. (\<forall>k \<in> level_ops ml. satisfies sem eps k) \<and> n \<in> set (ml_nodes h) \<and>
        part_of env eps \<and> set (g_inputs (m_graph n)) \<subseteq> dom env \<longrightarrow>
        run_graph sem (m_graph n) env = Some (map (\<lambda>x. Some (eps x)) (g_outputs (m_graph n))))"
proof -
  let ?e = "\<lparr>ml_nodes = [], ml_edges = []\<rparr> :: MLGraph"
  have ml: "coarse_ok p ml ml" using assms(2) by (simp add: coarse_ok_def)
  have "coarse_ok p ml ?e \<or> ml_nodes ?e = [] \<and> ml_nodes ml \<noteq> []"
    by (cases "ml_nodes ml = []") (simp_all add: coarse_ok_def level_ok_def level_leaves_def level_ops_def)
  from coarsen_loop_runs [OF assms(1) ml this assms(3), of m]
  obtain h s' where h: "coarsen p ml m s = Inr (h, s')" "coarse_ok p ml h" unfolding coarsen_def by (rule runsE) blast
  have meaning: "run_graph sem (m_graph n) env = Some (map (\<lambda>x. Some (eps x)) (g_outputs (m_graph n)))"
    if "\<forall>k \<in> level_ops ml. satisfies sem eps k" "n \<in> set (ml_nodes h)" "part_of env eps" "set (g_inputs (m_graph n)) \<subseteq> dom env"
    for eps sem env n using level_meaning [where amp = "use_amp_master_params p", OF _ _ that] h(2) by (simp add: coarse_ok_def)
  have "level_ok (use_amp_master_params p) h" "length (ml_nodes h) \<le> length (ml_nodes ml)"
    "level_leaves h = level_leaves ml" using h(2) by (simp_all add: coarse_ok_def)
  with h(1) meaning show ?thesis by blast
qed

theorem coarsen_correct_witness:
  "\<exists>h s'. coarsen (demo_partitioner demo_profiler) chain_level 1 new_state = Inr (h, s') \<and>
     level_leaves h = level_leaves chain_level"
  using coarsen_correct [OF demo_partitioner_ok, of chain_level new_state 1] chain_level_ok new_state_ok
  by (auto simp: demo_partitioner_def)

text \<open>
  C3. One pass of \<open>mergeAdjacents\<close> partitions the nodes: it returns, its edges join the right nodes and
  carry sub-edges between their sub-nodes (\<open>verify\<close>), every node of the level is a sub-node of some
  merged node, and, without profiling and with more than one device, of exactly one.
\<close>

theorem mergeAdjacents_partitions:
  assumes "partitioner_ok p" "level_ok (use_amp_master_params p) ml" "ml_nodes ml \<noteq> []" "costs_ok (prof_util s)"
  shows "\<exists>h s'. mergeAdjacents p ml skip m s = Inr (h, s') \<and>
     g_verify h \<and> length (ml_nodes h) \<le> length (ml_nodes ml) \<and>
     (\<Union>n \<in> set (ml_nodes h). set (m_subs n)) = set (ml_nodes ml) \<and>
     (skip \<and> many_devices p \<longrightarrow> mset (concat (map m_subs (ml_nodes h))) = mset (ml_nodes ml))"
  using mergeAdjacents_runs [OF assms, of skip m] unfolding runs_def pass_ok_def by blast

theorem mergeAdjacents_partitions_witness:
  "\<exists>h s'. mergeAdjacents (demo_partitioner demo_profiler) chain_level True 1 new_state = Inr (h, s') \<and>
     mset (concat (map m_subs (ml_nodes h))) = mset (ml_nodes chain_level)"
proof -
  have "many_devices (demo_partitioner demo_profiler)" by (simp add: many_devices_def demo_partitioner_def)
  moreover have "level_ok (use_amp_master_params (demo_partitioner demo_profiler)) chain_level"
    using chain_level_ok by (simp add: demo_partitioner_def)
  moreover have "ml_nodes chain_level \<noteq> []" by (simp add: chain_level_def)
  ultimately show ?thesis
    using mergeAdjacents_partitions [OF demo_partitioner_ok _ _ new_state_ok, of chain_level True 1] by blast
qed

text \<open>
  The pairs of one pass are convex one by one, but not together: on an acyclic level where \<open>a\<close> and
  \<open>c\<close> both feed \<open>b\<close> and \<open>d\<close>, a pass fuses \<open>a\<close> with \<open>b\<close> and \<open>c\<close> with \<open>d\<close>, and the level above is a
  cycle, which the topological sort at the end of \<open>partition\<close> rejects.
\<close>

definition crossing_level :: MLGraph where
  "crossing_level = \<lparr>ml_nodes = [flow_node ''a'' [''x''] ''p'', flow_node ''b'' [''p'', ''q''] ''r'',
       flow_node ''c'' [''y''] ''q'', flow_node ''d'' [''p'', ''q''] ''s''],
     ml_edges = [flow_edge ''a'' ''d'' ''p'', flow_edge ''a'' ''b'' ''p'', flow_edge ''c'' ''b'' ''q'', flow_edge ''c'' ''d'' ''q'']\<rparr>"

lemma mergeAdjacents_makes_cycle:
  "map_sum id (\<lambda>bg. arcs bg) (toBGL crossing_level) = Inr [(0, 3), (0, 1), (2, 1), (2, 3)] \<and>
   map_sum id (\<lambda>(h, _). map_sum id arcs (toBGL h))
     (mergeAdjacents (demo_partitioner demo_profiler) crossing_level False 1 new_state) = Inr (Inr [(0, 1), (1, 0)])"
  by (rule conjI; code_simp)

text \<open>
  A merge whose improvement is exactly \<open>-1\<close> is kept without marking its second node as used: the
  node is then taken again, so its operators end up in two nodes of the level above.
\<close>

definition slow_merge :: profiler where
  "slow_merge gs iteration repl cp =
     Profiled (map (\<lambda>(n, g). (n, \<lparr>gp_name = n, fwd_time = (if length (nodes g) = 2 then 61 else if n = ''h'' then 300 else 30),
        bwd_time = 0, max_allocated_mem = 100, gp_checkpointing = cp\<rparr>)) gs)"

lemma mergeAdjacents_duplicates:
  "map_sum id (\<lambda>(h, _). map (\<lambda>n. map m_id (m_subs n)) (ml_nodes h))
     (mergeAdjacents (demo_partitioner slow_merge)
        (chain_level\<lparr>ml_nodes := ml_nodes chain_level @ [flow_node ''h'' [''u''] ''v'']\<rparr>) False 1 new_state) =
   Inr [[''f'', ''g''], [''g''], [''h'']]"
  by code_simp

end
