(* ===== verification/ML_Refine_Correct.thy ===== *)
theory ML_Refine_Correct
  imports ML_Refine ML_Coarsen_Correct
begin

text \<open>
  Correctness of the last steps of \<open>MLPartitioner\<close>: \<open>mergeSmall\<close> fuses neighbours of a
  topologically sorted level, so the order stays topological and the sequence of the lowest-level
  nodes stays the same.
\<close>

section \<open>Sorted levels\<close>

definition sorted_level :: "MLGraph \<Rightarrow> bool" where
  "sorted_level g \<longleftrightarrow> (\<forall>e \<in> set (ml_edges g). \<exists>i j. i < j \<and> j < length (ml_nodes g) \<and>
     m_id (ml_nodes g ! i) = e_src e \<and> m_id (ml_nodes g ! j) = e_tgt e)"

text \<open>The lowest-level nodes of a level, in the order of the level.\<close>

fun leaf_list :: "MLNode \<Rightarrow> MLNode list" where
  "leaf_list (MLNode i g subs es) = (if subs = [] then [MLNode i g subs es] else concat (map leaf_list subs))"

definition level_sequence :: "MLGraph \<Rightarrow> MLNode list" where
  "level_sequence g = concat (map leaf_list (ml_nodes g))"

lemma leaf_list_subs: "m_subs n \<noteq> [] \<Longrightarrow> leaf_list n = concat (map leaf_list (m_subs n))"
  by (cases n) simp

section \<open>Fusing two neighbours\<close>

lemma replace_pair_none: "\<forall>n \<in> set ns. m_id n \<notin> ids \<Longrightarrow> replace_pair ids merged b ns = ns"
  by (induction ns) auto

lemma replace_neighbours:
  assumes "distinct (map m_id ns)" "Suc k < length ns"
  shows "replace_pair {m_id (ns ! k), m_id (ns ! Suc k)} merged False ns = take k ns @ merged # drop (Suc (Suc k)) ns"
  using assms
proof (induction ns arbitrary: k)
  case (Cons n ns)
  show ?case
  proof (cases k)
    case 0
    with Cons.prems obtain m ms where ns: "ns = m # ms" by (cases ns) auto
    have "replace_pair {m_id n, m_id m} merged True ms = ms"
      by (rule replace_pair_none) (use Cons.prems(1) ns in \<open>auto simp: rev_image_eqI\<close>)
    then show ?thesis by (simp add: 0 ns)
  next
    case (Suc i)
    have "ns ! i \<in> set ns" "ns ! Suc i \<in> set ns" using Cons.prems(2) Suc by simp_all
    then have "m_id n \<notin> {m_id (ns ! i), m_id (ns ! Suc i)}" using Cons.prems(1) by (auto dest: imageI [where f = m_id])
    moreover have "replace_pair {m_id (ns ! i), m_id (ns ! Suc i)} merged False ns =
        take i ns @ merged # drop (Suc (Suc i)) ns"
      by (rule Cons.IH) (use Cons.prems Suc in auto)
    ultimately show ?thesis by (simp add: Suc)
  qed
qed simp

text \<open>The new position of a node, and what the name map says of it.\<close>

definition shift_from :: "nat \<Rightarrow> nat \<Rightarrow> nat" where
  "shift_from k x = (if x \<le> k then x else x - 1)"

definition fuse_map :: "MLGraph \<Rightarrow> string set \<Rightarrow> MLNode \<Rightarrow> (string, string) umap" where
  "fuse_map g ids merged = um_of (map (\<lambda>n. (m_id n, if m_id n \<in> ids then m_id merged else m_id n)) (ml_nodes g))"

lemma fuse_map_get:
  assumes "distinct (map m_id (ml_nodes g))" "n \<in> set (ml_nodes g)"
  shows "um_get (fuse_map g ids merged) (m_id n) = Some (if m_id n \<in> ids then m_id merged else m_id n)"
proof -
  let ?kvs = "map (\<lambda>n. (m_id n, if m_id n \<in> ids then m_id merged else m_id n)) (ml_nodes g)"
  have "distinct (map fst ?kvs)" using assms(1) by (simp add: comp_def)
  then show ?thesis unfolding fuse_map_def um_of_distinct [OF \<open>distinct (map fst ?kvs)\<close>]
    using assms(2) by (auto intro!: map_of_is_SomeI)
qed

lemma fuse_position:
  assumes d: "distinct (map m_id (ml_nodes g))" and k: "Suc k < length (ml_nodes g)" and x: "x < length (ml_nodes g)"
    and ids: "ids = {m_id (ml_nodes g ! k), m_id (ml_nodes g ! Suc k)}"
  shows "um_get (fuse_map g ids merged) (m_id (ml_nodes g ! x)) =
      Some (m_id ((take k (ml_nodes g) @ merged # drop (Suc (Suc k)) (ml_nodes g)) ! shift_from k x))"
    and "shift_from k x < length (ml_nodes g) - 1"
proof -
  have same: "m_id (ml_nodes g ! x) = m_id (ml_nodes g ! y) \<longleftrightarrow> x = y" if "y < length (ml_nodes g)" for y
    using nth_eq_iff_index_eq [OF d, of x y] x that by simp
  consider "x < k" | "x = k \<or> x = Suc k" | "Suc k < x" by linarith
  then show "um_get (fuse_map g ids merged) (m_id (ml_nodes g ! x)) =
      Some (m_id ((take k (ml_nodes g) @ merged # drop (Suc (Suc k)) (ml_nodes g)) ! shift_from k x))"
  proof cases
    case 3
    then have "\<not> x - 1 < k" by simp
    then have "(take k (ml_nodes g) @ merged # drop (Suc (Suc k)) (ml_nodes g)) ! (x - 1) = ml_nodes g ! x"
      using 3 x k by (simp add: nth_append nth_Cons' Suc_diff_Suc numeral_2_eq_2)
    with 3 show ?thesis using x k same by (simp add: fuse_map_get [OF d] ids shift_from_def)
  qed (use x k same in \<open>auto simp: fuse_map_get [OF d] ids shift_from_def nth_append\<close>)
  show "shift_from k x < length (ml_nodes g) - 1" using x k by (auto simp: shift_from_def)
qed

lemma shift_from_mono: "x \<le> y \<Longrightarrow> shift_from k x \<le> shift_from k y"
  by (auto simp: shift_from_def)

lemma merged_edge_size:
  assumes "\<forall>f \<in> set (e_subs e). \<exists>w. calcEdgeSize f = Inr w" "e_subs e \<noteq> []"
  shows "\<exists>w. calcEdgeSize e = Inr w"
proof -
  have "\<exists>ws. rmap calcEdgeSize (e_subs e) = Inr ws" by (rule rmap_total) (use assms(1) in blast)
  then show ?thesis using assms(2) by (cases e) auto
qed

definition fused_nodes :: "MLGraph \<Rightarrow> nat \<Rightarrow> MLNode \<Rightarrow> MLNode list" where
  "fused_nodes g k merged = take k (ml_nodes g) @ merged # drop (Suc (Suc k)) (ml_nodes g)"

lemma fused_nodes_set: "set (fused_nodes g k merged) \<subseteq> insert merged (set (ml_nodes g))"
  using set_take_subset set_drop_subset by (fastforce simp: fused_nodes_def)

lemma fused_nodes_split:
  "Suc k < length (ml_nodes g) \<Longrightarrow>
   ml_nodes g = take k (ml_nodes g) @ [ml_nodes g ! k, ml_nodes g ! Suc k] @ drop (Suc (Suc k)) (ml_nodes g)"
  by (simp add: Cons_nth_drop_Suc id_take_nth_drop [symmetric])

lemma fuse_edges:
  assumes g: "level_ok amp g" and k: "Suc k < length (ml_nodes g)"
    and ids: "ids = {m_id (ml_nodes g ! k), m_id (ml_nodes g ! Suc k)}"
  obtains es where "mergeEdges (ml_edges g) (fuse_map g ids merged) = Inr es"
    and "\<And>e. e \<in> set es \<Longrightarrow> \<exists>w. calcEdgeSize e = Inr w"
    and "\<And>e. e \<in> set es \<Longrightarrow> \<exists>f \<in> set (ml_edges g). \<forall>x y. x < length (ml_nodes g) \<and> y < length (ml_nodes g) \<and>
           m_id (ml_nodes g ! x) = e_src f \<and> m_id (ml_nodes g ! y) = e_tgt f \<longrightarrow>
           m_id (fused_nodes g k merged ! shift_from k x) = e_src e \<and>
           m_id (fused_nodes g k merged ! shift_from k y) = e_tgt e \<and> shift_from k x \<noteq> shift_from k y"
proof -
  let ?nm = "fuse_map g ids merged"
  have d: "distinct (map m_id (ml_nodes g))" using g by (simp add: level_ok_def)
  have "x \<in> fst ` set ?nm" if "x \<in> m_id ` set (ml_nodes g)" for x
  proof -
    from that obtain n where n: "n \<in> set (ml_nodes g)" "x = m_id n" by auto
    show ?thesis using fuse_map_get [OF d n(1), of ids merged] n(2) by (force dest: map_of_SomeD)
  qed
  then have "\<forall>e \<in> set (ml_edges g). e_src e \<in> fst ` set ?nm \<and> e_tgt e \<in> fst ` set ?nm"
    using g by (simp add: level_ok_def)
  then obtain es where es: "mergeEdges (ml_edges g) ?nm = Inr es"
    using merge_edges_total [of "ml_edges g" ?nm "[]"] by (auto simp: mergeEdges_def)
  have result: "e_src e \<noteq> e_tgt e \<and> e_subs e \<noteq> [] \<and> (\<forall>f \<in> set (e_subs e). f \<in> set (ml_edges g) \<and>
      um_get ?nm (e_src f) = Some (e_src e) \<and> um_get ?nm (e_tgt f) = Some (e_tgt e))" if "e \<in> set es" for e
    using mergeEdges_result(2) [OF es that] by (auto simp: edges_between_def)
  show ?thesis
  proof (rule that [OF es])
    fix e assume e: "e \<in> set es"
    have "\<forall>f \<in> set (e_subs e). \<exists>w. calcEdgeSize f = Inr w" using result [OF e] g by (simp add: level_ok_def)
    then show "\<exists>w. calcEdgeSize e = Inr w" by (rule merged_edge_size) (use result [OF e] in blast)
    obtain f where f: "f \<in> set (e_subs e)" using result [OF e] by (cases "e_subs e") auto
    note rf = result [OF e, THEN conjunct2, THEN conjunct2, rule_format, OF f]
    show "\<exists>f \<in> set (ml_edges g). \<forall>x y. x < length (ml_nodes g) \<and> y < length (ml_nodes g) \<and>
           m_id (ml_nodes g ! x) = e_src f \<and> m_id (ml_nodes g ! y) = e_tgt f \<longrightarrow>
           m_id (fused_nodes g k merged ! shift_from k x) = e_src e \<and>
           m_id (fused_nodes g k merged ! shift_from k y) = e_tgt e \<and> shift_from k x \<noteq> shift_from k y"
    proof (intro bexI [of _ f] allI impI, elim conjE)
      fix x y assume xy: "x < length (ml_nodes g)" "y < length (ml_nodes g)"
        "m_id (ml_nodes g ! x) = e_src f" "m_id (ml_nodes g ! y) = e_tgt f"
      from fuse_position(1) [OF d k xy(1) ids, of merged] fuse_position(1) [OF d k xy(2) ids, of merged]
      have "m_id (fused_nodes g k merged ! shift_from k x) = e_src e"
        "m_id (fused_nodes g k merged ! shift_from k y) = e_tgt e"
        using rf xy(3,4) by (simp_all add: fused_nodes_def)
      then show "m_id (fused_nodes g k merged ! shift_from k x) = e_src e \<and>
           m_id (fused_nodes g k merged ! shift_from k y) = e_tgt e \<and> shift_from k x \<noteq> shift_from k y"
        using result [OF e] by auto
    qed (use rf in blast)
  qed
qed

lemma fuse_result:
  assumes g: "level_ok amp g" and k: "Suc k < length (ml_nodes g)"
    and ids: "{m_id a, m_id b} = {m_id (ml_nodes g ! k), m_id (ml_nodes g ! Suc k)}"
    and N: "node_ok amp merged" "m_id merged \<notin> m_id ` set (ml_nodes g)"
      "set (nodes (m_graph merged)) \<subseteq> set (nodes (m_graph (ml_nodes g ! k))) \<union> set (nodes (m_graph (ml_nodes g ! Suc k)))"
  obtains h where "fuse_nodes g a b merged = Inr h" "ml_nodes h = fused_nodes g k merged" "level_ok amp h"
    and "sorted_level g \<Longrightarrow> sorted_level h"
proof -
  let ?ns = "ml_nodes g" and ?ids = "{m_id (ml_nodes g ! k), m_id (ml_nodes g ! Suc k)}" and ?fs = "fused_nodes g k merged"
  have d: "distinct (map m_id ?ns)" using g by (simp add: level_ok_def)
  have len: "length ?fs = length ?ns - 1" using k by (simp add: fused_nodes_def)
  obtain es where es: "mergeEdges (ml_edges g) (fuse_map g ?ids merged) = Inr es"
    "\<And>e. e \<in> set es \<Longrightarrow> \<exists>w. calcEdgeSize e = Inr w"
    "\<And>e. e \<in> set es \<Longrightarrow> \<exists>f \<in> set (ml_edges g). \<forall>x y. x < length (ml_nodes g) \<and> y < length (ml_nodes g) \<and>
           m_id (ml_nodes g ! x) = e_src f \<and> m_id (ml_nodes g ! y) = e_tgt f \<longrightarrow>
           m_id (?fs ! shift_from k x) = e_src e \<and> m_id (?fs ! shift_from k y) = e_tgt e \<and> shift_from k x \<noteq> shift_from k y"
    by (rule fuse_edges [OF g k refl, of merged]) blast
  let ?h = "\<lparr>ml_nodes = ?fs, ml_edges = es\<rparr>"
  have run: "fuse_nodes g a b merged = Inr ?h"
    using es(1) by (simp add: fuse_nodes_def Let_def ids replace_neighbours [OF d k] fused_nodes_def fuse_map_def)
  have edge: "\<exists>i j. i < length ?fs \<and> j < length ?fs \<and> i \<noteq> j \<and> m_id (?fs ! i) = e_src e \<and> m_id (?fs ! j) = e_tgt e \<and>
      (sorted_level g \<longrightarrow> i < j)" if e: "e \<in> set es" for e
  proof -
    from es(3) [OF e] obtain f where f: "f \<in> set (ml_edges g)" "\<forall>x y. x < length (ml_nodes g) \<and> y < length (ml_nodes g) \<and>
           m_id (ml_nodes g ! x) = e_src f \<and> m_id (ml_nodes g ! y) = e_tgt f \<longrightarrow>
           m_id (?fs ! shift_from k x) = e_src e \<and> m_id (?fs ! shift_from k y) = e_tgt e \<and> shift_from k x \<noteq> shift_from k y"
      by blast
    have "\<exists>x y. x < length ?ns \<and> y < length ?ns \<and> m_id (?ns ! x) = e_src f \<and> m_id (?ns ! y) = e_tgt f \<and>
      (sorted_level g \<longrightarrow> x < y)"
    proof (cases "sorted_level g")
      case True
      with f(1) show ?thesis unfolding sorted_level_def by (meson less_trans)
    next
      case False
      have "e_src f \<in> m_id ` set ?ns" "e_tgt f \<in> m_id ` set ?ns" using g f(1) by (simp_all add: level_ok_def)
      with False show ?thesis by (auto simp: in_set_conv_nth) metis
    qed
    then obtain x y where xy: "x < length ?ns" "y < length ?ns" "m_id (?ns ! x) = e_src f" "m_id (?ns ! y) = e_tgt f"
      "sorted_level g \<longrightarrow> x < y" by blast
    have "shift_from k x < length ?fs" "shift_from k y < length ?fs"
      unfolding len by (rule fuse_position(2) [OF d k _ refl]; fact xy)+
    moreover have "sorted_level g \<longrightarrow> shift_from k x \<le> shift_from k y" using xy(5) shift_from_mono by (simp add: less_imp_le)
    ultimately show ?thesis using f(2) [rule_format, of x y] xy by (intro exI [of _ "shift_from k x"] exI [of _ "shift_from k y"]) auto
  qed
  have old: "node_ok amp n \<and> (\<forall>m \<in> set ?ns. ids_compatible (nodes (m_graph n)) (nodes (m_graph m)))" if "n \<in> set ?ns" for n
    using g that by (simp add: level_ok_def)
  have k_in: "?ns ! k \<in> set ?ns" "?ns ! Suc k \<in> set ?ns" using k by simp_all
  have origin: "\<exists>m \<in> set ?ns. a \<in> set (nodes (m_graph m))" if "n \<in> set ?fs" "a \<in> set (nodes (m_graph n))" for n a
    using subsetD [OF fused_nodes_set that(1)] that(2) N(3) k_in by blast
  have "level_ok amp ?h"
    unfolding level_ok_def MLGraph.simps
  proof (intro conjI ballI)
    fix n assume n: "n \<in> set ?fs"
    show "node_ok amp n" using subsetD [OF fused_nodes_set n] old N(1) by blast
    fix m assume m: "m \<in> set ?fs"
    show "ids_compatible (nodes (m_graph n)) (nodes (m_graph m))"
      unfolding ids_compatible_def
    proof (intro ballI impI)
      fix a b assume ab: "a \<in> set (nodes (m_graph n))" "b \<in> set (nodes (m_graph m))" "n_id a = n_id b"
      from origin [OF n ab(1)] obtain u where u: "u \<in> set ?ns" "a \<in> set (nodes (m_graph u))" by blast
      from origin [OF m ab(2)] obtain v where v: "v \<in> set ?ns" "b \<in> set (nodes (m_graph v))" by blast
      from old [OF u(1)] v(1) have "ids_compatible (nodes (m_graph u)) (nodes (m_graph v))" by blast
      with u(2) v(2) ab(3) show "a = b" by (simp add: ids_compatible_def)
    qed
  next
    have "map m_id ?ns = map m_id (take k ?ns) @ map m_id [?ns ! k, ?ns ! Suc k] @ map m_id (drop (Suc (Suc k)) ?ns)"
      using arg_cong [OF fused_nodes_split [OF k], of "map m_id"] by simp
    with d have "distinct (map m_id (take k ?ns) @ map m_id (drop (Suc (Suc k)) ?ns))" by auto
    moreover have "m_id merged \<notin> m_id ` set (take k ?ns)" "m_id merged \<notin> m_id ` set (drop (Suc (Suc k)) ?ns)"
      using N(2) by (auto dest: in_set_takeD in_set_dropD)
    ultimately show "distinct (map m_id ?fs)" by (auto simp: fused_nodes_def)
  next
    fix e assume e: "e \<in> set es"
    from edge [OF e] show "e_src e \<in> m_id ` set ?fs" "e_tgt e \<in> m_id ` set ?fs" by (metis imageI nth_mem)+
    from es(2) [OF e] show "\<exists>s. calcEdgeSize e = Inr s" .
  qed
  moreover have "sorted_level ?h" if "sorted_level g"
    using edge that unfolding sorted_level_def MLGraph.simps by blast
  ultimately show ?thesis using that [OF run] by simp
qed

lemma fuse_sequence:
  assumes "ml_nodes h = fused_nodes g k merged" "Suc k < length (ml_nodes g)" "m_subs merged = [ml_nodes g ! k, ml_nodes g ! Suc k]"
  shows "level_sequence h = level_sequence g"
proof -
  have "leaf_list merged = leaf_list (ml_nodes g ! k) @ leaf_list (ml_nodes g ! Suc k)"
    using assms(3) by (simp add: leaf_list_subs)
  then have "level_sequence h = concat (map leaf_list (take k (ml_nodes g) @ [ml_nodes g ! k, ml_nodes g ! Suc k] @ drop (Suc (Suc k)) (ml_nodes g)))"
    by (simp add: level_sequence_def assms(1) fused_nodes_def)
  also have "\<dots> = level_sequence g" unfolding level_sequence_def using fused_nodes_split [OF assms(2)] by simp
  finally show ?thesis .
qed

section \<open>The loop\<close>

definition cost_map :: "eval_map \<Rightarrow> bool" where
  "cost_map em \<longleftrightarrow> (\<forall>k v. um_get em k = Some v \<longrightarrow> v < LONG_MAX)"

definition scanned :: "MLPartitioner \<Rightarrow> nat \<Rightarrow> (nat \<times> MLNode) list \<Rightarrow> eval_map \<times> int \<times> nat option \<Rightarrow> part_state \<Rightarrow> bool" where
  "scanned p d pre = (\<lambda>(em, min_val, idx) s.
     costs_ok (prof_util s) \<and> drawn s = d \<and> cost_map em \<and> (\<forall>x \<in> set pre. um_contains em (m_id (snd x))) \<and>
     (case idx of None \<Rightarrow> pre = [] \<and> min_val = LONG_MAX | Some i \<Rightarrow> i \<in> fst ` set pre))"

lemma small_node_runs:
  assumes p: "partitioner_ok p" and acc: "scanned p d pre acc s"
  shows "runs (small_node p x acc) s (scanned p d (pre @ [x]))"
proof -
  obtain idx n where x: "x = (idx, n)" by (cases x)
  obtain em mv mi where a: "acc = (em, mv, mi)" by (cases acc) auto
  have s: "costs_ok (prof_util s)" "drawn s = d" "cost_map em" "\<forall>x \<in> set pre. um_contains em (m_id (snd x))"
    using acc by (simp_all add: scanned_def a)
  have fin: "runs (sbind (slift (um_at em' (m_id n))) (\<lambda>val.
      sret (if val < mv then (em', val, Some idx) else (em', mv, mi)))) s' (scanned p d (pre @ [x]))"
    if em': "um_contains em' (m_id n)" "cost_map em'" "\<forall>x \<in> set pre. um_contains em' (m_id (snd x))"
      and s': "costs_ok (prof_util s')" "drawn s' = d" for em' and s' :: part_state
  proof -
    obtain val where val: "um_get em' (m_id n) = Some val" using em'(1) by (auto simp: um_contains_def)
    then have "val < LONG_MAX" using em'(2) by (simp add: cost_map_def)
    then have "scanned p d (pre @ [x]) (if val < mv then (em', val, Some idx) else (em', mv, mi)) s'"
      using acc em' s' by (auto simp: scanned_def a x split: option.splits)
    then show ?thesis using val by (intro runs_slift_bind [of _ val] runs_sret) (simp_all add: um_at_def)
  qed
  show ?thesis
  proof (cases "um_contains em (m_id n)")
    case True
    then show ?thesis using fin [OF True s(3,4,1,2)] by (simp add: small_node_def x a)
  next
    case False
    have new: "runs (sbind (eval_graph p (m_graph n)) (\<lambda>v. sret (um_set (m_id n) v em))) s
      (\<lambda>em' s'. um_contains em' (m_id n) \<and> cost_map em' \<and> (\<forall>x \<in> set pre. um_contains em' (m_id (snd x))) \<and>
        costs_ok (prof_util s') \<and> drawn s' = d)"
      by (rule runs_sbind [OF eval_graph_runs [OF p s(1)]], rule runs_sret)
         (use s in \<open>auto simp: um_contains_def um_get_set cost_map_def\<close>)
    show ?thesis using False unfolding small_node_def x a prod.case
      by (simp, intro runs_sbind [OF new]) (elim conjE, rule fin [unfolded x])
  qed
qed

definition fusion :: "MLPartitioner \<Rightarrow> MLGraph \<Rightarrow> nat \<Rightarrow> MLNode \<Rightarrow> bool" where
  "fusion p g k N \<longleftrightarrow> node_ok (use_amp_master_params p) N \<and>
     set (nodes (m_graph N)) \<subseteq> set (nodes (m_graph (ml_nodes g ! k))) \<union> set (nodes (m_graph (ml_nodes g ! Suc k))) \<and>
     m_subs N = [ml_nodes g ! k, ml_nodes g ! Suc k]"

lemma merge_candidate_runs:
  assumes p: "partitioner_ok p" and g: "level_ok (use_amp_master_params p) g" and k: "Suc k < length (ml_nodes g)"
    and s: "costs_ok (prof_util s)" and em: "um_contains em (m_id other)"
  shows "runs (merge_candidate p g em other (ml_nodes g ! k) (ml_nodes g ! Suc k)) s
    (\<lambda>r s'. costs_ok (prof_util s') \<and> drawn s' = Suc (drawn s) \<and>
       (\<forall>N v. r = Some (N, v) \<longrightarrow> fusion p g k N \<and> named_from p (drawn s) (drawn s') N \<and> v < LONG_MAX))"
proof -
  let ?a = "ml_nodes g ! k" and ?b = "ml_nodes g ! Suc k" and ?gen = "\<lambda>i. names p (drawn s + i)"
  have ab: "node_ok (use_amp_master_params p) ?a" "node_ok (use_amp_master_params p) ?b"
    "ids_compatible (nodes (m_graph ?a)) (nodes (m_graph ?b))"
    using g k by (auto simp: level_ok_def)
  obtain N where N: "merge_nodes ?gen ?a ?b (ml_nodes g) (ml_edges g) = Inr N" "node_ok (use_amp_master_params p) N"
    "set (nodes (m_graph N)) \<subseteq> set (nodes (m_graph ?a)) \<union> set (nodes (m_graph ?b))"
    "m_id N = ''ML_'' @ ?gen 0" "m_subs N = [?a, ?b]"
    by (rule merge_nodes_ok [OF ab])
  have "costable (use_amp_master_params p) (m_graph N)" using N(2) by (simp add: node_ok_def)
  then have "\<forall>prof. \<exists>b. fits p (m_graph N) prof = Inr b" using fitToMem_total by (simp add: fits_def)
  from choice [OF this] obtain fit where fit: "\<And>prof. fits p (m_graph N) prof = Inr (fit prof)" by blast
  have fN: "fusion p g k N" "named_from p (drawn s) (Suc (drawn s)) N"
    using N by (auto simp: fusion_def named_from_def)
  have s1: "costs_ok (prof_util (s\<lparr>drawn := Suc (drawn s)\<rparr>))" using s by simp
  show ?thesis unfolding merge_candidate_def
  proof (rule runs_slift_bind, simp add: em,
      rule runs_sbind [OF fresh_runs, where P = "\<lambda>gen s'. gen = ?gen \<and> s' = s\<lparr>drawn := Suc (drawn s)\<rparr>"], simp,
      elim conjE, hypsubst, rule runs_slift_bind [OF N(1)], rule runs_sbind [OF ml_profile_runs [OF p s1]], elim conjE)
    fix prof s' assume s': "nonneg_profile prof" "costs_ok (prof_util s')" "drawn s' = drawn (s\<lparr>drawn := Suc (drawn s)\<rparr>)"
    have "ml_eval p prof < LONG_MAX" using s'(1) by (auto simp: ml_eval_def nonneg_profile_def LONG_MAX_def)
    then show "runs (sbind (slift (fits p (m_graph N) prof)) (\<lambda>fit. sret (if fit then Some (N, ml_eval p prof) else None))) s'
      (\<lambda>r s'. costs_ok (prof_util s') \<and> drawn s' = Suc (drawn s) \<and>
         (\<forall>N v. r = Some (N, v) \<longrightarrow> fusion p g k N \<and> named_from p (drawn s) (drawn s') N \<and> v < LONG_MAX))"
      using fN s' by (intro runs_slift_bind [OF fit] runs_sret) auto
  qed
qed

text \<open>What the choice of a partner for node \<open>i\<close> promises.\<close>

definition partner_ok :: "MLPartitioner \<Rightarrow> MLGraph \<Rightarrow> nat \<Rightarrow> nat \<Rightarrow> (MLNode \<times> MLNode) option \<Rightarrow> part_state \<Rightarrow> bool" where
  "partner_ok p g d i r s \<longleftrightarrow> costs_ok (prof_util s) \<and> d \<le> drawn s \<and>
     (\<forall>adj N. r = Some (adj, N) \<longrightarrow> named_from p d (drawn s) N \<and>
        (\<exists>k. Suc k < length (ml_nodes g) \<and> fusion p g k N \<and>
           {m_id (ml_nodes g ! i), m_id adj} = {m_id (ml_nodes g ! k), m_id (ml_nodes g ! Suc k)}))"

lemma following_candidate_runs:
  assumes p: "partitioner_ok p" and g: "level_ok (use_amp_master_params p) g" and i: "i < length (ml_nodes g)"
    and em: "\<forall>n \<in> set (ml_nodes g). um_contains em (m_id n)" and pre: "partner_ok p g d i pre s"
  shows "runs (following_candidate p g em i val pre) s (partner_ok p g d i)"
proof (cases "i < length (ml_nodes g) - 1")
  case True
  then have k: "Suc i < length (ml_nodes g)" by simp
  have s: "costs_ok (prof_util s)" using pre by (simp add: partner_ok_def)
  have "um_contains em (m_id (ml_nodes g ! Suc i))" using em k by simp
  note cand = merge_candidate_runs [OF p g k s this]
  show ?thesis
    unfolding following_candidate_def Let_def if_P [OF True]
  proof (rule runs_sbind [OF cand], elim conjE)
    fix fol and s' :: part_state
    assume s': "costs_ok (prof_util s')" "drawn s' = Suc (drawn s)"
      and fol: "\<forall>N v. fol = Some (N, v) \<longrightarrow> fusion p g i N \<and> named_from p (drawn s) (drawn s') N \<and> v < LONG_MAX"
    have d: "d \<le> drawn s" using pre by (simp add: partner_ok_def)
    have none: "partner_ok p g d i None s'" using s' d by (simp add: partner_ok_def)
    have old: "partner_ok p g d i pre s'"
      using pre s' named_from_mono [of p d "drawn s" _ d "drawn s'"] unfolding partner_ok_def by fastforce
    have new: "partner_ok p g d i (Some (ml_nodes g ! Suc i, N)) s'" if "fol = Some (N, v)" for N v
      using fol [rule_format, OF that] s' d k named_from_mono [of p "drawn s" "drawn s'" N d "drawn s'"]
      by (auto simp: partner_ok_def intro!: exI [of _ i])
    show "runs (case fol of None \<Rightarrow> sret None
        | Some (merged, w) \<Rightarrow>
            sret (if w < val then Some (ml_nodes g ! Suc i, merged)
                  else if val = LONG_MAX then None else pre)) s' (partner_ok p g d i)"
      by (cases fol) (auto intro!: runs_sret none old dest: new split: prod.splits)
  qed
next
  case False
  have "partner_ok p g d i None s" using pre by (simp add: partner_ok_def)
  with False pre show ?thesis by (auto simp: following_candidate_def Let_def intro!: runs_sret)
qed

lemma small_partner_runs:
  assumes p: "partitioner_ok p" and g: "level_ok (use_amp_master_params p) g" and i: "i < length (ml_nodes g)"
    and em: "\<forall>n \<in> set (ml_nodes g). um_contains em (m_id n)" and s: "costs_ok (prof_util s)"
  shows "runs (small_partner p g em i) s (partner_ok p g (drawn s) i)"
proof (cases i)
  case 0
  have "partner_ok p g (drawn s) i None s" using s by (simp add: partner_ok_def)
  from following_candidate_runs [OF p g i em this] show ?thesis by (simp add: small_partner_def 0)
next
  case (Suc k)
  then have k: "Suc k < length (ml_nodes g)" using i by simp
  have "um_contains em (m_id (ml_nodes g ! k))" using em k by simp
  note cand = merge_candidate_runs [OF p g k s this]
  have "runs (sbind (merge_candidate p g em (ml_nodes g ! k) (ml_nodes g ! k) (ml_nodes g ! Suc k)) (\<lambda>pre.
        case pre of None \<Rightarrow> sret None
        | Some (merged, val) \<Rightarrow> following_candidate p g em i val (Some (ml_nodes g ! k, merged)))) s (partner_ok p g (drawn s) i)"
  proof (rule runs_sbind [OF cand], elim conjE)
    fix pre and s' :: part_state
    assume s': "costs_ok (prof_util s')" "drawn s' = Suc (drawn s)"
      and pre: "\<forall>N v. pre = Some (N, v) \<longrightarrow> fusion p g k N \<and> named_from p (drawn s) (drawn s') N \<and> v < LONG_MAX"
    have "partner_ok p g (drawn s) i None s'" using s' by (simp add: partner_ok_def)
    moreover have "partner_ok p g (drawn s) i (Some (ml_nodes g ! k, N)) s'" if "pre = Some (N, v)" for N v
      using pre [rule_format, OF that] s' k Suc by (auto simp: partner_ok_def intro!: exI [of _ k])
    ultimately show "runs (case pre of None \<Rightarrow> sret None
        | Some (merged, val) \<Rightarrow> following_candidate p g em i val (Some (ml_nodes g ! k, merged))) s' (partner_ok p g (drawn s) i)"
      by (cases pre) (auto intro!: runs_sret following_candidate_runs [OF p g i em] split: prod.splits)
  qed
  then show ?thesis unfolding Suc by (simp add: small_partner_def Let_def)
qed

text \<open>What the fused level keeps of the level it comes from.\<close>

definition small_ok :: "MLPartitioner \<Rightarrow> MLGraph \<Rightarrow> MLGraph \<Rightarrow> bool" where
  "small_ok p g h \<longleftrightarrow> level_ok (use_amp_master_params p) h \<and> (sorted_level g \<longrightarrow> sorted_level h) \<and>
     length (ml_nodes h) \<le> length (ml_nodes g) \<and> level_sequence h = level_sequence g \<and> level_ops h \<subseteq> level_ops g"

lemma small_ok_trans: "small_ok p g h \<Longrightarrow> small_ok p h k \<Longrightarrow> small_ok p g k"
  by (auto simp: small_ok_def)

lemma small_step:
  assumes p: "partitioner_ok p" and g: "level_ok (use_amp_master_params p) g" and i: "i < length (ml_nodes g)"
    and new: "names_unused p d g" and adj: "partner_ok p g d i (Some (adj, N)) s"
  obtains h where "fuse_nodes g (ml_nodes g ! i) adj N = Inr h" "small_ok p g h" "names_unused p (drawn s) h"
    and "length (ml_nodes h) < length (ml_nodes g)"
proof -
  obtain k where N: "named_from p d (drawn s) N" "d \<le> drawn s" "Suc k < length (ml_nodes g)" "fusion p g k N"
    "{m_id (ml_nodes g ! i), m_id adj} = {m_id (ml_nodes g ! k), m_id (ml_nodes g ! Suc k)}"
    using adj by (auto simp: partner_ok_def)
  obtain c where c: "d \<le> c" "c < drawn s" "m_id N = ''ML_'' @ names p c" using N(1) by (auto simp: named_from_def)
  have fresh: "m_id N \<notin> m_id ` set (ml_nodes g)"
    using new [unfolded names_unused_def, rule_format, OF _ c(1)] c(3) by fastforce
  obtain h where h: "fuse_nodes g (ml_nodes g ! i) adj N = Inr h" "ml_nodes h = fused_nodes g k N"
    "level_ok (use_amp_master_params p) h" "sorted_level g \<Longrightarrow> sorted_level h"
    by (rule fuse_result [OF g N(3,5) _ fresh]) (use N(4) in \<open>auto simp: fusion_def\<close>)
  have seq: "level_sequence h = level_sequence g" by (rule fuse_sequence [OF h(2) N(3)]) (use N(4) in \<open>simp add: fusion_def\<close>)
  have nodes: "n = N \<or> n \<in> set (ml_nodes g)" if "n \<in> set (ml_nodes h)" for n
    using that subsetD [OF fused_nodes_set] by (auto simp: h(2))
  have "level_ops h \<subseteq> level_ops g"
  proof
    fix a assume "a \<in> level_ops h"
    then obtain n where n: "n \<in> set (ml_nodes h)" "a \<in> set (nodes (m_graph n))" by (auto simp: level_ops_def)
    have "ml_nodes g ! k \<in> set (ml_nodes g)" "ml_nodes g ! Suc k \<in> set (ml_nodes g)" using N(3) by simp_all
    with n nodes [OF n(1)] N(4) show "a \<in> level_ops g" unfolding level_ops_def fusion_def by blast
  qed
  moreover have len: "length (ml_nodes h) < length (ml_nodes g)" using N(3) by (simp add: h(2) fused_nodes_def)
  ultimately have "small_ok p g h" using h(3,4) seq by (simp add: small_ok_def)
  moreover have "names_unused p (drawn s) h"
    unfolding names_unused_def
  proof (intro ballI allI impI)
    fix n j assume n: "n \<in> set (ml_nodes h)" and j: "drawn s \<le> j"
    have "inj (names p)" using p by (simp add: partitioner_ok_def)
    then have "m_id N \<noteq> ''ML_'' @ names p j" using c j by (auto simp: inj_eq)
    moreover have "m_id n \<noteq> ''ML_'' @ names p j" if "n \<in> set (ml_nodes g)"
      using new that j N(2) by (simp add: names_unused_def)
    ultimately show "m_id n \<noteq> ''ML_'' @ names p j" using nodes [OF n] by blast
  qed
  ultimately show ?thesis using that h(1) len by blast
qed

lemma merge_small_loop_runs:
  assumes "partitioner_ok p" "level_ok (use_amp_master_params p) g" "names_unused p (drawn s) g" "cost_map em" "costs_ok (prof_util s)"
  shows "runs (merge_small_loop p m em g) s (\<lambda>h s'. small_ok p g h \<and> costs_ok (prof_util s'))"
  using assms
proof (induction p m em g s rule: merge_small_loop.induct)
  case (1 p m em g s)
  note p = "1.prems"(1) and g = "1.prems"(2) and new = "1.prems"(3)
  have self: "small_ok p g g" using g by (simp add: small_ok_def)
  show ?case
  proof (cases "int (length (ml_nodes g)) > to_size m")
    case False
    then show ?thesis using self "1.prems"(5) by (simp add: runs_def merge_small_loop.simps [of p m em g s])
  next
    case True
    then have ne: "ml_nodes g \<noteq> []" by (auto simp: to_size_def not_less)
    let ?P = "scanned p (drawn s)" and ?xs = "enumerate 0 (ml_nodes g)"
    have "runs (sfold (small_node p) ?xs (em, LONG_MAX, None)) s (?P ?xs)"
    proof (rule runs_sfold)
      show "?P [] (em, LONG_MAX, None) s" using "1.prems"(4,5) by (simp add: scanned_def)
    qed (rule small_node_runs [OF p])
    then obtain em' mv idx s1 where scan: "sfold (small_node p) ?xs (em, LONG_MAX, None) s = Inr ((em', mv, idx), s1)"
      "?P ?xs (em', mv, idx) s1" by (metis runsE prod_cases3)
    then have s1: "costs_ok (prof_util s1)" "drawn s1 = drawn s" "cost_map em'" by (simp_all add: scanned_def)
    have snds: "snd ` set ?xs = set (ml_nodes g)"
      by (metis enumerate_eq_zip length_upt list.set_map map_snd_zip add_diff_cancel_left')
    have em': "\<forall>n \<in> set (ml_nodes g). um_contains em' (m_id n)" using scan(2) unfolding snds [symmetric] by (simp add: scanned_def)
    have "?xs \<noteq> []" using ne by (cases "ml_nodes g") simp_all
    then obtain i where i: "idx = Some i" "i \<in> fst ` set ?xs" using scan(2) by (cases idx) (simp_all add: scanned_def)
    then have il: "i < length (ml_nodes g)" by (auto simp: in_set_enumerate_eq)
    then have at: "vec_at (ml_nodes g) i = Inr (ml_nodes g ! i)" by simp
    obtain r s2 where r: "small_partner p g em' i s1 = Inr (r, s2)" "partner_ok p g (drawn s) i r s2"
      using runsE [OF small_partner_runs [OF p g il em' s1(1)]] s1(2) by metis
    have s2: "costs_ok (prof_util s2)" using r(2) by (simp add: partner_ok_def)
    show ?thesis
    proof (cases r)
      case None
      have "merge_small_loop p m em g s = Inr (g, s2)"
        using True scan(1) i(1) il r(1) None by (simp add: merge_small_loop.simps [of p m em g s] del: vec_at_Inr add: vec_at_def)
      then show ?thesis using self s2 by (simp add: runs_def)
    next
      case (Some am)
      obtain adj N where am: "am = (adj, N)" by (cases am)
      obtain h where h: "fuse_nodes g (ml_nodes g ! i) adj N = Inr h" "small_ok p g h" "names_unused p (drawn s2) h"
        by (rule small_step [OF p g il new r(2) [unfolded Some am]])
      have step: "merge_small_loop p m em g s = merge_small_loop p m em' h s2"
        using True scan(1) i(1) il r(1) Some am h(1)
        by (simp add: merge_small_loop.simps [of p m em g s] del: vec_at_Inr add: vec_at_def)
      have "level_ok (use_amp_master_params p) h" using h(2) by (simp add: small_ok_def)
      then have "runs (merge_small_loop p m em' h) s2 (\<lambda>k s'. small_ok p h k \<and> costs_ok (prof_util s'))"
        by (intro "1.IH" [OF True scan(1) refl refl refl i(1) at r(1) refl Some]) (use p h s1(3) s2 am in simp_all)
      then show ?thesis using small_ok_trans [OF h(2)] by (auto simp: runs_def step)
    qed
  qed
qed

section \<open>Moving nodes keeps them all\<close>

definition node_map_of :: "MLGraph \<Rightarrow> (string, MLNode) umap" where
  "node_map_of g = um_of (map (\<lambda>n. (m_id n, n)) (ml_nodes g))"

lemma node_map_distinct: "distinct (map m_id (ml_nodes g)) \<Longrightarrow> node_map_of g = map (\<lambda>n. (m_id n, n)) (ml_nodes g)"
  unfolding node_map_of_def by (rule um_of_distinct) (simp add: comp_def)

text \<open>The two ends of every move are different when no edge is a loop.\<close>

definition no_loops :: "MLEdge list \<Rightarrow> bool" where
  "no_loops es \<longleftrightarrow> (\<forall>e \<in> set es. e_src e \<noteq> e_tgt e)"

definition moves_apart :: "(string, NodeMove list) umap \<Rightarrow> bool" where
  "moves_apart choices \<longleftrightarrow> (\<forall>k mvs. um_get choices k = Some mvs \<longrightarrow> (\<forall>mv \<in> set mvs. nm_src mv \<noteq> nm_tgt mv))"

lemma add_choice_apart: "moves_apart ch \<Longrightarrow> nm_src mv \<noteq> nm_tgt mv \<Longrightarrow> moves_apart (add_choice mv ch)"
  unfolding moves_apart_def add_choice_def um_get_set
  by (cases "um_get ch (m_id (nm_node mv))") (auto simp: um_ref_def)

lemma edge_choices_apart:
  assumes "edge_choices (node_map_of g) low e ch = Inr ch'" "moves_apart ch" "e_src e \<noteq> e_tgt e"
  shows "moves_apart ch'"
proof -
  have ends: "m_id n = k" if "um_at (node_map_of g) k = Inr n" for k n
    using um_at_of [OF that [unfolded node_map_of_def]] by auto
  obtain u t where ut: "um_at (node_map_of g) (e_src e) = Inr u" "um_at (node_map_of g) (e_tgt e) = Inr t"
    and run: "rfold (\<lambda>se ch.
       rbind (rassert (um_contains low (e_src se) \<and> um_contains low (e_tgt se))) (\<lambda>_.
       rbind (um_at low (e_src se)) (\<lambda>moved_src.
       rbind (um_at low (e_tgt se)) (\<lambda>moved_tgt.
       Inr (add_choice \<lparr>nm_src = m_id u, nm_edge = e, nm_tgt = m_id t, nm_node = moved_tgt, nm_sub = se, nm_to_tgt = False\<rparr>
             (add_choice \<lparr>nm_src = m_id u, nm_edge = e, nm_tgt = m_id t, nm_node = moved_src, nm_sub = se, nm_to_tgt = True\<rparr>
               ch)))))) (e_subs e) ch = Inr ch'"
    using assms(1) by (auto simp: edge_choices_def rbind_eq_Inr)
  have ne: "m_id u \<noteq> m_id t" using ends ut assms(3) by auto
  show ?thesis
    by (rule rfold_invariant [OF run, of moves_apart, OF assms(2)])
       (auto simp: rbind_eq_Inr ne intro!: add_choice_apart)
qed

text \<open>What every move keeps: the nodes with their names, and the lower-level nodes, counted.\<close>

definition bsubs :: "boundary_state \<Rightarrow> MLNode multiset" where
  "bsubs b = mset (concat (map (m_subs \<circ> snd) (b_nodes b)))"

definition executable_node :: "MLNode \<Rightarrow> bool" where
  "executable_node n \<longleftrightarrow> verifyNodeInputs (m_graph n) \<and> verifyNoDuplicatedOutputs (m_graph n) \<and> noUnusedValue (m_graph n)"

definition boundary_inv :: "string list \<Rightarrow> MLNode multiset \<Rightarrow> boundary_state \<Rightarrow> bool" where
  "boundary_inv ids M b \<longleftrightarrow> map fst (b_nodes b) = ids \<and> distinct ids \<and> (\<forall>(k, n) \<in> set (b_nodes b). m_id n = k) \<and>
     bsubs b = M \<and> no_loops (map snd (b_edges b))"

lemma um_set_present: "k \<in> fst ` set m \<Longrightarrow> map fst (um_set k v m) = map fst m"
  by (induction m) auto

lemma mset_update:
  "distinct (map fst m) \<Longrightarrow> um_get m k = Some v0 \<Longrightarrow>
   mset (concat (map (f \<circ> snd) (um_set k v m))) + mset (f v0) = mset (concat (map (f \<circ> snd) m)) + mset (f v)"
proof (induction m)
  case (Cons kv m)
  then show ?case by (cases kv) (auto simp: ac_simps)
qed simp

lemma remove_one:
  assumes "distinct (map m_id xs)" "x \<in> set xs"
  shows "add_mset x (mset (filter (\<lambda>k. m_id k \<noteq> m_id x) xs)) = mset xs"
  using assms
proof (induction xs)
  case (Cons y ys)
  show ?case
  proof (cases "y = x")
    case True
    then have "filter (\<lambda>k. m_id k \<noteq> m_id x) ys = ys" using Cons.prems(1) by (intro filter_True) (auto simp: rev_image_eqI)
    with True show ?thesis by simp
  next
    case False
    with Cons show ?thesis by (auto simp: rev_image_eqI)
  qed
qed simp

lemma performed_keeps:
  assumes mv: "performed p b mv u e t r" and S: "inj_on m_id S" "nm_node mv \<in> S" "set (m_subs u) \<subseteq> S" "set (m_subs t) \<subseteq> S"
    and d: "distinct (map m_id (m_subs u))" "distinct (map m_id (m_subs t))"
  shows "mset (m_subs (mr_src r)) + mset (m_subs (mr_tgt r)) = mset (m_subs u) + mset (m_subs t)"
proof -
  obtain s1 s2 where run: "perform_move p (b_all b) u e t mv s1 = Inr (r, s2)" using mv by (auto simp: performed_def)
  have here: "nm_node mv \<in> set (m_subs x)" if "containsSubgraph x (m_id (nm_node mv))" "set (m_subs x) \<subseteq> S" for x
    using that S(1,2) by (force simp: containsSubgraph_def getMLNodeIds_def dest: inj_onD)
  show ?thesis
  proof (cases "nm_to_tgt mv")
    case True
    then have "nm_node mv \<in> set (m_subs u)" using mv here S(3) by (simp add: performed_def contains_moved_def)
    from remove_one [OF d(1) this] show ?thesis using perform_move_ids(5) [OF run True] by simp
  next
    case False
    then have "nm_node mv \<in> set (m_subs t)" using mv here S(4) by (simp add: performed_def contains_moved_def)
    from remove_one [OF d(2) this] show ?thesis using perform_move_ids(6) [OF run False] by simp
  qed
qed

text \<open>A node with a single lower-level node keeps it, so no node is left empty.\<close>

lemma performed_filled:
  assumes mv: "performed p b mv u e t r" and S: "inj_on m_id S" "nm_node mv \<in> S" "set (m_subs u) \<subseteq> S" "set (m_subs t) \<subseteq> S"
    and d: "distinct (map m_id (m_subs u))" "distinct (map m_id (m_subs t))" and ne: "m_subs u \<noteq> []" "m_subs t \<noteq> []"
  shows "m_subs (mr_src r) \<noteq> []" "m_subs (mr_tgt r) \<noteq> []"
proof -
  obtain s1 s2 where run: "perform_move p (b_all b) u e t mv s1 = Inr (r, s2)" using mv by (auto simp: performed_def)
  have two: "2 \<le> length (m_subs (if nm_to_tgt mv then u else t))" using mv by (simp add: performed_def)
  have total: "length (m_subs (mr_src r)) + length (m_subs (mr_tgt r)) = length (m_subs u) + length (m_subs t)"
    using arg_cong [OF performed_keeps [OF mv S d], of size] by simp
  have "m_subs (mr_src r) \<noteq> [] \<and> m_subs (mr_tgt r) \<noteq> []"
  proof (cases "nm_to_tgt mv")
    case True
    with perform_move_ids(5) [OF run] total two show ?thesis by (cases "m_subs (mr_src r)") auto
  next
    case False
    with perform_move_ids(6) [OF run] total two show ?thesis by (cases "m_subs (mr_tgt r)") auto
  qed
  then show "m_subs (mr_src r) \<noteq> []" "m_subs (mr_tgt r) \<noteq> []" by simp_all
qed

lemma distinct_ids_mset: "mset xs = mset ys \<Longrightarrow> distinct (map m_id xs) = distinct (map m_id ys)"
  by (rule mset_eq_imp_distinct_iff) (simp only: mset_map)

lemma apply_keeps:
  assumes inv: "boundary_inv ids (mset subs) b" and d: "distinct (map m_id subs)"
    and mv: "performed p b mv u e t r" "nm_node mv \<in> set subs" "nm_src mv \<noteq> nm_tgt mv"
  shows "boundary_inv ids (mset subs) (apply_move r b)"
proof -
  let ?m = "b_nodes b" and ?m1 = "um_set (nm_src mv) (mr_src r) (b_nodes b)"
  let ?m2 = "um_set (nm_tgt mv) (mr_tgt r) ?m1"
  have b: "map fst ?m = ids" "distinct ids" "\<forall>(k, n) \<in> set ?m. m_id n = k" "bsubs b = mset subs" "no_loops (map snd (b_edges b))"
    using inv by (simp_all add: boundary_inv_def)
  obtain s1 s2 where run: "perform_move p (b_all b) u e t mv s1 = Inr (r, s2)" using mv(1) by (auto simp: performed_def)
  note ids = perform_move_ids(1-4) [OF run]
  have ut: "um_get ?m (nm_src mv) = Some u" "um_get ?m (nm_tgt mv) = Some t"
    "um_get (b_edges b) (e_src (nm_edge mv), e_tgt (nm_edge mv)) = Some e"
    using mv(1) by (simp_all add: performed_def)
  have in_m: "(nm_src mv, u) \<in> set ?m" "(nm_tgt mv, t) \<in> set ?m" using ut by (auto dest: map_of_SomeD)
  have uid: "m_id u = nm_src mv" "m_id t = nm_tgt mv" using b(3) in_m by auto
  have nodes: "b_nodes (apply_move r b) = ?m2" by (simp add: apply_move_def Let_def ids uid)
  have keys1: "map fst ?m1 = ids" using in_m(1) b(1) by (subst um_set_present) force+
  have keys2: "map fst ?m2 = ids" using in_m(2) keys1 b(1) by (subst um_set_present) (auto simp: um_keys_set intro: rev_image_eqI)
  have all: "mset (concat (map (m_subs \<circ> snd) ?m)) = mset subs" using b(4) by (simp add: bsubs_def)
  then have dd: "distinct (map m_id (concat (map (m_subs \<circ> snd) ?m)))" using d distinct_ids_mset by blast
  have one: "set (m_subs n) \<subseteq> set subs \<and> distinct (map m_id (m_subs n))" if kn: "(k, n) \<in> set ?m" for k n
  proof
    have "set (m_subs n) \<subseteq> set (concat (map (m_subs \<circ> snd) ?m))" using kn by force
    also have "\<dots> = set subs" using all by (rule mset_eq_setD)
    finally show "set (m_subs n) \<subseteq> set subs" .
    from split_list [OF kn] obtain as bs where "?m = as @ (k, n) # bs" by blast
    then show "distinct (map m_id (m_subs n))" using dd by simp
  qed
  have inj: "inj_on m_id (set subs)" using d by (simp add: distinct_map)
  have keep: "mset (m_subs (mr_src r)) + mset (m_subs (mr_tgt r)) = mset (m_subs u) + mset (m_subs t)"
    using one [OF in_m(1)] one [OF in_m(2)] by (intro performed_keeps [OF mv(1) inj mv(2)]) blast+
  have get1: "um_get ?m1 (nm_tgt mv) = Some t" using ut mv(3) by (simp add: um_get_set)
  have m1: "mset (concat (map (m_subs \<circ> snd) ?m1)) + mset (m_subs u) = mset subs + mset (m_subs (mr_src r))"
    using mset_update [of ?m "nm_src mv" u m_subs "mr_src r"] b(1,2) ut(1) all by simp
  have m2: "mset (concat (map (m_subs \<circ> snd) ?m2)) + mset (m_subs t) =
      mset (concat (map (m_subs \<circ> snd) ?m1)) + mset (m_subs (mr_tgt r))"
    using mset_update [of ?m1 "nm_tgt mv" t m_subs "mr_tgt r"] keys1 b(2) get1 by simp
  have "mset (concat (map (m_subs \<circ> snd) ?m2)) + (mset (m_subs u) + mset (m_subs t)) =
      mset subs + (mset (m_subs (mr_src r)) + mset (m_subs (mr_tgt r)))"
    using m1 m2 by (metis add.assoc add.commute)
  then have "bsubs (apply_move r b) = mset subs" unfolding keep bsubs_def nodes by (rule add_right_imp_eq)
  moreover have "\<forall>(k, n) \<in> set ?m2. m_id n = k"
  proof -
    have upd: "set (um_set k v m) \<subseteq> insert (k, v) (set m)" for k v and m :: "(string, MLNode) umap"
      by (induction m) auto
    have "set ?m2 \<subseteq> insert (nm_tgt mv, mr_tgt r) (insert (nm_src mv, mr_src r) (set ?m))" using upd by blast
    then show ?thesis using b(3) ids uid by auto
  qed
  moreover have "no_loops (map snd (b_edges (apply_move r b)))"
  proof -
    have "e \<in> set (map snd (b_edges b))" using ut(3) by (force dest: map_of_SomeD)
    then have "e_src e \<noteq> e_tgt e" using b(5) unfolding no_loops_def by blast
    then have "e_src (mr_edge r) \<noteq> e_tgt (mr_edge r)" using ids(3,4) by simp
    moreover have "snd ` set (b_edges (apply_move r b)) \<subseteq> insert (mr_edge r) (snd ` set (b_edges b))"
    proof (cases "e_subs (mr_edge r) = []")
      case True
      have "snd ` set (um_erase k m) \<subseteq> snd ` set m" for k and m :: MLEdgeMap by (auto simp: AList.delete_eq)
      with True show ?thesis by (simp add: apply_move_def Let_def subset_insertI2)
    next
      case False
      have "snd ` set (um_set k v m) \<subseteq> insert v (snd ` set m)" for k v and m :: MLEdgeMap by (induction m) auto
      with False show ?thesis by (simp add: apply_move_def Let_def)
    qed
    moreover have "\<forall>e \<in> snd ` set (b_edges b). e_src e \<noteq> e_tgt e" using b(5) by (simp add: no_loops_def)
    ultimately have "\<forall>e \<in> snd ` set (b_edges (apply_move r b)). e_src e \<noteq> e_tgt e"
      by (intro ballI) (drule (1) subsetD, erule insertE, simp, drule (1) bspec)
    then show ?thesis by (simp add: no_loops_def)
  qed
  ultimately show ?thesis using keys2 b(2) by (simp add: boundary_inv_def nodes)
qed

definition filled :: "MLGraph \<Rightarrow> bool" where
  "filled g \<longleftrightarrow> (\<forall>n \<in> set (ml_nodes g). m_subs n \<noteq> [])"

lemma apply_filled:
  assumes inv: "boundary_inv ids (mset subs) b" and d: "distinct (map m_id subs)"
    and mv: "performed p b mv u e t r" "nm_node mv \<in> set subs" and ne: "filled (level_of b)"
  shows "filled (level_of (apply_move r b))"
proof -
  have in_b: "u \<in> snd ` set (b_nodes b)" "t \<in> snd ` set (b_nodes b)"
    using mv(1) by (force simp: performed_def dest: map_of_SomeD)+
  have all: "mset (concat (map m_subs (map snd (b_nodes b)))) = mset subs" using inv by (simp add: boundary_inv_def bsubs_def)
  then have dd: "distinct (map m_id (concat (map m_subs (map snd (b_nodes b)))))" using d distinct_ids_mset by blast
  have one: "set (m_subs n) \<subseteq> set subs \<and> distinct (map m_id (m_subs n)) \<and> m_subs n \<noteq> []" if n: "n \<in> snd ` set (b_nodes b)" for n
  proof (intro conjI)
    show "set (m_subs n) \<subseteq> set subs" using mset_eq_setD [OF all] n by auto
    from split_list [of n "map snd (b_nodes b)"] n obtain as bs where "map snd (b_nodes b) = as @ n # bs" by auto
    then show "distinct (map m_id (m_subs n))" using dd by simp
    show "m_subs n \<noteq> []" using ne n by (auto simp: filled_def level_of_def)
  qed
  have inj: "inj_on m_id (set subs)" using d by (simp add: distinct_map)
  have "m_subs (mr_src r) \<noteq> []" "m_subs (mr_tgt r) \<noteq> []"
    using performed_filled [OF mv(1) inj mv(2)] one [OF in_b(1)] one [OF in_b(2)] by blast+
  moreover have upd: "snd ` set (um_set k v m) \<subseteq> insert v (snd ` set m)" for k v and m :: "(string, MLNode) umap"
    by (induction m) auto
  have "set (ml_nodes (level_of (apply_move r b))) \<subseteq> insert (mr_tgt r) (insert (mr_src r) (set (ml_nodes (level_of b))))"
    using upd by (simp add: level_of_def apply_move_def Let_def) blast
  ultimately show ?thesis using ne unfolding filled_def by blast
qed

definition sound_level :: "MLGraph \<Rightarrow> bool" where
  "sound_level g \<longleftrightarrow> g_verify g \<and> (\<forall>n \<in> set (ml_nodes g). executable_node n)"

lemma apply_sound:
  assumes "performed p b mv u e t r" "g_verify (level_of (apply_move r b))" "sound_level (level_of b)"
  shows "sound_level (level_of (apply_move r b))"
proof -
  have "executable_node (mr_src r)" "executable_node (mr_tgt r)"
    using assms(1) by (auto simp: performed_def move_verified_def executable_node_def)
  moreover have upd: "snd ` set (um_set k v m) \<subseteq> insert v (snd ` set m)" for k v and m :: "(string, MLNode) umap"
    by (induction m) auto
  have "set (ml_nodes (level_of (apply_move r b))) \<subseteq> insert (mr_tgt r) (insert (mr_src r) (set (ml_nodes (level_of b))))"
    using upd by (simp add: level_of_def apply_move_def Let_def) blast
  ultimately show ?thesis using assms(2,3) unfolding sound_level_def by blast
qed

text \<open>What boundary adjustment keeps of a level.\<close>

definition adjusted :: "MLGraph \<Rightarrow> MLGraph \<Rightarrow> bool" where
  "adjusted g h \<longleftrightarrow> map m_id (ml_nodes h) = map m_id (ml_nodes g) \<and>
     mset (concat (map m_subs (ml_nodes h))) = mset (concat (map m_subs (ml_nodes g))) \<and>
     no_loops (ml_edges h) \<and> (sound_level g \<longrightarrow> sound_level h) \<and> (filled g \<longrightarrow> filled h)"

lemma adjustBoundaries_keeps:
  assumes run: "adjustBoundaries p g s = Inr (h, s')" and d: "distinct (map m_id (ml_nodes g))"
    and ds: "distinct (map m_id (concat (map m_subs (ml_nodes g))))" and loops: "no_loops (ml_edges g)"
  shows "adjusted g h"
proof -
  let ?subs = "concat (map m_subs (ml_nodes g))" and ?ids = "map m_id (ml_nodes g)"
  let ?low = "concat (map (\<lambda>n. map (\<lambda>sn. (m_id sn, sn)) (m_subs n)) (ml_nodes g))"
  let ?b0 = "\<lparr>b_nodes = node_map_of g, b_edges = edge_map_of (ml_edges g), b_all = ml_nodes g, b_subs = concat (map e_subs (ml_edges g))\<rparr>"
  obtain ch b s1 where ch: "rfold (edge_choices (node_map_of g) (um_of ?low)) (ml_edges g) [] = Inr ch"
    and fold: "sfold (adjust_node p ch) (um_keys ch True) ?b0 s1 = Inr (b, s')" and h: "h = level_of b"
    using run unfolding adjustBoundaries_def by (auto simp: Let_def st_simps node_map_of_def split: if_splits)
  have "snd ` set ?low \<subseteq> set ?subs" by auto
  then have in_subs: "choices_in (set ?subs) ch" by (rule all_choices_in [OF ch])
  have apart: "moves_apart ch"
    by (rule rfold_invariant [OF ch, of moves_apart])
       (use loops edge_choices_apart in \<open>auto simp: moves_apart_def no_loops_def\<close>)
  have nm: "node_map_of g = map (\<lambda>n. (m_id n, n)) (ml_nodes g)" by (rule node_map_distinct [OF d])
  have em: "set (map snd (edge_map_of (ml_edges g))) \<subseteq> set (ml_edges g)"
  proof
    fix e assume "e \<in> set (map snd (edge_map_of (ml_edges g)))"
    then obtain k where "(k, e) \<in> set (edge_map_of (ml_edges g))" by auto
    then have "um_at (edge_map_of (ml_edges g)) k = Inr e" by (simp add: edge_map_of_def um_get_mem um_at_Inr)
    from um_at_of [OF this [unfolded edge_map_of_def]] show "e \<in> set (ml_edges g)" by auto
  qed
  have start: "boundary_inv ?ids (mset ?subs) ?b0"
    using d loops em by (auto simp: boundary_inv_def nm bsubs_def comp_def no_loops_def)
  have sound0: "sound_level g \<longrightarrow> sound_level (level_of ?b0)"
    using em by (auto simp: sound_level_def g_verify_def level_of_def nm comp_def list_all_iff)
  have filled0: "filled g \<longrightarrow> filled (level_of ?b0)"
    by (auto simp: filled_def level_of_def nm comp_def)
  let ?P = "\<lambda>b. boundary_inv ?ids (mset ?subs) b \<and> (sound_level g \<longrightarrow> sound_level (level_of b)) \<and> (filled g \<longrightarrow> filled (level_of b))"
  have "?P b"
  proof (rule sfold_invariant [OF fold, of "\<lambda>b _. ?P b"])
    show "?P ?b0" using start sound0 filled0 by blast
  next
    fix k b1 s2 b2 s3
    assume b1: "?P b1"
      and step: "adjust_node p ch k b1 s2 = Inr (b2, s3)"
    from step show "?P b2"
    proof (rule adjust_node_result)
      fix mvs mv u e t r
      assume r: "b2 = apply_move r b1" "g_verify (level_of b2)" "um_get ch k = Some mvs" "mv \<in> set mvs" "performed p b1 mv u e t r"
      have "nm_node mv \<in> set ?subs" "nm_src mv \<noteq> nm_tgt mv"
        using in_subs apart r(3,4) unfolding choices_in_def moves_apart_def by blast+
      then have "boundary_inv ?ids (mset ?subs) b2" and "filled g \<longrightarrow> filled (level_of b2)"
        unfolding r(1) using b1 apply_filled [OF _ ds r(5)] by (blast intro: apply_keeps [OF _ ds r(5)])+
      moreover have "sound_level g \<longrightarrow> sound_level (level_of b2)"
        using apply_sound [OF r(5)] r(1,2) b1 by simp
      ultimately show ?thesis by blast
    qed (use b1 in simp)
  qed
  moreover have "map m_id (map snd (b_nodes b)) = map fst (b_nodes b)" if "\<forall>(k, n) \<in> set (b_nodes b). m_id n = k"
    using that by auto
  ultimately show ?thesis by (simp add: adjusted_def boundary_inv_def h level_of_def bsubs_def comp_def)
qed

section \<open>Uncoarsening keeps the layers\<close>

primrec layer :: "nat \<Rightarrow> MLNode list \<Rightarrow> MLNode list" where
  "layer 0 ns = ns"
| "layer (Suc d) ns = concat (map m_subs (layer d ns))"

lemma layer_mset: "mset xs = mset ys \<Longrightarrow> mset (layer d xs) = mset (layer d ys)"
proof (induction d)
  case (Suc d)
  then have "image_mset (mset \<circ> m_subs) (mset (layer d xs)) = image_mset (mset \<circ> m_subs) (mset (layer d ys))" by simp
  then show ?case by (simp add: mset_concat flip: sum_mset_sum_list mset_map del: image_mset.compositionality)
qed simp

lemma layer_Suc: "layer (Suc d) ns = layer d (concat (map m_subs ns))"
  by (induction d) simp_all

definition layers_distinct :: "MLNode list \<Rightarrow> bool" where
  "layers_distinct ns \<longleftrightarrow> (\<forall>d. distinct (map m_id (layer d ns)))"

text \<open>Going one level down moves every layer up by one.\<close>

lemma lower_layers:
  assumes "toLowerLevel g = Inr h"
  shows "layer (Suc d) (ml_nodes h) = layer (Suc (Suc d)) (ml_nodes g)" "map m_id (ml_nodes h) = map m_id (ml_nodes g)"
    "no_loops (ml_edges g) \<Longrightarrow> no_loops (ml_edges h)"
proof -
  obtain ns where run: "rmap doToLowerLevel (ml_nodes g) = Inr ns" and h: "h = \<lparr>ml_nodes = ns, ml_edges = map lower_edge (ml_edges g)\<rparr>"
    using assms by (auto simp: toLowerLevel_def rbind_eq_Inr)
  have "map m_id ns = map m_id xs \<and> concat (map m_subs ns) = concat (map m_subs (concat (map m_subs xs)))"
    if "rmap doToLowerLevel xs = Inr ns" for xs ns
    using that
  proof (induction xs arbitrary: ns)
    case (Cons x xs)
    then obtain y ys where y: "doToLowerLevel x = Inr y" "rmap doToLowerLevel xs = Inr ys" "ns = y # ys"
      by (auto simp: rbind_eq_Inr)
    then have "m_id y = m_id x" "m_subs y = concat (map m_subs (m_subs x))" by (auto simp: doToLowerLevel_def rbind_eq_Inr)
    with Cons.IH [OF y(2)] y(3) show ?case by simp
  qed simp
  from this [OF run] show "layer (Suc d) (ml_nodes h) = layer (Suc (Suc d)) (ml_nodes g)" "map m_id (ml_nodes h) = map m_id (ml_nodes g)"
    by (simp_all add: h layer_Suc del: layer.simps(2))
  show "no_loops (ml_edges g) \<Longrightarrow> no_loops (ml_edges h)" by (simp add: h no_loops_def lower_edge_def)
qed

text \<open>The levels that uncoarsening meets below the level \<open>g\<close>: the lower nodes are one of its layers.\<close>

definition below :: "MLGraph \<Rightarrow> nat \<Rightarrow> MLGraph \<Rightarrow> bool" where
  "below g d h \<longleftrightarrow> map m_id (ml_nodes h) = map m_id (ml_nodes g) \<and> no_loops (ml_edges h) \<and>
     (\<forall>i. mset (layer (Suc i) (ml_nodes h)) = mset (layer (Suc (i + d)) (ml_nodes g)))"

lemma below_subs: "below g d h \<Longrightarrow> mset (concat (map m_subs (ml_nodes h))) = mset (layer (Suc d) (ml_nodes g))"
  unfolding below_def by (metis add_0 layer.simps)

lemma below_adjust:
  assumes "below g d h" "layers_distinct (ml_nodes g)" "adjustBoundaries p h s = Inr (k, s')"
  shows "below g d k"
proof -
  have "mset (layer (Suc 0) (ml_nodes h)) = mset (layer (Suc (0 + d)) (ml_nodes g))"
    using assms(1) unfolding below_def by blast
  then have "distinct (map m_id (layer (Suc 0) (ml_nodes h)))"
    using assms(2) distinct_ids_mset unfolding layers_distinct_def by blast
  moreover have "distinct (map m_id (ml_nodes h))"
    using assms(1,2) unfolding below_def layers_distinct_def by (metis layer.simps(1))
  ultimately have "adjusted h k"
    using assms(1) by (intro adjustBoundaries_keeps [OF assms(3)]) (simp_all add: below_def)
  then have k: "map m_id (ml_nodes k) = map m_id (ml_nodes h)" "no_loops (ml_edges k)"
    "mset (concat (map m_subs (ml_nodes k))) = mset (concat (map m_subs (ml_nodes h)))" by (simp_all add: adjusted_def)
  have "mset (layer (Suc i) (ml_nodes k)) = mset (layer (Suc i) (ml_nodes h))" for i
    unfolding layer_Suc by (rule layer_mset [OF k(3)])
  with k(1,2) assms(1) show ?thesis unfolding below_def by simp
qed

lemma below_lower: "below g d h \<Longrightarrow> toLowerLevel h = Inr k \<Longrightarrow> below g (Suc d) k"
  using lower_layers [of h k] unfolding below_def by (auto simp del: layer.simps(2))

text \<open>A node all of whose lowest nodes are \<open>k\<close> levels below it; then \<open>k\<close> is its level.\<close>

primrec has_level :: "nat \<Rightarrow> MLNode \<Rightarrow> bool" where
  "has_level 0 n \<longleftrightarrow> m_subs n = []"
| "has_level (Suc k) n \<longleftrightarrow> m_subs n \<noteq> [] \<and> (\<forall>m \<in> set (m_subs n). has_level k m)"

lemma has_level_getLevel: "has_level k n \<Longrightarrow> getLevel n = int k"
proof (induction k arbitrary: n)
  case 0
  then show ?case by (cases n) simp
next
  case (Suc k)
  obtain i g subs es where n: "n = MLNode i g subs es" by (cases n)
  with Suc.prems obtain m ms where "subs = m # ms" "has_level k m" by (cases subs) auto
  with Suc.IH n show ?case by simp
qed

lemma has_level_layer: "\<forall>n \<in> set ns. has_level (d + k) n \<Longrightarrow> \<forall>n \<in> set (layer d ns). has_level k n"
proof (induction d arbitrary: k)
  case (Suc d)
  from Suc.IH [of "Suc k"] Suc.prems show ?case by simp
qed simp

lemma adjustBoundaries_filled:
  assumes "below g d h" "layers_distinct (ml_nodes g)" "adjustBoundaries p h s = Inr (k, s')" "filled h"
  shows "filled k"
proof -
  have "mset (layer (Suc 0) (ml_nodes h)) = mset (layer (Suc (0 + d)) (ml_nodes g))"
    using assms(1) unfolding below_def by blast
  then have "distinct (map m_id (layer (Suc 0) (ml_nodes h)))"
    using assms(2) distinct_ids_mset unfolding layers_distinct_def by blast
  moreover have "distinct (map m_id (ml_nodes h))"
    using assms(1,2) unfolding below_def layers_distinct_def by (metis layer.simps(1))
  ultimately have "adjusted h k"
    using assms(1) by (intro adjustBoundaries_keeps [OF assms(3)]) (simp_all add: below_def)
  with assms(4) show ?thesis by (simp add: adjusted_def)
qed

text \<open>The lower-level nodes below \<open>g\<close> have all the level that is left.\<close>

lemma below_level:
  assumes "below g d h" "\<forall>n \<in> set (ml_nodes g). has_level (Suc d + k) n" "filled h"
  shows "\<forall>n \<in> set (ml_nodes h). has_level (Suc k) n"
proof -
  have same: "set (concat (map m_subs (ml_nodes h))) = set (layer (Suc d) (ml_nodes g))"
    by (rule mset_eq_setD [OF below_subs [OF assms(1)]])
  have "has_level k m" if "n \<in> set (ml_nodes h)" "m \<in> set (m_subs n)" for n m
  proof -
    have "m \<in> set (concat (map m_subs (ml_nodes h)))" using that by auto
    then show ?thesis unfolding same using has_level_layer [OF assms(2)] by blast
  qed
  with assms(3) show ?thesis by (simp add: filled_def)
qed

lemma lower_filled:
  assumes "toLowerLevel h = Inr low" "\<forall>n \<in> set (ml_nodes h). has_level (Suc (Suc k)) n"
  shows "filled low"
proof -
  obtain ns where run: "rmap doToLowerLevel (ml_nodes h) = Inr ns" and low: "ml_nodes low = ns"
    using assms(1) by (auto simp: toLowerLevel_def rbind_eq_Inr)
  have "\<forall>n \<in> set ns. m_subs n \<noteq> []"
    if "rmap doToLowerLevel xs = Inr ns" "\<forall>n \<in> set xs. has_level (Suc (Suc k)) n" for xs ns
    using that
  proof (induction xs arbitrary: ns)
    case (Cons x xs)
    then obtain y ys where y: "doToLowerLevel x = Inr y" "rmap doToLowerLevel xs = Inr ys" "ns = y # ys"
      by (auto simp: rbind_eq_Inr)
    then have subs: "m_subs y = concat (map m_subs (m_subs x))" by (auto simp: doToLowerLevel_def rbind_eq_Inr)
    obtain m where "m \<in> set (m_subs x)" "m_subs m \<noteq> []" using Cons.prems(2) by (cases "m_subs x") auto
    then have "m_subs y \<noteq> []" unfolding subs by auto
    with Cons y show ?case by simp
  qed simp
  from this [OF run assms(2)] show ?thesis by (simp add: filled_def low)
qed

lemma uncoarsen_loop_lowest:
  assumes "layers_distinct (ml_nodes g)" "below g d h" "\<forall>n \<in> set (ml_nodes g). has_level (Suc d + k) n" "filled h"
    and "uncoarsen_loop p h s = Inr (h', s')"
  shows "below g (d + k) h' \<and> filled h'"
  using assms
proof (induction p h s arbitrary: d k rule: uncoarsen_loop.induct)
  case (1 p h s)
  have lev: "\<forall>n \<in> set (ml_nodes h). has_level (Suc k) n" by (rule below_level [OF "1.prems"(2-4)])
  then have gl: "g_getLevel h = (if ml_nodes h = [] then - 1 else int (Suc k))"
    using has_level_getLevel [of "Suc k" "hd (ml_nodes h)"] by (simp add: g_getLevel_def del: has_level.simps)
  have same: "map m_id (ml_nodes h) = map m_id (ml_nodes g)" using "1.prems"(2) by (simp add: below_def)
  show ?case
  proof (cases "g_getLevel h > 1")
    case False
    then have "h' = h" using "1.prems"(5) by (simp add: uncoarsen_loop.simps [of p h s])
    moreover have "below g (d + k) h"
    proof (cases "ml_nodes h = []")
      case True
      then have e: "ml_nodes g = []" using same by simp
      have "layer i [] = []" for i by (induction i) simp_all
      then show ?thesis using "1.prems"(2) by (simp add: below_def e True)
    next
      case ne: False
      with False gl have "k = 0" by simp
      with "1.prems"(2) show ?thesis by simp
    qed
    ultimately show ?thesis using "1.prems"(4) by simp
  next
    case True
    then obtain k' where k': "k = Suc k'" using gl by (cases k) (auto split: if_splits)
    from True obtain low a s1 w where r: "toLowerLevel h = Inr low" "adjustBoundaries p low s = Inr (a, s1)"
      "sumEdgeSizes (ml_edges a) = Inr w" "uncoarsen_loop p a s1 = Inr (h', s')"
      using "1.prems"(5) by (auto simp: uncoarsen_loop.simps [of p h s] rbind_eq_Inr)
    have low: "below g (Suc d) low" by (rule below_lower [OF "1.prems"(2) r(1)])
    have filled: "filled low" by (rule lower_filled [OF r(1)]) (use lev k' in blast)
    have "below g (Suc d + k') h' \<and> filled h'"
      by (rule "1.IH" [OF True r(1,2) refl r(3) "1.prems"(1) below_adjust [OF low "1.prems"(1) r(2)] _
            adjustBoundaries_filled [OF low "1.prems"(1) r(2) filled] r(4)]) (use "1.prems"(3) k' in simp)
    then show ?thesis by (simp add: k')
  qed
qed

section \<open>A level with a group that is too large\<close>

definition flow_group :: "string \<Rightarrow> (string \<times> string list \<times> string) list \<Rightarrow> string list \<Rightarrow> string list \<Rightarrow> MLEdge list \<Rightarrow> MLNode" where
  "flow_group name ops ins outs es =
     MLNode name \<lparr>g_name = name, nodes = map (\<lambda>(n, i, x). demo_node n i [x]) ops,
       gvalues = map (\<lambda>x. (x, flow_value x)) (ins @ map (snd \<circ> snd) ops), g_inputs = ins, g_outputs = outs, is_replicable = False\<rparr>
       (map (\<lambda>(n, i, x). flow_node n i x) ops) es"

definition uneven_level :: MLGraph where
  "uneven_level = \<lparr>ml_nodes = [flow_group ''A'' [(''f'', [''x''], ''y''), (''g'', [''y''], ''z''), (''h'', [''z''], ''u'')] [''x''] [''u'']
         [flow_edge ''f'' ''g'' ''y'', flow_edge ''g'' ''h'' ''z''],
       flow_group ''B'' [(''k'', [''u''], ''v'')] [''u''] [''v''] []],
     ml_edges = [MLEdge ''A'' ''B'' [flow_edge ''h'' ''k'' ''u''] []]\<rparr>"

definition square_profiler :: profiler where
  "square_profiler gs iteration repl cp =
     Profiled (map (\<lambda>(n, g). (n, \<lparr>gp_name = n, fwd_time = 100 * int (length (nodes g)) * int (length (nodes g)),
        bwd_time = 0, max_allocated_mem = 100, gp_checkpointing = cp\<rparr>)) gs)"

text \<open>A device whose time grows with the square of the number of operators.\<close>

lemma uneven_level_facts:
  "layers_distinct (ml_nodes uneven_level)" "no_loops (ml_edges uneven_level)" "sound_level uneven_level"
proof -
  have "layer (Suc (Suc d)) (ml_nodes uneven_level) = []" for d
    by (induction d) (simp_all add: uneven_level_def flow_group_def flow_node_def)
  moreover have "distinct (map m_id (layer 0 (ml_nodes uneven_level)))" "distinct (map m_id (layer (Suc 0) (ml_nodes uneven_level)))"
    by (simp_all add: uneven_level_def flow_group_def flow_node_def)
  ultimately have "distinct (map m_id (layer d (ml_nodes uneven_level)))" for d
    by (metis distinct.simps(1) list.map(1) not0_implies_Suc)
  then show "layers_distinct (ml_nodes uneven_level)" by (simp add: layers_distinct_def)
  show "no_loops (ml_edges uneven_level)" by (simp add: no_loops_def uneven_level_def)
  have "list_all executable_node (ml_nodes uneven_level)" "g_verify uneven_level" by code_simp+
  then show "sound_level uneven_level" by (simp add: sound_level_def list_all_iff)
qed

lemma uneven_adjusted:
  "\<exists>h s'. adjustBoundaries (demo_partitioner square_profiler) uneven_level new_state = Inr (h, s') \<and>
     map (map m_id \<circ> m_subs) (ml_nodes h) = [[''f'', ''g''], [''h'', ''k'']]"
proof -
  have "map_sum id (\<lambda>(h, s'). map (map m_id \<circ> m_subs) (ml_nodes h))
      (adjustBoundaries (demo_partitioner square_profiler) uneven_level new_state) = Inr [[''f'', ''g''], [''h'', ''k'']]"
    by code_simp
  then show ?thesis by (cases "adjustBoundaries (demo_partitioner square_profiler) uneven_level new_state") auto
qed

text \<open>The same level with one more level on top of it.\<close>

definition uneven_top :: MLGraph where
  "uneven_top = \<lparr>ml_nodes = map (\<lambda>n. MLNode (CHR ''P'' # m_id n) (m_graph n) [n] []) (ml_nodes uneven_level),
     ml_edges = map (\<lambda>e. MLEdge (CHR ''P'' # e_src e) (CHR ''P'' # e_tgt e) [e] []) (ml_edges uneven_level)\<rparr>"

lemma uneven_top_facts:
  "layers_distinct (ml_nodes uneven_top)" "no_loops (ml_edges uneven_top)" "\<forall>n \<in> set (ml_nodes uneven_top). has_level 2 n"
proof -
  have low: "layer 1 (ml_nodes uneven_top) = ml_nodes uneven_level" by (simp add: uneven_top_def comp_def concat_map_singleton)
  have "distinct (map m_id (layer d (ml_nodes uneven_top)))" for d
  proof (cases d)
    case 0
    then show ?thesis by (simp add: uneven_top_def uneven_level_def flow_group_def)
  next
    case (Suc e)
    have "layer (Suc e) (ml_nodes uneven_top) = layer e (layer 1 (ml_nodes uneven_top))"
      by (simp only: layer_Suc) simp
    then show ?thesis using uneven_level_facts(1) by (simp only: Suc low layers_distinct_def)
  qed
  then show "layers_distinct (ml_nodes uneven_top)" by (simp add: layers_distinct_def)
  show "no_loops (ml_edges uneven_top)" by (simp add: no_loops_def uneven_top_def uneven_level_def)
  show "\<forall>n \<in> set (ml_nodes uneven_top). has_level 2 n"
    by (simp add: uneven_top_def uneven_level_def flow_group_def flow_node_def numeral_2_eq_2)
qed

lemma uneven_uncoarsened:
  "\<exists>h s'. uncoarsen (demo_partitioner square_profiler) uneven_top new_state = Inr (h, s') \<and>
     map (map m_id \<circ> m_subs) (ml_nodes h) = [[''f'', ''g''], [''h'', ''k'']]"
proof -
  have "map_sum id (\<lambda>(h, s'). map (map m_id \<circ> m_subs) (ml_nodes h))
      (uncoarsen (demo_partitioner square_profiler) uneven_top new_state) = Inr [[''f'', ''g''], [''h'', ''k'']]" by code_simp
  then show ?thesis by (cases "uncoarsen (demo_partitioner square_profiler) uneven_top new_state") auto
qed

section \<open>Properties\<close>

text \<open>
  C12. Fusing small neighbours is correct: on a topologically sorted level in good order whose names the
  generator has not drawn, \<open>mergeSmall\<close> returns (its loop ends), and its result is a level in good order
  that is still topologically sorted, with no more nodes, with the same lowest-level nodes in the same
  order; and the graph of every node of it computes the values of its outputs.
\<close>

theorem mergeSmall_correct:
  assumes "partitioner_ok p" "level_ok (use_amp_master_params p) ml" "sorted_level ml" "names_unused p (drawn s) ml"
    and "costs_ok (prof_util s)"
  shows "\<exists>h s'. mergeSmall p ml m s = Inr (h, s') \<and>
     level_ok (use_amp_master_params p) h \<and> sorted_level h \<and> length (ml_nodes h) \<le> length (ml_nodes ml) \<and>
     level_sequence h = level_sequence ml \<and>
     (\<forall>eps sem env n. (\<forall>k \<in> level_ops ml. satisfies sem eps k) \<and> n \<in> set (ml_nodes h) \<and>
        part_of env eps \<and> set (g_inputs (m_graph n)) \<subseteq> dom env \<longrightarrow>
        run_graph sem (m_graph n) env = Some (map (\<lambda>x. Some (eps x)) (g_outputs (m_graph n))))"
proof -
  have "cost_map []" by (simp add: cost_map_def)
  from merge_small_loop_runs [OF assms(1,2,4) this assms(5), of m]
  obtain h s' where h: "mergeSmall p ml m s = Inr (h, s')" "small_ok p ml h" unfolding mergeSmall_def by (rule runsE) blast
  then have ok: "level_ok (use_amp_master_params p) h" "level_ops h \<subseteq> level_ops ml" by (simp_all add: small_ok_def)
  have "run_graph sem (m_graph n) env = Some (map (\<lambda>x. Some (eps x)) (g_outputs (m_graph n)))"
    if "\<forall>k \<in> level_ops ml. satisfies sem eps k" "n \<in> set (ml_nodes h)" "part_of env eps" "set (g_inputs (m_graph n)) \<subseteq> dom env"
    for eps sem env n using level_meaning [OF ok that] .
  with h ok(1) assms(3) show ?thesis unfolding small_ok_def by blast
qed

theorem mergeSmall_correct_witness:
  "\<exists>h s'. mergeSmall (demo_partitioner demo_profiler) chain_level 1 new_state = Inr (h, s') \<and>
     sorted_level h \<and> level_sequence h = level_sequence chain_level"
proof -
  have "sorted_level chain_level"
    unfolding sorted_level_def
    by (intro ballI exI [of _ 0] exI [of _ 1]) (simp add: chain_level_def flow_edge_def flow_node_def)
  moreover have "names_unused (demo_partitioner demo_profiler) (drawn new_state) chain_level"
    by (auto simp: names_unused_def chain_level_def flow_node_def)
  moreover have "level_ok (use_amp_master_params (demo_partitioner demo_profiler)) chain_level" by (rule chain_level_ok)
  ultimately show ?thesis
    using mergeSmall_correct [OF demo_partitioner_ok, of chain_level new_state 1] new_state_ok by blast
qed

text \<open>
  C13. Boundary adjustment only moves nodes: when it returns, the nodes are still the same ones in the same
  order, the lower-level nodes are the same, counted, no node loses its last lower-level node, no edge is a loop, and if the edges were verified
  and the graphs of all nodes were executable, without duplicated outputs and unused values, they still are.
\<close>

theorem adjustBoundaries_conserves:
  assumes "adjustBoundaries p g s = Inr (h, s')" "distinct (map m_id (ml_nodes g))"
    and "distinct (map m_id (concat (map m_subs (ml_nodes g))))" "no_loops (ml_edges g)" "sound_level g"
  shows "map m_id (ml_nodes h) = map m_id (ml_nodes g) \<and>
     mset (concat (map m_subs (ml_nodes h))) = mset (concat (map m_subs (ml_nodes g))) \<and>
     ((\<forall>n \<in> set (ml_nodes g). m_subs n \<noteq> []) \<longrightarrow> (\<forall>n \<in> set (ml_nodes h). m_subs n \<noteq> [])) \<and>
     no_loops (ml_edges h) \<and> sound_level h"
  using adjustBoundaries_keeps [OF assms(1-4)] assms(5) by (simp add: adjusted_def filled_def)

theorem adjustBoundaries_conserves_witness:
  "\<exists>h s'. adjustBoundaries (demo_partitioner square_profiler) uneven_level new_state = Inr (h, s') \<and>
     map (map m_id \<circ> m_subs) (ml_nodes h) = [[''f'', ''g''], [''h'', ''k'']] \<and>
     map m_id (ml_nodes h) = [''A'', ''B''] \<and> sound_level h"
proof -
  obtain h s' where h: "adjustBoundaries (demo_partitioner square_profiler) uneven_level new_state = Inr (h, s')"
    "map (map m_id \<circ> m_subs) (ml_nodes h) = [[''f'', ''g''], [''h'', ''k'']]" using uneven_adjusted by (elim exE conjE)
  have "distinct (map m_id (ml_nodes uneven_level))" "distinct (map m_id (concat (map m_subs (ml_nodes uneven_level))))"
    using uneven_level_facts(1) unfolding layers_distinct_def by (metis layer.simps)+
  from adjustBoundaries_conserves [OF h(1) this uneven_level_facts(2,3)] h show ?thesis
    by (auto simp: uneven_level_def flow_group_def)
qed

text \<open>
  C14. Uncoarsening goes down to the lowest level and loses no node: for nodes of one level \<open>Suc k\<close> (all their
  lowest nodes are \<open>Suc k\<close> levels below) with distinct names in every layer, whenever \<open>uncoarsen\<close> returns
  without an error its nodes are still the same ones in the same order, their sub-nodes are, counted, exactly
  the lowest layer of the nodes of the original level, none of the nodes is left without a sub-node, so the level
  of the result is 1, and no edge is a loop.
\<close>

theorem uncoarsen_reaches_lowest:
  assumes "layers_distinct (ml_nodes g)" "no_loops (ml_edges g)" "\<forall>n \<in> set (ml_nodes g). has_level (Suc k) n"
    and "uncoarsen p g s = Inr (h, s')"
  shows "map m_id (ml_nodes h) = map m_id (ml_nodes g) \<and>
     mset (concat (map m_subs (ml_nodes h))) = mset (layer (Suc k) (ml_nodes g)) \<and>
     (\<forall>n \<in> set (ml_nodes h). getLevel n = 1 \<and> m_subs n \<noteq> []) \<and> no_loops (ml_edges h)"
proof -
  obtain a s1 where a: "adjustBoundaries p g s = Inr (a, s1)" "uncoarsen_loop p a s1 = Inr (h, s')"
    using assms(4) by (auto simp: uncoarsen_def st_simps)
  have start: "below g 0 g" "filled g" using assms(2,3) by (simp_all add: below_def filled_def)
  have lev: "\<forall>n \<in> set (ml_nodes g). has_level (Suc 0 + k) n" using assms(3) by simp
  have h: "below g (0 + k) h" "filled h"
    using uncoarsen_loop_lowest [OF assms(1) below_adjust [OF start(1) assms(1) a(1)] lev
        adjustBoundaries_filled [OF start(1) assms(1) a(1) start(2)] a(2)] by blast+
  have "mset (concat (map m_subs (ml_nodes h))) = mset (layer (Suc k) (ml_nodes g))" using below_subs [OF h(1)] by simp
  moreover have "\<forall>n \<in> set (ml_nodes h). has_level (Suc 0) n" by (rule below_level [OF h(1) _ h(2)]) (use assms(3) in simp)
  then have "\<forall>n \<in> set (ml_nodes h). getLevel n = 1" using has_level_getLevel by fastforce
  ultimately show ?thesis using h unfolding below_def filled_def by blast
qed

theorem uncoarsen_reaches_lowest_witness:
  "\<exists>h s'. uncoarsen (demo_partitioner square_profiler) uneven_top new_state = Inr (h, s') \<and>
     map (map m_id \<circ> m_subs) (ml_nodes h) = [[''f'', ''g''], [''h'', ''k'']] \<and>
     mset (concat (map m_subs (ml_nodes h))) = mset (layer 2 (ml_nodes uneven_top))"
proof -
  obtain h s' where h: "uncoarsen (demo_partitioner square_profiler) uneven_top new_state = Inr (h, s')"
    "map (map m_id \<circ> m_subs) (ml_nodes h) = [[''f'', ''g''], [''h'', ''k'']]" using uneven_uncoarsened by (elim exE conjE)
  have "\<forall>n \<in> set (ml_nodes uneven_top). has_level (Suc 1) n" using uneven_top_facts(3) unfolding numeral_2_eq_2 One_nat_def .
  from uncoarsen_reaches_lowest [OF uneven_top_facts(1,2) this h(1)]
  have "mset (concat (map m_subs (ml_nodes h))) = mset (layer 2 (ml_nodes uneven_top))"
    unfolding numeral_2_eq_2 One_nat_def by (rule conjunct2 [THEN conjunct1])
  then show ?thesis by (intro exI [of _ h] exI [of _ s'] conjI h)
qed

end
