(* ===== verification/DP_Properties.thy ===== *)
theory DP_Properties
  imports DP_Staging_Correct ML_Refine_Correct
begin

text \<open>
  What the staging search promises: the graph of a range of nodes, the staging that one search finds,
  the meaning of the stages run one after the other, and the choice of the cheapest solution.
\<close>

section \<open>A small search\<close>

definition demo_staging :: "bool \<Rightarrow> DPStaging" where
  "demo_staging merged = \<lparr>dp_device = square_profiler, dp_names = (\<lambda>n. replicate n CHR ''a''), dp_batch_size = 8,
     dp_dev_mem = 2 ^ 20, dp_amp = False, dp_zero = False, dp_opt_factor = 2, dp_min_pipeline_bs = 1,
     dp_limit_pot = False, dp_limit_bs = False, dp_coarsening = merged, dp_min_pipeline = 1, dp_max_pipeline = 1,
     dp_cfg_pipeline_num = 0, dp_cfg_partition_num = 0, dp_search_all = True, dp_device_count = 2\<rparr>"

definition demo_run :: dp_run where
  "demo_run = \<lparr>rn_graph = chain_level, rn_stages = 2, rn_devs = 2, rn_replica = 1, rn_pipeline = 1, rn_checkpointing = False\<rparr>"

definition idle_state :: dp_state where
  "idle_state = \<lparr>dp_prof = new_ProfilerUtil, dp_cache = [], dp_drawn = 0\<rparr>"

lemma chain_stageable: "stageable (demo_staging merged) chain_level"
proof -
  have "graph_inv (m_graph n) \<and> (\<forall>m \<in> set (ml_nodes chain_level). ids_compatible (nodes (m_graph n)) (nodes (m_graph m)))"
    if "n \<in> set (ml_nodes chain_level)" for n
    using chain_level_ok that by (simp add: level_ok_def node_ok_def)
  moreover have "\<not> merge_name (m_id n) \<and> \<not> merge_name (g_name (m_graph n)) \<and> (\<forall>k. m_id n \<noteq> ''ML_'' @ dp_names (demo_staging merged) k)"
    if "n \<in> set (ml_nodes chain_level)" for n
    using that by (auto simp: chain_level_def flow_node_def merge_name_def)
  moreover have "distinct (map m_id (ml_nodes chain_level))" "distinct (map (g_name \<circ> m_graph) (ml_nodes chain_level))"
    "\<forall>e \<in> set (ml_edges chain_level). e_src e \<in> m_id ` set (ml_nodes chain_level) \<and> e_tgt e \<in> m_id ` set (ml_nodes chain_level)"
    by (simp_all add: chain_level_def flow_node_def flow_edge_def)
  ultimately show ?thesis unfolding stageable_def by blast
qed

lemma demo_run_found:
  "\<exists>sol st'. doRunDpComm (demo_staging True) demo_run idle_state = Inr (sol, st') \<and> map g_name (al_graphs sol) = [''f'', ''g'']"
proof -
  have "map_sum id (\<lambda>(sol, st'). map g_name (al_graphs sol)) (doRunDpComm (demo_staging True) demo_run idle_state) =
      Inr [''f'', ''g'']" by code_simp
  then show ?thesis by (cases "doRunDpComm (demo_staging True) demo_run idle_state") auto
qed

lemma demo_search_found:
  "\<exists>sol st'. runDpComm (demo_staging True) False chain_level 2 idle_state = Inr (sol, st') \<and> map g_name (al_graphs sol) = [''f'', ''g'']"
proof -
  have "map_sum id (\<lambda>(sol, st'). map g_name (al_graphs sol)) (runDpComm (demo_staging True) False chain_level 2 idle_state) =
      Inr [''f'', ''g'']" by code_simp
  then show ?thesis by (cases "runDpComm (demo_staging True) False chain_level 2 idle_state") auto
qed

section \<open>Properties\<close>

text \<open>
  C10. The graph of a range of nodes: on a level that can be staged, and whatever ranges were merged before,
  \<open>GraphMergeHelper::merge\<close> returns a well-formed graph and leaves the cache in order. All operators of the
  graph are operators of the range (those whose results nobody needs may be missing), its outputs are
  outputs of nodes of the range, and it puts out every value of the range that a later node reads or that
  no node of the range reads. Every input of it is an input of a node \<open>k\<close> of the range that no node of the
  range before \<open>k\<close> puts out, or a parameter of \<open>k\<close>; so on a sorted range, in which no node reads what itself
  or a later node puts out, it asks for no value that the range puts out, except for parameters. And it
  computes the meaning of the range: given its inputs under a valuation that satisfies the operators of
  the range, it returns the values of that valuation for its outputs.
\<close>

theorem merge_range_correct:
  assumes "stageable D g" "i \<le> j" "j < length (ml_nodes g)" "cache_ok g (dp_cache s)"
  shows "\<exists>h s'. merge_range D g i j s = Inr (h, s') \<and> cache_ok g (dp_cache s') \<and> graph_inv h \<and>
     set (nodes h) \<subseteq> (\<Union>k \<in> {i..j}. set (nodes (m_graph (ml_nodes g ! k)))) \<and>
     set (g_outputs h) \<subseteq> (\<Union>k \<in> {i..j}. outs_at g k) \<and>
     (\<forall>k \<in> {i..j}. \<forall>x \<in> outs_at g k.
        (\<exists>l. j < l \<and> l < length (ml_nodes g) \<and> x \<in> ins_at g l) \<or> (\<forall>l \<in> {i..j}. x \<notin> ins_at g l) \<longrightarrow> x \<in> set (g_outputs h)) \<and>
     (\<forall>x \<in> set (g_inputs h). \<exists>k \<in> {i..j}. x \<in> ins_at g k \<and>
        (is_param_input (m_graph (ml_nodes g ! k)) x \<or> (\<forall>l \<in> {i..<k}. x \<notin> outs_at g l))) \<and>
     ((\<forall>k \<in> {i..j}. \<forall>l \<in> {k..j}. ins_at g k \<inter> outs_at g l = {}) \<longrightarrow>
        (\<forall>x \<in> set (g_inputs h). (\<exists>k \<in> {i..j}. is_param_input (m_graph (ml_nodes g ! k)) x) \<or> (\<forall>l \<in> {i..j}. x \<notin> outs_at g l))) \<and>
     (\<forall>sem (eps :: string \<Rightarrow> 'v) env. (\<forall>k \<in> {i..j}. \<forall>op \<in> set (nodes (m_graph (ml_nodes g ! k))). satisfies sem eps op) \<and>
        part_of env eps \<and> set (g_inputs h) \<subseteq> dom env \<longrightarrow>
        run_graph sem h env = Some (map (\<lambda>x. Some (eps x)) (g_outputs h)))"
proof -
  obtain h s' where h: "merge_range D g i j s = Inr (h, s')" "range_graph g i j h" "cache_ok g (dp_cache s')"
    using merge_range_runs [OF assms] by (rule runsE) blast
  note rg = h(2) [unfolded range_graph_def keeps_outputs_def needs_inputs_def]
  have meaning: "run_graph sem h env = Some (map (\<lambda>x. Some (eps x)) (g_outputs h))"
    if "\<forall>k \<in> {i..j}. \<forall>op \<in> set (nodes (m_graph (ml_nodes g ! k))). satisfies sem eps op" "part_of env eps" "set (g_inputs h) \<subseteq> dom env"
    for sem and eps :: "string \<Rightarrow> 'v" and env
    by (rule graph_meaning) (use h(2) that in \<open>auto simp: range_graph_def\<close>)
  have sorted: "x \<notin> outs_at g l" if x: "x \<in> set (g_inputs h)" "\<forall>k \<in> {i..j}. \<not> is_param_input (m_graph (ml_nodes g ! k)) x"
    and sorted: "\<forall>k \<in> {i..j}. \<forall>l \<in> {k..j}. ins_at g k \<inter> outs_at g l = {}" and l: "l \<in> {i..j}" for x l
  proof -
    obtain k where k: "k \<in> {i..j}" "x \<in> ins_at g k" "\<forall>l \<in> {i..<k}. x \<notin> outs_at g l"
      using h(2) x unfolding range_graph_def needs_inputs_def by blast
    show ?thesis
    proof (cases "l < k")
      case True
      with k(3) l show ?thesis by simp
    next
      case False
      then have "l \<in> {k..j}" using l by simp
      with sorted k(1,2) show ?thesis by blast
    qed
  qed
  show ?thesis
    by (rule exI [of _ h], rule exI [of _ s'])
       (intro conjI impI ballI allI h(1,3) rg [THEN conjunct1] rg [THEN conjunct2, THEN conjunct1, rule_format]
         rg [THEN conjunct2, THEN conjunct2, THEN conjunct1, rule_format] rg [THEN conjunct2, THEN conjunct2, THEN conjunct2, THEN conjunct1]
         rg [THEN conjunct2, THEN conjunct2, THEN conjunct2, THEN conjunct2, THEN conjunct1]; use meaning sorted in blast)
qed

theorem merge_range_correct_witness:
  "\<exists>h s'. merge_range (demo_staging True) chain_level 0 1 (idle_state\<lparr>dp_cache := new_merge_cache chain_level\<rparr>) = Inr (h, s') \<and>
     graph_inv h \<and> ''z'' \<in> set (g_outputs h)"
proof -
  have "cache_ok chain_level (dp_cache (idle_state\<lparr>dp_cache := new_merge_cache chain_level\<rparr>))"
    using new_cache_ok [OF chain_stageable] by simp
  from merge_range_correct [where 'v = unit, OF chain_stageable [of True] _ _ this, of 0 1]
  obtain h s' where h: "merge_range (demo_staging True) chain_level 0 1 (idle_state\<lparr>dp_cache := new_merge_cache chain_level\<rparr>) = Inr (h, s')"
    "graph_inv h" and out: "\<forall>k \<in> {0..1}. \<forall>x \<in> outs_at chain_level k.
        (\<exists>l. 1 < l \<and> l < length (ml_nodes chain_level) \<and> x \<in> ins_at chain_level l) \<or> (\<forall>l \<in> {0..1}. x \<notin> ins_at chain_level l) \<longrightarrow>
        x \<in> set (g_outputs h)"
    by (auto simp: chain_level_def)
  have "''z'' \<in> outs_at chain_level 1" "\<forall>l \<in> {0..1}. ''z'' \<notin> ins_at chain_level l"
    by (auto simp: chain_level_def flow_node_def le_Suc_eq)
  with out have "''z'' \<in> set (g_outputs h)" by (meson atLeastAtMost_iff zero_le_one order_refl)
  with h show ?thesis by blast
qed

text \<open>
  C9. What one search finds is a staging: the nodes are cut into consecutive, non-empty ranges and the
  devices are dealt out completely, at least one to every stage; the \<open>i\<close>-th graph is the graph of the
  \<open>i\<close>-th range; its stage passed the filters for small shares and, for exactly its nodes and devices,
  its memory was worked out by this very search and is below the memory of a device; and the replica
  numbers recorded for the stages add up to all devices of all replicas. \<open>L\<close> lists the costs the search
  works out, in order: each in the state the one before it left, from the state the search starts in to
  the profiles it ends with.
\<close>

theorem doRunDpComm_sound:
  assumes "doRunDpComm D r st = Inr (sol, st')" "stageable D (rn_graph r)" "1 \<le> rn_stages r" "al_graphs sol \<noteq> []"
    and "0 < rn_replica r" "int (rn_devs r) * rn_replica r < 2 ^ 31"
  shows "\<exists>bs ds L st1. costings D r (st\<lparr>dp_cache := new_merge_cache (rn_graph r)\<rparr>) L st1 \<and> dp_prof st' = dp_prof st1 \<and>
     length (al_graphs sol) = rn_stages r \<and> bs ! 0 = 0 \<and> ds ! 0 = 0 \<and>
     bs ! rn_stages r = length (ml_nodes (rn_graph r)) \<and> ds ! rn_stages r = rn_devs r \<and>
     (\<forall>i < rn_stages r. bs ! i < bs ! Suc i \<and> ds ! i < ds ! Suc i \<and>
        range_graph (rn_graph r) (bs ! i) (bs ! Suc i - 1) (al_graphs sol ! i) \<and>
        too_small D r (ds ! Suc i - ds ! i) = Inr False \<and>
        (\<exists>c. (bs ! i, bs ! Suc i, ds ! Suc i - ds ! i, c) \<in> set L \<and> sc_mem c < word_of_int (dp_dev_mem D)) \<and>
        um_get (al_repl_nums sol) (g_name (al_graphs sol ! i)) = Some (wrap32 (int (ds ! Suc i - ds ! i) * rn_replica r))) \<and>
     (\<Sum>i<rn_stages r. the (um_get (al_repl_nums sol) (g_name (al_graphs sol ! i)))) = int (rn_devs r) * rn_replica r"
proof -
  obtain bs ds L st1 where run: "costings D r (st\<lparr>dp_cache := new_merge_cache (rn_graph r)\<rparr>) L st1" "dp_prof st' = dp_prof st1"
    and st: "staging D r L (rn_stages r) (layers_of r) (rn_devs r) bs ds (al_graphs sol) (al_repl_nums sol)"
    by (rule doRunDpComm_staging [OF assms(1-4)])
  show ?thesis
    using staging_shares(1) [OF st assms(5,6)] run st unfolding staging_def layers_of_def stage_fits_def
    by (intro exI [of _ bs] exI [of _ ds] exI [of _ L] exI [of _ st1]) blast
qed

theorem doRunDpComm_sound_witness:
  "\<exists>sol st'. doRunDpComm (demo_staging True) demo_run idle_state = Inr (sol, st') \<and> length (al_graphs sol) = 2 \<and>
     (\<Sum>i<2. the (um_get (al_repl_nums sol) (g_name (al_graphs sol ! i)))) = 2"
proof -
  obtain sol st' where s: "doRunDpComm (demo_staging True) demo_run idle_state = Inr (sol, st')" "map g_name (al_graphs sol) = [''f'', ''g'']"
    using demo_run_found by (elim exE conjE)
  then have "al_graphs sol \<noteq> []" by auto
  with doRunDpComm_sound [OF s(1)] chain_stageable have "length (al_graphs sol) = 2"
    "(\<Sum>i<2. the (um_get (al_repl_nums sol) (g_name (al_graphs sol ! i)))) = 2"
    by (auto simp: demo_run_def)
  with s(1) show ?thesis by blast
qed

text \<open>
  C4. The stages implement the level: running the stage graphs of the chosen solution one after the
  other, on an environment that holds what the level needs from outside, never lacks an input and gives
  every value it computes the value that the operators of the level determine, among them every output
  of a node that no node reads.
\<close>

theorem stages_compute:
  assumes "runDpComm D show g devs st = Inr (sol, st')" "stageable D g"
    and "\<forall>k < length (ml_nodes g). \<forall>op \<in> set (nodes (m_graph (ml_nodes g ! k))). satisfies sem eps op"
    and "part_of env eps" "level_fed g env"
  shows "\<exists>env'. run_stages sem (al_graphs sol) env = Some env' \<and> part_of env' eps \<and> dom env \<subseteq> dom env' \<and>
     (\<forall>k < length (ml_nodes g). \<forall>x \<in> outs_at g k. (\<forall>l < length (ml_nodes g). x \<notin> ins_at g l) \<longrightarrow> env' x = Some (eps x))"
proof -
  obtain r m bs ds where "solution D g m (devs div m) r bs ds sol"
    by (rule runDpComm_result [OF assms(1,2)])
  then obtain L where g: "rn_graph r = g" and st: "staging D r L (rn_stages r) (layers_of r) (rn_devs r) bs ds (al_graphs sol) (al_repl_nums sol)"
    by (auto simp: solution_def layers_of_def)
  have len: "length (al_graphs sol) = rn_stages r" "bs ! rn_stages r = layers_of r" using st by (simp_all add: staging_def)
  obtain env' where e: "run_stages sem (al_graphs sol) env = Some env'" "part_of env' eps" "dom env \<subseteq> dom env'"
    and outs: "\<forall>i < rn_stages r. set (g_outputs (al_graphs sol ! i)) \<subseteq> dom env'"
    using stages_run [OF st refl _ assms(4) _ order_refl, of sem] assms(3,5) len(1) by (auto simp: g layers_of_def)
  have "env' x = Some (eps x)" if k: "k < length (ml_nodes g)" "x \<in> outs_at g k" "\<forall>l < length (ml_nodes g). x \<notin> ins_at g l" for k x
  proof -
    have "k < bs ! rn_stages r" using k(1) len(2) by (simp add: layers_of_def g)
    then obtain i where i: "i < rn_stages r" "bs ! i \<le> k" "k < bs ! Suc i" using boundary_of [OF st] by blast
    have "bs ! Suc i \<le> length (ml_nodes g)" using staging_mono [OF st, of "Suc i" "rn_stages r"] i(1) len(2) by (simp add: layers_of_def g)
    then have "\<forall>l \<in> {bs ! i..bs ! Suc i - 1}. x \<notin> ins_at g l" "k \<in> {bs ! i..bs ! Suc i - 1}" using i k(3) by auto
    moreover have "keeps_outputs g (bs ! i) (bs ! Suc i - 1) (al_graphs sol ! i)"
      using st i(1) by (simp add: staging_def range_graph_def g)
    ultimately have "x \<in> set (g_outputs (al_graphs sol ! i))" using k(2) unfolding keeps_outputs_def by blast
    then have "x \<in> dom env'" using outs i(1) by blast
    then show ?thesis using e(2) by (auto simp: part_of_def)
  qed
  with e show ?thesis by blast
qed

theorem stages_compute_witness:
  "\<exists>sol st' env'. runDpComm (demo_staging True) False chain_level 2 idle_state = Inr (sol, st') \<and>
     run_stages (\<lambda>_ _ _. ()) (al_graphs sol) [''x'' \<mapsto> ()] = Some env' \<and> env' ''z'' = Some ()"
proof -
  obtain sol st' where s: "runDpComm (demo_staging True) False chain_level 2 idle_state = Inr (sol, st')"
    using demo_search_found by (elim exE conjE)
  have fed: "level_fed chain_level [''x'' \<mapsto> ()]"
    by (auto simp: level_fed_def chain_level_def flow_node_def flow_value_def is_param_input_def mkIRValue_def nth_Cons' less_Suc_eq)
  have "''z'' \<in> outs_at chain_level 1" "\<forall>l < length (ml_nodes chain_level). ''z'' \<notin> ins_at chain_level l" "1 < length (ml_nodes chain_level)"
    by (auto simp: chain_level_def flow_node_def nth_Cons')
  with stages_compute [OF s chain_stageable _ _ fed, of "\<lambda>_ _ _. ()" "\<lambda>_. ()"] show ?thesis
    using s by (fastforce simp: satisfies_def part_of_def)
qed

text \<open>
  C11. The chosen solution is the cheapest: it is one of the solutions found by the search over machines,
  stages and microbatches that starts in the state of the run (after the summaries, when they are logged),
  and their estimated times, computed one after the other, are none smaller. Every solution found, so the
  chosen one too, is the result of a search and a staging for some number \<open>n\<close> of machines, replicated as often as \<open>n\<close> machines fit into all.
\<close>

theorem runDpComm_cheapest:
  assumes "runDpComm D show g devs st = Inr (sol, st')" "stageable D g"
  shows "\<exists>m sols ts. m = min devs (nat (dp_device_count D)) \<and> 0 < m \<and>
     (\<exists>st1 st2 st3. summaries D show g devs st = Inr ((), st1) \<and>
        search_nodes D g m (devs div m) [1..<Suc (devs div m)] [] st1 = Inr (sols, st2) \<and>
        smap (estimateTime D) sols st2 = Inr (ts, st3)) \<and>
     (\<exists>i < length sols. sol = sols ! i \<and> (\<forall>j < length sols. ts ! i \<le> ts ! j)) \<and>
     (\<forall>s \<in> set sols. solved D g m (devs div m) s)"
proof (rule runDpComm_result [OF assms])
  fix m sols ts r bs ds
  assume m: "m = min devs (nat (dp_device_count D))" "0 < m"
    and run: "\<exists>st1 st2. summaries D show g devs st = Inr ((), st1) \<and>
       search_nodes D g m (devs div m) [1..<Suc (devs div m)] [] st1 = Inr (sols, st2) \<and>
       (\<exists>st3. smap (estimateTime D) sols st2 = Inr (ts, st3))"
    and least: "\<exists>i < length sols. sol = sols ! i \<and> (\<forall>j < length sols. ts ! i \<le> ts ! j)"
  from run obtain st1 st2 st3 where 0: "summaries D show g devs st = Inr ((), st1)"
    and 1: "search_nodes D g m (devs div m) [1..<Suc (devs div m)] [] st1 = Inr (sols, st2)"
    and 2: "smap (estimateTime D) sols st2 = Inr (ts, st3)" by (elim exE conjE)
  have "\<forall>s \<in> set sols. solved D g m (devs div m) s" by (rule search_nodes_solved [OF 1 assms(2)]) auto
  then show ?thesis
    by (intro exI [of _ m] exI [of _ sols] exI [of _ ts] conjI m least exI [of _ st1] exI [of _ st2] exI [of _ st3] 0 1 2)
qed

theorem runDpComm_cheapest_witness:
  "\<exists>sol st'. runDpComm (demo_staging True) False chain_level 2 idle_state = Inr (sol, st') \<and> solved (demo_staging True) chain_level 2 1 sol"
proof -
  obtain sol st' where s: "runDpComm (demo_staging True) False chain_level 2 idle_state = Inr (sol, st')"
    using demo_search_found by (elim exE conjE)
  have "dp_device_count (demo_staging True) = 2" by (simp add: demo_staging_def)
  then have two: "min 2 (nat (dp_device_count (demo_staging True))) = 2" by simp
  obtain sols where "\<exists>i < length sols. sol = sols ! i" "\<forall>s \<in> set sols. solved (demo_staging True) chain_level 2 1 s"
    using runDpComm_cheapest [OF s chain_stageable] unfolding two by auto
  then have "solved (demo_staging True) chain_level 2 1 sol" using nth_mem by blast
  with s show ?thesis by blast
qed

end
