(* ===== verification/Deploy_Verified.thy ===== *)
theory Deploy_Verified
  imports Deploy_Correct DP_Properties
begin

text \<open>
  The end of \<open>MLPartDecomposer::decompose\<close>: stages that fit together become a deployment that
  \<open>verifyDeployment\<close> accepts.
\<close>

text \<open>
  C5. Stages that fit together, each with a positive number of replicas, are deployed: \<open>createPartition\<close>
  connects them, and with at most 10000 connections the rest of \<open>decompose\<close> (replication, allocation,
  \<open>createDeployment\<close>) succeeds, \<open>verifyDeployment\<close> accepts the deployment, and each stage runs on as many
  devices as the solution asks for.
\<close>

theorem deploy_solution_verified:
  assumes fit: "stages_fit ir (al_graphs sol)" and ready: "stages_ready (al_graphs sol)"
    and nums: "\<forall>g \<in> set (al_graphs sol). \<exists>n > 0. um_get (al_repl_nums sol) (g_name g) = Some n"
    and batch: "0 < mp_batch_size self" "mp_batch_size self < 2 ^ 63"
    and env: "topo_law (env_topo (de_deploy env))" "hash_ok (env_hash (de_deploy env))" "\<And>S. finite S \<Longrightarrow> set (de_name_order env S) = S"
  shows "\<exists>part. createPartition_ml (de_name_order env) ir (al_graphs sol) = Inr part \<and>
    (length (p_connections part) \<le> 10000 \<longrightarrow>
     (\<exists>d tm. deploy_solution env self ir sol new_TagMap = Inr (d, tm) \<and> verifyDeployment d = Inr () \<and>
        (\<forall>g \<in> set (al_graphs sol). \<exists>D. um_get (d_allocation d) (g_name g) = Some D \<and>
           Some (int (card D)) = um_get (al_repl_nums sol) (g_name g))))"
proof -
  define gs where "gs = al_graphs sol"
  define n where "n = (\<lambda>g :: IRGraph. the (um_get (al_repl_nums sol) (g_name g)))"
  note fit' = fit [folded gs_def]
  have num: "um_get (al_repl_nums sol) (g_name g) = Some (n g) \<and> 0 < n g" if "g \<in> set gs" for g
    using nums that by (auto simp: gs_def n_def)
  obtain cons where part: "createPartition_ml (de_name_order env) ir gs = Inr \<lparr>p_id = g_name ir, p_graph = ir,
      p_subgraphs = map (\<lambda>sg. (g_name sg, sg)) gs, p_connections = cons, p_order = map g_name gs\<rparr>"
    "\<forall>c \<in> set cons. sound_con ir gs c" "feeds gs cons" using createPartition_result [OF fit' env(3)] by blast
  let ?part = "\<lparr>p_id = g_name ir, p_graph = ir, p_subgraphs = map (\<lambda>sg. (g_name sg, sg)) gs, p_connections = cons, p_order = map g_name gs\<rparr>"
  let ?nums = "map (\<lambda>g. (g_name g, n g)) gs"
  have nums: "rmap (\<lambda>(i, _). rbind (rassert (um_contains (al_repl_nums sol) i)) (\<lambda>_.
              rbind (um_at (al_repl_nums sol) i) (\<lambda>n. Inr (i, n)))) (map (\<lambda>sg. (g_name sg, sg)) gs) = Inr ?nums"
  proof -
    have "rmap (\<lambda>(i, _). rbind (rassert (um_contains (al_repl_nums sol) i)) (\<lambda>_.
              rbind (um_at (al_repl_nums sol) i) (\<lambda>n. Inr (i, n)))) (map (\<lambda>sg. (g_name sg, sg)) gs) =
        Inr (map (\<lambda>kg. (fst kg, n (snd kg))) (map (\<lambda>sg. (g_name sg, sg)) gs))"
      by (rule rmap_Inr) (auto simp: um_contains_def um_at_def num)
    then show ?thesis by (simp add: comp_def)
  qed
  have d: "distinct (map g_name gs)" by (rule fit_names(2) [OF fit'])
  have rr: "\<forall>g \<in> set gs. replica_ready g \<and> 0 < n g" using ready num by (simp add: stages_ready_def gs_def)
  have "dp_subgraphs (PartitionDP_of ?part) = map (\<lambda>g. (g_name g, g)) gs" by (simp add: PartitionDP_of_def)
  from replicate_stages [OF d rr batch this] obtain hs where
    hs: "replicate_partition (PartitionDP_of ?part) ?nums (mp_batch_size self) =
      Inr ((PartitionDP_of ?part)\<lparr>dp_subgraphs := map (\<lambda>h. (g_name h, h)) hs, dp_replica_nums := ?nums\<rparr>)"
    "list_all2 (scaled (mp_batch_size self)) gs hs" by blast
  define p where "p = (PartitionDP_of ?part)\<lparr>dp_subgraphs := map (\<lambda>h. (g_name h, h)) hs, dp_replica_nums := ?nums\<rparr>"
  have p: "dp_subgraphs p = map (\<lambda>h. (g_name h, h)) hs" "dp_replica_nums p = ?nums" "dp_connections p = cons"
    by (simp_all add: p_def PartitionDP_of_def)
  have ok: "replicas_ok ir gs hs" by (rule replicas_made [OF fit' _ hs(2)]) (use rr in blast)
  then have names: "map g_name hs = map g_name gs" by (simp only: replicas_ok_def)
  have counted: "counted_graphs p"
  proof -
    have "map fst (dp_subgraphs p) = map g_name gs" "map fst ?nums = map g_name gs" by (simp_all add: p comp_def names)
    then have "um_ok (dp_subgraphs p)" "um_ok (dp_replica_nums p)" "fst ` set (dp_subgraphs p) = fst ` set (dp_replica_nums p)"
      unfolding um_ok_def p(2) set_map [symmetric] by (simp_all only: d)
    then show ?thesis using fit_names(1) [OF fit'] rr by (auto simp: counted_graphs_def counted_def p(2))
  qed
  then have "counted p" by (simp add: counted_graphs_def)
  then have "\<exists>a. searchAllocationFlat p = Inr a \<and> dealt_out ?nums a" "\<exists>a. searchAllocationSimple p = Inr a \<and> dealt_out ?nums a"
    using flat.deals [of p] simple.deals [OF counted] by (simp_all only: p(2))
  then obtain alloc where alloc: "(if de_alloc_flat env then searchAllocationFlat p else searchAllocationSimple p) = Inr alloc" "dealt_out ?nums alloc"
    by (cases "de_alloc_flat env") auto
  have keys: "fst ` set alloc = g_name ` set gs" using alloc(2) by (simp add: dealt_out_def image_image)
  then have nonempty: "alloc \<noteq> []" using fit_names(1) [OF fit'] by auto
  have covers: "alloc_covers gs alloc" by (simp add: alloc_covers_def keys)
  have sound: "\<forall>c \<in> set (dp_connections p). sound_con ir gs c \<and> con_value_ok ir p c"
    using part(2) connection_value_ok [OF fit' ok _ p(1)] by (simp add: p(3))
  have devices: "\<exists>D. um_get alloc (g_name g) = Some D \<and> Some (int (card D)) = um_get (al_repl_nums sol) (g_name g)" if g: "g \<in> set gs" for g
  proof -
    have "um_get ?nums (g_name g) = Some (n g)" using g d by (simp add: comp_def)
    then obtain D where "um_get alloc (g_name g) = Some D" "int (card D) = n g" using alloc(2) unfolding dealt_out_def by blast
    then show ?thesis using num [OF g] by simp
  qed
  have "\<exists>d tm. deploy_solution env self ir sol new_TagMap = Inr (d, tm) \<and> verifyDeployment d = Inr () \<and> d_allocation d = alloc"
    if room: "length cons \<le> 10000"
  proof -
    have "length (dp_connections p) \<le> 10000" using room by (simp add: p(3))
    then obtain dp tm where dep: "createDeployment (de_deploy env) p alloc new_TagMap = Inr (dp, tm)"
      using createDeployment_total [OF fit' sound covers env(1,2)] by blast
    have "verifyDeployment dp = Inr ()"
      by (rule deployment_verified [OF fit' ready [folded gs_def] hs(2) p(1) _ _ dep]) (use part(2,3) p(3) in simp_all)
    moreover have "d_allocation dp = alloc" using dep by (auto elim: createDeployment_parts)
    moreover have "um_of ?nums = ?nums" by (rule um_of_distinct) (simp add: comp_def d)
    ultimately show ?thesis
      using nonempty unfolding deploy_solution_def gs_def [symmetric] sbind_def slift_def sret_def
      by (simp add: part(1) nums hs(1) alloc(1) dep p_def [symmetric] verifyDeployment_def)
  qed
  with part(1) devices show ?thesis by (intro exI [of _ ?part]) (auto simp: gs_def [symmetric])
qed

text \<open>Two stages: \<open>f\<close> with a parameter makes \<open>y\<close> of the batch input \<open>x\<close>, \<open>g\<close> makes the loss of it.\<close>

definition demo_values :: "(string, IRValue) umap" where
  "demo_values =
     (let f = createTensorType TE_FLOAT [8, 3] True
      in [(''x'', (mkIRValue ''x'' f)\<lparr>is_batch := True\<rparr>), (''w'', (mkIRValue ''w'' (createTensorType TE_FLOAT [3] True))\<lparr>is_param := True\<rparr>),
          (''y'', (mkIRValue ''y'' f)\<lparr>is_batch := True\<rparr>), (''l'', (mkIRValue ''l'' (createTensorType TE_FLOAT [] True))\<lparr>is_loss := True\<rparr>)])"

definition demo_model :: IRGraph where
  "demo_model = \<lparr>g_name = ''m'', nodes = [demo_node ''f'' [''x'', ''w''] [''y''], demo_node ''g'' [''y''] [''l'']],
     gvalues = demo_values, g_inputs = [''x'', ''w''], g_outputs = [''l''], is_replicable = True\<rparr>"

definition demo_stages :: "IRGraph list" where
  "demo_stages =
     [\<lparr>g_name = ''a'', nodes = [demo_node ''f'' [''x'', ''w''] [''y'']], gvalues = take 3 demo_values,
       g_inputs = [''x'', ''w''], g_outputs = [''y''], is_replicable = True\<rparr>,
      \<lparr>g_name = ''b'', nodes = [demo_node ''g'' [''y''] [''l'']], gvalues = drop 2 demo_values,
       g_inputs = [''y''], g_outputs = [''l''], is_replicable = True\<rparr>]"

definition demo_solution :: AllocSolution where
  "demo_solution = \<lparr>al_graphs = demo_stages, al_repl_nums = [(''a'', 2), (''b'', 1)], al_pipeline = 2, al_checkpointing = True\<rparr>"

definition demo_surroundings :: decompose_env where
  "demo_surroundings =
     \<lparr>de_deploy = \<lparr>env_hash = colliding_hash, env_order = sorted_list_of_set, env_size = 3, env_topo = sink_topo,
                   env_pipeline = 1, env_checkpointing = False\<rparr>,
      de_partitioner = demo_partitioner demo_profiler, de_staging = demo_staging True,
      de_config = \<lparr>cfg_do_coarsening = True, cfg_min_partition_num = 2, cfg_do_uncoarsening = True, cfg_max_partition_num = 4\<rparr>,
      de_blank = \<lparr>vi_name = [], vi_value = mkIRValue [] (createTensorType TE_FLOAT [] True), vi_node = demo_node [] [] [], vi_type = VT_VALUE,
                  vi_is_param = False, vi_is_criterion = False, vi_is_loss = False, vi_is_input = False, vi_is_orig_input = False,
                  vi_is_output = False, vi_is_orig_output = False, vi_id = [], vi_ranks = {}, vi_fwd_time = 0, vi_bwd_time = 0\<rparr>,
      de_name_order = sorted_list_of_set, de_mem_limit_gb = 0, de_scale_mem = id, de_summary = False, de_alloc_flat = True\<rparr>"

lemma demo_reads:
  "reads (demo_stages ! 0) z \<longleftrightarrow> z = ''x''" "reads (demo_stages ! Suc 0) z \<longleftrightarrow> z = ''y''"
  "writes (demo_stages ! 0) z \<longleftrightarrow> z = ''y''" "writes (demo_stages ! Suc 0) z \<longleftrightarrow> z = ''l''"
  by (auto simp: reads_def writes_def demo_stages_def demo_values_def mkIRValue_def Let_def)

lemma two_stages: "(\<forall>i < length demo_stages. P i) \<longleftrightarrow> P 0 \<and> P (Suc 0)" "(\<forall>g \<in> set demo_stages. Q g) \<longleftrightarrow> Q (demo_stages ! 0) \<and> Q (demo_stages ! Suc 0)"
  "(\<exists>i < length demo_stages. P i) \<longleftrightarrow> P 0 \<or> P (Suc 0)"
  by (auto simp: demo_stages_def less_Suc_eq)

lemma demo_fit: "stages_fit demo_model demo_stages"
proof -
  have rout: "routable v" if "um_get (gvalues demo_model) z = Some v" "z \<noteq> ''w''" for z v
    using that by (auto simp: routable_def demo_model_def demo_values_def mkIRValue_def Let_def createTensorType_def split: if_splits)
  have r: "\<exists>v. um_get (gvalues demo_model) z = Some v \<and> routable v" if z: "z = ''x'' \<or> z = ''y'' \<or> z = ''l''" for z
  proof -
    obtain v where "um_get (gvalues demo_model) z = Some v" using z that by (fastforce simp: demo_model_def demo_values_def Let_def)
    moreover have "z \<noteq> ''w''" using z by auto
    ultimately show ?thesis using rout by (intro exI conjI)
  qed
  have v: "um_get (gvalues g) z = Some v \<Longrightarrow> um_get (gvalues demo_model) z = Some v \<and> v_name v = z" if "g \<in> set demo_stages" for g z v
    using that by (auto simp: demo_stages_def demo_model_def demo_values_def mkIRValue_def Let_def split: if_splits)
  have stage: "(\<forall>x v. um_get (gvalues g) x = Some v \<longrightarrow> um_get (gvalues demo_model) x = Some v \<and> v_name v = x) \<and>
        set (g_inputs g) \<union> set (g_outputs g) \<subseteq> fst ` set (gvalues g) \<and>
        (\<forall>x. reads g x \<or> writes g x \<longrightarrow> (\<exists>v. um_get (gvalues demo_model) x = Some v \<and> routable v))" if g: "g \<in> set demo_stages" for g
  proof (intro conjI allI impI)
    show "set (g_inputs g) \<union> set (g_outputs g) \<subseteq> fst ` set (gvalues g)"
      using g by (auto simp: demo_stages_def demo_values_def Let_def)
    show "\<exists>v. um_get (gvalues demo_model) x = Some v \<and> routable v" if "reads g x \<or> writes g x" for x
    proof (rule r)
      have "\<forall>g \<in> set demo_stages. reads g x \<or> writes g x \<longrightarrow> x = ''x'' \<or> x = ''y'' \<or> x = ''l''"
        unfolding two_stages(2) demo_reads by simp
      from bspec [OF this g] that show "x = ''x'' \<or> x = ''y'' \<or> x = ''l''" by (rule mp)
    qed
  qed (use v [OF g] in blast)+
  show ?thesis unfolding stages_fit_def
  proof (intro conjI)
    show "\<forall>g \<in> set demo_stages. (\<forall>x v. um_get (gvalues g) x = Some v \<longrightarrow> um_get (gvalues demo_model) x = Some v \<and> v_name v = x) \<and>
        set (g_inputs g) \<union> set (g_outputs g) \<subseteq> fst ` set (gvalues g) \<and>
        (\<forall>x. reads g x \<or> writes g x \<longrightarrow> (\<exists>v. um_get (gvalues demo_model) x = Some v \<and> routable v))"
      using stage by (rule ballI)
    show "\<forall>i < length demo_stages. \<forall>j < length demo_stages. \<forall>x. writes (demo_stages ! i) x \<and> writes (demo_stages ! j) x \<longrightarrow> i = j"
      "\<forall>i < length demo_stages. \<forall>x. reads (demo_stages ! i) x \<longrightarrow> x \<in> set (g_inputs demo_model) \<or> (\<exists>j < i. writes (demo_stages ! j) x)"
      "\<forall>x \<in> set (g_outputs demo_model). \<exists>i < length demo_stages. writes (demo_stages ! i) x"
      "\<forall>i < length demo_stages. \<forall>x. writes (demo_stages ! i) x \<longrightarrow> x \<notin> set (g_inputs demo_model) \<and>
        (x \<in> set (g_outputs demo_model) \<or> (\<exists>k < length demo_stages. k \<noteq> i \<and> x \<in> set (g_inputs (demo_stages ! k))))"
      unfolding two_stages demo_reads by (auto simp: demo_model_def demo_stages_def writes_def)
  qed (simp_all add: demo_stages_def demo_model_def demo_values_def Let_def MASTER_NAME_def)
qed

lemma demo_ready: "stages_ready demo_stages"
  by (simp add: stages_ready_def replica_ready_def demo_stages_def demo_values_def mkIRValue_def Let_def createTensorType_def um_ok_def)

lemma demo_connections:
  "map_sum id (\<lambda>p. length (p_connections p)) (createPartition_ml sorted_list_of_set demo_model demo_stages) = Inr 3"
  by code_simp

theorem deploy_solution_verified_witness:
  "\<exists>d tm. deploy_solution demo_surroundings \<lparr>mp_batch_size = 8, mp_dev_mem = 1\<rparr> demo_model demo_solution new_TagMap = Inr (d, tm) \<and>
     verifyDeployment d = Inr () \<and> (\<exists>D. um_get (d_allocation d) ''a'' = Some D \<and> card D = 2)"
proof -
  obtain part where part: "createPartition_ml sorted_list_of_set demo_model demo_stages = Inr part" "length (p_connections part) = 3"
    using demo_connections by (cases "createPartition_ml sorted_list_of_set demo_model demo_stages") auto
  have s: "al_graphs demo_solution = demo_stages" "al_repl_nums demo_solution = [(''a'', 2), (''b'', 1)]"
    "de_name_order demo_surroundings = sorted_list_of_set" "env_topo (de_deploy demo_surroundings) = sink_topo"
    "env_hash (de_deploy demo_surroundings) = colliding_hash" by (simp_all add: demo_solution_def demo_surroundings_def)
  have nums: "\<forall>g \<in> set demo_stages. \<exists>n > 0. um_get [(''a'', 2 :: int), (''b'', 1)] (g_name g) = Some n" by (simp add: demo_stages_def)
  have hash: "hash_ok colliding_hash" by (simp add: hash_ok_def colliding_hash_def)
  note run = deploy_solution_verified [of demo_model demo_solution "\<lparr>mp_batch_size = 8, mp_dev_mem = 1\<rparr>" demo_surroundings,
    unfolded s, OF demo_fit demo_ready nums _ _ sink_topo_law hash]
  have "\<exists>d tm. deploy_solution demo_surroundings \<lparr>mp_batch_size = 8, mp_dev_mem = 1\<rparr> demo_model demo_solution new_TagMap = Inr (d, tm) \<and>
     verifyDeployment d = Inr () \<and> (\<forall>g \<in> set demo_stages. \<exists>D. um_get (d_allocation d) (g_name g) = Some D \<and>
           Some (int (card D)) = um_get [(''a'', 2), (''b'', 1)] (g_name g))"
    using run part by simp
  moreover have "demo_stages ! 0 \<in> set demo_stages" "g_name (demo_stages ! 0) = ''a''" by (simp_all add: demo_stages_def)
  ultimately show ?thesis by fastforce
qed

section \<open>Routes and orders of a deployment\<close>

text \<open>
  C20. The routes of a deployment are its connections: one forward route per connection, among the routes into
  the model, out of it or inside it as the connection is, in the order of the connections, from the ranks of
  its source to those of its target; and one backward route for each forward route whose value takes part in
  the backward pass, with the two ends swapped and the same tag, kept with the routes of the opposite direction.
\<close>

theorem createDeployment_mirrors:
  assumes "createDeployment env p alloc tm = Inr (d, tm')"
  shows "list_all2 (carries env p alloc) (filter input_con (dp_connections p)) (d_fwd_in_routes d) \<and>
    list_all2 (carries env p alloc) (filter inner_con (dp_connections p)) (d_fwd_routes d) \<and>
    list_all2 (carries env p alloc) (filter output_con (dp_connections p)) (d_fwd_out_routes d) \<and>
    list_all2 mirrored (filter needs_bwd (d_fwd_in_routes d)) (d_bwd_out_routes d) \<and>
    list_all2 mirrored (filter needs_bwd (d_fwd_routes d)) (d_bwd_routes d) \<and>
    list_all2 mirrored (filter needs_bwd (d_fwd_out_routes d)) (d_bwd_in_routes d)"
  by (rule createDeployment_parts [OF assms]) (simp add: routes_made_def)

text \<open>
  C21. The forward and the backward order of a deployment list every subgraph, none twice, and each route
  between subgraphs goes from an earlier subgraph to a later one.
\<close>

theorem createDeployment_order:
  assumes "topo_law (env_topo env)" "createDeployment env p alloc tm = Inr (d, tm')"
  shows "distinct (d_fwd_graph_order d) \<and> fst ` set (d_subgraphs d) \<subseteq> set (d_fwd_graph_order d) \<and>
    (\<forall>r \<in> set (d_fwd_routes d). listed_before (d_fwd_graph_order d) (r_source_graph r) (r_dest_graph r)) \<and>
    distinct (d_bwd_graph_order d) \<and> fst ` set (d_subgraphs d) \<subseteq> set (d_bwd_graph_order d) \<and>
    (\<forall>r \<in> set (d_bwd_routes d). listed_before (d_bwd_graph_order d) (r_source_graph r) (r_dest_graph r))"
proof -
  obtain rs :: DeployRoutes where rs: "d_fwd_routes d = fwd_rs rs" "d_bwd_routes d = bwd_rs rs" "d_subgraphs d = dp_subgraphs p"
    "sortGraphs (env_topo env) (dp_subgraphs p) (fwd_rs rs) = Inr (d_fwd_graph_order d)"
    "sortGraphs (env_topo env) (dp_subgraphs p) (bwd_rs rs) = Inr (d_bwd_graph_order d)"
    by (rule createDeployment_parts [OF assms(2)]) fast
  show ?thesis using sortGraphs_order [OF assms(1) rs(4)] sortGraphs_order [OF assms(1) rs(5)] unfolding rs(1-3) by blast
qed

definition demo_partition :: PartitionDP where
  "demo_partition = \<lparr>dp_id = ''m'', dp_graph = demo_model, dp_subgraphs = map (\<lambda>g. (g_name g, g)) demo_stages,
     dp_replica_nums = [(''a'', 2), (''b'', 1)],
     dp_connections = [mk_con ''y'' ''a'' ''b'', mk_con ''x'' MASTER_NAME ''a'', mk_con ''l'' ''b'' MASTER_NAME]\<rparr>"

definition demo_allocation :: allocation where
  "demo_allocation = [(''a'', {0, 2}), (''b'', {1})]"

lemma demo_deployed: "\<exists>d tm. createDeployment (de_deploy demo_surroundings) demo_partition demo_allocation new_TagMap = Inr (d, tm)"
proof (rule createDeployment_total [OF demo_fit])
  have st: "demo_stages ! 0 \<in> set demo_stages" "demo_stages ! Suc 0 \<in> set demo_stages"
    "g_name (demo_stages ! 0) = ''a''" "g_name (demo_stages ! Suc 0) = ''b''" by (simp_all add: demo_stages_def)
  have io: "''x'' \<in> set (g_inputs demo_model)" "''l'' \<in> set (g_outputs demo_model)" by (simp_all add: demo_model_def)
  have "sound_con demo_model demo_stages c" if "c \<in> set (dp_connections demo_partition)" for c
  proof -
    from that consider "c = mk_con ''y'' ''a'' ''b''" | "c = mk_con ''x'' MASTER_NAME ''a''" | "c = mk_con ''l'' ''b'' MASTER_NAME"
      by (auto simp: demo_partition_def)
    then show ?thesis
      unfolding sound_con_def using st io demo_reads by cases metis+
  qed
  moreover have "replicas_ok demo_model demo_stages demo_stages"
    unfolding replicas_ok_def
  proof (intro conjI allI impI refl)
    fix i x v assume i: "i < length demo_stages" and v: "um_get (gvalues (demo_stages ! i)) x = Some v"
    have mem: "demo_stages ! i \<in> set demo_stages" using i by simp
    have "\<forall>g \<in> set demo_stages. \<forall>(x, v) \<in> set (gvalues g). \<not> (is_param v \<and> is_batch v)" using demo_ready by (simp add: stages_ready_def)
    from bspec [OF bspec [OF this mem] map_of_SomeD [OF v]] have "replica_like v v" by (auto simp: replica_like_def)
    with v fit_value [OF demo_fit mem v] show "\<exists>w. um_get (gvalues (demo_stages ! i)) x = Some w \<and>
      um_get (gvalues demo_model) x = Some w \<and> replica_like w v \<and> v_name v = x" by (intro exI [of _ v]) simp
  next
    fix i assume "i < length demo_stages"
    then have "replica_ready (demo_stages ! i)" using demo_ready by (simp add: stages_ready_def)
    then show "um_ok (gvalues (demo_stages ! i))" by (simp add: replica_ready_def)
  qed
  ultimately show "\<forall>c \<in> set (dp_connections demo_partition). sound_con demo_model demo_stages c \<and> con_value_ok demo_model demo_partition c"
    using connection_value_ok [OF demo_fit, of demo_stages _ demo_partition] by (simp add: demo_partition_def)
  show "alloc_covers demo_stages demo_allocation" by (simp add: alloc_covers_def demo_stages_def demo_allocation_def)
qed (simp_all add: demo_surroundings_def sink_topo_law hash_ok_def colliding_hash_def demo_partition_def)

lemma demo_inner: "filter inner_con (dp_connections demo_partition) = [mk_con ''y'' ''a'' ''b'']"
  by (simp add: demo_partition_def inner_con_def mk_con_def MASTER_NAME_def)

theorem createDeployment_mirrors_witness:
  "\<exists>d tm r. createDeployment (de_deploy demo_surroundings) demo_partition demo_allocation new_TagMap = Inr (d, tm) \<and>
     d_fwd_routes d = [r] \<and> r_sources r = [0, 2] \<and> r_dests r = [1]"
proof -
  obtain d tm where d: "createDeployment (de_deploy demo_surroundings) demo_partition demo_allocation new_TagMap = Inr (d, tm)"
    using demo_deployed by blast
  from createDeployment_mirrors [OF d] have "list_all2 (carries (de_deploy demo_surroundings) demo_partition demo_allocation)
    [mk_con ''y'' ''a'' ''b''] (d_fwd_routes d)" unfolding demo_inner by blast
  then obtain r where r: "d_fwd_routes d = [r]" "carries (de_deploy demo_surroundings) demo_partition demo_allocation (mk_con ''y'' ''a'' ''b'') r"
    by (auto simp: list_all2_Cons1)
  then have "r_sources r = [0, 2]" "r_dests r = [1]"
    by (simp_all add: carries_def mk_con_def getGraphRanks_def MASTER_NAME_def um_contains_def um_at_def demo_allocation_def demo_surroundings_def)
  with d r(1) show ?thesis by blast
qed

theorem createDeployment_order_witness:
  "\<exists>d tm. createDeployment (de_deploy demo_surroundings) demo_partition demo_allocation new_TagMap = Inr (d, tm) \<and>
     listed_before (d_fwd_graph_order d) ''a'' ''b''"
proof -
  obtain d tm where d: "createDeployment (de_deploy demo_surroundings) demo_partition demo_allocation new_TagMap = Inr (d, tm)"
    using demo_deployed by blast
  obtain rs where "routes_made (de_deploy demo_surroundings) demo_partition demo_allocation (dp_connections demo_partition) rs"
    "d_fwd_routes d = fwd_rs rs" by (rule createDeployment_parts [OF d]) fast
  then have "list_all2 (carries (de_deploy demo_surroundings) demo_partition demo_allocation) [mk_con ''y'' ''a'' ''b''] (d_fwd_routes d)"
    unfolding routes_made_def demo_inner by simp
  then obtain r where r: "d_fwd_routes d = [r]" "carries (de_deploy demo_surroundings) demo_partition demo_allocation (mk_con ''y'' ''a'' ''b'') r"
    by (auto simp: list_all2_Cons1)
  have "env_topo (de_deploy demo_surroundings) = sink_topo" by (simp add: demo_surroundings_def)
  then have "\<forall>r \<in> set (d_fwd_routes d). listed_before (d_fwd_graph_order d) (r_source_graph r) (r_dest_graph r)"
    using createDeployment_order [OF _ d] sink_topo_law by simp
  then have "listed_before (d_fwd_graph_order d) ''a'' ''b''" using r by (simp add: carries_def mk_con_def)
  with d show ?thesis by blast
qed

end
