(* ===== verification/Type_Reduce.thy ===== *)
theory Type_Reduce
  imports Replication
begin

text \<open>
  The type of a value whose parts lie on several ranks (\<open>comm/SCommCommon.cpp\<close>): the reduction of the
  types that the ranks contribute to one type, and its agreement with \<open>getDistType\<close>, which deals a
  type out. The gathering of the types over MPI is not part of the model: the functions take the types
  of all ranks. Sums of leading dimensions stay in the range of \<open>int64_t\<close>.
\<close>

section \<open>Choosing a type\<close>

definition undefined_tensor :: "IRType \<Rightarrow> bool" where
  "undefined_tensor t \<longleftrightarrow> base_type t = BT_TENSOR \<and> tensor_elem_type t = TE_UNDEF"

fun getFirstValidTensorType :: "IRType list \<Rightarrow> IRType res" where
  "getFirstValidTensorType [] = Inl Invalid_argument"
| "getFirstValidTensorType (t # ts) =
     (if base_type t = BT_TENSOR \<and> tensor_elem_type t \<noteq> TE_UNDEF then Inr t else getFirstValidTensorType ts)"

fun getFirstValidType :: "IRType list \<Rightarrow> IRType res" where
  "getFirstValidType [] = Inl Invalid_argument"
| "getFirstValidType (t # ts) =
     (if base_type t = BT_NONE \<or> undefined_tensor t then getFirstValidType ts else Inr t)"

definition getNonNoneTypes :: "IRType list \<Rightarrow> IRType list" where
  "getNonNoneTypes = filter (\<lambda>t. base_type t \<noteq> BT_NONE)"

definition allBaseTypesSameOrNone :: "IRType list \<Rightarrow> bool res" where
  "allBaseTypesSameOrNone ts =
     rbind (getFirstValidType ts) (\<lambda>a. Inr (list_all (\<lambda>t. base_type t = BT_NONE \<or> base_type a = base_type t) ts))"

definition allBaseTypesNone :: "IRType list \<Rightarrow> bool" where
  "allBaseTypesNone = list_all (\<lambda>t. base_type t = BT_NONE)"

section \<open>Reducing\<close>

text \<open>The leading dimensions are added up, the others have to agree. \<open>front\<close> of an empty vector is undefined.\<close>

fun sum_batch :: "int list \<Rightarrow> IRType list \<Rightarrow> int \<Rightarrow> int res" where
  "sum_batch expected [] acc = Inr acc"
| "sum_batch expected (t # ts) acc =
     (if base_type t = BT_NONE \<or> undefined_tensor t then sum_batch expected ts acc
      else rbind (rassert (length (tensor_dim t) = length expected)) (\<lambda>_.
           rbind (rassert (tl (tensor_dim t) = tl expected)) (\<lambda>_.
           case tensor_dim t of [] \<Rightarrow> Inl Undefined_behaviour | d # _ \<Rightarrow> sum_batch expected ts (acc + d))))"

definition reduceBatchTensorTypes :: "IRType list \<Rightarrow> IRType res" where
  "reduceBatchTensorTypes ts =
     rbind (rassert (ts \<noteq> [])) (\<lambda>_.
     rbind (getFirstValidTensorType ts) (\<lambda>a.
     rbind (sum_batch (tensor_dim a) ts 0) (\<lambda>batch_size.
     if tensor_dim a = [] then Inl Undefined_behaviour
     else Inr (createTensorType (tensor_elem_type a) ((tensor_dim a)[0 := batch_size]) (requires_grad a)))))"

definition reduceLossTypes :: "IRType list \<Rightarrow> IRType res" where
  "reduceLossTypes ts =
     rbind (rassert (ts \<noteq> [])) (\<lambda>_.
     rbind (rassert (list_all (\<lambda>t. base_type t = BT_NONE \<or> tensor_dim t = []) ts)) (\<lambda>_.
     rbind (getFirstValidTensorType ts) (\<lambda>a.
     Inr (createTensorType (tensor_elem_type a) [] False))))"

definition components_at :: "IRType list \<Rightarrow> nat \<Rightarrow> IRType list res" where
  "components_at ts i = rmap (\<lambda>t. vec_at (compound_types t) i) ts"

text \<open>A list of another kind falls off the end of the function.\<close>

function doReduceTypes :: "IRType list \<Rightarrow> IRType res" where
  "doReduceTypes ts =
     (if allBaseTypesNone ts then Inr createNoneType
      else rbind (allBaseTypesSameOrNone ts) (\<lambda>same.
           rbind (rassert same) (\<lambda>_.
           if getNonNoneTypes ts = [] then Inr createNoneType
           else rbind (getFirstValidType ts) (\<lambda>a.
           let elems = rmap (\<lambda>i. rbind (components_at (getNonNoneTypes ts) i) (\<lambda>es. doReduceTypes es)) [0..<length (compound_types a)]
           in case base_type a of
                BT_TENSOR \<Rightarrow> if tensor_dim a = [] then reduceLossTypes (getNonNoneTypes ts) else reduceBatchTensorTypes (getNonNoneTypes ts)
              | BT_LIST \<Rightarrow> rbind elems (\<lambda>es.
                  if list_type a = LT_TENSOR then Inr (createTensorListType es)
                  else if list_type a = LT_GENERIC then Inr (createListType es)
                  else Inl Undefined_behaviour)
              | BT_TUPLE \<Rightarrow> rbind elems (\<lambda>es. Inr (createTupleType es))
              | _ \<Rightarrow> Inl Runtime_error))))"
  by pat_completeness auto

lemma component_smaller: "vec_at (compound_types t) i = Inr u \<Longrightarrow> size u < size t"
  by (cases t) (auto simp: vec_at_def size_list_conv_sum_list intro!: le_imp_less_Suc trans_le_add1 member_le_sum_list split: if_splits)

lemma components_smaller:
  "components_at ts i = Inr us \<Longrightarrow> ts \<noteq> [] \<Longrightarrow> sum_list (map size us) < sum_list (map size ts)"
proof (induction ts arbitrary: us)
  case (Cons t ts)
  from Cons.prems(1) obtain u us' where us: "vec_at (compound_types t) i = Inr u" "components_at ts i = Inr us'" "us = u # us'"
    by (auto simp: components_at_def rbind_eq_Inr)
  then have "sum_list (map size us') \<le> sum_list (map size ts)"
    using Cons.IH [of us'] by (cases "ts = []") (auto simp: components_at_def)
  with us component_smaller [OF us(1)] show ?case by simp
qed simp

termination doReduceTypes
proof (relation "measure (\<lambda>ts. sum_list (map size ts))")
  fix ts es i
  assume "getNonNoneTypes ts \<noteq> []" "components_at (getNonNoneTypes ts) i = Inr es"
  then have "sum_list (map size es) < sum_list (map size (getNonNoneTypes ts))" by (rule components_smaller [rotated])
  also have "\<dots> \<le> sum_list (map size ts)" unfolding getNonNoneTypes_def by (induction ts) auto
  finally show "(es, ts) \<in> measure (\<lambda>ts. sum_list (map size ts))" by simp
qed simp

declare doReduceTypes.simps [simp del]

definition reduceBatchTypes :: "IRType list \<Rightarrow> IRType res" where
  "reduceBatchTypes = doReduceTypes"

section \<open>What a reduction of tensors checks\<close>

lemma sum_batch_acc:
  "sum_batch expected ts acc = Inr n \<Longrightarrow>
   n = acc + sum_list (map (hd \<circ> tensor_dim) (filter (\<lambda>t. \<not> (base_type t = BT_NONE \<or> undefined_tensor t)) ts)) \<and>
   (\<forall>t \<in> set ts. base_type t = BT_NONE \<or> undefined_tensor t \<or> length (tensor_dim t) = length expected \<and> tl (tensor_dim t) = tl expected)"
proof (induction ts arbitrary: acc)
  case (Cons t ts)
  show ?case
  proof (cases "base_type t = BT_NONE \<or> undefined_tensor t")
    case True
    then show ?thesis using Cons.IH [of acc] Cons.prems by auto
  next
    case False
    then obtain d ds where d: "tensor_dim t = d # ds" "length (tensor_dim t) = length expected" "tl (tensor_dim t) = tl expected"
      and run: "sum_batch expected ts (acc + d) = Inr n"
      using Cons.prems by (auto simp: rbind_eq_Inr split: list.splits)
    from Cons.IH [OF run] False d show ?thesis by (simp del: length_Cons)
  qed
qed simp

lemma sum_batch_total:
  "(\<And>t. t \<in> set ts \<Longrightarrow> base_type t \<noteq> BT_NONE \<and> \<not> undefined_tensor t \<and> tensor_dim t \<noteq> [] \<and>
      length (tensor_dim t) = length expected \<and> tl (tensor_dim t) = tl expected) \<Longrightarrow>
   sum_batch expected ts acc = Inr (acc + sum_list (map (hd \<circ> tensor_dim) ts))"
proof (induction ts arbitrary: acc)
  case (Cons t ts)
  have t: "base_type t \<noteq> BT_NONE" "\<not> undefined_tensor t" "tensor_dim t \<noteq> []"
    "length (tensor_dim t) = length expected" "tl (tensor_dim t) = tl expected"
    using Cons.prems [of t] by simp_all
  obtain d ds where d: "tensor_dim t = d # ds" using t(3) by (cases "tensor_dim t") auto
  have "sum_batch expected ts (acc + d) = Inr (acc + d + sum_list (map (hd \<circ> tensor_dim) ts))"
    by (rule Cons.IH) (use Cons.prems in auto)
  then show ?case using t d by (simp del: length_Cons add: comp_def)
qed simp

text \<open>Types whose first element is a proper type of a base type that all share.\<close>

lemma same_base:
  assumes "ts \<noteq> []" and "\<And>t. t \<in> set ts \<Longrightarrow> base_type t = bt \<and> \<not> undefined_tensor t" and "bt \<noteq> BT_NONE"
  shows "\<not> allBaseTypesNone ts" "allBaseTypesSameOrNone ts = Inr True" "getNonNoneTypes ts = ts" "getFirstValidType ts = Inr (hd ts)"
proof -
  obtain t us where ts: "ts = t # us" using assms(1) by (cases ts) auto
  then show "getFirstValidType ts = Inr (hd ts)" using assms(2) [of t] assms(3) by simp
  then show "allBaseTypesSameOrNone ts = Inr True" using assms(2) ts by (auto simp: allBaseTypesSameOrNone_def list_all_iff)
  show "\<not> allBaseTypesNone ts" using assms(2) [of t] assms(3) ts by (simp add: allBaseTypesNone_def)
  show "getNonNoneTypes ts = ts" using assms(2,3) by (simp add: getNonNoneTypes_def filter_id_conv)
qed

text \<open>So the first element decides which case runs.\<close>

lemma reduce_step:
  assumes "ts \<noteq> []" and "\<And>t. t \<in> set ts \<Longrightarrow> base_type t = bt \<and> \<not> undefined_tensor t" and "bt \<noteq> BT_NONE"
    and "elems = rmap (\<lambda>i. rbind (components_at ts i) (\<lambda>es. doReduceTypes es)) [0..<length (compound_types (hd ts))]"
  shows "bt = BT_TENSOR \<Longrightarrow> doReduceTypes ts = (if tensor_dim (hd ts) = [] then reduceLossTypes ts else reduceBatchTensorTypes ts)"
    and "bt = BT_LIST \<Longrightarrow> doReduceTypes ts = rbind elems (\<lambda>es.
                  if list_type (hd ts) = LT_TENSOR then Inr (createTensorListType es)
                  else if list_type (hd ts) = LT_GENERIC then Inr (createListType es)
                  else Inl Undefined_behaviour)"
    and "bt = BT_TUPLE \<Longrightarrow> doReduceTypes ts = rbind elems (\<lambda>es. Inr (createTupleType es))"
proof -
  note sb = same_base [OF assms(1,2,3)]
  have "base_type (hd ts) = bt" using assms(1,2) by simp
  then show "bt = BT_TENSOR \<Longrightarrow> doReduceTypes ts = (if tensor_dim (hd ts) = [] then reduceLossTypes ts else reduceBatchTensorTypes ts)"
    "bt = BT_LIST \<Longrightarrow> doReduceTypes ts = rbind elems (\<lambda>es.
                  if list_type (hd ts) = LT_TENSOR then Inr (createTensorListType es)
                  else if list_type (hd ts) = LT_GENERIC then Inr (createListType es)
                  else Inl Undefined_behaviour)"
    "bt = BT_TUPLE \<Longrightarrow> doReduceTypes ts = rbind elems (\<lambda>es. Inr (createTupleType es))"
    using sb assms(1,4) by (subst doReduceTypes.simps; simp)+
qed

section \<open>Reducing what was dealt out\<close>

text \<open>
  Types of batches of \<open>b\<close> samples: leading dimensions are multiples of \<open>b\<close>, and a tensor without
  dimensions, a loss, needs no gradient.
\<close>

fun batch_type :: "int \<Rightarrow> IRType \<Rightarrow> bool" where
  "batch_type b (IRType bt s d e g l cs n f) =
     (let t = IRType bt s d e g l cs n f in
      case bt of
        BT_TENSOR \<Rightarrow> t = createTensorType e d g \<and> e \<noteq> TE_UNDEF \<and> (if d = [] then \<not> g else b dvd d ! 0)
      | BT_LIST \<Rightarrow> list_all (batch_type b) cs \<and> length cs < 2 ^ 64 \<and>
          (t = createListType cs \<or> t = createTensorListType cs \<and> list_all (\<lambda>u. base_type u = BT_TENSOR \<and> tensor_dim u \<noteq> []) cs)
      | BT_TUPLE \<Rightarrow> t = createTupleType cs \<and> list_all (batch_type b) cs
      | BT_NONE \<Rightarrow> t = createNoneType
      | _ \<Rightarrow> False)"

lemma batch_type_distributable: "batch_type b t \<Longrightarrow> distributable t"
proof (induction t)
  case (IRType bt s d e g l cs n f)
  then show ?case
    by (cases bt) (auto simp: createListType_def createTensorListType_def createTensorType_def createTupleType_def createNoneType_def list_all_iff)
qed

lemma dealt_elems:
  "components_at (map (\<lambda>k. dealt b k t) ks) i = Inr (map (\<lambda>k. dealt b k (compound_types t ! i)) ks)"
  if "\<And>k. compound_types (dealt b k t) = map (dealt b k) (compound_types t)" "i < length (compound_types t)"
proof -
  have "components_at (map (\<lambda>k. dealt b k t) ks) i = Inr (map (\<lambda>u. compound_types u ! i) (map (\<lambda>k. dealt b k t) ks))"
    unfolding components_at_def by (rule rmap_Inr) (use that in \<open>auto simp: vec_at_def\<close>)
  also have "map (\<lambda>u. compound_types u ! i) (map (\<lambda>k. dealt b k t) ks) = map (\<lambda>k. dealt b k (compound_types t ! i)) ks"
    using that by simp
  finally show ?thesis .
qed

lemma reduce_elems:
  assumes "\<And>k. compound_types (dealt b k t) = map (dealt b k) (compound_types t)"
    and "\<And>u. u \<in> set (compound_types t) \<Longrightarrow> doReduceTypes (map (\<lambda>k. dealt b k u) ks) = Inr u"
  shows "rmap (\<lambda>i. rbind (components_at (map (\<lambda>k. dealt b k t) ks) i) (\<lambda>es. doReduceTypes es)) [0..<length (compound_types t)] =
    Inr (compound_types t)"
proof -
  have "rmap (\<lambda>i. rbind (components_at (map (\<lambda>k. dealt b k t) ks) i) (\<lambda>es. doReduceTypes es)) [0..<length (compound_types t)] =
      Inr (map (\<lambda>i. compound_types t ! i) [0..<length (compound_types t)])"
    by (rule rmap_Inr) (use assms in \<open>simp add: dealt_elems\<close>)
  then show ?thesis by (simp add: map_nth)
qed

lemma reduce_tensors:
  assumes "d \<noteq> []" "b \<noteq> 0" "b dvd d ! 0" "sum_list ks = b" "e \<noteq> TE_UNDEF" "ks \<noteq> []"
  shows "reduceBatchTensorTypes (map (\<lambda>k. createTensorType e (d[0 := tdiv (d ! 0 * k) b]) g) ks) = Inr (createTensorType e d g)"
proof -
  obtain c where c: "d ! 0 = c * b" using assms(3) by (metis dvdE mult.commute)
  have q: "tdiv (d ! 0 * k) b = c * k" for k using tdiv_mult_cancel [OF assms(2), of "c * k"] c by (simp add: ac_simps)
  obtain x xs where d: "d = x # xs" using assms(1) by (cases d) auto
  obtain k ks' where ks: "ks = k # ks'" using assms(6) by (cases ks) auto
  have "sum_batch (d[0 := c * k]) (map (\<lambda>k. createTensorType e (d[0 := c * k]) g) ks) 0 =
      Inr (0 + sum_list (map (hd \<circ> tensor_dim) (map (\<lambda>k. createTensorType e (d[0 := c * k]) g) ks)))"
    by (rule sum_batch_total) (use assms(5) d in \<open>auto simp: createTensorType_def undefined_tensor_def\<close>)
  also have "map (hd \<circ> tensor_dim) (map (\<lambda>k. createTensorType e (d[0 := c * k]) g) ks) = map ((*) c) ks"
    using d by (simp add: createTensorType_def)
  finally have "sum_batch (d[0 := c * k]) (map (\<lambda>k. createTensorType e (d[0 := c * k]) g) ks) 0 = Inr (d ! 0)"
    using assms(4) c by (simp add: sum_list_const_mult)
  moreover have "getFirstValidTensorType (map (\<lambda>k. createTensorType e (d[0 := c * k]) g) ks) = Inr (createTensorType e (d[0 := c * k]) g)"
    using ks assms(5) by (simp add: createTensorType_def)
  moreover have "tensor_dim (createTensorType e (d[0 := c * k]) g) = d[0 := c * k]" "tensor_elem_type (createTensorType e (d[0 := c * k]) g) = e"
    "requires_grad (createTensorType e (d[0 := c * k]) g) = g" by (simp_all add: createTensorType_def)
  ultimately show ?thesis using assms(6) d unfolding reduceBatchTensorTypes_def q by simp
qed

lemma doReduceTypes_dealt:
  assumes b: "b \<noteq> 0" and ks: "sum_list ks = b" "ks \<noteq> []"
  shows "batch_type b t \<Longrightarrow> doReduceTypes (map (\<lambda>k. dealt b k t) ks) = Inr t"
proof (induction t)
  case (IRType bt s d e g l cs n f)
  let ?t = "IRType bt s d e g l cs n f"
  let ?ts = "map (\<lambda>k. dealt b k ?t) ks"
  have ne: "?ts \<noteq> []" and hd: "hd ?ts = dealt b (hd ks) ?t" using ks(2) by (simp_all add: hd_map del: dealt.simps)
  have parts: "doReduceTypes (map (\<lambda>k. dealt b k u) ks) = Inr u" if "u \<in> set cs" "list_all (batch_type b) cs" for u
    using IRType.IH [OF that(1)] that by (simp add: list_all_iff)
  have elems: "rmap (\<lambda>i. rbind (components_at ?ts i) (\<lambda>es. doReduceTypes es)) [0..<length cs] = Inr cs"
    if "\<And>k. compound_types (dealt b k ?t) = map (dealt b k) cs" "list_all (batch_type b) cs"
    using reduce_elems [of b ?t ks] that parts by simp
  show ?case
  proof (cases bt)
    case BT_TENSOR
    then have t: "?t = createTensorType e d g" "e \<noteq> TE_UNDEF" "if d = [] then \<not> g else b dvd d ! 0" using IRType.prems by simp_all
    have d: "dealt b k ?t = createTensorType e (if d = [] then [] else d[0 := tdiv (d ! 0 * k) b]) g" for k
      using t(1) BT_TENSOR by (simp add: createTensorType_def)
    have run: "doReduceTypes ?ts = (if tensor_dim (hd ?ts) = [] then reduceLossTypes ?ts else reduceBatchTensorTypes ?ts)"
      by (rule reduce_step(1) [of _ BT_TENSOR]) (use ne t(2) in \<open>auto simp: d createTensorType_def undefined_tensor_def simp del: dealt.simps\<close>)
    show ?thesis
    proof (cases "d = []")
      case True
      then have ts: "?ts = map (\<lambda>k. createTensorType e [] False) ks" using t d by simp
      have "reduceLossTypes (map (\<lambda>k. createTensorType e [] False) ks) = Inr (createTensorType e [] False)"
        using ks(2) t(2) by (cases ks) (auto simp: reduceLossTypes_def createTensorType_def list_all_iff)
      then show ?thesis using run True t ks(2) unfolding ts by (simp add: hd_map createTensorType_def)
    next
      case False
      then have ts: "?ts = map (\<lambda>k. createTensorType e (d[0 := tdiv (d ! 0 * k) b]) g) ks" using d by simp
      have "tensor_dim (hd ?ts) \<noteq> []" using False ks(2) unfolding hd unfolding d by (simp add: createTensorType_def)
      then show ?thesis using run reduce_tensors [OF False b _ ks(1) t(2) ks(2)] t False unfolding ts by simp
    qed
  next
    case BT_LIST
    then have cs: "list_all (batch_type b) cs" and t: "?t = createListType cs \<or> ?t = createTensorListType cs"
      using IRType.prems by (auto simp: Let_def)
    have d: "dealt b k ?t = (if l = LT_TENSOR then createTensorListType (map (dealt b k) cs) else createListType (map (dealt b k) cs))" for k
      using t BT_LIST by (auto simp: createListType_def createTensorListType_def)
    have comp: "compound_types (dealt b k ?t) = map (dealt b k) cs" for k
      unfolding d by (simp add: createListType_def createTensorListType_def)
    have "doReduceTypes ?ts = rbind (Inr cs) (\<lambda>es.
          if list_type (hd ?ts) = LT_TENSOR then Inr (createTensorListType es)
          else if list_type (hd ?ts) = LT_GENERIC then Inr (createListType es)
          else Inl Undefined_behaviour)"
    proof (rule reduce_step(2) [of _ BT_LIST])
      show "base_type u = BT_LIST \<and> \<not> undefined_tensor u" if "u \<in> set ?ts" for u
        using that unfolding d by (auto simp: createListType_def createTensorListType_def undefined_tensor_def)
      show "Inr cs = rmap (\<lambda>i. rbind (components_at ?ts i) (\<lambda>es. doReduceTypes es)) [0..<length (compound_types (hd ?ts))]"
        unfolding hd comp length_map by (rule elems [OF comp cs, symmetric])
    qed (use ne in simp_all)
    moreover have "list_type (hd ?ts) = l" unfolding hd unfolding d using t by (auto simp: createListType_def createTensorListType_def)
    moreover have "l = LT_TENSOR \<and> createTensorListType cs = ?t \<or> l = LT_GENERIC \<and> createListType cs = ?t"
      using t by (auto simp: createListType_def createTensorListType_def)
    ultimately show ?thesis by (auto simp del: dealt.simps)
  next
    case BT_TUPLE
    then have cs: "list_all (batch_type b) cs" and t: "?t = createTupleType cs" using IRType.prems by simp_all
    have d: "dealt b k ?t = createTupleType (map (dealt b k) cs)" for k using BT_TUPLE by simp
    have comp: "compound_types (dealt b k ?t) = map (dealt b k) cs" for k unfolding d by (simp add: createTupleType_def)
    have "doReduceTypes ?ts = rbind (Inr cs) (\<lambda>es. Inr (createTupleType es))"
    proof (rule reduce_step(3) [of _ BT_TUPLE])
      show "base_type u = BT_TUPLE \<and> \<not> undefined_tensor u" if "u \<in> set ?ts" for u
        using that unfolding d by (auto simp: createTupleType_def undefined_tensor_def)
      show "Inr cs = rmap (\<lambda>i. rbind (components_at ?ts i) (\<lambda>es. doReduceTypes es)) [0..<length (compound_types (hd ?ts))]"
        unfolding hd comp length_map by (rule elems [OF comp cs, symmetric])
    qed (use ne in simp_all)
    then show ?thesis using t by simp
  next
    case BT_NONE
    then have "allBaseTypesNone ?ts" by (simp add: allBaseTypesNone_def list_all_iff)
    moreover have "?t = createNoneType" using IRType.prems BT_NONE by simp
    ultimately show ?thesis by (subst doReduceTypes.simps) simp
  qed (use IRType.prems in simp_all)
qed

section \<open>Properties\<close>

text \<open>
  C37. Dealing a type out and reducing the parts are inverse: when every rank of a nonempty set holds the
  type that \<open>getDistType\<close> gives it, \<open>reduceBatchTypes\<close> of these types is the type one started from.
  The type is built of tensors, lists, tuples and absent values, its leading dimensions are multiples of the batch size
  (whether or not the ranks get equal shares), and losses need no gradient.
\<close>

theorem reduce_inverts_dist:
  assumes "finite ranks" "ranks \<noteq> {}" "0 < b" "b < 2 ^ 63" "batch_type b t"
  shows "\<exists>ts. rmap (getDistType t ranks b) (sorted_list_of_set ranks) = Inr ts \<and> reduceBatchTypes ts = Inr t"
proof -
  obtain sizes where sizes: "getSplitBatchSizes b ranks 0 = Inr sizes" "is_batch_split b ranks sizes"
    using getSplitBatchSizes_split [of ranks b 0] assms by auto
  let ?share = "\<lambda>r. the (um_get sizes r)"
  have dist: "getDistType t ranks b r = Inr (dealt b (?share r) t)" if "r \<in> ranks" for r
    by (rule getDistType_dealt [OF assms(1-4) that]) (use sizes(1) batch_type_distributable [OF assms(5)] in auto)
  have ts: "rmap (getDistType t ranks b) (sorted_list_of_set ranks) = Inr (map (\<lambda>r. dealt b (?share r) t) (sorted_list_of_set ranks))"
    by (rule rmap_Inr) (use dist assms(1) in simp)
  have "sum_list (map ?share (sorted_list_of_set ranks)) = b"
    using sizes(2) sum_um_values [of sizes] assms(1) by (simp add: is_batch_split_def sum_list_distinct_conv_sum_set)
  then have "doReduceTypes (map (\<lambda>k. dealt b k t) (map ?share (sorted_list_of_set ranks))) = Inr t"
    by (intro doReduceTypes_dealt) (use assms in auto)
  with ts show ?thesis by (simp add: reduceBatchTypes_def comp_def)
qed

text \<open>Seven samples on two ranks, in a tuple of a batch and a loss.\<close>

theorem reduce_inverts_dist_witness:
  "\<exists>ts. rmap (getDistType (createTupleType [createTensorType TE_FLOAT [14, 5] True, createTensorType TE_FLOAT [] False]) {0, 3} 7)
      (sorted_list_of_set {0, 3}) = Inr ts \<and>
    reduceBatchTypes ts = Inr (createTupleType [createTensorType TE_FLOAT [14, 5] True, createTensorType TE_FLOAT [] False])"
  by (rule reduce_inverts_dist) (simp_all add: createTupleType_def createTensorType_def)

text \<open>
  The checks of the reduction of tensors: when it returns, the ranks agree on the number of
  dimensions and on all but the leading one, the result's leading dimension is the sum over the ranks
  that hold a tensor, and a rank with another shape stops it.
\<close>

lemma reduce_tensors_checked:
  assumes "reduceBatchTensorTypes ts = Inr t" and "u \<in> set ts" "base_type u \<noteq> BT_NONE" "\<not> undefined_tensor u"
  shows "length (tensor_dim u) = length (tensor_dim t) \<and> tl (tensor_dim u) = tl (tensor_dim t) \<and>
    tensor_dim t ! 0 = sum_list (map (hd \<circ> tensor_dim) (filter (\<lambda>v. \<not> (base_type v = BT_NONE \<or> undefined_tensor v)) ts))"
proof -
  from assms(1) obtain a n where a: "getFirstValidTensorType ts = Inr a" "sum_batch (tensor_dim a) ts 0 = Inr n" "tensor_dim a \<noteq> []"
    and t: "t = createTensorType (tensor_elem_type a) ((tensor_dim a)[0 := n]) (requires_grad a)"
    by (auto simp: reduceBatchTensorTypes_def rbind_eq_Inr split: if_splits)
  have dim: "tensor_dim t = (tensor_dim a)[0 := n]" by (simp add: t createTensorType_def)
  have "tl ((tensor_dim a)[0 := n]) = tl (tensor_dim a)" by (cases "tensor_dim a") simp_all
  with sum_batch_acc [OF a(2)] assms(2-4) a(3) show ?thesis unfolding dim by auto
qed

lemma reduce_tensors_checked_witness:
  "(\<lambda>u t. length (tensor_dim u) = length (tensor_dim t) \<and> tl (tensor_dim u) = tl (tensor_dim t) \<and> tensor_dim t ! 0 = 7)
     (createTensorType TE_FLOAT [3, 5] True) (createTensorType TE_FLOAT [7, 5] True)"
proof -
  let ?ts = "[createTensorType TE_FLOAT [3, 5] True, createNoneType, createTensorType TE_FLOAT [4, 5] True]"
  have run: "reduceBatchTensorTypes ?ts = Inr (createTensorType TE_FLOAT [7, 5] True)"
    by (simp add: reduceBatchTensorTypes_def createTensorType_def createNoneType_def undefined_tensor_def)
  show ?thesis
    using reduce_tensors_checked [OF run, of "createTensorType TE_FLOAT [3, 5] True"]
    by (simp add: createTensorType_def createNoneType_def undefined_tensor_def)
qed

end
