(* ===== verification/Guess_Types.thy ===== *)
theory Guess_Types
  imports Value_Graph Topo_Sort
begin

text \<open>
  The guess which values of a model are batches, parameters, constants and losses
  (\<open>graph/GuessValueTypes.cpp\<close>): rules for the sources and targets of a node, the loop over the vertices
  of the value graph in topological order, and the graph with the flags set.
\<close>

section \<open>Types of vertices\<close>

datatype ValueType = VT_BATCH | VT_PARAM | VT_CONST | VT_LOSS | VT_UNKNOWN

definition toString_ValueType :: "ValueType \<Rightarrow> string" where
  "toString_ValueType type = (case type of
     VT_BATCH \<Rightarrow> ''BATCH'' | VT_PARAM \<Rightarrow> ''PARAM'' | VT_CONST \<Rightarrow> ''CONST'' | VT_LOSS \<Rightarrow> ''LOSS'' | VT_UNKNOWN \<Rightarrow> ''UNKNOWN'')"

definition toValueTypes :: "nat list \<Rightarrow> (string, ValueType) umap \<Rightarrow> VGraph \<Rightarrow> ValueType list res" where
  "toValueTypes vertices types g =
     rmap (\<lambda>v. rbind (rassert (um_contains types (vi_id (verts g ! v)))) (\<lambda>_. um_at types (vi_id (verts g ! v)))) vertices"

definition toIRTypes :: "nat list \<Rightarrow> VGraph \<Rightarrow> IRType list" where
  "toIRTypes vertices g = map (\<lambda>v. v_type (vi_value (verts g ! v))) vertices"

section \<open>Rules\<close>

definition matchLossRule :: "ValueType list \<Rightarrow> IRType list \<Rightarrow> bool" where
  "matchLossRule src_types tgt_ir_types =
     (if length tgt_ir_types \<noteq> 1 then False
      else let tgt_ir_type = hd tgt_ir_types in
        if base_type tgt_ir_type \<noteq> BT_TENSOR then False
        else if tensor_dim tgt_ir_type \<noteq> [] then False
        else let batch_count = count_list src_types VT_BATCH; loss_count = count_list src_types VT_LOSS in
          if loss_count > 0 \<and> batch_count = 0 then True else batch_count = 2)"

definition matchBatchRule :: "ValueType list \<Rightarrow> IRType list \<Rightarrow> bool res" where
  "matchBatchRule src_types tgt_ir_types =
     (if count_list src_types VT_BATCH = 0 then Inr False
      else rbind (rfilter isTensorOrTensorList tgt_ir_types) (\<lambda>out. Inr (length out > 0)))"

definition matchParamRule :: "ValueType list \<Rightarrow> bool" where
  "matchParamRule src_types \<longleftrightarrow> count_list src_types VT_PARAM = 1"

definition matchConstRule :: "ValueType list \<Rightarrow> bool" where
  "matchConstRule src_types \<longleftrightarrow> count_list src_types VT_CONST \<ge> 0"

text \<open>The rules are tried in this order.\<close>

definition node_rule :: "ValueType list \<Rightarrow> IRType list \<Rightarrow> ValueType res" where
  "node_rule src_types tgt_ir_types =
     (if matchLossRule src_types tgt_ir_types then Inr VT_LOSS
      else rbind (matchBatchRule src_types tgt_ir_types) (\<lambda>batch.
        if batch then Inr VT_BATCH
        else if matchParamRule src_types then Inr VT_PARAM
        else if matchConstRule src_types then Inr VT_CONST
        else Inl Runtime_error))"

section \<open>The guess\<close>

record guess =
  gs_types :: "(string, ValueType) umap"
  gs_values :: "(string, IRValue) umap"
  gs_nodes :: "(string, IRNode) umap"

text \<open>\<open>values.at(name)\<close> and a setter, \<open>node_map.at(id)\<close> and a setter.\<close>

definition set_value_flag :: "(IRValue \<Rightarrow> IRValue) \<Rightarrow> string \<Rightarrow> guess \<Rightarrow> guess res" where
  "set_value_flag f name s = rbind (um_at (gs_values s) name) (\<lambda>val. Inr (s\<lparr>gs_values := um_set name (f val) (gs_values s)\<rparr>))"

definition set_node_flag :: "(IRNode \<Rightarrow> IRNode) \<Rightarrow> string \<Rightarrow> guess \<Rightarrow> guess res" where
  "set_node_flag f i s = rbind (um_at (gs_nodes s) i) (\<lambda>n. Inr (s\<lparr>gs_nodes := um_set i (f n) (gs_nodes s)\<rparr>))"

definition set_type :: "string \<Rightarrow> ValueType \<Rightarrow> guess \<Rightarrow> guess" where
  "set_type i t s = s\<lparr>gs_types := um_set i t (gs_types s)\<rparr>"

definition guess_regular :: "BGraph \<Rightarrow> nat \<Rightarrow> guess \<Rightarrow> guess res" where
  "guess_regular b v s =
     rbind (um_at (gs_values s) (vi_name (vinfo b v))) (\<lambda>in_val.
     rbind (rassert (base_type (v_type in_val) = BT_TENSOR)) (\<lambda>_.
     rbind (set_value_flag (is_batch_update (\<lambda>_. True)) (vi_name (vinfo b v)) s) (\<lambda>s.
     Inr (set_type (vi_id (vinfo b v)) VT_BATCH s))))"

definition guess_param :: "BGraph \<Rightarrow> nat \<Rightarrow> guess \<Rightarrow> guess res" where
  "guess_param b v s =
     rbind (um_at (gs_values s) (vi_name (vinfo b v))) (\<lambda>_.
     set_value_flag (is_param_update (\<lambda>_. True)) (vi_name (vinfo b v)) (set_type (vi_id (vinfo b v)) VT_PARAM s))"

definition guess_const :: "BGraph \<Rightarrow> nat \<Rightarrow> guess \<Rightarrow> guess" where
  "guess_const b v s =
     (if \<not> um_contains (gs_types s) (vi_id (vinfo b v)) then set_type (vi_id (vinfo b v)) VT_CONST s else s)"

definition guess_value :: "VertexInfo \<Rightarrow> ValueType \<Rightarrow> guess \<Rightarrow> guess res" where
  "guess_value vi src_type s =
     (let s1 = set_type (vi_id vi) src_type s in
      case src_type of
        VT_BATCH \<Rightarrow> set_value_flag (is_batch_update (\<lambda>_. True)) (vi_name vi) s1
      | VT_LOSS \<Rightarrow> set_value_flag (is_loss_update (\<lambda>_. True)) (vi_name vi) s1
      | _ \<Rightarrow> Inr s1)"

definition guess_node :: "VertexInfo \<Rightarrow> ValueType \<Rightarrow> guess \<Rightarrow> guess res" where
  "guess_node vi type s =
     (let s1 = set_type (vi_id vi) type s in
      case type of
        VT_LOSS \<Rightarrow> set_node_flag (is_criterion_update (\<lambda>_. True)) (vi_id vi) s1
      | VT_BATCH \<Rightarrow> rbind (rassert (um_contains (gs_nodes s1) (vi_id vi))) (\<lambda>_.
          set_node_flag (n_is_batch_update (\<lambda>_. True)) (vi_id vi) s1)
      | _ \<Rightarrow> Inr s1)"

definition guess_vertex :: "BGraph \<Rightarrow> nat \<Rightarrow> guess \<Rightarrow> guess res" where
  "guess_vertex b v s =
     (let vi = vinfo b v in
      if um_contains (gs_types s) (vi_id vi) then Inr s
      else rbind (toValueTypes (source_nodes v (bg b)) (gs_types s) (bg b)) (\<lambda>src_types.
        let tgt_ir_types = toIRTypes (target_nodes v (bg b)) (bg b) in
        if vi_type vi = VT_VALUE
        then rbind (rassert (length src_types = 1)) (\<lambda>_. guess_value vi (hd src_types) s)
        else rbind (node_rule src_types tgt_ir_types) (\<lambda>type. guess_node vi type s)))"

definition guess_inputs :: "BGraph \<Rightarrow> guess \<Rightarrow> guess res" where
  "guess_inputs b s =
     rbind (rfold (guess_regular b) (graph_regular_input_nodes (bg b)) s) (\<lambda>s.
     rbind (rfold (guess_param b) (graph_param_input_nodes (bg b)) s) (\<lambda>s.
     Inr (fold (guess_const b) (graph_input_nodes (bg b)) s)))"

definition node_vertices :: "BGraph \<Rightarrow> nat list \<Rightarrow> nat list" where
  "node_vertices b vs = filter (\<lambda>v. vi_type (vinfo b v) = VT_NODE) vs"

definition guessValueTypes :: "VertexInfo \<Rightarrow> topo_sort \<Rightarrow> IRGraph \<Rightarrow> IRGraph res" where
  "guessValueTypes blank topo g =
     rbind (toBGL_ir blank g) (\<lambda>b.
     rbind (all_nodes_topo topo (bg b)) (\<lambda>topo_vertices.
     let node_map = um_of (map (\<lambda>v. (vi_id (vinfo b v), vi_node (vinfo b v))) (node_vertices b topo_vertices)) in
     rbind (guess_inputs b \<lparr>gs_types = [], gs_values = gvalues g, gs_nodes = node_map\<rparr>) (\<lambda>s.
     rbind (rfold (guess_vertex b) topo_vertices s) (\<lambda>s.
     rbind (rmap (\<lambda>v. rbind (rassert (um_contains (gs_nodes s) (vi_id (vinfo b v)))) (\<lambda>_. um_at (gs_nodes s) (vi_id (vinfo b v))))
             (node_vertices b topo_vertices)) (\<lambda>ns.
     mkIRGraph (g_name g) ns (gs_values s) (g_inputs g) (g_outputs g))))))"

section \<open>The value graph is well formed\<close>

definition vals_ok :: "VGraph \<times> (string, nat) umap \<Rightarrow> bool" where
  "vals_ok = (\<lambda>(b, vals). bgraph_ok b \<and> (\<forall>x v. um_get vals x = Some v \<longrightarrow> v < length (verts b)))"

lemma bgraph_ok_simps [simp]:
  "bgraph_ok empty_bgraph" "bgraph_ok b \<Longrightarrow> bgraph_ok (snd (add_vertex p b))"
  "bgraph_ok (add_edge u v () b) \<longleftrightarrow> bgraph_ok b \<and> u < length (verts b) \<and> v < length (verts b)"
  by (fastforce simp: bgraph_ok_def empty_bgraph_def add_vertex_def add_edge_def arcs_def)+

lemma bgl_input_ok:
  assumes "bgl_input blank g x a = Inr a'" "vals_ok a"
  shows "vals_ok a'"
proof -
  obtain b vals where a: "a = (b, vals)" by (cases a)
  from assms(1) obtain p where "a' = (snd (add_vertex p b), um_set x (length (verts b)) vals)"
    by (auto simp: bgl_input_def a rbind_eq_Inr add_vertex_def Let_def)
  then show ?thesis using assms(2) by (auto simp: vals_ok_def a um_get_set add_vertex_def bgraph_ok_def arcs_def less_SucI)
qed

lemma bgl_output_ok:
  assumes "bgl_output blank g v x a = Inr a'" "vals_ok a \<and> v < length (verts (fst a))"
  shows "vals_ok a' \<and> v < length (verts (fst a'))"
proof -
  obtain b vals where a: "a = (b, vals)" by (cases a)
  from assms(1) obtain p where "a' = (add_edge v (length (verts b)) () (snd (add_vertex p b)), um_set x (length (verts b)) vals)"
    by (auto simp: bgl_output_def a rbind_eq_Inr add_vertex_def Let_def split: if_splits)
  then show ?thesis using assms(2) by (auto simp: vals_ok_def a um_get_set add_vertex_def bgraph_ok_def arcs_def add_edge_def less_SucI)
qed

lemma input_edges_ok:
  assumes "bgraph_ok b" "v < length (verts b)" "\<And>x u. um_get vals x = Some u \<Longrightarrow> u < length (verts b)"
  shows "bgraph_ok (foldl (\<lambda>b x. add_edge (um_ref 0 vals x) v () b) b xs) \<and>
    verts (foldl (\<lambda>b x. add_edge (um_ref 0 vals x) v () b) b xs) = verts b"
  using assms
proof (induction xs arbitrary: b)
  case (Cons x xs)
  have "um_ref 0 vals x < length (verts b)" using Cons.prems by (auto simp: um_ref_def split: option.splits)
  then have ok: "bgraph_ok (add_edge (um_ref 0 vals x) v () b)" using Cons.prems by simp
  have vs: "verts (add_edge (um_ref 0 vals x) v () b) = verts b" by (simp add: add_edge_def)
  show ?case using Cons.IH [OF ok] Cons.prems(2,3) by (simp add: vs)
qed simp

lemma bgl_node_ok:
  assumes "bgl_node blank g n a = Inr a'" "vals_ok a"
  shows "vals_ok a'"
proof -
  obtain b vals where a: "a = (b, vals)" by (cases a)
  let ?v = "length (verts b)" and ?b1 = "snd (add_vertex (setProperty_node n blank) b)"
  let ?b2 = "foldl (\<lambda>b x. add_edge (um_ref 0 vals x) ?v () b) ?b1 (input_names n)"
  have run: "rfold (bgl_output blank g ?v) (output_names n) (?b2, vals) = Inr a'"
    using assms(1) by (simp add: bgl_node_def a add_vertex_def Let_def)
  have "bgraph_ok ?b2 \<and> verts ?b2 = verts ?b1"
    by (rule input_edges_ok) (use assms(2) in \<open>auto simp: vals_ok_def a add_vertex_def less_SucI bgraph_ok_def arcs_def\<close>)
  then have "vals_ok (?b2, vals) \<and> ?v < length (verts (fst (?b2, vals)))"
    using assms(2) by (auto simp: vals_ok_def a add_vertex_def less_SucI)
  with run have "vals_ok a' \<and> ?v < length (verts (fst a'))" by (rule rfold_invariant) (rule bgl_output_ok)
  then show ?thesis by simp
qed

lemma toBGL_ok: "toBGL_ir blank g = Inr b \<Longrightarrow> bgraph_ok (bg b)"
proof -
  assume "toBGL_ir blank g = Inr b"
  then obtain a1 a2 where a: "rfold (bgl_input blank g) (g_inputs g) (empty_bgraph, []) = Inr a1"
    "rfold (bgl_node blank g) (nodes g) a1 = Inr a2" "bg b = fst a2"
    by (auto simp: toBGL_ir_def rbind_eq_Inr)
  have "vals_ok (empty_bgraph, [])" by (simp add: vals_ok_def)
  with a(1) have "vals_ok a1" by (rule rfold_invariant) (rule bgl_input_ok)
  with a(2) have "vals_ok a2" by (rule rfold_invariant) (rule bgl_node_ok)
  then show ?thesis by (cases a2) (simp add: vals_ok_def a(3))
qed

section \<open>What the guess means\<close>

text \<open>A typing follows the rules at a vertex.\<close>

definition typed_ok :: "BGraph \<Rightarrow> (nat \<Rightarrow> ValueType option) \<Rightarrow> nat \<Rightarrow> bool" where
  "typed_ok b t v \<longleftrightarrow>
     (if v \<in> set (graph_regular_input_nodes (bg b)) then t v = Some VT_BATCH
      else if v \<in> set (graph_param_input_nodes (bg b)) then t v = Some VT_PARAM
      else if source_nodes v (bg b) = [] then t v = Some VT_CONST
      else \<exists>src ty. map t (source_nodes v (bg b)) = map Some src \<and> t v = Some ty \<and>
        (if vi_type (vinfo b v) = VT_VALUE then src = [ty]
         else node_rule src (toIRTypes (target_nodes v (bg b)) (bg b)) = Inr ty))"

text \<open>The flags that the vertices of a set give a value and a node.\<close>

definition flagged_value :: "BGraph \<Rightarrow> (nat \<Rightarrow> ValueType option) \<Rightarrow> nat set \<Rightarrow> string \<Rightarrow> IRValue \<Rightarrow> IRValue" where
  "flagged_value b t D x val = val
     \<lparr>is_param := is_param val \<or> (\<exists>v \<in> D. v \<in> set (graph_param_input_nodes (bg b)) \<and> vi_name (vinfo b v) = x),
      is_batch := is_batch val \<or> (\<exists>v \<in> D. vi_type (vinfo b v) = VT_VALUE \<and> vi_name (vinfo b v) = x \<and> t v = Some VT_BATCH),
      is_loss := is_loss val \<or> (\<exists>v \<in> D. vi_type (vinfo b v) = VT_VALUE \<and> vi_name (vinfo b v) = x \<and> t v = Some VT_LOSS)\<rparr>"

definition flagged_node :: "BGraph \<Rightarrow> (nat \<Rightarrow> ValueType option) \<Rightarrow> nat set \<Rightarrow> string \<Rightarrow> IRNode \<Rightarrow> IRNode" where
  "flagged_node b t D i n = n
     \<lparr>is_criterion := is_criterion n \<or> (\<exists>v \<in> D. vi_type (vinfo b v) = VT_NODE \<and> vi_id (vinfo b v) = i \<and> t v = Some VT_LOSS),
      n_is_batch := n_is_batch n \<or> (\<exists>v \<in> D. vi_type (vinfo b v) = VT_NODE \<and> vi_id (vinfo b v) = i \<and> t v = Some VT_BATCH)\<rparr>"

definition type_of :: "BGraph \<Rightarrow> guess \<Rightarrow> nat \<Rightarrow> ValueType option" where
  "type_of b s v = um_get (gs_types s) (vi_id (vinfo b v))"

text \<open>The state after the vertices of \<open>D\<close>.\<close>

definition guessed :: "BGraph \<Rightarrow> guess \<Rightarrow> nat set \<Rightarrow> guess \<Rightarrow> bool" where
  "guessed b s0 D s \<longleftrightarrow> D \<subseteq> {..<length (verts (bg b))} \<and>
     (\<forall>v < length (verts (bg b)). type_of b s v \<noteq> None \<longleftrightarrow> v \<in> D) \<and>
     (\<forall>v \<in> D. typed_ok b (type_of b s) v) \<and>
     (\<forall>x. um_get (gs_values s) x = map_option (flagged_value b (type_of b s) D x) (um_get (gs_values s0) x)) \<and>
     (\<forall>i. um_get (gs_nodes s) i = map_option (flagged_node b (type_of b s) D i) (um_get (gs_nodes s0) i))"

text \<open>Ids tell vertices apart.\<close>

definition ids_distinct :: "BGraph \<Rightarrow> bool" where
  "ids_distinct b \<longleftrightarrow> distinct (map vi_id (verts (bg b)))"

lemma ids_eq: "ids_distinct b \<Longrightarrow> u < length (verts (bg b)) \<Longrightarrow> v < length (verts (bg b)) \<Longrightarrow> vi_id (vinfo b u) = vi_id (vinfo b v) \<longleftrightarrow> u = v"
  by (auto simp: ids_distinct_def distinct_conv_nth)

lemma source_less: "bgraph_ok g \<Longrightarrow> u \<in> set (source_nodes v g) \<Longrightarrow> u < length (verts g) \<and> v < length (verts g) \<and> (u, v) \<in> set (arcs g)"
  by (force simp: bgraph_ok_def arcs_def source_nodes_def)

lemma typed_ok_cong:
  assumes "typed_ok b t v" "t' v = t v" "\<And>u. u \<in> set (source_nodes v (bg b)) \<Longrightarrow> t u \<noteq> None \<Longrightarrow> t' u = t u"
  shows "typed_ok b t' v"
proof -
  have "map t' (source_nodes v (bg b)) = map Some src" if "map t (source_nodes v (bg b)) = map Some src" for src
  proof -
    have "t u \<noteq> None" if "u \<in> set (source_nodes v (bg b))" for u
    proof -
      have "t u \<in> set (map Some src)" using \<open>map t (source_nodes v (bg b)) = map Some src\<close> that by (metis image_eqI image_set)
      then show ?thesis by auto
    qed
    then show ?thesis using that assms(3) by (metis (no_types, lifting) map_cong)
  qed
  then show ?thesis using assms(1,2) unfolding typed_ok_def by (auto split: if_splits)
qed

text \<open>One more vertex: its type, and the flags that follow from it.\<close>

definition flag_value :: "BGraph \<Rightarrow> nat \<Rightarrow> ValueType \<Rightarrow> string \<Rightarrow> IRValue \<Rightarrow> IRValue" where
  "flag_value b v ty x val = val
     \<lparr>is_param := is_param val \<or> (v \<in> set (graph_param_input_nodes (bg b)) \<and> vi_name (vinfo b v) = x),
      is_batch := is_batch val \<or> (vi_type (vinfo b v) = VT_VALUE \<and> vi_name (vinfo b v) = x \<and> ty = VT_BATCH),
      is_loss := is_loss val \<or> (vi_type (vinfo b v) = VT_VALUE \<and> vi_name (vinfo b v) = x \<and> ty = VT_LOSS)\<rparr>"

definition flag_node :: "BGraph \<Rightarrow> nat \<Rightarrow> ValueType \<Rightarrow> string \<Rightarrow> IRNode \<Rightarrow> IRNode" where
  "flag_node b v ty i n = n
     \<lparr>is_criterion := is_criterion n \<or> (vi_type (vinfo b v) = VT_NODE \<and> vi_id (vinfo b v) = i \<and> ty = VT_LOSS),
      n_is_batch := n_is_batch n \<or> (vi_type (vinfo b v) = VT_NODE \<and> vi_id (vinfo b v) = i \<and> ty = VT_BATCH)\<rparr>"

lemma guessed_add:
  assumes s: "guessed b s0 D s" and v: "v < length (verts (bg b))" "v \<notin> D" and ids: "ids_distinct b" and ok: "bgraph_ok (bg b)"
    and ty: "gs_types s' = um_set (vi_id (vinfo b v)) ty (gs_types s)"
    and vals: "\<And>x. um_get (gs_values s') x = map_option (flag_value b v ty x) (um_get (gs_values s) x)"
    and nds: "\<And>i. um_get (gs_nodes s') i = map_option (flag_node b v ty i) (um_get (gs_nodes s) i)"
    and rule: "typed_ok b (type_of b s') v"
  shows "guessed b s0 (insert v D) s'"
proof -
  let ?n = "length (verts (bg b))"
  have t: "type_of b s' u = (if u = v then Some ty else type_of b s u)" if "u < ?n" for u
    using ids_eq [OF ids that v(1)] by (auto simp: type_of_def ty um_get_set)
  have D: "D \<subseteq> {..<?n}" using s by (simp add: guessed_def)
  have old: "type_of b s' u = type_of b s u" if "u \<in> D" for u using t [of u] that v D by auto
  have new: "type_of b s' v = Some ty" using t v by simp
  have "typed_ok b (type_of b s') u" if u: "u \<in> insert v D" for u
  proof (cases "u = v")
    case False
    then have u: "typed_ok b (type_of b s) u" "u \<in> D" using u s by (auto simp: guessed_def)
    show ?thesis
    proof (rule typed_ok_cong [OF u(1)])
      fix w assume w: "w \<in> set (source_nodes u (bg b))" "type_of b s w \<noteq> None"
      then have "w \<in> D" using s source_less [OF ok w(1)] by (auto simp: guessed_def)
      then show "type_of b s' w = type_of b s w" by (rule old)
    qed (rule old [OF u(2)])
  qed (use rule in simp)
  moreover have "flag_value b v ty x (flagged_value b (type_of b s) D x val) = flagged_value b (type_of b s') (insert v D) x val" for x val
    using old new by (simp add: flag_value_def flagged_value_def disj_ac)
  moreover have "flag_node b v ty i (flagged_node b (type_of b s) D i n) = flagged_node b (type_of b s') (insert v D) i n" for i n
    using old new by (simp add: flag_node_def flagged_node_def disj_ac)
  moreover have "type_of b s' u \<noteq> None \<longleftrightarrow> u \<in> insert v D" if "u < ?n" for u using t [OF that] s that by (auto simp: guessed_def)
  ultimately show ?thesis using s v D vals nds unfolding guessed_def by (simp add: option.map_comp comp_def)
qed

section \<open>The steps\<close>

lemma set_type_simps [simp]:
  "gs_types (set_type i t s) = um_set i t (gs_types s)" "gs_values (set_type i t s) = gs_values s" "gs_nodes (set_type i t s) = gs_nodes s"
  by (simp_all add: set_type_def)

lemma set_value_flag_Inr:
  "set_value_flag f name s = Inr s' \<Longrightarrow> gs_types s' = gs_types s \<and> gs_nodes s' = gs_nodes s \<and>
     (\<forall>x. um_get (gs_values s') x = map_option (\<lambda>val. if x = name then f val else val) (um_get (gs_values s) x))"
  by (auto simp: set_value_flag_def rbind_eq_Inr um_at_Inr um_get_set option.map_ident)

lemma set_node_flag_Inr:
  "set_node_flag f i s = Inr s' \<Longrightarrow> gs_types s' = gs_types s \<and> gs_values s' = gs_values s \<and>
     (\<forall>x. um_get (gs_nodes s') x = map_option (\<lambda>n. if x = i then f n else n) (um_get (gs_nodes s) x))"
  by (auto simp: set_node_flag_def rbind_eq_Inr um_at_Inr um_get_set option.map_ident)

lemma regular_iff: "v \<in> set (graph_regular_input_nodes g) \<longleftrightarrow>
    v < length (verts g) \<and> source_nodes v g = [] \<and> vi_type (verts g ! v) = VT_VALUE \<and> \<not> vi_is_param (verts g ! v)"
  by (auto simp: graph_regular_input_nodes_def graph_input_values_def graph_input_nodes_def all_nodes_def)

lemma param_iff: "v \<in> set (graph_param_input_nodes g) \<longleftrightarrow>
    v < length (verts g) \<and> source_nodes v g = [] \<and> vi_type (verts g ! v) = VT_VALUE \<and> vi_is_param (verts g ! v)"
  by (auto simp: graph_param_input_nodes_def graph_input_values_def graph_input_nodes_def all_nodes_def)

lemma input_iff: "v \<in> set (graph_input_nodes g) \<longleftrightarrow> v < length (verts g) \<and> source_nodes v g = []"
  by (auto simp: graph_input_nodes_def all_nodes_def)

lemmas input_nodes_iff = regular_iff param_iff input_iff

lemma flag_idle:
  "ty \<noteq> VT_BATCH \<Longrightarrow> ty \<noteq> VT_LOSS \<Longrightarrow> v \<notin> set (graph_param_input_nodes (bg b)) \<Longrightarrow> flag_value b v ty x = (\<lambda>val. val)"
  "ty \<noteq> VT_BATCH \<Longrightarrow> ty \<noteq> VT_LOSS \<Longrightarrow> flag_node b v ty i = (\<lambda>n. n)"
  "vi_type (vinfo b v) = VT_VALUE \<Longrightarrow> flag_node b v ty i = (\<lambda>n. n)"
  "vi_type (vinfo b v) = VT_NODE \<Longrightarrow> v \<notin> set (graph_param_input_nodes (bg b)) \<Longrightarrow> flag_value b v ty x = (\<lambda>val. val)"
  by (simp_all add: flag_value_def flag_node_def fun_eq_iff)

lemma type_of_set: "gs_types s' = um_set (vi_id (vinfo b v)) ty (gs_types s) \<Longrightarrow> type_of b s' v = Some ty"
  by (simp add: type_of_def um_get_set)

lemma guess_regular_step:
  assumes "guessed b s0 D s" "v \<in> set (graph_regular_input_nodes (bg b))" "v \<notin> D" "ids_distinct b" "bgraph_ok (bg b)"
    and run: "guess_regular b v s = Inr s'"
  shows "guessed b s0 (insert v D) s'"
proof -
  from run obtain s1 where s1: "set_value_flag (is_batch_update (\<lambda>_. True)) (vi_name (vinfo b v)) s = Inr s1"
    "s' = set_type (vi_id (vinfo b v)) VT_BATCH s1" by (auto simp: guess_regular_def rbind_eq_Inr)
  note f = set_value_flag_Inr [OF s1(1)]
  have v: "v < length (verts (bg b))" "vi_type (vinfo b v) = VT_VALUE" "v \<notin> set (graph_param_input_nodes (bg b))"
    using assms(2) by (simp_all add: input_nodes_iff)
  have ty: "gs_types s' = um_set (vi_id (vinfo b v)) VT_BATCH (gs_types s)" using f s1(2) by simp
  show ?thesis
  proof (rule guessed_add [OF assms(1) v(1) assms(3-5) ty])
    show "typed_ok b (type_of b s') v" using assms(2) type_of_set [where s' = s', OF ty] by (simp add: typed_ok_def)
    show "um_get (gs_values s') x = map_option (flag_value b v VT_BATCH x) (um_get (gs_values s) x)" for x
      using f s1(2) v by (cases "um_get (gs_values s) x") (auto simp: flag_value_def)
    show "um_get (gs_nodes s') i = map_option (flag_node b v VT_BATCH i) (um_get (gs_nodes s) i)" for i
      using f s1(2) v by (simp add: flag_idle option.map_ident)
  qed
qed

lemma guess_param_step:
  assumes "guessed b s0 D s" "v \<in> set (graph_param_input_nodes (bg b))" "v \<notin> D" "ids_distinct b" "bgraph_ok (bg b)"
    and run: "guess_param b v s = Inr s'"
  shows "guessed b s0 (insert v D) s'"
proof -
  from run have "set_value_flag (is_param_update (\<lambda>_. True)) (vi_name (vinfo b v)) (set_type (vi_id (vinfo b v)) VT_PARAM s) = Inr s'"
    by (auto simp: guess_param_def rbind_eq_Inr)
  note f = set_value_flag_Inr [OF this]
  have v: "v < length (verts (bg b))" "vi_type (vinfo b v) = VT_VALUE" "v \<notin> set (graph_regular_input_nodes (bg b))"
    using assms(2) by (simp_all add: input_nodes_iff)
  have ty: "gs_types s' = um_set (vi_id (vinfo b v)) VT_PARAM (gs_types s)" using f by simp
  show ?thesis
  proof (rule guessed_add [OF assms(1) v(1) assms(3-5) ty])
    show "typed_ok b (type_of b s') v" using assms(2) v(3) type_of_set [where s' = s', OF ty] by (simp add: typed_ok_def)
    show "um_get (gs_values s') x = map_option (flag_value b v VT_PARAM x) (um_get (gs_values s) x)" for x
      using f v assms(2) by (cases "um_get (gs_values s) x") (auto simp: flag_value_def)
    show "um_get (gs_nodes s') i = map_option (flag_node b v VT_PARAM i) (um_get (gs_nodes s) i)" for i
      using f v by (simp add: flag_idle option.map_ident)
  qed
qed

lemma guess_const_step:
  assumes "guessed b s0 D s" "v \<in> set (graph_input_nodes (bg b))" "ids_distinct b" "bgraph_ok (bg b)"
    and all: "set (graph_regular_input_nodes (bg b)) \<union> set (graph_param_input_nodes (bg b)) \<subseteq> D"
  shows "guessed b s0 (insert v D) (guess_const b v s)"
proof (cases "v \<in> D")
  case True
  then have "guess_const b v s = s" using assms(1,2) by (simp add: guess_const_def guessed_def type_of_def um_contains_def input_iff)
  then show ?thesis using True assms(1) by (simp add: insert_absorb)
next
  case False
  have v: "v < length (verts (bg b))" "source_nodes v (bg b) = []" using assms(2) by (simp_all add: input_iff)
  have inp: "v \<notin> set (graph_regular_input_nodes (bg b))" "v \<notin> set (graph_param_input_nodes (bg b))" using False all by auto
  have run: "guess_const b v s = set_type (vi_id (vinfo b v)) VT_CONST s"
    using False assms(1) v by (auto simp: guess_const_def guessed_def type_of_def um_contains_def)
  then have ty: "gs_types (guess_const b v s) = um_set (vi_id (vinfo b v)) VT_CONST (gs_types s)" by simp
  show ?thesis
  proof (rule guessed_add [OF assms(1) v(1) False assms(3,4) ty])
    show "typed_ok b (type_of b (guess_const b v s)) v"
      using inp v(2) type_of_set [where s' = "guess_const b v s", OF ty] by (simp add: typed_ok_def)
  qed (use inp in \<open>simp_all add: run flag_idle option.map_ident\<close>)
qed

lemma guess_vertex_step:
  assumes "guessed b s0 D s" "v < length (verts (bg b))" "ids_distinct b" "bgraph_ok (bg b)"
    and all: "set (graph_input_nodes (bg b)) \<subseteq> D" and run: "guess_vertex b v s = Inr s'"
  shows "guessed b s0 (insert v D) s'"
proof (cases "v \<in> D")
  case True
  then have "s' = s" using assms(1,2) run by (simp add: guess_vertex_def guessed_def type_of_def um_contains_def)
  then show ?thesis using True assms(1) by (simp add: insert_absorb)
next
  case False
  let ?tgt = "toIRTypes (target_nodes v (bg b)) (bg b)"
  have inp: "v \<notin> set (graph_regular_input_nodes (bg b))" "v \<notin> set (graph_param_input_nodes (bg b))" "source_nodes v (bg b) \<noteq> []"
    using False all assms(2) by (auto simp: input_nodes_iff)
  have "\<not> um_contains (gs_types s) (vi_id (vinfo b v))"
    using False assms(1,2) by (auto simp: guessed_def type_of_def um_contains_def)
  with run obtain src where src: "toValueTypes (source_nodes v (bg b)) (gs_types s) (bg b) = Inr src"
    and go: "(if vi_type (vinfo b v) = VT_VALUE then rbind (rassert (length src = 1)) (\<lambda>_. guess_value (vinfo b v) (hd src) s)
       else rbind (node_rule src ?tgt) (\<lambda>type. guess_node (vinfo b v) type s)) = Inr s'"
    by (auto simp: guess_vertex_def Let_def rbind_eq_Inr)
  have types: "map (type_of b s) (source_nodes v (bg b)) = map Some src"
  proof (rule nth_equalityI)
    show len: "length (map (type_of b s) (source_nodes v (bg b))) = length (map Some src)" using rmap_length [OF src [unfolded toValueTypes_def]] by simp
    show "map (type_of b s) (source_nodes v (bg b)) ! i = map Some src ! i" if "i < length (map (type_of b s) (source_nodes v (bg b)))" for i
      using that len rmap_nth [OF src [unfolded toValueTypes_def], of i] by (auto simp: type_of_def rbind_eq_Inr um_at_Inr)
  qed
  obtain ty where ty: "gs_types s' = um_set (vi_id (vinfo b v)) ty (gs_types s)"
    and vals: "\<And>x. um_get (gs_values s') x = map_option (flag_value b v ty x) (um_get (gs_values s) x)"
    and nds: "\<And>i. um_get (gs_nodes s') i = map_option (flag_node b v ty i) (um_get (gs_nodes s) i)"
    and rule: "if vi_type (vinfo b v) = VT_VALUE then src = [ty] else node_rule src ?tgt = Inr ty"
  proof (cases "vi_type (vinfo b v) = VT_VALUE")
    case True
    then obtain ty where t: "src = [ty]" "guess_value (vinfo b v) ty s = Inr s'" using go by (cases src) (auto simp: rbind_eq_Inr)
    have "gs_types s' = um_set (vi_id (vinfo b v)) ty (gs_types s) \<and> gs_nodes s' = gs_nodes s \<and>
        (\<forall>x. um_get (gs_values s') x = map_option (flag_value b v ty x) (um_get (gs_values s) x))"
      using t(2) True inp(2)
      by (cases ty) (auto simp: guess_value_def flag_idle option.map_ident flag_value_def dest!: set_value_flag_Inr intro!: option.map_cong)
    then show ?thesis using that [of ty] t(1) True by (simp add: flag_idle option.map_ident)
  next
    case False
    then have node: "vi_type (vinfo b v) = VT_NODE" using VertexType.exhaust by auto
    obtain ty where t: "node_rule src ?tgt = Inr ty" "guess_node (vinfo b v) ty s = Inr s'" using go False by (auto simp: rbind_eq_Inr)
    have "gs_types s' = um_set (vi_id (vinfo b v)) ty (gs_types s) \<and> gs_values s' = gs_values s \<and>
        (\<forall>i. um_get (gs_nodes s') i = map_option (flag_node b v ty i) (um_get (gs_nodes s) i))"
      using t(2) node
      by (cases ty) (auto simp: guess_node_def flag_idle option.map_ident flag_node_def rbind_eq_Inr dest!: set_node_flag_Inr intro!: option.map_cong)
    then show ?thesis using that [of ty] t(1) node inp(2) by (simp add: flag_idle option.map_ident)
  qed
  show ?thesis
  proof (rule guessed_add [OF assms(1,2) False assms(3,4) ty vals nds])
    have new: "type_of b s' v = Some ty" by (rule type_of_set) (rule ty)
    have "type_of b s' u = type_of b s u" if "u \<in> set (source_nodes v (bg b))" for u
    proof -
      have "type_of b s u \<in> set (map Some src)" using types that by (metis image_eqI image_set)
      then have "u \<noteq> v" using False assms(1,2) by (auto simp: guessed_def)
      then show ?thesis using ids_eq [OF assms(3) _ assms(2)] source_less [OF assms(4) that] by (auto simp: type_of_def ty um_get_set)
    qed
    then have "map (type_of b s') (source_nodes v (bg b)) = map (type_of b s) (source_nodes v (bg b))" by (rule map_cong [OF refl])
    then have "map (type_of b s') (source_nodes v (bg b)) = map Some src" by (rule trans [OF _ types])
    then have "\<exists>src ty. map (type_of b s') (source_nodes v (bg b)) = map Some src \<and> type_of b s' v = Some ty \<and>
        (if vi_type (vinfo b v) = VT_VALUE then src = [ty] else node_rule src ?tgt = Inr ty)"
      using new rule by (intro exI [of _ src] exI [of _ ty] conjI)
    then show "typed_ok b (type_of b s') v" using inp unfolding typed_ok_def by (simp only: if_False)
  qed
qed

section \<open>The whole guess\<close>

lemma rfold_guessed:
  assumes "rfold f xs s = Inr s'" "guessed b s0 D s" "distinct xs" "set xs \<inter> D = {}"
    and "\<And>x D s s'. x \<in> set xs \<Longrightarrow> guessed b s0 D s \<Longrightarrow> x \<notin> D \<Longrightarrow> f x s = Inr s' \<Longrightarrow> guessed b s0 (insert x D) s'"
  shows "guessed b s0 (D \<union> set xs) s'"
  using assms
proof (induction xs arbitrary: D s)
  case (Cons x xs)
  from Cons.prems(1) obtain s1 where s1: "f x s = Inr s1" "rfold f xs s1 = Inr s'" by (auto simp: rbind_eq_Inr)
  have "guessed b s0 (insert x D) s1" using Cons.prems(2-4) s1(1) by (intro Cons.prems(5)) auto
  then have "guessed b s0 (insert x D \<union> set xs) s'"
    using Cons.prems(3,4) s1(2) by (intro Cons.IH [OF _ _ _ _ Cons.prems(5)]) auto
  then show ?case by simp
qed simp

lemma guess_inputs_guessed:
  assumes run: "guess_inputs b s0 = Inr s" and "gs_types s0 = []" "ids_distinct b" "bgraph_ok (bg b)"
  shows "guessed b s0 (set (graph_input_nodes (bg b))) s"
proof -
  let ?R = "set (graph_regular_input_nodes (bg b))" and ?P = "set (graph_param_input_nodes (bg b))"
  from run obtain s1 s2 where s1: "rfold (guess_regular b) (graph_regular_input_nodes (bg b)) s0 = Inr s1"
    and s2: "rfold (guess_param b) (graph_param_input_nodes (bg b)) s1 = Inr s2"
    and s: "s = fold (guess_const b) (graph_input_nodes (bg b)) s2"
    by (auto simp: guess_inputs_def rbind_eq_Inr)
  have dist: "distinct (graph_regular_input_nodes (bg b))" "distinct (graph_param_input_nodes (bg b))"
    by (simp_all add: graph_regular_input_nodes_def graph_param_input_nodes_def graph_input_values_def graph_input_nodes_def all_nodes_def)
  have "flagged_value b t {} x = (\<lambda>val. val)" "flagged_node b t {} i = (\<lambda>n. n)" for t x i
    by (simp_all add: flagged_value_def flagged_node_def fun_eq_iff)
  then have "guessed b s0 {} s0" using assms(2) by (simp add: guessed_def type_of_def option.map_ident)
  then have "guessed b s0 ({} \<union> ?R) s1"
    by (rule rfold_guessed [OF s1]) (use dist(1) guess_regular_step assms(3,4) in auto)
  then have "guessed b s0 ({} \<union> ?R \<union> ?P) s2"
    by (rule rfold_guessed [OF s2]) (use dist(2) guess_param_step assms(3,4) in \<open>auto simp: input_nodes_iff\<close>)
  then have start: "guessed b s0 (?R \<union> ?P) s2" by simp
  have "guessed b s0 (D \<union> set xs) (fold (guess_const b) xs u)"
    if "guessed b s0 D u" "?R \<union> ?P \<subseteq> D" "set xs \<subseteq> set (graph_input_nodes (bg b))" for D xs u
    using that
  proof (induction xs arbitrary: D u)
    case (Cons x xs)
    have "guessed b s0 (insert x D) (guess_const b x u)"
      by (rule guess_const_step) (use Cons.prems assms in auto)
    then have "guessed b s0 (insert x D \<union> set xs) (fold (guess_const b) xs (guess_const b x u))"
      by (rule Cons.IH) (use Cons.prems in auto)
    then show ?case by simp
  qed simp
  from this [OF start order.refl order.refl] have "guessed b s0 (?R \<union> ?P \<union> set (graph_input_nodes (bg b))) s" by (simp add: s)
  moreover have "?R \<union> ?P \<subseteq> set (graph_input_nodes (bg b))" by (auto simp: input_nodes_iff)
  ultimately show ?thesis by (simp add: Un_absorb1)
qed

lemma guess_run:
  assumes law: "topo_law topo" and b: "toBGL_ir blank g = Inr b" "ids_distinct b" and run: "guessValueTypes blank topo g = Inr g'"
  obtains t vs where "\<And>v. v < length (verts (bg b)) \<Longrightarrow> typed_ok b t v"
    and "\<And>x. um_get (gvalues g') x = map_option (flagged_value b t {..<length (verts (bg b))} x) (um_get (gvalues g) x)"
    and "all_nodes_topo topo (bg b) = Inr vs"
    and "nodes g' = map (\<lambda>v. flagged_node b t {..<length (verts (bg b))} (vi_id (vinfo b v)) (vi_node (vinfo b v))) (node_vertices b vs)"
proof -
  let ?n = "length (verts (bg b))"
  have ok: "bgraph_ok (bg b)" by (rule toBGL_ok) (rule b)
  from run b(1) obtain vs where vs: "all_nodes_topo topo (bg b) = Inr vs" by (auto simp: guessValueTypes_def rbind_eq_Inr)
  define nm where "nm = um_of (map (\<lambda>v. (vi_id (vinfo b v), vi_node (vinfo b v))) (node_vertices b vs))"
  define s0 where "s0 = \<lparr>gs_types = [], gs_values = gvalues g, gs_nodes = nm\<rparr>"
  from run b(1) vs obtain s1 s2 ns where s1: "guess_inputs b s0 = Inr s1" and s2: "rfold (guess_vertex b) vs s1 = Inr s2"
    and ns: "rmap (\<lambda>v. rbind (rassert (um_contains (gs_nodes s2) (vi_id (vinfo b v)))) (\<lambda>_. um_at (gs_nodes s2) (vi_id (vinfo b v))))
             (node_vertices b vs) = Inr ns"
    and g': "mkIRGraph (g_name g) ns (gs_values s2) (g_inputs g) (g_outputs g) = Inr g'"
    by (auto simp: guessValueTypes_def rbind_eq_Inr nm_def s0_def Let_def)
  have order: "distinct vs" "set vs = {..<?n}" using topological_order [OF law ok vs] by simp_all
  have start: "guessed b s0 (set (graph_input_nodes (bg b))) s1"
    by (rule guess_inputs_guessed [OF s1]) (use b(2) ok in \<open>simp_all add: s0_def\<close>)
  have walk: "guessed b s0 (D \<union> set xs) s'"
    if "rfold (guess_vertex b) xs s = Inr s'" "guessed b s0 D s" "set (graph_input_nodes (bg b)) \<subseteq> D" "set xs \<subseteq> {..<?n}" for D xs s s'
    using that
  proof (induction xs arbitrary: D s)
    case (Cons x xs)
    from Cons.prems(1) obtain u where u: "guess_vertex b x s = Inr u" "rfold (guess_vertex b) xs u = Inr s'" by (auto simp: rbind_eq_Inr)
    have "guessed b s0 (insert x D) u" by (rule guess_vertex_step [OF Cons.prems(2) _ b(2) ok Cons.prems(3) u(1)]) (use Cons.prems(4) in simp)
    with u(2) have "guessed b s0 (insert x D \<union> set xs) s'" by (rule Cons.IH) (use Cons.prems in auto)
    then show ?case by simp
  qed simp
  have "guessed b s0 (set (graph_input_nodes (bg b)) \<union> set vs) s2" by (rule walk [OF s2 start]) (use order in simp_all)
  moreover have "set (graph_input_nodes (bg b)) \<subseteq> {..<?n}" by (simp add: input_iff subset_iff)
  then have "set (graph_input_nodes (bg b)) \<union> set vs = {..<?n}" unfolding order(2) by (rule Un_absorb1)
  ultimately have fin: "guessed b s0 {..<?n} s2" by (simp only:)
  let ?t = "type_of b s2"
  have "ns = map (\<lambda>v. flagged_node b ?t {..<?n} (vi_id (vinfo b v)) (vi_node (vinfo b v))) (node_vertices b vs)"
  proof (rule nth_equalityI)
    show len: "length ns = length (map (\<lambda>v. flagged_node b ?t {..<?n} (vi_id (vinfo b v)) (vi_node (vinfo b v))) (node_vertices b vs))"
      using rmap_length [OF ns] by simp
    fix i assume i: "i < length ns"
    let ?v = "node_vertices b vs ! i"
    have mem: "?v \<in> set (node_vertices b vs)" using i len by simp
    have "distinct (map fst (map (\<lambda>v. (vi_id (vinfo b v), vi_node (vinfo b v))) (node_vertices b vs)))"
      using order ids_eq [OF b(2)] by (auto simp: distinct_map node_vertices_def inj_on_def)
    then have "um_get nm (vi_id (vinfo b ?v)) = Some (vi_node (vinfo b ?v))"
      unfolding nm_def using mem by (subst um_of_distinct) (auto intro: map_of_is_SomeI)
    then have "um_get (gs_nodes s2) (vi_id (vinfo b ?v)) = Some (flagged_node b ?t {..<?n} (vi_id (vinfo b ?v)) (vi_node (vinfo b ?v)))"
      using fin by (simp add: guessed_def s0_def)
    moreover have "um_get (gs_nodes s2) (vi_id (vinfo b ?v)) = Some (ns ! i)"
      using rmap_nth [OF ns, of i] i len by (auto simp: rbind_eq_Inr um_at_Inr)
    ultimately show "ns ! i = map (\<lambda>v. flagged_node b ?t {..<?n} (vi_id (vinfo b v)) (vi_node (vinfo b v))) (node_vertices b vs) ! i"
      using i len by simp
  qed
  moreover have "nodes g' = ns" "gvalues g' = gs_values s2" using mkIRGraph_Inr [OF g'] by simp_all
  ultimately show ?thesis using that [of ?t vs] fin vs by (simp add: guessed_def s0_def)
qed

section \<open>The rules determine the types\<close>

lemma arcs_wf: "acyclic (set (arcs g)) \<Longrightarrow> wf (set (arcs g))" for g :: VGraph
  by (rule finite_acyclic_wf) simp

lemma typed_unique:
  assumes "acyclic (set (arcs (bg b)))" "bgraph_ok (bg b)"
    and "\<And>v. v < length (verts (bg b)) \<Longrightarrow> typed_ok b t v" "\<And>v. v < length (verts (bg b)) \<Longrightarrow> typed_ok b t' v"
  shows "v < length (verts (bg b)) \<Longrightarrow> t' v = t v"
  using arcs_wf [OF assms(1)]
proof (induction v)
  case (less v)
  have src: "map t' (source_nodes v (bg b)) = map t (source_nodes v (bg b))"
    by (rule map_cong [OF refl]) (use less.IH less.prems source_less [OF assms(2)] in blast)
  show ?case
    using assms(3,4) [OF less.prems] unfolding typed_ok_def src by (auto split: if_splits dest: map_injective)
qed

text \<open>Batches and losses come from the regular inputs.\<close>

lemma node_rule_source:
  assumes "node_rule src tgt = Inr ty" "ty = VT_BATCH \<or> ty = VT_LOSS"
  shows "VT_BATCH \<in> set src \<or> VT_LOSS \<in> set src"
proof (rule ccontr)
  assume "\<not> ?thesis"
  then have "count_list src VT_BATCH = 0" "count_list src VT_LOSS = 0" by simp_all
  with assms show False
    by (auto simp: node_rule_def matchLossRule_def matchBatchRule_def rbind_eq_Inr Let_def split: if_splits)
qed

lemma batch_from_input:
  assumes "acyclic (set (arcs (bg b)))" "bgraph_ok (bg b)" "\<And>v. v < length (verts (bg b)) \<Longrightarrow> typed_ok b t v"
  shows "v < length (verts (bg b)) \<Longrightarrow> t v = Some VT_BATCH \<or> t v = Some VT_LOSS \<Longrightarrow>
    \<exists>u \<in> set (graph_regular_input_nodes (bg b)). (u, v) \<in> (set (arcs (bg b)))\<^sup>*"
  using arcs_wf [OF assms(1)]
proof (induction v)
  case (less v)
  show ?case
  proof (cases "v \<in> set (graph_regular_input_nodes (bg b))")
    case False
    with assms(3) [OF less.prems(1)] less.prems(2) obtain src ty where src: "map t (source_nodes v (bg b)) = map Some src" "t v = Some ty"
      "if vi_type (vinfo b v) = VT_VALUE then src = [ty] else node_rule src (toIRTypes (target_nodes v (bg b)) (bg b)) = Inr ty"
      by (auto simp: typed_ok_def split: if_splits)
    then have "VT_BATCH \<in> set src \<or> VT_LOSS \<in> set src" using less.prems(2) node_rule_source by (auto split: if_splits)
    then have "Some VT_BATCH \<in> set (map t (source_nodes v (bg b))) \<or> Some VT_LOSS \<in> set (map t (source_nodes v (bg b)))" unfolding src(1) by auto
    then obtain w where w: "w \<in> set (source_nodes v (bg b))" "t w = Some VT_BATCH \<or> t w = Some VT_LOSS" by force
    note e = source_less [OF assms(2) w(1)]
    from less.IH [of w] e w(2) obtain u where "u \<in> set (graph_regular_input_nodes (bg b))" "(u, w) \<in> (set (arcs (bg b)))\<^sup>*" by blast
    then show ?thesis using e by (meson rtrancl.rtrancl_into_rtrancl)
  qed blast
qed

section \<open>The guess returns\<close>

text \<open>
  What the code relies on: every value vertex has an entry in the value map, regular inputs are tensors,
  a value has one producer, no node yields a function, and the inputs have values.
\<close>

definition guess_ready :: "BGraph \<Rightarrow> IRGraph \<Rightarrow> bool" where
  "guess_ready b g \<longleftrightarrow>
     (\<forall>v < length (verts (bg b)). vi_type (vinfo b v) = VT_VALUE \<longrightarrow>
        length (source_nodes v (bg b)) \<le> 1 \<and> um_get (gvalues g) (vi_name (vinfo b v)) \<noteq> None) \<and>
     (\<forall>v \<in> set (graph_regular_input_nodes (bg b)).
        case um_get (gvalues g) (vi_name (vinfo b v)) of None \<Rightarrow> False | Some val \<Rightarrow> base_type (v_type val) = BT_TENSOR) \<and>
     (\<forall>v < length (verts (bg b)). \<forall>ty \<in> set (toIRTypes (target_nodes v (bg b)) (bg b)). vi_type (vinfo b v) = VT_NODE \<longrightarrow>
        (\<exists>r. isTensorOrTensorList ty = Inr r)) \<and>
     set (g_inputs g) \<subseteq> fst ` set (gvalues g)"

lemma rfold_guessed_total:
  assumes "guessed b s0 D s" "distinct xs" "set xs \<inter> D = {}"
    and "\<And>x D s. x \<in> set xs \<Longrightarrow> guessed b s0 D s \<Longrightarrow> x \<notin> D \<Longrightarrow> \<exists>s'. f x s = Inr s' \<and> guessed b s0 (insert x D) s'"
  shows "\<exists>s'. rfold f xs s = Inr s' \<and> guessed b s0 (D \<union> set xs) s'"
  using assms
proof (induction xs arbitrary: D s)
  case (Cons x xs)
  have "\<exists>s1. f x s = Inr s1 \<and> guessed b s0 (insert x D) s1" using Cons.prems(1-3) by (intro Cons.prems(4)) auto
  then obtain s1 where s1: "f x s = Inr s1" "guessed b s0 (insert x D) s1" by blast
  have "\<exists>s'. rfold f xs s1 = Inr s' \<and> guessed b s0 (insert x D \<union> set xs) s'"
    using Cons.prems(2,3) by (intro Cons.IH [OF s1(2) _ _ Cons.prems(4)]) auto
  then show ?case using s1(1) by simp
qed simp

lemma node_rule_total: "(\<And>ty. ty \<in> set tgt \<Longrightarrow> \<exists>r. isTensorOrTensorList ty = Inr r) \<Longrightarrow> \<exists>ty. node_rule src tgt = Inr ty"
proof -
  assume "\<And>ty. ty \<in> set tgt \<Longrightarrow> \<exists>r. isTensorOrTensorList ty = Inr r"
  then have "\<exists>ts. rfilter isTensorOrTensorList tgt = Inr ts" by (induction tgt) fastforce+
  then show ?thesis by (auto simp: node_rule_def matchBatchRule_def matchConstRule_def)
qed

lemma guessed_value:
  "guessed b s0 D s \<Longrightarrow> um_get (gs_values s0) x \<noteq> None \<Longrightarrow>
   \<exists>val0. um_get (gs_values s0) x = Some val0 \<and> um_get (gs_values s) x = Some (flagged_value b (type_of b s) D x val0)"
  by (auto simp: guessed_def)

lemma guess_inputs_total:
  assumes ready: "guess_ready b g" and s0: "gs_values s0 = gvalues g" "gs_types s0 = []" and "ids_distinct b" "bgraph_ok (bg b)"
  shows "\<exists>s. guess_inputs b s0 = Inr s"
proof -
  let ?R = "set (graph_regular_input_nodes (bg b))" and ?P = "set (graph_param_input_nodes (bg b))"
  have dist: "distinct (graph_regular_input_nodes (bg b))" "distinct (graph_param_input_nodes (bg b))"
    by (simp_all add: graph_regular_input_nodes_def graph_param_input_nodes_def graph_input_values_def graph_input_nodes_def all_nodes_def)
  have val: "um_get (gs_values s0) (vi_name (vinfo b v)) \<noteq> None" if "v \<in> ?R \<union> ?P" for v
    using that ready s0(1) by (auto simp: guess_ready_def input_nodes_iff)
  have "flagged_value b t {} x = (\<lambda>val. val)" "flagged_node b t {} i = (\<lambda>n. n)" for t x i
    by (simp_all add: flagged_value_def flagged_node_def fun_eq_iff)
  then have start: "guessed b s0 {} s0" using s0 by (simp add: guessed_def type_of_def option.map_ident)
  have "\<exists>s'. rfold (guess_regular b) (graph_regular_input_nodes (bg b)) s0 = Inr s' \<and> guessed b s0 ({} \<union> ?R) s'"
  proof (rule rfold_guessed_total [OF start dist(1)])
    fix v D s assume v: "v \<in> ?R" "v \<notin> D" and s: "guessed b s0 D s"
    obtain val0 where val0: "um_get (gs_values s0) (vi_name (vinfo b v)) = Some val0"
      "um_get (gs_values s) (vi_name (vinfo b v)) = Some (flagged_value b (type_of b s) D (vi_name (vinfo b v)) val0)"
      using guessed_value [OF s val [of v]] v(1) by blast
    then have "base_type (v_type val0) = BT_TENSOR" using ready v(1) s0(1) by (fastforce simp: guess_ready_def)
    then obtain s' where "guess_regular b v s = Inr s'"
      using val0(2) by (simp add: guess_regular_def set_value_flag_def um_at_def flagged_value_def)
    then show "\<exists>s'. guess_regular b v s = Inr s' \<and> guessed b s0 (insert v D) s'" using guess_regular_step [OF s v assms(4,5)] by blast
  qed simp
  then obtain s1 where s1: "rfold (guess_regular b) (graph_regular_input_nodes (bg b)) s0 = Inr s1" "guessed b s0 ?R s1" by auto
  have "\<exists>s'. rfold (guess_param b) (graph_param_input_nodes (bg b)) s1 = Inr s' \<and> guessed b s0 (?R \<union> ?P) s'"
  proof (rule rfold_guessed_total [OF s1(2) dist(2)])
    show "?P \<inter> ?R = {}" by (auto simp: input_nodes_iff)
    fix v D s assume v: "v \<in> ?P" "v \<notin> D" and s: "guessed b s0 D s"
    obtain val where "um_get (gs_values s) (vi_name (vinfo b v)) = Some val"
      using guessed_value [OF s val [of v]] v(1) by blast
    then obtain s' where "guess_param b v s = Inr s'" by (simp add: guess_param_def set_value_flag_def um_at_def)
    then show "\<exists>s'. guess_param b v s = Inr s' \<and> guessed b s0 (insert v D) s'" using guess_param_step [OF s v assms(4,5)] by blast
  qed
  then show ?thesis using s1(1) by (auto simp: guess_inputs_def)
qed

lemma guess_vertex_total:
  assumes ready: "guess_ready b g" and s0: "gs_values s0 = gvalues g" and s: "guessed b s0 D s"
    and nm: "vi_type (vinfo b v) = VT_NODE \<Longrightarrow> um_get (gs_nodes s0) (vi_id (vinfo b v)) \<noteq> None"
    and v: "v < length (verts (bg b))" "set (source_nodes v (bg b)) \<subseteq> D" and ok: "bgraph_ok (bg b)" "set (graph_input_nodes (bg b)) \<subseteq> D"
  shows "\<exists>s'. guess_vertex b v s = Inr s'"
proof (cases "um_contains (gs_types s) (vi_id (vinfo b v))")
  case False
  have "\<exists>src. toValueTypes (source_nodes v (bg b)) (gs_types s) (bg b) = Inr src"
    unfolding toValueTypes_def
  proof (rule rmap_total)
    fix u assume "u \<in> set (source_nodes v (bg b))"
    then have "u < length (verts (bg b))" "u \<in> D" using source_less [OF ok(1)] v(2) by auto
    then obtain ty where "um_get (gs_types s) (vi_id (vinfo b u)) = Some ty" using s by (fastforce simp: guessed_def type_of_def)
    then show "\<exists>y. rbind (rassert (um_contains (gs_types s) (vi_id (vinfo b u)))) (\<lambda>_. um_at (gs_types s) (vi_id (vinfo b u))) = Inr y"
      by (simp add: um_contains_def um_at_def)
  qed
  then obtain src where src: "toValueTypes (source_nodes v (bg b)) (gs_types s) (bg b) = Inr src" by blast
  have len: "length src = length (source_nodes v (bg b))" using rmap_length [OF src [unfolded toValueTypes_def]] .
  have "type_of b s v = None" using False by (simp add: type_of_def um_contains_def)
  then have "v \<notin> D" using s v(1) by (auto simp: guessed_def)
  then have ne: "source_nodes v (bg b) \<noteq> []" using ok(2) v(1) by (auto simp: input_iff)
  show ?thesis
  proof (cases "vi_type (vinfo b v) = VT_VALUE")
    case True
    then have "length (source_nodes v (bg b)) \<le> 1" using ready v(1) by (simp add: guess_ready_def)
    then have "length src = 1" using len ne by (cases "source_nodes v (bg b)") auto
    moreover have "um_get (gs_values s0) (vi_name (vinfo b v)) \<noteq> None" using ready v(1) True s0 by (simp add: guess_ready_def)
    then obtain val where "um_get (gs_values s) (vi_name (vinfo b v)) = Some val" using guessed_value [OF s] by blast
    then have "\<exists>s'. guess_value (vinfo b v) ty s = Inr s'" for ty
      by (cases ty) (simp_all add: guess_value_def set_value_flag_def um_at_def)
    ultimately show ?thesis using False src True by (simp add: guess_vertex_def Let_def)
  next
    case no: False
    then have node: "vi_type (vinfo b v) = VT_NODE" using VertexType.exhaust by auto
    obtain ty where ty: "node_rule src (toIRTypes (target_nodes v (bg b)) (bg b)) = Inr ty"
      using node_rule_total [of "toIRTypes (target_nodes v (bg b)) (bg b)" src] ready v(1) node unfolding guess_ready_def by blast
    obtain n where "um_get (gs_nodes s) (vi_id (vinfo b v)) = Some n" using nm [OF node] s by (auto simp: guessed_def)
    then have "\<exists>s'. guess_node (vinfo b v) ty s = Inr s'"
      by (cases ty) (simp_all add: guess_node_def set_node_flag_def um_at_def um_contains_def)
    then show ?thesis using False src no ty by (simp add: guess_vertex_def Let_def)
  qed
qed (simp add: guess_vertex_def Let_def)

lemma node_map_get:
  assumes "ids_distinct b" "distinct vs" "set vs = {..<length (verts (bg b))}" "v \<in> set (node_vertices b vs)"
  shows "um_get (um_of (map (\<lambda>v. (vi_id (vinfo b v), vi_node (vinfo b v))) (node_vertices b vs))) (vi_id (vinfo b v)) = Some (vi_node (vinfo b v))"
proof -
  have "distinct (map fst (map (\<lambda>v. (vi_id (vinfo b v), vi_node (vinfo b v))) (node_vertices b vs)))"
    using assms(2,3) ids_eq [OF assms(1)] by (auto simp: distinct_map node_vertices_def inj_on_def)
  then show ?thesis using assms(4) by (subst um_of_distinct) (auto intro: map_of_is_SomeI)
qed

lemma guess_total:
  assumes law: "topo_law topo" and b: "toBGL_ir blank g = Inr b" "ids_distinct b" and ready: "guess_ready b g" and acyc: "acyclic (set (arcs (bg b)))"
  shows "\<exists>g'. guessValueTypes blank topo g = Inr g'"
proof -
  let ?n = "length (verts (bg b))" and ?I = "set (graph_input_nodes (bg b))"
  have ok: "bgraph_ok (bg b)" by (rule toBGL_ok) (rule b)
  have "set (arcs (bg b)) \<subseteq> {..<?n} \<times> {..<?n}" using ok by (auto simp: bgraph_ok_def)
  then have "\<exists>ws. topo ?n (arcs (bg b)) = Inr ws \<and> rev_topological ?n (arcs (bg b)) ws" using law acyc by (simp add: topo_law_def)
  then obtain vs where vs: "all_nodes_topo topo (bg b) = Inr vs" by (auto simp: all_nodes_topo_def)
  note order = topological_order [OF law ok vs]
  define nm where "nm = um_of (map (\<lambda>v. (vi_id (vinfo b v), vi_node (vinfo b v))) (node_vertices b vs))"
  define s0 where "s0 = \<lparr>gs_types = [], gs_values = gvalues g, gs_nodes = nm\<rparr>"
  have nm: "um_get nm (vi_id (vinfo b v)) \<noteq> None" if "v < ?n" "vi_type (vinfo b v) = VT_NODE" for v
    using node_map_get [OF b(2)] order that by (simp add: nm_def node_vertices_def)
  obtain s1 where s1: "guess_inputs b s0 = Inr s1"
    using guess_inputs_total [OF ready _ _ b(2) ok, of s0] by (auto simp: s0_def)
  have start: "guessed b s0 ?I s1" by (rule guess_inputs_guessed [OF s1]) (use b(2) ok in \<open>simp_all add: s0_def\<close>)
  have "\<exists>s2. rfold (guess_vertex b) vs s1 = Inr s2 \<and> guessed b s0 (?I \<union> set vs) s2"
  proof (rule rfold_prefix)
    show "guessed b s0 (?I \<union> set []) s1" using start by simp
    fix pre v post s assume split: "vs = pre @ v # post" and s: "guessed b s0 (?I \<union> set pre) s"
    have v: "v < ?n" using order split by (auto simp: set_eq_iff)
    have "set (source_nodes v (bg b)) \<subseteq> set pre"
    proof
      fix u assume "u \<in> set (source_nodes v (bg b))"
      then have u: "u < ?n" "(u, v) \<in> set (arcs (bg b))" using source_less [OF ok] by blast+
      then have "u \<in> set vs" using order by auto
      then obtain i where i: "i < length vs" "vs ! i = u" by (auto simp: in_set_conv_nth)
      have "(vs ! i, vs ! length pre) \<in> set (arcs (bg b))" using i u(2) split by simp
      then have "i < length pre" using order i(1) split by auto
      then show "u \<in> set pre" using i(2) split by (auto simp: nth_append)
    qed
    then obtain s' where s': "guess_vertex b v s = Inr s'"
      using guess_vertex_total [OF ready _ s _ v _ ok] nm v by (auto simp: s0_def)
    have "guessed b s0 (insert v (?I \<union> set pre)) s'" by (rule guess_vertex_step [OF s v b(2) ok _ s']) simp
    with s' show "\<exists>s'. guess_vertex b v s = Inr s' \<and> guessed b s0 (?I \<union> set (pre @ [v])) s'" by simp
  qed
  then obtain s2 where s2: "rfold (guess_vertex b) vs s1 = Inr s2" "guessed b s0 (?I \<union> set vs) s2" by blast
  have "\<exists>ns. rmap (\<lambda>v. rbind (rassert (um_contains (gs_nodes s2) (vi_id (vinfo b v)))) (\<lambda>_. um_at (gs_nodes s2) (vi_id (vinfo b v))))
             (node_vertices b vs) = Inr ns"
  proof (rule rmap_total)
    fix v assume "v \<in> set (node_vertices b vs)"
    then have "um_get nm (vi_id (vinfo b v)) = Some (vi_node (vinfo b v))" using node_map_get [OF b(2)] order by (simp add: nm_def)
    then have "um_get (gs_nodes s2) (vi_id (vinfo b v)) \<noteq> None" using s2(2) by (simp add: guessed_def s0_def)
    then show "\<exists>y. rbind (rassert (um_contains (gs_nodes s2) (vi_id (vinfo b v)))) (\<lambda>_. um_at (gs_nodes s2) (vi_id (vinfo b v))) = Inr y"
      by (auto simp: um_contains_def um_at_def)
  qed
  then obtain ns where ns: "rmap (\<lambda>v. rbind (rassert (um_contains (gs_nodes s2) (vi_id (vinfo b v)))) (\<lambda>_. um_at (gs_nodes s2) (vi_id (vinfo b v))))
             (node_vertices b vs) = Inr ns" by blast
  have "fst ` set (gvalues g) \<subseteq> fst ` set (gs_values s2)"
  proof
    fix x assume "x \<in> fst ` set (gvalues g)"
    then have "um_get (gvalues g) x \<noteq> None" by (simp add: map_of_eq_None_iff)
    then have "um_get (gs_values s2) x \<noteq> None" using s2(2) by (simp add: guessed_def s0_def)
    then show "x \<in> fst ` set (gs_values s2)" by (simp add: map_of_eq_None_iff)
  qed
  then have "set (g_inputs g) \<subseteq> fst ` set (gs_values s2)" using ready unfolding guess_ready_def by (elim conjE) (rule order_trans)
  from mkIRGraph_total [OF this] obtain g' where "mkIRGraph (g_name g) ns (gs_values s2) (g_inputs g) (g_outputs g) = Inr g'" by blast
  then show ?thesis using b(1) vs s1 s2(1) ns by (simp add: guessValueTypes_def Let_def nm_def s0_def)
qed

text \<open>
  An example: two inputs, a parameter and a constant; a layer that reads one input, the parameter and the
  constant; a loss of the layer and the other input.
\<close>

definition demo_blank :: VertexInfo where
  "demo_blank = \<lparr>vi_name = [], vi_value = mkIRValue [] createNoneType, vi_node = mkIRNode [] [] [] [], vi_type = VT_VALUE, vi_is_param = False,
     vi_is_criterion = False, vi_is_loss = False, vi_is_input = False, vi_is_orig_input = False, vi_is_output = False,
     vi_is_orig_output = False, vi_id = [], vi_ranks = {}, vi_fwd_time = 0, vi_bwd_time = 0\<rparr>"

definition demo_net :: IRGraph where
  "demo_net = \<lparr>g_name = ''net'',
     nodes = [mkIRNode ''n0'' ''prim::Constant'' [] [''c''], mkIRNode ''n1'' ''linear'' [''x'', ''w'', ''c''] [''y''],
       mkIRNode ''n2'' ''ce'' [''y'', ''t''] [''l'']],
     gvalues = map (\<lambda>(x, ty, p). (x, (mkIRValue x ty)\<lparr>is_param := p\<rparr>))
       [(''x'', createTensorType TE_FLOAT [4, 3] False, False), (''t'', createTensorType TE_LONG [4] False, False),
        (''w'', createTensorType TE_FLOAT [3, 2] True, True), (''c'', createScalarType ST_INT, False),
        (''y'', createTensorType TE_FLOAT [4, 2] True, False), (''l'', createTensorType TE_FLOAT [] True, False)],
     g_inputs = [''x'', ''t'', ''w''], g_outputs = [''l''], is_replicable = False\<rparr>"

definition demo_bgl :: BGraph where
  "demo_bgl = (case toBGL_ir demo_blank demo_net of Inl _ \<Rightarrow> \<lparr>bg_id = [], bg = empty_bgraph\<rparr> | Inr b \<Rightarrow> b)"

lemma demo_bgl_run: "toBGL_ir demo_blank demo_net = Inr demo_bgl"
proof -
  have "\<not> isl (toBGL_ir demo_blank demo_net)" by code_simp
  then show ?thesis by (cases "toBGL_ir demo_blank demo_net") (simp_all add: demo_bgl_def)
qed

lemma guess_ready_iff: "guess_ready b g \<longleftrightarrow>
     list_all (\<lambda>v. vi_type (vinfo b v) = VT_VALUE \<longrightarrow>
        length (source_nodes v (bg b)) \<le> 1 \<and> um_get (gvalues g) (vi_name (vinfo b v)) \<noteq> None) (all_nodes (bg b)) \<and>
     list_all (\<lambda>v. case um_get (gvalues g) (vi_name (vinfo b v)) of None \<Rightarrow> False | Some val \<Rightarrow> base_type (v_type val) = BT_TENSOR)
       (graph_regular_input_nodes (bg b)) \<and>
     list_all (\<lambda>v. vi_type (vinfo b v) = VT_NODE \<longrightarrow>
        list_all (\<lambda>ty. \<not> isl (isTensorOrTensorList ty)) (toIRTypes (target_nodes v (bg b)) (bg b))) (all_nodes (bg b)) \<and>
     set (g_inputs g) \<subseteq> fst ` set (gvalues g)"
proof -
  have "(\<exists>r. x = Inr r) \<longleftrightarrow> \<not> isl x" for x :: "bool res" by (cases x) simp_all
  then show ?thesis unfolding guess_ready_def list_all_iff all_nodes_def by auto
qed

lemma demo_bgl_check:
  "case toBGL_ir demo_blank demo_net of Inl _ \<Rightarrow> False | Inr b \<Rightarrow> distinct (map vi_id (verts (bg b)))"
  "case toBGL_ir demo_blank demo_net of Inl _ \<Rightarrow> False | Inr b \<Rightarrow> guess_ready b demo_net"
  "case toBGL_ir demo_blank demo_net of Inl _ \<Rightarrow> False | Inr b \<Rightarrow> list_all (\<lambda>(u, v). u < v) (arcs (bg b))"
  unfolding guess_ready_iff by code_simp+

lemma demo_bgl_facts:
  "ids_distinct demo_bgl" "guess_ready demo_bgl demo_net" "acyclic (set (arcs (bg demo_bgl)))"
proof -
  show "ids_distinct demo_bgl" "guess_ready demo_bgl demo_net" using demo_bgl_check by (simp_all add: demo_bgl_run ids_distinct_def)
  show "acyclic (set (arcs (bg demo_bgl)))"
    by (rule acyclicI_order [where f = "\<lambda>v. - int v"]) (use demo_bgl_check(3) in \<open>auto simp: demo_bgl_run list_all_iff\<close>)
qed

lemmas demo_guess = demo_bgl_run demo_bgl_facts(1)

lemma demo_guess_runs: "topo_law topo \<Longrightarrow> \<exists>g'. guessValueTypes demo_blank topo demo_net = Inr g'"
  by (rule guess_total) (rule demo_guess demo_bgl_facts | assumption)+

section \<open>Properties\<close>

text \<open>
  C15. What the guess means: when it returns, there is a typing of the vertices of the value graph that follows
  the rules at every vertex (regular inputs are batches, parameters are parameters, other vertices
  without sources are constants, a value has the type of its producer, a node the type of the first rule
  that matches its sources and targets), and the flags of the values and nodes of the new graph are
  exactly the old ones and those that this typing gives. The graph's nodes come in the topological order.
\<close>

theorem guess_follows_rules:
  assumes "topo_law topo" "toBGL_ir blank g = Inr b" "ids_distinct b" "guessValueTypes blank topo g = Inr g'"
  shows "\<exists>t vs. (\<forall>v < length (verts (bg b)). typed_ok b t v) \<and>
    (\<forall>x. um_get (gvalues g') x = map_option (flagged_value b t {..<length (verts (bg b))} x) (um_get (gvalues g) x)) \<and>
    all_nodes_topo topo (bg b) = Inr vs \<and>
    nodes g' = map (\<lambda>v. flagged_node b t {..<length (verts (bg b))} (vi_id (vinfo b v)) (vi_node (vinfo b v))) (node_vertices b vs)"
  by (rule guess_run [OF assms]) blast

theorem guess_follows_rules_witness:
  "\<exists>g' t. guessValueTypes demo_blank sink_topo demo_net = Inr g' \<and> (\<forall>v < length (verts (bg demo_bgl)). typed_ok demo_bgl t v)"
proof -
  obtain g' where g': "guessValueTypes demo_blank sink_topo demo_net = Inr g'" using demo_guess_runs [OF sink_topo_law] by blast
  with guess_follows_rules [OF sink_topo_law demo_guess g'] show ?thesis by blast
qed

text \<open>
  C24. The guess does not depend on which topological order it walks: two orders give every value the same
  flags. So the rules have one solution, and the flags are a function of the graph.
\<close>

theorem guess_order_irrelevant:
  assumes "topo_law topo" "topo_law topo'" "toBGL_ir blank g = Inr b" "ids_distinct b"
    and "guessValueTypes blank topo g = Inr g1" "guessValueTypes blank topo' g = Inr g2"
  shows "um_get (gvalues g1) x = um_get (gvalues g2) x"
proof -
  let ?n = "length (verts (bg b))"
  have ok: "bgraph_ok (bg b)" by (rule toBGL_ok) (rule assms)
  obtain t vs where t: "\<And>v. v < ?n \<Longrightarrow> typed_ok b t v" "\<And>x. um_get (gvalues g1) x = map_option (flagged_value b t {..<?n} x) (um_get (gvalues g) x)"
    "all_nodes_topo topo (bg b) = Inr vs" by (rule guess_run [OF assms(1,3,4,5)]) blast
  obtain t' vs' where t': "\<And>v. v < ?n \<Longrightarrow> typed_ok b t' v" "\<And>x. um_get (gvalues g2) x = map_option (flagged_value b t' {..<?n} x) (um_get (gvalues g) x)"
    by (rule guess_run [OF assms(2,3,4,6)]) blast
  have "acyclic (set (arcs (bg b)))" using topological_order [OF assms(1) ok t(3)] by blast
  then have "t' v = t v" if "v < ?n" for v using typed_unique [OF _ ok t(1) t'(1)] that by blast
  then have "flagged_value b t' {..<?n} x val = flagged_value b t {..<?n} x val" for val by (simp add: flagged_value_def)
  then show ?thesis unfolding t(2) t'(2) by (cases "um_get (gvalues g) x") simp_all
qed

theorem guess_order_irrelevant_witness:
  "\<exists>g1 g2. guessValueTypes demo_blank sink_topo demo_net = Inr g1 \<and> guessValueTypes demo_blank source_topo demo_net = Inr g2 \<and>
    um_get (gvalues g1) ''l'' = um_get (gvalues g2) ''l''"
  using demo_guess_runs [OF sink_topo_law] demo_guess_runs [OF source_topo_law]
    guess_order_irrelevant [OF sink_topo_law source_topo_law demo_guess] by blast

text \<open>
  Only what depends on the inputs is a batch: a value that the guess marks as batch or loss, and that
  was not marked before, is the name of a value vertex to which a path leads from a regular input.
\<close>

lemma batches_from_inputs:
  assumes "topo_law topo" "toBGL_ir blank g = Inr b" "ids_distinct b" "guessValueTypes blank topo g = Inr g'"
    and "um_get (gvalues g) x = Some old" "um_get (gvalues g') x = Some new"
    and "is_batch new \<and> \<not> is_batch old \<or> is_loss new \<and> \<not> is_loss old"
  shows "\<exists>v < length (verts (bg b)). vi_name (vinfo b v) = x \<and>
    (\<exists>u \<in> set (graph_regular_input_nodes (bg b)). (u, v) \<in> (set (arcs (bg b)))\<^sup>*)"
proof -
  let ?n = "length (verts (bg b))"
  have ok: "bgraph_ok (bg b)" by (rule toBGL_ok) (rule assms)
  obtain t vs where t: "\<And>v. v < ?n \<Longrightarrow> typed_ok b t v" "\<And>x. um_get (gvalues g') x = map_option (flagged_value b t {..<?n} x) (um_get (gvalues g) x)"
    "all_nodes_topo topo (bg b) = Inr vs" by (rule guess_run [OF assms(1-4)]) blast
  have acyc: "acyclic (set (arcs (bg b)))" using topological_order [OF assms(1) ok t(3)] by blast
  from t(2) [of x] assms(5-7) obtain v where "v < ?n" "vi_name (vinfo b v) = x" "t v = Some VT_BATCH \<or> t v = Some VT_LOSS"
    by (auto simp: flagged_value_def)
  with batch_from_input [OF acyc ok t(1)] show ?thesis by blast
qed

lemma batches_from_inputs_witness:
  "\<exists>v < length (verts (bg demo_bgl)). vi_name (vinfo demo_bgl v) = ''y'' \<and>
    (\<exists>u \<in> set (graph_regular_input_nodes (bg demo_bgl)). (u, v) \<in> (set (arcs (bg demo_bgl)))\<^sup>*)"
proof -
  obtain g' where g': "guessValueTypes demo_blank sink_topo demo_net = Inr g'" using demo_guess_runs [OF sink_topo_law] by blast
  have old: "um_get (gvalues demo_net) ''y'' = Some (mkIRValue ''y'' (createTensorType TE_FLOAT [4, 2] True))" by code_simp
  have "(case guessValueTypes demo_blank sink_topo demo_net of Inl _ \<Rightarrow> False
     | Inr g \<Rightarrow> (case um_get (gvalues g) ''y'' of None \<Rightarrow> False | Some v \<Rightarrow> is_batch v))" by code_simp
  then obtain new where new: "um_get (gvalues g') ''y'' = Some new" "is_batch new" unfolding g' by (auto split: option.splits)
  show ?thesis
    by (rule batches_from_inputs [OF sink_topo_law demo_guess g' old new(1)]) (simp add: new(2) mkIRValue_def)
qed

text \<open>
  The guess always returns a graph, whichever rules match: for an acyclic value graph whose value
  vertices have entries in the value map and at most one producer, whose regular inputs are tensors and
  whose nodes yield no functions, no assertion fails, no lookup throws and the error for
  an undetermined type is not reached.
\<close>

lemma guess_returns:
  assumes "topo_law topo" "toBGL_ir blank g = Inr b" "ids_distinct b" "guess_ready b g" "acyclic (set (arcs (bg b)))"
  shows "\<exists>g'. guessValueTypes blank topo g = Inr g'"
  by (rule guess_total [OF assms])

lemma guess_returns_witness: "\<exists>g'. guessValueTypes demo_blank sink_topo demo_net = Inr g'"
  by (rule guess_returns [OF sink_topo_law demo_guess demo_bgl_facts(2,3)])

end
