(* ===== verification/Param_Segments.thy ===== *)
theory Param_Segments
  imports Routes
begin

text \<open>
  Parameters kept in segments, one per rank (\<open>comp/DistributedParamLocatorBase.cpp\<close>,
  \<open>comp/DistributedParamLocator.cpp\<close>, \<open>comp/DistributedGradLocator.cpp\<close>).

  A tensor is contiguous: its type, its elements in order, and its gradient when it has one. MPI and NCCL
  are parameters: the id that the root broadcasts, and the collective gather of the segments. The rounding
  up of the quotient in \<open>double\<close> is exact below 2^53 elements.
\<close>

section \<open>Tensors\<close>

record 'a tensor =
  t_type :: IRType
  t_data :: "'a list"
  t_grad :: "'a list option"

definition numel :: "'a tensor \<Rightarrow> int" where
  "numel t = int (length (t_data t))"

text \<open>\<open>slice(0, a, b)\<close> of a flat tensor.\<close>

definition tslice :: "int \<Rightarrow> int \<Rightarrow> 'a list \<Rightarrow> 'a list" where
  "tslice a b xs = take (nat (b - a)) (drop (nat a) xs)"

text \<open>
  Only tensors of floating types can require a gradient: \<open>set_requires_grad(true)\<close>, and \<open>torch::zeros\<close> with the
  option, throw for the others.
\<close>

definition is_differentiable :: "IRTensorElemType \<Rightarrow> bool" where
  "is_differentiable e \<longleftrightarrow> e \<in> {TE_DOUBLE, TE_FLOAT, TE_HALF, TE_BFLOAT16}"

definition set_requires_grad :: "bool \<Rightarrow> 'a tensor \<Rightarrow> 'a tensor res" where
  "set_requires_grad b t =
     (if b \<and> \<not> is_differentiable (tensor_elem_type (t_type t)) then Inl Runtime_error
      else Inr (t\<lparr>t_type := setRequiresGrad b (t_type t)\<rparr>))"

definition torch_zeros :: "IRTensorElemType \<Rightarrow> int \<Rightarrow> bool \<Rightarrow> ('a :: zero) tensor res" where
  "torch_zeros e n b =
     (if e = TE_UNDEF then Inl Invalid_argument
      else set_requires_grad b \<lparr>t_type = createTensorType e [n] False, t_data = replicate (nat n) 0, t_grad = None\<rparr>)"

section \<open>The locator\<close>

record locator =
  seg_offsets :: "(int, int list) umap"
  seg_src_sizes :: "(int, int list) umap"
  seg_global_to_local :: "(int, int) umap"
  seg_ir_types :: "(int, IRType) umap"
  seg_sizes :: "(int, int) umap"
  seg_ranks :: "(int, int set) umap"
  seg_my_indices :: "(int, int) umap"

definition new_locator :: locator where
  "new_locator = \<lparr>seg_offsets = [], seg_src_sizes = [], seg_global_to_local = [], seg_ir_types = [], seg_sizes = [],
     seg_ranks = [], seg_my_indices = []\<rparr>"

text \<open>The offset and the size of each of \<open>k\<close> segments of at most \<open>seg\<close> elements, from an offset on.\<close>

primrec seg_loop :: "nat \<Rightarrow> int \<Rightarrow> int \<Rightarrow> int \<Rightarrow> (int \<times> int) list" where
  "seg_loop 0 n seg offset = []"
| "seg_loop (Suc k) n seg offset = (let src_size = min (n - offset) seg in (offset, src_size) # seg_loop k n seg (offset + src_size))"

definition doRegister :: "hasher \<Rightarrow> int \<Rightarrow> int \<Rightarrow> int \<Rightarrow> 'a tensor \<Rightarrow> int set \<Rightarrow> (TagMap \<times> 'z locator_scheme, unit) st" where
  "doRegister h my_rank root_id pid p ranks = (\<lambda>(tm, l).
     if ranks = {} then Inl Undefined_behaviour
     else let seg = ceil_div (numel p) (int (card ranks));
              pieces = seg_loop (card ranks) (numel p) seg 0;
              l1 = l\<lparr>seg_offsets := um_set pid (um_ref [] (seg_offsets l) pid @ map fst pieces) (seg_offsets l),
                     seg_src_sizes := um_set pid (um_ref [] (seg_src_sizes l) pid @ map snd pieces) (seg_src_sizes l),
                     seg_sizes := um_set pid seg (seg_sizes l),
                     seg_ranks := um_set pid ranks (seg_ranks l)\<rparr>
          in rbind (getRankSetTag h ranks tm) (\<lambda>(_, tm1).
             let l2 = l1\<lparr>seg_global_to_local := um_set root_id pid (seg_global_to_local l1),
                         seg_ir_types := um_set pid (t_type p) (seg_ir_types l1)\<rparr>
             in rbind (getLocalRank ranks my_rank) (\<lambda>i.
                Inr ((), tm1, l2\<lparr>seg_my_indices := um_set pid i (seg_my_indices l2)\<rparr>))))"

text \<open>\<open>remove\<close> erases by the local id also where the key is the global id, and keeps offsets, sizes and ranks.\<close>

definition remove_base :: "int \<Rightarrow> 'z locator_scheme \<Rightarrow> 'z locator_scheme" where
  "remove_base pid l =
     l\<lparr>seg_global_to_local := um_erase pid (seg_global_to_local l), seg_ir_types := um_erase pid (um_erase pid (seg_ir_types l)),
       seg_sizes := um_erase pid (seg_sizes l), seg_my_indices := um_erase pid (seg_my_indices l)\<rparr>"

definition getSegmentNum :: "'z locator_scheme \<Rightarrow> int \<Rightarrow> nat res" where
  "getSegmentNum l pid =
     rbind (rassert (um_contains (seg_ranks l) pid)) (\<lambda>_. rbind (um_at (seg_ranks l) pid) (\<lambda>rs. Inr (card rs)))"

text \<open>A comparison with a size converts a negative index to a huge one.\<close>

definition getSegmentRange :: "'z locator_scheme \<Rightarrow> int \<Rightarrow> int \<Rightarrow> (int \<times> int) res" where
  "getSegmentRange l pid index =
     rbind (rassert (um_contains (seg_offsets l) pid)) (\<lambda>_.
     rbind (rassert (um_contains (seg_src_sizes l) pid)) (\<lambda>_.
     rbind (um_at (seg_offsets l) pid) (\<lambda>offs.
     rbind (um_at (seg_src_sizes l) pid) (\<lambda>sizes.
     rbind (rassert (int (length offs) > to_size index)) (\<lambda>_.
     rbind (rassert (int (length sizes) > to_size index)) (\<lambda>_.
     rbind (vec_at offs (nat index)) (\<lambda>offset.
     rbind (vec_at sizes (nat index)) (\<lambda>src_size.
     Inr (offset, offset + src_size)))))))))"

definition getMySegmentRange :: "'z locator_scheme \<Rightarrow> int \<Rightarrow> (int \<times> int) res" where
  "getMySegmentRange l pid =
     rbind (rassert (um_contains (seg_my_indices l) pid)) (\<lambda>_.
     rbind (um_at (seg_my_indices l) pid) (getSegmentRange l pid))"

definition getOwner :: "'z locator_scheme \<Rightarrow> int \<Rightarrow> int \<Rightarrow> int res" where
  "getOwner l pid index =
     rbind (rassert (um_contains (seg_ranks l) pid)) (\<lambda>_.
     rbind (um_at (seg_ranks l) pid) (\<lambda>rs.
     let ranks_buf = sorted_list_of_set rs in
     rbind (rassert (int (length ranks_buf) > to_size index)) (\<lambda>_. vec_at ranks_buf (nat index))))"

section \<open>Parameters stored in segments\<close>

record 'a param_locator = locator +
  param_parts :: "(int, 'a tensor) umap"

definition new_param_locator :: "'a param_locator" where
  "new_param_locator = locator.extend new_locator \<lparr>param_parts = []\<rparr>"

definition store :: "hasher \<Rightarrow> int set \<Rightarrow> int \<Rightarrow> int \<Rightarrow> int \<Rightarrow> ('a :: zero) tensor \<Rightarrow> (TagMap \<times> 'a param_locator, unit) st" where
  "store h all_ranks my_rank root_id pid p =
     sbind (doRegister h my_rank root_id pid p all_ranks) (\<lambda>_ (tm, l).
     rbind (um_at (seg_offsets l) pid) (\<lambda>offs.
     rbind (um_at (seg_src_sizes l) pid) (\<lambda>sizes.
     rbind (rassert (length offs = card all_ranks)) (\<lambda>_.
     rbind (rassert (length sizes = card all_ranks)) (\<lambda>_.
     rbind (getLocalRank all_ranks my_rank) (\<lambda>local_rank.
     rbind (vec_at offs (nat local_rank)) (\<lambda>offset.
     rbind (vec_at sizes (nat local_rank)) (\<lambda>src_size.
     rbind (um_at (seg_sizes l) pid) (\<lambda>seg.
     rbind (torch_zeros (tensor_elem_type (t_type p)) seg (requires_grad (t_type p))) (\<lambda>part_tensor.
     let part = (if src_size > 0
                 then part_tensor\<lparr>t_data := tslice offset (offset + src_size) (t_data p) @ drop (nat src_size) (t_data part_tensor)\<rparr>
                 else part_tensor)
     in Inr ((), tm, l\<lparr>param_parts := um_set pid part (param_parts l)\<rparr>)))))))))))"

text \<open>
  \<open>gather\<close> is the collective \<open>allgather\<close>: from the part this rank sends, the parts of all ranks in a row.
  \<open>view\<close> fails when the sizes differ. The part is sent without its gradient flag, and the flag is always set
  afterwards, which throws for a type that has no gradients.
\<close>

definition load :: "hasher \<Rightarrow> int set \<Rightarrow> ('a list \<Rightarrow> 'a list) \<Rightarrow> int \<Rightarrow> (TagMap \<times> ('a :: zero) param_locator, 'a tensor) st" where
  "load h all_ranks gather pid = (\<lambda>(tm, l).
     rbind (rassert (um_contains (seg_sizes l) pid)) (\<lambda>_.
     rbind (rassert (um_contains (seg_ranks l) pid)) (\<lambda>_.
     rbind (rassert (um_contains (seg_ir_types l) pid)) (\<lambda>_.
     rbind (rassert (um_contains (param_parts l) pid)) (\<lambda>_.
     rbind (um_at (param_parts l) pid) (\<lambda>param_part.
     rbind (um_at (seg_ir_types l) pid) (\<lambda>ir_type.
     rbind (um_at (seg_sizes l) pid) (\<lambda>seg.
     rbind (um_at (seg_ranks l) pid) (\<lambda>rs.
     rbind (torch_zeros (tensor_elem_type ir_type) (seg * int (card rs)) (requires_grad (t_type param_part)) :: 'a tensor res) (\<lambda>buf.
     rbind (getRankSetTag h all_ranks tm) (\<lambda>(_, tm1).
     rbind (set_requires_grad False param_part) (\<lambda>sendbuf.
     rbind (set_requires_grad True sendbuf) (\<lambda>part1.
     let flat = tslice 0 (uint (productDim (tensor_dim ir_type))) (gather (t_data sendbuf))
     in if of_nat (length flat) = productDim (tensor_dim ir_type)
        then Inr (\<lparr>t_type = createTensorType (tensor_elem_type ir_type) (tensor_dim ir_type) False, t_data = flat, t_grad = None\<rparr>,
                  tm1, l\<lparr>param_parts := um_set pid part1 (param_parts l)\<rparr>)
        else Inl Runtime_error)))))))))))))"

definition remove_param :: "int \<Rightarrow> 'a param_locator \<Rightarrow> 'a param_locator" where
  "remove_param pid l = (remove_base pid l)\<lparr>param_parts := um_erase pid (param_parts l)\<rparr>"

text \<open>
  What the other ranks do while rank 0 fetches: for each id that rank 0 broadcasts they take part in a
  load, until the id 0. The list holds the ids broadcast; after its end a rank waits for ever.
\<close>

primrec fetchStart :: "hasher \<Rightarrow> int set \<Rightarrow> ('a list \<Rightarrow> 'a list) \<Rightarrow> int list \<Rightarrow> (TagMap \<times> ('a :: zero) param_locator, 'a tensor list) st" where
  "fetchStart h all_ranks gather [] = (\<lambda>_. Inl Never_returns)"
| "fetchStart h all_ranks gather (global_pid # ids) = (\<lambda>(tm, l).
     if global_pid = 0 then Inr ([], tm, l)
     else rbind (rassert (um_contains (seg_global_to_local l) global_pid)) (\<lambda>_.
          rbind (um_at (seg_global_to_local l) global_pid) (\<lambda>pid.
          sbind (load h all_ranks gather pid) (\<lambda>t. sbind (fetchStart h all_ranks gather ids) (\<lambda>ts. sret (t # ts))) (tm, l))))"

text \<open>The broadcasts of rank 0: one per fetch, and 0 at the end.\<close>

definition fetch_broadcasts :: "int list \<Rightarrow> int list" where
  "fetch_broadcasts pids = pids @ [0]"

section \<open>Gradients in segments\<close>

text \<open>
  A segment is a view of the elements, or of the gradient, of a parameter. The local segment of a parameter
  is detached and requires a gradient, which throws for a parameter of a type that has none.
\<close>

record seg_view =
  sv_pid :: int
  sv_grad :: bool
  sv_from :: int
  sv_to :: int

record 'a grad_locator = locator +
  gl_params :: "(int, 'a tensor) umap"
  gl_local_segments :: "(int, seg_view \<times> seg_view option) umap"

definition registerGrad :: "hasher \<Rightarrow> int \<Rightarrow> int \<Rightarrow> int \<Rightarrow> 'a tensor \<Rightarrow> int set \<Rightarrow> (TagMap \<times> 'a grad_locator, unit) st" where
  "registerGrad h my_rank root_id pid p ranks =
     sbind (doRegister h my_rank root_id pid p ranks) (\<lambda>_ (tm, l). Inr ((), tm, l\<lparr>gl_params := um_set pid p (gl_params l)\<rparr>))"

definition checkIndices :: "'a grad_locator \<Rightarrow> int \<Rightarrow> int \<Rightarrow> unit res" where
  "checkIndices l pid index =
     rbind (rassert (um_contains (gl_params l) pid)) (\<lambda>_.
     rbind (um_at (gl_params l) pid) (\<lambda>p.
     rbind (getSegmentRange l pid index) (\<lambda>(offset, end).
     rassert (numel p \<ge> end))))"

definition getSegment :: "'a grad_locator \<Rightarrow> int \<Rightarrow> int \<Rightarrow> bool \<Rightarrow> seg_view res" where
  "getSegment l pid index grad =
     rbind (checkIndices l pid index) (\<lambda>_.
     rbind (um_at (gl_params l) pid) (\<lambda>p.
     rbind (getSegmentRange l pid index) (\<lambda>(offset, end).
     rbind (rassert (grad \<longrightarrow> t_grad p \<noteq> None)) (\<lambda>_.
     Inr \<lparr>sv_pid = pid, sv_grad = grad, sv_from = offset, sv_to = end\<rparr>))))"

definition getLocalParamSegment :: "int \<Rightarrow> ('a grad_locator, seg_view) st" where
  "getLocalParamSegment pid = (\<lambda>l.
     case um_get (gl_local_segments l) pid of
       Some (v, _) \<Rightarrow> Inr (v, l)
     | None \<Rightarrow> rbind (um_at (seg_my_indices l) pid) (\<lambda>i.
               rbind (getSegment l pid i False) (\<lambda>v.
               rbind (um_at (gl_params l) pid) (\<lambda>p.
               rbind (set_requires_grad True p) (\<lambda>_.
               Inr (v, l\<lparr>gl_local_segments := um_set pid (v, None) (gl_local_segments l)\<rparr>))))))"

definition setGradToLocalParamSegment :: "int \<Rightarrow> 'a grad_locator \<Rightarrow> 'a grad_locator res" where
  "setGradToLocalParamSegment pid l =
     rbind (rassert (um_contains (gl_local_segments l) pid)) (\<lambda>_.
     rbind (um_at (gl_local_segments l) pid) (\<lambda>(v, _).
     rbind (um_at (seg_my_indices l) pid) (\<lambda>i.
     rbind (getSegment l pid i True) (\<lambda>g.
     Inr (l\<lparr>gl_local_segments := um_set pid (v, Some g) (gl_local_segments l)\<rparr>)))))"

text \<open>What a view shows.\<close>

definition view_data :: "'a grad_locator \<Rightarrow> seg_view \<Rightarrow> 'a list res" where
  "view_data l v =
     rbind (um_at (gl_params l) (sv_pid v)) (\<lambda>p.
     if sv_grad v then (case t_grad p of None \<Rightarrow> Inl Undefined_behaviour | Some g \<Rightarrow> Inr (tslice (sv_from v) (sv_to v) g))
     else Inr (tslice (sv_from v) (sv_to v) (t_data p)))"

section \<open>Pieces\<close>

lemma tslice_append:
  assumes "0 \<le> a" "a \<le> b" "b \<le> c"
  shows "tslice a b xs @ tslice b c xs = tslice a c xs"
proof -
  have "nat (c - a) = nat (b - a) + nat (c - b)" "nat b = nat (b - a) + nat a" using assms by linarith+
  then show ?thesis by (simp add: tslice_def take_add drop_drop add.commute)
qed

lemma tslice_length: "0 \<le> a \<Longrightarrow> a \<le> b \<Longrightarrow> b \<le> int (length xs) \<Longrightarrow> length (tslice a b xs) = nat (b - a)"
  by (simp add: tslice_def)

lemma seg_loop_length [simp]: "length (seg_loop k n seg offset) = k"
  by (induction k arbitrary: offset) (simp_all add: Let_def)

lemma seg_loop_piece:
  assumes "0 \<le> seg" "0 \<le> offset" "offset \<le> n" "(a, s) \<in> set (seg_loop k n seg offset)"
  shows "0 \<le> a \<and> 0 \<le> s \<and> s \<le> seg \<and> a + s \<le> n"
  using assms
proof (induction k arbitrary: offset)
  case (Suc k)
  have "0 \<le> min (n - offset) seg" "min (n - offset) seg \<le> seg" "offset + min (n - offset) seg \<le> n" using Suc.prems by simp_all
  then show ?case using Suc.IH [of "offset + min (n - offset) seg"] Suc.prems by (auto simp: Let_def)
qed simp

lemma seg_loop_covers:
  assumes "0 \<le> seg" "0 \<le> offset" "offset \<le> int (length xs)"
  shows "concat (map (\<lambda>(a, s). tslice a (a + s) xs) (seg_loop k (int (length xs)) seg offset)) =
    tslice offset (min (int (length xs)) (offset + int k * seg)) xs"
  using assms
proof (induction k arbitrary: offset)
  case 0
  then show ?case by (simp add: tslice_def)
next
  case (Suc k)
  let ?s = "min (int (length xs) - offset) seg"
  have s: "0 \<le> ?s" "offset + ?s \<le> int (length xs)" using Suc.prems by simp_all
  have nn: "0 \<le> int k * seg" using Suc.prems(1) by simp
  have "min (int (length xs)) (offset + ?s + int k * seg) = min (int (length xs)) (offset + int (Suc k) * seg)"
    using nn by (simp add: algebra_simps min_def)
  moreover have "tslice offset (offset + ?s) xs @ tslice (offset + ?s) (min (int (length xs)) (offset + ?s + int k * seg)) xs =
      tslice offset (min (int (length xs)) (offset + ?s + int k * seg)) xs"
    by (rule tslice_append) (use Suc.prems s nn in auto)
  ultimately show ?case using Suc.IH [of "offset + ?s"] Suc.prems s by (simp add: Let_def)
qed

text \<open>The parts that the ranks keep: a piece, filled up with zeros to the segment size.\<close>

definition part_of_piece :: "int \<Rightarrow> 'a list \<Rightarrow> int \<times> int \<Rightarrow> ('a :: zero) list" where
  "part_of_piece seg xs = (\<lambda>(a, s). tslice a (a + s) xs @ replicate (nat (seg - s)) 0)"

lemma parts_cover:
  assumes "0 \<le> seg" "0 \<le> offset" "offset \<le> int (length xs)" "int (length xs) \<le> offset + int k * seg"
  shows "take (nat (int (length xs) - offset)) (concat (map (part_of_piece seg xs) (seg_loop k (int (length xs)) seg offset))) =
    tslice offset (int (length xs)) xs"
  using assms
proof (induction k arbitrary: offset)
  case 0
  then show ?case by (simp add: tslice_def)
next
  case (Suc k)
  let ?n = "int (length xs)"
  show ?case
  proof (cases "seg \<le> ?n - offset")
    case True
    have "take (nat (?n - (offset + seg))) (concat (map (part_of_piece seg xs) (seg_loop k ?n seg (offset + seg)))) = tslice (offset + seg) ?n xs"
      by (rule Suc.IH) (use Suc.prems True in \<open>simp_all add: algebra_simps\<close>)
    moreover have "length (tslice offset (offset + seg) xs) = nat seg" using tslice_length [of offset "offset + seg" xs] Suc.prems True by simp
    moreover have "nat (?n - offset) - nat seg = nat (?n - (offset + seg))" "nat seg \<le> nat (?n - offset)" using True Suc.prems by linarith+
    moreover have "tslice offset (offset + seg) xs @ tslice (offset + seg) ?n xs = tslice offset ?n xs"
      by (rule tslice_append) (use Suc.prems True in simp_all)
    moreover have "min (?n - offset) seg = seg" using True by simp
    ultimately show ?thesis by (simp add: Let_def part_of_piece_def)
  next
    case False
    then have "length (tslice offset ?n xs) = nat (?n - offset)" using tslice_length [of offset ?n xs] Suc.prems by simp
    then show ?thesis using False by (simp add: Let_def part_of_piece_def min_def)
  qed
qed

lemma ceil_div_covers: "0 < k \<Longrightarrow> n \<le> k * ceil_div n k"
proof -
  assume k: "0 < k"
  have "k * (- n div k) \<le> - n" using k minus_mod_eq_mult_div [of "- n" k] pos_mod_sign [of k "- n"] by linarith
  then show ?thesis by (simp add: ceil_div_def)
qed

lemma ceil_div_nonneg_num: "0 \<le> n \<Longrightarrow> 0 < k \<Longrightarrow> 0 \<le> ceil_div n k"
  by (simp add: ceil_div_def div_nonpos_pos_le0)

section \<open>Registration\<close>

definition pieces_of :: "'a tensor \<Rightarrow> int set \<Rightarrow> (int \<times> int) list" where
  "pieces_of p ranks = seg_loop (card ranks) (numel p) (ceil_div (numel p) (int (card ranks))) 0"

definition unregistered :: "int \<Rightarrow> 'z locator_scheme \<Rightarrow> bool" where
  "unregistered pid l \<longleftrightarrow> um_get (seg_offsets l) pid = None \<and> um_get (seg_src_sizes l) pid = None"

lemma rank_index_nth: "distinct xs \<Longrightarrow> k < length xs \<Longrightarrow> rank_index (xs ! k) i xs = Inr (i + int k)"
proof (induction xs arbitrary: k i)
  case (Cons x xs)
  then show ?case by (cases k) auto
qed simp

lemma getLocalRank_nth:
  assumes "finite ranks" "k < card ranks"
  shows "getLocalRank ranks (sorted_list_of_set ranks ! k) = Inr (int k)"
  unfolding getLocalRank_def using rank_index_nth [of "sorted_list_of_set ranks" k 0] assms by simp

lemma doRegister_result:
  assumes run: "doRegister h r root pid p ranks (tm, l) = Inr (u, tm', l')" and l: "unregistered pid l"
  shows "um_get (seg_offsets l') pid = Some (map fst (pieces_of p ranks))" "um_get (seg_src_sizes l') pid = Some (map snd (pieces_of p ranks))"
    "um_get (seg_sizes l') pid = Some (ceil_div (numel p) (int (card ranks)))" "um_get (seg_ranks l') pid = Some ranks"
    "um_get (seg_ir_types l') pid = Some (t_type p)" "ranks \<noteq> {}" "\<exists>i. getLocalRank ranks r = Inr i \<and> um_get (seg_my_indices l') pid = Some i"
    "locator.more l' = locator.more l"
proof -
  let ?seg = "ceil_div (numel p) (int (card ranks))"
  let ?l1 = "l\<lparr>seg_offsets := um_set pid (map fst (pieces_of p ranks)) (seg_offsets l), seg_src_sizes := um_set pid (map snd (pieces_of p ranks)) (seg_src_sizes l),
    seg_sizes := um_set pid ?seg (seg_sizes l), seg_ranks := um_set pid ranks (seg_ranks l),
    seg_global_to_local := um_set root pid (seg_global_to_local l), seg_ir_types := um_set pid (t_type p) (seg_ir_types l)\<rparr>"
  have ne: "ranks \<noteq> {}" using run by (auto simp: doRegister_def)
  have app: "um_ref [] (seg_offsets l) pid = []" "um_ref [] (seg_src_sizes l) pid = []" using l by (simp_all add: unregistered_def um_ref_def)
  obtain i where i: "getLocalRank ranks r = Inr i" and l': "l' = ?l1\<lparr>seg_my_indices := um_set pid i (seg_my_indices ?l1)\<rparr>"
    using run ne unfolding doRegister_def case_prod_conv Let_def app pieces_of_def [symmetric]
    by (auto simp: rbind_eq_Inr)
  show "um_get (seg_offsets l') pid = Some (map fst (pieces_of p ranks))" "um_get (seg_src_sizes l') pid = Some (map snd (pieces_of p ranks))"
    "um_get (seg_sizes l') pid = Some ?seg" "um_get (seg_ranks l') pid = Some ranks"
    "um_get (seg_ir_types l') pid = Some (t_type p)" "locator.more l' = locator.more l" by (simp_all add: l' um_get_set)
  show "ranks \<noteq> {}" by (rule ne)
  show "\<exists>i. getLocalRank ranks r = Inr i \<and> um_get (seg_my_indices l') pid = Some i" using i by (simp add: l' um_get_set)
qed

lemma pieces_of_nth:
  assumes "finite ranks" "ranks \<noteq> {}" "i < card ranks"
  obtains a s where "pieces_of p ranks ! i = (a, s)" "0 \<le> a" "0 \<le> s" "s \<le> ceil_div (numel p) (int (card ranks))" "a + s \<le> numel p"
proof -
  obtain a s where as: "pieces_of p ranks ! i = (a, s)" by (cases "pieces_of p ranks ! i")
  have "0 < int (card ranks)" using assms by (simp add: card_gt_0_iff)
  then have "0 \<le> ceil_div (numel p) (int (card ranks))" by (intro ceil_div_nonneg_num) (simp_all add: numel_def)
  moreover have "(a, s) \<in> set (pieces_of p ranks)" using as assms(3) nth_mem [of i "pieces_of p ranks"] by (simp add: pieces_of_def)
  ultimately show ?thesis using seg_loop_piece [of "ceil_div (numel p) (int (card ranks))" 0 "numel p" a s "card ranks"] that [OF as]
    by (simp add: pieces_of_def numel_def)
qed

text \<open>
  C26. The segments of a parameter that was not registered before tile it: after the registration each rank's
  range lies within the parameter and holds at most the rounded-up share, every 32-bit index outside
  the ranks, negative or too large, is rejected, and the ranges put in a row are the parameter.
\<close>

theorem segments_tile:
  assumes run: "doRegister h r root pid p ranks (tm, l) = Inr (u, tm', l')" and l: "unregistered pid l"
    and ranks: "finite ranks" "card ranks < 2 ^ 31"
  shows "\<exists>range. (\<forall>i < card ranks. getSegmentRange l' pid (int i) = Inr (range i) \<and> 0 \<le> fst (range i) \<and> fst (range i) \<le> snd (range i) \<and>
      snd (range i) \<le> numel p \<and> snd (range i) - fst (range i) \<le> ceil_div (numel p) (int (card ranks))) \<and>
    (\<forall>i. - (2 ^ 31) \<le> i \<and> i < 2 ^ 31 \<and> (i < 0 \<or> int (card ranks) \<le> i) \<longrightarrow> getSegmentRange l' pid i = Inl Assertion_failed) \<and>
    concat (map (\<lambda>i. tslice (fst (range i)) (snd (range i)) (t_data p)) [0..<card ranks]) = t_data p"
proof -
  note reg = doRegister_result [OF run l]
  let ?ps = "pieces_of p ranks"
  let ?range = "\<lambda>i. (fst (?ps ! i), fst (?ps ! i) + snd (?ps ! i))"
  have len: "length ?ps = card ranks" by (simp add: pieces_of_def)
  have get: "getSegmentRange l' pid (int i) = Inr (?range i)" if i: "i < card ranks" for i
  proof -
    have "to_size (int i) = int i" using i ranks(2) by (intro to_size_id) simp_all
    then show ?thesis using reg(1,2) len i by (simp add: getSegmentRange_def um_contains_def um_at_def vec_at_def)
  qed
  have out: "getSegmentRange l' pid i = Inl Assertion_failed"
    if i: "- (2 ^ 31) \<le> i" "i < 2 ^ 31" "i < 0 \<or> int (card ranks) \<le> i" for i
  proof -
    have "to_size i = (if i < 0 then i + 2 ^ 64 else i)"
    proof (cases "i < 0")
      case True
      have "i mod 2 ^ 64 = (i + 2 ^ 64) mod 2 ^ 64" by simp
      also have "\<dots> = i + 2 ^ 64" using True i(1) by (intro mod_pos_pos_trivial) simp_all
      finally show ?thesis using True by (simp add: to_size_def)
    next
      case False
      then show ?thesis using i(2) by (simp add: to_size_id)
    qed
    then have "\<not> int (card ranks) > to_size i" using i ranks(2) by (auto split: if_splits)
    then show ?thesis using reg(1,2) len by (simp add: getSegmentRange_def um_contains_def um_at_def)
  qed
  have pos: "0 < int (card ranks)" using ranks(1) reg(6) by (simp add: card_gt_0_iff)
  have "concat (map (\<lambda>i. tslice (fst (?range i)) (snd (?range i)) (t_data p)) [0..<card ranks]) =
      concat (map (\<lambda>(a, s). tslice a (a + s) (t_data p)) ?ps)"
    by (rule arg_cong [where f = concat], rule nth_equalityI) (simp_all add: len case_prod_unfold)
  also have "\<dots> = tslice 0 (min (int (length (t_data p))) (0 + int (card ranks) * ceil_div (numel p) (int (card ranks)))) (t_data p)"
    unfolding pieces_of_def numel_def by (rule seg_loop_covers) (use ceil_div_nonneg_num [OF _ pos, of "int (length (t_data p))"] in simp_all)
  also have "\<dots> = t_data p" using ceil_div_covers [OF pos, of "numel p"] by (simp add: tslice_def numel_def)
  finally have all: "concat (map (\<lambda>i. tslice (fst (?range i)) (snd (?range i)) (t_data p)) [0..<card ranks]) = t_data p" .
  have "getSegmentRange l' pid (int i) = Inr (?range i) \<and> 0 \<le> fst (?range i) \<and> fst (?range i) \<le> snd (?range i) \<and>
      snd (?range i) \<le> numel p \<and> snd (?range i) - fst (?range i) \<le> ceil_div (numel p) (int (card ranks))" if i: "i < card ranks" for i
    by (rule pieces_of_nth [OF ranks(1) reg(6) i, of p]) (use get [of i] i in simp)
  with all out show ?thesis by (intro exI [of _ ?range]) blast
qed

section \<open>Storing and loading\<close>

definition can_tag :: "int set \<Rightarrow> TagMap \<Rightarrow> bool" where
  "can_tag ranks tm \<longleftrightarrow> tagmap_ok tm \<and> (lookup_tag tm (Ranks_key ranks) \<noteq> None \<or> \<not> {0..<RANNC_TAG_UB} \<subseteq> tags tm)"

lemma getRankSetTag_runs:
  assumes "can_tag ranks tm" "hash_ok h"
  obtains t tm' where "getRankSetTag h ranks tm = Inr (t, tm')" "lookup_tag tm' (Ranks_key ranks) = Some t" "tagmap_ok tm'"
  using get_tag_step [of tm h "Ranks_key ranks"] assms unfolding can_tag_def by (auto intro: that)

lemma getRankSetTag_known: "lookup_tag tm (Ranks_key ranks) = Some t \<Longrightarrow> getRankSetTag h ranks tm = Inr (t, tm)"
  by (simp add: getRankSetTag_def)

lemma doRegister_runs:
  assumes "finite ranks" "k < card ranks" "can_tag ranks tm" "hash_ok h"
  shows "\<exists>t tm' l'. doRegister h (sorted_list_of_set ranks ! k) root pid p ranks (tm, l) = Inr ((), tm', l') \<and>
    lookup_tag tm' (Ranks_key ranks) = Some t \<and> tagmap_ok tm'"
proof -
  obtain t tm' where t: "getRankSetTag h ranks tm = Inr (t, tm')" "lookup_tag tm' (Ranks_key ranks) = Some t" "tagmap_ok tm'"
    by (rule getRankSetTag_runs [OF assms(3,4)])
  have "ranks \<noteq> {}" using assms(2) by auto
  then show ?thesis using t getLocalRank_nth [OF assms(1,2)] by (simp add: doRegister_def Let_def)
qed

text \<open>The part that the rank at position \<open>k\<close> keeps.\<close>

definition part_tensor_of :: "'a tensor \<Rightarrow> int set \<Rightarrow> nat \<Rightarrow> ('a :: zero) tensor" where
  "part_tensor_of p ranks k = (let seg = ceil_div (numel p) (int (card ranks)) in
     \<lparr>t_type = createTensorType (tensor_elem_type (t_type p)) [seg] (requires_grad (t_type p)),
      t_data = part_of_piece seg (t_data p) (pieces_of p ranks ! k), t_grad = None\<rparr>)"

lemma torch_zeros_ok:
  "e \<noteq> TE_UNDEF \<Longrightarrow> (b \<longrightarrow> is_differentiable e) \<Longrightarrow>
   torch_zeros e n b = Inr \<lparr>t_type = createTensorType e [n] b, t_data = replicate (nat n) 0, t_grad = None\<rparr>"
  by (simp add: torch_zeros_def set_requires_grad_def createTensorType_def setRequiresGrad_def)

lemma store_result:
  assumes fin: "finite ranks" and k: "k < card ranks" and tag: "can_tag ranks tm" "hash_ok h" and l: "unregistered pid l"
    and ty: "t_type p = createTensorType e dim g" "e \<noteq> TE_UNDEF" "g \<longrightarrow> is_differentiable e"
  shows "\<exists>tm' l'. store h ranks (sorted_list_of_set ranks ! k) root pid p (tm, l) = Inr ((), tm', l') \<and>
    (\<exists>t. lookup_tag tm' (Ranks_key ranks) = Some t) \<and> tagmap_ok tm' \<and>
    um_get (param_parts l') pid = Some (part_tensor_of p ranks k) \<and>
    um_get (seg_sizes l') pid = Some (ceil_div (numel p) (int (card ranks))) \<and> um_get (seg_ranks l') pid = Some ranks \<and>
    um_get (seg_ir_types l') pid = Some (t_type p) \<and>
    um_get (seg_offsets l') pid = Some (map fst (pieces_of p ranks)) \<and> um_get (seg_src_sizes l') pid = Some (map snd (pieces_of p ranks))"
proof -
  let ?r = "sorted_list_of_set ranks ! k"
  have loc: "getLocalRank ranks ?r = Inr (int k)" by (rule getLocalRank_nth [OF fin k])
  have ne: "ranks \<noteq> {}" using k by auto
  obtain t tm1 l1 where reg: "doRegister h ?r root pid p ranks (tm, l) = Inr ((), tm1, l1)"
    and t: "lookup_tag tm1 (Ranks_key ranks) = Some t" "tagmap_ok tm1"
    using doRegister_runs [OF fin k tag, of root pid p l] by blast
  note res = doRegister_result [OF reg l]
  obtain a s where as: "pieces_of p ranks ! k = (a, s)" "0 \<le> a" "0 \<le> s" "s \<le> ceil_div (numel p) (int (card ranks))" "a + s \<le> numel p"
    by (rule pieces_of_nth [OF fin ne k])
  have len: "length (pieces_of p ranks) = card ranks" by (simp add: pieces_of_def)
  let ?seg = "ceil_div (numel p) (int (card ranks))"
  have "0 < int (card ranks)" using k by simp
  then have seg: "0 \<le> ?seg" by (intro ceil_div_nonneg_num) (simp_all add: numel_def)
  have zeros: "torch_zeros (tensor_elem_type (t_type p)) ?seg (requires_grad (t_type p)) =
      Inr \<lparr>t_type = createTensorType e [?seg] g, t_data = replicate (nat ?seg) (0 :: 'a), t_grad = None\<rparr>"
    using torch_zeros_ok [OF ty(2,3)] by (simp add: ty(1) createTensorType_def)
  have part: "part_tensor_of p ranks k =
      (let z = \<lparr>t_type = createTensorType e [?seg] g, t_data = replicate (nat ?seg) (0 :: 'a), t_grad = None\<rparr> in
       if 0 < s then z\<lparr>t_data := tslice a (a + s) (t_data p) @ drop (nat s) (t_data z)\<rparr> else z)"
  proof -
    have "nat ?seg - nat s = nat (?seg - s)" using as(3) seg by (simp add: nat_diff_distrib)
    moreover have "tslice a (a + s) (t_data p) = []" if "s = 0" using that by (simp add: tslice_def)
    ultimately show ?thesis using as(3) seg
      by (auto simp: part_tensor_of_def Let_def as(1) part_of_piece_def ty(1) createTensorType_def)
  qed
  show ?thesis
    using res len k as(1) part t zeros by (simp add: store_def sbind_def reg um_at_def loc vec_at_def Let_def um_get_set)
qed

text \<open>A load sets the gradient flag of the part it sends.\<close>

definition flagged :: "int \<Rightarrow> 'a param_locator \<Rightarrow> 'a param_locator" where
  "flagged pid l = (let part = the (um_get (param_parts l) pid) in
     l\<lparr>param_parts := um_set pid (part\<lparr>t_type := setRequiresGrad True (t_type part)\<rparr>) (param_parts l)\<rparr>)"

text \<open>
  C16. A parameter of a floating type that is stored in segments comes back whole: when every rank has stored
  its segment, at its own locator where the parameter was not registered before, and the collective gather
  puts the parts of the ranks in a row in the order of the ranks, every rank loads the elements, the element
  type and the dimensions that were stored, whatever the number of elements left over; the loaded tensor does
  not require a gradient, and the kept part is left with its gradient flag set. A parameter of any other type
  can be stored, but every load of it throws.
\<close>

theorem store_load:
  fixes p :: "('a :: zero) tensor"
  assumes ranks: "finite ranks" and ready: "\<forall>k < card ranks. can_tag ranks (tm k) \<and> unregistered pid (l k)" and h: "hash_ok h"
    and ty: "t_type p = createTensorType e dim g" "e \<noteq> TE_UNDEF" "g \<longrightarrow> is_differentiable e"
    and shape: "productDim dim = word_of_int (numel p)" "numel p < 2 ^ 63"
  shows "\<exists>tm' l'. (\<forall>k < card ranks. store h ranks (sorted_list_of_set ranks ! k) root pid p (tm k, l k) = Inr ((), tm' k, l' k)) \<and>
    (\<forall>k < card ranks. load h ranks (\<lambda>_. concat (map (\<lambda>j. t_data (the (um_get (param_parts (l' j)) pid))) [0..<card ranks])) pid (tm' k, l' k) =
      (if is_differentiable e
       then Inr (\<lparr>t_type = createTensorType e dim False, t_data = t_data p, t_grad = None\<rparr>, tm' k, flagged pid (l' k))
       else Inl Runtime_error))"
proof -
  let ?seg = "ceil_div (numel p) (int (card ranks))"
  let ?stored = "\<lambda>k tl. store h ranks (sorted_list_of_set ranks ! k) root pid p (tm k, l k) = Inr ((), tl) \<and>
    (\<exists>t. lookup_tag (fst tl) (Ranks_key ranks) = Some t) \<and> um_get (param_parts (snd tl)) pid = Some (part_tensor_of p ranks k) \<and>
    um_get (seg_sizes (snd tl)) pid = Some ?seg \<and> um_get (seg_ranks (snd tl)) pid = Some ranks \<and> um_get (seg_ir_types (snd tl)) pid = Some (t_type p)"
  have "\<exists>tl. ?stored k tl" if k: "k < card ranks" for k
    using store_result [OF ranks k conjunct1 [OF ready [rule_format, OF k]] h conjunct2 [OF ready [rule_format, OF k]] ty, of root] by auto
  then obtain f where f: "?stored k (f k)" if "k < card ranks" for k by metis
  let ?all = "concat (map (\<lambda>j. t_data (the (um_get (param_parts (snd (f j))) pid))) [0..<card ranks])"
  have parts: "?all = concat (map (part_of_piece ?seg (t_data p)) (pieces_of p ranks))"
    by (rule arg_cong [where f = concat], rule nth_equalityI) (use f in \<open>simp_all add: pieces_of_def part_tensor_of_def Let_def\<close>)
  have data: "tslice 0 (uint (productDim dim)) ?all = t_data p" if "0 < card ranks"
  proof -
    have pos: "0 < int (card ranks)" using that by simp
    have "uint (productDim dim) = int (length (t_data p))"
      unfolding shape(1) uint_word_of_int using shape(2) by (simp add: numel_def)
    moreover have "take (nat (int (length (t_data p)) - 0)) ?all = tslice 0 (int (length (t_data p))) (t_data p)"
      unfolding parts pieces_of_def numel_def
      by (rule parts_cover) (use ceil_div_nonneg_num [OF _ pos, of "numel p"] ceil_div_covers [OF pos, of "numel p"] in \<open>simp_all add: numel_def\<close>)
    ultimately show ?thesis by (simp add: tslice_def)
  qed
  have "load h ranks (\<lambda>_. ?all) pid (f k) =
      (if is_differentiable e
       then Inr (\<lparr>t_type = createTensorType e dim False, t_data = t_data p, t_grad = None\<rparr>, fst (f k), flagged pid (snd (f k)))
       else Inl Runtime_error)"
    if k: "k < card ranks" for k
  proof -
    obtain t where t: "lookup_tag (fst (f k)) (Ranks_key ranks) = Some t" using f [OF k] by blast
    have n: "of_nat (length (t_data p)) = productDim dim" using shape by (simp add: numel_def)
    have "card ranks > 0" using k by simp
    note d = data [OF this]
    have type: "tensor_elem_type (t_type p) = e" "tensor_dim (t_type p) = dim" "requires_grad (t_type (part_tensor_of p ranks k)) = g"
      by (simp_all add: ty(1) createTensorType_def part_tensor_of_def Let_def)
    have "tensor_elem_type (t_type (part_tensor_of p ranks k)) = e" by (simp add: ty(1) createTensorType_def part_tensor_of_def Let_def)
    then have flag: "set_requires_grad False (part_tensor_of p ranks k) = Inr ((part_tensor_of p ranks k)\<lparr>t_type := setRequiresGrad False (t_type (part_tensor_of p ranks k))\<rparr>)"
      "set_requires_grad True ((part_tensor_of p ranks k)\<lparr>t_type := setRequiresGrad False (t_type (part_tensor_of p ranks k))\<rparr>) =
        (if is_differentiable e then Inr ((part_tensor_of p ranks k)\<lparr>t_type := setRequiresGrad True (t_type (part_tensor_of p ranks k))\<rparr>) else Inl Runtime_error)"
      by (simp_all add: set_requires_grad_def setRequiresGrad_def)
    show ?thesis
      using f [OF k] getRankSetTag_known [OF t, of h] n d
      by (cases "f k") (simp add: load_def um_contains_def um_at_def Let_def type flag flagged_def torch_zeros_ok [OF ty(2,3)])
  qed
  with f show ?thesis by (intro exI [of _ "\<lambda>k. fst (f k)"] exI [of _ "\<lambda>k. snd (f k)"]) simp
qed

text \<open>
  A parameter that was stored and removed cannot be stored again: \<open>remove\<close> keeps the offsets and sizes, the
  next registration appends to them, and the check that there is one per rank fails.
\<close>

lemma store_again_fails:
  assumes "finite ranks" "k < card ranks" "can_tag ranks tm" "hash_ok h" "unregistered pid l"
    and "t_type p = createTensorType e dim g" "e \<noteq> TE_UNDEF" "g \<longrightarrow> is_differentiable e"
  shows "\<exists>tm' l'. store h ranks (sorted_list_of_set ranks ! k) root pid p (tm, l) = Inr ((), tm', l') \<and>
    store h ranks (sorted_list_of_set ranks ! k) root pid q (tm', remove_param pid l') = Inl Assertion_failed"
proof -
  obtain tm' l' t where s: "store h ranks (sorted_list_of_set ranks ! k) root pid p (tm, l) = Inr ((), tm', l')"
    "lookup_tag tm' (Ranks_key ranks) = Some t"
    "um_get (seg_offsets l') pid = Some (map fst (pieces_of p ranks))" "um_get (seg_src_sizes l') pid = Some (map snd (pieces_of p ranks))"
    using store_result [OF assms, of root] by blast
  have "ranks \<noteq> {}" using assms(2) by auto
  moreover have "length (pieces_of p ranks) = card ranks" by (simp add: pieces_of_def)
  ultimately have "store h ranks (sorted_list_of_set ranks ! k) root pid q (tm', remove_param pid l') = Inl Assertion_failed"
    using getLocalRank_nth [OF assms(1,2)] getRankSetTag_known [OF s(2), of h] s(3,4) assms(2)
    by (simp add: store_def doRegister_def Let_def sbind_def remove_param_def remove_base_def um_get_set um_ref_def um_at_def)
  with s(1) show ?thesis by blast
qed

definition demo_tensor :: "int tensor" where
  "demo_tensor = \<lparr>t_type = createTensorType TE_FLOAT [2, 5] True, t_data = [1, 2, 3, 4, 5, 6, 7, 8, 9, 10], t_grad = None\<rparr>"

lemma demo_ranks: "finite {3, 5, 9, 11 :: int}" "card {3, 5, 9, 11 :: int} = 4" "sorted_list_of_set {3, 5, 9, 11 :: int} = [3, 5, 9, 11]"
  by simp_all

lemma new_ready: "can_tag ranks new_TagMap" "unregistered pid new_locator" "unregistered pid new_param_locator"
  by (simp_all add: can_tag_def new_TagMap_ok(1) unregistered_def new_locator_def new_param_locator_def locator.extend_def)
    (simp add: new_TagMap_def RANNC_TAG_UB_def)

lemma collides: "hash_ok colliding_hash"
  by (simp add: hash_ok_def colliding_hash_def)

theorem segments_tile_witness:
  "\<exists>tm' l' range. doRegister colliding_hash 9 7 7 demo_tensor {3, 5, 9, 11} (new_TagMap, new_locator) = Inr ((), tm', l') \<and>
     getSegmentRange l' 7 4 = Inl Assertion_failed \<and> getSegmentRange l' 7 (- 1) = Inl Assertion_failed \<and> (\<forall>i < 4. getSegmentRange l' 7 (int i) = Inr (range i)) \<and>
     concat (map (\<lambda>i. tslice (fst (range i)) (snd (range i)) [1, 2, 3, 4, 5, 6, 7, 8, 9, 10 :: int]) [0..<4]) = [1, 2, 3, 4, 5, 6, 7, 8, 9, 10]"
proof -
  let ?ranks = "{3, 5, 9, 11 :: int}"
  obtain tm' l' where run: "doRegister colliding_hash (sorted_list_of_set ?ranks ! 2) 7 7 demo_tensor ?ranks (new_TagMap, new_locator) = Inr ((), tm', l')"
    using doRegister_runs [OF demo_ranks(1) _ new_ready(1) collides, of 2 7 7 demo_tensor new_locator] unfolding demo_ranks(2) by auto
  have "card ?ranks < 2 ^ 31" unfolding demo_ranks(2) by simp
  from segments_tile [OF run new_ready(2) demo_ranks(1) this]
  obtain range where range: "\<forall>i < 4. getSegmentRange l' 7 (int i) = Inr (range i)"
    "\<forall>i. - (2 ^ 31) \<le> i \<and> i < 2 ^ 31 \<and> (i < 0 \<or> int 4 \<le> i) \<longrightarrow> getSegmentRange l' 7 i = Inl Assertion_failed"
    "concat (map (\<lambda>i. tslice (fst (range i)) (snd (range i)) (t_data demo_tensor)) [0..<4]) = t_data demo_tensor"
    unfolding demo_ranks(2) by blast
  have out: "getSegmentRange l' 7 4 = Inl Assertion_failed" "getSegmentRange l' 7 (- 1) = Inl Assertion_failed"
    using range(2) by simp_all
  have data: "t_data demo_tensor = [1, 2, 3, 4, 5, 6, 7, 8, 9, 10]" by (simp add: demo_tensor_def)
  have "[3, 5, 9, 11 :: int] ! 2 = 9" by simp
  then have "doRegister colliding_hash 9 7 7 demo_tensor ?ranks (new_TagMap, new_locator) = Inr ((), tm', l')"
    using run unfolding demo_ranks(3) by simp
  with range(1,3) out show ?thesis unfolding data by blast
qed

theorem store_load_witness:
  "\<exists>tm' l'. (\<forall>k < 4. store colliding_hash {3, 5, 9, 11} ([3, 5, 9, 11] ! k) 7 7 demo_tensor (new_TagMap, new_param_locator) = Inr ((), tm' k, l' k)) \<and>
     load colliding_hash {3, 5, 9, 11} (\<lambda>_. concat (map (\<lambda>j. t_data (the (um_get (param_parts (l' j)) 7))) [0..<4])) 7 (tm' 2, l' 2) =
       Inr (\<lparr>t_type = createTensorType TE_FLOAT [2, 5] False, t_data = [1, 2, 3, 4, 5, 6, 7, 8, 9, 10], t_grad = None\<rparr>, tm' 2, flagged 7 (l' 2))"
proof -
  let ?ranks = "{3, 5, 9, 11 :: int}"
  have ty: "t_type demo_tensor = createTensorType TE_FLOAT [2, 5] True" "TE_FLOAT \<noteq> TE_UNDEF" "True \<longrightarrow> is_differentiable TE_FLOAT"
    by (simp_all add: demo_tensor_def is_differentiable_def)
  have shape: "productDim [2, 5] = word_of_int (numel demo_tensor)" "numel demo_tensor < 2 ^ 63"
    by (simp_all add: demo_tensor_def productDim_def numel_def)
  have ready: "\<forall>k < card ?ranks. can_tag ?ranks new_TagMap \<and> unregistered 7 (new_param_locator :: int param_locator)"
    using new_ready by blast
  from store_load [where tm = "\<lambda>_. new_TagMap" and l = "\<lambda>_. new_param_locator" and root = 7 and pid = 7, OF demo_ranks(1) ready collides ty shape]
  obtain tm' l' where r: "\<forall>k < 4. store colliding_hash ?ranks ([3, 5, 9, 11] ! k) 7 7 demo_tensor (new_TagMap, new_param_locator) = Inr ((), tm' k, l' k)"
    "\<forall>k < 4. load colliding_hash ?ranks (\<lambda>_. concat (map (\<lambda>j. t_data (the (um_get (param_parts (l' j)) 7))) [0..<4])) 7 (tm' k, l' k) =
      (if is_differentiable TE_FLOAT
       then Inr (\<lparr>t_type = createTensorType TE_FLOAT [2, 5] False, t_data = t_data demo_tensor, t_grad = None\<rparr>, tm' k, flagged 7 (l' k))
       else Inl Runtime_error)"
    unfolding demo_ranks(2,3) by blast
  have d: "t_data demo_tensor = [1, 2, 3, 4, 5, 6, 7, 8, 9, 10]" "is_differentiable TE_FLOAT" by (simp_all add: demo_tensor_def is_differentiable_def)
  have "(2 :: nat) < 4" by simp
  with r show ?thesis by (intro exI [of _ tm'] exI [of _ l']) (simp only: d refl simp_thms if_True)
qed

lemma store_again_fails_witness:
  "\<exists>tm' l'. store colliding_hash {3, 5, 9, 11} 9 7 7 demo_tensor (new_TagMap, new_param_locator) = Inr ((), tm', l') \<and>
     store colliding_hash {3, 5, 9, 11} 9 7 7 demo_tensor (tm', remove_param 7 l') = Inl Assertion_failed"
  using store_again_fails [OF demo_ranks(1) _ new_ready(1) collides new_ready(3), where k = 2 and root = 7 and pid = 7 and p = demo_tensor and q = demo_tensor
      and e = TE_FLOAT and dim = "[2, 5]" and g = True]
  unfolding demo_ranks(2,3) by (simp add: demo_tensor_def is_differentiable_def)

end
