(* ===== verification/Grad_Consolidation.thy ===== *)
theory Grad_Consolidation
  imports IR_Types
begin

text \<open>
  Gradients kept in one buffer per element type (\<open>class GradConsolidation\<close> of \<open>comp/ParamStorage.cpp\<close>).

  A tensor made by \<open>narrow\<close> is a view: the buffer, an offset and a number of elements; two tensors share
  their data when their views say so. A buffer is named by the place of the constructor that creates it,
  and \<open>gc_contents\<close> holds the elements of every buffer, so that swapping buffers moves names and writing
  through a view changes the contents. \<open>info\<close> gives the element type and the number of elements of a parameter,
  or the error of \<open>getParamTensor\<close>.
\<close>

section \<open>Buffers and views\<close>

datatype gbuf = Grad_buf IRTensorElemType | Master_buf IRTensorElemType | Next_buf

record gview =
  gv_buf :: gbuf
  gv_offset :: int
  gv_numel :: int

text \<open>A gradient that is defined: elements of its own, or a view of a buffer.\<close>

datatype 'a gref = Own "'a list" | View gview

record 'a gcons =
  gc_param_ids :: "int list"
  gc_grad_tensors :: "(int, gview) umap"
  gc_consolidated_grads :: "(IRTensorElemType, gbuf) umap"
  gc_amp_master_grad_tensors :: "(int, gview) umap"
  gc_consolidated_master_grads :: "(IRTensorElemType, gbuf) umap"
  gc_amp_fp32_next :: "gbuf option"
  gc_amp_grad_tensors_next :: "(int, gview) umap"
  gc_use_amp :: bool
  gc_consolidate_master :: bool
  gc_contents :: "(gbuf, 'a list) umap"

type_synonym param_info = "int \<Rightarrow> (IRTensorElemType \<times> int) res"

section \<open>Construction\<close>

text \<open>\<open>offsets\<close> is a map of maps in the code; here its key is the pair.\<close>

definition layout_step :: "param_info \<Rightarrow> int \<Rightarrow>
    (IRTensorElemType, int) umap \<times> (IRTensorElemType \<times> int, int) umap \<Rightarrow>
    ((IRTensorElemType, int) umap \<times> (IRTensorElemType \<times> int, int) umap) res" where
  "layout_step info pid = (\<lambda>(sums, offsets).
     rbind (info pid) (\<lambda>(stype, numel).
     rbind (rassert (stype = TE_FLOAT \<or> stype = TE_HALF \<or> stype = TE_BFLOAT16)) (\<lambda>_.
     let sum = um_ref 0 sums stype
     in Inr (um_set stype (sum + numel) sums, um_set (stype, pid) sum offsets))))"

definition alloc_buffer :: "IRTensorElemType \<times> int \<Rightarrow> ('a :: zero) gcons \<Rightarrow> 'a gcons" where
  "alloc_buffer = (\<lambda>(stype, total) gc.
     if gc_consolidate_master gc \<and> stype = TE_HALF
     then gc\<lparr>gc_consolidated_master_grads := um_set stype (Master_buf stype) (gc_consolidated_master_grads gc),
             gc_contents := um_set (Master_buf stype) (replicate (nat total) 0) (gc_contents gc)\<rparr>
     else gc\<lparr>gc_consolidated_grads := um_set stype (Grad_buf stype) (gc_consolidated_grads gc),
             gc_contents := um_set (Grad_buf stype) (replicate (nat total) 0) (gc_contents gc)\<rparr>)"

definition amp_fp32 :: "'a gcons \<Rightarrow> bool" where
  "amp_fp32 gc \<longleftrightarrow> gc_use_amp gc \<and> um_contains (gc_consolidated_grads gc) TE_FLOAT"

definition alloc_next :: "('a :: zero) gcons \<Rightarrow> 'a gcons res" where
  "alloc_next gc =
     (if amp_fp32 gc
      then rbind (um_at (gc_consolidated_grads gc) TE_FLOAT) (\<lambda>current.
           rbind (um_at (gc_contents gc) current) (\<lambda>xs.
           Inr (gc\<lparr>gc_amp_fp32_next := Some Next_buf, gc_contents := um_set Next_buf (replicate (length xs) 0) (gc_contents gc)\<rparr>)))
      else Inr gc)"

definition make_view :: "param_info \<Rightarrow> (IRTensorElemType \<times> int, int) umap \<Rightarrow> int \<Rightarrow> 'a gcons \<Rightarrow> 'a gcons res" where
  "make_view info offsets pid gc =
     rbind (info pid) (\<lambda>(stype, numel).
     let offset = um_ref 0 offsets (stype, pid) in
     if gc_consolidate_master gc \<and> stype = TE_HALF
     then rbind (um_at (gc_consolidated_master_grads gc) stype) (\<lambda>buf.
          Inr (gc\<lparr>gc_amp_master_grad_tensors := um_set pid \<lparr>gv_buf = buf, gv_offset = offset, gv_numel = numel\<rparr> (gc_amp_master_grad_tensors gc)\<rparr>))
     else rbind (um_at (gc_consolidated_grads gc) stype) (\<lambda>buf.
          let v = \<lparr>gv_buf = buf, gv_offset = offset, gv_numel = numel\<rparr>;
              gc1 = gc\<lparr>gc_grad_tensors := um_set pid v (gc_grad_tensors gc)\<rparr>
          in if stype = TE_FLOAT \<and> amp_fp32 gc
             then (case gc_amp_fp32_next gc of
                     None \<Rightarrow> Inl Assertion_failed
                   | Some next_buf \<Rightarrow> Inr (gc1\<lparr>gc_amp_grad_tensors_next := um_set pid (v\<lparr>gv_buf := next_buf\<rparr>) (gc_amp_grad_tensors_next gc1)\<rparr>))
             else Inr (gc1\<lparr>gc_amp_grad_tensors_next := um_set pid v (gc_amp_grad_tensors_next gc1)\<rparr>)))"

definition new_gcons :: "param_info \<Rightarrow> int list \<Rightarrow> bool \<Rightarrow> bool \<Rightarrow> ('a :: zero) gcons res" where
  "new_gcons info param_ids use_amp consolidate_master =
     rbind (rfold (layout_step info) param_ids ([], [])) (\<lambda>(sums, offsets).
     rbind (alloc_next (fold alloc_buffer sums
       \<lparr>gc_param_ids = param_ids, gc_grad_tensors = [], gc_consolidated_grads = [], gc_amp_master_grad_tensors = [],
        gc_consolidated_master_grads = [], gc_amp_fp32_next = None, gc_amp_grad_tensors_next = [], gc_use_amp = use_amp,
        gc_consolidate_master = consolidate_master, gc_contents = []\<rparr>)) (\<lambda>gc.
     rbind (rassert (param_ids \<noteq> [])) (\<lambda>_. rfold (make_view info offsets) param_ids gc)))"

section \<open>Consolidation\<close>

text \<open>Reading and writing through a view.\<close>

definition view_read :: "(gbuf, 'a list) umap \<Rightarrow> gview \<Rightarrow> 'a list" where
  "view_read m v = take (nat (gv_numel v)) (drop (nat (gv_offset v)) (um_ref [] m (gv_buf v)))"

definition overwrite :: "nat \<Rightarrow> 'a list \<Rightarrow> 'a list \<Rightarrow> 'a list" where
  "overwrite k ys xs = take k xs @ ys @ drop (k + length ys) xs"

definition view_write :: "gview \<Rightarrow> 'a list \<Rightarrow> (gbuf, 'a list) umap \<Rightarrow> (gbuf, 'a list) umap" where
  "view_write v ys m = um_set (gv_buf v) (overwrite (nat (gv_offset v)) ys (um_ref [] m (gv_buf v))) m"

definition gref_read :: "(gbuf, 'a list) umap \<Rightarrow> 'a gref \<Rightarrow> 'a list" where
  "gref_read m g = (case g of Own xs \<Rightarrow> xs | View v \<Rightarrow> view_read m v)"

text \<open>\<open>data_ptr\<close> of two tensors is the same: the same place of the same buffer.\<close>

definition same_data :: "'a gref \<Rightarrow> gview \<Rightarrow> bool" where
  "same_data g v = (case g of Own _ \<Rightarrow> False | View w \<Rightarrow> gv_buf w = gv_buf v \<and> gv_offset w = gv_offset v)"

definition swap_buffers :: "'a gcons \<Rightarrow> 'a gcons res" where
  "swap_buffers gc =
     (if amp_fp32 gc
      then rbind (um_at (gc_consolidated_grads gc) TE_FLOAT) (\<lambda>cons.
           case gc_amp_fp32_next gc of
             None \<Rightarrow> Inl Undefined_behaviour
           | Some next_buf \<Rightarrow>
               Inr (gc\<lparr>gc_amp_grad_tensors_next := gc_grad_tensors gc, gc_grad_tensors := gc_amp_grad_tensors_next gc,
                       gc_consolidated_grads := um_set TE_FLOAT next_buf (gc_consolidated_grads gc), gc_amp_fp32_next := Some cons\<rparr>))
      else Inr gc)"

text \<open>
  The gradients of the parameters and of their AMP master parameters, where they are defined;
  \<open>masters\<close> holds the parameters that have a master parameter.
\<close>

record 'a grads =
  gr_model :: "(int, 'a gref) umap"
  gr_master :: "(int, 'a gref) umap"

definition zeros :: "gview \<Rightarrow> ('a :: zero) list" where
  "zeros v = replicate (nat (gv_numel v)) 0"

text \<open>A gradient has as many elements as its parameter; copying another number of them fails.\<close>

definition consolidate_param :: "param_info \<Rightarrow> int set \<Rightarrow> int \<Rightarrow> ('a :: zero) gcons \<times> 'a grads \<Rightarrow> ('a gcons \<times> 'a grads) res" where
  "consolidate_param info masters pid = (\<lambda>(gc, gr).
     rbind (info pid) (\<lambda>(stype, numel).
     if gc_consolidate_master gc \<and> stype = TE_HALF
     then if pid \<notin> masters then Inl Invalid_argument
          else (case um_get (gr_master gr) pid of
                  Some _ \<Rightarrow> Inr (gc, gr)
                | None \<Rightarrow>
                    rbind (rassert (um_contains (gc_amp_master_grad_tensors gc) pid)) (\<lambda>_.
                    rbind (um_at (gc_amp_master_grad_tensors gc) pid) (\<lambda>v.
                    Inr (gc\<lparr>gc_contents := view_write v (zeros v) (gc_contents gc)\<rparr>, gr\<lparr>gr_master := um_set pid (View v) (gr_master gr)\<rparr>))))
     else rbind (um_at (gc_grad_tensors gc) pid) (\<lambda>con_grad.
          case um_get (gr_model gr) pid of
            Some grad \<Rightarrow>
              if same_data grad con_grad then Inr (gc, gr)
              else if length (gref_read (gc_contents gc) grad) \<noteq> nat (gv_numel con_grad) then Inl Runtime_error
              else Inr (gc\<lparr>gc_contents := view_write con_grad (gref_read (gc_contents gc) grad) (gc_contents gc)\<rparr>,
                        gr\<lparr>gr_model := um_set pid (View con_grad) (gr_model gr)\<rparr>)
          | None \<Rightarrow> Inr (gc\<lparr>gc_contents := view_write con_grad (zeros con_grad) (gc_contents gc)\<rparr>,
                         gr\<lparr>gr_model := um_set pid (View con_grad) (gr_model gr)\<rparr>))))"

definition consolidate :: "param_info \<Rightarrow> int set \<Rightarrow> ('a :: zero) gcons \<times> 'a grads \<Rightarrow> ('a gcons \<times> 'a grads) res" where
  "consolidate info masters = (\<lambda>(gc, gr).
     rbind (swap_buffers gc) (\<lambda>gc1. rfold (consolidate_param info masters) (gc_param_ids gc1) (gc1, gr)))"

definition getConsolidatedGrads :: "'a gcons \<Rightarrow> gbuf list" where
  "getConsolidatedGrads gc = map snd (gc_consolidated_grads gc) @ map snd (gc_consolidated_master_grads gc)"

section \<open>The layout\<close>

type_synonym shape = "int \<Rightarrow> IRTensorElemType \<times> int"

text \<open>The elements in front of a parameter, and all elements, of its element type.\<close>

primrec before :: "shape \<Rightarrow> int list \<Rightarrow> int \<Rightarrow> int" where
  "before f [] pid = 0"
| "before f (x # xs) pid = (if x = pid then 0 else (if fst (f x) = fst (f pid) then snd (f x) else 0) + before f xs pid)"

definition total_numel :: "shape \<Rightarrow> int list \<Rightarrow> IRTensorElemType \<Rightarrow> int" where
  "total_numel f ids e = sum_list (map (snd \<circ> f) (filter (\<lambda>x. fst (f x) = e) ids))"

text \<open>What a consolidation asks of its parameters.\<close>

definition shapes_ok :: "shape \<Rightarrow> int list \<Rightarrow> bool" where
  "shapes_ok f ids \<longleftrightarrow> distinct ids \<and> ids \<noteq> [] \<and>
     (\<forall>x \<in> set ids. 0 \<le> snd (f x) \<and> (fst (f x) = TE_FLOAT \<or> fst (f x) = TE_HALF \<or> fst (f x) = TE_BFLOAT16))"

lemma total_numel_simps [simp]:
  "total_numel f [] e = 0" "total_numel f (x # xs) e = (if fst (f x) = e then snd (f x) else 0) + total_numel f xs e"
  by (simp_all add: total_numel_def)

lemma total_numel_nonneg: "(\<And>x. x \<in> set ids \<Longrightarrow> 0 \<le> snd (f x)) \<Longrightarrow> 0 \<le> total_numel f ids e"
  by (induction ids) auto

lemma before_bounds:
  "(\<And>x. x \<in> set ids \<Longrightarrow> 0 \<le> snd (f x)) \<Longrightarrow> pid \<in> set ids \<Longrightarrow>
   0 \<le> before f ids pid \<and> before f ids pid + snd (f pid) \<le> total_numel f ids (fst (f pid))"
proof (induction ids)
  case (Cons x xs)
  then show ?case using total_numel_nonneg [of xs f "fst (f pid)"] by (cases "x = pid") auto
qed simp

text \<open>Places of parameters of one element type do not overlap.\<close>

lemma before_apart:
  "(\<And>x. x \<in> set ids \<Longrightarrow> 0 \<le> snd (f x)) \<Longrightarrow> p \<in> set ids \<Longrightarrow> q \<in> set ids \<Longrightarrow> p \<noteq> q \<Longrightarrow> fst (f p) = fst (f q) \<Longrightarrow>
   before f ids p + snd (f p) \<le> before f ids q \<or> before f ids q + snd (f q) \<le> before f ids p"
proof (induction ids)
  case (Cons x xs)
  show ?case
  proof (cases "x = p \<or> x = q")
    case True
    then show ?thesis using Cons.prems before_bounds [of xs f p] before_bounds [of xs f q] by auto
  next
    case False
    then show ?thesis using Cons.prems Cons.IH by auto
  qed
qed simp

lemma layout_run:
  assumes "\<And>x. x \<in> set ids \<Longrightarrow> info x = Inr (f x)" "distinct ids"
    and "\<And>x. x \<in> set ids \<Longrightarrow> fst (f x) = TE_FLOAT \<or> fst (f x) = TE_HALF \<or> fst (f x) = TE_BFLOAT16"
  shows "\<exists>sums' offs'. rfold (layout_step info) ids (sums, offs) = Inr (sums', offs') \<and>
    (um_ok sums \<longrightarrow> um_ok sums') \<and>
    (\<forall>e. um_get sums' e = (if e \<in> fst ` f ` set ids then Some (um_ref 0 sums e + total_numel f ids e) else um_get sums e)) \<and>
    (\<forall>pid \<in> set ids. um_get offs' (fst (f pid), pid) = Some (um_ref 0 sums (fst (f pid)) + before f ids pid)) \<and>
    (\<forall>pid. pid \<notin> set ids \<longrightarrow> (\<forall>e. um_get offs' (e, pid) = um_get offs (e, pid)))"
  using assms
proof (induction ids arbitrary: sums offs)
  case (Cons x xs)
  obtain e n where x: "f x = (e, n)" by fastforce
  let ?sums = "um_set e (um_ref 0 sums e + n) sums" and ?offs = "um_set (e, x) (um_ref 0 sums e) offs"
  have step: "layout_step info x (sums, offs) = Inr (?sums, ?offs)"
    using Cons.prems(1) [of x] Cons.prems(3) [of x] x by (auto simp: layout_step_def Let_def)
  from Cons.IH [of ?sums ?offs] Cons.prems obtain sums' offs' where run: "rfold (layout_step info) xs (?sums, ?offs) = Inr (sums', offs')"
    and ok: "um_ok ?sums \<longrightarrow> um_ok sums'"
    and s: "\<And>e'. um_get sums' e' = (if e' \<in> fst ` f ` set xs then Some (um_ref 0 ?sums e' + total_numel f xs e') else um_get ?sums e')"
    and o1: "\<And>pid. pid \<in> set xs \<Longrightarrow> um_get offs' (fst (f pid), pid) = Some (um_ref 0 ?sums (fst (f pid)) + before f xs pid)"
    and o2: "\<And>pid e'. pid \<notin> set xs \<Longrightarrow> um_get offs' (e', pid) = um_get ?offs (e', pid)"
    by auto
  have ref: "um_ref 0 (um_set e w sums) e' = (if e' = e then w else um_ref 0 sums e')" for e' w by (simp add: um_ref_def um_get_set)
  have "um_get offs' (fst (f pid), pid) = Some (um_ref 0 sums (fst (f pid)) + before f (x # xs) pid)" if "pid \<in> set (x # xs)" for pid
    using that Cons.prems(2) o1 [of pid] o2 [of pid "fst (f pid)"] x by (cases "pid = x") (auto simp: um_get_set ref)
  moreover have "total_numel f xs e' = 0" if "e' \<notin> fst ` f ` set xs" for e'
    using that by (induction xs) auto
  then have "um_get sums' e' = (if e' \<in> fst ` f ` set (x # xs) then Some (um_ref 0 sums e' + total_numel f (x # xs) e') else um_get sums e')" for e'
    using s [of e'] x by (auto simp: ref um_get_set)
  ultimately show ?case using step run ok o2 by (auto simp: um_get_set)
qed simp

section \<open>Reading and writing through views\<close>

lemma overwrite_length [simp]: "k + length ys \<le> length xs \<Longrightarrow> length (overwrite k ys xs) = length xs"
  by (simp add: overwrite_def)

lemma overwrite_nth: "k + length ys \<le> length xs \<Longrightarrow> i < length xs \<Longrightarrow>
    overwrite k ys xs ! i = (if k \<le> i \<and> i < k + length ys then ys ! (i - k) else xs ! i)"
  by (auto simp: overwrite_def nth_append min_def)

lemma overwrite_same: "k + length ys \<le> length xs \<Longrightarrow> take (length ys) (drop k (overwrite k ys xs)) = ys"
  by (rule nth_equalityI) (simp_all add: overwrite_nth)

lemma overwrite_other:
  "k + length ys \<le> length xs \<Longrightarrow> j + n \<le> k \<or> k + length ys \<le> j \<Longrightarrow> j + n \<le> length xs \<Longrightarrow>
   take n (drop j (overwrite k ys xs)) = take n (drop j xs)"
  by (rule nth_equalityI) (auto simp: overwrite_nth)

section \<open>What construction gives\<close>

text \<open>\<open>c\<close> is the buffer that the single precision gradients use now; with AMP there are two, and they swap.\<close>

definition buf_of :: "gbuf \<Rightarrow> IRTensorElemType \<Rightarrow> gbuf" where
  "buf_of c e = (if e = TE_FLOAT then c else Grad_buf e)"

definition other_buf :: "gbuf \<Rightarrow> gbuf" where
  "other_buf c = (if c = Next_buf then Grad_buf TE_FLOAT else Next_buf)"

definition view_of :: "shape \<Rightarrow> int list \<Rightarrow> gbuf \<Rightarrow> int \<Rightarrow> gview" where
  "view_of f ids b pid = \<lparr>gv_buf = b, gv_offset = before f ids pid, gv_numel = snd (f pid)\<rparr>"

definition in_master :: "shape \<Rightarrow> 'a gcons \<Rightarrow> int \<Rightarrow> bool" where
  "in_master f gc pid \<longleftrightarrow> gc_consolidate_master gc \<and> fst (f pid) = TE_HALF"

definition has_buf :: "shape \<Rightarrow> int list \<Rightarrow> 'a gcons \<Rightarrow> gbuf \<Rightarrow> IRTensorElemType \<Rightarrow> bool" where
  "has_buf f ids gc b e \<longleftrightarrow> int (length (um_ref [] (gc_contents gc) b)) = total_numel f ids e"

definition gcons_ok :: "shape \<Rightarrow> int list \<Rightarrow> gbuf \<Rightarrow> 'a gcons \<Rightarrow> bool" where
  "gcons_ok f ids c gc \<longleftrightarrow>
     gc_param_ids gc = ids \<and> (c = Grad_buf TE_FLOAT \<or> c = Next_buf \<and> gc_use_amp gc) \<and>
     (\<forall>pid \<in> set ids. if in_master f gc pid
        then um_get (gc_amp_master_grad_tensors gc) pid = Some (view_of f ids (Master_buf TE_HALF) pid) \<and> has_buf f ids gc (Master_buf TE_HALF) TE_HALF
        else um_get (gc_grad_tensors gc) pid = Some (view_of f ids (buf_of c (fst (f pid))) pid) \<and>
          um_get (gc_amp_grad_tensors_next gc) pid =
            Some (view_of f ids (if fst (f pid) = TE_FLOAT \<and> gc_use_amp gc then other_buf c else buf_of c (fst (f pid))) pid) \<and>
          has_buf f ids gc (buf_of c (fst (f pid))) (fst (f pid)) \<and>
          (fst (f pid) = TE_FLOAT \<and> gc_use_amp gc \<longrightarrow> has_buf f ids gc (other_buf c) TE_FLOAT)) \<and>
     (\<forall>e. um_get (gc_consolidated_grads gc) e = (if \<exists>pid \<in> set ids. \<not> in_master f gc pid \<and> fst (f pid) = e then Some (buf_of c e) else None)) \<and>
     gc_amp_fp32_next gc = (if amp_fp32 gc then Some (other_buf c) else None)"

text \<open>The buffers, one for each element type.\<close>

lemma alloc_one [simp]:
  "gc_consolidate_master (alloc_buffer s gc) = gc_consolidate_master gc" "gc_use_amp (alloc_buffer s gc) = gc_use_amp gc"
  "gc_param_ids (alloc_buffer s gc) = gc_param_ids gc" "gc_amp_fp32_next (alloc_buffer s gc) = gc_amp_fp32_next gc"
  "gc_grad_tensors (alloc_buffer s gc) = gc_grad_tensors gc" "gc_amp_master_grad_tensors (alloc_buffer s gc) = gc_amp_master_grad_tensors gc"
  by (simp_all add: alloc_buffer_def split: prod.split)

lemma alloc_fields [simp]:
  "gc_consolidate_master (fold alloc_buffer sums gc) = gc_consolidate_master gc" "gc_use_amp (fold alloc_buffer sums gc) = gc_use_amp gc"
  "gc_param_ids (fold alloc_buffer sums gc) = gc_param_ids gc" "gc_amp_fp32_next (fold alloc_buffer sums gc) = gc_amp_fp32_next gc"
  by (induction sums arbitrary: gc) simp_all

lemma alloc_grads: "um_get (gc_consolidated_grads (fold alloc_buffer sums gc)) e =
    (if e \<in> fst ` set sums \<and> \<not> (gc_consolidate_master gc \<and> e = TE_HALF) then Some (Grad_buf e) else um_get (gc_consolidated_grads gc) e)"
proof (induction sums arbitrary: gc e)
  case (Cons s sums)
  have "um_get (gc_consolidated_grads (alloc_buffer s gc)) e =
      (if e = fst s \<and> \<not> (gc_consolidate_master gc \<and> e = TE_HALF) then Some (Grad_buf e) else um_get (gc_consolidated_grads gc) e)"
    by (auto simp: alloc_buffer_def um_get_set split: prod.split)
  then show ?case by (cases "gc_consolidate_master gc \<and> e = TE_HALF"; cases "e = fst s") (auto simp: Cons.IH)
qed simp

lemma alloc_masters: "um_get (gc_consolidated_master_grads (fold alloc_buffer sums gc)) e =
    (if e \<in> fst ` set sums \<and> gc_consolidate_master gc \<and> e = TE_HALF then Some (Master_buf e) else um_get (gc_consolidated_master_grads gc) e)"
proof (induction sums arbitrary: gc e)
  case (Cons s sums)
  have "um_get (gc_consolidated_master_grads (alloc_buffer s gc)) e =
      (if e = fst s \<and> gc_consolidate_master gc \<and> e = TE_HALF then Some (Master_buf e) else um_get (gc_consolidated_master_grads gc) e)"
    by (auto simp: alloc_buffer_def um_get_set split: prod.split)
  then show ?case by (cases "gc_consolidate_master gc \<and> e = TE_HALF"; cases "e = fst s") (auto simp: Cons.IH)
qed simp

definition own_buf :: "bool \<Rightarrow> IRTensorElemType \<Rightarrow> gbuf" where
  "own_buf master e = (if master \<and> e = TE_HALF then Master_buf e else Grad_buf e)"

lemma own_buf_inj [simp]: "own_buf m e = own_buf m e' \<longleftrightarrow> e = e'"
  by (auto simp: own_buf_def)

lemma alloc_contents:
  "distinct (map fst sums) \<Longrightarrow> um_get (gc_contents (fold alloc_buffer sums gc)) (own_buf (gc_consolidate_master gc) e) =
     (case um_get sums e of Some n \<Rightarrow> Some (replicate (nat n) 0) | None \<Rightarrow> um_get (gc_contents gc) (own_buf (gc_consolidate_master gc) e))"
proof (induction sums arbitrary: gc)
  case (Cons s sums)
  have one: "um_get (gc_contents (alloc_buffer s gc)) (own_buf (gc_consolidate_master gc) e) =
      (if e = fst s then Some (replicate (nat (snd s)) 0) else um_get (gc_contents gc) (own_buf (gc_consolidate_master gc) e))"
    by (auto simp: alloc_buffer_def own_buf_def um_get_set split: prod.split)
  have "um_get sums (fst s) = None" using Cons.prems by (simp add: map_of_eq_None_iff)
  then show ?case using Cons.IH [of "alloc_buffer s gc"] Cons.prems one by (cases s) (auto split: option.split)
qed simp

text \<open>The views.\<close>

lemma make_view_fields:
  "make_view info offs pid gc = Inr gc' \<Longrightarrow>
   gc_param_ids gc' = gc_param_ids gc \<and> gc_use_amp gc' = gc_use_amp gc \<and> gc_consolidate_master gc' = gc_consolidate_master gc \<and>
   gc_consolidated_grads gc' = gc_consolidated_grads gc \<and> gc_consolidated_master_grads gc' = gc_consolidated_master_grads gc \<and>
   gc_amp_fp32_next gc' = gc_amp_fp32_next gc \<and> gc_contents gc' = gc_contents gc"
  by (auto simp: make_view_def rbind_eq_Inr Let_def split: if_splits option.splits)

text \<open>A run of \<open>make_view\<close> sets the views of the parameter and no other.\<close>

definition view_set :: "shape \<Rightarrow> int list \<Rightarrow> 'a gcons \<Rightarrow> int \<Rightarrow> bool" where
  "view_set f ids gc pid \<longleftrightarrow> (if in_master f gc pid
     then um_get (gc_amp_master_grad_tensors gc) pid = Some (view_of f ids (Master_buf TE_HALF) pid)
     else um_get (gc_grad_tensors gc) pid = Some (view_of f ids (Grad_buf (fst (f pid))) pid) \<and>
       um_get (gc_amp_grad_tensors_next gc) pid =
         Some (view_of f ids (if fst (f pid) = TE_FLOAT \<and> gc_use_amp gc then Next_buf else Grad_buf (fst (f pid))) pid))"

lemma make_view_run:
  assumes "info pid = Inr (f pid)" "um_get offs (fst (f pid), pid) = Some (before f ids pid)"
    and "in_master f gc pid \<Longrightarrow> um_get (gc_consolidated_master_grads gc) TE_HALF = Some (Master_buf TE_HALF)"
    and "\<not> in_master f gc pid \<Longrightarrow> um_get (gc_consolidated_grads gc) (fst (f pid)) = Some (Grad_buf (fst (f pid)))"
    and "amp_fp32 gc \<Longrightarrow> gc_amp_fp32_next gc = Some Next_buf"
  shows "\<exists>gc'. make_view info offs pid gc = Inr gc' \<and> view_set f ids gc' pid \<and> (\<forall>q. q \<noteq> pid \<longrightarrow> view_set f ids gc q \<longrightarrow> view_set f ids gc' q)"
proof -
  obtain e n where f: "f pid = (e, n)" by fastforce
  show ?thesis
  proof (cases "in_master f gc pid")
    case True
    then show ?thesis using assms f
      by (auto simp: make_view_def in_master_def um_at_def um_ref_def view_set_def view_of_def um_get_set)
  next
    case False
    then have buf: "um_get (gc_consolidated_grads gc) e = Some (Grad_buf e)" using assms(4) f by simp
    then have "e = TE_FLOAT \<Longrightarrow> amp_fp32 gc = gc_use_amp gc" by (simp add: amp_fp32_def um_contains_def)
    then show ?thesis using False assms f buf
      by (cases "e = TE_FLOAT"; cases "gc_use_amp gc")
         (auto simp: make_view_def in_master_def um_at_def um_ref_def view_set_def view_of_def um_get_set Let_def)
  qed
qed

definition gcons_base :: "int list \<Rightarrow> bool \<Rightarrow> bool \<Rightarrow> 'a gcons" where
  "gcons_base ids use_amp master = \<lparr>gc_param_ids = ids, gc_grad_tensors = [], gc_consolidated_grads = [], gc_amp_master_grad_tensors = [],
     gc_consolidated_master_grads = [], gc_amp_fp32_next = None, gc_amp_grad_tensors_next = [], gc_use_amp = use_amp,
     gc_consolidate_master = master, gc_contents = []\<rparr>"

lemma alloc_next_run:
  assumes "\<And>e. um_get (gc_consolidated_grads gc) e \<noteq> None \<Longrightarrow> um_get (gc_consolidated_grads gc) e = Some (Grad_buf e)"
    and "um_get (gc_consolidated_grads gc) TE_FLOAT \<noteq> None \<Longrightarrow> um_get (gc_contents gc) (Grad_buf TE_FLOAT) = Some xs"
    and "gc_amp_fp32_next gc = None"
  shows "\<exists>gc'. alloc_next gc = Inr gc' \<and> gc_amp_fp32_next gc' = (if amp_fp32 gc then Some Next_buf else None) \<and>
    gc_param_ids gc' = gc_param_ids gc \<and> gc_use_amp gc' = gc_use_amp gc \<and> gc_consolidate_master gc' = gc_consolidate_master gc \<and>
    gc_consolidated_grads gc' = gc_consolidated_grads gc \<and> gc_consolidated_master_grads gc' = gc_consolidated_master_grads gc \<and>
    (\<forall>b. b \<noteq> Next_buf \<longrightarrow> um_get (gc_contents gc') b = um_get (gc_contents gc) b) \<and>
    (amp_fp32 gc \<longrightarrow> um_get (gc_contents gc') Next_buf = Some (replicate (length xs) 0))"
proof (cases "amp_fp32 gc")
  case True
  then have "um_get (gc_consolidated_grads gc) TE_FLOAT \<noteq> None" by (simp add: amp_fp32_def um_contains_def)
  with assms(1) [OF this] assms(2) have "um_get (gc_consolidated_grads gc) TE_FLOAT = Some (Grad_buf TE_FLOAT)"
    "um_get (gc_contents gc) (Grad_buf TE_FLOAT) = Some xs" by blast+
  then show ?thesis using True by (simp add: alloc_next_def um_at_def um_get_set)
next
  case False
  then show ?thesis using assms(3) by (simp add: alloc_next_def)
qed

lemma new_gcons_ok:
  assumes f: "shapes_ok f ids" and info: "\<And>x. x \<in> set ids \<Longrightarrow> info x = Inr (f x)"
  shows "\<exists>gc. new_gcons info ids use_amp master = Inr gc \<and> gcons_ok f ids (Grad_buf TE_FLOAT) (gc :: ('a :: zero) gcons) \<and>
    gc_use_amp gc = use_amp \<and> gc_consolidate_master gc = master"
proof -
  have sh: "distinct ids" "ids \<noteq> []" "\<And>x. x \<in> set ids \<Longrightarrow> 0 \<le> snd (f x)"
    "\<And>x. x \<in> set ids \<Longrightarrow> fst (f x) = TE_FLOAT \<or> fst (f x) = TE_HALF \<or> fst (f x) = TE_BFLOAT16" using f by (auto simp: shapes_ok_def)
  obtain sums offs where lay: "rfold (layout_step info) ids ([], []) = Inr (sums, offs)" "um_ok sums"
    "\<And>e. um_get sums e = (if e \<in> fst ` f ` set ids then Some (total_numel f ids e) else None)"
    "\<And>pid. pid \<in> set ids \<Longrightarrow> um_get offs (fst (f pid), pid) = Some (before f ids pid)"
    using layout_run [of ids info f "[]" "[]", OF info sh(1,4)] by (auto simp: um_ref_def)
  have keys: "e \<in> fst ` set sums \<longleftrightarrow> e \<in> fst ` f ` set ids" for e
    using lay(3) [of e] map_of_eq_None_iff [of sums e] by (auto split: if_splits)
  have dist: "distinct (map fst sums)" using lay(2) by (simp add: um_ok_def)
  define gc1 where "gc1 = fold alloc_buffer sums (gcons_base ids use_amp master :: 'a gcons)"
  have fields: "gc_consolidate_master gc1 = master" "gc_use_amp gc1 = use_amp" "gc_param_ids gc1 = ids" "gc_amp_fp32_next gc1 = None"
    by (simp_all add: gc1_def gcons_base_def)
  have cons: "um_get (gc_consolidated_grads gc1) e = (if e \<in> fst ` f ` set ids \<and> \<not> (master \<and> e = TE_HALF) then Some (Grad_buf e) else None)"
    "um_get (gc_consolidated_master_grads gc1) e = (if e \<in> fst ` f ` set ids \<and> master \<and> e = TE_HALF then Some (Master_buf e) else None)" for e
    unfolding gc1_def alloc_grads alloc_masters keys by (cases "e = TE_HALF"; simp add: gcons_base_def)+
  have cont: "um_get (gc_contents gc1) (own_buf master e) = Some (replicate (nat (total_numel f ids e)) 0)" if "e \<in> fst ` f ` set ids" for e
    using alloc_contents [OF dist, of "gcons_base ids use_amp master" e] that lay(3) by (simp add: gc1_def gcons_base_def)
  have float: "um_get (gc_contents gc1) (Grad_buf TE_FLOAT) = Some (replicate (nat (total_numel f ids TE_FLOAT)) 0)"
    if "um_get (gc_consolidated_grads gc1) TE_FLOAT \<noteq> None"
    using cont [of TE_FLOAT] that cons(1) [of TE_FLOAT] by (auto simp: own_buf_def split: if_splits)
  have grads: "um_get (gc_consolidated_grads gc1) e = Some (Grad_buf e)" if "um_get (gc_consolidated_grads gc1) e \<noteq> None" for e
    using that cons(1) [of e] by (auto split: if_splits)
  obtain gc2 where gc2: "alloc_next gc1 = Inr gc2" "gc_amp_fp32_next gc2 = (if amp_fp32 gc1 then Some Next_buf else None)"
    "gc_param_ids gc2 = ids" "gc_use_amp gc2 = use_amp" "gc_consolidate_master gc2 = master"
    "gc_consolidated_grads gc2 = gc_consolidated_grads gc1" "gc_consolidated_master_grads gc2 = gc_consolidated_master_grads gc1"
    "\<And>b. b \<noteq> Next_buf \<Longrightarrow> um_get (gc_contents gc2) b = um_get (gc_contents gc1) b"
    "amp_fp32 gc1 \<Longrightarrow> um_get (gc_contents gc2) Next_buf = Some (replicate (length (replicate (nat (total_numel f ids TE_FLOAT)) (0 :: 'a))) 0)"
    using alloc_next_run [of gc1, OF grads float fields(4)] fields by auto
  have amp: "amp_fp32 gc2 = amp_fp32 gc1" by (simp add: amp_fp32_def gc2 fields)
  have master: "in_master f gc2 pid \<longleftrightarrow> master \<and> fst (f pid) = TE_HALF" for pid by (simp add: in_master_def gc2)
  define static where "static gc \<longleftrightarrow> gc_param_ids gc = ids \<and> gc_use_amp gc = use_amp \<and> gc_consolidate_master gc = master \<and>
    gc_consolidated_grads gc = gc_consolidated_grads gc1 \<and> gc_consolidated_master_grads gc = gc_consolidated_master_grads gc1 \<and>
    gc_amp_fp32_next gc = gc_amp_fp32_next gc2 \<and> gc_contents gc = gc_contents gc2" for gc :: "'a gcons"
  have "\<exists>gc. rfold (make_view info offs) ids gc2 = Inr gc \<and> static gc \<and> (\<forall>q \<in> set ids. view_set f ids gc q)"
  proof (rule rfold_prefix [where P = "\<lambda>pre gc. static gc \<and> (\<forall>q \<in> set pre. view_set f ids gc q)"])
    show "static gc2 \<and> (\<forall>q \<in> set []. view_set f ids gc2 q)" using gc2 by (simp add: static_def)
    fix pre pid post gc assume split: "ids = pre @ pid # post" and P': "static gc \<and> (\<forall>q \<in> set pre. view_set f ids gc q)"
    note P = P' [unfolded static_def]
    have pid: "pid \<in> set ids" "pid \<notin> set pre" using split sh(1) by auto
    have e: "fst (f pid) \<in> fst ` f ` set ids" using pid(1) by blast
    have im: "in_master f gc pid \<longleftrightarrow> master \<and> fst (f pid) = TE_HALF" using P by (simp add: in_master_def)
    have am: "amp_fp32 gc = amp_fp32 gc1" using P by (simp add: amp_fp32_def fields)
    have "\<exists>gc'. make_view info offs pid gc = Inr gc' \<and> view_set f ids gc' pid \<and> (\<forall>q. q \<noteq> pid \<longrightarrow> view_set f ids gc q \<longrightarrow> view_set f ids gc' q)"
    proof (rule make_view_run)
      show "info pid = Inr (f pid)" by (rule info [OF pid(1)])
      show "um_get offs (fst (f pid), pid) = Some (before f ids pid)" by (rule lay(4) [OF pid(1)])
      show "um_get (gc_consolidated_master_grads gc) TE_HALF = Some (Master_buf TE_HALF)" if "in_master f gc pid"
        using that im P cons(2) [of TE_HALF] e by simp
      show "um_get (gc_consolidated_grads gc) (fst (f pid)) = Some (Grad_buf (fst (f pid)))" if "\<not> in_master f gc pid"
        using that im P cons(1) [of "fst (f pid)"] e by simp
      show "gc_amp_fp32_next gc = Some Next_buf" if "amp_fp32 gc" using that am P gc2(2) by simp
    qed
    then obtain gc' where gc': "make_view info offs pid gc = Inr gc'" "view_set f ids gc' pid"
      "\<And>q. q \<noteq> pid \<Longrightarrow> view_set f ids gc q \<Longrightarrow> view_set f ids gc' q" by blast
    have "view_set f ids gc' q" if "q \<in> set (pre @ [pid])" for q
      using that gc'(2) gc'(3) [of q] conjunct2 [OF P'] by (cases "q = pid") auto
    then show "\<exists>gc'. make_view info offs pid gc = Inr gc' \<and> static gc' \<and> (\<forall>q \<in> set (pre @ [pid]). view_set f ids gc' q)"
      using gc'(1) make_view_fields [OF gc'(1)] P unfolding static_def by auto
  qed
  then obtain gc where gc0: "rfold (make_view info offs) ids gc2 = Inr gc" "static gc" "\<And>q. q \<in> set ids \<Longrightarrow> view_set f ids gc q" by blast
  note gc = gc0(1) gc0(2) [unfolded static_def] gc0(3)
  have run: "new_gcons info ids use_amp master = Inr gc"
    using lay(1) gc2(1) gc(1) sh(2) unfolding gc1_def gcons_base_def by (simp add: new_gcons_def)
  have im: "in_master f gc pid \<longleftrightarrow> master \<and> fst (f pid) = TE_HALF" for pid using gc(2) by (simp add: in_master_def)
  have amp': "amp_fp32 gc \<longleftrightarrow> amp_fp32 gc1" using gc(2) by (simp add: amp_fp32_def fields)
  have am: "amp_fp32 gc1 \<longleftrightarrow> use_amp \<and> TE_FLOAT \<in> fst ` f ` set ids" using cons(1) [of TE_FLOAT] by (auto simp: amp_fp32_def um_contains_def fields)
  have nn: "0 \<le> total_numel f ids e" for e by (rule total_numel_nonneg) (rule sh(3))
  have len: "has_buf f ids gc (own_buf master (fst (f pid))) (fst (f pid))" if "pid \<in> set ids" for pid
    using cont [of "fst (f pid)"] that gc(2) gc2(8) [of "own_buf master (fst (f pid))"] nn by (simp add: has_buf_def um_ref_def own_buf_def)
  have next_len: "has_buf f ids gc Next_buf TE_FLOAT" if "use_amp" "pid \<in> set ids" "fst (f pid) = TE_FLOAT" for pid
  proof -
    have "amp_fp32 gc1" using that am by force
    then show ?thesis using gc2(9) gc(2) nn by (simp add: has_buf_def um_ref_def)
  qed
  have "gcons_ok f ids (Grad_buf TE_FLOAT) gc"
    unfolding gcons_ok_def
  proof (intro conjI)
    show "\<forall>pid \<in> set ids. if in_master f gc pid
        then um_get (gc_amp_master_grad_tensors gc) pid = Some (view_of f ids (Master_buf TE_HALF) pid) \<and> has_buf f ids gc (Master_buf TE_HALF) TE_HALF
        else um_get (gc_grad_tensors gc) pid = Some (view_of f ids (buf_of (Grad_buf TE_FLOAT) (fst (f pid))) pid) \<and>
          um_get (gc_amp_grad_tensors_next gc) pid = Some (view_of f ids
            (if fst (f pid) = TE_FLOAT \<and> gc_use_amp gc then other_buf (Grad_buf TE_FLOAT) else buf_of (Grad_buf TE_FLOAT) (fst (f pid))) pid) \<and>
          has_buf f ids gc (buf_of (Grad_buf TE_FLOAT) (fst (f pid))) (fst (f pid)) \<and>
          (fst (f pid) = TE_FLOAT \<and> gc_use_amp gc \<longrightarrow> has_buf f ids gc (other_buf (Grad_buf TE_FLOAT)) TE_FLOAT)"
    proof
      fix pid assume pid: "pid \<in> set ids"
      show "if in_master f gc pid
        then um_get (gc_amp_master_grad_tensors gc) pid = Some (view_of f ids (Master_buf TE_HALF) pid) \<and> has_buf f ids gc (Master_buf TE_HALF) TE_HALF
        else um_get (gc_grad_tensors gc) pid = Some (view_of f ids (buf_of (Grad_buf TE_FLOAT) (fst (f pid))) pid) \<and>
          um_get (gc_amp_grad_tensors_next gc) pid = Some (view_of f ids
            (if fst (f pid) = TE_FLOAT \<and> gc_use_amp gc then other_buf (Grad_buf TE_FLOAT) else buf_of (Grad_buf TE_FLOAT) (fst (f pid))) pid) \<and>
          has_buf f ids gc (buf_of (Grad_buf TE_FLOAT) (fst (f pid))) (fst (f pid)) \<and>
          (fst (f pid) = TE_FLOAT \<and> gc_use_amp gc \<longrightarrow> has_buf f ids gc (other_buf (Grad_buf TE_FLOAT)) TE_FLOAT)"
        using gc(3) [OF pid] len [OF pid] next_len [OF _ pid] im [of pid] gc(2)
        by (cases "master \<and> fst (f pid) = TE_HALF"; cases "fst (f pid) = TE_FLOAT") (auto simp: view_set_def buf_of_def other_buf_def own_buf_def)
    qed
    show "\<forall>e. um_get (gc_consolidated_grads gc) e =
        (if \<exists>pid \<in> set ids. \<not> in_master f gc pid \<and> fst (f pid) = e then Some (buf_of (Grad_buf TE_FLOAT) e) else None)"
    proof
      fix e
      have "(\<exists>pid \<in> set ids. \<not> in_master f gc pid \<and> fst (f pid) = e) \<longleftrightarrow> e \<in> fst ` f ` set ids \<and> \<not> (master \<and> e = TE_HALF)"
        unfolding im image_image by blast
      then show "um_get (gc_consolidated_grads gc) e =
          (if \<exists>pid \<in> set ids. \<not> in_master f gc pid \<and> fst (f pid) = e then Some (buf_of (Grad_buf TE_FLOAT) e) else None)"
        using gc(2) cons(1) [of e] by (simp add: buf_of_def)
    qed
    show "gc_amp_fp32_next gc = (if amp_fp32 gc then Some (other_buf (Grad_buf TE_FLOAT)) else None)"
      using gc(2) gc2(2) amp' by (simp add: other_buf_def)
  qed (use gc(2) in simp_all)
  with run gc(2) show ?thesis by blast
qed

section \<open>What consolidation does\<close>

text \<open>The buffers that hold gradients of an element type, and the gradients that are in order: elements of its own, or its place in such a buffer.\<close>

definition bufs_of :: "IRTensorElemType \<Rightarrow> gbuf set" where
  "bufs_of e = {Grad_buf e, Master_buf e} \<union> (if e = TE_FLOAT then {Next_buf} else {})"

lemma bufs_of_apart: "b \<in> bufs_of e \<Longrightarrow> b \<in> bufs_of e' \<Longrightarrow> e = e'"
  by (auto simp: bufs_of_def split: if_splits)

definition gref_ok :: "shape \<Rightarrow> int list \<Rightarrow> 'a gcons \<Rightarrow> int \<Rightarrow> 'a gref \<Rightarrow> bool" where
  "gref_ok f ids gc pid g = (case g of
     Own xs \<Rightarrow> int (length xs) = snd (f pid)
   | View v \<Rightarrow> \<exists>b \<in> bufs_of (fst (f pid)). v = view_of f ids b pid \<and> has_buf f ids gc b (fst (f pid)))"

text \<open>The place that a consolidation gives a parameter, and the gradient it concerns.\<close>

definition slot :: "shape \<Rightarrow> int list \<Rightarrow> gbuf \<Rightarrow> 'a gcons \<Rightarrow> int \<Rightarrow> gview" where
  "slot f ids c gc pid = view_of f ids (if in_master f gc pid then Master_buf TE_HALF else buf_of c (fst (f pid))) pid"

definition grad_of :: "shape \<Rightarrow> 'a gcons \<Rightarrow> 'a grads \<Rightarrow> int \<Rightarrow> 'a gref option" where
  "grad_of f gc gr pid = um_get (if in_master f gc pid then gr_master gr else gr_model gr) pid"

text \<open>The elements of a gradient, zeros where it is not defined.\<close>

definition grad_elems :: "shape \<Rightarrow> 'a gcons \<Rightarrow> 'a grads \<Rightarrow> int \<Rightarrow> ('a :: zero) list" where
  "grad_elems f gc gr pid = (case grad_of f gc gr pid of None \<Rightarrow> replicate (nat (snd (f pid))) 0 | Some g \<Rightarrow> gref_read (gc_contents gc) g)"

lemma slot_buf: "gcons_ok f ids c gc \<Longrightarrow> gv_buf (slot f ids c gc pid) \<in> bufs_of (fst (f pid))"
  by (auto simp: gcons_ok_def slot_def view_of_def bufs_of_def buf_of_def in_master_def)

lemma slot_has: "gcons_ok f ids c gc \<Longrightarrow> pid \<in> set ids \<Longrightarrow> has_buf f ids gc (gv_buf (slot f ids c gc pid)) (fst (f pid))"
  by (auto simp: gcons_ok_def slot_def view_of_def in_master_def split: if_splits)

lemma view_read_length:
  assumes "shapes_ok f ids" "pid \<in> set ids" "has_buf f ids gc b (fst (f pid))"
  shows "length (view_read (gc_contents gc) (view_of f ids b pid)) = nat (snd (f pid))"
proof -
  have b: "0 \<le> before f ids pid \<and> before f ids pid + snd (f pid) \<le> total_numel f ids (fst (f pid))"
    using before_bounds [of ids f pid] assms(1,2) by (simp add: shapes_ok_def)
  have n: "0 \<le> snd (f pid)" using assms(1,2) by (auto simp: shapes_ok_def)
  have "nat (snd (f pid)) + nat (before f ids pid) \<le> length (um_ref [] (gc_contents gc) b)"
    using b n assms(3) unfolding has_buf_def by linarith
  then show ?thesis by (simp add: view_read_def view_of_def)
qed

lemma gref_read_length:
  assumes "shapes_ok f ids" "pid \<in> set ids" "gref_ok f ids gc pid g"
  shows "length (gref_read (gc_contents gc) g) = nat (snd (f pid))"
  using assms view_read_length [OF assms(1,2)] by (auto simp: gref_ok_def gref_read_def split: gref.splits)

text \<open>Writing at the place of one parameter: what is read there, and that nothing else changes.\<close>

lemma write_slot:
  assumes f: "shapes_ok f ids" "pid \<in> set ids" and b: "has_buf f ids gc b (fst (f pid))" and ys: "length ys = nat (snd (f pid))"
  defines "m \<equiv> view_write (view_of f ids b pid) ys (gc_contents gc)"
  shows "view_read m (view_of f ids b pid) = ys"
    and "\<And>b'. length (um_ref [] m b') = length (um_ref [] (gc_contents gc) b')"
    and "\<And>b'. b' \<noteq> b \<Longrightarrow> um_get m b' = um_get (gc_contents gc) b'"
    and "\<And>q g. q \<in> set ids \<Longrightarrow> q \<noteq> pid \<Longrightarrow> gref_ok f ids gc q g \<Longrightarrow> b \<in> bufs_of (fst (f pid)) \<Longrightarrow> gref_read m g = gref_read (gc_contents gc) g"
proof -
  have pos: "\<And>x. x \<in> set ids \<Longrightarrow> 0 \<le> snd (f x)" using f(1) by (simp add: shapes_ok_def)
  note bd = before_bounds [of ids f pid, OF pos f(2)]
  have fits: "nat (before f ids pid) + length ys \<le> length (um_ref [] (gc_contents gc) b)"
    using bd b ys pos [OF f(2)] unfolding has_buf_def by linarith
  show "view_read m (view_of f ids b pid) = ys"
    using overwrite_same [OF fits] ys by (simp add: m_def view_read_def view_write_def view_of_def um_ref_def um_get_set)
  show "length (um_ref [] m b') = length (um_ref [] (gc_contents gc) b')" for b'
    using fits by (simp add: m_def view_write_def view_of_def um_ref_def um_get_set)
  show other: "um_get m b' = um_get (gc_contents gc) b'" if "b' \<noteq> b" for b'
    using that by (simp add: m_def view_write_def view_of_def um_get_set)
  fix q g assume q: "q \<in> set ids" "q \<noteq> pid" "gref_ok f ids gc q g" "b \<in> bufs_of (fst (f pid))"
  show "gref_read m g = gref_read (gc_contents gc) g"
  proof (cases g)
    case (View v)
    then obtain b' where b': "b' \<in> bufs_of (fst (f q))" "v = view_of f ids b' q" "has_buf f ids gc b' (fst (f q))"
      using q(3) by (auto simp: gref_ok_def)
    show ?thesis
    proof (cases "b' = b")
      case True
      then have same: "fst (f pid) = fst (f q)" using bufs_of_apart q(4) b'(1) by blast
      have q_pos: "0 \<le> before f ids q" "before f ids q + snd (f q) \<le> total_numel f ids (fst (f q))" using before_bounds [of ids f q, OF pos q(1)] by simp_all
      have "before f ids pid + snd (f pid) \<le> before f ids q \<or> before f ids q + snd (f q) \<le> before f ids pid"
        by (rule before_apart) (use pos f(2) q(1,2) same in auto)
      then have "nat (before f ids q) + nat (snd (f q)) \<le> nat (before f ids pid) \<or> nat (before f ids pid) + length ys \<le> nat (before f ids q)"
        using ys pos [OF f(2)] pos [OF q(1)] bd q_pos by linarith
      moreover have "nat (before f ids q) + nat (snd (f q)) \<le> length (um_ref [] (gc_contents gc) b)"
        using b'(3) q_pos pos [OF q(1)] unfolding has_buf_def True by linarith
      ultimately show ?thesis using overwrite_other [OF fits, of "nat (before f ids q)" "nat (snd (f q))"] View b'(2) True
        by (simp add: m_def gref_read_def view_read_def view_write_def view_of_def um_ref_def um_get_set)
    next
      case False
      then show ?thesis using View b'(2) other by (simp add: gref_read_def view_read_def view_of_def um_ref_def)
    qed
  qed (simp add: gref_read_def)
qed

text \<open>A step that writes at the place of one parameter.\<close>

lemma contents_ok:
  assumes "gcons_ok f ids c gc" "\<And>b. length (um_ref [] m b) = length (um_ref [] (gc_contents gc) b)"
  shows "gcons_ok f ids c (gc\<lparr>gc_contents := m\<rparr>)"
proof -
  have "has_buf f ids (gc\<lparr>gc_contents := m\<rparr>) b e = has_buf f ids gc b e" for b e using assms(2) by (simp add: has_buf_def)
  moreover have "in_master f (gc\<lparr>gc_contents := m\<rparr>) pid = in_master f gc pid" for pid by (simp add: in_master_def)
  ultimately show ?thesis using assms(1) by (simp add: gcons_ok_def amp_fp32_def)
qed

lemma in_master_contents [simp]: "in_master f (gc\<lparr>gc_contents := m\<rparr>) = in_master f gc" "slot f ids c (gc\<lparr>gc_contents := m\<rparr>) = slot f ids c gc"
  by (simp_all add: in_master_def slot_def fun_eq_iff)

text \<open>
  What one parameter's turn does: its gradient is defined afterwards, and is its place in the current buffer,
  except that a master parameter keeps a gradient it has; the elements are those of before, or zeros; nothing
  is written elsewhere.
\<close>

definition consolidated :: "shape \<Rightarrow> int list \<Rightarrow> gbuf \<Rightarrow> int \<Rightarrow> 'a gcons \<times> 'a grads \<Rightarrow> ('a :: zero) gcons \<times> 'a grads \<Rightarrow> bool" where
  "consolidated f ids c pid = (\<lambda>(gc, gr) (gc', gr').
     \<exists>m g. gc' = gc\<lparr>gc_contents := m\<rparr> \<and>
       (\<forall>b. length (um_ref [] m b) = length (um_ref [] (gc_contents gc) b)) \<and>
       (\<forall>b. b \<noteq> gv_buf (slot f ids c gc pid) \<longrightarrow> um_get m b = um_get (gc_contents gc) b) \<and>
       (\<forall>q g. q \<in> set ids \<longrightarrow> q \<noteq> pid \<longrightarrow> gref_ok f ids gc q g \<longrightarrow> gref_read m g = gref_read (gc_contents gc) g) \<and>
       grad_of f gc gr' pid = Some g \<and> gref_read m g = grad_elems f gc gr pid \<and> gref_ok f ids gc pid g \<and>
       (g = View (slot f ids c gc pid) \<or> in_master f gc pid \<and> grad_of f gc gr pid = Some g) \<and>
       (\<forall>q. q \<noteq> pid \<longrightarrow> grad_of f gc gr' q = grad_of f gc gr q))"

lemma consolidate_param_run:
  assumes f: "shapes_ok f ids" and pid: "pid \<in> set ids" and info: "info pid = Inr (f pid)"
    and gc: "gcons_ok f ids c gc" and masters: "in_master f gc pid \<Longrightarrow> pid \<in> masters"
    and gr: "\<And>g. grad_of f gc gr pid = Some g \<Longrightarrow> gref_ok f ids gc pid g"
  shows "\<exists>s'. consolidate_param info masters pid (gc, gr) = Inr s' \<and> consolidated f ids c pid (gc, gr) s'"
proof -
  let ?v = "slot f ids c gc pid"
  define b where "b = gv_buf ?v"
  have v: "?v = view_of f ids b pid" by (simp add: b_def slot_def view_of_def)
  have b: "has_buf f ids gc b (fst (f pid))" "b \<in> bufs_of (fst (f pid))" unfolding b_def by (rule slot_has [OF gc pid]) (rule slot_buf [OF gc])
  have ok_v: "gref_ok f ids gc pid (View ?v)" using b by (auto simp: gref_ok_def v)
  have num: "gv_numel ?v = snd (f pid)" by (simp add: v view_of_def)
  have written: "consolidated f ids c pid (gc, gr) (gc\<lparr>gc_contents := view_write ?v ys (gc_contents gc)\<rparr>, gr')"
    if "ys = grad_elems f gc gr pid" "length ys = nat (snd (f pid))" "grad_of f gc gr' pid = Some (View ?v)"
      "\<And>q. q \<noteq> pid \<Longrightarrow> grad_of f gc gr' q = grad_of f gc gr q" for ys gr'
    unfolding consolidated_def prod.case
    by (rule exI [of _ "view_write ?v ys (gc_contents gc)"], rule exI [of _ "View ?v"])
       (use that write_slot [OF f pid b(1) that(2)] b(2) ok_v in \<open>simp add: v b_def [symmetric] gref_read_def view_of_def [of f ids b]\<close>)
  have keep: "consolidated f ids c pid (gc, gr) (gc, gr)"
    if "grad_of f gc gr pid = Some g" "g = View ?v \<or> in_master f gc pid" for g
    unfolding consolidated_def prod.case
    by (rule exI [of _ "gc_contents gc"], rule exI [of _ g]) (use that gr [OF that(1)] in \<open>auto simp: grad_elems_def\<close>)
  obtain e n where fp: "f pid = (e, n)" by fastforce
  show ?thesis
  proof (cases "in_master f gc pid")
    case True
    then have im: "gc_consolidate_master gc \<and> e = TE_HALF" "pid \<in> masters" using masters fp by (auto simp: in_master_def)
    have at: "um_get (gc_amp_master_grad_tensors gc) pid = Some ?v" using gc pid True by (simp add: gcons_ok_def slot_def)
    show ?thesis
    proof (cases "um_get (gr_master gr) pid")
      case None
      let ?gr' = "gr\<lparr>gr_master := um_set pid (View ?v) (gr_master gr)\<rparr>"
      have "consolidated f ids c pid (gc, gr) (gc\<lparr>gc_contents := view_write ?v (zeros ?v) (gc_contents gc)\<rparr>, ?gr')"
        by (rule written) (use None True num in \<open>simp_all add: zeros_def grad_elems_def grad_of_def um_get_set\<close>)
      then show ?thesis using im at None fp info by (simp add: consolidate_param_def um_at_def um_contains_def)
    next
      case (Some g)
      have "consolidated f ids c pid (gc, gr) (gc, gr)" by (rule keep [of g]) (use Some True in \<open>simp_all add: grad_of_def\<close>)
      then show ?thesis using im Some fp info by (simp add: consolidate_param_def)
    qed
  next
    case False
    then have im: "\<not> (gc_consolidate_master gc \<and> e = TE_HALF)" using fp by (simp add: in_master_def)
    have at: "um_get (gc_grad_tensors gc) pid = Some ?v" using gc pid False by (simp add: gcons_ok_def slot_def)
    let ?gr' = "gr\<lparr>gr_model := um_set pid (View ?v) (gr_model gr)\<rparr>"
    show ?thesis
    proof (cases "um_get (gr_model gr) pid")
      case None
      have "consolidated f ids c pid (gc, gr) (gc\<lparr>gc_contents := view_write ?v (zeros ?v) (gc_contents gc)\<rparr>, ?gr')"
        by (rule written) (use None False num in \<open>auto simp: zeros_def grad_elems_def grad_of_def um_get_set in_master_def\<close>)
      moreover have "consolidate_param info masters pid (gc, gr) = Inr (gc\<lparr>gc_contents := view_write ?v (zeros ?v) (gc_contents gc)\<rparr>, ?gr')"
        using im at None fp info by (auto simp: consolidate_param_def um_at_def)
      ultimately show ?thesis by blast
    next
      case (Some g)
      then have g: "gref_ok f ids gc pid g" using gr False by (simp add: grad_of_def)
      have len: "length (gref_read (gc_contents gc) g) = nat (snd (f pid))" by (rule gref_read_length [OF f pid g])
      show ?thesis
      proof (cases "same_data g ?v")
        case True
        then have "g = View ?v" using g by (auto simp: same_data_def gref_ok_def v view_of_def split: gref.splits)
        then have "consolidated f ids c pid (gc, gr) (gc, gr)" by (intro keep [of g]) (use Some False in \<open>simp_all add: grad_of_def\<close>)
        moreover have "consolidate_param info masters pid (gc, gr) = Inr (gc, gr)"
          using im at Some True fp info by (auto simp: consolidate_param_def um_at_def)
        ultimately show ?thesis by blast
      next
        case differ: False
        have "consolidated f ids c pid (gc, gr) (gc\<lparr>gc_contents := view_write ?v (gref_read (gc_contents gc) g) (gc_contents gc)\<rparr>, ?gr')"
          by (rule written) (use Some False len in \<open>auto simp: grad_elems_def grad_of_def um_get_set in_master_def\<close>)
        moreover have "consolidate_param info masters pid (gc, gr) =
            Inr (gc\<lparr>gc_contents := view_write ?v (gref_read (gc_contents gc) g) (gc_contents gc)\<rparr>, ?gr')"
          using im at Some differ fp info len num by (auto simp: consolidate_param_def um_at_def)
        ultimately show ?thesis by blast
      qed
    qed
  qed
qed

section \<open>A whole consolidation\<close>

definition current_buf :: "gbuf \<Rightarrow> 'a gcons \<Rightarrow> gbuf" where
  "current_buf c gc = (if amp_fp32 gc then other_buf c else c)"

lemma swap_run:
  assumes gc: "gcons_ok f ids c gc"
  shows "\<exists>gc1. swap_buffers gc = Inr gc1 \<and> gcons_ok f ids (current_buf c gc) gc1 \<and> gc_contents gc1 = gc_contents gc \<and>
    gc_use_amp gc1 = gc_use_amp gc \<and> gc_consolidate_master gc1 = gc_consolidate_master gc"
proof (cases "amp_fp32 gc")
  case True
  have c: "other_buf (other_buf c) = c" "other_buf c = Grad_buf TE_FLOAT \<or> other_buf c = Next_buf" "gc_use_amp gc"
    using gc True by (auto simp: gcons_ok_def other_buf_def amp_fp32_def)
  have float: "\<exists>pid \<in> set ids. \<not> in_master f gc pid \<and> fst (f pid) = TE_FLOAT" and cur: "um_get (gc_consolidated_grads gc) TE_FLOAT = Some c"
    using gc True by (auto simp: gcons_ok_def amp_fp32_def um_contains_def buf_of_def split: if_splits)
  have nxt: "gc_amp_fp32_next gc = Some (other_buf c)" using gc True by (simp add: gcons_ok_def)
  let ?gc1 = "gc\<lparr>gc_amp_grad_tensors_next := gc_grad_tensors gc, gc_grad_tensors := gc_amp_grad_tensors_next gc,
      gc_consolidated_grads := um_set TE_FLOAT (other_buf c) (gc_consolidated_grads gc), gc_amp_fp32_next := Some c\<rparr>"
  have im: "in_master f ?gc1 pid = in_master f gc pid" and hb: "has_buf f ids ?gc1 b e = has_buf f ids gc b e" for pid b e
    by (simp_all add: in_master_def has_buf_def)
  have "gcons_ok f ids (other_buf c) ?gc1"
    unfolding gcons_ok_def im hb
  proof (intro conjI)
    show "\<forall>e. um_get (gc_consolidated_grads ?gc1) e =
        (if \<exists>pid \<in> set ids. \<not> in_master f gc pid \<and> fst (f pid) = e then Some (buf_of (other_buf c) e) else None)"
      using gc float by (auto simp: gcons_ok_def um_get_set buf_of_def)
    show "gc_amp_fp32_next ?gc1 = (if amp_fp32 ?gc1 then Some (other_buf (other_buf c)) else None)"
      using c by (simp add: amp_fp32_def um_contains_def um_get_set)
    show "\<forall>pid \<in> set ids. if in_master f gc pid
        then um_get (gc_amp_master_grad_tensors ?gc1) pid = Some (view_of f ids (Master_buf TE_HALF) pid) \<and> has_buf f ids gc (Master_buf TE_HALF) TE_HALF
        else um_get (gc_grad_tensors ?gc1) pid = Some (view_of f ids (buf_of (other_buf c) (fst (f pid))) pid) \<and>
          um_get (gc_amp_grad_tensors_next ?gc1) pid = Some (view_of f ids
            (if fst (f pid) = TE_FLOAT \<and> gc_use_amp ?gc1 then other_buf (other_buf c) else buf_of (other_buf c) (fst (f pid))) pid) \<and>
          has_buf f ids gc (buf_of (other_buf c) (fst (f pid))) (fst (f pid)) \<and>
          (fst (f pid) = TE_FLOAT \<and> gc_use_amp ?gc1 \<longrightarrow> has_buf f ids gc (other_buf (other_buf c)) TE_FLOAT)"
      using gc c(1,3) by (auto simp: gcons_ok_def buf_of_def)
    show "gc_param_ids ?gc1 = ids" using gc by (simp add: gcons_ok_def)
    show "other_buf c = Grad_buf TE_FLOAT \<or> other_buf c = Next_buf \<and> gc_use_amp ?gc1" using c by simp
  qed
  then show ?thesis using True cur nxt by (simp add: swap_buffers_def um_at_def current_buf_def)
next
  case False
  then show ?thesis using gc by (simp add: swap_buffers_def current_buf_def)
qed

lemma gref_ok_contents:
  "(\<And>b. length (um_ref [] m b) = length (um_ref [] (gc_contents gc) b)) \<Longrightarrow> gref_ok f ids (gc\<lparr>gc_contents := m\<rparr>) pid g = gref_ok f ids gc pid g"
  by (simp add: gref_ok_def has_buf_def split: gref.split)

lemma consolidate_loop:
  assumes f: "shapes_ok f ids" and info: "\<And>x. x \<in> set ids \<Longrightarrow> info x = Inr (f x)" and gc: "gcons_ok f ids c gc"
    and masters: "\<And>x. x \<in> set ids \<Longrightarrow> in_master f gc x \<Longrightarrow> x \<in> masters"
    and gr: "\<And>x g. x \<in> set ids \<Longrightarrow> grad_of f gc gr x = Some g \<Longrightarrow> gref_ok f ids gc x g"
  shows "\<exists>m gr'. rfold (consolidate_param info masters) ids (gc, gr) = Inr (gc\<lparr>gc_contents := m\<rparr>, gr') \<and>
    (\<forall>b. length (um_ref [] m b) = length (um_ref [] (gc_contents gc) b)) \<and>
    (\<forall>b. b \<notin> (\<lambda>x. gv_buf (slot f ids c gc x)) ` set ids \<longrightarrow> um_get m b = um_get (gc_contents gc) b) \<and>
    (\<forall>x \<in> set ids. \<exists>g. grad_of f gc gr' x = Some g \<and> gref_ok f ids gc x g \<and> gref_read m g = grad_elems f gc gr x \<and>
       (g = View (slot f ids c gc x) \<or> in_master f gc x \<and> grad_of f gc gr x = Some g))"
proof -
  define D where "D gr' m x \<longleftrightarrow> (\<exists>g. grad_of f gc gr' x = Some g \<and> gref_ok f ids gc x g \<and> gref_read m g = grad_elems f gc gr x \<and>
       (g = View (slot f ids c gc x) \<or> in_master f gc x \<and> grad_of f gc gr x = Some g))" for gr' and m :: "(gbuf, 'a list) umap" and x
  define L where "L gr' m x \<longleftrightarrow> grad_of f gc gr' x = grad_of f gc gr x \<and>
       (\<forall>g. grad_of f gc gr x = Some g \<longrightarrow> gref_read m g = gref_read (gc_contents gc) g)" for gr' and m :: "(gbuf, 'a list) umap" and x
  define P where "P pre s \<longleftrightarrow> (\<exists>m. fst s = gc\<lparr>gc_contents := m\<rparr> \<and>
     (\<forall>b. length (um_ref [] m b) = length (um_ref [] (gc_contents gc) b)) \<and>
     (\<forall>b. b \<notin> (\<lambda>x. gv_buf (slot f ids c gc x)) ` set ids \<longrightarrow> um_get m b = um_get (gc_contents gc) b) \<and>
     (\<forall>x \<in> set ids. if x \<in> set pre then D (snd s) m x else L (snd s) m x))" for pre and s :: "'a gcons \<times> 'a grads"
  have "\<exists>s. rfold (consolidate_param info masters) ids (gc, gr) = Inr s \<and> P ids s"
  proof (rule rfold_prefix)
    show "P [] (gc, gr)" unfolding P_def by (rule exI [of _ "gc_contents gc"]) (simp add: L_def)
    fix pre pid post s assume split: "ids = pre @ pid # post" and P: "P pre s"
    define gr1 where "gr1 = snd s"
    from P obtain m where m: "fst s = gc\<lparr>gc_contents := m\<rparr>" and len: "\<And>b. length (um_ref [] m b) = length (um_ref [] (gc_contents gc) b)"
      and untouched: "\<And>b. b \<notin> (\<lambda>x. gv_buf (slot f ids c gc x)) ` set ids \<Longrightarrow> um_get m b = um_get (gc_contents gc) b"
      and each: "\<And>x. x \<in> set ids \<Longrightarrow> if x \<in> set pre then D gr1 m x else L gr1 m x"
      unfolding P_def gr1_def by blast
    have s: "s = (gc\<lparr>gc_contents := m\<rparr>, gr1)" by (simp add: gr1_def m [symmetric])
    have pid: "pid \<in> set ids" "pid \<notin> set pre" using split f by (auto simp: shapes_ok_def)
    let ?gc = "gc\<lparr>gc_contents := m\<rparr>"
    have go: "grad_of f ?gc gr' x = grad_of f gc gr' x" for gr' x by (simp add: grad_of_def)
    have L: "L gr1 m pid" using each [OF pid(1)] pid(2) by simp
    have "\<exists>s'. consolidate_param info masters pid (?gc, gr1) = Inr s' \<and> consolidated f ids c pid (?gc, gr1) s'"
    proof (rule consolidate_param_run [where f = f])
      show "shapes_ok f ids" "pid \<in> set ids" "info pid = Inr (f pid)" "gcons_ok f ids c ?gc"
        using f pid(1) info contents_ok [OF gc len] by simp_all
      show "in_master f ?gc pid \<Longrightarrow> pid \<in> masters" using masters [OF pid(1)] by simp
      show "gref_ok f ids ?gc pid g" if "grad_of f ?gc gr1 pid = Some g" for g
        using that gr [OF pid(1), of g] L by (simp add: go L_def gref_ok_contents [OF len])
    qed
    then obtain gc2 gr2 where run: "consolidate_param info masters pid (?gc, gr1) = Inr (gc2, gr2)"
      and con: "consolidated f ids c pid (?gc, gr1) (gc2, gr2)" by auto
    obtain m2 g2 where raw: "gc2 = ?gc\<lparr>gc_contents := m2\<rparr>" "\<forall>b. length (um_ref [] m2 b) = length (um_ref [] (gc_contents ?gc) b)"
      "\<forall>b. b \<noteq> gv_buf (slot f ids c ?gc pid) \<longrightarrow> um_get m2 b = um_get (gc_contents ?gc) b"
      "\<forall>q g. q \<in> set ids \<longrightarrow> q \<noteq> pid \<longrightarrow> gref_ok f ids ?gc q g \<longrightarrow> gref_read m2 g = gref_read (gc_contents ?gc) g"
      "grad_of f ?gc gr2 pid = Some g2" "gref_read m2 g2 = grad_elems f ?gc gr1 pid" "gref_ok f ids ?gc pid g2"
      "g2 = View (slot f ids c ?gc pid) \<or> in_master f ?gc pid \<and> grad_of f ?gc gr1 pid = Some g2"
      "\<forall>q. q \<noteq> pid \<longrightarrow> grad_of f ?gc gr2 q = grad_of f ?gc gr1 q"
      using con [unfolded consolidated_def prod.case] by (elim exE conjE)
    have gc2: "gc2 = gc\<lparr>gc_contents := m2\<rparr>" using raw(1) by simp
    have len2: "length (um_ref [] m2 b) = length (um_ref [] m b)" for b using raw(2) by simp
    have unt2: "um_get m2 b = um_get m b" if "b \<noteq> gv_buf (slot f ids c gc pid)" for b using raw(3) that by simp
    have others: "gref_read m2 g = gref_read m g" if "q \<in> set ids" "q \<noteq> pid" "gref_ok f ids gc q g" for q g
      using raw(4) that by (simp add: gref_ok_contents [OF len])
    have new: "grad_of f gc gr2 pid = Some g2" "gref_read m2 g2 = grad_elems f ?gc gr1 pid" "gref_ok f ids gc pid g2"
      "g2 = View (slot f ids c gc pid) \<or> in_master f gc pid \<and> grad_of f gc gr1 pid = Some g2"
      using raw(5-8) by (simp_all add: go gref_ok_contents [OF len])
    have same: "grad_of f gc gr2 q = grad_of f gc gr1 q" if "q \<noteq> pid" for q using raw(9) that by (simp add: go)
    have "grad_elems f ?gc gr1 pid = grad_elems f gc gr pid"
      using L by (auto simp: grad_elems_def go L_def split: option.split)
    then have Dp: "D gr2 m2 pid" using new L unfolding D_def L_def by (intro exI [of _ g2]) simp
    have "if x \<in> set (pre @ [pid]) then D gr2 m2 x else L gr2 m2 x" if x: "x \<in> set ids" for x
    proof (cases "x = pid")
      case False
      then show ?thesis using each [OF x] same [OF False] others [OF x False] gr [OF x] unfolding D_def L_def by (auto split: if_splits)
    qed (use Dp in simp)
    moreover have "um_get m2 b = um_get (gc_contents gc) b" if "b \<notin> (\<lambda>x. gv_buf (slot f ids c gc x)) ` set ids" for b
      using that unt2 [of b] untouched [of b] pid(1) by auto
    ultimately have "P (pre @ [pid]) (gc2, gr2)" unfolding P_def using gc2 len len2 by (intro exI [of _ m2]) simp
    with run s show "\<exists>s'. consolidate_param info masters pid s = Inr s' \<and> P (pre @ [pid]) s'" by blast
  qed
  then obtain s m where "rfold (consolidate_param info masters) ids (gc, gr) = Inr s" "fst s = gc\<lparr>gc_contents := m\<rparr>"
    "\<forall>b. length (um_ref [] m b) = length (um_ref [] (gc_contents gc) b)"
    "\<forall>b. b \<notin> (\<lambda>x. gv_buf (slot f ids c gc x)) ` set ids \<longrightarrow> um_get m b = um_get (gc_contents gc) b" "\<forall>x \<in> set ids. D (snd s) m x"
    unfolding P_def by auto
  then show ?thesis unfolding D_def by (intro exI [of _ m] exI [of _ "snd s"]) (simp add: prod_eq_iff)
qed

lemma consolidate_ok:
  assumes f: "shapes_ok f ids" and info: "\<And>x. x \<in> set ids \<Longrightarrow> info x = Inr (f x)" and gc: "gcons_ok f ids c gc"
    and masters: "\<And>x. x \<in> set ids \<Longrightarrow> in_master f gc x \<Longrightarrow> x \<in> masters"
    and gr: "\<And>x g. x \<in> set ids \<Longrightarrow> grad_of f gc gr x = Some g \<Longrightarrow> gref_ok f ids gc x g"
  shows "\<exists>gc' gr'. consolidate info masters (gc, gr) = Inr (gc', gr') \<and> gcons_ok f ids (current_buf c gc) gc' \<and>
    (\<forall>x \<in> set ids. grad_elems f gc' gr' x = grad_elems f gc gr x \<and>
       (\<exists>g. grad_of f gc' gr' x = Some g \<and> gref_ok f ids gc' x g \<and> (\<not> in_master f gc x \<longrightarrow> g = View (slot f ids (current_buf c gc) gc' x)))) \<and>
    (amp_fp32 gc \<longrightarrow> um_get (gc_contents gc') c = um_get (gc_contents gc) c)"
proof -
  let ?c = "current_buf c gc"
  obtain gc1 where gc1: "swap_buffers gc = Inr gc1" "gcons_ok f ids ?c gc1" "gc_contents gc1 = gc_contents gc"
    "gc_use_amp gc1 = gc_use_amp gc" "gc_consolidate_master gc1 = gc_consolidate_master gc" using swap_run [OF gc] by blast
  have im: "in_master f gc1 x = in_master f gc x" for x by (simp add: in_master_def gc1)
  have go: "grad_of f gc1 gr' x = grad_of f gc gr' x" for gr' x by (simp add: grad_of_def im)
  have rok: "gref_ok f ids gc1 x g = gref_ok f ids gc x g" for x g by (simp add: gref_ok_def has_buf_def gc1 split: gref.split)
  have el: "grad_elems f gc1 gr x = grad_elems f gc gr x" for x by (simp add: grad_elems_def go gc1(3) split: option.split)
  obtain m gr' where loop: "rfold (consolidate_param info masters) ids (gc1, gr) = Inr (gc1\<lparr>gc_contents := m\<rparr>, gr')"
    and len: "\<forall>b. length (um_ref [] m b) = length (um_ref [] (gc_contents gc1) b)"
    and rest: "\<forall>b. b \<notin> (\<lambda>x. gv_buf (slot f ids ?c gc1 x)) ` set ids \<longrightarrow> um_get m b = um_get (gc_contents gc1) b"
    and each: "\<forall>x \<in> set ids. \<exists>g. grad_of f gc1 gr' x = Some g \<and> gref_ok f ids gc1 x g \<and> gref_read m g = grad_elems f gc1 gr x \<and>
       (g = View (slot f ids ?c gc1 x) \<or> in_master f gc1 x \<and> grad_of f gc1 gr x = Some g)"
    using consolidate_loop [OF f info gc1(2), of masters gr] masters gr by (auto simp: im go rok)
  let ?gc = "gc1\<lparr>gc_contents := m\<rparr>"
  have ids: "gc_param_ids gc1 = ids" using gc1(2) by (simp add: gcons_ok_def)
  have run: "consolidate info masters (gc, gr) = Inr (?gc, gr')" using gc1(1) loop ids by (simp add: consolidate_def)
  have "grad_elems f ?gc gr' x = grad_elems f gc gr x \<and>
     (\<exists>g. grad_of f ?gc gr' x = Some g \<and> gref_ok f ids ?gc x g \<and> (\<not> in_master f gc x \<longrightarrow> g = View (slot f ids ?c ?gc x)))"
    if x: "x \<in> set ids" for x
  proof -
    from each x obtain g where g: "grad_of f gc1 gr' x = Some g" "gref_ok f ids gc1 x g" "gref_read m g = grad_elems f gc1 gr x"
      "g = View (slot f ids ?c gc1 x) \<or> in_master f gc1 x \<and> grad_of f gc1 gr x = Some g" by blast
    have "grad_of f ?gc gr' x = Some g" using g(1) by (simp add: grad_of_def)
    moreover have "grad_elems f ?gc gr' x = gref_read m g" using \<open>grad_of f ?gc gr' x = Some g\<close> by (simp add: grad_elems_def)
    ultimately show ?thesis using g(2-4) gref_ok_contents [of m gc1] len unfolding el by (auto simp: im)
  qed
  moreover have "um_get m c = um_get (gc_contents gc) c" if amp: "amp_fp32 gc"
  proof -
    have "c \<noteq> gv_buf (slot f ids ?c gc1 x)" for x
      using gc amp by (auto simp: slot_def view_of_def current_buf_def buf_of_def other_buf_def gcons_ok_def)
    then have "c \<notin> (\<lambda>x. gv_buf (slot f ids ?c gc1 x)) ` set ids" by (simp add: image_iff)
    with rest gc1(3) show ?thesis by simp
  qed
  ultimately show ?thesis using run contents_ok [OF gc1(2)] len by (intro exI [of _ ?gc] exI [of _ gr']) simp
qed

section \<open>Properties\<close>


definition demo_shape :: shape where
  "demo_shape x = (if x = 1 then (TE_FLOAT, 2) else if x = 2 then (TE_HALF, 3) else (TE_FLOAT, 1))"

lemma demo_shapes: "shapes_ok demo_shape [1, 2, 3]" "\<forall>x \<in> set [1, 2, 3]. (\<lambda>x. Inr (demo_shape x)) x = Inr (demo_shape x)"
  by (simp_all add: shapes_ok_def demo_shape_def)


text \<open>
  C25. Consolidating loses no gradient: whatever each gradient is before (not defined, elements of its own, a
  view of this or of the swapped buffer), afterwards the gradient of every parameter is defined with the same elements, or zeros
  where there was none; outside of the AMP master parameters it is the parameter's view of the
  buffer that is current now; and when AMP swaps the two single precision buffers, the one
  swapped out, which AMP has stashed, keeps its elements.
\<close>

theorem consolidate_keeps_gradients:
  assumes "shapes_ok f ids" "\<forall>x \<in> set ids. info x = Inr (f x)" "gcons_ok f ids c gc"
    and "\<forall>x \<in> set ids. in_master f gc x \<longrightarrow> x \<in> masters" "\<forall>x \<in> set ids. \<forall>g. grad_of f gc gr x = Some g \<longrightarrow> gref_ok f ids gc x g"
  shows "\<exists>gc' gr'. consolidate info masters (gc, gr) = Inr (gc', gr') \<and> gcons_ok f ids (current_buf c gc) gc' \<and>
    (\<forall>x \<in> set ids. grad_elems f gc' gr' x = grad_elems f gc gr x \<and>
       (\<exists>g. grad_of f gc' gr' x = Some g \<and> gref_ok f ids gc' x g \<and> (\<not> in_master f gc x \<longrightarrow> g = View (slot f ids (current_buf c gc) gc' x)))) \<and>
    (amp_fp32 gc \<longrightarrow> um_get (gc_contents gc') c = um_get (gc_contents gc) c)"
  by (rule consolidate_ok) (use assms in blast)+

theorem consolidate_keeps_gradients_witness:
  "\<exists>(gc :: int gcons) gc' gr'. new_gcons (\<lambda>x. Inr (demo_shape x)) [1, 2, 3] True False = Inr gc \<and>
    consolidate (\<lambda>x. Inr (demo_shape x)) {} (gc, \<lparr>gr_model = [(1, Own [5, 6])], gr_master = []\<rparr>) = Inr (gc', gr') \<and>
    grad_elems demo_shape gc' gr' 1 = [5, 6] \<and> grad_elems demo_shape gc' gr' 2 = [0, 0, 0]"
proof -
  let ?gr = "\<lparr>gr_model = [(1, Own [5, 6])], gr_master = []\<rparr> :: int grads"
  obtain gc :: "int gcons" where gc: "new_gcons (\<lambda>x. Inr (demo_shape x)) [1, 2, 3] True False = Inr gc"
    "gcons_ok demo_shape [1, 2, 3] (Grad_buf TE_FLOAT) gc" "gc_consolidate_master gc = False"
    using new_gcons_ok [OF demo_shapes(1), of "\<lambda>x. Inr (demo_shape x)" True False] by auto
  have im: "\<not> in_master demo_shape gc x" for x by (simp add: in_master_def gc(3))
  have gr: "\<forall>x \<in> set [1, 2, 3]. \<forall>g. grad_of demo_shape gc ?gr x = Some g \<longrightarrow> gref_ok demo_shape [1, 2, 3] gc x g"
    by (auto simp: grad_of_def im gref_ok_def demo_shape_def)
  from consolidate_keeps_gradients [OF demo_shapes gc(2) _ gr, of "{}"] im
  obtain gc' gr' where "consolidate (\<lambda>x. Inr (demo_shape x)) {} (gc, ?gr) = Inr (gc', gr')"
    "\<forall>x \<in> set [1, 2, 3]. grad_elems demo_shape gc' gr' x = grad_elems demo_shape gc ?gr x" by blast
  with gc(1) show ?thesis
    by (intro exI [of _ gc] exI [of _ gc'] exI [of _ gr']) (simp add: grad_elems_def [of _ gc] grad_of_def im gref_read_def demo_shape_def eval_nat_numeral)
qed

end
