(* ===== verification/Param_Storage.thy ===== *)
theory Param_Storage
  imports Param_Segments Deployment Grad_Consolidation
begin

text \<open>
  The parameters of the deployed graphs on one rank (\<open>class ParamStorage\<close> of \<open>comp/ParamStorage.h\<close> and
  \<open>comp/ParamStorage.cpp\<close>): registration under a local and a global id, use by graphs with a count of the
  uses, deployment on the ranks that need a parameter, and release.

  MPI, NCCL and CUDA are parameters: the global id and the data that a broadcast delivers, the tags of
  the root, the gather of segments, and \<open>fetch\<close>, which loads a parameter kept in segments. A call of a collective
  operation is an event that the model returns. The creation of communicators, barriers and log messages do not
  appear. The scaling and the norm of gradients, in floating point, are not modelled.
\<close>

section \<open>The storage\<close>

record 'a storage =
  graph_params :: "(string, (string, int) umap) umap"
  unused_params :: "(string, (string, int) umap) umap"
  ps_params :: "(int, 'a tensor) umap"
  buffer_ids :: "int set"
  dist_ids :: "int set"
  ps_ranks :: "(int, int set) umap"
  my_param_ranks :: "(string, (int, int set) umap) umap"
  ref_counts :: "(int, int) umap"
  amp_master_params :: "(int, 'a tensor) umap"
  amp_param_id_map :: "(int, int) umap"
  id_global_to_local :: "(int, int) umap"
  id_local_to_global :: "(int, int) umap"
  ps_consolidate :: bool
  allreduce_amp_master_params :: bool
  grad_cons :: "(string, (int, 'a gcons) umap) umap"
  grouped_params :: "(string, (int, int list) umap) umap"
  tag_rank_set :: "(int, int set) umap"
  use_amp_master_params :: "(string, bool) umap"
  zero_grad_locators :: "(string, 'a grad_locator) umap"

definition new_storage :: "'a storage" where
  "new_storage = \<lparr>graph_params = [], unused_params = [], ps_params = [], buffer_ids = {}, dist_ids = {}, ps_ranks = [], my_param_ranks = [],
     ref_counts = [], amp_master_params = [], amp_param_id_map = [], id_global_to_local = [], id_local_to_global = [],
     ps_consolidate = False, allreduce_amp_master_params = False, grad_cons = [], grouped_params = [], tag_rank_set = [],
     use_amp_master_params = [], zero_grad_locators = []\<rparr>"

text \<open>The parameter ids in the order of the names; \<open>sort_names\<close> is \<open>std::sort\<close> on strings.\<close>

definition getSortedParamIDs :: "(string list \<Rightarrow> string list) \<Rightarrow> (string, int) umap \<Rightarrow> int list res" where
  "getSortedParamIDs sort_names pmap = rmap (um_at pmap) (sort_names (map fst pmap))"

section \<open>Registration\<close>

definition registerParam :: "int \<Rightarrow> int \<Rightarrow> 'a tensor \<Rightarrow> bool \<Rightarrow> bool \<Rightarrow> 'a storage \<Rightarrow> 'a storage res" where
  "registerParam global_id param_id t buffer dist s =
     rbind (rassert (\<not> um_contains (ps_params s) param_id)) (\<lambda>_.
     Inr (s\<lparr>ps_params := um_set param_id t (ps_params s),
            id_global_to_local := um_set global_id param_id (id_global_to_local s),
            id_local_to_global := um_set param_id global_id (id_local_to_global s),
            buffer_ids := (if buffer then insert param_id (buffer_ids s) else buffer_ids s),
            dist_ids := (if dist then insert param_id (dist_ids s) else dist_ids s)\<rparr>))"

definition registerAmpMasterParam :: "int \<Rightarrow> int \<Rightarrow> 'a tensor \<Rightarrow> 'a storage \<Rightarrow> 'a storage" where
  "registerAmpMasterParam model_param_id master_param_id t s =
     s\<lparr>amp_master_params := um_set model_param_id t (amp_master_params s),
       amp_param_id_map := um_set master_param_id model_param_id (amp_param_id_map s)\<rparr>"

definition globalToLocal :: "'a storage \<Rightarrow> int \<Rightarrow> int res" where
  "globalToLocal s global_param_id =
     rbind (rassert (um_contains (id_global_to_local s) global_param_id)) (\<lambda>_. um_at (id_global_to_local s) global_param_id)"

definition localToGlobal :: "'a storage \<Rightarrow> int \<Rightarrow> int res" where
  "localToGlobal s local_param_id =
     rbind (if um_contains (amp_param_id_map s) local_param_id
            then rbind (um_at (amp_param_id_map s) local_param_id) (\<lambda>model_id.
                 rbind (rassert (um_contains (id_local_to_global s) model_id)) (\<lambda>_. Inr model_id))
            else Inr local_param_id) (\<lambda>local_id.
     if um_contains (id_local_to_global s) local_id then um_at (id_local_to_global s) local_id
     else Inl Invalid_argument)"

text \<open>A parameter that this rank does not need moves from the used to the unused ones, under its global id.\<close>

definition unregister_name :: "int \<Rightarrow> string \<Rightarrow> string \<Rightarrow> 'a storage \<Rightarrow> 'a storage res" where
  "unregister_name param_id gid pname s =
     (let gp = um_ref [] (graph_params s) gid in
      rbind (rassert (um_contains gp pname)) (\<lambda>_.
      rbind (um_at gp pname) (\<lambda>pid.
      rbind (localToGlobal s pid) (\<lambda>global_id.
      Inr (s\<lparr>unused_params := um_set gid (um_set pname global_id (um_ref [] (unused_params s) gid)) (unused_params s),
             graph_params := um_set gid (um_erase pname gp) (graph_params s)\<rparr>)))))"

definition unregister_graph :: "int \<Rightarrow> string \<Rightarrow> 'a storage \<Rightarrow> 'a storage res" where
  "unregister_graph param_id gid s =
     rfold (unregister_name param_id gid) (map fst (filter (\<lambda>(_, p). p = param_id) (um_ref [] (graph_params s) gid))) s"

definition unregisterParam :: "int \<Rightarrow> 'a storage \<Rightarrow> 'a storage res" where
  "unregisterParam param_id s =
     rbind (rfold (unregister_graph param_id) (um_keys (graph_params s) True) s) (\<lambda>s1.
     rbind (rassert (um_contains (ps_params s1) param_id)) (\<lambda>_.
     Inr (s1\<lparr>ps_params := um_erase param_id (ps_params s1)\<rparr>)))"

section \<open>Queries\<close>

definition getParamIDs :: "'a storage \<Rightarrow> string \<Rightarrow> bool \<Rightarrow> (string, int) umap res" where
  "getParamIDs s graph_id include_buffer =
     rbind (um_at (graph_params s) graph_id) (\<lambda>gp.
     Inr (if include_buffer then gp else filter (\<lambda>(_, p). p \<notin> buffer_ids s) gp))"

definition getParamID :: "'a storage \<Rightarrow> string \<Rightarrow> string \<Rightarrow> int res" where
  "getParamID s graph_id name =
     rbind (rassert (um_contains (graph_params s) graph_id)) (\<lambda>_.
     rbind (um_at (graph_params s) graph_id) (\<lambda>params.
     rbind (rassert (um_contains params name)) (\<lambda>_. um_at params name)))"

definition ps_distributed :: "'a storage \<Rightarrow> int \<Rightarrow> bool" where
  "ps_distributed s param_id \<longleftrightarrow> param_id \<in> dist_ids s"

definition getParamTensor :: "(int \<Rightarrow> 'a tensor res) \<Rightarrow> 'a storage \<Rightarrow> int \<Rightarrow> 'a tensor res" where
  "getParamTensor fetch s param_id =
     (if \<not> um_contains (ps_params s) param_id then Inl Invalid_argument
      else if ps_distributed s param_id then fetch param_id
      else um_at (ps_params s) param_id)"

definition getParamTensor_name :: "(int \<Rightarrow> 'a tensor res) \<Rightarrow> 'a storage \<Rightarrow> string \<Rightarrow> string \<Rightarrow> 'a tensor res" where
  "getParamTensor_name fetch s graph_id name = rbind (getParamID s graph_id name) (getParamTensor fetch s)"

definition hasAmpMasterParam :: "'a storage \<Rightarrow> int \<Rightarrow> bool" where
  "hasAmpMasterParam s param_id = um_contains (amp_master_params s) param_id"

definition getAmpMasterParamTensor :: "'a storage \<Rightarrow> int \<Rightarrow> 'a tensor res" where
  "getAmpMasterParamTensor s param_id =
     (if \<not> hasAmpMasterParam s param_id then Inl Invalid_argument else um_at (amp_master_params s) param_id)"

definition getParamType :: "(int \<Rightarrow> 'a tensor res) \<Rightarrow> 'a storage \<Rightarrow> int \<Rightarrow> IRType res" where
  "getParamType fetch s param_id = rbind (getParamTensor fetch s param_id) (\<lambda>t. Inr (t_type t))"

definition getParamType_name :: "(int \<Rightarrow> 'a tensor res) \<Rightarrow> 'a storage \<Rightarrow> string \<Rightarrow> string \<Rightarrow> IRType res" where
  "getParamType_name fetch s graph_id name = rbind (getParamID s graph_id name) (getParamType fetch s)"

definition zeroEnabled :: "'a storage \<Rightarrow> string \<Rightarrow> bool" where
  "zeroEnabled s graph_id = um_contains (zero_grad_locators s) graph_id"

section \<open>Use and release\<close>

definition useParam :: "string \<Rightarrow> string \<Rightarrow> int \<Rightarrow> 'a storage \<Rightarrow> 'a storage" where
  "useParam graph_id name param_id s =
     s\<lparr>graph_params := um_set graph_id (um_set name param_id (um_ref [] (graph_params s) graph_id)) (graph_params s),
       ref_counts := um_set param_id (um_ref 0 (ref_counts s) param_id + 1) (ref_counts s)\<rparr>"

definition useAmpMasterParams :: "string \<Rightarrow> bool \<Rightarrow> 'a storage \<Rightarrow> 'a storage" where
  "useAmpMasterParams graph_id b s = s\<lparr>use_amp_master_params := um_set graph_id b (use_amp_master_params s)\<rparr>"

text \<open>Reading a count that is missing inserts a zero.\<close>

definition doReleaseParam :: "int \<Rightarrow> 'a storage \<Rightarrow> 'a storage res" where
  "doReleaseParam param_id s =
     (if um_ref 0 (ref_counts s) param_id = 0
      then let s1 = s\<lparr>ps_params := um_erase param_id (ps_params s), ps_ranks := um_erase param_id (ps_ranks s),
                      ref_counts := um_erase param_id (ref_counts s)\<rparr>
           in rbind (um_at (id_local_to_global s1) param_id) (\<lambda>global_id.
              Inr (s1\<lparr>id_local_to_global := um_erase param_id (id_local_to_global s1),
                      id_global_to_local := um_erase global_id (id_global_to_local s1)\<rparr>))
      else Inr s)"

definition release_use :: "int \<Rightarrow> 'a storage \<Rightarrow> 'a storage res" where
  "release_use param_id s =
     doReleaseParam param_id (s\<lparr>ref_counts := um_set param_id (um_ref 0 (ref_counts s) param_id - 1) (ref_counts s)\<rparr>)"

definition release_unused :: "int \<Rightarrow> 'a storage \<Rightarrow> 'a storage res" where
  "release_unused global_id s =
     rbind (rassert (um_contains (id_global_to_local s) global_id)) (\<lambda>_.
     rbind (um_at (id_global_to_local s) global_id) (\<lambda>param_id. release_use param_id s))"

definition releaseGraphParams :: "string \<Rightarrow> 'a storage \<Rightarrow> 'a storage res" where
  "releaseGraphParams graph_id s =
     rbind (rfold release_use (map snd (um_ref [] (graph_params s) graph_id)) s) (\<lambda>s1.
     rbind (rfold release_unused (map snd (um_ref [] (unused_params s1) graph_id)) s1) (\<lambda>s2.
     Inr (s2\<lparr>graph_params := um_erase graph_id (graph_params s2), grad_cons := um_erase graph_id (grad_cons s2),
             grouped_params := um_erase graph_id (grouped_params s2), unused_params := um_erase graph_id (unused_params s2),
             zero_grad_locators := um_erase graph_id (zero_grad_locators s2)\<rparr>)))"

text \<open>\<open>clear\<close> leaves the ids of distributed parameters, the locators and the flags.\<close>

definition clear_storage :: "'a storage \<Rightarrow> 'a storage" where
  "clear_storage s = s\<lparr>graph_params := [], unused_params := [], ps_params := [], buffer_ids := {}, ps_ranks := [], my_param_ranks := [],
     ref_counts := [], amp_master_params := [], amp_param_id_map := [], id_global_to_local := [], id_local_to_global := [],
     grad_cons := [], grouped_params := [], tag_rank_set := [], use_amp_master_params := []\<rparr>"

section \<open>Deployment\<close>

text \<open>What comes from outside: the hash functions, this rank, the ranks, sorting, and the results of communication.\<close>

record 'a storage_env =
  se_hasher :: hasher
  se_rank :: int
  se_all_ranks :: "int set"
  se_sort_names :: "string list \<Rightarrow> string list"
  se_root_tags :: "int set"
  se_gather :: "int \<Rightarrow> 'a list \<Rightarrow> 'a list"
  se_root_data :: "int \<Rightarrow> 'a list"
  se_root_id :: "int \<Rightarrow> int"
  se_sync_on_init :: bool

type_synonym 'a storage_state = "TagMap \<times> 'a param_locator \<times> 'a storage"

definition note_ranks :: "'a storage_env \<Rightarrow> string \<Rightarrow> int \<Rightarrow> string \<Rightarrow> string \<Rightarrow> int set \<Rightarrow>
    'a storage \<times> (string \<times> int, string set) umap \<Rightarrow> 'a storage \<times> (string \<times> int, string set) umap" where
  "note_ranks env graph_id param_id param_name sg_id param_ranks = (\<lambda>(s, param_graph_set).
     let s1 = (if param_ranks = {} then s else s\<lparr>ps_ranks := um_set param_id (um_ref {} (ps_ranks s) param_id \<union> param_ranks) (ps_ranks s)\<rparr>);
         pgs = fold (\<lambda>r m. um_set (param_name, r) (insert sg_id (um_ref {} m (param_name, r))) m) (sorted_list_of_set param_ranks) param_graph_set;
         s2 = (if se_rank env \<in> param_ranks
               then s1\<lparr>my_param_ranks := um_set graph_id (um_set param_id param_ranks (um_ref [] (my_param_ranks s1) graph_id)) (my_param_ranks s1)\<rparr>
               else s1)
     in (s2, pgs))"

definition note_subgraph :: "'a storage_env \<Rightarrow> string \<Rightarrow> (int, string) umap \<Rightarrow> int \<Rightarrow> string \<times> (string, int set) umap \<Rightarrow>
    'a storage \<times> (string \<times> int, string set) umap \<Rightarrow> ('a storage \<times> (string \<times> int, string set) umap) res" where
  "note_subgraph env graph_id id_to_name param_id = (\<lambda>(sg_id, sg_rank_maps) a.
     rbind (rassert (um_contains id_to_name param_id)) (\<lambda>_.
     rbind (um_at id_to_name param_id) (\<lambda>param_name.
     if \<not> um_contains sg_rank_maps param_name then Inr a
     else rbind (um_at sg_rank_maps param_name) (\<lambda>param_ranks.
          Inr (note_ranks env graph_id param_id param_name sg_id param_ranks a)))))"

definition note_param :: "'a storage_env \<Rightarrow> string \<Rightarrow> (int, string) umap \<Rightarrow> value_ranks \<Rightarrow> int \<Rightarrow>
    'a storage \<times> (string \<times> int, string set) umap \<Rightarrow> ('a storage \<times> (string \<times> int, string set) umap) res" where
  "note_param env graph_id id_to_name param_rank_maps param_id = rfold (note_subgraph env graph_id id_to_name param_id) param_rank_maps"

text \<open>A parameter shared by two subgraphs of one rank is rejected.\<close>

definition check_sharing :: "(string \<times> int, string set) umap \<Rightarrow> unit res" where
  "check_sharing param_graph_set = (if \<exists>(_, graphs) \<in> set param_graph_set. card graphs > 1 then Inl Runtime_error else Inr ())"

definition syncParamOnInit :: "'a storage_env \<Rightarrow> int \<Rightarrow> 'a storage \<Rightarrow> 'a storage res" where
  "syncParamOnInit env param_id s =
     rbind (um_at (ps_params s) param_id) (\<lambda>t.
     Inr (if se_sync_on_init env then s\<lparr>ps_params := um_set param_id (t\<lparr>t_data := se_root_data env param_id\<rparr>) (ps_params s)\<rparr> else s))"

text \<open>
  A parameter in segments becomes whole on the ranks that need it, and a stub elsewhere. \<open>set_data\<close> replaces
  the elements and their type and leaves the gradient flag of the parameter.
\<close>

definition stub_type :: IRType where
  "stub_type = createTensorType TE_FLOAT [1] False"

definition load_distributed :: "'a storage_env \<Rightarrow> int \<Rightarrow> int set \<Rightarrow> (('a :: zero) storage_state, unit) st" where
  "load_distributed env param_id param_ranks = (\<lambda>(tm, l, s).
     rbind (um_at (ps_params s) param_id) (\<lambda>t.
     rbind (if se_rank env \<in> param_ranks
            then rbind (load (se_hasher env) (se_all_ranks env) (se_gather env param_id) param_id (tm, l)) (\<lambda>(z, tm1, l1).
                 Inr (t\<lparr>t_type := setRequiresGrad (requires_grad (t_type t)) (t_type z), t_data := t_data z\<rparr>, tm1, l1))
            else Inr (t\<lparr>t_type := setRequiresGrad (requires_grad (t_type t)) stub_type, t_data := [0]\<rparr>, tm, l)) (\<lambda>(t1, tm1, l1).
     Inr ((), tm1, remove_param param_id l1,
          s\<lparr>ps_params := um_set param_id t1 (ps_params s), dist_ids := dist_ids s - {param_id}\<rparr>))))"

definition place_param :: "'a storage_env \<Rightarrow> string \<Rightarrow> (int, string) umap \<Rightarrow> int \<Rightarrow> (('a :: zero) storage_state, unit) st" where
  "place_param env graph_id id_to_name param_id = (\<lambda>(tm, l, s).
     if \<not> um_contains (ps_ranks s) param_id then Inr ((), tm, l, s)
     else rbind (um_at (ps_ranks s) param_id) (\<lambda>param_ranks.
          rbind (if se_rank env = 0 \<and> se_sync_on_init env
                 then rbind (rassert (um_contains id_to_name param_id)) (\<lambda>_. rbind (um_at id_to_name param_id) (\<lambda>_. Inr ()))
                 else Inr ()) (\<lambda>_.
          rbind (getRankSetTag (se_hasher env) param_ranks tm) (\<lambda>(comm_tag, tm1).
          rbind (if ps_distributed s param_id then load_distributed env param_id param_ranks (tm1, l, s)
                 else rbind (syncParamOnInit env param_id s) (\<lambda>s1. Inr ((), tm1, l, s1))) (\<lambda>(_, tm2, l2, s2).
          let grouped = um_ref [] (grouped_params s2) graph_id in
          Inr ((), tm2, l2, s2
            \<lparr>grouped_params := um_set graph_id (um_set comm_tag (um_ref [] grouped comm_tag @ [param_id]) grouped) (grouped_params s2),
             tag_rank_set := um_set comm_tag param_ranks (tag_rank_set s2)\<rparr>))))))"

definition zero_param :: "'a storage_env \<Rightarrow> string \<Rightarrow> int \<Rightarrow> ('a storage_state, unit) st" where
  "zero_param env graph_id param_id = (\<lambda>(tm, l, s).
     if \<not> um_contains (ps_ranks s) param_id then Inr ((), tm, l, s)
     else rbind (um_at (ps_ranks s) param_id) (\<lambda>param_ranks.
          if se_rank env \<notin> param_ranks then Inr ((), tm, l, s)
          else rbind (um_at (ps_params s) param_id) (\<lambda>t.
               rbind (um_at (zero_grad_locators s) graph_id) (\<lambda>locator.
               rbind (registerGrad (se_hasher env) (se_rank env) (se_root_id env param_id) param_id t param_ranks (tm, locator)) (\<lambda>(_, tm1, locator1).
               Inr ((), tm1, l, s\<lparr>zero_grad_locators := um_set graph_id locator1 (zero_grad_locators s)\<rparr>))))))"

definition storage_info :: "(int \<Rightarrow> 'a tensor res) \<Rightarrow> 'a storage \<Rightarrow> param_info" where
  "storage_info fetch s pid = rbind (getParamTensor fetch s pid) (\<lambda>t. Inr (tensor_elem_type (t_type t), numel t))"

definition consolidate_group :: "'a storage_env \<Rightarrow> (int \<Rightarrow> 'a tensor res) \<Rightarrow> string \<Rightarrow> int \<times> int list \<Rightarrow> ('a :: zero) storage \<Rightarrow> 'a storage res" where
  "consolidate_group env fetch graph_id = (\<lambda>(tag, param_ids) s.
     rbind (um_at (tag_rank_set s) tag) (\<lambda>ranks.
     if se_rank env \<notin> ranks then Inr s
     else rbind (rassert (um_contains (use_amp_master_params s) graph_id)) (\<lambda>_.
          rbind (um_at (use_amp_master_params s) graph_id) (\<lambda>use_amp.
          rbind (new_gcons (storage_info fetch s) param_ids use_amp (allreduce_amp_master_params s)) (\<lambda>gc.
          Inr (s\<lparr>grad_cons := um_set graph_id (um_set tag gc (um_ref [] (grad_cons s) graph_id)) (grad_cons s)\<rparr>))))))"

definition deploy_params :: "'a storage_env \<Rightarrow> (int \<Rightarrow> 'a tensor res) \<Rightarrow> Deployment \<Rightarrow> (string, int) umap \<Rightarrow> bool \<Rightarrow> (('a :: zero) storage_state, unit) st" where
  "deploy_params env fetch decomp gparams enable_zero = (\<lambda>(tm, l, s).
     let graph_id = d_id decomp;
         s1 = fold (\<lambda>(name, pid). useParam graph_id name pid) gparams s
     in rbind (getParamIDs s1 graph_id False) (\<lambda>only_params.
        let id_to_name = um_of (map (\<lambda>(name, pid). (pid, name)) only_params) in
        rbind (getParamRanks (se_sort_names env) decomp) (\<lambda>param_rank_maps.
        let s2 = s1\<lparr>grouped_params := um_set graph_id (um_ref [] (grouped_params s1) graph_id) (grouped_params s1)\<rparr> in
        rbind (getSortedParamIDs (se_sort_names env) gparams) (\<lambda>sorted_param_ids.
        rbind (rfold (note_param env graph_id id_to_name param_rank_maps) sorted_param_ids (s2, [])) (\<lambda>(s3, param_graph_set).
        rbind (check_sharing param_graph_set) (\<lambda>_.
        rbind (sfold (\<lambda>pid _. place_param env graph_id id_to_name pid) sorted_param_ids () (tm_sync (se_root_tags env) tm, l, s3)) (\<lambda>(_, tm4, l4, s4).
        if enable_zero
        then sfold (\<lambda>pid _. zero_param env graph_id pid) sorted_param_ids ()
               (tm4, l4, s4\<lparr>zero_grad_locators := um_set graph_id (locator.extend new_locator \<lparr>gl_params = [], gl_local_segments = []\<rparr>) (zero_grad_locators s4)\<rparr>)
        else if ps_consolidate s4
        then rbind (rfold (consolidate_group env fetch graph_id) (um_ref [] (grouped_params s4) graph_id) s4) (\<lambda>s5. Inr ((), tm4, l4, s5))
        else Inr ((), tm4, l4, s4))))))))"

section \<open>Gradients\<close>

text \<open>
  The collective operations that a rank takes part in, with the tag of their communicator. The roots of a reduction or a
  broadcast are positions among the ranks of the communicator.
\<close>

datatype collective =
    Allreduce_buffers int "gbuf list"
  | Allreduce_grads int "int list"
  | Reduce_segments int "seg_view list" "int list"
  | Bcast_segments int "seg_view list" "int list"

text \<open>\<open>sort_tags\<close> is \<open>std::sort\<close> with a comparison of the sizes of the rank sets.\<close>

definition sortCommTags :: "((int \<Rightarrow> nat) \<Rightarrow> int list \<Rightarrow> int list) \<Rightarrow> string \<Rightarrow> ('a storage, int list) st" where
  "sortCommTags sort_tags graph_id = (\<lambda>s.
     let grouped = um_ref [] (grouped_params s) graph_id;
         s1 = s\<lparr>grouped_params := um_set graph_id grouped (grouped_params s)\<rparr>;
         sorted_tags = sort (map fst grouped)
     in if length sorted_tags \<le> 1 then Inr (sorted_tags, s1)
        else rbind (rmap (um_at (tag_rank_set s)) sorted_tags) (\<lambda>_.
             Inr (sort_tags (\<lambda>t. card (um_ref {} (tag_rank_set s) t)) sorted_tags, s1)))"

definition all_segments :: "'a grad_locator \<Rightarrow> bool \<Rightarrow> int \<Rightarrow> (seg_view list \<times> int list) res" where
  "all_segments l grad pid =
     rbind (getSegmentNum l pid) (\<lambda>n.
     rbind (rmap (\<lambda>i. getSegment l pid (int i) grad) [0..<n]) (\<lambda>segments. Inr (segments, map int [0..<n])))"

definition reduce_segments :: "int list \<Rightarrow> 'a grad_locator \<Rightarrow> (seg_view list \<times> int list \<times> 'a grad_locator) res" where
  "reduce_segments param_ids locator =
     rfold (\<lambda>pid (grads, roots, l).
       rbind (all_segments l True pid) (\<lambda>(segments, rs).
       rbind (setGradToLocalParamSegment pid l) (\<lambda>l1. Inr (grads @ segments, roots @ rs, l1)))) param_ids ([], [], locator)"

definition defined_grads :: "(int \<Rightarrow> 'a tensor res) \<Rightarrow> 'a storage \<Rightarrow> int list \<Rightarrow> int list res" where
  "defined_grads fetch s param_ids =
     rfilter (\<lambda>pid. rbind (if allreduce_amp_master_params s \<and> hasAmpMasterParam s pid then getAmpMasterParamTensor s pid
                            else getParamTensor fetch s pid) (\<lambda>t. Inr (t_grad t \<noteq> None))) param_ids"

definition allreduce_tag :: "'a storage_env \<Rightarrow> (int \<Rightarrow> 'a tensor res) \<Rightarrow> string \<Rightarrow> int \<Rightarrow> ('a storage, collective list) st" where
  "allreduce_tag env fetch graph_id tag = (\<lambda>s.
     rbind (rassert (um_contains (tag_rank_set s) tag)) (\<lambda>_.
     rbind (um_at (tag_rank_set s) tag) (\<lambda>ranks.
     if se_rank env \<notin> ranks then Inr ([], s)
     else if ps_consolidate s
     then let graph_grad_cons = um_ref [] (grad_cons s) graph_id
          in rbind (um_at graph_grad_cons tag) (\<lambda>gc.
             Inr ([Allreduce_buffers tag (getConsolidatedGrads gc)], s\<lparr>grad_cons := um_set graph_id graph_grad_cons (grad_cons s)\<rparr>))
     else rbind (um_at (um_ref [] (grouped_params s) graph_id) tag) (\<lambda>param_ids.
          if zeroEnabled s graph_id
          then rbind (um_at (zero_grad_locators s) graph_id) (\<lambda>locator.
               rbind (reduce_segments param_ids locator) (\<lambda>(grads, roots, locator1).
               Inr ([Reduce_segments tag grads roots], s\<lparr>zero_grad_locators := um_set graph_id locator1 (zero_grad_locators s)\<rparr>)))
          else rbind (defined_grads fetch s param_ids) (\<lambda>pids. Inr ([Allreduce_grads tag pids], s))))))"

definition allReduceParamGrads ::
    "'a storage_env \<Rightarrow> (int \<Rightarrow> 'a tensor res) \<Rightarrow> ((int \<Rightarrow> nat) \<Rightarrow> int list \<Rightarrow> int list) \<Rightarrow> string \<Rightarrow> ('a storage, collective list) st" where
  "allReduceParamGrads env fetch sort_tags graph_id =
     sbind (sortCommTags sort_tags graph_id) (\<lambda>sorted_tags.
     sbind (smap (allreduce_tag env fetch graph_id) sorted_tags) (\<lambda>cs. sret (concat cs)))"

definition bcast_tag :: "'a storage_env \<Rightarrow> string \<Rightarrow> bool \<Rightarrow> 'a grad_locator \<Rightarrow> int \<Rightarrow> ('a storage, collective list) st" where
  "bcast_tag env graph_id grad locator tag = (\<lambda>s.
     rbind (rassert (um_contains (tag_rank_set s) tag)) (\<lambda>_.
     rbind (um_at (tag_rank_set s) tag) (\<lambda>ranks.
     if se_rank env \<notin> ranks then Inr ([], s)
     else rbind (um_at (um_ref [] (grouped_params s) graph_id) tag) (\<lambda>param_ids.
          rbind (rmap (all_segments locator grad) param_ids) (\<lambda>segs.
          Inr ([Bcast_segments tag (concat (map fst segs)) (concat (map snd segs))], s))))))"

definition bcastParamsZero ::
    "'a storage_env \<Rightarrow> ((int \<Rightarrow> nat) \<Rightarrow> int list \<Rightarrow> int list) \<Rightarrow> string \<Rightarrow> bool \<Rightarrow> ('a storage, collective list) st" where
  "bcastParamsZero env sort_tags graph_id grad = (\<lambda>s.
     rbind (rassert (zeroEnabled s graph_id)) (\<lambda>_.
     rbind (um_at (zero_grad_locators s) graph_id) (\<lambda>locator.
     sbind (sortCommTags sort_tags graph_id) (\<lambda>sorted_tags.
     sbind (smap (bcast_tag env graph_id grad locator) sorted_tags) (\<lambda>cs. sret (concat cs))) s)))"

definition setGradToLocalParamSegments :: "string \<Rightarrow> 'a storage \<Rightarrow> 'a storage res" where
  "setGradToLocalParamSegments graph_id s =
     (if zeroEnabled s graph_id
      then rbind (um_at (zero_grad_locators s) graph_id) (\<lambda>locator.
           rbind (getParamIDs s graph_id False) (\<lambda>pids.
           rbind (rfold setGradToLocalParamSegment (map snd pids) locator) (\<lambda>locator1.
           Inr (s\<lparr>zero_grad_locators := um_set graph_id locator1 (zero_grad_locators s)\<rparr>))))
      else Inr s)"

text \<open>The first graph with ZeRO, in the order of the map, that uses a parameter.\<close>

fun zero_graph_of :: "'a storage \<Rightarrow> int \<Rightarrow> (string \<times> 'a grad_locator) list \<Rightarrow> (string \<times> 'a grad_locator) res" where
  "zero_graph_of s param_id [] = Inl Invalid_argument"
| "zero_graph_of s param_id ((gid, locator) # rest) =
     rbind (getParamIDs s gid False) (\<lambda>pids.
     if param_id \<in> snd ` set pids
     then rbind (rassert (um_contains (ps_ranks s) param_id)) (\<lambda>_. Inr (gid, locator))
     else zero_graph_of s param_id rest)"

definition ps_getLocalParamSegment :: "int \<Rightarrow> ('a storage, seg_view) st" where
  "ps_getLocalParamSegment param_id = (\<lambda>s.
     rbind (zero_graph_of s param_id (zero_grad_locators s)) (\<lambda>(gid, locator).
     rbind (getLocalParamSegment param_id locator) (\<lambda>(v, locator1).
     Inr (v, s\<lparr>zero_grad_locators := um_set gid locator1 (zero_grad_locators s)\<rparr>))))"

definition getLocalParamRange :: "'a storage \<Rightarrow> int \<Rightarrow> (int \<times> int) res" where
  "getLocalParamRange s param_id =
     rbind (zero_graph_of s param_id (zero_grad_locators s)) (\<lambda>(gid, locator). getMySegmentRange locator param_id)"

definition zero_buffers :: "('a :: zero) gcons \<Rightarrow> 'a gcons" where
  "zero_buffers gc = gc\<lparr>gc_contents := fold (\<lambda>b m. um_set b (map (\<lambda>_. 0) (um_ref [] m b)) m) (getConsolidatedGrads gc) (gc_contents gc)\<rparr>"

definition clearParamGrads :: "(int \<Rightarrow> 'a tensor res) \<Rightarrow> string \<Rightarrow> ('a :: zero) storage \<Rightarrow> 'a storage res" where
  "clearParamGrads fetch graph_id s =
     (if ps_consolidate s
      then Inr (s\<lparr>grad_cons := um_set graph_id (map (\<lambda>(tag, gc). (tag, zero_buffers gc)) (um_ref [] (grad_cons s) graph_id)) (grad_cons s)\<rparr>)
      else rbind (getParamIDs s graph_id False) (\<lambda>pids.
           rfold (\<lambda>pid s. rbind (getParamTensor fetch s pid) (\<lambda>t.
             Inr (if ps_distributed s pid then s
                  else s\<lparr>ps_params := um_set pid (t\<lparr>t_grad := map_option (map (\<lambda>_. 0)) (t_grad t)\<rparr>) (ps_params s)\<rparr>))) (map snd pids) s))"

definition consolidateGrads :: "(int \<Rightarrow> 'a tensor res) \<Rightarrow> string \<Rightarrow> ('a :: zero) storage \<times> 'a grads \<Rightarrow> ('a storage \<times> 'a grads) res" where
  "consolidateGrads fetch graph_id = (\<lambda>(s, gr).
     if \<not> um_contains (grad_cons s) graph_id then Inr (s, gr)
     else rbind (um_at (grad_cons s) graph_id) (\<lambda>graph_grad_cons.
          rfold (\<lambda>(tag, gc) (s, gr).
            rbind (consolidate (storage_info fetch s) (fst ` set (amp_master_params s)) (gc, gr)) (\<lambda>(gc1, gr1).
            Inr (s\<lparr>grad_cons := um_set graph_id (um_set tag gc1 (um_ref [] (grad_cons s) graph_id)) (grad_cons s)\<rparr>, gr1)))
            graph_grad_cons (s, gr)))"

definition prepareBackward :: "(int \<Rightarrow> 'a tensor res) \<Rightarrow> string \<Rightarrow> ('a :: zero) storage \<times> 'a grads \<Rightarrow> ('a storage \<times> 'a grads) res" where
  "prepareBackward fetch graph_id = (\<lambda>(s, gr). if ps_consolidate s then consolidateGrads fetch graph_id (s, gr) else Inr (s, gr))"

text \<open>
  A parameter, or its gradient, from the first of its ranks to all ranks: \<open>from_root\<close> is what the broadcasts
  deliver. No tensor comes back when the ranks of the parameter are not known.
\<close>

definition doSyncParam :: "'a storage_env \<Rightarrow> 'a list \<Rightarrow> int \<Rightarrow> bool \<Rightarrow> TagMap \<times> ('a :: zero) storage \<Rightarrow> ('a list option \<times> TagMap \<times> 'a storage) res" where
  "doSyncParam env from_root param_id grad = (\<lambda>(tm, s).
     if \<not> um_contains (ps_ranks s) param_id then Inr (None, tm, s)
     else rbind (um_at (ps_ranks s) param_id) (\<lambda>rs.
          case sorted_list_of_set rs of
            [] \<Rightarrow> Inl Undefined_behaviour
          | root # _ \<Rightarrow>
              rbind (if se_rank env = root
                     then rbind (rassert (um_contains (ps_params s) param_id)) (\<lambda>_.
                          rbind (um_at (ps_params s) param_id) (\<lambda>t.
                          Inr (if grad then (case t_grad t of Some g \<Rightarrow> g | None \<Rightarrow> replicate (length (t_data t)) 0) else t_data t)))
                     else Inr from_root) (\<lambda>buf.
              rbind (getRankSetTag (se_hasher env) (se_all_ranks env) tm) (\<lambda>(_, tm1). Inr (Some buf, tm1, s)))))"

end
