(* ===== verification/Param_Storage_Correct.thy ===== *)
theory Param_Storage_Correct
  imports Param_Storage "HOL-Library.Multiset"
begin

text \<open>
  Correctness of the parameter storage: the counts are those of the uses, as a multiset, the two id
  maps are inverse, every operation keeps this, deployment included, and release frees what has no use left and
  nothing else.
\<close>

section \<open>Uses\<close>

text \<open>The ids that the graphs of a map refer to, once for every name.\<close>

definition names_uses :: "(string, int) umap \<Rightarrow> int multiset" where
  "names_uses ps = mset (map snd ps)"

definition map_uses :: "(string, (string, int) umap) umap \<Rightarrow> int multiset" where
  "map_uses m = sum_list (map (\<lambda>(_, ps). names_uses ps) m)"

lemma map_uses_simps [simp]: "map_uses [] = {#}" "map_uses ((g, ps) # m) = names_uses ps + map_uses m"
  by (simp_all add: map_uses_def)

lemma map_uses_split: "um_ok m \<Longrightarrow> map_uses m = names_uses (um_ref [] m g) + map_uses (um_erase g m)"
proof (induction m)
  case (Cons e m)
  obtain g' ps where e: "e = (g', ps)" by (cases e)
  have ok: "um_ok m" "g' \<notin> fst ` set m" using Cons.prems by (simp_all add: um_ok_def e)
  show ?case
  proof (cases "g' = g")
    case True
    then have "um_erase g m = m" using ok(2) by (simp add: delete_id)
    then show ?thesis using True by (simp add: e um_ref_def)
  next
    case False
    then have "um_ref [] ((g', ps) # m) g = um_ref [] m g" by (simp add: um_ref_def)
    then show ?thesis using False Cons.IH [OF ok(1)] by (simp add: e)
  qed
qed (simp add: um_ref_def names_uses_def)

lemma erase_set: "um_erase g (um_set g v m) = um_erase g m"
  by (induction m) auto

lemma map_uses_set: "um_ok m \<Longrightarrow> map_uses (um_set g ps m) = names_uses ps + map_uses (um_erase g m)"
  using map_uses_split [of "um_set g ps m" g] by (simp add: erase_set um_ref_def um_get_set)

lemma names_uses_fresh: "um_get ps name = None \<Longrightarrow> names_uses (um_set name pid ps) = add_mset pid (names_uses ps)"
  using um_set_fresh [of name ps pid] by (simp add: names_uses_def map_of_eq_None_iff)

lemma names_uses_erase: "um_ok ps \<Longrightarrow> um_get ps name = Some pid \<Longrightarrow> names_uses ps = add_mset pid (names_uses (um_erase name ps))"
proof (induction ps)
  case (Cons e ps)
  obtain n p where e: "e = (n, p)" by (cases e)
  have ok: "um_ok ps" "n \<notin> fst ` set ps" using Cons.prems(1) by (simp_all add: um_ok_def e)
  show ?case
  proof (cases "n = name")
    case True
    then show ?thesis using Cons.prems(2) ok(2) by (simp add: e names_uses_def delete_id)
  next
    case False
    then show ?thesis using Cons.IH [OF ok(1)] Cons.prems(2) by (simp add: e names_uses_def)
  qed
qed simp

lemma names_uses_mem: "um_get ps name = Some pid \<Longrightarrow> pid \<in># names_uses ps"
  by (auto simp: names_uses_def dest!: map_of_SomeD intro: rev_image_eqI)

lemma map_uses_mem: "um_ok m \<Longrightarrow> x \<in># names_uses (um_ref [] m g) \<Longrightarrow> x \<in># map_uses m"
  by (subst map_uses_split [of m g]) simp_all

definition nested_ok :: "(string, (string, int) umap) umap \<Rightarrow> bool" where
  "nested_ok m \<longleftrightarrow> um_ok m \<and> (\<forall>g ps. um_get m g = Some ps \<longrightarrow> um_ok ps)"

lemma nested_ok_simps [simp]:
  "nested_ok []" "nested_ok m \<Longrightarrow> um_ok m" "nested_ok m \<Longrightarrow> um_ok (um_ref [] m g)"
  "nested_ok m \<Longrightarrow> um_ok ps \<Longrightarrow> nested_ok (um_set g ps m)" "nested_ok m \<Longrightarrow> nested_ok (um_erase g m)"
  by (auto simp: nested_ok_def um_ref_def um_get_set um_get_erase split: option.split)

section \<open>The invariant\<close>

text \<open>The uses by name on this rank, and the uses by global id of what this rank does not hold.\<close>

definition to_local :: "(int, int) umap \<Rightarrow> int \<Rightarrow> int" where
  "to_local g2l g = the (um_get g2l g)"

definition uses :: "'a storage \<Rightarrow> int multiset" where
  "uses s = map_uses (graph_params s) + image_mset (to_local (id_global_to_local s)) (map_uses (unused_params s))"

definition graph_uses :: "'a storage \<Rightarrow> string \<Rightarrow> int multiset" where
  "graph_uses s gid = names_uses (um_ref [] (graph_params s) gid) +
     image_mset (to_local (id_global_to_local s)) (names_uses (um_ref [] (unused_params s) gid))"

definition ids_inverse :: "'a storage \<Rightarrow> bool" where
  "ids_inverse s \<longleftrightarrow> (\<forall>l g. um_get (id_local_to_global s) l = Some g \<longleftrightarrow> um_get (id_global_to_local s) g = Some l)"

definition maps_ok :: "'a storage \<Rightarrow> bool" where
  "maps_ok s \<longleftrightarrow> nested_ok (graph_params s) \<and> nested_ok (unused_params s) \<and>
     (\<forall>gid name. um_get (um_ref [] (graph_params s) gid) name \<noteq> None \<longrightarrow> um_get (um_ref [] (unused_params s) gid) name = None)"

definition uses_registered :: "'a storage \<Rightarrow> bool" where
  "uses_registered s \<longleftrightarrow> (\<forall>pid \<in># map_uses (graph_params s). um_get (id_local_to_global s) pid \<noteq> None) \<and>
     (\<forall>g \<in># map_uses (unused_params s). um_get (id_global_to_local s) g \<noteq> None)"

definition counts_uses :: "'a storage \<Rightarrow> bool" where
  "counts_uses s \<longleftrightarrow> (\<forall>pid. um_ref 0 (ref_counts s) pid = int (count (uses s) pid))"

definition masters_apart :: "'a storage \<Rightarrow> bool" where
  "masters_apart s \<longleftrightarrow> (\<forall>pid. um_get (id_local_to_global s) pid \<noteq> None \<longrightarrow> um_get (amp_param_id_map s) pid = None)"

definition storage_ok :: "'a storage \<Rightarrow> bool" where
  "storage_ok s \<longleftrightarrow> maps_ok s \<and> ids_inverse s \<and> uses_registered s \<and> counts_uses s \<and> masters_apart s"

lemma localToGlobal_run:
  "masters_apart s \<Longrightarrow> um_get (id_local_to_global s) pid = Some g \<Longrightarrow> localToGlobal s pid = Inr g"
  by (simp add: masters_apart_def localToGlobal_def um_contains_def um_at_def)

lemma uses_split:
  assumes "maps_ok s"
  shows "uses s = graph_uses s gid + (map_uses (um_erase gid (graph_params s)) +
    image_mset (to_local (id_global_to_local s)) (map_uses (um_erase gid (unused_params s))))"
  using assms map_uses_split [of "graph_params s" gid] map_uses_split [of "unused_params s" gid]
  by (simp add: uses_def graph_uses_def maps_ok_def)

lemma params_apart [simp]:
  "storage_ok (s\<lparr>ps_params := x\<rparr>) = storage_ok s" "uses (s\<lparr>ps_params := x\<rparr>) = uses s"
  by (simp_all add: storage_ok_def maps_ok_def ids_inverse_def uses_registered_def counts_uses_def masters_apart_def uses_def)

section \<open>Registering and using\<close>

lemma new_storage_ok: "storage_ok new_storage"
  by (simp add: storage_ok_def maps_ok_def ids_inverse_def uses_registered_def counts_uses_def masters_apart_def new_storage_def
      uses_def um_ref_def)

lemma registerParam_ok:
  assumes s: "storage_ok s" and run: "registerParam gl pid t buffer dist s = Inr s'"
    and l: "\<And>g. um_get (id_local_to_global s) pid = Some g \<Longrightarrow> g = gl" and g: "\<And>l. um_get (id_global_to_local s) gl = Some l \<Longrightarrow> l = pid"
    and master: "um_get (amp_param_id_map s) pid = None"
  shows "storage_ok s'"
proof -
  have s': "s' = s\<lparr>ps_params := um_set pid t (ps_params s), id_global_to_local := um_set gl pid (id_global_to_local s),
      id_local_to_global := um_set pid gl (id_local_to_global s), buffer_ids := (if buffer then insert pid (buffer_ids s) else buffer_ids s),
      dist_ids := (if dist then insert pid (dist_ids s) else dist_ids s)\<rparr>"
    using run by (auto simp: registerParam_def rbind_eq_Inr)
  have loc: "to_local (um_set gl pid (id_global_to_local s)) x = to_local (id_global_to_local s) x" if "x \<in># map_uses (unused_params s)" for x
    using s that g [of "to_local (id_global_to_local s) x"] by (auto simp: storage_ok_def uses_registered_def to_local_def um_get_set)
  have "uses s' = uses s" by (auto simp: s' uses_def loc intro!: image_mset_cong)
  then show ?thesis using s l g master
    by (auto simp: storage_ok_def maps_ok_def ids_inverse_def uses_registered_def counts_uses_def masters_apart_def s' um_get_set)
qed

lemma useParam_ok:
  assumes s: "storage_ok s" and reg: "um_get (id_local_to_global s) pid \<noteq> None"
    and fresh: "um_get (um_ref [] (graph_params s) gid) name = None" "um_get (um_ref [] (unused_params s) gid) name = None"
  shows "storage_ok (useParam gid name pid s) \<and> uses (useParam gid name pid s) = add_mset pid (uses s)"
proof -
  let ?s = "useParam gid name pid s"
  have ok: "maps_ok s" using s by (simp add: storage_ok_def)
  have gp: "map_uses (graph_params ?s) = add_mset pid (map_uses (graph_params s))"
    using map_uses_set [of "graph_params s" gid] map_uses_split [of "graph_params s" gid] names_uses_fresh [OF fresh(1)] ok
    by (simp add: useParam_def maps_ok_def)
  then have u: "uses ?s = add_mset pid (uses s)" by (simp add: uses_def useParam_def)
  have "maps_ok ?s"
    unfolding maps_ok_def
  proof (intro conjI)
    show "nested_ok (graph_params ?s)" using ok by (simp add: useParam_def maps_ok_def)
    show "\<forall>g n. um_get (um_ref [] (graph_params ?s) g) n \<noteq> None \<longrightarrow> um_get (um_ref [] (unused_params ?s) g) n = None"
      using ok fresh(2) by (auto simp: useParam_def maps_ok_def um_ref_def um_get_set)
  qed (use ok in \<open>simp_all add: useParam_def maps_ok_def\<close>)
  moreover have "counts_uses ?s" using s u by (auto simp: storage_ok_def counts_uses_def useParam_def um_ref_def um_get_set split: option.splits)
  moreover have "uses_registered ?s" using s reg gp by (auto simp: storage_ok_def uses_registered_def useParam_def)
  ultimately show ?thesis using s u by (simp add: storage_ok_def ids_inverse_def masters_apart_def useParam_def)
qed

section \<open>Unregistering\<close>

lemma unregister_name_ok:
  assumes s: "storage_ok s" and run: "unregister_name pid gid name s = Inr s'"
  shows "storage_ok s' \<and> uses s' = uses s"
proof -
  let ?gp = "um_ref [] (graph_params s) gid" and ?un = "um_ref [] (unused_params s) gid"
  from run obtain p g where p: "um_get ?gp name = Some p" and g: "localToGlobal s p = Inr g"
    and s': "s' = s\<lparr>unused_params := um_set gid (um_set name g ?un) (unused_params s), graph_params := um_set gid (um_erase name ?gp) (graph_params s)\<rparr>"
    by (auto simp: unregister_name_def rbind_eq_Inr um_at_Inr Let_def)
  have ok: "maps_ok s" "ids_inverse s" "uses_registered s" "masters_apart s" using s by (simp_all add: storage_ok_def)
  have nested: "nested_ok (graph_params s)" "nested_ok (unused_params s)" using ok(1) by (simp_all add: maps_ok_def)
  have used: "p \<in># map_uses (graph_params s)" using map_uses_mem [OF _ names_uses_mem [OF p]] nested(1) by simp
  then obtain g' where "um_get (id_local_to_global s) p = Some g'" using ok(3) by (auto simp: uses_registered_def)
  then have l2g: "um_get (id_local_to_global s) p = Some g" using localToGlobal_run [OF ok(4)] g by simp
  then have g2l: "um_get (id_global_to_local s) g = Some p" using ok(2) by (simp add: ids_inverse_def)
  have un: "um_get ?un name = None" using ok(1) p by (simp add: maps_ok_def)
  have gp: "map_uses (graph_params s) = add_mset p (map_uses (graph_params s'))"
    using map_uses_split [of "graph_params s" gid] map_uses_set [of "graph_params s" gid "um_erase name ?gp"] names_uses_erase [OF _ p] nested(1)
    by (simp add: s')
  have up: "map_uses (unused_params s') = add_mset g (map_uses (unused_params s))"
    using map_uses_split [of "unused_params s" gid] map_uses_set [of "unused_params s" gid "um_set name g ?un"] names_uses_fresh [OF un] nested(2)
    by (simp add: s')
  have u: "uses s' = uses s" by (simp add: uses_def gp up) (simp add: s' to_local_def g2l)
  have "maps_ok s'"
    unfolding maps_ok_def
  proof (intro conjI)
    show "\<forall>x n. um_get (um_ref [] (graph_params s') x) n \<noteq> None \<longrightarrow> um_get (um_ref [] (unused_params s') x) n = None"
    proof (intro allI impI)
      fix x n assume n: "um_get (um_ref [] (graph_params s') x) n \<noteq> None"
      show "um_get (um_ref [] (unused_params s') x) n = None"
      proof (cases "x = gid")
        case True
        then have n': "um_get (um_erase name ?gp) n \<noteq> None" using n by (simp add: s' um_ref_def um_get_set)
        then have "n \<noteq> name" by (auto simp: um_get_erase)
        moreover have "um_get ?un n = None" using ok(1) n' by (auto simp: maps_ok_def um_get_erase split: if_splits)
        ultimately show ?thesis using True by (simp add: s' um_ref_def um_get_set)
      next
        case False
        then show ?thesis using ok(1) n by (simp add: maps_ok_def s' um_ref_def um_get_set)
      qed
    qed
  qed (use nested in \<open>simp_all add: s'\<close>)
  moreover have "uses_registered s'" using ok(3) gp up g2l by (auto simp: uses_registered_def s')
  ultimately show ?thesis using s u by (simp add: storage_ok_def ids_inverse_def masters_apart_def counts_uses_def) (simp add: s')
qed

lemma unregisterParam_ok:
  assumes s: "storage_ok s" and run: "unregisterParam pid s = Inr s'"
  shows "storage_ok s' \<and> uses s' = uses s \<and> um_get (ps_params s') pid = None"
proof -
  from run obtain s1 where s1: "rfold (unregister_graph pid) (um_keys (graph_params s) True) s = Inr s1"
    and s': "s' = s1\<lparr>ps_params := um_erase pid (ps_params s1)\<rparr>" by (auto simp: unregisterParam_def rbind_eq_Inr)
  have names: "storage_ok u' \<and> uses u' = uses s" if "storage_ok u \<and> uses u = uses s" "unregister_graph pid gid u = Inr u'" for gid u u'
    using that(2) unfolding unregister_graph_def
  proof (rule rfold_invariant [where P = "\<lambda>v. storage_ok v \<and> uses v = uses s"])
    fix n v v' assume v: "storage_ok v \<and> uses v = uses s" "unregister_name pid gid n v = Inr v'"
    show "storage_ok v' \<and> uses v' = uses s" using unregister_name_ok [OF conjunct1 [OF v(1)] v(2)] v(1) by simp
  qed (rule that(1))
  have "storage_ok s1 \<and> uses s1 = uses s"
    by (rule rfold_invariant [where P = "\<lambda>v. storage_ok v \<and> uses v = uses s", OF s1]) (use s names in \<open>simp_all\<close>)
  then show ?thesis
    by (simp add: s' params_apart um_get_erase)
qed

section \<open>Releasing\<close>

text \<open>The state while the uses of a graph are given back: \<open>M\<close> are the uses left.\<close>

definition releasing :: "int multiset \<Rightarrow> 'a storage \<Rightarrow> bool" where
  "releasing M s \<longleftrightarrow> ids_inverse s \<and> masters_apart s \<and> (\<forall>pid. um_ref 0 (ref_counts s) pid = int (count M pid)) \<and>
     (\<forall>pid \<in># M. um_get (id_local_to_global s) pid \<noteq> None)"

text \<open>What has no use left is gone, everything else is as before.\<close>

definition dead :: "int multiset \<Rightarrow> int multiset \<Rightarrow> int \<Rightarrow> bool" where
  "dead M M' pid \<longleftrightarrow> pid \<in># M \<and> pid \<notin># M'"

definition freed :: "int multiset \<Rightarrow> int multiset \<Rightarrow> 'a storage \<Rightarrow> 'a storage \<Rightarrow> bool" where
  "freed M M' s s' \<longleftrightarrow> graph_params s' = graph_params s \<and> unused_params s' = unused_params s \<and>
     (\<forall>pid. um_get (ps_params s') pid = (if dead M M' pid then None else um_get (ps_params s) pid) \<and>
       um_get (ps_ranks s') pid = (if dead M M' pid then None else um_get (ps_ranks s) pid) \<and>
       um_get (id_local_to_global s') pid = (if dead M M' pid then None else um_get (id_local_to_global s) pid)) \<and>
     (\<forall>g l. um_get (id_global_to_local s') g = Some l \<longleftrightarrow> um_get (id_global_to_local s) g = Some l \<and> \<not> dead M M' l)"

lemma freed_refl: "freed M M s s"
  by (simp add: freed_def dead_def)

lemma freed_trans: "freed M M' s s' \<Longrightarrow> freed M' M'' s' s'' \<Longrightarrow> M'' \<subseteq># M' \<Longrightarrow> M' \<subseteq># M \<Longrightarrow> freed M M'' s s''"
  unfolding freed_def dead_def by (auto dest: mset_subset_eqD)

lemma freed_local: "freed M M' s s' \<Longrightarrow> um_get (id_global_to_local s) g = Some l \<Longrightarrow> l \<in># M' \<Longrightarrow> um_get (id_global_to_local s') g = Some l"
  by (simp add: freed_def dead_def)

lemma freed_locals:
  assumes fr: "freed M M' s s'" and reg: "\<forall>g \<in># gs. um_get (id_global_to_local s) g \<noteq> None"
    and sub: "image_mset (to_local (id_global_to_local s)) gs \<subseteq># M'"
  shows "image_mset (to_local (id_global_to_local s')) gs = image_mset (to_local (id_global_to_local s)) gs"
    and "\<forall>g \<in># gs. um_get (id_global_to_local s') g \<noteq> None"
proof -
  have keep: "um_get (id_global_to_local s') g = um_get (id_global_to_local s) g" if g: "g \<in># gs" for g
  proof -
    obtain l where l: "um_get (id_global_to_local s) g = Some l" using reg g by auto
    then have "l \<in># image_mset (to_local (id_global_to_local s)) gs" using g by (auto simp: to_local_def intro!: rev_image_eqI [of g])
    then have "l \<in># M'" using sub by (rule mset_subset_eqD [rotated])
    then show ?thesis using freed_local [OF fr l] l by simp
  qed
  show "image_mset (to_local (id_global_to_local s')) gs = image_mset (to_local (id_global_to_local s)) gs"
    by (rule image_mset_cong) (simp add: to_local_def keep)
  show "\<forall>g \<in># gs. um_get (id_global_to_local s') g \<noteq> None" using reg keep by simp
qed

lemma release_use_run:
  assumes s: "releasing M s" and pid: "pid \<in># M"
  shows "\<exists>s'. release_use pid s = Inr s' \<and> releasing (M - {#pid#}) s' \<and> freed M (M - {#pid#}) s s'"
proof -
  obtain g where g: "um_get (id_local_to_global s) pid = Some g" using s pid by (auto simp: releasing_def)
  have g2l: "um_get (id_global_to_local s) g = Some pid" using s g by (simp add: releasing_def ids_inverse_def)
  have rc: "um_ref 0 (ref_counts s) pid = int (count M pid)" using s by (simp add: releasing_def)
  have pos: "0 < count M pid" using pid by simp
  show ?thesis
  proof (cases "count M pid = 1")
    case False
    let ?s = "s\<lparr>ref_counts := um_set pid (int (count M pid) - 1) (ref_counts s)\<rparr>"
    have run: "release_use pid s = Inr ?s" using False rc by (simp add: release_use_def doReleaseParam_def um_ref_def um_get_set)
    have two: "1 < count M pid" using False pos by linarith
    have same: "\<not> dead M (M - {#pid#}) q" for q
    proof (cases "q = pid")
      case True
      have "0 < count (M - {#pid#}) pid" using two by (simp only: count_diff count_single if_True simp_thms)
      then show ?thesis using True by (simp only: dead_def count_greater_zero_iff) blast
    next
      case other: False
      have "count (M - {#pid#}) q = count M q" using other by simp
      then show ?thesis unfolding dead_def not_in_iff by (metis count_greater_zero_iff less_irrefl)
    qed
    have cnt: "um_ref 0 (ref_counts ?s) q = int (count (M - {#pid#}) q)" for q
      using s pos by (simp add: releasing_def um_ref_def um_get_set of_nat_diff)
    have reg: "um_get (id_local_to_global s) q \<noteq> None" if "q \<in># M - {#pid#}" for q
      using s in_diffD [OF that] by (simp add: releasing_def)
    have "releasing (M - {#pid#}) ?s"
      using s cnt reg by (simp add: releasing_def ids_inverse_def masters_apart_def)
    moreover have "freed M (M - {#pid#}) s ?s" by (simp add: freed_def same)
    ultimately show ?thesis using run by blast
  next
    case True
    let ?s = "s\<lparr>ps_params := um_erase pid (ps_params s), ps_ranks := um_erase pid (ps_ranks s),
        ref_counts := um_erase pid (um_set pid 0 (ref_counts s)), id_local_to_global := um_erase pid (id_local_to_global s),
        id_global_to_local := um_erase g (id_global_to_local s)\<rparr>"
    have run: "release_use pid s = Inr ?s" using True rc g by (simp add: release_use_def doReleaseParam_def um_ref_def um_get_set um_at_def)
    have gone: "dead M (M - {#pid#}) q \<longleftrightarrow> q = pid" for q
      using True pid by (auto simp: dead_def not_in_iff [of q "M - {#pid#}"] split: if_splits)
    have inv: "um_get (id_global_to_local s) x = Some l \<longleftrightarrow> um_get (id_local_to_global s) l = Some x" for x l
      using s by (simp add: releasing_def ids_inverse_def)
    have erased: "um_get (um_erase g (id_global_to_local s)) x = Some l \<longleftrightarrow> um_get (id_global_to_local s) x = Some l \<and> l \<noteq> pid" for x l
    proof (cases "x = g")
      case True
      then show ?thesis using g2l by (simp add: um_get_erase)
    next
      case False
      then show ?thesis using g inv [of x l] by (auto simp: um_get_erase)
    qed
    have ids: "ids_inverse ?s" unfolding ids_inverse_def by (simp add: um_get_erase [of pid] erased inv)
    have cnt: "um_ref 0 (ref_counts ?s) q = int (count (M - {#pid#}) q)" for q
      using s True by (auto simp: releasing_def um_ref_def um_get_erase um_get_set)
    have reg: "um_get (id_local_to_global ?s) q \<noteq> None" if "q \<in># M - {#pid#}" for q
      using s gone [of q] that in_diffD [OF that] by (auto simp: releasing_def um_get_erase dead_def)
    have "releasing (M - {#pid#}) ?s" using s ids cnt reg by (simp add: releasing_def masters_apart_def um_get_erase)
    moreover have "freed M (M - {#pid#}) s ?s" by (simp add: freed_def gone um_get_erase [of pid] erased)
    ultimately show ?thesis using run by blast
  qed
qed

lemma release_uses_run:
  assumes "releasing M s" "mset pids \<subseteq># M"
  shows "\<exists>s'. rfold release_use pids s = Inr s' \<and> releasing (M - mset pids) s' \<and> freed M (M - mset pids) s s'"
  using assms
proof (induction pids arbitrary: M s)
  case (Cons pid pids)
  have pid: "pid \<in># M" "mset pids \<subseteq># M - {#pid#}" using Cons.prems(2) by (auto simp: insert_subset_eq_iff)
  obtain s1 where s1: "release_use pid s = Inr s1" "releasing (M - {#pid#}) s1" "freed M (M - {#pid#}) s s1"
    using release_use_run [OF Cons.prems(1) pid(1)] by blast
  obtain s' where s': "rfold release_use pids s1 = Inr s'" "releasing (M - {#pid#} - mset pids) s'" "freed (M - {#pid#}) (M - {#pid#} - mset pids) s1 s'"
    using Cons.IH [OF s1(2) pid(2)] by blast
  have "freed M (M - {#pid#} - mset pids) s s'" by (rule freed_trans [OF s1(3) s'(3)]) (rule diff_subset_eq_self)+
  then show ?case using s1(1) s'(1,2) by (simp add: diff_diff_add)
qed (simp add: freed_refl)

lemma release_unused_run:
  assumes "releasing M s" "image_mset (to_local (id_global_to_local s)) (mset gs) \<subseteq># M" "\<forall>g \<in> set gs. um_get (id_global_to_local s) g \<noteq> None"
  shows "\<exists>s'. rfold release_unused gs s = Inr s' \<and> releasing (M - image_mset (to_local (id_global_to_local s)) (mset gs)) s' \<and>
    freed M (M - image_mset (to_local (id_global_to_local s)) (mset gs)) s s'"
  using assms
proof (induction gs arbitrary: M s)
  case (Cons g gs)
  let ?loc = "to_local (id_global_to_local s)"
  obtain pid where g2l: "um_get (id_global_to_local s) g = Some pid" using Cons.prems(3) by auto
  then have loc: "?loc g = pid" by (simp add: to_local_def)
  have pid: "pid \<in># M" "image_mset ?loc (mset gs) \<subseteq># M - {#pid#}" using Cons.prems(2) loc by (auto simp: insert_subset_eq_iff)
  obtain s1 where s1: "release_use pid s = Inr s1" "releasing (M - {#pid#}) s1" "freed M (M - {#pid#}) s s1"
    using release_use_run [OF Cons.prems(1) pid(1)] by blast
  have one: "release_unused g s = Inr s1" using g2l s1(1) by (simp add: release_unused_def um_contains_def um_at_def)
  note keep = freed_locals [OF s1(3), of "mset gs", OF _ pid(2)]
  have same: "image_mset (to_local (id_global_to_local s1)) (mset gs) = image_mset ?loc (mset gs)" by (rule keep(1)) (use Cons.prems(3) in simp)
  have reg: "\<forall>g \<in> set gs. um_get (id_global_to_local s1) g \<noteq> None" using keep(2) Cons.prems(3) by simp
  obtain s' where s': "rfold release_unused gs s1 = Inr s'" "releasing (M - {#pid#} - image_mset ?loc (mset gs)) s'"
    "freed (M - {#pid#}) (M - {#pid#} - image_mset ?loc (mset gs)) s1 s'"
    using Cons.IH [OF s1(2) _ reg] pid(2) unfolding same by blast
  have "freed M (M - {#pid#} - image_mset ?loc (mset gs)) s s'" by (rule freed_trans [OF s1(3) s'(3)]) (rule diff_subset_eq_self)+
  then show ?case using one s'(1,2) loc by (simp add: diff_diff_add)
qed (simp add: freed_refl)

lemma releasing_uses:
  assumes "storage_ok s"
  shows "releasing (uses s) s"
proof -
  have ok: "ids_inverse s" "uses_registered s" "counts_uses s" "masters_apart s" using assms by (simp_all add: storage_ok_def)
  have "um_get (id_local_to_global s) pid \<noteq> None" if h: "pid \<in># uses s" for pid
  proof -
    consider "pid \<in># map_uses (graph_params s)" | g where "g \<in># map_uses (unused_params s)" "pid = to_local (id_global_to_local s) g"
      using h unfolding uses_def by auto
    then show ?thesis
    proof cases
      case 1
      then show ?thesis using ok(2) by (simp add: uses_registered_def)
    next
      case 2
      then obtain l where l: "um_get (id_global_to_local s) g = Some l" using ok(2) by (auto simp: uses_registered_def)
      then have "um_get (id_local_to_global s) l = Some g" using ok(1) by (simp add: ids_inverse_def)
      then show ?thesis using 2(2) l by (simp add: to_local_def)
    qed
  qed
  then show ?thesis using ok by (simp add: releasing_def counts_uses_def)
qed

lemma graph_uses_sub: "maps_ok s \<Longrightarrow> graph_uses s gid \<subseteq># uses s"
  by (simp add: uses_split [of s gid])

lemma releaseGraph_run:
  assumes ok: "storage_ok s"
  obtains s2 s' where "releaseGraphParams gid s = Inr s'" "releasing (uses s - graph_uses s gid) s2" "freed (uses s) (uses s - graph_uses s gid) s s2"
    "s' = s2\<lparr>graph_params := um_erase gid (graph_params s), grad_cons := um_erase gid (grad_cons s2),
      grouped_params := um_erase gid (grouped_params s2), unused_params := um_erase gid (unused_params s),
      zero_grad_locators := um_erase gid (zero_grad_locators s2)\<rparr>"
proof -
  let ?gp = "um_ref [] (graph_params s) gid" and ?un = "um_ref [] (unused_params s) gid"
  let ?loc = "to_local (id_global_to_local s)"
  let ?gs = "mset (map snd ?un)"
  have mo: "maps_ok s" using ok by (simp add: storage_ok_def)
  have sub: "mset (map snd ?gp) + image_mset ?loc ?gs \<subseteq># uses s" using graph_uses_sub [OF mo, of gid] by (simp only: graph_uses_def names_uses_def)
  have first: "mset (map snd ?gp) \<subseteq># uses s" using sub by (meson mset_subset_eq_add_left subset_mset.order_trans)
  have second: "image_mset ?loc ?gs \<subseteq># uses s - mset (map snd ?gp)" using sub by (simp only: subset_mset.le_diff_conv2 [OF first] add.commute)
  have reg: "\<forall>g \<in># ?gs. um_get (id_global_to_local s) g \<noteq> None"
    using ok map_uses_mem [of "unused_params s" _ gid] mo unfolding names_uses_def storage_ok_def uses_registered_def maps_ok_def by simp
  obtain s1 where s1: "rfold release_use (map snd ?gp) s = Inr s1" "releasing (uses s - mset (map snd ?gp)) s1" "freed (uses s) (uses s - mset (map snd ?gp)) s s1"
    using release_uses_run [OF releasing_uses [OF ok] first] by blast
  note keep = freed_locals [OF s1(3) reg second]
  have un: "um_ref [] (unused_params s1) gid = ?un" using s1(3) by (simp add: freed_def)
  have reg1: "\<forall>g \<in> set (map snd ?un). um_get (id_global_to_local s1) g \<noteq> None" using keep(2) by simp
  obtain s2 where s2: "rfold release_unused (map snd ?un) s1 = Inr s2" "releasing (uses s - mset (map snd ?gp) - image_mset ?loc ?gs) s2"
    "freed (uses s - mset (map snd ?gp)) (uses s - mset (map snd ?gp) - image_mset ?loc ?gs) s1 s2"
    using release_unused_run [OF s1(2) _ reg1] second unfolding keep(1) by blast
  have eq: "uses s - mset (map snd ?gp) - image_mset ?loc ?gs = uses s - graph_uses s gid" by (simp add: graph_uses_def names_uses_def)
  have fr: "freed (uses s) (uses s - mset (map snd ?gp) - image_mset ?loc ?gs) s s2" by (rule freed_trans [OF s1(3) s2(3)]) (rule diff_subset_eq_self)+
  have same: "graph_params s2 = graph_params s" "unused_params s2 = unused_params s" using fr by (simp_all add: freed_def)
  show ?thesis
    by (rule that [OF _ s2(2) [unfolded eq] fr [unfolded eq] refl]) (simp add: releaseGraphParams_def s1(1) un s2(1) same)
qed

text \<open>The parameters, their ranks and their ids after a release.\<close>

definition released :: "int multiset \<Rightarrow> 'a storage \<Rightarrow> 'a storage \<Rightarrow> bool" where
  "released M s s' \<longleftrightarrow> (\<forall>pid. let gone = pid \<in># M \<and> pid \<notin># uses s' in
     um_get (ps_params s') pid = (if gone then None else um_get (ps_params s) pid) \<and>
     um_get (ps_ranks s') pid = (if gone then None else um_get (ps_ranks s) pid) \<and>
     um_get (id_local_to_global s') pid = (if gone then None else um_get (id_local_to_global s) pid))"

lemma release_run_ok:
  assumes ok: "storage_ok s"
  shows "\<exists>s'. releaseGraphParams gid s = Inr s' \<and> storage_ok s' \<and> uses s' = uses s - graph_uses s gid \<and> released (graph_uses s gid) s s'"
proof -
  let ?rest = "map_uses (um_erase gid (graph_params s))" and ?runused = "map_uses (um_erase gid (unused_params s))"
  obtain s2 s' where run: "releaseGraphParams gid s = Inr s'" and rel: "releasing (uses s - graph_uses s gid) s2"
    and fr: "freed (uses s) (uses s - graph_uses s gid) s s2"
    and s': "s' = s2\<lparr>graph_params := um_erase gid (graph_params s), grad_cons := um_erase gid (grad_cons s2),
      grouped_params := um_erase gid (grouped_params s2), unused_params := um_erase gid (unused_params s),
      zero_grad_locators := um_erase gid (zero_grad_locators s2)\<rparr>"
    by (rule releaseGraph_run [OF ok])
  have mo: "maps_ok s" and ids: "ids_inverse s" and reg: "uses_registered s" using ok by (simp_all add: storage_ok_def)
  have left: "uses s - graph_uses s gid = ?rest + image_mset (to_local (id_global_to_local s)) ?runused"
    using uses_split [OF mo, of gid] by simp
  have regun: "\<forall>g \<in># ?runused. um_get (id_global_to_local s) g \<noteq> None"
    using reg map_uses_split [of "unused_params s" gid] mo unfolding uses_registered_def maps_ok_def by simp
  note keep = freed_locals [OF fr regun, unfolded left, OF mset_subset_eq_add_right]
  have "uses s' = ?rest + image_mset (to_local (id_global_to_local s)) ?runused" unfolding uses_def by (simp add: s' keep(1))
  then have u: "uses s' = uses s - graph_uses s gid" unfolding left .
  have "maps_ok s'" using mo by (auto simp: s' maps_ok_def um_ref_def um_get_erase)
  moreover have "uses_registered s'"
    using rel keep(2) unfolding releasing_def left uses_registered_def by (simp add: s')
  moreover have "counts_uses s'" using rel unfolding counts_uses_def u by (simp add: s' releasing_def)
  moreover have "ids_inverse s'" "masters_apart s'" using rel by (simp_all add: s' releasing_def ids_inverse_def masters_apart_def)
  ultimately have ok': "storage_ok s'" by (simp add: storage_ok_def)
  have gone: "dead (uses s) (uses s') pid \<longleftrightarrow> pid \<in># graph_uses s gid \<and> pid \<notin># uses s'" for pid
    using mset_subset_eqD [OF graph_uses_sub [OF mo]] uses_split [OF mo, of gid] unfolding dead_def u left by auto
  have "released (graph_uses s gid) s s'"
    using fr unfolding released_def freed_def u [symmetric] gone Let_def by (simp add: s')
  then show ?thesis using run ok' u by blast
qed

section \<open>Release frees exactly what has no use left\<close>

text \<open>
  C17. Releasing a graph succeeds in every state of the invariant, keeps the invariant, gives back exactly the uses of
  the graph, and removes a parameter and its ids exactly when the graph had its last use; every other parameter stays as it is.
\<close>

theorem release_frees:
  assumes ok: "storage_ok s"
  shows "\<exists>s'. releaseGraphParams gid s = Inr s' \<and> storage_ok s' \<and> uses s' = uses s - graph_uses s gid \<and>
    (\<forall>pid. let gone = pid \<in># graph_uses s gid \<and> pid \<notin># uses s' in
       um_get (ps_params s') pid = (if gone then None else um_get (ps_params s) pid) \<and>
       um_get (ps_ranks s') pid = (if gone then None else um_get (ps_ranks s) pid) \<and>
       um_get (id_local_to_global s') pid = (if gone then None else um_get (id_local_to_global s) pid))"
  using release_run_ok [OF ok, of gid] unfolding released_def .

section \<open>What does not touch the uses\<close>

text \<open>The members that the invariant is about; all other calls leave them as they are.\<close>

definition same_uses :: "'a storage \<Rightarrow> 'a storage \<Rightarrow> bool" where
  "same_uses s s' \<longleftrightarrow> graph_params s' = graph_params s \<and> unused_params s' = unused_params s \<and>
     id_global_to_local s' = id_global_to_local s \<and> id_local_to_global s' = id_local_to_global s \<and>
     ref_counts s' = ref_counts s \<and> amp_param_id_map s' = amp_param_id_map s"

named_theorems frames

lemma same_uses_refl [simp]: "same_uses s s" by (simp add: same_uses_def)

lemma same_uses_trans: "same_uses s t \<Longrightarrow> same_uses t u \<Longrightarrow> same_uses s u" by (simp add: same_uses_def)

lemma same_uses_upd [simp]:
  "same_uses s (t\<lparr>ps_params := a\<rparr>) = same_uses s t" "same_uses s (t\<lparr>ps_ranks := b\<rparr>) = same_uses s t"
  "same_uses s (t\<lparr>my_param_ranks := c\<rparr>) = same_uses s t" "same_uses s (t\<lparr>grouped_params := d\<rparr>) = same_uses s t"
  "same_uses s (t\<lparr>tag_rank_set := e\<rparr>) = same_uses s t" "same_uses s (t\<lparr>dist_ids := f\<rparr>) = same_uses s t"
  "same_uses s (t\<lparr>zero_grad_locators := g\<rparr>) = same_uses s t" "same_uses s (t\<lparr>grad_cons := h\<rparr>) = same_uses s t"
  by (simp_all add: same_uses_def)

lemma same_uses_ok:
  assumes same: "same_uses s s'" and ok: "storage_ok s"
  shows "storage_ok s' \<and> uses s' = uses s"
proof -
  have u: "uses s' = uses s" using same by (simp add: same_uses_def uses_def)
  have "maps_ok s' = maps_ok s" "ids_inverse s' = ids_inverse s" "uses_registered s' = uses_registered s" "masters_apart s' = masters_apart s"
    "counts_uses s' = counts_uses s"
    using same u by (simp_all only: same_uses_def maps_ok_def ids_inverse_def uses_registered_def masters_apart_def counts_uses_def)
  with ok u show ?thesis by (simp only: storage_ok_def simp_thms)
qed

lemma same_uses_rfold: "rfold f xs s = Inr t \<Longrightarrow> (\<And>x s s'. f x s = Inr s' \<Longrightarrow> same_uses s s') \<Longrightarrow> same_uses s t"
  using rfold_invariant [of f xs s t "same_uses s"] same_uses_trans by (metis same_uses_refl)

lemma same_uses_smap: "smap f xs s = Inr (ys, t) \<Longrightarrow> (\<And>x y s s'. f x s = Inr (y, s') \<Longrightarrow> same_uses s s') \<Longrightarrow> same_uses s t"
proof (induction xs arbitrary: s ys)
  case (Cons x xs)
  then obtain y s1 zs where "f x s = Inr (y, s1)" "smap f xs s1 = Inr (zs, t)" by (auto simp: st_simps)
  with Cons show ?case using same_uses_trans by blast
qed (simp add: st_simps)

lemma note_ranks_same [frames]: "same_uses (fst a) (fst (note_ranks env gid pid n sg rs a))"
  by (simp add: note_ranks_def Let_def split: prod.split)

lemma note_param_same [frames]:
  assumes "note_param env gid names maps pid a = Inr b"
  shows "same_uses (fst a) (fst b)"
proof (rule rfold_invariant [OF assms [unfolded note_param_def], of "\<lambda>b. same_uses (fst a) (fst b)"])
  fix e b1 b2 assume P: "same_uses (fst a) (fst b1)" and run: "note_subgraph env gid names pid e b1 = Inr b2"
  have "same_uses (fst b1) (fst b2)"
    using run by (cases e) (auto simp: note_subgraph_def rbind_eq_Inr intro: note_ranks_same split: if_splits)
  with P show "same_uses (fst a) (fst b2)" by (rule same_uses_trans)
qed simp

text \<open>A computation that, when it returns, has left the uses of the storage \<open>s\<close> alone; \<open>out\<close> takes the storage out of its result.\<close>

definition keeps_uses :: "('b \<Rightarrow> 'a storage) \<Rightarrow> 'a storage \<Rightarrow> 'b res \<Rightarrow> bool" where
  "keeps_uses out s m \<longleftrightarrow> (\<forall>x. m = Inr x \<longrightarrow> same_uses s (out x))"

abbreviation placed :: "unit \<times> TagMap \<times> 'a param_locator \<times> 'a storage \<Rightarrow> 'a storage" where
  "placed x \<equiv> snd (snd (snd x))"

lemma keeps_usesD: "keeps_uses out s m \<Longrightarrow> m = Inr x \<Longrightarrow> same_uses s (out x)" by (simp add: keeps_uses_def)

lemma keeps_uses_simps [simp]: "keeps_uses out s (Inr x) = same_uses s (out x)" "keeps_uses out s (Inl e)"
  by (simp_all add: keeps_uses_def)

lemma keeps_uses_bind: "(\<And>x. m = Inr x \<Longrightarrow> keeps_uses out s (f x)) \<Longrightarrow> keeps_uses out s (rbind m f)"
  by (cases m) simp_all

lemma keeps_uses_then: "keeps_uses out s m \<Longrightarrow> (\<And>x. same_uses s (out x) \<Longrightarrow> keeps_uses out' s (f x)) \<Longrightarrow> keeps_uses out' s (rbind m f)"
  by (rule keeps_uses_bind) (simp add: keeps_uses_def)

lemma keeps_uses_if: "(b \<Longrightarrow> keeps_uses out s m) \<Longrightarrow> (\<not> b \<Longrightarrow> keeps_uses out s n) \<Longrightarrow> keeps_uses out s (if b then m else n)"
  by simp

lemmas keeps_rules = keeps_uses_if keeps_uses_bind

lemma load_distributed_keeps: "keeps_uses placed s (load_distributed env pid rs (tm, l, s))"
  unfolding load_distributed_def case_prod_conv by (rule keeps_uses_bind, rule keeps_uses_bind) (simp split: prod.split)

lemma sync_keeps: "keeps_uses placed s (rbind (syncParamOnInit env pid s) (\<lambda>s1. Inr ((), tm, l, s1)))"
proof (rule keeps_uses_bind)
  fix s1 assume "syncParamOnInit env pid s = Inr s1"
  then show "keeps_uses placed s (Inr ((), tm, l, s1))" by (cases "um_at (ps_params s) pid") (auto simp: syncParamOnInit_def)
qed

lemma place_param_same [frames]: "place_param env gid names pid (tm, l, s) = Inr x \<Longrightarrow> same_uses s (placed x)"
proof (erule keeps_usesD [rotated])
  show "keeps_uses placed s (place_param env gid names pid (tm, l, s))"
    unfolding place_param_def case_prod_conv Let_def
  proof (rule keeps_uses_if, simp, rule keeps_uses_bind, rule keeps_uses_bind, rule keeps_uses_bind, unfold split_beta, rule keeps_uses_then)
    fix rs tg
    show "keeps_uses placed s (if ps_distributed s pid then load_distributed env pid rs (snd tg, l, s)
        else rbind (syncParamOnInit env pid s) (\<lambda>s1. Inr ((), snd tg, l, s1)))"
      by (rule keeps_uses_if [OF load_distributed_keeps sync_keeps])
  qed simp
qed

lemma zero_param_same [frames]: "zero_param env gid pid (tm, l, s) = Inr x \<Longrightarrow> same_uses s (placed x)"
proof (erule keeps_usesD [rotated])
  show "keeps_uses placed s (zero_param env gid pid (tm, l, s))"
    unfolding zero_param_def case_prod_conv by (intro keeps_rules) (simp_all split: prod.split)
qed

lemma consolidate_group_same [frames]: "consolidate_group env fetch gid e s = Inr s' \<Longrightarrow> same_uses s s'"
proof (drule keeps_usesD [of "\<lambda>s. s", rotated])
  show "keeps_uses (\<lambda>s. s) s (consolidate_group env fetch gid e s)"
    unfolding consolidate_group_def split_beta by (intro keeps_rules) simp_all
qed simp

lemma sortCommTags_same [frames]: "sortCommTags sort_tags gid s = Inr x \<Longrightarrow> same_uses s (snd x)"
proof (erule keeps_usesD [rotated])
  show "keeps_uses snd s (sortCommTags sort_tags gid s)"
    unfolding sortCommTags_def Let_def by (intro keeps_rules) simp_all
qed

lemma allReduce_same [frames]:
  assumes "allReduceParamGrads env fetch sort_tags gid s = Inr (cs, s')"
  shows "same_uses s s'"
proof -
  obtain ts s1 ys where 1: "sortCommTags sort_tags gid s = Inr (ts, s1)" "smap (allreduce_tag env fetch gid) ts s1 = Inr (ys, s')"
    using assms by (auto simp: allReduceParamGrads_def st_simps)
  have "same_uses u u'" if "allreduce_tag env fetch gid tag u = Inr (y, u')" for tag y u u'
  proof -
    have "keeps_uses snd u (allreduce_tag env fetch gid tag u)"
      unfolding allreduce_tag_def Let_def by (intro keeps_rules) (simp_all add: keeps_rules split: prod.split)
    from keeps_usesD [OF this that] show ?thesis by simp
  qed
  from same_uses_trans [OF sortCommTags_same [OF 1(1), unfolded snd_conv] same_uses_smap [OF 1(2) this]] show ?thesis .
qed

lemma bcast_same [frames]:
  assumes "bcastParamsZero env sort_tags gid grad s = Inr (cs, s')"
  shows "same_uses s s'"
proof -
  obtain l ts s1 ys where 1: "sortCommTags sort_tags gid s = Inr (ts, s1)" "smap (bcast_tag env gid grad l) ts s1 = Inr (ys, s')"
    using assms by (auto simp: bcastParamsZero_def st_simps rbind_eq_Inr)
  have "same_uses u u'" if "bcast_tag env gid grad l tag u = Inr (y, u')" for tag y u u'
  proof -
    have "keeps_uses snd u (bcast_tag env gid grad l tag u)"
      unfolding bcast_tag_def by (intro keeps_rules) simp_all
    from keeps_usesD [OF this that] show ?thesis by simp
  qed
  from same_uses_trans [OF sortCommTags_same [OF 1(1), unfolded snd_conv] same_uses_smap [OF 1(2) this]] show ?thesis .
qed

lemma set_grads_same [frames]: "setGradToLocalParamSegments gid s = Inr s' \<Longrightarrow> same_uses s s'"
  by (auto simp: setGradToLocalParamSegments_def rbind_eq_Inr split: if_splits)

lemma local_segment_same [frames]: "ps_getLocalParamSegment pid s = Inr (v, s') \<Longrightarrow> same_uses s s'"
  by (auto simp: ps_getLocalParamSegment_def rbind_eq_Inr)

lemma clear_grads_same [frames]:
  assumes "clearParamGrads fetch gid s = Inr s'"
  shows "same_uses s s'"
proof (cases "ps_consolidate s")
  case False
  then obtain pids where fold: "rfold (\<lambda>pid s. rbind (getParamTensor fetch s pid) (\<lambda>t.
      Inr (if ps_distributed s pid then s
           else s\<lparr>ps_params := um_set pid (t\<lparr>t_grad := map_option (map (\<lambda>_. 0)) (t_grad t)\<rparr>) (ps_params s)\<rparr>))) pids s = Inr s'"
    using assms by (auto simp: clearParamGrads_def rbind_eq_Inr)
  show ?thesis by (rule same_uses_rfold [OF fold]) (auto simp: rbind_eq_Inr split: if_splits)
qed (use assms in \<open>auto simp: clearParamGrads_def\<close>)

lemma prepare_same [frames]:
  assumes "prepareBackward fetch gid (s, gr) = Inr (s', gr')"
  shows "same_uses s s'"
proof (cases "ps_consolidate s \<and> um_contains (grad_cons s) gid")
  case True
  then obtain gcs where fold: "rfold (\<lambda>(tag, gc) (s, gr).
      rbind (consolidate (storage_info fetch s) (fst ` set (amp_master_params s)) (gc, gr)) (\<lambda>(gc1, gr1).
      Inr (s\<lparr>grad_cons := um_set gid (um_set tag gc1 (um_ref [] (grad_cons s) gid)) (grad_cons s)\<rparr>, gr1))) gcs (s, gr) = Inr (s', gr')"
    using assms by (auto simp: prepareBackward_def consolidateGrads_def rbind_eq_Inr)
  have "same_uses s (fst (s', gr'))"
    by (rule rfold_invariant [OF fold, of "\<lambda>a. same_uses s (fst a)"]) (auto simp: rbind_eq_Inr)
  then show ?thesis by simp
qed (use assms in \<open>auto simp: prepareBackward_def consolidateGrads_def split: if_splits\<close>)

section \<open>Deploying\<close>

lemma use_names_ok:
  assumes "storage_ok s" "um_ok gp" "\<forall>pid \<in> snd ` set gp. um_get (id_local_to_global s) pid \<noteq> None"
    and "\<forall>name \<in> fst ` set gp. um_get (um_ref [] (graph_params s) gid) name = None \<and> um_get (um_ref [] (unused_params s) gid) name = None"
  shows "storage_ok (fold (\<lambda>(name, pid). useParam gid name pid) gp s) \<and>
    uses (fold (\<lambda>(name, pid). useParam gid name pid) gp s) = names_uses gp + uses s"
  using assms
proof (induction gp arbitrary: s)
  case Nil
  then show ?case by (simp add: names_uses_def)
next
  case (Cons e gp)
  obtain n pid where e: "e = (n, pid)" by (cases e)
  let ?s = "useParam gid n pid s"
  have s: "storage_ok ?s \<and> uses ?s = add_mset pid (uses s)"
    by (rule useParam_ok [OF Cons.prems(1)]) (use Cons.prems(3,4) in \<open>auto simp: e\<close>)
  have ok: "um_ok gp" "n \<notin> fst ` set gp" using Cons.prems(2) by (simp_all add: um_ok_def e)
  have "storage_ok (fold (\<lambda>(name, pid). useParam gid name pid) gp ?s) \<and>
    uses (fold (\<lambda>(name, pid). useParam gid name pid) gp ?s) = names_uses gp + uses ?s"
    by (rule Cons.IH) (use s ok Cons.prems(3,4) in \<open>auto simp: e useParam_def um_ref_def um_get_set\<close>)
  then show ?case using s by (simp add: e names_uses_def)
qed

lemma deploy_same:
  assumes "deploy_params env fetch d gp zero (tm, l, s) = Inr (u, tm', l', s')"
  shows "same_uses (fold (\<lambda>(name, pid). useParam (d_id d) name pid) gp s) s'"
proof -
  let ?s1 = "fold (\<lambda>(name, pid). useParam (d_id d) name pid) gp s"
  let ?s2 = "?s1\<lparr>grouped_params := um_set (d_id d) (um_ref [] (grouped_params ?s1) (d_id d)) (grouped_params ?s1)\<rparr>"
  obtain names maps pids s3 graphs tm4 l4 s4 where
    note_run: "rfold (note_param env (d_id d) names maps) pids (?s2, []) = Inr (s3, graphs)"
    and place: "sfold (\<lambda>pid _. place_param env (d_id d) names pid) pids () (tm_sync (se_root_tags env) tm, l, s3) = Inr ((), tm4, l4, s4)"
    and rest: "if zero
        then sfold (\<lambda>pid _. zero_param env (d_id d) pid) pids ()
               (tm4, l4, s4\<lparr>zero_grad_locators := um_set (d_id d) (locator.extend new_locator \<lparr>gl_params = [], gl_local_segments = []\<rparr>) (zero_grad_locators s4)\<rparr>) =
             Inr (u, tm', l', s')
        else s' = s4 \<or> rfold (consolidate_group env fetch (d_id d)) (um_ref [] (grouped_params s4) (d_id d)) s4 = Inr s'"
    using assms unfolding deploy_params_def by (auto simp: rbind_eq_Inr Let_def split: if_splits)
  have "same_uses ?s2 (fst (s3, graphs))"
    by (rule rfold_invariant [OF note_run, of "\<lambda>a. same_uses ?s2 (fst a)"]) (auto elim: same_uses_trans [OF _ note_param_same])
  then have 3: "same_uses ?s1 s3" by (simp add: same_uses_def)
  have "same_uses s3 (snd (snd (tm4, l4, s4)))"
    by (rule sfold_invariant [OF place, of "\<lambda>_ st. same_uses s3 (snd (snd st))"]) (auto dest!: place_param_same elim: same_uses_trans)
  then have 4: "same_uses ?s1 s4" using 3 same_uses_trans by simp blast
  show ?thesis
  proof (cases zero)
    case True
    then have fold: "sfold (\<lambda>pid _. zero_param env (d_id d) pid) pids ()
        (tm4, l4, s4\<lparr>zero_grad_locators := um_set (d_id d) (locator.extend new_locator \<lparr>gl_params = [], gl_local_segments = []\<rparr>) (zero_grad_locators s4)\<rparr>) =
      Inr (u, tm', l', s')" using rest by simp
    have "same_uses s4 (snd (snd (tm', l', s')))"
      by (rule sfold_invariant [OF fold, of "\<lambda>_ st. same_uses s4 (snd (snd st))"]) (auto dest!: zero_param_same elim: same_uses_trans)
    with 4 show ?thesis using same_uses_trans by simp blast
  next
    case False
    then have "same_uses s4 s'" using rest by (auto intro: same_uses_rfold consolidate_group_same)
    with 4 show ?thesis using same_uses_trans by blast
  qed
qed

text \<open>A deployment adds one use for every name of the graph.\<close>

lemma deploy_ok:
  assumes "storage_ok s" "deploy_params env fetch d gp zero (tm, l, s) = Inr (u, tm', l', s')"
    and "um_ok gp" "\<forall>pid \<in> snd ` set gp. um_get (id_local_to_global s) pid \<noteq> None"
    and "\<forall>name \<in> fst ` set gp. um_get (um_ref [] (graph_params s) (d_id d)) name = None \<and> um_get (um_ref [] (unused_params s) (d_id d)) name = None"
  shows "storage_ok s' \<and> uses s' = names_uses gp + uses s"
  using same_uses_ok [OF deploy_same [OF assms(2)]] use_names_ok [OF assms(1,3-5)] by simp

section \<open>Reachable storages\<close>

text \<open>
  The calls that the module makes, with what it promises: the global id of a parameter never changes, a name of a graph
  is used once until the graph is released, only what is registered is used, and a master copy has an id of its own.
\<close>

inductive storage_step :: "('a :: zero) storage \<Rightarrow> 'a storage \<Rightarrow> bool" where
  Register: "registerParam gl pid t buffer dist s = Inr s' \<Longrightarrow> um_get (amp_param_id_map s) pid = None \<Longrightarrow>
    um_get (id_local_to_global s) pid \<in> {None, Some gl} \<Longrightarrow> um_get (id_global_to_local s) gl \<in> {None, Some pid} \<Longrightarrow> storage_step s s'"
| Use: "um_get (id_local_to_global s) pid \<noteq> None \<Longrightarrow> um_get (um_ref [] (graph_params s) gid) name = None \<Longrightarrow>
    um_get (um_ref [] (unused_params s) gid) name = None \<Longrightarrow> storage_step s (useParam gid name pid s)"
| Deploy: "deploy_params env fetch d gp zero (tm, l, s) = Inr (u, tm', l', s') \<Longrightarrow> um_ok gp \<Longrightarrow>
    \<forall>pid \<in> snd ` set gp. um_get (id_local_to_global s) pid \<noteq> None \<Longrightarrow>
    \<forall>name \<in> fst ` set gp. um_get (um_ref [] (graph_params s) (d_id d)) name = None \<and>
      um_get (um_ref [] (unused_params s) (d_id d)) name = None \<Longrightarrow> storage_step s s'"
| Unregister: "unregisterParam pid s = Inr s' \<Longrightarrow> storage_step s s'"
| Release: "releaseGraphParams gid s = Inr s' \<Longrightarrow> storage_step s s'"
| Master: "um_get (id_local_to_global s) master = None \<Longrightarrow> storage_step s (registerAmpMasterParam model master t s)"
| Use_master: "storage_step s (useAmpMasterParams gid b s)"
| Prepare: "prepareBackward fetch gid (s, gr) = Inr (s', gr') \<Longrightarrow> storage_step s s'"
| Allreduce: "allReduceParamGrads env fetch sort_tags gid s = Inr (cs, s') \<Longrightarrow> storage_step s s'"
| Bcast: "bcastParamsZero env sort_tags gid grad s = Inr (cs, s') \<Longrightarrow> storage_step s s'"
| Clear_grads: "clearParamGrads fetch gid s = Inr s' \<Longrightarrow> storage_step s s'"
| Set_grads: "setGradToLocalParamSegments gid s = Inr s' \<Longrightarrow> storage_step s s'"
| Local_segment: "ps_getLocalParamSegment pid s = Inr (v, s') \<Longrightarrow> storage_step s s'"
| Clear: "storage_step s (clear_storage s)"

lemma other_steps_ok:
  "storage_ok s \<Longrightarrow> um_get (id_local_to_global s) master = None \<Longrightarrow> storage_ok (registerAmpMasterParam model master t s)"
  "storage_ok s \<Longrightarrow> storage_ok (useAmpMasterParams gid b s)"
  "storage_ok (clear_storage s)"
proof -
  let ?s = "registerAmpMasterParam model master t s"
  have same: "maps_ok ?s = maps_ok s" "ids_inverse ?s = ids_inverse s" "uses_registered ?s = uses_registered s" "counts_uses ?s = counts_uses s"
    by (simp_all add: maps_ok_def ids_inverse_def uses_registered_def counts_uses_def uses_def registerAmpMasterParam_def)
  assume "storage_ok s" and "um_get (id_local_to_global s) master = None"
  moreover from this have "masters_apart ?s"
    by (auto simp: storage_ok_def masters_apart_def registerAmpMasterParam_def um_get_set)
  ultimately show "storage_ok ?s" by (simp add: storage_ok_def same)
next
  let ?s = "useAmpMasterParams gid b s"
  have same: "maps_ok ?s = maps_ok s" "ids_inverse ?s = ids_inverse s" "uses_registered ?s = uses_registered s" "counts_uses ?s = counts_uses s"
    "masters_apart ?s = masters_apart s"
    by (simp_all add: maps_ok_def ids_inverse_def uses_registered_def counts_uses_def masters_apart_def uses_def useAmpMasterParams_def)
  assume "storage_ok s"
  then show "storage_ok ?s" by (simp add: storage_ok_def same)
qed (simp add: storage_ok_def maps_ok_def ids_inverse_def uses_registered_def counts_uses_def masters_apart_def uses_def
      clear_storage_def um_ref_def)

lemma step_ok: "storage_step s s' \<Longrightarrow> storage_ok s \<Longrightarrow> storage_ok s'"
proof (induction rule: storage_step.induct)
  case (Register gl pid t buffer dist s s')
  show ?case by (rule registerParam_ok [OF Register.prems Register.hyps(1) _ _ Register.hyps(2)]) (use Register.hyps(3,4) in auto)
next
  case (Use s pid gid name)
  show ?case by (rule useParam_ok [OF Use.prems Use.hyps, THEN conjunct1])
next
  case (Unregister pid s s')
  show ?case by (rule unregisterParam_ok [OF Unregister.prems Unregister.hyps, THEN conjunct1])
next
  case (Release gid s s')
  obtain t where t: "releaseGraphParams gid s = Inr t" "storage_ok t" using release_run_ok [OF Release.prems, of gid] by (elim exE conjE) (rule that)
  have "s' = t" using t(1) unfolding Release.hyps by simp
  then show ?case using t(2) by (simp only:)
next
  case (Deploy env fetch d gp zero tm l s u tm' l' s')
  show ?case by (rule deploy_ok [OF Deploy.prems Deploy.hyps, THEN conjunct1])
next
  case (Prepare fetch gid s gr s' gr')
  show ?case using same_uses_ok [OF prepare_same [OF Prepare.hyps] Prepare.prems] ..
next
  case (Allreduce env fetch sort_tags gid s cs s')
  show ?case using same_uses_ok [OF allReduce_same [OF Allreduce.hyps] Allreduce.prems] ..
next
  case (Bcast env sort_tags gid grad s cs s')
  show ?case using same_uses_ok [OF bcast_same [OF Bcast.hyps] Bcast.prems] ..
next
  case (Clear_grads fetch gid s s')
  show ?case using same_uses_ok [OF clear_grads_same [OF Clear_grads.hyps] Clear_grads.prems] ..
next
  case (Set_grads gid s s')
  show ?case using same_uses_ok [OF set_grads_same [OF Set_grads.hyps] Set_grads.prems] ..
next
  case (Local_segment pid s v s')
  show ?case using same_uses_ok [OF local_segment_same [OF Local_segment.hyps] Local_segment.prems] ..
qed (simp_all only: other_steps_ok)

definition storage_reachable :: "('a :: zero) storage \<Rightarrow> bool" where
  "storage_reachable = storage_step\<^sup>*\<^sup>* new_storage"

lemma reachable_storage_ok: "storage_reachable s \<Longrightarrow> storage_ok s"
  unfolding storage_reachable_def by (induction rule: rtranclp_induct) (simp_all add: new_storage_ok step_ok)

text \<open>
  C18. In every storage that is reached by registering, using, deploying, unregistering and releasing parameters and by the
  calls of a training step, the count of a parameter is the number of its uses, the ids are inverse to each other, a parameter
  that is in use stays registered, and release of any graph succeeds. The callers must keep three promises, which the steps
  state: a parameter is registered under one global id and used only when it is registered, a name of a graph is used once
  until the graph is released (a second use under the same name would be counted and never given back), and the id of a
  master copy is not that of a parameter.
\<close>

theorem counts_are_uses:
  assumes "storage_reachable s"
  shows "um_ref 0 (ref_counts s) pid = int (count (uses s) pid) \<and>
    (um_get (id_local_to_global s) pid = Some g \<longleftrightarrow> um_get (id_global_to_local s) g = Some pid) \<and>
    (pid \<in># uses s \<longrightarrow> um_get (id_local_to_global s) pid \<noteq> None) \<and>
    (\<exists>s'. releaseGraphParams gid s = Inr s')"
proof (intro conjI)
  note ok = reachable_storage_ok [OF assms]
  note rel = releasing_uses [OF ok, unfolded releasing_def]
  show "um_ref 0 (ref_counts s) pid = int (count (uses s) pid)" by (rule rel [THEN conjunct2, THEN conjunct2, THEN conjunct1, rule_format])
  show "um_get (id_local_to_global s) pid = Some g \<longleftrightarrow> um_get (id_global_to_local s) g = Some pid"
    by (rule rel [THEN conjunct1, unfolded ids_inverse_def, rule_format])
  show "pid \<in># uses s \<longrightarrow> um_get (id_local_to_global s) pid \<noteq> None" by (intro impI) (rule rel [THEN conjunct2, THEN conjunct2, THEN conjunct2, THEN bspec])
  show "\<exists>s'. releaseGraphParams gid s = Inr s'" using release_run_ok [OF ok, of gid] by (elim exE conjE) (rule exI)
qed

text \<open>Two graphs share parameter 7; the first also uses 8.\<close>

definition demo_storage :: "int storage" where
  "demo_storage = useParam ''h'' ''w'' 7 (useParam ''g'' ''b'' 8 (useParam ''g'' ''w'' 7
     (new_storage\<lparr>ps_params := [(7, demo_tensor), (8, demo_tensor)], id_global_to_local := [(70, 7), (80, 8)], id_local_to_global := [(7, 70), (8, 80)]\<rparr>)))"

lemma demo_registered:
  "storage_reachable (new_storage\<lparr>ps_params := [(7, demo_tensor), (8, demo_tensor)], id_global_to_local := [(70, 7), (80, 8)], id_local_to_global := [(7, 70), (8, 80)]\<rparr> :: int storage)"
proof -
  let ?s1 = "new_storage\<lparr>ps_params := [(7, demo_tensor)], id_global_to_local := [(70, 7)], id_local_to_global := [(7, 70)]\<rparr> :: int storage"
  let ?s2 = "new_storage\<lparr>ps_params := [(7, demo_tensor), (8, demo_tensor)], id_global_to_local := [(70, 7), (80, 8)], id_local_to_global := [(7, 70), (8, 80)]\<rparr> :: int storage"
  have "storage_step (new_storage :: int storage) ?s1"
    by (rule Register [of 70 7 demo_tensor False False]) (simp_all add: registerParam_def new_storage_def um_contains_def)
  moreover have "storage_step ?s1 ?s2"
    by (rule Register [of 80 8 demo_tensor False False]) (simp_all add: registerParam_def new_storage_def um_contains_def)
  ultimately show ?thesis unfolding storage_reachable_def by (meson rtranclp.rtrancl_into_rtrancl rtranclp.rtrancl_refl)
qed

lemma demo_reachable: "storage_reachable demo_storage"
proof -
  note step = rtranclp.rtrancl_into_rtrancl [of storage_step]
  show ?thesis
    using demo_registered unfolding storage_reachable_def demo_storage_def
    by (intro step [OF step [OF step [OF _ Use] Use] Use]) (simp_all add: useParam_def new_storage_def um_ref_def)
qed

theorem release_frees_witness:
  "\<exists>s'. releaseGraphParams ''g'' demo_storage = Inr s' \<and> um_get (ps_params s') 7 = Some demo_tensor \<and> um_get (ps_params s') 8 = None \<and> uses s' = {#7#}"
proof -
  have u: "uses demo_storage = {#7, 7, 8#}" "graph_uses demo_storage ''g'' = {#7, 8#}"
    by (simp_all add: uses_def graph_uses_def names_uses_def demo_storage_def useParam_def new_storage_def um_ref_def)
  have p: "ps_params demo_storage = [(7, demo_tensor), (8, demo_tensor)]" by (simp add: demo_storage_def useParam_def)
  show ?thesis using release_frees [OF reachable_storage_ok [OF demo_reachable], of "''g''"] unfolding u p Let_def
    by (elim exE conjE) (intro exI conjI, assumption, simp_all)
qed

text \<open>A module with one subgraph on rank 0 that reads the parameter \<open>w\<close>.\<close>

definition demo_part :: "string \<Rightarrow> IRGraph" where
  "demo_part name = \<lparr>g_name = name, nodes = [], gvalues = [(''w'', \<lparr>v_name = ''w'', v_type = stub_type, is_param = True, is_batch = False, is_loss = False\<rparr>)],
     g_inputs = [''w''], g_outputs = [], is_replicable = True\<rparr>"

definition demo_module :: Deployment where
  "demo_module = \<lparr>d_id = ''m'', d_graph = demo_part ''m'', d_subgraphs = [(''a'', demo_part ''a'')],
     d_allocation = [(''a'', {0})], d_fwd_routes = [], d_fwd_in_routes = [], d_fwd_out_routes = [], d_fwd_graph_order = [''a''],
     d_bwd_routes = [], d_bwd_in_routes = [], d_bwd_out_routes = [], d_bwd_graph_order = [''a''], d_pipeline_num = 1, d_checkpointing = False\<rparr>"

definition demo_storage_env :: "int storage_env" where
  "demo_storage_env = \<lparr>se_hasher = colliding_hash, se_rank = 0, se_all_ranks = {0}, se_sort_names = (\<lambda>xs. xs), se_root_tags = {}, se_gather = (\<lambda>_ x. x),
     se_root_data = (\<lambda>_. []), se_root_id = (\<lambda>p. p), se_sync_on_init = False\<rparr>"

lemma demo_module_deployed:
  "\<exists>tm' l' s'. deploy_params demo_storage_env (\<lambda>_. Inr demo_tensor) demo_module [(''w'', 7)] False (new_TagMap, new_param_locator, demo_storage) = Inr ((), tm', l', s')"
proof -
  have "map_sum id (\<lambda>_. ()) (deploy_params demo_storage_env (\<lambda>_. Inr demo_tensor) demo_module [(''w'', 7)] False
      (new_TagMap, new_param_locator, demo_storage)) = Inr ()" by code_simp
  then show ?thesis
    by (cases "deploy_params demo_storage_env (\<lambda>_. Inr demo_tensor) demo_module [(''w'', 7)] False (new_TagMap, new_param_locator, demo_storage)") auto
qed

theorem counts_are_uses_witness:
  "\<exists>tm' l' s'. deploy_params demo_storage_env (\<lambda>_. Inr demo_tensor) demo_module [(''w'', 7)] False (new_TagMap, new_param_locator, demo_storage) =
       Inr ((), tm', l', s') \<and> um_ref 0 (ref_counts s') 7 = 3 \<and> (\<exists>s''. releaseGraphParams ''m'' s' = Inr s'')"
proof -
  obtain tm' l' s' where d: "deploy_params demo_storage_env (\<lambda>_. Inr demo_tensor) demo_module [(''w'', 7)] False
      (new_TagMap, new_param_locator, demo_storage) = Inr ((), tm', l', s')" using demo_module_deployed by (elim exE)
  have fresh: "um_ok [(''w'', 7 :: int)]" "\<forall>pid \<in> snd ` set [(''w'', 7)]. um_get (id_local_to_global demo_storage) pid \<noteq> None"
    "\<forall>name \<in> fst ` set [(''w'', 7 :: int)]. um_get (um_ref [] (graph_params demo_storage) (d_id demo_module)) name = None \<and>
      um_get (um_ref [] (unused_params demo_storage) (d_id demo_module)) name = None"
    by (simp_all add: um_ok_def demo_storage_def useParam_def new_storage_def demo_module_def um_ref_def)
  have "storage_step demo_storage s'" by (rule Deploy [OF d fresh])
  with demo_reachable have reach: "storage_reachable s'" unfolding storage_reachable_def by (rule rtranclp.rtrancl_into_rtrancl)
  have "uses s' = names_uses [(''w'', 7)] + uses demo_storage"
    using deploy_ok [OF reachable_storage_ok [OF demo_reachable] d fresh] ..
  then have "count (uses s') 7 = 3"
    by (simp add: uses_def names_uses_def demo_storage_def useParam_def new_storage_def um_ref_def)
  with counts_are_uses [OF reach, of 7 0 "''m''"] d show ?thesis by auto
qed

end
