(* ===== verification/Param_Deploy.thy ===== *)
theory Param_Deploy
  imports Param_Storage
begin

text \<open>
  Deployment of parameters: the ranks that are noted are those of the deployment, a parameter shared by two subgraphs of
  one rank is refused. A graph with a buffer fails too, which the code does not intend (see the lemma below).
\<close>

section \<open>The ranks noted for the parameters\<close>

lemma um_ref_set: "um_ref d (um_set k v m) k' = (if k' = k then v else um_ref d m k')"
  by (simp add: um_ref_def um_get_set)

lemma fold_graph_set:
  "um_ref {} (fold (\<lambda>r m. um_set (n, r) (insert sg (um_ref {} m (n, r))) m) rs m) (n', r') =
    (if n' = n \<and> r' \<in> set rs then insert sg (um_ref {} m (n', r')) else um_ref {} m (n', r'))"
  by (induction rs arbitrary: m) (auto simp: um_ref_set)

lemma note_ranks_graphs:
  assumes "finite rs"
  shows "um_ref {} (snd (note_ranks env gid pid n sg rs a)) (n', r) = um_ref {} (snd a) (n', r) \<union> (if n' = n \<and> r \<in> rs then {sg} else {})"
  using assms by (auto simp: note_ranks_def fold_graph_set Let_def split: prod.split)

lemma note_ranks_ranks:
  "um_ref {} (ps_ranks (fst (note_ranks env gid pid n sg rs a))) pid' = um_ref {} (ps_ranks (fst a)) pid' \<union> (if pid' = pid then rs else {})"
  by (auto simp: note_ranks_def Let_def um_ref_set split: prod.split)

lemma note_ranks_frame:
  "graph_params (fst (note_ranks env gid pid n sg rs a)) = graph_params (fst a)"
  "ps_params (fst (note_ranks env gid pid n sg rs a)) = ps_params (fst a)"
  by (auto simp: note_ranks_def Let_def split: prod.split)

definition ranks_finite :: "value_ranks \<Rightarrow> bool" where
  "ranks_finite maps \<longleftrightarrow> (\<forall>(sg, m) \<in> set maps. \<forall>n rs. um_get m n = Some rs \<longrightarrow> finite rs)"

text \<open>The subgraphs in which a rank needs a parameter, and the ranks that need it, by the deployment.\<close>

definition graphs_on :: "value_ranks \<Rightarrow> string \<Rightarrow> int \<Rightarrow> string set" where
  "graphs_on maps name r = {sg. \<exists>m. (sg, m) \<in> set maps \<and> r \<in> um_ref {} m name}"

definition ranks_of_param :: "value_ranks \<Rightarrow> string \<Rightarrow> int set" where
  "ranks_of_param maps name = (\<Union>(sg, m) \<in> set maps. um_ref {} m name)"

lemma graphs_on_simps:
  "graphs_on [] name r = {}" "graphs_on ((sg, m) # maps) name r = (if r \<in> um_ref {} m name then {sg} else {}) \<union> graphs_on maps name r"
  by (auto simp: graphs_on_def)

lemma ranks_of_param_simps:
  "ranks_of_param [] name = {}" "ranks_of_param ((sg, m) # maps) name = um_ref {} m name \<union> ranks_of_param maps name"
  by (auto simp: ranks_of_param_def)

text \<open>What noting a parameter adds to the ranks and to the subgraphs by rank.\<close>

definition noted :: "value_ranks \<Rightarrow> int \<Rightarrow> string \<Rightarrow> 'a storage \<times> (string \<times> int, string set) umap \<Rightarrow> 'a storage \<times> (string \<times> int, string set) umap \<Rightarrow> bool" where
  "noted maps pid n a b \<longleftrightarrow>
     (\<forall>n' r. um_ref {} (snd b) (n', r) = um_ref {} (snd a) (n', r) \<union> (if n' = n then graphs_on maps n r else {})) \<and>
     (\<forall>p. um_ref {} (ps_ranks (fst b)) p = um_ref {} (ps_ranks (fst a)) p \<union> (if p = pid then ranks_of_param maps n else {}))"

lemma note_subgraph_run:
  assumes name: "um_get id_to_name pid = Some n" and fin: "\<And>rs. um_get m n = Some rs \<Longrightarrow> finite rs"
  shows "\<exists>b. note_subgraph env gid id_to_name pid (sg, m) a = Inr b \<and> noted [(sg, m)] pid n a b"
proof (cases "um_get m n")
  case None
  then show ?thesis using name
    by (auto simp: note_subgraph_def um_contains_def um_at_def noted_def graphs_on_simps ranks_of_param_simps um_ref_def)
next
  case (Some rs)
  then have "um_ref {} m n = rs" by (simp add: um_ref_def)
  then show ?thesis using Some name fin [OF Some]
    by (simp add: note_subgraph_def um_contains_def um_at_def noted_def note_ranks_graphs note_ranks_ranks graphs_on_simps ranks_of_param_simps)
qed

lemma noted_Cons: "noted [e] pid n a b \<Longrightarrow> noted maps pid n b c \<Longrightarrow> noted (e # maps) pid n a c"
  by (cases e) (auto simp: noted_def graphs_on_simps ranks_of_param_simps)

lemma note_param_run:
  assumes name: "um_get id_to_name pid = Some n" and fin: "ranks_finite maps"
  shows "\<exists>b. note_param env gid id_to_name maps pid a = Inr b \<and> noted maps pid n a b"
  using fin unfolding note_param_def
proof (induction maps arbitrary: a)
  case (Cons e maps)
  obtain sg m where e: "e = (sg, m)" by (cases e)
  have fin: "ranks_finite maps" "\<And>rs. um_get m n = Some rs \<Longrightarrow> finite rs" using Cons.prems by (auto simp: ranks_finite_def e)
  obtain b where b: "note_subgraph env gid id_to_name pid e a = Inr b" "noted [e] pid n a b"
    using note_subgraph_run [OF name fin(2)] unfolding e by blast
  from Cons.IH [OF fin(1), of b] obtain c where c: "rfold (note_subgraph env gid id_to_name pid) maps b = Inr c" "noted maps pid n b c" by blast
  from b(1) c(1) noted_Cons [OF b(2) c(2)] show ?case by simp
qed (simp add: noted_def graphs_on_simps ranks_of_param_simps)

lemma note_params_run:
  assumes "\<And>pid. pid \<in> set pids \<Longrightarrow> um_get id_to_name pid = Some (nm pid)" "ranks_finite maps"
  shows "\<exists>b. rfold (note_param env gid id_to_name maps) pids a = Inr b \<and>
    (\<forall>n r. um_ref {} (snd b) (n, r) = um_ref {} (snd a) (n, r) \<union> (if n \<in> nm ` set pids then graphs_on maps n r else {})) \<and>
    (\<forall>p. um_ref {} (ps_ranks (fst b)) p = um_ref {} (ps_ranks (fst a)) p \<union> (if p \<in> set pids then ranks_of_param maps (nm p) else {}))"
  using assms(1)
proof (induction pids arbitrary: a)
  case (Cons pid pids)
  from note_param_run [OF Cons.prems [OF list.set_intros(1)] assms(2), of env gid a]
  obtain b where b: "note_param env gid id_to_name maps pid a = Inr b" "noted maps pid (nm pid) a b" by blast
  from Cons.IH [of b] Cons.prems obtain c where c: "rfold (note_param env gid id_to_name maps) pids b = Inr c"
    "\<forall>n r. um_ref {} (snd c) (n, r) = um_ref {} (snd b) (n, r) \<union> (if n \<in> nm ` set pids then graphs_on maps n r else {})"
    "\<forall>p. um_ref {} (ps_ranks (fst c)) p = um_ref {} (ps_ranks (fst b)) p \<union> (if p \<in> set pids then ranks_of_param maps (nm p) else {})" by auto
  show ?case
  proof (intro exI [of _ c] conjI allI)
    show "rfold (note_param env gid id_to_name maps) (pid # pids) a = Inr c" using b(1) c(1) by simp
  next
    fix n r show "um_ref {} (snd c) (n, r) = um_ref {} (snd a) (n, r) \<union> (if n \<in> nm ` set (pid # pids) then graphs_on maps n r else {})"
      unfolding c(2) [rule_format] using b(2) by (auto simp: noted_def)
  next
    fix p show "um_ref {} (ps_ranks (fst c)) p = um_ref {} (ps_ranks (fst a)) p \<union> (if p \<in> set (pid # pids) then ranks_of_param maps (nm p) else {})"
      unfolding c(3) [rule_format] using b(2) by (auto simp: noted_def)
  qed
qed simp

section \<open>A deployment up to the placement\<close>

lemma use_all:
  assumes "um_ok gp" "um_ok (gp0 @ gp)" "um_get (graph_params s) gid = Some gp0 \<or> um_get (graph_params s) gid = None \<and> gp0 = [] \<and> gp \<noteq> []"
  shows "um_get (graph_params (fold (\<lambda>(name, pid). useParam gid name pid) gp s)) gid = Some (gp0 @ gp) \<and>
    buffer_ids (fold (\<lambda>(name, pid). useParam gid name pid) gp s) = buffer_ids s"
  using assms
proof (induction gp arbitrary: s gp0)
  case (Cons e gp)
  obtain n p where e: "e = (n, p)" by (cases e)
  have fresh: "n \<notin> fst ` set gp0" using Cons.prems(2) by (auto simp: e um_ok_def)
  have "um_ref [] (graph_params s) gid = gp0" using Cons.prems(3) by (auto simp: um_ref_def)
  then have gp: "um_get (graph_params (useParam gid n p s)) gid = Some (gp0 @ [(n, p)])"
    by (simp add: useParam_def um_get_set um_set_fresh [OF fresh])
  have ok: "um_ok gp" "um_ok ((gp0 @ [(n, p)]) @ gp)" using Cons.prems(1,2) by (auto simp: e um_ok_def)
  show ?case using Cons.IH [OF ok disjI1 [OF gp]] by (simp add: e useParam_def)
qed auto

lemma swapped_names:
  assumes "distinct (map snd ps)" "(n, p) \<in> set ps"
  shows "um_get (um_of (map (\<lambda>(name, pid). (pid, name)) ps)) p = Some n"
proof -
  have d: "distinct (map fst (map (\<lambda>(name, pid). (pid, name)) ps))" using assms(1) by (simp add: comp_def case_prod_beta')
  have "(p, n) \<in> set (map (\<lambda>(name, pid). (pid, name)) ps)" using assms(2) by force
  then show ?thesis unfolding um_of_distinct [OF d] by (rule map_of_is_SomeI [OF d])
qed

lemma no_swapped_name: "p \<notin> snd ` set ps \<Longrightarrow> um_get (um_of (map (\<lambda>(name, pid). (pid, name)) ps)) p = None"
  by (force simp: um_get_of map_of_eq_None_iff)

text \<open>The promise of \<open>std::sort\<close>: the same names.\<close>

definition sorts_names :: "(string list \<Rightarrow> string list) \<Rightarrow> bool" where
  "sorts_names f \<longleftrightarrow> (\<forall>xs. set (f xs) = set xs)"

lemma sorted_ids:
  assumes "sorts_names f" "um_ok gp"
  shows "\<exists>pids. getSortedParamIDs f gp = Inr pids \<and> set pids = snd ` set gp"
proof -
  have keys: "set (f (map fst gp)) = fst ` set gp" using assms(1) by (simp add: sorts_names_def)
  have "rmap (um_at gp) (f (map fst gp)) = Inr (map (\<lambda>n. the (um_get gp n)) (f (map fst gp)))"
    by (rule rmap_Inr) (use keys um_get_key [of _ gp] in \<open>fastforce simp: um_at_def\<close>)
  moreover have "(\<lambda>n. the (um_get gp n)) ` fst ` set gp = snd ` set gp"
    using assms(2) by (force simp: image_image um_ok_def map_of_is_SomeI)
  ultimately show ?thesis by (simp add: getSortedParamIDs_def keys)
qed

lemma deploy_unfold:
  assumes "um_ok gp" "gp \<noteq> []" "um_get (graph_params s) (d_id d) = None" "getParamRanks (se_sort_names env) d = Inr maps"
    "getSortedParamIDs (se_sort_names env) gp = Inr pids"
  obtains s2 where "rfold (note_param env (d_id d) (um_of (map (\<lambda>(name, pid). (pid, name)) (filter (\<lambda>(_, p). p \<notin> buffer_ids s) gp))) maps) pids (s2, []) = Inl e
      \<Longrightarrow> deploy_params env fetch d gp zero (tm, l, s) = Inl e"
    "\<And>s3 pgs. rfold (note_param env (d_id d) (um_of (map (\<lambda>(name, pid). (pid, name)) (filter (\<lambda>(_, p). p \<notin> buffer_ids s) gp))) maps) pids (s2, []) = Inr (s3, pgs)
      \<Longrightarrow> check_sharing pgs = Inl e \<Longrightarrow> deploy_params env fetch d gp zero (tm, l, s) = Inl e"
proof -
  let ?s1 = "fold (\<lambda>(name, pid). useParam (d_id d) name pid) gp s"
  have u: "um_get (graph_params ?s1) (d_id d) = Some gp" "buffer_ids ?s1 = buffer_ids s"
    using use_all [of gp "[]" s "d_id d"] assms by auto
  have ids: "getParamIDs ?s1 (d_id d) False = Inr (filter (\<lambda>(_, p). p \<notin> buffer_ids s) gp)"
    by (simp add: getParamIDs_def um_at_def u)
  show ?thesis
    by (rule that [of "?s1\<lparr>grouped_params := um_set (d_id d) (um_ref [] (grouped_params ?s1) (d_id d)) (grouped_params ?s1)\<rparr>"])
      (simp_all add: deploy_params_def Let_def ids assms(4,5))
qed

lemma graphs_on_finite: "finite (graphs_on maps name r)"
  by (rule finite_subset [of _ "fst ` set maps"]) (force simp: graphs_on_def)+

lemma check_sharing_fails:
  assumes "um_ref {} pgs k = gs" "finite gs" "sg1 \<in> gs" "sg2 \<in> gs" "sg1 \<noteq> sg2"
  shows "check_sharing pgs = Inl Runtime_error"
proof -
  have "um_get pgs k = Some gs" using assms(1,3) by (auto simp: um_ref_def split: option.splits)
  then have "(k, gs) \<in> set pgs" by (rule map_of_SomeD)
  moreover have "1 < card gs" using card_mono [of gs "{sg1, sg2}"] assms by simp
  ultimately show ?thesis unfolding check_sharing_def by auto
qed

section \<open>What deployment refuses\<close>

text \<open>
  C38. A deployment in which two subgraphs need one parameter on one rank is refused with an exception, before
  anything is placed.
\<close>

theorem deploy_refuses_sharing:
  assumes gp: "um_ok gp" "distinct (map snd gp)" "um_get (graph_params s) (d_id d) = None"
    and nobuf: "\<forall>(n, p) \<in> set gp. p \<notin> buffer_ids s" and sorted: "sorts_names (se_sort_names env)"
    and maps: "getParamRanks (se_sort_names env) d = Inr maps" "ranks_finite maps" and name: "(name, pid) \<in> set gp"
    and graphs: "sg1 \<in> graphs_on maps name r" "sg2 \<in> graphs_on maps name r" "sg1 \<noteq> sg2"
  shows "deploy_params env fetch d gp zero (tm, l, s) = Inl Runtime_error"
proof -
  let ?names = "um_of (map (\<lambda>(name, pid). (pid, name)) gp)"
  have all: "filter (\<lambda>(_, p). p \<notin> buffer_ids s) gp = gp" using nobuf by (auto simp: filter_id_conv)
  obtain pids where pids: "getSortedParamIDs (se_sort_names env) gp = Inr pids" "set pids = snd ` set gp" using sorted_ids [OF sorted gp(1)] by blast
  have named: "um_get ?names p = Some (the (um_get ?names p))" if p: "p \<in> set pids" for p
  proof -
    obtain n where "(n, p) \<in> set gp" using p pids(2) by auto
    then show ?thesis using swapped_names [OF gp(2)] by simp
  qed
  have ne: "gp \<noteq> []" using name by auto
  obtain s2 where fails: "\<And>s3 pgs. rfold (note_param env (d_id d) ?names maps) pids (s2, []) = Inr (s3, pgs) \<Longrightarrow>
      check_sharing pgs = Inl Runtime_error \<Longrightarrow> deploy_params env fetch d gp zero (tm, l, s) = Inl Runtime_error"
    by (rule deploy_unfold [OF gp(1) ne gp(3) maps(1) pids(1), of Runtime_error fetch zero tm l, unfolded all]) blast
  obtain s3 pgs where run: "rfold (note_param env (d_id d) ?names maps) pids (s2, []) = Inr (s3, pgs)"
    and pgs: "\<forall>n r. um_ref {} pgs (n, r) = um_ref {} [] (n, r) \<union> (if n \<in> (\<lambda>p. the (um_get ?names p)) ` set pids then graphs_on maps n r else {})"
    using note_params_run [where nm = "\<lambda>p. the (um_get ?names p)", OF named maps(2), of pids env "d_id d" "(s2, [])"] by auto
  have "name = the (um_get ?names pid)" "pid \<in> set pids" using swapped_names [OF gp(2) name] name pids(2) by force+
  then have "um_ref {} pgs (name, r) = graphs_on maps name r" using pgs by (auto simp: um_ref_def)
  from fails [OF run check_sharing_fails [OF this graphs_on_finite graphs]] show ?thesis .
qed

lemma note_param_unnamed:
  "um_get id_to_name pid = None \<Longrightarrow> maps \<noteq> [] \<Longrightarrow> note_param env gid id_to_name maps pid a = Inl Assertion_failed"
  by (cases maps) (auto simp: note_param_def note_subgraph_def um_contains_def split: prod.split)

text \<open>
  A flaw: the deployment of a graph with a registered buffer fails, since the names are looked up among the parameters
  without the buffers, while the loop over the sorted ids includes them. The tests expect such a model to run
  (\<open>test_buffer2\<close> in \<open>test/test_bn.py\<close>, whose batch normalisation keeps running statistics).
\<close>

lemma deploy_refuses_buffers:
  assumes gp: "um_ok gp" "distinct (map snd gp)" "um_get (graph_params s) (d_id d) = None"
    and sorted: "sorts_names (se_sort_names env)" and maps: "getParamRanks (se_sort_names env) d = Inr maps" "ranks_finite maps" "maps \<noteq> []"
    and buf: "pid \<in> snd ` set gp" "pid \<in> buffer_ids s"
  shows "deploy_params env fetch d gp zero (tm, l, s) = Inl Assertion_failed"
proof -
  let ?gp = "filter (\<lambda>(_, p). p \<notin> buffer_ids s) gp"
  let ?names = "um_of (map (\<lambda>(name, pid). (pid, name)) ?gp)"
  obtain pids where pids: "getSortedParamIDs (se_sort_names env) gp = Inr pids" "set pids = snd ` set gp" using sorted_ids [OF sorted gp(1)] by blast
  have ne: "gp \<noteq> []" using buf(1) by auto
  obtain s2 where fails: "rfold (note_param env (d_id d) ?names maps) pids (s2, []) = Inl Assertion_failed \<Longrightarrow>
      deploy_params env fetch d gp zero (tm, l, s) = Inl Assertion_failed"
    by (rule deploy_unfold [OF gp(1) ne gp(3) maps(1) pids(1), of Assertion_failed fetch zero tm l]) blast
  have "\<exists>p \<in> set pids. p \<in> buffer_ids s" using buf pids(2) by blast
  then obtain pre p post where split: "pids = pre @ p # post" "p \<in> buffer_ids s" "\<forall>q \<in> set pre. q \<notin> buffer_ids s" by (rule split_list_first_propE)
  have d: "distinct (map snd ?gp)" using gp(2) by (rule distinct_map_filter)
  have named: "um_get ?names q = Some (the (um_get ?names q))" if q: "q \<in> set pre" for q
  proof -
    have "q \<in> snd ` set gp" using q split(1) unfolding pids(2) [symmetric] by simp
    then obtain n where "(n, q) \<in> set ?gp" using q split(3) by auto
    from swapped_names [OF d this] show ?thesis by (simp only: option.sel)
  qed
  obtain b where b: "rfold (note_param env (d_id d) ?names maps) pre (s2, []) = Inr b"
    using note_params_run [where nm = "\<lambda>p. the (um_get ?names p)", OF named maps(2), of pre env "d_id d" "(s2, [])"] by blast
  have "um_get ?names p = None" by (rule no_swapped_name) (use split(2) in auto)
  then show ?thesis using fails by (simp add: split(1) rfold_append b note_param_unnamed maps(3))
qed

definition demo_sharing :: "string \<Rightarrow> IRGraph" where
  "demo_sharing name = \<lparr>g_name = name, nodes = [], gvalues = [(''w'', \<lparr>v_name = ''w'', v_type = stub_type, is_param = True, is_batch = False, is_loss = False\<rparr>)],
     g_inputs = [''w''], g_outputs = [], is_replicable = True\<rparr>"

definition demo_deployment :: Deployment where
  "demo_deployment = \<lparr>d_id = ''g'', d_graph = demo_sharing ''g'', d_subgraphs = [(''a'', demo_sharing ''a''), (''b'', demo_sharing ''b'')],
     d_allocation = [(''a'', {0}), (''b'', {0})], d_fwd_routes = [], d_fwd_in_routes = [], d_fwd_out_routes = [], d_fwd_graph_order = [''a'', ''b''],
     d_bwd_routes = [], d_bwd_in_routes = [], d_bwd_out_routes = [], d_bwd_graph_order = [''b'', ''a''], d_pipeline_num = 1, d_checkpointing = False\<rparr>"

definition demo_env :: "int storage_env" where
  "demo_env = \<lparr>se_hasher = colliding_hash, se_rank = 0, se_all_ranks = {0}, se_sort_names = (\<lambda>xs. xs), se_root_tags = {}, se_gather = (\<lambda>_ x. x),
     se_root_data = (\<lambda>_. []), se_root_id = (\<lambda>p. p), se_sync_on_init = False\<rparr>"

lemma demo_ranks_noted: "getParamRanks (se_sort_names demo_env) demo_deployment = Inr [(''a'', [(''w'', {0})]), (''b'', [(''w'', {0})])]"
  by (simp add: getParamRanks_def getGraphValueRanks_def graphParamValues_def demo_deployment_def demo_env_def demo_sharing_def getValue_def
      um_at_def um_contains_def um_ref_def)

lemma demo_env_ok: "sorts_names (se_sort_names demo_env)" "ranks_finite [(''a'', [(''w'', {0})]), (''b'', [(''w'', {0})])]"
  by (auto simp: sorts_names_def demo_env_def ranks_finite_def)

theorem deploy_refuses_sharing_witness:
  "deploy_params demo_env (\<lambda>_. Inr demo_tensor) demo_deployment [(''w'', 7)] False (new_TagMap, new_param_locator, new_storage) = Inl Runtime_error"
  by (rule deploy_refuses_sharing [OF _ _ _ _ demo_env_ok(1) demo_ranks_noted demo_env_ok(2), where name = "''w''" and pid = 7 and ?sg1.0 = "''a''" and ?sg2.0 = "''b''" and r = 0])
    (simp_all add: um_ok_def new_storage_def graphs_on_def um_ref_def)

lemma deploy_refuses_buffers_witness:
  "deploy_params demo_env (\<lambda>_. Inr demo_tensor) demo_deployment [(''w'', 7)] False (new_TagMap, new_param_locator, new_storage\<lparr>buffer_ids := {7}\<rparr>) = Inl Assertion_failed"
  by (rule deploy_refuses_buffers [OF _ _ _ demo_env_ok(1) demo_ranks_noted demo_env_ok(2)]) (simp_all add: um_ok_def new_storage_def)

end
