(* ===== verification/Graph_Connector.thy ===== *)
theory Graph_Connector
  imports Deployment "HOL-Library.Product_Lexorder"
begin

text \<open>
  Running the subgraphs of one rank, microbatch by microbatch (\<open>class GraphConnector\<close> of
  \<open>comp/GraphConnector.h\<close> and \<open>comp/GraphConnector.cpp\<close>): which values are received and sent when, the delayed sends of
  a pipeline and their flush, and the runs of the subgraphs with recomputation.

  A value of PyTorch is an element of \<open>'v\<close>; the value that is none is \<open>None\<close>. PyTorch and what the ranks exchange are the
  world \<open>'w\<close>, reached through the operations of \<open>connector_env\<close>: \<open>SComm::distribute\<close>, the driver that runs a traced
  graph, and the state \<open>'g\<close> of the random number generator. Events, time counters, log messages and the comparison
  of recomputed outputs for debugging do not appear.
\<close>

section \<open>State\<close>

type_synonym 'v ivalues = "(IValueLocation, 'v) umap"

type_synonym inc_counts = "(string, (IValueLocation, nat) umap) umap"

record ('v, 'g) connector =
  cn_id :: string
  cn_graphs :: "(string, IRGraph) umap"
  cn_inputs :: "(string, (int, 'v ivalues) umap) umap"
  cn_fwd_order :: "(string, int) umap"
  cn_fwd_sorted :: "string list"
  cn_fwd_recv :: "(string, RouteDP list) umap"
  cn_fwd_send :: "(string, RouteDP list) umap"
  cn_bwd_order :: "(string, int) umap"
  cn_bwd_sorted :: "string list"
  cn_bwd_recv :: "(string, RouteDP list) umap"
  cn_bwd_send :: "(string, RouteDP list) umap"
  cn_checkpointing :: "(string, bool) umap"
  cn_split_values :: "(int, (string, 'v ivalues) umap) umap"
  cn_pipeline_num :: int
  cn_max_fwd_delay :: int
  cn_max_bwd_delay :: int
  cn_fwd_inc :: inc_counts
  cn_bwd_inc :: inc_counts
  cn_rng_states :: "(string, (int, 'g) umap) umap"
  cn_skip :: "(int, bool) umap"

definition new_connector :: "string \<Rightarrow> ('v, 'g) connector" where
  "new_connector i = \<lparr>cn_id = i, cn_graphs = [], cn_inputs = [], cn_fwd_order = [], cn_fwd_sorted = [], cn_fwd_recv = [],
     cn_fwd_send = [], cn_bwd_order = [], cn_bwd_sorted = [], cn_bwd_recv = [], cn_bwd_send = [], cn_checkpointing = [],
     cn_split_values = [], cn_pipeline_num = 0, cn_max_fwd_delay = 0, cn_max_bwd_delay = 0, cn_fwd_inc = [], cn_bwd_inc = [],
     cn_rng_states = [], cn_skip = []\<rparr>"

text \<open>The first argument of \<open>ce_distribute\<close> says whether it is the backward pass, the second is the delay in microbatches;
  the first argument of \<open>ce_forward\<close> says whether gradients are switched off or on explicitly.\<close>

datatype grad_mode = Mode_unchanged | Mode_no_grad | Mode_grad

record ('w, 'v, 'g) connector_env =
  ce_rank :: int
  ce_distribute :: "bool \<Rightarrow> int \<Rightarrow> RouteDP \<Rightarrow> 'v option \<Rightarrow> ('w, 'v option) st"
  ce_forward :: "grad_mode \<Rightarrow> string \<Rightarrow> 'v ivalues \<Rightarrow> int \<Rightarrow> ('w, 'v ivalues) st"
  ce_backward :: "string \<Rightarrow> 'v ivalues \<Rightarrow> int \<Rightarrow> ('w, 'v ivalues) st"
  ce_get_rng :: "('w, 'g) st"
  ce_set_rng :: "'g \<Rightarrow> ('w, unit) st"
  ce_undefined :: "'v \<Rightarrow> bool"
  ce_sum :: "'v list \<Rightarrow> 'v res"
  ce_prepare_backward :: "string \<Rightarrow> ('w, unit) st"
  ce_constant :: "string \<Rightarrow> 'v res"
  ce_param :: "string \<Rightarrow> string \<Rightarrow> 'v res"
  ce_create :: "string \<Rightarrow> IRGraph \<Rightarrow> 'v ivalues \<Rightarrow> (string, 'v) umap \<Rightarrow> ('w, unit) st"
  ce_sort_names :: "string list \<Rightarrow> string list"

type_synonym ('w, 'v, 'g) cstate = "'w \<times> ('v, 'g) connector"

text \<open>An operation on the world, inside an operation of the connector.\<close>

definition outside :: "('w, 'a) st \<Rightarrow> ('w, 'v, 'g) cstate \<Rightarrow> ('a \<times> ('w, 'v, 'g) cstate) res" where
  "outside m = (\<lambda>(w, c). rbind (m w) (\<lambda>(x, w'). Inr (x, (w', c))))"

definition update_connector :: "(('v, 'g) connector \<Rightarrow> ('v, 'g) connector) \<Rightarrow> ('w, 'v, 'g) cstate \<Rightarrow> (unit \<times> ('w, 'v, 'g) cstate) res" where
  "update_connector f = (\<lambda>(w, c). Inr ((), (w, f c)))"

section \<open>Routes\<close>

definition getDelay :: "RouteDP \<Rightarrow> (string, int) umap \<Rightarrow> int res" where
  "getDelay r graph_order =
     rbind (um_at graph_order (r_dest_graph r)) (\<lambda>d. rbind (um_at graph_order (r_source_graph r)) (\<lambda>s. Inr (d - s - 1)))"

definition getMaxDelay :: "RouteDP list \<Rightarrow> (string, int) umap \<Rightarrow> int res" where
  "getMaxDelay routes graph_order =
     rfold (\<lambda>r max_delay.
       rbind (rassert (um_contains graph_order (r_source_graph r))) (\<lambda>_.
       rbind (rassert (um_contains graph_order (r_dest_graph r))) (\<lambda>_.
       rbind (getDelay r graph_order) (\<lambda>send_delay. Inr (max max_delay send_delay))))) routes 0"

definition getGraphsOnRank :: "Deployment \<Rightarrow> int \<Rightarrow> (string, IRGraph) umap res" where
  "getGraphsOnRank deployment rank =
     rfold (\<lambda>(sg_name, subgraph) graphs.
       rbind (um_at (d_allocation deployment) sg_name) (\<lambda>ranks.
       Inr (if rank \<in> ranks then um_set sg_name subgraph graphs else graphs))) (d_subgraphs deployment) []"

text \<open>A sort of fewer than two routes compares nothing; otherwise every route is compared.\<close>

definition sortRoutes :: "RouteDP list \<Rightarrow> (string, int) umap \<Rightarrow> RouteDP list res" where
  "sortRoutes routes graph_order =
     (if length routes \<le> 1 then Inr routes
      else rbind (rmap (\<lambda>r. rbind (getDelay r graph_order) (\<lambda>d. rbind (rassert (d \<ge> 0)) (\<lambda>_. Inr (d, r)))) routes) (\<lambda>drs.
           Inr (map snd (sort_key (\<lambda>(d, r). (d, value_name (r_location r))) drs))))"

definition filterRoutes_by :: "RouteDP list \<Rightarrow> string \<Rightarrow> (RouteDP \<Rightarrow> string) \<Rightarrow> RouteDP list" where
  "filterRoutes_by routes sg_name f = filter (\<lambda>r. f r = sg_name) routes"

definition sortRecvRoutes :: "RouteDP list \<Rightarrow> string \<Rightarrow> (string, int) umap \<Rightarrow> RouteDP list res" where
  "sortRecvRoutes routes sg_name graph_order = sortRoutes (filterRoutes_by routes sg_name r_dest_graph) graph_order"

definition sortSendRoutes :: "RouteDP list \<Rightarrow> string \<Rightarrow> (string, int) umap \<Rightarrow> RouteDP list res" where
  "sortSendRoutes routes sg_name graph_order = sortRoutes (filterRoutes_by routes sg_name r_source_graph) graph_order"

section \<open>Deployment\<close>

definition count_edges :: "RouteDP list \<Rightarrow> inc_counts \<Rightarrow> inc_counts" where
  "count_edges routes inc =
     fold (\<lambda>r m. let counts = um_ref [] m (r_dest_graph r)
                 in um_set (r_dest_graph r) (um_set (r_location r) (um_ref 0 counts (r_location r) + 1) counts) m) routes inc"

text \<open>The routes of the subgraphs of this rank, in one direction, with the counts of incoming edges.\<close>

definition rank_routes :: "(string, IRGraph) umap \<Rightarrow> RouteDP list \<Rightarrow> (string, int) umap \<Rightarrow> string list \<Rightarrow>
    (string, RouteDP list) umap \<times> (string, RouteDP list) umap \<times> inc_counts \<Rightarrow>
    ((string, RouteDP list) umap \<times> (string, RouteDP list) umap \<times> inc_counts) res" where
  "rank_routes graphs routes graph_order names =
     rfold (\<lambda>sg_name (recv, send, inc).
       if \<not> um_contains graphs sg_name then Inr (recv, send, inc)
       else rbind (sortRecvRoutes routes sg_name graph_order) (\<lambda>rs.
            rbind (sortSendRoutes routes sg_name graph_order) (\<lambda>ss.
            Inr (um_set sg_name rs recv, um_set sg_name ss send, count_edges rs inc)))) names"

definition order_map :: "string list \<Rightarrow> (string, int) umap \<Rightarrow> (string, int) umap" where
  "order_map names m = fold (\<lambda>(i, n). um_set n (int i)) (enumerate 0 names) m"

definition create_module :: "('w, 'v, 'g) connector_env \<Rightarrow> bool \<Rightarrow> IRGraph \<Rightarrow> (('w, 'v, 'g) cstate, unit) st" where
  "create_module env checkpointing subgraph = (\<lambda>(w, c).
     rbind (graphConstantValues subgraph) (\<lambda>irc.
     rbind (rmap (\<lambda>v. rbind (ce_constant env (v_name v)) (\<lambda>x. Inr (loc_of (v_name v), x))) irc) (\<lambda>constants.
     rbind (graphParamValues (ce_sort_names env) subgraph) (\<lambda>irp.
     rbind (rmap (\<lambda>v. rbind (ce_param env (cn_id c) (v_name v)) (\<lambda>x. Inr (v_name v, x))) irp) (\<lambda>params.
     rbind (ce_create env (g_name subgraph) subgraph (um_of constants) (um_of params) w) (\<lambda>(_, w').
     Inr ((), (w', c\<lparr>cn_checkpointing := um_set (g_name subgraph) checkpointing (cn_checkpointing c)\<rparr>))))))))"

definition connector_deploy :: "('w, 'v, 'g) connector_env \<Rightarrow> Deployment \<Rightarrow> (('w, 'v, 'g) cstate, unit) st" where
  "connector_deploy env d = (\<lambda>(w, c).
     rbind (getGraphsOnRank d (ce_rank env)) (\<lambda>graphs.
     let fwd_sorted = cn_fwd_sorted c @ filter (um_contains graphs) (d_fwd_graph_order d);
         bwd_sorted = cn_bwd_sorted c @ filter (um_contains graphs) (d_bwd_graph_order d)
     in rbind (rassert (length (d_fwd_graph_order d) = length (d_bwd_graph_order d))) (\<lambda>_.
     let fwd_order = order_map (d_fwd_graph_order d) (cn_fwd_order c);
         bwd_order = order_map (d_bwd_graph_order d) (cn_bwd_order c)
     in rbind (rank_routes graphs (d_fwd_routes d) fwd_order (d_fwd_graph_order d) (cn_fwd_recv c, cn_fwd_send c, cn_fwd_inc c)) (\<lambda>(fr, fs, fi).
        rbind (rank_routes graphs (d_bwd_routes d) bwd_order (d_bwd_graph_order d) (cn_bwd_recv c, cn_bwd_send c, cn_bwd_inc c)) (\<lambda>(br, bs, bi).
        let c1 = c\<lparr>cn_graphs := graphs, cn_fwd_sorted := fwd_sorted, cn_bwd_sorted := bwd_sorted, cn_fwd_order := fwd_order,
                   cn_bwd_order := bwd_order, cn_fwd_recv := fr, cn_fwd_send := fs, cn_fwd_inc := fi,
                   cn_bwd_recv := br, cn_bwd_send := bs, cn_bwd_inc := bi\<rparr>
        in rbind (sfold (\<lambda>(_, g) _. create_module env (d_checkpointing d) g) graphs () (w, c1)) (\<lambda>(_, (w2, c2)).
        rbind (getMaxDelay (d_fwd_routes d) fwd_order) (\<lambda>max_fwd.
        rbind (getMaxDelay (d_bwd_routes d) bwd_order) (\<lambda>max_bwd.
        Inr ((), (w2, c2\<lparr>cn_pipeline_num := d_pipeline_num d, cn_max_fwd_delay := max_fwd, cn_max_bwd_delay := max_bwd\<rparr>))))))))))"

section \<open>Running the subgraphs\<close>

definition put_split_values :: "int \<Rightarrow> string \<Rightarrow> 'v ivalues \<Rightarrow> ('v, 'g) connector \<Rightarrow> ('v, 'g) connector" where
  "put_split_values split sg_name vals c =
     c\<lparr>cn_split_values := um_set split (um_set sg_name vals (um_ref [] (cn_split_values c) split)) (cn_split_values c)\<rparr>"

definition sg_split_values :: "('v, 'g) connector \<Rightarrow> int \<Rightarrow> string \<Rightarrow> 'v ivalues" where
  "sg_split_values c split sg_name = um_ref [] (um_ref [] (cn_split_values c) split) sg_name"

text \<open>What the two directions differ in.\<close>

record ('w, 'v, 'g) cpass =
  ps_bwd :: bool
  ps_recv :: "(string, RouteDP list) umap"
  ps_send :: "(string, RouteDP list) umap"
  ps_order :: "(string, int) umap"
  ps_sorted :: "string list"
  ps_max_delay :: int
  ps_func :: "string \<Rightarrow> 'v ivalues \<Rightarrow> int \<Rightarrow> (('w, 'v, 'g) cstate, 'v ivalues) st"
  ps_aggr :: "(string, (IValueLocation, 'v list) umap) umap \<Rightarrow> (string, 'v ivalues) umap \<Rightarrow> (string, 'v ivalues) umap res"
  ps_names :: "IRGraph \<Rightarrow> string list res"
  ps_skip :: "'v ivalues \<Rightarrow> int \<Rightarrow> (('w, 'v, 'g) cstate, bool) st"

definition graph_inputs :: "string list \<Rightarrow> 'v ivalues \<Rightarrow> 'v ivalues res" where
  "graph_inputs names sg_values =
     rbind (rmap (\<lambda>n. rbind (rassert (um_contains sg_values (loc_of n))) (\<lambda>_.
       rbind (um_at sg_values (loc_of n)) (\<lambda>v. Inr (loc_of n, v)))) names) (\<lambda>lvs. Inr (um_of lvs))"

text \<open>A subgraph that is ready runs once; its results do not replace values that are there.\<close>

definition keep_or_set :: "'v ivalues \<Rightarrow> 'v ivalues \<Rightarrow> 'v ivalues" where
  "keep_or_set out vals = fold (\<lambda>(l, v) m. if um_contains m l then m else um_set l v m) out vals"

definition run_subgraph :: "('w, 'v, 'g) cpass \<Rightarrow> int \<Rightarrow> string \<times> IRGraph \<Rightarrow> string set \<Rightarrow> (('w, 'v, 'g) cstate, string set) st" where
  "run_subgraph ps split = (\<lambda>(sg_name, subgraph) graphs_done (w, c).
     if sg_name \<in> graphs_done then Inr (graphs_done, (w, c))
     else let sg_values = sg_split_values c split sg_name;
              c1 = put_split_values split sg_name sg_values c
          in rbind (ps_names ps subgraph) (\<lambda>input_names.
             if \<not> isGraphReady input_names (fst ` set sg_values) then Inr (graphs_done, (w, c1))
             else rbind (graph_inputs input_names sg_values) (\<lambda>ins.
                  sbind (ps_skip ps ins split) (\<lambda>sk.
                  sbind (if sk then sret [] else ps_func ps sg_name ins split) (\<lambda>driver_out (w2, c2).
                  Inr (insert sg_name graphs_done,
                       (w2, put_split_values split sg_name (keep_or_set driver_out (sg_split_values c2 split sg_name)) c2)))) (w, c1))))"

definition runDriver :: "('w, 'v, 'g) cpass \<Rightarrow> int \<Rightarrow> string set \<Rightarrow> (('w, 'v, 'g) cstate, string set) st" where
  "runDriver ps split graphs_done = (\<lambda>(w, c). sfold (run_subgraph ps split) (cn_graphs c) graphs_done (w, c))"

section \<open>A microbatch\<close>

text \<open>The value that a route sends: that of the microbatch that is late by the delay of the route, but for the flush.\<close>

definition distributeOutput :: "('w, 'v, 'g) connector_env \<Rightarrow> ('w, 'v, 'g) cpass \<Rightarrow> int \<Rightarrow> int \<Rightarrow> RouteDP \<Rightarrow> (('w, 'v, 'g) cstate, 'v option) st" where
  "distributeOutput env ps split_index flush_offset r = (\<lambda>(w, c).
     rbind (rassert (um_contains (ps_order ps) (r_source_graph r))) (\<lambda>_.
     rbind (rassert (um_contains (ps_order ps) (r_dest_graph r))) (\<lambda>_.
     rbind (getDelay r (ps_order ps)) (\<lambda>send_delay.
     let tgt_split = split_index + flush_offset - send_delay in
     if tgt_split \<ge> 0
     then rbind (rassert (um_contains (cn_split_values c) tgt_split)) (\<lambda>_.
          rbind (rassert (um_contains (um_ref [] (cn_split_values c) tgt_split) (r_source_graph r))) (\<lambda>_.
          outside (ce_distribute env (ps_bwd ps) (send_delay - flush_offset) r
            (um_get (sg_split_values c tgt_split (r_source_graph r)) (r_location r))) (w, c)))
     else Inr (None, (w, c))))))"

type_synonym 'v recvd = "(string, (IValueLocation, 'v list) umap) umap"

definition push_recv :: "RouteDP \<Rightarrow> 'v option \<Rightarrow> 'v recvd \<Rightarrow> 'v recvd" where
  "push_recv r v recv = (case v of None \<Rightarrow> recv
     | Some x \<Rightarrow> let m = um_ref [] recv (r_dest_graph r)
                 in um_set (r_dest_graph r) (um_set (r_location r) (um_ref [] m (r_location r) @ [x]) m) recv)"

definition recv_route :: "('w, 'v, 'g) connector_env \<Rightarrow> ('w, 'v, 'g) cpass \<Rightarrow> RouteDP \<Rightarrow> 'v recvd \<Rightarrow> (('w, 'v, 'g) cstate, 'v recvd) st" where
  "recv_route env ps r recv =
     sbind (slift (rassert (ce_rank env \<in> set (r_dests r)))) (\<lambda>_.
     sbind (outside (ce_distribute env (ps_bwd ps) 0 r None)) (\<lambda>v. sret (push_recv r v recv)))"

definition send_route :: "('w, 'v, 'g) connector_env \<Rightarrow> ('w, 'v, 'g) cpass \<Rightarrow> int \<Rightarrow> RouteDP \<Rightarrow> 'v recvd \<Rightarrow> (('w, 'v, 'g) cstate, 'v recvd) st" where
  "send_route env ps split r recv =
     sbind (\<lambda>(w, c). rbind (rassert (um_contains (um_ref [] (cn_split_values c) split) (r_source_graph r))) (\<lambda>_. Inr ((), (w, c)))) (\<lambda>_.
     sbind (distributeOutput env ps split 0 r) (\<lambda>v. sret (push_recv r v recv)))"

definition flush_route :: "('w, 'v, 'g) connector_env \<Rightarrow> ('w, 'v, 'g) cpass \<Rightarrow> int \<Rightarrow> int \<Rightarrow> RouteDP \<Rightarrow> (('w, 'v, 'g) cstate, unit) st" where
  "flush_route env ps split i r =
     sbind (slift (getDelay r (ps_order ps))) (\<lambda>d.
     if d \<ge> i then sbind (distributeOutput env ps split i r) (\<lambda>_. sret ()) else sret ())"

definition flush_routes :: "('w, 'v, 'g) connector_env \<Rightarrow> ('w, 'v, 'g) cpass \<Rightarrow> int \<Rightarrow> RouteDP list \<Rightarrow> (('w, 'v, 'g) cstate, unit) st" where
  "flush_routes env ps split sends =
     sfold (\<lambda>i _. sfold (\<lambda>r _. flush_route env ps split i r) sends ()) (map int [1..<Suc (nat (ps_max_delay ps))]) ()"

definition compute_graph :: "('w, 'v, 'g) connector_env \<Rightarrow> ('w, 'v, 'g) cpass \<Rightarrow> int \<Rightarrow> string \<Rightarrow> string set \<times> 'v recvd \<Rightarrow>
    (('w, 'v, 'g) cstate, string set \<times> 'v recvd) st" where
  "compute_graph env ps split sg_name = (\<lambda>(graphs_done, recv).
     sbind (slift (rbind (rassert (um_contains (ps_recv ps) sg_name)) (\<lambda>_. um_at (ps_recv ps) sg_name))) (\<lambda>recvs.
     sbind (sfold (recv_route env ps) recvs recv) (\<lambda>recv1.
     sbind (\<lambda>(w, c). rbind (ps_aggr ps recv1 (um_ref [] (cn_split_values c) split)) (\<lambda>vals.
       Inr ((), (w, c\<lparr>cn_split_values := um_set split vals (cn_split_values c)\<rparr>)))) (\<lambda>_.
     sbind (runDriver ps split graphs_done) (\<lambda>done1.
     sbind (slift (rbind (rassert (um_contains (ps_send ps) sg_name)) (\<lambda>_. um_at (ps_send ps) sg_name))) (\<lambda>sends.
     sbind (sfold (send_route env ps split) sends recv1) (\<lambda>recv2.
     sbind (\<lambda>(w, c). if split + 1 = cn_pipeline_num c then flush_routes env ps split sends (w, c) else Inr ((), (w, c))) (\<lambda>_.
     sret (done1, recv2)))))))))"

definition connector_compute :: "('w, 'v, 'g) connector_env \<Rightarrow> ('w, 'v, 'g) cpass \<Rightarrow> (string, 'v ivalues) umap \<Rightarrow> int \<Rightarrow>
    (('w, 'v, 'g) cstate, (string, 'v ivalues) umap) st" where
  "connector_compute env ps inputs split =
     sbind (update_connector (\<lambda>c. c\<lparr>cn_split_values := um_set split inputs (if split = 0 then [] else cn_split_values c)\<rparr>)) (\<lambda>_.
     sbind (sfold (compute_graph env ps split) (ps_sorted ps) ({}, [])) (\<lambda>_.
     (\<lambda>(w, c). Inr (um_ref [] (cn_split_values c) split, (w, c)))))"

section \<open>Forward and backward\<close>

text \<open>What was received for a location is complete when there is one value for each incoming edge. \<open>combine\<close> makes one
  value of them.\<close>

definition aggregate_loc :: "('v list \<Rightarrow> 'v res) \<Rightarrow> 'v recvd \<Rightarrow> string \<Rightarrow> IValueLocation \<times> nat \<Rightarrow> (string, 'v ivalues) umap \<Rightarrow> (string, 'v ivalues) umap res" where
  "aggregate_loc combine recv sg_name = (\<lambda>(loc, edge_counts) vals.
     if um_contains vals sg_name \<and> um_contains (um_ref [] vals sg_name) loc then Inr vals
     else let received = um_ref [] (um_ref [] recv sg_name) loc
          in if length received = edge_counts
             then rbind (combine received) (\<lambda>v. Inr (um_set sg_name (um_set loc v (um_ref [] vals sg_name)) vals))
             else Inr vals)"

definition aggregate :: "('v list \<Rightarrow> 'v res) \<Rightarrow> inc_counts \<Rightarrow> 'v recvd \<Rightarrow> (string, 'v ivalues) umap \<Rightarrow> (string, 'v ivalues) umap res" where
  "aggregate combine inc recv = rfold (\<lambda>(sg_name, counts). rfold (aggregate_loc combine recv sg_name) counts) inc"

definition front_value :: "'v list \<Rightarrow> 'v res" where
  "front_value vs = (case vs of [] \<Rightarrow> Inl Undefined_behaviour | v # _ \<Rightarrow> Inr v)"

definition fwd_aggr :: "inc_counts \<Rightarrow> 'v recvd \<Rightarrow> (string, 'v ivalues) umap \<Rightarrow> (string, 'v ivalues) umap res" where
  "fwd_aggr inc recv = rfold (\<lambda>(sg_name, counts). rfold (\<lambda>(loc, edge_counts) vals.
     rbind (rassert (edge_counts = 1)) (\<lambda>_. aggregate_loc front_value recv sg_name (loc, edge_counts) vals)) counts) inc"

text \<open>With checkpointing the inputs are kept and the forward pass keeps no intermediate values.\<close>

definition fwd_func :: "('w, 'v, 'g) connector_env \<Rightarrow> string \<Rightarrow> 'v ivalues \<Rightarrow> int \<Rightarrow> (('w, 'v, 'g) cstate, 'v ivalues) st" where
  "fwd_func env sg inputs split = (\<lambda>(w, c).
     rbind (rassert (um_contains (cn_checkpointing c) sg)) (\<lambda>_.
     sbind (outside (ce_get_rng env)) (\<lambda>rng.
     sbind (update_connector (\<lambda>c. c\<lparr>cn_rng_states := um_set sg (um_set split rng (um_ref [] (cn_rng_states c) sg)) (cn_rng_states c)\<rparr>)) (\<lambda>_.
     if um_ref False (cn_checkpointing c) sg
     then sbind (update_connector (\<lambda>c. c\<lparr>cn_inputs := um_set sg (um_set split inputs (um_ref [] (cn_inputs c) sg)) (cn_inputs c)\<rparr>)) (\<lambda>_.
          outside (ce_forward env Mode_no_grad sg inputs split))
     else outside (ce_forward env Mode_unchanged sg inputs split))) (w, c)))"

text \<open>The forward pass of a microbatch is skipped when an input is an undefined tensor, and then so is the backward pass.\<close>

definition fwd_skip :: "('w, 'v, 'g) connector_env \<Rightarrow> 'v ivalues \<Rightarrow> int \<Rightarrow> (('w, 'v, 'g) cstate, bool) st" where
  "fwd_skip env vals split =
     (let sk = list_ex (\<lambda>(_, v). ce_undefined env v) vals
      in sbind (update_connector (\<lambda>c. c\<lparr>cn_skip := um_set split sk (cn_skip c)\<rparr>)) (\<lambda>_. sret sk))"

definition bwd_skip :: "'v ivalues \<Rightarrow> int \<Rightarrow> (('w, 'v, 'g) cstate, bool) st" where
  "bwd_skip vals split = (\<lambda>(w, c).
     rbind (rassert (um_contains (cn_skip c) split)) (\<lambda>_. rbind (um_at (cn_skip c) split) (\<lambda>sk. Inr (sk, (w, c)))))"

text \<open>With checkpointing the forward pass is run again, from the state of the random number generator it had.\<close>

definition bwd_func :: "('w, 'v, 'g) connector_env \<Rightarrow> string \<Rightarrow> 'v ivalues \<Rightarrow> int \<Rightarrow> (('w, 'v, 'g) cstate, 'v ivalues) st" where
  "bwd_func env sg inputs split = (\<lambda>(w, c).
     rbind (rassert (um_contains (cn_checkpointing c) sg)) (\<lambda>_.
     if um_ref False (cn_checkpointing c) sg
     then sbind (outside (ce_get_rng env)) (\<lambda>stashed (w1, c1).
          rbind (rassert (um_contains (cn_rng_states c1) sg)) (\<lambda>_.
          rbind (rassert (um_contains (um_ref [] (cn_rng_states c1) sg) split)) (\<lambda>_.
          rbind (um_at (um_ref [] (cn_rng_states c1) sg) split) (\<lambda>rng.
          sbind (outside (ce_set_rng env rng)) (\<lambda>_.
          sbind (outside (ce_forward env Mode_grad sg (um_ref [] (um_ref [] (cn_inputs c1) sg) split) split)) (\<lambda>_.
          sbind (outside (ce_set_rng env stashed)) (\<lambda>_.
          outside (ce_backward env sg inputs split)))) (w1, c1))))) (w, c)
     else outside (ce_backward env sg inputs split) (w, c)))"

definition fwd_pass :: "('w, 'v, 'g) connector_env \<Rightarrow> ('v, 'g) connector \<Rightarrow> ('w, 'v, 'g) cpass" where
  "fwd_pass env c = \<lparr>ps_bwd = False, ps_recv = cn_fwd_recv c, ps_send = cn_fwd_send c, ps_order = cn_fwd_order c,
     ps_sorted = cn_fwd_sorted c, ps_max_delay = cn_max_fwd_delay c, ps_func = fwd_func env, ps_aggr = fwd_aggr (cn_fwd_inc c),
     ps_names = getNonParamInputNames, ps_skip = fwd_skip env\<rparr>"

definition bwd_pass :: "('w, 'v, 'g) connector_env \<Rightarrow> ('v, 'g) connector \<Rightarrow> ('w, 'v, 'g) cpass" where
  "bwd_pass env c = \<lparr>ps_bwd = True, ps_recv = cn_bwd_recv c, ps_send = cn_bwd_send c, ps_order = cn_bwd_order c,
     ps_sorted = cn_bwd_sorted c, ps_max_delay = cn_max_bwd_delay c, ps_func = bwd_func env, ps_aggr = aggregate (ce_sum env) (cn_bwd_inc c),
     ps_names = getGradOutputNames, ps_skip = bwd_skip\<rparr>"

definition connector_forward :: "('w, 'v, 'g) connector_env \<Rightarrow> (string, 'v ivalues) umap \<Rightarrow> int \<Rightarrow> (('w, 'v, 'g) cstate, (string, 'v ivalues) umap) st" where
  "connector_forward env inputs split = (\<lambda>(w, c). connector_compute env (fwd_pass env c) inputs split (w, c))"

definition connector_backward :: "('w, 'v, 'g) connector_env \<Rightarrow> string \<Rightarrow> (string, 'v ivalues) umap \<Rightarrow> int \<Rightarrow> (('w, 'v, 'g) cstate, (string, 'v ivalues) umap) st" where
  "connector_backward env gid inputs split = (\<lambda>(w, c).
     sbind (if split = 0 then outside (ce_prepare_backward env gid) else sret ()) (\<lambda>_.
     connector_compute env (bwd_pass env c) inputs split) (w, c))"

end
