(* ===== verification/Graph_Launcher.thy ===== *)
theory Graph_Launcher
  imports Graph_Connector
begin

text \<open>
  A pass of a deployed graph over a batch (\<open>class GraphLauncher\<close> of \<open>comp/GraphLauncher.h\<close> and
  \<open>comp/GraphLauncher.cpp\<close>): the batch is cut into microbatches, the inputs are distributed, the connector runs the
  microbatches one by one, and the outputs are collected and put together.

  The functions of PyTorch on values, the exchange of values, and the operations of the parameter storage are
  the fields of \<open>launcher_env\<close>. The atomic flag against concurrent calls of \<open>backward\<close> is a map of flags: calls
  are modelled one after the other. Time counters and log messages do not appear, and a communicator is made without a trace.
\<close>

section \<open>State\<close>

type_synonym 'v ovalues = "(IValueLocation, 'v option) umap"

record ('v, 'g) launcher =
  la_drivers :: "(string, ('v, 'g) connector) umap"
  la_bwd_running :: "(string, bool) umap"
  la_deployment :: Deployment
  la_bcast_route :: RouteDP
  la_last_batch_size :: int
  la_gather_inputs :: bool
  la_pipeline_num :: int

record ('w, 'v, 'g) launcher_env =
  le_connector :: "('w, 'v, 'g) connector_env"
  le_size :: int
  le_hasher :: hasher
  le_root_tags :: "int set"
  le_start :: "bool \<Rightarrow> int \<Rightarrow> ('w, unit) st"
  le_start_split :: "int \<Rightarrow> ('w, unit) st"
  le_distribute :: "bool \<Rightarrow> IRType \<Rightarrow> RouteDP \<Rightarrow> 'v option \<Rightarrow> ('w, 'v option) st"
  le_slice :: "'v option \<Rightarrow> int list \<Rightarrow> int \<Rightarrow> 'v option res"
  le_concat :: "'v list \<Rightarrow> int \<Rightarrow> 'v res"
  le_align :: "'v option \<Rightarrow> int \<Rightarrow> bool \<Rightarrow> 'v option res"
  le_scale :: "int \<Rightarrow> 'v option \<Rightarrow> 'v option res"
  le_guess_batch :: "'v option list \<Rightarrow> int"
  le_max_batch :: "int \<Rightarrow> ('w, int) st"
  le_bcast :: "RouteDP \<Rightarrow> 'v option \<Rightarrow> ('w, 'v option) st"
  le_bcast_map :: "RouteDP \<Rightarrow> 'v ovalues \<Rightarrow> ('w, 'v ovalues) st"
  le_zero :: "string \<Rightarrow> bool"
  le_bcast_params :: "string \<Rightarrow> ('w, unit) st"
  le_set_grads :: "string \<Rightarrow> ('w, unit) st"

type_synonym ('w, 'v, 'g) lstate = "'w \<times> ('v, 'g) launcher"

abbreviation le_rank :: "('w, 'v, 'g) launcher_env \<Rightarrow> int" where
  "le_rank env \<equiv> ce_rank (le_connector env)"

definition on_world :: "('w, 'a) st \<Rightarrow> ('w, 'v, 'g) lstate \<Rightarrow> ('a \<times> ('w, 'v, 'g) lstate) res" where
  "on_world m = (\<lambda>(w, l). rbind (m w) (\<lambda>(x, w'). Inr (x, (w', l))))"

definition on_driver :: "string \<Rightarrow> (('w, 'v, 'g) cstate, 'a) st \<Rightarrow> (('w, 'v, 'g) lstate, 'a) st" where
  "on_driver i m = (\<lambda>(w, l).
     case um_get (la_drivers l) i of
       None \<Rightarrow> Inl Undefined_behaviour
     | Some c \<Rightarrow> rbind (m (w, c)) (\<lambda>(x, (w', c')). Inr (x, (w', l\<lparr>la_drivers := um_set i c' (la_drivers l)\<rparr>))))"

section \<open>Deployment\<close>

definition isBatch_value :: "IRGraph \<Rightarrow> string \<Rightarrow> bool res" where
  "isBatch_value graph name = rbind (getValue graph name) (\<lambda>v. Inr (is_batch v))"

definition setNone :: "'v ovalues \<Rightarrow> 'v ovalues" where
  "setNone input = map (\<lambda>(l, _). (l, None)) input"

definition doRewriteRoutes :: "RouteDP list \<Rightarrow> bool \<Rightarrow> (RouteDP \<Rightarrow> RouteDP) \<Rightarrow> RouteDP list" where
  "doRewriteRoutes routes gather_inputs f = map (\<lambda>r. if gather_inputs then r else f r) routes"

definition rewriteInRoute :: "RouteDP list \<Rightarrow> bool \<Rightarrow> RouteDP list" where
  "rewriteInRoute routes gather_inputs = doRewriteRoutes routes gather_inputs (r_sources_update (\<lambda>_. [0]))"

definition rewriteOutRoute :: "RouteDP list \<Rightarrow> bool \<Rightarrow> RouteDP list" where
  "rewriteOutRoute routes gather_inputs = doRewriteRoutes routes gather_inputs (r_dests_update (\<lambda>_. [0]))"

definition alignBatch :: "('w, 'v, 'g) launcher_env \<Rightarrow> 'v ovalues \<Rightarrow> int \<Rightarrow> IRGraph \<Rightarrow> bool \<Rightarrow> 'v ovalues res" where
  "alignBatch env input batch_size graph zero_pad =
     rmap (\<lambda>(loc, ival). rbind (isBatch_value graph (value_name loc)) (\<lambda>b.
       if b then rbind (le_align env ival batch_size zero_pad) (\<lambda>v. Inr (loc, v)) else Inr (loc, ival))) input"

definition createRouteCommunicator :: "hasher \<Rightarrow> RouteDP list \<Rightarrow> (TagMap, unit) st" where
  "createRouteCommunicator h routes = sfold (\<lambda>r _. sbind (getRankSetTag h (getRanksInRoute r)) (\<lambda>_. sret ())) routes ()"

definition bcast_route :: "int list \<Rightarrow> int \<Rightarrow> int \<Rightarrow> RouteDP \<Rightarrow> RouteDP" where
  "bcast_route all_ranks tag src_tag r =
     r\<lparr>r_location := loc_of ''OUTPUT_SYNC'', r_sources := [0], r_dests := all_ranks, r_tag := tag, r_source_tag := src_tag, r_type := RT_BROADCAST\<rparr>"

text \<open>\<open>blank\<close> is a route with the value that the constructor leaves empty.\<close>

definition launcher_deploy :: "('w, 'v, 'g) launcher_env \<Rightarrow> RouteDP \<Rightarrow> Deployment \<Rightarrow> (TagMap \<times> ('w, 'v, 'g) lstate, unit) st" where
  "launcher_deploy env blank d = (\<lambda>(tm, (w, l)).
     let l1 = l\<lparr>la_deployment := d, la_drivers := um_set (d_id d) (new_connector (d_id d)) (la_drivers l)\<rparr>
     in rbind (on_driver (d_id d) (connector_deploy (le_connector env) d) (w, l1)) (\<lambda>(_, (w2, l2)).
        let gather = la_gather_inputs l2;
            d' = d\<lparr>d_fwd_in_routes := rewriteInRoute (d_fwd_in_routes d) gather, d_fwd_out_routes := rewriteOutRoute (d_fwd_out_routes d) gather,
                   d_bwd_in_routes := rewriteInRoute (d_bwd_in_routes d) gather, d_bwd_out_routes := rewriteOutRoute (d_bwd_out_routes d) gather\<rparr>;
            routes = d_fwd_in_routes d' @ d_fwd_routes d' @ d_fwd_out_routes d' @ d_bwd_in_routes d' @ d_bwd_routes d' @ d_bwd_out_routes d';
            all_ranks = map int [0..<nat (le_size env)]
        in rbind (createRouteCommunicator (le_hasher env) routes (tm_sync (le_root_tags env) tm)) (\<lambda>(_, tm2).
        if gather then Inr ((), (tm2, (w2, l2\<lparr>la_deployment := d'\<rparr>)))
        else rbind (getRankSetTag (le_hasher env) (set all_ranks) tm2) (\<lambda>(tag, tm3).
             rbind (getRankSetTag (le_hasher env) {0} tm3) (\<lambda>(src_tag, tm4).
             let r = bcast_route all_ranks tag src_tag blank
             in rbind (createRouteCommunicator (le_hasher env) [r] tm4) (\<lambda>(_, tm5).
                Inr ((), (tm5, (w2, l2\<lparr>la_deployment := d', la_bcast_route := r\<rparr>))))))))) "

definition undeployGraph :: "string \<Rightarrow> ('v, 'g) launcher \<Rightarrow> ('v, 'g) launcher" where
  "undeployGraph i l = l\<lparr>la_drivers := um_erase i (la_drivers l)\<rparr>"

section \<open>A pass\<close>

definition actual_pipeline_num :: "int \<Rightarrow> int \<Rightarrow> int" where
  "actual_pipeline_num pipeline_num batch_size = (if pipeline_num > batch_size then batch_size else pipeline_num)"

definition local_splits :: "('w, 'v, 'g) launcher_env \<Rightarrow> bool \<Rightarrow> int \<Rightarrow> int list \<Rightarrow> int list" where
  "local_splits env gather num split_batch_sizes =
     (if gather then getLocalSplitBatchSizes split_batch_sizes (le_size env) (le_rank env)
      else if le_rank env = 0 then getLocalSplitBatchSizes split_batch_sizes 1 0
      else replicate (nat num) 0)"

definition start_split :: "('w, 'v, 'g) launcher_env \<Rightarrow> bool \<Rightarrow> int list \<Rightarrow> nat \<Rightarrow> (('w, 'v, 'g) lstate, int) st" where
  "start_split env is_bwd split_batch_sizes i =
     sbind (slift (vec_at split_batch_sizes i)) (\<lambda>split_bs.
     sbind (on_world (le_start env is_bwd split_bs)) (\<lambda>_.
     sbind (on_world (le_start_split env (int i))) (\<lambda>_. sret split_bs)))"

definition batch_or_loss :: "RouteDP \<Rightarrow> bool" where
  "batch_or_loss r \<longleftrightarrow> is_loss (r_value r) \<or> is_batch (r_value r)"

definition set_received :: "string \<Rightarrow> IValueLocation \<Rightarrow> 'v option \<Rightarrow> (string, 'v ivalues) umap \<Rightarrow> (string, 'v ivalues) umap" where
  "set_received sg loc v m = (case v of None \<Rightarrow> m | Some x \<Rightarrow> um_set sg (um_set loc x (um_ref [] m sg)) m)"

definition send_input :: "('w, 'v, 'g) launcher_env \<Rightarrow> bool \<Rightarrow> 'v ovalues \<Rightarrow> int list \<Rightarrow> nat \<Rightarrow> int \<Rightarrow> RouteDP \<Rightarrow>
    (string, 'v ivalues) umap \<Rightarrow> (('w, 'v, 'g) lstate, (string, 'v ivalues) umap) st" where
  "send_input env is_bwd inputs local_sizes i split_bs r split_inputs =
     sbind (slift (rbind (rassert (um_contains inputs (r_location r))) (\<lambda>_. rbind (um_at inputs (r_location r)) (\<lambda>val.
       if batch_or_loss r then le_slice env val local_sizes (int i) else Inl Runtime_error)))) (\<lambda>send_val.
     sbind (on_world (le_distribute env is_bwd (setBatchSize split_bs (v_type (r_value r))) r send_val)) (\<lambda>received.
     sret (set_received (r_dest_graph r) (r_location r) received split_inputs)))"

definition distribute_inputs :: "('w, 'v, 'g) launcher_env \<Rightarrow> bool \<Rightarrow> 'v ovalues \<Rightarrow> int list \<Rightarrow> int list \<Rightarrow> RouteDP list \<Rightarrow> nat \<Rightarrow>
    (('w, 'v, 'g) lstate, (string, 'v ivalues) umap) st" where
  "distribute_inputs env is_bwd inputs split_sizes local_sizes in_routes i =
     sbind (start_split env is_bwd split_sizes i) (\<lambda>split_bs.
     sfold (send_input env is_bwd inputs local_sizes i split_bs) in_routes [])"

definition run_split :: "('w, 'v, 'g) launcher_env \<Rightarrow> string \<Rightarrow> bool \<Rightarrow> int list \<Rightarrow> int list \<Rightarrow> (string, 'v ivalues) umap list \<Rightarrow> nat \<Rightarrow>
    (('w, 'v, 'g) lstate, (string, 'v ivalues) umap) st" where
  "run_split env gid is_bwd split_sizes local_sizes graph_ins i =
     sbind (slift (rbind (rassert (length graph_ins > i)) (\<lambda>_. rassert (length local_sizes > i)))) (\<lambda>_.
     sbind (start_split env is_bwd split_sizes i) (\<lambda>_.
     sbind (slift (vec_at graph_ins i)) (\<lambda>ins.
     on_driver gid (if is_bwd then connector_backward (le_connector env) gid ins (int i)
                    else connector_forward (le_connector env) ins (int i)))))"

type_synonym route_map = "(string, (IValueLocation, RouteDP) umap) umap"

definition out_route_map :: "RouteDP list \<Rightarrow> route_map" where
  "out_route_map routes = fold (\<lambda>r m. um_set (r_source_graph r) (um_set (r_location r) r (um_ref [] m (r_source_graph r))) m) routes []"

definition out_entries :: "route_map \<Rightarrow> (string \<times> IValueLocation \<times> RouteDP) list" where
  "out_entries m = concat (map (\<lambda>(sg, rs). map (\<lambda>(loc, r). (sg, loc, r)) rs) m)"

definition collect_output :: "('w, 'v, 'g) launcher_env \<Rightarrow> bool \<Rightarrow> (string, 'v ivalues) umap \<Rightarrow> int \<Rightarrow> string \<times> IValueLocation \<times> RouteDP \<Rightarrow>
    (string, 'v ivalues) umap \<Rightarrow> (('w, 'v, 'g) lstate, (string, 'v ivalues) umap) st" where
  "collect_output env is_bwd driver_out split_bs = (\<lambda>(sg_name, loc, route) split_out.
     sbind (on_world (le_distribute env is_bwd (setBatchSize split_bs (v_type (r_value route))) route
              (um_get (um_ref [] driver_out sg_name) loc))) (\<lambda>out.
     sret (set_received sg_name loc out split_out)))"

definition distribute_outputs :: "('w, 'v, 'g) launcher_env \<Rightarrow> bool \<Rightarrow> int list \<Rightarrow> (string, 'v ivalues) umap list \<Rightarrow> route_map \<Rightarrow> nat \<Rightarrow>
    (('w, 'v, 'g) lstate, (string, 'v ivalues) umap) st" where
  "distribute_outputs env is_bwd split_sizes driver_outs routes i =
     sbind (slift (rbind (rassert (length driver_outs > i)) (\<lambda>_. vec_at driver_outs i))) (\<lambda>driver_out.
     sbind (start_split env is_bwd split_sizes i) (\<lambda>split_bs.
     sfold (collect_output env is_bwd driver_out split_bs) (out_entries routes) []))"

text \<open>The values of a location, up to the first microbatch that has none.\<close>

primrec loc_values :: "string \<Rightarrow> IValueLocation \<Rightarrow> (string, 'v ivalues) umap list \<Rightarrow> 'v list" where
  "loc_values sg loc [] = []"
| "loc_values sg loc (m # ms) = (case um_get (um_ref [] m sg) loc of None \<Rightarrow> [] | Some v \<Rightarrow> v # loc_values sg loc ms)"

definition merge_output :: "('w, 'v, 'g) launcher_env \<Rightarrow> int \<Rightarrow> (string, 'v ivalues) umap list \<Rightarrow> string \<times> IValueLocation \<times> RouteDP \<Rightarrow> 'v ovalues \<Rightarrow> 'v ovalues res" where
  "merge_output env batch_size outs = (\<lambda>(sg_name, loc, route) ret.
     let vals = loc_values sg_name loc outs in
     if vals = [] then Inr ret
     else if batch_or_loss route then rbind (le_concat env vals batch_size) (\<lambda>v. Inr (um_set loc (Some v) ret))
     else Inl Runtime_error)"

definition launcher_compute :: "('w, 'v, 'g) launcher_env \<Rightarrow> string \<Rightarrow> bool \<Rightarrow> int \<Rightarrow> 'v ovalues \<Rightarrow> RouteDP list \<Rightarrow> RouteDP list \<Rightarrow>
    (('w, 'v, 'g) lstate, 'v ovalues) st" where
  "launcher_compute env gid is_bwd batch_size inputs in_routes out_routes = (\<lambda>(w, l).
     rbind (rassert (batch_size mod le_size env = 0)) (\<lambda>_.
     let num = actual_pipeline_num (la_pipeline_num l) batch_size;
         routes = out_route_map out_routes;
         splits = [0..<nat num]
     in rbind (getSplitBatchSizes_num batch_size num) (\<lambda>split_sizes.
        let local_sizes = local_splits env (la_gather_inputs l) num split_sizes
        in sbind (smap (distribute_inputs env is_bwd inputs split_sizes local_sizes in_routes) splits) (\<lambda>graph_ins.
           sbind (smap (run_split env gid is_bwd split_sizes local_sizes graph_ins) splits) (\<lambda>driver_outs.
           sbind (smap (distribute_outputs env is_bwd split_sizes driver_outs routes) splits) (\<lambda>outs.
           slift (rfold (merge_output env batch_size outs) (out_entries routes) [])))) (w, l))))"

section \<open>Forward and backward\<close>

definition set_launcher :: "(('v, 'g) launcher \<Rightarrow> ('v, 'g) launcher) \<Rightarrow> ('w, 'v, 'g) lstate \<Rightarrow> (unit \<times> ('w, 'v, 'g) lstate) res" where
  "set_launcher f = (\<lambda>(w, l). Inr ((), (w, f l)))"

definition only_output :: "IRGraph \<Rightarrow> 'v ovalues \<Rightarrow> 'v option res" where
  "only_output graph outputs =
     rbind (rassert (length (g_outputs graph) = 1)) (\<lambda>_.
     rbind (rassert (um_contains outputs (loc_of (hd (g_outputs graph))))) (\<lambda>_.
     um_at outputs (loc_of (hd (g_outputs graph)))))"

definition launcher_forward :: "('w, 'v, 'g) launcher_env \<Rightarrow> string \<Rightarrow> 'v ovalues \<Rightarrow> (('w, 'v, 'g) lstate, 'v option) st" where
  "launcher_forward env gid inputs = (\<lambda>(w, l).
     let d = la_deployment l; input_batch_size = le_guess_batch env (map snd inputs) in
     sbind (if le_zero env gid then on_world (le_bcast_params env gid) else sret ()) (\<lambda>_.
     if la_gather_inputs l
     then sbind (on_world (le_max_batch env input_batch_size)) (\<lambda>max_local_batch_size.
          let global_batch_size = max_local_batch_size * le_size env in
          sbind (set_launcher (la_last_batch_size_update (\<lambda>_. max_local_batch_size))) (\<lambda>_.
          sbind (slift (alignBatch env inputs max_local_batch_size (d_graph d) False)) (\<lambda>pad_inputs.
          sbind (on_world (le_start env False global_batch_size)) (\<lambda>_.
          sbind (launcher_compute env gid False global_batch_size pad_inputs (d_fwd_in_routes d) (d_fwd_out_routes d)) (\<lambda>outputs.
          slift (rbind (rassert (length (g_outputs (d_graph d)) = 1)) (\<lambda>_.
          rbind (alignBatch env outputs input_batch_size (d_graph d) False) (\<lambda>aligned. only_output (d_graph d) aligned))))))))
     else sbind (set_launcher (la_last_batch_size_update (\<lambda>_. input_batch_size))) (\<lambda>_.
          sbind (on_world (le_start env False input_batch_size)) (\<lambda>_.
          sbind (launcher_compute env gid False input_batch_size (if le_rank env = 0 then inputs else setNone inputs)
            (d_fwd_in_routes d) (d_fwd_out_routes d)) (\<lambda>outputs.
          sbind (slift (rbind (rassert (length (g_outputs (d_graph d)) = 1)) (\<lambda>_.
            if le_rank env = 0 then only_output (d_graph d) outputs else Inr None))) (\<lambda>output_value.
          on_world (le_bcast env (la_bcast_route l) output_value)))))) (w, l))"

text \<open>The gradients of this rank's part of the batch, scaled by its share of the whole.\<close>

definition scale_inputs :: "('w, 'v, 'g) launcher_env \<Rightarrow> int \<Rightarrow> 'v ovalues \<Rightarrow> RouteDP list \<Rightarrow> 'v ovalues res" where
  "scale_inputs env global_batch_size pad_inputs in_routes =
     rfold (\<lambda>route scaled.
       rbind (um_at pad_inputs (r_location route)) (\<lambda>v.
       rbind (le_scale env global_batch_size v) (\<lambda>v'. Inr (um_set (r_location route) v' scaled)))) in_routes []"

text \<open>The flag is not reset when an exception ends the call.\<close>

definition launcher_backward :: "('w, 'v, 'g) launcher_env \<Rightarrow> string \<Rightarrow> 'v ovalues \<Rightarrow> (('w, 'v, 'g) lstate, 'v ovalues) st" where
  "launcher_backward env gid inputs = (\<lambda>(w, l).
     if um_ref False (la_bwd_running l) gid then Inl Runtime_error
     else let d = la_deployment l; guessed = le_guess_batch env (map snd inputs);
              input_batch_size = (if guessed < 0 then la_last_batch_size l else guessed) in
     sbind (set_launcher (\<lambda>l. l\<lparr>la_bwd_running := um_set gid True (la_bwd_running l)\<rparr>)) (\<lambda>_.
     sbind (if la_gather_inputs l
            then sbind (on_world (le_max_batch env input_batch_size)) (\<lambda>max_local_batch_size.
                 let global_batch_size = max_local_batch_size * le_size env in
                 sbind (slift (rbind (alignBatch env inputs max_local_batch_size (d_graph d) True) (\<lambda>pad_inputs.
                   scale_inputs env global_batch_size pad_inputs (d_bwd_in_routes d)))) (\<lambda>scaled. sret (global_batch_size, scaled)))
            else sret (input_batch_size, if le_rank env = 0 then inputs else setNone inputs)) (\<lambda>(global_batch_size, scaled).
     sbind (launcher_compute env gid True global_batch_size scaled (d_bwd_in_routes d) (d_bwd_out_routes d)) (\<lambda>outputs.
     sbind (if la_gather_inputs l then slift (alignBatch env outputs input_batch_size (d_graph d) False)
            else sbind (slift (if le_rank env = 0 then alignBatch env outputs input_batch_size (d_graph d) False else Inr outputs)) (\<lambda>aligned.
                 on_world (le_bcast_map env (la_bcast_route l) aligned))) (\<lambda>result.
     sbind (if le_zero env gid then on_world (le_set_grads env gid) else sret ()) (\<lambda>_.
     sbind (set_launcher (\<lambda>l. l\<lparr>la_bwd_running := um_set gid False (la_bwd_running l)\<rparr>)) (\<lambda>_.
     sret result)))))) (w, l))"

end
