(* ===== verification/Pipeline_Schedule.thy ===== *)
theory Pipeline_Schedule
  imports Graph_Launcher
begin

text \<open>
  What a rank with one subgraph communicates while it runs the microbatches of a pass, and why the ranks
  of a pipeline never wait for each other for ever. The calls of \<open>distribute\<close> are observed in the world:
  \<open>log\<close> is the list of the routes with the microbatch whose value is moved and the value sent, \<open>cur\<close> the microbatch that
  was started last.
\<close>

section \<open>Observing communication\<close>

type_synonym 'v comm_event = "RouteDP \<times> int \<times> 'v option"

definition silent :: "('w \<Rightarrow> 'v comm_event list) \<Rightarrow> ('w \<Rightarrow> int) \<Rightarrow> ('w, 'a) st \<Rightarrow> bool" where
  "silent log cur m \<longleftrightarrow> (\<forall>w x w'. m w = Inr (x, w') \<longrightarrow> log w' = log w \<and> cur w' = cur w)"

text \<open>Only \<open>distribute\<close> communicates, for the microbatch that was started less the delay.\<close>

definition observes :: "('w, 'v, 'g) launcher_env \<Rightarrow> ('w \<Rightarrow> 'v comm_event list) \<Rightarrow> ('w \<Rightarrow> int) \<Rightarrow> bool" where
  "observes env log cur \<longleftrightarrow>
     (\<forall>b d r v w x w'. ce_distribute (le_connector env) b d r v w = Inr (x, w') \<longrightarrow> log w' = log w @ [(r, cur w - d, v)] \<and> cur w' = cur w) \<and>
     (\<forall>m sg ins i. silent log cur (ce_forward (le_connector env) m sg ins i)) \<and>
     (\<forall>sg ins i. silent log cur (ce_backward (le_connector env) sg ins i)) \<and>
     silent log cur (ce_get_rng (le_connector env)) \<and> (\<forall>g. silent log cur (ce_set_rng (le_connector env) g)) \<and>
     (\<forall>gid. silent log cur (ce_prepare_backward (le_connector env) gid)) \<and> (\<forall>b bs. silent log cur (le_start env b bs)) \<and>
     (\<forall>b t r v. silent log cur (le_distribute env b t r v)) \<and>
     (\<forall>i w x w'. le_start_split env i w = Inr (x, w') \<longrightarrow> log w' = log w \<and> cur w' = i)"

section \<open>What changes and what stays\<close>

text \<open>The part of a connector that deployment sets.\<close>

definition cn_static :: "('v, 'g) connector \<Rightarrow> ('v, 'g) connector" where
  "cn_static c = c\<lparr>cn_split_values := [], cn_inputs := [], cn_rng_states := [], cn_skip := []\<rparr>"

definition quiet :: "('w \<Rightarrow> 'v comm_event list) \<Rightarrow> ('w \<Rightarrow> int) \<Rightarrow> (('w, 'v, 'g) cstate, 'a) st \<Rightarrow> bool" where
  "quiet log cur m \<longleftrightarrow> (\<forall>w c x w' c'. m (w, c) = Inr (x, (w', c')) \<longrightarrow>
     log w' = log w \<and> cur w' = cur w \<and> cn_static c' = cn_static c \<and> cn_split_values c' = cn_split_values c)"

lemma quietD:
  "quiet log cur m \<Longrightarrow> m (w, c) = Inr (x, (w', c')) \<Longrightarrow>
   log w' = log w \<and> cur w' = cur w \<and> cn_static c' = cn_static c \<and> cn_split_values c' = cn_split_values c"
  by (simp add: quiet_def)

lemma quiet_sret: "quiet log cur (sret x)"
  by (simp add: quiet_def sret_Inr)

lemma quiet_slift: "quiet log cur (slift r)"
  by (simp add: quiet_def)

lemma quiet_outside: "silent log cur m \<Longrightarrow> quiet log cur (outside m)"
  by (auto simp: quiet_def silent_def outside_def rbind_eq_Inr)

lemma quiet_sbind: "quiet log cur m \<Longrightarrow> (\<And>x. quiet log cur (f x)) \<Longrightarrow> quiet log cur (sbind m f)"
  unfolding quiet_def sbind_Inr by (metis prod.exhaust)

lemma quiet_state: "(\<And>w c. quiet log cur (m w c)) \<Longrightarrow> quiet log cur (\<lambda>(w, c). m w c (w, c))"
  unfolding quiet_def by auto

lemma quiet_rbind: "(\<And>x. r = Inr x \<Longrightarrow> quiet log cur (f x)) \<Longrightarrow> quiet log cur (\<lambda>s. rbind r (\<lambda>x. f x s))"
  by (cases r) (auto simp: quiet_def)

lemma quiet_if: "quiet log cur m \<Longrightarrow> quiet log cur m' \<Longrightarrow> quiet log cur (\<lambda>s. if b then m s else m' s)"
  by (simp add: quiet_def)

lemma quiet_update:
  "(\<And>c. cn_static (f c) = cn_static c) \<Longrightarrow> (\<And>c. cn_split_values (f c) = cn_split_values c) \<Longrightarrow> quiet log cur (update_connector f)"
  by (auto simp: quiet_def update_connector_def)

lemma fwd_func_quiet:
  assumes "observes env log cur"
  shows "quiet log cur (fwd_func (le_connector env) sg ins i)"
proof -
  have o: "quiet log cur (outside (ce_get_rng (le_connector env)))" "quiet log cur (outside (ce_forward (le_connector env) m sg ins i))" for m
    using assms by (auto simp: observes_def intro: quiet_outside)
  show ?thesis unfolding fwd_func_def
    by (rule quiet_state, rule quiet_rbind, rule quiet_sbind [OF o(1)], rule quiet_sbind [OF quiet_update])
      (auto simp: cn_static_def intro: o(2) quiet_sbind [OF quiet_update])
qed

lemma bwd_func_quiet:
  assumes "observes env log cur"
  shows "quiet log cur (bwd_func (le_connector env) sg ins i)"
proof -
  have o: "quiet log cur (outside (ce_get_rng (le_connector env)))" "quiet log cur (outside (ce_forward (le_connector env) m sg' ins' j))"
    "quiet log cur (outside (ce_set_rng (le_connector env) g))" "quiet log cur (outside (ce_backward (le_connector env) sg ins i))" for m g sg' ins' j
    using assms by (auto simp: observes_def intro: quiet_outside)
  have inner: "quiet log cur (sbind (outside (ce_set_rng (le_connector env) g)) (\<lambda>_.
      sbind (outside (ce_forward (le_connector env) Mode_grad sg ins' split)) (\<lambda>_.
      sbind (outside (ce_set_rng (le_connector env) g')) (\<lambda>_. outside (ce_backward (le_connector env) sg ins i)))))" for g g' ins' split
    by (intro quiet_sbind o)
  show ?thesis unfolding bwd_func_def
    by (rule quiet_state, rule quiet_rbind, rule quiet_if, rule quiet_sbind [OF o(1)], rule quiet_state, (rule quiet_rbind)+, rule inner, rule o(4))
qed

lemma fwd_skip_quiet: "quiet log cur (fwd_skip env ins i)"
  unfolding fwd_skip_def Let_def by (rule quiet_sbind [OF quiet_update quiet_sret]) (simp_all add: cn_static_def)

lemma bwd_skip_quiet: "quiet log cur (bwd_skip ins i)"
  by (auto simp: quiet_def bwd_skip_def rbind_eq_Inr)

text \<open>The events \<open>es\<close> are communicated, and only the values of one microbatch change.\<close>

definition moved :: "('w \<Rightarrow> 'v comm_event list) \<Rightarrow> ('w \<Rightarrow> int) \<Rightarrow> int \<Rightarrow> 'v comm_event list \<Rightarrow> ('w, 'v, 'g) cstate \<Rightarrow> ('w, 'v, 'g) cstate \<Rightarrow> bool" where
  "moved log cur i es = (\<lambda>(w, c) (w', c'). log w' = log w @ es \<and> cur w' = cur w \<and> cn_static c' = cn_static c \<and>
     (\<forall>t. t \<noteq> i \<longrightarrow> um_get (cn_split_values c') t = um_get (cn_split_values c) t))"

abbreviation only_split :: "('w \<Rightarrow> 'v comm_event list) \<Rightarrow> ('w \<Rightarrow> int) \<Rightarrow> int \<Rightarrow> ('w, 'v, 'g) cstate \<Rightarrow> ('w, 'v, 'g) cstate \<Rightarrow> bool" where
  "only_split log cur i \<equiv> moved log cur i []"

lemma only_split_refl: "only_split log cur i s s"
  by (simp add: moved_def split: prod.split)

lemma moved_trans: "moved log cur i es s s' \<Longrightarrow> moved log cur i es' s' s'' \<Longrightarrow> moved log cur i (es @ es') s s''"
  by (auto simp: moved_def)

lemma only_split_trans: "only_split log cur i s s' \<Longrightarrow> only_split log cur i s' s'' \<Longrightarrow> only_split log cur i s s''"
  using moved_trans [of log cur i "[]" s s' "[]" s''] by simp

lemma only_split_moved: "only_split log cur i s s' \<Longrightarrow> moved log cur i es s' s'' \<Longrightarrow> moved log cur i es s s''"
  using moved_trans [of log cur i "[]" s s' es s''] by simp

lemma quiet_only: "quiet log cur m \<Longrightarrow> m s = Inr (x, s') \<Longrightarrow> only_split log cur i s s'"
  by (cases s, cases s') (simp add: quiet_def moved_def)

lemma put_only: "only_split log cur i (w, c) (w, put_split_values i sg vs c)"
  by (simp add: moved_def put_split_values_def cn_static_def um_get_set)

text \<open>A pass that runs the functions of the connector communicates nothing while it runs a subgraph.\<close>

definition calm :: "('w \<Rightarrow> 'v comm_event list) \<Rightarrow> ('w \<Rightarrow> int) \<Rightarrow> ('w, 'v, 'g) cpass \<Rightarrow> bool" where
  "calm log cur ps \<longleftrightarrow> (\<forall>sg ins i. quiet log cur (ps_func ps sg ins i)) \<and> (\<forall>ins i. quiet log cur (ps_skip ps ins i))"

lemma fwd_calm: "observes env log cur \<Longrightarrow> calm log cur (fwd_pass (le_connector env) c)"
  by (simp add: calm_def fwd_pass_def fwd_func_quiet fwd_skip_quiet)

lemma bwd_calm: "observes env log cur \<Longrightarrow> calm log cur (bwd_pass (le_connector env) c)"
  by (simp add: calm_def bwd_pass_def bwd_func_quiet bwd_skip_quiet)

lemma run_subgraph_only:
  assumes ps: "calm log cur ps" and run: "run_subgraph ps i e gd s = Inr (gd', s')"
  shows "only_split log cur i s s'"
proof -
  obtain sg gr where e: "e = (sg, gr)" by (cases e)
  obtain w c where s: "s = (w, c)" by (cases s)
  let ?c1 = "put_split_values i sg (sg_split_values c i sg) c"
  show ?thesis
  proof (cases "sg \<in> gd")
    case True
    then show ?thesis using run by (simp add: run_subgraph_def e s only_split_refl)
  next
    case False
    from run False obtain names where names: "ps_names ps gr = Inr names" by (auto simp: run_subgraph_def e s Let_def rbind_eq_Inr)
    show ?thesis
    proof (cases "isGraphReady names (fst ` set (sg_split_values c i sg))")
      case False
      then have "s' = (w, ?c1)" using run \<open>sg \<notin> gd\<close> names by (simp add: run_subgraph_def e s Let_def)
      then show ?thesis unfolding s by (simp only: put_only)
    next
      case True
      then obtain ins sk s1 out w2 c2 where "ps_skip ps ins i (w, ?c1) = Inr (sk, s1)"
        and 2: "(if sk then sret [] else ps_func ps sg ins i) s1 = Inr (out, (w2, c2))"
        and s': "s' = (w2, put_split_values i sg (keep_or_set out (sg_split_values c2 i sg)) c2)"
        using run \<open>sg \<notin> gd\<close> names by (auto simp: run_subgraph_def e s Let_def rbind_eq_Inr sbind_Inr)
      then have 1: "only_split log cur i (w, ?c1) s1" using ps quiet_only unfolding calm_def by metis
      have "quiet log cur (if sk then sret [] else ps_func ps sg ins i)" using ps by (simp add: calm_def quiet_sret)
      from only_split_trans [OF 1 quiet_only [OF this 2]] have "only_split log cur i (w, ?c1) (w2, c2)" .
      then have "only_split log cur i s (w2, c2)" unfolding s by (rule only_split_trans [OF put_only])
      then show ?thesis unfolding s' by (rule only_split_trans [OF _ put_only])
    qed
  qed
qed

lemma runDriver_only:
  assumes ps: "calm log cur ps" and run: "runDriver ps i gd s = Inr (gd', s')"
  shows "only_split log cur i s s'"
proof -
  obtain w c where s: "s = (w, c)" by (cases s)
  from run have "sfold (run_subgraph ps i) (cn_graphs c) gd s = Inr (gd', s')" by (simp add: runDriver_def s)
  then show ?thesis
    by (rule sfold_invariant [where P = "\<lambda>_ t. only_split log cur i s t"])
      (use only_split_refl only_split_trans run_subgraph_only [OF ps] in blast)+
qed

section \<open>Sending and receiving\<close>

definition talk :: "('w \<Rightarrow> 'v comm_event list) \<Rightarrow> ('w \<Rightarrow> int) \<Rightarrow> 'v comm_event list \<Rightarrow> ('w, 'v, 'g) cstate \<Rightarrow> ('w, 'v, 'g) cstate \<Rightarrow> bool" where
  "talk log cur es = (\<lambda>(w, c) (w', c'). c' = c \<and> cur w' = cur w \<and> log w' = log w @ es)"

lemma talk_Nil: "talk log cur [] s s"
  by (simp add: talk_def split: prod.split)

lemma talk_trans: "talk log cur es s s' \<Longrightarrow> talk log cur es' s' s'' \<Longrightarrow> talk log cur (es @ es') s s''"
  by (auto simp: talk_def)

lemma talk_moved: "talk log cur es s s' \<Longrightarrow> moved log cur i es s s'"
  by (auto simp: talk_def moved_def)

lemma talk_fold:
  assumes run: "sfold f xs acc s = Inr (acc', s')"
    and step: "\<And>x a t a' t'. x \<in> set xs \<Longrightarrow> snd t = snd s \<Longrightarrow> cur (fst t) = cur (fst s) \<Longrightarrow> f x a t = Inr (a', t') \<Longrightarrow> talk log cur (h x) t t'"
  shows "talk log cur (concat (map h xs)) s s'"
  using run step
proof (induction xs arbitrary: acc s)
  case (Cons x xs)
  from Cons.prems(1) obtain a t where t: "f x acc s = Inr (a, t)" "sfold f xs a t = Inr (acc', s')" by (auto simp: sbind_Inr)
  have x: "talk log cur (h x) s t" by (rule Cons.prems(2) [OF _ refl refl t(1)]) simp
  then have same: "snd t = snd s" "cur (fst t) = cur (fst s)" by (auto simp: talk_def split: prod.splits)
  have "talk log cur (concat (map h xs)) t s'"
    by (rule Cons.IH [OF t(2)]) (use Cons.prems(2) same in simp)
  from talk_trans [OF x this] show ?case by simp
qed (simp add: sret_Inr talk_Nil)

lemma distribute_talk:
  assumes "observes env log cur" "outside (ce_distribute (le_connector env) b d r v) (w, c) = Inr (x, s')"
  shows "talk log cur [(r, cur w - d, v)] (w, c) s'"
  using assms by (auto simp: observes_def outside_def rbind_eq_Inr talk_def)

text \<open>A value that a route takes, from the values of all microbatches; what is communicated at step \<open>k\<close> when a route is
  late by \<open>D\<close>; and what is communicated for the microbatch \<open>i\<close>.\<close>

definition route_value :: "(string, 'v ivalues) umap \<Rightarrow> RouteDP \<Rightarrow> 'v option" where
  "route_value vals r = um_get (um_ref [] vals (r_source_graph r)) (r_location r)"

definition sent_at :: "(RouteDP \<Rightarrow> nat) \<Rightarrow> (int \<Rightarrow> (string, 'v ivalues) umap) \<Rightarrow> int \<Rightarrow> RouteDP \<Rightarrow> 'v comm_event list" where
  "sent_at D val k r = (if int (D r) \<le> k then [(r, k - int (D r), route_value (val (k - int (D r))) r)] else [])"

definition flushed :: "(RouteDP \<Rightarrow> nat) \<Rightarrow> nat \<Rightarrow> (int \<Rightarrow> (string, 'v ivalues) umap) \<Rightarrow> int \<Rightarrow> RouteDP list \<Rightarrow> 'v comm_event list" where
  "flushed D m val i S =
     concat (map (\<lambda>j. concat (map (\<lambda>r. if j \<le> int (D r) then sent_at D val (i + j) r else []) S)) (map int [1..<Suc m]))"

definition microbatch_events :: "RouteDP list \<Rightarrow> RouteDP list \<Rightarrow> (RouteDP \<Rightarrow> nat) \<Rightarrow> nat \<Rightarrow> (int \<Rightarrow> (string, 'v ivalues) umap) \<Rightarrow> bool \<Rightarrow> int \<Rightarrow>
    'v comm_event list" where
  "microbatch_events R S D m val flush i =
     map (\<lambda>r. (r, i, None)) R @ concat (map (sent_at D val i) S) @ (if flush then flushed D m val i S else [])"

abbreviation vals_at :: "('v, 'g) connector \<Rightarrow> int \<Rightarrow> (string, 'v ivalues) umap" where
  "vals_at c \<equiv> um_ref [] (cn_split_values c)"

lemma recv_talk:
  assumes o: "observes env log cur" and run: "recv_route (le_connector env) ps r a s = Inr (a', s')"
  shows "talk log cur [(r, cur (fst s), None)] s s'"
proof -
  obtain w c where s: "s = (w, c)" by (cases s)
  from run obtain v where "outside (ce_distribute (le_connector env) (ps_bwd ps) 0 r None) (w, c) = Inr (v, s')"
    by (auto simp: recv_route_def sbind_Inr sret_Inr s)
  from distribute_talk [OF o this] show ?thesis by (simp add: s)
qed

lemma output_talk:
  assumes o: "observes env log cur" and d: "getDelay r (ps_order ps) = Inr (int (D r))" and i: "cur (fst s) = i"
    and run: "distributeOutput (le_connector env) ps i j r s = Inr (x, s')"
  shows "talk log cur (sent_at D (vals_at (snd s)) (i + j) r) s s'"
proof -
  obtain w c where s: "s = (w, c)" by (cases s)
  show ?thesis
  proof (cases "0 \<le> i + j - int (D r)")
    case True
    then have "outside (ce_distribute (le_connector env) (ps_bwd ps) (int (D r) - j) r
        (um_get (sg_split_values c (i + j - int (D r)) (r_source_graph r)) (r_location r))) (w, c) = Inr (x, s')"
      using run d by (auto simp: distributeOutput_def rbind_eq_Inr Let_def s)
    from distribute_talk [OF o this] True i show ?thesis
      by (simp add: sent_at_def route_value_def sg_split_values_def s algebra_simps)
  next
    case False
    then have "s' = (w, c)" using run d by (auto simp: distributeOutput_def rbind_eq_Inr Let_def s)
    then show ?thesis using False by (simp add: sent_at_def talk_Nil s)
  qed
qed

lemma send_talk:
  assumes "observes env log cur" "getDelay r (ps_order ps) = Inr (int (D r))" "cur (fst s) = i"
    and "send_route (le_connector env) ps i r a s = Inr (a', s')"
  shows "talk log cur (sent_at D (vals_at (snd s)) i r) s s'"
proof -
  obtain w c where s: "s = (w, c)" by (cases s)
  from assms(4) obtain v where "distributeOutput (le_connector env) ps i 0 r s = Inr (v, s')"
    by (auto simp: send_route_def sbind_Inr sret_Inr rbind_eq_Inr s)
  from output_talk [where D = D, OF assms(1-3) this] show ?thesis by simp
qed

lemma flush_talk:
  assumes "observes env log cur" and d: "getDelay r (ps_order ps) = Inr (int (D r))" and "cur (fst s) = i"
    and "flush_route (le_connector env) ps i j r s = Inr (a', s')"
  shows "talk log cur (if j \<le> int (D r) then sent_at D (vals_at (snd s)) (i + j) r else []) s s'"
proof (cases "j \<le> int (D r)")
  case True
  then obtain v where "distributeOutput (le_connector env) ps i j r s = Inr (v, s')"
    using assms(4) by (auto simp: flush_route_def sbind_Inr sret_Inr d)
  from output_talk [where D = D, OF assms(1-3) this] True show ?thesis by simp
next
  case False
  then show ?thesis using assms(4) by (simp add: flush_route_def sbind_Inr sret_Inr d talk_Nil)
qed

text \<open>The pass of a rank with the one subgraph \<open>g\<close>, its routes \<open>R\<close> and \<open>S\<close> in order, and the delays \<open>D\<close> of those it sends on.\<close>

definition sole_pass :: "('w, 'v, 'g) cpass \<Rightarrow> string \<Rightarrow> RouteDP list \<Rightarrow> RouteDP list \<Rightarrow> (RouteDP \<Rightarrow> nat) \<Rightarrow> nat \<Rightarrow> bool" where
  "sole_pass ps g R S D m \<longleftrightarrow> ps_sorted ps = [g] \<and> um_get (ps_recv ps) g = Some R \<and> um_get (ps_send ps) g = Some S \<and>
     ps_max_delay ps = int m \<and> (\<forall>r \<in> set S. getDelay r (ps_order ps) = Inr (int (D r)) \<and> D r \<le> m)"

lemma flush_routes_talk:
  assumes o: "observes env log cur" and sp: "sole_pass ps g R S D m" and i: "cur (fst s) = i"
    and run: "flush_routes (le_connector env) ps i S s = Inr (a', s')"
  shows "talk log cur (flushed D m (vals_at (snd s)) i S) s s'"
proof -
  have m: "ps_max_delay ps = int m" and d: "r \<in> set S \<Longrightarrow> getDelay r (ps_order ps) = Inr (int (D r))" for r
    using sp by (simp_all add: sole_pass_def)
  let ?ev = "\<lambda>j r. if j \<le> int (D r) then sent_at D (vals_at (snd s)) (i + j) r else []"
  have inner: "talk log cur (concat (map (?ev j) S)) t t'"
    if t: "snd t = snd s" "cur (fst t) = cur (fst s)"
      and run: "sfold (\<lambda>r _. flush_route (le_connector env) ps i j r) S a t = Inr (b, t')" for j a b t t'
  proof (rule talk_fold [OF run])
    fix r x u y u'
    assume "r \<in> set S" "snd u = snd t" "cur (fst u) = cur (fst t)" "flush_route (le_connector env) ps i j r u = Inr (y, u')"
    then show "talk log cur (?ev j r) u u'" using flush_talk [where D = D, OF o d, of r u i j] t i by (simp split: if_splits)
  qed
  show ?thesis unfolding flushed_def
  proof (rule talk_fold)
    show "sfold (\<lambda>j _. sfold (\<lambda>r _. flush_route (le_connector env) ps i j r) S ()) (map int [1..<Suc m]) () s = Inr (a', s')"
      using run by (simp add: flush_routes_def m)
  qed (use inner in blast)
qed

section \<open>A microbatch\<close>

lemma cn_static_sel [simp]:
  "cn_pipeline_num (cn_static c) = cn_pipeline_num c" "fwd_pass env (cn_static c) = fwd_pass env c" "bwd_pass env (cn_static c) = bwd_pass env c"
  by (simp_all add: cn_static_def fwd_pass_def bwd_pass_def)

lemma cn_static_fields:
  assumes "cn_static c' = cn_static c"
  shows "cn_pipeline_num c' = cn_pipeline_num c" "fwd_pass env c' = fwd_pass env c" "bwd_pass env c' = bwd_pass env c"
  using arg_cong [OF assms, of cn_pipeline_num] arg_cong [OF assms, of "fwd_pass env"] arg_cong [OF assms, of "bwd_pass env"] by simp_all

lemma compute_graph_moved:
  assumes o: "observes env log cur" and sp: "sole_pass ps g R S D m" and calm: "calm log cur ps"
    and i: "cur (fst s) = i" and run: "compute_graph (le_connector env) ps i g acc s = Inr (acc', s')"
  shows "moved log cur i (microbatch_events R S D m (vals_at (snd s')) (i + 1 = cn_pipeline_num (snd s)) i) s s'"
proof -
  have R: "um_at (ps_recv ps) g = Inr R" and S: "um_at (ps_send ps) g = Inr S"
    and d: "r \<in> set S \<Longrightarrow> getDelay r (ps_order ps) = Inr (int (D r))" for r
    using sp by (simp_all add: sole_pass_def um_at_Inr)
  obtain gd recv where acc: "acc = (gd, recv)" by (cases acc)
  obtain recv1 s1 vals w1 c1 done1 s3 recv2 s4 where
    1: "sfold (recv_route (le_connector env) ps) R recv s = Inr (recv1, s1)"
    and s1: "s1 = (w1, c1)"
    and 3: "runDriver ps i gd (w1, c1\<lparr>cn_split_values := um_set i vals (cn_split_values c1)\<rparr>) = Inr (done1, s3)"
    and 4: "sfold (send_route (le_connector env) ps i) S recv1 s3 = Inr (recv2, s4)"
    and 5: "(\<lambda>(w, c). if i + 1 = cn_pipeline_num c then flush_routes (le_connector env) ps i S (w, c) else Inr ((), (w, c))) s4 = Inr ((), s')"
    using run by (auto simp: compute_graph_def acc sbind_Inr R S sret_Inr rbind_eq_Inr)
  have "talk log cur (concat (map (\<lambda>r. [(r, i, None)]) R)) s s1"
    by (rule talk_fold [OF 1]) (use recv_talk [OF o] i in metis)
  then have t1: "moved log cur i (map (\<lambda>r. (r, i, None)) R) s s1" by (simp add: talk_moved)
  have t2: "only_split log cur i s1 (w1, c1\<lparr>cn_split_values := um_set i vals (cn_split_values c1)\<rparr>)"
    by (simp add: moved_def s1 cn_static_def um_get_set)
  note t3 = runDriver_only [OF calm 3]
  from moved_trans [OF t1 only_split_trans [OF t2 t3]]
  have a: "moved log cur i (map (\<lambda>r. (r, i, None)) R) s s3" by simp
  then have i3: "cur (fst s3) = i" and static: "cn_static (snd s3) = cn_static (snd s)" using i by (auto simp: moved_def split: prod.splits)
  have t4: "talk log cur (concat (map (sent_at D (vals_at (snd s3)) i) S)) s3 s4"
  proof (rule talk_fold [OF 4])
    fix r x u y u'
    assume "r \<in> set S" "snd u = snd s3" "cur (fst u) = cur (fst s3)" "send_route (le_connector env) ps i r x u = Inr (y, u')"
    then show "talk log cur (sent_at D (vals_at (snd s3)) i r) u u'"
      using send_talk [where D = D, OF o d, of r u i x y u'] i3 by simp
  qed
  then have s4: "snd s4 = snd s3" "cur (fst s4) = i" using i3 by (auto simp: talk_def split: prod.splits)
  have t5: "talk log cur (if i + 1 = cn_pipeline_num (snd s) then flushed D m (vals_at (snd s3)) i S else []) s4 s'"
    using 5 flush_routes_talk [OF o sp s4(2), of "()" s'] s4(1) cn_static_fields(1) [OF static]
    by (cases s4) (auto simp: talk_Nil)
  have "snd s' = snd s3" using t4 t5 by (auto simp: talk_def split: prod.splits)
  with moved_trans [OF a talk_moved [OF talk_trans [OF t4 t5]]] show ?thesis by (simp add: microbatch_events_def)
qed

lemma connector_compute_moved:
  assumes o: "observes env log cur" and sp: "sole_pass ps g R S D m" and calm: "calm log cur ps"
    and i: "cur w = i" and run: "connector_compute (le_connector env) ps ins i (w, c) = Inr (out, (w', c'))"
  shows "moved log cur i (microbatch_events R S D m (vals_at c') (i + 1 = cn_pipeline_num c) i)
      (w, if i = 0 then c\<lparr>cn_split_values := []\<rparr> else c) (w', c')" and "out = vals_at c' i"
proof -
  let ?c = "c\<lparr>cn_split_values := um_set i ins (if i = 0 then [] else cn_split_values c)\<rparr>"
  obtain acc' where 1: "compute_graph (le_connector env) ps i g ({}, []) (w, ?c) = Inr (acc', (w', c'))" and "out = vals_at c' i"
    using run sp by (auto simp: connector_compute_def sbind_Inr sret_Inr sole_pass_def update_connector_def)
  then show "out = vals_at c' i" by simp
  have "moved log cur i (microbatch_events R S D m (vals_at c') (i + 1 = cn_pipeline_num c) i) (w, ?c) (w', c')"
    using compute_graph_moved [OF o sp calm _ 1] i by simp
  moreover have "only_split log cur i (w, if i = 0 then c\<lparr>cn_split_values := []\<rparr> else c) (w, ?c)"
    by (simp add: moved_def cn_static_def um_get_set)
  ultimately
  show "moved log cur i (microbatch_events R S D m (vals_at c') (i + 1 = cn_pipeline_num c) i)
      (w, if i = 0 then c\<lparr>cn_split_values := []\<rparr> else c) (w', c')"
    by (rule only_split_moved [rotated])
qed

section \<open>A pass\<close>

text \<open>What is sent for a microbatch is a value of that microbatch or of an earlier one.\<close>

lemma microbatch_cong:
  assumes "\<And>t. 0 \<le> t \<Longrightarrow> t \<le> i \<Longrightarrow> val t = val' t"
  shows "microbatch_events R S D m val b i = microbatch_events R S D m val' b i"
proof -
  have 1: "sent_at D val i r = sent_at D val' i r" for r
    using assms by (simp add: sent_at_def)
  have 2: "(if j \<le> int (D r) then sent_at D val (i + j) r else []) = (if j \<le> int (D r) then sent_at D val' (i + j) r else [])" for j r
    using assms by (simp add: sent_at_def)
  show ?thesis unfolding microbatch_events_def flushed_def 1 2 ..
qed

definition driver_pass :: "bool \<Rightarrow> ('w, 'v, 'g) connector_env \<Rightarrow> ('v, 'g) connector \<Rightarrow> ('w, 'v, 'g) cpass" where
  "driver_pass is_bwd env c = (if is_bwd then bwd_pass env c else fwd_pass env c)"

lemma driver_pass_static: "cn_static c' = cn_static c \<Longrightarrow> driver_pass b env c' = driver_pass b env c"
  by (simp add: driver_pass_def cn_static_fields(2,3) [of c' c])

lemma driver_calm: "observes env log cur \<Longrightarrow> calm log cur (driver_pass b (le_connector env) c)"
  by (simp add: driver_pass_def fwd_calm bwd_calm)

definition driver_run :: "('w, 'v, 'g) connector_env \<Rightarrow> string \<Rightarrow> bool \<Rightarrow> (string, 'v ivalues) umap \<Rightarrow> int \<Rightarrow> (('w, 'v, 'g) cstate, (string, 'v ivalues) umap) st" where
  "driver_run env gid is_bwd ins i = (if is_bwd then connector_backward env gid ins i else connector_forward env ins i)"

lemma driver_run_moved:
  assumes o: "observes env log cur" and sp: "sole_pass (driver_pass b (le_connector env) c) g R S D m"
    and i: "cur w = i" and run: "driver_run (le_connector env) gid b ins i (w, c) = Inr (out, (w', c'))"
  shows "moved log cur i (microbatch_events R S D m (vals_at c') (i + 1 = cn_pipeline_num c) i)
      (w, if i = 0 then c\<lparr>cn_split_values := []\<rparr> else c) (w', c')" and "out = vals_at c' i"
proof -
  have "\<exists>w1. log w1 = log w \<and> cur w1 = cur w \<and>
      connector_compute (le_connector env) (driver_pass b (le_connector env) c) ins i (w1, c) = Inr (out, (w', c'))"
  proof (cases "b \<and> i = 0")
    case True
    moreover have "silent log cur (ce_prepare_backward (le_connector env) gid)" using o by (simp add: observes_def)
    ultimately show ?thesis using run
      by (auto simp: driver_run_def connector_backward_def driver_pass_def sbind_Inr outside_def rbind_eq_Inr silent_def)
  next
    case False
    then show ?thesis using run
      by (auto simp: driver_run_def connector_backward_def connector_forward_def driver_pass_def sbind_Inr sret_Inr split: if_splits)
  qed
  then obtain w1 where w1: "log w1 = log w" "cur w1 = cur w"
    and c: "connector_compute (le_connector env) (driver_pass b (le_connector env) c) ins i (w1, c) = Inr (out, (w', c'))" by blast
  have "cur w1 = i" using w1 i by simp
  note mv = connector_compute_moved [OF o sp driver_calm [OF o] this c]
  from mv(2) show "out = vals_at c' i" .
  from mv(1) w1 show "moved log cur i (microbatch_events R S D m (vals_at c') (i + 1 = cn_pipeline_num c) i)
      (w, if i = 0 then c\<lparr>cn_split_values := []\<rparr> else c) (w', c')"
    by (simp add: moved_def split: if_splits)
qed

lemma start_split_log:
  assumes "observes env log cur" "start_split env b sizes i (w, l) = Inr (x, (w', l'))"
  shows "log w' = log w" "cur w' = int i" "l' = l"
  using assms by (auto simp: observes_def silent_def start_split_def sbind_Inr sret_Inr on_world_def rbind_eq_Inr)

lemma run_split_moved:
  assumes o: "observes env log cur" and c: "um_get (la_drivers l) gid = Some c"
    and sp: "sole_pass (driver_pass b (le_connector env) c) g R S D m"
    and run: "run_split env gid b sizes locals ins i (w, l) = Inr (out, (w', l'))"
  obtains c' where "um_get (la_drivers l') gid = Some c'" and "cn_static c' = cn_static c" and "out = vals_at c' (int i)"
    and "\<forall>t. t \<noteq> int i \<and> i \<noteq> 0 \<longrightarrow> vals_at c' t = vals_at c t"
    and "log w' = log w @ microbatch_events R S D m (vals_at c') (int i + 1 = cn_pipeline_num c) (int i)"
proof -
  obtain bs w1 l1 x where 1: "start_split env b sizes i (w, l) = Inr (bs, (w1, l1))"
    and 2: "on_driver gid (driver_run (le_connector env) gid b x (int i)) (w1, l1) = Inr (out, (w', l'))"
    using run by (auto simp: run_split_def sbind_Inr rbind_eq_Inr driver_run_def)
  note s = start_split_log [OF o 1]
  obtain c' where 3: "driver_run (le_connector env) gid b x (int i) (w1, c) = Inr (out, (w', c'))"
    and l': "l' = l\<lparr>la_drivers := um_set gid c' (la_drivers l)\<rparr>"
    using 2 c by (auto simp: on_driver_def rbind_eq_Inr s)
  note mv = driver_run_moved [OF o sp s(2) 3]
  show thesis
    by (rule that [of c']) (use mv l' s(1) in \<open>auto simp: moved_def um_get_set um_ref_def cn_static_def split: if_splits\<close>)
qed

text \<open>The events of a pass over \<open>n\<close> microbatches, of which \<open>outs\<close> are the values.\<close>

definition pass_events :: "RouteDP list \<Rightarrow> RouteDP list \<Rightarrow> (RouteDP \<Rightarrow> nat) \<Rightarrow> nat \<Rightarrow> int \<Rightarrow> (string, 'v ivalues) umap list \<Rightarrow> 'v comm_event list" where
  "pass_events R S D m pn outs =
     concat (map (\<lambda>i. microbatch_events R S D m (\<lambda>t. outs ! nat t) (int i + 1 = pn) (int i)) [0..<length outs])"

lemma pass_events_snoc:
  "pass_events R S D m pn (outs @ [out]) =
     pass_events R S D m pn outs @ microbatch_events R S D m (\<lambda>t. (outs @ [out]) ! nat t) (int (length outs) + 1 = pn) (int (length outs))"
proof -
  have same: "microbatch_events R S D m (\<lambda>t. (outs @ [out]) ! nat t) (int i + 1 = pn) (int i) =
      microbatch_events R S D m (\<lambda>t. outs ! nat t) (int i + 1 = pn) (int i)" if "i < length outs" for i
    by (rule microbatch_cong) (use that in \<open>simp add: nth_append nat_less_iff\<close>)
  have "pass_events R S D m pn outs =
      concat (map (\<lambda>i. microbatch_events R S D m (\<lambda>t. (outs @ [out]) ! nat t) (int i + 1 = pn) (int i)) [0..<length outs])"
    unfolding pass_events_def by (intro arg_cong [where f = concat] map_cong) (simp_all add: same)
  then show ?thesis by (simp add: pass_events_def)
qed

lemma smap_upt:
  assumes "smap f [0..<n] s = Inr (ys, t)" and "P [] s"
    and step: "\<And>pre s y s'. length pre < n \<Longrightarrow> P pre s \<Longrightarrow> f (length pre) s = Inr (y, s') \<Longrightarrow> P (pre @ [y]) s'"
  shows "P ys t \<and> length ys = n"
proof -
  have "P (pre @ ys) t" if "smap f xs s = Inr (ys, t)" "xs = [length pre..<n]" "P pre s" for pre xs ys s
    using that
  proof (induction xs arbitrary: pre ys s)
    case (Cons x xs)
    note x = upt_eq_Cons_conv [THEN iffD1, OF Cons.prems(2) [symmetric]]
    obtain y s' ys' where 1: "f x s = Inr (y, s')" "smap f xs s' = Inr (ys', t)" "ys = y # ys'"
      using Cons.prems(1) by (auto simp: sbind_Inr sret_Inr)
    have P: "P (pre @ [y]) s'" using step [OF x [THEN conjunct1] Cons.prems(3)] 1(1) x by simp
    have "xs = [length (pre @ [y])..<n]" unfolding length_append_singleton Suc_eq_plus1 using x by (elim conjE) (rule sym)
    from Cons.IH [OF 1(2) this P] show ?case by (simp add: 1(3))
  qed (simp add: sret_Inr)
  from this [OF assms(1), of "[]"] assms(2) have "P ys t" by simp
  moreover have "length ys = n" using smap_length [OF assms(1)] by simp
  ultimately show ?thesis ..
qed

lemma pass_schedule:
  fixes l :: "('v, 'g) launcher"
  assumes "observes env log cur" and "um_get (la_drivers l) gid = Some c"
    and "sole_pass (driver_pass b (le_connector env) c) g R S D m"
    and "smap (run_split env gid b sizes locals ins) [0..<n] (w, l) = Inr (outs, (w', l'))"
  shows "log w' = log w @ pass_events R S D m (cn_pipeline_num c) outs"
proof -
  define P where "P = (\<lambda>outs (w', l' :: ('v, 'g) launcher). \<exists>c'. um_get (la_drivers l') gid = Some c' \<and> cn_static c' = cn_static c \<and>
    (\<forall>i < length outs. vals_at c' (int i) = outs ! i) \<and> log w' = log w @ pass_events R S D m (cn_pipeline_num c) outs)"
  have "P outs (w', l') \<and> length outs = n"
  proof (rule smap_upt [OF assms(4)])
    show "P [] (w, l)" using assms(2) by (simp add: P_def pass_events_def)
  next
    fix pre s y s'
    assume "P pre s" and run: "run_split env gid b sizes locals ins (length pre) s = Inr (y, s')"
    obtain w1 l1 where s: "s = (w1, l1)" by (cases s)
    obtain w2 l2 where s': "s' = (w2, l2)" by (cases s')
    obtain c1 where c1: "um_get (la_drivers l1) gid = Some c1" "cn_static c1 = cn_static c" "\<forall>i < length pre. vals_at c1 (int i) = pre ! i"
      "log w1 = log w @ pass_events R S D m (cn_pipeline_num c) pre" using \<open>P pre s\<close> by (auto simp: P_def s)
    have sp: "sole_pass (driver_pass b (le_connector env) c1) g R S D m" using assms(3) by (simp add: driver_pass_static [OF c1(2)])
    obtain c2 where c2: "um_get (la_drivers l2) gid = Some c2" "cn_static c2 = cn_static c1" "y = vals_at c2 (int (length pre))"
      "\<forall>t. t \<noteq> int (length pre) \<and> length pre \<noteq> 0 \<longrightarrow> vals_at c2 t = vals_at c1 t"
      "log w2 = log w1 @ microbatch_events R S D m (vals_at c2) (int (length pre) + 1 = cn_pipeline_num c1) (int (length pre))"
      by (rule run_split_moved [OF assms(1) c1(1) sp run [unfolded s s']])
    have vals: "vals_at c2 (int i) = (pre @ [y]) ! i" if "i < Suc (length pre)" for i
    proof (cases "i = length pre")
      case False
      then have "i < length pre" using that by simp
      moreover then have "length pre \<noteq> 0" by auto
      ultimately show ?thesis using c1(3) c2(4) by (simp add: nth_append)
    qed (simp add: c2(3))
    have "microbatch_events R S D m (vals_at c2) fl (int (length pre)) =
        microbatch_events R S D m (\<lambda>t. (pre @ [y]) ! nat t) fl (int (length pre))" for fl
      by (rule microbatch_cong) (use vals in \<open>metis int_nat_eq le_imp_less_Suc nat_le_iff\<close>)
    then show "P (pre @ [y]) s'"
      using c1 c2(1,2,5) vals cn_static_fields(1) [OF c1(2)] by (simp add: P_def s' pass_events_snoc)
  qed
  then show ?thesis by (auto simp: P_def)
qed

section \<open>Which microbatches a route carries\<close>

text \<open>The microbatches whose values are moved over the route \<open>r\<close>, in order.\<close>

definition carried :: "RouteDP \<Rightarrow> 'v comm_event list \<Rightarrow> int list" where
  "carried r es = map (\<lambda>(_, t, _). t) (filter (\<lambda>(r', _). r' = r) es)"

lemma carried_simps [simp]:
  "carried r [] = []" "carried r (e # es) = (if fst e = r then [fst (snd e)] else []) @ carried r es"
  "carried r (es @ es') = carried r es @ carried r es'"
  by (auto simp: carried_def split: prod.splits)

lemma carried_map: "carried r (concat (map f xs)) = concat (map (\<lambda>x. carried r (f x)) xs)"
  by (induction xs) simp_all

lemma carried_over:
  assumes "distinct S" "\<And>r'. r' \<noteq> r \<Longrightarrow> carried r (f r') = []"
  shows "carried r (concat (map f S)) = (if r \<in> set S then carried r (f r) else [])"
  using assms(1)
proof (induction S)
  case (Cons a S)
  then show ?case by (cases "a = r") (use assms(2) in auto)
qed simp

lemma carried_recv: "distinct R \<Longrightarrow> carried r (map (\<lambda>r. (r, i, None)) R) = (if r \<in> set R then [i] else [])"
  by (induction R) auto

lemma carried_sent: "carried r (sent_at D val k r') = (if r' = r \<and> int (D r) \<le> k then [k - int (D r)] else [])"
  by (simp add: sent_at_def)

lemma carried_sends: "distinct S \<Longrightarrow> carried r (concat (map (sent_at D val k) S)) = (if r \<in> set S \<and> int (D r) \<le> k then [k - int (D r)] else [])"
  by (simp add: carried_over carried_sent)

lemma flush_range:
  "concat (map (\<lambda>j. if j \<le> d \<and> d \<le> k + j then [int (k + j) - int d] else []) [1..<Suc m]) = map int [Suc k - d..<Suc k + min m d - d]"
proof (induction m)
  case (Suc m)
  show ?case
  proof (cases "Suc m \<le> d \<and> d \<le> k + Suc m")
    case True
    then have "[Suc k - d..<Suc k + min (Suc m) d - d] = [Suc k - d..<Suc k + min m d - d] @ [k + Suc m - d]"
      by (simp add: Suc_diff_le)
    then show ?thesis using True Suc.IH by (simp add: of_nat_diff)
  next
    case False
    then have "[Suc k - d..<Suc k + min (Suc m) d - d] = [Suc k - d..<Suc k + min m d - d]"
      by (cases "Suc m \<le> d") (simp_all add: min_absorb2 not_le del: upt_Suc)
    then show ?thesis using False Suc.IH by auto
  qed
qed simp

lemma carried_flushed:
  assumes "distinct S" and "r \<in> set S" and "D r \<le> m"
  shows "carried r (flushed D m val (int k) S) = map int [Suc k - D r..<Suc k]"
proof -
  have inner: "carried r (concat (map (\<lambda>r. if int j \<le> int (D r) then sent_at D val (int k + int j) r else []) S)) =
      (if j \<le> D r \<and> D r \<le> k + j then [int (k + j) - int (D r)] else [])" for j
  proof -
    let ?f = "\<lambda>r. if int j \<le> int (D r) then sent_at D val (int k + int j) r else []"
    have "carried r (?f r') = []" if "r' \<noteq> r" for r' using that by (simp add: carried_sent)
    from carried_over [OF assms(1), where f = ?f, OF this] assms(2) show ?thesis by (auto simp: carried_sent)
  qed
  have "carried r (flushed D m val (int k) S) =
      concat (map (\<lambda>j. if j \<le> D r \<and> D r \<le> k + j then [int (k + j) - int (D r)] else []) [1..<Suc m])"
    unfolding flushed_def map_map by (subst carried_map) (simp only: comp_def inner)
  then show ?thesis using flush_range [of "D r" k m] assms(3) by (simp add: min_absorb2)
qed

lemma carried_microbatch:
  assumes "distinct S" and "distinct R" and "r \<notin> set R" and "r \<in> set S" and "D r \<le> m"
  shows "carried r (microbatch_events R S D m val fl (int k)) =
    (if D r \<le> k then [int (k - D r)] else []) @ (if fl then map int [Suc k - D r..<Suc k] else [])"
  using assms by (simp add: microbatch_events_def carried_recv carried_sends carried_flushed of_nat_diff)

lemma carried_pass:
  assumes "distinct S" and "distinct R" and "r \<notin> set R" and "r \<in> set S" and "D r \<le> m" and "int (length outs) \<le> pn"
  shows "carried r (pass_events R S D m pn outs) = map int [0..<if int (length outs) = pn then length outs else length outs - D r]"
  using assms(6)
proof (induction outs rule: rev_induct)
  case (snoc out outs)
  let ?n = "length outs"
  have "carried r (pass_events R S D m pn outs) = map int [0..<?n - D r]" using snoc by simp
  then have "carried r (pass_events R S D m pn (outs @ [out])) = map int [0..<?n - D r] @
      (if D r \<le> ?n then [int (?n - D r)] else []) @ (if int ?n + 1 = pn then map int [Suc ?n - D r..<Suc ?n] else [])"
    by (simp add: pass_events_snoc carried_microbatch [where D = D, OF assms(1-5)] del: upt_Suc)
  moreover have "map int [0..<?n - D r] @ (if D r \<le> ?n then [int (?n - D r)] else []) = map int [0..<Suc ?n - D r]"
    by (simp add: Suc_diff_le)
  moreover have "map int [0..<Suc ?n - D r] @ map int [Suc ?n - D r..<Suc ?n] = map int [0..<Suc ?n]"
    using upt_add_eq_append [of 0 "Suc ?n - D r" "Suc ?n - (Suc ?n - D r)"] by (simp del: upt_Suc flip: map_append)
  ultimately show ?case using snoc.prems by (simp del: upt_Suc append_assoc add: append_assoc [symmetric])
qed (simp add: pass_events_def)

lemma carried_recvs:
  fixes outs :: "(string, 'v ivalues) umap list"
  assumes "distinct S" and "distinct R" and "r \<in> set R" and "r \<notin> set S"
  shows "carried r (pass_events R S D m pn outs) = map int [0..<length outs]"
proof -
  have "carried r (concat (map (\<lambda>r. if j \<le> int (D r) then sent_at D val k r else []) S)) = []" for j k and val :: "int \<Rightarrow> (string, 'v ivalues) umap"
    using assms(4) by (induction S) (auto simp: carried_sent)
  then have "carried r (flushed D m val i S) = []" for val :: "int \<Rightarrow> (string, 'v ivalues) umap" and i
    unfolding flushed_def by (subst carried_map) simp
  then have "carried r (microbatch_events R S D m val fl i) = [i]" for val :: "int \<Rightarrow> (string, 'v ivalues) umap" and fl i
    using assms by (simp add: microbatch_events_def carried_recv carried_sends)
  then have "carried r (pass_events R S D m pn outs) = concat (map (\<lambda>i. [int i]) [0..<length outs])"
    unfolding pass_events_def by (subst carried_map) simp
  then show ?thesis by (simp add: concat_map_singleton)
qed

section \<open>The traffic of a pass\<close>

lemma distribute_inputs_log:
  assumes o: "observes env log cur" and run: "distribute_inputs env b inputs sizes locals routes i (w, l) = Inr (x, (w', l'))"
  shows "log w' = log w \<and> l' = l"
proof -
  obtain bs w1 l1 where 1: "start_split env b sizes i (w, l) = Inr (bs, (w1, l1))"
    and 2: "sfold (send_input env b inputs locals i bs) routes [] (w1, l1) = Inr (x, (w', l'))"
    using run by (auto simp: distribute_inputs_def sbind_Inr)
  have silent: "silent log cur (le_distribute env b t r v)" for t r v using o by (simp add: observes_def)
  have "(\<lambda>(w', l'). log w' = log w1 \<and> l' = l1) (w', l')"
    by (rule sfold_invariant [OF 2])
      (use silent in \<open>auto simp: send_input_def sbind_Inr sret_Inr on_world_def rbind_eq_Inr silent_def\<close>)
  then show ?thesis using start_split_log [OF o 1] by simp
qed

lemma distribute_outputs_log:
  assumes o: "observes env log cur" and run: "distribute_outputs env b sizes outs routes i (w, l) = Inr (x, (w', l'))"
  shows "log w' = log w \<and> l' = l"
proof -
  obtain d bs w1 l1 where 1: "start_split env b sizes i (w, l) = Inr (bs, (w1, l1))"
    and 2: "sfold (collect_output env b d bs) (out_entries routes) [] (w1, l1) = Inr (x, (w', l'))"
    using run by (auto simp: distribute_outputs_def sbind_Inr)
  have silent: "silent log cur (le_distribute env b t r v)" for t r v using o by (simp add: observes_def)
  have "(\<lambda>(w', l'). log w' = log w1 \<and> l' = l1) (w', l')"
    by (rule sfold_invariant [OF 2])
      (use silent in \<open>auto simp: collect_output_def sbind_Inr sret_Inr on_world_def rbind_eq_Inr silent_def\<close>)
  then show ?thesis using start_split_log [OF o 1] by simp
qed

lemma launcher_compute_events:
  assumes o: "observes env log cur" and c: "um_get (la_drivers l) gid = Some c"
    and sp: "sole_pass (driver_pass b (le_connector env) c) g R S D m"
    and run: "launcher_compute env gid b batch_size inputs in_routes out_routes (w, l) = Inr (res, (w', l'))"
  obtains outs where "log w' = log w @ pass_events R S D m (cn_pipeline_num c) outs"
    and "length outs = nat (actual_pipeline_num (la_pipeline_num l) batch_size)"
proof -
  let ?n = "nat (actual_pipeline_num (la_pipeline_num l) batch_size)"
  obtain sizes locals routes ins s1 outs s2 ys s3 where
    1: "smap (distribute_inputs env b inputs sizes locals in_routes) [0..<?n] (w, l) = Inr (ins, s1)"
    and 2: "smap (run_split env gid b sizes locals ins) [0..<?n] s1 = Inr (outs, s2)"
    and 3: "smap (distribute_outputs env b sizes outs routes) [0..<?n] s2 = Inr (ys, s3)" and s3: "s3 = (w', l')"
    using run by (auto simp: launcher_compute_def rbind_eq_Inr sbind_Inr Let_def)
  obtain w2 l2 where s2: "s2 = (w2, l2)" by (cases s2)
  have "(\<lambda>(w1, l1). log w1 = log w \<and> l1 = l) s1 \<and> length ins = ?n"
    by (rule smap_upt [OF 1]) (auto dest!: distribute_inputs_log [OF o])
  then obtain w1 where s1: "s1 = (w1, l)" "log w1 = log w" by auto
  have "(\<lambda>(w3, l3). log w3 = log w2 \<and> l3 = l2) s3 \<and> length ys = ?n"
    by (rule smap_upt [OF 3]) (auto simp: s2 dest!: distribute_outputs_log [OF o])
  then have "log w' = log w2" by (simp add: s3)
  then show thesis
    using that [of outs] pass_schedule [OF o c sp 2 [unfolded s1(1) s2]] s1(2) smap_length [OF 2] by simp
qed

lemma compute_traffic:
  assumes "observes env log cur" and "um_get (la_drivers l) gid = Some c"
    and "sole_pass (driver_pass b (le_connector env) c) g R S D m" and "distinct R" and "distinct S"
    and "la_pipeline_num l = cn_pipeline_num c"
    and "launcher_compute env gid b batch_size inputs in_routes out_routes (w, l) = Inr (res, (w', l'))"
  defines "n \<equiv> nat (actual_pipeline_num (la_pipeline_num l) batch_size)"
  shows "\<exists>es. log w' = log w @ es \<and> (\<forall>r \<in> set R - set S. carried r es = map int [0..<n]) \<and>
    (\<forall>r \<in> set S - set R. carried r es = map int [0..<if la_pipeline_num l \<le> batch_size then n else n - D r])"
proof -
  let ?pn = "cn_pipeline_num c"
  obtain outs where log: "log w' = log w @ pass_events R S D m ?pn outs" and outs: "length outs = n"
    by (rule launcher_compute_events [OF assms(1-3,7)]) (simp add: n_def)
  have "carried r (pass_events R S D m ?pn outs) = map int [0..<if ?pn \<le> batch_size then n else n - D r]"
    if r: "r \<in> set S" "r \<notin> set R" for r
  proof (cases "n = 0")
    case True
    then show ?thesis using outs by (simp add: pass_events_def)
  next
    case False
    then have "int n \<le> ?pn" "int n = ?pn \<longleftrightarrow> ?pn \<le> batch_size"
      unfolding n_def assms(6) by (auto simp: actual_pipeline_num_def split: if_splits)
    moreover have "D r \<le> m" using assms(3) r by (simp add: sole_pass_def)
    ultimately show ?thesis using carried_pass [where D = D, OF assms(5,4) r(2,1), of m outs ?pn] outs by simp
  qed
  then show ?thesis using log outs carried_recvs [OF assms(5,4)] assms(6) by auto
qed

end
