(* ===== verification/Pipeline_Deadlock.thy ===== *)
theory Pipeline_Deadlock
  imports Pipeline_Schedule Redist_P2P
begin

text \<open>
  The ranks of a deployed pipeline run a pass together: every transfer over a route needs all ranks of both
  subgraphs, each in the order of its own schedule. What a rank communicates after \<open>connector_deploy\<close> is its
  schedule, and the ranks never wait for each other for ever.
\<close>

section \<open>The order of the routes\<close>

definition delay_of :: "(string, int) umap \<Rightarrow> RouteDP \<Rightarrow> nat" where
  "delay_of order r = (case getDelay r order of Inl _ \<Rightarrow> 0 | Inr d \<Rightarrow> nat d)"

text \<open>Routes go from a subgraph to a later one.\<close>

definition routes_forward :: "(string, int) umap \<Rightarrow> RouteDP list \<Rightarrow> bool" where
  "routes_forward order routes \<longleftrightarrow> (\<forall>r \<in> set routes.
     um_contains order (r_source_graph r) \<and> um_contains order (r_dest_graph r) \<and> um_ref 0 order (r_source_graph r) < um_ref 0 order (r_dest_graph r))"

lemma routes_forward_mono: "routes_forward order routes \<Longrightarrow> set routes' \<subseteq> set routes \<Longrightarrow> routes_forward order routes'"
  by (auto simp: routes_forward_def)

lemma forward_delay:
  assumes "routes_forward order routes" and "r \<in> set routes"
  shows "getDelay r order = Inr (int (delay_of order r))"
    and "int (delay_of order r) = um_ref 0 order (r_dest_graph r) - um_ref 0 order (r_source_graph r) - 1"
proof -
  obtain d s where "um_get order (r_dest_graph r) = Some d" "um_get order (r_source_graph r) = Some s"
    using assms by (fastforce simp: routes_forward_def um_contains_def)
  then have "getDelay r order = Inr (d - s - 1)" "um_ref 0 order (r_dest_graph r) = d" "um_ref 0 order (r_source_graph r) = s"
    by (simp_all add: getDelay_def um_at_def um_ref_def)
  moreover from this have "s < d" using assms by (auto simp: routes_forward_def)
  ultimately show "getDelay r order = Inr (int (delay_of order r))"
    "int (delay_of order r) = um_ref 0 order (r_dest_graph r) - um_ref 0 order (r_source_graph r) - 1"
    by (simp_all add: delay_of_def)
qed

lemma map_sort_key: "map f (sort_key (\<lambda>x. k (f x)) xs) = sort_key k (map f xs)"
proof (induction xs)
  case (Cons x xs)
  have "map f (insort_key (\<lambda>x. k (f x)) x ys) = insort_key k (f x) (map f ys)" for ys
    by (induction ys) simp_all
  with Cons.IH show ?case by simp
qed simp

definition route_key :: "(string, int) umap \<Rightarrow> RouteDP \<Rightarrow> int \<times> string" where
  "route_key order r = (int (delay_of order r), value_name (r_location r))"

lemma sortRoutes_forward:
  assumes "routes_forward order routes"
  shows "sortRoutes routes order = Inr (sort_key (route_key order) routes)"
proof (cases "length routes \<le> 1")
  case True
  then show ?thesis by (cases routes; cases "tl routes") (simp_all add: sortRoutes_def)
next
  case False
  have "rmap (\<lambda>r. rbind (getDelay r order) (\<lambda>d. rbind (rassert (d \<ge> 0)) (\<lambda>_. Inr (d, r)))) rs =
      Inr (map (\<lambda>r. (int (delay_of order r), r)) rs)" if "set rs \<subseteq> set routes" for rs
    using that by (induction rs) (simp_all add: forward_delay(1) [OF assms])
  moreover have "route_key order = (\<lambda>r. (int (delay_of order r), value_name (r_location r)))" by (simp add: fun_eq_iff route_key_def)
  ultimately show ?thesis using False
    by (simp add: sortRoutes_def comp_def flip: map_sort_key [where f = "\<lambda>r. (int (delay_of order r), r)"])
qed

lemma getMaxDelay_bounds:
  assumes "routes_forward order routes"
  obtains m where "getMaxDelay routes order = Inr (int m)" and "\<forall>r \<in> set routes. delay_of order r \<le> m"
proof -
  let ?f = "\<lambda>r max_delay. rbind (rassert (um_contains order (r_source_graph r))) (\<lambda>_.
       rbind (rassert (um_contains order (r_dest_graph r))) (\<lambda>_.
       rbind (getDelay r order) (\<lambda>send_delay. Inr (max max_delay send_delay))))"
  have "\<exists>m'. rfold ?f rs (int m) = Inr (int m') \<and> m \<le> m' \<and> (\<forall>r \<in> set rs. delay_of order r \<le> m')"
    if "set rs \<subseteq> set routes" for rs m
    using that
  proof (induction rs arbitrary: m)
    case (Cons r rs)
    then have "?f r (int m) = Inr (int (max m (delay_of order r)))"
      using assms by (simp add: routes_forward_def forward_delay(1) [OF assms] of_nat_max)
    then show ?case using Cons.IH [of "max m (delay_of order r)"] Cons.prems by fastforce
  qed simp
  from this [of routes 0] that show thesis by (auto simp: getMaxDelay_def)
qed

section \<open>What deployment sets\<close>

definition pass_names :: "bool \<Rightarrow> Deployment \<Rightarrow> string list" where
  "pass_names is_bwd d = (if is_bwd then d_bwd_graph_order d else d_fwd_graph_order d)"

definition pass_routes :: "bool \<Rightarrow> Deployment \<Rightarrow> RouteDP list" where
  "pass_routes is_bwd d = (if is_bwd then d_bwd_routes d else d_fwd_routes d)"

abbreviation pass_order :: "bool \<Rightarrow> Deployment \<Rightarrow> (string, int) umap" where
  "pass_order is_bwd d \<equiv> order_map (pass_names is_bwd d) []"

lemma rfold_filter: "(\<And>x s. \<not> P x \<Longrightarrow> f x s = Inr s) \<Longrightarrow> rfold f xs s = rfold f (filter P xs) s"
proof (induction xs arbitrary: s)
  case (Cons x xs)
  then show ?case by (cases "f x s"; cases "P x") simp_all
qed simp

text \<open>The routes of a subgraph, in the order of their use.\<close>

definition routes_in :: "RouteDP list \<Rightarrow> (string, int) umap \<Rightarrow> string \<Rightarrow> RouteDP list" where
  "routes_in routes order g = sort_key (route_key order) (filterRoutes_by routes g r_dest_graph)"

definition routes_out :: "RouteDP list \<Rightarrow> (string, int) umap \<Rightarrow> string \<Rightarrow> RouteDP list" where
  "routes_out routes order g = sort_key (route_key order) (filterRoutes_by routes g r_source_graph)"

lemma routes_in_set [simp]: "set (routes_in routes order g) = {r \<in> set routes. r_dest_graph r = g}"
  by (auto simp: routes_in_def filterRoutes_by_def)

lemma routes_out_set [simp]: "set (routes_out routes order g) = {r \<in> set routes. r_source_graph r = g}"
  by (auto simp: routes_out_def filterRoutes_by_def)

lemma sorts_forward:
  assumes "routes_forward order routes"
  shows "sortRecvRoutes routes g order = Inr (routes_in routes order g)" and "sortSendRoutes routes g order = Inr (routes_out routes order g)"
  unfolding sortRecvRoutes_def sortSendRoutes_def routes_in_def routes_out_def
  by (rule sortRoutes_forward, rule routes_forward_mono [OF assms], simp add: filterRoutes_by_def)+

lemma rank_routes_sole:
  assumes "filter (um_contains graphs) names = [g]" and "routes_forward order routes"
  shows "rank_routes graphs routes order names (recv, send, inc) =
    Inr (um_set g (routes_in routes order g) recv, um_set g (routes_out routes order g) send, count_edges (routes_in routes order g) inc)"
proof -
  have "um_contains graphs g" using assms(1) by (metis list.set_intros(1) mem_Collect_eq set_filter)
  then show ?thesis unfolding rank_routes_def
    by (subst rfold_filter [where P = "um_contains graphs"]) (auto simp: assms(1) sorts_forward [OF assms(2)])
qed

lemma create_module_connector:
  "create_module env b g (w, c) = Inr (x, (w', c')) \<Longrightarrow> \<exists>cp. c' = c\<lparr>cn_checkpointing := cp\<rparr>"
  by (auto simp: create_module_def rbind_eq_Inr)

text \<open>A rank that holds one subgraph of a pipeline.\<close>

definition sole_graph :: "Deployment \<Rightarrow> int \<Rightarrow> string \<Rightarrow> bool" where
  "sole_graph d rank g \<longleftrightarrow> (\<exists>gr. getGraphsOnRank d rank = Inr [(g, gr)]) \<and>
     (\<forall>b. filter (\<lambda>n. n = g) (pass_names b d) = [g] \<and> routes_forward (pass_order b d) (pass_routes b d))"

lemma deploy_sole_pass:
  assumes sg: "sole_graph d (ce_rank env) g" and run: "connector_deploy env d (w, new_connector i) = Inr (x, (w', c))"
  obtains m where "sole_pass (driver_pass b env c) g (routes_in (pass_routes b d) (pass_order b d) g)
      (routes_out (pass_routes b d) (pass_order b d) g) (delay_of (pass_order b d)) m"
    and "getMaxDelay (pass_routes b d) (pass_order b d) = Inr (int m)" and "cn_pipeline_num c = d_pipeline_num d"
proof -
  obtain gr where gr: "getGraphsOnRank d (ce_rank env) = Inr [(g, gr)]" using sg by (auto simp: sole_graph_def)
  have contains: "um_contains [(g, gr)] = (\<lambda>n. n = g)" by (auto simp: um_contains_def fun_eq_iff)
  have names: "filter (um_contains [(g, gr)]) (pass_names b' d) = [g]" and fwd: "routes_forward (pass_order b' d) (pass_routes b' d)" for b'
    using sg by (simp_all add: sole_graph_def contains)
  note f = names [of False] fwd [of False] and b = names [of True] fwd [of True]
  note rr = f [unfolded pass_names_def pass_routes_def if_False] b [unfolded pass_names_def pass_routes_def if_True]
  obtain c1 w2 c2 y where 1: "sfold (\<lambda>(_, g) _. create_module env (d_checkpointing d) g) [(g, gr)] () (w, c1) = Inr (y, (w2, c2))"
    and c1: "c1 = (new_connector i)\<lparr>cn_graphs := [(g, gr)], cn_fwd_sorted := [g], cn_bwd_sorted := [g],
        cn_fwd_order := pass_order False d, cn_bwd_order := pass_order True d,
        cn_fwd_recv := [(g, routes_in (d_fwd_routes d) (pass_order False d) g)], cn_fwd_send := [(g, routes_out (d_fwd_routes d) (pass_order False d) g)],
        cn_fwd_inc := count_edges (routes_in (d_fwd_routes d) (pass_order False d) g) [],
        cn_bwd_recv := [(g, routes_in (d_bwd_routes d) (pass_order True d) g)], cn_bwd_send := [(g, routes_out (d_bwd_routes d) (pass_order True d) g)],
        cn_bwd_inc := count_edges (routes_in (d_bwd_routes d) (pass_order True d) g) []\<rparr>"
    and c: "\<exists>mf mb. getMaxDelay (d_fwd_routes d) (pass_order False d) = Inr mf \<and> getMaxDelay (d_bwd_routes d) (pass_order True d) = Inr mb \<and>
        c = c2\<lparr>cn_pipeline_num := d_pipeline_num d, cn_max_fwd_delay := mf, cn_max_bwd_delay := mb\<rparr>"
    using run by (auto simp: connector_deploy_def gr rbind_eq_Inr Let_def new_connector_def rr rank_routes_sole pass_names_def)
  obtain cp where c2: "c2 = c1\<lparr>cn_checkpointing := cp\<rparr>"
    using 1 by (auto simp: sbind_Inr sret_Inr dest!: create_module_connector)
  obtain m where m: "getMaxDelay (pass_routes b d) (pass_order b d) = Inr (int m)"
    "\<forall>r \<in> set (pass_routes b d). delay_of (pass_order b d) r \<le> m" by (rule getMaxDelay_bounds [OF fwd])
  have "sole_pass (driver_pass b env c) g (routes_in (pass_routes b d) (pass_order b d) g)
      (routes_out (pass_routes b d) (pass_order b d) g) (delay_of (pass_order b d)) m"
    using c m forward_delay(1) [OF fwd [of b]]
    by (cases b) (auto simp: sole_pass_def driver_pass_def fwd_pass_def bwd_pass_def c2 c1 pass_routes_def)
  then show thesis using that m(1) c by auto
qed

section \<open>The schedule of a rank\<close>

type_synonym transfer = "RouteDP \<times> nat"

text \<open>A step receives a microbatch, and sends what is then due of the \<open>n\<close> microbatches.\<close>

definition schedule_step :: "(string, int) umap \<Rightarrow> RouteDP list \<Rightarrow> string \<Rightarrow> nat \<Rightarrow> nat \<Rightarrow> transfer list" where
  "schedule_step order routes g n i =
     (if i < n then map (\<lambda>r. (r, i)) (routes_in routes order g) else []) @
     concat (map (\<lambda>r. if delay_of order r \<le> i \<and> i - delay_of order r < n then [(r, i - delay_of order r)] else []) (routes_out routes order g))"

definition rank_schedule :: "(string, int) umap \<Rightarrow> RouteDP list \<Rightarrow> string \<Rightarrow> nat \<Rightarrow> nat \<Rightarrow> transfer list" where
  "rank_schedule order routes g n m = concat (map (schedule_step order routes g n) [0..<n + m])"

definition transfers :: "'v comm_event list \<Rightarrow> transfer list" where
  "transfers es = map (\<lambda>(r, t, _). (r, nat t)) es"

lemma transfers_simps [simp]:
  "transfers [] = []" "transfers (es @ es') = transfers es @ transfers es'"
  by (simp_all add: transfers_def)

lemma transfers_map: "transfers (concat (map f xs)) = concat (map (\<lambda>x. transfers (f x)) xs)"
  by (induction xs) simp_all

lemma transfers_sent: "transfers (sent_at D val (int k) r) = (if D r \<le> k then [(r, k - D r)] else [])"
  by (simp add: sent_at_def transfers_def nat_diff_distrib)

lemma transfers_sends:
  "k < n \<Longrightarrow> transfers (concat (map (sent_at (delay_of order) val (int k)) (routes_out routes order g))) =
    concat (map (\<lambda>r. if delay_of order r \<le> k \<and> k - delay_of order r < n then [(r, k - delay_of order r)] else []) (routes_out routes order g))"
  unfolding transfers_map by (intro arg_cong [where f = concat] map_cong) (auto simp: transfers_sent)

lemma transfers_flushed:
  "transfers (flushed (delay_of order) m val (int k) (routes_out routes order g)) =
    concat (map (schedule_step order routes g (Suc k)) [Suc k..<Suc k + m])"
proof -
  have step: "transfers (concat (map (\<lambda>r. if int j \<le> int (delay_of order r) then sent_at (delay_of order) val (int k + int j) r else [])
      (routes_out routes order g))) = schedule_step order routes g (Suc k) (k + j)" if "1 \<le> j" for j
  proof -
    have 1: "\<not> k + j < Suc k" using that by simp
    have "transfers (if int j \<le> int (delay_of order r) then sent_at (delay_of order) val (int k + int j) r else []) =
        (if delay_of order r \<le> k + j \<and> k + j - delay_of order r < Suc k then [(r, k + j - delay_of order r)] else [])" for r
      using transfers_sent [of "delay_of order" val "k + j" r] by auto
    then show ?thesis unfolding schedule_step_def transfers_map if_not_P [OF 1] by simp
  qed
  have "[Suc k..<Suc k + m] = map (\<lambda>j. k + j) [1..<Suc m]"
    by (induction m) simp_all
  moreover have "concat (map (\<lambda>j. transfers (concat (map (\<lambda>r. if int j \<le> int (delay_of order r) then sent_at (delay_of order) val (int k + int j) r else [])
      (routes_out routes order g)))) [1..<Suc m]) = concat (map (\<lambda>j. schedule_step order routes g (Suc k) (k + j)) [1..<Suc m])"
    by (intro arg_cong [where f = concat] map_cong refl step) auto
  ultimately show ?thesis unfolding flushed_def map_map by (subst transfers_map) (simp only: comp_def map_map)
qed

lemma transfers_pass:
  assumes "length outs = n"
  shows "transfers (pass_events (routes_in routes order g) (routes_out routes order g) (delay_of order) m (int n) outs) = rank_schedule order routes g n m"
proof (cases n)
  case 0
  have "schedule_step order routes g 0 i = []" for i by (simp add: schedule_step_def)
  then show ?thesis using 0 assms by (simp add: pass_events_def rank_schedule_def)
next
  case (Suc k)
  let ?ev = "\<lambda>i. microbatch_events (routes_in routes order g) (routes_out routes order g) (delay_of order) m (\<lambda>t. outs ! nat t) (int i + 1 = int n) (int i)"
  let ?st = "schedule_step order routes g n"
  have recv: "transfers (map (\<lambda>r. (r, int i, None)) rs) = map (\<lambda>r. (r, i)) rs" for i rs by (simp add: transfers_def)
  have lt: "transfers (?ev i) = ?st i" if "i < k" for i
    using that by (simp add: microbatch_events_def recv transfers_sends [of i n] schedule_step_def Suc)
  have "concat (map (\<lambda>i. transfers (?ev i)) [0..<k]) = concat (map ?st [0..<k])"
    by (intro arg_cong [where f = concat] map_cong refl lt) simp
  moreover have "transfers (?ev k) = ?st k @ concat (map ?st [n..<n + m])"
    by (simp add: microbatch_events_def recv transfers_sends [of k n] schedule_step_def [of _ _ _ _ k] Suc transfers_flushed)
  ultimately have "concat (map (\<lambda>i. transfers (?ev i)) [0..<n]) = concat (map ?st [0..<k]) @ ?st k @ concat (map ?st [n..<n + m])"
    by (simp add: Suc del: upt_Suc add: upt_Suc_append)
  moreover have "[0..<n + m] = [0..<k] @ k # [n..<n + m]" using upt_split [of n "n + m"] by (simp add: Suc)
  ultimately show ?thesis unfolding pass_events_def rank_schedule_def assms by (subst transfers_map) simp
qed

lemma sole_apart: "sole_graph d rank g \<Longrightarrow> r \<in> set (pass_routes b d) \<Longrightarrow> r_source_graph r \<noteq> r_dest_graph r"
  by (force simp: sole_graph_def routes_forward_def)

lemma sent_at_values: "(r, t, v) \<in> set (sent_at D val k r') \<Longrightarrow> v = route_value (val t) r"
  by (auto simp: sent_at_def split: if_splits)

lemma microbatch_values:
  "\<forall>r \<in> set R. r_source_graph r \<noteq> g \<Longrightarrow> (r, t, v) \<in> set (microbatch_events R S D m val fl k) \<Longrightarrow> r_source_graph r = g \<Longrightarrow> v = route_value (val t) r"
  by (auto simp: microbatch_events_def flushed_def dest: sent_at_values split: if_splits)

lemma pass_events_values:
  "\<forall>r \<in> set R. r_source_graph r \<noteq> g \<Longrightarrow> \<forall>(r, t, v) \<in> set (pass_events R S D m pn outs). r_source_graph r = g \<longrightarrow> v = route_value (outs ! nat t) r"
  unfolding pass_events_def by (auto dest: microbatch_values)

text \<open>C6. A rank that was deployed with one subgraph of a pipeline communicates, in a forward or a backward pass over all
  microbatches, exactly its schedule: for each microbatch in turn it receives from every route into the subgraph and sends on every
  route out of it the microbatch that is late by the delay of the route, and after the last one it sends what is still due, the routes in the order of
  their delays. What a late transfer carries is the value that the run of its own microbatch returned.\<close>

theorem deployed_rank_follows_schedule:
  assumes "observes env log cur" and "sole_graph d (le_rank env) g"
    and "connector_deploy (le_connector env) d (w0, new_connector i) = Inr ((), (w1, c))"
    and "um_get (la_drivers l) gid = Some c"
    and "smap (run_split env gid b sizes locals ins) [0..<nat (d_pipeline_num d)] (w, l) = Inr (outs, (w', l'))"
  shows "\<exists>es. log w' = log w @ es \<and>
    (\<exists>m. getMaxDelay (pass_routes b d) (pass_order b d) = Inr (int m) \<and>
       transfers es = rank_schedule (pass_order b d) (pass_routes b d) g (nat (d_pipeline_num d)) m) \<and>
    (\<forall>(r, t, v) \<in> set es. r_source_graph r = g \<longrightarrow> v = route_value (outs ! nat t) r)"
proof -
  let ?n = "nat (d_pipeline_num d)" and ?R = "routes_in (pass_routes b d) (pass_order b d) g" and ?S = "routes_out (pass_routes b d) (pass_order b d) g"
  obtain m where sp: "sole_pass (driver_pass b (le_connector env) c) g ?R ?S (delay_of (pass_order b d)) m"
    and m: "getMaxDelay (pass_routes b d) (pass_order b d) = Inr (int m)" and pn: "cn_pipeline_num c = d_pipeline_num d"
    by (rule deploy_sole_pass [OF assms(2,3)])
  have outs: "length outs = ?n" using smap_length [OF assms(5)] by simp
  let ?es = "pass_events ?R ?S (delay_of (pass_order b d)) m (int ?n) outs"
  have "pass_events ?R ?S (delay_of (pass_order b d)) m (d_pipeline_num d) outs = ?es"
    using outs by (cases "0 \<le> d_pipeline_num d") (simp_all add: pass_events_def)
  then have "log w' = log w @ ?es" using pass_schedule [OF assms(1,4) sp assms(5)] pn by simp
  moreover have "\<forall>r \<in> set ?R. r_source_graph r \<noteq> g"
    using sole_apart [OF assms(2)] by auto
  then have "\<forall>(r, t, v) \<in> set ?es. r_source_graph r = g \<longrightarrow> v = route_value (outs ! nat t) r" by (rule pass_events_values)
  ultimately show ?thesis using transfers_pass [OF outs, of "pass_routes b d" "pass_order b d" g m] m by blast
qed

text \<open>The transfers of one rank in a pass of the launcher, route by route.\<close>

lemma launcher_traffic:
  assumes "observes env log cur" and "sole_graph d (le_rank env) g" and "distinct (pass_routes b d)"
    and "connector_deploy (le_connector env) d (w0, new_connector i) = Inr ((), (w1, c))"
    and "um_get (la_drivers l) gid = Some c" and "la_pipeline_num l = d_pipeline_num d"
    and "launcher_compute env gid b batch_size inputs in_routes out_routes (w, l) = Inr (res, (w', l'))"
  defines "n \<equiv> nat (actual_pipeline_num (d_pipeline_num d) batch_size)"
  shows "\<exists>es. log w' = log w @ es \<and> (\<forall>r \<in> set (pass_routes b d).
    (r_dest_graph r = g \<longrightarrow> carried r es = map int [0..<n]) \<and>
    (r_source_graph r = g \<longrightarrow> carried r es = map int [0..<if d_pipeline_num d \<le> batch_size then n else n - delay_of (pass_order b d) r]))"
proof -
  let ?R = "routes_in (pass_routes b d) (pass_order b d) g" and ?S = "routes_out (pass_routes b d) (pass_order b d) g"
  obtain m where sp: "sole_pass (driver_pass b (le_connector env) c) g ?R ?S (delay_of (pass_order b d)) m"
    and pn: "cn_pipeline_num c = d_pipeline_num d"
    by (rule deploy_sole_pass [OF assms(2,4)])
  have dist: "distinct ?R" "distinct ?S" using assms(3) by (simp_all add: routes_in_def routes_out_def filterRoutes_by_def)
  obtain es where es: "log w' = log w @ es" "\<forall>r \<in> set ?R - set ?S. carried r es = map int [0..<n]"
    "\<forall>r \<in> set ?S - set ?R. carried r es = map int [0..<if d_pipeline_num d \<le> batch_size then n else n - delay_of (pass_order b d) r]"
    using compute_traffic [OF assms(1,5) sp dist _ assms(7)] assms(6) pn unfolding n_def by auto
  show ?thesis
  proof (intro exI [of _ es] conjI ballI impI)
    fix r assume "r \<in> set (pass_routes b d)"
    note r = this sole_apart [OF assms(2) this]
    show "carried r es = map int [0..<n]" if "r_dest_graph r = g" using es(2) r that by auto
    show "carried r es = map int [0..<if d_pipeline_num d \<le> batch_size then n else n - delay_of (pass_order b d) r]" if "r_source_graph r = g"
      using es(3) r that by auto
  qed (rule es(1))
qed

text \<open>C8. In a pass of the launcher every route into the subgraph of this rank delivers each microbatch once, in order. So does every
  route out of it when the batch is large enough for all microbatches of the pipeline; otherwise the last ones, as many as the
  delay of the route, are never sent although the rank at the other end waits for them.\<close>

theorem route_traffic:
  assumes "observes env log cur" and "sole_graph d (le_rank env) g" and "distinct (pass_routes b d)"
    and "connector_deploy (le_connector env) d (w0, new_connector i) = Inr ((), (w1, c))"
    and "um_get (la_drivers l) gid = Some c" and "la_pipeline_num l = d_pipeline_num d"
    and "launcher_compute env gid b batch_size inputs in_routes out_routes (w, l) = Inr (res, (w', l'))"
  defines "n \<equiv> nat (actual_pipeline_num (d_pipeline_num d) batch_size)"
  shows "\<exists>es. log w' = log w @ es \<and> (\<forall>r \<in> set (pass_routes b d).
    (r_dest_graph r = g \<longrightarrow> carried r es = map int [0..<n]) \<and>
    (r_source_graph r = g \<longrightarrow> carried r es = map int [0..<if d_pipeline_num d \<le> batch_size then n else n - delay_of (pass_order b d) r]))"
  unfolding n_def by (rule launcher_traffic [OF assms(1-7)])

section \<open>The ranks together\<close>

text \<open>A transfer takes place when it is the next one of all the ranks of its route.\<close>

inductive rendezvous :: "(int \<Rightarrow> transfer list) \<Rightarrow> (int \<Rightarrow> transfer list) \<Rightarrow> bool" where
  meet: "getRanksInRoute (fst e) \<noteq> {} \<Longrightarrow> (\<And>k. k \<in> getRanksInRoute (fst e) \<Longrightarrow> s k = e # rest k) \<Longrightarrow>
    rendezvous s (\<lambda>k. if k \<in> getRanksInRoute (fst e) then rest k else s k)"

interpretation pipe: event_order "\<lambda>e :: transfer. getRanksInRoute (fst e)" "\<lambda>_ e. e" "\<lambda>_ e. getRanksInRoute (fst e)"
  by unfold_locales simp

text \<open>A pipeline of subgraphs over the ranks \<open>K\<close>: the subgraphs have different places in the order, a route is known by its
  ends and the name of its value, and takes all ranks of both ends.\<close>

definition pipeline_ok :: "(string, int) umap \<Rightarrow> RouteDP list \<Rightarrow> int set \<Rightarrow> (int \<Rightarrow> string) \<Rightarrow> bool" where
  "pipeline_ok order routes K holds \<longleftrightarrow> distinct routes \<and> routes_forward order routes \<and> inj_on (um_ref 0 order) (holds ` K) \<and>
     inj_on (\<lambda>r. (r_source_graph r, r_dest_graph r, value_name (r_location r))) (set routes) \<and>
     (\<forall>r \<in> set routes. set (r_sources r) = {k \<in> K. holds k = r_source_graph r} \<and> r_sources r \<noteq> [] \<and>
        set (r_dests r) = {k \<in> K. holds k = r_dest_graph r} \<and> r_dests r \<noteq> [])"

text \<open>The place of a transfer in the order that all ranks follow.\<close>

definition transfer_key :: "(string, int) umap \<Rightarrow> transfer \<Rightarrow> int \<times> int \<times> int \<times> string" where
  "transfer_key order = (\<lambda>(r, t). (int t + um_ref 0 order (r_dest_graph r), - um_ref 0 order (r_source_graph r),
     um_ref 0 order (r_dest_graph r), value_name (r_location r)))"

definition all_transfers :: "(string, int) umap \<Rightarrow> RouteDP list \<Rightarrow> nat \<Rightarrow> transfer list" where
  "all_transfers order routes n = sort_key (transfer_key order) (List.product routes [0..<n])"

lemma strict_sort_key:
  assumes "distinct xs" and "inj_on k (set xs)"
  shows "sorted_wrt (\<lambda>x y. k x < k y) (sort_key k xs)"
proof -
  have "sorted_wrt (<) (map k (sort_key k xs))"
    using assms by (simp add: strict_sorted_iff distinct_map)
  then show ?thesis by (simp add: sorted_wrt_map)
qed

lemma strict_sorted_unique:
  fixes k :: "'a \<Rightarrow> 'b :: linorder"
  assumes "sorted_wrt (\<lambda>x y. k x < k y) xs" "sorted_wrt (\<lambda>x y. k x < k y) ys" "set xs = set ys"
  shows "xs = ys"
proof -
  have s: "sorted_wrt (<) (map k xs)" "sorted_wrt (<) (map k ys)" using assms(1,2) by (simp_all add: sorted_wrt_map)
  then have "map k xs = map k ys" using assms(3) by (intro sorted_distinct_set_unique) (auto simp: strict_sorted_iff)
  moreover have "inj_on k (set xs)" using s(1) by (simp add: strict_sorted_iff distinct_map)
  ultimately show ?thesis using assms(3) by (simp add: inj_on_map_eq_map)
qed

lemma sorted_wrt_steps:
  assumes "\<And>i. i < N \<Longrightarrow> sorted_wrt P (f i)" and "\<And>i j x y. i < j \<Longrightarrow> j < N \<Longrightarrow> x \<in> set (f i) \<Longrightarrow> y \<in> set (f j) \<Longrightarrow> P x y"
  shows "sorted_wrt P (concat (map f [0..<N]))"
  using assms
proof (induction N)
  case (Suc N)
  then show ?case by (fastforce simp: sorted_wrt_append)
qed simp

lemma in_schedule_step:
  "(r, t) \<in> set (schedule_step order routes g n i) \<longleftrightarrow> r \<in> set routes \<and> t < n \<and>
     (r_dest_graph r = g \<and> t = i \<or> r_source_graph r = g \<and> t + delay_of order r = i)"
  by (auto simp: schedule_step_def split: if_splits)

lemma in_rank_schedule:
  assumes "\<forall>r \<in> set routes. delay_of order r \<le> m"
  shows "(r, t) \<in> set (rank_schedule order routes g n m) \<longleftrightarrow> r \<in> set routes \<and> t < n \<and> (r_dest_graph r = g \<or> r_source_graph r = g)"
proof -
  have "(r, t) \<in> set (rank_schedule order routes g n m) \<longleftrightarrow> (\<exists>i < n + m. (r, t) \<in> set (schedule_step order routes g n i))"
    by (auto simp: rank_schedule_def)
  also have "\<dots> \<longleftrightarrow> r \<in> set routes \<and> t < n \<and> (r_dest_graph r = g \<or> r_source_graph r = g)"
    unfolding in_schedule_step using assms by (auto intro: exI [of _ t] exI [of _ "t + delay_of order r"] simp: add_less_le_mono)
  finally show ?thesis .
qed

lemma route_ends:
  assumes "pipeline_ok order routes K holds" and "r \<in> set routes"
  shows "getRanksInRoute r = {k \<in> K. holds k = r_source_graph r \<or> holds k = r_dest_graph r}"
    and "getRanksInRoute r \<noteq> {}" and "r_source_graph r \<in> holds ` K" and "r_dest_graph r \<in> holds ` K"
proof -
  have "set (r_sources r) = {k \<in> K. holds k = r_source_graph r}" "set (r_dests r) = {k \<in> K. holds k = r_dest_graph r}"
    and ne: "r_sources r \<noteq> []" "r_dests r \<noteq> []"
    using assms by (simp_all add: pipeline_ok_def)
  then show "getRanksInRoute r = {k \<in> K. holds k = r_source_graph r \<or> holds k = r_dest_graph r}"
    by (auto simp: getRanksInRoute_def)
  show "getRanksInRoute r \<noteq> {}" using ne(1) by (simp add: getRanksInRoute_def)
  have "hd (r_sources r) \<in> {k \<in> K. holds k = r_source_graph r}" "hd (r_dests r) \<in> {k \<in> K. holds k = r_dest_graph r}"
    using ne \<open>set (r_sources r) = _\<close> \<open>set (r_dests r) = _\<close> hd_in_set by blast+
  then show "r_source_graph r \<in> holds ` K" "r_dest_graph r \<in> holds ` K" by force+
qed

lemma same_route:
  assumes ok: "pipeline_ok order routes K holds" and r: "r \<in> set routes" "r' \<in> set routes"
    and "um_ref 0 order (r_source_graph r) = um_ref 0 order (r_source_graph r')" "um_ref 0 order (r_dest_graph r) = um_ref 0 order (r_dest_graph r')"
    and "value_name (r_location r) = value_name (r_location r')"
  shows "r = r'"
proof -
  have "inj_on (um_ref 0 order) (holds ` K)" using ok by (simp add: pipeline_ok_def)
  then have "r_source_graph r = r_source_graph r'" "r_dest_graph r = r_dest_graph r'"
    using assms(4,5) route_ends(3,4) [OF ok] r by (simp_all add: inj_on_eq_iff)
  moreover have "inj_on (\<lambda>r. (r_source_graph r, r_dest_graph r, value_name (r_location r))) (set routes)" using ok by (simp add: pipeline_ok_def)
  ultimately show ?thesis using assms(6) r by (auto dest: inj_onD)
qed

lemma transfer_key_inj: "pipeline_ok order routes K holds \<Longrightarrow> inj_on (transfer_key order) {e. fst e \<in> set routes}"
  by (rule inj_onI) (auto simp: transfer_key_def intro: same_route)

lemma step_strict:
  assumes ok: "pipeline_ok order routes K holds"
  shows "sorted_wrt (\<lambda>x y. transfer_key order x < transfer_key order y) (schedule_step order routes g n i)"
proof -
  have dist: "distinct routes" and fwd: "routes_forward order routes" using ok by (simp_all add: pipeline_ok_def)
  note d = forward_delay(2) [OF fwd]
  have lt: "um_ref 0 order (r_source_graph r) < um_ref 0 order (r_dest_graph r)" if "r \<in> set routes" for r
    using fwd that by (simp add: routes_forward_def)
  let ?in = "routes_in routes order g" and ?out = "routes_out routes order g"
  have "sorted_wrt (\<lambda>x y. route_key order x < route_key order y) ?in" unfolding routes_in_def
    by (rule strict_sort_key) (use dist d in \<open>auto simp: filterRoutes_by_def route_key_def intro!: inj_onI intro: same_route [OF ok]\<close>)
  then have 1: "sorted_wrt (\<lambda>x y. transfer_key order x < transfer_key order y) (map (\<lambda>r. (r, i)) ?in)"
    unfolding sorted_wrt_map by (rule sorted_wrt_mono_rel [rotated]) (use d in \<open>auto simp: transfer_key_def route_key_def\<close>)
  have "sorted_wrt (\<lambda>x y. route_key order x < route_key order y) ?out" unfolding routes_out_def
    by (rule strict_sort_key) (use dist d in \<open>auto simp: filterRoutes_by_def route_key_def intro!: inj_onI intro: same_route [OF ok]\<close>)
  then have out: "sorted_wrt (\<lambda>x y. route_key order x < route_key order y) (filter P ?out)" for P
    by (rule sorted_wrt_filter)
  have 2: "sorted_wrt (\<lambda>x y. transfer_key order x < transfer_key order y)
      (map (\<lambda>r. (r, i - delay_of order r)) (filter (\<lambda>r. delay_of order r \<le> i \<and> i - delay_of order r < n) ?out))"
    unfolding sorted_wrt_map
    by (rule sorted_wrt_mono_rel [OF _ out]) (use d in \<open>auto simp: transfer_key_def route_key_def of_nat_diff\<close>)
  have "concat (map (\<lambda>r. if P r then [f r] else []) rs) = map f (filter P rs)" for P f and rs :: "RouteDP list"
    by (induction rs) simp_all
  then have step: "schedule_step order routes g n i = (if i < n then map (\<lambda>r. (r, i)) ?in else []) @
      map (\<lambda>r. (r, i - delay_of order r)) (filter (\<lambda>r. delay_of order r \<le> i \<and> i - delay_of order r < n) ?out)"
    by (simp add: schedule_step_def)
  have "transfer_key order (r, i) < transfer_key order (r', i - delay_of order r')"
    if "r \<in> set ?in" "r' \<in> set ?out" "delay_of order r' \<le> i" for r r'
    using that d [of r'] by (simp add: transfer_key_def of_nat_diff)
  then show ?thesis unfolding step using 1 2 by (auto simp: sorted_wrt_append)
qed

lemma schedule_strict:
  assumes ok: "pipeline_ok order routes K holds"
  shows "sorted_wrt (\<lambda>x y. transfer_key order x < transfer_key order y) (rank_schedule order routes g n m)"
  unfolding rank_schedule_def
proof (rule sorted_wrt_steps [OF step_strict [OF ok]])
  fix i j x y
  assume "i < j" and x: "x \<in> set (schedule_step order routes g n i)" and y: "y \<in> set (schedule_step order routes g n j)"
  have fwd: "routes_forward order routes" using ok by (simp add: pipeline_ok_def)
  note d = forward_delay(2) [OF fwd]
  have lt: "um_ref 0 order (r_source_graph r) < um_ref 0 order (r_dest_graph r)" if "r \<in> set routes" for r
    using fwd that by (simp add: routes_forward_def)
  obtain r t r' t' where xy: "x = (r, t)" "y = (r', t')" by (cases x; cases y)
  have "r \<in> set routes" "r' \<in> set routes" using x y by (simp_all add: xy in_schedule_step)
  with x y \<open>i < j\<close> d [of r] d [of r'] lt [of r] lt [of r'] show "transfer_key order x < transfer_key order y"
    by (auto simp: xy in_schedule_step transfer_key_def)
qed

lemma schedule_is_projection:
  assumes ok: "pipeline_ok order routes K holds" and m: "\<forall>r \<in> set routes. delay_of order r \<le> m" and k: "k \<in> K"
  shows "rank_schedule order routes (holds k) n m = pipe.proj k (all_transfers order routes n)"
proof -
  have "distinct routes" using ok by (simp add: pipeline_ok_def)
  then have "sorted_wrt (\<lambda>x y. transfer_key order x < transfer_key order y) (all_transfers order routes n)"
    unfolding all_transfers_def
    by (intro strict_sort_key) (auto simp: distinct_product intro: inj_on_subset [OF transfer_key_inj [OF ok]])
  then have "sorted_wrt (\<lambda>x y. transfer_key order x < transfer_key order y) (pipe.proj k (all_transfers order routes n))"
    unfolding pipe.proj_def by (simp add: sorted_wrt_filter)
  moreover have "set (rank_schedule order routes (holds k) n m) = set (pipe.proj k (all_transfers order routes n))"
    using k route_ends(1) [OF ok] by (auto simp: pipe.proj_def all_transfers_def in_rank_schedule [OF m])
  ultimately show ?thesis using schedule_strict [OF ok] by (intro strict_sorted_unique)
qed

section \<open>No deadlock\<close>

definition schedules :: "(string, int) umap \<Rightarrow> RouteDP list \<Rightarrow> int set \<Rightarrow> (int \<Rightarrow> string) \<Rightarrow> nat \<Rightarrow> nat \<Rightarrow> int \<Rightarrow> transfer list" where
  "schedules order routes K holds n m k = (if k \<in> K then rank_schedule order routes (holds k) n m else [])"

lemma rendezvous_projection:
  assumes s: "\<forall>k. s k = pipe.proj k es" and step: "rendezvous s t"
  shows "\<exists>es'. (\<forall>k. t k = pipe.proj k es') \<and> length es = Suc (length es') \<and> set es' \<subseteq> set es"
  using step
proof (cases rule: rendezvous.cases)
  case (meet e rest)
  obtain es1 e' es2 where es: "es = es1 @ e' # es2" "getRanksInRoute (fst e') = getRanksInRoute (fst e)"
    "\<And>k. k \<in> getRanksInRoute (fst e) \<Longrightarrow> rest k = pipe.proj k (es1 @ es2)"
    "\<And>k. k \<notin> getRanksInRoute (fst e) \<Longrightarrow> pipe.proj k (es1 @ es2) = pipe.proj k es"
    by (rule pipe.taken [OF meet(2), of es "\<lambda>_. e" rest]) (use meet(3) s in auto)
  have "t k = pipe.proj k (es1 @ es2)" for k
    using es(3) [of k] es(4) [of k] s meet(1) by (cases "k \<in> getRanksInRoute (fst e)") simp_all
  then show ?thesis using es(1) by (intro exI [of _ "es1 @ es2"]) auto
qed

text \<open>C7. The ranks of a pipeline never wait for each other for ever: whatever transfers have taken place, in any order the ranks
  allow, another one is possible until each route has moved every microbatch, and then every rank is done.\<close>

theorem pipeline_no_deadlock:
  assumes "pipeline_ok order routes K holds" and "\<forall>r \<in> set routes. delay_of order r \<le> m"
    and "(rendezvous ^^ j) (schedules order routes K holds n m) s"
  shows "j \<le> n * length routes \<and> (if j < n * length routes then \<exists>t. rendezvous s t else \<forall>k. s k = [])"
proof -
  let ?all = "all_transfers order routes n"
  have len: "length ?all = n * length routes" by (simp add: all_transfers_def)
  have parties: "k \<in> K" if "e \<in> set ?all" "k \<in> getRanksInRoute (fst e)" for e k
    using that route_ends(1) [OF assms(1)] by (auto simp: all_transfers_def)
  have "\<exists>es. (\<forall>k. s k = pipe.proj k es) \<and> j + length es = length ?all \<and> set es \<subseteq> set ?all"
    using assms(3)
  proof (induction j arbitrary: s)
    case 0
    have "pipe.proj k ?all = []" if "k \<notin> K" for k using that parties by (intro pipe.proj_irrelevant) blast
    then show ?case using 0 schedule_is_projection [OF assms(1,2)] by (intro exI [of _ ?all]) (auto simp: schedules_def)
  next
    case (Suc j)
    then obtain u where "(rendezvous ^^ j) (schedules order routes K holds n m) u" and step: "rendezvous u s" by auto
    with Suc.IH obtain es where "\<forall>k. u k = pipe.proj k es" "j + length es = length ?all" "set es \<subseteq> set ?all" by blast
    with rendezvous_projection [OF _ step] show ?case by fastforce
  qed
  then obtain es where es: "\<forall>k. s k = pipe.proj k es" "j + length es = length ?all" "set es \<subseteq> set ?all" by blast
  show ?thesis
  proof (cases es)
    case Nil
    then show ?thesis using es by (simp add: len)
  next
    case (Cons e es')
    then have "fst e \<in> set routes" using es(3) by (auto simp: all_transfers_def)
    then have "rendezvous s (\<lambda>k. if k \<in> getRanksInRoute (fst e) then pipe.proj k es' else s k)"
      using route_ends(2) [OF assms(1)] es(1) Cons by (intro rendezvous.meet) simp_all
    then show ?thesis using es(2) Cons by (auto simp: len)
  qed
qed

section \<open>A batch that is too small\<close>

lemma length_carried: "length (carried r es) = length (filter (\<lambda>e. fst e = r) (transfers es))"
  by (induction es) (auto simp: transfers_def)

text \<open>Two ranks of a route execute its transfers together, so that none of them gets ahead.\<close>

lemma rendezvous_balance:
  assumes "k \<in> getRanksInRoute r" "k' \<in> getRanksInRoute r" and "rendezvous\<^sup>*\<^sup>* s t"
  shows "length (filter (\<lambda>e. fst e = r) (t k)) + length (filter (\<lambda>e. fst e = r) (s k')) =
    length (filter (\<lambda>e. fst e = r) (t k')) + length (filter (\<lambda>e. fst e = r) (s k))"
  using assms(3)
proof (induction rule: rtranclp_induct)
  case (step t u)
  from step.hyps(2) show ?case
  proof (cases rule: rendezvous.cases)
    case (meet e rest)
    then show ?thesis using step.IH assms(1,2) meet(3) [of k] meet(3) [of k'] by (cases "fst e = r") auto
  qed
qed simp

text \<open>A rank that was deployed with the subgraph \<open>g\<close> runs a pass of its launcher, which communicates \<open>es\<close>.\<close>

definition launcher_pass ::
    "('w \<Rightarrow> 'v comm_event list) \<Rightarrow> ('w \<Rightarrow> int) \<Rightarrow> Deployment \<Rightarrow> bool \<Rightarrow> int \<Rightarrow> string \<Rightarrow> ('w, 'v, 'g) launcher_env \<Rightarrow> 'v comm_event list \<Rightarrow> bool" where
  "launcher_pass log cur d b batch_size g env es \<longleftrightarrow> observes env log cur \<and> sole_graph d (le_rank env) g \<and>
     (\<exists>w0 i w1 c l gid inputs in_routes out_routes w res w' l'.
        connector_deploy (le_connector env) d (w0, new_connector i) = Inr ((), (w1, c)) \<and>
        um_get (la_drivers l) gid = Some c \<and> la_pipeline_num l = d_pipeline_num d \<and>
        launcher_compute env gid b batch_size inputs in_routes out_routes (w, l) = Inr (res, (w', l')) \<and> log w' = log w @ es)"

lemma launcher_pass_traffic:
  assumes "launcher_pass log cur d b batch_size g env es" "distinct (pass_routes b d)" "r \<in> set (pass_routes b d)"
    and "batch_size < d_pipeline_num d"
  shows "r_dest_graph r = g \<Longrightarrow> length (carried r es) = nat batch_size"
    and "r_source_graph r = g \<Longrightarrow> length (carried r es) = nat batch_size - delay_of (pass_order b d) r"
proof -
  obtain w0 i w1 c l gid inputs in_routes out_routes w res w' l' where p: "observes env log cur" "sole_graph d (le_rank env) g"
    "connector_deploy (le_connector env) d (w0, new_connector i) = Inr ((), (w1, c))"
    "um_get (la_drivers l) gid = Some c" "la_pipeline_num l = d_pipeline_num d"
    "launcher_compute env gid b batch_size inputs in_routes out_routes (w, l) = Inr (res, (w', l'))" and es: "log w' = log w @ es"
    using assms(1) unfolding launcher_pass_def by blast
  have n: "actual_pipeline_num (d_pipeline_num d) batch_size = batch_size" using assms(4) by (simp add: actual_pipeline_num_def)
  from launcher_traffic [OF p(1,2) assms(2) p(3-6)] es assms(3,4)
  show "r_dest_graph r = g \<Longrightarrow> length (carried r es) = nat batch_size"
    and "r_source_graph r = g \<Longrightarrow> length (carried r es) = nat batch_size - delay_of (pass_order b d) r"
    unfolding n by auto
qed

text \<open>C39. When the batch is smaller than the number of microbatches of the pipeline, a pass over a pipeline with a route
  that skips a subgraph never ends: take a rank that holds the subgraph the route leaves and one that holds the subgraph it enters, both deployed, and
  the communication \<open>es\<close> that the passes of their launchers make when every receive is answered. Executed by rendezvous, together with any communication of the other ranks
  and in any order, one of the two is always left waiting: the launcher never sends the last microbatches on that route.\<close>

theorem small_batch_never_ends:
  assumes "launcher_pass log cur d b batch_size (r_source_graph r) (env k) (es k)" "k \<in> set (r_sources r)"
    and "launcher_pass log cur d b batch_size (r_dest_graph r) (env k') (es k')" "k' \<in> set (r_dests r)"
    and "distinct (pass_routes b d)" "r \<in> set (pass_routes b d)" "0 < delay_of (pass_order b d) r"
    and "0 < batch_size" "batch_size < d_pipeline_num d"
    and "rendezvous\<^sup>*\<^sup>* (\<lambda>k. transfers (es k)) s"
  shows "\<not> (s k = [] \<and> s k' = [])"
proof -
  have out: "length (carried r (es k)) = nat batch_size - delay_of (pass_order b d) r"
    by (rule launcher_pass_traffic(2) [OF assms(1,5,6,9) refl])
  have inn: "length (carried r (es k')) = nat batch_size"
    by (rule launcher_pass_traffic(1) [OF assms(3,5,6,9) refl])
  have "k \<in> getRanksInRoute r" "k' \<in> getRanksInRoute r" using assms(2,4) by (simp_all add: getRanksInRoute_def)
  from rendezvous_balance [OF this assms(10), unfolded length_carried [symmetric] out inn]
  have "length (filter (\<lambda>e. fst e = r) (s k)) + nat batch_size =
    length (filter (\<lambda>e. fst e = r) (s k')) + (nat batch_size - delay_of (pass_order b d) r)" .
  then show ?thesis using assms(7,8) by (cases "s k"; cases "s k'") simp_all
qed

section \<open>A pipeline of three subgraphs\<close>

text \<open>Subgraph \<open>a\<close> on rank 0 sends to \<open>b\<close> on rank 1 and past it to \<open>c\<close> on rank 2, which is late by one microbatch.\<close>

definition demo_route :: "string \<Rightarrow> int \<Rightarrow> string \<Rightarrow> int \<Rightarrow> string \<Rightarrow> RouteDP" where
  "demo_route name src sg dst dg =
     (new_RouteDP (loc_of name) (mkIRValue name createUnknownTensorType))\<lparr>r_sources := [src], r_source_graph := sg, r_dests := [dst], r_dest_graph := dg\<rparr>"

definition demo_routes :: "RouteDP list" where
  "demo_routes = [demo_route ''x'' 0 ''a'' 1 ''b'', demo_route ''z'' 0 ''a'' 2 ''c'', demo_route ''y'' 1 ''b'' 2 ''c'']"

definition demo_holds :: "int \<Rightarrow> string" where
  "demo_holds k = (if k = 0 then ''a'' else if k = 1 then ''b'' else ''c'')"

definition demo_order :: "(string, int) umap" where
  "demo_order = order_map [''a'', ''b'', ''c''] []"

definition demo_subgraph :: "string \<Rightarrow> IRGraph" where
  "demo_subgraph name = \<lparr>g_name = name, nodes = [], gvalues = [(''in'', mkIRValue ''in'' createUnknownTensorType)],
     g_inputs = [''in''], g_outputs = [], is_replicable = False\<rparr>"

definition demo_deployment :: Deployment where
  "demo_deployment = \<lparr>d_id = ''d'', d_graph = demo_subgraph ''g'', d_subgraphs = map (\<lambda>n. (n, demo_subgraph n)) [''a'', ''b'', ''c''],
     d_allocation = [(''a'', {0}), (''b'', {1}), (''c'', {2})], d_fwd_routes = demo_routes, d_fwd_in_routes = [], d_fwd_out_routes = [],
     d_fwd_graph_order = [''a'', ''b'', ''c''], d_bwd_routes = [], d_bwd_in_routes = [], d_bwd_out_routes = [], d_bwd_graph_order = [''c'', ''b'', ''a''],
     d_pipeline_num = 2, d_checkpointing = False\<rparr>"

type_synonym demo_world = "nat comm_event list \<times> int"

definition demo_connector_env :: "(demo_world, nat, unit) connector_env" where
  "demo_connector_env = \<lparr>ce_rank = 0, ce_distribute = (\<lambda>b d r v (es, cur). Inr (None, (es @ [(r, cur - d, v)], cur))),
     ce_forward = (\<lambda>m sg ins i. sret [(loc_of ''x'', nat i), (loc_of ''z'', nat i + 10)]), ce_backward = (\<lambda>sg ins i. sret []), ce_get_rng = sret (),
     ce_set_rng = (\<lambda>_. sret ()), ce_undefined = (\<lambda>_. False), ce_sum = front_value, ce_prepare_backward = (\<lambda>_. sret ()), ce_constant = (\<lambda>_. Inr 0),
     ce_param = (\<lambda>_ _. Inr 0), ce_create = (\<lambda>_ _ _ _. sret ()), ce_sort_names = (\<lambda>ns. ns)\<rparr>"

definition demo_env :: "(demo_world, nat, unit) launcher_env" where
  "demo_env = \<lparr>le_connector = demo_connector_env, le_size = 3, le_hasher = \<lparr>hash_long = (\<lambda>_. 0), hash_string = (\<lambda>_. 0)\<rparr>, le_root_tags = {}, le_start = (\<lambda>_ _. sret ()),
     le_start_split = (\<lambda>i (es, _). Inr ((), (es, i))), le_distribute = (\<lambda>_ _ _ v. sret v), le_slice = (\<lambda>v _ _. Inr v), le_concat = (\<lambda>_ _. Inr 0),
     le_align = (\<lambda>v _ _. Inr v), le_scale = (\<lambda>_ v. Inr v), le_guess_batch = (\<lambda>_. 3), le_max_batch = sret, le_bcast = (\<lambda>_. sret), le_bcast_map = (\<lambda>_. sret),
     le_zero = (\<lambda>_. False), le_bcast_params = (\<lambda>_. sret ()), le_set_grads = (\<lambda>_. sret ())\<rparr>"

definition demo_driver :: "(nat, unit) connector" where
  "demo_driver = (case connector_deploy demo_connector_env demo_deployment (([], 0), new_connector ''d'') of Inr (_, (_, c)) \<Rightarrow> c | Inl _ \<Rightarrow> new_connector ''d'')"

definition demo_launcher :: "(nat, unit) launcher" where
  "demo_launcher = \<lparr>la_drivers = [(''d'', demo_driver)], la_bwd_running = [], la_deployment = demo_deployment, la_bcast_route = demo_route ''x'' 0 ''a'' 1 ''b'',
     la_last_batch_size = 0, la_gather_inputs = False, la_pipeline_num = 2\<rparr>"

definition demo_input :: RouteDP where
  "demo_input = (demo_route ''in'' 0 ''m'' 0 ''a'')\<lparr>r_value := (mkIRValue ''in'' createUnknownTensorType)\<lparr>is_batch := True\<rparr>\<rparr>"



lemma demo_observed: "observes demo_env fst snd"
  by (simp add: observes_def silent_def demo_env_def demo_connector_env_def sret_Inr split: prod.split)

text \<open>The same surroundings on rank 2, which holds \<open>c\<close>.\<close>

definition demo_env2 :: "(demo_world, nat, unit) launcher_env" where
  "demo_env2 = demo_env\<lparr>le_connector := demo_connector_env\<lparr>ce_rank := 2\<rparr>\<rparr>"

lemma demo_observed2: "observes demo_env2 fst snd"
  by (simp add: observes_def silent_def demo_env2_def demo_env_def demo_connector_env_def sret_Inr split: prod.split)

lemma demo_sole_on:
  assumes "(rank, g) \<in> {(0, ''a''), (2, ''c'')}"
  shows "sole_graph demo_deployment rank g"
proof -
  have graphs: "\<exists>gr. getGraphsOnRank demo_deployment rank = Inr [(g, gr)]"
    using assms by (auto simp: getGraphsOnRank_def demo_deployment_def um_at_def)
  have names: "filter (\<lambda>n. n = g) (pass_names b demo_deployment) = [g]" for b
    using assms by (cases b) (auto simp: pass_names_def demo_deployment_def)
  have "routes_forward (pass_order False demo_deployment) (pass_routes False demo_deployment)" by code_simp
  moreover have "routes_forward (pass_order True demo_deployment) (pass_routes True demo_deployment)" by code_simp
  ultimately have "routes_forward (pass_order b demo_deployment) (pass_routes b demo_deployment)" for b by (cases b) simp_all
  with graphs names show ?thesis by (simp add: sole_graph_def)
qed

lemma demo_sole: "sole_graph demo_deployment (le_rank demo_env) ''a''"
  by (rule demo_sole_on) (simp add: demo_env_def demo_connector_env_def)

lemma demo_sole2: "sole_graph demo_deployment (le_rank demo_env2) ''c''"
  by (rule demo_sole_on) (simp add: demo_env2_def demo_env_def demo_connector_env_def)

lemma demo_deploys: "connector_deploy (le_connector demo_env) demo_deployment (([], 0), new_connector ''d'') = Inr ((), (([], 0), demo_driver))"
proof -
  have "case connector_deploy demo_connector_env demo_deployment (([], 0), new_connector ''d'') of Inr (_, (w, _)) \<Rightarrow> w = ([], 0) | Inl _ \<Rightarrow> False"
    by code_simp
  then show ?thesis unfolding demo_env_def launcher_env.simps
    by (auto simp: demo_driver_def split: sum.splits prod.splits)
qed

lemma demo_driver_of: "um_get (la_drivers demo_launcher) ''d'' = Some demo_driver"
  by (simp add: demo_launcher_def)

definition demo_microbatches :: "((string, nat ivalues) umap list \<times> (demo_world \<times> (nat, unit) launcher)) res" where
  "demo_microbatches = smap (run_split demo_env ''d'' False [2, 1] [2, 1] [[(''a'', [(loc_of ''in'', 3)])], [(''a'', [(loc_of ''in'', 4)])]])
     [0..<2] (([], 0), demo_launcher)"

definition demo_compute :: "(nat ovalues \<times> (demo_world \<times> (nat, unit) launcher)) res" where
  "demo_compute = launcher_compute demo_env ''d'' False 3 [(loc_of ''in'', Some 3)] [demo_input] [] (([], 0), demo_launcher)"

lemma demo_microbatches_run: "case demo_microbatches of Inl _ \<Rightarrow> False | Inr _ \<Rightarrow> True"
  by code_simp

lemma demo_compute_runs: "case demo_compute of Inl _ \<Rightarrow> False | Inr _ \<Rightarrow> True"
  by code_simp

theorem deployed_rank_follows_schedule_witness:
  "\<exists>outs w' l'. demo_microbatches = Inr (outs, (w', l')) \<and>
     (\<exists>m. transfers (fst w') = rank_schedule (pass_order False demo_deployment) demo_routes ''a'' 2 m)"
proof -
  obtain outs w' l' where run: "demo_microbatches = Inr (outs, (w', l'))"
    using demo_microbatches_run by (auto split: sum.splits)
  have 2: "nat (d_pipeline_num demo_deployment) = 2" and r: "pass_routes False demo_deployment = demo_routes"
    by (simp_all add: demo_deployment_def pass_routes_def)
  from run have "smap (run_split demo_env ''d'' False [2, 1] [2, 1] [[(''a'', [(loc_of ''in'', 3)])], [(''a'', [(loc_of ''in'', 4)])]])
      [0..<nat (d_pipeline_num demo_deployment)] (([], 0), demo_launcher) = Inr (outs, (w', l'))" unfolding 2 demo_microbatches_def .
  from deployed_rank_follows_schedule [OF demo_observed demo_sole demo_deploys demo_driver_of this]
  show ?thesis using run unfolding 2 r
    by (intro exI [of _ outs] exI [of _ w'] exI [of _ l']) auto
qed

theorem route_traffic_witness:
  "\<exists>res w' l'. demo_compute = Inr (res, (w', l')) \<and> carried (demo_route ''z'' 0 ''a'' 2 ''c'') (fst w') = [0, 1]"
proof -
  obtain res w' l' where run: "demo_compute = Inr (res, (w', l'))"
    using demo_compute_runs by (auto split: sum.splits)
  have "distinct (pass_routes False demo_deployment)" by code_simp
  from route_traffic [OF demo_observed demo_sole this demo_deploys demo_driver_of _ run [unfolded demo_compute_def]]
  have "\<forall>r \<in> set demo_routes. r_source_graph r = ''a'' \<longrightarrow> carried r (fst w') = map int [0..<2]"
    by (simp add: demo_launcher_def demo_deployment_def pass_routes_def actual_pipeline_num_def)
  then have "carried (demo_route ''z'' 0 ''a'' 2 ''c'') (fst w') = map int [0..<2]"
    by (simp add: demo_routes_def demo_route_def)
  then show ?thesis using run by (intro exI [of _ res] exI [of _ w'] exI [of _ l']) (simp add: upt_rec)
qed

theorem pipeline_no_deadlock_witness: "\<exists>t. rendezvous (schedules demo_order demo_routes {0, 1, 2} demo_holds 2 1) t"
proof -
  have "pipeline_ok demo_order demo_routes {0, 1, 2} demo_holds" by code_simp
  moreover have "\<forall>r \<in> set demo_routes. delay_of demo_order r \<le> 1" by code_simp
  moreover have "length demo_routes = 3" by (simp add: demo_routes_def)
  ultimately show ?thesis
    using pipeline_no_deadlock [of demo_order demo_routes "{0, 1, 2}" demo_holds 1 0 2] by simp
qed


text \<open>A pass with a batch of three on the ranks 0 and 2; the pipeline has four microbatches.\<close>

definition demo_deep :: Deployment where
  "demo_deep = demo_deployment\<lparr>d_pipeline_num := 4\<rparr>"

lemma demo_deep_sole: "sole_graph demo_deep rank g = sole_graph demo_deployment rank g"
proof -
  have "pass_names b demo_deep = pass_names b demo_deployment" "pass_routes b demo_deep = pass_routes b demo_deployment" for b
    by (simp_all add: demo_deep_def pass_names_def pass_routes_def)
  moreover have "getGraphsOnRank demo_deep rank = getGraphsOnRank demo_deployment rank"
    by (simp add: getGraphsOnRank_def demo_deep_def)
  ultimately show ?thesis by (simp only: sole_graph_def)
qed

definition demo_deep_driver :: "(demo_world, nat, unit) launcher_env \<Rightarrow> (nat, unit) connector" where
  "demo_deep_driver env = (case connector_deploy (le_connector env) demo_deep (([], 0), new_connector ''d'') of Inr (_, (_, c)) \<Rightarrow> c | Inl _ \<Rightarrow> new_connector ''d'')"

definition demo_deep_deploys :: "(demo_world, nat, unit) launcher_env \<Rightarrow> bool" where
  "demo_deep_deploys env = (case connector_deploy (le_connector env) demo_deep (([], 0), new_connector ''d'') of Inr (_, (w, _)) \<Rightarrow> w = ([], 0) | Inl _ \<Rightarrow> False)"

lemma demo_deep_deployed: "demo_deep_deploys demo_env" "demo_deep_deploys demo_env2"
  by code_simp+

definition demo_small :: "(demo_world, nat, unit) launcher_env \<Rightarrow> (nat ovalues \<times> (demo_world \<times> (nat, unit) launcher)) res" where
  "demo_small env = launcher_compute env ''d'' False 3 [(loc_of ''in'', Some 3)] [demo_input] []
     (([], 0), demo_launcher\<lparr>la_drivers := [(''d'', demo_deep_driver env)], la_pipeline_num := 4\<rparr>)"

lemma demo_small_runs:
  "case demo_small demo_env of Inl _ \<Rightarrow> False | Inr _ \<Rightarrow> True"
  "case demo_small demo_env2 of Inl _ \<Rightarrow> False | Inr _ \<Rightarrow> True"
  by code_simp+

lemma demo_small_pass:
  assumes "observes env fst snd" "sole_graph demo_deployment (le_rank env) g" "case demo_small env of Inl _ \<Rightarrow> False | Inr _ \<Rightarrow> True"
    and "demo_deep_deploys env"
  shows "\<exists>es. launcher_pass fst snd demo_deep False 3 g env es"
proof -
  let ?l = "demo_launcher\<lparr>la_drivers := [(''d'', demo_deep_driver env)], la_pipeline_num := 4\<rparr>"
  obtain res w' l' where "demo_small env = Inr (res, (w', l'))" using assms(3) by (auto split: sum.splits)
  then have run: "launcher_compute env ''d'' False 3 [(loc_of ''in'', Some 3)] [demo_input] [] (([], 0), ?l) = Inr (res, (w', l'))"
    by (simp only: demo_small_def)
  have deploys: "connector_deploy (le_connector env) demo_deep (([], 0), new_connector ''d'') = Inr ((), (([], 0), demo_deep_driver env))"
    using assms(4) by (auto simp: demo_deep_driver_def demo_deep_deploys_def split: sum.splits prod.splits)
  have l: "um_get (la_drivers ?l) ''d'' = Some (demo_deep_driver env)" "la_pipeline_num ?l = d_pipeline_num demo_deep"
    by (simp_all add: demo_deep_def)
  have "fst w' = fst (([], 0) :: demo_world) @ fst w'" by simp
  with deploys l run have "\<exists>w0 i w1 c l gid inputs in_routes out_routes w res w2 l'.
      connector_deploy (le_connector env) demo_deep (w0, new_connector i) = Inr ((), (w1, c)) \<and>
      um_get (la_drivers l) gid = Some c \<and> la_pipeline_num l = d_pipeline_num demo_deep \<and>
      launcher_compute env gid False 3 inputs in_routes out_routes (w, l) = Inr (res, (w2, l')) \<and> fst w2 = fst w @ fst w'" by blast
  with assms(1,2) have "launcher_pass fst snd demo_deep False 3 g env (fst w')"
    unfolding launcher_pass_def demo_deep_sole by blast
  then show ?thesis ..
qed

theorem small_batch_never_ends_witness:
  "\<exists>es :: int \<Rightarrow> nat comm_event list. \<not> (transfers (es 0) = [] \<and> transfers (es 2) = []) \<and>
     launcher_pass fst snd demo_deep False 3 ''a'' demo_env (es 0) \<and> launcher_pass fst snd demo_deep False 3 ''c'' demo_env2 (es 2)"
proof -
  let ?z = "demo_route ''z'' 0 ''a'' 2 ''c''"
  obtain es0 es2 where p: "launcher_pass fst snd demo_deep False 3 ''a'' demo_env es0" "launcher_pass fst snd demo_deep False 3 ''c'' demo_env2 es2"
    using demo_small_pass [OF demo_observed demo_sole demo_small_runs(1) demo_deep_deployed(1)] demo_small_pass [OF demo_observed2 demo_sole2 demo_small_runs(2) demo_deep_deployed(2)]
    by blast
  let ?es = "\<lambda>k :: int. if k = 0 then es0 else if k = 2 then es2 else []"
  have ends: "r_source_graph ?z = ''a''" "r_dest_graph ?z = ''c''" "0 \<in> set (r_sources ?z)" "2 \<in> set (r_dests ?z)" by (simp_all add: demo_route_def)
  have routes: "distinct (pass_routes False demo_deep)" "?z \<in> set (pass_routes False demo_deep)" "0 < delay_of (pass_order False demo_deep) ?z"
    by code_simp+
  have small: "0 < (3 :: int)" "3 < d_pipeline_num demo_deep" by (simp_all add: demo_deep_def)
  have "\<not> (transfers (?es 0) = [] \<and> transfers (?es 2) = [])"
    by (rule small_batch_never_ends [where es = ?es and env = "\<lambda>k. if k = 0 then demo_env else demo_env2", OF _ ends(3) _ ends(4) routes small rtranclp.rtrancl_refl])
      (use p in \<open>simp_all add: ends\<close>)
  with p show ?thesis by (intro exI [of _ ?es]) simp
qed

end
