(* ===== verification/Spec2Isabelle.thy ===== *)
theory Spec2Isabelle
  imports Redist_P2P Allocation_Search Deploy_Verified Type_Reduce Guess_Types Param_Storage_Correct Param_Deploy Pipeline_Deadlock
begin

text \<open>
  A model of RaNNC (\<open>src/src\<close>, C++), which cuts a neural network into stages, replicates the stages, places
  the replicas on devices and routes values between them, and the theorems that make the parts correct.

  How the parts work together. A model arrives as an \<^emph>\<open>IR graph\<close>: typed values and nodes. The
  \<^emph>\<open>type guess\<close> marks the values that carry a batch and the loss. The \<^emph>\<open>multilevel partitioner\<close> turns the
  graph into an \<^emph>\<open>ML graph\<close> of atomic subgraphs, merges adjacent nodes level by level, moves nodes over the
  boundaries on the way back and fuses what is small; it asks the \<^emph>\<open>profiler\<close> for the cost of a subgraph. The
  \<^emph>\<open>staging search\<close> is a dynamic program over the resulting sequence: it picks cut points, numbers of
  replicas and a number of microbatches. The \<^emph>\<open>decomposition driver\<close> connects the stages, \<^emph>\<open>replicates\<close> them
  with a share of the batch each, \<^emph>\<open>allocates\<close> devices, and makes a \<^emph>\<open>deployment\<close>: routes with message tags
  and an order of the stages, which \<open>verifyDeployment\<close> checks. At run time a batch that crosses a stage
  boundary is \<^emph>\<open>redistributed\<close> between the ranks of the two stages, the \<^emph>\<open>parameter storage\<close> keeps the
  parameters with their ranks, and a parameter may be kept in \<^emph>\<open>segments\<close>, one per rank.
\<close>

subsection \<open>Theories and the code they model\<close>

text \<open>
  \<^item> \<open>Rannc_Prelude\<close>: results (\<open>'a res = exc + 'a\<close>), folds and maps over results, state passing (\<open>st\<close>),
    \<open>unordered_map\<close> as an association list in iteration order (\<open>umap\<close>), \<open>size_t\<close> as a 64-bit word.
  \<^item> \<open>Common_Util\<close> (\<open>Common.h\<close>, \<open>Common.cpp\<close>): strings, containers, the shares of a batch and of a dimension.
  \<^item> \<open>Redist\<close>, \<open>Redist_P2P\<close> (\<open>comm/SComm.cpp\<close>, \<open>comm/SCommCommon.cpp\<close>): who sends which slice to whom, and the
    execution of the sends and receives as a step relation over the ranks.
  \<^item> \<open>IR_Types\<close>, \<open>IR_Graph\<close>, \<open>IR_Semantics\<close> (\<open>graph/ir.h\<close>, \<open>graph/ir.cpp\<close>, \<open>torch/IValueLocation.cpp\<close>): types,
    values, nodes, graphs; what a graph computes, for operators given as a parameter.
  \<^item> \<open>Partition\<close>, \<open>Value_Graph\<close> (\<open>graph/Decomposition.h\<close>, \<open>graph/Decomposition.cpp\<close>): Boost graphs as adjacency
    lists and the graph of values and nodes with its ranks.
  \<^item> \<open>ML_Graph\<close>, \<open>ML_Coarsen\<close>, \<open>ML_Refine\<close> with \<open>ML_Coarsen_Correct\<close>, \<open>ML_Refine_Correct\<close> (\<open>graph/MLGraph.cpp\<close>,
    \<open>graph/Partitioner.cpp\<close>): the multilevel partitioner. \<open>Profiler_Util\<close> (\<open>graph/ProfilerUtil.cpp\<close>): costs and
    their cache.
  \<^item> \<open>DP_Staging\<close> with \<open>DP_Merge_Correct\<close>, \<open>DP_Staging_Correct\<close>, \<open>DP_Properties\<close> (\<open>graph/DPStaging.cpp\<close>).
  \<^item> \<open>Replication\<close>, \<open>Allocation\<close>, \<open>Allocation_Search\<close> (\<open>graph/Decomposition.cpp\<close>).
  \<^item> \<open>Routes\<close> (\<open>comm/SCommCommon.h\<close>, \<open>comm/SComm.h\<close>: routes, \<open>TagMap\<close>), \<open>Deployment\<close> with \<open>Deployment_Correct\<close>
    (\<open>createDeployment\<close>, \<open>verifyDeployment\<close>).
  \<^item> \<open>ML_Decompose\<close> with \<open>ML_Decompose_Correct\<close>, \<open>Deploy_Correct\<close>, \<open>Deploy_Verified\<close>
    (\<open>graph/MLPartDecomposer.cpp\<close>, \<open>MLPartitioner::partition\<close>): the composition of all of it.
  \<^item> \<open>Type_Reduce\<close> (\<open>comm/SCommCommon.cpp\<close>): the type of a batch from the types its ranks hold.
  \<^item> \<open>Guess_Types\<close> (\<open>graph/GuessValueTypes.cpp\<close>): which values of a graph are batches, parameters, constants and losses.
  \<^item> \<open>Param_Segments\<close> (\<open>comp/DistributedParamLocatorBase.cpp\<close>, \<open>comp/DistributedParamLocator.cpp\<close>,
    \<open>comp/DistributedGradLocator.cpp\<close>): a parameter cut into one segment per rank.
  \<^item> \<open>Grad_Consolidation\<close>, \<open>Param_Storage\<close> with \<open>Param_Storage_Correct\<close>, \<open>Param_Deploy\<close> (\<open>comp/ParamStorage.cpp\<close>): gradients
    in common buffers; the parameters of a rank with their ids, uses and ranks, from registration to release.
  \<^item> \<open>Graph_Connector\<close> (\<open>comp/GraphConnector.cpp\<close>), \<open>Graph_Launcher\<close> (\<open>comp/GraphLauncher.cpp\<close>): the passes of a
    deployed graph, microbatch by microbatch: what is received, run and sent when. \<open>Pipeline_Schedule\<close>,
    \<open>Pipeline_Deadlock\<close>: what a rank communicates in a pass, and the ranks of a pipeline together.
  \<^item> \<open>Topo_Sort\<close>: a topological sort that meets the law assumed of Boost's, for witnesses.
\<close>

subsection \<open>What the lemmas show\<close>

text \<open>
  Merging and coarsening keep the meaning of a graph and lose no operator, the staging search returns
  stages that compute what the model computes, fit the devices and are cheapest among the solutions the
  search looked at; stages that fit together are deployed without an error and pass \<open>verifyDeployment\<close>; a
  redistribution delivers every slice and cannot deadlock; the shares of a batch add up; replicas keep
  the structure of a graph; the searches for devices deal each device once; tags are unique while there
  are tags left. The guess of the value types follows its rules, depends on no order and returns;
  stored segments give a floating parameter back; types dealt out and reduced are the same; consolidating loses
  no gradient; the counts of the parameter storage are the uses in every reachable state, so that
  release frees exactly what has no use left; deployment, which is one of the steps, refuses parameters shared by two
  subgraphs of one rank.
  A deployed rank communicates exactly its schedule, the schedules of a pipeline cannot deadlock, and every
  route carries every microbatch in order; with fewer microbatches than the pipeline
  has a pass over a late route never ends. The last of these, like some lemmas whose text
  says so, states a flaw of the code.
  The interfaces are locales, interpreted on the model's own operations: \<open>cache_ops\<close> for caches
  (\<open>Rannc_Prelude\<close>), \<open>event_order\<close> for the order of messages (\<open>Redist_P2P\<close>), \<open>device_dealing\<close> and its extension
  \<open>packed_dealing\<close> for the allocation searches (\<open>Allocation\<close>).
\<close>

subsection \<open>Conventions\<close>

text \<open>
  \<^item> A C++ exception, a failed assertion and undefined behaviour are values of \<open>exc\<close>. Assertions count as
    errors although a release build drops them; a loop that never ends is \<open>Inl Never_returns\<close>.
  \<^item> \<open>size_t\<close> is \<open>64 word\<close> and wraps; \<open>int\<close> and \<open>long\<close> are \<open>int\<close> with \<open>wrap32\<close> where the code can reach the bound.
    The \<open>long\<close> costs of the staging search and byte counts of a parameter are unbounded integers.
  \<^item> Divisions in \<open>double\<close> that are truncated or rounded up are exact quotients; this agrees with the code
    below 2^53.
  \<^item> \<open>std::sort\<close> is a stable sort; the iteration order of an unordered container is the list order of its
    \<open>umap\<close>, or an argument (\<open>ord\<close>) where a set is walked through.
  \<^item> Parameters, which stand for code outside \<open>src/\<close> or for the surroundings: Boost's topological sort and
    reachability (laws \<open>topo_law\<close>, \<open>reach_law\<close>), the device behind the profiler, generated names, the hash
    function, configuration values, the number of ranks, and the uninitialised fields of a vertex.
  \<^item> PyTorch refuses to set \<open>requires_grad\<close> on a tensor that is not of a floating type; \<open>set_requires_grad\<close> and
    \<open>torch_zeros\<close> (\<open>Param_Segments\<close>) throw there.
  \<^item> No fuel is used: every loop is structural, has a measure, or is a \<open>while_option\<close> whose end is proved.
\<close>

subsection \<open>Not modelled\<close>

text \<open>
  \<^item> \<open>bind/\<close>, \<open>torch/TorchUtil.cpp\<close>, \<open>torch/TorchDriver.cpp\<close>, \<open>graph/ConvertGraph.cpp\<close>, \<open>comp/Validator.cpp\<close>,
    \<open>comp/Backward.cpp\<close>: calls of PyTorch and pybind11 on their objects.
  \<^item> \<open>comm/NCCLWrapper.cpp\<close>, \<open>comm/ObjectComm.cpp\<close>, \<open>comm/SCommPrimitive.cpp\<close>, \<open>comm/MPIUtil.cpp\<close> (but for the tags),
    the rest of \<open>comm/SComm.cpp\<close>, \<open>cuda/\<close>: calls of NCCL, MPI and CUDA on device buffers.
  \<^item> \<open>comp/GraphProfiler.cpp\<close>, \<open>comp/RaNNCModule.cpp\<close>: they run traced graphs on tensors and measure them, and
    connect Python objects with the components.
  \<^item> \<open>Config.cpp\<close>, \<open>Logging.cpp\<close>, \<open>main.cpp\<close>, \<open>comp/EventRecorder.cpp\<close>, \<open>comp/TimeCounter.cpp\<close>,
    \<open>graph/DeploymentSerializer.cpp\<close>: files, clocks and printing.
  \<^item> \<open>comp/FunctionStorage.cpp\<close>, \<open>comp/GraphValueStorage.cpp\<close>: maps from names to PyTorch functions and values.
  \<^item> The scaling and the norms of gradients in \<open>comp/ParamStorage.cpp\<close> (\<open>doScaleGrads\<close>, \<open>clipGradNorm\<close>,
    \<open>calcGradGlobalL2Norm\<close>), and \<open>graph/FairWeightDecomposer.cpp\<close>, \<open>graph/SchedulingDecomposer.cpp\<close>,
    \<open>graph/ProfiledWeightDecomposer.cpp\<close> with their balancers: they compute in floating point.
  \<^item> \<open>graph/ManualDecomposer.cpp\<close>: it calls \<open>searchAllocation\<close> with a result type it no longer has and is not
    part of the build.
  \<^item> \<open>makeCommBufSummary\<close>, \<open>getConnectedComponents\<close>, \<open>toUndirected\<close>: nothing calls them.
\<close>

end
